(* ===== verification/Pv_Prelude.thy ===== *)
theory Pv_Prelude
  imports Main "HOL-Library.Word"
begin

unbundle bit_operations_syntax

text \<open>
  The vocabulary every component shares: the machine-integer types of the source, the crate-wide
  error type of \<^verbatim>\<open>src/core/errors.rs\<close>, Rust's \<^verbatim>\<open>Result\<close> with panics made explicit, byte slices,
  the little-endian integer codec, and the interface (a locale) of a positioned byte reader with
  its encoder, in which the loops \<^verbatim>\<open>for _ in 0..n { out.push(read(buf, &mut pos)?) }\<close> of the
  decoders are proved correct once.
\<close>

named_theorems safe_intros \<open>readers that neither panic nor leave the buffer\<close>
named_theorems layout \<open>encoders as one concatenation of fields\<close>

section \<open>Machine integers\<close>

type_synonym u8 = "8 word"
type_synonym u16 = "16 word"
type_synonym u32 = "32 word"
type_synonym u64 = "64 word"
type_synonym u128 = "128 word"

text \<open>
  Signed integers are the same bit patterns; \<^const>\<open>sint\<close> reads them, and a Rust cast between
  the signed and unsigned type of one width is the identity.
\<close>

type_synonym i32 = "32 word"
type_synonym i64 = "64 word"
type_synonym i128 = "128 word"

type_synonym bytes = "u8 list"

text \<open>A Rust \<^verbatim>\<open>String\<close> is its bytes; \<open>ascii\<close> gives those of a literal.\<close>

definition ascii :: "string \<Rightarrow> bytes" where
  "ascii s = map of_char s"

text \<open>
  \<^verbatim>\<open>usize\<close> is 64 bits wide: a \<^verbatim>\<open>usize\<close> is a natural number and the checked operations of the
  source compare with \<open>2 ^ 64\<close>.
\<close>

definition usize_max :: nat where
  "usize_max = 2 ^ 64 - 1"

definition checked_add :: "nat \<Rightarrow> nat \<Rightarrow> nat option" where
  "checked_add a b = (if a + b \<le> usize_max then Some (a + b) else None)"

definition checked_mul :: "nat \<Rightarrow> nat \<Rightarrow> nat option" where
  "checked_mul a b = (if a * b \<le> usize_max then Some (a * b) else None)"

definition div_ceil :: "nat \<Rightarrow> nat \<Rightarrow> nat" where
  "div_ceil a b = (a + b - 1) div b"

section \<open>Errors and results\<close>

text \<open>
  The variants of \<^verbatim>\<open>PvError\<close>. A message built with \<^verbatim>\<open>format!\<close> is represented by its template.
  \<^verbatim>\<open>Io\<close> carries the kind of the operating-system error, \<^verbatim>\<open>Manifest\<close> the serde message.
\<close>

datatype compliance_error = ThresholdExceeded

datatype pv_error =
    Io string
  | SignatureMismatch bytes bytes
  | Corruption string
  | PageFault u64
  | BufferTooSmall nat nat
  | OutOfBounds nat nat
  | InvalidPageType u8
  | PageFull nat nat
  | CasMiss string
  | Wasm string
  | ReadOnly
  | TableNotFound string
  | Schema string
  | Query string
  | ResourceLimit string
  | Busy string
  | Cancelled
  | DatabaseClosed
  | TransactionClosed
  | TransactionOutcomeUnknown string
  | Transaction string
  | Manifest string
  | Compliance compliance_error

text \<open>
  The outcome of a fallible function: \<^verbatim>\<open>Ok\<close>, \<^verbatim>\<open>Err\<close>, or a panic (an \<^verbatim>\<open>unwrap\<close> or \<^verbatim>\<open>expect\<close> that
  fails, an index or slice out of range, an arithmetic underflow). \<open>and_then\<close> is the \<^verbatim>\<open>?\<close>
  operator.
\<close>

datatype 'a result = Ok 'a | Err pv_error | Panic

fun and_then :: "'a result \<Rightarrow> ('a \<Rightarrow> 'b result) \<Rightarrow> 'b result" where
  "and_then (Ok x) f = f x"
| "and_then (Err e) f = Err e"
| "and_then Panic f = Panic"

definition ok_or :: "'a option \<Rightarrow> pv_error \<Rightarrow> 'a result" where
  "ok_or x e = (case x of None \<Rightarrow> Err e | Some v \<Rightarrow> Ok v)"

definition is_ok :: "'a result \<Rightarrow> bool" where
  "is_ok r = (case r of Ok _ \<Rightarrow> True | _ \<Rightarrow> False)"

definition map_err :: "'a result \<Rightarrow> pv_error \<Rightarrow> 'a result" where
  "map_err r e = (case r of Err _ \<Rightarrow> Err e | _ \<Rightarrow> r)"

lemma and_then_eq_Ok: "and_then m f = Ok y \<longleftrightarrow> (\<exists>x. m = Ok x \<and> f x = Ok y)"
  by (cases m) auto

lemma and_then_eq_Panic: "and_then m f = Panic \<longleftrightarrow> m = Panic \<or> (\<exists>x. m = Ok x \<and> f x = Panic)"
  by (cases m) auto

lemma and_then_eq_Err:
  "and_then m f = Err e \<longleftrightarrow> m = Err e \<or> (\<exists>x. m = Ok x \<and> f x = Err e)"
  by (cases m) auto

lemma and_then_assoc: "and_then (and_then m f) g = and_then m (\<lambda>x. and_then (f x) g)"
  by (cases m) auto

lemma and_then_cong [fundef_cong]:
  "m = m' \<Longrightarrow> (\<And>x. m' = Ok x \<Longrightarrow> f x = g x) \<Longrightarrow> and_then m f = and_then m' g"
  by (cases m') auto

lemma ok_or_simps [simp]: "ok_or None e = Err e" "ok_or (Some v) e = Ok v"
  by (simp_all add: ok_or_def)

lemma ok_or_eq_Ok [simp]: "ok_or x e = Ok v \<longleftrightarrow> x = Some v"
  by (cases x) auto

lemma ok_or_not_Panic [simp]: "ok_or x e \<noteq> Panic"
  by (cases x) auto

lemma map_err_simps [simp]:
  "map_err (Ok x) e = Ok x" "map_err (Err e') e = Err e" "map_err Panic e = Panic"
  by (simp_all add: map_err_def)

lemma map_err_eq_Ok [simp]: "map_err r e = Ok x \<longleftrightarrow> r = Ok x"
  by (cases r) auto

lemma map_err_eq_Panic [simp]: "map_err r e = Panic \<longleftrightarrow> r = Panic"
  by (cases r) auto

lemma is_ok_simps [simp]: "is_ok (Ok x)" "\<not> is_ok (Err e)" "\<not> is_ok Panic"
  by (simp_all add: is_ok_def)

text \<open>\<^verbatim>\<open>.map(..).collect::<Result<Vec<_>>>()\<close>: the first error wins.\<close>

fun collect_results :: "('a \<Rightarrow> 'b result) \<Rightarrow> 'a list \<Rightarrow> 'b list result" where
  "collect_results f [] = Ok []"
| "collect_results f (x # xs) =
     and_then (f x) (\<lambda>y. and_then (collect_results f xs) (\<lambda>ys. Ok (y # ys)))"

lemma collect_results_Ok:
  "collect_results f xs = Ok ys \<longleftrightarrow> list_all2 (\<lambda>x y. f x = Ok y) xs ys"
  by (induction xs arbitrary: ys) (auto simp: and_then_eq_Ok list_all2_Cons1)

lemma collect_results_not_Panic: "(\<And>x. x \<in> set xs \<Longrightarrow> f x \<noteq> Panic) \<Longrightarrow> collect_results f xs \<noteq> Panic"
  by (induction xs) (auto simp: and_then_eq_Panic)

lemma collect_results_map: "(\<And>x. x \<in> set xs \<Longrightarrow> f x = Ok (g x)) \<Longrightarrow> collect_results f xs = Ok (map g xs)"
  by (induction xs) auto

lemma collect_results_cong [fundef_cong]:
  "xs = ys \<Longrightarrow> (\<And>x. x \<in> set ys \<Longrightarrow> f x = g x) \<Longrightarrow> collect_results f xs = collect_results g ys"
  by (induction ys arbitrary: xs) auto

section \<open>Slices\<close>

text \<open>\<^verbatim>\<open>buf.get(a..b)\<close>, and \<^verbatim>\<open>buf[a..b].copy_from_slice(data)\<close> (with the range in bounds).\<close>

definition slice_get :: "'a list \<Rightarrow> nat \<Rightarrow> nat \<Rightarrow> 'a list option" where
  "slice_get buf a b = (if a \<le> b \<and> b \<le> length buf then Some (take (b - a) (drop a buf)) else None)"

definition elem_get :: "'a list \<Rightarrow> nat \<Rightarrow> 'a option" where
  "elem_get buf i = (if i < length buf then Some (buf ! i) else None)"

definition overwrite :: "'a list \<Rightarrow> nat \<Rightarrow> 'a list \<Rightarrow> 'a list" where
  "overwrite buf at data = take at buf @ data @ drop (at + length data) buf"

text \<open>\<^verbatim>\<open>&buf[a..b]\<close> and \<^verbatim>\<open>buf[i]\<close>: out of range is a panic.\<close>

definition slice_at :: "'a list \<Rightarrow> nat \<Rightarrow> nat \<Rightarrow> 'a list result" where
  "slice_at buf a b = (case slice_get buf a b of Some s \<Rightarrow> Ok s | None \<Rightarrow> Panic)"

definition elem_at :: "'a list \<Rightarrow> nat \<Rightarrow> 'a result" where
  "elem_at buf i = (case elem_get buf i of Some s \<Rightarrow> Ok s | None \<Rightarrow> Panic)"

text \<open>\<^verbatim>\<open>buf[at..at + data.len()].copy_from_slice(data)\<close>\<close>

definition copy_into :: "'a list \<Rightarrow> nat \<Rightarrow> 'a list \<Rightarrow> 'a list result" where
  "copy_into buf at data = (if at + length data \<le> length buf then Ok (overwrite buf at data) else Panic)"

text \<open>\<^verbatim>\<open>a - b\<close> on \<^verbatim>\<open>usize\<close>\<close>

definition usize_sub :: "nat \<Rightarrow> nat \<Rightarrow> nat result" where
  "usize_sub a b = (if b \<le> a then Ok (a - b) else Panic)"

lemma usize_sub_le [simp]: "b \<le> a \<Longrightarrow> usize_sub a b = Ok (a - b)"
  by (simp add: usize_sub_def)

lemma length_le_concat: "x \<in> set xs \<Longrightarrow> length (f x) \<le> length (concat (map f xs))"
  by (induction xs) auto

lemma split_at: "n \<le> length xs \<Longrightarrow> \<exists>ys zs. xs = ys @ zs \<and> length ys = n"
  by (rule exI [of _ "take n xs"], rule exI [of _ "drop n xs"]) simp

lemma overwrite_mid:
  "length d = length b \<Longrightarrow> n = length a \<Longrightarrow> overwrite (a @ b @ c) n d = a @ d @ c"
  by (simp add: overwrite_def)

lemma copy_into_mid:
  "length d = length b \<Longrightarrow> n = length a \<Longrightarrow> copy_into (a @ b @ c) n d = Ok (a @ d @ c)"
  by (simp add: copy_into_def overwrite_mid)

lemma slice_get_append [simp]:
  "slice_get (pre @ mid @ post) (length pre) (length pre + length mid) = Some mid"
  by (simp add: slice_get_def)

lemma slice_get_append_n:
  "n = length mid \<Longrightarrow> slice_get (pre @ mid @ post) (length pre) (length pre + n) = Some mid"
  by simp

lemma slice_get_length: "slice_get buf a b = Some s \<Longrightarrow> length s = b - a"
  by (auto simp: slice_get_def split: if_splits)

lemma slice_get_Some_iff: "(\<exists>s. slice_get buf a b = Some s) \<longleftrightarrow> a \<le> b \<and> b \<le> length buf"
  by (auto simp: slice_get_def)

lemma slice_get_bound: "slice_get buf a b = Some s \<Longrightarrow> a \<le> b \<and> b \<le> length buf"
  by (auto simp: slice_get_def split: if_splits)

lemma slice_get_split:
  assumes "slice_get buf a b = Some s" "slice_get buf b c = Some t"
  shows "slice_get buf a c = Some (s @ t)"
proof -
  from assms have *: "a \<le> b" "b \<le> c" "c \<le> length buf" "s = take (b - a) (drop a buf)"
    "t = take (c - b) (drop b buf)"
    by (auto simp: slice_get_def split: if_splits)
  have "take (c - a) (drop a buf) = take ((b - a) + (c - b)) (drop a buf)"
    using * by simp
  also have "\<dots> = take (b - a) (drop a buf) @ take (c - b) (drop (b - a) (drop a buf))"
    by (rule take_add)
  also have "drop (b - a) (drop a buf) = drop b buf"
    using * by simp
  finally show ?thesis using * by (simp add: slice_get_def)
qed

lemma slice_get_empty [simp]: "a \<le> length buf \<Longrightarrow> slice_get buf a a = Some []"
  by (simp add: slice_get_def)

lemma slice_get_all [simp]: "slice_get buf 0 (length buf) = Some buf"
  by (simp add: slice_get_def)

lemma elem_get_append [simp]: "elem_get (pre @ x # post) (length pre) = Some x"
  by (simp add: elem_get_def)

lemma elem_get_slice: "elem_get buf i = Some x \<longleftrightarrow> slice_get buf i (Suc i) = Some [x]"
  by (auto simp: elem_get_def slice_get_def take_Suc_conv_app_nth Cons_nth_drop_Suc [symmetric])

lemma elem_get_bound: "elem_get buf i = Some x \<Longrightarrow> i < length buf"
  by (auto simp: elem_get_def split: if_splits)

lemma length_overwrite [simp]:
  "at + length data \<le> length buf \<Longrightarrow> length (overwrite buf at data) = length buf"
  by (simp add: overwrite_def)

lemma nth_overwrite:
  assumes "at + length data \<le> length buf" "i < length buf"
  shows "overwrite buf at data ! i =
    (if at \<le> i \<and> i < at + length data then data ! (i - at) else buf ! i)"
  using assms by (auto simp: overwrite_def nth_append min_def)

lemma slice_overwrite_same:
  assumes "at + length data \<le> length buf"
  shows "slice_get (overwrite buf at data) at (at + length data) = Some data"
  using assms by (simp add: slice_get_def overwrite_def)

lemma slice_overwrite_other:
  assumes "at + length data \<le> length buf" "b \<le> at \<or> at + length data \<le> a"
  shows "slice_get (overwrite buf at data) a b = slice_get buf a b"
proof (cases "a \<le> b \<and> b \<le> length buf")
  case True
  have "take (b - a) (drop a (overwrite buf at data)) = take (b - a) (drop a buf)"
    by (rule nth_equalityI) (use assms True in \<open>auto simp: nth_overwrite\<close>)
  then show ?thesis using True assms by (simp add: slice_get_def)
next
  case False
  then show ?thesis using assms by (auto simp: slice_get_def)
qed

lemma slice_at_Ok [simp]: "slice_at buf a b = Ok s \<longleftrightarrow> slice_get buf a b = Some s"
  by (simp add: slice_at_def split: option.splits)

lemma slice_at_in [simp]:
  "a \<le> b \<Longrightarrow> b \<le> length buf \<Longrightarrow> slice_at buf a b = Ok (take (b - a) (drop a buf))"
  by (simp add: slice_get_def)

lemma slice_at_end: "p \<le> length buf \<Longrightarrow> slice_at buf p (length buf) = Ok (drop p buf)"
  by simp

lemma elem_at_in [simp]: "i < length buf \<Longrightarrow> elem_at buf i = Ok (buf ! i)"
  by (simp add: elem_at_def elem_get_def)

lemma take_drop_add: "take (m + n) xs = take m xs @ take n (drop m xs)"
  by (rule take_add)

lemma slice_at_Panic: "slice_at buf a b = Panic \<longleftrightarrow> \<not> (a \<le> b \<and> b \<le> length buf)"
  by (auto simp: slice_at_def slice_get_def)

section \<open>Little-endian integers\<close>

text \<open>\<^verbatim>\<open>to_le_bytes\<close> and \<^verbatim>\<open>from_le_bytes\<close> for an integer of \<open>n\<close> bytes.\<close>

primrec to_le :: "nat \<Rightarrow> 'a::len word \<Rightarrow> bytes" where
  "to_le 0 w = []"
| "to_le (Suc n) w = ucast w # to_le n (drop_bit 8 w)"

primrec from_le :: "bytes \<Rightarrow> 'a::len word" where
  "from_le [] = 0"
| "from_le (b # bs) = ucast b OR push_bit 8 (from_le bs)"

lemma length_to_le [simp]: "length (to_le n w) = n"
  by (induction n arbitrary: w) auto

lemma bit_from_le_above: "8 * length bs \<le> i \<Longrightarrow> \<not> bit (from_le bs :: 'a::len word) i"
proof (induction bs arbitrary: i)
  case (Cons b bs)
  then have "\<not> bit b i" "8 \<le> i" "8 * length bs \<le> i - 8"
    using bit_imp_le_length [of b i] by auto
  with Cons.IH [of "i - 8"] show ?case
    by (auto simp: bit_simps)
qed simp

lemma from_to_le_take_bit: "from_le (to_le n w) = take_bit (8 * n) (w :: 'a::len word)"
proof (induction n arbitrary: w)
  case (Suc n)
  have "ucast (ucast w :: u8) OR push_bit 8 (take_bit (8 * n) (drop_bit 8 w)) = take_bit (8 + 8 * n) w"
    by (rule bit_word_eqI) (auto simp: bit_simps)
  with Suc show ?case by simp
qed simp

lemma from_to_le [simp]: "LENGTH('a) \<le> 8 * n \<Longrightarrow> from_le (to_le n w) = (w :: 'a::len word)"
  by (simp add: from_to_le_take_bit take_bit_word_eq_self)

lemma to_from_le [simp]:
  "length bs = n \<Longrightarrow> 8 * n \<le> LENGTH('a) \<Longrightarrow> to_le n (from_le bs :: 'a::len word) = bs"
proof (induction bs arbitrary: n)
  case (Cons b bs)
  then obtain m where n: "n = Suc m" "length bs = m" by (cases n) auto
  have "ucast (ucast b OR push_bit 8 (from_le bs :: 'a word)) = b"
    using Cons.prems n by (intro bit_word_eqI) (auto simp: bit_simps dest: bit_imp_le_length)
  moreover have "drop_bit 8 (ucast b OR push_bit 8 (from_le bs :: 'a word)) = from_le bs"
  proof (rule bit_word_eqI)
    fix i assume "i < LENGTH('a)"
    have "\<not> bit b (8 + i)" using bit_imp_le_length [of b "8 + i"] by auto
    moreover have "\<not> bit (from_le bs :: 'a word) i" if "LENGTH('a) \<le> 8 + i"
      using that Cons.prems n by (intro bit_from_le_above) auto
    ultimately show "bit (drop_bit 8 (ucast b OR push_bit 8 (from_le bs :: 'a word))) i
      = bit (from_le bs :: 'a word) i"
      by (cases "LENGTH('a) \<le> 8 + i") (auto simp: bit_simps)
  qed
  ultimately show ?case using Cons n by simp
qed simp

lemma to_le_inject:
  fixes v w :: "'a::len word"
  assumes "LENGTH('a) \<le> 8 * n" "to_le n v = to_le n w"
  shows "v = w"
  using assms by (metis from_to_le)

lemma unat_from_le_less: "unat (from_le bs :: 'a::len word) < 2 ^ LENGTH('a)"
  by simp

section \<open>Positioned readers\<close>

text \<open>
  \<open>get_exact msg n buf pos\<close> is the pattern
  \<^verbatim>\<open>buf.get(*pos..*pos + n).ok_or_else(|| Corruption(msg))?; *pos += n\<close>. A reader takes the buffer
  and the position and returns the value with the advanced position.
\<close>

type_synonym 'a reader = "bytes \<Rightarrow> nat \<Rightarrow> ('a \<times> nat) result"

definition get_exact :: "string \<Rightarrow> nat \<Rightarrow> bytes reader" where
  "get_exact msg n buf pos =
     (case slice_get buf pos (pos + n) of
        None \<Rightarrow> Err (Corruption msg)
      | Some s \<Rightarrow> Ok (s, pos + n))"

text \<open>\<^verbatim>\<open>buf.get(*pos).ok_or_else(|| Corruption(msg))?; *pos += 1\<close>\<close>

definition get_byte :: "string \<Rightarrow> u8 reader" where
  "get_byte msg buf pos =
     (case elem_get buf pos of
        None \<Rightarrow> Err (Corruption msg)
      | Some b \<Rightarrow> Ok (b, pos + 1))"

definition map_reader :: "('a \<Rightarrow> 'b) \<Rightarrow> 'a reader \<Rightarrow> 'b reader" where
  "map_reader f rd buf pos = and_then (rd buf pos) (\<lambda>(x, pos'). Ok (f x, pos'))"

text \<open>The loop \<^verbatim>\<open>for _ in 0..n { out.push(rd(buf, &mut pos)?) }\<close>.\<close>

fun read_many :: "'a reader \<Rightarrow> nat \<Rightarrow> 'a list reader" where
  "read_many rd 0 buf pos = Ok ([], pos)"
| "read_many rd (Suc n) buf pos =
     and_then (rd buf pos) (\<lambda>(x, pos').
     and_then (read_many rd n buf pos') (\<lambda>(xs, pos''). Ok (x # xs, pos'')))"

text \<open>
  The interface of a reader fed with untrusted bytes: it never panics, and a successful read
  leaves the position inside the buffer.
\<close>

locale safe_reader =
  fixes dec :: "bytes \<Rightarrow> nat \<Rightarrow> ('a \<times> nat) result"
  assumes no_panic: "pos \<le> length buf \<Longrightarrow> dec buf pos \<noteq> Panic"
    and in_bounds: "pos \<le> length buf \<Longrightarrow> dec buf pos = Ok (x, pos') \<Longrightarrow> pos \<le> pos' \<and> pos' \<le> length buf"
begin

lemma many_no_panic: "pos \<le> length buf \<Longrightarrow> read_many dec n buf pos \<noteq> Panic"
proof (induction n arbitrary: pos)
  case (Suc n)
  show ?case
  proof
    assume "read_many dec (Suc n) buf pos = Panic"
    then obtain x p where "dec buf pos = Ok (x, p)" "read_many dec n buf p = Panic"
      using no_panic [OF Suc.prems] by (auto simp: and_then_eq_Panic)
    with Suc.IH [of p] in_bounds [OF Suc.prems] show False by blast
  qed
qed simp

lemma many_in_bounds:
  "pos \<le> length buf \<Longrightarrow> read_many dec n buf pos = Ok (xs, pos') \<Longrightarrow>
     pos \<le> pos' \<and> pos' \<le> length buf \<and> length xs = n"
proof (induction n arbitrary: pos xs)
  case (Suc n)
  from Suc.prems(2) obtain x p ys where
    x: "dec buf pos = Ok (x, p)" and ys: "read_many dec n buf p = Ok (ys, pos')" "xs = x # ys"
    by (auto simp: and_then_eq_Ok)
  from in_bounds [OF Suc.prems(1) x] Suc.IH [OF _ ys(1)] ys(2) show ?case by auto
qed simp

end

text \<open>Readers compose: the rules follow the shape of the decoders.\<close>

lemma safe_return [safe_intros]: "safe_reader (\<lambda>buf pos. Ok (x, pos))"
  by unfold_locales auto

lemma safe_err [safe_intros]: "safe_reader (\<lambda>buf pos. Err e)"
  by unfold_locales auto

lemma safe_if [safe_intros]:
  "safe_reader f \<Longrightarrow> safe_reader g \<Longrightarrow> safe_reader (\<lambda>buf pos. if c buf pos then f buf pos else g buf pos)"
  by unfold_locales (metis safe_reader.no_panic, metis safe_reader.in_bounds)

lemma safe_bind [safe_intros]:
  assumes rd: "safe_reader rd" and f: "\<And>x. safe_reader (f x)"
  shows "safe_reader (\<lambda>buf pos. and_then (rd buf pos) (\<lambda>(x, pos'). f x buf pos'))"
proof
  fix pos :: nat and buf :: bytes
  assume pos: "pos \<le> length buf"
  note rd = safe_reader.no_panic [OF rd pos] safe_reader.in_bounds [OF rd pos]
  show "and_then (rd buf pos) (\<lambda>(x, pos'). f x buf pos') \<noteq> Panic"
    using rd safe_reader.no_panic [OF f] by (cases "rd buf pos") auto
  fix y pos''
  assume "and_then (rd buf pos) (\<lambda>(x, pos'). f x buf pos') = Ok (y, pos'')"
  then obtain x pos' where x: "rd buf pos = Ok (x, pos')" "f x buf pos' = Ok (y, pos'')"
    by (auto simp: and_then_eq_Ok)
  from rd(2) [OF x(1)] safe_reader.in_bounds [OF f _ x(2)] show "pos \<le> pos'' \<and> pos'' \<le> length buf"
    by auto
qed

lemma safe_check [safe_intros]:
  assumes "r \<noteq> Panic" "\<And>x. safe_reader (f x)"
  shows "safe_reader (\<lambda>buf pos. and_then r (\<lambda>x. f x buf pos))"
proof (cases r)
  case (Ok x)
  then show ?thesis using assms(2) by simp
qed (use assms in \<open>auto intro: safe_intros\<close>)

lemma safe_map [safe_intros]:
  "safe_reader rd \<Longrightarrow> safe_reader (map_reader f rd)"
  unfolding map_reader_def [abs_def] by (intro safe_intros)

lemma safe_many [safe_intros]: "safe_reader rd \<Longrightarrow> safe_reader (read_many rd n)"
  using safe_reader.many_no_panic safe_reader.many_in_bounds by unfold_locales blast+

text \<open>
  A codec: the reader recovers, anywhere in a buffer, what the encoder wrote, and consumes
  exactly that. \<open>wf\<close> says which values the encoder is meant for.
\<close>

locale codec = safe_reader dec
  for dec :: "bytes \<Rightarrow> nat \<Rightarrow> ('a \<times> nat) result" +
  fixes enc :: "'a \<Rightarrow> bytes"
    and wf :: "'a \<Rightarrow> bool"
  assumes dec_enc: "wf x \<Longrightarrow> dec (pre @ enc x @ post) (length pre) = Ok (x, length pre + length (enc x))"
begin

text \<open>The same, in terms of what is left to read.\<close>

lemma dec_at:
  assumes "drop pos buf = enc x @ post" "pos \<le> length buf" "wf x"
  shows "dec buf pos = Ok (x, pos + length (enc x))" "drop (pos + length (enc x)) buf = post"
    "pos + length (enc x) \<le> length buf"
proof -
  have buf: "buf = take pos buf @ enc x @ post"
    using append_take_drop_id [of pos buf] assms(1) by simp
  have "dec (take pos buf @ enc x @ post) (length (take pos buf)) =
      Ok (x, length (take pos buf) + length (enc x))"
    by (rule dec_enc [OF assms(3)])
  then show "dec buf pos = Ok (x, pos + length (enc x))"
    using assms(2) by (simp flip: buf)
  show "drop (pos + length (enc x)) buf = post"
    using assms(1) by (metis add.commute append_eq_conv_conj drop_drop)
  show "pos + length (enc x) \<le> length buf"
    using arg_cong [OF assms(1), of length] assms(2) by simp
qed

lemma many_dec_enc:
  "list_all wf xs \<Longrightarrow>
    read_many dec (length xs) (pre @ concat (map enc xs) @ post) (length pre) =
      Ok (xs, length pre + length (concat (map enc xs)))"
proof (induction xs arbitrary: pre)
  case (Cons x xs)
  let ?rest = "concat (map enc xs) @ post"
  from Cons.prems have "dec (pre @ enc x @ ?rest) (length pre) = Ok (x, length pre + length (enc x))"
    by (intro dec_enc) simp
  moreover from Cons.IH [of "pre @ enc x"] Cons.prems
  have "read_many dec (length xs) (pre @ enc x @ ?rest) (length pre + length (enc x)) =
      Ok (xs, length pre + length (enc x) + length (concat (map enc xs)))"
    by simp
  ultimately show ?case by simp
qed simp

lemma many_dec_enc_n:
  "list_all wf xs \<Longrightarrow> n = length xs \<Longrightarrow>
    read_many dec n (pre @ concat (map enc xs) @ post) (length pre) =
      Ok (xs, length pre + length (concat (map enc xs)))"
  using many_dec_enc by simp

lemma many_dec_at:
  assumes "drop pos buf = concat (map enc xs) @ post" "pos \<le> length buf" "list_all wf xs" "n = length xs"
  shows "read_many dec n buf pos = Ok (xs, pos + length (concat (map enc xs)))"
    "drop (pos + length (concat (map enc xs))) buf = post"
    "pos + length (concat (map enc xs)) \<le> length buf"
proof -
  have buf: "buf = take pos buf @ concat (map enc xs) @ post"
    using append_take_drop_id [of pos buf] assms(1) by simp
  have "read_many dec n (take pos buf @ concat (map enc xs) @ post) (length (take pos buf)) =
      Ok (xs, length (take pos buf) + length (concat (map enc xs)))"
    by (rule many_dec_enc_n [OF assms(3,4)])
  then show "read_many dec n buf pos = Ok (xs, pos + length (concat (map enc xs)))"
    using assms(2) by (simp flip: buf)
  show "drop (pos + length (concat (map enc xs))) buf = post"
    using assms(1) by (metis add.commute append_eq_conv_conj drop_drop)
  show "pos + length (concat (map enc xs)) \<le> length buf"
    using arg_cong [OF assms(1), of length] assms(2) by simp
qed

lemma enc_inject:
  assumes "wf x" "wf y" "enc x = enc y"
  shows "x = y"
  using dec_enc [OF assms(1), of "[]" "[]"] dec_enc [OF assms(2), of "[]" "[]"] assms(3) by simp

end

text \<open>
  A strict codec accepts nothing but encoder output: what was consumed is the encoding of what
  was returned. Distinct byte strings then never decode to the same value.
\<close>

locale strict_codec = codec +
  assumes enc_dec:
    "pos \<le> length buf \<Longrightarrow> dec buf pos = Ok (x, pos') \<Longrightarrow> wf x \<and> slice_get buf pos pos' = Some (enc x)"
begin

lemma many_enc_dec:
  "pos \<le> length buf \<Longrightarrow> read_many dec n buf pos = Ok (xs, pos') \<Longrightarrow>
    list_all wf xs \<and> slice_get buf pos pos' = Some (concat (map enc xs))"
proof (induction n arbitrary: pos xs)
  case (Suc n)
  from Suc.prems(2) obtain x p ys where
    x: "dec buf pos = Ok (x, p)" and ys: "read_many dec n buf p = Ok (ys, pos')" "xs = x # ys"
    by (auto simp: and_then_eq_Ok)
  from x Suc.prems have p: "p \<le> length buf" using in_bounds by blast
  from enc_dec [OF Suc.prems(1) x] Suc.IH [OF p ys(1)] show ?case
    using ys(2) by (auto intro: slice_get_split)
qed simp

end

text \<open>The primitive readers of every decoder are strict codecs.\<close>

lemma get_exact_safe [safe_intros]: "safe_reader (get_exact msg n)"
  by unfold_locales (auto simp: get_exact_def slice_get_def split: option.splits if_splits)

lemma get_byte_safe [safe_intros]: "safe_reader (get_byte msg)"
  by unfold_locales (auto simp: get_byte_def elem_get_def split: option.splits if_splits)

lemma get_byte_strict: "strict_codec (get_byte msg) (\<lambda>b. [b]) (\<lambda>_. True)"
  by unfold_locales
    (auto simp: get_byte_def elem_get_slice elem_get_bound split: option.splits
      dest: elem_get_bound slice_get_bound)

lemma get_byte_at:
  assumes "drop pos buf = b # post" "pos \<le> length buf"
  shows "get_byte msg buf pos = Ok (b, pos + 1)" "drop (pos + 1) buf = post" "pos + 1 \<le> length buf"
  using codec.dec_at [OF strict_codec.axioms(1) [OF get_byte_strict [of msg]], of pos buf b post] assms
  by simp_all

lemma get_exact_at:
  assumes "drop pos buf = bs @ post" "pos \<le> length buf" "n = length bs"
  shows "get_exact msg n buf pos = Ok (bs, pos + n)" "drop (pos + n) buf = post" "pos + n \<le> length buf"
proof -
  have "length bs + length post = length buf - pos"
    using arg_cong [OF assms(1), of length] by simp
  then show le: "pos + n \<le> length buf" using assms(2,3) by simp
  show "get_exact msg n buf pos = Ok (bs, pos + n)"
    using assms le by (simp add: get_exact_def slice_get_def)
  show "drop (pos + n) buf = post"
    using assms by (metis add.commute append_eq_conv_conj drop_drop)
qed

text \<open>An integer of \<open>n\<close> bytes, as \<^verbatim>\<open>from_le_bytes\<close> after an exact read.\<close>

definition get_le :: "string \<Rightarrow> nat \<Rightarrow> 'a::len word reader" where
  "get_le msg n buf pos = map_reader from_le (get_exact msg n) buf pos"

lemma get_le_Ok:
  "get_le msg n buf pos = Ok (w, pos') \<longleftrightarrow>
    (\<exists>s. slice_get buf pos (pos + n) = Some s \<and> w = from_le s \<and> pos' = pos + n)"
  by (auto simp: get_le_def map_reader_def get_exact_def and_then_eq_Ok split: option.splits)

lemma get_le_strict:
  assumes "LENGTH('a::len) = 8 * n"
  shows "strict_codec (get_le msg n) (to_le n :: 'a word \<Rightarrow> bytes) (\<lambda>_. True)"
proof
  fix pos :: nat and buf :: bytes
  show "get_le msg n buf pos \<noteq> (Panic :: ('a word \<times> nat) result)"
    by (simp add: get_le_def map_reader_def get_exact_def split: option.splits)
next
  fix pos pos' :: nat and buf :: bytes and x :: "'a word"
  assume *: "get_le msg n buf pos = Ok (x, pos')"
  then show "pos \<le> pos' \<and> pos' \<le> length buf"
    by (auto simp: get_le_Ok dest: slice_get_bound)
  from * obtain s where s: "slice_get buf pos (pos + n) = Some s" "x = from_le s" "pos' = pos + n"
    by (auto simp: get_le_Ok)
  then have "to_le n x = s"
    using assms by (auto dest: slice_get_length)
  with s show "True \<and> slice_get buf pos pos' = Some (to_le n x)"
    by simp
next
  fix x :: "'a word" and pre post :: bytes
  show "get_le msg n (pre @ to_le n x @ post) (length pre) = Ok (x, length pre + length (to_le n x))"
    using assms by (auto simp: get_le_Ok slice_get_append_n)
qed

lemma get_le_safe [safe_intros]: "safe_reader (get_le msg n)"
  unfolding get_le_def [abs_def] by (intro safe_intros)

text \<open>A byte string behind its length.\<close>

lemma length_prefixed_codec:
  assumes n: "LENGTH('a::len) = 8 * n"
  shows "codec (\<lambda>buf pos. and_then ((get_le msg n :: 'a word reader) buf pos) (\<lambda>(len, pos').
      get_exact msg' (unat len) buf pos'))
    (\<lambda>bs. to_le n (of_nat (length bs) :: 'a word) @ bs) (\<lambda>bs. length bs < 2 ^ LENGTH('a))"
proof (rule codec.intro)
  show "safe_reader (\<lambda>buf pos. and_then ((get_le msg n :: 'a word reader) buf pos) (\<lambda>(len, pos').
      get_exact msg' (unat len) buf pos'))"
    by (intro safe_intros)
  show "codec_axioms (\<lambda>buf pos. and_then ((get_le msg n :: 'a word reader) buf pos) (\<lambda>(len, pos').
      get_exact msg' (unat len) buf pos'))
    (\<lambda>bs. to_le n (of_nat (length bs) :: 'a word) @ bs) (\<lambda>bs. length bs < 2 ^ LENGTH('a))"
  proof
    fix bs pre post :: bytes
    assume len: "length bs < 2 ^ LENGTH('a)"
    define w where "w = (of_nat (length bs) :: 'a word)"
    have w: "unat w = length bs" using len by (simp add: w_def unat_of_nat)
    have "get_le msg n (pre @ to_le n w @ bs @ post) (length pre) = Ok (w, length pre + n)"
      using codec.dec_enc [OF strict_codec.axioms(1) [OF get_le_strict [OF n]]] by simp
    moreover have "slice_get ((pre @ to_le n w) @ bs @ post) (length (pre @ to_le n w))
        (length (pre @ to_le n w) + length bs) = Some bs"
      by (rule slice_get_append)
    ultimately show "and_then (get_le msg n (pre @ (to_le n (of_nat (length bs) :: 'a word) @ bs) @ post) (length pre))
        (\<lambda>(len, pos'). get_exact msg' (unat (len :: 'a word)) (pre @ (to_le n (of_nat (length bs) :: 'a word) @ bs) @ post) pos') =
      Ok (bs, length pre + length (to_le n (of_nat (length bs) :: 'a word) @ bs))"
      by (simp add: w get_exact_def add.assoc flip: w_def)
  qed
qed

text \<open>A tag byte selects how the rest is read.\<close>

lemma get_tag: "get_byte msg (pre @ t # bs) (length pre) = Ok (t, Suc (length pre))"
  by (simp add: get_byte_def)

lemma read_after_tag:
  assumes "codec rd enc ok" "ok x"
  shows "rd (pre @ t # enc x @ post) (Suc (length pre)) = Ok (x, Suc (length pre) + length (enc x))"
  using codec.dec_enc [OF assms, of "pre @ [t]" post] by simp

lemma codec_intro:
  assumes "safe_reader dec"
    and "\<And>x pre post. ok x \<Longrightarrow> dec (pre @ enc x @ post) (length pre) = Ok (x, length pre + length (enc x))"
  shows "codec dec enc ok"
  using assms by (simp add: codec_def codec_axioms_def)

end
