(* ===== verification/Core_Types.thy ===== *)
theory Core_Types
  imports Pv_Prelude
begin

unbundle bit_operations_syntax

text \<open>
  \<^verbatim>\<open>src/core/types.rs\<close>: the on-disk constants, record addresses, the page-type byte, the MVCC
  record envelope with its visibility rule, and the fixed little-endian layouts of the row-page,
  columnar-page and file headers. Encoders write fields into a zeroed buffer as the source does;
  the \<open>_layout\<close> lemmas give the resulting bytes as one concatenation. Decoders check the length
  first and then index the buffer, so every index is shown to be in range.
\<close>

section \<open>Constants\<close>

definition PAGE_SIZE :: nat where "PAGE_SIZE = 4096"
definition PAGE_HEADER_SIZE :: nat where "PAGE_HEADER_SIZE = 28"
definition PAGE_CHECKSUM_OFFSET :: nat where "PAGE_CHECKSUM_OFFSET = 24"
definition MAGIC_BYTES :: bytes where "MAGIC_BYTES = [0x50, 0x56, 0x44, 0x42]"
definition FORMAT_VERSION :: u16 where "FORMAT_VERSION = 8"
definition FORMAT_VERSION_RETRIEVAL :: u16 where "FORMAT_VERSION_RETRIEVAL = 8"
definition FORMAT_VERSION_COMMIT_ANCHOR :: u16 where "FORMAT_VERSION_COMMIT_ANCHOR = 7"
definition FORMAT_VERSION_COMMIT_LOG :: u16 where "FORMAT_VERSION_COMMIT_LOG = 6"
definition FORMAT_VERSION_COLUMNAR :: u16 where "FORMAT_VERSION_COLUMNAR = 5"
definition FORMAT_VERSION_SCHEMA :: u16 where "FORMAT_VERSION_SCHEMA = 4"
definition FORMAT_VERSION_CONSTRAINTS :: u16 where "FORMAT_VERSION_CONSTRAINTS = 3"
definition FORMAT_VERSION_INDEX :: u16 where "FORMAT_VERSION_INDEX = 2"
definition FORMAT_VERSION_BASE :: u16 where "FORMAT_VERSION_BASE = 1"
definition FILE_HEADER_SIZE :: nat where "FILE_HEADER_SIZE = 24"
definition CHUNK_CAP_BYTES :: nat where "CHUNK_CAP_BYTES = 67108864"
definition CAS_INLINE_THRESHOLD :: nat where "CAS_INLINE_THRESHOLD = 16"
definition ENVELOPE_LEN :: nat where "ENVELOPE_LEN = 24"

lemmas size_defs = PAGE_SIZE_def PAGE_HEADER_SIZE_def PAGE_CHECKSUM_OFFSET_def FILE_HEADER_SIZE_def
  ENVELOPE_LEN_def CHUNK_CAP_BYTES_def CAS_INLINE_THRESHOLD_def

section \<open>Identifiers and record addresses\<close>

type_synonym tx_id = u64
type_synonym page_id = u64
type_synonym phys_addr = u64
type_synonym record_addr = u64

definition TX_NULL :: tx_id where "TX_NULL = 0"
definition NO_PAGE :: page_id where "NO_PAGE = - 1"

definition pack_addr :: "page_id \<Rightarrow> u16 \<Rightarrow> record_addr" where
  "pack_addr page_id slot = push_bit 16 page_id OR ucast slot"

definition unpack_addr :: "record_addr \<Rightarrow> page_id \<times> u16" where
  "unpack_addr addr = (drop_bit 16 addr, ucast (addr AND 0xFFFF))"

section \<open>Page types\<close>

datatype page_type = Row | Columnar

fun page_type_as_byte :: "page_type \<Rightarrow> u8" where
  "page_type_as_byte Row = 0x01"
| "page_type_as_byte Columnar = 0x02"

definition page_type_try_from :: "u8 \<Rightarrow> page_type result" where
  "page_type_try_from value =
     (if value = 0x01 then Ok Row
      else if value = 0x02 then Ok Columnar
      else Err (InvalidPageType value))"

section \<open>Little-endian read helpers\<close>

definition read_u64_le :: "bytes \<Rightarrow> nat \<Rightarrow> u64 result" where
  "read_u64_le buf at = and_then (slice_at buf at (at + 8)) (\<lambda>s. Ok (from_le s))"

definition read_u16_le :: "bytes \<Rightarrow> nat \<Rightarrow> u16 result" where
  "read_u16_le buf at = and_then (slice_at buf at (at + 2)) (\<lambda>s. Ok (from_le s))"

definition ensure_len :: "bytes \<Rightarrow> nat \<Rightarrow> unit result" where
  "ensure_len buf needed =
     (if length buf < needed then Err (BufferTooSmall needed (length buf)) else Ok ())"

definition expect_page_type :: "u8 \<Rightarrow> page_type \<Rightarrow> unit result" where
  "expect_page_type byte want =
     and_then (page_type_try_from byte) (\<lambda>got.
       if got = want then Ok () else Err (InvalidPageType byte))"

section \<open>The MVCC record envelope\<close>

record record_envelope =
  tx_inserted :: tx_id
  tx_deleted :: tx_id
  prev_version :: phys_addr

definition envelope_new :: "tx_id \<Rightarrow> phys_addr \<Rightarrow> record_envelope" where
  "envelope_new tx prev = \<lparr>tx_inserted = tx, tx_deleted = TX_NULL, prev_version = prev\<rparr>"

definition is_active :: "record_envelope \<Rightarrow> bool" where
  "is_active e = (tx_deleted e = TX_NULL)"

definition mark_deleted :: "record_envelope \<Rightarrow> tx_id \<Rightarrow> record_envelope" where
  "mark_deleted e tx = e\<lparr>tx_deleted := tx\<rparr>"

definition is_visible :: "record_envelope \<Rightarrow> tx_id \<Rightarrow> bool" where
  "is_visible e target_tx =
     (let created_before_target = tx_inserted e \<le> target_tx;
          active_at_target = (tx_deleted e = TX_NULL \<or> tx_deleted e > target_tx)
      in created_before_target \<and> active_at_target)"

definition is_record_visible :: "record_envelope \<Rightarrow> tx_id \<Rightarrow> bool" where
  "is_record_visible e target_tx = is_visible e target_tx"

definition envelope_encode :: "record_envelope \<Rightarrow> bytes" where
  "envelope_encode e =
     (let buf = replicate ENVELOPE_LEN 0;
          buf = overwrite buf 0 (to_le 8 (tx_inserted e));
          buf = overwrite buf 8 (to_le 8 (tx_deleted e));
          buf = overwrite buf 16 (to_le 8 (prev_version e))
      in buf)"

definition envelope_decode :: "bytes \<Rightarrow> record_envelope result" where
  "envelope_decode buf =
     (if length buf < ENVELOPE_LEN then Err (BufferTooSmall ENVELOPE_LEN (length buf))
      else and_then (read_u64_le buf 0) (\<lambda>ins.
           and_then (read_u64_le buf 8) (\<lambda>del.
           and_then (read_u64_le buf 16) (\<lambda>prev.
             Ok \<lparr>tx_inserted = ins, tx_deleted = del, prev_version = prev\<rparr>))))"

section \<open>Page headers\<close>

record row_page_header =
  rh_page_id :: page_id
  rh_slot_count :: u16
  rh_free_space_ptr :: u16
  rh_next_page :: page_id

definition row_header_new :: "page_id \<Rightarrow> row_page_header" where
  "row_header_new page_id =
     \<lparr>rh_page_id = page_id, rh_slot_count = 0, rh_free_space_ptr = of_nat PAGE_SIZE,
      rh_next_page = NO_PAGE\<rparr>"

definition row_header_encode :: "row_page_header \<Rightarrow> bytes" where
  "row_header_encode h =
     (let buf = replicate PAGE_HEADER_SIZE 0;
          buf = overwrite buf 0 (to_le 8 (rh_page_id h));
          buf = overwrite buf 8 [page_type_as_byte Row];
          buf = overwrite buf 9 (to_le 2 (rh_slot_count h));
          buf = overwrite buf 11 (to_le 2 (rh_free_space_ptr h));
          buf = overwrite buf 13 (to_le 8 (rh_next_page h))
      in buf)"

definition row_header_decode :: "bytes \<Rightarrow> row_page_header result" where
  "row_header_decode buf =
     and_then (ensure_len buf PAGE_HEADER_SIZE) (\<lambda>_.
     and_then (elem_at buf 8) (\<lambda>ty.
     and_then (expect_page_type ty Row) (\<lambda>_.
     and_then (read_u64_le buf 0) (\<lambda>pid.
     and_then (read_u16_le buf 9) (\<lambda>slots.
     and_then (read_u16_le buf 11) (\<lambda>free.
     and_then (read_u64_le buf 13) (\<lambda>next.
       Ok \<lparr>rh_page_id = pid, rh_slot_count = slots, rh_free_space_ptr = free,
           rh_next_page = next\<rparr>)))))))"

record columnar_page_header =
  ch_page_id :: page_id
  ch_row_count :: u16

definition columnar_header_new :: "page_id \<Rightarrow> columnar_page_header" where
  "columnar_header_new page_id = \<lparr>ch_page_id = page_id, ch_row_count = 0\<rparr>"

definition columnar_header_encode :: "columnar_page_header \<Rightarrow> bytes" where
  "columnar_header_encode h =
     (let buf = replicate PAGE_HEADER_SIZE 0;
          buf = overwrite buf 0 (to_le 8 (ch_page_id h));
          buf = overwrite buf 8 [page_type_as_byte Columnar];
          buf = overwrite buf 9 (to_le 2 (ch_row_count h))
      in buf)"

definition columnar_header_decode :: "bytes \<Rightarrow> columnar_page_header result" where
  "columnar_header_decode buf =
     and_then (ensure_len buf PAGE_HEADER_SIZE) (\<lambda>_.
     and_then (elem_at buf 8) (\<lambda>ty.
     and_then (expect_page_type ty Columnar) (\<lambda>_.
     and_then (read_u64_le buf 0) (\<lambda>pid.
     and_then (read_u16_le buf 9) (\<lambda>rows.
       Ok \<lparr>ch_page_id = pid, ch_row_count = rows\<rparr>)))))"

section \<open>The monolith file header\<close>

record file_header =
  fh_format_version :: u16
  fh_manifest_offset :: u64
  fh_cas_offset :: u64

definition file_header_new :: "u64 \<Rightarrow> u64 \<Rightarrow> file_header" where
  "file_header_new manifest_offset cas_offset =
     \<lparr>fh_format_version = FORMAT_VERSION, fh_manifest_offset = manifest_offset,
      fh_cas_offset = cas_offset\<rparr>"

definition file_header_new_versioned :: "u64 \<Rightarrow> u64 \<Rightarrow> u16 \<Rightarrow> file_header" where
  "file_header_new_versioned manifest_offset cas_offset version =
     \<lparr>fh_format_version = version, fh_manifest_offset = manifest_offset,
      fh_cas_offset = cas_offset\<rparr>"

definition file_header_encode :: "file_header \<Rightarrow> bytes" where
  "file_header_encode h =
     (let buf = replicate FILE_HEADER_SIZE 0;
          buf = overwrite buf 0 MAGIC_BYTES;
          buf = overwrite buf 4 (to_le 2 (fh_format_version h));
          buf = overwrite buf 8 (to_le 8 (fh_manifest_offset h));
          buf = overwrite buf 16 (to_le 8 (fh_cas_offset h))
      in buf)"

definition file_header_decode :: "bytes \<Rightarrow> file_header result" where
  "file_header_decode buf =
     and_then (ensure_len buf FILE_HEADER_SIZE) (\<lambda>_.
     and_then (slice_at buf 0 4) (\<lambda>found.
       if found \<noteq> MAGIC_BYTES then Err (SignatureMismatch MAGIC_BYTES found)
       else and_then (read_u16_le buf 4) (\<lambda>version.
         if version = 0 \<or> version > FORMAT_VERSION
         then Err (Corruption ''unsupported .pvdb format version {format_version}; this build reads up to {FORMAT_VERSION}'')
         else and_then (read_u64_le buf 8) (\<lambda>moff.
              and_then (read_u64_le buf 16) (\<lambda>coff.
                Ok \<lparr>fh_format_version = version, fh_manifest_offset = moff,
                    fh_cas_offset = coff\<rparr>)))))"

section \<open>Layouts\<close>

lemma envelope_layout [layout]:
  "envelope_encode e = to_le 8 (tx_inserted e) @ to_le 8 (tx_deleted e) @ to_le 8 (prev_version e)"
  by (simp add: envelope_encode_def overwrite_def size_defs)

lemma row_header_layout [layout]:
  "row_header_encode h = to_le 8 (rh_page_id h) @ [0x01] @ to_le 2 (rh_slot_count h) @
     to_le 2 (rh_free_space_ptr h) @ to_le 8 (rh_next_page h) @ replicate 7 0"
  by (simp add: row_header_encode_def overwrite_def size_defs)

lemma columnar_header_layout [layout]:
  "columnar_header_encode h = to_le 8 (ch_page_id h) @ [0x02] @ to_le 2 (ch_row_count h) @ replicate 17 0"
  by (simp add: columnar_header_encode_def overwrite_def size_defs)

lemma file_header_layout [layout]:
  "file_header_encode h = MAGIC_BYTES @ to_le 2 (fh_format_version h) @ replicate 2 0 @
     to_le 8 (fh_manifest_offset h) @ to_le 8 (fh_cas_offset h)"
  by (simp add: file_header_encode_def overwrite_def size_defs MAGIC_BYTES_def
     )

lemma length_headers [simp]:
  "length (envelope_encode e) = ENVELOPE_LEN"
  "length (row_header_encode h) = PAGE_HEADER_SIZE"
  "length (columnar_header_encode c) = PAGE_HEADER_SIZE"
  "length (file_header_encode f) = FILE_HEADER_SIZE"
  by (simp_all add: layout size_defs MAGIC_BYTES_def)

lemma read_u64_le_in [simp]:
  "at + 8 \<le> length buf \<Longrightarrow> read_u64_le buf at = Ok (from_le (take 8 (drop at buf)))"
  by (simp add: read_u64_le_def slice_at_def slice_get_def)

lemma read_u16_le_in [simp]:
  "at + 2 \<le> length buf \<Longrightarrow> read_u16_le buf at = Ok (from_le (take 2 (drop at buf)))"
  by (simp add: read_u16_le_def slice_at_def slice_get_def)

lemma ensure_len_simps [simp]:
  "needed \<le> length buf \<Longrightarrow> ensure_len buf needed = Ok ()"
  "length buf < needed \<Longrightarrow> ensure_len buf needed = Err (BufferTooSmall needed (length buf))"
  by (simp_all add: ensure_len_def)

lemma expect_page_type_simps [simp]:
  "expect_page_type 1 Row = Ok ()" "expect_page_type 2 Columnar = Ok ()"
  "expect_page_type 2 Row = Err (InvalidPageType 2)"
  "expect_page_type 1 Columnar = Err (InvalidPageType 1)"
  by (simp_all add: expect_page_type_def page_type_try_from_def)

lemma expect_page_type_not_Panic [simp]: "expect_page_type b t \<noteq> Panic"
  by (auto simp: expect_page_type_def page_type_try_from_def)

lemma expect_page_type_Ok: "expect_page_type b t = Ok u \<longleftrightarrow> b = page_type_as_byte t"
  by (cases t) (auto simp: expect_page_type_def page_type_try_from_def)

section \<open>Round trips\<close>

lemma page_type_round_trip: "page_type_try_from (page_type_as_byte t) = Ok t"
  by (cases t) (simp_all add: page_type_try_from_def)

lemma envelope_decode_encode [simp]: "envelope_decode (envelope_encode e @ rest) = Ok e"
proof -
  have "ENVELOPE_LEN \<le> length (envelope_encode e @ rest)" by simp
  then show ?thesis
    by (simp add: envelope_decode_def size_defs layout)
qed

lemma row_header_decode_encode [simp]: "row_header_decode (row_header_encode h @ rest) = Ok h"
  by (simp add: row_header_decode_def size_defs layout nth_append)

lemma columnar_header_decode_encode [simp]:
  "columnar_header_decode (columnar_header_encode h @ rest) = Ok h"
  by (simp add: columnar_header_decode_def size_defs layout nth_append)

lemma file_header_decode_encode:
  "file_header_decode (file_header_encode h @ rest) =
     (if fh_format_version h = 0 \<or> fh_format_version h > FORMAT_VERSION
      then Err (Corruption ''unsupported .pvdb format version {format_version}; this build reads up to {FORMAT_VERSION}'')
      else Ok h)"
  by (simp add: file_header_decode_def size_defs layout MAGIC_BYTES_def)

lemma envelope_decode_in:
  "ENVELOPE_LEN \<le> length buf \<Longrightarrow>
     envelope_decode buf = Ok \<lparr>tx_inserted = from_le (take 8 buf), tx_deleted = from_le (take 8 (drop 8 buf)),
       prev_version = from_le (take 8 (drop 16 buf))\<rparr>"
  by (simp add: envelope_decode_def size_defs)

lemma envelope_encode_decode:
  assumes "envelope_decode buf = Ok e"
  shows "envelope_encode e = take ENVELOPE_LEN buf"
proof -
  from assms have len: "ENVELOPE_LEN \<le> length buf"
    by (auto simp: envelope_decode_def split: if_splits)
  have "take 24 buf = take 8 buf @ take 8 (drop 8 buf) @ take 8 (drop 16 buf)"
    using take_add [of 8 8 buf] take_add [of 16 8 buf] by simp
  with assms len show ?thesis
    by (auto simp: envelope_decode_in layout size_defs)
qed

lemma row_header_decode_cases:
  "row_header_decode buf =
     (if length buf < PAGE_HEADER_SIZE then Err (BufferTooSmall PAGE_HEADER_SIZE (length buf))
      else if buf ! 8 \<noteq> 1 then Err (InvalidPageType (buf ! 8))
      else Ok \<lparr>rh_page_id = from_le (take 8 buf), rh_slot_count = from_le (take 2 (drop 9 buf)),
             rh_free_space_ptr = from_le (take 2 (drop 11 buf)),
             rh_next_page = from_le (take 8 (drop 13 buf))\<rparr>)"
  by (simp add: row_header_decode_def size_defs expect_page_type_def page_type_try_from_def)

lemma columnar_header_decode_cases:
  "columnar_header_decode buf =
     (if length buf < PAGE_HEADER_SIZE then Err (BufferTooSmall PAGE_HEADER_SIZE (length buf))
      else if buf ! 8 \<noteq> 2 then Err (InvalidPageType (buf ! 8))
      else Ok \<lparr>ch_page_id = from_le (take 8 buf), ch_row_count = from_le (take 2 (drop 9 buf))\<rparr>)"
  by (simp add: columnar_header_decode_def size_defs expect_page_type_def page_type_try_from_def)

lemma envelope_decode_not_Panic [simp]: "envelope_decode buf \<noteq> Panic"
  by (cases "length buf < ENVELOPE_LEN") (simp_all add: envelope_decode_def size_defs)

lemma row_header_decode_not_Panic [simp]: "row_header_decode buf \<noteq> Panic"
  by (simp add: row_header_decode_cases)

lemma columnar_header_decode_not_Panic [simp]: "columnar_header_decode buf \<noteq> Panic"
  by (simp add: columnar_header_decode_cases)

lemma file_header_decode_not_Panic [simp]: "file_header_decode buf \<noteq> Panic"
  by (cases "length buf < FILE_HEADER_SIZE") (simp_all add: file_header_decode_def size_defs)

section \<open>Addresses and visibility\<close>

lemma unpack_pack_addr:
  "unpack_addr (pack_addr page_id slot) = (page_id, slot) \<longleftrightarrow> page_id < 2 ^ 48"
proof -
  have slot: "ucast ((push_bit 16 page_id OR ucast slot) AND 0xFFFF :: u64) = slot"
  proof (rule bit_word_eqI)
    fix n assume "n < LENGTH(16)"
    then show "bit (ucast ((push_bit 16 page_id OR ucast slot) AND 0xFFFF :: u64) :: u16) n = bit slot n"
      using bit_mask_iff [of 16 n, where 'a = u64] by (simp add: bit_simps mask_eq_exp_minus_1)
  qed
  have pid: "drop_bit 16 (push_bit 16 page_id OR ucast slot) = take_bit 48 page_id"
  proof (rule bit_word_eqI)
    fix n assume "n < LENGTH(64)"
    have "\<not> bit slot (n + 16)" using bit_imp_le_length [of slot "n + 16"] by auto
    then show "bit (drop_bit 16 (push_bit 16 page_id OR ucast slot)) n = bit (take_bit 48 page_id) n"
      by (auto simp: bit_simps ac_simps)
  qed
  have "take_bit 48 page_id = page_id \<longleftrightarrow> unat (take_bit 48 page_id) = unat page_id"
    by (metis unsigned_word_eqI)
  also have "\<dots> \<longleftrightarrow> page_id < 2 ^ 48"
    by (simp only: unsigned_take_bit_eq take_bit_nat_eq_self_iff word_less_nat_alt) simp
  finally have "take_bit 48 page_id = page_id \<longleftrightarrow> page_id < 2 ^ 48" .
  with slot pid show ?thesis
    by (simp add: unpack_addr_def pack_addr_def)
qed

lemma is_visible_window:
  "is_visible e t \<longleftrightarrow> tx_inserted e \<le> t \<and> (tx_deleted e = 0 \<or> t < tx_deleted e)"
  by (auto simp: is_visible_def TX_NULL_def Let_def)

lemma mark_deleted_visibility:
  assumes "is_active e" "tx \<noteq> 0"
  shows "is_visible (mark_deleted e tx) t \<longleftrightarrow> is_visible e t \<and> t < tx"
  using assms by (auto simp: is_visible_window mark_deleted_def is_active_def TX_NULL_def)

end
