(* ===== verification/Mvcc.thy ===== *)
theory Mvcc
  imports Core_Types
begin

text \<open>
  \<^verbatim>\<open>src/engine/mvcc.rs\<close>: the transaction clock and the read snapshots. The clock is a \<^verbatim>\<open>u64\<close>, so
  \<open>begin_write\<close> panics when the increment overflows (a debug build; the source has no check).
\<close>

record tx_manager =
  clock :: tx_id

definition tx_manager_new :: tx_manager where
  "tx_manager_new = \<lparr>clock = 0\<rparr>"

definition with_clock :: "tx_id \<Rightarrow> tx_manager" where
  "with_clock c = \<lparr>clock = c\<rparr>"

definition current :: "tx_manager \<Rightarrow> tx_id" where
  "current m = clock m"

definition begin_write :: "tx_manager \<Rightarrow> (tx_id \<times> tx_manager) result" where
  "begin_write m =
     (if clock m = - 1 then Panic
      else let m' = m\<lparr>clock := clock m + 1\<rparr> in Ok (clock m', m'))"

record snapshot =
  snap_tx :: tx_id

definition snapshot_now :: "tx_manager \<Rightarrow> snapshot" where
  "snapshot_now m = \<lparr>snap_tx = clock m\<rparr>"

definition as_of :: "tx_id \<Rightarrow> snapshot" where
  "as_of tx = \<lparr>snap_tx = tx\<rparr>"

definition sees :: "snapshot \<Rightarrow> record_envelope \<Rightarrow> bool" where
  "sees s e = is_visible e (snap_tx s)"

section \<open>The clock\<close>

lemma begin_write_Ok:
  "begin_write m = Ok (tx, m') \<longleftrightarrow> clock m \<noteq> - 1 \<and> tx = clock m + 1 \<and> m' = m\<lparr>clock := tx\<rparr>"
  by (auto simp: begin_write_def Let_def)

lemma begin_write_increases:
  assumes "begin_write m = Ok (tx, m')"
  shows "clock m < tx" "clock m' = tx" "tx \<noteq> 0"
proof -
  from assms have *: "clock m \<noteq> - 1" "tx = clock m + 1" "m' = m\<lparr>clock := tx\<rparr>"
    by (auto simp: begin_write_Ok)
  have "clock m < clock m + 1"
    using *(1) inc_less_eq_triv_imp [of "clock m"] by (meson not_le)
  with * show "clock m < tx" "clock m' = tx" by simp_all
  then show "tx \<noteq> 0" by auto
qed

section \<open>The snapshot rule\<close>

lemma mark_deleted_fields [simp]:
  "tx_inserted (mark_deleted e tx) = tx_inserted e" "tx_deleted (mark_deleted e tx) = tx"
  by (simp_all add: mark_deleted_def)

text \<open>The stamps of a stored version: both were allocated by the clock, and a deletion follows its insertion.\<close>

definition envelope_inv :: "tx_id \<Rightarrow> record_envelope \<Rightarrow> bool" where
  "envelope_inv now e \<longleftrightarrow>
     0 < tx_inserted e \<and> tx_inserted e \<le> now \<and>
     (tx_deleted e = 0 \<or> tx_inserted e < tx_deleted e \<and> tx_deleted e \<le> now)"

lemma envelope_inv_mono: "envelope_inv now e \<Longrightarrow> now \<le> now' \<Longrightarrow> envelope_inv now' e"
  by (auto simp: envelope_inv_def)

text \<open>
  The snapshot rule. A version is seen by a snapshot exactly in the half-open window from its
  insertion to its deletion, and tombstoning an active version closes the window at the deleting
  transaction and changes nothing before it.
\<close>

theorem visibility_window:
  "(sees s e \<longleftrightarrow> tx_inserted e \<le> snap_tx s \<and> (is_active e \<or> snap_tx s < tx_deleted e)) \<and>
   (is_active e \<longrightarrow> tx \<noteq> TX_NULL \<longrightarrow>
      (sees s (mark_deleted e tx) \<longleftrightarrow> sees s e \<and> snap_tx s < tx))"
  using mark_deleted_visibility [of e tx "snap_tx s"]
  by (auto simp: sees_def is_visible_window is_active_def TX_NULL_def)

theorem visibility_window_witness:
  "sees (as_of 1) (mark_deleted (envelope_new 1 0) 2)"
  using visibility_window [of "as_of 1" "envelope_new 1 0" 2]
  by (simp add: is_active_def envelope_new_def as_of_def TX_NULL_def)

end
