(* ===== verification/Leb128.thy ===== *)
theory Leb128
  imports Pv_Prelude
begin

unbundle bit_operations_syntax

text \<open>
  The variable-width integers of \<^verbatim>\<open>src/storage/compress.rs\<close> (\<^verbatim>\<open>write_uvarint\<close>, \<^verbatim>\<open>read_uvarint\<close>,
  \<^verbatim>\<open>zigzag_encode\<close>, \<^verbatim>\<open>zigzag_decode\<close>) and \<^verbatim>\<open>src/storage/record.rs\<close> (\<^verbatim>\<open>encode_packed_i128\<close>,
  \<^verbatim>\<open>decode_packed_i128\<close>). Both pairs run the same loops, at 64 and at 128 bits, with their own byte
  limit, last-byte limit and messages: the loops are written once over the word length and the
  limits are a record. Both readers are shown to be strict codecs: they invert the writer anywhere
  in a buffer and accept nothing but its output.
\<close>

section \<open>The loops\<close>

function leb128_write :: "'a::len word \<Rightarrow> bytes" where
  "leb128_write value =
     (let byte = ucast (value AND 0x7F); value' = drop_bit 7 value
      in if value' \<noteq> 0 then (byte OR 0x80) # leb128_write value' else [byte])"
  by pat_completeness auto
termination
proof (relation "measure unat")
  fix v v' :: "'a::len word" and x :: u8
  assume *: "v' = drop_bit 7 v" "v' \<noteq> 0"
  then have "v \<noteq> 0" by auto
  then have "unat v div 2 ^ 7 < unat v"
    by (simp add: unat_gt_0)
  moreover have "unat v' = unat v div 2 ^ 7"
    unfolding *(1) unat_drop_bit_eq by (rule drop_bit_eq_div)
  ultimately show "(v', v) \<in> measure unat"
    by simp
qed simp

declare leb128_write.simps [simp del]

record leb_limits =
  leb_max_bytes :: nat
  leb_last_payload :: nat
  leb_truncated :: string
  leb_overflow :: string
  leb_non_canonical :: string
  leb_unterminated :: string

function leb128_loop ::
  "leb_limits \<Rightarrow> bytes \<Rightarrow> nat \<Rightarrow> nat \<Rightarrow> nat \<Rightarrow> 'a::len word \<Rightarrow> ('a word \<times> nat) result" where
  "leb128_loop l buf start pos index result =
     (if index < leb_max_bytes l then
        (case elem_get buf pos of
           None \<Rightarrow> Err (Corruption (leb_truncated l))
         | Some byte \<Rightarrow>
             (let pos' = pos + 1; payload = byte AND 0x7F in
              if index = leb_max_bytes l - 1 \<and> unat payload > leb_last_payload l
              then Err (Corruption (leb_overflow l))
              else let result' = result OR push_bit (index * 7) (ucast payload) in
                if byte AND 0x80 = 0 then
                  (if pos' - start > 1 \<and> payload = 0 then Err (Corruption (leb_non_canonical l))
                   else Ok (result', pos'))
                else leb128_loop l buf start pos' (index + 1) result'))
      else Err (Corruption (leb_unterminated l)))"
  by pat_completeness auto
termination
  by (relation "measure (\<lambda>(l, buf, start, pos, index, result). leb_max_bytes l - index)") auto

declare leb128_loop.simps [simp del]

definition leb128_read :: "leb_limits \<Rightarrow> 'a::len word reader" where
  "leb128_read l buf pos = leb128_loop l buf pos pos 0 0"

section \<open>Unsigned 64-bit varints\<close>

definition write_uvarint :: "u64 \<Rightarrow> bytes" where
  "write_uvarint value = leb128_write value"

definition uvarint_limits :: leb_limits where
  "uvarint_limits = \<lparr>leb_max_bytes = 10, leb_last_payload = 1, leb_truncated = ''truncated varint'',
     leb_overflow = ''varint overflow'', leb_non_canonical = ''non-canonical varint'',
     leb_unterminated = ''unterminated varint''\<rparr>"

definition read_uvarint :: "u64 reader" where
  "read_uvarint buf pos = leb128_read uvarint_limits buf pos"

section \<open>ZigZag\<close>

definition zigzag_encode :: "i64 \<Rightarrow> u64" where
  "zigzag_encode v = push_bit 1 v XOR signed_drop_bit 63 v"

definition zigzag_decode :: "u64 \<Rightarrow> i64" where
  "zigzag_decode v = drop_bit 1 v XOR - (v AND 1)"

section \<open>Packed 128-bit integers\<close>

definition encode_packed_i128 :: "i128 \<Rightarrow> bytes" where
  "encode_packed_i128 value = leb128_write (push_bit 1 value XOR signed_drop_bit 127 value)"

definition packed_limits :: leb_limits where
  "packed_limits = \<lparr>leb_max_bytes = 19, leb_last_payload = 3,
     leb_truncated = ''packed decimal: truncated varint'',
     leb_overflow = ''packed decimal: varint exceeds 128 bits'',
     leb_non_canonical = ''packed decimal: non-canonical varint'',
     leb_unterminated = ''packed decimal: unterminated varint''\<rparr>"

definition decode_packed_i128 :: "i128 reader" where
  "decode_packed_i128 buf pos =
     and_then (leb128_read packed_limits buf pos) (\<lambda>(encoded, pos').
       Ok (drop_bit 1 encoded XOR - (encoded AND 1), pos'))"

section \<open>Bytes and bits\<close>

lemma and_7F: "(w :: 'a::len word) AND 0x7F = take_bit 7 w"
  by (simp add: take_bit_eq_mask mask_eq_exp_minus_1)

lemma and_80_eq_0: "(b :: u8) AND 0x80 = 0 \<longleftrightarrow> \<not> bit b 7"
  using and_exp_eq_0_iff_not_bit [of b 7] by simp

lemma bit_or_80: "bit ((b :: u8) OR 0x80) n \<longleftrightarrow> bit b n \<or> n = 7"
  using bit_exp_iff [of 7 n, where 'a = u8] by (auto simp: bit_or_iff dest: bit_imp_le_length)

lemma or_80_byte: "bit (b :: u8) 7 \<Longrightarrow> take_bit 7 b OR 0x80 = b"
  by (rule bit_word_eqI) (auto simp: bit_or_80 bit_simps less_Suc_eq numeral_eq_Suc)

lemma take_bit_7_byte: "\<not> bit (b :: u8) 7 \<Longrightarrow> take_bit 7 b = b"
  by (rule bit_word_eqI) (auto simp: bit_simps less_Suc_eq numeral_eq_Suc)

lemma ucast_7_take: "ucast (take_bit 7 (ucast (take_bit 7 v) :: u8)) = take_bit 7 (v :: 'a::len word)"
  by (rule bit_word_eqI) (auto simp: bit_simps)

lemma unat_less_exp_iff: "unat (w :: 'a::len word) < 2 ^ k \<longleftrightarrow> (\<forall>n. bit w n \<longrightarrow> n < k)"
proof -
  have "unat w < 2 ^ k \<longleftrightarrow> unat (take_bit k w) = unat w"
    by (simp only: unsigned_take_bit_eq take_bit_nat_eq_self_iff)
  also have "\<dots> \<longleftrightarrow> take_bit k w = w"
    by (metis unsigned_word_eqI)
  also have "\<dots> \<longleftrightarrow> (\<forall>n. bit w n \<longrightarrow> n < k)"
    by (auto simp: bit_eq_iff bit_take_bit_iff dest: bit_imp_le_length)
  finally show ?thesis .
qed

lemma leb_step:
  "push_bit k (take_bit 7 v) OR push_bit (k + 7) (drop_bit 7 v) = push_bit k (v :: 'a::len word)"
proof (rule bit_word_eqI)
  fix n assume "n < LENGTH('a)"
  have "7 + (n - (k + 7)) = n - k" if "\<not> n - k < 7" using that by simp
  then show "bit (push_bit k (take_bit 7 v) OR push_bit (k + 7) (drop_bit 7 v)) n = bit (push_bit k v) n"
    using \<open>n < LENGTH('a)\<close> by (cases "n - k < 7") (auto simp: bit_simps)
qed

text \<open>The limits fit a word of \<open>N\<close> bits: the last allowed byte carries exactly the remaining bits.\<close>

definition leb_fits :: "leb_limits \<Rightarrow> nat \<Rightarrow> bool" where
  "leb_fits l N \<longleftrightarrow> 0 < leb_max_bytes l \<and> 7 \<le> N \<and> 7 * (leb_max_bytes l - 1) < N \<and> N \<le> 7 * leb_max_bytes l \<and>
     leb_last_payload l = 2 ^ (N - 7 * (leb_max_bytes l - 1)) - 1"

text \<open>The value still to be written at byte \<open>index\<close> has no bit past the word.\<close>

definition leb_rest :: "nat \<Rightarrow> 'a::len word \<Rightarrow> bool" where
  "leb_rest index v \<longleftrightarrow> (\<forall>n. bit v n \<longrightarrow> n + 7 * index < LENGTH('a))"

lemma leb_rest_0: "leb_rest 0 v"
  by (auto simp: leb_rest_def dest: bit_imp_le_length)

lemma leb_rest_drop: "leb_rest index v \<Longrightarrow> leb_rest (Suc index) (drop_bit 7 v)"
  by (fastforce simp: leb_rest_def bit_drop_bit_eq)

lemma leb_rest_index:
  assumes "leb_fits l LENGTH('a)" "leb_rest index v" "(v :: 'a::len word) \<noteq> 0"
  shows "index < leb_max_bytes l"
proof -
  from assms(3) obtain n where "bit v n" by (auto simp: bit_eq_iff)
  with assms(1,2) have "7 * index < 7 * leb_max_bytes l"
    by (fastforce simp: leb_rest_def leb_fits_def)
  then show ?thesis by simp
qed

lemma leb_last_ok:
  assumes "leb_fits l LENGTH('a)" "index = leb_max_bytes l - 1"
  shows "leb_rest index (v :: 'a::len word) \<longleftrightarrow> unat v \<le> leb_last_payload l"
proof -
  let ?k = "LENGTH('a) - 7 * index"
  have "leb_rest index v \<longleftrightarrow> (\<forall>n. bit v n \<longrightarrow> n < ?k)"
    by (auto simp: leb_rest_def)
  also have "\<dots> \<longleftrightarrow> unat v < 2 ^ ?k"
    by (simp add: unat_less_exp_iff)
  also have "\<dots> \<longleftrightarrow> unat v \<le> leb_last_payload l"
  proof -
    have "leb_last_payload l = 2 ^ ?k - 1" "(0::nat) < 2 ^ ?k"
      using assms by (simp_all add: leb_fits_def)
    then show ?thesis by linarith
  qed
  finally show ?thesis .
qed

lemma unat_payload:
  "unat (take_bit 7 (ucast (take_bit 7 v) :: u8)) = unat (take_bit 7 (v :: 'a::len word))"
  by (simp add: unsigned_take_bit_eq unsigned_ucast_eq)

lemma leb_loop_last:
  assumes "elem_get buf pos = Some byte" "index < leb_max_bytes l" "\<not> bit byte 7"
    "index = leb_max_bytes l - 1 \<Longrightarrow> unat (take_bit 7 byte) \<le> leb_last_payload l"
    "take_bit 7 byte \<noteq> 0 \<or> index = 0" "pos = start + index"
  shows "leb128_loop l buf start pos index result =
    Ok (result OR push_bit (index * 7) (ucast (take_bit 7 byte)), pos + 1)"
  using assms by (auto simp: leb128_loop.simps [of l buf] and_7F and_80_eq_0 Let_def not_less)

lemma leb_loop_more:
  assumes "elem_get buf pos = Some byte" "Suc index < leb_max_bytes l" "bit byte 7"
  shows "leb128_loop l buf start pos index result =
    leb128_loop l buf start (pos + 1) (Suc index) (result OR push_bit (index * 7) (ucast (take_bit 7 byte)))"
  using assms by (subst leb128_loop.simps) (auto simp: and_7F and_80_eq_0 Let_def)

lemma leb128_read_write:
  assumes "leb_fits l LENGTH('a)" "leb_rest index v" "index < leb_max_bytes l"
    "index = 0 \<or> v \<noteq> 0" "length pre = start + index"
  shows "leb128_loop l (pre @ leb128_write v @ post) start (length pre) index result =
    Ok (result OR push_bit (index * 7) (v :: 'a::len word), length pre + length (leb128_write v))"
  using assms(2-)
proof (induction v arbitrary: index result pre rule: leb128_write.induct)
  case (1 v)
  let ?b = "ucast (take_bit 7 v) :: u8" and ?v' = "drop_bit 7 v"
  have nb: "\<not> bit ?b 7" by (simp add: bit_simps)
  show ?case
  proof (cases "?v' = 0")
    case True
    then have v: "take_bit 7 v = v"
      by (simp add: take_bit_eq_self_iff_drop_bit_eq_0)
    have w: "leb128_write v = [?b]"
      using True by (simp add: leb128_write.simps [of v] and_7F Let_def)
    have "leb128_loop l (pre @ leb128_write v @ post) start (length pre) index result =
      Ok (result OR push_bit (index * 7) (ucast (take_bit 7 ?b)), length pre + 1)"
      unfolding w
    proof (rule leb_loop_last)
      show "elem_get (pre @ [?b] @ post) (length pre) = Some ?b" by simp
      show "unat (take_bit 7 ?b) \<le> leb_last_payload l" if "index = leb_max_bytes l - 1"
        unfolding unat_payload using leb_last_ok [OF assms(1) that, of v] "1.prems"(1) v by simp
      show "take_bit 7 ?b \<noteq> 0 \<or> index = 0"
        using ucast_7_take [of v] "1.prems"(3) v by auto
    qed (use "1.prems" nb in auto)
    also have "ucast (take_bit 7 ?b) = v"
      by (rule trans [OF ucast_7_take v])
    finally show ?thesis by (simp add: w)
  next
    case False
    have w: "leb128_write v = (?b OR 0x80) # leb128_write ?v'"
      using False by (simp add: leb128_write.simps [of v] and_7F Let_def)
    have tb: "take_bit 7 (?b OR 0x80) = take_bit 7 ?b"
      by (rule bit_word_eqI) (auto simp: bit_simps bit_or_80)
    have ix: "Suc index < leb_max_bytes l"
      using leb_rest_index [OF assms(1) leb_rest_drop [OF "1.prems"(1)] False] .
    let ?buf = "pre @ (?b OR 0x80) # leb128_write ?v' @ post"
    have "leb128_loop l ?buf start (length pre) index result =
      leb128_loop l ?buf start (length pre + 1) (Suc index)
        (result OR push_bit (index * 7) (ucast (take_bit 7 (?b OR 0x80))))"
      by (rule leb_loop_more) (use ix in \<open>simp_all add: bit_or_80\<close>)
    also have "\<dots> = Ok ((result OR push_bit (index * 7) (take_bit 7 v)) OR push_bit (Suc index * 7) ?v',
        length (pre @ [?b OR 0x80]) + length (leb128_write ?v'))"
      using "1.IH" [OF refl refl False, of "Suc index" "pre @ [?b OR 0x80]"] "1.prems" ix False
      unfolding tb ucast_7_take by (simp add: leb_rest_drop)
    also have "(result OR push_bit (index * 7) (take_bit 7 v)) OR push_bit (Suc index * 7) ?v' =
      result OR push_bit (index * 7) v"
      using leb_step [of "index * 7" v] by (simp add: or.assoc add.commute)
    finally show ?thesis by (simp add: w)
  qed
qed

lemma leb128_loop_not_Panic: "leb128_loop l buf start pos index result \<noteq> Panic"
proof (induction l buf start pos index result rule: leb128_loop.induct)
  case (1 l buf start pos index result)
  then show ?case
    by (subst leb128_loop.simps) (auto simp: Let_def split: option.splits)
qed

lemma leb128_write_combine:
  assumes "bit (byte :: u8) 7" "leb_rest (Suc index) v'" "(v' :: 'a::len word) \<noteq> 0"
  defines "v \<equiv> ucast (take_bit 7 byte) OR push_bit 7 v'"
  shows "leb128_write v = byte # leb128_write v'" "leb_rest index v" "v \<noteq> 0"
    "push_bit k (ucast (take_bit 7 byte)) OR push_bit (k + 7) v' = push_bit k v"
proof -
  have up: "bit v' n \<Longrightarrow> n + 7 < LENGTH('a)" for n
    using assms(2) by (fastforce simp: leb_rest_def)
  have nb: "\<not> bit (take_bit 7 byte) (n + 7)" for n
    by (simp add: bit_simps)
  have N: "7 \<le> LENGTH('a)"
    using assms(3) up by (fastforce simp: bit_eq_iff)
  have d: "drop_bit 7 v = v'"
    by (rule bit_word_eqI) (auto simp: v_def bit_simps add.commute dest: up)
  have t: "take_bit 7 v = ucast (take_bit 7 byte)"
    by (rule bit_word_eqI) (auto simp: v_def bit_simps)
  have "ucast (take_bit 7 v) = take_bit 7 byte"
    unfolding t by (rule bit_word_eqI) (use N in \<open>auto simp: bit_simps\<close>)
  then show "leb128_write v = byte # leb128_write v'"
    using assms(1,3) by (simp add: leb128_write.simps [of v] Let_def and_7F d or_80_byte)
  show "leb_rest index v"
    unfolding leb_rest_def
  proof (intro allI impI)
    fix n assume n: "bit v n"
    obtain m where m: "bit v' m" using assms(3) by (auto simp: bit_eq_iff)
    show "n + 7 * index < LENGTH('a)"
    proof (cases "n < 7")
      case True
      then show ?thesis using assms(2) m by (fastforce simp: leb_rest_def)
    next
      case False
      then have "bit v' (n - 7)" using n d by (simp add: v_def bit_simps)
      then show ?thesis using assms(2) False by (fastforce simp: leb_rest_def)
    qed
  qed
  show "v \<noteq> 0" using d assms(3) by auto
  show "push_bit k (ucast (take_bit 7 byte)) OR push_bit (k + 7) v' = push_bit k v"
    using leb_step [of k v] d t by simp
qed

lemma leb128_write_last:
  assumes "\<not> bit (byte :: u8) 7" "7 \<le> LENGTH('a)"
  defines "v \<equiv> ucast (take_bit 7 byte) :: 'a::len word"
  shows "leb128_write v = [byte]" "v = 0 \<longleftrightarrow> take_bit 7 byte = 0" "bit v n \<Longrightarrow> n < 7"
    "unat v = unat (take_bit 7 byte)"
proof -
  show small: "bit v n \<Longrightarrow> n < 7" for n
    by (simp add: v_def bit_simps)
  have d: "drop_bit 7 v = 0" by (rule bit_word_eqI) (auto simp: bit_simps dest: small)
  have u: "ucast (take_bit 7 v) = byte"
    by (rule bit_word_eqI)
      (use assms(1,2) in \<open>auto simp: v_def bit_simps less_Suc_eq numeral_eq_Suc\<close>)
  then show "leb128_write v = [byte]"
    using d by (simp add: leb128_write.simps [of v] Let_def and_7F)
  show "v = 0 \<longleftrightarrow> take_bit 7 byte = 0"
    using u assms(1) take_bit_7_byte [of byte] by (auto simp: v_def)
  show "unat v = unat (take_bit 7 byte)"
    using assms(2) by (simp add: v_def unsigned_ucast_eq unsigned_take_bit_eq min_def)
qed

lemma leb128_write_read:
  assumes "leb_fits l LENGTH('a)"
    and "leb128_loop l buf start pos index result = Ok (r :: 'a::len word, pos')"
    and "pos = start + index"
  shows "\<exists>v. leb_rest index v \<and> (index = 0 \<or> v \<noteq> 0) \<and> r = result OR push_bit (index * 7) v \<and>
    slice_get buf pos pos' = Some (leb128_write v)"
  using assms
proof (induction l buf start pos index result rule: leb128_loop.induct)
  case (1 l buf start pos index result)
  from "1.prems"(2) obtain byte where ix: "index < leb_max_bytes l" and b: "elem_get buf pos = Some byte"
    by (subst (asm) leb128_loop.simps) (auto split: if_splits option.splits)
  have last: "\<not> (index = leb_max_bytes l - 1 \<and> unat (take_bit 7 byte) > leb_last_payload l)"
  proof
    assume "index = leb_max_bytes l - 1 \<and> unat (take_bit 7 byte) > leb_last_payload l"
    with "1.prems"(2) ix b show False
      by (subst (asm) leb128_loop.simps) (simp add: and_7F Let_def)
  qed
  show ?case
  proof (cases "bit byte 7")
    case False
    let ?v = "ucast (take_bit 7 byte) :: 'a word"
    have N: "7 \<le> LENGTH('a)" using "1.prems"(1) by (simp add: leb_fits_def)
    note w = leb128_write_last [OF False N]
    have r: "r = result OR push_bit (index * 7) ?v" "pos' = Suc pos" "index = 0 \<or> ?v \<noteq> 0"
      using "1.prems"(2,3) ix b last False w(2)
      by (auto simp: leb128_loop.simps [of l buf] and_7F and_80_eq_0 Let_def split: if_splits)
    have "leb_rest index ?v"
    proof (cases "index = leb_max_bytes l - 1")
      case True
      then show ?thesis using leb_last_ok [OF "1.prems"(1) True, of ?v] last w(4) by simp
    next
      case False
      then have "7 * Suc index \<le> 7 * (leb_max_bytes l - 1)" using ix by simp
      then show ?thesis using "1.prems"(1) w(3) by (fastforce simp: leb_rest_def leb_fits_def)
    qed
    then show ?thesis using r b w(1) by (auto simp: elem_get_slice)
  next
    case True
    let ?res = "result OR push_bit (index * 7) (ucast (take_bit 7 byte)) :: 'a word"
    have step: "leb128_loop l buf start (pos + 1) (index + 1) ?res = Ok (r, pos')"
      using "1.prems"(2) ix b last True
      by (subst (asm) leb128_loop.simps) (auto simp: and_7F and_80_eq_0 Let_def split: if_splits)
    have "\<exists>v. leb_rest (index + 1) v \<and> (index + 1 = 0 \<or> v \<noteq> 0) \<and> r = ?res OR push_bit ((index + 1) * 7) v \<and>
        slice_get buf (pos + 1) pos' = Some (leb128_write v)"
      using "1.IH" [OF ix b refl refl _ refl _ "1.prems"(1)] last True step "1.prems"(3)
      by (simp add: and_7F and_80_eq_0)
    then obtain v' where v': "leb_rest (Suc index) v'" "v' \<noteq> 0"
      "r = ?res OR push_bit (index * 7 + 7) v'" "slice_get buf (pos + 1) pos' = Some (leb128_write v')"
      by (auto simp: add.commute)
    note c = leb128_write_combine [OF True v'(1,2)]
    have "slice_get buf pos (pos + 1) = Some [byte]" using b by (simp add: elem_get_slice)
    from slice_get_split [OF this v'(4)]
    have "slice_get buf pos pos' = Some (byte # leb128_write v')" by simp
    with c(1-3) c(4) [of "index * 7"] v'(3) show ?thesis
      by (metis or.assoc)
  qed
qed

lemma leb128_strict:
  assumes "leb_fits l LENGTH('a::len)"
  shows "strict_codec (leb128_read l) (leb128_write :: 'a word \<Rightarrow> bytes) (\<lambda>_. True)"
proof
  fix buf :: bytes and pos :: nat
  show "leb128_read l buf pos \<noteq> (Panic :: ('a word \<times> nat) result)"
    by (simp add: leb128_read_def leb128_loop_not_Panic)
next
  fix buf :: bytes and pos pos' :: nat and x :: "'a word"
  assume "leb128_read l buf pos = Ok (x, pos')"
  then have "slice_get buf pos pos' = Some (leb128_write x)"
    using leb128_write_read [OF assms, of buf pos pos 0 0 x pos'] by (auto simp: leb128_read_def)
  then show "True \<and> slice_get buf pos pos' = Some (leb128_write x)" "pos \<le> pos' \<and> pos' \<le> length buf"
    by (auto dest: slice_get_bound)
next
  fix x :: "'a word" and pre post
  have "0 < leb_max_bytes l" using assms by (simp add: leb_fits_def)
  then show "leb128_read l (pre @ leb128_write x @ post) (length pre) =
      Ok (x, length pre + length (leb128_write x))"
    using leb128_read_write [OF assms leb_rest_0, of x pre "length pre" post 0]
    by (simp add: leb128_read_def)
qed

section \<open>ZigZag is a bijection\<close>

lemma signed_drop_all: "signed_drop_bit (LENGTH('a) - 1) (v :: 'a::len word) = (if bit v (LENGTH('a) - 1) then - 1 else 0)"
proof (rule bit_word_eqI)
  fix n assume n: "n < LENGTH('a)"
  show "bit (signed_drop_bit (LENGTH('a) - 1) v) n = bit (if bit v (LENGTH('a) - 1) then - 1 else 0 :: 'a word) n"
    using n by (cases n) (auto simp: bit_signed_drop_bit_iff)
qed

lemma bit_push_1: "bit (push_bit 1 (v :: 'a::len word)) n \<longleftrightarrow> n < LENGTH('a) \<and> 0 < n \<and> bit v (n - 1)"
  by (auto simp only: bit_push_bit_iff possible_bit_word)

lemma neg_and_1: "- (v AND 1) = (if bit (v :: 'a::len word) 0 then - 1 else 0)"
  by (simp add: and_one_eq bit_0 odd_iff_mod_2_eq_one)

lemma zigzag_inverse:
  fixes v :: "'a::len word"
  defines "z \<equiv> push_bit 1 v XOR signed_drop_bit (LENGTH('a) - 1) v"
  shows "drop_bit 1 z XOR - (z AND 1) = v"
proof (rule bit_word_eqI)
  fix n assume n: "n < LENGTH('a)"
  have 0: "bit z 0 \<longleftrightarrow> bit v (LENGTH('a) - 1)"
    by (simp only: z_def signed_drop_all bit_xor_iff bit_push_1) simp
  show "bit (drop_bit 1 z XOR - (z AND 1)) n = bit v n"
  proof (cases "Suc n < LENGTH('a)")
    case True
    then have "bit z (Suc n) \<longleftrightarrow> bit v n \<noteq> bit v (LENGTH('a) - 1)"
      by (simp only: z_def signed_drop_all bit_xor_iff bit_push_1) auto
    then show ?thesis using n 0 by (auto simp: neg_and_1 bit_simps)
  next
    case False
    then have "n = LENGTH('a) - 1" using n by simp
    then show ?thesis using n 0 by (auto simp: neg_and_1 bit_simps dest: bit_imp_le_length)
  qed
qed

lemma zigzag_inverse':
  fixes z :: "'a::len word"
  defines "v \<equiv> drop_bit 1 z XOR - (z AND 1)"
  shows "push_bit 1 v XOR signed_drop_bit (LENGTH('a) - 1) v = z"
proof (rule bit_word_eqI)
  fix n assume n: "n < LENGTH('a)"
  have top: "bit v (LENGTH('a) - 1) \<longleftrightarrow> bit z 0"
    by (auto simp: v_def neg_and_1 bit_simps dest: bit_imp_le_length)
  show "bit (push_bit 1 v XOR signed_drop_bit (LENGTH('a) - 1) v) n = bit z n"
  proof (cases n)
    case 0
    then show ?thesis
      using top by (simp only: signed_drop_all bit_xor_iff bit_push_1) simp
  next
    case (Suc m)
    then have "bit v m \<longleftrightarrow> bit z n \<noteq> bit z 0"
      using n by (auto simp: v_def neg_and_1 bit_simps)
    then show ?thesis
      using Suc n top by (simp only: signed_drop_all bit_xor_iff bit_push_1) auto
  qed
qed

lemma zigzag_decode_encode [simp]: "zigzag_decode (zigzag_encode v) = v"
  using zigzag_inverse [of v] by (simp add: zigzag_decode_def zigzag_encode_def)

lemma zigzag_encode_decode [simp]: "zigzag_encode (zigzag_decode z) = z"
  using zigzag_inverse' [of z] by (simp add: zigzag_decode_def zigzag_encode_def)

section \<open>Interpretations\<close>

interpretation uvarint: strict_codec read_uvarint write_uvarint "\<lambda>_. True"
proof -
  have "leb_fits uvarint_limits LENGTH(64)"
    by (simp add: leb_fits_def uvarint_limits_def)
  from leb128_strict [OF this] show "strict_codec read_uvarint write_uvarint (\<lambda>_. True)"
    by (simp add: read_uvarint_def [abs_def] write_uvarint_def [abs_def])
qed

lemma packed_leb: "strict_codec (leb128_read packed_limits) (leb128_write :: u128 \<Rightarrow> bytes) (\<lambda>_. True)"
  by (rule leb128_strict) (simp add: leb_fits_def packed_limits_def)

interpretation packed_i128: strict_codec decode_packed_i128 encode_packed_i128 "\<lambda>_. True"
proof
  fix buf :: bytes and pos :: nat
  assume "pos \<le> length buf"
  then show "decode_packed_i128 buf pos \<noteq> Panic"
    using safe_reader.no_panic [OF codec.axioms(1) [OF strict_codec.axioms(1) [OF packed_leb]]]
    by (auto simp: decode_packed_i128_def and_then_eq_Panic)
next
  fix buf :: bytes and pos pos' :: nat and x :: i128
  assume pos: "pos \<le> length buf" and "decode_packed_i128 buf pos = Ok (x, pos')"
  then obtain z where z: "leb128_read packed_limits buf pos = Ok (z, pos')"
    and x: "x = drop_bit 1 z XOR - (z AND 1)"
    by (auto simp: decode_packed_i128_def and_then_eq_Ok)
  have "encode_packed_i128 x = leb128_write z"
    using zigzag_inverse' [of z] by (simp add: encode_packed_i128_def x)
  then have "slice_get buf pos pos' = Some (encode_packed_i128 x)"
    using strict_codec.enc_dec [OF packed_leb pos z] by simp
  then show "True \<and> slice_get buf pos pos' = Some (encode_packed_i128 x)"
    "pos \<le> pos' \<and> pos' \<le> length buf"
    by (auto dest: slice_get_bound)
next
  fix x :: i128 and pre post :: bytes
  let ?z = "push_bit 1 x XOR signed_drop_bit 127 x"
  have "leb128_read packed_limits (pre @ leb128_write ?z @ post) (length pre) =
      Ok (?z, length pre + length (leb128_write ?z))"
    using codec.dec_enc [OF strict_codec.axioms(1) [OF packed_leb]] by simp
  then show "decode_packed_i128 (pre @ encode_packed_i128 x @ post) (length pre) =
      Ok (x, length pre + length (encode_packed_i128 x))"
    using zigzag_inverse [of x] by (simp add: decode_packed_i128_def encode_packed_i128_def)
qed

end
