(* ===== verification/Compress.thy ===== *)
theory Compress
  imports Leb128
begin

unbundle bit_operations_syntax

text \<open>
  The column codecs of \<^verbatim>\<open>src/storage/compress.rs\<close>: Delta-Z for integer columns, bit-packing of
  small codes, and the dictionary codec for text columns. Delta-Z and bit-packing are shown to be
  exact: a byte string decodes to a value if and only if it is that value's encoding, so damaged
  or padded input is refused, never silently repaired. The dictionary codec gives back what it was
  built from and gives up exactly when there are more than 256 symbols.
\<close>

section \<open>Delta-Z\<close>

fun delta_write_loop :: "i64 \<Rightarrow> i64 list \<Rightarrow> bytes" where
  "delta_write_loop prev [] = []"
| "delta_write_loop prev (v # vs) = write_uvarint (zigzag_encode (v - prev)) @ delta_write_loop v vs"

definition delta_z_encode :: "i64 list \<Rightarrow> bytes" where
  "delta_z_encode values =
     write_uvarint (of_nat (length values)) @
     (case values of
        [] \<Rightarrow> []
      | base # rest \<Rightarrow> to_le 8 base @ delta_write_loop base rest)"

fun delta_read_loop :: "nat \<Rightarrow> i64 \<Rightarrow> i64 list reader" where
  "delta_read_loop 0 prev buf pos = Ok ([], pos)"
| "delta_read_loop (Suc n) prev buf pos =
     and_then (read_uvarint buf pos) (\<lambda>(raw, pos').
       let prev' = prev + zigzag_decode raw in
       and_then (delta_read_loop n prev' buf pos') (\<lambda>(out, pos''). Ok (prev' # out, pos'')))"

text \<open>
  \<^verbatim>\<open>usize::try_from\<close> of a \<^verbatim>\<open>u64\<close> does not fail at 64 bits. \<open>pos + 8\<close> is at most the length of a
  slice plus 8 and does not overflow.
\<close>

definition delta_z_decode :: "bytes \<Rightarrow> i64 list result" where
  "delta_z_decode buf =
     and_then (read_uvarint buf 0) (\<lambda>(n, pos).
       let count = unat n in
       if count = 0 then
         (if pos \<noteq> length buf then Err (Corruption ''delta-z: trailing bytes'') else Ok [])
       else
         and_then (get_exact ''delta-z: missing base'' 8 buf pos) (\<lambda>(base_bytes, pos').
         let prev = from_le base_bytes in
         and_then (delta_read_loop (count - 1) prev buf pos') (\<lambda>(out, pos'').
           if pos'' \<noteq> length buf then Err (Corruption ''delta-z: trailing bytes'')
           else Ok (prev # out))))"

section \<open>Bit packing\<close>

fun bit_length :: "nat \<Rightarrow> nat" where
  "bit_length n = (if n = 0 then 0 else Suc (bit_length (n div 2)))"

declare bit_length.simps [simp del]

text \<open>\<^verbatim>\<open>usize::leading_zeros\<close>\<close>

definition leading_zeros :: "nat \<Rightarrow> nat" where
  "leading_zeros n = 64 - bit_length n"

definition bits_for_cardinality :: "nat \<Rightarrow> u8" where
  "bits_for_cardinality cardinality =
     (if cardinality \<le> 1 then 1
      else let bits = of_nat (64 - leading_zeros (cardinality - 1)) in max 1 (min 8 bits))"

text \<open>
  The accumulator is 16 bits wide and \<open>filled\<close> counts its used bits. The inner
  \<^verbatim>\<open>while filled >= 8\<close> moves whole bytes out.
\<close>

fun pack_flush :: "u16 \<Rightarrow> nat \<Rightarrow> bytes \<times> u16 \<times> nat" where
  "pack_flush acc filled =
     (if filled \<ge> 8 then
        (let (out, acc', filled') = pack_flush (drop_bit 8 acc) (filled - 8)
         in (ucast (acc AND 0xFF) # out, acc', filled'))
      else ([], acc, filled))"

declare pack_flush.simps [simp del]

fun pack_loop :: "u8 list \<Rightarrow> nat \<Rightarrow> u16 \<Rightarrow> nat \<Rightarrow> bytes" where
  "pack_loop [] bits acc filled = (if filled > 0 then [ucast (acc AND 0xFF)] else [])"
| "pack_loop (code # codes) bits acc filled =
     (let (out, acc', filled') = pack_flush (acc OR push_bit filled (ucast code)) (filled + bits)
      in out @ pack_loop codes bits acc' filled')"

definition pack_codes :: "u8 list \<Rightarrow> u8 \<Rightarrow> bytes" where
  "pack_codes codes bits = pack_loop codes (unat bits) 0 0"

fun unpack_refill :: "nat \<Rightarrow> u16 \<Rightarrow> nat \<Rightarrow> bytes \<Rightarrow> (u16 \<times> nat \<times> bytes) result" where
  "unpack_refill bits acc filled byte_iter =
     (if filled < bits then
        (case byte_iter of
           [] \<Rightarrow> Err (Corruption ''bit-pack: truncated stream'')
         | byte # rest \<Rightarrow> unpack_refill bits (acc OR push_bit filled (ucast byte)) (filled + 8) rest)
      else Ok (acc, filled, byte_iter))"

declare unpack_refill.simps [simp del]

fun unpack_loop :: "nat \<Rightarrow> nat \<Rightarrow> u8 \<Rightarrow> u16 \<Rightarrow> nat \<Rightarrow> bytes \<Rightarrow> u8 list result" where
  "unpack_loop 0 bits code_mask acc filled byte_iter = Ok []"
| "unpack_loop (Suc n) bits code_mask acc filled byte_iter =
     and_then (unpack_refill bits acc filled byte_iter) (\<lambda>(acc', filled', rest).
     and_then (unpack_loop n bits code_mask (drop_bit bits acc') (filled' - bits) rest) (\<lambda>out.
       Ok (ucast (acc' AND ucast code_mask) # out)))"

text \<open>
  The padding check looks at the last byte, when \<open>total_bits mod 8\<close> is not 0 and the stream is not
  empty, under the mask \<^verbatim>\<open>!((1u8 << used) - 1)\<close>.
\<close>

definition nonzero_padding :: "bytes \<Rightarrow> nat \<Rightarrow> bool" where
  "nonzero_padding packed used =
     (packed \<noteq> [] \<and> used \<noteq> 0 \<and> last packed AND NOT (push_bit used 1 - 1) \<noteq> 0)"

definition unpack_codes :: "bytes \<Rightarrow> u8 \<Rightarrow> nat \<Rightarrow> u8 list result" where
  "unpack_codes packed bits count =
     (if \<not> (1 \<le> bits \<and> bits \<le> 8) then
        Err (Corruption ''bit-pack: invalid bit width {bits} (must be 1..=8)'')
      else
        and_then (ok_or (checked_mul count (unat bits)) (Corruption ''bit-pack: encoded size overflow''))
          (\<lambda>total_bits.
            if length packed \<noteq> div_ceil total_bits 8 then
              Err (Corruption ''bit-pack: expected {expected_bytes} byte(s), found {}'')
            else if nonzero_padding packed (total_bits mod 8) then
              Err (Corruption ''bit-pack: nonzero padding bits'')
            else
              unpack_loop count (unat bits) (ucast (push_bit (unat bits) 1 - 1 :: u16)) 0 0 packed))"

section \<open>Dictionary columns\<close>

definition MAX_DICTIONARY_SYMBOLS :: nat where
  "MAX_DICTIONARY_SYMBOLS = 256"

record dictionary_column =
  dc_symbols :: "bytes list"
  dc_bits :: u8
  dc_count :: nat
  dc_codes :: bytes

text \<open>\<^verbatim>\<open>symbols.iter().position(|s| s == v)\<close>\<close>

fun position :: "'a \<Rightarrow> 'a list \<Rightarrow> nat option" where
  "position v [] = None"
| "position v (s # ss) = (if s = v then Some 0 else map_option Suc (position v ss))"

fun dictionary_loop :: "bytes list \<Rightarrow> bytes list \<Rightarrow> (bytes list \<times> u8 list) option" where
  "dictionary_loop symbols [] = Some (symbols, [])"
| "dictionary_loop symbols (v # vs) =
     (case position v symbols of
        Some i \<Rightarrow> map_option (\<lambda>(syms, codes). (syms, of_nat i # codes)) (dictionary_loop symbols vs)
      | None \<Rightarrow>
          if length symbols \<ge> MAX_DICTIONARY_SYMBOLS then None
          else map_option (\<lambda>(syms, codes). (syms, of_nat (length (symbols @ [v]) - 1) # codes))
                 (dictionary_loop (symbols @ [v]) vs))"

definition dictionary_build :: "bytes list \<Rightarrow> dictionary_column option" where
  "dictionary_build values =
     (case dictionary_loop [] values of
        None \<Rightarrow> None
      | Some (symbols, codes) \<Rightarrow>
          let bits = bits_for_cardinality (length symbols) in
          Some \<lparr>dc_symbols = symbols, dc_bits = bits, dc_count = length values,
                dc_codes = pack_codes codes bits\<rparr>)"

definition dictionary_decode :: "dictionary_column \<Rightarrow> bytes list result" where
  "dictionary_decode d =
     and_then (unpack_codes (dc_codes d) (dc_bits d) (dc_count d))
       (collect_results (\<lambda>c. ok_or (elem_get (dc_symbols d) (unat c))
          (Corruption ''dictionary: code out of range'')))"

section \<open>Delta-Z: proofs\<close>

text \<open>The deltas written, and their running sum: inverse to each other.\<close>

fun deltas :: "i64 \<Rightarrow> i64 list \<Rightarrow> u64 list" where
  "deltas prev [] = []"
| "deltas prev (v # vs) = zigzag_encode (v - prev) # deltas v vs"

fun integrate :: "i64 \<Rightarrow> u64 list \<Rightarrow> i64 list" where
  "integrate prev [] = []"
| "integrate prev (d # ds) = (let prev' = prev + zigzag_decode d in prev' # integrate prev' ds)"

lemma integrate_deltas [simp]: "integrate prev (deltas prev vs) = vs"
  by (induction vs arbitrary: prev) (simp_all add: Let_def)

lemma deltas_integrate [simp]: "deltas prev (integrate prev ds) = ds"
  by (induction ds arbitrary: prev) (simp_all add: Let_def)

lemma length_deltas [simp]: "length (deltas prev vs) = length vs"
  by (induction vs arbitrary: prev) auto

lemma length_integrate [simp]: "length (integrate prev ds) = length ds"
  by (induction ds arbitrary: prev) (auto simp: Let_def)

lemma delta_write_loop_deltas: "delta_write_loop prev vs = concat (map write_uvarint (deltas prev vs))"
  by (induction vs arbitrary: prev) auto

lemma delta_read_loop_integrate:
  "delta_read_loop n prev buf pos =
     and_then (read_many read_uvarint n buf pos) (\<lambda>(ds, pos'). Ok (integrate prev ds, pos'))"
proof (induction n arbitrary: prev pos)
  case (Suc n)
  show ?case
    by (cases "read_uvarint buf pos")
      (auto simp: Suc and_then_assoc Let_def split_def intro!: and_then_cong)
qed simp

lemma unat_lt2p_64: "unat (n :: u64) \<le> usize_max"
proof -
  have "unat n < 2 ^ LENGTH(64)" by (rule unsigned_less)
  then show ?thesis by (simp add: usize_max_def)
qed

lemma delta_z_decode_encode:
  assumes "length xs \<le> usize_max"
  shows "delta_z_decode (delta_z_encode xs) = Ok xs"
proof (cases xs)
  case Nil
  then show ?thesis
    using uvarint.dec_enc [of "[]" 0 "[]"] by (simp add: delta_z_decode_def delta_z_encode_def)
next
  case (Cons base rest)
  define n where "n = (of_nat (length xs) :: u64)"
  let ?ds = "deltas base rest"
  define buf where "buf = write_uvarint n @ to_le 8 base @ concat (map write_uvarint ?ds)"
  have buf: "delta_z_encode xs = buf"
    by (simp add: delta_z_encode_def Cons delta_write_loop_deltas buf_def n_def)
  have n: "unat n = Suc (length rest)"
    using assms by (simp add: n_def usize_max_def unat_of_nat Cons del: of_nat_Suc)
  have 1: "read_uvarint buf 0 = Ok (n, length (write_uvarint n))"
    using uvarint.dec_enc [of "[]" n] by (simp add: buf_def)
  have 2: "slice_get buf (length (write_uvarint n)) (length (write_uvarint n) + 8) = Some (to_le 8 base)"
    unfolding buf_def by (rule slice_get_append_n) simp
  have 3: "read_many read_uvarint (length rest) buf (length (write_uvarint n) + 8) = Ok (?ds, length buf)"
    using uvarint.many_dec_enc_n [of ?ds "length rest" "write_uvarint n @ to_le 8 base" "[]"]
    by (simp add: list_all_iff add.assoc buf_def)
  show ?thesis
    unfolding buf delta_z_decode_def
    by (simp add: 1 n Cons get_exact_def 2 3 delta_read_loop_integrate)
qed

lemma delta_z_encode_decode:
  assumes "delta_z_decode buf = Ok xs"
  shows "buf = delta_z_encode xs \<and> length xs \<le> usize_max"
proof -
  from assms obtain n pos where n: "read_uvarint buf 0 = Ok (n, pos)"
    by (auto simp: delta_z_decode_def and_then_eq_Ok)
  have b: "pos \<le> length buf" and s: "slice_get buf 0 pos = Some (write_uvarint n)"
    using uvarint.in_bounds [OF _ n] uvarint.enc_dec [OF _ n] by auto
  have max: "unat n \<le> usize_max"
    using unat_lt2p_64 [of n] by simp
  show ?thesis
  proof (cases "unat n = 0")
    case True
    then show ?thesis
      using assms n s by (auto simp: delta_z_decode_def delta_z_encode_def unat_eq_zero split: if_splits)
  next
    case False
    with assms n obtain b8 out ds where
      b8: "slice_get buf pos (pos + 8) = Some b8"
      and ds: "read_many read_uvarint (unat n - 1) buf (pos + 8) = Ok (ds, length buf)"
      and xs: "xs = from_le b8 # integrate (from_le b8) ds"
      by (auto simp: delta_z_decode_def and_then_eq_Ok Let_def get_exact_def delta_read_loop_integrate
          split: if_splits option.splits)
    have len: "length b8 = 8" and le: "pos + 8 \<le> length buf"
      using slice_get_length [OF b8] slice_get_bound [OF b8] by auto
    have t: "slice_get buf (pos + 8) (length buf) = Some (concat (map write_uvarint ds))"
      and l: "length ds = unat n - 1"
      using uvarint.many_enc_dec [OF le ds] uvarint.many_in_bounds [OF le ds] by auto
    have "buf = write_uvarint n @ b8 @ concat (map write_uvarint ds)"
      using slice_get_split [OF slice_get_split [OF s b8] t] by simp
    moreover have "of_nat (length xs) = n"
      using False by (simp add: xs l)
    ultimately show ?thesis
      using len l max False by (simp add: delta_z_encode_def delta_write_loop_deltas xs)
  qed
qed

text \<open>
  Delta-Z is exact. \<^verbatim>\<open>delta_z_decode\<close> accepts a byte string with the result \<open>xs\<close> if and only if
  the string is \<^verbatim>\<open>delta_z_encode\<close> of \<open>xs\<close> (a column of at most \<^verbatim>\<open>usize::MAX\<close> values): every
  column round-trips, and truncated, padded or non-canonical input is refused.
\<close>

theorem delta_z_exact:
  "delta_z_decode buf = Ok xs \<longleftrightarrow> buf = delta_z_encode xs \<and> length xs \<le> usize_max"
  using delta_z_decode_encode delta_z_encode_decode by blast

lemma delta_z_no_panic: "delta_z_decode buf \<noteq> Panic"
proof -
  have 1: "read_uvarint buf 0 \<noteq> Panic" by (rule uvarint.no_panic) simp
  have 2: "delta_read_loop n prev buf pos \<noteq> Panic" if "pos \<le> length buf" for n prev pos
    using uvarint.many_no_panic [OF that] by (auto simp: delta_read_loop_integrate and_then_eq_Panic)
  show ?thesis
    by (auto simp: delta_z_decode_def and_then_eq_Panic Let_def get_exact_def 1 2 dest: slice_get_bound
        split: if_splits option.splits)
qed

section \<open>Bit packing: proofs\<close>

text \<open>
  A byte string is read as the stream of its bits, least significant first. \<open>fits k w\<close>: no bit of
  \<open>w\<close> at position \<open>k\<close> or above is set.
\<close>

definition bits_of :: "nat \<Rightarrow> 'a::len word \<Rightarrow> bool list" where
  "bits_of k w = map (bit w) [0..<k]"

definition stream :: "bytes \<Rightarrow> bool list" where
  "stream bs = concat (map (bits_of 8) bs)"

definition fits :: "nat \<Rightarrow> 'a::len word \<Rightarrow> bool" where
  "fits k w \<longleftrightarrow> unat w < 2 ^ k"

lemma fits_bit: "fits k w \<longleftrightarrow> (\<forall>n. bit w n \<longrightarrow> n < k)"
  unfolding fits_def by (rule unat_less_exp_iff)

lemma length_bits_of [simp]: "length (bits_of k w) = k"
  by (simp add: bits_of_def)

lemma stream_simps [simp]:
  "stream [] = []" "stream (b # bs) = bits_of 8 b @ stream bs" "stream (as @ bs) = stream as @ stream bs"
  by (simp_all add: stream_def)

lemma length_stream [simp]: "length (stream bs) = 8 * length bs"
  by (induction bs) auto

lemma bits_of_0 [simp]: "bits_of 0 w = []"
  by (simp add: bits_of_def)

lemma bits_of_eq_iff: "bits_of k v = bits_of k w \<longleftrightarrow> (\<forall>n<k. bit v n = bit w n)"
  by (auto simp: bits_of_def)

lemma bits_of_add: "bits_of (m + n) w = bits_of m w @ bits_of n (drop_bit m w)"
  by (rule nth_equalityI) (auto simp: bits_of_def nth_append bit_drop_bit_eq)

lemma bits_of_fits: "fits k w \<Longrightarrow> bits_of (k + n) w = bits_of k w @ replicate n False"
  by (rule nth_equalityI) (auto simp: bits_of_def nth_append fits_bit)

lemma bits_of_low_byte: "bits_of 8 (ucast (w AND 0xFF) :: u8) = bits_of 8 (w :: u16)"
proof -
  have "w AND 0xFF = take_bit 8 w"
    by (simp add: take_bit_eq_mask mask_eq_exp_minus_1)
  then show ?thesis by (auto simp: bits_of_eq_iff bit_simps)
qed

lemma bits_of_inject:
  assumes "bits_of k v = bits_of k w" "fits k v" "fits k w"
  shows "v = w"
  using assms by (intro bit_word_eqI) (auto simp: bits_of_eq_iff fits_bit)

lemma fits_byte [simp]: "fits 8 (b :: u8)"
  using unsigned_less [of b] by (simp add: fits_def)

lemma concat_bits_inject:
  assumes "concat (map (bits_of k) xs) = concat (map (bits_of k) ys)" "length xs = length ys"
    "list_all (fits k) xs" "list_all (fits k) ys"
  shows "xs = ys"
  using assms(2, 1, 3, 4)
  by (induction xs ys rule: list_induct2) (auto intro: bits_of_inject)

lemma stream_inject: "stream xs = stream ys \<longleftrightarrow> xs = ys"
proof
  assume *: "stream xs = stream ys"
  then have "length xs = length ys" using length_stream [of xs] length_stream [of ys] by simp
  with * show "xs = ys"
    by (auto simp: stream_def list_all_iff intro: concat_bits_inject)
qed simp

text \<open>Adding a code above the filled part of the accumulator appends its bits.\<close>

lemma accumulate:
  fixes acc :: u16 and code :: u8
  assumes "fits k acc" "k < 8" "b \<le> 8"
  shows "bits_of (k + b) (acc OR push_bit k (ucast code)) = bits_of k acc @ bits_of b code"
    and "fits b code \<Longrightarrow> fits (k + b) (acc OR push_bit k (ucast code))"
proof -
  have bit: "bit (acc OR push_bit k (ucast code)) n \<longleftrightarrow> bit acc n \<or> k \<le> n \<and> bit code (n - k)" if "n < 16" for n
    using that by (auto simp: bit_simps)
  show "bits_of (k + b) (acc OR push_bit k (ucast code)) = bits_of k acc @ bits_of b code"
    using assms by (intro nth_equalityI) (auto simp: bits_of_def nth_append bit fits_bit)
  assume "fits b code"
  then show "fits (k + b) (acc OR push_bit k (ucast code))"
    using assms by (auto simp: fits_bit bit_simps)
qed

lemma fits_drop: "fits (m + n) w \<Longrightarrow> fits n (drop_bit m w)"
  by (auto simp: fits_bit bit_simps)

lemma pack_flush_stream:
  assumes "pack_flush acc k = (out, acc', k')" "fits k acc"
  shows "stream out @ bits_of k' acc' = bits_of k acc \<and> k' < 8 \<and> fits k' acc'"
  using assms
proof (induction acc k arbitrary: out rule: pack_flush.induct)
  case (1 acc k)
  show ?case
  proof (cases "k \<ge> 8")
    case True
    obtain out1 where "pack_flush (drop_bit 8 acc) (k - 8) = (out1, acc', k')"
      and "out = ucast (acc AND 0xFF) # out1"
      using 1(2) True by (subst (asm) pack_flush.simps) (auto split: prod.splits)
    with 1(1) [OF True this(1)] 1(3) True bits_of_add [of 8 "k - 8" acc] fits_drop [of 8 "k - 8" acc]
    show ?thesis by (simp add: bits_of_low_byte)
  next
    case False
    then show ?thesis using 1(2,3) by (subst (asm) pack_flush.simps) simp
  qed
qed

lemma pack_loop_stream:
  assumes "fits k acc" "k < 8" "0 < b" "b \<le> 8" "list_all (fits b) codes"
  shows "\<exists>p<8. stream (pack_loop codes b acc k) =
    bits_of k acc @ concat (map (bits_of b) codes) @ replicate p False"
  using assms
proof (induction codes arbitrary: acc k)
  case Nil
  show ?case
  proof (cases "k = 0")
    case False
    then have "bits_of 8 acc = bits_of k acc @ replicate (8 - k) False"
      using bits_of_fits [of k acc "8 - k"] Nil by simp
    with False Nil show ?thesis
      by (intro exI [of _ "8 - k"]) (auto simp: bits_of_low_byte)
  qed (auto intro: exI [of _ 0])
next
  case (Cons code codes)
  obtain out acc' k' where f: "pack_flush (acc OR push_bit k (ucast code)) (k + b) = (out, acc', k')"
    by (metis prod_cases3)
  have "fits (k + b) (acc OR push_bit k (ucast code))"
    using Cons.prems accumulate(2) by simp
  from pack_flush_stream [OF f this] accumulate(1) [of k acc b code] Cons.prems
  have s: "stream out @ bits_of k' acc' = bits_of k acc @ bits_of b code" "k' < 8" "fits k' acc'"
    by auto
  from Cons.IH [OF s(3,2)] Cons.prems obtain p where p: "p < 8" and
    IH: "stream (pack_loop codes b acc' k') = bits_of k' acc' @ concat (map (bits_of b) codes) @ replicate p False"
    by auto
  have "stream (pack_loop (code # codes) b acc k) =
      (stream out @ bits_of k' acc') @ concat (map (bits_of b) codes) @ replicate p False"
    by (simp add: f IH)
  with p show ?case unfolding s(1) by auto
qed

lemma unpack_refill_stream:
  assumes "fits k acc" "k < 8" "b \<le> 8" "b \<le> k + 8 * length rest"
  shows "\<exists>acc' k' rest'. unpack_refill b acc k rest = Ok (acc', k', rest') \<and> b \<le> k' \<and> k' < b + 8 \<and>
    fits k' acc' \<and> bits_of k' acc' @ stream rest' = bits_of k acc @ stream rest"
proof (cases "k < b")
  case True
  then obtain byte rest' where "rest = byte # rest'" using assms by (cases rest) auto
  then show ?thesis
    using True assms accumulate [of k acc 8 byte] by (simp add: unpack_refill.simps)
next
  case False
  then show ?thesis using assms by (simp add: unpack_refill.simps)
qed

lemma extract_code:
  fixes acc :: u16
  assumes "b \<le> 8"
  defines "code \<equiv> ucast (acc AND ucast (ucast (push_bit b 1 - 1 :: u16) :: u8)) :: u8"
  shows "bits_of b code = bits_of b acc" "fits b code"
proof -
  have "push_bit b 1 - 1 = (mask b :: u16)" by (simp add: mask_eq_exp_minus_1 push_bit_of_1)
  then have "bit code n \<longleftrightarrow> n < b \<and> bit acc n" for n
    using assms by (auto simp: code_def bit_simps)
  then show "bits_of b code = bits_of b acc" "fits b code"
    by (auto simp: bits_of_eq_iff fits_bit)
qed

lemma unpack_loop_stream:
  assumes "fits k acc" "k < 8" "0 < b" "b \<le> 8" "n * b \<le> k + 8 * length rest"
  shows "\<exists>codes. unpack_loop n b (ucast (push_bit b 1 - 1 :: u16)) acc k rest = Ok codes \<and>
    length codes = n \<and> list_all (fits b) codes \<and>
    concat (map (bits_of b) codes) = take (n * b) (bits_of k acc @ stream rest)"
  using assms
proof (induction n arbitrary: acc k rest)
  case (Suc n)
  obtain acc' k' rest' where r: "unpack_refill b acc k rest = Ok (acc', k', rest')" "b \<le> k'" "k' < b + 8"
    "fits k' acc'" and s: "bits_of k' acc' @ stream rest' = bits_of k acc @ stream rest"
    using unpack_refill_stream [of k acc b rest] Suc.prems by auto
  let ?k = "k' - b" and ?acc = "drop_bit b acc'"
  have split: "bits_of k' acc' = bits_of b acc' @ bits_of ?k ?acc" and f: "fits ?k ?acc"
    using bits_of_add [of b ?k acc'] fits_drop [of b ?k acc'] r by auto
  have "k' + 8 * length rest' = k + 8 * length rest"
    using arg_cong [OF s, of length] by simp
  then have "n * b \<le> ?k + 8 * length rest'" using Suc.prems r by simp
  moreover have "?k < 8" using r Suc.prems(3) by arith
  ultimately obtain codes where c:
    "unpack_loop n b (ucast (push_bit b 1 - 1 :: u16)) ?acc ?k rest' = Ok codes"
    "length codes = n" "list_all (fits b) codes"
    "concat (map (bits_of b) codes) = take (n * b) (bits_of ?k ?acc @ stream rest')"
    using Suc.IH [OF f _ Suc.prems(3,4)] by blast
  show ?case
    using c r extract_code [OF Suc.prems(4), of acc'] by (simp add: s [symmetric] split)
qed simp

lemma div_ceil_8: "n = div_ceil t 8 \<longleftrightarrow> t \<le> 8 * n \<and> 8 * n < t + 8"
  by (auto simp: div_ceil_def)

lemma byte_padding:
  fixes l :: u8
  assumes "r \<le> 8"
  shows "bits_of 8 l = take r (bits_of 8 l) @ replicate (8 - r) False \<longleftrightarrow> fits r l"
proof
  assume *: "bits_of 8 l = take r (bits_of 8 l) @ replicate (8 - r) False"
  have "\<not> bit l n" if "r \<le> n" "n < 8" for n
    using arg_cong [OF *, of "\<lambda>xs. xs ! n"] that assms by (simp add: bits_of_def nth_append)
  then show "fits r l"
    using bit_imp_le_length [of l] by (fastforce simp: fits_bit not_le [symmetric])
next
  assume "fits r l"
  then show "bits_of 8 l = take r (bits_of 8 l) @ replicate (8 - r) False"
    using bits_of_fits [of r l "8 - r"] assms by simp
qed

lemma padding_mask:
  fixes l :: u8
  assumes "r < 8"
  shows "l AND NOT (push_bit r 1 - 1) = 0 \<longleftrightarrow> fits r l"
proof -
  have "push_bit r 1 - 1 = (mask r :: u8)" by (simp add: mask_eq_exp_minus_1 push_bit_of_1)
  moreover have "bit l n \<Longrightarrow> n < 8" for n
    using bit_imp_le_length [of l n] by simp
  then have "l AND NOT (mask r) = 0 \<longleftrightarrow> (\<forall>n. bit l n \<longrightarrow> n < r)"
    by (fastforce simp: bit_eq_iff bit_simps not_le [symmetric])
  ultimately show ?thesis by (simp add: fits_bit)
qed

lemma padding_stream:
  assumes "length packed = div_ceil t 8"
  shows "nonzero_padding packed (t mod 8) \<longleftrightarrow>
    stream packed \<noteq> take t (stream packed) @ replicate (8 * length packed - t) False"
proof (cases packed rule: rev_cases)
  case Nil
  then show ?thesis using assms by (simp add: nonzero_padding_def)
next
  case (snoc init l)
  from assms have len: "t \<le> 8 * length packed" "8 * length packed < t + 8"
    by (simp_all add: div_ceil_8)
  define r where "r = t - 8 * length init"
  have r: "t = 8 * length init + r" "0 < r" "r \<le> 8"
    using len snoc by (auto simp: r_def)
  have "stream packed = take t (stream packed) @ replicate (8 * length packed - t) False \<longleftrightarrow>
      bits_of 8 l = take r (bits_of 8 l) @ replicate (8 - r) False"
    using snoc r by simp
  also have "\<dots> \<longleftrightarrow> fits r l" using byte_padding r by blast
  also have "\<dots> \<longleftrightarrow> \<not> nonzero_padding packed (t mod 8)"
  proof (cases "r = 8")
    case False
    then have "r < 8" "t mod 8 = r" using r by simp_all
    then show ?thesis using snoc r padding_mask [of r l] by (simp add: nonzero_padding_def)
  qed (use r in \<open>simp add: nonzero_padding_def\<close>)
  finally show ?thesis by blast
qed

lemma pack_codes_stream:
  assumes "1 \<le> bits" "bits \<le> 8" "list_all (fits (unat bits)) codes"
  shows "stream (pack_codes codes bits) = concat (map (bits_of (unat bits)) codes) @
      replicate (8 * length (pack_codes codes bits) - length codes * unat bits) False"
    and "length (pack_codes codes bits) = div_ceil (length codes * unat bits) 8"
proof -
  have b: "0 < unat bits" "unat bits \<le> 8"
    using assms(1,2) by (simp_all add: word_le_nat_alt)
  have l: "length (concat (map (bits_of (unat bits)) codes)) = length codes * unat bits"
    by (induction codes) auto
  obtain p where p: "p < 8" "stream (pack_codes codes bits) =
      concat (map (bits_of (unat bits)) codes) @ replicate p False"
    using pack_loop_stream [of 0 0 "unat bits" codes] b assms by (auto simp: pack_codes_def fits_def)
  from arg_cong [OF p(2), of length] have "8 * length (pack_codes codes bits) = length codes * unat bits + p"
    by (simp add: l)
  with p show "stream (pack_codes codes bits) = concat (map (bits_of (unat bits)) codes) @
      replicate (8 * length (pack_codes codes bits) - length codes * unat bits) False"
    and "length (pack_codes codes bits) = div_ceil (length codes * unat bits) 8"
    by (auto simp: div_ceil_8)
qed

lemma unpack_loop_total:
  assumes "1 \<le> (bits :: u8)" "bits \<le> 8" "length packed = div_ceil (count * unat bits) 8"
  shows "\<exists>codes. unpack_loop count (unat bits) (ucast (push_bit (unat bits) 1 - 1 :: u16)) 0 0 packed = Ok codes \<and>
    length codes = count \<and> list_all (fits (unat bits)) codes \<and>
    concat (map (bits_of (unat bits)) codes) = take (count * unat bits) (stream packed)"
proof -
  have "0 < unat bits" "unat bits \<le> 8"
    using assms(1,2) by (simp_all add: word_le_nat_alt)
  moreover have "fits 0 (0 :: u16)" by (simp add: fits_def)
  moreover have "count * unat bits \<le> 8 * length packed"
    using assms(3) by (simp add: div_ceil_8)
  ultimately show ?thesis
    using unpack_loop_stream [of 0 0 "unat bits" count packed] by simp
qed

lemma pack_unpack:
  assumes *: "unpack_codes packed bits count = Ok codes"
  shows "packed = pack_codes codes bits \<and> count = length codes \<and> 1 \<le> bits \<and> bits \<le> 8 \<and>
     list_all (\<lambda>c. unat c < 2 ^ unat bits) codes \<and> count * unat bits \<le> usize_max"
proof -
  let ?t = "count * unat bits"
  from * have b: "1 \<le> bits" "bits \<le> 8" and t: "?t \<le> usize_max"
    and len: "length packed = div_ceil ?t 8" and pad: "\<not> nonzero_padding packed (?t mod 8)"
    and loop: "unpack_loop count (unat bits) (ucast (push_bit (unat bits) 1 - 1 :: u16)) 0 0 packed = Ok codes"
    by (auto simp: unpack_codes_def and_then_eq_Ok checked_mul_def split: if_splits)
  from unpack_loop_total [OF b len] loop
  have c: "length codes = count" "list_all (fits (unat bits)) codes"
    "concat (map (bits_of (unat bits)) codes) = take ?t (stream packed)"
    by auto
  have "stream packed = stream (pack_codes codes bits)"
    using pad padding_stream [OF len] pack_codes_stream [OF b c(2)] c(1,3) len by simp
  with b t c show ?thesis by (simp add: stream_inject fits_def [abs_def])
qed

lemma unpack_pack:
  assumes "1 \<le> bits" "bits \<le> 8" "list_all (\<lambda>c. unat c < 2 ^ unat bits) codes"
    "length codes * unat bits \<le> usize_max" "count = length codes"
  shows "unpack_codes (pack_codes codes bits) bits count = Ok codes"
proof -
  define packed where "packed = pack_codes codes bits"
  note * = assms packed_def
  let ?t = "length codes * unat bits"
  have b: "1 \<le> bits" "bits \<le> 8" and f: "list_all (fits (unat bits)) codes"
    using * by (simp_all add: fits_def [abs_def])
  have len: "length packed = div_ceil ?t 8" using pack_codes_stream(2) [OF b f] * by simp
  have l: "length (concat (map (bits_of (unat bits)) codes)) = ?t"
    by (induction codes) auto
  have take: "take ?t (stream packed) = concat (map (bits_of (unat bits)) codes)"
    using * l pack_codes_stream(1) [OF b f] by simp
  then have pad: "\<not> nonzero_padding packed (?t mod 8)"
    unfolding padding_stream [OF len] using * pack_codes_stream(1) [OF b f] by simp
  from unpack_loop_total [OF b len] obtain codes' where c:
    "unpack_loop (length codes) (unat bits) (ucast (push_bit (unat bits) 1 - 1 :: u16)) 0 0 packed = Ok codes'"
    "length codes' = length codes" "list_all (fits (unat bits)) codes'"
    "concat (map (bits_of (unat bits)) codes') = take ?t (stream packed)"
    by auto
  have "codes' = codes"
    using concat_bits_inject [of "unat bits" codes' codes] c f take by simp
  with * pad len c(1) show ?thesis
    by (simp add: unpack_codes_def checked_mul_def)
qed

text \<open>
  C24: Bit packing is exact. \<^verbatim>\<open>unpack_codes\<close> returns \<open>codes\<close> from a byte string if and only if the
  width is between 1 and 8, every code fits it, the bit count does not overflow \<^verbatim>\<open>usize\<close> and the
  string is \<^verbatim>\<open>pack_codes\<close> of those codes: packing loses nothing, and a stream of the wrong length
  or with stray padding bits is refused.
\<close>

theorem bit_packing_exact:
  "unpack_codes packed bits count = Ok codes \<longleftrightarrow>
     packed = pack_codes codes bits \<and> count = length codes \<and> 1 \<le> bits \<and> bits \<le> 8 \<and>
     list_all (\<lambda>c. unat c < 2 ^ unat bits) codes \<and> count * unat bits \<le> usize_max"
  using pack_unpack unpack_pack by blast

lemma unpack_codes_no_panic: "unpack_codes packed bits count \<noteq> Panic"
proof -
  have 1: "unpack_refill b acc k rest \<noteq> Panic" for b acc k rest
    by (induction b acc k rest rule: unpack_refill.induct)
      (subst unpack_refill.simps, auto split: list.splits)
  have "unpack_loop n b m acc k rest \<noteq> Panic" for n b m acc k rest
    by (induction n arbitrary: acc k rest) (auto simp: and_then_eq_Panic 1)
  then show ?thesis by (auto simp: unpack_codes_def and_then_eq_Panic)
qed

section \<open>Dictionary columns: proofs\<close>

lemma bit_length_less: "n < 2 ^ bit_length n"
proof (induction n rule: bit_length.induct)
  case (1 n)
  then show ?case by (subst bit_length.simps) auto
qed

lemma bit_length_le: "n < 2 ^ k \<Longrightarrow> bit_length n \<le> k"
proof (induction k arbitrary: n)
  case (Suc k)
  then have "n div 2 < 2 ^ k" by auto
  with Suc.IH [of "n div 2"] show ?case by (subst bit_length.simps) simp
qed (simp add: bit_length.simps)

lemma bits_for_cardinality_range:
  assumes "n \<le> 256"
  shows "1 \<le> bits_for_cardinality n" "bits_for_cardinality n \<le> 8" "n \<le> 2 ^ unat (bits_for_cardinality n)"
proof -
  have "1 \<le> bits_for_cardinality n \<and> bits_for_cardinality n \<le> 8 \<and> n \<le> 2 ^ unat (bits_for_cardinality n)"
  proof (cases "n \<le> 1")
    case False
    let ?k = "bit_length (n - 1)"
    have k: "?k \<le> 8" using bit_length_le [of "n - 1" 8] assms by simp
    have "0 < ?k" using False by (subst bit_length.simps) simp
    then have b: "bits_for_cardinality n = of_nat ?k"
      using False k by (auto simp: bits_for_cardinality_def leading_zeros_def min_def max_def Let_def
          word_le_nat_alt unat_of_nat)
    then have "unat (bits_for_cardinality n) = ?k" using k by (simp add: unat_of_nat)
    with k \<open>0 < ?k\<close> bit_length_less [of "n - 1"] show ?thesis
      by (simp add: word_le_nat_alt)
  qed (auto simp: bits_for_cardinality_def)
  then show "1 \<le> bits_for_cardinality n" "bits_for_cardinality n \<le> 8" "n \<le> 2 ^ unat (bits_for_cardinality n)"
    by blast+
qed

lemma position_Some: "position v ss = Some i \<Longrightarrow> i < length ss \<and> ss ! i = v"
  by (induction ss arbitrary: i) (auto split: if_splits)

lemma position_None: "position v ss = None \<longleftrightarrow> v \<notin> set ss"
  by (induction ss) auto

text \<open>The code stream describes the values: each code is the index of its value's symbol.\<close>

definition codes_for :: "bytes list \<Rightarrow> bytes list \<Rightarrow> u8 list \<Rightarrow> bool" where
  "codes_for syms vs codes \<longleftrightarrow>
     list_all2 (\<lambda>v c. unat c < length syms \<and> syms ! unat c = v) vs codes"

lemma dictionary_loop_codes:
  assumes "dictionary_loop symbols vs = Some (syms, codes)" "distinct symbols" "length symbols \<le> 256"
  shows "(\<exists>ext. syms = symbols @ ext) \<and> distinct syms \<and> set syms = set symbols \<union> set vs \<and>
    length syms \<le> 256 \<and> codes_for syms vs codes"
  using assms
proof (induction symbols vs arbitrary: codes rule: dictionary_loop.induct)
  case (2 symbols v vs)
  let ?i = "case position v symbols of Some i \<Rightarrow> i | None \<Rightarrow> length symbols"
  let ?symbols = "case position v symbols of Some i \<Rightarrow> symbols | None \<Rightarrow> symbols @ [v]"
  from 2(3) obtain cs where
    cs: "dictionary_loop ?symbols vs = Some (syms, cs)" "codes = of_nat ?i # cs"
    and small: "position v symbols = None \<Longrightarrow> length symbols < 256"
    by (auto simp: MAX_DICTIONARY_SYMBOLS_def split: option.splits if_splits)
  have d: "distinct ?symbols" "length ?symbols \<le> 256" "set ?symbols = insert v (set symbols)"
    using 2(4,5) small position_None [of v symbols] position_Some [of v symbols]
    by (auto split: option.splits)
  have IH: "(\<exists>ext. syms = ?symbols @ ext) \<and> distinct syms \<and> set syms = set ?symbols \<union> set vs \<and>
    length syms \<le> 256 \<and> codes_for syms vs cs"
    using 2(1,2) cs d small by (auto simp: MAX_DICTIONARY_SYMBOLS_def split: option.splits)
  have i: "?i < length ?symbols" "?symbols ! ?i = v"
    using position_Some [of v symbols] by (auto split: option.splits)
  then have "unat (of_nat ?i :: u8) = ?i"
    using d(2) by (simp add: unat_of_nat)
  with IH i cs(2) have "codes_for syms (v # vs) codes"
    by (auto simp: codes_for_def nth_append)
  moreover have "\<exists>ext. syms = symbols @ ext"
    using IH by (auto split: option.splits)
  ultimately show ?case using IH d by auto
qed (simp add: codes_for_def)

lemma dictionary_loop_None:
  assumes "distinct symbols" "length symbols \<le> 256"
  shows "dictionary_loop symbols vs = None \<longleftrightarrow> 256 < card (set symbols \<union> set vs)"
  using assms
proof (induction symbols vs rule: dictionary_loop.induct)
  case (1 symbols)
  then show ?case by (simp add: distinct_card)
next
  case (2 symbols v vs)
  show ?case
  proof (cases "position v symbols")
    case None
    then have v: "v \<notin> set symbols" by (simp add: position_None)
    show ?thesis
    proof (cases "length symbols = 256")
      case True
      have "card (insert v (set symbols)) \<le> card (insert v (set symbols \<union> set vs))"
        by (rule card_mono) auto
      with True v 2(3) show ?thesis
        using None by (simp add: MAX_DICTIONARY_SYMBOLS_def distinct_card)
    next
      case False
      then have "\<not> MAX_DICTIONARY_SYMBOLS \<le> length symbols"
        using 2(4) by (simp add: MAX_DICTIONARY_SYMBOLS_def)
      with 2 None False v show ?thesis by simp
    qed
  next
    case (Some i)
    then have "v \<in> set symbols" using position_None [of v symbols] by auto
    then show ?thesis using 2 Some by (simp add: insert_absorb)
  qed
qed

lemma codes_for_lookup:
  assumes "codes_for syms vs codes"
  shows "collect_results (\<lambda>c. ok_or (elem_get syms (unat c)) e) codes = Ok vs"
  using assms unfolding codes_for_def
  by (induction rule: list_all2_induct) (auto simp: elem_get_def)

lemma dictionary_decode_build:
  assumes "dictionary_build vs = Some d" "length vs * 8 \<le> usize_max"
  shows "dictionary_decode d = Ok vs \<and> distinct (dc_symbols d) \<and> set (dc_symbols d) = set vs"
proof -
  obtain syms codes where l: "dictionary_loop [] vs = Some (syms, codes)"
    and d: "d = \<lparr>dc_symbols = syms, dc_bits = bits_for_cardinality (length syms), dc_count = length vs,
      dc_codes = pack_codes codes (bits_for_cardinality (length syms))\<rparr>"
    using assms(1) by (auto simp: dictionary_build_def Let_def split: option.splits)
  let ?b = "bits_for_cardinality (length syms)"
  from dictionary_loop_codes [OF l] have s: "distinct syms" "set syms = set vs" "length syms \<le> 256"
    and c: "codes_for syms vs codes"
    by auto
  note b = bits_for_cardinality_range [OF s(3)]
  have len: "length codes = length vs"
    using c by (auto simp: codes_for_def dest: list_all2_lengthD)
  have "list_all (\<lambda>c. unat c < 2 ^ unat ?b) codes"
    using c b(3) unfolding codes_for_def by (induction rule: list_all2_induct) auto
  moreover have "length vs * unat ?b \<le> usize_max"
    using assms(2) b(2) by (intro le_trans [OF mult_le_mono2 assms(2)]) (simp add: word_le_nat_alt)
  ultimately have "unpack_codes (pack_codes codes ?b) ?b (length vs) = Ok codes"
    using b len by (simp add: unpack_pack)
  then show ?thesis
    using s codes_for_lookup [OF c] by (simp add: dictionary_decode_def d)
qed

text \<open>
  The dictionary codec loses nothing and gives up only when it must. For a column whose code
  stream can be addressed, \<^verbatim>\<open>DictionaryColumn::build\<close> returns \<^verbatim>\<open>None\<close> exactly when the column has more
  than 256 distinct values; otherwise its table holds each distinct value once and \<^verbatim>\<open>decode\<close> gives
  the column back.
\<close>

theorem dictionary_roundtrip:
  assumes "length vs * 8 \<le> usize_max"
  shows "case dictionary_build vs of
      None \<Rightarrow> card (set vs) > MAX_DICTIONARY_SYMBOLS
    | Some d \<Rightarrow> card (set vs) \<le> MAX_DICTIONARY_SYMBOLS \<and> dictionary_decode d = Ok vs \<and>
        distinct (dc_symbols d) \<and> set (dc_symbols d) = set vs"
  using dictionary_decode_build [OF _ assms] dictionary_loop_None [of "[]" vs]
  by (auto simp: dictionary_build_def MAX_DICTIONARY_SYMBOLS_def Let_def split: option.splits)

theorem dictionary_roundtrip_witness:
  "case dictionary_build [[1], [2, 3], [1]] of
      None \<Rightarrow> False
    | Some d \<Rightarrow> dictionary_decode d = Ok [[1], [2, 3], [1]] \<and> dc_bits d = 1"
proof -
  have "dictionary_build [[1], [2, 3], [1]] =
    Some \<lparr>dc_symbols = [[1], [2, 3]], dc_bits = 1, dc_count = 3, dc_codes = [2]\<rparr>"
    by code_simp
  then show ?thesis
    using dictionary_roundtrip [of "[[1], [2, 3], [1]]"] by (simp add: usize_max_def)
qed

lemma dictionary_decode_no_panic: "dictionary_decode d \<noteq> Panic"
  by (auto simp: dictionary_decode_def and_then_eq_Panic unpack_codes_no_panic
      dest: collect_results_not_Panic [THEN notE, rotated])

end
