(* ===== verification/Btree_Map.thy ===== *)
theory Btree_Map
  imports Pv_Prelude
begin

text \<open>
  What the secondary index uses of \<^verbatim>\<open>std::collections::BTreeMap\<close>: the map is the list of its entries
  in ascending key order. The interface \<open>ordered_map\<close> states lookup, update and ordered traversal;
  the proofs about indexes use only its laws.
\<close>

section \<open>Interface\<close>

locale ordered_map =
  fixes get :: "'m \<Rightarrow> 'k::linorder \<Rightarrow> 'v option"
    and put :: "'k \<Rightarrow> 'v \<Rightarrow> 'm \<Rightarrow> 'm"
    and pairs :: "'m \<Rightarrow> ('k \<times> 'v) list"
    and inv :: "'m \<Rightarrow> bool"
  assumes ascending: "inv m \<Longrightarrow> sorted_wrt (<) (map fst (pairs m))"
    and get_pairs: "inv m \<Longrightarrow> get m k = map_of (pairs m) k"
    and put_inv: "inv m \<Longrightarrow> inv (put k v m)"
    and get_put: "inv m \<Longrightarrow> get (put k v m) k' = (if k' = k then Some v else get m k')"
begin

lemma keys_distinct: "inv m \<Longrightarrow> distinct (map fst (pairs m))"
  using ascending [of m] by (simp add: strict_sorted_iff)

lemma in_pairs: "inv m \<Longrightarrow> (k, v) \<in> set (pairs m) \<longleftrightarrow> get m k = Some v"
  using keys_distinct [of m] by (simp add: get_pairs)

text \<open>A map is determined by its lookups.\<close>

lemma pairs_eqI:
  assumes "inv m" "inv m'" "\<And>k. get m k = get m' k"
  shows "pairs m = pairs m'"
proof -
  have set: "set (pairs m) = set (pairs m')"
    using in_pairs [OF assms(1)] in_pairs [OF assms(2)] assms(3) by auto
  have "inj_on fst (set (pairs m) \<union> set (pairs m'))"
    using keys_distinct [OF assms(1)] set by (simp add: distinct_map)
  then show ?thesis
    using ascending [OF assms(1)] ascending [OF assms(2)] set
    by (intro map_sorted_distinct_set_unique [of fst]) (auto simp: strict_sorted_iff)
qed

text \<open>Updating a list of entries, the last entry of a key winning.\<close>

lemma fold_put:
  assumes "inv m"
  shows "inv (fold (\<lambda>(k, v). put k v) kvs m) \<and>
    get (fold (\<lambda>(k, v). put k v) kvs m) k' = (case map_of (rev kvs) k' of Some v \<Rightarrow> Some v | None \<Rightarrow> get m k')"
  using assms
proof (induction kvs arbitrary: m)
  case (Cons kv kvs)
  obtain k v where "kv = (k, v)" by (cases kv)
  then show ?case
    using Cons.IH [OF put_inv [OF Cons.prems]] Cons.prems
    by (auto simp: get_put map_add_def split: option.splits)
qed simp

end

section \<open>Sorted entry lists\<close>

fun bt_get :: "('k::linorder \<times> 'v) list \<Rightarrow> 'k \<Rightarrow> 'v option" where
  "bt_get [] k = None"
| "bt_get ((k', v) # m) k = (if k = k' then Some v else if k < k' then None else bt_get m k)"

fun bt_insert :: "'k::linorder \<Rightarrow> 'v \<Rightarrow> ('k \<times> 'v) list \<Rightarrow> ('k \<times> 'v) list" where
  "bt_insert k v [] = [(k, v)]"
| "bt_insert k v ((k', v') # m) =
     (if k < k' then (k, v) # (k', v') # m
      else if k = k' then (k, v) # m
      else (k', v') # bt_insert k v m)"

definition bt_inv :: "('k::linorder \<times> 'v) list \<Rightarrow> bool" where
  "bt_inv m \<longleftrightarrow> sorted_wrt (<) (map fst m)"

text \<open>\<^verbatim>\<open>RangeBounds\<close>: \<^verbatim>\<open>range\<close> panics on a start past the end, and on an empty range between two
  excluded copies of one key.\<close>

datatype 'k bound = Included 'k | Excluded 'k | Unbounded

fun above :: "'k::linorder bound \<Rightarrow> 'k \<Rightarrow> bool" where
  "above (Included b) k \<longleftrightarrow> b \<le> k"
| "above (Excluded b) k \<longleftrightarrow> b < k"
| "above Unbounded k \<longleftrightarrow> True"

fun below :: "'k::linorder bound \<Rightarrow> 'k \<Rightarrow> bool" where
  "below (Included b) k \<longleftrightarrow> k \<le> b"
| "below (Excluded b) k \<longleftrightarrow> k < b"
| "below Unbounded k \<longleftrightarrow> True"

fun range_panics :: "'k::linorder bound \<Rightarrow> 'k bound \<Rightarrow> bool" where
  "range_panics (Excluded a) (Excluded b) \<longleftrightarrow> b \<le> a"
| "range_panics (Included a) (Included b) \<longleftrightarrow> b < a"
| "range_panics (Included a) (Excluded b) \<longleftrightarrow> b < a"
| "range_panics (Excluded a) (Included b) \<longleftrightarrow> b < a"
| "range_panics _ _ \<longleftrightarrow> False"

definition bt_range :: "'k::linorder bound \<Rightarrow> 'k bound \<Rightarrow> ('k \<times> 'v) list \<Rightarrow> ('k \<times> 'v) list result" where
  "bt_range lo hi m =
     (if range_panics lo hi then Panic else Ok (filter (\<lambda>(k, v). above lo k \<and> below hi k) m))"

lemma bt_insert_keys: "set (map fst (bt_insert k v m)) = insert k (set (map fst m))"
  by (induction k v m rule: bt_insert.induct) auto

lemma bt_insert_inv: "bt_inv m \<Longrightarrow> bt_inv (bt_insert k v m)"
proof (induction k v m rule: bt_insert.induct)
  case (2 k v k' v' m)
  then show ?case
    using bt_insert_keys [of k v m] by (force simp: bt_inv_def)
qed (simp add: bt_inv_def)

lemma bt_get_map_of: "bt_inv m \<Longrightarrow> bt_get m k = map_of m k"
proof (induction m k rule: bt_get.induct)
  case (2 k' v m k)
  have "k < k' \<Longrightarrow> map_of m k = None"
    using "2.prems" by (force simp: bt_inv_def map_of_eq_None_iff)
  with 2 show ?case by (auto simp: bt_inv_def)
qed simp

lemma map_of_bt_insert: "bt_inv m \<Longrightarrow> map_of (bt_insert k v m) k' = (if k' = k then Some v else map_of m k')"
  by (induction k v m rule: bt_insert.induct) (auto simp: bt_inv_def)

interpretation btree: ordered_map bt_get bt_insert "\<lambda>m. m" bt_inv
  by unfold_locales (auto simp: bt_get_map_of bt_insert_inv map_of_bt_insert, simp add: bt_inv_def)

end
