(* ===== verification/Value.thy ===== *)
theory Value
  imports Core_Types "HOL-Library.List_Lexorder"
begin

unbundle bit_operations_syntax

text \<open>
  \<^verbatim>\<open>src/core/value.rs\<close>: the dynamically typed cell value with the total order the engine sorts,
  compares and indexes by. A Rust \<^verbatim>\<open>String\<close> is its UTF-8 bytes; \<open>utf8_valid\<close> is the check of
  \<^verbatim>\<open>String::from_utf8\<close>, and \<open>value_ok\<close> states the invariant of the \<^verbatim>\<open>String\<close> type for a value.
\<close>

section \<open>UTF-8\<close>

definition cont_byte :: "u8 \<Rightarrow> bool" where
  "cont_byte b \<longleftrightarrow> 0x80 \<le> b \<and> b \<le> 0xBF"

fun utf8_valid :: "bytes \<Rightarrow> bool" where
  "utf8_valid [] = True"
| "utf8_valid (b # bs) =
     (if b < 0x80 then utf8_valid bs
      else if 0xC2 \<le> b \<and> b \<le> 0xDF then
        (case bs of c1 # rest \<Rightarrow> cont_byte c1 \<and> utf8_valid rest | _ \<Rightarrow> False)
      else if 0xE0 \<le> b \<and> b \<le> 0xEF then
        (case bs of c1 # c2 # rest \<Rightarrow>
            (if b = 0xE0 then 0xA0 \<le> c1 \<and> c1 \<le> 0xBF
             else if b = 0xED then 0x80 \<le> c1 \<and> c1 \<le> 0x9F
             else cont_byte c1) \<and> cont_byte c2 \<and> utf8_valid rest
          | _ \<Rightarrow> False)
      else if 0xF0 \<le> b \<and> b \<le> 0xF4 then
        (case bs of c1 # c2 # c3 # rest \<Rightarrow>
            (if b = 0xF0 then 0x90 \<le> c1 \<and> c1 \<le> 0xBF
             else if b = 0xF4 then 0x80 \<le> c1 \<and> c1 \<le> 0x8F
             else cont_byte c1) \<and> cont_byte c2 \<and> cont_byte c3 \<and> utf8_valid rest
          | _ \<Rightarrow> False)
      else False)"

definition from_utf8 :: "bytes \<Rightarrow> bytes option" where
  "from_utf8 bs = (if utf8_valid bs then Some bs else None)"

lemma from_utf8_valid [simp]: "utf8_valid bs \<Longrightarrow> from_utf8 bs = Some bs"
  by (simp add: from_utf8_def)

lemma from_utf8_Some [simp]: "from_utf8 bs = Some s \<longleftrightarrow> utf8_valid bs \<and> s = bs"
  by (auto simp: from_utf8_def)

lemma utf8_valid_ascii: "\<forall>b \<in> set bs. b < 0x80 \<Longrightarrow> utf8_valid bs"
  by (induction bs) auto

section \<open>Values\<close>

definition DECIMAL_SCALE :: nat where "DECIMAL_SCALE = 6"
definition DECIMAL_DEN :: int where "DECIMAL_DEN = 1000000"

datatype val = VNull | VInt i64 | VDecimal i128 | VText bytes | VBlob bytes

type_synonym row = "val list"

fun type_name :: "val \<Rightarrow> string" where
  "type_name VNull = ''null''"
| "type_name (VInt _) = ''int''"
| "type_name (VDecimal _) = ''decimal''"
| "type_name (VText _) = ''text''"
| "type_name (VBlob _) = ''blob''"

fun as_int :: "val \<Rightarrow> i64 option" where
  "as_int (VInt i) = Some i"
| "as_int _ = None"

fun as_text :: "val \<Rightarrow> bytes option" where
  "as_text (VText s) = Some s"
| "as_text _ = None"

fun value_ok :: "val \<Rightarrow> bool" where
  "value_ok (VText s) = utf8_valid s"
| "value_ok _ = True"

section \<open>The derived total order\<close>

fun value_rank :: "val \<Rightarrow> nat" where
  "value_rank VNull = 0"
| "value_rank (VInt _) = 1"
| "value_rank (VDecimal _) = 2"
| "value_rank (VText _) = 3"
| "value_rank (VBlob _) = 4"

fun value_le :: "val \<Rightarrow> val \<Rightarrow> bool" where
  "value_le (VInt a) (VInt b) = (sint a \<le> sint b)"
| "value_le (VDecimal a) (VDecimal b) = (sint a \<le> sint b)"
| "value_le (VText a) (VText b) = (a \<le> b)"
| "value_le (VBlob a) (VBlob b) = (a \<le> b)"
| "value_le a b = (value_rank a \<le> value_rank b)"

instantiation val :: linorder
begin

definition less_eq_val :: "val \<Rightarrow> val \<Rightarrow> bool" where
  "less_eq_val a b = value_le a b"

definition less_val :: "val \<Rightarrow> val \<Rightarrow> bool" where
  "less_val a b = (value_le a b \<and> \<not> value_le b a)"

instance
proof
  fix x y z :: val
  show "x < y \<longleftrightarrow> x \<le> y \<and> \<not> y \<le> x"
    by (simp add: less_eq_val_def less_val_def)
  show "x \<le> x"
    by (cases x) (simp_all add: less_eq_val_def)
  show "x \<le> y \<Longrightarrow> y \<le> z \<Longrightarrow> x \<le> z"
    by (cases x; cases y; cases z) (auto simp: less_eq_val_def)
  show "x \<le> y \<Longrightarrow> y \<le> x \<Longrightarrow> x = y"
    by (cases x; cases y) (auto simp: less_eq_val_def dest: signed_word_eqI)
  show "x \<le> y \<or> y \<le> x"
    by (cases x; cases y) (auto simp: less_eq_val_def)
qed

end

lemma value_rank_less: "value_rank a < value_rank b \<Longrightarrow> a < b"
  by (cases a; cases b) (auto simp: less_val_def)

section \<open>Display\<close>

text \<open>VDecimal digits of a natural number, and the zero-padded form \<^verbatim>\<open>{:0w$}\<close>.\<close>

fun show_nat :: "nat \<Rightarrow> bytes" where
  "show_nat n = (if n < 10 then [of_nat (48 + n)] else show_nat (n div 10) @ [of_nat (48 + n mod 10)])"

declare show_nat.simps [simp del]

definition zero_pad :: "nat \<Rightarrow> bytes \<Rightarrow> bytes" where
  "zero_pad w s = replicate (w - length s) 48 @ s"

fun val_display :: "val \<Rightarrow> bytes" where
  "val_display VNull = ascii ''NULL''"
| "val_display (VInt i) = (if sint i < 0 then [45] else []) @ show_nat (nat \<bar>sint i\<bar>)"
| "val_display (VDecimal m) =
     (let mag = nat \<bar>sint m\<bar>; den = nat DECIMAL_DEN
      in (if sint m < 0 then [45] else []) @ show_nat (mag div den) @ [46] @
         zero_pad DECIMAL_SCALE (show_nat (mag mod den)))"
| "val_display (VText s) = s"
| "val_display (VBlob b) = ascii ''<blob '' @ show_nat (length b) @ ascii '' bytes>''"

lemma length_show_nat: "n < 10 ^ k \<Longrightarrow> 0 < k \<Longrightarrow> length (show_nat n) \<le> k"
proof (induction k arbitrary: n)
  case (Suc k)
  show ?case
  proof (cases "n < 10")
    case False
    then have "n div 10 < 10 ^ k" "0 < k" using Suc.prems by (cases k; auto)+
    with Suc.IH [of "n div 10"] False show ?thesis by (simp add: show_nat.simps [of n])
  qed (simp add: show_nat.simps)
qed simp

lemma val_display_decimal_fraction:
  "\<exists>whole frac. val_display (VDecimal m) = whole @ [46] @ frac \<and> length frac = 6"
proof -
  have "length (show_nat (nat \<bar>sint m\<bar> mod nat DECIMAL_DEN)) \<le> 6"
    by (rule length_show_nat) (simp_all add: DECIMAL_DEN_def)
  then have "length (zero_pad DECIMAL_SCALE (show_nat (nat \<bar>sint m\<bar> mod nat DECIMAL_DEN))) = 6"
    by (simp add: zero_pad_def DECIMAL_SCALE_def)
  moreover have "val_display (VDecimal m) =
    ((if sint m < 0 then [45] else []) @ show_nat (nat \<bar>sint m\<bar> div nat DECIMAL_DEN)) @ [46] @
      zero_pad DECIMAL_SCALE (show_nat (nat \<bar>sint m\<bar> mod nat DECIMAL_DEN))"
    by (simp add: Let_def)
  ultimately show ?thesis by blast
qed

end
