(* ===== verification/Sec_Index.thy ===== *)
theory Sec_Index
  imports Btree_Map Core_Types Value
begin

text \<open>
  The secondary index of \<^verbatim>\<open>src/storage/index.rs\<close>: an ordered map from column values to record
  addresses, its lookups, range scans and ordered traversal, and its binary form in a baked image.
  Abstractly an index is the multiset-free list of (value, address) pairs it was fed: lookups and
  ranges are shown to return exactly the addresses of the matching values.
\<close>

section \<open>State and operations\<close>

record secondary_index =
  si_map :: "(val \<times> record_addr list) list"
  si_entries :: nat

definition index_new :: secondary_index where
  "index_new = \<lparr>si_map = [], si_entries = 0\<rparr>"

text \<open>\<^verbatim>\<open>map.entry(value).or_default().extend(addrs)\<close>\<close>

definition entry_extend :: "val \<Rightarrow> record_addr list \<Rightarrow> (val \<times> record_addr list) list \<Rightarrow> (val \<times> record_addr list) list"
where
  "entry_extend k addrs m = bt_insert k ((case bt_get m k of Some as \<Rightarrow> as | None \<Rightarrow> []) @ addrs) m"

definition index_insert :: "val \<Rightarrow> record_addr \<Rightarrow> secondary_index \<Rightarrow> secondary_index" where
  "index_insert v addr ix = \<lparr>si_map = entry_extend v [addr] (si_map ix), si_entries = si_entries ix + 1\<rparr>"

definition index_lookup :: "secondary_index \<Rightarrow> val \<Rightarrow> record_addr list" where
  "index_lookup ix v = (case bt_get (si_map ix) v of Some as \<Rightarrow> as | None \<Rightarrow> [])"

definition index_range :: "secondary_index \<Rightarrow> val bound \<Rightarrow> val bound \<Rightarrow> record_addr list result" where
  "index_range ix lo hi = and_then (bt_range lo hi (si_map ix)) (\<lambda>kvs. Ok (concat (map snd kvs)))"

definition index_range_len :: "secondary_index \<Rightarrow> val bound \<Rightarrow> val bound \<Rightarrow> nat result" where
  "index_range_len ix lo hi =
     and_then (bt_range lo hi (si_map ix)) (\<lambda>kvs. Ok (sum_list (map (length \<circ> snd) kvs)))"

definition index_append_range ::
  "secondary_index \<Rightarrow> val bound \<Rightarrow> val bound \<Rightarrow> record_addr list \<Rightarrow> record_addr list result" where
  "index_append_range ix lo hi out =
     and_then (bt_range lo hi (si_map ix)) (\<lambda>kvs. Ok (out @ concat (map snd kvs)))"

definition ordered_addrs :: "secondary_index \<Rightarrow> bool \<Rightarrow> record_addr list" where
  "ordered_addrs ix descending =
     (if descending then concat (rev (map snd (si_map ix))) else concat (map snd (si_map ix)))"

definition index_len :: "secondary_index \<Rightarrow> nat" where
  "index_len ix = si_entries ix"

definition index_is_empty :: "secondary_index \<Rightarrow> bool" where
  "index_is_empty ix \<longleftrightarrow> si_entries ix = 0"

definition distinct_keys :: "secondary_index \<Rightarrow> nat" where
  "distinct_keys ix = length (si_map ix)"

definition to_pairs :: "secondary_index \<Rightarrow> (val \<times> record_addr list) list" where
  "to_pairs ix = si_map ix"

definition from_pairs :: "(val \<times> record_addr list) list \<Rightarrow> secondary_index" where
  "from_pairs pairs =
     (let (m, n) = fold (\<lambda>(k, addrs) (m, n). (entry_extend k addrs m, n + length addrs)) pairs ([], 0)
      in \<lparr>si_map = m, si_entries = n\<rparr>)"

section \<open>Binary form\<close>

definition IV_NULL :: u8 where "IV_NULL = 0x00"
definition IV_INT :: u8 where "IV_INT = 0x01"
definition IV_TEXT :: u8 where "IV_TEXT = 0x02"
definition IV_BLOB :: u8 where "IV_BLOB = 0x03"
definition IV_DECIMAL :: u8 where "IV_DECIMAL = 0x06"

lemmas iv_defs = IV_NULL_def IV_INT_def IV_TEXT_def IV_BLOB_def IV_DECIMAL_def

fun encode_index_value :: "val \<Rightarrow> bytes" where
  "encode_index_value VNull = [IV_NULL]"
| "encode_index_value (VInt i) = IV_INT # to_le 8 i"
| "encode_index_value (VDecimal m) = IV_DECIMAL # to_le 16 m"
| "encode_index_value (VText s) = IV_TEXT # to_le 4 (of_nat (length s) :: u32) @ s"
| "encode_index_value (VBlob b) = IV_BLOB # to_le 4 (of_nat (length b) :: u32) @ b"

definition encode_addrs :: "record_addr list \<Rightarrow> bytes" where
  "encode_addrs addrs = to_le 4 (of_nat (length addrs) :: u32) @ concat (map (to_le 8) addrs)"

definition encode_binary :: "secondary_index \<Rightarrow> bytes" where
  "encode_binary ix =
     to_le 4 (of_nat (length (si_map ix)) :: u32) @
     concat (map (\<lambda>(k, addrs). encode_index_value k @ encode_addrs addrs) (si_map ix))"

definition rd_u32 :: "u32 reader" where
  "rd_u32 = get_le ''index: truncated u32'' 4"

definition rd_u64 :: "u64 reader" where
  "rd_u64 = get_le ''index: truncated u64'' 8"

definition rd_i128 :: "i128 reader" where
  "rd_i128 = get_le ''index: truncated i128'' 16"

definition rd_bytes :: "bytes reader" where
  "rd_bytes buf pos =
     and_then (rd_u32 buf pos) (\<lambda>(len, pos). get_exact ''index: truncated payload'' (unat len) buf pos)"

definition decode_index_value :: "val reader" where
  "decode_index_value buf pos =
     and_then (get_byte ''index: truncated at value tag'' buf pos) (\<lambda>(tag, pos).
       if tag = IV_NULL then Ok (VNull, pos)
       else if tag = IV_INT then map_reader VInt rd_u64 buf pos
       else if tag = IV_DECIMAL then map_reader VDecimal rd_i128 buf pos
       else if tag = IV_TEXT then
         and_then (rd_bytes buf pos) (\<lambda>(bs, pos).
         and_then (ok_or (from_utf8 bs) (Corruption ''index: invalid utf-8 key'')) (\<lambda>s. Ok (VText s, pos)))
       else if tag = IV_BLOB then map_reader VBlob rd_bytes buf pos
       else Err (Corruption ''index: bad value tag 0x{other:02X}''))"

definition decode_addrs :: "record_addr list reader" where
  "decode_addrs buf pos =
     and_then (rd_u32 buf pos) (\<lambda>(addr_count, pos). read_many rd_u64 (unat addr_count) buf pos)"

fun decode_keys :: "nat \<Rightarrow> bytes \<Rightarrow> nat \<Rightarrow> secondary_index \<Rightarrow> (secondary_index \<times> nat) result" where
  "decode_keys 0 buf pos ix = Ok (ix, pos)"
| "decode_keys (Suc n) buf pos ix =
     and_then (decode_index_value buf pos) (\<lambda>(key, pos).
       if bt_get (si_map ix) key \<noteq> None then
         Err (Corruption ''index: duplicate key entry in binary encoding'')
       else
         and_then (decode_addrs buf pos) (\<lambda>(addrs, pos).
           decode_keys n buf pos
             \<lparr>si_map = bt_insert key addrs (si_map ix), si_entries = si_entries ix + length addrs\<rparr>))"

definition decode_binary :: "bytes \<Rightarrow> secondary_index result" where
  "decode_binary bs =
     and_then (rd_u32 bs 0) (\<lambda>(key_count, pos).
     and_then (decode_keys (unat key_count) bs pos index_new) (\<lambda>(ix, pos).
       if pos \<noteq> length bs then Err (Corruption ''index: trailing bytes after declared keys'') else Ok ix))"

section \<open>The index as a relation\<close>

definition index_inv :: "secondary_index \<Rightarrow> bool" where
  "index_inv ix \<longleftrightarrow> bt_inv (si_map ix) \<and> si_entries ix = length (concat (map snd (si_map ix)))"

text \<open>The (value, address) pairs in key order.\<close>

definition index_pairs :: "secondary_index \<Rightarrow> (val \<times> record_addr) list" where
  "index_pairs ix = concat (map (\<lambda>(k, addrs). map (Pair k) addrs) (si_map ix))"

lemma index_inv_new [simp]: "index_inv index_new"
  by (simp add: index_inv_def index_new_def bt_inv_def)

lemma lookup_extend:
  assumes "bt_inv m"
  shows "bt_inv (entry_extend k addrs m)"
    "bt_get (entry_extend k addrs m) k' =
      (if k' = k then Some ((case bt_get m k of Some as \<Rightarrow> as | None \<Rightarrow> []) @ addrs) else bt_get m k')"
  using btree.put_inv [OF assms] btree.get_put [OF assms] by (simp_all add: entry_extend_def)

lemma length_bt_insert:
  assumes "bt_inv m"
  shows "length (concat (map snd (bt_insert k as m))) + (case bt_get m k of Some old \<Rightarrow> length old | None \<Rightarrow> 0) =
    length (concat (map snd m)) + length as"
  using assms by (induction k as m rule: bt_insert.induct) (auto simp: bt_inv_def split: option.splits)

lemma index_insert_inv:
  assumes "index_inv ix"
  shows "index_inv (index_insert v a ix)"
proof -
  let ?old = "case bt_get (si_map ix) v of Some as \<Rightarrow> as | None \<Rightarrow> []"
  have m: "bt_inv (si_map ix)" using assms by (simp add: index_inv_def)
  show ?thesis
    using assms length_bt_insert [OF m, of v "?old @ [a]"] lookup_extend(1) [OF m, of v "[a]"]
    by (auto simp: index_inv_def index_insert_def entry_extend_def split: option.splits)
qed

lemma index_pairs_range:
  assumes "\<not> range_panics lo hi"
  shows "index_range ix lo hi = Ok (map snd (filter (\<lambda>(k, a). above lo k \<and> below hi k) (index_pairs ix)))"
proof -
  have "concat (map snd (filter (\<lambda>(k, v). above lo k \<and> below hi k) m)) =
    map snd (filter (\<lambda>(k, a). above lo k \<and> below hi k) (concat (map (\<lambda>(k, addrs). map (Pair k) addrs) m)))"
    for m :: "(val \<times> record_addr list) list"
  proof (induction m)
    case (Cons kv m)
    obtain k as where "kv = (k, as)" by (cases kv)
    with Cons show ?case
      by (cases "above lo k \<and> below hi k") (auto simp: filter_map comp_def)
  qed simp
  with assms show ?thesis by (simp add: index_range_def bt_range_def index_pairs_def)
qed

lemma index_pairs_sorted:
  assumes "index_inv ix"
  shows "sorted (map fst (index_pairs ix))"
proof -
  have "sorted (map fst (concat (map (\<lambda>(k, addrs). map (Pair k) addrs) m)))" if "bt_inv m"
    for m :: "(val \<times> record_addr list) list"
    using that
  proof (induction m)
    case (Cons kv m)
    obtain k as where kv: "kv = (k, as)" by (cases kv)
    have "\<forall>x \<in> set m. k < fst x" "bt_inv m" using Cons.prems kv by (auto simp: bt_inv_def)
    moreover have "map fst (map (Pair k) as) = replicate (length as) k" by (induction as) auto
    ultimately show ?case
      using Cons.IH by (fastforce simp: kv sorted_append less_imp_le)
  qed simp
  with assms show ?thesis by (simp add: index_inv_def index_pairs_def)
qed

lemma index_pairs_lookup:
  assumes "index_inv ix"
  shows "map snd (filter (\<lambda>(k, a). k = v) (index_pairs ix)) = index_lookup ix v"
proof -
  have "map snd (filter (\<lambda>(k, a). k = v) (concat (map (\<lambda>(k, addrs). map (Pair k) addrs) m))) =
      (case bt_get m v of Some as \<Rightarrow> as | None \<Rightarrow> [])" if "bt_inv m" for m :: "(val \<times> record_addr list) list"
    using that
  proof (induction m)
    case (Cons kv m)
    obtain k as where kv: "kv = (k, as)" by (cases kv)
    have m: "\<forall>x \<in> set m. k < fst x" "bt_inv m" using Cons.prems kv by (auto simp: bt_inv_def)
    show ?case
    proof (cases "v \<le> k")
      case True
      have "v \<noteq> k'" if "(k', as') \<in> set m" for k' as' using m(1) that True by force
      then have "filter (\<lambda>(k, a). k = v) (concat (map (\<lambda>(k, addrs). map (Pair k) addrs) m)) = []"
        by (auto simp: filter_empty_conv)
      with True show ?thesis by (auto simp: kv filter_map comp_def)
    next
      case False
      then have "v \<noteq> k" "\<not> v < k" by auto
      with Cons.IH [OF m(2)] show ?thesis by (auto simp: kv filter_map comp_def)
    qed
  qed simp
  with assms show ?thesis by (simp add: index_inv_def index_pairs_def index_lookup_def)
qed

text \<open>
  C27: An index answers lookups and ranges exactly. In an index whose invariant holds, inserting a
  value and an address keeps the invariant, counts one more entry, appends the address to that
  value's list and changes no other list. A range whose bounds are in order returns the addresses
  of exactly the keys within it, in ascending key order, \<^verbatim>\<open>range_len\<close> is their number, and a range
  whose bounds are crossed is the case in which \<^verbatim>\<open>BTreeMap::range\<close> panics.
\<close>

theorem index_lookup_range:
  assumes "index_inv ix"
  shows "index_inv (index_insert v a ix) \<and> index_len (index_insert v a ix) = Suc (index_len ix) \<and>
    (\<forall>w. index_lookup (index_insert v a ix) w = (if w = v then index_lookup ix v @ [a] else index_lookup ix w)) \<and>
    sorted (map fst (index_pairs ix)) \<and>
    (\<forall>w. index_lookup ix w = map snd (filter (\<lambda>(k, a). k = w) (index_pairs ix))) \<and>
    (\<forall>lo hi. index_range ix lo hi =
      (if range_panics lo hi then Panic
       else Ok (map snd (filter (\<lambda>(k, a). above lo k \<and> below hi k) (index_pairs ix))))) \<and>
    (\<forall>lo hi as. index_range ix lo hi = Ok as \<longrightarrow> index_range_len ix lo hi = Ok (length as))"
proof -
  have m: "bt_inv (si_map ix)" using assms by (simp add: index_inv_def)
  have lookup: "index_lookup (index_insert v a ix) w =
      (if w = v then index_lookup ix v @ [a] else index_lookup ix w)" for w
    by (simp add: index_lookup_def index_insert_def lookup_extend(2) [OF m])
  have len: "index_range ix lo hi = Ok as \<Longrightarrow> index_range_len ix lo hi = Ok (length as)" for lo hi as
    by (auto simp: index_range_def index_range_len_def and_then_eq_Ok length_concat comp_def)
  have panics: "range_panics lo hi \<Longrightarrow> index_range ix lo hi = Panic" for lo hi
    by (simp add: index_range_def bt_range_def)
  show ?thesis
    using index_insert_inv [OF assms] lookup index_pairs_sorted [OF assms] index_pairs_lookup [OF assms]
      index_pairs_range [of _ _ ix] len panics
    by (auto simp: index_len_def index_insert_def)
qed

theorem index_lookup_range_witness:
  "index_lookup (index_insert (VInt 5) 17 index_new) (VInt 5) = [17] \<and>
    index_range (index_insert (VInt 5) 17 index_new) (Included (VInt 5)) Unbounded = Ok [17]"
proof -
  let ?ix = "index_insert (VInt 5) 17 index_new"
  have inv: "index_inv ?ix" and look: "index_lookup ?ix (VInt 5) = [17]"
    using index_lookup_range [OF index_inv_new, of "VInt 5" 17] by (simp_all add: index_lookup_def index_new_def)
  have "index_pairs ?ix = [(VInt 5, 17)]"
    by (simp add: index_pairs_def index_insert_def entry_extend_def index_new_def)
  with index_lookup_range [OF inv] look show ?thesis by simp
qed

section \<open>The binary form: proofs\<close>

interpretation ix_u32: strict_codec rd_u32 "to_le 4" "\<lambda>_. True"
  unfolding rd_u32_def by (rule get_le_strict) simp

interpretation ix_u64: strict_codec rd_u64 "to_le 8" "\<lambda>_. True"
  unfolding rd_u64_def by (rule get_le_strict) simp

interpretation ix_i128: strict_codec rd_i128 "to_le 16" "\<lambda>_. True"
  unfolding rd_i128_def by (rule get_le_strict) simp

interpretation ix_bytes: codec rd_bytes "\<lambda>bs. to_le 4 (of_nat (length bs) :: u32) @ bs" "\<lambda>bs. length bs < 2 ^ 32"
  using length_prefixed_codec [where 'a = 32 and n = 4] by (simp add: rd_bytes_def [abs_def] rd_u32_def)

lemma ix_readers_safe [safe_intros]:
  "safe_reader rd_u32" "safe_reader rd_u64" "safe_reader rd_i128" "safe_reader rd_bytes"
  by (intro ix_u32.safe_reader_axioms ix_u64.safe_reader_axioms ix_i128.safe_reader_axioms ix_bytes.safe_reader_axioms)+

fun key_ok :: "val \<Rightarrow> bool" where
  "key_ok (VText s) \<longleftrightarrow> utf8_valid s \<and> length s < 2 ^ 32"
| "key_ok (VBlob b) \<longleftrightarrow> length b < 2 ^ 32"
| "key_ok _ \<longleftrightarrow> True"

lemmas read_key = read_after_tag [OF ix_u64.codec_axioms] read_after_tag [OF ix_i128.codec_axioms]
  read_after_tag [OF ix_bytes.codec_axioms, simplified]

interpretation ix_value: codec decode_index_value encode_index_value key_ok
proof (rule codec_intro)
  show "safe_reader decode_index_value"
    unfolding decode_index_value_def [abs_def] by (intro safe_intros) simp
  fix v pre post
  assume "key_ok v"
  then show "decode_index_value (pre @ encode_index_value v @ post) (length pre) =
      Ok (v, length pre + length (encode_index_value v))"
    by (cases v) (auto simp: decode_index_value_def get_tag read_key iv_defs map_reader_def)
qed

interpretation ix_addrs: codec decode_addrs encode_addrs "\<lambda>as. length as < 2 ^ 32"
proof (rule codec_intro)
  show "safe_reader decode_addrs"
    unfolding decode_addrs_def [abs_def] by (intro safe_intros)
  fix as :: "record_addr list" and pre post
  assume len: "length as < 2 ^ 32"
  define n where "n = (of_nat (length as) :: u32)"
  have n: "unat n = length as" using len by (simp add: n_def unat_of_nat)
  have enc: "encode_addrs as = to_le 4 n @ concat (map (to_le 8) as)" by (simp add: encode_addrs_def n_def)
  define buf where "buf = pre @ encode_addrs as @ post"
  have d0: "drop (length pre) buf = to_le 4 n @ concat (map (to_le 8) as) @ post" "length pre \<le> length buf"
    by (simp_all add: buf_def enc)
  note s1 = ix_u32.dec_at [OF d0 TrueI]
  have "read_many rd_u64 (unat n) buf (length pre + length (to_le 4 n)) =
      Ok (as, length pre + length (to_le 4 n) + length (concat (map (to_le 8) as)))"
    by (rule ix_u64.many_dec_at(1) [OF s1(2,3)]) (simp_all add: list_all_iff n)
  with s1(1) have "decode_addrs buf (length pre) = Ok (as, length pre + length (encode_addrs as))"
    by (simp add: decode_addrs_def enc add.assoc)
  then show "decode_addrs (pre @ encode_addrs as @ post) (length pre) = Ok (as, length pre + length (encode_addrs as))"
    by (simp add: buf_def)
qed

text \<open>What the binary form can hold: counts and key lengths below \<open>2 ^ 32\<close>.\<close>

definition index_storable :: "secondary_index \<Rightarrow> bool" where
  "index_storable ix \<longleftrightarrow> length (si_map ix) < 2 ^ 32 \<and>
     list_all (\<lambda>(k, as). key_ok k \<and> length as < 2 ^ 32) (si_map ix)"

lemma bt_insert_last: "\<forall>x \<in> set m. fst x < k \<Longrightarrow> bt_insert k v m = m @ [(k, v)]"
  by (induction k v m rule: bt_insert.induct) auto

lemma bt_get_last: "\<forall>x \<in> set m. fst x < k \<Longrightarrow> bt_get m k = None"
  by (induction m k rule: bt_get.induct) auto

lemma decode_keys_encode:
  assumes "drop pos buf = concat (map (\<lambda>(k, as). encode_index_value k @ encode_addrs as) m) @ post"
    "pos \<le> length buf" "list_all (\<lambda>(k, as). key_ok k \<and> length as < 2 ^ 32) m" "bt_inv (si_map ix @ m)"
  shows "decode_keys (length m) buf pos ix =
    Ok (\<lparr>si_map = si_map ix @ m, si_entries = si_entries ix + length (concat (map snd m))\<rparr>,
      pos + length (concat (map (\<lambda>(k, as). encode_index_value k @ encode_addrs as) m)))"
  using assms
proof (induction m arbitrary: pos ix)
  case (Cons kv m)
  obtain k as where kv: "kv = (k, as)" by (cases kv)
  let ?rest = "concat (map (\<lambda>(k, as). encode_index_value k @ encode_addrs as) m) @ post"
  have d0: "drop pos buf = encode_index_value k @ encode_addrs as @ ?rest"
    using Cons.prems(1) by (simp add: kv)
  have ok: "key_ok k" "length as < 2 ^ 32" using Cons.prems(3) by (simp_all add: kv)
  note s1 = ix_value.dec_at [OF d0 Cons.prems(2) ok(1)]
  note s2 = ix_addrs.dec_at [OF s1(2,3) ok(2)]
  have "\<forall>x \<in> set (si_map ix). fst x < k"
    using Cons.prems(4) by (auto simp: bt_inv_def kv sorted_wrt_append)
  note last = bt_get_last [OF this] bt_insert_last [OF this, of as]
  let ?ix = "\<lparr>si_map = si_map ix @ [(k, as)], si_entries = si_entries ix + length as\<rparr>"
  have "decode_keys (length m) buf (pos + length (encode_index_value k) + length (encode_addrs as)) ?ix =
    Ok (\<lparr>si_map = si_map ?ix @ m, si_entries = si_entries ?ix + length (concat (map snd m))\<rparr>,
      pos + length (encode_index_value k) + length (encode_addrs as) +
      length (concat (map (\<lambda>(k, as). encode_index_value k @ encode_addrs as) m)))"
    by (rule Cons.IH [OF s2(2,3)]) (use Cons.prems(3,4) kv in simp_all)
  with s1(1) s2(1) last show ?case by (simp add: kv add.assoc)
qed (simp add: secondary_index.equality)

lemma decode_encode_binary:
  assumes "index_inv ix" "index_storable ix"
  shows "decode_binary (encode_binary ix) = Ok ix"
proof -
  define n where "n = (of_nat (length (si_map ix)) :: u32)"
  let ?body = "concat (map (\<lambda>(k, as). encode_index_value k @ encode_addrs as) (si_map ix))"
  have n: "unat n = length (si_map ix)" using assms(2) by (simp add: n_def unat_of_nat index_storable_def)
  have enc: "encode_binary ix = to_le 4 n @ ?body" by (simp add: encode_binary_def n_def)
  have d0: "drop 0 (encode_binary ix) = to_le 4 n @ ?body" by (simp add: enc)
  note s1 = ix_u32.dec_at [OF d0 le0 TrueI]
  have "decode_keys (length (si_map ix)) (encode_binary ix) (0 + length (to_le 4 n)) index_new = Ok (ix, 0 + length (to_le 4 n) + length ?body)"
    using decode_keys_encode [of "0 + length (to_le 4 n)" "encode_binary ix" "si_map ix" "[]" index_new] s1(2,3) assms
    by (simp add: index_storable_def index_inv_def index_new_def)
  then show ?thesis
    unfolding decode_binary_def s1(1) and_then.simps prod.case n by (simp add: enc)
qed

definition sample_index :: secondary_index where
  "sample_index = index_insert (VInt 5) 17 index_new"

lemma sample_index_ok: "index_inv sample_index" "index_storable sample_index"
  using index_insert_inv [OF index_inv_new, of "VInt 5" 17]
  by (simp_all add: sample_index_def index_storable_def index_insert_def entry_extend_def index_new_def)

text \<open>
  A baked index loads as it was saved. For an index whose invariant holds and whose counts and
  key lengths fit 32 bits, \<^verbatim>\<open>decode_binary\<close> of \<^verbatim>\<open>encode_binary\<close> is the same index, entry count included.
\<close>

theorem index_roundtrip:
  assumes "index_inv ix" "index_storable ix"
  shows "decode_binary (encode_binary ix) = Ok ix"
  using assms by (rule decode_encode_binary)

theorem index_roundtrip_witness: "decode_binary (encode_binary sample_index) = Ok sample_index"
  by (rule index_roundtrip [OF sample_index_ok])

lemma decode_keys_safe:
  assumes "pos \<le> length buf" "index_inv ix"
  shows "decode_keys n buf pos ix \<noteq> Panic \<and>
    (\<forall>ix' pos'. decode_keys n buf pos ix = Ok (ix', pos') \<longrightarrow> index_inv ix')"
  using assms
proof (induction n arbitrary: pos ix)
  case (Suc n)
  show ?case
  proof (cases "decode_index_value buf pos")
    case (Ok kp)
    obtain k p where kp: "kp = (k, p)" by (cases kp)
    with Ok have p: "p \<le> length buf" using ix_value.in_bounds [OF Suc.prems(1)] by blast
    show ?thesis
    proof (cases "bt_get (si_map ix) k = None")
      case fresh: True
      show ?thesis
      proof (cases "decode_addrs buf p")
        case addrs: (Ok aq)
        obtain as q where aq: "aq = (as, q)" by (cases aq)
        have q: "q \<le> length buf" using ix_addrs.in_bounds [OF p] addrs aq by blast
        have m: "bt_inv (si_map ix)" using Suc.prems(2) by (simp add: index_inv_def)
        have "index_inv \<lparr>si_map = bt_insert k as (si_map ix), si_entries = si_entries ix + length as\<rparr>"
          using Suc.prems(2) btree.put_inv [OF m] length_bt_insert [OF m, of k as] fresh
          by (simp add: index_inv_def)
        from Suc.IH [OF q this] show ?thesis using Ok kp fresh addrs aq by simp
      qed (use Ok kp fresh ix_addrs.no_panic [OF p] in auto)
    qed (use Ok kp in auto)
  qed (use ix_value.no_panic [OF Suc.prems(1)] in auto)
qed simp

text \<open>
  An index region from an untrusted image is safe to load: \<^verbatim>\<open>decode_binary\<close> never panics, and what
  it accepts is an index whose keys are distinct, in order, and whose entry count is right.
\<close>

theorem index_decode_total:
  "decode_binary bs \<noteq> Panic \<and> (\<forall>ix. decode_binary bs = Ok ix \<longrightarrow> index_inv ix)"
proof (cases "rd_u32 bs 0")
  case (Ok np)
  obtain n p where np: "np = (n, p)" by (cases np)
  with Ok have "p \<le> length bs" using ix_u32.in_bounds [of 0 bs] by blast
  from decode_keys_safe [OF this index_inv_new, of "unat n"] Ok np show ?thesis
    by (cases "decode_keys (unat n) bs p index_new") (auto simp: decode_binary_def split: if_splits)
qed (use ix_u32.no_panic [of 0 bs] in \<open>auto simp: decode_binary_def\<close>)

theorem index_decode_total_witness:
  "\<exists>ix. decode_binary (encode_binary sample_index) = Ok ix \<and> index_inv ix"
  using decode_encode_binary [OF sample_index_ok] index_decode_total by blast

end
