(* ===== verification/File_System.thy ===== *)
theory File_System
  imports Pv_Prelude
begin

text \<open>
  The part of \<^verbatim>\<open>std::fs\<close> the storage layer calls, and the composition of operations that change
  state and may fail. A path is the list of its components. A file system maps paths to contents;
  \<open>fs_denied\<close> marks the paths the operating system refuses to write (a permission, a full disk), in
  which case nothing changes.
\<close>

section \<open>Operations on a state\<close>

text \<open>A method with \<^verbatim>\<open>&mut self\<close>: its outcome and the state it leaves, on every outcome.\<close>

type_synonym ('s, 'a) action = "'s \<Rightarrow> 'a result \<times> 's"

definition act_then :: "('s, 'a) action \<Rightarrow> ('a \<Rightarrow> ('s, 'b) action) \<Rightarrow> ('s, 'b) action" where
  "act_then m f s =
     (case m s of
        (Ok x, s') \<Rightarrow> f x s'
      | (Err e, s') \<Rightarrow> (Err e, s')
      | (Panic, s') \<Rightarrow> (Panic, s'))"

definition act_return :: "'a result \<Rightarrow> ('s, 'a) action" where
  "act_return r s = (r, s)"

lemma act_return_eq [simp]: "act_return r s = (r, s)"
  by (simp add: act_return_def)

lemma act_then_simps [simp]:
  "m s = (Ok x, s') \<Longrightarrow> act_then m f s = f x s'"
  "m s = (Err e, s') \<Longrightarrow> act_then m f s = (Err e, s')"
  "m s = (Panic, s') \<Longrightarrow> act_then m f s = (Panic, s')"
  by (simp_all add: act_then_def)

lemma act_then_eq_Ok:
  "act_then m f s = (Ok y, s'') \<longleftrightarrow> (\<exists>x s'. m s = (Ok x, s') \<and> f x s' = (Ok y, s''))"
  by (auto simp: act_then_def split: prod.splits result.splits)

lemma act_then_cases:
  assumes "act_then m f s = (r, s'')"
  obtains (Ok) x s' where "m s = (Ok x, s')" "f x s' = (r, s'')"
  | (Err) e where "m s = (Err e, s'')" "r = Err e"
  | (Panic) "m s = (Panic, s'')" "r = Panic"
  using assms by (auto simp: act_then_def split: prod.splits result.splits)

lemma act_then_cong [fundef_cong]:
  "m s = m' s' \<Longrightarrow> s = s' \<Longrightarrow> (\<And>x t. m' s' = (Ok x, t) \<Longrightarrow> f x t = g x t) \<Longrightarrow>
    act_then m f s = act_then m' g s'"
  by (auto simp: act_then_def split: prod.splits result.splits)

section \<open>Files\<close>

type_synonym path = "bytes list"

record file_system =
  fs_files :: "path \<Rightarrow> bytes option"
  fs_denied :: "path \<Rightarrow> bool"

definition fs_read :: "file_system \<Rightarrow> path \<Rightarrow> bytes result" where
  "fs_read fs p = ok_or (fs_files fs p) (Io ''NotFound'')"

definition fs_exists :: "file_system \<Rightarrow> path \<Rightarrow> bool" where
  "fs_exists fs p \<longleftrightarrow> fs_files fs p \<noteq> None"

definition fs_write :: "path \<Rightarrow> bytes \<Rightarrow> (file_system, unit) action" where
  "fs_write p data fs =
     (if fs_denied fs p then (Err (Io ''PermissionDenied''), fs)
      else (Ok (), fs\<lparr>fs_files := (fs_files fs)(p \<mapsto> data)\<rparr>))"

lemma fs_write_cases:
  assumes "fs_write p data fs = (r, fs')"
  obtains "r = Ok ()" "fs' = fs\<lparr>fs_files := (fs_files fs)(p \<mapsto> data)\<rparr>" "\<not> fs_denied fs p"
  | "r = Err (Io ''PermissionDenied'')" "fs' = fs" "fs_denied fs p"
  using assms by (auto simp: fs_write_def split: if_splits)

end
