(* ===== verification/Vle.thy ===== *)
theory Vle
  imports Core_Types Value File_System
begin

text \<open>
  The page stores of \<^verbatim>\<open>src/storage/vle.rs\<close>: page checksums, the development store over chunk files,
  the baked monolith, the in-memory store, the streamed store, the \<^verbatim>\<open>Backend\<close> router over them and the
  bake that produces a monolith image. BLAKE3 is the parameter \<open>blake3\<close>. The undo journal a
  development store may carry (\<^verbatim>\<open>src/journal.rs\<close>) is a type parameter \<open>'j\<close> with its operation
  \<^verbatim>\<open>before_write\<close> as an argument of the functions that call it.
\<close>

section \<open>Page checksums\<close>

type_synonym page = bytes

definition page_checksum :: "(bytes \<Rightarrow> bytes) \<Rightarrow> page \<Rightarrow> u32" where
  "page_checksum blake3 page =
     (let digest = blake3 (take PAGE_CHECKSUM_OFFSET page @ drop (PAGE_CHECKSUM_OFFSET + 4) page);
          v = from_le (take 4 digest)
      in if v = 0 then 1 else v)"

definition stamp_page_checksum :: "(bytes \<Rightarrow> bytes) \<Rightarrow> page \<Rightarrow> page" where
  "stamp_page_checksum blake3 page =
     overwrite page PAGE_CHECKSUM_OFFSET (to_le 4 (page_checksum blake3 page))"

definition stored_checksum :: "page \<Rightarrow> u32" where
  "stored_checksum page = from_le (take 4 (drop PAGE_CHECKSUM_OFFSET page))"

definition verify_page_checksum :: "(bytes \<Rightarrow> bytes) \<Rightarrow> page \<Rightarrow> unit result" where
  "verify_page_checksum blake3 page =
     (if stored_checksum page = 0 then Ok ()
      else if stored_checksum page \<noteq> page_checksum blake3 page
      then Err (Corruption ''page {id} checksum mismatch (stored {stored:#010x}, computed {computed:#010x})'')
      else Ok ())"

section \<open>Development store\<close>

definition PAGES_PER_CHUNK :: nat where
  "PAGES_PER_CHUNK = CHUNK_CAP_BYTES div PAGE_SIZE"

record 'j dev_store =
  ds_root :: path
  ds_page_count :: u64
  ds_write_handle :: "nat option"
  ds_dirty_chunks :: "nat set"
  ds_journal :: "'j option"

type_synonym 'j dev_state = "'j dev_store \<times> file_system"

text \<open>\<^verbatim>\<open>create\<close> and \<^verbatim>\<open>open\<close> (directories are not modelled).\<close>

definition dev_create :: "path \<Rightarrow> 'j dev_store" where
  "dev_create root = \<lparr>ds_root = root, ds_page_count = 0, ds_write_handle = None, ds_dirty_chunks = {}, ds_journal = None\<rparr>"

definition dev_open :: "path \<Rightarrow> u64 \<Rightarrow> 'j dev_store" where
  "dev_open root page_count =
     \<lparr>ds_root = root, ds_page_count = page_count, ds_write_handle = None, ds_dirty_chunks = {}, ds_journal = None\<rparr>"

definition chunk_path :: "path \<Rightarrow> nat \<Rightarrow> path" where
  "chunk_path root chunk_ix =
     root @ [ascii ''chunks'', ascii ''chunk_'' @ zero_pad 5 (show_nat chunk_ix) @ ascii ''.pvd'']"

text \<open>\<^verbatim>\<open>page_count += 1\<close> panics at \<^verbatim>\<open>u64::MAX\<close>.\<close>

definition dev_alloc_page :: "'j dev_store \<Rightarrow> (u64 \<times> 'j dev_store) result" where
  "dev_alloc_page d =
     (if ds_page_count d = - 1 then Panic
      else Ok (ds_page_count d, d\<lparr>ds_page_count := ds_page_count d + 1\<rparr>))"

definition dev_set_page_count :: "u64 \<Rightarrow> 'j dev_store \<Rightarrow> 'j dev_store" where
  "dev_set_page_count n d = d\<lparr>ds_page_count := n\<rparr>"

text \<open>
  Seek to \<open>off\<close> and write: a gap past the end is filled with zeros. A chunk file is created when it
  is first opened.
\<close>

definition write_at :: "bytes \<Rightarrow> nat \<Rightarrow> bytes \<Rightarrow> bytes" where
  "write_at content off data =
     (let padded = content @ replicate (off + length data - length content) 0 in overwrite padded off data)"

definition with_chunk_write :: "nat \<Rightarrow> nat \<Rightarrow> bytes \<Rightarrow> ('j dev_state, unit) action" where
  "with_chunk_write chunk_ix off data = (\<lambda>(d, fs).
     let path = chunk_path (ds_root d) chunk_ix;
         d' = d\<lparr>ds_dirty_chunks := insert chunk_ix (ds_dirty_chunks d)\<rparr>;
         content = (case fs_files fs path of Some c \<Rightarrow> c | None \<Rightarrow> [])
     in (case fs_write path (write_at content off data) fs of
           (Ok _, fs') \<Rightarrow> (Ok (), (d'\<lparr>ds_write_handle := Some chunk_ix\<rparr>, fs'))
         | (Err e, fs') \<Rightarrow> (Err e, (d', fs'))
         | (Panic, fs') \<Rightarrow> (Panic, (d', fs'))))"

text \<open>\<open>journaled\<close> runs the journal's \<^verbatim>\<open>before_write\<close> when a journal is attached.\<close>

definition journaled :: "(u64 \<Rightarrow> ('j \<times> file_system, unit) action) \<Rightarrow> u64 \<Rightarrow> ('j dev_state, unit) action" where
  "journaled before_write page_id = (\<lambda>(d, fs).
     case ds_journal d of
       None \<Rightarrow> (Ok (), (d, fs))
     | Some j \<Rightarrow> (case before_write page_id (j, fs) of (r, (j', fs')) \<Rightarrow> (r, (d\<lparr>ds_journal := Some j'\<rparr>, fs'))))"

definition dev_write_page ::
  "(u64 \<Rightarrow> ('j \<times> file_system, unit) action) \<Rightarrow> u64 \<Rightarrow> page \<Rightarrow> ('j dev_state, unit) action" where
  "dev_write_page before_write page_id page =
     act_then (journaled before_write page_id) (\<lambda>_.
       with_chunk_write (unat page_id div PAGES_PER_CHUNK) (unat page_id mod PAGES_PER_CHUNK * PAGE_SIZE) page)"

text \<open>
  Writing pages one by one, and the bulk write: one write per chunk file. \<^verbatim>\<open>start_id + offset\<close>,
  \<^verbatim>\<open>start_id + pages.len()\<close> and \<^verbatim>\<open>(chunk_ix + 1) * PAGES_PER_CHUNK\<close> panic when they leave 64 bits.
\<close>

fun dev_write_each ::
  "(u64 \<Rightarrow> ('j \<times> file_system, unit) action) \<Rightarrow> nat \<Rightarrow> page list \<Rightarrow> ('j dev_state, unit) action" where
  "dev_write_each before_write start [] st = (Ok (), st)"
| "dev_write_each before_write start (p # ps) st =
     (if start > usize_max then (Panic, st)
      else act_then (dev_write_page before_write (of_nat start) p) (\<lambda>_. dev_write_each before_write (start + 1) ps) st)"

definition chunk_end :: "nat \<Rightarrow> nat" where
  "chunk_end start = (start div PAGES_PER_CHUNK + 1) * PAGES_PER_CHUNK"

lemma chunk_end_gt: "start < chunk_end start"
proof -
  have "start mod PAGES_PER_CHUNK < PAGES_PER_CHUNK" by (simp add: PAGES_PER_CHUNK_def size_defs)
  then have "start div PAGES_PER_CHUNK * PAGES_PER_CHUNK + start mod PAGES_PER_CHUNK <
    start div PAGES_PER_CHUNK * PAGES_PER_CHUNK + PAGES_PER_CHUNK" by (rule add_strict_left_mono)
  then show ?thesis by (simp add: chunk_end_def del: mult_Suc mult_Suc_right) (simp add: algebra_simps)
qed

lemma chunk_progress: "start < finish \<Longrightarrow> finish - min (chunk_end start) finish < finish - start"
  using chunk_end_gt [of start] by (auto simp: min_def)

function dev_write_bulk :: "nat \<Rightarrow> nat \<Rightarrow> page list \<Rightarrow> ('j dev_state, unit) action" where
  "dev_write_bulk start finish pages st =
     (if start < finish then
        if chunk_end start > usize_max then (Panic, st)
        else let chunk_ix = start div PAGES_PER_CHUNK;
            chunk_start = chunk_ix * PAGES_PER_CHUNK;
            chunk_page_end = min (chunk_end start) finish;
            count = chunk_page_end - start
        in act_then (with_chunk_write chunk_ix ((start - chunk_start) * PAGE_SIZE) (concat (take count pages)))
             (\<lambda>_. dev_write_bulk chunk_page_end finish (drop count pages)) st
      else (Ok (), st))"
  by pat_completeness auto
termination
  by (relation "measure (\<lambda>(start, finish, pages, st). finish - start)") (auto simp: chunk_progress)

declare dev_write_bulk.simps [simp del]

definition dev_write_pages_from ::
  "(u64 \<Rightarrow> ('j \<times> file_system, unit) action) \<Rightarrow> u64 \<Rightarrow> page list \<Rightarrow> ('j dev_state, unit) action" where
  "dev_write_pages_from before_write start_id pages = (\<lambda>(d, fs).
     if ds_journal d \<noteq> None then dev_write_each before_write (unat start_id) pages (d, fs)
     else if unat start_id + length pages > usize_max then (Panic, (d, fs))
     else dev_write_bulk (unat start_id) (unat start_id + length pages) pages (d, fs))"

text \<open>
  \<^verbatim>\<open>sync_data\<close>: the chunk whose handle is cached is synced through it, every other dirty chunk is
  reopened first, which fails when its file is gone. The dirty set is cleared only when all succeed.
  (What \<^verbatim>\<open>fsync\<close> does to the medium is not part of the model.)
\<close>

definition sync_chunk :: "'j dev_state \<Rightarrow> nat \<Rightarrow> unit result" where
  "sync_chunk = (\<lambda>(d, fs) chunk_ix.
     let path = chunk_path (ds_root d) chunk_ix
     in if ds_write_handle d = Some chunk_ix then Ok ()
        else if fs_denied fs path then Err (Io ''PermissionDenied'')
        else and_then (fs_read fs path) (\<lambda>_. Ok ()))"

definition dev_sync_data :: "('j dev_state, unit) action" where
  "dev_sync_data = (\<lambda>(d, fs).
     case collect_results (sync_chunk (d, fs)) (sorted_list_of_set (ds_dirty_chunks d)) of
       Ok _ \<Rightarrow> (Ok (), (d\<lparr>ds_dirty_chunks := {}\<rparr>, fs))
     | Err e \<Rightarrow> (Err e, (d, fs))
     | Panic \<Rightarrow> (Panic, (d, fs)))"

text \<open>Seek and \<^verbatim>\<open>read_exact\<close>.\<close>

definition read_exact_at :: "bytes \<Rightarrow> nat \<Rightarrow> nat \<Rightarrow> bytes result" where
  "read_exact_at content off n = ok_or (slice_get content off (off + n)) (Io ''UnexpectedEof'')"

definition dev_read_page :: "'j dev_state \<Rightarrow> u64 \<Rightarrow> page result" where
  "dev_read_page = (\<lambda>(d, fs) page_id.
     if page_id \<ge> ds_page_count d then Err (PageFault page_id)
     else
       and_then (fs_read fs (chunk_path (ds_root d) (unat page_id div PAGES_PER_CHUNK))) (\<lambda>content.
         read_exact_at content (unat page_id mod PAGES_PER_CHUNK * PAGE_SIZE) PAGE_SIZE))"

text \<open>The pages of one chunk are read in sequence from the position of the first.\<close>

function dev_read_all_loop :: "'j dev_state \<Rightarrow> nat \<Rightarrow> nat \<Rightarrow> page list result" where
  "dev_read_all_loop st start finish =
     (if start < finish then
        if chunk_end start > usize_max then Panic
        else let chunk_ix = start div PAGES_PER_CHUNK;
            chunk_start = chunk_ix * PAGES_PER_CHUNK;
            upto_id = min (chunk_end start) finish
        in and_then (fs_read (snd st) (chunk_path (ds_root (fst st)) chunk_ix)) (\<lambda>content.
           and_then (collect_results (\<lambda>i. read_exact_at content ((i - chunk_start) * PAGE_SIZE) PAGE_SIZE)
               [start..<upto_id]) (\<lambda>out.
           and_then (dev_read_all_loop st upto_id finish) (\<lambda>rest. Ok (out @ rest))))
      else Ok [])"
  by pat_completeness auto
termination
  by (relation "measure (\<lambda>(st, start, finish). finish - start)") (auto simp: chunk_progress)

declare dev_read_all_loop.simps [simp del]

definition dev_read_all_pages :: "'j dev_state \<Rightarrow> page list result" where
  "dev_read_all_pages st = dev_read_all_loop st 0 (unat (ds_page_count (fst st)))"

section \<open>Production store: a baked monolith\<close>

text \<open>
  \<^verbatim>\<open>Monolith::open\<close> copies the file into a private snapshot and validates the header; \<open>open_image\<close> is
  the part after the copy, on the snapshot's bytes. \<^verbatim>\<open>usize::try_from\<close> of a \<^verbatim>\<open>u64\<close> always succeeds
  with a 64-bit \<^verbatim>\<open>usize\<close>.
\<close>

record monolith =
  mo_mmap :: bytes
  mo_header :: file_header
  mo_cas_offset :: nat
  mo_manifest_offset :: nat

definition open_image :: "bytes \<Rightarrow> monolith result" where
  "open_image mmap =
     (if length mmap < FILE_HEADER_SIZE then Err (Corruption ''monolith smaller than file header'')
      else
       and_then (slice_at mmap 0 FILE_HEADER_SIZE) (\<lambda>hd.
       and_then (file_header_decode hd) (\<lambda>header.
         let cas_offset = unat (fh_cas_offset header);
             manifest_offset = unat (fh_manifest_offset header)
         in if cas_offset < FILE_HEADER_SIZE \<or> manifest_offset < cas_offset \<or>
               manifest_offset > length mmap \<or> (cas_offset - FILE_HEADER_SIZE) mod PAGE_SIZE \<noteq> 0
            then Err (Corruption ''monolith offsets are inconsistent'')
            else Ok \<lparr>mo_mmap = mmap, mo_header = header, mo_cas_offset = cas_offset,
                     mo_manifest_offset = manifest_offset\<rparr>)))"

definition monolith_open :: "file_system \<Rightarrow> path \<Rightarrow> monolith result" where
  "monolith_open fs path = and_then (fs_read fs path) open_image"

definition mono_page_count :: "monolith \<Rightarrow> u64" where
  "mono_page_count m = of_nat ((mo_cas_offset m - FILE_HEADER_SIZE) div PAGE_SIZE)"

definition mono_read_page :: "monolith \<Rightarrow> u64 \<Rightarrow> page result" where
  "mono_read_page m page_id =
     (if page_id \<ge> mono_page_count m then Err (PageFault page_id)
      else let start = FILE_HEADER_SIZE + unat page_id * PAGE_SIZE
           in slice_at (mo_mmap m) start (start + PAGE_SIZE))"

definition manifest_bytes :: "monolith \<Rightarrow> bytes result" where
  "manifest_bytes m = slice_at (mo_mmap m) (mo_manifest_offset m) (length (mo_mmap m))"

definition mono_format_version :: "monolith \<Rightarrow> u16" where
  "mono_format_version m = fh_format_version (mo_header m)"

section \<open>In-memory store\<close>

type_synonym mem_store = "page list"

definition mem_page_count :: "mem_store \<Rightarrow> u64" where
  "mem_page_count m = of_nat (length m)"

definition mem_alloc_page :: "(mem_store, u64) action" where
  "mem_alloc_page m = (Ok (of_nat (length m)), m @ [replicate PAGE_SIZE 0])"

definition mem_write_page :: "u64 \<Rightarrow> page \<Rightarrow> (mem_store, unit) action" where
  "mem_write_page page_id page m =
     (if unat page_id < length m then (Ok (), m[unat page_id := page]) else (Err (PageFault page_id), m))"

fun mem_write_pages_from :: "nat \<Rightarrow> page list \<Rightarrow> (mem_store, unit) action" where
  "mem_write_pages_from start [] m = (Ok (), m)"
| "mem_write_pages_from start (p # ps) m =
     (if start > usize_max then (Panic, m)
      else act_then (mem_write_page (of_nat start) p) (\<lambda>_. mem_write_pages_from (start + 1) ps) m)"

definition mem_read_page :: "mem_store \<Rightarrow> u64 \<Rightarrow> page result" where
  "mem_read_page m page_id = ok_or (elem_get m (unat page_id)) (PageFault page_id)"

definition mem_read_all_pages :: "mem_store \<Rightarrow> page list result" where
  "mem_read_all_pages m = Ok m"

section \<open>Streamed store\<close>

text \<open>The \<^verbatim>\<open>RangeReader\<close> of the embedding application is a function from offset and length.\<close>

record remote_store =
  rs_reader :: "nat \<Rightarrow> nat \<Rightarrow> bytes result"
  rs_page_count :: u64

definition remote_new :: "(nat \<Rightarrow> nat \<Rightarrow> bytes result) \<Rightarrow> u64 \<Rightarrow> remote_store" where
  "remote_new reader page_count = \<lparr>rs_reader = reader, rs_page_count = page_count\<rparr>"

definition remote_read_page :: "remote_store \<Rightarrow> u64 \<Rightarrow> page result" where
  "remote_read_page r page_id =
     (if page_id \<ge> rs_page_count r then Err (PageFault page_id)
      else if FILE_HEADER_SIZE + unat page_id * PAGE_SIZE > usize_max then Panic
      else and_then (rs_reader r (FILE_HEADER_SIZE + unat page_id * PAGE_SIZE) PAGE_SIZE) (\<lambda>bytes.
        if length bytes = PAGE_SIZE then Ok bytes
        else Err (Corruption ''streamed page has the wrong length'')))"

definition remote_read_all_pages :: "remote_store \<Rightarrow> page list result" where
  "remote_read_all_pages r =
     collect_results (\<lambda>i. remote_read_page r (of_nat i)) [0..<unat (rs_page_count r)]"

section \<open>Backend router\<close>

text \<open>A backend with the file system its development store lives in.\<close>

datatype 'j backend = Dev "'j dev_store" | Mem mem_store | Prod monolith | Remote remote_store

type_synonym 'j backend_state = "'j backend \<times> file_system"

fun backend_page_count :: "'j backend \<Rightarrow> u64" where
  "backend_page_count (Dev d) = ds_page_count d"
| "backend_page_count (Mem m) = mem_page_count m"
| "backend_page_count (Prod m) = mono_page_count m"
| "backend_page_count (Remote r) = rs_page_count r"

fun backend_read_page :: "'j backend_state \<Rightarrow> u64 \<Rightarrow> page result" where
  "backend_read_page (Dev d, fs) page_id = dev_read_page (d, fs) page_id"
| "backend_read_page (Mem m, fs) page_id = mem_read_page m page_id"
| "backend_read_page (Prod m, fs) page_id = mono_read_page m page_id"
| "backend_read_page (Remote r, fs) page_id = remote_read_page r page_id"

fun is_writable :: "'j backend \<Rightarrow> bool" where
  "is_writable (Dev d) = True"
| "is_writable (Mem m) = True"
| "is_writable (Prod m) = False"
| "is_writable (Remote r) = False"

fun on_dev :: "'a result \<times> 'j dev_state \<Rightarrow> 'a result \<times> 'j backend_state" where
  "on_dev (r, (d, fs)) = (r, (Dev d, fs))"

fun on_mem :: "file_system \<Rightarrow> 'a result \<times> mem_store \<Rightarrow> 'a result \<times> 'j backend_state" where
  "on_mem fs (r, m) = (r, (Mem m, fs))"

fun backend_alloc_page :: "('j backend_state, u64) action" where
  "backend_alloc_page (Dev d, fs) =
     (case dev_alloc_page d of
        Ok (i, d') \<Rightarrow> (Ok i, (Dev d', fs))
      | Err e \<Rightarrow> (Err e, (Dev d, fs))
      | Panic \<Rightarrow> (Panic, (Dev d, fs)))"
| "backend_alloc_page (Mem m, fs) = on_mem fs (mem_alloc_page m)"
| "backend_alloc_page (b, fs) = (Err ReadOnly, (b, fs))"

fun backend_write_page ::
  "(u64 \<Rightarrow> ('j \<times> file_system, unit) action) \<Rightarrow> u64 \<Rightarrow> page \<Rightarrow> ('j backend_state, unit) action" where
  "backend_write_page before_write page_id page (Dev d, fs) = on_dev (dev_write_page before_write page_id page (d, fs))"
| "backend_write_page before_write page_id page (Mem m, fs) = on_mem fs (mem_write_page page_id page m)"
| "backend_write_page before_write page_id page (b, fs) = (Err ReadOnly, (b, fs))"

fun backend_write_pages_from ::
  "(u64 \<Rightarrow> ('j \<times> file_system, unit) action) \<Rightarrow> u64 \<Rightarrow> page list \<Rightarrow> ('j backend_state, unit) action" where
  "backend_write_pages_from before_write start_id pages (Dev d, fs) =
     on_dev (dev_write_pages_from before_write start_id pages (d, fs))"
| "backend_write_pages_from before_write start_id pages (Mem m, fs) =
     on_mem fs (mem_write_pages_from (unat start_id) pages m)"
| "backend_write_pages_from before_write start_id pages (b, fs) = (Err ReadOnly, (b, fs))"

fun backend_sync_data :: "('j backend_state, unit) action" where
  "backend_sync_data (Dev d, fs) = on_dev (dev_sync_data (d, fs))"
| "backend_sync_data (b, fs) = (Ok (), (b, fs))"

fun backend_read_all_pages :: "'j backend_state \<Rightarrow> page list result" where
  "backend_read_all_pages (Dev d, fs) = dev_read_all_pages (d, fs)"
| "backend_read_all_pages (Mem m, fs) = mem_read_all_pages m"
| "backend_read_all_pages (Prod m, fs) =
     collect_results (\<lambda>i. mono_read_page m (of_nat i)) [0..<unat (mono_page_count m)]"
| "backend_read_all_pages (Remote r, fs) = remote_read_all_pages r"

section \<open>Baking\<close>

definition bake_monolith_bytes_with_index ::
  "page list \<Rightarrow> bytes \<Rightarrow> bytes \<Rightarrow> bytes \<Rightarrow> u16 \<Rightarrow> bytes result" where
  "bake_monolith_bytes_with_index pages cas_pool index_region manifest_json format_version =
     (let overflow = Corruption ''monolith size overflows address space''
      in and_then (ok_or (Option.bind (checked_mul (length pages) PAGE_SIZE) (\<lambda>n. checked_add n FILE_HEADER_SIZE)) overflow)
           (\<lambda>cas_offset.
         and_then (ok_or (checked_add cas_offset (length cas_pool)) overflow) (\<lambda>index_offset.
         and_then (ok_or (checked_add index_offset (length index_region)) overflow) (\<lambda>manifest_offset.
         and_then (ok_or (checked_add manifest_offset (length manifest_json)) overflow) (\<lambda>total.
           let header = file_header_new_versioned (of_nat manifest_offset) (of_nat cas_offset) format_version
           in Ok (file_header_encode header @ concat pages @ cas_pool @ index_region @ manifest_json))))))"

definition bake_monolith_bytes :: "page list \<Rightarrow> bytes \<Rightarrow> bytes \<Rightarrow> bytes result" where
  "bake_monolith_bytes pages cas_pool manifest_json =
     bake_monolith_bytes_with_index pages cas_pool [] manifest_json FORMAT_VERSION_BASE"

definition bake_monolith :: "path \<Rightarrow> page list \<Rightarrow> bytes \<Rightarrow> bytes \<Rightarrow> (file_system, unit) action" where
  "bake_monolith out_path pages cas_pool manifest_json fs =
     (case bake_monolith_bytes pages cas_pool manifest_json of
        Ok bytes \<Rightarrow> fs_write out_path bytes fs
      | Err e \<Rightarrow> (Err e, fs)
      | Panic \<Rightarrow> (Panic, fs))"

section \<open>Checksums: lemmas\<close>

lemma stored_stamp:
  assumes "length page = PAGE_SIZE"
  shows "stored_checksum (stamp_page_checksum blake3 page) = page_checksum blake3 page"
  using assms by (simp add: stored_checksum_def stamp_page_checksum_def overwrite_def size_defs)

lemma length_stamp [simp]:
  "length page = PAGE_SIZE \<Longrightarrow> length (stamp_page_checksum blake3 page) = PAGE_SIZE"
  by (simp add: stamp_page_checksum_def size_defs)

lemma stamp_outside:
  assumes "length page = PAGE_SIZE"
  shows "take PAGE_CHECKSUM_OFFSET (stamp_page_checksum blake3 page) = take PAGE_CHECKSUM_OFFSET page"
    "drop (PAGE_CHECKSUM_OFFSET + 4) (stamp_page_checksum blake3 page) = drop (PAGE_CHECKSUM_OFFSET + 4) page"
  using assms by (simp_all add: stamp_page_checksum_def overwrite_def size_defs)

lemma page_checksum_stamp [simp]:
  "length page = PAGE_SIZE \<Longrightarrow> page_checksum blake3 (stamp_page_checksum blake3 page) = page_checksum blake3 page"
  by (simp add: page_checksum_def stamp_outside)

lemma page_checksum_nonzero: "page_checksum blake3 page \<noteq> 0"
  by (simp add: page_checksum_def Let_def)

lemma verify_stamp [simp]:
  "length page = PAGE_SIZE \<Longrightarrow> verify_page_checksum blake3 (stamp_page_checksum blake3 page) = Ok ()"
  by (simp add: verify_page_checksum_def stored_stamp)

text \<open>Equality of pages outside the checksum field.\<close>

definition same_page :: "page \<Rightarrow> page \<Rightarrow> bool" where
  "same_page p q \<longleftrightarrow> length p = length q \<and> take PAGE_CHECKSUM_OFFSET p = take PAGE_CHECKSUM_OFFSET q \<and>
     drop (PAGE_CHECKSUM_OFFSET + 4) p = drop (PAGE_CHECKSUM_OFFSET + 4) q"

lemma same_page_refl [simp]: "same_page p p"
  by (simp add: same_page_def)

lemma same_page_sym: "same_page p q \<Longrightarrow> same_page q p"
  by (simp add: same_page_def)

lemma same_page_trans: "same_page p q \<Longrightarrow> same_page q r \<Longrightarrow> same_page p r"
  by (simp add: same_page_def)

lemma same_page_stamp [simp]: "length p = PAGE_SIZE \<Longrightarrow> same_page (stamp_page_checksum blake3 p) p"
  by (simp add: same_page_def stamp_outside)

lemma same_page_checksum: "same_page p q \<Longrightarrow> page_checksum blake3 p = page_checksum blake3 q"
  by (simp add: same_page_def page_checksum_def)

text \<open>
  C29: Stamping a page stores a non-zero checksum, changes no byte outside the four-byte field at
  offset 24 and makes the page verify. A later change of the page that leaves the stored checksum
  in place is accepted only when the changed page has the same truncated BLAKE3 checksum; anything
  else is reported as corruption.
\<close>

theorem page_checksum_guards:
  assumes "length page = PAGE_SIZE"
  shows "let stamped = stamp_page_checksum blake3 page in
    verify_page_checksum blake3 stamped = Ok () \<and>
    stored_checksum stamped \<noteq> 0 \<and>
    length stamped = PAGE_SIZE \<and>
    (\<forall>i < PAGE_SIZE. i < PAGE_CHECKSUM_OFFSET \<or> PAGE_CHECKSUM_OFFSET + 4 \<le> i \<longrightarrow> stamped ! i = page ! i) \<and>
    (\<forall>other. stored_checksum other = stored_checksum stamped \<longrightarrow>
       verify_page_checksum blake3 other =
         (if page_checksum blake3 other = page_checksum blake3 page then Ok ()
          else Err (Corruption ''page {id} checksum mismatch (stored {stored:#010x}, computed {computed:#010x})'')))"
proof -
  have "stamp_page_checksum blake3 page ! i = page ! i"
    if "i < PAGE_SIZE" "i < PAGE_CHECKSUM_OFFSET \<or> PAGE_CHECKSUM_OFFSET + 4 \<le> i" for i
    using that assms by (auto simp: stamp_page_checksum_def nth_overwrite size_defs)
  moreover have "verify_page_checksum blake3 other =
         (if page_checksum blake3 other = page_checksum blake3 page then Ok ()
          else Err (Corruption ''page {id} checksum mismatch (stored {stored:#010x}, computed {computed:#010x})''))"
    if "stored_checksum other = page_checksum blake3 page" for other
    using that page_checksum_nonzero [of blake3 page] by (simp add: verify_page_checksum_def)
  ultimately show ?thesis
    using assms page_checksum_nonzero [of blake3 page] by (simp add: stored_stamp Let_def)
qed

theorem page_checksum_guards_witness:
  "verify_page_checksum (\<lambda>b. take 4 b) (stamp_page_checksum (\<lambda>b. take 4 b) (replicate PAGE_SIZE 7)) = Ok ()"
  using page_checksum_guards [of "replicate PAGE_SIZE 7" "\<lambda>b. take 4 b"] by (simp add: Let_def)

section \<open>Chunk files: lemmas\<close>

fun digits_value :: "bytes \<Rightarrow> nat" where
  "digits_value ds = foldl (\<lambda>a d. 10 * a + (unat d - 48)) 0 ds"

lemma digits_value_show_nat: "digits_value (show_nat n) = n"
proof (induction n rule: less_induct)
  case (less n)
  have digit: "unat (of_nat (48 + k) :: u8) = 48 + k" if "k < 10" for k
    using that by (simp add: unat_of_nat del: of_nat_add)
  show ?case
  proof (cases "n < 10")
    case True
    with digit [of n] show ?thesis by (simp add: show_nat.simps [of n] del: of_nat_add)
  next
    case False
    with less [of "n div 10"] digit [of "n mod 10"] show ?thesis
      by (simp add: show_nat.simps [of n] del: of_nat_add)
  qed
qed

lemma digits_value_zero_pad: "digits_value (zero_pad w s) = digits_value s"
proof -
  have "foldl (\<lambda>a d. 10 * a + (unat (d :: u8) - 48)) 0 (replicate k 48) = 0" for k
    by (induction k) simp_all
  then show ?thesis by (simp add: zero_pad_def)
qed

lemma chunk_path_inject [simp]: "chunk_path root i = chunk_path root j \<longleftrightarrow> i = j"
proof
  assume "chunk_path root i = chunk_path root j"
  then have "zero_pad 5 (show_nat i) = zero_pad 5 (show_nat j)" by (simp add: chunk_path_def)
  then have "digits_value (zero_pad 5 (show_nat i)) = digits_value (zero_pad 5 (show_nat j))" by simp
  then show "i = j" by (simp only: digits_value_zero_pad digits_value_show_nat)
qed simp

lemma length_write_at: "length (write_at content off data) = max (length content) (off + length data)"
  by (simp add: write_at_def max_def)

lemma read_write_at: "read_exact_at (write_at content off data) off (length data) = Ok data"
  by (simp add: read_exact_at_def write_at_def slice_overwrite_same)

lemma read_write_at_other:
  assumes "off + length data \<le> a \<or> a + n \<le> off" "read_exact_at content a n = Ok x"
  shows "read_exact_at (write_at content off data) a n = Ok x"
proof -
  let ?z = "replicate (off + length data - length content) (0 :: u8)"
  from assms(2) have x: "slice_get content a (a + n) = Some x" by (simp add: read_exact_at_def)
  then have "slice_get (content @ ?z) a (a + n) = Some x"
    by (auto simp: slice_get_def split: if_splits)
  moreover have "slice_get (overwrite (content @ ?z) off data) a (a + n) = slice_get (content @ ?z) a (a + n)"
    by (rule slice_overwrite_other) (use assms(1) in auto)
  ultimately show ?thesis by (simp add: read_exact_at_def write_at_def)
qed

lemma write_at_append:
  "write_at (write_at content off a) (off + length a) b = write_at content off (a @ b)"
  by (rule nth_equalityI)
    (auto simp: length_write_at, auto simp: write_at_def nth_overwrite nth_append)

lemma fs_write_simps [simp]:
  "fs_denied fs p \<Longrightarrow> fs_write p data fs = (Err (Io ''PermissionDenied''), fs)"
  "\<not> fs_denied fs p \<Longrightarrow> fs_write p data fs = (Ok (), fs\<lparr>fs_files := (fs_files fs)(p \<mapsto> data)\<rparr>)"
  by (simp_all add: fs_write_def)

lemma with_chunk_write_append:
  "act_then (with_chunk_write c off a) (\<lambda>_. with_chunk_write c (off + length a) b) st = with_chunk_write c off (a @ b) st"
proof (cases st)
  case (Pair d fs)
  then show ?thesis
    by (cases "fs_denied fs (chunk_path (ds_root d) c)")
      (simp_all add: act_then_def with_chunk_write_def Let_def write_at_append)
qed

lemma dev_write_each_append:
  assumes "start + length xs + length ys \<le> usize_max"
  shows "dev_write_each bw start (xs @ ys) st =
    act_then (dev_write_each bw start xs) (\<lambda>_. dev_write_each bw (start + length xs) ys) st"
  using assms
proof (induction xs arbitrary: start st)
  case Nil
  then show ?case by (simp add: act_then_def)
next
  case (Cons x xs)
  then have "start \<le> usize_max" by simp
  with Cons show ?case
    by (simp add: act_then_def split: prod.splits result.splits)
qed

lemma unat_of_nat_u64: "n \<le> usize_max \<Longrightarrow> unat (of_nat n :: u64) = n"
  by (simp add: unat_of_nat usize_max_def)

lemma with_chunk_write_journal:
  "with_chunk_write c off data st = (r, st') \<Longrightarrow> ds_journal (fst st') = ds_journal (fst st)"
  by (cases st, cases "fs_denied (snd st) (chunk_path (ds_root (fst st)) c)")
    (auto simp: with_chunk_write_def Let_def)

text \<open>Pages of one chunk, written one by one, are the one write of their concatenation.\<close>

lemma dev_write_each_chunk:
  assumes "ps \<noteq> []" "\<forall>p \<in> set ps. length p = PAGE_SIZE" "start mod PAGES_PER_CHUNK + length ps \<le> PAGES_PER_CHUNK"
    "start + length ps \<le> usize_max" "ds_journal (fst st) = None"
  shows "dev_write_each bw start ps st =
    with_chunk_write (start div PAGES_PER_CHUNK) (start mod PAGES_PER_CHUNK * PAGE_SIZE) (concat ps) st"
  using assms
proof (induction ps arbitrary: start st)
  case (Cons p ps)
  let ?c = "start div PAGES_PER_CHUNK" and ?o = "start mod PAGES_PER_CHUNK * PAGE_SIZE"
  have step: "dev_write_page bw (of_nat start) p st = with_chunk_write ?c ?o p st"
    using Cons.prems by (cases st) (simp add: dev_write_page_def journaled_def act_then_def unat_of_nat_u64)
  have each: "dev_write_each bw start (p # ps) st =
      act_then (with_chunk_write ?c ?o p) (\<lambda>_. dev_write_each bw (start + 1) ps) st"
    using Cons.prems step by (simp add: act_then_def)
  show ?case
  proof (cases "ps = []")
    case True
    with each show ?thesis by (simp add: act_then_def split: prod.splits result.splits)
  next
    case False
    with Cons.prems(3) have small: "start mod PAGES_PER_CHUNK + 1 < PAGES_PER_CHUNK"
      by (cases ps) auto
    then have m: "(start + 1) mod PAGES_PER_CHUNK = start mod PAGES_PER_CHUNK + 1"
      by (metis Suc_eq_plus1 mod_Suc nat_less_le)
    then have d: "(start + 1) div PAGES_PER_CHUNK = ?c"
      by (metis Suc_eq_plus1 div_Suc nat.distinct(1))
    have "dev_write_each bw (start + 1) ps st' = with_chunk_write ?c (?o + length p) (concat ps) st'"
      if "with_chunk_write ?c ?o p st = (Ok (), st')" for st'
      using Cons.IH [of "start + 1" st'] Cons.prems False m d with_chunk_write_journal [OF that]
      by (simp add: algebra_simps)
    then have "act_then (with_chunk_write ?c ?o p) (\<lambda>_. dev_write_each bw (start + 1) ps) st =
        act_then (with_chunk_write ?c ?o p) (\<lambda>_. with_chunk_write ?c (?o + length p) (concat ps)) st"
      by (auto simp: act_then_def split: prod.splits result.splits)
    with each show ?thesis by (simp add: with_chunk_write_append)
  qed
qed simp

lemma dev_write_each_journal:
  assumes "dev_write_each bw start ps st = (r, st')" "ds_journal (fst st) = None"
  shows "ds_journal (fst st') = None"
  using assms
proof (induction ps arbitrary: start st)
  case (Cons p ps)
  have wr: "ds_journal (fst t) = None" if "dev_write_page bw i q st = (x, t)" for i q x t
    using that Cons.prems(2)
    by (cases st) (auto simp: dev_write_page_def journaled_def act_then_def dest: with_chunk_write_journal)
  show ?case
    using Cons.prems Cons.IH wr by (cases st') (auto split: if_splits elim!: act_then_cases)
qed simp

lemma chunk_count:
  "start < finish \<Longrightarrow> start mod PAGES_PER_CHUNK + (min (chunk_end start) finish - start) \<le> PAGES_PER_CHUNK"
proof -
  assume "start < finish"
  have "start div PAGES_PER_CHUNK * PAGES_PER_CHUNK + start mod PAGES_PER_CHUNK = start" by simp
  then have "start mod PAGES_PER_CHUNK + (chunk_end start - start) = PAGES_PER_CHUNK"
    using chunk_end_gt [of start] unfolding chunk_end_def distrib_right by linarith
  then show ?thesis by simp
qed

lemma dev_write_bulk_each:
  assumes "length ps = finish - start" "start \<le> finish" "\<forall>p \<in> set ps. length p = PAGE_SIZE"
    "finish + PAGES_PER_CHUNK \<le> usize_max" "ds_journal (fst st) = None"
  shows "dev_write_bulk start finish ps st = dev_write_each bw start ps st"
  using assms
proof (induction start finish ps st rule: dev_write_bulk.induct)
  case (1 start finish ps st)
  show ?case
  proof (cases "start < finish")
    case False
    with "1.prems" show ?thesis by (simp add: dev_write_bulk.simps [of finish])
  next
    case True
    let ?e = "min (chunk_end start) finish"
    let ?n = "?e - start"
    have n: "0 < ?n" "?n \<le> length ps" "start + ?n = ?e"
      using True chunk_end_gt [of start] "1.prems"(1) by auto
    have room: "\<not> usize_max < chunk_end start"
      using "1.prems"(4) True div_times_less_eq_dividend [of start PAGES_PER_CHUNK]
      unfolding chunk_end_def distrib_right by linarith
    have off: "start - start div PAGES_PER_CHUNK * PAGES_PER_CHUNK = start mod PAGES_PER_CHUNK"
      by (simp add: minus_div_mult_eq_mod)
    have first: "dev_write_each bw start (take ?n ps) st =
        with_chunk_write (start div PAGES_PER_CHUNK) (start mod PAGES_PER_CHUNK * PAGE_SIZE) (concat (take ?n ps)) st"
      by (rule dev_write_each_chunk)
        (use "1.prems" True n chunk_count [of start finish] in \<open>auto dest: in_set_takeD\<close>)
    have rest: "dev_write_bulk ?e finish (drop ?n ps) st' = dev_write_each bw ?e (drop ?n ps) st'"
      if "dev_write_each bw start (take ?n ps) st = (Ok (), st')" for st'
      by (rule "1.IH" [OF True room refl refl refl refl, unfolded off, of "()"])
        (use that "1.prems" n dev_write_each_journal [OF that] in \<open>auto simp: first dest: in_set_dropD\<close>)
    have "dev_write_each bw start ps st =
        act_then (dev_write_each bw start (take ?n ps)) (\<lambda>_. dev_write_each bw ?e (drop ?n ps)) st"
      using dev_write_each_append [of start "take ?n ps" "drop ?n ps" bw st] "1.prems" n by simp
    also have "\<dots> = act_then (dev_write_each bw start (take ?n ps)) (\<lambda>_. dev_write_bulk ?e finish (drop ?n ps)) st"
      using rest by (auto simp: act_then_def split: prod.splits result.splits)
    also have "\<dots> = dev_write_bulk start finish ps st"
      using True room by (simp add: dev_write_bulk.simps [of start] Let_def off act_then_def first)
    finally show ?thesis ..
  qed
qed

text \<open>
  The bulk write of a run of pages, one write per chunk file, has the same outcome and leaves the
  same store and the same files as writing the pages one by one, whichever write fails, as long as
  the page ids stay below the last chunk of the 64-bit range.
\<close>

theorem dev_bulk_write_equivalent:
  assumes "\<forall>p \<in> set pages. length p = PAGE_SIZE" "unat start_id + length pages + PAGES_PER_CHUNK \<le> usize_max"
  shows "dev_write_pages_from before_write start_id pages st = dev_write_each before_write (unat start_id) pages st"
  using assms dev_write_bulk_each [of pages "unat start_id + length pages" "unat start_id" st before_write]
  by (cases st) (auto simp: dev_write_pages_from_def)

theorem dev_bulk_write_equivalent_witness:
  "dev_write_pages_from (\<lambda>_. act_return (Ok ())) 16383 [replicate PAGE_SIZE 1, replicate PAGE_SIZE 2]
     (dev_create [] :: unit dev_store, \<lparr>fs_files = \<lambda>_. None, fs_denied = \<lambda>_. False\<rparr>) =
   dev_write_each (\<lambda>_. act_return (Ok ())) 16383 [replicate PAGE_SIZE 1, replicate PAGE_SIZE 2]
     (dev_create [] :: unit dev_store, \<lparr>fs_files = \<lambda>_. None, fs_denied = \<lambda>_. False\<rparr>)"
  using dev_bulk_write_equivalent [of "[replicate PAGE_SIZE 1, replicate PAGE_SIZE 2]" 16383]
  by (simp add: PAGES_PER_CHUNK_def size_defs usize_max_def)

section \<open>Pages of a store\<close>

text \<open>
  The interface the buffer pool relies on: after a successful write the page reads back, every other
  page that could be read reads as before, and a failed write changes no page.
\<close>

fun write_list :: "(u64 \<Rightarrow> page \<Rightarrow> ('s, unit) action) \<Rightarrow> (u64 \<times> page) list \<Rightarrow> ('s, unit) action" where
  "write_list w [] s = (Ok (), s)"
| "write_list w ((i, p) # xs) s = act_then (w i p) (\<lambda>_. write_list w xs) s"

locale page_store =
  fixes inv :: "'s \<Rightarrow> bool"
    and page_count :: "'s \<Rightarrow> u64"
    and read :: "'s \<Rightarrow> u64 \<Rightarrow> page result"
    and "write" :: "u64 \<Rightarrow> page \<Rightarrow> ('s, unit) action"
  assumes read_length: "inv s \<Longrightarrow> read s i = Ok p \<Longrightarrow> length p = PAGE_SIZE"
    and write_inv: "inv s \<Longrightarrow> length p = PAGE_SIZE \<Longrightarrow> write i p s = (r, s') \<Longrightarrow> inv s' \<and> page_count s' = page_count s"
    and write_read: "inv s \<Longrightarrow> i < page_count s \<Longrightarrow> length p = PAGE_SIZE \<Longrightarrow> write i p s = (Ok (), s') \<Longrightarrow>
      read s' i = Ok p"
    and write_other: "inv s \<Longrightarrow> length p = PAGE_SIZE \<Longrightarrow> write i p s = (Ok (), s') \<Longrightarrow> j \<noteq> i \<Longrightarrow>
      read s j = Ok q \<Longrightarrow> read s' j = Ok q"
    and write_failed: "inv s \<Longrightarrow> write i p s = (r, s') \<Longrightarrow> r \<noteq> Ok () \<Longrightarrow> read s' j = read s j"
    and write_no_panic: "inv s \<Longrightarrow> write i p s \<noteq> (Panic, s')"
    and read_bound: "inv s \<Longrightarrow> read s i = Ok p \<Longrightarrow> i < page_count s"
begin

text \<open>Any number of writes to different pages.\<close>

lemma write_list_Ok:
  assumes "inv s" "write_list write xs s = (Ok (), s')" "distinct (map fst xs)"
    "\<forall>(i, p) \<in> set xs. i < page_count s \<and> length p = PAGE_SIZE"
  shows "inv s' \<and> page_count s' = page_count s \<and> (\<forall>(i, p) \<in> set xs. read s' i = Ok p) \<and>
    (\<forall>j q. j \<notin> fst ` set xs \<longrightarrow> read s j = Ok q \<longrightarrow> read s' j = Ok q)"
  using assms
proof (induction xs arbitrary: s)
  case (Cons x xs)
  obtain i p where x: "x = (i, p)" by (cases x)
  from Cons.prems obtain t where t: "write i p s = (Ok (), t)" "write_list write xs t = (Ok (), s')"
    by (auto simp: x act_then_eq_Ok)
  have len: "length p = PAGE_SIZE" "i < page_count s" using Cons.prems by (auto simp: x)
  have inv: "inv t" "page_count t = page_count s" using write_inv [OF Cons.prems(1) len(1) t(1)] by auto
  have IH: "inv s' \<and> page_count s' = page_count t \<and> (\<forall>(i, p) \<in> set xs. read s' i = Ok p) \<and>
      (\<forall>j q. j \<notin> fst ` set xs \<longrightarrow> read t j = Ok q \<longrightarrow> read s' j = Ok q)"
    using Cons.IH [OF inv(1) t(2)] Cons.prems inv by (auto simp: x)
  have "read t i = Ok p" by (rule write_read [OF Cons.prems(1) len(2,1) t(1)])
  with IH Cons.prems(3) have "read s' i = Ok p" by (auto simp: x)
  moreover have "read t j = Ok q" if "j \<noteq> i" "read s j = Ok q" for j q
    using write_other [OF Cons.prems(1) len(1) t(1) that] .
  ultimately show ?case using IH inv by (auto simp: x)
qed simp

end

lemma unat_eq_div_mod: "unat (i :: u64) = unat j \<longleftrightarrow>
    unat i div n = unat j div n \<and> unat i mod n = unat j mod n"
  by (metis div_mult_mod_eq)

lemma pages_disjoint: "a \<noteq> b \<Longrightarrow> a * PAGE_SIZE + PAGE_SIZE \<le> b * PAGE_SIZE \<or> b * PAGE_SIZE + PAGE_SIZE \<le> a * PAGE_SIZE"
  by (cases "a < b") (simp_all add: size_defs)

lemma dev_write_page_plain:
  assumes "ds_journal d = None"
  shows "dev_write_page bw i p (d, fs) =
    with_chunk_write (unat i div PAGES_PER_CHUNK) (unat i mod PAGES_PER_CHUNK * PAGE_SIZE) p (d, fs)"
  using assms by (simp add: dev_write_page_def journaled_def act_then_def)

lemma with_chunk_write_Ok:
  assumes "with_chunk_write c off p (d, fs) = (Ok (), (d', fs'))"
  shows "ds_root d' = ds_root d" "ds_page_count d' = ds_page_count d" "ds_journal d' = ds_journal d"
    "fs_files fs' = (fs_files fs)(chunk_path (ds_root d) c \<mapsto>
       write_at (case fs_files fs (chunk_path (ds_root d) c) of Some x \<Rightarrow> x | None \<Rightarrow> []) off p)"
  using assms by (auto simp: with_chunk_write_def Let_def fs_write_def split: if_splits)

lemma with_chunk_write_not_Ok:
  assumes "with_chunk_write c off p (d, fs) = (r, (d', fs'))" "r \<noteq> Ok ()"
  shows "ds_root d' = ds_root d" "ds_page_count d' = ds_page_count d" "ds_journal d' = ds_journal d" "fs' = fs"
  using assms by (auto simp: with_chunk_write_def Let_def fs_write_def split: if_splits)

lemma dev_write_read:
  assumes "ds_journal d = None" "i < ds_page_count d" "length p = PAGE_SIZE"
    "dev_write_page bw i p (d, fs) = (Ok (), (d', fs'))"
  shows "dev_read_page (d', fs') i = Ok p"
  using assms with_chunk_write_Ok [of _ _ p d fs d' fs']
    read_write_at [of _ "unat i mod PAGES_PER_CHUNK * PAGE_SIZE" p]
  by (simp add: dev_write_page_plain dev_read_page_def fs_read_def not_le)

lemma dev_write_other:
  assumes "ds_journal d = None" "length p = PAGE_SIZE" "j \<noteq> i"
    "dev_write_page bw i p (d, fs) = (Ok (), (d', fs'))" "dev_read_page (d, fs) j = Ok q"
  shows "dev_read_page (d', fs') j = Ok q"
proof (cases "unat i div PAGES_PER_CHUNK = unat j div PAGES_PER_CHUNK")
  case True
  with assms(3) have "unat i mod PAGES_PER_CHUNK \<noteq> unat j mod PAGES_PER_CHUNK"
    by (metis unat_eq_div_mod unsigned_word_eqI)
  from pages_disjoint [OF this] True assms with_chunk_write_Ok [of _ _ p d fs d' fs']
  show ?thesis
    by (auto simp: dev_write_page_plain dev_read_page_def fs_read_def and_then_eq_Ok
        intro!: read_write_at_other split: if_splits)
next
  case False
  with assms with_chunk_write_Ok [of _ _ p d fs d' fs']
  show ?thesis
    by (auto simp: dev_write_page_plain dev_read_page_def fs_read_def split: if_splits)
qed

text \<open>A store of the router, outside a journaled transaction.\<close>

fun plain_store :: "'j backend_state \<Rightarrow> bool" where
  "plain_store (Dev d, fs) = (ds_journal d = None)"
| "plain_store (Mem m, fs) = (length m \<le> usize_max \<and> (\<forall>p \<in> set m. length p = PAGE_SIZE))"
| "plain_store (b, fs) = True"

definition store_page_count :: "'j backend_state \<Rightarrow> u64" where
  "store_page_count s = backend_page_count (fst s)"

fun_cases is_writableE: "is_writable b"

lemma mem_count_less: "length m \<le> usize_max \<Longrightarrow> i < mem_page_count m \<longleftrightarrow> unat i < length m"
  by (simp add: mem_page_count_def word_less_nat_alt unat_of_nat_u64)

lemma read_page_length:
  assumes "plain_store s" "backend_read_page s i = Ok p"
  shows "length p = PAGE_SIZE"
proof -
  obtain b fs where s: "s = (b, fs)" by (cases s)
  from assms show ?thesis
    by (cases b)
      (auto simp: s dev_read_page_def mem_read_page_def mono_read_page_def remote_read_page_def Let_def
        read_exact_at_def and_then_eq_Ok elem_get_def dest: slice_get_length split: if_splits)
qed

lemma write_page_keeps:
  assumes "plain_store s" "length p = PAGE_SIZE" "backend_write_page bw i p s = (r, s')"
  shows "plain_store s' \<and> store_page_count s' = store_page_count s"
proof -
  obtain b fs where s: "s = (b, fs)" by (cases s)
  show ?thesis
  proof (cases b)
    case (Dev d)
    obtain d' fs' where w: "dev_write_page bw i p (d, fs) = (r, (d', fs'))" "s' = (Dev d', fs')"
      using assms(3) by (cases "dev_write_page bw i p (d, fs)") (auto simp: s Dev)
    then show ?thesis
      using assms(1) with_chunk_write_Ok [of _ _ p d fs d' fs'] with_chunk_write_not_Ok [of _ _ p d fs r d' fs']
      by (cases "r = Ok ()") (simp_all add: s Dev dev_write_page_plain store_page_count_def)
  next
    case (Mem m)
    then show ?thesis
      using assms
      by (auto simp: s mem_write_page_def store_page_count_def mem_page_count_def
        dest!: subsetD [OF set_update_subset_insert] split: if_splits)
  qed (use assms in \<open>auto simp: s store_page_count_def\<close>)
qed

lemma write_page_read:
  assumes "plain_store s" "i < store_page_count s" "length p = PAGE_SIZE"
    "backend_write_page bw i p s = (Ok (), s')"
  shows "backend_read_page s' i = Ok p"
proof -
  obtain b fs where s: "s = (b, fs)" by (cases s)
  show ?thesis
  proof (cases b)
    case (Dev d)
    then show ?thesis
      using assms dev_write_read [of d i p bw fs]
      by (cases "dev_write_page bw i p (d, fs)") (auto simp: s store_page_count_def)
  qed (use assms in \<open>auto simp: s store_page_count_def mem_write_page_def mem_read_page_def mem_count_less
      elem_get_def split: if_splits\<close>)
qed

lemma write_page_other:
  assumes "plain_store s" "length p = PAGE_SIZE" "backend_write_page bw i p s = (Ok (), s')" "j \<noteq> i"
    "backend_read_page s j = Ok q"
  shows "backend_read_page s' j = Ok q"
proof -
  obtain b fs where s: "s = (b, fs)" by (cases s)
  show ?thesis
  proof (cases b)
    case (Dev d)
    then show ?thesis
      using assms dev_write_other [of d p j i bw fs]
      by (cases "dev_write_page bw i p (d, fs)") (auto simp: s)
  next
    case (Mem m)
    have "unat j \<noteq> unat i" using assms(4) by (metis unsigned_word_eqI)
    with Mem assms show ?thesis
      by (auto simp: s mem_write_page_def mem_read_page_def elem_get_def split: if_splits)
  qed (use assms in \<open>auto simp: s\<close>)
qed

lemma write_page_failed:
  assumes "plain_store s" "backend_write_page bw i p s = (r, s')" "r \<noteq> Ok ()"
  shows "backend_read_page s' j = backend_read_page s j"
proof -
  obtain b fs where s: "s = (b, fs)" by (cases s)
  show ?thesis
  proof (cases b)
    case (Dev d)
    obtain d' fs' where "dev_write_page bw i p (d, fs) = (r, (d', fs'))" "s' = (Dev d', fs')"
      using assms(2) by (cases "dev_write_page bw i p (d, fs)") (auto simp: s Dev)
    then have "ds_root d' = ds_root d \<and> ds_page_count d' = ds_page_count d \<and> fs' = fs" "s' = (Dev d', fs')"
      using assms(1,3) with_chunk_write_not_Ok [of _ _ p d fs r d' fs']
      by (auto simp: s Dev dev_write_page_plain)
    then show ?thesis by (simp add: s Dev dev_read_page_def)
  qed (use assms in \<open>auto simp: s mem_write_page_def split: if_splits\<close>)
qed

lemma write_page_no_panic:
  assumes "plain_store s"
  shows "backend_write_page bw i p s \<noteq> (Panic, s')"
proof -
  obtain b fs where s: "s = (b, fs)" by (cases s)
  show ?thesis
  proof (cases b)
    case (Dev d)
    with assms show ?thesis
      by (auto simp: s dev_write_page_plain with_chunk_write_def Let_def fs_write_def)
  qed (auto simp: s mem_write_page_def split: if_splits)
qed

lemma read_page_bound:
  assumes "plain_store s" "backend_read_page s i = Ok p"
  shows "i < store_page_count s"
proof -
  obtain b fs where s: "s = (b, fs)" by (cases s)
  show ?thesis
    using assms
    by (cases b)
      (auto simp: s dev_read_page_def mem_read_page_def mono_read_page_def remote_read_page_def store_page_count_def
        mem_count_less elem_get_def not_le split: if_splits)
qed

interpretation store: page_store plain_store store_page_count backend_read_page "backend_write_page bw" for bw
  by unfold_locales
    (rule read_page_length write_page_keeps write_page_read write_page_other write_page_failed
      write_page_no_panic read_page_bound, assumption+)+



section \<open>Monolith images: lemmas\<close>

lemma open_image_not_Panic: "open_image mmap \<noteq> Panic"
  by (auto simp: open_image_def and_then_eq_Panic Let_def slice_at_Panic)

lemma open_image_Ok:
  assumes "open_image mmap = Ok m"
  shows "mo_mmap m = mmap" "FILE_HEADER_SIZE \<le> mo_cas_offset m" "mo_cas_offset m \<le> mo_manifest_offset m"
    "mo_manifest_offset m \<le> length mmap" "(mo_cas_offset m - FILE_HEADER_SIZE) mod PAGE_SIZE = 0"
    "mo_cas_offset m \<le> usize_max"
proof -
  have "unat (w :: u64) \<le> usize_max" for w
    using unsigned_less [of w, where 'a = nat] by (simp add: usize_max_def)
  then show "mo_mmap m = mmap" "FILE_HEADER_SIZE \<le> mo_cas_offset m" "mo_cas_offset m \<le> mo_manifest_offset m"
    "mo_manifest_offset m \<le> length mmap" "(mo_cas_offset m - FILE_HEADER_SIZE) mod PAGE_SIZE = 0"
    "mo_cas_offset m \<le> usize_max"
    using assms by (auto simp: open_image_def and_then_eq_Ok Let_def split: if_splits)
qed

lemma mono_page_count_less:
  assumes "mo_cas_offset m \<le> usize_max"
  shows "i < mono_page_count m \<longleftrightarrow> unat i < (mo_cas_offset m - FILE_HEADER_SIZE) div PAGE_SIZE"
proof -
  have "(mo_cas_offset m - FILE_HEADER_SIZE) div PAGE_SIZE \<le> usize_max"
    using assms div_le_dividend [of "mo_cas_offset m - FILE_HEADER_SIZE" PAGE_SIZE] by linarith
  then show ?thesis by (simp add: mono_page_count_def word_less_nat_alt unat_of_nat_u64)
qed

lemma page_in_block:
  assumes "(n :: nat) < k div PAGE_SIZE"
  shows "n * PAGE_SIZE + PAGE_SIZE \<le> k"
proof -
  have "Suc n * PAGE_SIZE \<le> k div PAGE_SIZE * PAGE_SIZE" using assms by (intro mult_right_mono) auto
  then show ?thesis using div_times_less_eq_dividend [of k PAGE_SIZE] unfolding mult_Suc by linarith
qed

lemma mono_read_page_in:
  assumes "open_image mmap = Ok m" "i < mono_page_count m"
  shows "mono_read_page m i = Ok (take PAGE_SIZE (drop (FILE_HEADER_SIZE + unat i * PAGE_SIZE) mmap))"
proof -
  note op = open_image_Ok [OF assms(1)]
  have "unat i * PAGE_SIZE + PAGE_SIZE \<le> mo_cas_offset m - FILE_HEADER_SIZE"
    using assms(2) op by (simp add: mono_page_count_less page_in_block)
  with op assms(2) show ?thesis by (simp add: mono_read_page_def Let_def)
qed

text \<open>
  C30: Opening any byte string as a monolith either succeeds or returns an error, never panics, and
  on a monolith that opened every operation is safe: a page id below the page count yields a full
  page of the page-data block, any other id a page fault, and the manifest slice is in range.
\<close>

theorem monolith_untrusted:
  "open_image mmap \<noteq> Panic \<and>
   (\<forall>m. open_image mmap = Ok m \<longrightarrow>
      (\<forall>i. mono_read_page m i = (if i < mono_page_count m
         then Ok (take PAGE_SIZE (drop (FILE_HEADER_SIZE + unat i * PAGE_SIZE) mmap)) else Err (PageFault i))) \<and>
      FILE_HEADER_SIZE + unat (mono_page_count m) * PAGE_SIZE = mo_cas_offset m \<and>
      mo_cas_offset m \<le> mo_manifest_offset m \<and>
      manifest_bytes m = Ok (drop (mo_manifest_offset m) mmap))"
proof (intro conjI allI impI)
  fix m i assume m: "open_image mmap = Ok m"
  note op = open_image_Ok [OF m]
  show "mono_read_page m i = (if i < mono_page_count m
      then Ok (take PAGE_SIZE (drop (FILE_HEADER_SIZE + unat i * PAGE_SIZE) mmap)) else Err (PageFault i))"
    using mono_read_page_in [OF m] by (auto simp: mono_read_page_def not_less)
  have "(mo_cas_offset m - FILE_HEADER_SIZE) div PAGE_SIZE \<le> usize_max"
    using op(6) div_le_dividend [of "mo_cas_offset m - FILE_HEADER_SIZE" PAGE_SIZE] by linarith
  then show "FILE_HEADER_SIZE + unat (mono_page_count m) * PAGE_SIZE = mo_cas_offset m"
    using op(2,5) by (simp add: mono_page_count_def unat_of_nat_u64) (metis div_mult_mod_eq add_0_right le_add_diff_inverse)
  show "mo_cas_offset m \<le> mo_manifest_offset m" "manifest_bytes m = Ok (drop (mo_manifest_offset m) mmap)"
    using op by (simp_all add: manifest_bytes_def)
qed (rule open_image_not_Panic)

theorem monolith_untrusted_witness:
  "\<exists>mmap m. open_image mmap = Ok m \<and> mono_read_page m 0 = Err (PageFault 0) \<and> manifest_bytes m = Ok [7]"
proof -
  let ?i = "MAGIC_BYTES @ [1, 0, 0, 0, 24, 0, 0, 0, 0, 0, 0, 0, 24, 0, 0, 0, 0, 0, 0, 0, 7]"
  let ?m = "\<lparr>mo_mmap = ?i, mo_header = \<lparr>fh_format_version = 1, fh_manifest_offset = 24, fh_cas_offset = 24\<rparr>,
      mo_cas_offset = 24, mo_manifest_offset = 24\<rparr>"
  have opn: "open_image ?i = Ok ?m" by code_simp
  have "\<not> 0 < mono_page_count ?m" "drop (mo_manifest_offset ?m) ?i = [7]" by code_simp+
  moreover have "mono_read_page ?m 0 = (if 0 < mono_page_count ?m
      then Ok (take PAGE_SIZE (drop (FILE_HEADER_SIZE + unat (0 :: u64) * PAGE_SIZE) ?i)) else Err (PageFault 0))"
    "manifest_bytes ?m = Ok (drop (mo_manifest_offset ?m) ?i)"
    using opn monolith_untrusted [of ?i] by blast+
  ultimately have "mono_read_page ?m 0 = Err (PageFault 0)" "manifest_bytes ?m = Ok [7]"
    by (simp_all only: if_False)
  with opn show ?thesis by blast
qed

lemma length_concat_pages: "\<forall>p \<in> set ps. length p = PAGE_SIZE \<Longrightarrow> length (concat ps) = length ps * PAGE_SIZE"
  by (induction ps) auto

lemma concat_page:
  assumes "\<forall>p \<in> set ps. length p = PAGE_SIZE" "i < length ps"
  shows "take PAGE_SIZE (drop (i * PAGE_SIZE) (concat ps @ rest)) = ps ! i"
proof -
  have "ps = take i ps @ ps ! i # drop (Suc i) ps" using assms(2) by (simp add: id_take_nth_drop)
  then have "concat ps @ rest = concat (take i ps) @ ps ! i @ concat (drop (Suc i) ps) @ rest"
    by (metis append.assoc concat.simps(2) concat_append)
  moreover have "length (concat (take i ps)) = i * PAGE_SIZE"
    using assms by (subst length_concat_pages) (auto dest: in_set_takeD)
  ultimately show ?thesis using assms by simp
qed

lemma bake_Ok:
  assumes "FILE_HEADER_SIZE + length pages * PAGE_SIZE + length cas_pool + length index_region + length manifest_json \<le> usize_max"
  shows "bake_monolith_bytes_with_index pages cas_pool index_region manifest_json version =
    Ok (file_header_encode \<lparr>fh_format_version = version,
          fh_manifest_offset = of_nat (FILE_HEADER_SIZE + length pages * PAGE_SIZE + length cas_pool + length index_region),
          fh_cas_offset = of_nat (FILE_HEADER_SIZE + length pages * PAGE_SIZE)\<rparr> @
        concat pages @ cas_pool @ index_region @ manifest_json)"
  using assms
  by (simp add: bake_monolith_bytes_with_index_def checked_add_def checked_mul_def
      file_header_new_versioned_def algebra_simps)

text \<open>
  C28: Baking pages, a blob pool, an index region and a manifest succeeds whenever the image fits the
  address space, and opening the image gives every part back: each page by its id, the manifest,
  and the blob pool followed by the index region between the two recorded offsets.
\<close>

theorem bake_open_roundtrip:
  assumes "\<forall>p \<in> set pages. length p = PAGE_SIZE" "version \<noteq> 0" "version \<le> FORMAT_VERSION"
    "FILE_HEADER_SIZE + length pages * PAGE_SIZE + length cas_pool + length index_region + length manifest_json \<le> usize_max"
  shows "\<exists>img m. bake_monolith_bytes_with_index pages cas_pool index_region manifest_json version = Ok img \<and>
    open_image img = Ok m \<and> mono_format_version m = version \<and>
    unat (mono_page_count m) = length pages \<and>
    (\<forall>i. mono_read_page m i = (if unat i < length pages then Ok (pages ! unat i) else Err (PageFault i))) \<and>
    slice_get img (mo_cas_offset m) (mo_manifest_offset m) = Some (cas_pool @ index_region) \<and>
    manifest_bytes m = Ok manifest_json"
proof -
  let ?c = "FILE_HEADER_SIZE + length pages * PAGE_SIZE"
  let ?f = "?c + length cas_pool + length index_region"
  let ?h = "\<lparr>fh_format_version = version, fh_manifest_offset = of_nat ?f, fh_cas_offset = of_nat ?c\<rparr>"
  let ?img = "file_header_encode ?h @ concat pages @ cas_pool @ index_region @ manifest_json"
  let ?m = "\<lparr>mo_mmap = ?img, mo_header = ?h, mo_cas_offset = ?c, mo_manifest_offset = ?f\<rparr>"
  have off: "unat (of_nat ?c :: u64) = ?c" "unat (of_nat ?f :: u64) = ?f"
    using assms(4) by (auto intro!: unat_of_nat_u64 simp del: of_nat_add)
  have bake: "bake_monolith_bytes_with_index pages cas_pool index_region manifest_json version = Ok ?img"
    by (rule bake_Ok [OF assms(4)])
  have len: "length ?img = ?f + length manifest_json"
    by (simp add: length_concat_pages [OF assms(1)])
  have hdr: "file_header_decode (file_header_encode ?h) = Ok ?h"
    using file_header_decode_encode [of ?h "[]"] assms(2,3) by (simp add: not_less)
  have opn: "open_image ?img = Ok ?m"
    using hdr off len by (simp add: open_image_def Let_def del: of_nat_add)
  have pc: "i < mono_page_count ?m \<longleftrightarrow> unat i < length pages" for i
    using mono_page_count_less [of ?m i] open_image_Ok(6) [OF opn] by (simp add: size_defs)
  have rd: "mono_read_page ?m i = (if unat i < length pages then Ok (pages ! unat i) else Err (PageFault i))" for i
  proof (cases "i < mono_page_count ?m")
    case True
    then have i: "unat i < length pages" using pc by simp
    have "drop (FILE_HEADER_SIZE + unat i * PAGE_SIZE) ?img =
        drop (unat i * PAGE_SIZE) (concat pages @ cas_pool @ index_region @ manifest_json)" by simp
    with mono_read_page_in [OF opn True] i show ?thesis by (simp only: concat_page [OF assms(1) i] if_True)
  next
    case False
    then show ?thesis unfolding mono_read_page_def using pc [of i] by (simp only: not_less if_False) simp
  qed
  have cnt: "unat (mono_page_count ?m) = length pages"
    using assms(4) by (simp add: mono_page_count_def size_defs unat_of_nat_u64)
  have "slice_get ?img ?c ?f = Some (cas_pool @ index_region)"
    using len by (simp add: slice_get_def length_concat_pages [OF assms(1)])
  moreover have "manifest_bytes ?m = Ok manifest_json"
    using len by (simp add: manifest_bytes_def length_concat_pages [OF assms(1)])
  ultimately show ?thesis
    using bake opn rd cnt by (intro exI [of _ ?img] exI [of _ ?m]) (simp add: mono_format_version_def)
qed

theorem bake_open_roundtrip_witness:
  "\<exists>img m. bake_monolith_bytes_with_index [replicate PAGE_SIZE 3] [1, 2] [4] [123, 125] FORMAT_VERSION_INDEX = Ok img \<and>
    open_image img = Ok m \<and> mono_read_page m 0 = Ok (replicate PAGE_SIZE 3) \<and> manifest_bytes m = Ok [123, 125]"
  using bake_open_roundtrip [of "[replicate PAGE_SIZE 3]" FORMAT_VERSION_INDEX "[1, 2]" "[4]" "[123, 125]"]
  by (auto simp: FORMAT_VERSION_INDEX_def FORMAT_VERSION_def size_defs usize_max_def)

text \<open>
  The streamed store reads the same pages as the mapped monolith: over a reader that serves the
  byte ranges of an image that opens, with the page count of the opened image, both stores return
  the same result for every page id.
\<close>

theorem remote_equals_monolith:
  assumes "open_image img = Ok m"
    "\<And>off n. reader off n = ok_or (slice_get img off (off + n)) (Io ''UnexpectedEof'')"
  shows "remote_read_page (remote_new reader (mono_page_count m)) i = mono_read_page m i"
proof (cases "i < mono_page_count m")
  case True
  note op = open_image_Ok [OF assms(1)]
  have "unat i * PAGE_SIZE + PAGE_SIZE \<le> mo_cas_offset m - FILE_HEADER_SIZE"
    using True op by (simp add: mono_page_count_less page_in_block)
  with op have "FILE_HEADER_SIZE + unat i * PAGE_SIZE + PAGE_SIZE \<le> length img" 
    "FILE_HEADER_SIZE + unat i * PAGE_SIZE \<le> usize_max" by auto
  with True op assms(2) show ?thesis
    by (simp add: remote_read_page_def remote_new_def mono_read_page_in [OF assms(1)] slice_get_def)
qed (simp add: remote_read_page_def remote_new_def mono_read_page_def not_less)

theorem remote_equals_monolith_witness:
  "\<exists>img m. open_image img = Ok m \<and>
     remote_read_page (remote_new (\<lambda>off n. ok_or (slice_get img off (off + n)) (Io ''UnexpectedEof'')) (mono_page_count m)) 0
       = mono_read_page m 0 \<and> mono_read_page m 0 = Err (PageFault 0)"
proof -
  let ?i = "MAGIC_BYTES @ [1, 0, 0, 0, 24, 0, 0, 0, 0, 0, 0, 0, 24, 0, 0, 0, 0, 0, 0, 0]"
  let ?m = "\<lparr>mo_mmap = ?i, mo_header = \<lparr>fh_format_version = 1, fh_manifest_offset = 24, fh_cas_offset = 24\<rparr>,
      mo_cas_offset = 24, mo_manifest_offset = 24\<rparr>"
  have "open_image ?i = Ok ?m" by code_simp
  moreover have "mono_read_page ?m 0 = Err (PageFault 0)" by code_simp
  ultimately show ?thesis
    using remote_equals_monolith [of ?i ?m "\<lambda>off n. ok_or (slice_get ?i off (off + n)) (Io ''UnexpectedEof'')" 0]
    by (intro exI [of _ ?i] exI [of _ ?m]) simp
qed

end
