(* ===== verification/Interp_Decode.thy ===== *)
theory Interp_Decode
  imports Value
begin

unbundle bit_operations_syntax

text \<open>
  \<^verbatim>\<open>src/engine/interp.rs\<close>, first half: the instruction set of the WebAssembly integer subset, the
  positioned binary reader with its LEB128 integers, and the decoder of a module with its
  single-pass resolution of block ends. A \<^verbatim>\<open>Reader\<close> is a buffer and a position, so each of its
  methods is a \<open>reader\<close>; a \<^verbatim>\<open>Vec\<close> used as a stack keeps its top at the end of the list.

  The lemmas show that decoding terminates and never panics on any byte string, and that the targets of a
  decoded body are the matching \<^verbatim>\<open>end\<close> and \<^verbatim>\<open>else\<close> of its nesting, but for an \<^verbatim>\<open>else\<close> displaced by a second one.
\<close>

section \<open>Limits, values and types\<close>

definition PAGE_BYTES :: nat where "PAGE_BYTES = 65536"
definition MAX_CALL_DEPTH :: nat where "MAX_CALL_DEPTH = 256"
definition MAX_INSTRUCTIONS :: nat where "MAX_INSTRUCTIONS = 10000000"
definition MAX_MEMORY_PAGES :: u32 where "MAX_MEMORY_PAGES = 1024"
definition MAX_OUTPUT_BYTES :: nat where "MAX_OUTPUT_BYTES = 16 * 1024 * 1024"
definition MAX_VEC_LEN :: nat where "MAX_VEC_LEN = 1048576"

definition trap :: "string \<Rightarrow> pv_error" where
  "trap msg = Wasm msg"

datatype val_type = TI32 | TI64

datatype wval = I32 i32 | I64 i64

fun wval_zero :: "val_type \<Rightarrow> wval" where
  "wval_zero TI32 = I32 0"
| "wval_zero TI64 = I64 0"

record func_type =
  ft_params :: "val_type list"
  ft_results :: "val_type list"

section \<open>Instructions\<close>

datatype load_op = LoadI32 | LoadI64 | LoadI32_8U | LoadI32_8S | LoadI32_16U | LoadI32_16S

datatype store_op = StoreI32 | StoreI64 | StoreI32_8 | StoreI32_16

datatype num_op =
    I32Eqz | I32Eq | I32Ne | I32LtS | I32LtU | I32GtS | I32GtU | I32LeS | I32LeU | I32GeS | I32GeU
  | I32Add | I32Sub | I32Mul | I32DivS | I32DivU | I32RemS | I32RemU | I32And | I32Or | I32Xor
  | I32Shl | I32ShrS | I32ShrU | I32Rotl | I32Rotr | I32Clz | I32Ctz | I32Popcnt
  | I64Eqz | I64Eq | I64Ne | I64LtS | I64LtU | I64GtS | I64GtU | I64LeS | I64LeU | I64GeS | I64GeU
  | I64Add | I64Sub | I64Mul | I64DivS | I64DivU | I64RemS | I64RemU | I64And | I64Or | I64Xor
  | I64Shl | I64ShrS | I64ShrU
  | I32WrapI64 | I64ExtendI32S | I64ExtendI32U

datatype instr =
    Unreachable
  | Nop
  | Block nat nat
  | Loop
  | If "nat option" nat nat
  | Else nat
  | End
  | Br u32
  | BrIf u32
  | Return
  | Call u32
  | Drop
  | Select
  | LocalGet u32
  | LocalSet u32
  | LocalTee u32
  | I32Const i32
  | I64Const i64
  | Load load_op u32
  | Store store_op u32
  | Num num_op

record func_def =
  fd_type_idx :: u32
  fd_locals :: "val_type list"
  fd_code :: "instr list"

record export_entry =
  ex_name :: bytes
  ex_kind :: u8
  ex_index :: u32

record pv_module =
  pm_types :: "func_type list"
  pm_funcs :: "func_def list"
  pm_exports :: "export_entry list"
  pm_mem_pages :: u32
  pm_export_by_name :: "bytes \<Rightarrow> u32 option"

section \<open>Binary reader\<close>

definition w_eof :: "bytes \<Rightarrow> nat \<Rightarrow> bool" where
  "w_eof buf pos = (pos \<ge> length buf)"

definition w_byte :: "u8 reader" where
  "w_byte buf pos =
     (case elem_get buf pos of
        None \<Rightarrow> Err (trap ''unexpected end of module'')
      | Some b \<Rightarrow> Ok (b, pos + 1))"

definition w_take :: "nat \<Rightarrow> bytes reader" where
  "w_take n buf pos =
     and_then (ok_or (checked_add pos n) (trap ''unexpected end of section'')) (\<lambda>fin.
     and_then (ok_or (slice_get buf pos fin) (trap ''unexpected end of section'')) (\<lambda>slice.
       Ok (slice, fin)))"

fun w_u32_loop :: "nat \<Rightarrow> nat \<Rightarrow> u32 \<Rightarrow> u32 reader" where
  "w_u32_loop 0 byte_index result buf pos = Err (trap ''u32 LEB128 overflow'')"
| "w_u32_loop (Suc k) byte_index result buf pos =
     and_then (w_byte buf pos) (\<lambda>(b, pos').
       if byte_index = 4 \<and> b AND 0xF0 \<noteq> 0 then Err (trap ''u32 LEB128 overflow'')
       else let result' = result OR push_bit (byte_index * 7) (ucast (b AND 0x7F))
            in if b AND 0x80 = 0 then Ok (result', pos')
               else w_u32_loop k (byte_index + 1) result' buf pos')"

definition w_u32 :: "u32 reader" where
  "w_u32 = w_u32_loop 5 0 0"

definition w_count :: "nat reader" where
  "w_count buf pos =
     and_then (w_u32 buf pos) (\<lambda>(n, pos').
       if n > of_nat MAX_VEC_LEN then Err (trap ''vector length {n} exceeds limit {MAX_VEC_LEN}'')
       else Ok (unat n, pos'))"

text \<open>\<^verbatim>\<open>signed\<close> accumulates in an \<^verbatim>\<open>i128\<close> and checks the range of the requested width.\<close>

fun w_signed_loop :: "nat \<Rightarrow> nat \<Rightarrow> nat \<Rightarrow> i128 \<Rightarrow> i64 reader" where
  "w_signed_loop bits 0 shift result buf pos = Err (trap ''signed {bits}-bit LEB128 overflow'')"
| "w_signed_loop bits (Suc k) shift result buf pos =
     and_then (w_byte buf pos) (\<lambda>(b, pos').
       let result' = result OR push_bit shift (ucast (b AND 0x7F)); shift' = shift + 7
       in if b AND 0x80 = 0 then
            let result'' = (if b AND 0x40 \<noteq> 0 then result' OR push_bit shift' (- 1) else result')
            in if sint result'' < - (2 ^ (bits - 1)) \<or> sint result'' > 2 ^ (bits - 1) - 1
               then Err (trap ''signed {bits}-bit LEB128 overflow'')
               else if sint result'' < - (2 ^ 63) \<or> sint result'' \<ge> 2 ^ 63
               then Err (trap ''signed {bits}-bit LEB128 overflow'')
               else Ok (ucast result'', pos')
          else w_signed_loop bits k shift' result' buf pos')"

definition w_signed :: "nat \<Rightarrow> i64 reader" where
  "w_signed bits = w_signed_loop bits (div_ceil bits 7) 0 0"

definition w_s32 :: "i32 reader" where
  "w_s32 buf pos =
     and_then (w_signed 32 buf pos) (\<lambda>(v, pos').
       if sint v < - (2 ^ 31) \<or> sint v \<ge> 2 ^ 31 then Err (trap ''signed 32-bit LEB128 overflow'')
       else Ok (ucast v, pos'))"

definition w_s64 :: "i64 reader" where
  "w_s64 = w_signed 64"

definition w_name :: "bytes reader" where
  "w_name buf pos =
     and_then (w_u32 buf pos) (\<lambda>(n, pos').
     and_then (w_take (unat n) buf pos') (\<lambda>(bytes, pos'').
     and_then (ok_or (from_utf8 bytes) (trap ''invalid utf-8 in name'')) (\<lambda>s.
       Ok (s, pos''))))"

definition valtype :: "val_type reader" where
  "valtype buf pos =
     and_then (w_byte buf pos) (\<lambda>(b, pos').
       if b = 0x7F then Ok (TI32, pos')
       else if b = 0x7E then Ok (TI64, pos')
       else if b = 0x7D \<or> b = 0x7C then Err (trap ''floating-point types are not supported'')
       else Err (trap ''unknown value type 0x{other:02X}''))"

section \<open>Opcodes\<close>

definition load_table :: "(u8 \<times> load_op) list" where
  "load_table = [(0x28, LoadI32), (0x29, LoadI64), (0x2C, LoadI32_8S), (0x2D, LoadI32_8U),
     (0x2E, LoadI32_16S), (0x2F, LoadI32_16U)]"

definition store_table :: "(u8 \<times> store_op) list" where
  "store_table = [(0x36, StoreI32), (0x37, StoreI64), (0x3A, StoreI32_8), (0x3B, StoreI32_16)]"

definition num_table :: "(u8 \<times> num_op) list" where
  "num_table =
     [(0x45, I32Eqz), (0x46, I32Eq), (0x47, I32Ne), (0x48, I32LtS), (0x49, I32LtU), (0x4A, I32GtS),
      (0x4B, I32GtU), (0x4C, I32LeS), (0x4D, I32LeU), (0x4E, I32GeS), (0x4F, I32GeU),
      (0x67, I32Clz), (0x68, I32Ctz), (0x69, I32Popcnt), (0x6A, I32Add), (0x6B, I32Sub), (0x6C, I32Mul),
      (0x6D, I32DivS), (0x6E, I32DivU), (0x6F, I32RemS), (0x70, I32RemU), (0x71, I32And), (0x72, I32Or),
      (0x73, I32Xor), (0x74, I32Shl), (0x75, I32ShrS), (0x76, I32ShrU), (0x77, I32Rotl), (0x78, I32Rotr),
      (0x50, I64Eqz), (0x51, I64Eq), (0x52, I64Ne), (0x53, I64LtS), (0x54, I64LtU), (0x55, I64GtS),
      (0x56, I64GtU), (0x57, I64LeS), (0x58, I64LeU), (0x59, I64GeS), (0x5A, I64GeU),
      (0x7C, I64Add), (0x7D, I64Sub), (0x7E, I64Mul), (0x7F, I64DivS), (0x80, I64DivU), (0x81, I64RemS),
      (0x82, I64RemU), (0x83, I64And), (0x84, I64Or), (0x85, I64Xor), (0x86, I64Shl), (0x87, I64ShrS),
      (0x88, I64ShrU), (0xA7, I32WrapI64), (0xAC, I64ExtendI32S), (0xAD, I64ExtendI32U)]"

definition decode_num :: "u8 \<Rightarrow> num_op result" where
  "decode_num op = ok_or (map_of num_table op) (trap ''unsupported opcode 0x{other:02X}'')"

definition decode_load :: "u8 \<Rightarrow> instr reader" where
  "decode_load op buf pos =
     and_then (ok_or (map_of load_table op) (trap ''unsupported load op 0x{other:02X}'')) (\<lambda>load.
     and_then (w_u32 buf pos) (\<lambda>(align, pos').
     and_then (w_u32 buf pos') (\<lambda>(offset, pos'').
       Ok (Load load offset, pos''))))"

definition decode_store :: "u8 \<Rightarrow> instr reader" where
  "decode_store op buf pos =
     and_then (ok_or (map_of store_table op) (trap ''unsupported store op 0x{other:02X}'')) (\<lambda>store.
     and_then (w_u32 buf pos) (\<lambda>(align, pos').
     and_then (w_u32 buf pos') (\<lambda>(offset, pos'').
       Ok (Store store offset, pos''))))"

definition blocktype :: "nat reader" where
  "blocktype buf pos =
     and_then (w_byte buf pos) (\<lambda>(b, pos').
       if b = 0x40 then Ok (0, pos')
       else if b = 0x7F \<or> b = 0x7E then Ok (1, pos')
       else if b = 0x7D \<or> b = 0x7C then Err (trap ''floating-point block result not supported'')
       else Err (trap ''function-typed blocks are not supported''))"

section \<open>Function bodies\<close>

definition vec_pop :: "'a list \<Rightarrow> ('a \<times> 'a list) option" where
  "vec_pop xs = (if xs = [] then None else Some (last xs, butlast xs))"

text \<open>One instruction with its operands; block ends are still open.\<close>

definition decode_instr :: "u8 \<Rightarrow> instr reader" where
  "decode_instr op =
     (if op = 0x00 then (\<lambda>buf pos. Ok (Unreachable, pos))
      else if op = 0x01 then (\<lambda>buf pos. Ok (Nop, pos))
      else if op = 0x02 then map_reader (Block 0) blocktype
      else if op = 0x03 then map_reader (\<lambda>_. Loop) blocktype
      else if op = 0x04 then map_reader (If None 0) blocktype
      else if op = 0x05 then (\<lambda>buf pos. Ok (Else 0, pos))
      else if op = 0x0B then (\<lambda>buf pos. Ok (End, pos))
      else if op = 0x0C then map_reader Br w_u32
      else if op = 0x0D then map_reader BrIf w_u32
      else if op = 0x0F then (\<lambda>buf pos. Ok (Return, pos))
      else if op = 0x10 then map_reader Call w_u32
      else if op = 0x1A then (\<lambda>buf pos. Ok (Drop, pos))
      else if op = 0x1B then (\<lambda>buf pos. Ok (Select, pos))
      else if op = 0x20 then map_reader LocalGet w_u32
      else if op = 0x21 then map_reader LocalSet w_u32
      else if op = 0x22 then map_reader LocalTee w_u32
      else if 0x28 \<le> op \<and> op \<le> 0x35 then decode_load op
      else if 0x36 \<le> op \<and> op \<le> 0x3E then decode_store op
      else if op = 0x41 then map_reader I32Const w_s32
      else if op = 0x42 then map_reader I64Const w_s64
      else (\<lambda>buf pos. and_then (decode_num op) (\<lambda>n. Ok (Num n, pos))))"

type_synonym body_state = "instr list \<times> (nat \<times> nat option) list"

definition patch_block_end :: "instr list \<Rightarrow> nat \<Rightarrow> nat option \<Rightarrow> nat \<Rightarrow> instr list result" where
  "patch_block_end instrs opener else_idx fin =
     and_then (elem_at instrs opener) (\<lambda>i.
       let instrs' = (case i of
           Block _ arity \<Rightarrow> instrs[opener := Block fin arity]
         | If _ _ arity \<Rightarrow> instrs[opener := If else_idx fin arity]
         | _ \<Rightarrow> instrs)
       in (case else_idx of
             None \<Rightarrow> Ok instrs'
           | Some e \<Rightarrow> and_then (elem_at instrs' e) (\<lambda>j.
               case j of Else _ \<Rightarrow> Ok (instrs'[e := Else fin]) | _ \<Rightarrow> Ok instrs')))"

text \<open>Append an instruction and keep the stack of open control structures.\<close>

fun place :: "instr \<Rightarrow> body_state \<Rightarrow> body_state result" where
  "place (Block e arity) (instrs, ctrl) = Ok (instrs @ [Block e arity], ctrl @ [(length instrs, None)])"
| "place Loop (instrs, ctrl) = Ok (instrs @ [Loop], ctrl @ [(length instrs, None)])"
| "place (If el e arity) (instrs, ctrl) = Ok (instrs @ [If el e arity], ctrl @ [(length instrs, None)])"
| "place (Else e) (instrs, ctrl) =
     (case vec_pop ctrl of
        None \<Rightarrow> Err (trap ''`else` without `if`'')
      | Some ((opener, _), rest) \<Rightarrow> Ok (instrs @ [Else e], rest @ [(opener, Some (length instrs))]))"
| "place End (instrs, ctrl) =
     (case vec_pop ctrl of
        None \<Rightarrow> Ok (instrs @ [End], ctrl)
      | Some ((opener, else_idx), rest) \<Rightarrow>
          and_then (patch_block_end (instrs @ [End]) opener else_idx (length instrs)) (\<lambda>instrs'.
            Ok (instrs', rest)))"
| "place i (instrs, ctrl) = Ok (instrs @ [i], ctrl)"

lemma w_byte_Ok: "w_byte buf pos = Ok (b, pos') \<longleftrightarrow> pos < length buf \<and> b = buf ! pos \<and> pos' = pos + 1"
  by (auto simp: w_byte_def elem_get_def split: option.splits if_splits)

lemma w_byte_safe [safe_intros]: "safe_reader w_byte"
  by unfold_locales (auto simp: w_byte_def elem_get_def split: option.splits if_splits)

lemma w_take_safe [safe_intros]: "safe_reader (w_take n)"
  by unfold_locales (auto simp: w_take_def checked_add_def and_then_eq_Ok and_then_eq_Panic dest: slice_get_bound split: if_splits)

lemma w_u32_loop_safe: "safe_reader (w_u32_loop k ix r)"
proof (induction k arbitrary: ix r)
  case (Suc k)
  show ?case unfolding w_u32_loop.simps [abs_def] Let_def by (intro safe_intros Suc.IH)
qed (simp add: w_u32_loop.simps [abs_def] safe_err)

lemma w_u32_safe [safe_intros]: "safe_reader w_u32"
  unfolding w_u32_def by (rule w_u32_loop_safe)

lemma w_count_safe [safe_intros]: "safe_reader w_count"
  unfolding w_count_def [abs_def] by (intro safe_intros)

lemma w_signed_loop_safe: "safe_reader (w_signed_loop bits k shift r)"
proof (induction k arbitrary: shift r)
  case (Suc k)
  show ?case unfolding w_signed_loop.simps [abs_def] Let_def by (intro safe_intros Suc.IH)
qed (simp add: w_signed_loop.simps [abs_def] safe_err)

lemma w_signed_safe [safe_intros]: "safe_reader (w_signed bits)"
  unfolding w_signed_def by (rule w_signed_loop_safe)

lemma w_s32_safe [safe_intros]: "safe_reader w_s32"
  unfolding w_s32_def [abs_def] by (intro safe_intros)

lemma w_s64_safe [safe_intros]: "safe_reader w_s64"
  unfolding w_s64_def by (intro safe_intros)

lemma w_name_safe [safe_intros]: "safe_reader w_name"
  unfolding w_name_def [abs_def] by (intro safe_intros ok_or_not_Panic)

lemma valtype_safe [safe_intros]: "safe_reader valtype"
  unfolding valtype_def [abs_def] by (intro safe_intros)

lemma decode_load_safe [safe_intros]: "safe_reader (decode_load op)"
  unfolding decode_load_def [abs_def] by (intro safe_intros ok_or_not_Panic)

lemma decode_store_safe [safe_intros]: "safe_reader (decode_store op)"
  unfolding decode_store_def [abs_def] by (intro safe_intros ok_or_not_Panic)

lemma blocktype_safe [safe_intros]: "safe_reader blocktype"
  unfolding blocktype_def [abs_def] by (intro safe_intros)

lemma decode_num_not_Panic: "decode_num op \<noteq> Panic"
  by (simp add: decode_num_def)

lemma safe_choice: "safe_reader f \<Longrightarrow> safe_reader g \<Longrightarrow> safe_reader (if c then f else g)"
  by simp

lemma decode_instr_safe [safe_intros]: "safe_reader (decode_instr op)"
  unfolding decode_instr_def
  by (intro safe_choice safe_return safe_map blocktype_safe w_u32_safe w_s32_safe w_s64_safe decode_load_safe
      decode_store_safe safe_check decode_num_not_Panic)

function decode_body_loop :: "body_state \<Rightarrow> instr list reader" where
  "decode_body_loop st buf pos =
     (if w_eof buf pos then
        (if snd st \<noteq> [] then Err (trap ''unbalanced control structure'') else Ok (fst st, pos))
      else
        and_then (w_byte buf pos) (\<lambda>(op, pos').
        and_then (decode_instr op buf pos') (\<lambda>(i, pos'').
        and_then (place i st) (\<lambda>st'.
        decode_body_loop st' buf pos''))))"
  by pat_completeness auto
termination
proof (relation "measure (\<lambda>(st, buf, pos). length buf - pos)")
  fix st :: body_state and buf pos x op pos' y i pos'' and st' :: body_state
  assume "w_byte buf pos = Ok x" "(op, pos') = x" "decode_instr op buf pos' = Ok y" "(i, pos'') = y"
  then have "pos < length buf" "pos' = pos + 1" "pos' \<le> pos''" "pos'' \<le> length buf"
    using safe_reader.in_bounds [OF decode_instr_safe, of pos' buf op i pos''] by (auto simp: w_byte_Ok)
  then show "((st', buf, pos''), st, buf, pos) \<in> measure (\<lambda>(st, buf, pos). length buf - pos)" by simp
qed simp

declare decode_body_loop.simps [simp del]

definition decode_body :: "instr list reader" where
  "decode_body = decode_body_loop ([], [])"

section \<open>Sections\<close>

fun decode_locals_loop :: "nat \<Rightarrow> val_type list \<Rightarrow> val_type list reader" where
  "decode_locals_loop 0 locals buf pos = Ok (locals, pos)"
| "decode_locals_loop (Suc n) locals buf pos =
     and_then (w_count buf pos) (\<lambda>(count, pos').
     and_then (valtype buf pos') (\<lambda>(ty, pos'').
       if length locals + count > MAX_VEC_LEN then Err (trap ''too many locals'')
       else decode_locals_loop n (locals @ replicate count ty) buf pos''))"

definition decode_locals :: "val_type list reader" where
  "decode_locals buf pos = and_then (w_count buf pos) (\<lambda>(groups, pos'). decode_locals_loop groups [] buf pos')"

definition decode_func_type :: "func_type reader" where
  "decode_func_type buf pos =
     and_then (w_byte buf pos) (\<lambda>(b, p1).
       if b \<noteq> 0x60 then Err (trap ''expected function type (0x60)'')
       else
         and_then (w_count buf p1) (\<lambda>(np, p2).
         and_then (read_many valtype np buf p2) (\<lambda>(params, p3).
         and_then (w_count buf p3) (\<lambda>(nr, p4).
         and_then (read_many valtype nr buf p4) (\<lambda>(results, p5).
           Ok (\<lparr>ft_params = params, ft_results = results\<rparr>, p5))))))"

definition decode_type_section :: "func_type list reader" where
  "decode_type_section buf pos = and_then (w_count buf pos) (\<lambda>(n, p). read_many decode_func_type n buf p)"

definition decode_func_section :: "u32 list reader" where
  "decode_func_section buf pos = and_then (w_count buf pos) (\<lambda>(n, p). read_many w_u32 n buf p)"

definition decode_import_section :: "unit reader" where
  "decode_import_section buf pos =
     and_then (w_u32 buf pos) (\<lambda>(n, p).
       if n > 0 then Err (trap ''imports are not supported'') else Ok ((), p))"

definition skip_maximum :: "u8 \<Rightarrow> unit reader" where
  "skip_maximum flags = (if flags AND 0x01 \<noteq> 0 then map_reader (\<lambda>_. ()) w_u32 else (\<lambda>buf pos. Ok ((), pos)))"

fun decode_memory_loop :: "nat \<Rightarrow> nat \<Rightarrow> u32 \<Rightarrow> u32 reader" where
  "decode_memory_loop 0 i pages buf pos = Ok (pages, pos)"
| "decode_memory_loop (Suc n) i pages buf pos =
     and_then (w_byte buf pos) (\<lambda>(flags, p1).
     and_then (w_u32 buf p1) (\<lambda>(minimum, p2).
     and_then (skip_maximum flags buf p2) (\<lambda>(_, p3).
       if i = 0 then
         (if minimum > MAX_MEMORY_PAGES
          then Err (trap ''declared memory {min} pages exceeds limit {MAX_MEMORY_PAGES}'')
          else decode_memory_loop n (i + 1) minimum buf p3)
       else decode_memory_loop n (i + 1) pages buf p3)))"

definition decode_memory_section :: "u32 reader" where
  "decode_memory_section buf pos = and_then (w_count buf pos) (\<lambda>(n, p). decode_memory_loop n 0 0 buf p)"

definition decode_export :: "export_entry reader" where
  "decode_export buf pos =
     and_then (w_name buf pos) (\<lambda>(name, p1).
     and_then (w_byte buf p1) (\<lambda>(kind, p2).
     and_then (w_u32 buf p2) (\<lambda>(index, p3).
       Ok (\<lparr>ex_name = name, ex_kind = kind, ex_index = index\<rparr>, p3))))"

definition decode_export_section :: "export_entry list reader" where
  "decode_export_section buf pos = and_then (w_count buf pos) (\<lambda>(n, p). read_many decode_export n buf p)"

definition decode_func_body :: "(val_type list \<times> instr list) reader" where
  "decode_func_body buf pos =
     and_then (w_u32 buf pos) (\<lambda>(body_size, p1).
     and_then (w_take (unat body_size) buf p1) (\<lambda>(body, p2).
     and_then (decode_locals body 0) (\<lambda>(locals, q).
     and_then (decode_body body q) (\<lambda>(code, _).
       Ok ((locals, code), p2)))))"

definition decode_code_section :: "(val_type list \<times> instr list) list reader" where
  "decode_code_section buf pos = and_then (w_count buf pos) (\<lambda>(n, p). read_many decode_func_body n buf p)"

section \<open>Modules\<close>

record module_parts =
  mp_types :: "func_type list"
  mp_func_type_idx :: "u32 list"
  mp_mem_pages :: u32
  mp_exports :: "export_entry list"
  mp_codes :: "(val_type list \<times> instr list) list"

text \<open>One section, from a reader over its content alone.\<close>

definition decode_section :: "u8 \<Rightarrow> bytes \<Rightarrow> module_parts \<Rightarrow> module_parts result" where
  "decode_section sid content m =
     (if sid = 1 then and_then (decode_type_section content 0) (\<lambda>(ts, _). Ok (m\<lparr>mp_types := mp_types m @ ts\<rparr>))
      else if sid = 2 then and_then (decode_import_section content 0) (\<lambda>_. Ok m)
      else if sid = 3 then and_then (decode_func_section content 0) (\<lambda>(ix, _). Ok (m\<lparr>mp_func_type_idx := mp_func_type_idx m @ ix\<rparr>))
      else if sid = 5 then and_then (decode_memory_section content 0) (\<lambda>(pages, _). Ok (m\<lparr>mp_mem_pages := pages\<rparr>))
      else if sid = 7 then and_then (decode_export_section content 0) (\<lambda>(es, _). Ok (m\<lparr>mp_exports := mp_exports m @ es\<rparr>))
      else if sid = 10 then and_then (decode_code_section content 0) (\<lambda>(cs, _). Ok (m\<lparr>mp_codes := mp_codes m @ cs\<rparr>))
      else Ok m)"

function decode_sections :: "module_parts \<Rightarrow> bytes \<Rightarrow> nat \<Rightarrow> module_parts result" where
  "decode_sections m buf pos =
     (if w_eof buf pos then Ok m
      else
        and_then (w_byte buf pos) (\<lambda>(sid, p1).
        and_then (w_u32 buf p1) (\<lambda>(size, p2).
        and_then (w_take (unat size) buf p2) (\<lambda>(content, p3).
        and_then (decode_section sid content m) (\<lambda>m'.
        decode_sections m' buf p3)))))"
  by pat_completeness auto
termination
proof (relation "measure (\<lambda>(m, buf, pos). length buf - pos)")
  fix m :: module_parts and buf pos x sid p1 y size p2 z content p3 and m' :: module_parts
  assume "w_byte buf pos = Ok x" "(sid, p1) = x" "w_u32 buf p1 = Ok y" "(size, p2) = y"
    "w_take (unat size) buf p2 = Ok z" "(content, p3) = z"
  then have "pos < length buf" "p1 = pos + 1" "p1 \<le> p2" "p2 \<le> p3" "p3 \<le> length buf"
    using safe_reader.in_bounds [OF w_u32_safe, of p1 buf size p2] safe_reader.in_bounds [OF w_take_safe, of p2 buf _ content p3]
    by (auto simp: w_byte_Ok)
  then show "((m', buf, p3), m, buf, pos) \<in> measure (\<lambda>(m, buf, pos). length buf - pos)" by simp
qed simp

declare decode_sections.simps [simp del]

text \<open>A later export of the same name replaces an earlier one in the \<^verbatim>\<open>HashMap\<close>.\<close>

definition export_map :: "export_entry list \<Rightarrow> bytes \<Rightarrow> u32 option" where
  "export_map exports =
     foldl (\<lambda>m e. m(ex_name e \<mapsto> ex_index e)) (\<lambda>_. None) (filter (\<lambda>e. ex_kind e = 0x00) exports)"

definition decode_module :: "bytes \<Rightarrow> pv_module result" where
  "decode_module bytes =
     and_then (w_take 4 bytes 0) (\<lambda>(magic, p1).
       if magic \<noteq> [0x00, 0x61, 0x73, 0x6D] then Err (trap ''bad magic: not a WASM module'')
       else
         and_then (w_take 4 bytes p1) (\<lambda>(version, p2).
           if version \<noteq> [1, 0, 0, 0] then Err (trap ''unsupported WASM version'')
           else
             and_then (decode_sections
                 \<lparr>mp_types = [], mp_func_type_idx = [], mp_mem_pages = 0, mp_exports = [], mp_codes = []\<rparr> bytes p2) (\<lambda>m.
               if length (mp_func_type_idx m) \<noteq> length (mp_codes m)
               then Err (trap ''function/code section length mismatch'')
               else Ok \<lparr>pm_types = mp_types m,
                        pm_funcs = map (\<lambda>(ti, (locals, code)). \<lparr>fd_type_idx = ti, fd_locals = locals, fd_code = code\<rparr>)
                          (zip (mp_func_type_idx m) (mp_codes m)),
                        pm_exports = mp_exports m, pm_mem_pages = mp_mem_pages m,
                        pm_export_by_name = export_map (mp_exports m)\<rparr>)))"

section \<open>Resolved targets\<close>

fun is_opener :: "instr \<Rightarrow> bool" where
  "is_opener (Block _ _) = True"
| "is_opener Loop = True"
| "is_opener (If _ _ _) = True"
| "is_opener _ = False"

fun is_else :: "instr \<Rightarrow> bool" where
  "is_else (Else _) = True"
| "is_else _ = False"

text \<open>The nesting depth behind a piece of code that is entered at a given depth; \<open>None\<close> when it leaves the structure it started in.\<close>

fun level :: "instr list \<Rightarrow> nat \<Rightarrow> nat option" where
  "level [] d = Some d"
| "level (i # code) d =
     (if is_opener i then level code (Suc d)
      else if i = End then (case d of 0 \<Rightarrow> None | Suc d' \<Rightarrow> level code d')
      else level code d)"

definition segment :: "instr list \<Rightarrow> nat \<Rightarrow> nat \<Rightarrow> instr list" where
  "segment code k x = take (x - Suc k) (drop (Suc k) code)"

text \<open>Position \<open>x\<close> lies directly in the structure that is open behind position \<open>k\<close>: whatever opens in between is closed again.\<close>

definition directly_in :: "instr list \<Rightarrow> nat \<Rightarrow> nat \<Rightarrow> bool" where
  "directly_in code k x \<longleftrightarrow> k < x \<and> x < length code \<and> level (segment code k x) 0 = Some 0"

definition ends_at :: "instr list \<Rightarrow> nat \<Rightarrow> nat \<Rightarrow> bool" where
  "ends_at code k e \<longleftrightarrow> directly_in code k e \<and> code ! e = End"

text \<open>The last \<^verbatim>\<open>else\<close> directly in a structure, if it has one.\<close>

definition last_else :: "instr list \<Rightarrow> nat \<Rightarrow> nat option \<Rightarrow> bool" where
  "last_else code k el \<longleftrightarrow>
     (\<forall>x. el = Some x \<longrightarrow> directly_in code k x \<and> is_else (code ! x)) \<and>
     (\<forall>y < length code. directly_in code k y \<and> is_else (code ! y) \<longrightarrow> (\<exists>x. el = Some x \<and> y \<le> x))"

definition displaced :: "instr list \<Rightarrow> nat \<Rightarrow> bool" where
  "displaced code k \<longleftrightarrow> (\<exists>y < length code. directly_in code k y \<and> is_else (code ! y))"

text \<open>
  What the resolution of targets promises: a block and an \<^verbatim>\<open>if\<close> end at their own \<^verbatim>\<open>end\<close>; an \<^verbatim>\<open>if\<close> knows its last \<^verbatim>\<open>else\<close>, and that \<^verbatim>\<open>else\<close> ends where the \<^verbatim>\<open>if\<close>
  ends; any other \<^verbatim>\<open>else\<close> ends at the \<^verbatim>\<open>end\<close> of its structure too, unless a later \<^verbatim>\<open>else\<close> of the same structure has displaced it.
\<close>

definition target_ok :: "instr list \<Rightarrow> nat \<Rightarrow> bool" where
  "target_ok code k =
     (case code ! k of
        Block e _ \<Rightarrow> ends_at code k e
      | If el e _ \<Rightarrow> ends_at code k e \<and> last_else code k el \<and> (case el of None \<Rightarrow> True | Some x \<Rightarrow> code ! x = Else e)
      | Else e \<Rightarrow> ends_at code k e \<or> displaced code k
      | _ \<Rightarrow> True)"

definition code_ok :: "instr list \<Rightarrow> bool" where
  "code_ok code \<longleftrightarrow> (\<forall>k < length code. target_ok code k)"

lemma is_else_iff: "is_else i \<longleftrightarrow> (\<exists>t. i = Else t)"
  by (cases i) auto

lemma opener_kind: "is_opener i \<Longrightarrow> \<not> is_else i \<and> i \<noteq> End"
  by (cases i) auto

lemma level_append: "level (xs @ ys) d = (case level xs d of None \<Rightarrow> None | Some d' \<Rightarrow> level ys d')"
  by (induction xs arbitrary: d) (auto split: nat.split)

lemma level_shift: "level xs d = Some d' \<Longrightarrow> level xs (d + c) = Some (d' + c)"
proof (induction xs arbitrary: d)
  case (Cons i xs)
  show ?case
  proof (cases "is_opener i \<or> i \<noteq> End")
    case True
    then show ?thesis using Cons.prems Cons.IH [of d] Cons.IH [of "Suc d"] by (auto split: if_splits)
  next
    case False
    then obtain d1 where "d = Suc d1" using Cons.prems by (cases d) auto
    with False Cons.prems Cons.IH [of d1] show ?thesis by simp
  qed
qed simp

lemma segment_split:
  assumes "k < y" "y < x" "x \<le> length code"
  shows "segment code k x = segment code k y @ code ! y # segment code y x"
proof -
  have "drop (y - Suc k) (drop (Suc k) code) = code ! y # drop (Suc y) code" using assms by (simp add: Cons_nth_drop_Suc)
  moreover have "x - Suc k = (y - Suc k) + Suc (x - Suc y)" using assms by simp
  ultimately show ?thesis unfolding segment_def by (simp only: take_add take_Suc_Cons)
qed

lemma segment_append: "x \<le> length code \<Longrightarrow> segment (code @ ys) k x = segment code k x"
  by (simp add: segment_def)

lemma segment_snoc: "k < length code \<Longrightarrow> segment (code @ [i]) k (Suc (length code)) = segment code k (length code) @ [i]"
  by (simp add: segment_def)

lemma directly_in_append: "x < length code \<Longrightarrow> directly_in (code @ ys) k x \<longleftrightarrow> directly_in code k x"
  by (auto simp: directly_in_def segment_append)

lemma directly_in_new: "k < length code \<Longrightarrow> directly_in (code @ [i]) k (length code) \<longleftrightarrow> level (segment code k (length code)) 0 = Some 0"
  by (simp add: directly_in_def segment_append)

text \<open>Behind its \<^verbatim>\<open>end\<close> a structure has nothing more.\<close>

lemma after_end:
  assumes "ends_at code k e" "e < x" "x \<le> length code"
  shows "level (segment code k x) 0 = None"
  using assms segment_split [of k e x code] by (simp add: ends_at_def directly_in_def level_append)

text \<open>Positions directly in the same structure lie directly in one another.\<close>

lemma directly_between:
  assumes "directly_in code k y" "\<not> is_opener (code ! y)" "code ! y \<noteq> End" "y < x" "x \<le> length code"
  shows "level (segment code k x) 0 = level (segment code y x) 0"
  using assms segment_split [of k y x code] by (simp add: directly_in_def level_append)

text \<open>The structure a position lies in is unique.\<close>

lemma parent_less:
  assumes "directly_in code k x" "directly_in code o' x" "is_opener (code ! o')" "k < o'"
  shows False
proof -
  have s: "segment code k x = segment code k o' @ code ! o' # segment code o' x" using assms by (intro segment_split) (auto simp: directly_in_def)
  then obtain d where d: "level (segment code k o') 0 = Some d" using assms(1) by (auto simp: directly_in_def level_append split: option.splits)
  have "level (segment code o' x) (0 + Suc d) = Some (0 + Suc d)" using assms(2) by (intro level_shift) (simp add: directly_in_def)
  then show False using assms(1,3) s d by (simp add: directly_in_def level_append)
qed

lemma parent_unique: "directly_in code k x \<Longrightarrow> directly_in code o' x \<Longrightarrow> is_opener (code ! k) \<Longrightarrow> is_opener (code ! o') \<Longrightarrow> k = o'"
  using parent_less [of code k x o'] parent_less [of code o' x k] by (metis nat_neq_iff)

section \<open>Patching\<close>

text \<open>The nesting only depends on which instructions open, end and divide structures.\<close>

definition kind :: "instr \<Rightarrow> bool \<times> bool \<times> bool" where
  "kind i = (is_opener i, i = End, is_else i)"

lemma level_kind: "map kind xs = map kind ys \<Longrightarrow> level xs d = level ys d"
proof (induction xs arbitrary: ys d)
  case (Cons x xs)
  then obtain y ys' where "ys = y # ys'" "kind x = kind y" "map kind xs = map kind ys'" by (cases ys) auto
  moreover from this have "level xs d = level ys' d" for d by (intro Cons.IH)
  moreover have "is_opener x = is_opener y" "(x = End) = (y = End)" using calculation(2) by (simp_all add: kind_def)
  ultimately show ?case by (auto split: nat.split)
qed simp

lemma same_kinds:
  assumes "map kind xs = map kind ys"
  shows "length xs = length ys" "directly_in xs k x = directly_in ys k x" "ends_at xs k x = ends_at ys k x" "last_else xs k el = last_else ys k el" "displaced xs k = displaced ys k"
    "x < length xs \<Longrightarrow> is_opener (xs ! x) = is_opener (ys ! x)" "x < length xs \<Longrightarrow> (xs ! x = End) = (ys ! x = End)" "x < length xs \<Longrightarrow> is_else (xs ! x) = is_else (ys ! x)"
proof -
  show len: "length xs = length ys" using assms by (metis length_map)
  have nth: "kind (xs ! x) = kind (ys ! x)" if "x < length xs" for x using that assms len by (metis nth_map)
  have "map kind (segment xs k x) = map kind (segment ys k x)" for k x unfolding segment_def by (simp only: take_map [symmetric] drop_map [symmetric] assms)
  then have "level (segment xs k x) 0 = level (segment ys k x) 0" for k x by (rule level_kind)
  then have d: "directly_in xs k x = directly_in ys k x" for k x by (simp add: directly_in_def len)
  then show "directly_in xs k x = directly_in ys k x" .
  show "ends_at xs k x = ends_at ys k x" using d nth [of x] by (auto simp: ends_at_def directly_in_def kind_def)
  show "is_opener (xs ! x) = is_opener (ys ! x)" "(xs ! x = End) = (ys ! x = End)" "is_else (xs ! x) = is_else (ys ! x)" if "x < length xs"
    using nth [OF that] by (simp_all add: kind_def)
  show "last_else xs k el = last_else ys k el" unfolding last_else_def d len using nth len by (auto simp: kind_def directly_in_def)
  show "displaced xs k = displaced ys k" unfolding displaced_def d len using nth len by (auto simp: kind_def)
qed

text \<open>The invariant of the decoding loop: the stack lists the open structures from the outside in, each with its last \<^verbatim>\<open>else\<close> so far.\<close>

definition ctrl_ok :: "instr list \<Rightarrow> nat \<times> nat option \<Rightarrow> nat \<Rightarrow> bool" where
  "ctrl_ok code c depth \<longleftrightarrow> fst c < length code \<and> is_opener (code ! fst c) \<and>
     level (segment code (fst c) (length code)) 0 = Some depth \<and> last_else code (fst c) (snd c)"

definition pending :: "(nat \<times> nat option) list \<Rightarrow> nat set" where
  "pending ctrl = fst ` set ctrl \<union> {e. Some e \<in> snd ` set ctrl}"

definition body_inv :: "body_state \<Rightarrow> bool" where
  "body_inv = (\<lambda>(code, ctrl). (\<forall>j < length ctrl. ctrl_ok code (rev ctrl ! j) j) \<and> (\<forall>k < length code. k \<notin> pending ctrl \<longrightarrow> target_ok code k))"

lemma body_inv_top: "body_inv (code, rest @ [c]) \<Longrightarrow> ctrl_ok code c 0"
  by (fastforce simp: body_inv_def)

lemma body_inv_rest: "body_inv (code, rest @ [c]) \<Longrightarrow> j < length rest \<Longrightarrow> ctrl_ok code (rev rest ! j) (Suc j)"
  by (fastforce simp: body_inv_def)

lemma pending_bound:
  assumes "body_inv (code, ctrl)" "k \<in> pending ctrl"
  shows "k < length code"
proof -
  from assms(2) obtain c where c: "c \<in> set ctrl" "k = fst c \<or> snd c = Some k" by (auto simp: pending_def)
  then obtain j where "j < length ctrl" "rev ctrl ! j = c" by (metis in_set_conv_nth length_rev set_rev)
  then have "ctrl_ok code c j" using assms(1) by (auto simp: body_inv_def)
  then show ?thesis using c(2) by (auto simp: ctrl_ok_def last_else_def directly_in_def)
qed

lemma last_else_snoc:
  assumes "last_else code k el" "k < length code" "is_else i \<Longrightarrow> level (segment code k (length code)) 0 \<noteq> Some 0"
  shows "last_else (code @ [i]) k el"
  unfolding last_else_def
proof (intro conjI allI impI)
  show "directly_in (code @ [i]) k x" "is_else ((code @ [i]) ! x)" if "el = Some x" for x
    using that assms(1) directly_in_append [of x code "[i]" k] by (auto simp: last_else_def directly_in_def nth_append)
next
  fix y
  assume "y < length (code @ [i])" and y: "directly_in (code @ [i]) k y \<and> is_else ((code @ [i]) ! y)"
  then have "y < length code" using assms(2,3) directly_in_new [of k code i] by (cases "y = length code") auto
  then show "\<exists>x. el = Some x \<and> y \<le> x" using y assms(1) directly_in_append [of y code "[i]" k] by (auto simp: last_else_def nth_append)
qed

lemma target_snoc:
  assumes "target_ok code k" "k < length code"
  shows "target_ok (code @ [i]) k"
proof -
  have e: "ends_at (code @ [i]) k x" if "ends_at code k x" for x
    using that directly_in_append [of x code "[i]" k] by (auto simp: ends_at_def directly_in_def nth_append)
  have el: "last_else (code @ [i]) k x" if "last_else code k x" "ends_at code k y" for x y
    using last_else_snoc [OF that(1) assms(2)] after_end [OF that(2), of "length code"] that(2) by (auto simp: ends_at_def directly_in_def)
  have d: "displaced (code @ [i]) k" if "displaced code k" using that directly_in_append [of _ code "[i]" k] by (fastforce simp: displaced_def nth_append)
  have x: "x < length code" if "last_else code k (Some x)" for x using that by (simp add: last_else_def directly_in_def)
  show ?thesis using assms e el d x by (auto simp: target_ok_def nth_append split: instr.splits option.splits)
qed

lemma ctrl_ok_snoc:
  assumes "ctrl_ok code c d" "is_else i \<Longrightarrow> d \<noteq> 0" "level [i] d = Some d'"
  shows "ctrl_ok (code @ [i]) c d'"
  using assms last_else_snoc [of code "fst c" "snd c" i] by (auto simp: ctrl_ok_def nth_append segment_snoc level_append)

lemma target_plain: "\<not> is_opener (code ! k) \<Longrightarrow> \<not> is_else (code ! k) \<Longrightarrow> target_ok code k"
  by (cases "code ! k") (simp_all add: target_ok_def)

lemma body_inv_snoc:
  assumes inv: "body_inv (code, ctrl)" and stack: "\<And>j. j < length ctrl' \<Longrightarrow> ctrl_ok (code @ [i]) (rev ctrl' ! j) j"
    and kept: "\<And>k. k \<in> pending ctrl \<Longrightarrow> k < length code \<Longrightarrow> k \<notin> pending ctrl' \<Longrightarrow> target_ok (code @ [i]) k"
    and new: "length code \<notin> pending ctrl' \<Longrightarrow> target_ok (code @ [i]) (length code)"
  shows "body_inv (code @ [i], ctrl')"
proof -
  have "target_ok (code @ [i]) k" if "k < length (code @ [i])" "k \<notin> pending ctrl'" for k
  proof (cases "k = length code \<or> k \<in> pending ctrl")
    case False
    then have "target_ok code k" "k < length code" using inv that by (auto simp: body_inv_def)
    then show ?thesis by (rule target_snoc)
  qed (use that new kept pending_bound [OF inv] in auto)
  then show ?thesis using stack by (simp add: body_inv_def)
qed

lemma place_plain:
  assumes "body_inv (code, ctrl)" "\<not> is_opener i" "\<not> is_else i" "i = End \<Longrightarrow> ctrl = []"
  shows "body_inv (code @ [i], ctrl)"
proof (rule body_inv_snoc [OF assms(1)])
  show "ctrl_ok (code @ [i]) (rev ctrl ! j) j" if "j < length ctrl" for j
    using that assms by (intro ctrl_ok_snoc [of _ _ j]) (auto simp: body_inv_def dest: opener_kind)
qed (use assms in \<open>auto intro: target_plain\<close>)

lemma place_open:
  assumes "body_inv (code, ctrl)" "is_opener i"
  shows "body_inv (code @ [i], ctrl @ [(length code, None)])"
proof (rule body_inv_snoc [OF assms(1)])
  fix j
  assume j: "j < length (ctrl @ [(length code, None)])"
  show "ctrl_ok (code @ [i]) (rev (ctrl @ [(length code, None)]) ! j) j"
  proof (cases j)
    case 0
    then show ?thesis using assms(2) by (simp add: ctrl_ok_def segment_def last_else_def directly_in_def)
  next
    case (Suc n)
    with j assms have "ctrl_ok code (rev ctrl ! n) n" "\<not> is_else i" using opener_kind by (auto simp: body_inv_def)
    from ctrl_ok_snoc [OF this(1), of i j] this(2) show ?thesis using Suc assms(2) by simp
  qed
qed (auto simp: pending_def)

lemma place_else:
  assumes inv: "body_inv (code, rest @ [(opener, el)])"
  shows "body_inv (code @ [Else e], rest @ [(opener, Some (length code))])"
proof (rule body_inv_snoc [OF inv])
  have top: "ctrl_ok code (opener, el) 0" by (rule body_inv_top [OF inv])
  have direct: "directly_in (code @ [Else e]) opener (length code)" using top by (simp add: ctrl_ok_def directly_in_new)
  fix j
  assume j: "j < length (rest @ [(opener, Some (length code))])"
  show "ctrl_ok (code @ [Else e]) (rev (rest @ [(opener, Some (length code))]) ! j) j"
  proof (cases j)
    case 0
    have "last_else (code @ [Else e]) opener (Some (length code))" using direct by (auto simp: last_else_def)
    then show ?thesis using 0 top by (simp add: ctrl_ok_def nth_append segment_snoc level_append)
  next
    case (Suc n)
    from ctrl_ok_snoc [OF body_inv_rest [OF inv, of n], of "Else e" j] j Suc show ?thesis by simp
  qed
next
  fix k
  assume k: "k \<in> pending (rest @ [(opener, el)])" "k < length code" "k \<notin> pending (rest @ [(opener, Some (length code))])"
  then have "el = Some k" by (auto simp: pending_def)
  then have old: "directly_in code opener k" "is_else (code ! k)" and lv: "level (segment code opener (length code)) 0 = Some 0"
    using body_inv_top [OF inv] by (auto simp: ctrl_ok_def last_else_def)
  have "level (segment code k (length code)) 0 = Some 0"
    using directly_between [OF old(1), of "length code"] old(2) lv k(2) by (auto simp: is_else_iff)
  then have "directly_in (code @ [Else e]) k (length code)" using k(2) by (simp add: directly_in_new)
  then have "displaced (code @ [Else e]) k" unfolding displaced_def by (intro exI [of _ "length code"]) simp
  then show "target_ok (code @ [Else e]) k" using old(2) k(2) by (auto simp: target_ok_def is_else_iff nth_append)
qed (auto simp: pending_def)

lemma patch_Ok:
  assumes top: "ctrl_ok instrs (opener, el) 0"
  defines "fin \<equiv> length instrs" and "code \<equiv> instrs @ [End]"
  obtains code' where "patch_block_end code opener el fin = Ok code'" "map kind code' = map kind code"
    "\<And>k. k \<noteq> opener \<Longrightarrow> el \<noteq> Some k \<Longrightarrow> code' ! k = code ! k"
    "\<And>e. el = Some e \<Longrightarrow> code' ! e = Else fin"
    "code' ! opener = (case code ! opener of Block _ arity \<Rightarrow> Block fin arity | If _ _ arity \<Rightarrow> If el fin arity | i \<Rightarrow> i)"
proof -
  define mid where "mid = (case code ! opener of
      Block _ arity \<Rightarrow> code[opener := Block fin arity]
    | If _ _ arity \<Rightarrow> code[opener := If el fin arity]
    | _ \<Rightarrow> code)"
  let ?out = "case el of None \<Rightarrow> mid | Some e \<Rightarrow> mid[e := Else fin]"
  have o: "opener < fin" "is_opener (code ! opener)" and
    e: "\<And>e. el = Some e \<Longrightarrow> opener < e \<and> e < fin \<and> is_else (code ! e)"
    using top by (auto simp: ctrl_ok_def fin_def code_def nth_append last_else_def directly_in_def)
  have fin: "code ! fin = End" "length code = Suc fin" by (simp_all add: fin_def code_def)
  have mid: "length mid = length code" "\<And>k. k \<noteq> opener \<Longrightarrow> mid ! k = code ! k"
    by (auto simp: mid_def split: instr.split)
  have patch: "patch_block_end code opener el fin = (case el of None \<Rightarrow> Ok mid
      | Some e \<Rightarrow> and_then (elem_at mid e) (\<lambda>j. case j of Else _ \<Rightarrow> Ok (mid[e := Else fin]) | _ \<Rightarrow> Ok mid))"
  proof -
    have "elem_at code opener = Ok (code ! opener)" using o fin by simp
    then show ?thesis unfolding patch_block_end_def mid_def Let_def by (simp only: and_then.simps)
  qed
  have "patch_block_end code opener el fin = Ok ?out"
  proof (cases el)
    case (Some x)
    then obtain t where "mid ! x = Else t" using e [of x] mid(2) [of x] by (auto simp: is_else_iff)
    with Some e [of x] fin mid(1) show ?thesis unfolding patch by simp
  qed (unfold patch, simp)
  moreover have len: "length ?out = length code" using mid(1) by (simp split: option.split)
  moreover have other: "?out ! k = code ! k" if "k \<noteq> opener" "el \<noteq> Some k" for k
    using that mid(2) [of k] by (cases el) auto
  moreover have els: "?out ! x = Else fin" if "el = Some x" for x
    using that e [of x] mid(1) fin by simp
  moreover have op: "?out ! opener = (case code ! opener of Block _ arity \<Rightarrow> Block fin arity | If _ _ arity \<Rightarrow> If el fin arity | i \<Rightarrow> i)"
    using o fin e by (auto simp: mid_def split: option.split instr.split)
  moreover have "map kind ?out = map kind code"
  proof (rule nth_equalityI)
    fix k
    assume "k < length (map kind ?out)"
    moreover have "kind (?out ! k) = kind (code ! k)"
    proof (cases "k = opener \<or> el = Some k")
      case True
      then show ?thesis using op o(2) els [of k] e [of k] by (auto simp: kind_def is_else_iff split: instr.splits)
    qed (use other in auto)
    ultimately show "map kind ?out ! k = map kind code ! k" using len by simp
  qed (use len in simp)
  ultimately show thesis using that by blast
qed

lemma target_patched:
  assumes "target_ok code k" "k < length code" "map kind code' = map kind code" "code' ! k = code ! k"
    "\<And>x e t. code ! k = If (Some x) e t \<Longrightarrow> code' ! x = code ! x"
  shows "target_ok code' k"
  using assms(1,4,5) same_kinds(2-5) [OF assms(3)] by (auto simp: target_ok_def split: instr.splits option.splits)

lemma place_End:
  assumes inv: "body_inv (instrs, rest @ [(opener, el)])"
  shows "\<exists>code'. patch_block_end (instrs @ [End]) opener el (length instrs) = Ok code' \<and> body_inv (code', rest)"
proof -
  let ?code = "instrs @ [End]" and ?fin = "length instrs"
  have top: "ctrl_ok instrs (opener, el) 0" by (rule body_inv_top [OF inv])
  from patch_Ok [OF this] obtain code' where c: "patch_block_end ?code opener el ?fin = Ok code'"
    "map kind code' = map kind ?code" "\<And>k. k \<noteq> opener \<Longrightarrow> el \<noteq> Some k \<Longrightarrow> code' ! k = ?code ! k" "\<And>e. el = Some e \<Longrightarrow> code' ! e = Else ?fin"
    "code' ! opener = (case ?code ! opener of Block _ arity \<Rightarrow> Block ?fin arity | If _ _ arity \<Rightarrow> If el ?fin arity | i \<Rightarrow> i)" by blast
  note kinds = same_kinds [OF c(2)]
  have o: "opener < ?fin" "is_opener (instrs ! opener)" "level (segment instrs opener ?fin) 0 = Some 0" "last_else instrs opener el"
    using top by (auto simp: ctrl_ok_def)
  have own: "ends_at code' opener ?fin" "last_else code' opener el"
    using o last_else_snoc [OF o(4), of End] unfolding kinds(3,4) by (auto simp: ends_at_def directly_in_new)
  have els: "ends_at code' x ?fin" if "el = Some x" for x
  proof -
    have "directly_in instrs opener x" "is_else (instrs ! x)" using that o(4) by (auto simp: last_else_def)
    with o(3) directly_between [of instrs opener x ?fin] have "level (segment instrs x ?fin) 0 = Some 0" "x < ?fin" by (auto simp: is_else_iff directly_in_def)
    then show ?thesis unfolding kinds(3) by (simp add: ends_at_def directly_in_new)
  qed
  have "target_ok code' k" if k: "k < length code'" "k \<notin> pending rest" for k
  proof -
    consider "k = opener" | "el = Some k" | "k = ?fin" | "k \<noteq> opener" "el \<noteq> Some k" "k < ?fin" using k(1) kinds(1) by fastforce
    then show ?thesis
    proof cases
      case 1
      then show ?thesis using c(4,5) own o(2) by (auto simp: target_ok_def o(1) nth_append split: instr.splits option.splits)
    next
      case 2
      then show ?thesis using c(4) els by (simp add: target_ok_def)
    next
      case 3
      then have "code' ! k = End" using own(1) by (simp add: ends_at_def)
      then show ?thesis by (simp add: target_ok_def)
    next
      case 4
      then have "target_ok instrs k" using inv k(2) by (auto simp: body_inv_def pending_def)
      then have t: "target_ok ?code k" using 4(3) by (rule target_snoc)
      show ?thesis
      proof (rule target_patched [OF t _ c(2)])
        fix x e t'
        assume "?code ! k = If (Some x) e t'"
        then have x: "directly_in ?code k x" "is_else (?code ! x)" "is_opener (?code ! k)" using t by (auto simp: target_ok_def last_else_def)
        have "x \<noteq> opener" using x(2) opener_kind [OF o(2)] o(1) by (auto simp: nth_append)
        moreover have "el \<noteq> Some x"
        proof
          assume "el = Some x"
          then have "directly_in code' opener x" using own(2) by (simp add: last_else_def)
          then show False using parent_unique [of ?code k x opener] x o(1,2) 4(1) unfolding kinds(2) by (simp add: nth_append)
        qed
        ultimately show "code' ! x = ?code ! x" by (rule c(3))
      qed (use 4 c(3) in simp_all)
    qed
  qed
  moreover have "ctrl_ok code' (rev rest ! j) j" if "j < length rest" for j
  proof -
    have "ctrl_ok ?code (rev rest ! j) j" using body_inv_rest [OF inv that] by (intro ctrl_ok_snoc [of _ _ "Suc j"]) simp_all
    moreover have "map kind (segment code' k (length code')) = map kind (segment ?code k (length code'))" for k
      unfolding segment_def by (simp only: take_map [symmetric] drop_map [symmetric] c(2))
    then have "level (segment code' k (length code')) 0 = level (segment ?code k (length code')) 0" for k by (rule level_kind)
    ultimately show ?thesis using kinds by (simp add: ctrl_ok_def)
  qed
  ultimately show ?thesis using c(1) by (auto simp: body_inv_def)
qed

lemma vec_pop_Some: "vec_pop xs = Some (x, ys) \<longleftrightarrow> xs = ys @ [x]"
  by (cases xs rule: rev_cases) (auto simp: vec_pop_def)

lemma vec_pop_None: "vec_pop xs = None \<longleftrightarrow> xs = []"
  by (simp add: vec_pop_def)

lemma place_inv:
  assumes "body_inv st"
  shows "place i st \<noteq> Panic \<and> (\<forall>st'. place i st = Ok st' \<longrightarrow> body_inv st')"
proof -
  obtain instrs ctrl where st: "st = (instrs, ctrl)" by (cases st)
  show ?thesis
  proof (cases "i = End \<or> is_else i")
    case True
    show ?thesis
    proof (cases "vec_pop ctrl")
      case None
      with True assms place_plain [of instrs ctrl End] show ?thesis
        using vec_pop_None [of ctrl] by (auto simp: st is_else_iff vec_pop_def)
    next
      case (Some c)
      obtain opener el rest where c: "c = ((opener, el), rest)" by (cases c) auto
      with Some have ctrl: "ctrl = rest @ [(opener, el)]" by (simp add: vec_pop_Some)
      from place_End [of instrs rest opener el] place_else [of instrs rest opener el] True Some c assms
      show ?thesis by (auto simp: st ctrl is_else_iff)
    qed
  next
    case False
    with place_plain [of instrs ctrl i] place_open [of instrs ctrl i] assms show ?thesis
      by (cases i) (auto simp: st)
  qed
qed

lemma decode_body_loop_inv:
  assumes "body_inv st" "pos \<le> length buf"
  shows "decode_body_loop st buf pos \<noteq> Panic \<and>
    (\<forall>code pos'. decode_body_loop st buf pos = Ok (code, pos') \<longrightarrow> code_ok code \<and> pos \<le> pos' \<and> pos' \<le> length buf)"
  using assms
proof (induction st buf pos rule: decode_body_loop.induct)
  case (1 st buf pos)
  show ?case
  proof (cases "w_eof buf pos")
    case True
    with "1.prems" show ?thesis
      by (auto simp: decode_body_loop.simps [of st] body_inv_def code_ok_def pending_def split: prod.splits)
  next
    case False
    then have b: "w_byte buf pos = Ok (buf ! pos, pos + 1)" by (simp add: w_byte_Ok w_eof_def)
    have le: "pos + 1 \<le> length buf" using False by (simp add: w_eof_def)
    let ?d = "decode_instr (buf ! pos) buf (pos + 1)"
    have np: "?d \<noteq> Panic" by (rule safe_reader.no_panic [OF decode_instr_safe le])
    show ?thesis
    proof (cases ?d)
      case (Ok y)
      obtain i p where y: "y = (i, p)" by (cases y)
      have p: "pos + 1 \<le> p" "p \<le> length buf" using safe_reader.in_bounds [OF decode_instr_safe le Ok [unfolded y]] by auto
      note pl = place_inv [OF "1.prems"(1), of i]
      show ?thesis
      proof (cases "place i st")
        case st': (Ok st')
        from "1.IH" [OF False b refl Ok y [symmetric] st'] pl st' p
        show ?thesis using False b Ok y by (auto simp: decode_body_loop.simps [of st])
      qed (use pl False b Ok y in \<open>auto simp: decode_body_loop.simps [of st]\<close>)
    qed (use np False b in \<open>auto simp: decode_body_loop.simps [of st]\<close>)
  qed
qed

text \<open>The displaced \<^verbatim>\<open>else\<close> of \<^verbatim>\<open>if else else end\<close> keeps the target 0.\<close>

lemma second_else_accepted: "\<exists>pos. decode_body [0x04, 0x40, 0x05, 0x05, 0x0B] 0 = Ok ([If (Some 2) 3 0, Else 0, Else 3, End], pos)"
  by (simp add: decode_body_def decode_body_loop.simps w_eof_def w_byte_def elem_get_def decode_instr_def blocktype_def map_reader_def patch_block_end_def vec_pop_def)

lemma body_inv_start: "body_inv ([], [])"
  by (simp add: body_inv_def)

lemmas decode_body_inv = decode_body_loop_inv [OF body_inv_start, folded decode_body_def]

lemma decode_body_safe [safe_intros]: "safe_reader decode_body"
proof
  fix pos pos' :: nat and buf :: bytes and code
  assume "pos \<le> length buf"
  note inv = decode_body_inv [OF this]
  show "decode_body buf pos \<noteq> Panic" using inv by (rule conjunct1)
  show "pos \<le> pos' \<and> pos' \<le> length buf" if "decode_body buf pos = Ok (code, pos')" using inv that by blast
qed

lemma decode_body_code_ok: "pos \<le> length buf \<Longrightarrow> decode_body buf pos = Ok (code, pos') \<Longrightarrow> code_ok code"
  using decode_body_inv by blast

lemma decode_locals_loop_safe: "safe_reader (decode_locals_loop n locals)"
proof (induction n arbitrary: locals)
  case (Suc n)
  show ?case unfolding decode_locals_loop.simps [abs_def] by (intro safe_intros Suc.IH)
qed (simp add: decode_locals_loop.simps [abs_def] safe_return)

lemma decode_locals_safe [safe_intros]: "safe_reader decode_locals"
  unfolding decode_locals_def [abs_def] by (rule safe_bind [OF w_count_safe decode_locals_loop_safe])

lemma decode_func_type_safe [safe_intros]: "safe_reader decode_func_type"
  unfolding decode_func_type_def [abs_def] by (intro safe_intros)

lemma decode_type_section_safe: "safe_reader decode_type_section"
  unfolding decode_type_section_def [abs_def] by (rule safe_bind [OF w_count_safe safe_many [OF decode_func_type_safe]])

lemma decode_func_section_safe: "safe_reader decode_func_section"
  unfolding decode_func_section_def [abs_def] by (rule safe_bind [OF w_count_safe safe_many [OF w_u32_safe]])

lemma decode_import_section_safe: "safe_reader decode_import_section"
  unfolding decode_import_section_def [abs_def] by (intro safe_intros)

lemma skip_maximum_safe: "safe_reader (skip_maximum flags)"
  unfolding skip_maximum_def by (intro safe_choice safe_map w_u32_safe safe_return)

lemma decode_memory_loop_safe: "safe_reader (decode_memory_loop n i pages)"
proof (induction n arbitrary: i pages)
  case (Suc n)
  show ?case
    unfolding decode_memory_loop.simps [abs_def]
    by (intro safe_bind w_byte_safe w_u32_safe skip_maximum_safe safe_if safe_err Suc.IH)
qed (simp add: decode_memory_loop.simps [abs_def] safe_return)

lemma decode_memory_section_safe: "safe_reader decode_memory_section"
  unfolding decode_memory_section_def [abs_def] by (rule safe_bind [OF w_count_safe decode_memory_loop_safe])

lemma decode_export_safe [safe_intros]: "safe_reader decode_export"
  unfolding decode_export_def [abs_def] by (intro safe_intros)

lemma decode_export_section_safe: "safe_reader decode_export_section"
  unfolding decode_export_section_def [abs_def] by (rule safe_bind [OF w_count_safe safe_many [OF decode_export_safe]])

text \<open>A body is decoded from its own bytes, so nothing after it is read.\<close>

lemma decode_func_body_safe [safe_intros]: "safe_reader decode_func_body"
proof -
  have "and_then (decode_locals body 0) (\<lambda>(locals, q). and_then (decode_body body q) (\<lambda>(code, _). Ok (locals, code))) \<noteq> Panic" for body
    using safe_reader.no_panic [OF decode_locals_safe, of 0 body] safe_reader.in_bounds [OF decode_locals_safe, of 0 body]
      safe_reader.no_panic [OF decode_body_safe, of _ body]
    by (auto simp: and_then_eq_Panic)
  then have "safe_reader (\<lambda>buf pos. and_then (w_u32 buf pos) (\<lambda>(body_size, p1).
      and_then (w_take (unat body_size) buf p1) (\<lambda>(body, p2).
        and_then (and_then (decode_locals body 0) (\<lambda>(locals, q). and_then (decode_body body q) (\<lambda>(code, _). Ok (locals, code))))
          (\<lambda>x. Ok (x, p2)))))"
    by (intro safe_intros)
  then show ?thesis
    unfolding decode_func_body_def [abs_def] by (simp add: and_then_assoc case_prod_unfold)
qed

lemma decode_code_section_safe: "safe_reader decode_code_section"
  unfolding decode_code_section_def [abs_def] by (rule safe_bind [OF w_count_safe safe_many [OF decode_func_body_safe]])

lemma decode_section_not_Panic: "decode_section sid content m \<noteq> Panic"
  using safe_reader.no_panic [OF decode_type_section_safe, of 0 content]
    safe_reader.no_panic [OF decode_import_section_safe, of 0 content]
    safe_reader.no_panic [OF decode_func_section_safe, of 0 content]
    safe_reader.no_panic [OF decode_memory_section_safe, of 0 content]
    safe_reader.no_panic [OF decode_export_section_safe, of 0 content]
    safe_reader.no_panic [OF decode_code_section_safe, of 0 content]
  by (auto simp: decode_section_def and_then_eq_Panic)

lemma read_many_all:
  "safe_reader rd \<Longrightarrow> (\<And>buf pos x pos'. pos \<le> length buf \<Longrightarrow> rd buf pos = Ok (x, pos') \<Longrightarrow> P x) \<Longrightarrow>
    pos \<le> length buf \<Longrightarrow> read_many rd n buf pos = Ok (xs, pos') \<Longrightarrow> \<forall>x \<in> set xs. P x"
proof (induction n arbitrary: pos xs)
  case (Suc n)
  from Suc.prems(4) obtain x p ys where x: "rd buf pos = Ok (x, p)" "read_many rd n buf p = Ok (ys, pos')" "xs = x # ys"
    by (auto simp: and_then_eq_Ok)
  have "p \<le> length buf" using safe_reader.in_bounds [OF Suc.prems(1,3) x(1)] by simp
  from Suc.IH [OF Suc.prems(1,2) this x(2)] Suc.prems(2) [OF Suc.prems(3) x(1)] x(3) show ?case by simp
qed simp

lemma decode_func_body_code_ok:
  assumes "decode_func_body buf pos = Ok ((locals, code), pos')"
  shows "code_ok code"
proof -
  from assms obtain body q p where q: "decode_locals body 0 = Ok (locals, q)" "decode_body body q = Ok (code, p)"
    by (auto simp: decode_func_body_def and_then_eq_Ok)
  then have "q \<le> length body" using safe_reader.in_bounds [OF decode_locals_safe, of 0 body] by simp
  then show ?thesis using q(2) by (rule decode_body_code_ok)
qed

lemma decode_code_section_code_ok:
  assumes "decode_code_section content 0 = Ok (cs, p)" "(locals, code) \<in> set cs"
  shows "code_ok code"
proof -
  from assms(1) obtain n q where n: "w_count content 0 = Ok (n, q)" "read_many decode_func_body n content q = Ok (cs, p)"
    by (auto simp: decode_code_section_def and_then_eq_Ok)
  have "q \<le> length content" using safe_reader.in_bounds [OF w_count_safe _ n(1)] by simp
  moreover have "code_ok (snd c)" if "decode_func_body buf pos = Ok (c, pos')" for buf pos c pos'
    using that by (cases c) (auto dest: decode_func_body_code_ok)
  ultimately have "\<forall>c \<in> set cs. code_ok (snd c)"
    using read_many_all [OF decode_func_body_safe, of "\<lambda>c. code_ok (snd c)" q content n cs p] n(2) by blast
  with assms(2) show ?thesis by fastforce
qed

definition parts_ok :: "module_parts \<Rightarrow> bool" where
  "parts_ok m \<longleftrightarrow> (\<forall>locals code. (locals, code) \<in> set (mp_codes m) \<longrightarrow> code_ok code) \<and> mp_mem_pages m \<le> MAX_MEMORY_PAGES"

lemma decode_memory_loop_bound:
  "decode_memory_loop n i pages buf pos = Ok (pages', pos') \<Longrightarrow> pages \<le> MAX_MEMORY_PAGES \<Longrightarrow> pages' \<le> MAX_MEMORY_PAGES"
  by (induction n arbitrary: i pages pos) (auto simp: and_then_eq_Ok not_less split: if_splits)

lemma decode_section_ok:
  "decode_section sid content m = Ok m' \<Longrightarrow> parts_ok m \<Longrightarrow> parts_ok m'"
  by (auto simp: decode_section_def and_then_eq_Ok parts_ok_def decode_memory_section_def MAX_MEMORY_PAGES_def
      dest: decode_code_section_code_ok decode_memory_loop_bound [unfolded MAX_MEMORY_PAGES_def] split: if_splits)

lemma decode_sections_inv:
  assumes "parts_ok m" "pos \<le> length buf"
  shows "decode_sections m buf pos \<noteq> Panic \<and> (\<forall>m'. decode_sections m buf pos = Ok m' \<longrightarrow> parts_ok m')"
  using assms
proof (induction m buf pos rule: decode_sections.induct)
  case (1 m buf pos)
  show ?case
  proof (cases "w_eof buf pos")
    case True
    with "1.prems" show ?thesis by (simp add: decode_sections.simps [of m])
  next
    case False
    then have b: "w_byte buf pos = Ok (buf ! pos, pos + 1)" by (simp add: w_byte_Ok w_eof_def)
    have le: "pos + 1 \<le> length buf" using False by (simp add: w_eof_def)
    note np = safe_reader.no_panic [OF w_u32_safe le]
    show ?thesis
    proof (cases "w_u32 buf (pos + 1)")
      case u: (Ok y)
      obtain size p2 where y: "y = (size, p2)" by (cases y)
      have p2: "p2 \<le> length buf" using safe_reader.in_bounds [OF w_u32_safe le u [unfolded y]] by simp
      note nt = safe_reader.no_panic [OF w_take_safe p2, of "unat size"]
      show ?thesis
      proof (cases "w_take (unat size) buf p2")
        case t: (Ok z)
        obtain content p3 where z: "z = (content, p3)" by (cases z)
        have p3: "p3 \<le> length buf" using safe_reader.in_bounds [OF w_take_safe p2 t [unfolded z]] by simp
        show ?thesis
        proof (cases "decode_section (buf ! pos) content m")
          case s: (Ok m')
          from "1.IH" [OF False b refl u y [symmetric] t z [symmetric] s decode_section_ok [OF s "1.prems"(1)] p3]
          show ?thesis using False b u y t z s by (simp add: decode_sections.simps [of m])
        qed (use False b u y t z decode_section_not_Panic in \<open>auto simp: decode_sections.simps [of m]\<close>)
      qed (use nt False b u y in \<open>auto simp: decode_sections.simps [of m]\<close>)
    qed (use np False b in \<open>auto simp: decode_sections.simps [of m]\<close>)
  qed
qed

text \<open>
  C37: A WebAssembly module from an untrusted source is safe to load: decoding any byte string
  terminates without a panic, and a module that loads declares at most 1024 pages of memory and has
  in every function body the block targets of its nesting: a block or \<^verbatim>\<open>if\<close> ends at its own \<^verbatim>\<open>end\<close>, an \<^verbatim>\<open>if\<close> refers
  to its last \<^verbatim>\<open>else\<close>, which ends where the \<^verbatim>\<open>if\<close> ends, and an \<^verbatim>\<open>else\<close> is only left unresolved when a second
  \<^verbatim>\<open>else\<close> of the same structure has displaced it.
\<close>

theorem decode_module_safe:
  "decode_module bytes \<noteq> Panic \<and>
   (\<forall>m. decode_module bytes = Ok m \<longrightarrow>
      (\<forall>f \<in> set (pm_funcs m). code_ok (fd_code f)) \<and> pm_mem_pages m \<le> MAX_MEMORY_PAGES)"
proof -
  let ?m0 = "\<lparr>mp_types = [], mp_func_type_idx = [], mp_mem_pages = 0, mp_exports = [], mp_codes = []\<rparr>"
  have "parts_ok ?m0" by (simp add: parts_ok_def)
  note inv = decode_sections_inv [OF this]
  have take: "w_take n bytes p \<noteq> Panic \<and> (\<forall>x p'. w_take n bytes p = Ok (x, p') \<longrightarrow> p' \<le> length bytes)"
    if "p \<le> length bytes" for n p
    using safe_reader.no_panic [OF w_take_safe that] safe_reader.in_bounds [OF w_take_safe that] by blast
  have "decode_module bytes \<noteq> Panic"
    using take [of 0 4] take [of _ 4] inv
    by (auto simp: decode_module_def and_then_eq_Panic split: if_splits)
  moreover have "code_ok (fd_code f)" "pm_mem_pages m \<le> MAX_MEMORY_PAGES"
    if "decode_module bytes = Ok m" "f \<in> set (pm_funcs m)" for m f
    using that take [of 0 4] take [of _ 4] inv
    by (fastforce simp: decode_module_def and_then_eq_Ok parts_ok_def split: if_splits dest!: set_zip_rightD)+
  moreover have "pm_mem_pages m \<le> MAX_MEMORY_PAGES" if "decode_module bytes = Ok m" for m
    using that take [of 0 4] take [of _ 4] inv
    by (fastforce simp: decode_module_def and_then_eq_Ok parts_ok_def split: if_splits)
  ultimately show ?thesis by blast
qed

text \<open>A module with one function, whose body is \<^verbatim>\<open>if else end\<close>, and one page of memory.\<close>

definition branch_wasm :: bytes where
  "branch_wasm =
     [0, 0x61, 0x73, 0x6D, 1, 0, 0, 0,
      1, 4, 1, 0x60, 0, 0,
      3, 2, 1, 0,
      5, 3, 1, 0, 1,
      10, 8, 1, 6, 0, 0x04, 0x40, 0x05, 0x0B, 0x0B]"

lemma w_u32_single:
  "elem_get buf pos = Some b \<Longrightarrow> b AND 0x80 = 0 \<Longrightarrow> w_u32 buf pos = Ok (ucast (b AND 0x7F), pos + 1)"
  by (simp add: w_u32_def w_byte_def eval_nat_numeral)

lemmas decode_eval =
  w_eof_def w_byte_def w_take_def w_u32_single w_count_def MAX_VEC_LEN_def MAX_MEMORY_PAGES_def elem_get_def slice_get_def
  checked_add_def usize_max_def decode_sections.simps decode_section_def decode_type_section_def decode_func_type_def
  decode_func_section_def decode_memory_section_def skip_maximum_def decode_code_section_def decode_func_body_def
  decode_locals_def decode_body_def decode_body_loop.simps decode_instr_def blocktype_def map_reader_def
  patch_block_end_def vec_pop_def

theorem decode_module_safe_witness:
  "(case decode_module branch_wasm of
      Ok m \<Rightarrow> map fd_code (pm_funcs m) = [[If (Some 1) 2 0, Else 2, End, End]] \<and> code_ok [If (Some 1) 2 0, Else 2, End, End] \<and>
        pm_mem_pages m = 1 \<and> pm_mem_pages m \<le> MAX_MEMORY_PAGES
    | _ \<Rightarrow> False)"
proof -
  have "case decode_module branch_wasm of
      Ok m \<Rightarrow> map fd_code (pm_funcs m) = [[If (Some 1) 2 0, Else 2, End, End]] \<and> pm_mem_pages m = 1 | _ \<Rightarrow> False"
    by (simp add: decode_module_def branch_wasm_def decode_eval)
  with decode_module_safe [of branch_wasm] show ?thesis by (auto split: result.splits)
qed

end
