(* ===== verification/Interp_Exec.thy ===== *)
theory Interp_Exec
  imports Interp_Decode "HOL-Library.Signed_Division"
begin

unbundle bit_operations_syntax

text \<open>
  \<^verbatim>\<open>src/engine/interp.rs\<close>, second half: the stack machine. An \<open>instance\<close> is the linear memory and the
  remaining instruction budget; a \<open>frame\<close> is the state of one activation (program counter, operand
  stack, control stack, locals). \<open>step\<close> is the body of the instruction loop for one instruction,
  \<open>enter\<close> the start of \<^verbatim>\<open>call_func\<close>, and \<open>run\<close> the loop itself with its recursive calls. The budget
  bounds the loop, so \<open>run\<close> is total.
\<close>

section \<open>Operands\<close>

definition pop_i32 :: "wval list \<Rightarrow> (i32 \<times> wval list) result" where
  "pop_i32 stack =
     (case vec_pop stack of
        Some (I32 v, rest) \<Rightarrow> Ok (v, rest)
      | Some (I64 _, _) \<Rightarrow> Err (trap ''type mismatch: expected i32, found i64'')
      | None \<Rightarrow> Err (trap ''operand stack underflow''))"

definition pop_i64 :: "wval list \<Rightarrow> (i64 \<times> wval list) result" where
  "pop_i64 stack =
     (case vec_pop stack of
        Some (I64 v, rest) \<Rightarrow> Ok (v, rest)
      | Some (I32 _, _) \<Rightarrow> Err (trap ''type mismatch: expected i64, found i32'')
      | None \<Rightarrow> Err (trap ''operand stack underflow''))"

definition pop_any :: "string \<Rightarrow> wval list \<Rightarrow> (wval \<times> wval list) result" where
  "pop_any msg stack = ok_or (vec_pop stack) (trap msg)"

section \<open>Memory access\<close>

definition effective_addr :: "i32 \<Rightarrow> u32 \<Rightarrow> nat result" where
  "effective_addr base offset = ok_or (checked_add (unat base) (unat offset)) (trap ''address overflow'')"

definition load_bytes :: "bytes \<Rightarrow> nat \<Rightarrow> nat \<Rightarrow> bytes result" where
  "load_bytes mem addr n =
     and_then (ok_or (checked_add addr n) (trap ''load address overflow'')) (\<lambda>fin.
       ok_or (slice_get mem addr fin) (trap ''load out of bounds''))"

fun load_width :: "load_op \<Rightarrow> nat" where
  "load_width LoadI32 = 4"
| "load_width LoadI64 = 8"
| "load_width LoadI32_8U = 1"
| "load_width LoadI32_8S = 1"
| "load_width LoadI32_16U = 2"
| "load_width LoadI32_16S = 2"

text \<open>\<^verbatim>\<open>from_le_bytes(slice.try_into().unwrap())\<close>: the unwrap panics when the slice does not have the width of the integer.\<close>

definition le_array :: "nat \<Rightarrow> bytes \<Rightarrow> 'a::len word result" where
  "le_array n bs = (if length bs = n then Ok (from_le bs) else Panic)"

fun load_value :: "load_op \<Rightarrow> bytes \<Rightarrow> wval result" where
  "load_value LoadI32 bs = and_then (le_array 4 bs) (\<lambda>v. Ok (I32 v))"
| "load_value LoadI64 bs = and_then (le_array 8 bs) (\<lambda>v. Ok (I64 v))"
| "load_value LoadI32_8U bs = and_then (elem_at bs 0) (\<lambda>b. Ok (I32 (ucast b)))"
| "load_value LoadI32_8S bs = and_then (elem_at bs 0) (\<lambda>b. Ok (I32 (scast b)))"
| "load_value LoadI32_16U bs = and_then (le_array 2 bs) (\<lambda>v. Ok (I32 (ucast (v :: u16))))"
| "load_value LoadI32_16S bs = and_then (le_array 2 bs) (\<lambda>v. Ok (I32 (scast (v :: u16))))"

definition exec_load :: "load_op \<Rightarrow> u32 \<Rightarrow> wval list \<Rightarrow> bytes \<Rightarrow> wval list result" where
  "exec_load op offset stack mem =
     and_then (pop_i32 stack) (\<lambda>(base, stack').
     and_then (effective_addr base offset) (\<lambda>addr.
     and_then (load_bytes mem addr (load_width op)) (\<lambda>bs.
     and_then (load_value op bs) (\<lambda>v.
       Ok (stack' @ [v])))))"

fun store_bytes :: "store_op \<Rightarrow> wval list \<Rightarrow> (bytes \<times> wval list) result" where
  "store_bytes StoreI32 stack = and_then (pop_i32 stack) (\<lambda>(v, s). Ok (to_le 4 v, s))"
| "store_bytes StoreI64 stack = and_then (pop_i64 stack) (\<lambda>(v, s). Ok (to_le 8 v, s))"
| "store_bytes StoreI32_8 stack = and_then (pop_i32 stack) (\<lambda>(v, s). Ok ([ucast v], s))"
| "store_bytes StoreI32_16 stack = and_then (pop_i32 stack) (\<lambda>(v, s). Ok (to_le 2 (ucast v :: u16), s))"

definition exec_store :: "store_op \<Rightarrow> u32 \<Rightarrow> wval list \<Rightarrow> bytes \<Rightarrow> (wval list \<times> bytes) result" where
  "exec_store op offset stack mem =
     and_then (store_bytes op stack) (\<lambda>(bytes, s1).
     and_then (pop_i32 s1) (\<lambda>(base, s2).
     and_then (effective_addr base offset) (\<lambda>addr.
     and_then (ok_or (checked_add addr (length bytes)) (trap ''store address overflow'')) (\<lambda>fin.
       if addr \<le> fin \<and> fin \<le> length mem then Ok (s2, overwrite mem addr bytes)
       else Err (trap ''store out of bounds'')))))"

section \<open>Numeric instructions\<close>

definition bool_val :: "bool \<Rightarrow> wval" where
  "bool_val b = I32 (if b then 1 else 0)"

definition count_zeros_from :: "nat list \<Rightarrow> 'a::len word \<Rightarrow> nat" where
  "count_zeros_from ixs a = length (takeWhile (\<lambda>i. \<not> bit a i) ixs)"

text \<open>
  The division operators of Rust panic on a zero divisor, and \<^verbatim>\<open>/\<close> on signed integers also when the quotient overflows;
  \<^verbatim>\<open>wrapping_rem\<close> gives 0 there.
\<close>

definition signed_div :: "'a::len word \<Rightarrow> 'a word \<Rightarrow> 'a word result" where
  "signed_div a b =
     (if b = 0 \<or> sint a = - (2 ^ (LENGTH('a) - 1)) \<and> b = - 1 then Panic else Ok (word_of_int (sint a sdiv sint b)))"

definition wrapping_rem :: "'a::len word \<Rightarrow> 'a word \<Rightarrow> 'a word result" where
  "wrapping_rem a b = (if b = 0 then Panic else Ok (word_of_int (sint a smod sint b)))"

definition unsigned_div :: "'a::len word \<Rightarrow> 'a word \<Rightarrow> 'a word result" where
  "unsigned_div a b = (if b = 0 then Panic else Ok (a div b))"

definition unsigned_rem :: "'a::len word \<Rightarrow> 'a word \<Rightarrow> 'a word result" where
  "unsigned_rem a b = (if b = 0 then Panic else Ok (a mod b))"

definition exec_i32_binop :: "num_op \<Rightarrow> i32 \<Rightarrow> i32 \<Rightarrow> wval result" where
  "exec_i32_binop op a b =
     (let sh = unat (b AND 31) in
      case op of
        I32Eq \<Rightarrow> Ok (bool_val (a = b))
      | I32Ne \<Rightarrow> Ok (bool_val (a \<noteq> b))
      | I32LtS \<Rightarrow> Ok (bool_val (sint a < sint b))
      | I32LtU \<Rightarrow> Ok (bool_val (a < b))
      | I32GtS \<Rightarrow> Ok (bool_val (sint a > sint b))
      | I32GtU \<Rightarrow> Ok (bool_val (a > b))
      | I32LeS \<Rightarrow> Ok (bool_val (sint a \<le> sint b))
      | I32LeU \<Rightarrow> Ok (bool_val (a \<le> b))
      | I32GeS \<Rightarrow> Ok (bool_val (sint a \<ge> sint b))
      | I32GeU \<Rightarrow> Ok (bool_val (a \<ge> b))
      | I32Add \<Rightarrow> Ok (I32 (a + b))
      | I32Sub \<Rightarrow> Ok (I32 (a - b))
      | I32Mul \<Rightarrow> Ok (I32 (a * b))
      | I32DivS \<Rightarrow>
          (if b = 0 then Err (trap ''i32.div_s by zero'')
           else if a = 0x80000000 \<and> b = - 1 then Err (trap ''i32.div_s overflow'')
           else and_then (signed_div a b) (\<lambda>q. Ok (I32 q)))
      | I32DivU \<Rightarrow> (if b = 0 then Err (trap ''i32.div_u by zero'') else and_then (unsigned_div a b) (\<lambda>q. Ok (I32 q)))
      | I32RemS \<Rightarrow> (if b = 0 then Err (trap ''i32.rem_s by zero'') else and_then (wrapping_rem a b) (\<lambda>r. Ok (I32 r)))
      | I32RemU \<Rightarrow> (if b = 0 then Err (trap ''i32.rem_u by zero'') else and_then (unsigned_rem a b) (\<lambda>r. Ok (I32 r)))
      | I32And \<Rightarrow> Ok (I32 (a AND b))
      | I32Or \<Rightarrow> Ok (I32 (a OR b))
      | I32Xor \<Rightarrow> Ok (I32 (a XOR b))
      | I32Shl \<Rightarrow> Ok (I32 (push_bit sh a))
      | I32ShrS \<Rightarrow> Ok (I32 (signed_drop_bit sh a))
      | I32ShrU \<Rightarrow> Ok (I32 (drop_bit sh a))
      | I32Rotl \<Rightarrow> Ok (I32 (word_rotl sh a))
      | I32Rotr \<Rightarrow> Ok (I32 (word_rotr sh a))
      | _ \<Rightarrow> Err (trap ''internal: non-i32-binop dispatched''))"

definition exec_i64_binop :: "num_op \<Rightarrow> i64 \<Rightarrow> i64 \<Rightarrow> wval result" where
  "exec_i64_binop op a b =
     (let sh = unat (b AND 63) in
      case op of
        I64Eq \<Rightarrow> Ok (bool_val (a = b))
      | I64Ne \<Rightarrow> Ok (bool_val (a \<noteq> b))
      | I64LtS \<Rightarrow> Ok (bool_val (sint a < sint b))
      | I64LtU \<Rightarrow> Ok (bool_val (a < b))
      | I64GtS \<Rightarrow> Ok (bool_val (sint a > sint b))
      | I64GtU \<Rightarrow> Ok (bool_val (a > b))
      | I64LeS \<Rightarrow> Ok (bool_val (sint a \<le> sint b))
      | I64LeU \<Rightarrow> Ok (bool_val (a \<le> b))
      | I64GeS \<Rightarrow> Ok (bool_val (sint a \<ge> sint b))
      | I64GeU \<Rightarrow> Ok (bool_val (a \<ge> b))
      | I64Add \<Rightarrow> Ok (I64 (a + b))
      | I64Sub \<Rightarrow> Ok (I64 (a - b))
      | I64Mul \<Rightarrow> Ok (I64 (a * b))
      | I64DivS \<Rightarrow>
          (if b = 0 then Err (trap ''i64.div_s by zero'')
           else if a = 0x8000000000000000 \<and> b = - 1 then Err (trap ''i64.div_s overflow'')
           else and_then (signed_div a b) (\<lambda>q. Ok (I64 q)))
      | I64DivU \<Rightarrow> (if b = 0 then Err (trap ''i64.div_u by zero'') else and_then (unsigned_div a b) (\<lambda>q. Ok (I64 q)))
      | I64RemS \<Rightarrow> (if b = 0 then Err (trap ''i64.rem_s by zero'') else and_then (wrapping_rem a b) (\<lambda>r. Ok (I64 r)))
      | I64RemU \<Rightarrow> (if b = 0 then Err (trap ''i64.rem_u by zero'') else and_then (unsigned_rem a b) (\<lambda>r. Ok (I64 r)))
      | I64And \<Rightarrow> Ok (I64 (a AND b))
      | I64Or \<Rightarrow> Ok (I64 (a OR b))
      | I64Xor \<Rightarrow> Ok (I64 (a XOR b))
      | I64Shl \<Rightarrow> Ok (I64 (push_bit sh a))
      | I64ShrS \<Rightarrow> Ok (I64 (signed_drop_bit sh a))
      | I64ShrU \<Rightarrow> Ok (I64 (drop_bit sh a))
      | _ \<Rightarrow> Err (trap ''internal: non-i64-binop dispatched''))"

definition i32_binops :: "num_op list" where
  "i32_binops = [I32Eq, I32Ne, I32LtS, I32LtU, I32GtS, I32GtU, I32LeS, I32LeU, I32GeS, I32GeU, I32Add, I32Sub, I32Mul,
     I32DivS, I32DivU, I32RemS, I32RemU, I32And, I32Or, I32Xor, I32Shl, I32ShrS, I32ShrU, I32Rotl, I32Rotr]"

definition exec_num :: "num_op \<Rightarrow> wval list \<Rightarrow> wval list result" where
  "exec_num op stack =
     (case op of
        I32Eqz \<Rightarrow> and_then (pop_i32 stack) (\<lambda>(a, s). Ok (s @ [bool_val (a = 0)]))
      | I32Clz \<Rightarrow> and_then (pop_i32 stack) (\<lambda>(a, s). Ok (s @ [I32 (of_nat (count_zeros_from (rev [0..<32]) a))]))
      | I32Ctz \<Rightarrow> and_then (pop_i32 stack) (\<lambda>(a, s). Ok (s @ [I32 (of_nat (count_zeros_from [0..<32] a))]))
      | I32Popcnt \<Rightarrow> and_then (pop_i32 stack) (\<lambda>(a, s). Ok (s @ [I32 (of_nat (length (filter (bit a) [0..<32])))]))
      | I64Eqz \<Rightarrow> and_then (pop_i64 stack) (\<lambda>(a, s). Ok (s @ [bool_val (a = 0)]))
      | I32WrapI64 \<Rightarrow> and_then (pop_i64 stack) (\<lambda>(a, s). Ok (s @ [I32 (ucast a)]))
      | I64ExtendI32S \<Rightarrow> and_then (pop_i32 stack) (\<lambda>(a, s). Ok (s @ [I64 (scast a)]))
      | I64ExtendI32U \<Rightarrow> and_then (pop_i32 stack) (\<lambda>(a, s). Ok (s @ [I64 (ucast a)]))
      | _ \<Rightarrow>
          (if op \<in> set i32_binops then
             and_then (pop_i32 stack) (\<lambda>(b, s1).
             and_then (pop_i32 s1) (\<lambda>(a, s2).
             and_then (exec_i32_binop op a b) (\<lambda>v. Ok (s2 @ [v]))))
           else
             and_then (pop_i64 stack) (\<lambda>(b, s1).
             and_then (pop_i64 s1) (\<lambda>(a, s2).
             and_then (exec_i64_binop op a b) (\<lambda>v. Ok (s2 @ [v]))))))"

section \<open>Activations\<close>

record ctrl_frame =
  cf_target :: nat
  cf_arity :: nat
  cf_height :: nat

record frame =
  fr_code :: "instr list"
  fr_pc :: nat
  fr_stack :: "wval list"
  fr_ctrl :: "ctrl_frame list"
  fr_locals :: "wval list"

record inst =
  in_mem :: bytes
  in_fuel :: nat

definition checked_sub :: "nat \<Rightarrow> nat \<Rightarrow> nat option" where
  "checked_sub a b = (if b \<le> a then Some (a - b) else None)"

text \<open>\<open>do_branch\<close> returns the new stack, the new control stack and the target.\<close>

definition do_branch :: "wval list \<Rightarrow> ctrl_frame list \<Rightarrow> u32 \<Rightarrow> (wval list \<times> ctrl_frame list \<times> nat) result" where
  "do_branch stack ctrl label =
     and_then (ok_or (checked_add (unat label) 1) (trap ''branch label out of range'')) (\<lambda>depth.
     and_then (ok_or (checked_sub (length ctrl) depth) (trap ''branch label out of range'')) (\<lambda>idx.
     and_then (elem_at ctrl idx) (\<lambda>frame.
     and_then (ok_or (checked_sub (length stack) (cf_arity frame)) (trap ''branch: stack underflow'')) (\<lambda>keep_from.
       Ok (take (cf_height frame) (take keep_from stack) @ drop keep_from stack, take (idx + 1) ctrl, cf_target frame)))))"

datatype outcome =
    Continue frame bytes
  | Finish "wval list"
  | Invoke u32 "wval list" frame

definition advance :: "frame \<Rightarrow> bytes \<Rightarrow> outcome result" where
  "advance fr mem = Ok (Continue (fr\<lparr>fr_pc := fr_pc fr + 1\<rparr>) mem)"

definition branch :: "frame \<Rightarrow> u32 \<Rightarrow> bytes \<Rightarrow> outcome result" where
  "branch fr label mem =
     and_then (do_branch (fr_stack fr) (fr_ctrl fr) label) (\<lambda>(stack, ctrl, target).
       Ok (Continue (fr\<lparr>fr_stack := stack, fr_ctrl := ctrl, fr_pc := target\<rparr>) mem))"

definition callee_type :: "pv_module \<Rightarrow> u32 \<Rightarrow> func_type result" where
  "callee_type m x =
     and_then (ok_or (elem_get (pm_funcs m) (unat x)) (trap ''call to undefined function'')) (\<lambda>f.
       ok_or (elem_get (pm_types m) (unat (fd_type_idx f))) (trap ''callee references unknown type''))"

fun step :: "pv_module \<Rightarrow> instr \<Rightarrow> frame \<Rightarrow> bytes \<Rightarrow> outcome result" where
  "step m Unreachable fr mem = Err (trap ''unreachable executed'')"
| "step m Nop fr mem = advance fr mem"
| "step m (Block fin arity) fr mem =
     advance (fr\<lparr>fr_ctrl := fr_ctrl fr @ [\<lparr>cf_target = fin, cf_arity = arity, cf_height = length (fr_stack fr)\<rparr>]\<rparr>) mem"
| "step m Loop fr mem =
     advance (fr\<lparr>fr_ctrl := fr_ctrl fr @ [\<lparr>cf_target = fr_pc fr + 1, cf_arity = 0, cf_height = length (fr_stack fr)\<rparr>]\<rparr>) mem"
| "step m (If el fin arity) fr mem =
     and_then (pop_i32 (fr_stack fr)) (\<lambda>(cond, stack).
       let fr' = fr\<lparr>fr_stack := stack,
           fr_ctrl := fr_ctrl fr @ [\<lparr>cf_target = fin, cf_arity = arity, cf_height = length stack\<rparr>]\<rparr>
       in if cond = 0 then Ok (Continue (fr'\<lparr>fr_pc := (case el of Some e \<Rightarrow> e + 1 | None \<Rightarrow> fin)\<rparr>) mem)
          else advance fr' mem)"
| "step m (Else fin) fr mem = Ok (Continue (fr\<lparr>fr_pc := fin\<rparr>) mem)"
| "step m End fr mem =
     (if length (fr_ctrl fr) = 1 then
        and_then (elem_at (fr_ctrl fr) 0) (\<lambda>c.
        and_then (ok_or (checked_sub (length (fr_stack fr)) (cf_arity c)) (trap ''missing function results'')) (\<lambda>at.
          Ok (Finish (drop at (fr_stack fr)))))
      else advance (fr\<lparr>fr_ctrl := butlast (fr_ctrl fr)\<rparr>) mem)"
| "step m (Br l) fr mem = branch fr l mem"
| "step m (BrIf l) fr mem =
     and_then (pop_i32 (fr_stack fr)) (\<lambda>(c, stack).
       if c \<noteq> 0 then branch (fr\<lparr>fr_stack := stack\<rparr>) l mem else advance (fr\<lparr>fr_stack := stack\<rparr>) mem)"
| "step m Return fr mem =
     (let n = (of_nat (length (fr_ctrl fr)) :: u32) in if n = 0 then Panic else branch fr (n - 1) mem)"
| "step m (Call x) fr mem =
     and_then (callee_type m x) (\<lambda>callee.
     and_then (ok_or (checked_sub (length (fr_stack fr)) (length (ft_params callee))) (trap ''call: not enough arguments on stack''))
       (\<lambda>at. Ok (Invoke x (drop at (fr_stack fr)) (fr\<lparr>fr_stack := take at (fr_stack fr)\<rparr>))))"
| "step m Drop fr mem = and_then (pop_any ''drop: empty stack'' (fr_stack fr)) (\<lambda>(_, stack). advance (fr\<lparr>fr_stack := stack\<rparr>) mem)"
| "step m Select fr mem =
     and_then (pop_i32 (fr_stack fr)) (\<lambda>(c, s1).
     and_then (pop_any ''select: empty stack'' s1) (\<lambda>(b, s2).
     and_then (pop_any ''select: empty stack'' s2) (\<lambda>(a, s3).
       advance (fr\<lparr>fr_stack := s3 @ [if c \<noteq> 0 then a else b]\<rparr>) mem)))"
| "step m (LocalGet i) fr mem =
     and_then (ok_or (elem_get (fr_locals fr) (unat i)) (trap ''local.get out of range'')) (\<lambda>v.
       advance (fr\<lparr>fr_stack := fr_stack fr @ [v]\<rparr>) mem)"
| "step m (LocalSet i) fr mem =
     and_then (pop_any ''local.set: empty stack'' (fr_stack fr)) (\<lambda>(v, stack).
       if unat i < length (fr_locals fr)
       then advance (fr\<lparr>fr_stack := stack, fr_locals := (fr_locals fr)[unat i := v]\<rparr>) mem
       else Err (trap ''local.set out of range''))"
| "step m (LocalTee i) fr mem =
     and_then (pop_any ''local.tee: empty stack'' (fr_stack fr)) (\<lambda>(v, _).
       if unat i < length (fr_locals fr) then advance (fr\<lparr>fr_locals := (fr_locals fr)[unat i := v]\<rparr>) mem
       else Err (trap ''local.tee out of range''))"
| "step m (I32Const v) fr mem = advance (fr\<lparr>fr_stack := fr_stack fr @ [I32 v]\<rparr>) mem"
| "step m (I64Const v) fr mem = advance (fr\<lparr>fr_stack := fr_stack fr @ [I64 v]\<rparr>) mem"
| "step m (Load op offset) fr mem =
     and_then (exec_load op offset (fr_stack fr) mem) (\<lambda>stack. advance (fr\<lparr>fr_stack := stack\<rparr>) mem)"
| "step m (Store op offset) fr mem =
     and_then (exec_store op offset (fr_stack fr) mem) (\<lambda>(stack, mem'). advance (fr\<lparr>fr_stack := stack\<rparr>) mem')"
| "step m (Num op) fr mem = and_then (exec_num op (fr_stack fr)) (\<lambda>stack. advance (fr\<lparr>fr_stack := stack\<rparr>) mem)"

section \<open>Calls\<close>

definition enter :: "pv_module \<Rightarrow> nat \<Rightarrow> wval list \<Rightarrow> nat \<Rightarrow> frame result" where
  "enter m func_idx args depth =
     (if depth \<ge> MAX_CALL_DEPTH then Err (trap ''call stack exhausted'')
      else
        and_then (ok_or (elem_get (pm_funcs m) func_idx) (trap ''call to undefined function'')) (\<lambda>func.
        and_then (ok_or (elem_get (pm_types m) (unat (fd_type_idx func))) (trap ''function references unknown type'')) (\<lambda>ftype.
          Ok \<lparr>fr_code = fd_code func, fr_pc = 0, fr_stack = [],
              fr_ctrl = [\<lparr>cf_target = length (fd_code func) - 1, cf_arity = length (ft_results ftype), cf_height = 0\<rparr>],
              fr_locals = args @ map wval_zero (fd_locals func)\<rparr>)))"

text \<open>
  The instruction loop. A call runs the callee on the same instance and then continues the caller;
  that the callee never increases the budget is what makes the loop terminate.
\<close>

function (sequential) run :: "pv_module \<Rightarrow> nat \<Rightarrow> frame \<Rightarrow> inst \<Rightarrow> wval list result \<times> inst" where
  "run m depth fr s =
     (if in_fuel s = 0 then (Err (trap ''instruction budget exhausted''), s)
      else let s1 = s\<lparr>in_fuel := in_fuel s - 1\<rparr> in
        (case elem_get (fr_code fr) (fr_pc fr) of
           None \<Rightarrow> (Err (trap ''program counter out of range''), s1)
         | Some i \<Rightarrow>
             (case step m i fr (in_mem s1) of
                Err e \<Rightarrow> (Err e, s1)
              | Panic \<Rightarrow> (Panic, s1)
              | Ok out \<Rightarrow>
                  (case out of
                     Continue fr' mem' \<Rightarrow> run m depth fr' (s1\<lparr>in_mem := mem'\<rparr>)
                   | Finish vs \<Rightarrow> (Ok vs, s1)
                   | Invoke x args fr' \<Rightarrow>
                       (case enter m (unat x) args (depth + 1) of
                          Err e \<Rightarrow> (Err e, s1)
                        | Panic \<Rightarrow> (Panic, s1)
                        | Ok fr0 \<Rightarrow>
                            (case run m (depth + 1) fr0 s1 of
                               (Ok res, s2) \<Rightarrow>
                                 run m depth (fr'\<lparr>fr_stack := fr_stack fr' @ res, fr_pc := fr_pc fr' + 1\<rparr>) s2
                             | (Err e, s2) \<Rightarrow> (Err e, s2)
                             | (Panic, s2) \<Rightarrow> (Panic, s2)))))))"
  by pat_completeness auto

lemma run_fuel_partial:
  assumes "run_dom (m, depth, fr, s)"
  shows "in_fuel (snd (run m depth fr s)) \<le> in_fuel s"
  using assms
proof (induction rule: run.pinduct)
  case (1 m depth fr s)
  show ?case
    using 1(2-4) unfolding run.psimps [OF 1(1)]
    by (fastforce simp: Let_def split: option.splits result.splits outcome.splits prod.splits)
qed

termination run
proof (relation "measure (\<lambda>(m, depth, fr, s). in_fuel s)", goal_cases)
  case (4 m depth fr s s1 i out x args fr' fr0 res s2 r)
  then have "in_fuel s2 \<le> in_fuel s1"
    using run_fuel_partial [of m "depth + 1" fr0 s1] by (metis snd_conv)
  with 4 show ?case by auto
qed auto

declare run.simps [simp del]

definition call_func :: "pv_module \<Rightarrow> nat \<Rightarrow> wval list \<Rightarrow> nat \<Rightarrow> inst \<Rightarrow> wval list result \<times> inst" where
  "call_func m func_idx args depth s =
     (case enter m func_idx args depth of
        Err e \<Rightarrow> (Err e, s)
      | Panic \<Rightarrow> (Panic, s)
      | Ok fr \<Rightarrow> run m depth fr s)"

section \<open>The host interface\<close>

definition func_index :: "pv_module \<Rightarrow> bytes \<Rightarrow> nat result" where
  "func_index m name = ok_or (map_option unat (pm_export_by_name m name)) (trap ''no exported function `{name}`'')"

definition instantiate :: "pv_module \<Rightarrow> inst" where
  "instantiate m = \<lparr>in_mem = replicate (unat (pm_mem_pages m) * PAGE_BYTES) 0, in_fuel = MAX_INSTRUCTIONS\<rparr>"

definition write_mem :: "nat \<Rightarrow> bytes \<Rightarrow> inst \<Rightarrow> inst result" where
  "write_mem offset data s =
     and_then (ok_or (checked_add offset (length data)) (trap ''memory write overflow'')) (\<lambda>fin.
       if fin \<le> length (in_mem s) then Ok (s\<lparr>in_mem := overwrite (in_mem s) offset data\<rparr>)
       else Err (trap ''memory write out of bounds''))"

fun wval_to_i32 :: "wval \<Rightarrow> i32" where
  "wval_to_i32 (I32 v) = v"
| "wval_to_i32 (I64 v) = ucast v"

definition invoke_i32 :: "pv_module \<Rightarrow> bytes \<Rightarrow> i32 list \<Rightarrow> i32 list result" where
  "invoke_i32 m func args =
     and_then (func_index m func) (\<lambda>idx.
     and_then (fst (call_func m idx (map I32 args) 0 (instantiate m))) (\<lambda>out. Ok (map wval_to_i32 out)))"

definition export_count :: "pv_module \<Rightarrow> nat" where
  "export_count m = length (pm_exports m)"

text \<open>What both entry points of the \<^verbatim>\<open>WasmExec\<close> interface start with: the input at address 0 of a fresh instance, and the
  function called with \<^verbatim>\<open>(ptr, len)\<close>.\<close>

definition call_on_input :: "pv_module \<Rightarrow> bytes \<Rightarrow> bytes \<Rightarrow> (wval list \<times> inst) result" where
  "call_on_input m func input =
     and_then (func_index m func) (\<lambda>idx.
     and_then (write_mem 0 input (instantiate m)) (\<lambda>s0.
       case call_func m idx [I32 0, I32 (of_nat (length input))] 0 s0 of
         (Ok out, s1) \<Rightarrow> Ok (out, s1)
       | (Err e, _) \<Rightarrow> Err e
       | (Panic, _) \<Rightarrow> Panic))"

definition call_scalar :: "pv_module \<Rightarrow> bytes \<Rightarrow> bytes \<Rightarrow> i32 result" where
  "call_scalar m func input =
     and_then (call_on_input m func input) (\<lambda>(out, _).
       case out of
         I32 v # _ \<Rightarrow> Ok v
       | _ \<Rightarrow> Err (trap ''expected an i32 result''))"

definition apply_in_place :: "pv_module \<Rightarrow> bytes \<Rightarrow> bytes \<Rightarrow> bytes result" where
  "apply_in_place m func input =
     and_then (call_on_input m func input) (\<lambda>(out, s1).
     and_then
       (case out of
          I32 v # _ \<Rightarrow>
            (if sint v < 0 then Err (trap ''guest returned a negative output length'') else Ok (nat (sint v)))
        | _ \<Rightarrow> Err (trap ''expected an i32 length result'')) (\<lambda>out_len.
       if out_len > MAX_OUTPUT_BYTES
       then Err (trap ''guest output length exceeds the {MAX_OUTPUT_BYTES}-byte limit'')
       else ok_or (slice_get (in_mem s1) 0 out_len) (trap ''result length exceeds linear memory'')))"

section \<open>No instruction panics\<close>

definition step_ok :: "frame \<Rightarrow> bytes \<Rightarrow> outcome result \<Rightarrow> bool" where
  "step_ok fr mem r =
     (case r of
        Panic \<Rightarrow> False
      | Err _ \<Rightarrow> True
      | Ok (Continue fr' mem') \<Rightarrow>
          fr_ctrl fr' \<noteq> [] \<and> length (fr_ctrl fr') \<le> Suc (length (fr_ctrl fr)) \<and> length mem' = length mem
      | Ok (Finish _) \<Rightarrow> True
      | Ok (Invoke _ _ fr') \<Rightarrow> fr_ctrl fr' = fr_ctrl fr)"

lemma step_ok_Err [simp]: "step_ok fr mem (Err e)"
  by (simp add: step_ok_def)

lemma step_ok_bind:
  "r \<noteq> Panic \<Longrightarrow> (\<And>x. r = Ok x \<Longrightarrow> step_ok fr mem (f x)) \<Longrightarrow> step_ok fr mem (and_then r f)"
  by (cases r) simp_all

lemma step_ok_advance:
  "fr_ctrl fr' \<noteq> [] \<Longrightarrow> length (fr_ctrl fr') \<le> Suc (length (fr_ctrl fr)) \<Longrightarrow> length mem' = length mem \<Longrightarrow>
   step_ok fr mem (advance fr' mem')"
  by (simp add: step_ok_def advance_def)

lemma pop_no_panic [simp]: "pop_i32 st \<noteq> Panic" "pop_i64 st \<noteq> Panic" "pop_any msg st \<noteq> Panic"
  by (auto simp: pop_i32_def pop_i64_def pop_any_def split: option.split wval.split)

lemma do_branch_safe:
  "do_branch st ctrl l \<noteq> Panic"
  by (auto simp: do_branch_def and_then_eq_Panic checked_add_def checked_sub_def split: if_splits)

lemma do_branch_ctrl:
  "do_branch st ctrl l = Ok (st', ctrl', t) \<Longrightarrow> ctrl' \<noteq> [] \<and> length ctrl' \<le> length ctrl"
  by (auto simp: do_branch_def and_then_eq_Ok checked_add_def checked_sub_def split: if_splits)

lemma step_ok_branch:
  "fr_ctrl fr' = fr_ctrl fr \<Longrightarrow> step_ok fr mem (branch fr' l mem)"
  unfolding branch_def
  by (rule step_ok_bind) (auto simp: do_branch_safe step_ok_def dest: do_branch_ctrl)

lemma load_bytes_length: "load_bytes mem addr n = Ok bs \<Longrightarrow> length bs = n"
  by (auto simp: load_bytes_def and_then_eq_Ok checked_add_def dest: slice_get_length split: if_splits)

lemma load_value_safe: "length bs = load_width op \<Longrightarrow> load_value op bs \<noteq> Panic"
  by (cases op) (simp_all add: le_array_def and_then_eq_Panic)

lemma exec_load_safe: "exec_load op off st mem \<noteq> Panic"
  by (auto simp: exec_load_def effective_addr_def and_then_eq_Panic load_value_safe load_bytes_length)
    (auto simp: load_bytes_def and_then_eq_Panic)

lemma store_bytes_safe [simp]: "store_bytes op st \<noteq> Panic"
  by (cases op) (auto simp: and_then_eq_Panic)

lemma exec_store_safe: "exec_store op off st mem \<noteq> Panic"
  by (auto simp: exec_store_def effective_addr_def and_then_eq_Panic)

lemma exec_store_length: "exec_store op off st mem = Ok (st', mem') \<Longrightarrow> length mem' = length mem"
  by (auto simp: exec_store_def and_then_eq_Ok checked_add_def split: if_splits)

text \<open>The guards cover every case in which a division would panic.\<close>

lemma min_values: "sint (a :: i32) = - 2147483648 \<longleftrightarrow> a = 0x80000000" "sint (b :: i64) = - 9223372036854775808 \<longleftrightarrow> b = 0x8000000000000000"
proof -
  have "sint (0x80000000 :: i32) = - 2147483648" "sint (0x8000000000000000 :: i64) = - 9223372036854775808" by simp_all
  then show "sint a = - 2147483648 \<longleftrightarrow> a = 0x80000000" "sint b = - 9223372036854775808 \<longleftrightarrow> b = 0x8000000000000000" by (metis signed_word_eqI)+
qed

lemma binop_safe [simp]: "exec_i32_binop op a b \<noteq> Panic" "exec_i64_binop op c d \<noteq> Panic"
  by (cases op; simp add: exec_i32_binop_def exec_i64_binop_def Let_def signed_div_def wrapping_rem_def unsigned_div_def unsigned_rem_def min_values)+

lemma exec_num_safe: "exec_num op st \<noteq> Panic"
  by (cases op; auto simp: exec_num_def and_then_eq_Panic)

lemma callee_type_safe: "callee_type m x \<noteq> Panic"
  by (auto simp: callee_type_def and_then_eq_Panic)

lemma step_step_ok:
  assumes "fr_ctrl fr \<noteq> []" "length (fr_ctrl fr) < 2 ^ 32"
  shows "step_ok fr mem (step m i fr mem)"
proof (cases i)
  case End
  then show ?thesis
    using assms(1) by (cases "fr_ctrl fr" rule: rev_cases) (auto intro!: step_ok_bind step_ok_advance simp: step_ok_def [of _ _ "Ok _"])
next
  case Return
  have "unat (of_nat (length (fr_ctrl fr)) :: u32) = length (fr_ctrl fr)"
    using assms(2) by (simp add: unat_of_nat take_bit_nat_eq_self)
  with assms(1) have "(of_nat (length (fr_ctrl fr)) :: u32) \<noteq> 0" by (metis length_0_conv unat_0)
  with Return show ?thesis by (simp add: Let_def step_ok_branch)
qed (use assms in \<open>auto intro!: step_ok_bind step_ok_advance step_ok_branch
      simp: Let_def exec_load_safe exec_store_safe exec_num_safe callee_type_safe exec_store_length step_ok_def [of _ _ "Ok _"]
      split: option.split\<close>)

text \<open>
  The loop keeps the control stack non-empty. Each instruction pushes at most one control frame and
  costs one unit of the budget, so the stack's length stays below \<open>2\<^sup>32\<close> and its \<^verbatim>\<open>u32\<close> length is exact.
\<close>

definition run_pre :: "frame \<Rightarrow> inst \<Rightarrow> bool" where
  "run_pre fr s \<longleftrightarrow> fr_ctrl fr \<noteq> [] \<and> length (fr_ctrl fr) + in_fuel s \<le> 2 ^ 32"

definition run_post :: "inst \<Rightarrow> wval list result \<times> inst \<Rightarrow> bool" where
  "run_post s r \<longleftrightarrow> fst r \<noteq> Panic \<and> in_fuel (snd r) \<le> in_fuel s \<and> length (in_mem (snd r)) = length (in_mem s)"

lemma run_post_stop: "r \<noteq> Panic \<Longrightarrow> run_post s (r, s\<lparr>in_fuel := in_fuel s - 1\<rparr>)"
  by (simp add: run_post_def)

lemma enter_Ok: "enter m x args d = Ok fr \<Longrightarrow> length (fr_ctrl fr) = 1"
  by (auto simp: enter_def and_then_eq_Ok split: if_splits)

lemma enter_no_panic: "enter m x args d \<noteq> Panic"
  by (auto simp: enter_def and_then_eq_Panic)

lemma run_safe: "run_pre fr s \<Longrightarrow> run_post s (run m depth fr s)"
proof (induction m depth fr s rule: run.induct)
  case (1 m depth fr s)
  let ?s1 = "s\<lparr>in_fuel := in_fuel s - 1\<rparr>"
  show ?case
  proof (cases "in_fuel s = 0 \<or> elem_get (fr_code fr) (fr_pc fr) = None")
    case True
    then show ?thesis by (auto simp: run.simps [of m depth fr s] run_post_def)
  next
    case False
    then obtain i where i: "elem_get (fr_code fr) (fr_pc fr) = Some i" and f: "in_fuel s \<noteq> 0" by auto
    from "1.prems" f have ok: "step_ok fr (in_mem ?s1) (step m i fr (in_mem ?s1))"
      by (intro step_step_ok) (auto simp: run_pre_def)
    note eq = run.simps [of m depth fr s]
    show ?thesis
    proof (cases "step m i fr (in_mem ?s1)")
      case (Ok out)
      note st = Ok
      show ?thesis
      proof (cases out)
        case (Continue fr' mem')
        with ok st f "1.prems" have "run_pre fr' (?s1\<lparr>in_mem := mem'\<rparr>)" and l: "length mem' = length (in_mem s)"
          by (auto simp: step_ok_def run_pre_def)
        from "1.IH"(1) [OF f refl i st Continue this(1)] l show ?thesis
          using f i st Continue by (auto simp: eq run_post_def)
      next
        case (Finish vs)
        then show ?thesis using f i st by (simp add: eq run_post_def)
      next
        case (Invoke x args fr')
        with ok st have c: "fr_ctrl fr' = fr_ctrl fr" by (simp add: step_ok_def)
        show ?thesis
        proof (cases "enter m (unat x) args (depth + 1)")
          case en: (Ok fr0)
          from "1.prems" f enter_Ok [OF en] have "run_pre fr0 ?s1" by (cases "fr_ctrl fr") (auto simp: run_pre_def)
          note callee = "1.IH"(2) [OF f refl i st Invoke en this]
          show ?thesis
          proof (cases "run m (depth + 1) fr0 ?s1")
            case (Pair r s2)
            show ?thesis
            proof (cases r)
              case r: (Ok res)
              let ?fr = "fr'\<lparr>fr_stack := fr_stack fr' @ res, fr_pc := fr_pc fr' + 1\<rparr>"
              from callee Pair r c "1.prems" f have "run_pre ?fr s2" by (auto simp: run_pre_def run_post_def)
              from "1.IH"(3) [OF f refl i st Invoke en _ _ this] Pair r
              have "run_post s2 (run m depth ?fr s2)" by simp
              with callee Pair r f i st Invoke en show ?thesis by (auto simp: eq run_post_def)
            qed (use callee Pair f i st Invoke en in \<open>auto simp: eq run_post_def\<close>)
          qed
        qed (use f i st Invoke enter_no_panic in \<open>auto simp: eq run_post_def\<close>)
      qed
    qed (use ok f i in \<open>auto simp: eq run_post_def step_ok_def\<close>)
  qed
qed

lemma call_func_safe:
  assumes "in_fuel s < 2 ^ 32"
  shows "run_post s (call_func m x args d s)"
proof (cases "enter m x args d")
  case (Ok fr)
  with enter_Ok [OF Ok] assms have "run_pre fr s" by (auto simp: run_pre_def)
  then show ?thesis using Ok by (simp add: call_func_def run_safe)
qed (auto simp: call_func_def enter_no_panic run_post_def)

lemma write_mem_safe: "write_mem off data s \<noteq> Panic"
  by (auto simp: write_mem_def and_then_eq_Panic)

lemma write_mem_Ok:
  "write_mem off data s = Ok s' \<Longrightarrow> in_fuel s' = in_fuel s \<and> length (in_mem s') = length (in_mem s)"
  by (auto simp: write_mem_def and_then_eq_Ok checked_add_def split: if_splits)

lemma instantiate_fuel: "in_fuel (instantiate m) < 2 ^ 32"
  by (simp add: instantiate_def MAX_INSTRUCTIONS_def)

lemma call_on_input_safe:
  "call_on_input m func input \<noteq> Panic \<and>
   (\<forall>out s. call_on_input m func input = Ok (out, s) \<longrightarrow> length (in_mem s) = unat (pm_mem_pages m) * PAGE_BYTES)"
proof (cases "func_index m func")
  case (Ok idx)
  note idx = Ok
  show ?thesis
  proof (cases "write_mem 0 input (instantiate m)")
    case (Ok s0)
    from write_mem_Ok [OF Ok] instantiate_fuel [of m]
    have "in_fuel s0 < 2 ^ 32" and len: "length (in_mem s0) = unat (pm_mem_pages m) * PAGE_BYTES"
      by (simp_all add: instantiate_def)
    then have "run_post s0 (call_func m idx [I32 0, I32 (of_nat (length input))] 0 s0)" by (intro call_func_safe)
    with idx Ok len show ?thesis
      by (auto simp: call_on_input_def run_post_def split: prod.splits result.splits)
  qed (simp_all add: call_on_input_def idx write_mem_safe)
qed (simp_all add: call_on_input_def func_index_def)

text \<open>
  C35: A guest function cannot bring the host down. Whatever the module, the function name and the
  input, the three entry points of the interpreter return a value or an error and never panic, and
  the bytes a guest hands back fit both the output limit and the memory the module declared.
\<close>

theorem guest_call_safe:
  "invoke_i32 m func args \<noteq> Panic \<and> call_scalar m func input \<noteq> Panic \<and> apply_in_place m func input \<noteq> Panic \<and>
   (\<forall>out. apply_in_place m func input = Ok out \<longrightarrow>
      length out \<le> MAX_OUTPUT_BYTES \<and> length out \<le> unat (pm_mem_pages m) * PAGE_BYTES)"
proof (intro conjI allI impI)
  show "invoke_i32 m func args \<noteq> Panic"
    using call_func_safe [OF instantiate_fuel] by (auto simp: invoke_i32_def and_then_eq_Panic func_index_def run_post_def)
  show "call_scalar m func input \<noteq> Panic"
    using call_on_input_safe by (auto simp: call_scalar_def and_then_eq_Panic split: list.splits wval.splits)
  show "apply_in_place m func input \<noteq> Panic"
    using call_on_input_safe by (auto simp: apply_in_place_def and_then_eq_Panic split: list.splits wval.splits if_splits)
next
  fix out
  assume "apply_in_place m func input = Ok out"
  then obtain res s n where "call_on_input m func input = Ok (res, s)" "slice_get (in_mem s) 0 n = Some out" "n \<le> MAX_OUTPUT_BYTES"
    by (auto simp: apply_in_place_def and_then_eq_Ok not_less split: if_splits)
  then show "length out \<le> MAX_OUTPUT_BYTES" "length out \<le> unat (pm_mem_pages m) * PAGE_BYTES"
    using call_on_input_safe [of m func input] slice_get_length slice_get_bound by fastforce+
qed

text \<open>A module without memory whose exported function \<^verbatim>\<open>f\<close> returns the length 0.\<close>

definition answer_module :: pv_module where
  "answer_module =
     \<lparr>pm_types = [\<lparr>ft_params = [TI32, TI32], ft_results = [TI32]\<rparr>],
      pm_funcs = [\<lparr>fd_type_idx = 0, fd_locals = [], fd_code = [I32Const 0, End]\<rparr>],
      pm_exports = [\<lparr>ex_name = [102], ex_kind = 0, ex_index = 0\<rparr>], pm_mem_pages = 0,
      pm_export_by_name = export_map [\<lparr>ex_name = [102], ex_kind = 0, ex_index = 0\<rparr>]\<rparr>"

theorem guest_call_safe_witness:
  "apply_in_place answer_module [102] [] = Ok [] \<and> length ([] :: bytes) \<le> MAX_OUTPUT_BYTES"
proof -
  have "apply_in_place answer_module [102] [] = Ok []"
    by (simp add: apply_in_place_def call_on_input_def func_index_def answer_module_def export_map_def write_mem_def
        instantiate_def checked_add_def call_func_def enter_def run.simps elem_get_def advance_def checked_sub_def
        MAX_INSTRUCTIONS_def MAX_CALL_DEPTH_def MAX_OUTPUT_BYTES_def overwrite_def)
  with guest_call_safe [of answer_module "[102]" "[]" "[]"] show ?thesis by blast
qed

section \<open>Metering\<close>

text \<open>
  The reference for the limits is the machine that has none: \<open>mstep\<close> executes one instruction of the innermost activation of a stack of
  activations, by the same \<open>step\<close> and \<open>enter\<close>, with neither an instruction budget nor a bound on the depth of calls.
\<close>

datatype machine = Running "frame list" bytes | Halted "wval list result" bytes

definition resume :: "wval list \<Rightarrow> frame \<Rightarrow> frame" where
  "resume res fr = fr\<lparr>fr_stack := fr_stack fr @ res, fr_pc := fr_pc fr + 1\<rparr>"

fun returned :: "wval list \<Rightarrow> frame list \<Rightarrow> bytes \<Rightarrow> machine" where
  "returned vs [] mem = Halted (Ok vs) mem"
| "returned vs (fr # frs) mem = Running (resume vs fr # frs) mem"

fun mstep :: "pv_module \<Rightarrow> machine \<Rightarrow> machine" where
  "mstep m (Running (fr # frs) mem) =
     (case elem_get (fr_code fr) (fr_pc fr) of
        None \<Rightarrow> Halted (Err (trap ''program counter out of range'')) mem
      | Some i \<Rightarrow>
          (case step m i fr mem of
             Err e \<Rightarrow> Halted (Err e) mem
           | Panic \<Rightarrow> Halted Panic mem
           | Ok (Continue fr' mem') \<Rightarrow> Running (fr' # frs) mem'
           | Ok (Finish vs) \<Rightarrow> returned vs frs mem
           | Ok (Invoke x args fr') \<Rightarrow>
               (case enter m (unat x) args 0 of
                  Err e \<Rightarrow> Halted (Err e) mem
                | Panic \<Rightarrow> Halted Panic mem
                | Ok fr0 \<Rightarrow> Running (fr0 # fr' # frs) mem)))"
| "mstep m s = s"

abbreviation msteps :: "pv_module \<Rightarrow> nat \<Rightarrow> machine \<Rightarrow> machine" where
  "msteps m n \<equiv> mstep m ^^ n"

lemma msteps_Suc: "msteps m (Suc n) s = msteps m n (mstep m s)"
  by (simp add: funpow_swap1)

lemma msteps_add: "msteps m (a + b) s = msteps m b (msteps m a s)"
  by (simp add: add.commute [of a b] funpow_add)

lemma msteps_Halted [simp]: "msteps m n (Halted r mem) = Halted r mem"
  by (induction n) simp_all

lemma Halted_later: "msteps m n s = Halted r mem \<Longrightarrow> n \<le> k \<Longrightarrow> msteps m k s = Halted r mem"
  using msteps_add [of n "k - n" m s] by simp

definition budget_trap :: pv_error where
  "budget_trap = trap ''instruction budget exhausted''"

definition depth_trap :: pv_error where
  "depth_trap = trap ''call stack exhausted''"

text \<open>
  What a metered execution with a budget of \<open>fuel\<close>, entered at depth \<open>d\<close> above the activations \<open>frs\<close>, has to do with the free machine: it runs out of
  budget while the machine still runs; or a call would have made the stack of activations too deep; or it ends as the machine does, having paid one
  unit for each instruction.
\<close>

inductive meters :: "pv_module \<Rightarrow> nat \<Rightarrow> frame list \<Rightarrow> machine \<Rightarrow> nat \<Rightarrow> wval list result \<times> inst \<Rightarrow> bool" for m where
  out_of_budget: "msteps m fuel start = Running fs (in_mem s') \<Longrightarrow> in_fuel s' = 0 \<Longrightarrow> meters m d frs start fuel (Err budget_trap, s')"
| too_deep: "n \<le> fuel \<Longrightarrow> msteps m n start = Running fs mem \<Longrightarrow> length fs + d = length frs + MAX_CALL_DEPTH + 1 \<Longrightarrow>
    meters m d frs start fuel (Err depth_trap, s')"
| returns: "msteps m n start = returned vs frs (in_mem s') \<Longrightarrow> fuel = n + in_fuel s' \<Longrightarrow> meters m d frs start fuel (Ok vs, s')"
| fails: "msteps m n start = Halted r (in_mem s') \<Longrightarrow> (\<And>vs. r \<noteq> Ok vs) \<Longrightarrow> fuel = n + in_fuel s' \<Longrightarrow> meters m d frs start fuel (r, s')"

lemma meters_later:
  assumes "meters m d frs mid fuel out" "msteps m k start = mid"
  shows "meters m d frs start (k + fuel) out"
  using assms
proof (induction rule: meters.induct)
  case (too_deep n fuel mid fs mem d frs s')
  then show ?case by (intro meters.too_deep [where n = "k + n"]) (simp_all add: msteps_add)
next
  case (returns n mid vs frs s' fuel d)
  then show ?case by (intro meters.returns [where n = "k + n"]) (simp_all add: msteps_add)
next
  case (fails n mid r s' fuel d frs)
  then show ?case by (intro meters.fails [where n = "k + n"]) (simp_all add: msteps_add)
qed (auto simp: msteps_add intro: meters.out_of_budget)

lemma meters_caller:
  assumes "meters m (Suc d) (fr # frs) start fuel (r, s')" "\<And>vs. r \<noteq> Ok vs"
  shows "meters m d frs start fuel (r, s')"
  using assms by (cases rule: meters.cases) (auto intro: meters.intros)

lemma enter_depth:
  assumes "step m i fr mem = Ok (Invoke x args fr')"
  shows "\<exists>fr0. enter m (unat x) args 0 = Ok fr0 \<and> enter m (unat x) args d = (if d \<ge> MAX_CALL_DEPTH then Err depth_trap else Ok fr0)"
proof (cases i)
  case (Call y)
  with assms have "x = y" "\<exists>t. callee_type m x = Ok t" by (auto simp: and_then_eq_Ok)
  then show ?thesis by (auto simp: callee_type_def and_then_eq_Ok enter_def MAX_CALL_DEPTH_def depth_trap_def)
qed (use assms in \<open>auto simp: and_then_eq_Ok advance_def branch_def Let_def split: if_splits\<close>)

lemma run_meters: "d < MAX_CALL_DEPTH \<Longrightarrow> meters m d frs (Running (fr # frs) (in_mem s)) (in_fuel s) (run m d fr s)"
proof (induction m d fr s arbitrary: frs rule: run.induct)
  case (1 m d fr s)
  let ?start = "Running (fr # frs) (in_mem s)"
  note eq = run.simps [of m d fr s]
  show ?case
  proof (cases "in_fuel s")
    case 0
    then show ?thesis by (auto simp: eq simp flip: budget_trap_def intro: meters.out_of_budget)
  next
    case (Suc k)
    let ?s1 = "s\<lparr>in_fuel := in_fuel s - 1\<rparr>"
    have f: "in_fuel s \<noteq> 0" using Suc by simp
    have stop: "meters m d frs ?start (in_fuel s) (r, ?s1)" if "mstep m ?start = Halted r (in_mem s)" "\<And>vs. r \<noteq> Ok vs" for r
      by (rule meters.fails [where n = 1]) (use that Suc in \<open>simp_all del: mstep.simps\<close>)
    show ?thesis
    proof (cases "elem_get (fr_code fr) (fr_pc fr)")
      case None
      then show ?thesis using stop Suc by (simp add: eq)
    next
      case i: (Some i)
      show ?thesis
      proof (cases "step m i fr (in_mem ?s1)")
        case st: (Ok out)
        show ?thesis
        proof (cases out)
          case (Continue fr' mem')
          from "1.IH"(1) [OF f refl i st Continue "1.prems", of frs]
          have "meters m d frs (Running (fr' # frs) mem') k (run m d fr' (?s1\<lparr>in_mem := mem'\<rparr>))" using Suc by simp
          from meters_later [OF this, of 1 ?start] show ?thesis using i st Continue Suc by (simp add: eq)
        next
          case (Finish vs)
          then show ?thesis using i st Suc by (auto simp: eq intro!: meters.returns [where n = 1])
        next
          case (Invoke x args fr')
          from enter_depth [of m i fr "in_mem s" x args fr' "d + 1"] st Invoke obtain fr0 where fr0: "enter m (unat x) args 0 = Ok fr0"
            "enter m (unat x) args (d + 1) = (if d + 1 \<ge> MAX_CALL_DEPTH then Err depth_trap else Ok fr0)" by auto
          have mid: "msteps m 1 ?start = Running (fr0 # fr' # frs) (in_mem ?s1)" using i st Invoke fr0(1) by simp
          show ?thesis
          proof (cases "d + 1 \<ge> MAX_CALL_DEPTH")
            case True
            then have "meters m d frs ?start (in_fuel s) (Err depth_trap, ?s1)" by (intro meters.too_deep [OF _ mid]) (use "1.prems" Suc in simp_all)
            then show ?thesis using True f i st Invoke fr0(2) by (simp add: eq)
          next
            case False
            with fr0(2) have en: "enter m (unat x) args (d + 1) = Ok fr0" by simp
            obtain r s2 where run: "run m (d + 1) fr0 ?s1 = (r, s2)" by (cases "run m (d + 1) fr0 ?s1")
            from "1.IH"(2) [OF f refl i st Invoke en, of "fr' # frs"] False run
            have callee: "meters m (Suc d) (fr' # frs) (Running (fr0 # fr' # frs) (in_mem ?s1)) k (r, s2)" using Suc by simp
            show ?thesis
            proof (cases "\<exists>res. r = Ok res")
              case True
              then obtain res where r: "r = Ok res" ..
              from callee r obtain n where n: "msteps m n (Running (fr0 # fr' # frs) (in_mem ?s1)) = Running (resume res fr' # frs) (in_mem s2)" "k = n + in_fuel s2"
                by (cases rule: meters.cases) auto
              have all: "msteps m (1 + n) ?start = Running (resume res fr' # frs) (in_mem s2)" using mid n(1) by (simp only: msteps_add)
              from "1.IH"(3) [OF f refl i st Invoke en, of r s2 res, unfolded run] r "1.prems"
              have "meters m d frs (Running (resume res fr' # frs) (in_mem s2)) (in_fuel s2) (run m d (resume res fr') s2)" by (simp add: resume_def)
              from meters_later [OF this all] show ?thesis using n(2) Suc f i st Invoke en run r by (simp add: eq resume_def)
            next
              case False
              then have "meters m d frs (Running (fr0 # fr' # frs) (in_mem ?s1)) k (r, s2)" by (intro meters_caller [OF callee]) blast
              from meters_later [OF this mid] show ?thesis using False Suc f i st Invoke en run by (cases r) (simp_all add: eq)
            qed
          qed
        qed
      qed (use i stop f in \<open>auto simp: eq\<close>)
    qed
  qed
qed


text \<open>A function that loops for ever through \<^verbatim>\<open>br_if\<close>, and a function that returns 7.\<close>

definition spin_module :: pv_module where
  "spin_module =
     \<lparr>pm_types = [\<lparr>ft_params = [], ft_results = []\<rparr>, \<lparr>ft_params = [], ft_results = [TI32]\<rparr>],
      pm_funcs = [\<lparr>fd_type_idx = 0, fd_locals = [], fd_code = [Loop, I32Const 1, BrIf 0, End, End]\<rparr>,
                  \<lparr>fd_type_idx = 1, fd_locals = [], fd_code = [I32Const 7, End]\<rparr>],
      pm_exports = [], pm_mem_pages = 0, pm_export_by_name = export_map []\<rparr>"

definition spin_frame :: frame where
  "spin_frame = \<lparr>fr_code = [Loop, I32Const 1, BrIf 0, End, End], fr_pc = 0, fr_stack = [],
     fr_ctrl = [\<lparr>cf_target = 4, cf_arity = 0, cf_height = 0\<rparr>], fr_locals = []\<rparr>"

definition spinning :: frame where
  "spinning = spin_frame\<lparr>fr_pc := 1, fr_ctrl := fr_ctrl spin_frame @ [\<lparr>cf_target = 1, cf_arity = 0, cf_height = 0\<rparr>]\<rparr>"

lemma spin_forever: "\<exists>fr. msteps spin_module n (Running [spin_frame] mem) = Running [fr] mem"
proof -
  let ?mid = "spinning\<lparr>fr_pc := 2, fr_stack := [I32 1]\<rparr>"
  have first: "mstep m (Running [spin_frame] mem) = Running [spinning] mem" for m
    by (simp add: spin_frame_def spinning_def elem_get_def advance_def)
  have turn: "mstep m (Running [spinning] mem) = Running [?mid] mem" "mstep m (Running [?mid] mem) = Running [spinning] mem" for m
    by (simp_all add: spin_frame_def spinning_def elem_get_def advance_def branch_def do_branch_def pop_i32_def vec_pop_def checked_add_def checked_sub_def usize_max_def)
  have "msteps m k (Running [spinning] mem) = Running [spinning] mem \<or> msteps m k (Running [spinning] mem) = Running [?mid] mem" for m k
    by (induction k) (auto simp: turn simp del: mstep.simps)
  then show ?thesis by (cases n) (auto simp only: msteps_Suc first funpow_0)
qed


section \<open>Memory and arithmetic\<close>

lemma load_bytes_overwrite:
  "addr + length bs \<le> length mem \<Longrightarrow> addr + length bs \<le> usize_max \<Longrightarrow> n = length bs \<Longrightarrow>
   load_bytes (overwrite mem addr bs) addr n = Ok bs"
  by (simp add: load_bytes_def checked_add_def slice_overwrite_same)

fun store_width :: "store_op \<Rightarrow> nat" where
  "store_width StoreI32 = 4"
| "store_width StoreI64 = 8"
| "store_width StoreI32_8 = 1"
| "store_width StoreI32_16 = 2"

fun same_width_load :: "store_op \<Rightarrow> load_op" where
  "same_width_load StoreI32 = LoadI32"
| "same_width_load StoreI64 = LoadI64"
| "same_width_load StoreI32_8 = LoadI32_8U"
| "same_width_load StoreI32_16 = LoadI32_16U"

fun stored_value :: "store_op \<Rightarrow> wval \<Rightarrow> wval" where
  "stored_value StoreI32_8 (I32 v) = I32 (take_bit 8 v)"
| "stored_value StoreI32_16 (I32 v) = I32 (take_bit 16 v)"
| "stored_value op v = v"

lemma store_bytes_value:
  assumes "store_bytes op (st @ [v]) = Ok (bs, st')"
  shows "st' = st" "length bs = store_width op" "load_width (same_width_load op) = store_width op"
    "load_value (same_width_load op) bs = Ok (stored_value op v)"
proof -
  have ucast8: "ucast (ucast w :: u8) = take_bit 8 w" for w :: i32
    by (simp add: unsigned_ucast_eq)
  have ucast16: "ucast (ucast w :: u16) = take_bit 16 w" for w :: i32
    by (simp add: unsigned_ucast_eq)
  show "st' = st" "length bs = store_width op" "load_width (same_width_load op) = store_width op"
    "load_value (same_width_load op) bs = Ok (stored_value op v)"
    using assms
    by (cases op; cases v; auto simp: le_array_def and_then_eq_Ok pop_i32_def pop_i64_def vec_pop_def ucast8 ucast16)+
qed

text \<open>
  Guest memory is exact. A store either traps or changes only the bytes at its effective
  address, keeping the memory's length, and a load of the same width at that address then returns the stored
  value (the low byte or half word, zero-extended, for the narrow forms).
\<close>

theorem store_load_roundtrip:
  assumes "exec_store op offset (st @ [I32 base, v]) mem = Ok (st', mem')"
  defines "addr \<equiv> unat base + unat offset"
  shows "st' = st \<and> length mem' = length mem \<and>
    (\<forall>i < length mem. i < addr \<or> addr + store_width op \<le> i \<longrightarrow> mem' ! i = mem ! i) \<and>
    exec_load (same_width_load op) offset (st @ [I32 base]) mem' = Ok (st @ [stored_value op v])"
proof -
  obtain bs where bs: "store_bytes op ((st @ [I32 base]) @ [v]) = Ok (bs, st @ [I32 base])"
    using assms(1) by (auto simp: exec_store_def and_then_eq_Ok dest: store_bytes_value(1) [of _ "st @ [I32 base]" v, simplified])
  note val = store_bytes_value(2-4) [OF bs]
  from assms(1) bs have pop: "pop_i32 (st @ [I32 base]) = Ok (base, st)" and st: "st' = st"
    and ea: "effective_addr base offset = Ok addr"
    and len: "addr + length bs \<le> length mem" "addr + length bs \<le> usize_max"
    and mem: "mem' = overwrite mem addr bs"
    by (auto simp: exec_store_def and_then_eq_Ok pop_i32_def vec_pop_def effective_addr_def checked_add_def addr_def split: if_splits)
  have "mem' ! i = mem ! i" if "i < length mem" "i < addr \<or> addr + store_width op \<le> i" for i
    using that len val(1) by (auto simp: mem nth_overwrite)
  moreover have "exec_load (same_width_load op) offset (st @ [I32 base]) mem' = Ok (st @ [stored_value op v])"
    using len val by (simp add: exec_load_def pop ea mem load_bytes_overwrite)
  ultimately show ?thesis using len by (simp add: st mem)
qed

theorem store_load_roundtrip_witness:
  "exec_store StoreI32_8 1 [I32 1, I32 0x12345] [0, 0, 0, 9] = Ok ([], [0, 0, 0x45, 9]) \<and>
   exec_load LoadI32_8U 1 [I32 1] [0, 0, 0x45, 9] = Ok [I32 0x45]"
proof -
  have "exec_store StoreI32_8 1 ([] @ [I32 1, I32 0x12345]) [0, 0, 0, 9] = Ok ([], [0, 0, 0x45, 9])"
    by (simp add: exec_store_def pop_i32_def vec_pop_def effective_addr_def checked_add_def usize_max_def overwrite_def)
  from store_load_roundtrip [OF this] this show ?thesis by simp
qed

lemma sint_word_of_int_eq:
  "- (2 ^ 31) \<le> i \<Longrightarrow> i < 2 ^ 31 \<Longrightarrow> sint (word_of_int i :: i32) = i"
  by (simp add: signed_take_bit_int_eq_self signed_of_int)

lemma sint_i32_range: "- (2 ^ 31) \<le> sint (a :: i32)" "sint a < 2 ^ 31"
  using sint_ge [of a] sint_lt [of a] by simp_all

lemma sdiv_range:
  fixes a b :: int
  assumes "b \<noteq> 0" "- m \<le> a" "a < m" "a \<noteq> - m \<or> b \<noteq> - 1"
  shows "- m \<le> a sdiv b" "a sdiv b < m"
proof -
  have "a sdiv b \<noteq> m" if "a = - m"
    using that assms int_sdiv_negated_is_minus1 [of a b] by (cases "a = 0") auto
  moreover have "- \<bar>a\<bar> \<le> a sdiv b" "a sdiv b \<le> \<bar>a\<bar>" using sdiv_int_range [of a b] by auto
  ultimately show "- m \<le> a sdiv b" "a sdiv b < m" using assms(2,3) by linarith+
qed

lemma smod_sign:
  fixes a b :: int
  assumes "b \<noteq> 0"
  shows "\<bar>a smod b\<bar> < \<bar>b\<bar>" "a smod b = 0 \<or> sgn (a smod b) = sgn a"
proof -
  have "0 \<le> \<bar>a\<bar> mod \<bar>b\<bar>" using assms by simp
  then show "a smod b = 0 \<or> sgn (a smod b) = sgn a"
    by (cases "\<bar>a\<bar> mod \<bar>b\<bar> = 0") (simp_all add: smod_int_alt_def sgn_mult)
  show "\<bar>a smod b\<bar> < \<bar>b\<bar>" using smod_int_range [OF assms, of a] by auto
qed

text \<open>
  Signed 32-bit division is exact. Where the divisor is not zero and the quotient fits, quotient and remainder
  are those of division truncated towards zero: they recompose the dividend, the remainder is smaller than the
  divisor and has the dividend's sign. Otherwise, and only then, the division traps.
\<close>

theorem i32_division_exact:
  "case (exec_i32_binop I32DivS a b, exec_i32_binop I32RemS a b) of
     (Ok (I32 q), Ok (I32 r)) \<Rightarrow>
       sint q * sint b + sint r = sint a \<and> \<bar>sint r\<bar> < \<bar>sint b\<bar> \<and> (r = 0 \<or> sgn (sint r) = sgn (sint a))
   | (Err _, Ok (I32 r)) \<Rightarrow> sint a = - (2 ^ 31) \<and> sint b = - 1 \<and> r = 0
   | (Err _, Err _) \<Rightarrow> b = 0
   | _ \<Rightarrow> False"
proof (cases "b = 0")
  case False
  have min: "sint (0x80000000 :: i32) = - (2 ^ 31)" "sint (- 1 :: i32) = - 1" by simp_all
  have b: "sint b \<noteq> 0" using False by (metis signed_0 signed_word_eqI)
  have r: "sint (word_of_int (sint a smod sint b) :: i32) = sint a smod sint b"
    using smod_int_range [OF b, of "sint a"] sint_i32_range [of b] by (intro sint_word_of_int_eq) auto
  show ?thesis
  proof (cases "a = 0x80000000 \<and> b = - 1")
    case True
    then show ?thesis by (simp add: exec_i32_binop_def smod_int_alt_def wrapping_rem_def)
  next
    case ov: False
    then have "sint a \<noteq> - (2 ^ 31) \<or> sint b \<noteq> - 1" using min by (metis signed_word_eqI)
    then have "sint (word_of_int (sint a sdiv sint b) :: i32) = sint a sdiv sint b"
      using sdiv_range [OF b sint_i32_range [of a]] by (intro sint_word_of_int_eq)
    with r False ov show ?thesis
      using smod_sign [OF b, of "sint a"] by (auto simp: exec_i32_binop_def sdiv_mult_smod_eq signed_div_def wrapping_rem_def min_values)
  qed
qed (simp add: exec_i32_binop_def)

end
