(* ===== verification/Query_Ast.thy ===== *)
theory Query_Ast
  imports Value
begin

text \<open>
  The parts of the statement syntax of \<^verbatim>\<open>src/engine/query.rs\<close> that the executor evaluates:
  predicates, scalar expressions, aggregates and select lists. Names are the UTF-8 bytes of the Rust
  strings, as in \<open>Value\<close>.
\<close>

type_synonym col_name = bytes

datatype scalar_func = Lower | Upper | Trim | Length | Abs | Coalesce | NullIf

datatype agg_func = Count | Sum | Min | Max | Avg

record aggregate =
  ag_func :: agg_func
  ag_column :: "col_name option"

datatype compare_op = OpEq | OpNe | OpLt | OpLe | OpGt | OpGe | OpLike | OpNotLike

datatype predicate =
    Compare col_name compare_op val
  | InList col_name "val list" bool
  | Between col_name val val bool
  | IsNull col_name bool
  | And predicate predicate
  | Or predicate predicate

definition pred_eq :: "col_name \<Rightarrow> val \<Rightarrow> predicate" where
  "pred_eq column v = Compare column OpEq v"

datatype scalar_expr =
    ScalarColumn col_name
  | ScalarLiteral val
  | ScalarFunction scalar_func "scalar_expr list"
  | ScalarCase "(predicate \<times> scalar_expr) list" "scalar_expr option"

datatype select_expr =
    SelectColumn col_name
  | SelectAggregate aggregate
  | SelectScalar scalar_expr

record select_item =
  it_expr :: select_expr
  it_alias :: "col_name option"

datatype projection =
    ProjectAll
  | ProjectColumns "col_name list"
  | ProjectItems "select_item list"

datatype having_term =
    HavingColumn col_name
  | HavingAggregate aggregate

datatype having_pred =
    HavingCompare having_term compare_op val
  | HavingAnd having_pred having_pred
  | HavingOr having_pred having_pred

record order_by =
  ob_column :: col_name
  ob_descending :: bool

datatype insert_value = Literal val | Default

section \<open>Labels\<close>

definition agg_name :: "agg_func \<Rightarrow> bytes" where
  "agg_name f =
     (case f of
        Count \<Rightarrow> ascii ''count''
      | Sum \<Rightarrow> ascii ''sum''
      | Min \<Rightarrow> ascii ''min''
      | Max \<Rightarrow> ascii ''max''
      | Avg \<Rightarrow> ascii ''avg'')"

definition agg_label :: "aggregate \<Rightarrow> bytes" where
  "agg_label a =
     (case ag_column a of
        None \<Rightarrow> agg_name (ag_func a)
      | Some c \<Rightarrow> agg_name (ag_func a) @ [40] @ c @ [41])"

end
