(* ===== verification/Like_Match.thy ===== *)
theory Like_Match
  imports Value
begin

unbundle bit_operations_syntax

text \<open>
  The \<^verbatim>\<open>LIKE\<close> matcher of \<^verbatim>\<open>src/db.rs\<close>: a two-pointer scan that remembers the last \<^verbatim>\<open>%\<close> and backtracks
  to it. The matcher is compared with the declarative meaning of a pattern.
\<close>

section \<open>Characters\<close>

text \<open>\<^verbatim>\<open>str::chars\<close> on the UTF-8 bytes of a \<^verbatim>\<open>String\<close>.\<close>

definition payload :: "nat \<Rightarrow> u8 \<Rightarrow> u32" where
  "payload n b = take_bit n (ucast b)"

fun utf8_chars :: "bytes \<Rightarrow> u32 list" where
  "utf8_chars [] = []"
| "utf8_chars (b # bs) =
     (if b < 0x80 then ucast b # utf8_chars bs
      else if b < 0xE0 then
        (case bs of c1 # rest \<Rightarrow> (push_bit 6 (payload 5 b) OR payload 6 c1) # utf8_chars rest | _ \<Rightarrow> [])
      else if b < 0xF0 then
        (case bs of c1 # c2 # rest \<Rightarrow>
            (push_bit 12 (payload 4 b) OR push_bit 6 (payload 6 c1) OR payload 6 c2) # utf8_chars rest
          | _ \<Rightarrow> [])
      else
        (case bs of c1 # c2 # c3 # rest \<Rightarrow>
            (push_bit 18 (payload 3 b) OR push_bit 12 (payload 6 c1) OR push_bit 6 (payload 6 c2) OR payload 6 c3) # utf8_chars rest
          | _ \<Rightarrow> []))"

lemma utf8_chars_ascii: "\<forall>b \<in> set bs. b < 0x80 \<Longrightarrow> utf8_chars bs = map ucast bs"
  by (induction bs) auto

section \<open>The matcher\<close>

definition PERCENT :: u32 where "PERCENT = 37"
definition UNDERSCORE :: u32 where "UNDERSCORE = 95"

text \<open>The main loop returns the pattern position at which the text was used up, or \<open>None\<close> for
  \<^verbatim>\<open>return false\<close>.\<close>

function like_loop :: "u32 list \<Rightarrow> u32 list \<Rightarrow> nat \<Rightarrow> nat \<Rightarrow> nat option \<Rightarrow> nat \<Rightarrow> nat option" where
  "like_loop t p ti pi star_p star_t =
     (if ti < length t then
        (if pi < length p \<and> (p ! pi = UNDERSCORE \<or> p ! pi = t ! ti) then
           like_loop t p (ti + 1) (pi + 1) star_p star_t
         else if pi < length p \<and> p ! pi = PERCENT then
           like_loop t p ti (pi + 1) (Some pi) ti
         else
           (case star_p of
              Some sp \<Rightarrow> like_loop t p (star_t + 1) (sp + 1) star_p (star_t + 1)
            | None \<Rightarrow> None))
      else Some pi)"
  by pat_completeness auto
termination
  by (relation "measures [\<lambda>(t, p, ti, pi, sp, st). if st \<le> ti then 0 else 1,
        \<lambda>(t, p, ti, pi, sp, st). length t - st, \<lambda>(t, p, ti, pi, sp, st). length p - pi]") auto

declare like_loop.simps [simp del]

fun skip_percent :: "u32 list \<Rightarrow> u32 list" where
  "skip_percent [] = []"
| "skip_percent (c # p) = (if c = PERCENT then skip_percent p else c # p)"

definition like_chars :: "u32 list \<Rightarrow> u32 list \<Rightarrow> bool" where
  "like_chars t p =
     (case like_loop t p 0 0 None 0 of
        None \<Rightarrow> False
      | Some pi \<Rightarrow> skip_percent (drop pi p) = [])"

definition like_match :: "bytes \<Rightarrow> bytes \<Rightarrow> bool" where
  "like_match txt pat = like_chars (utf8_chars txt) (utf8_chars pat)"

section \<open>The meaning of a pattern\<close>

fun like_spec :: "u32 list \<Rightarrow> u32 list \<Rightarrow> bool" where
  "like_spec t [] \<longleftrightarrow> t = []"
| "like_spec t (c # p) \<longleftrightarrow>
     (if c = PERCENT then (\<exists>i \<le> length t. like_spec (drop i t) p)
      else (case t of [] \<Rightarrow> False | x # t' \<Rightarrow> (c = UNDERSCORE \<or> c = x) \<and> like_spec t' p))"

lemma like_spec_percent_drop:
  "like_spec (drop k t) (PERCENT # p) \<Longrightarrow> j \<le> k \<Longrightarrow> like_spec (drop j t) (PERCENT # p)"
proof -
  assume a: "like_spec (drop k t) (PERCENT # p)" "j \<le> k"
  then obtain i where i: "i \<le> length t - k" "like_spec (drop (i + k) t) p" by auto
  then have "like_spec (drop (k - j + i) (drop j t)) p"
    using a(2) by (simp add: add.commute add.left_commute)
  moreover have "k - j + i \<le> length (drop j t)" if "k \<le> length t" using i(1) that a(2) by simp
  moreover have "like_spec (drop (length t - j) (drop j t)) p" if "\<not> k \<le> length t" using i(2) that a(2) by simp
  ultimately show "like_spec (drop j t) (PERCENT # p)"
    by (cases "k \<le> length t") (auto intro: exI [of _ "k - j + i"] exI [of _ "length t - j"])
qed

text \<open>A segment without \<^verbatim>\<open>%\<close> consumes exactly its own length.\<close>

lemma like_spec_segment:
  assumes "PERCENT \<notin> set seg" "like_spec t (seg @ p)"
  shows "length seg \<le> length t \<and> like_spec (drop (length seg) t) p"
  using assms by (induction seg arbitrary: t) (auto split: list.splits)

lemma like_spec_Nil_text: "like_spec [] p \<longleftrightarrow> skip_percent p = []"
  by (induction p) auto

section \<open>Correctness\<close>

text \<open>What the loop has established: the pattern behind the last \<^verbatim>\<open>%\<close> has matched the text read since.\<close>

definition star_inv :: "u32 list \<Rightarrow> u32 list \<Rightarrow> nat \<Rightarrow> nat \<Rightarrow> nat option \<Rightarrow> nat \<Rightarrow> bool" where
  "star_inv t p ti pi star_p star_t \<longleftrightarrow>
     ti \<le> length t \<and>
     (case star_p of
        None \<Rightarrow> True
      | Some sp \<Rightarrow> sp < pi \<and> star_t \<le> ti \<and> pi - (sp + 1) = ti - star_t \<and> pi \<le> length p \<and>
          PERCENT \<notin> set (take (pi - (sp + 1)) (drop (sp + 1) p)))"

definition pending :: "u32 list \<Rightarrow> u32 list \<Rightarrow> nat option \<Rightarrow> nat \<Rightarrow> bool" where
  "pending t p star_p star_t \<longleftrightarrow>
     (case star_p of None \<Rightarrow> False | Some sp \<Rightarrow> \<exists>k > star_t. k \<le> length t \<and> like_spec (drop k t) (drop (sp + 1) p))"

lemma pending_segment:
  assumes "star_inv t p ti pi star_p star_t" "pending t p star_p star_t"
  shows "\<exists>k > ti. k \<le> length t \<and> like_spec (drop k t) (drop pi p)"
proof -
  from assms(2) obtain sp k where sp: "star_p = Some sp" and k: "star_t < k" "k \<le> length t" "like_spec (drop k t) (drop (sp + 1) p)"
    by (auto simp: pending_def split: option.splits)
  let ?seg = "take (pi - (sp + 1)) (drop (sp + 1) p)"
  have inv: "sp < pi" "star_t \<le> ti" "pi - (sp + 1) = ti - star_t" "pi \<le> length p" "PERCENT \<notin> set ?seg"
    using assms(1) sp by (auto simp: star_inv_def)
  have "drop (sp + 1) p = ?seg @ drop pi p"
    using inv(1) by (metis Suc_eq_plus1 Suc_leI append_take_drop_id drop_drop le_add_diff_inverse2)
  with k(3) have "like_spec (drop k t) (?seg @ drop pi p)" by metis
  from like_spec_segment [OF inv(5) this] inv(1,4)
  have "pi - (sp + 1) \<le> length t - k" "like_spec (drop (pi - (sp + 1) + k) t) (drop pi p)" by auto
  then show ?thesis using inv(2,3) k(1,2) by (intro exI [of _ "pi - (sp + 1) + k"]) auto
qed

lemma ex_gt_Suc: "(\<exists>k > a. P k) \<longleftrightarrow> P (Suc a) \<or> (\<exists>k > Suc a. P k)"
  by (metis Suc_lessD Suc_lessI lessI)

abbreviation loop_accepts :: "u32 list \<Rightarrow> u32 list \<Rightarrow> nat option \<Rightarrow> bool" where
  "loop_accepts t p r \<equiv> (case r of None \<Rightarrow> False | Some pi \<Rightarrow> skip_percent (drop pi p) = [])"

lemma like_spec_literal:
  assumes "ti < length t" "pi < length p" "p ! pi \<noteq> PERCENT"
  shows "like_spec (drop ti t) (drop pi p) \<longleftrightarrow>
    (p ! pi = UNDERSCORE \<or> p ! pi = t ! ti) \<and> like_spec (drop (ti + 1) t) (drop (pi + 1) p)"
  using assms by (simp add: Cons_nth_drop_Suc [symmetric])

lemma like_spec_percent:
  assumes "pi < length p" "p ! pi = PERCENT" "ti \<le> length t"
  shows "like_spec (drop ti t) (drop pi p) \<longleftrightarrow>
    like_spec (drop ti t) (drop (pi + 1) p) \<or> pending t p (Some pi) ti"
proof -
  have eq: "drop pi p = PERCENT # drop (pi + 1) p"
    using assms(1,2) by (metis Cons_nth_drop_Suc Suc_eq_plus1)
  have "like_spec (drop ti t) (drop pi p) \<longleftrightarrow> (\<exists>k \<ge> ti. k \<le> length t \<and> like_spec (drop k t) (drop (pi + 1) p))"
  proof
    assume "like_spec (drop ti t) (drop pi p)"
    then obtain i where "i \<le> length t - ti" "like_spec (drop (i + ti) t) (drop (pi + 1) p)" unfolding eq by auto
    then show "\<exists>k \<ge> ti. k \<le> length t \<and> like_spec (drop k t) (drop (pi + 1) p)"
      using assms(3) by (intro exI [of _ "i + ti"]) auto
  next
    assume "\<exists>k \<ge> ti. k \<le> length t \<and> like_spec (drop k t) (drop (pi + 1) p)"
    then obtain k where k: "ti \<le> k" "k \<le> length t" "like_spec (drop k t) (drop (pi + 1) p)" by blast
    then have "like_spec (drop (k - ti) (drop ti t)) (drop (pi + 1) p)" by simp
    moreover have "k - ti \<le> length (drop ti t)" using k by simp
    ultimately show "like_spec (drop ti t) (drop pi p)" unfolding eq by auto
  qed
  then show ?thesis using assms(3) by (auto simp: pending_def le_less)
qed

lemma star_inv_next:
  assumes "star_inv t p ti pi star_p star_t" "ti < length t" "pi < length p" "p ! pi \<noteq> PERCENT"
  shows "star_inv t p (ti + 1) (pi + 1) star_p star_t"
proof (cases star_p)
  case (Some sp)
  with assms(1) have "sp < pi" by (simp add: star_inv_def)
  then have "take (Suc pi - (sp + 1)) (drop (sp + 1) p) = take (pi - (sp + 1)) (drop (sp + 1) p) @ [p ! pi]"
    using assms(3) take_Suc_conv_app_nth [of "pi - (sp + 1)" "drop (sp + 1) p"] by (simp add: Suc_diff_Suc)
  with assms Some \<open>sp < pi\<close> show ?thesis by (auto simp: star_inv_def)
qed (use assms in \<open>simp add: star_inv_def\<close>)

lemma like_loop_correct:
  assumes "PERCENT \<notin> set t" "star_inv t p ti pi star_p star_t"
  shows "loop_accepts t p (like_loop t p ti pi star_p star_t) \<longleftrightarrow>
    like_spec (drop ti t) (drop pi p) \<or> pending t p star_p star_t"
  using assms
proof (induction t p ti pi star_p star_t rule: like_loop.induct)
  case (1 t p ti pi star_p star_t)
  note inv = "1.prems"(2)
  consider (fin) "\<not> ti < length t"
    | (lit) "ti < length t" "pi < length p" "p ! pi = UNDERSCORE \<or> p ! pi = t ! ti"
    | (pct) "ti < length t" "\<not> (pi < length p \<and> (p ! pi = UNDERSCORE \<or> p ! pi = t ! ti))" "pi < length p" "p ! pi = PERCENT"
    | (bad) "ti < length t" "\<not> (pi < length p \<and> (p ! pi = UNDERSCORE \<or> p ! pi = t ! ti))" "\<not> (pi < length p \<and> p ! pi = PERCENT)"
    by blast
  then show ?case
  proof cases
    case fin
    then have "\<not> pending t p star_p star_t" using pending_segment [OF inv] inv by (auto simp: star_inv_def)
    moreover have "like_loop t p ti pi star_p star_t = Some pi" using fin by (simp add: like_loop.simps)
    ultimately show ?thesis using fin by (simp add: like_spec_Nil_text)
  next
    case lit
    have np: "p ! pi \<noteq> PERCENT" using lit "1.prems"(1) by (auto simp: PERCENT_def UNDERSCORE_def in_set_conv_nth)
    have eq: "like_loop t p ti pi star_p star_t = like_loop t p (ti + 1) (pi + 1) star_p star_t"
      using lit by (simp add: like_loop.simps [of t p ti])
    from "1.IH"(1) [OF lit(1) conjI [OF lit(2,3)] "1.prems"(1) star_inv_next [OF inv lit(1,2) np]] show ?thesis
      unfolding eq using like_spec_literal [OF lit(1,2) np] lit(3) by simp
  next
    case pct
    have eq: "like_loop t p ti pi star_p star_t = like_loop t p ti (pi + 1) (Some pi) ti"
      using pct by (simp add: like_loop.simps [of t p ti])
    have "star_inv t p ti (pi + 1) (Some pi) ti" using pct(1,3) by (simp add: star_inv_def)
    note ih = "1.IH"(2) [OF pct(1,2) conjI [OF pct(3,4)] "1.prems"(1) this]
    have "like_spec (drop ti t) (drop pi p)" if "pending t p star_p star_t"
    proof -
      from pending_segment [OF inv that] obtain k where "ti < k" "like_spec (drop k t) (drop pi p)" by blast
      then show ?thesis
        using like_spec_percent_drop [of k t "drop (pi + 1) p" ti] pct(3,4) by (simp add: Cons_nth_drop_Suc [symmetric])
    qed
    then show ?thesis using ih like_spec_percent [OF pct(3,4), of ti t] pct(1) unfolding eq by auto
  next
    case bad
    have no: "\<not> like_spec (drop ti t) (drop pi p)"
      using bad like_spec_literal [OF bad(1), of pi p] by (cases "pi < length p") auto
    show ?thesis
    proof (cases star_p)
      case None
      then have "like_loop t p ti pi star_p star_t = None" using bad by (subst like_loop.simps) auto
      then show ?thesis using no None by (simp add: pending_def)
    next
      case (Some sp)
      have eq: "like_loop t p ti pi star_p star_t = like_loop t p (star_t + 1) (sp + 1) star_p (star_t + 1)"
        using bad Some by (subst like_loop.simps) auto
      have st: "star_t < length t" using inv Some bad(1) by (simp add: star_inv_def)
      then have "star_inv t p (star_t + 1) (sp + 1) star_p (star_t + 1)"
        using inv Some by (simp add: star_inv_def)
      note ih = "1.IH"(3) [OF bad Some "1.prems"(1) this]
      have "pending t p star_p star_t \<longleftrightarrow>
          like_spec (drop (star_t + 1) t) (drop (sp + 1) p) \<or> pending t p star_p (star_t + 1)"
        using st Some ex_gt_Suc [of star_t "\<lambda>k. k \<le> length t \<and> like_spec (drop k t) (drop (sp + 1) p)"]
        by (simp add: pending_def)
      then show ?thesis using no ih unfolding eq by simp
    qed
  qed
qed

text \<open>
  C18: The \<^verbatim>\<open>LIKE\<close> matcher decides the declarative meaning of the pattern (\<^verbatim>\<open>%\<close> stands for any run of
  characters, \<^verbatim>\<open>_\<close> for one character) on every text that does not itself contain a \<^verbatim>\<open>%\<close>, and it always terminates.
\<close>

theorem like_match_correct:
  assumes "PERCENT \<notin> set (utf8_chars txt)"
  shows "like_match txt pat \<longleftrightarrow> like_spec (utf8_chars txt) (utf8_chars pat)"
proof -
  have "star_inv (utf8_chars txt) (utf8_chars pat) 0 0 None 0" by (simp add: star_inv_def)
  from like_loop_correct [OF assms this] show ?thesis by (simp add: like_match_def like_chars_def pending_def)
qed

theorem like_match_correct_witness:
  "like_match (ascii ''abcbcd'') (ascii ''a%b_d'') \<and> like_spec (utf8_chars (ascii ''abcbcd'')) (utf8_chars (ascii ''a%b_d''))"
proof -
  have eval: "like_match (ascii ''abcbcd'') (ascii ''a%b_d'')" by code_simp
  have "PERCENT \<notin> set (utf8_chars (ascii ''abcbcd''))" by code_simp
  from like_match_correct [OF this] eval show ?thesis by blast
qed

text \<open>
  A \<^verbatim>\<open>%\<close> in the text is taken for a literal match of the pattern's \<^verbatim>\<open>%\<close>, because the comparison of the
  two characters comes before the test for the wildcard. So \<^verbatim>\<open>'100% sure' LIKE '100%'\<close> is false although
  the pattern matches, and every row whose text holds a \<^verbatim>\<open>%\<close> in that place is lost from the result.
\<close>

lemma like_percent_in_text:
  "\<not> like_match (ascii ''100% sure'') (ascii ''100%'') \<and>
   like_spec (utf8_chars (ascii ''100% sure'')) (utf8_chars (ascii ''100%''))"
proof
  show "\<not> like_match (ascii ''100% sure'') (ascii ''100%'')" by code_simp
  have "utf8_chars (ascii ''100% sure'') = [49, 48, 48, 37, 32, 115, 117, 114, 101]" by code_simp
  moreover have "utf8_chars (ascii ''100%'') = [49, 48, 48, 37]" by code_simp
  ultimately show "like_spec (utf8_chars (ascii ''100% sure'')) (utf8_chars (ascii ''100%''))"
    by (auto simp: PERCENT_def intro!: exI [of _ 6])
qed

end
