(* ===== verification/Cas.thy ===== *)
theory Cas
  imports Core_Types File_System
begin

unbundle bit_operations_syntax

text \<open>
  The content-addressable blob store of \<^verbatim>\<open>src/storage/cas.rs\<close>. BLAKE3 is a third-party function:
  it is the parameter \<open>blake3\<close>, and what the store relies on (digests of 32 bytes, no collision
  among the blobs at hand) appears as hypotheses. The abstract view of a store is the list of its
  blobs: \<^verbatim>\<open>put\<close> looks a blob up in that list or appends it, \<^verbatim>\<open>get\<close> indexes it, \<^verbatim>\<open>pack\<close> concatenates it,
  and \<^verbatim>\<open>load_dev\<close> and \<^verbatim>\<open>from_mapped\<close> rebuild it.
\<close>

section \<open>State\<close>

datatype blob = Owned bytes | Mapped bytes nat nat

record cas_entry =
  ce_hash :: bytes
  ce_blob :: blob

record cas_store =
  cas_by_hash :: "bytes \<Rightarrow> u64 option"
  cas_entries :: "cas_entry list"
  cas_dev_root :: "path option"

definition new_memory :: cas_store where
  "new_memory = \<lparr>cas_by_hash = Map.empty, cas_entries = [], cas_dev_root = None\<rparr>"

definition new_dev :: "path \<Rightarrow> cas_store" where
  "new_dev root = \<lparr>cas_by_hash = Map.empty, cas_entries = [], cas_dev_root = Some root\<rparr>"

definition should_intern :: "nat \<Rightarrow> bool" where
  "should_intern len \<longleftrightarrow> len > CAS_INLINE_THRESHOLD"

definition cas_len :: "cas_store \<Rightarrow> nat" where
  "cas_len s = length (cas_entries s)"

definition cas_is_empty :: "cas_store \<Rightarrow> bool" where
  "cas_is_empty s \<longleftrightarrow> cas_entries s = []"

section \<open>Hexadecimal digests\<close>

definition hex_digit :: "u8 \<Rightarrow> u8" where
  "hex_digit n = (if n < 10 then 48 + n else 97 + (n - 10))"

fun hex :: "bytes \<Rightarrow> bytes" where
  "hex [] = []"
| "hex (b # bs) = hex_digit (drop_bit 4 b) # hex_digit (b AND 0xF) # hex bs"

definition hex_nibble :: "u8 \<Rightarrow> u8 result" where
  "hex_nibble c =
     (if 48 \<le> c \<and> c \<le> 57 then Ok (c - 48)
      else if 97 \<le> c \<and> c \<le> 102 then Ok (c - 97 + 10)
      else if 65 \<le> c \<and> c \<le> 70 then Ok (c - 65 + 10)
      else Err (Corruption ''non-hex CAS digest''))"

definition parse_hex32 :: "bytes \<Rightarrow> bytes result" where
  "parse_hex32 s =
     (if length s \<noteq> 64 then Err (Corruption ''bad CAS hash length: {}'')
      else collect_results (\<lambda>i.
        and_then (elem_at s (i * 2)) (\<lambda>a. and_then (hex_nibble a) (\<lambda>hi.
        and_then (elem_at s (i * 2 + 1)) (\<lambda>b. and_then (hex_nibble b) (\<lambda>lo.
          Ok (push_bit 4 hi OR lo)))))) [0..<32])"

section \<open>Blob files\<close>

definition blob_path :: "path \<Rightarrow> bytes \<Rightarrow> path result" where
  "blob_path root hex_hash =
     and_then (slice_at hex_hash 0 2) (\<lambda>shard. Ok (root @ [ascii ''blobs'', shard, hex_hash]))"

definition verify_blob_hash :: "(bytes \<Rightarrow> bytes) \<Rightarrow> bytes \<Rightarrow> bytes \<Rightarrow> unit result" where
  "verify_blob_hash blake3 data expected =
     (if blake3 data \<noteq> expected then Err (Corruption ''CAS blob {label} failed integrity check'') else Ok ())"

definition verify_blob_hash_hex :: "(bytes \<Rightarrow> bytes) \<Rightarrow> bytes \<Rightarrow> bytes \<Rightarrow> unit result" where
  "verify_blob_hash_hex blake3 data hex_hash =
     and_then (parse_hex32 hex_hash) (verify_blob_hash blake3 data)"

text \<open>
  Directories are not modelled: \<^verbatim>\<open>create_dir_all\<close> of the parent and the write of the file fail
  together, when the path is one the operating system denies.
\<close>

definition write_blob_file :: "path \<Rightarrow> bytes \<Rightarrow> bytes \<Rightarrow> (file_system, unit) action" where
  "write_blob_file root hash data =
     act_then (act_return (blob_path root (hex hash))) (\<lambda>path fs.
       if fs_exists fs path then (Ok (), fs) else fs_write path data fs)"

section \<open>Operations\<close>

text \<open>
  \<^verbatim>\<open>Vec::push\<close> panics with a capacity overflow when the vector would outgrow \<^verbatim>\<open>isize::MAX\<close>; this
  is why \<^verbatim>\<open>entries.len() as CasId\<close> never wraps.
\<close>

definition isize_max :: nat where
  "isize_max = 2 ^ 63 - 1"

definition push_entry :: "cas_entry \<Rightarrow> cas_store \<Rightarrow> cas_store result" where
  "push_entry e s =
     (if length (cas_entries s) < isize_max then Ok (s\<lparr>cas_entries := cas_entries s @ [e]\<rparr>) else Panic)"

definition mirror_blob :: "bytes \<Rightarrow> bytes \<Rightarrow> (cas_store \<times> file_system, unit) action" where
  "mirror_blob hash data = (\<lambda>(s, fs).
     case cas_dev_root s of
       None \<Rightarrow> (Ok (), (s, fs))
     | Some root \<Rightarrow> (case write_blob_file root hash data fs of (r, fs') \<Rightarrow> (r, (s, fs'))))"

definition cas_put :: "(bytes \<Rightarrow> bytes) \<Rightarrow> bytes \<Rightarrow> (cas_store \<times> file_system, u64) action" where
  "cas_put blake3 data = (\<lambda>(s, fs).
     let hash = blake3 data in
     case cas_by_hash s hash of
       Some cid \<Rightarrow> (Ok cid, (s, fs))
     | None \<Rightarrow>
         let cid = of_nat (length (cas_entries s)) in
         act_then (mirror_blob hash data) (\<lambda>_ (s, fs).
           case push_entry \<lparr>ce_hash = hash, ce_blob = Owned data\<rparr> s of
             Ok s' \<Rightarrow> (Ok cid, (s'\<lparr>cas_by_hash := (cas_by_hash s')(hash \<mapsto> cid)\<rparr>, fs))
           | Err e \<Rightarrow> (Err e, (s, fs))
           | Panic \<Rightarrow> (Panic, (s, fs))) (s, fs))"

definition blob_bytes :: "blob \<Rightarrow> bytes result" where
  "blob_bytes b =
     (case b of
        Owned v \<Rightarrow> Ok v
      | Mapped mmap offset len \<Rightarrow> slice_at mmap offset (offset + len))"

definition cas_get :: "cas_store \<Rightarrow> u64 \<Rightarrow> bytes result" where
  "cas_get s cid =
     and_then (ok_or (elem_get (cas_entries s) (unat cid)) (CasMiss ''id {id}''))
       (\<lambda>entry. blob_bytes (ce_blob entry))"

definition hash_hex :: "cas_store \<Rightarrow> u64 \<Rightarrow> bytes result" where
  "hash_hex s cid =
     and_then (ok_or (elem_get (cas_entries s) (unat cid)) (CasMiss ''id {id}''))
       (\<lambda>entry. Ok (hex (ce_hash entry)))"

fun pack_pool :: "cas_store \<Rightarrow> nat list \<Rightarrow> bytes \<Rightarrow> (bytes \<times> (u64 \<times> u64) list) result" where
  "pack_pool s [] pool = Ok (pool, [])"
| "pack_pool s (cid # ids) pool =
     and_then (cas_get s (of_nat cid)) (\<lambda>bs.
     and_then (pack_pool s ids (pool @ bs)) (\<lambda>(pool', dir).
       Ok (pool', (of_nat (length pool), of_nat (length bs)) # dir)))"

definition pack :: "cas_store \<Rightarrow> (bytes \<times> (u64 \<times> u64) list) result" where
  "pack s = pack_pool s [0..<length (cas_entries s)] []"

fun load_dev_loop ::
  "(bytes \<Rightarrow> bytes) \<Rightarrow> path \<Rightarrow> bytes list \<Rightarrow> (cas_store \<times> file_system, unit) action" where
  "load_dev_loop blake3 root [] = act_return (Ok ())"
| "load_dev_loop blake3 root (hex_hash # hashes) =
     act_then (act_return (parse_hex32 hex_hash)) (\<lambda>expected.
     act_then (act_return (blob_path root hex_hash)) (\<lambda>path.
     act_then (\<lambda>(s, fs). (fs_read fs path, (s, fs))) (\<lambda>data.
     act_then (act_return (verify_blob_hash blake3 data expected)) (\<lambda>_.
     act_then (cas_put blake3 data) (\<lambda>_.
       load_dev_loop blake3 root hashes)))))"

definition load_dev ::
  "(bytes \<Rightarrow> bytes) \<Rightarrow> path \<Rightarrow> bytes list \<Rightarrow> file_system \<Rightarrow> cas_store result \<times> file_system" where
  "load_dev blake3 root hashes fs =
     (case load_dev_loop blake3 root hashes (new_dev root, fs) of
        (Ok _, (s, fs')) \<Rightarrow> (Ok s, fs')
      | (Err e, (s, fs')) \<Rightarrow> (Err e, fs')
      | (Panic, (s, fs')) \<Rightarrow> (Panic, fs'))"

fun from_mapped_loop ::
  "(bytes \<Rightarrow> bytes) \<Rightarrow> bytes \<Rightarrow> nat \<Rightarrow> nat \<Rightarrow> nat \<Rightarrow> ((u64 \<times> u64) \<times> bytes) list \<Rightarrow> cas_store \<Rightarrow> cas_store result"
where
  "from_mapped_loop blake3 mmap base pool_end cid [] store = Ok store"
| "from_mapped_loop blake3 mmap base pool_end cid (((rel_off, len), hex_hash) # rest) store =
     and_then (parse_hex32 hex_hash) (\<lambda>hash.
     and_then (ok_or (checked_add base (unat rel_off)) (Corruption ''CAS offset overflow'')) (\<lambda>offset.
     and_then (ok_or (checked_add offset (unat len)) (Corruption ''CAS extent overflow'')) (\<lambda>end_off.
       if end_off > pool_end then
         Err (Corruption ''CAS blob {id} extends past end of pool ({end} > {pool_end})'')
       else
         and_then (slice_at mmap offset end_off) (\<lambda>data.
         and_then (verify_blob_hash blake3 data hash) (\<lambda>_.
         and_then (push_entry \<lparr>ce_hash = hash, ce_blob = Mapped mmap offset (unat len)\<rparr> store) (\<lambda>store'.
           from_mapped_loop blake3 mmap base pool_end (cid + 1) rest
             (store'\<lparr>cas_by_hash := (cas_by_hash store')(hash \<mapsto> of_nat cid)\<rparr>)))))))"

definition from_mapped ::
  "(bytes \<Rightarrow> bytes) \<Rightarrow> bytes \<Rightarrow> nat \<Rightarrow> nat \<Rightarrow> (u64 \<times> u64) list \<Rightarrow> bytes list \<Rightarrow> cas_store result" where
  "from_mapped blake3 mmap base pool_end dir hashes =
     (if length dir \<noteq> length hashes then
        Err (Corruption ''CAS directory / hash catalog length mismatch'')
      else if base > pool_end \<or> pool_end > length mmap then
        Err (Corruption ''CAS pool bounds are inconsistent'')
      else from_mapped_loop blake3 mmap base pool_end 0 (zip dir hashes) new_memory)"

section \<open>The abstract store\<close>

text \<open>
  A store stands for the list of its blobs. The invariant: every entry's bytes are readable and
  hash to its digest, and the hash index knows every entry and points only at entries with that
  digest.
\<close>

definition entry_data :: "cas_entry \<Rightarrow> bytes" where
  "entry_data e = (case blob_bytes (ce_blob e) of Ok d \<Rightarrow> d | _ \<Rightarrow> [])"

definition blobs :: "cas_store \<Rightarrow> bytes list" where
  "blobs s = map entry_data (cas_entries s)"

definition entry_ok :: "(bytes \<Rightarrow> bytes) \<Rightarrow> cas_entry \<Rightarrow> bool" where
  "entry_ok blake3 e \<longleftrightarrow> blob_bytes (ce_blob e) = Ok (entry_data e) \<and> ce_hash e = blake3 (entry_data e)"

definition cas_inv :: "(bytes \<Rightarrow> bytes) \<Rightarrow> cas_store \<Rightarrow> bool" where
  "cas_inv blake3 s \<longleftrightarrow>
     length (cas_entries s) \<le> isize_max \<and>
     list_all (entry_ok blake3) (cas_entries s) \<and>
     (\<forall>k cid. cas_by_hash s k = Some cid \<longrightarrow>
        unat cid < length (cas_entries s) \<and> ce_hash (cas_entries s ! unat cid) = k) \<and>
     (\<forall>e \<in> set (cas_entries s). cas_by_hash s (ce_hash e) \<noteq> None)"

lemma cas_inv_new [simp]: "cas_inv blake3 new_memory" "cas_inv blake3 (new_dev root)"
  by (simp_all add: cas_inv_def new_memory_def new_dev_def)

lemma new_store_simps [simp]:
  "cas_entries new_memory = []" "cas_entries (new_dev root) = []" "blobs new_memory = []"
  "blobs (new_dev root) = []" "cas_dev_root (new_dev root) = Some root"
  by (simp_all add: new_memory_def new_dev_def blobs_def)

lemma length_blobs [simp]: "length (blobs s) = length (cas_entries s)"
  by (simp add: blobs_def)

lemma entry_ok_Owned [simp]: "entry_ok blake3 \<lparr>ce_hash = blake3 d, ce_blob = Owned d\<rparr>"
  by (simp add: entry_ok_def entry_data_def blob_bytes_def)

lemma entry_data_Owned [simp]: "entry_data \<lparr>ce_hash = k, ce_blob = Owned d\<rparr> = d"
  by (simp add: entry_data_def blob_bytes_def)

lemma unat_of_nat_isize: "n \<le> isize_max \<Longrightarrow> unat (of_nat n :: u64) = n"
  by (simp add: unat_of_nat isize_max_def)

text \<open>Appending a good entry under a fresh id keeps the invariant.\<close>

lemma cas_inv_push:
  assumes "cas_inv blake3 s" "push_entry e s = Ok s'" "entry_ok blake3 e" "k = ce_hash e"
  shows "cas_inv blake3 (s'\<lparr>cas_by_hash := (cas_by_hash s')(k \<mapsto> of_nat (length (cas_entries s)))\<rparr>)"
    and "blobs (s'\<lparr>cas_by_hash := (cas_by_hash s')(k \<mapsto> of_nat (length (cas_entries s)))\<rparr>) =
      blobs s @ [entry_data e]"
proof -
  have s': "s' = s\<lparr>cas_entries := cas_entries s @ [e]\<rparr>" "length (cas_entries s) < isize_max"
    using assms(2) by (auto simp: push_entry_def split: if_splits)
  then show "blobs (s'\<lparr>cas_by_hash := (cas_by_hash s')(k \<mapsto> of_nat (length (cas_entries s)))\<rparr>) =
      blobs s @ [entry_data e]"
    by (simp add: blobs_def)
  show "cas_inv blake3 (s'\<lparr>cas_by_hash := (cas_by_hash s')(k \<mapsto> of_nat (length (cas_entries s)))\<rparr>)"
    using assms s' unat_of_nat_isize [of "length (cas_entries s)"]
    by (fastforce simp: cas_inv_def nth_append)
qed

lemma cas_inv_entry:
  assumes "cas_inv blake3 s" "i < length (cas_entries s)"
  shows "entry_ok blake3 (cas_entries s ! i)" "blobs s ! i = entry_data (cas_entries s ! i)"
  using assms by (auto simp: cas_inv_def list_all_length blobs_def)

text \<open>\<^verbatim>\<open>get\<close> indexes the blob list.\<close>

lemma cas_get_blobs:
  assumes "cas_inv blake3 s"
  shows "cas_get s cid =
    (if unat cid < length (blobs s) then Ok (blobs s ! unat cid) else Err (CasMiss ''id {id}''))"
  using assms cas_inv_entry [of blake3 s "unat cid"]
  by (auto simp: cas_get_def elem_get_def entry_ok_def)

lemma mirror_blob_store: "mirror_blob hash data (s, fs) = (r, (s', fs')) \<Longrightarrow> s' = s"
  by (auto simp: mirror_blob_def split: option.splits prod.splits)

lemma cas_put_cases:
  assumes "cas_put blake3 d (s, fs) = (r, (s', fs'))"
  obtains (hit) cid where "cas_by_hash s (blake3 d) = Some cid" "r = Ok cid" "s' = s" "fs' = fs"
  | (new) s1 where "cas_by_hash s (blake3 d) = None" "r = Ok (of_nat (length (cas_entries s)))"
      "push_entry \<lparr>ce_hash = blake3 d, ce_blob = Owned d\<rparr> s = Ok s1"
      "s' = s1\<lparr>cas_by_hash := (cas_by_hash s1)(blake3 d \<mapsto> of_nat (length (cas_entries s)))\<rparr>"
      "mirror_blob (blake3 d) d (s, fs) = (Ok (), (s, fs'))"
  | (fail) r1 where "cas_by_hash s (blake3 d) = None" "\<not> is_ok r" "s' = s"
      "mirror_blob (blake3 d) d (s, fs) = (r1, (s, fs'))"
proof (cases "cas_by_hash s (blake3 d)")
  case (Some cid)
  with assms show ?thesis by (intro hit) (auto simp: cas_put_def)
next
  case None
  then have *: "act_then (mirror_blob (blake3 d) d) (\<lambda>_ (t, fs).
           case push_entry \<lparr>ce_hash = blake3 d, ce_blob = Owned d\<rparr> t of
             Ok t' \<Rightarrow> (Ok (of_nat (length (cas_entries s))),
               (t'\<lparr>cas_by_hash := (cas_by_hash t')(blake3 d \<mapsto> of_nat (length (cas_entries s)))\<rparr>, fs))
           | Err e \<Rightarrow> (Err e, (t, fs))
           | Panic \<Rightarrow> (Panic, (t, fs))) (s, fs) = (r, (s', fs'))"
    using assms by (simp add: cas_put_def Let_def)
  then show ?thesis
  proof (cases rule: act_then_cases)
    case (Ok u p)
    moreover obtain t fs1 where p: "p = (t, fs1)" by (cases p)
    ultimately have "t = s" using mirror_blob_store by blast
    with Ok p None show ?thesis
      by (auto split: result.splits intro: new fail)
  qed (use None mirror_blob_store in \<open>auto intro: fail\<close>)
qed

text \<open>No two of the blobs in play share a digest.\<close>

definition collision_free :: "(bytes \<Rightarrow> bytes) \<Rightarrow> bytes set \<Rightarrow> cas_store \<Rightarrow> bool" where
  "collision_free blake3 U s \<longleftrightarrow> inj_on blake3 (U \<union> set (blobs s))"

lemma cas_put_abstract:
  assumes inv: "cas_inv blake3 s" and put: "cas_put blake3 d (s, fs) = (Ok cid, (s', fs'))"
    and inj: "collision_free blake3 {d} s"
  shows "cas_inv blake3 s' \<and> unat cid < length (blobs s') \<and> blobs s' ! unat cid = d \<and>
    blobs s' = (if d \<in> set (blobs s) then blobs s else blobs s @ [d])"
  using put
proof (cases rule: cas_put_cases)
  case (hit c)
  then have c: "unat c < length (cas_entries s)" "ce_hash (cas_entries s ! unat c) = blake3 d"
    using inv by (auto simp: cas_inv_def)
  then have "blake3 (blobs s ! unat c) = blake3 d"
    using cas_inv_entry [OF inv c(1)] by (simp add: entry_ok_def)
  moreover have "blobs s ! unat c \<in> set (blobs s)" using c by simp
  ultimately have "blobs s ! unat c = d"
    using inj by (auto simp: collision_free_def inj_on_def)
  with hit c inv \<open>blobs s ! unat c \<in> set (blobs s)\<close> show ?thesis by auto
next
  case (new s1)
  have "d \<notin> set (blobs s)"
    using new(1) inv by (auto simp: blobs_def cas_inv_def entry_ok_def list_all_iff)
  moreover have "length (cas_entries s) < isize_max"
    using new(3) by (auto simp: push_entry_def split: if_splits)
  ultimately show ?thesis
    using cas_inv_push [OF inv new(3)] new unat_of_nat_isize [of "length (cas_entries s)"]
    by (auto simp: nth_append)
qed simp

lemma cas_put_not_ok:
  "cas_put blake3 d (s, fs) = (r, (s', fs')) \<Longrightarrow> \<not> is_ok r \<Longrightarrow> s' = s"
  by (erule cas_put_cases) auto

section \<open>The interface the record layer uses\<close>

text \<open>
  \<open>inv U s\<close>: the state is good and content drawn from \<open>U\<close> may be stored in it. A stored blob is
  readable under its id, now and after any later \<open>put\<close>.
\<close>

locale blob_store =
  fixes put :: "bytes \<Rightarrow> ('s, u64) action"
    and get :: "'s \<Rightarrow> u64 \<Rightarrow> bytes result"
    and inv :: "bytes set \<Rightarrow> 's \<Rightarrow> bool"
  assumes put_inv: "inv U s \<Longrightarrow> d \<in> U \<Longrightarrow> put d s = (r, s') \<Longrightarrow> inv U s'"
    and put_get: "inv U s \<Longrightarrow> d \<in> U \<Longrightarrow> put d s = (Ok cid, s') \<Longrightarrow> get s' cid = Ok d"
    and put_keeps: "inv U s \<Longrightarrow> d \<in> U \<Longrightarrow> put d s = (r, s') \<Longrightarrow> get s i = Ok b \<Longrightarrow> get s' i = Ok b"
    and get_no_panic: "inv U s \<Longrightarrow> get s i \<noteq> Panic"

definition cas_state_inv :: "(bytes \<Rightarrow> bytes) \<Rightarrow> bytes set \<Rightarrow> cas_store \<times> file_system \<Rightarrow> bool" where
  "cas_state_inv blake3 U st \<longleftrightarrow> cas_inv blake3 (fst st) \<and> collision_free blake3 U (fst st)"

lemma collision_free_mono: "collision_free blake3 U s \<Longrightarrow> V \<subseteq> U \<Longrightarrow> collision_free blake3 V s"
  unfolding collision_free_def by (rule inj_on_subset) auto

lemma cas_put_state:
  assumes "cas_state_inv blake3 U (s, fs)" "d \<in> U" "cas_put blake3 d (s, fs) = (r, (s', fs'))"
  shows "cas_state_inv blake3 U (s', fs')" "\<exists>ext. blobs s' = blobs s @ ext"
    "r = Ok cid \<Longrightarrow> cas_get s' cid = Ok d"
proof -
  have inv: "cas_inv blake3 s" "collision_free blake3 U s" "collision_free blake3 {d} s"
    using assms(1,2) collision_free_mono [of blake3 U s "{d}"] by (auto simp: cas_state_inv_def)
  have "cas_state_inv blake3 U (s', fs') \<and> (\<exists>ext. blobs s' = blobs s @ ext) \<and>
      (\<forall>cid. r = Ok cid \<longrightarrow> cas_get s' cid = Ok d)"
  proof (cases "is_ok r")
    case True
    then obtain c where r: "r = Ok c" by (cases r) auto
    note abs = cas_put_abstract [OF inv(1) assms(3) [unfolded r] inv(3)]
    moreover have "collision_free blake3 U s'"
      using inv(2) abs \<open>d \<in> U\<close> by (auto simp: collision_free_def insert_absorb split: if_splits)
    moreover have "cas_get s' c = Ok d"
      using abs cas_get_blobs [of blake3 s' c] by metis
    ultimately show ?thesis
      using r by (auto simp: cas_state_inv_def split: if_splits)
  next
    case False
    with cas_put_not_ok [OF assms(3)] assms(1) show ?thesis by (auto simp: cas_state_inv_def)
  qed
  then show "cas_state_inv blake3 U (s', fs')" "\<exists>ext. blobs s' = blobs s @ ext"
    "r = Ok cid \<Longrightarrow> cas_get s' cid = Ok d" by blast+
qed

interpretation cas: blob_store "cas_put blake3" "\<lambda>st. cas_get (fst st)" "cas_state_inv blake3"
  for blake3
proof
  fix U st d r st'
  assume inv: "cas_state_inv blake3 U st" and "d \<in> U" "cas_put blake3 d st = (r, st')"
  then have p: "cas_state_inv blake3 U (fst st, snd st)"
    "cas_put blake3 d (fst st, snd st) = (r, (fst st', snd st'))" by simp_all
  note put = cas_put_state [OF p(1) \<open>d \<in> U\<close> p(2)]
  from put(1) show inv': "cas_state_inv blake3 U st'" by simp
  fix i b
  assume "cas_get (fst st) i = Ok b"
  with inv inv' put(2) show "cas_get (fst st') i = Ok b"
    by (auto simp: cas_state_inv_def cas_get_blobs [of blake3] nth_append simp del: length_blobs
        split: if_splits)
next
  fix U st d cid st'
  assume "cas_state_inv blake3 U st" "d \<in> U" "cas_put blake3 d st = (Ok cid, st')"
  then show "cas_get (fst st') cid = Ok d"
    using cas_put_state(3) [of blake3 U "fst st" "snd st" d "Ok cid" "fst st'" "snd st'" cid] by simp
next
  fix U st i
  assume "cas_state_inv blake3 U st"
  then show "cas_get (fst st) i \<noteq> Panic"
    by (simp add: cas_state_inv_def cas_get_blobs [of blake3])
qed

text \<open>
  C25: The store is a deduplicating list of blobs. In a store whose invariant holds, and as long
  as BLAKE3 does not collide on the blobs at hand, a successful \<^verbatim>\<open>put\<close> keeps the invariant, returns
  an id under which \<^verbatim>\<open>get\<close> finds exactly those bytes, adds them only if they were not stored
  already, and leaves every other id readable as before.
\<close>

theorem cas_put_get:
  assumes "cas_inv blake3 s" "collision_free blake3 {d} s"
    and "cas_put blake3 d (s, fs) = (Ok cid, (s', fs'))"
  shows "cas_inv blake3 s' \<and> cas_get s' cid = Ok d \<and>
    blobs s' = (if d \<in> set (blobs s) then blobs s else blobs s @ [d]) \<and>
    (\<forall>i b. cas_get s i = Ok b \<longrightarrow> cas_get s' i = Ok b)"
proof -
  note abs = cas_put_abstract [OF assms(1,3,2)]
  have st: "cas_state_inv blake3 {d} (s, fs)" using assms by (simp add: cas_state_inv_def)
  have "cas_get s' cid = Ok d" "\<And>i b. cas_get s i = Ok b \<Longrightarrow> cas_get s' i = Ok b"
    using cas.put_get [OF st _ assms(3)] cas.put_keeps [OF st _ assms(3)] by auto
  with abs show ?thesis by blast
qed

definition sample_digest :: "bytes \<Rightarrow> bytes" where
  "sample_digest d = take 32 (d @ replicate 32 0)"

lemma length_sample_digest [simp]: "length (sample_digest d) = 32"
  by (simp add: sample_digest_def)

definition sample_store :: cas_store where
  "sample_store = \<lparr>cas_by_hash = [sample_digest [7] \<mapsto> 0],
     cas_entries = [\<lparr>ce_hash = sample_digest [7], ce_blob = Owned [7]\<rparr>], cas_dev_root = None\<rparr>"

lemma sample_store_inv: "cas_inv sample_digest sample_store" "blobs sample_store = [[7]]"
  by (auto simp: cas_inv_def sample_store_def blobs_def isize_max_def split: if_splits)

theorem cas_put_get_witness:
  "\<exists>cid s'. cas_put sample_digest [1, 2] (sample_store, \<lparr>fs_files = Map.empty, fs_denied = (\<lambda>_. False)\<rparr>) =
      (Ok cid, (s', \<lparr>fs_files = Map.empty, fs_denied = (\<lambda>_. False)\<rparr>)) \<and>
    cas_get s' cid = Ok [1, 2] \<and> blobs s' = [[7], [1, 2]]"
proof -
  let ?fs = "\<lparr>fs_files = Map.empty, fs_denied = (\<lambda>_. False)\<rparr>"
  obtain s' where put: "cas_put sample_digest [1, 2] (sample_store, ?fs) = (Ok 1, (s', ?fs))"
    by (simp add: cas_put_def sample_store_def sample_digest_def push_entry_def isize_max_def
        mirror_blob_def act_then_def Let_def)
  have "collision_free sample_digest {[1, 2]} sample_store"
    by (simp add: collision_free_def sample_store_inv sample_digest_def)
  from cas_put_get [OF sample_store_inv(1) this put] put show ?thesis
    by (auto simp: sample_store_inv)
qed

section \<open>Digests as text\<close>

lemma hex_nibble_digits: "list_all (\<lambda>n. hex_nibble (hex_digit n) = Ok n) (map of_nat [0..<16])"
  by code_simp

lemma hex_nibble_digit:
  assumes "n < 16"
  shows "hex_nibble (hex_digit n) = Ok n"
proof -
  have "unat n < 16" using assms by (simp add: word_less_nat_alt)
  then have "of_nat (unat n) \<in> set (map of_nat [0..<16] :: u8 list)"
    unfolding set_map set_upt by (intro imageI) simp
  with hex_nibble_digits show ?thesis unfolding list_all_iff by (metis of_nat_unat ucast_id)
qed

lemma length_hex [simp]: "length (hex bs) = 2 * length bs"
  by (induction bs) auto

lemma hex_nth:
  "i < length bs \<Longrightarrow> hex bs ! (2 * i) = hex_digit (drop_bit 4 (bs ! i))"
  "i < length bs \<Longrightarrow> hex bs ! Suc (2 * i) = hex_digit (bs ! i AND 0xF)"
  by (induction bs arbitrary: i) (auto simp: nth_Cons split: nat.splits)

lemma byte_nibbles:
  fixes b :: u8
  shows "drop_bit 4 b < 16" "b AND 0xF < 16" "push_bit 4 (drop_bit 4 b) OR (b AND 0xF) = b"
proof -
  have low: "b AND 0xF = take_bit 4 b" by (simp add: take_bit_eq_mask mask_eq_exp_minus_1)
  have "unat b < 2 ^ LENGTH(8)" by (rule unsigned_less)
  moreover have "unat (drop_bit 4 b) = unat b div 2 ^ 4"
    unfolding unat_drop_bit_eq by (rule drop_bit_eq_div)
  ultimately have "unat (drop_bit 4 b) < 2 ^ 4" by simp
  moreover have "unat (take_bit 4 b) < 2 ^ 4"
    unfolding unsigned_take_bit_eq by (rule take_bit_nat_less_exp)
  ultimately show "drop_bit 4 b < 16" "b AND 0xF < 16"
    by (simp_all only: low word_less_nat_alt) simp_all
  show "push_bit 4 (drop_bit 4 b) OR (b AND 0xF) = b"
    unfolding low by (rule bit_word_eqI) (auto simp: bit_simps)
qed

lemma hex_pair:
  assumes "i < length h"
  shows "and_then (elem_at (hex h) (i * 2)) (\<lambda>a. and_then (hex_nibble a) (\<lambda>hi.
    and_then (elem_at (hex h) (i * 2 + 1)) (\<lambda>b. and_then (hex_nibble b) (\<lambda>lo.
      Ok (push_bit 4 hi OR lo))))) = Ok (h ! i)"
proof -
  have "elem_at (hex h) (i * 2) = Ok (hex_digit (drop_bit 4 (h ! i)))"
    "elem_at (hex h) (i * 2 + 1) = Ok (hex_digit (h ! i AND 0xF))"
    using assms hex_nth [OF assms] by (simp_all add: mult.commute)
  then show ?thesis
    by (simp only: and_then.simps hex_nibble_digit byte_nibbles)
qed

lemma parse_hex32_hex:
  assumes "length h = 32"
  shows "parse_hex32 (hex h) = Ok h"
proof -
  have "collect_results (\<lambda>i. and_then (elem_at (hex h) (i * 2)) (\<lambda>a. and_then (hex_nibble a) (\<lambda>hi.
        and_then (elem_at (hex h) (i * 2 + 1)) (\<lambda>b. and_then (hex_nibble b) (\<lambda>lo.
          Ok (push_bit 4 hi OR lo)))))) [0..<length h] = Ok (map ((!) h) [0..<length h])"
    by (rule collect_results_map) (rule hex_pair, simp)
  then show ?thesis
    unfolding map_nth by (simp only: parse_hex32_def length_hex assms) simp
qed

lemma parse_hex32_no_panic: "parse_hex32 s \<noteq> Panic"
proof -
  have "hex_nibble c \<noteq> Panic" for c by (simp add: hex_nibble_def)
  then show ?thesis
    by (auto simp: parse_hex32_def and_then_eq_Panic intro!: collect_results_not_Panic)
qed

lemma parse_hex32_length: "parse_hex32 s = Ok h \<Longrightarrow> length h = 32 \<and> length s = 64"
  by (auto simp: parse_hex32_def collect_results_Ok dest: list_all2_lengthD split: if_splits)

section \<open>Packing and mapping\<close>

text \<open>The directory of a blob list laid out from offset \<open>off\<close>.\<close>

fun dir_from :: "nat \<Rightarrow> bytes list \<Rightarrow> (u64 \<times> u64) list" where
  "dir_from off [] = []"
| "dir_from off (b # bs) = (of_nat off, of_nat (length b)) # dir_from (off + length b) bs"

lemma length_dir_from [simp]: "length (dir_from off bs) = length bs"
  by (induction bs arbitrary: off) auto

lemma pack_blobs:
  assumes "cas_inv blake3 s"
  shows "pack s = Ok (concat (blobs s), dir_from 0 (blobs s))"
proof -
  have "pack_pool s [length (blobs s) - n..<length (blobs s)] pool =
      Ok (pool @ concat (drop (length (blobs s) - n) (blobs s)),
        dir_from (length pool) (drop (length (blobs s) - n) (blobs s)))"
    if "n \<le> length (blobs s)" for n pool
    using that
  proof (induction n arbitrary: pool)
    case (Suc n)
    define k where "k = length (blobs s) - Suc n"
    have k: "k < length (blobs s)" "length (blobs s) - n = Suc k" using Suc.prems by (auto simp: k_def)
    have "unat (of_nat k :: u64) = k"
      using assms k by (intro unat_of_nat_isize) (auto simp: cas_inv_def)
    then have get: "cas_get s (of_nat k) = Ok (blobs s ! k)"
      unfolding cas_get_blobs [OF assms] using k by simp
    have up: "[k..<length (blobs s)] = k # [length (blobs s) - n..<length (blobs s)]"
      using k by (simp add: upt_conv_Cons del: length_blobs)
    have dr: "drop k (blobs s) = blobs s ! k # drop (length (blobs s) - n) (blobs s)"
      using k by (simp add: Cons_nth_drop_Suc del: length_blobs)
    show ?case
      unfolding k_def [symmetric] up dr using Suc by (simp add: get del: length_blobs)
  qed simp
  from this [of "length (blobs s)" "[]"] show ?thesis by (simp add: pack_def)
qed

lemma entry_Mapped:
  assumes "slice_at mmap off (off + n) = Ok d" "blake3 d = k"
  shows "entry_ok blake3 \<lparr>ce_hash = k, ce_blob = Mapped mmap off n\<rparr>"
    "entry_data \<lparr>ce_hash = k, ce_blob = Mapped mmap off n\<rparr> = d"
  using assms by (simp_all add: entry_ok_def entry_data_def blob_bytes_def del: slice_at_Ok)

lemma from_mapped_loop_blobs:
  assumes "cas_inv blake3 st" "length (cas_entries st) + length bs \<le> isize_max"
    and "cid = length (cas_entries st)"
    and "\<forall>d. length (blake3 d) = 32" "mmap = pre @ concat bs @ post"
    and "length pre = base + off" "length pre + length (concat bs) \<le> pool_end"
    and "pool_end \<le> length mmap" "length mmap \<le> usize_max"
  shows "\<exists>st'. from_mapped_loop blake3 mmap base pool_end cid
      (zip (dir_from off bs) (map (hex \<circ> blake3) bs)) st = Ok st' \<and>
    cas_inv blake3 st' \<and> blobs st' = blobs st @ bs"
  using assms
proof (induction bs arbitrary: st cid pre off)
  case (Cons b bs)
  have off: "base + off + length b \<le> pool_end" "off + length b \<le> usize_max" "base + off + length b \<le> usize_max"
    using Cons.prems by auto
  then have un: "unat (of_nat off :: u64) = off" "unat (of_nat (length b) :: u64) = length b"
    by (auto simp: usize_max_def unat_of_nat)
  have slice: "slice_at mmap (base + off) (base + off + length b) = Ok b"
    using slice_get_append [of pre b "concat bs @ post"] Cons.prems(5,6) by simp
  let ?e = "\<lparr>ce_hash = blake3 b, ce_blob = Mapped mmap (base + off) (length b)\<rparr>"
  note e = entry_Mapped [OF slice refl, of blake3]
  obtain st1 where push: "push_entry ?e st = Ok st1"
    using Cons.prems(2) by (simp add: push_entry_def)
  let ?st = "st1\<lparr>cas_by_hash := (cas_by_hash st1)(blake3 b \<mapsto> of_nat (length (cas_entries st)))\<rparr>"
  have inv: "cas_inv blake3 ?st" "blobs ?st = blobs st @ [b]"
    using cas_inv_push [OF Cons.prems(1) push e(1)] e(2) by simp_all
  have len: "length (cas_entries ?st) = Suc (length (cas_entries st))"
    using push by (auto simp: push_entry_def split: if_splits)
  have "\<exists>st'. from_mapped_loop blake3 mmap base pool_end (cid + 1)
      (zip (dir_from (off + length b) bs) (map (hex \<circ> blake3) bs)) ?st = Ok st' \<and>
    cas_inv blake3 st' \<and> blobs st' = blobs ?st @ bs"
    by (rule Cons.IH [where pre = "pre @ b"]) (use Cons.prems inv len in auto)
  moreover have "from_mapped_loop blake3 mmap base pool_end cid
      (zip (dir_from off (b # bs)) (map (hex \<circ> blake3) (b # bs))) st =
    from_mapped_loop blake3 mmap base pool_end (cid + 1)
      (zip (dir_from (off + length b) bs) (map (hex \<circ> blake3) bs)) ?st"
    using Cons.prems(3,4) off un push slice
    by (simp add: parse_hex32_hex checked_add_def verify_blob_hash_def del: slice_at_Ok slice_at_in)
  ultimately show ?case using inv(2) by (simp only: append_assoc append_Cons append_Nil)
qed simp

text \<open>
  Baking the blob pool loses nothing. Packing a good store and mapping the pool back, wherever
  it lies in a file, with the packed directory and the recorded digests, succeeds and gives a good
  store with the same blobs under the same ids.
\<close>

theorem cas_pack_from_mapped:
  assumes "cas_inv blake3 s" "\<forall>d. length (blake3 d) = 32"
    and "pack s = Ok (pool, dir)" "length (pre @ pool @ post) \<le> usize_max"
  shows "\<exists>s'. from_mapped blake3 (pre @ pool @ post) (length pre) (length pre + length pool) dir
      (map (hex \<circ> ce_hash) (cas_entries s)) = Ok s' \<and>
    cas_inv blake3 s' \<and> blobs s' = blobs s \<and> (\<forall>i. cas_get s' i = cas_get s i)"
proof -
  have p: "pool = concat (blobs s)" "dir = dir_from 0 (blobs s)"
    using pack_blobs [OF assms(1)] assms(3) by simp_all
  have h: "map (hex \<circ> ce_hash) (cas_entries s) = map (hex \<circ> blake3) (blobs s)"
    using assms(1) by (auto simp: cas_inv_def blobs_def entry_ok_def list_all_iff)
  have "\<exists>s'. from_mapped_loop blake3 (pre @ pool @ post) (length pre) (length pre + length pool) 0
      (zip (dir_from 0 (blobs s)) (map (hex \<circ> blake3) (blobs s))) new_memory = Ok s' \<and>
    cas_inv blake3 s' \<and> blobs s' = blobs new_memory @ blobs s"
    by (rule from_mapped_loop_blobs [where pre = pre and post = post])
      (use assms p in \<open>auto simp: cas_inv_def new_memory_def\<close>)
  then obtain s' where "from_mapped blake3 (pre @ pool @ post) (length pre) (length pre + length pool) dir
      (map (hex \<circ> ce_hash) (cas_entries s)) = Ok s'" "cas_inv blake3 s'" "blobs s' = blobs s"
    unfolding h p(2) by (auto simp: from_mapped_def blobs_def new_memory_def)
  then show ?thesis
    using cas_get_blobs [OF assms(1)] cas_get_blobs [of blake3 s'] by auto
qed

theorem cas_pack_from_mapped_witness:
  "\<exists>s'. from_mapped sample_digest ([9, 9] @ [7] @ []) 2 3 [(0, 1)]
      (map (hex \<circ> ce_hash) (cas_entries sample_store)) = Ok s' \<and> cas_get s' 0 = Ok [7]"
proof -
  have "pack sample_store = Ok ([7], [(0, 1)])"
    using pack_blobs [OF sample_store_inv(1)] by (simp add: sample_store_inv)
  moreover have "cas_get sample_store 0 = Ok [7]"
    unfolding cas_get_blobs [OF sample_store_inv(1)] sample_store_inv(2) by simp
  moreover have "length ([9, 9] @ [7] @ []) \<le> usize_max" by (simp add: usize_max_def)
  ultimately show ?thesis
    using cas_pack_from_mapped [OF sample_store_inv(1), of "[7]" "[(0, 1)]" "[9, 9]" "[]"]
    by (auto simp: numeral_2_eq_2 numeral_3_eq_3)
qed

lemma from_mapped_loop_verified:
  assumes "cas_inv blake3 st" "cid = length (cas_entries st)"
    "length (cas_entries st) + length rest \<le> isize_max" "pool_end \<le> length mmap"
  shows "from_mapped_loop blake3 mmap base pool_end cid rest st \<noteq> Panic \<and>
    (\<forall>st'. from_mapped_loop blake3 mmap base pool_end cid rest st = Ok st' \<longrightarrow>
      cas_inv blake3 st' \<and>
      (\<exists>ds. blobs st' = blobs st @ ds \<and> collect_results parse_hex32 (map snd rest) = Ok (map blake3 ds)))"
  using assms
proof (induction blake3 mmap base pool_end cid rest st rule: from_mapped_loop.induct)
  case (2 blake3 mmap base pool_end cid rel_off len hex_hash rest st)
  let ?off = "base + unat rel_off" and ?n = "unat len"
  show ?case
  proof (cases "\<exists>hash. parse_hex32 hex_hash = Ok hash \<and> ?off + ?n \<le> usize_max \<and> ?off + ?n \<le> pool_end \<and>
      blake3 (take ?n (drop ?off mmap)) = hash")
    case True
    let ?d = "take ?n (drop ?off mmap)"
    let ?e = "\<lparr>ce_hash = blake3 ?d, ce_blob = Mapped mmap ?off ?n\<rparr>"
    from True have hash: "parse_hex32 hex_hash = Ok (blake3 ?d)" and off: "?off + ?n \<le> usize_max"
      "?off + ?n \<le> pool_end" by auto
    have slice: "slice_at mmap ?off (?off + ?n) = Ok ?d"
      using off 2(5) slice_at_in [of ?off "?off + ?n" mmap] by (simp del: slice_at_in slice_at_Ok)
    obtain st1 where push: "push_entry ?e st = Ok st1"
      using 2(4) by (simp add: push_entry_def)
    let ?st = "st1\<lparr>cas_by_hash := (cas_by_hash st1)(blake3 ?d \<mapsto> of_nat (length (cas_entries st)))\<rparr>"
    note e = entry_Mapped [OF slice refl, of blake3]
    have inv: "cas_inv blake3 ?st" "blobs ?st = blobs st @ [?d]"
      using cas_inv_push [OF 2(2) push e(1)] e(2) by simp_all
    have len: "length (cas_entries ?st) = Suc (length (cas_entries st))"
      using push by (auto simp: push_entry_def split: if_splits)
    have checks: "checked_add base (unat rel_off) = Some ?off" "checked_add ?off ?n = Some (?off + ?n)"
      "verify_blob_hash blake3 ?d (blake3 ?d) = Ok ()" "\<not> pool_end < ?off + ?n"
      using off by (auto simp: checked_add_def verify_blob_hash_def)
    have step: "from_mapped_loop blake3 mmap base pool_end cid (((rel_off, len), hex_hash) # rest) st =
        from_mapped_loop blake3 mmap base pool_end (cid + 1) rest ?st"
      using 2(3) by (simp add: hash checks slice push del: slice_at_Ok slice_at_in)
    have "length (cas_entries ?st) + length rest \<le> isize_max" "cid + 1 = length (cas_entries ?st)"
      using 2(3,4) len by simp_all
    moreover have "cas_inv blake3 (st1\<lparr>cas_by_hash := (cas_by_hash st1)(blake3 ?d \<mapsto> of_nat cid)\<rparr>)"
      using inv 2(3) by simp
    ultimately have IH: "from_mapped_loop blake3 mmap base pool_end (cid + 1) rest ?st \<noteq> Panic \<and>
      (\<forall>st'. from_mapped_loop blake3 mmap base pool_end (cid + 1) rest ?st = Ok st' \<longrightarrow>
        cas_inv blake3 st' \<and>
        (\<exists>ds. blobs st' = blobs ?st @ ds \<and> collect_results parse_hex32 (map snd rest) = Ok (map blake3 ds)))"
      using 2(1) [OF hash _ _ checks(4) slice checks(3) push] checks 2(3,5) by simp
    have ds: "\<exists>ds'. blobs st' = blobs st @ ds' \<and>
        collect_results parse_hex32 (map snd (((rel_off, len), hex_hash) # rest)) = Ok (map blake3 ds')"
      if "blobs st' = blobs ?st @ ds" "collect_results parse_hex32 (map snd rest) = Ok (map blake3 ds)"
      for st' ds
      using that inv(2) hash by (intro exI [of _ "?d # ds"]) simp
    show ?thesis unfolding step using IH ds by blast
  next
    case False
    then show ?thesis
      using 2(5) parse_hex32_no_panic [of hex_hash]
      by (cases "parse_hex32 hex_hash")
        (auto simp: checked_add_def ok_or_def verify_blob_hash_def)
  qed
qed simp

text \<open>
  A mapped blob pool is checked before it is trusted. Whatever the file, the directory and the
  digests say, \<^verbatim>\<open>from_mapped\<close> does not panic; when it succeeds the store's invariant holds, every
  blob hashes to the digest listed for it, and no \<^verbatim>\<open>get\<close> on the store can panic.
\<close>

theorem cas_from_mapped_verified:
  assumes "length dir \<le> isize_max"
  shows "from_mapped blake3 mmap base pool_end dir hashes \<noteq> Panic \<and>
    (\<forall>s. from_mapped blake3 mmap base pool_end dir hashes = Ok s \<longrightarrow>
      cas_inv blake3 s \<and> collect_results parse_hex32 hashes = Ok (map blake3 (blobs s)) \<and>
      (\<forall>cid. cas_get s cid \<noteq> Panic))"
proof (cases "length dir = length hashes \<and> base \<le> pool_end \<and> pool_end \<le> length mmap")
  case True
  then have "map snd (zip dir hashes) = hashes" by simp
  with True from_mapped_loop_verified [of blake3 new_memory 0 "zip dir hashes" pool_end mmap base] assms
  show ?thesis
    by (auto simp: from_mapped_def cas_get_blobs [of blake3])
next
  case False
  then show ?thesis by (auto simp: from_mapped_def)
qed

theorem cas_from_mapped_verified_witness:
  "\<exists>s. from_mapped sample_digest [9, 9, 7] 2 3 [(0, 1)] [hex (sample_digest [7])] = Ok s \<and>
    map sample_digest (blobs s) = [sample_digest [7]]"
proof -
  let ?r = "from_mapped sample_digest [9, 9, 7] 2 3 [(0, 1)] [hex (sample_digest [7])]"
  have h: "parse_hex32 (hex (sample_digest [7])) = Ok (sample_digest [7])"
    by (rule parse_hex32_hex) simp
  moreover have "is_ok ?r"
    by (simp add: from_mapped_def h checked_add_def usize_max_def verify_blob_hash_def push_entry_def
        isize_max_def)
  ultimately show ?thesis
    using cas_from_mapped_verified [of "[(0, 1)]" sample_digest "[9, 9, 7]" 2 3 "[hex (sample_digest [7])]"]
    by (cases ?r) (auto simp: isize_max_def)
qed

section \<open>Development mode: the blob files\<close>

definition blob_file :: "(bytes \<Rightarrow> bytes) \<Rightarrow> path \<Rightarrow> bytes \<Rightarrow> path" where
  "blob_file blake3 root d = root @ [ascii ''blobs'', take 2 (hex (blake3 d)), hex (blake3 d)]"

lemma blob_path_file:
  "length (blake3 d) = 32 \<Longrightarrow> blob_path root (hex (blake3 d)) = Ok (blob_file blake3 root d)"
  by (simp add: blob_path_def blob_file_def)

lemma blob_file_inject:
  assumes "\<forall>d. length (blake3 d) = 32" "blob_file blake3 root d = blob_file blake3 root d'"
  shows "blake3 d = blake3 d'"
proof -
  have "hex (blake3 d) = hex (blake3 d')" using assms(2) by (simp add: blob_file_def)
  then have "(Ok (blake3 d) :: bytes result) = Ok (blake3 d')"
    using assms(1) by (metis parse_hex32_hex)
  then show ?thesis by simp
qed

lemma write_blob_file_cases:
  assumes "length (blake3 d) = 32" "write_blob_file root (blake3 d) d fs = (r, fs')"
  obtains "r = Ok ()" "fs' = fs" "fs_files fs (blob_file blake3 root d) \<noteq> None"
  | "r = Ok ()" "fs' = fs\<lparr>fs_files := (fs_files fs)(blob_file blake3 root d \<mapsto> d)\<rparr>"
      "fs_files fs (blob_file blake3 root d) = None"
  | "\<not> is_ok r" "fs' = fs"
  using assms
  by (auto simp: write_blob_file_def blob_path_file act_then_def fs_exists_def fs_write_def
      split: if_splits)

text \<open>
  Any sequence of \<^verbatim>\<open>put\<close>s of content from \<open>U\<close>, successful or not, on a store that mirrors into
  \<open>root\<close>.
\<close>

inductive dev_session ::
  "(bytes \<Rightarrow> bytes) \<Rightarrow> bytes set \<Rightarrow> path \<Rightarrow> file_system \<Rightarrow> cas_store \<times> file_system \<Rightarrow> bool"
  for blake3 U root fs0
where
  start: "dev_session blake3 U root fs0 (new_dev root, fs0)"
| put: "dev_session blake3 U root fs0 st \<Longrightarrow> d \<in> U \<Longrightarrow> cas_put blake3 d st = (r, st') \<Longrightarrow>
    dev_session blake3 U root fs0 st'"

text \<open>Files left by earlier sessions under a blob's name hold that blob.\<close>

definition files_genuine :: "(bytes \<Rightarrow> bytes) \<Rightarrow> bytes set \<Rightarrow> path \<Rightarrow> file_system \<Rightarrow> bool" where
  "files_genuine blake3 U root fs \<longleftrightarrow>
     (\<forall>d \<in> U. fs_files fs (blob_file blake3 root d) \<in> {None, Some d})"

definition dev_inv :: "(bytes \<Rightarrow> bytes) \<Rightarrow> bytes set \<Rightarrow> path \<Rightarrow> cas_store \<times> file_system \<Rightarrow> bool" where
  "dev_inv blake3 U root st \<longleftrightarrow>
     cas_state_inv blake3 U st \<and> distinct (blobs (fst st)) \<and> set (blobs (fst st)) \<subseteq> U \<and>
     cas_dev_root (fst st) = Some root \<and> files_genuine blake3 U root (snd st) \<and>
     (\<forall>d \<in> set (blobs (fst st)). fs_files (snd st) (blob_file blake3 root d) = Some d)"

lemma dev_inv_write:
  assumes "dev_inv blake3 U root (s, fs)" "d \<in> U" "\<forall>d. length (blake3 d) = 32"
    and "fs' = fs \<or> fs' = fs\<lparr>fs_files := (fs_files fs)(blob_file blake3 root d \<mapsto> d)\<rparr>"
  shows "dev_inv blake3 U root (s, fs')"
proof -
  have "d' = d" if "d' \<in> U" "blob_file blake3 root d' = blob_file blake3 root d" for d'
    using assms(1,2) blob_file_inject [OF assms(3) that(2)] that(1)
    by (auto simp: dev_inv_def cas_state_inv_def collision_free_def inj_on_def)
  then show ?thesis
    using assms(1,4) by (fastforce simp: dev_inv_def cas_state_inv_def files_genuine_def)
qed

lemma dev_inv_put:
  assumes inv: "dev_inv blake3 U root st" and d: "d \<in> U" and len: "\<forall>d. length (blake3 d) = 32"
    and put: "cas_put blake3 d st = (r, st')"
  shows "dev_inv blake3 U root st'"
proof -
  obtain s fs s' fs' where st: "st = (s, fs)" "st' = (s', fs')" by (cases st, cases st')
  have cs: "cas_state_inv blake3 U (s', fs')"
    using cas.put_inv [OF _ d put] inv st by (simp add: dev_inv_def)
  from put [unfolded st] show ?thesis
  proof (cases rule: cas_put_cases)
    case (hit cid)
    then show ?thesis using inv st by simp
  next
    case (new s1)
    have fresh: "d \<notin> set (blobs s)"
      using new(1) inv st
      by (auto simp: dev_inv_def cas_state_inv_def blobs_def cas_inv_def entry_ok_def list_all_iff)
    have b: "blobs s' = blobs s @ [d]" "cas_dev_root s' = cas_dev_root s"
      using new(3,4) by (auto simp: push_entry_def blobs_def split: if_splits)
    have w: "write_blob_file root (blake3 d) d fs = (Ok (), fs')"
      using new(5) inv st by (auto simp: mirror_blob_def dev_inv_def split: prod.splits)
    have "fs_files fs' (blob_file blake3 root d) = Some d \<and>
        (fs' = fs \<or> fs' = fs\<lparr>fs_files := (fs_files fs)(blob_file blake3 root d \<mapsto> d)\<rparr>)"
      using write_blob_file_cases [of blake3 d, OF _ w] len d inv st
      by (force simp: dev_inv_def files_genuine_def)
    with dev_inv_write [OF inv [unfolded st] d len, of fs'] fresh b cs d show ?thesis
      by (auto simp: st dev_inv_def)
  next
    case fail
    then obtain r1 where "write_blob_file root (blake3 d) d fs = (r1, fs')"
      using inv st by (auto simp: mirror_blob_def dev_inv_def split: prod.splits)
    then have "fs' = fs \<or> fs' = fs\<lparr>fs_files := (fs_files fs)(blob_file blake3 root d \<mapsto> d)\<rparr>"
      using write_blob_file_cases [of blake3 d] len by metis
    with dev_inv_write [OF inv [unfolded st] d len, of fs'] fail show ?thesis by (simp add: st)
  qed
qed

lemma dev_session_inv:
  assumes "dev_session blake3 U root fs0 st" "\<forall>d. length (blake3 d) = 32" "inj_on blake3 U"
    and "files_genuine blake3 U root fs0"
  shows "dev_inv blake3 U root st"
  using assms(1)
proof induction
  case start
  then show ?case
    using assms(3,4) by (simp add: dev_inv_def cas_state_inv_def collision_free_def)
next
  case (put st d r st')
  then show ?case using dev_inv_put assms(2) by blast
qed

lemma load_dev_loop_blobs:
  assumes "\<forall>d. length (blake3 d) = 32" "inj_on blake3 (set (blobs s) \<union> set ds)" "distinct (blobs s @ ds)"
    and "cas_inv blake3 s" "cas_dev_root s = Some root" "length (cas_entries s) + length ds \<le> isize_max"
    and "\<forall>d \<in> set ds. fs_files fs (blob_file blake3 root d) = Some d"
  shows "\<exists>s'. load_dev_loop blake3 root (map (hex \<circ> blake3) ds) (s, fs) = (Ok (), (s', fs)) \<and>
    cas_inv blake3 s' \<and> blobs s' = blobs s @ ds"
  using assms(2-)
proof (induction ds arbitrary: s)
  case (Cons d ds)
  have path: "blob_path root (hex (blake3 d)) = Ok (blob_file blake3 root d)"
    "parse_hex32 (hex (blake3 d)) = Ok (blake3 d)"
    using assms(1) by (simp_all add: blob_path_file parse_hex32_hex)
  have stored: "fs_files fs (blob_file blake3 root d) = Some d" using Cons.prems by simp
  have none: "cas_by_hash s (blake3 d) = None"
  proof (rule ccontr)
    assume "cas_by_hash s (blake3 d) \<noteq> None"
    then obtain i where i: "i < length (cas_entries s)" "ce_hash (cas_entries s ! i) = blake3 d"
      using Cons.prems(3) by (auto simp: cas_inv_def)
    then have "blake3 (blobs s ! i) = blake3 d" "blobs s ! i \<in> set (blobs s)"
      using cas_inv_entry [OF Cons.prems(3) i(1)] by (auto simp: entry_ok_def blobs_def)
    then show False using Cons.prems(1,2) by (auto simp: inj_on_def)
  qed
  obtain s1 where push: "push_entry \<lparr>ce_hash = blake3 d, ce_blob = Owned d\<rparr> s = Ok s1"
    using Cons.prems(5) by (simp add: push_entry_def)
  let ?s = "s1\<lparr>cas_by_hash := (cas_by_hash s1)(blake3 d \<mapsto> of_nat (length (cas_entries s)))\<rparr>"
  have inv: "cas_inv blake3 ?s" "blobs ?s = blobs s @ [d]"
    using cas_inv_push [OF Cons.prems(3) push] by simp_all
  have more: "cas_dev_root ?s = Some root" "length (cas_entries ?s) = Suc (length (cas_entries s))"
    using push Cons.prems(4) by (auto simp: push_entry_def split: if_splits)
  have "cas_put blake3 d (s, fs) = (Ok (of_nat (length (cas_entries s))), (?s, fs))"
    using none push Cons.prems(4) path stored
    by (simp add: cas_put_def mirror_blob_def write_blob_file_def act_then_def fs_exists_def Let_def)
  then have "load_dev_loop blake3 root (map (hex \<circ> blake3) (d # ds)) (s, fs) =
      load_dev_loop blake3 root (map (hex \<circ> blake3) ds) (?s, fs)"
    by (simp add: act_then_def path fs_read_def stored verify_blob_hash_def)
  moreover have "\<exists>s'. load_dev_loop blake3 root (map (hex \<circ> blake3) ds) (?s, fs) = (Ok (), (s', fs)) \<and>
    cas_inv blake3 s' \<and> blobs s' = blobs ?s @ ds"
    by (rule Cons.IH) (use Cons.prems inv more in auto)
  ultimately show ?case using inv(2) by (simp only: append_assoc append_Cons append_Nil)
qed simp

text \<open>
  A development workspace reopens as it was left. After any sequence of \<^verbatim>\<open>put\<close>s, some of which
  may have failed, \<^verbatim>\<open>load_dev\<close> with the digests of the session's store succeeds, changes no file, and
  gives a good store with the same blobs under the same ids; provided BLAKE3 does not collide on
  the content and files already under a blob's name hold that blob.
\<close>

theorem cas_load_dev:
  assumes "dev_session blake3 U root fs0 (s, fs)" "\<forall>d. length (blake3 d) = 32" "inj_on blake3 U"
    and "files_genuine blake3 U root fs0"
  shows "\<exists>s'. load_dev blake3 root (map (hex \<circ> ce_hash) (cas_entries s)) fs = (Ok s', fs) \<and>
    cas_inv blake3 s' \<and> blobs s' = blobs s \<and> (\<forall>i. cas_get s' i = cas_get s i)"
proof -
  have inv: "dev_inv blake3 U root (s, fs)" using dev_session_inv assms by blast
  then have s: "cas_inv blake3 s" "inj_on blake3 (set (blobs s))"
    by (auto simp: dev_inv_def cas_state_inv_def intro: inj_on_subset [OF assms(3)])
  have h: "map (hex \<circ> ce_hash) (cas_entries s) = map (hex \<circ> blake3) (blobs s)"
    using s(1) by (auto simp: cas_inv_def blobs_def entry_ok_def list_all_iff)
  have "\<exists>s'. load_dev_loop blake3 root (map (hex \<circ> blake3) (blobs s)) (new_dev root, fs) = (Ok (), (s', fs)) \<and>
    cas_inv blake3 s' \<and> blobs s' = blobs (new_dev root) @ blobs s"
    by (rule load_dev_loop_blobs) (use assms(2) inv s in \<open>auto simp: dev_inv_def cas_inv_def [of _ s]\<close>)
  then obtain s' where "load_dev blake3 root (map (hex \<circ> ce_hash) (cas_entries s)) fs = (Ok s', fs)"
    "cas_inv blake3 s'" "blobs s' = blobs s"
    unfolding h by (auto simp: load_dev_def)
  then show ?thesis using cas_get_blobs [OF s(1)] cas_get_blobs [of blake3 s'] by auto
qed


theorem cas_load_dev_witness:
  "\<exists>s fs s'. dev_session sample_digest {[7]} [] \<lparr>fs_files = Map.empty, fs_denied = (\<lambda>_. False)\<rparr> (s, fs) \<and>
    blobs s = [[7]] \<and> load_dev sample_digest [] (map (hex \<circ> ce_hash) (cas_entries s)) fs = (Ok s', fs) \<and>
    blobs s' = [[7]]"
proof -
  let ?fs = "\<lparr>fs_files = Map.empty, fs_denied = (\<lambda>_. False)\<rparr>"
  obtain s fs where put: "cas_put sample_digest [7] (new_dev [], ?fs) = (Ok 0, (s, fs))"
    by (simp add: cas_put_def new_dev_def push_entry_def isize_max_def mirror_blob_def act_then_def Let_def
        write_blob_file_def blob_path_file fs_exists_def fs_write_def)
  have "dev_session sample_digest {[7]} [] ?fs (s, fs)"
    by (rule dev_session.put [OF dev_session.start _ put]) simp
  moreover have "blobs s = [[7]]"
    using cas_put_abstract [OF _ put] by (simp add: collision_free_def)
  ultimately show ?thesis
    using cas_load_dev [of sample_digest "{[7]}" "[]" ?fs s fs] by (auto simp: files_genuine_def)
qed

end
