(* ===== verification/Record_Codec.thy ===== *)
theory Record_Codec
  imports Cas Value
begin

text \<open>
  \<^verbatim>\<open>src/storage/record.rs\<close>: rows as record bodies, with large payloads redirected to the blob store,
  and records as an envelope followed by a body. The functions take the store's operation they call
  (\<^verbatim>\<open>put\<close> or \<^verbatim>\<open>get\<close>) as an argument; the round trip is proved once against the interface
  \<open>blob_store\<close> and then holds of the content-addressable store. The packed 128-bit integers of the
  same file are in \<open>Leb128\<close>.
\<close>

section \<open>Encoding\<close>

definition TAG_NULL :: u8 where "TAG_NULL = 0x00"
definition TAG_INT :: u8 where "TAG_INT = 0x01"
definition TAG_INLINE_TEXT :: u8 where "TAG_INLINE_TEXT = 0x02"
definition TAG_INLINE_BLOB :: u8 where "TAG_INLINE_BLOB = 0x03"
definition TAG_CAS_TEXT :: u8 where "TAG_CAS_TEXT = 0x04"
definition TAG_CAS_BLOB :: u8 where "TAG_CAS_BLOB = 0x05"
definition TAG_DECIMAL :: u8 where "TAG_DECIMAL = 0x06"

lemmas tag_defs = TAG_NULL_def TAG_INT_def TAG_INLINE_TEXT_def TAG_INLINE_BLOB_def TAG_CAS_TEXT_def
  TAG_CAS_BLOB_def TAG_DECIMAL_def

definition encode_bytes ::
  "(bytes \<Rightarrow> ('s, u64) action) \<Rightarrow> bytes \<Rightarrow> u8 \<Rightarrow> u8 \<Rightarrow> ('s, bytes) action" where
  "encode_bytes put bs inline_tag cas_tag =
     (if should_intern (length bs) then
        act_then (put bs) (\<lambda>cid. act_return (Ok (cas_tag # to_le 8 cid)))
      else act_return (Ok (inline_tag # to_le 2 (of_nat (length bs) :: u16) @ bs)))"

fun encode_value :: "(bytes \<Rightarrow> ('s, u64) action) \<Rightarrow> val \<Rightarrow> ('s, bytes) action" where
  "encode_value put VNull = act_return (Ok [TAG_NULL])"
| "encode_value put (VInt i) = act_return (Ok (TAG_INT # to_le 8 i))"
| "encode_value put (VText s) = encode_bytes put s TAG_INLINE_TEXT TAG_CAS_TEXT"
| "encode_value put (VBlob b) = encode_bytes put b TAG_INLINE_BLOB TAG_CAS_BLOB"
| "encode_value put (VDecimal m) = act_return (Ok (TAG_DECIMAL # to_le 16 m))"

fun encode_values :: "(bytes \<Rightarrow> ('s, u64) action) \<Rightarrow> val list \<Rightarrow> ('s, bytes) action" where
  "encode_values put [] = act_return (Ok [])"
| "encode_values put (v # vs) =
     act_then (encode_value put v) (\<lambda>out.
     act_then (encode_values put vs) (\<lambda>out'. act_return (Ok (out @ out'))))"

definition encode_row :: "(bytes \<Rightarrow> ('s, u64) action) \<Rightarrow> val list \<Rightarrow> ('s, bytes) action" where
  "encode_row put values =
     (if length values > 65535 then act_return (Err (Schema ''too many columns (max 65535)''))
      else act_then (encode_values put values) (\<lambda>out.
        act_return (Ok (to_le 2 (of_nat (length values) :: u16) @ out))))"

definition encode_record ::
  "(bytes \<Rightarrow> ('s, u64) action) \<Rightarrow> record_envelope \<Rightarrow> val list \<Rightarrow> ('s, bytes) action" where
  "encode_record put envelope values =
     act_then (encode_row put values) (\<lambda>body. act_return (Ok (envelope_encode envelope @ body)))"

section \<open>Decoding\<close>

definition read_u16 :: "u16 reader" where
  "read_u16 = get_le ''record: truncated u16'' 2"

definition read_u64 :: "u64 reader" where
  "read_u64 = get_le ''record: truncated u64'' 8"

definition read_i64 :: "i64 reader" where
  "read_i64 = read_u64"

definition read_i128 :: "i128 reader" where
  "read_i128 = get_le ''record: truncated i128'' 16"

definition read_inline :: "bytes reader" where
  "read_inline buf pos =
     and_then (read_u16 buf pos) (\<lambda>(len, pos').
       get_exact ''record: truncated inline payload'' (unat len) buf pos')"

definition decode_field :: "(u64 \<Rightarrow> bytes result) \<Rightarrow> val reader" where
  "decode_field get body pos =
     and_then (get_byte ''record: truncated at field tag'' body pos) (\<lambda>(tag, pos).
       if tag = TAG_NULL then Ok (VNull, pos)
       else if tag = TAG_INT then map_reader VInt read_i64 body pos
       else if tag = TAG_DECIMAL then map_reader VDecimal read_i128 body pos
       else if tag = TAG_INLINE_TEXT then
         and_then (read_inline body pos) (\<lambda>(bs, pos).
         and_then (ok_or (from_utf8 bs) (Corruption ''record: invalid utf-8 text'')) (\<lambda>s.
           Ok (VText s, pos)))
       else if tag = TAG_INLINE_BLOB then map_reader VBlob read_inline body pos
       else if tag = TAG_CAS_TEXT then
         and_then (read_u64 body pos) (\<lambda>(cid, pos).
         and_then (get cid) (\<lambda>bs.
         and_then (ok_or (from_utf8 bs) (Corruption ''record: invalid utf-8 in CAS'')) (\<lambda>s.
           Ok (VText s, pos))))
       else if tag = TAG_CAS_BLOB then
         and_then (read_u64 body pos) (\<lambda>(cid, pos).
         and_then (get cid) (\<lambda>bs. Ok (VBlob bs, pos)))
       else Err (Corruption ''record: bad field tag 0x{other:02X}''))"

definition decode_row :: "(u64 \<Rightarrow> bytes result) \<Rightarrow> bytes \<Rightarrow> row result" where
  "decode_row get body =
     and_then (read_u16 body 0) (\<lambda>(count, pos).
     and_then (read_many (decode_field get) (unat count) body pos) (\<lambda>(row, _). Ok row))"

definition decode_record :: "(u64 \<Rightarrow> bytes result) \<Rightarrow> bytes \<Rightarrow> (record_envelope \<times> row) result" where
  "decode_record get bs =
     and_then (envelope_decode bs) (\<lambda>envelope.
     and_then (slice_at bs ENVELOPE_LEN (length bs)) (\<lambda>body.
     and_then (decode_row get body) (\<lambda>row. Ok (envelope, row))))"

section \<open>The readers\<close>

interpretation rec_u16: strict_codec read_u16 "to_le 2" "\<lambda>_. True"
  unfolding read_u16_def by (rule get_le_strict) simp

interpretation rec_u64: strict_codec read_u64 "to_le 8" "\<lambda>_. True"
  unfolding read_u64_def by (rule get_le_strict) simp

interpretation rec_i128: strict_codec read_i128 "to_le 16" "\<lambda>_. True"
  unfolding read_i128_def by (rule get_le_strict) simp

lemma read_safe [safe_intros]:
  "safe_reader read_u16" "safe_reader read_u64" "safe_reader read_i64" "safe_reader read_i128"
  unfolding read_u16_def read_u64_def read_i64_def read_i128_def by (intro safe_intros)+

lemma read_inline_safe [safe_intros]: "safe_reader read_inline"
  unfolding read_inline_def [abs_def] by (intro safe_intros)

interpretation rec_inline: codec read_inline "\<lambda>bs. to_le 2 (of_nat (length bs) :: u16) @ bs"
  "\<lambda>bs. length bs < 65536"
  using length_prefixed_codec [where 'a = 16 and n = 2]
  by (simp add: read_inline_def [abs_def] read_u16_def)

lemma decode_field_safe:
  assumes "\<And>cid. get cid \<noteq> Panic"
  shows "safe_reader (decode_field get)"
  unfolding decode_field_def [abs_def] by (intro safe_intros assms) (auto simp: assms)

lemma decode_record_total:
  assumes "safe_reader (decode_field get)"
  shows "decode_record get bs \<noteq> Panic"
proof -
  have "decode_row get body \<noteq> Panic" for body
    using rec_u16.no_panic [of 0 body] rec_u16.in_bounds [of 0 body] safe_reader.many_no_panic [OF assms]
    by (fastforce simp: decode_row_def and_then_eq_Panic)
  moreover have "envelope_decode bs = Ok env \<Longrightarrow> ENVELOPE_LEN \<le> length bs" for env
    by (auto simp: envelope_decode_def split: if_splits)
  ultimately show ?thesis
    by (auto simp: decode_record_def and_then_eq_Panic slice_at_Panic)
qed

section \<open>Round trip\<close>

text \<open>A store that knows more decodes at least as much.\<close>

definition get_extends :: "(u64 \<Rightarrow> bytes result) \<Rightarrow> (u64 \<Rightarrow> bytes result) \<Rightarrow> bool" where
  "get_extends g g' \<longleftrightarrow> (\<forall>i b. g i = Ok b \<longrightarrow> g' i = Ok b)"

lemma get_extends_refl [simp]: "get_extends g g"
  by (simp add: get_extends_def)

lemma get_extends_trans: "get_extends g g' \<Longrightarrow> get_extends g' g'' \<Longrightarrow> get_extends g g''"
  by (simp add: get_extends_def)

lemma decode_field_extends:
  assumes "get_extends g g'" "decode_field g buf pos = Ok r"
  shows "decode_field g' buf pos = Ok r"
proof -
  from assms(2) obtain t p where t: "get_byte ''record: truncated at field tag'' buf pos = Ok (t, p)"
    by (auto simp: decode_field_def and_then_eq_Ok)
  consider "t = TAG_CAS_TEXT" | "t = TAG_CAS_BLOB" | "t \<noteq> TAG_CAS_TEXT" "t \<noteq> TAG_CAS_BLOB" by blast
  then show ?thesis
  proof cases
    case 3
    then have "decode_field g' buf pos = decode_field g buf pos"
      by (simp add: decode_field_def t cong: if_cong)
    then show ?thesis using assms(2) by simp
  qed (use assms t in \<open>auto simp: decode_field_def tag_defs and_then_eq_Ok get_extends_def\<close>)
qed

lemma read_many_extends:
  assumes "\<And>pos r. rd buf pos = Ok r \<Longrightarrow> rd' buf pos = Ok r" "read_many rd n buf pos = Ok r"
  shows "read_many rd' n buf pos = Ok r"
  using assms(2)
proof (induction n arbitrary: pos r)
  case (Suc n)
  then obtain x p xs p' where x: "rd buf pos = Ok (x, p)" and xs: "read_many rd n buf p = Ok (xs, p')"
    and r: "r = (x # xs, p')"
    by (auto simp: and_then_eq_Ok)
  from assms(1) [OF x] Suc.IH [OF xs] r show ?case by simp
qed simp

lemma decode_row_extends:
  assumes "get_extends g g'" "decode_row g body = Ok r"
  shows "decode_row g' body = Ok r"
proof -
  from assms(2) obtain n p pos' where "read_u16 body 0 = Ok (n, p)"
    "read_many (decode_field g) (unat n) body p = Ok (r, pos')"
    by (auto simp: decode_row_def and_then_eq_Ok)
  moreover from read_many_extends [OF decode_field_extends [OF assms(1)] this(2)]
  have "read_many (decode_field g') (unat n) body p = Ok (r, pos')" .
  ultimately show ?thesis by (simp add: decode_row_def)
qed

fun payload :: "val \<Rightarrow> bytes set" where
  "payload (VText s) = {s}"
| "payload (VBlob b) = {b}"
| "payload _ = {}"

definition row_ok :: "val list \<Rightarrow> bool" where
  "row_ok vs \<longleftrightarrow> list_all value_ok vs"

text \<open>Decoding the fixed-size fields and the inline ones.\<close>

lemmas read_fields = read_after_tag [OF rec_u64.codec_axioms] read_after_tag [OF rec_i128.codec_axioms]
  read_after_tag [OF rec_inline.codec_axioms, simplified]

context blob_store begin

lemma encode_bytes_state:
  assumes "inv U s" "bs \<in> U" "encode_bytes put bs ti tc s = (r, s')"
  shows "inv U s' \<and> get_extends (get s) (get s')"
  using assms(1,3) unfolding encode_bytes_def
  by (auto simp: get_extends_def split: if_splits elim!: act_then_cases
      dest: put_inv [OF assms(1,2)] put_keeps [OF assms(1,2)])

lemma encode_value_state:
  assumes "inv U s" "payload v \<subseteq> U" "encode_value put v s = (r, s')"
  shows "inv U s' \<and> get_extends (get s) (get s')"
  using assms encode_bytes_state [OF assms(1)] by (cases v) auto

lemma encode_bytes_cases:
  assumes "inv U s" "bs \<in> U" "encode_bytes put bs ti tc s = (Ok out, s')"
  obtains (interned) cid where "out = tc # to_le 8 cid" "get s' cid = Ok bs"
  | (inline) "out = ti # to_le 2 (of_nat (length bs) :: u16) @ bs" "length bs < 65536"
  using assms(3) put_get [OF assms(1,2)] unfolding encode_bytes_def
  by (auto simp: should_intern_def size_defs act_then_eq_Ok split: if_splits)

lemma decode_encode_value:
  assumes "inv U s" "payload v \<subseteq> U" "value_ok v" "encode_value put v s = (Ok out, s')"
  shows "decode_field (get s') (pre @ out @ post) (length pre) = Ok (v, length pre + length out)"
proof (cases v)
  case (VText t)
  with assms have t: "t \<in> U" "utf8_valid t"
    "encode_bytes put t TAG_INLINE_TEXT TAG_CAS_TEXT s = (Ok out, s')" by auto
  from encode_bytes_cases [OF assms(1) t(1,3)] t(2) VText show ?thesis
    by cases (auto simp: decode_field_def get_tag tag_defs read_fields)
next
  case (VBlob b)
  with assms have "b \<in> U" "encode_bytes put b TAG_INLINE_BLOB TAG_CAS_BLOB s = (Ok out, s')" by auto
  from encode_bytes_cases [OF assms(1) this] VBlob show ?thesis
    by cases (auto simp: decode_field_def get_tag tag_defs read_fields map_reader_def)
qed (use assms(4) in \<open>auto simp: decode_field_def get_tag tag_defs read_fields map_reader_def read_i64_def\<close>)

lemma decode_encode_values:
  assumes "inv U s" "\<Union> (payload ` set vs) \<subseteq> U" "row_ok vs" "encode_values put vs s = (Ok out, s')"
  shows "inv U s' \<and> get_extends (get s) (get s') \<and>
    (\<forall>pre post. read_many (decode_field (get s')) (length vs) (pre @ out @ post) (length pre) =
      Ok (vs, length pre + length out))"
  using assms
proof (induction vs arbitrary: s out)
  case (Cons v vs)
  from Cons.prems(4) obtain o1 s1 o2 where
    v: "encode_value put v s = (Ok o1, s1)" and vs: "encode_values put vs s1 = (Ok o2, s')"
    and out: "out = o1 @ o2"
    by (auto simp: act_then_eq_Ok)
  have pv: "payload v \<subseteq> U" "value_ok v" "\<Union> (payload ` set vs) \<subseteq> U" "row_ok vs"
    using Cons.prems by (auto simp: row_ok_def)
  have st: "inv U s1" "get_extends (get s) (get s1)"
    using encode_value_state [OF Cons.prems(1) pv(1) v] by auto
  note IH = Cons.IH [OF st(1) pv(3,4) vs]
  have "decode_field (get s') (pre @ o1 @ o2 @ post) (length pre) = Ok (v, length pre + length o1)" for pre post
    using IH decode_field_extends decode_encode_value [OF Cons.prems(1) pv(1,2) v] by blast
  moreover have "read_many (decode_field (get s')) (length vs) (pre @ o1 @ o2 @ post) (length pre + length o1) =
      Ok (vs, length pre + length o1 + length o2)" for pre post
    using IH [THEN conjunct2, THEN conjunct2, rule_format, of "pre @ o1" post] by simp
  ultimately show ?case
    using IH st get_extends_trans by (auto simp: out)
qed simp

lemma decode_encode_row:
  assumes "inv U s" "\<Union> (payload ` set vs) \<subseteq> U" "row_ok vs" "encode_row put vs s = (Ok out, s')"
  shows "inv U s' \<and> get_extends (get s) (get s') \<and> decode_row (get s') (out @ post) = Ok vs"
proof -
  define n where "n = (of_nat (length vs) :: u16)"
  from assms(4) obtain o1 where vs: "encode_values put vs s = (Ok o1, s')" "length vs \<le> 65535"
    and out: "out = to_le 2 n @ o1"
    by (auto simp: encode_row_def act_then_eq_Ok n_def split: if_splits)
  have n: "unat n = length vs" using vs(2) by (simp add: n_def unat_of_nat)
  have "read_u16 (out @ post) 0 = Ok (n, 2)"
    using rec_u16.dec_enc [of "[]" n "o1 @ post"] by (simp add: out)
  moreover note dec = decode_encode_values [OF assms(1-3) vs(1)]
  from dec have "read_many (decode_field (get s')) (length vs) (to_le 2 n @ o1 @ post) (length (to_le 2 n)) =
      Ok (vs, length (to_le 2 n) + length o1)" by blast
  ultimately show ?thesis using dec by (simp add: decode_row_def n out)
qed

lemma decode_encode_record:
  assumes "inv U s" "\<Union> (payload ` set vs) \<subseteq> U" "row_ok vs"
    "encode_record put env vs s = (Ok out, s')" "get_extends (get s') g"
  shows "decode_record g (out @ post) = Ok (env, vs)"
proof -
  from assms(4) obtain body where body: "encode_row put vs s = (Ok body, s')"
    and out: "out = envelope_encode env @ body"
    by (auto simp: encode_record_def act_then_eq_Ok)
  have "decode_row g (body @ post) = Ok vs"
    using decode_encode_row [OF assms(1-3) body] decode_row_extends [OF assms(5)] by blast
  then show ?thesis by (simp add: decode_record_def out)
qed

end


text \<open>
  In memory an encoding cannot fail: only the column count, a blob file that cannot be written or
  the size of the store can stop it.
\<close>

lemma encode_value_memory:
  assumes "cas_dev_root s = None" "length (cas_entries s) < isize_max"
  shows "\<exists>out s'. encode_value (cas_put blake3) v (s, fs) = (Ok out, (s', fs)) \<and> cas_dev_root s' = None \<and>
    length (cas_entries s') \<le> Suc (length (cas_entries s))"
proof -
  have put: "\<exists>cid s'. cas_put blake3 d (s, fs) = (Ok cid, (s', fs)) \<and> cas_dev_root s' = None \<and>
    length (cas_entries s') \<le> Suc (length (cas_entries s))" for d
    using assms by (auto simp: cas_put_def mirror_blob_def push_entry_def act_then_def Let_def split: option.splits)
  have "\<exists>out s'. encode_bytes (cas_put blake3) d ti tc (s, fs) = (Ok out, (s', fs)) \<and>
      cas_dev_root s' = None \<and> length (cas_entries s') \<le> Suc (length (cas_entries s))" for d ti tc
    using assms(1) put [of d] by (auto simp: encode_bytes_def act_then_def)
  then show ?thesis using assms(1) by (cases v) auto
qed

lemma encode_values_memory:
  assumes "cas_dev_root s = None" "length (cas_entries s) + length vs \<le> isize_max"
  shows "\<exists>out s'. encode_values (cas_put blake3) vs (s, fs) = (Ok out, (s', fs))"
  using assms
proof (induction vs arbitrary: s)
  case (Cons v vs)
  obtain o1 s1 where v: "encode_value (cas_put blake3) v (s, fs) = (Ok o1, (s1, fs))"
    "cas_dev_root s1 = None" "length (cas_entries s1) \<le> Suc (length (cas_entries s))"
    using encode_value_memory [of s blake3 v fs] Cons.prems by auto
  obtain o2 s2 where "encode_values (cas_put blake3) vs (s1, fs) = (Ok o2, (s2, fs))"
    using Cons.IH [OF v(2)] Cons.prems v(3) by auto
  with v(1) show ?case by simp
qed simp

text \<open>
  C16: Records survive storage. For any row whose text is valid UTF-8, encoding it with its envelope
  into a good blob store (BLAKE3 not colliding on the row's payloads and the stored blobs) gives
  bytes from which \<^verbatim>\<open>decode_record\<close> recovers the same envelope and row, whatever follows them and
  whatever is added to the store afterwards; the store stays good. With an in-memory store that has
  room and at most 65535 columns the encoding does succeed.
\<close>

theorem record_roundtrip:
  assumes "cas_state_inv blake3 U (s, fs)" "\<Union> (payload ` set vs) \<subseteq> U" "row_ok vs"
  shows "(\<forall>out s' fs' later rest. encode_record (cas_put blake3) env vs (s, fs) = (Ok out, (s', fs')) \<longrightarrow>
      get_extends (cas_get s') (cas_get later) \<longrightarrow>
      cas_state_inv blake3 U (s', fs') \<and> decode_record (cas_get later) (out @ rest) = Ok (env, vs)) \<and>
    (cas_dev_root s = None \<and> length (cas_entries s) + length vs \<le> isize_max \<and> length vs \<le> 65535 \<longrightarrow>
      (\<exists>out s'. encode_record (cas_put blake3) env vs (s, fs) = (Ok out, (s', fs))))"
proof (intro conjI allI impI)
  fix out s' fs' later rest
  assume enc: "encode_record (cas_put blake3) env vs (s, fs) = (Ok out, (s', fs'))"
    and ext: "get_extends (cas_get s') (cas_get later)"
  show "decode_record (cas_get later) (out @ rest) = Ok (env, vs)"
    using cas.decode_encode_record [OF assms enc] ext by simp
  from enc obtain body where "encode_row (cas_put blake3) vs (s, fs) = (Ok body, (s', fs'))"
    by (auto simp: encode_record_def act_then_eq_Ok)
  from cas.decode_encode_row [OF assms this] show "cas_state_inv blake3 U (s', fs')" by blast
next
  assume "cas_dev_root s = None \<and> length (cas_entries s) + length vs \<le> isize_max \<and> length vs \<le> 65535"
  then obtain out s' where
    "encode_values (cas_put blake3) vs (s, fs) = (Ok out, (s', fs))" "length vs \<le> 65535"
    using encode_values_memory [of s vs blake3 fs] by auto
  then show "\<exists>out s'. encode_record (cas_put blake3) env vs (s, fs) = (Ok out, (s', fs))"
    by (auto simp: encode_record_def encode_row_def act_then_eq_Ok)
qed

theorem record_roundtrip_witness:
  "\<exists>out s'. encode_record (cas_put sample_digest) (envelope_new 3 0) [VNull, VInt 5, VText [104, 105]]
      (sample_store, \<lparr>fs_files = Map.empty, fs_denied = (\<lambda>_. False)\<rparr>) =
        (Ok out, (s', \<lparr>fs_files = Map.empty, fs_denied = (\<lambda>_. False)\<rparr>)) \<and>
    decode_record (cas_get s') (out @ [0, 0]) = Ok (envelope_new 3 0, [VNull, VInt 5, VText [104, 105]])"
proof -
  let ?fs = "\<lparr>fs_files = Map.empty, fs_denied = (\<lambda>_. False)\<rparr>"
  let ?vs = "[VNull, VInt 5, VText [104, 105]]"
  have st: "cas_state_inv sample_digest {[104, 105]} (sample_store, ?fs)"
    by (auto simp: cas_state_inv_def sample_store_inv collision_free_def sample_digest_def)
  have ok: "row_ok ?vs" by (simp add: row_ok_def)
  have room: "cas_dev_root sample_store = None" "length (cas_entries sample_store) + length ?vs \<le> isize_max"
    by (simp_all add: sample_store_def isize_max_def)
  have "\<Union> (payload ` set ?vs) \<subseteq> {[104, 105]}" by simp
  note record_roundtrip [OF st this ok, of "envelope_new 3 0"]
  with room show ?thesis by fastforce
qed

text \<open>
  Decoding a record from untrusted bytes never panics. Against a good blob store,
  \<^verbatim>\<open>decode_record\<close> returns a row or an error for every byte string.
\<close>

theorem record_decode_total:
  assumes "cas_inv blake3 s"
  shows "decode_record (cas_get s) bs \<noteq> Panic"
proof -
  have "cas_get s cid \<noteq> Panic" for cid
    using cas_get_blobs [OF assms] by simp
  from decode_field_safe [OF this] show ?thesis
    by (rule decode_record_total)
qed

theorem record_decode_total_witness:
  "decode_record (cas_get sample_store) (replicate 24 0 @ [2, 0, 4, 255]) \<noteq> Panic"
  by (rule record_decode_total [OF sample_store_inv(1)])

end
