(* ===== verification/Row_Page.thy ===== *)
theory Row_Page
  imports Core_Types File_System
begin

text \<open>
  The slotted row page of \<^verbatim>\<open>src/storage/page.rs\<close> (\<^verbatim>\<open>RowPage\<close>, \<^verbatim>\<open>RowPageRef\<close>, \<^verbatim>\<open>read_slot\<close>): a buffer of
  4096 bytes in which the slot array grows up from the header and the payloads grow down from the
  end. The abstract view of a page is its header and the list of its records; every operation is
  shown to act on that list (append, index, patch one envelope), and reading a page that is not
  well formed is shown to give an error and no panic.
\<close>

section \<open>Slots\<close>

definition SLOT_SIZE :: nat where "SLOT_SIZE = 4"

definition read_slot :: "bytes \<Rightarrow> u16 \<Rightarrow> u16 \<Rightarrow> (nat \<times> nat) result" where
  "read_slot buf index slot_count =
     (if index \<ge> slot_count then Err (OutOfBounds (unat index) (unat slot_count))
      else
        let slot_pos = PAGE_HEADER_SIZE + unat index * SLOT_SIZE in
        and_then (ok_or (slice_get buf slot_pos (slot_pos + SLOT_SIZE))
            (Corruption ''slot array out of page bounds'')) (\<lambda>entry.
          Ok (unat (from_le (take 2 entry) :: u16), unat (from_le (take 2 (drop 2 entry)) :: u16))))"

section \<open>The page\<close>

type_synonym row_page = bytes

definition row_page_new :: "page_id \<Rightarrow> row_page" where
  "row_page_new page_id =
     overwrite (replicate PAGE_SIZE 0) 0 (row_header_encode (row_header_new page_id))"

definition row_page_from_bytes :: "bytes \<Rightarrow> row_page result" where
  "row_page_from_bytes buf =
     and_then (row_header_decode buf) (\<lambda>header.
       let slot_array_end = PAGE_HEADER_SIZE + unat (rh_slot_count header) * SLOT_SIZE;
           free = unat (rh_free_space_ptr header)
       in if free > PAGE_SIZE \<or> slot_array_end > free
          then Err (Corruption ''row page header out of range: slot_count={}, free_space_ptr={}'')
          else Ok buf)"

text \<open>\<^verbatim>\<open>RowPageHeader::decode(..).expect(..)\<close>\<close>

definition row_page_header :: "row_page \<Rightarrow> row_page_header result" where
  "row_page_header page = (case row_header_decode page of Ok h \<Rightarrow> Ok h | _ \<Rightarrow> Panic)"

definition set_header :: "row_page_header \<Rightarrow> row_page \<Rightarrow> row_page result" where
  "set_header header page = copy_into page 0 (row_header_encode header)"

definition row_slot_count :: "row_page \<Rightarrow> u16 result" where
  "row_slot_count page = and_then (row_page_header page) (\<lambda>h. Ok (rh_slot_count h))"

definition free_space :: "row_page \<Rightarrow> nat result" where
  "free_space page =
     and_then (row_page_header page) (\<lambda>header.
       let slot_array_end = PAGE_HEADER_SIZE + unat (rh_slot_count header) * SLOT_SIZE
       in usize_sub (unat (rh_free_space_ptr header)) slot_array_end)"

text \<open>
  The outcome of \<^verbatim>\<open>insert\<close> and the page it leaves. The page changes only after the space check.
\<close>

definition insert_write :: "row_page_header \<Rightarrow> nat \<Rightarrow> nat \<Rightarrow> bytes \<Rightarrow> row_page \<Rightarrow> (u16 \<times> row_page) result" where
  "insert_write header slot_array_end free_ptr rec page =
     and_then (usize_sub free_ptr (length rec)) (\<lambda>new_offset.
     and_then (copy_into page new_offset rec) (\<lambda>page.
     and_then (copy_into page slot_array_end (to_le 2 (of_nat new_offset :: u16))) (\<lambda>page.
     and_then (copy_into page (slot_array_end + 2) (to_le 2 (of_nat (length rec) :: u16))) (\<lambda>page.
       if rh_slot_count header = - 1 then Panic
       else
         and_then (set_header (header\<lparr>rh_slot_count := rh_slot_count header + 1,
             rh_free_space_ptr := of_nat new_offset\<rparr>) page) (\<lambda>page.
           Ok (rh_slot_count header, page))))))"

definition row_insert :: "bytes \<Rightarrow> row_page \<Rightarrow> (u16 \<times> row_page) result" where
  "row_insert rec page =
     and_then (row_page_header page) (\<lambda>header.
       let slot_array_end = PAGE_HEADER_SIZE + unat (rh_slot_count header) * SLOT_SIZE;
           free_ptr = unat (rh_free_space_ptr header);
           need = length rec + SLOT_SIZE
       in and_then (usize_sub free_ptr slot_array_end) (\<lambda>available.
            if need > available then Err (PageFull need available)
            else insert_write header slot_array_end free_ptr rec page))"

definition row_slot :: "row_page \<Rightarrow> u16 \<Rightarrow> (nat \<times> nat) result" where
  "row_slot page index = and_then (row_slot_count page) (\<lambda>n. read_slot page index n)"

definition row_record :: "row_page \<Rightarrow> u16 \<Rightarrow> bytes result" where
  "row_record page index =
     and_then (row_slot page index) (\<lambda>(offset, len).
       ok_or (slice_get page offset (offset + len)) (Corruption ''row record out of page bounds''))"

definition row_patch_envelope_deleted :: "u16 \<Rightarrow> u64 \<Rightarrow> row_page \<Rightarrow> row_page result" where
  "row_patch_envelope_deleted index deleted page =
     and_then (row_slot page index) (\<lambda>(offset, len).
       if len < ENVELOPE_LEN then Err (Corruption ''row record is shorter than its MVCC envelope'')
       else
         and_then (ok_or (slice_get page (offset + 8) (offset + 16))
             (Corruption ''row envelope is out of page bounds'')) (\<lambda>_.
           Ok (overwrite page (offset + 8) (to_le 8 deleted))))"

text \<open>\<^verbatim>\<open>iter\<close>: \<^verbatim>\<open>map_while\<close> stops at the first slot that cannot be read.\<close>

fun iter_while :: "('i \<Rightarrow> 'a result) \<Rightarrow> 'i list \<Rightarrow> ('i \<times> 'a) list" where
  "iter_while f [] = []"
| "iter_while f (i # is) = (case f i of Ok r \<Rightarrow> (i, r) # iter_while f is | _ \<Rightarrow> [])"

definition row_iter :: "row_page \<Rightarrow> (u16 \<times> bytes) list result" where
  "row_iter page =
     and_then (row_slot_count page) (\<lambda>n. Ok (iter_while (row_record page) (map of_nat [0..<unat n])))"

definition row_next_page :: "row_page \<Rightarrow> page_id option result" where
  "row_next_page page =
     and_then (row_page_header page) (\<lambda>h. Ok (if rh_next_page h = NO_PAGE then None else Some (rh_next_page h)))"

definition set_next_page :: "page_id option \<Rightarrow> row_page \<Rightarrow> row_page result" where
  "set_next_page next page =
     and_then (row_page_header page) (\<lambda>header.
       set_header (header\<lparr>rh_next_page := (case next of Some p \<Rightarrow> p | None \<Rightarrow> NO_PAGE)\<rparr>) page)"

text \<open>
  \<^verbatim>\<open>RowPageRef\<close> borrows a buffer of any length; its accessors are those of the page.
\<close>

definition row_ref_new :: "bytes \<Rightarrow> bytes result" where
  "row_ref_new buf = and_then (row_header_decode buf) (\<lambda>_. Ok buf)"

definition row_ref_record :: "bytes \<Rightarrow> u16 \<Rightarrow> bytes result" where
  "row_ref_record buf index = row_record buf index"

definition row_ref_next_page :: "bytes \<Rightarrow> page_id option result" where
  "row_ref_next_page buf = row_next_page buf"

definition row_ref_iter :: "bytes \<Rightarrow> (u16 \<times> bytes) list result" where
  "row_ref_iter buf = row_iter buf"

section \<open>The abstract page\<close>

text \<open>
  \<open>slot_entries hi rs\<close>: the slot array of the records \<open>rs\<close> stacked downward from \<open>hi\<close>.
  \<open>row_rep page h rs\<close>: the page is a header decoding to \<open>h\<close>, the slot array, a gap, and the records
  with the newest first.
\<close>

fun slot_entries :: "nat \<Rightarrow> bytes list \<Rightarrow> bytes" where
  "slot_entries hi [] = []"
| "slot_entries hi (r # rs) =
     to_le 2 (of_nat (hi - length r) :: u16) @ to_le 2 (of_nat (length r) :: u16) @
     slot_entries (hi - length r) rs"

definition total :: "bytes list \<Rightarrow> nat" where
  "total rs = length (concat rs)"

definition row_rep :: "row_page \<Rightarrow> row_page_header \<Rightarrow> bytes list \<Rightarrow> bool" where
  "row_rep page h rs \<longleftrightarrow>
     (\<exists>hdr gap. page = hdr @ slot_entries PAGE_SIZE rs @ gap @ concat (rev rs) \<and>
        length hdr = PAGE_HEADER_SIZE \<and> length page = PAGE_SIZE \<and> row_header_decode hdr = Ok h \<and>
        unat (rh_slot_count h) = length rs \<and> unat (rh_free_space_ptr h) = PAGE_SIZE - total rs)"

lemma total_simps [simp]: "total [] = 0" "total (r # rs) = length r + total rs"
  "total (rs @ rs') = total rs + total rs'" "total (rev rs) = total rs"
  by (simp_all add: total_def)

lemma length_concat_total [simp]: "length (concat rs) = total rs" "sum_list (map length rs) = total rs"
  by (simp_all add: total_def length_concat)

lemma length_slot_entries [simp]: "length (slot_entries hi rs) = 4 * length rs"
  by (induction rs arbitrary: hi) auto

lemma slot_entries_append:
  "slot_entries hi (rs @ rs') = slot_entries hi rs @ slot_entries (hi - total rs) rs'"
  by (induction rs arbitrary: hi) auto

lemma row_header_decode_prefix:
  "PAGE_HEADER_SIZE \<le> length hdr \<Longrightarrow> row_header_decode (hdr @ rest) = row_header_decode hdr"
  by (simp add: row_header_decode_cases size_defs nth_append)

lemma row_repE:
  assumes "row_rep page h rs"
  obtains hdr gap where "page = hdr @ slot_entries PAGE_SIZE rs @ gap @ concat (rev rs)"
    "length hdr = 28" "row_header_decode hdr = Ok h" "row_page_header page = Ok h"
    "28 + 4 * length rs + length gap + total rs = 4096"
    "unat (rh_slot_count h) = length rs" "unat (rh_free_space_ptr h) = 28 + 4 * length rs + length gap"
proof -
  from assms obtain hdr gap where *: "page = hdr @ slot_entries PAGE_SIZE rs @ gap @ concat (rev rs)"
    "length hdr = PAGE_HEADER_SIZE" "length page = PAGE_SIZE" "row_header_decode hdr = Ok h"
    "unat (rh_slot_count h) = length rs" "unat (rh_free_space_ptr h) = PAGE_SIZE - total rs"
    unfolding row_rep_def by blast
  from arg_cong [OF *(1), of length] * have len: "28 + 4 * length rs + length gap + total rs = 4096"
    by (simp add: size_defs)
  from * have "row_page_header page = Ok h"
    by (simp add: row_page_header_def row_header_decode_prefix)
  with * len show thesis by (intro that [of hdr gap]) (auto simp: size_defs)
qed

lemma row_repI:
  assumes "page = hdr @ slot_entries PAGE_SIZE rs @ gap @ concat (rev rs)" "length hdr = 28"
    "row_header_decode hdr = Ok h" "28 + 4 * length rs + length gap + total rs = 4096"
    "unat (rh_slot_count h) = length rs" "unat (rh_free_space_ptr h) = 28 + 4 * length rs + length gap"
  shows "row_rep page h rs"
  unfolding row_rep_def
  by (rule exI [of _ hdr], rule exI [of _ gap]) (use assms in \<open>auto simp: size_defs\<close>)

lemma row_rep_new: "row_rep (row_page_new pid) (row_header_new pid) []"
  by (rule row_repI [of _ "row_header_encode (row_header_new pid)" _ "replicate 4068 0"])
    (use row_header_decode_encode [of "row_header_new pid" "[]"] in
      \<open>auto simp: row_page_new_def overwrite_def size_defs row_header_new_def\<close>)

section \<open>Operations act on the record list\<close>

lemma unat_of_nat_u16: "n < 65536 \<Longrightarrow> unat (of_nat n :: u16) = n"
  by (simp add: unat_of_nat)

lemma u16_increment:
  fixes x :: u16
  assumes "unat x < 65535"
  shows "x \<noteq> - 1 \<and> unat (x + 1) = Suc (unat x)"
proof -
  have "x + 1 = of_nat (Suc (unat x))" by simp
  moreover have "Suc (unat x) < 65536" using assms by simp
  ultimately have "unat (x + 1) = Suc (unat x)" by (simp only: unat_of_nat_u16)
  moreover from this have "x \<noteq> - 1" by auto
  ultimately show ?thesis by blast
qed

lemma free_space_rep:
  assumes "row_rep page h rs"
  shows "free_space page = Ok (PAGE_SIZE - PAGE_HEADER_SIZE - SLOT_SIZE * length rs - total rs)"
  using assms by (rule row_repE) (auto simp: free_space_def size_defs SLOT_SIZE_def Let_def)

definition record_fits :: "bytes list \<Rightarrow> bytes \<Rightarrow> bool" where
  "record_fits rs r \<longleftrightarrow> PAGE_HEADER_SIZE + SLOT_SIZE * (length rs + 1) + total rs + length r \<le> PAGE_SIZE"

lemma row_insert_full:
  assumes "row_rep page h rs" "\<not> record_fits rs r"
  shows "\<exists>needed available. row_insert r page = Err (PageFull needed available)"
  using assms(1)
proof (rule row_repE)
  fix hdr gap :: bytes
  assume "row_page_header page = Ok h" "28 + 4 * length rs + length gap + total rs = 4096"
    "unat (rh_slot_count h) = length rs" "unat (rh_free_space_ptr h) = 28 + 4 * length rs + length gap"
  with assms(2) show ?thesis
    by (auto simp: row_insert_def Let_def record_fits_def size_defs SLOT_SIZE_def)
qed

lemma split_gap:
  assumes "4 + n \<le> length gap"
  shows "\<exists>a b mid c. gap = a @ b @ mid @ c \<and> length a = 2 \<and> length b = 2 \<and> length c = n"
proof -
  obtain a gap1 where 1: "gap = a @ gap1" "length a = 2" using split_at [of 2 gap] assms by auto
  obtain b gap2 where 2: "gap1 = b @ gap2" "length b = 2" using split_at [of 2 gap1] assms 1 by auto
  obtain mid c where 3: "gap2 = mid @ c" "length mid = length gap2 - n"
    using split_at [OF diff_le_self] by blast
  have "n \<le> length gap2" using assms 1 2 by simp
  moreover have "length gap2 = length mid + length c" by (simp only: 3(1) length_append)
  ultimately have "length c = n" using 3(2) by linarith
  moreover have "gap = a @ b @ mid @ c" by (simp only: 1(1) 2(1) 3(1))
  ultimately show ?thesis using 1(2) 2(2) by blast
qed

lemma row_insert_fits:
  assumes "row_rep page h rs" "record_fits rs r"
  shows "\<exists>page'. row_insert r page = Ok (of_nat (length rs), page') \<and>
    row_rep page' (h\<lparr>rh_slot_count := rh_slot_count h + 1,
      rh_free_space_ptr := of_nat (PAGE_SIZE - total (rs @ [r]))\<rparr>) (rs @ [r])"
  using assms(1)
proof (rule row_repE)
  fix hdr gap :: bytes
  assume page: "page = hdr @ slot_entries PAGE_SIZE rs @ gap @ concat (rev rs)" "length hdr = 28"
    and h: "row_header_decode hdr = Ok h" "row_page_header page = Ok h"
    and len: "28 + 4 * length rs + length gap + total rs = 4096"
    and n: "unat (rh_slot_count h) = length rs"
    and f: "unat (rh_free_space_ptr h) = 28 + 4 * length rs + length gap"
  define slot_end where "slot_end = 28 + 4 * length rs"
  define off where "off = PAGE_SIZE - total (rs @ [r])"
  let ?h = "h\<lparr>rh_slot_count := rh_slot_count h + 1, rh_free_space_ptr := of_nat off\<rparr>"
  have g: "4 + length r \<le> length gap"
    using assms(2) len by (simp add: record_fits_def size_defs SLOT_SIZE_def)
  have off: "off + length r = slot_end + length gap" "off < 65536"
    using len g by (simp_all add: size_defs off_def slot_end_def)
  obtain a b g2 c where gap: "gap = a @ b @ g2 @ c" "length a = 2" "length b = 2" "length c = length r"
    using split_gap [OF g] by blast
  let ?S = "slot_entries PAGE_SIZE rs" and ?R = "concat (rev rs)"
  let ?e1 = "to_le 2 (of_nat off :: u16)" and ?e2 = "to_le 2 (of_nat (length r) :: u16)"
  let ?page = "row_header_encode ?h @ ?S @ ?e1 @ ?e2 @ g2 @ r @ ?R"
  have c1: "copy_into page off r = Ok (hdr @ ?S @ a @ b @ g2 @ r @ ?R)"
    using copy_into_mid [of r c off "hdr @ ?S @ a @ b @ g2" ?R] page gap off by (simp add: slot_end_def)
  have c2: "copy_into (hdr @ ?S @ a @ b @ g2 @ r @ ?R) slot_end ?e1 = Ok (hdr @ ?S @ ?e1 @ b @ g2 @ r @ ?R)"
    using copy_into_mid [of ?e1 a slot_end "hdr @ ?S" "b @ g2 @ r @ ?R"] page gap by (simp add: slot_end_def)
  have c3: "copy_into (hdr @ ?S @ ?e1 @ b @ g2 @ r @ ?R) (slot_end + 2) ?e2 = Ok (hdr @ ?S @ ?e1 @ ?e2 @ g2 @ r @ ?R)"
    using copy_into_mid [of ?e2 b "slot_end + 2" "hdr @ ?S @ ?e1" "g2 @ r @ ?R"] page gap by (simp add: slot_end_def)
  have c4: "set_header ?h (hdr @ ?S @ ?e1 @ ?e2 @ g2 @ r @ ?R) = Ok ?page"
    using copy_into_mid [of "row_header_encode ?h" hdr 0 "[]" "?S @ ?e1 @ ?e2 @ g2 @ r @ ?R"] page
    by (simp add: set_header_def size_defs)
  have "length rs < 65535" using len by simp
  then have m1: "rh_slot_count h \<noteq> - 1" and n1: "unat (rh_slot_count h + 1) = Suc (length rs)"
    using n u16_increment [of "rh_slot_count h"] by auto
  have c0: "usize_sub (slot_end + length gap) (length r) = Ok off"
    using off(1) by (simp add: usize_sub_def)
  have "insert_write h slot_end (slot_end + length gap) r page = Ok (rh_slot_count h, ?page)"
    using m1 by (simp only: insert_write_def and_then.simps c0 c1 c2 c3 c4 if_False)
  moreover have "PAGE_HEADER_SIZE + unat (rh_slot_count h) * SLOT_SIZE = slot_end"
    by (simp add: n slot_end_def size_defs SLOT_SIZE_def)
  ultimately have "row_insert r page = Ok (rh_slot_count h, ?page)"
    using g f unfolding row_insert_def h(2) by (simp add: SLOT_SIZE_def slot_end_def)
  moreover have "of_nat (length rs) = rh_slot_count h" using n [symmetric] by simp
  moreover have "row_rep ?page ?h (rs @ [r])"
  proof (rule row_repI [of _ "row_header_encode ?h" _ g2])
    show "?page = row_header_encode ?h @ slot_entries PAGE_SIZE (rs @ [r]) @ g2 @ concat (rev (rs @ [r]))"
      by (simp add: slot_entries_append off_def)
    show "row_header_decode (row_header_encode ?h) = Ok ?h"
      using row_header_decode_encode [of ?h "[]"] by simp
    show "unat (rh_free_space_ptr ?h) = 28 + 4 * length (rs @ [r]) + length g2"
      using unat_of_nat_u16 [OF off(2)] off(1) gap slot_end_def by simp
  qed (use gap len n1 in \<open>simp_all add: size_defs\<close>)
  ultimately show ?thesis by (auto simp: off_def)
qed

lemma row_slot_rep:
  assumes "row_rep page h rs" "unat i < length rs"
  shows "row_slot page i = Ok (PAGE_SIZE - total (take (Suc (unat i)) rs), length (rs ! unat i))"
    and "total (take (Suc (unat i)) rs) \<le> PAGE_SIZE - PAGE_HEADER_SIZE - SLOT_SIZE * length rs"
proof -
  let ?n = "unat i"
  let ?pre = "take ?n rs" and ?r = "rs ! ?n" and ?post = "drop (Suc ?n) rs"
  have rs: "rs = ?pre @ ?r # ?post" using assms(2) by (rule id_take_nth_drop)
  have tk: "take (Suc ?n) rs = ?pre @ [?r]" using assms(2) by (rule take_Suc_conv_app_nth)
  obtain hdr gap where page: "page = hdr @ slot_entries PAGE_SIZE rs @ gap @ concat (rev rs)" "length hdr = 28"
    and h: "row_page_header page = Ok h" and len: "28 + 4 * length rs + length gap + total rs = 4096"
    and n: "unat (rh_slot_count h) = length rs"
    using assms(1) by (rule row_repE)
  have t: "total rs = total ?pre + length ?r + total ?post"
    by (subst rs) simp
  let ?off = "PAGE_SIZE - total ?pre - length ?r"
  let ?e = "to_le 2 (of_nat ?off :: u16) @ to_le 2 (of_nat (length ?r) :: u16)"
  have "page = (hdr @ slot_entries PAGE_SIZE ?pre) @ ?e @ slot_entries ?off ?post @ gap @ concat (rev rs)"
    using slot_entries_append [of PAGE_SIZE ?pre "?r # ?post"] page rs by simp
  then have "slice_get page (28 + ?n * 4) (28 + ?n * 4 + 4) = Some ?e"
    using slice_get_append [of "hdr @ slot_entries PAGE_SIZE ?pre" ?e] page assms(2) by (simp add: mult.commute)
  moreover have "unat (of_nat ?off :: u16) = ?off" "unat (of_nat (length ?r) :: u16) = length ?r"
    using len t by (intro unat_of_nat_u16, simp add: size_defs)+
  moreover have "\<not> i \<ge> rh_slot_count h" using assms(2) n by (simp add: word_le_nat_alt)
  ultimately show "row_slot page i = Ok (PAGE_SIZE - total (take (Suc ?n) rs), length ?r)"
    unfolding tk by (simp add: row_slot_def row_slot_count_def h read_slot_def Let_def size_defs SLOT_SIZE_def)
  show "total (take (Suc ?n) rs) \<le> PAGE_SIZE - PAGE_HEADER_SIZE - SLOT_SIZE * length rs"
    unfolding tk using len t by (simp add: size_defs SLOT_SIZE_def)
qed

text \<open>Where the \<open>i\<close>-th record lies in the page.\<close>

lemma row_rep_record_at:
  assumes "row_rep page h rs" "i < length rs"
  obtains pre post where "page = pre @ rs ! i @ post" "length pre = PAGE_SIZE - total (take (Suc i) rs)"
    "\<And>r. length r = length (rs ! i) \<Longrightarrow> row_rep (pre @ r @ post) h (rs[i := r])"
proof -
  let ?pre = "take i rs" and ?r = "rs ! i" and ?post = "drop (Suc i) rs"
  have rs: "rs = ?pre @ ?r # ?post" using assms(2) by (rule id_take_nth_drop)
  have tk: "take (Suc i) rs = ?pre @ [?r]" using assms(2) by (rule take_Suc_conv_app_nth)
  obtain hdr gap where page: "page = hdr @ slot_entries PAGE_SIZE rs @ gap @ concat (rev rs)" "length hdr = 28"
    and h: "row_header_decode hdr = Ok h" and len: "28 + 4 * length rs + length gap + total rs = 4096"
    and n: "unat (rh_slot_count h) = length rs"
    and f: "unat (rh_free_space_ptr h) = 28 + 4 * length rs + length gap"
    using assms(1) by (rule row_repE)
  let ?before = "hdr @ slot_entries PAGE_SIZE rs @ gap @ concat (rev ?post)" and ?after = "concat (rev ?pre)"
  have cc: "concat (rev rs) = concat (rev ?post) @ ?r @ ?after"
    by (subst rs) (simp del: append_take_drop_id)
  have t: "total rs = total ?pre + length ?r + total ?post"
    by (subst rs) simp
  show thesis
  proof (rule that)
    show "page = ?before @ ?r @ ?after" using page cc by simp
    show "length ?before = PAGE_SIZE - total (take (Suc i) rs)"
      unfolding tk using page(2) len t by (simp add: size_defs)
    fix r :: bytes
    assume lr: "length r = length ?r"
    have upd: "rs[i := r] = ?pre @ r # ?post" using assms(2) by (simp add: upd_conv_take_nth_drop)
    have "slot_entries PAGE_SIZE (rs[i := r]) = slot_entries PAGE_SIZE rs"
      unfolding upd by (subst (2) rs) (simp add: slot_entries_append lr)
    moreover have "total (rs[i := r]) = total rs" using t lr by (simp add: upd)
    moreover have "concat (rev (rs[i := r])) = concat (rev ?post) @ r @ ?after" by (simp add: upd)
    ultimately show "row_rep (?before @ r @ ?after) h (rs[i := r])"
      using page(2) h len n f by (intro row_repI [of _ hdr _ gap]) simp_all
  qed
qed

lemma row_record_rep:
  assumes "row_rep page h rs"
  shows "row_record page i =
    (if unat i < length rs then Ok (rs ! unat i) else Err (OutOfBounds (unat i) (length rs)))"
proof (cases "unat i < length rs")
  case True
  obtain pre post where page: "page = pre @ rs ! unat i @ post"
    "length pre = PAGE_SIZE - total (take (Suc (unat i)) rs)"
    using row_rep_record_at [OF assms True] by blast
  then have "slice_get page (length pre) (length pre + length (rs ! unat i)) = Some (rs ! unat i)"
    using slice_get_append [of pre "rs ! unat i" post] by simp
  with row_slot_rep(1) [OF assms True] page(2) True show ?thesis
    by (simp add: row_record_def)
next
  case False
  then show ?thesis
    using assms by (elim row_repE)
      (simp add: row_record_def row_slot_def row_slot_count_def read_slot_def word_le_nat_alt)
qed

lemma row_iter_rep:
  assumes "row_rep page h rs"
  shows "row_iter page = Ok (map (\<lambda>i. (of_nat i, rs ! i)) [0..<length rs])"
proof -
  have n: "row_slot_count page = Ok (rh_slot_count h)" "unat (rh_slot_count h) = length rs" "length rs < 65536"
    using assms by (auto elim!: row_repE simp: row_slot_count_def)
  have "iter_while (row_record page) (map of_nat is) = map (\<lambda>i. (of_nat i, rs ! i)) is"
    if "\<forall>i \<in> set is. i < length rs" for "is"
    using that n(3) by (induction "is") (auto simp: row_record_rep [OF assms] unat_of_nat_u16)
  with n show ?thesis by (simp add: row_iter_def)
qed

definition patch_deleted :: "u64 \<Rightarrow> bytes \<Rightarrow> bytes" where
  "patch_deleted tx r = overwrite r 8 (to_le 8 tx)"

lemma patch_deleted_envelope:
  assumes "ENVELOPE_LEN \<le> length r" "envelope_decode r = Ok e"
  shows "envelope_decode (patch_deleted tx r) = Ok (mark_deleted e tx)"
    "drop ENVELOPE_LEN (patch_deleted tx r) = drop ENVELOPE_LEN r" "length (patch_deleted tx r) = length r"
  using assms by (auto simp: patch_deleted_def overwrite_def envelope_decode_in size_defs mark_deleted_def)

lemma row_patch_rep:
  assumes "row_rep page h rs" "unat i < length rs" "ENVELOPE_LEN \<le> length (rs ! unat i)"
  shows "\<exists>page'. row_patch_envelope_deleted i tx page = Ok page' \<and>
    row_rep page' h (rs[unat i := patch_deleted tx (rs ! unat i)])"
proof -
  let ?r = "rs ! unat i"
  obtain pre post where page: "page = pre @ ?r @ post"
    "length pre = PAGE_SIZE - total (take (Suc (unat i)) rs)"
    and rep: "\<And>r. length r = length ?r \<Longrightarrow> row_rep (pre @ r @ post) h (rs[unat i := r])"
    using row_rep_record_at [OF assms(1,2)] by blast
  have len: "24 \<le> length ?r" using assms(3) by (simp add: size_defs)
  have "overwrite page (length pre + 8) (to_le 8 tx) = pre @ patch_deleted tx ?r @ post"
    using len by (simp add: page(1) overwrite_def patch_deleted_def)
  moreover have "length (patch_deleted tx ?r) = length ?r"
    using len by (simp add: patch_deleted_def)
  moreover have "\<exists>s. slice_get page (length pre + 8) (length pre + 16) = Some s"
    using len by (simp add: slice_get_Some_iff page(1))
  ultimately show ?thesis
    using row_slot_rep(1) [OF assms(1,2)] page(2) len rep
    by (auto simp: row_patch_envelope_deleted_def size_defs)
qed

section \<open>Properties\<close>

text \<open>
  Appending to a row page. On a page holding the records \<open>rs\<close>, \<^verbatim>\<open>insert\<close> either finds room, and
  then returns the next slot index and leaves a page that holds \<open>rs\<close> followed by the new record with
  the same id and chain link; or the record and its slot entry do not fit in the page, and it
  reports \<^verbatim>\<open>PageFull\<close>. It never panics.
\<close>

theorem row_page_append:
  assumes "row_rep page h rs"
  shows "case row_insert r page of
      Ok (i, page') \<Rightarrow> record_fits rs r \<and> unat i = length rs \<and>
        (\<exists>h'. row_rep page' h' (rs @ [r]) \<and> rh_next_page h' = rh_next_page h \<and> rh_page_id h' = rh_page_id h)
    | Err e \<Rightarrow> \<not> record_fits rs r \<and> (\<exists>needed available. e = PageFull needed available)
    | Panic \<Rightarrow> False"
proof (cases "record_fits rs r")
  case True
  obtain page' where ins: "row_insert r page = Ok (of_nat (length rs), page')"
    and rep: "row_rep page' (h\<lparr>rh_slot_count := rh_slot_count h + 1,
      rh_free_space_ptr := of_nat (PAGE_SIZE - total (rs @ [r]))\<rparr>) (rs @ [r])"
    using row_insert_fits [OF assms True] by blast
  have "length rs < 65536" using True by (simp add: record_fits_def size_defs SLOT_SIZE_def)
  with ins rep True show ?thesis by (auto simp: unat_of_nat_u16)
next
  case False
  then show ?thesis using row_insert_full [OF assms False] by auto
qed

theorem row_page_append_witness:
  "\<exists>page'. row_insert [1, 2, 3] (row_page_new 7) = Ok (0, page') \<and> row_record page' 0 = Ok [1, 2, 3]"
proof -
  have fit: "record_fits [] [1, 2, 3]" by (simp add: record_fits_def size_defs SLOT_SIZE_def)
  then obtain i page' where "row_insert [1, 2, 3] (row_page_new 7) = Ok (i, page')" "unat i = 0"
    "\<exists>h'. row_rep page' h' ([] @ [[1, 2, 3]])"
    using row_page_append [OF row_rep_new [of 7], of "[1, 2, 3]"]
    by (auto split: result.splits)
  then show ?thesis by (auto simp: row_record_rep unat_eq_zero)
qed

text \<open>
  Reading a row page. On a page holding the records \<open>rs\<close>, slot \<open>i\<close> reads the \<open>i\<close>-th record, a
  slot past the last is \<^verbatim>\<open>OutOfBounds\<close>, iteration yields every record in slot order, and the free
  space is what the header, the slot array and the records leave.
\<close>

theorem row_page_read:
  assumes "row_rep page h rs"
  shows "(\<forall>i. row_record page i =
      (if unat i < length rs then Ok (rs ! unat i) else Err (OutOfBounds (unat i) (length rs)))) \<and>
    row_iter page = Ok (map (\<lambda>i. (of_nat i, rs ! i)) [0..<length rs]) \<and>
    free_space page = Ok (PAGE_SIZE - PAGE_HEADER_SIZE - SLOT_SIZE * length rs - total rs)"
  using row_record_rep [OF assms] row_iter_rep [OF assms] free_space_rep [OF assms] by blast

theorem row_page_read_witness:
  "row_record (row_page_new 7) 0 = Err (OutOfBounds 0 0) \<and> free_space (row_page_new 7) = Ok 4068"
  using row_page_read [OF row_rep_new [of 7]] by (simp add: size_defs)

text \<open>
  Tombstoning a record in place. Patching slot \<open>i\<close> of a page whose \<open>i\<close>-th record starts with the
  envelope \<open>e\<close> marks exactly that envelope deleted: its body, every other record and the header are
  unchanged.
\<close>

theorem row_page_tombstone:
  assumes "row_rep page h rs" "unat i < length rs" "envelope_decode (rs ! unat i) = Ok e"
  shows "\<exists>page' r. row_patch_envelope_deleted i tx page = Ok page' \<and> row_rep page' h (rs[unat i := r]) \<and>
    envelope_decode r = Ok (mark_deleted e tx) \<and> drop ENVELOPE_LEN r = drop ENVELOPE_LEN (rs ! unat i) \<and>
    (\<forall>j. j \<noteq> i \<longrightarrow> row_record page' j = row_record page j)"
proof -
  have len: "ENVELOPE_LEN \<le> length (rs ! unat i)"
    using assms(3) by (auto simp: envelope_decode_def split: if_splits)
  let ?r = "patch_deleted tx (rs ! unat i)"
  obtain page' where p: "row_patch_envelope_deleted i tx page = Ok page'" "row_rep page' h (rs[unat i := ?r])"
    using row_patch_rep [OF assms(1,2) len] by blast
  have "unat j \<noteq> unat i" if "j \<noteq> i" for j
    using that by (metis unsigned_word_eqI)
  then have "\<forall>j. j \<noteq> i \<longrightarrow> row_record page' j = row_record page j"
    by (auto simp: row_record_rep [OF p(2)] row_record_rep [OF assms(1)])
      (metis nth_list_update_neq)
  with p patch_deleted_envelope [OF len assms(3)] show ?thesis by blast
qed

theorem row_page_tombstone_witness:
  "\<exists>page page'. row_insert (envelope_encode (envelope_new 5 0) @ [9]) (row_page_new 7) = Ok (0, page) \<and>
    row_patch_envelope_deleted 0 8 page = Ok page' \<and>
    (\<exists>r. row_record page' 0 = Ok r \<and> envelope_decode r = Ok (mark_deleted (envelope_new 5 0) 8))"
proof -
  let ?r = "envelope_encode (envelope_new 5 0) @ [9]"
  have "record_fits [] ?r" by (simp add: record_fits_def size_defs SLOT_SIZE_def)
  from row_insert_fits [OF row_rep_new this, of 7] obtain page h where
    "row_insert ?r (row_page_new 7) = Ok (0, page)" "row_rep page h [?r]" by auto
  moreover from row_page_tombstone [OF this(2), of 0 "envelope_new 5 0" 8]
  obtain page' r where "row_patch_envelope_deleted 0 8 page = Ok page'" "row_rep page' h [r]"
    "envelope_decode r = Ok (mark_deleted (envelope_new 5 0) 8)" by auto
  ultimately show ?thesis by (auto simp: row_record_rep)
qed

text \<open>
  C31: A page from an untrusted file cannot make the page code panic. Whatever 4096 bytes
  \<^verbatim>\<open>from_bytes\<close> accepts, reading the header, the free space, any slot, iterating, following the
  chain link, inserting and patching all return a value or an error.
\<close>

theorem row_page_untrusted:
  assumes "length buf = PAGE_SIZE" "row_page_from_bytes buf = Ok page"
  shows "row_page_header page \<noteq> Panic \<and> free_space page \<noteq> Panic \<and> row_record page i \<noteq> Panic \<and>
    row_iter page \<noteq> Panic \<and> row_next_page page \<noteq> Panic \<and> set_next_page next page \<noteq> Panic \<and>
    row_insert r page \<noteq> Panic \<and> row_patch_envelope_deleted i tx page \<noteq> Panic"
proof -
  from assms obtain h where page: "length page = PAGE_SIZE" "row_header_decode page = Ok h"
    and b: "PAGE_HEADER_SIZE + unat (rh_slot_count h) * SLOT_SIZE \<le> unat (rh_free_space_ptr h)"
      "unat (rh_free_space_ptr h) \<le> PAGE_SIZE"
    by (auto simp: row_page_from_bytes_def and_then_eq_Ok Let_def split: if_splits)
  have h: "row_page_header page = Ok h" using page by (simp add: row_page_header_def)
  have slot: "row_slot page i \<noteq> Panic"
    by (auto simp: row_slot_def row_slot_count_def h read_slot_def Let_def and_then_eq_Panic)
  have set: "set_header h' p \<noteq> Panic" if "length p = PAGE_SIZE" for h' p
    using that by (simp add: set_header_def copy_into_def size_defs)
  have "rh_slot_count h \<noteq> - 1"
    using b u16_increment [of "rh_slot_count h"] by (simp add: size_defs SLOT_SIZE_def)
  then have "row_insert r page \<noteq> Panic"
    using b page(1) set
    by (auto simp: row_insert_def h insert_write_def Let_def and_then_eq_Panic copy_into_def size_defs
        SLOT_SIZE_def usize_sub_def split: if_splits)
  with h slot set page b show ?thesis
    by (auto simp: free_space_def row_record_def row_iter_def row_slot_count_def row_next_page_def
        set_next_page_def row_patch_envelope_deleted_def and_then_eq_Panic Let_def split: if_splits)
qed

theorem row_page_untrusted_witness:
  "row_page_from_bytes (row_page_new 7) = Ok (row_page_new 7) \<and> row_record (row_page_new 7) 5 \<noteq> Panic"
proof -
  have "row_header_decode (row_page_new 7) = Ok (row_header_new 7)"
    unfolding row_page_new_def overwrite_def by simp
  then have "row_page_from_bytes (row_page_new 7) = Ok (row_page_new 7)"
    by (simp add: row_page_from_bytes_def row_header_new_def size_defs)
  moreover have "length (row_page_new 7) = PAGE_SIZE" by (simp add: row_page_new_def size_defs)
  ultimately show ?thesis using row_page_untrusted [of "row_page_new 7" "row_page_new 7" 5] by blast
qed

definition crafted_page :: bytes where
  "crafted_page = row_header_encode \<lparr>rh_page_id = 7, rh_slot_count = 1, rh_free_space_ptr = 4096, rh_next_page = 0\<rparr> @
     to_le 2 (0 :: u16) @ to_le 2 (24 :: u16) @ replicate 4064 0"

text \<open>
  \<^verbatim>\<open>from_bytes\<close> checks the header but not the slots. There is a page it accepts whose slot 0
  points at the page's own header; tombstoning that slot with transaction 256 succeeds and overwrites the page-type byte,
  after which reading the header panics.
\<close>

lemma row_patch_crafted_slot:
  "length crafted_page = PAGE_SIZE \<and> row_page_from_bytes crafted_page = Ok crafted_page \<and>
    (\<exists>page'. row_patch_envelope_deleted 0 256 crafted_page = Ok page' \<and> row_page_header page' = Panic)"
proof -
  let ?h = "\<lparr>rh_page_id = 7, rh_slot_count = 1, rh_free_space_ptr = 4096, rh_next_page = 0\<rparr>"
  have dec: "row_header_decode crafted_page = Ok ?h" unfolding crafted_page_def by simp
  have len: "length crafted_page = PAGE_SIZE" by (simp add: crafted_page_def size_defs)
  have "row_slot crafted_page 0 = Ok (0, 24)"
    using slice_get_append_n [of 4 "to_le 2 (0 :: u16) @ to_le 2 (24 :: u16)" "row_header_encode ?h" "replicate 4064 0"]
    by (simp add: row_slot_def row_slot_count_def row_page_header_def dec read_slot_def size_defs SLOT_SIZE_def
        Let_def) (simp add: crafted_page_def size_defs)
  then have "row_patch_envelope_deleted 0 256 crafted_page = Ok (overwrite crafted_page 8 (to_le 8 (256 :: u64)))"
    using len by (simp add: row_patch_envelope_deleted_def slice_get_def size_defs)
  moreover have "to_le 8 (256 :: u64) ! 0 = 0" by (subst to_le.simps(2) [of 7, simplified]) simp
  then have "overwrite crafted_page 8 (to_le 8 (256 :: u64)) ! 8 = 0"
    using len by (simp add: nth_overwrite size_defs)
  then have "row_page_header (overwrite crafted_page 8 (to_le 8 (256 :: u64))) = Panic"
    using len by (simp add: row_page_header_def row_header_decode_cases size_defs)
  ultimately show ?thesis
    using len dec by (simp add: row_page_from_bytes_def size_defs SLOT_SIZE_def)
qed

text \<open>Outside this theory lengths of concatenations stay as they are.\<close>

declare length_concat_total [simp del]

end
