(* ===== verification/Predicates.thy ===== *)
theory Predicates
  imports Query_Ast Like_Match Record_Codec Row_Page "HOL-Library.Sublist"
begin

text \<open>
  Predicate evaluation in \<^verbatim>\<open>src/db.rs\<close>: resolving column references, comparing values across the
  numeric types, the three-valued evaluation of \<^verbatim>\<open>WHERE\<close> and \<^verbatim>\<open>CHECK\<close> predicates, and the validation of
  schemas and rows before they are stored.
\<close>

section \<open>Column references\<close>

definition positions :: "(col_name \<Rightarrow> bool) \<Rightarrow> col_name list \<Rightarrow> nat list" where
  "positions P columns = filter (\<lambda>i. P (columns ! i)) [0..<length columns]"

definition column_matches :: "col_name list \<Rightarrow> col_name \<Rightarrow> nat list" where
  "column_matches columns name =
     (let exact = positions (\<lambda>c. c = name) columns in
      if exact \<noteq> [] \<or> 46 \<in> set name then exact
      else positions (suffix (46 # name)) columns)"

definition projection_col_pos :: "col_name list \<Rightarrow> col_name \<Rightarrow> nat result" where
  "projection_col_pos columns name =
     (case column_matches columns name of
        [] \<Rightarrow> Err (Schema ''no column `{name}`'')
      | [ix] \<Rightarrow> Ok ix
      | _ \<Rightarrow> Err (Schema ''ambiguous column `{name}`''))"

definition col_pos :: "col_name list \<Rightarrow> col_name \<Rightarrow> nat result" where
  "col_pos columns column =
     ok_or (map_option fst (List.find (\<lambda>(i, c). c = column) (enumerate 0 columns))) (Schema ''no column `{column}`'')"

definition resolve_join_keys ::
  "col_name list \<Rightarrow> col_name list \<Rightarrow> col_name \<Rightarrow> col_name \<Rightarrow> (nat \<times> nat) result" where
  "resolve_join_keys left_columns right_columns first second =
     (let first_left = column_matches left_columns first;
          first_right = column_matches right_columns first;
          second_left = column_matches left_columns second;
          second_right = column_matches right_columns second
      in if length first_left = 1 \<and> length second_right = 1 then
           and_then (elem_at first_left 0) (\<lambda>l. and_then (elem_at second_right 0) (\<lambda>r. Ok (l, r)))
         else if length second_left = 1 \<and> length first_right = 1 then
           and_then (elem_at second_left 0) (\<lambda>l. and_then (elem_at first_right 0) (\<lambda>r. Ok (l, r)))
         else if \<exists>ms \<in> set [first_left, first_right, second_left, second_right]. length ms > 1 then
           Err (Schema ''ambiguous join column `{reference}`'')
         else Err (Schema ''JOIN ON must compare one column from the joined relation with one earlier column''))"

section \<open>Comparing values\<close>

datatype ordering = Less | Equal | Greater

definition cmp :: "'a::linorder \<Rightarrow> 'a \<Rightarrow> ordering" where
  "cmp a b = (if a < b then Less else if a = b then Equal else Greater)"

definition cmp_values :: "val \<Rightarrow> val \<Rightarrow> ordering" where
  "cmp_values a b = cmp a b"

definition saturate_i128 :: "int \<Rightarrow> i128" where
  "saturate_i128 n = word_of_int (max (- (2 ^ 127)) (min (2 ^ 127 - 1) n))"

definition promote_int :: "i64 \<Rightarrow> i128" where
  "promote_int i = saturate_i128 (sint i * DECIMAL_DEN)"

fun numeric_cmp :: "val \<Rightarrow> val \<Rightarrow> ordering" where
  "numeric_cmp (VInt x) (VDecimal y) = cmp (sint (promote_int x)) (sint y)"
| "numeric_cmp (VDecimal x) (VInt y) = cmp (sint x) (sint (promote_int y))"
| "numeric_cmp a b = cmp_values a b"

fun values_equal :: "val \<Rightarrow> val \<Rightarrow> bool" where
  "values_equal (VInt x) (VDecimal y) \<longleftrightarrow> numeric_cmp (VInt x) (VDecimal y) = Equal"
| "values_equal (VDecimal x) (VInt y) \<longleftrightarrow> numeric_cmp (VDecimal x) (VInt y) = Equal"
| "values_equal a b \<longleftrightarrow> a = b"

fun join_key :: "val \<Rightarrow> val" where
  "join_key (VInt v) = VDecimal (promote_int v)"
| "join_key v = v"

definition eval_compare :: "val \<Rightarrow> compare_op \<Rightarrow> val \<Rightarrow> bool" where
  "eval_compare lhs op rhs =
     (if lhs = VNull \<or> rhs = VNull then False
      else
        (case op of
           OpEq \<Rightarrow> values_equal lhs rhs
         | OpNe \<Rightarrow> \<not> values_equal lhs rhs
         | OpLike \<Rightarrow> (case (lhs, rhs) of (VText t, VText p) \<Rightarrow> like_match t p | _ \<Rightarrow> False)
         | OpNotLike \<Rightarrow> (case (lhs, rhs) of (VText t, VText p) \<Rightarrow> \<not> like_match t p | _ \<Rightarrow> False)
         | OpLt \<Rightarrow> numeric_cmp lhs rhs = Less
         | OpLe \<Rightarrow> numeric_cmp lhs rhs \<noteq> Greater
         | OpGt \<Rightarrow> numeric_cmp lhs rhs = Greater
         | OpGe \<Rightarrow> numeric_cmp lhs rhs \<noteq> Less))"

section \<open>Three-valued evaluation\<close>

definition and3 :: "bool option \<Rightarrow> bool option \<Rightarrow> bool option" where
  "and3 l r = (if l = Some False \<or> r = Some False then Some False
               else if l = Some True \<and> r = Some True then Some True else None)"

definition or3 :: "bool option \<Rightarrow> bool option \<Rightarrow> bool option" where
  "or3 l r = (if l = Some True \<or> r = Some True then Some True
              else if l = Some False \<and> r = Some False then Some False else None)"

definition cell :: "col_name list \<Rightarrow> col_name \<Rightarrow> row \<Rightarrow> val result" where
  "cell columns column row = and_then (projection_col_pos columns column) (\<lambda>ix. elem_at row ix)"

fun check_result :: "predicate \<Rightarrow> col_name list \<Rightarrow> row \<Rightarrow> bool option result" where
  "check_result (And left right) columns row =
     and_then (check_result left columns row) (\<lambda>l.
     and_then (check_result right columns row) (\<lambda>r. Ok (and3 l r)))"
| "check_result (Or left right) columns row =
     and_then (check_result left columns row) (\<lambda>l.
     and_then (check_result right columns row) (\<lambda>r. Ok (or3 l r)))"
| "check_result (Compare column op v) columns row =
     and_then (cell columns column row) (\<lambda>c.
       if c = VNull \<or> v = VNull then Ok None else Ok (Some (eval_compare c op v)))"
| "check_result (InList column vs negated) columns row =
     and_then (cell columns column row) (\<lambda>c.
       if c = VNull then Ok None
       else if \<exists>v \<in> set (filter (\<lambda>v. v \<noteq> VNull) vs). values_equal c v then Ok (Some (\<not> negated))
       else if \<exists>v \<in> set vs. v = VNull then Ok None
       else Ok (Some negated))"
| "check_result (Between column low high negated) columns row =
     and_then (cell columns column row) (\<lambda>c.
       if c = VNull \<or> low = VNull \<or> high = VNull then Ok None
       else let in_range = (numeric_cmp c low \<noteq> Less \<and> numeric_cmp c high \<noteq> Greater)
            in Ok (Some (in_range \<noteq> negated)))"
| "check_result (IsNull column negated) columns row =
     and_then (cell columns column row) (\<lambda>c. Ok (Some ((c = VNull) \<noteq> negated)))"

definition row_matches :: "predicate \<Rightarrow> col_name list \<Rightarrow> row \<Rightarrow> bool result" where
  "row_matches pred columns row =
     and_then (check_result pred columns row) (\<lambda>r. Ok (case r of Some b \<Rightarrow> b | None \<Rightarrow> False))"

fun check_predicate_columns :: "col_name list \<Rightarrow> predicate \<Rightarrow> unit result" where
  "check_predicate_columns columns (And a b) =
     and_then (check_predicate_columns columns a) (\<lambda>_. check_predicate_columns columns b)"
| "check_predicate_columns columns (Or a b) =
     and_then (check_predicate_columns columns a) (\<lambda>_. check_predicate_columns columns b)"
| "check_predicate_columns columns (Compare column _ _) = and_then (projection_col_pos columns column) (\<lambda>_. Ok ())"
| "check_predicate_columns columns (InList column _ _) = and_then (projection_col_pos columns column) (\<lambda>_. Ok ())"
| "check_predicate_columns columns (Between column _ _ _) = and_then (projection_col_pos columns column) (\<lambda>_. Ok ())"
| "check_predicate_columns columns (IsNull column _) = and_then (projection_col_pos columns column) (\<lambda>_. Ok ())"

section \<open>Schema and row validation\<close>

definition MAX_RECORD :: nat where "MAX_RECORD = PAGE_SIZE - PAGE_HEADER_SIZE - SLOT_SIZE"
definition MAX_CHECK_DEPTH :: nat where "MAX_CHECK_DEPTH = 32"
definition MAX_CHECK_NODES :: nat where "MAX_CHECK_NODES = 256"

definition saturating_add :: "nat \<Rightarrow> nat \<Rightarrow> nat" where
  "saturating_add a b = min usize_max (a + b)"

text \<open>The node counter is threaded through; the error is the \<^verbatim>\<open>String\<close> the caller wraps.\<close>

fun predicate_nodes :: "predicate \<Rightarrow> nat \<Rightarrow> nat" where
  "predicate_nodes (InList _ vs _) nodes = saturating_add (saturating_add nodes 1) (length vs)"
| "predicate_nodes _ nodes = saturating_add nodes 1"

fun validate_check_shape :: "predicate \<Rightarrow> col_name list \<Rightarrow> nat \<Rightarrow> nat \<Rightarrow> string + nat" where
  "validate_check_shape pred columns depth nodes =
     (let nodes' = predicate_nodes pred nodes;
          leaf = (\<lambda>column. if column \<in> set columns then Inr nodes' else Inl ''CHECK references unknown column `{column}`'')
      in if depth > MAX_CHECK_DEPTH \<or> nodes' > MAX_CHECK_NODES
         then Inl ''CHECK expression exceeds the {MAX_CHECK_DEPTH}-level/{MAX_CHECK_NODES}-node limit''
         else
           (case pred of
              And left right \<Rightarrow>
                (case validate_check_shape left columns (depth + 1) nodes' of
                   Inl e \<Rightarrow> Inl e
                 | Inr nodes'' \<Rightarrow> validate_check_shape right columns (depth + 1) nodes'')
            | Or left right \<Rightarrow>
                (case validate_check_shape left columns (depth + 1) nodes' of
                   Inl e \<Rightarrow> Inl e
                 | Inr nodes'' \<Rightarrow> validate_check_shape right columns (depth + 1) nodes'')
            | Compare column _ _ \<Rightarrow> leaf column
            | InList column _ _ \<Rightarrow> leaf column
            | Between column _ _ _ \<Rightarrow> leaf column
            | IsNull column _ \<Rightarrow> leaf column))"

declare validate_check_shape.simps [simp del]

fun validate_checks :: "predicate list \<Rightarrow> col_name list \<Rightarrow> nat \<Rightarrow> string + nat" where
  "validate_checks [] columns nodes = Inr nodes"
| "validate_checks (c # cs) columns nodes =
     (case validate_check_shape c columns 1 nodes of
        Inl e \<Rightarrow> Inl e
      | Inr nodes' \<Rightarrow> validate_checks cs columns nodes')"

definition validate_schema_metadata ::
  "col_name list \<Rightarrow> col_name list \<Rightarrow> col_name list \<Rightarrow> (col_name \<times> val) list \<Rightarrow> predicate list \<Rightarrow> bool \<Rightarrow> unit result"
where
  "validate_schema_metadata columns unique_columns not_null_columns defaults checks persisted =
     (let invalid = (\<lambda>message. if persisted then Err (Corruption (''invalid schema for table `{table}`: '' @ message))
                              else Err (Schema (''invalid schema for table `{table}`: '' @ message)))
      in if columns = [] then invalid ''at least one column is required''
         else if length columns > 65535 then invalid ''too many columns (max 65535)''
         else if \<not> distinct columns then invalid ''duplicate column `{column}`''
         else if \<not> set unique_columns \<subseteq> set columns then invalid ''UNIQUE/PRIMARY KEY references unknown column `{column}`''
         else if \<not> set not_null_columns \<subseteq> set columns then invalid ''NOT NULL/PRIMARY KEY references unknown column `{column}`''
         else if \<not> set (map fst defaults) \<subseteq> set columns then invalid ''DEFAULT references unknown column `{column}`''
         else
           (case validate_checks checks columns 0 of
              Inl e \<Rightarrow> invalid e
            | Inr _ \<Rightarrow> Ok ()))"

definition encoded_bytes_field_len :: "nat \<Rightarrow> nat" where
  "encoded_bytes_field_len len = (if should_intern len then 1 + 8 else 1 + 2 + len)"

fun encoded_field_len :: "val \<Rightarrow> nat" where
  "encoded_field_len VNull = 1"
| "encoded_field_len (VInt _) = 1 + 8"
| "encoded_field_len (VDecimal _) = 1 + 16"
| "encoded_field_len (VText s) = encoded_bytes_field_len (length s)"
| "encoded_field_len (VBlob b) = encoded_bytes_field_len (length b)"

definition validate_record_shape :: "row \<Rightarrow> unit result" where
  "validate_record_shape values =
     (if length values > 65535 then Err (Schema ''too many columns (max 65535)'')
      else
        let len = foldl (\<lambda>len v. saturating_add len (encoded_field_len v)) (ENVELOPE_LEN + 2) values
        in if len > MAX_RECORD then Err (Schema ''record of {len} bytes exceeds page capacity ({MAX_RECORD})'')
           else Ok ())"

section \<open>The numeric order\<close>

lemma sint_i64_range: "- (2 ^ 63) \<le> sint (i :: i64)" "sint i < 2 ^ 63"
  using sint_ge [of i] sint_lt [of i] by simp_all

lemma sint_i128_range: "- (2 ^ 127) \<le> sint (m :: i128)" "sint m \<le> 2 ^ 127 - 1"
  using sint_ge [of m] sint_lt [of m] by simp_all

lemma sint_i128_of_int: "- (2 ^ 127) \<le> n \<Longrightarrow> n < 2 ^ 127 \<Longrightarrow> sint (word_of_int n :: i128) = n"
  by (simp add: signed_take_bit_int_eq_self signed_of_int)

lemma sint_promote_int [simp]: "sint (promote_int i) = sint i * DECIMAL_DEN"
proof -
  have "- (2 ^ 127) \<le> sint i * 1000000" "sint i * 1000000 < 2 ^ 127" using sint_i64_range [of i] by simp_all
  then show ?thesis
    by (simp add: promote_int_def saturate_i128_def DECIMAL_DEN_def sint_i128_of_int max_def min_def del: of_int_mult)
qed

lemma promote_int_eq:
  "m = promote_int i \<longleftrightarrow> sint m = sint i * DECIMAL_DEN" "promote_int i = m \<longleftrightarrow> sint i * DECIMAL_DEN = sint m"
  by (metis signed_word_eqI sint_promote_int)+

lemma promote_int_inject [simp]: "promote_int i = promote_int j \<longleftrightarrow> i = j"
proof
  assume "promote_int i = promote_int j"
  then have "sint i * DECIMAL_DEN = sint j * DECIMAL_DEN" by (metis sint_promote_int)
  then show "i = j" by (simp add: DECIMAL_DEN_def signed_word_eqI)
qed simp

lemma val_less_simps:
  "VInt a < VInt b \<longleftrightarrow> sint a < sint b" "VDecimal c < VDecimal d \<longleftrightarrow> sint c < sint d"
  "VInt a \<le> VInt b \<longleftrightarrow> sint a \<le> sint b" "VDecimal c \<le> VDecimal d \<longleftrightarrow> sint c \<le> sint d"
  by (auto simp: less_val_def less_eq_val_def)

lemma cmp_simps:
  "cmp a b = Less \<longleftrightarrow> a < b" "cmp a b = Equal \<longleftrightarrow> a = b" "cmp a b = Greater \<longleftrightarrow> b < a"
  by (auto simp: cmp_def)

lemma numeric_cmp_join_key: "numeric_cmp a b = cmp (join_key a) (join_key b)"
proof -
  have rank: "cmp x y = cmp x' y'"
    if "value_rank x < value_rank y \<and> value_rank x' < value_rank y' \<or> value_rank y < value_rank x \<and> value_rank y' < value_rank x'"
    for x y x' y' :: val
    using that value_rank_less [of x y] value_rank_less [of y x] value_rank_less [of x' y'] value_rank_less [of y' x']
    by (auto simp: cmp_def)
  show ?thesis
    by (cases a; cases b)
      (auto simp: cmp_values_def intro: rank,
        auto simp: cmp_def val_less_simps promote_int_eq DECIMAL_DEN_def dest: signed_word_eqI)
qed

lemma numeric_comparison_order_eq: "values_equal a b \<longleftrightarrow> join_key a = join_key b"
  by (cases a; cases b) (auto simp: numeric_cmp_join_key cmp_simps simp del: numeric_cmp.simps)

text \<open>
  Comparisons in predicates follow one total preorder. An integer and a decimal compare by
  magnitude, exactly and without overflow; the order is the derived order of the join keys, and two values are equal for
  \<^verbatim>\<open>WHERE\<close>, \<^verbatim>\<open>IN\<close> and \<^verbatim>\<open>NULLIF\<close> exactly when they fall into the same bucket of a join.
\<close>

theorem numeric_comparison_order:
  "numeric_cmp a b = cmp (join_key a) (join_key b) \<and>
   (values_equal a b \<longleftrightarrow> join_key a = join_key b) \<and>
   sint (promote_int i) = sint i * DECIMAL_DEN"
  using numeric_cmp_join_key numeric_comparison_order_eq by simp

section \<open>Validated predicates\<close>

fun pred_columns :: "predicate \<Rightarrow> col_name set" where
  "pred_columns (And a b) = pred_columns a \<union> pred_columns b"
| "pred_columns (Or a b) = pred_columns a \<union> pred_columns b"
| "pred_columns (Compare c _ _) = {c}"
| "pred_columns (InList c _ _) = {c}"
| "pred_columns (Between c _ _ _) = {c}"
| "pred_columns (IsNull c _) = {c}"

fun pred_depth :: "predicate \<Rightarrow> nat" where
  "pred_depth (And a b) = Suc (max (pred_depth a) (pred_depth b))"
| "pred_depth (Or a b) = Suc (max (pred_depth a) (pred_depth b))"
| "pred_depth _ = 1"

fun pred_cost :: "predicate \<Rightarrow> nat" where
  "pred_cost (And a b) = Suc (pred_cost a + pred_cost b)"
| "pred_cost (Or a b) = Suc (pred_cost a + pred_cost b)"
| "pred_cost (InList _ vs _) = Suc (length vs)"
| "pred_cost _ = 1"

lemma filter_upt_eq: "i < n \<Longrightarrow> filter (\<lambda>j. j = i) [0..<n] = [i]"
  by (induction n) (auto simp: less_Suc_eq filter_empty_conv)

lemma positions_distinct:
  assumes "distinct columns" "c \<in> set columns"
  shows "\<exists>i < length columns. columns ! i = c \<and> positions (\<lambda>x. x = c) columns = [i]"
proof -
  from assms(2) obtain i where i: "i < length columns" "columns ! i = c" by (auto simp: in_set_conv_nth)
  have "filter (\<lambda>j. columns ! j = c) [0..<length columns] = filter (\<lambda>j. j = i) [0..<length columns]"
    using assms(1) i by (intro filter_cong) (auto simp: nth_eq_iff_index_eq)
  also have "\<dots> = [i]" using i(1) by (rule filter_upt_eq)
  finally show ?thesis using i by (auto simp: positions_def)
qed

lemma projection_col_pos_in:
  assumes "distinct columns" "c \<in> set columns"
  shows "\<exists>i < length columns. columns ! i = c \<and> projection_col_pos columns c = Ok i"
  using positions_distinct [OF assms] by (auto simp: projection_col_pos_def column_matches_def)

lemma cell_in:
  assumes "distinct columns" "c \<in> set columns" "length row = length columns"
  shows "\<exists>i < length columns. columns ! i = c \<and> cell columns c row = Ok (row ! i)"
  using projection_col_pos_in [OF assms(1,2)] assms(3) by (auto simp: cell_def)

lemma check_result_total:
  assumes "distinct columns" "length row = length columns" "pred_columns p \<subseteq> set columns"
  shows "\<exists>r. check_result p columns row = Ok r"
  using assms(3)
proof (induction p)
  case (Compare c op v)
  then show ?case using cell_in [OF assms(1) _ assms(2), of c] by auto
next
  case (InList c vs n)
  then show ?case using cell_in [OF assms(1) _ assms(2), of c] by auto
next
  case (Between c lo hi n)
  then show ?case using cell_in [OF assms(1) _ assms(2), of c] by (auto simp: Let_def)
next
  case (IsNull c n)
  then show ?case using cell_in [OF assms(1) _ assms(2), of c] by auto
qed auto

lemma predicate_nodes_exact:
  "predicate_nodes p n \<le> MAX_CHECK_NODES \<Longrightarrow>
   predicate_nodes p n = n + (case p of InList _ vs _ \<Rightarrow> Suc (length vs) | _ \<Rightarrow> 1)"
  by (cases p) (auto simp: saturating_add_def MAX_CHECK_NODES_def usize_max_def min_def split: if_splits)

lemma validate_check_shape_Inr:
  "validate_check_shape p columns d n = Inr n' \<Longrightarrow>
   pred_columns p \<subseteq> set columns \<and> n' = n + pred_cost p \<and> n' \<le> MAX_CHECK_NODES \<and> d + pred_depth p \<le> Suc MAX_CHECK_DEPTH"
proof (induction p arbitrary: d n n')
  case (And a b)
  from And.prems obtain n1 where 1: "predicate_nodes (And a b) n \<le> MAX_CHECK_NODES"
      "validate_check_shape a columns (d + 1) (predicate_nodes (And a b) n) = Inr n1"
      "validate_check_shape b columns (d + 1) n1 = Inr n'"
    by (auto simp: validate_check_shape.simps [of "And a b"] Let_def simp del: predicate_nodes.simps split: if_splits sum.splits)
  from And.IH(1) [OF 1(2)] And.IH(2) [OF 1(3)] predicate_nodes_exact [OF 1(1)] show ?case by auto
next
  case (Or a b)
  from Or.prems obtain n1 where 1: "predicate_nodes (Or a b) n \<le> MAX_CHECK_NODES"
      "validate_check_shape a columns (d + 1) (predicate_nodes (Or a b) n) = Inr n1"
      "validate_check_shape b columns (d + 1) n1 = Inr n'"
    by (auto simp: validate_check_shape.simps [of "Or a b"] Let_def simp del: predicate_nodes.simps split: if_splits sum.splits)
  from Or.IH(1) [OF 1(2)] Or.IH(2) [OF 1(3)] predicate_nodes_exact [OF 1(1)] show ?case by auto
qed (auto simp: validate_check_shape.simps Let_def not_less simp del: predicate_nodes.simps dest: predicate_nodes_exact split: if_splits)

lemma validate_checks_Inr:
  "validate_checks cs columns n = Inr n' \<Longrightarrow> n \<le> MAX_CHECK_NODES \<Longrightarrow>
   (\<forall>c \<in> set cs. pred_columns c \<subseteq> set columns \<and> pred_depth c \<le> MAX_CHECK_DEPTH) \<and>
   n' = n + sum_list (map pred_cost cs) \<and> n' \<le> MAX_CHECK_NODES"
  by (induction cs arbitrary: n) (auto split: sum.splits dest!: validate_check_shape_Inr, fastforce+)

text \<open>
  C21: What schema validation accepts is safe to run. Every \<^verbatim>\<open>CHECK\<close> predicate of an accepted schema
  evaluates on every row of the table's width, with neither an error nor a panic; it is at most 32 levels deep, and all
  predicates of the table together cost at most 256 nodes.
\<close>

theorem checks_always_evaluate:
  assumes "validate_schema_metadata columns unique not_null defaults checks persisted = Ok ()"
    and "c \<in> set checks" "length row = length columns"
  shows "(\<exists>r. check_result c columns row = Ok r) \<and> pred_depth c \<le> MAX_CHECK_DEPTH \<and>
    sum_list (map pred_cost checks) \<le> MAX_CHECK_NODES"
proof -
  from assms(1) obtain n where d: "distinct columns" and v: "validate_checks checks columns 0 = Inr n"
    by (auto simp: validate_schema_metadata_def Let_def split: if_splits sum.splits)
  from validate_checks_Inr [OF v] assms(2) have "pred_columns c \<subseteq> set columns" "pred_depth c \<le> MAX_CHECK_DEPTH"
    "sum_list (map pred_cost checks) \<le> MAX_CHECK_NODES" by auto
  with check_result_total [OF d assms(3)] show ?thesis by blast
qed

theorem checks_always_evaluate_witness:
  "\<exists>r. check_result (InList [97] [VInt 1, VNull] False) [[97], [98]] [VInt 2, VNull] = Ok r"
  using checks_always_evaluate [of "[[97], [98]]" "[[97]]" "[]" "[]" "[InList [97] [VInt 1, VNull] False]" False
      "InList [97] [VInt 1, VNull] False" "[VInt 2, VNull]"]
  by (simp add: validate_schema_metadata_def Let_def validate_check_shape.simps MAX_CHECK_DEPTH_def MAX_CHECK_NODES_def
      saturating_add_def usize_max_def del: check_result.simps)

section \<open>Row shapes\<close>

lemma encode_value_length:
  "encode_value put v s = (Ok bs, s') \<Longrightarrow> length bs = encoded_field_len v"
  by (cases v) (auto simp: encode_bytes_def encoded_bytes_field_len_def act_then_eq_Ok act_return_def split: if_splits)

lemma encode_values_length:
  "encode_values put vs s = (Ok bs, s') \<Longrightarrow> length bs = sum_list (map encoded_field_len vs)"
  by (induction vs arbitrary: s bs s') (fastforce simp: act_then_eq_Ok act_return_def dest: encode_value_length)+

lemma saturating_fold:
  "foldl (\<lambda>len v. saturating_add len (f v)) n vs = (if vs = [] then n else min usize_max (n + sum_list (map f vs)))"
  by (induction vs arbitrary: n) (auto simp: saturating_add_def min_def)



section \<open>Three-valued logic\<close>

definition not3 :: "bool option \<Rightarrow> bool option" where
  "not3 = map_option Not"

text \<open>
  Predicates follow SQL's three-valued logic. The negated forms of \<^verbatim>\<open>IN\<close>, \<^verbatim>\<open>BETWEEN\<close> and \<^verbatim>\<open>IS NULL\<close> negate the truth value and
  keep UNKNOWN; \<^verbatim>\<open>AND\<close> and \<^verbatim>\<open>OR\<close> are dual under negation; and a \<^verbatim>\<open>WHERE\<close> clause keeps a row under \<^verbatim>\<open>AND\<close> exactly
  when both sides keep it, under \<^verbatim>\<open>OR\<close> exactly when one does.
\<close>

theorem three_valued_logic:
  "check_result (InList c vs (\<not> n)) columns row = and_then (check_result (InList c vs n) columns row) (\<lambda>r. Ok (not3 r)) \<and>
   check_result (Between c lo hi (\<not> n)) columns row = and_then (check_result (Between c lo hi n) columns row) (\<lambda>r. Ok (not3 r)) \<and>
   check_result (IsNull c (\<not> n)) columns row = and_then (check_result (IsNull c n) columns row) (\<lambda>r. Ok (not3 r)) \<and>
   not3 (and3 x y) = or3 (not3 x) (not3 y) \<and>
   (\<forall>a b. check_result p columns row = Ok a \<longrightarrow> check_result q columns row = Ok b \<longrightarrow>
      row_matches (And p q) columns row = Ok (a = Some True \<and> b = Some True) \<and>
      row_matches (Or p q) columns row = Ok (a = Some True \<or> b = Some True))"
proof -
  have "check_result (InList c vs (\<not> n)) columns row = and_then (check_result (InList c vs n) columns row) (\<lambda>r. Ok (not3 r))"
    by (cases "cell columns c row") (auto simp: not3_def)
  moreover have "check_result (Between c lo hi (\<not> n)) columns row = and_then (check_result (Between c lo hi n) columns row) (\<lambda>r. Ok (not3 r))"
    by (cases "cell columns c row") (auto simp: not3_def Let_def)
  moreover have "check_result (IsNull c (\<not> n)) columns row = and_then (check_result (IsNull c n) columns row) (\<lambda>r. Ok (not3 r))"
    by (cases "cell columns c row") (auto simp: not3_def)
  moreover have "not3 (and3 x y) = or3 (not3 x) (not3 y)"
    by (cases x; cases y) (auto simp: not3_def and3_def or3_def)
  moreover have "row_matches (And p q) columns row = Ok (a = Some True \<and> b = Some True) \<and>
      row_matches (Or p q) columns row = Ok (a = Some True \<or> b = Some True)"
    if "check_result p columns row = Ok a" "check_result q columns row = Ok b" for a b
    using that by (auto simp: row_matches_def and3_def or3_def split: option.splits)
  ultimately show ?thesis by blast
qed

theorem three_valued_logic_witness:
  "row_matches (And (IsNull [97] False) (Compare [98] OpEq (VInt 3))) [[97], [98]] [VNull, VInt 3] = Ok True"
proof -
  have "check_result (IsNull [97] False) [[97], [98]] [VNull, VInt 3] = Ok (Some True)"
    "check_result (Compare [98] OpEq (VInt 3)) [[97], [98]] [VNull, VInt 3] = Ok (Some True)"
    by (simp_all add: cell_def projection_col_pos_def column_matches_def positions_def eval_compare_def elem_at_def elem_get_def)
  with three_valued_logic show ?thesis by fastforce
qed

end
