(* ===== verification/Index_Plan.thy ===== *)
theory Index_Plan
  imports Predicates Sec_Index
begin

text \<open>
  Index selection in \<^verbatim>\<open>src/db.rs\<close>: the resource budget of a query, the key ranges a comparison stands for
  (an integer and a decimal compare by magnitude but live in different regions of the index), the intersection of
  ranges, and the choice of the most selective index for a conjunction.
\<close>

section \<open>Query budgets\<close>

text \<open>The cancellation flag and the wall clock belong to the environment: \<open>env n\<close> is what the \<open>n\<close>-th
  checkpoint observes.\<close>

record observation =
  ob_cancelled :: bool
  ob_now :: nat

type_synonym query_env = "nat \<Rightarrow> observation"

record query_limits =
  ql_max_rows_scanned :: nat
  ql_max_materialized_bytes :: nat
  ql_max_result_rows :: nat
  ql_deadline :: "nat option"

record query_budget =
  qb_limits :: query_limits
  qb_rows_scanned :: nat
  qb_materialized_bytes :: nat
  qb_cancellation :: bool
  qb_checkpoints :: nat

definition budget_new :: "query_limits \<Rightarrow> bool \<Rightarrow> query_budget" where
  "budget_new limits cancellable =
     \<lparr>qb_limits = limits, qb_rows_scanned = 0, qb_materialized_bytes = 0, qb_cancellation = cancellable, qb_checkpoints = 0\<rparr>"

definition checkpoint :: "query_env \<Rightarrow> (query_budget, unit) action" where
  "checkpoint env b =
     (let obs = env (qb_checkpoints b); b' = b\<lparr>qb_checkpoints := qb_checkpoints b + 1\<rparr> in
      if qb_cancellation b \<and> ob_cancelled obs then (Err Cancelled, b')
      else if (case ql_deadline (qb_limits b) of None \<Rightarrow> False | Some d \<Rightarrow> ob_now obs \<ge> d)
      then (Err (ResourceLimit ''deadline expired''), b')
      else (Ok (), b'))"

definition scan_row :: "query_env \<Rightarrow> (query_budget, unit) action" where
  "scan_row env =
     act_then (checkpoint env) (\<lambda>_ b.
       let b' = b\<lparr>qb_rows_scanned := saturating_add (qb_rows_scanned b) 1\<rparr> in
       if qb_rows_scanned b' > ql_max_rows_scanned (qb_limits b')
       then (Err (ResourceLimit ''scanned more than {} rows''), b') else (Ok (), b'))"

definition charge_bytes :: "string \<Rightarrow> nat \<Rightarrow> (query_budget, unit) action" where
  "charge_bytes msg n b =
     (let b' = b\<lparr>qb_materialized_bytes := saturating_add (qb_materialized_bytes b) n\<rparr> in
      if qb_materialized_bytes b' > ql_max_materialized_bytes (qb_limits b')
      then (Err (ResourceLimit msg), b') else (Ok (), b'))"

definition saturating_mul :: "nat \<Rightarrow> nat \<Rightarrow> nat" where
  "saturating_mul a b = min usize_max (a * b)"

definition RECORD_ADDR_SIZE :: nat where "RECORD_ADDR_SIZE = 8"

definition reserve_index_candidates :: "query_env \<Rightarrow> nat \<Rightarrow> (query_budget, unit) action" where
  "reserve_index_candidates env count =
     act_then (checkpoint env) (\<lambda>_ b.
       let remaining = ql_max_rows_scanned (qb_limits b) - qb_rows_scanned b in
       if count > remaining
       then (Err (ResourceLimit ''index produced more than {remaining} remaining row candidates''), b)
       else charge_bytes ''index candidates materialized more than {} bytes'' (saturating_mul count RECORD_ADDR_SIZE) b)"

section \<open>Key ranges\<close>

type_synonym index_range = "val bound \<times> val bound"

fun bound_key :: "'k bound \<Rightarrow> 'k option" where
  "bound_key (Included k) = Some k"
| "bound_key (Excluded k) = Some k"
| "bound_key Unbounded = None"

fun is_excluded :: "'k bound \<Rightarrow> bool" where
  "is_excluded (Excluded _) = True"
| "is_excluded _ = False"

definition range_lower :: "val bound \<Rightarrow> val bound \<Rightarrow> val bound" where
  "range_lower a b =
     (case (bound_key a, bound_key b) of
        (None, _) \<Rightarrow> b
      | (_, None) \<Rightarrow> a
      | (Some x, Some y) \<Rightarrow> if x > y then a else if y > x then b else if is_excluded a then a else b)"

definition range_upper :: "val bound \<Rightarrow> val bound \<Rightarrow> val bound" where
  "range_upper a b =
     (case (bound_key a, bound_key b) of
        (None, _) \<Rightarrow> b
      | (_, None) \<Rightarrow> a
      | (Some x, Some y) \<Rightarrow> if x < y then a else if y < x then b else if is_excluded a then a else b)"

definition intersect_range :: "index_range \<Rightarrow> index_range \<Rightarrow> index_range option" where
  "intersect_range a b =
     (let lo = range_lower (fst a) (fst b); hi = range_upper (snd a) (snd b) in
      case (bound_key lo, bound_key hi) of
        (Some x, Some y) \<Rightarrow> if x > y \<or> x = y \<and> (is_excluded lo \<or> is_excluded hi) then None else Some (lo, hi)
      | _ \<Rightarrow> Some (lo, hi))"

definition raw_range :: "compare_op \<Rightarrow> val \<Rightarrow> index_range option" where
  "raw_range op v =
     (case op of
        OpEq \<Rightarrow> Some (Included v, Included v)
      | OpLt \<Rightarrow> Some (Unbounded, Excluded v)
      | OpLe \<Rightarrow> Some (Unbounded, Included v)
      | OpGt \<Rightarrow> Some (Excluded v, Unbounded)
      | OpGe \<Rightarrow> Some (Included v, Unbounded)
      | _ \<Rightarrow> None)"

fun numeric_mantissa :: "val \<Rightarrow> i128 option" where
  "numeric_mantissa (VInt n) = Some (promote_int n)"
| "numeric_mantissa (VDecimal n) = Some n"
| "numeric_mantissa _ = None"

definition I64_MIN :: int where "I64_MIN = - (2 ^ 63)"
definition I64_MAX :: int where "I64_MAX = 2 ^ 63 - 1"

text \<open>The integers on the wanted side of the mantissa \<open>n\<close>.\<close>

definition integer_bounds :: "compare_op \<Rightarrow> int \<Rightarrow> (int \<times> int) option" where
  "integer_bounds op n =
     (let flr = n div DECIMAL_DEN; rmd = n mod DECIMAL_DEN in
      case op of
        OpEq \<Rightarrow> if rmd = 0 \<and> I64_MIN \<le> flr \<and> flr \<le> I64_MAX then Some (flr, flr) else None
      | OpLt \<Rightarrow> Some (I64_MIN, flr - (if rmd = 0 then 1 else 0))
      | OpLe \<Rightarrow> Some (I64_MIN, flr)
      | OpGt \<Rightarrow> Some (flr + 1, I64_MAX)
      | OpGe \<Rightarrow> Some (flr + (if rmd \<noteq> 0 then 1 else 0), I64_MAX)
      | _ \<Rightarrow> None)"

definition integer_ranges :: "compare_op \<Rightarrow> int \<Rightarrow> index_range list" where
  "integer_ranges op n =
     (case integer_bounds op n of
        None \<Rightarrow> []
      | Some (lo, hi) \<Rightarrow>
          (let lo' = max lo I64_MIN; hi' = min hi I64_MAX in
           if lo' \<le> hi' then [(Included (VInt (word_of_int lo')), Included (VInt (word_of_int hi')))] else []))"

definition DECIMAL_MIN :: val where "DECIMAL_MIN = VDecimal (word_of_int (- (2 ^ 127)))"
definition DECIMAL_MAX :: val where "DECIMAL_MAX = VDecimal (word_of_int (2 ^ 127 - 1))"

definition option_list :: "'a option \<Rightarrow> 'a list" where
  "option_list x = (case x of None \<Rightarrow> [] | Some y \<Rightarrow> [y])"

definition comparison_ranges :: "compare_op \<Rightarrow> val \<Rightarrow> index_range list option" where
  "comparison_ranges op v =
     (case raw_range op v of
        None \<Rightarrow> None
      | Some raw \<Rightarrow>
          if v = VNull then Some []
          else
            (case numeric_mantissa v of
               None \<Rightarrow> Some (option_list (intersect_range raw (Excluded VNull, Unbounded)))
             | Some n \<Rightarrow>
                 (case raw_range op (VDecimal n) of
                    None \<Rightarrow> None
                  | Some raw_dec \<Rightarrow>
                      Some (integer_ranges op (sint n) @
                            option_list (intersect_range raw_dec (Included DECIMAL_MIN, Included DECIMAL_MAX)) @
                            (if op = OpGt \<or> op = OpGe then [(Excluded DECIMAL_MAX, Unbounded)] else [])))))"

section \<open>Ranges are exact\<close>

definition in_range :: "index_range \<Rightarrow> val \<Rightarrow> bool" where
  "in_range r x \<longleftrightarrow> above (fst r) x \<and> below (snd r) x"

lemma above_lower: "above (range_lower a b) x \<longleftrightarrow> above a x \<and> above b x"
  by (cases a; cases b) (auto simp: range_lower_def)

lemma below_upper: "below (range_upper a b) x \<longleftrightarrow> below a x \<and> below b x"
  by (cases a; cases b) (auto simp: range_upper_def)

lemma intersect_range_Some:
  assumes "intersect_range a b = Some r"
  shows "in_range r x \<longleftrightarrow> in_range a x \<and> in_range b x" "\<not> range_panics (fst r) (snd r)"
proof -
  let ?lo = "range_lower (fst a) (fst b)" and ?hi = "range_upper (snd a) (snd b)"
  have r: "r = (?lo, ?hi)" using assms by (auto simp: intersect_range_def Let_def split: option.splits if_splits)
  then show "in_range r x \<longleftrightarrow> in_range a x \<and> in_range b x" by (auto simp: in_range_def above_lower below_upper)
  show "\<not> range_panics (fst r) (snd r)"
    using assms unfolding r intersect_range_def Let_def by (cases ?lo; cases ?hi) (auto split: if_splits)
qed

lemma intersect_range_None:
  assumes "intersect_range a b = None"
  shows "\<not> (in_range a x \<and> in_range b x)"
proof
  let ?lo = "range_lower (fst a) (fst b)" and ?hi = "range_upper (snd a) (snd b)"
  assume "in_range a x \<and> in_range b x"
  then have "above ?lo x" "below ?hi x" by (auto simp: in_range_def above_lower below_upper)
  then show False
    using assms unfolding intersect_range_def Let_def by (cases ?lo; cases ?hi) (auto split: if_splits)
qed

lemma in_range_option_list:
  "(\<exists>r \<in> set (option_list (intersect_range a b)). in_range r x) \<longleftrightarrow> in_range a x \<and> in_range b x"
  by (cases "intersect_range a b")
    (auto simp: option_list_def dest: intersect_range_None [of a b x] intersect_range_Some(1) [of a b _ x])

text \<open>A family of ranges is usable when no two overlap and none makes \<^verbatim>\<open>BTreeMap::range\<close> panic.\<close>

definition ranges_ok :: "index_range list \<Rightarrow> bool" where
  "ranges_ok rs \<longleftrightarrow>
     (\<forall>r \<in> set rs. \<not> range_panics (fst r) (snd r)) \<and>
     sorted_wrt (\<lambda>r r'. \<forall>x. \<not> (in_range r x \<and> in_range r' x)) rs"

definition covers :: "index_range list \<Rightarrow> val \<Rightarrow> bool" where
  "covers rs x \<longleftrightarrow> (\<exists>r \<in> set rs. in_range r x)"

lemma ranges_ok_append:
  "ranges_ok (rs @ rs') \<longleftrightarrow> ranges_ok rs \<and> ranges_ok rs' \<and> (\<forall>x. \<not> (covers rs x \<and> covers rs' x))"
  by (auto simp: ranges_ok_def covers_def sorted_wrt_append)

lemma covers_append: "covers (rs @ rs') x \<longleftrightarrow> covers rs x \<or> covers rs' x"
  by (auto simp: covers_def)

lemma option_list_ok: "ranges_ok (option_list (intersect_range a b))"
  by (cases "intersect_range a b") (simp_all add: ranges_ok_def option_list_def intersect_range_Some(2))

text \<open>Intersecting two families pairwise.\<close>

definition intersect_all :: "index_range list \<Rightarrow> index_range list \<Rightarrow> index_range list" where
  "intersect_all xs ys = concat (map (\<lambda>a. concat (map (\<lambda>b. option_list (intersect_range a b)) ys)) xs)"

lemma covers_concat: "covers (concat (map f xs)) x \<longleftrightarrow> (\<exists>a \<in> set xs. covers (f a) x)"
  by (auto simp: covers_def)

lemma covers_intersect_all: "covers (intersect_all xs ys) x \<longleftrightarrow> covers xs x \<and> covers ys x"
proof -
  have "covers (option_list (intersect_range a b)) x \<longleftrightarrow> in_range a x \<and> in_range b x" for a b
    unfolding covers_def by (rule in_range_option_list)
  then show ?thesis by (auto simp: intersect_all_def covers_concat covers_def [of xs] covers_def [of ys])
qed

lemma ranges_ok_concat:
  assumes "\<And>a. a \<in> set xs \<Longrightarrow> ranges_ok (f a)"
    and "sorted_wrt (\<lambda>a a'. \<forall>x. \<not> (covers (f a) x \<and> covers (f a') x)) xs"
  shows "ranges_ok (concat (map f xs))"
  using assms by (induction xs) (auto simp: ranges_ok_append covers_concat ranges_ok_def [of "[]"])

lemma ranges_ok_intersect_all:
  assumes "ranges_ok xs" "ranges_ok ys"
  shows "ranges_ok (intersect_all xs ys)"
proof -
  have c: "covers (option_list (intersect_range a b)) x \<longleftrightarrow> in_range a x \<and> in_range b x" for a b x
    unfolding covers_def by (rule in_range_option_list)
  have "sorted_wrt (\<lambda>b b'. \<forall>x. \<not> (in_range b x \<and> in_range b' x)) ys" using assms(2) by (simp add: ranges_ok_def)
  then have inner: "ranges_ok (concat (map (\<lambda>b. option_list (intersect_range a b)) ys))" for a
    by (intro ranges_ok_concat option_list_ok) (auto simp: c elim!: sorted_wrt_mono_rel [rotated])
  have "sorted_wrt (\<lambda>a a'. \<forall>x. \<not> (in_range a x \<and> in_range a' x)) xs" using assms(1) by (simp add: ranges_ok_def)
  then show ?thesis
    unfolding intersect_all_def
    by (intro ranges_ok_concat inner) (auto simp: covers_concat c elim!: sorted_wrt_mono_rel [rotated])
qed

section \<open>Comparisons are ranges\<close>

lemma decimal_range: "in_range (Included DECIMAL_MIN, Included DECIMAL_MAX) x \<longleftrightarrow> (\<exists>m. x = VDecimal m)"
proof -
  have "sint (word_of_int (- (2 ^ 127)) :: i128) = - (2 ^ 127)" "sint (word_of_int (2 ^ 127 - 1) :: i128) = 2 ^ 127 - 1"
    by (rule sint_i128_of_int; simp)+
  then have "DECIMAL_MIN \<le> VDecimal m \<and> VDecimal m \<le> DECIMAL_MAX" for m
    unfolding DECIMAL_MIN_def DECIMAL_MAX_def val_less_simps using sint_i128_range [of m] by simp
  moreover have "\<not> (DECIMAL_MIN \<le> x \<and> x \<le> DECIMAL_MAX)" if "value_rank x \<noteq> 2"
    using that by (cases x) (auto simp: DECIMAL_MIN_def DECIMAL_MAX_def less_eq_val_def)
  ultimately show ?thesis by (cases x) (auto simp: in_range_def)
qed

lemma above_decimals: "in_range (Excluded DECIMAL_MAX, Unbounded) x \<longleftrightarrow> value_rank x > 2"
proof -
  have "sint (word_of_int (2 ^ 127 - 1) :: i128) = 2 ^ 127 - 1" by (rule sint_i128_of_int; simp)
  then have "\<not> DECIMAL_MAX < VDecimal m" for m
    unfolding DECIMAL_MAX_def val_less_simps using sint_i128_range [of m] by simp
  then show ?thesis
    by (cases x) (auto simp: in_range_def DECIMAL_MAX_def less_val_def)
qed

lemma integer_bounds_exact:
  assumes "raw_range op v \<noteq> None" "- (2 ^ 63) \<le> k" "k < 2 ^ 63"
  shows "(case integer_bounds op n of None \<Rightarrow> False | Some (lo, hi) \<Rightarrow> lo \<le> k \<and> k \<le> hi) \<longleftrightarrow>
    (case op of OpEq \<Rightarrow> k * DECIMAL_DEN = n | OpLt \<Rightarrow> k * DECIMAL_DEN < n | OpLe \<Rightarrow> k * DECIMAL_DEN \<le> n
       | OpGt \<Rightarrow> k * DECIMAL_DEN > n | OpGe \<Rightarrow> k * DECIMAL_DEN \<ge> n | _ \<Rightarrow> False)"
proof -
  define q r where "q = n div DECIMAL_DEN" and "r = n mod DECIMAL_DEN"
  have "n = q * DECIMAL_DEN + r" "0 \<le> r" "r < DECIMAL_DEN" by (simp_all add: q_def r_def DECIMAL_DEN_def)
  moreover from this have "k * DECIMAL_DEN = n \<longleftrightarrow> r = 0 \<and> k = q"
    unfolding DECIMAL_DEN_def by (cases k q rule: linorder_cases) auto
  ultimately show ?thesis
    using assms
    unfolding integer_bounds_def Let_def q_def [symmetric] r_def [symmetric]
    by (cases op) (auto simp: DECIMAL_DEN_def I64_MIN_def I64_MAX_def raw_range_def)
qed

lemma sint_i64_of_int: "- (2 ^ 63) \<le> n \<Longrightarrow> n < 2 ^ 63 \<Longrightarrow> sint (word_of_int n :: i64) = n"
  by (simp add: signed_take_bit_int_eq_self signed_of_int)

lemma int_range:
  assumes "I64_MIN \<le> lo" "hi \<le> I64_MAX" "lo \<le> hi"
  shows "in_range (Included (VInt (word_of_int lo)), Included (VInt (word_of_int hi))) x \<longleftrightarrow>
    (\<exists>i. x = VInt i \<and> lo \<le> sint i \<and> sint i \<le> hi)"
proof -
  have "sint (word_of_int lo :: i64) = lo" "sint (word_of_int hi :: i64) = hi"
    using assms by (auto intro!: sint_i64_of_int simp: I64_MIN_def I64_MAX_def)
  then show ?thesis by (cases x) (auto simp: in_range_def less_eq_val_def)
qed

lemma integer_ranges_exact:
  assumes "raw_range op v \<noteq> None"
  shows "covers (integer_ranges op n) x \<longleftrightarrow>
    (\<exists>i. x = VInt i \<and> (case op of OpEq \<Rightarrow> sint i * DECIMAL_DEN = n | OpLt \<Rightarrow> sint i * DECIMAL_DEN < n
       | OpLe \<Rightarrow> sint i * DECIMAL_DEN \<le> n | OpGt \<Rightarrow> sint i * DECIMAL_DEN > n | OpGe \<Rightarrow> sint i * DECIMAL_DEN \<ge> n | _ \<Rightarrow> False))"
proof -
  have "covers (integer_ranges op n) x \<longleftrightarrow>
      (\<exists>i. x = VInt i \<and> (case integer_bounds op n of None \<Rightarrow> False | Some (lo, hi) \<Rightarrow> lo \<le> sint i \<and> sint i \<le> hi))"
  proof (cases "integer_bounds op n")
    case (Some b)
    obtain lo hi where b: "b = (lo, hi)" by (cases b)
    have i: "I64_MIN \<le> sint i \<and> sint i \<le> I64_MAX" for i :: i64
      using sint_i64_range [of i] by (simp add: I64_MIN_def I64_MAX_def)
    show ?thesis
    proof (cases "max lo I64_MIN \<le> min hi I64_MAX")
      case True
      from int_range [OF _ _ this, of x] Some b True i show ?thesis by (auto simp: integer_ranges_def covers_def)
    next
      case False
      then have "\<not> (lo \<le> sint i \<and> sint i \<le> hi)" for i :: i64 using i [of i] by auto
      with False Some b show ?thesis by (auto simp: integer_ranges_def covers_def)
    qed
  qed (simp add: integer_ranges_def covers_def)
  also have "\<dots> \<longleftrightarrow> (\<exists>i. x = VInt i \<and> (case op of OpEq \<Rightarrow> sint i * DECIMAL_DEN = n | OpLt \<Rightarrow> sint i * DECIMAL_DEN < n
       | OpLe \<Rightarrow> sint i * DECIMAL_DEN \<le> n | OpGt \<Rightarrow> sint i * DECIMAL_DEN > n | OpGe \<Rightarrow> sint i * DECIMAL_DEN \<ge> n | _ \<Rightarrow> False))"
    using integer_bounds_exact [OF assms sint_i64_range] by auto
  finally show ?thesis .
qed

lemma integer_ranges_ok: "ranges_ok (integer_ranges op n)"
proof (cases "integer_bounds op n")
  case (Some b)
  obtain lo hi where b: "b = (lo, hi)" by (cases b)
  let ?lo = "max lo I64_MIN" and ?hi = "min hi I64_MAX"
  have "\<not> VInt (word_of_int ?hi) < VInt (word_of_int ?lo)" if "?lo \<le> ?hi"
    using int_range [OF _ _ that, of "VInt (word_of_int ?lo)"] that sint_i64_of_int [of ?lo] sint_i64_of_int [of ?hi]
    by (auto simp: val_less_simps I64_MIN_def I64_MAX_def)
  with Some b show ?thesis by (auto simp: integer_ranges_def ranges_ok_def Let_def)
qed (simp add: integer_ranges_def ranges_ok_def)

text \<open>A comparison as a relation between join keys.\<close>

definition compare_holds :: "compare_op \<Rightarrow> val \<Rightarrow> val \<Rightarrow> bool" where
  "compare_holds op x v =
     (case op of OpEq \<Rightarrow> x = v | OpLt \<Rightarrow> x < v | OpLe \<Rightarrow> x \<le> v | OpGt \<Rightarrow> x > v | OpGe \<Rightarrow> x \<ge> v | _ \<Rightarrow> False)"

lemma eval_compare_holds:
  assumes "raw_range op v' \<noteq> None"
  shows "eval_compare x op v \<longleftrightarrow> x \<noteq> VNull \<and> v \<noteq> VNull \<and> compare_holds op (join_key x) (join_key v)"
proof -
  have "values_equal x v \<longleftrightarrow> join_key x = join_key v" using numeric_comparison_order_eq by blast
  moreover have "cmp a b \<noteq> Greater \<longleftrightarrow> a \<le> b" "cmp a b \<noteq> Less \<longleftrightarrow> b \<le> a" for a b :: val
    by (auto simp: cmp_def)
  ultimately show ?thesis
    using assms by (cases op) (auto simp: eval_compare_def compare_holds_def numeric_cmp_join_key cmp_simps raw_range_def)
qed

lemma raw_range_holds: "raw_range op v = Some r \<Longrightarrow> in_range r x \<longleftrightarrow> compare_holds op x v"
  by (cases op) (auto simp: raw_range_def in_range_def compare_holds_def)

lemma join_key_cases:
  "numeric_mantissa v = Some n \<longleftrightarrow> join_key v = VDecimal n"
  by (cases v) auto

lemma value_rank_cmp:
  "value_rank x > 2 \<Longrightarrow> VDecimal n < x" "value_rank x < 2 \<Longrightarrow> x < VDecimal n"
  by (simp_all add: value_rank_less)

lemma compare_holds_numeric:
  assumes "raw_range op v' \<noteq> None"
  shows "x \<noteq> VNull \<and> compare_holds op (join_key x) (VDecimal n) \<longleftrightarrow>
    covers (integer_ranges op (sint n)) x \<or> (\<exists>m. x = VDecimal m) \<and> compare_holds op x (VDecimal n) \<or>
    (op = OpGt \<or> op = OpGe) \<and> value_rank x > 2"
proof (cases x)
  case (VInt i)
  have "compare_holds op (VDecimal (promote_int i)) (VDecimal n) \<longleftrightarrow>
     (case op of OpEq \<Rightarrow> sint i * DECIMAL_DEN = sint n | OpLt \<Rightarrow> sint i * DECIMAL_DEN < sint n
       | OpLe \<Rightarrow> sint i * DECIMAL_DEN \<le> sint n | OpGt \<Rightarrow> sint i * DECIMAL_DEN > sint n | OpGe \<Rightarrow> sint i * DECIMAL_DEN \<ge> sint n | _ \<Rightarrow> False)"
    by (cases op) (auto simp: compare_holds_def val_less_simps promote_int_eq)
  with VInt show ?thesis by (simp add: integer_ranges_exact [OF assms])
next
  case (VText t)
  then have "\<not> covers (integer_ranges op (sint n)) x" by (simp add: integer_ranges_exact [OF assms])
  with VText value_rank_cmp(1) [of x n] show ?thesis
    using assms by (cases op) (auto simp: compare_holds_def raw_range_def)
next
  case (VBlob t)
  then have "\<not> covers (integer_ranges op (sint n)) x" by (simp add: integer_ranges_exact [OF assms])
  with VBlob value_rank_cmp(1) [of x n] show ?thesis
    using assms by (cases op) (auto simp: compare_holds_def raw_range_def)
qed (auto simp: integer_ranges_exact [OF assms])

text \<open>
  The ranges of a comparison cover exactly the keys that satisfy it, no key twice, and none makes
  \<^verbatim>\<open>BTreeMap::range\<close> panic.
\<close>

lemma comparison_ranges_exact:
  assumes "comparison_ranges op v = Some rs"
  shows "covers rs x \<longleftrightarrow> eval_compare x op v" "ranges_ok rs"
proof -
  from assms obtain raw where raw: "raw_range op v = Some raw"
    by (auto simp: comparison_ranges_def split: option.splits)
  then have nn: "raw_range op v \<noteq> None" by simp
  note ec = eval_compare_holds [OF nn]
  have "(\<forall>x. covers rs x \<longleftrightarrow> eval_compare x op v) \<and> ranges_ok rs"
  proof (cases "v = VNull")
    case True
    then show ?thesis using assms raw by (auto simp: comparison_ranges_def covers_def ranges_ok_def ec)
  next
    case nonnull: False
    show ?thesis
    proof (cases "numeric_mantissa v")
      case None
      have "join_key v = v" using None by (cases v) auto
      have rs: "rs = option_list (intersect_range raw (Excluded VNull, Unbounded))"
        using assms raw nonnull None by (simp add: comparison_ranges_def)
      have "VNull < x \<longleftrightarrow> x \<noteq> VNull" for x by (cases x) (auto simp: less_val_def)
      moreover have "compare_holds op (join_key x) v \<longleftrightarrow> compare_holds op x v" for x
        using None nonnull by (cases x; cases v) (auto simp: compare_holds_def less_val_def less_eq_val_def split: compare_op.splits)
      ultimately show ?thesis
        unfolding rs covers_def in_range_option_list
        using nonnull \<open>join_key v = v\<close> by (auto simp: option_list_ok ec raw_range_holds [OF raw] in_range_def [of "(Excluded VNull, Unbounded)"])
    next
      case (Some n)
      then obtain raw_dec where rd: "raw_range op (VDecimal n) = Some raw_dec" using nn by (cases op) (auto simp: raw_range_def)
      let ?dec = "option_list (intersect_range raw_dec (Included DECIMAL_MIN, Included DECIMAL_MAX))"
      let ?rest = "if op = OpGt \<or> op = OpGe then [(Excluded DECIMAL_MAX, Unbounded)] else []"
      have rs: "rs = integer_ranges op (sint n) @ ?dec @ ?rest"
        using assms raw rd nonnull Some by (simp add: comparison_ranges_def)
      have dec: "covers ?dec x \<longleftrightarrow> (\<exists>m. x = VDecimal m) \<and> compare_holds op x (VDecimal n)" for x
        unfolding covers_def in_range_option_list decimal_range raw_range_holds [OF rd] by blast
      have rest: "covers ?rest x \<longleftrightarrow> (op = OpGt \<or> op = OpGe) \<and> value_rank x > 2" for x
        using above_decimals [of x] by (auto simp: covers_def)
      have "ranges_ok ?rest" by (auto simp: ranges_ok_def)
      then have "ranges_ok rs"
        unfolding rs ranges_ok_append covers_append dec rest
        by (auto simp: integer_ranges_ok option_list_ok integer_ranges_exact [OF nn])
      moreover have "covers rs x \<longleftrightarrow> eval_compare x op v" for x
        unfolding rs covers_append dec rest
        using compare_holds_numeric [OF nn, of x n] Some nonnull by (simp add: ec join_key_cases)
      ultimately show ?thesis by blast
    qed
  qed
  then show "covers rs x \<longleftrightarrow> eval_compare x op v" "ranges_ok rs" by blast+
qed

section \<open>Choosing an index\<close>

type_synonym indexes = "(col_name \<times> secondary_index) list"

fun collect_ranges :: "predicate \<Rightarrow> (col_name \<times> index_range list) list" where
  "collect_ranges (And a b) = collect_ranges a @ collect_ranges b"
| "collect_ranges (Compare column op v) =
     (case comparison_ranges op v of Some ranges \<Rightarrow> [(column, ranges)] | None \<Rightarrow> [])"
| "collect_ranges (Between column low high negated) =
     (if negated then []
      else
        (case (comparison_ranges OpGe low, comparison_ranges OpLe high) of
           (Some lo, Some hi) \<Rightarrow> [(column, intersect_all lo hi)]
         | _ \<Rightarrow> []))"
| "collect_ranges _ = []"

definition merge_conjunct ::
  "indexes \<Rightarrow> (col_name \<times> index_range list) list \<Rightarrow> col_name \<times> index_range list \<Rightarrow> (col_name \<times> index_range list) list" where
  "merge_conjunct idx by_column = (\<lambda>(column, ranges).
     if bt_get idx column = None then by_column
     else
       (case bt_get by_column column of
          Some existing \<Rightarrow> bt_insert column (intersect_all existing ranges) by_column
        | None \<Rightarrow> bt_insert column ranges by_column))"

definition with_budget :: "(query_budget, unit) action \<Rightarrow> (query_budget option, unit) action" where
  "with_budget act budget =
     (case budget of
        None \<Rightarrow> (Ok (), None)
      | Some b \<Rightarrow> (case act b of (r, b') \<Rightarrow> (r, Some b')))"

definition ranges_len :: "secondary_index \<Rightarrow> index_range list \<Rightarrow> nat result" where
  "ranges_len ix ranges =
     and_then (collect_results (\<lambda>r. index_range_len ix (fst r) (snd r)) ranges) (\<lambda>ns. Ok (sum_list ns))"

type_synonym choice = "(secondary_index \<times> index_range list \<times> nat) option"

definition better :: "nat \<Rightarrow> choice \<Rightarrow> bool" where
  "better count best = (case best of None \<Rightarrow> True | Some (_, _, old) \<Rightarrow> count < old)"

fun pick_index ::
  "query_env \<Rightarrow> indexes \<Rightarrow> (col_name \<times> index_range list) list \<Rightarrow> choice \<Rightarrow> (query_budget option, choice) action" where
  "pick_index env idx [] best = act_return (Ok best)"
| "pick_index env idx ((column, ranges) # rest) best =
     act_then (with_budget (checkpoint env)) (\<lambda>_.
       case bt_get idx column of
         None \<Rightarrow> act_return Panic
       | Some ix \<Rightarrow>
           act_then (act_return (ranges_len ix ranges)) (\<lambda>count.
             pick_index env idx rest (if better count best then Some (ix, ranges, count) else best)))"

fun append_ranges :: "secondary_index \<Rightarrow> index_range list \<Rightarrow> record_addr list \<Rightarrow> record_addr list result" where
  "append_ranges ix [] out = Ok out"
| "append_ranges ix (r # rs) out = and_then (index_append_range ix (fst r) (snd r) out) (append_ranges ix rs)"

definition equivalent_key :: "val \<Rightarrow> val option" where
  "equivalent_key v =
     (case v of
        VInt n \<Rightarrow> Some (VDecimal (promote_int n))
      | VDecimal m \<Rightarrow>
          (if sint m mod DECIMAL_DEN = 0 \<and> I64_MIN \<le> sint m div DECIMAL_DEN \<and> sint m div DECIMAL_DEN \<le> I64_MAX
           then Some (VInt (word_of_int (sint m div DECIMAL_DEN))) else None)
      | _ \<Rightarrow> None)"

definition index_equality_candidates ::
  "query_env \<Rightarrow> secondary_index \<Rightarrow> val \<Rightarrow> (query_budget option, record_addr list) action" where
  "index_equality_candidates env ix v =
     (let exact = index_lookup ix v;
          equivalent = (case equivalent_key v of Some k \<Rightarrow> index_lookup ix k | None \<Rightarrow> [])
      in act_then (act_return (ok_or (checked_add (length exact) (length equivalent))
                                 (ResourceLimit ''index candidate count overflowed''))) (\<lambda>count.
         act_then (with_budget (reserve_index_candidates env count)) (\<lambda>_.
           act_return (Ok (exact @ equivalent)))))"

definition range_candidates ::
  "query_env \<Rightarrow> indexes \<Rightarrow> predicate \<Rightarrow> (query_budget option, record_addr list option) action" where
  "range_candidates env idx pred =
     act_then (pick_index env idx (foldl (merge_conjunct idx) [] (collect_ranges pred)) None) (\<lambda>best.
       case best of
         None \<Rightarrow> act_return (Ok None)
       | Some (ix, ranges, count) \<Rightarrow>
           act_then (with_budget (reserve_index_candidates env count)) (\<lambda>_.
           act_then (act_return (append_ranges ix ranges [])) (\<lambda>result. act_return (Ok (Some result)))))"

definition index_candidates ::
  "query_env \<Rightarrow> indexes \<Rightarrow> predicate \<Rightarrow> (query_budget option, record_addr list option) action" where
  "index_candidates env idx pred =
     (case pred of
        Compare column OpEq v \<Rightarrow>
          (case bt_get idx column of
             Some ix \<Rightarrow> act_then (index_equality_candidates env ix v) (\<lambda>addrs. act_return (Ok (Some addrs)))
           | None \<Rightarrow> range_candidates env idx pred)
      | _ \<Rightarrow> range_candidates env idx pred)"

section \<open>Candidates are complete\<close>

text \<open>Every range list collected for a column covers the row's cell in that column.\<close>

lemma collect_ranges_sound:
  assumes "check_result p columns row = Ok (Some True)" "(c, rs) \<in> set (collect_ranges p)"
  shows "\<exists>x. cell columns c row = Ok x \<and> covers rs x"
  using assms
proof (induction p)
  case (Compare column op v)
  then show ?case
    by (auto simp: and_then_eq_Ok comparison_ranges_exact(1) split: option.splits if_splits)
next
  case (Between column lo hi n)
  then obtain x where x: "n = False" "cell columns column row = Ok x" "x \<noteq> VNull" "lo \<noteq> VNull" "hi \<noteq> VNull"
      "numeric_cmp x lo \<noteq> Less" "numeric_cmp x hi \<noteq> Greater"
    by (auto simp: and_then_eq_Ok Let_def split: if_splits)
  obtain l h where 1: "comparison_ranges OpGe lo = Some l" "comparison_ranges OpLe hi = Some h" "c = column" "rs = intersect_all l h"
    using Between.prems(2) x(1) by (cases "comparison_ranges OpGe lo"; cases "comparison_ranges OpLe hi") auto
  then have "covers l x" "covers h x" using x by (simp_all add: comparison_ranges_exact(1) eval_compare_def)
  with 1 x show ?case by (auto simp: covers_intersect_all)
next
  case (And a b)
  then show ?case by (auto simp: and_then_eq_Ok and3_def split: if_splits)
qed auto

lemma collect_ranges_ok: "(c, rs) \<in> set (collect_ranges p) \<Longrightarrow> ranges_ok rs"
  by (induction p) (auto simp: comparison_ranges_exact(2) intro!: ranges_ok_intersect_all split: option.splits if_splits)

lemma merge_conjuncts_all:
  assumes "bt_inv m" "\<forall>(c, rs) \<in> set m. P c rs \<and> bt_get idx c \<noteq> None" "\<forall>(c, rs) \<in> set cs. P c rs"
    and inter: "\<And>c rs rs'. P c rs \<Longrightarrow> P c rs' \<Longrightarrow> P c (intersect_all rs rs')"
  shows "bt_inv (foldl (merge_conjunct idx) m cs) \<and>
    (\<forall>(c, rs) \<in> set (foldl (merge_conjunct idx) m cs). P c rs \<and> bt_get idx c \<noteq> None)"
  using assms(1-3)
proof (induction cs arbitrary: m)
  case (Cons cr cs)
  obtain c rs where cr: "cr = (c, rs)" by (cases cr)
  have set_ins: "set (bt_insert c v m) \<subseteq> insert (c, v) (set m)" for v
    by (induction c v m rule: bt_insert.induct) auto
  have "bt_inv (merge_conjunct idx m cr) \<and>
      (\<forall>(c, rs) \<in> set (merge_conjunct idx m cr). P c rs \<and> bt_get idx c \<noteq> None)"
  proof (cases "bt_get idx c")
    case (Some ix)
    show ?thesis
    proof (cases "bt_get m c")
      case None
      with Some cr Cons.prems set_ins [of rs] show ?thesis by (auto simp: merge_conjunct_def bt_insert_inv)
    next
      case ex: (Some rs0)
      then have "(c, rs0) \<in> set m" using Cons.prems(1) btree.in_pairs by fastforce
      then have "P c (intersect_all rs0 rs)" using Cons.prems(2,3) cr inter by auto
      with Some ex cr Cons.prems set_ins [of "intersect_all rs0 rs"] show ?thesis
        by (auto simp: merge_conjunct_def bt_insert_inv)
    qed
  qed (use Cons.prems cr in \<open>auto simp: merge_conjunct_def\<close>)
  then have "bt_inv (foldl (merge_conjunct idx) (merge_conjunct idx m cr) cs) \<and>
    (\<forall>(c, rs) \<in> set (foldl (merge_conjunct idx) (merge_conjunct idx m cr) cs). P c rs \<and> bt_get idx c \<noteq> None)"
    using Cons.prems(3) by (intro Cons.IH) auto
  then show ?case unfolding foldl.simps .
qed simp

lemma pick_index_member:
  "pick_index env idx cols best b = (Ok (Some (ix, rs, n)), b') \<Longrightarrow>
   best = Some (ix, rs, n) \<or> (\<exists>c. (c, rs) \<in> set cols \<and> bt_get idx c = Some ix \<and> ranges_len ix rs = Ok n)"
proof (induction cols arbitrary: best b)
  case (Cons cr cols)
  obtain c rs0 where "cr = (c, rs0)" by (cases cr)
  with Cons.prems obtain ix0 count b1 where 1: "bt_get idx c = Some ix0" "ranges_len ix0 rs0 = Ok count"
      "pick_index env idx cols (if better count best then Some (ix0, rs0, count) else best) b1 = (Ok (Some (ix, rs, n)), b')"
    by (auto simp: act_then_eq_Ok split: option.splits)
  from Cons.IH [OF 1(3)] 1 \<open>cr = (c, rs0)\<close> show ?case by (auto split: if_splits)
qed simp

lemma append_ranges_Ok:
  assumes "\<forall>r \<in> set rs. \<not> range_panics (fst r) (snd r)"
  shows "append_ranges ix rs out =
    Ok (out @ concat (map (\<lambda>r. map snd (filter (\<lambda>(k, a). in_range r k) (index_pairs ix))) rs))"
  using assms
proof (induction rs arbitrary: out)
  case (Cons r rs)
  have "index_append_range ix (fst r) (snd r) out = and_then (index_range ix (fst r) (snd r)) (\<lambda>xs. Ok (out @ xs))"
    by (simp add: index_append_range_def index_range_def and_then_assoc)
  with Cons index_pairs_range [of "fst r" "snd r" ix] show ?case by (simp add: in_range_def)
qed simp

text \<open>The addresses a family of ranges selects from an index.\<close>

definition selected :: "secondary_index \<Rightarrow> index_range list \<Rightarrow> record_addr list" where
  "selected ix rs = concat (map (\<lambda>r. map snd (filter (\<lambda>(k, a). in_range r k) (index_pairs ix))) rs)"

lemma set_selected: "set (selected ix rs) = {a. \<exists>k. (k, a) \<in> set (index_pairs ix) \<and> covers rs k}"
  by (force simp: selected_def covers_def)

lemma distinct_selected:
  assumes "distinct (map snd (index_pairs ix))" "ranges_ok rs"
  shows "distinct (selected ix rs)"
  using assms(2)
proof (induction rs)
  case (Cons r rs)
  have key: "k = k'" if "(k, a) \<in> set (index_pairs ix)" "(k', a) \<in> set (index_pairs ix)" for k k' a
    using assms(1) that by (metis distinct_map inj_onD prod.inject snd_conv)
  have "ranges_ok rs" "\<forall>x. \<not> (in_range r x \<and> covers rs x)"
    using Cons.prems ranges_ok_append [of "[r]" rs] by (auto simp: covers_def)
  then have "set (map snd (filter (\<lambda>(k, a). in_range r k) (index_pairs ix))) \<inter> set (selected ix rs) = {}"
    using key by (fastforce simp: set_selected)
  moreover have "distinct (map snd (filter (\<lambda>(k, a). in_range r k) (index_pairs ix)))"
    using assms(1) by (rule distinct_map_filter)
  ultimately show ?case using Cons.IH [OF \<open>ranges_ok rs\<close>] by (simp add: selected_def)
qed (simp add: selected_def)

definition row_indexed :: "indexes \<Rightarrow> col_name list \<Rightarrow> row \<Rightarrow> record_addr \<Rightarrow> bool" where
  "row_indexed idx columns row a \<longleftrightarrow>
     (\<forall>c ix. bt_get idx c = Some ix \<longrightarrow> (\<exists>x. cell columns c row = Ok x \<and> (x, a) \<in> set (index_pairs ix)))"

definition indexes_inv :: "indexes \<Rightarrow> bool" where
  "indexes_inv idx \<longleftrightarrow> (\<forall>c ix. bt_get idx c = Some ix \<longrightarrow> index_inv ix \<and> distinct (map snd (index_pairs ix)))"

lemma row_matches_True: "row_matches p columns row = Ok True \<longleftrightarrow> check_result p columns row = Ok (Some True)"
  by (auto simp: row_matches_def and_then_eq_Ok split: option.splits)

text \<open>A range list for column \<open>c\<close> that no row satisfying \<open>p\<close> escapes.\<close>

definition good_ranges :: "predicate \<Rightarrow> col_name \<Rightarrow> index_range list \<Rightarrow> bool" where
  "good_ranges p c rs \<longleftrightarrow> ranges_ok rs \<and>
     (\<forall>columns row. check_result p columns row = Ok (Some True) \<longrightarrow> (\<exists>x. cell columns c row = Ok x \<and> covers rs x))"

lemma good_ranges_intersect: "good_ranges p c rs \<Longrightarrow> good_ranges p c rs' \<Longrightarrow> good_ranges p c (intersect_all rs rs')"
  by (fastforce simp: good_ranges_def covers_intersect_all ranges_ok_intersect_all)

lemma good_ranges_merged:
  "\<forall>(c, rs) \<in> set (foldl (merge_conjunct idx) [] (collect_ranges p)). good_ranges p c rs \<and> bt_get idx c \<noteq> None"
proof -
  have "\<forall>(c, rs) \<in> set (collect_ranges p). good_ranges p c rs"
    using collect_ranges_sound collect_ranges_ok by (fastforce simp: good_ranges_def)
  from merge_conjuncts_all [of "[]" "good_ranges p" idx, OF _ _ this good_ranges_intersect] show ?thesis by (simp add: bt_inv_def)
qed

lemma range_candidates_Some:
  assumes "range_candidates env idx p b = (Ok (Some addrs), b')"
  shows "\<exists>c ix rs. bt_get idx c = Some ix \<and> good_ranges p c rs \<and> addrs = selected ix rs"
proof -
  let ?m = "foldl (merge_conjunct idx) [] (collect_ranges p)"
  from assms obtain ix rs n b1 where pick: "pick_index env idx ?m None b = (Ok (Some (ix, rs, n)), b1)"
      and app: "append_ranges ix rs [] = Ok addrs"
    by (auto simp: range_candidates_def act_then_eq_Ok split: option.splits)
  from pick_index_member [OF pick] obtain c where c: "(c, rs) \<in> set ?m" "bt_get idx c = Some ix" by auto
  with good_ranges_merged [of idx p] have "good_ranges p c rs" by fastforce
  with app c(2) show ?thesis by (auto simp: append_ranges_Ok good_ranges_def ranges_ok_def selected_def)
qed

lemma equality_key:
  assumes "eval_compare x OpEq v"
  shows "x = v \<or> equivalent_key v = Some x"
proof -
  have eq: "join_key x = join_key v"
    using assms eval_compare_holds [of OpEq v x v] by (simp add: raw_range_def compare_holds_def)
  show ?thesis
  proof (cases v)
    case (VDecimal m)
    show ?thesis
    proof (cases x)
      case (VInt i)
      with VDecimal eq have "sint m = sint i * DECIMAL_DEN" by (simp add: promote_int_eq)
      with VDecimal VInt sint_i64_range [of i] show ?thesis by (simp add: equivalent_key_def I64_MIN_def I64_MAX_def DECIMAL_DEN_def)
    qed (use VDecimal eq in auto)
  next
    case (VInt i)
    with eq show ?thesis by (cases x) (auto simp: equivalent_key_def)
  qed (use eq in \<open>cases x; simp\<close>)+
qed

lemma equivalent_key_neq: "equivalent_key v = Some k \<Longrightarrow> k \<noteq> v"
  by (auto simp: equivalent_key_def split: val.splits if_splits)

lemma set_index_lookup:
  assumes "index_inv ix"
  shows "set (index_lookup ix v) = {a. (v, a) \<in> set (index_pairs ix)}"
  unfolding index_pairs_lookup [OF assms, symmetric] by force

lemma distinct_index_lookup:
  assumes "index_inv ix" "distinct (map snd (index_pairs ix))"
  shows "distinct (index_lookup ix v)"
  unfolding index_pairs_lookup [OF assms(1), symmetric] using assms(2) by (rule distinct_map_filter)

lemma equality_candidates_Ok:
  assumes "index_equality_candidates env ix v b = (Ok addrs, b')" "index_inv ix" "distinct (map snd (index_pairs ix))"
  shows "distinct addrs" "(x, a) \<in> set (index_pairs ix) \<Longrightarrow> eval_compare x OpEq v \<Longrightarrow> a \<in> set addrs"
    "a \<in> set addrs \<Longrightarrow> \<exists>k. (k, a) \<in> set (index_pairs ix)"
proof -
  have addrs: "addrs = index_lookup ix v @ (case equivalent_key v of Some k \<Rightarrow> index_lookup ix k | None \<Rightarrow> [])"
    using assms(1) by (auto simp: index_equality_candidates_def act_then_eq_Ok Let_def)
  have "k = k'" if "(k, a) \<in> set (index_pairs ix)" "(k', a) \<in> set (index_pairs ix)" for k k' a
    using assms(3) that by (metis distinct_map inj_onD prod.inject snd_conv)
  then show "distinct addrs"
    unfolding addrs using distinct_index_lookup [OF assms(2,3)] equivalent_key_neq [of v]
    by (auto simp: set_index_lookup [OF assms(2)] split: option.splits)
  show "a \<in> set addrs" if "(x, a) \<in> set (index_pairs ix)" "eval_compare x OpEq v"
    unfolding addrs using equality_key [OF that(2)] that(1) by (auto simp: set_index_lookup [OF assms(2)])
  show "\<exists>k. (k, a) \<in> set (index_pairs ix)" if "a \<in> set addrs"
    using that unfolding addrs by (auto simp: set_index_lookup [OF assms(2)] split: option.splits)
qed

definition calm :: "('s, 'a) action \<Rightarrow> 's \<Rightarrow> bool" where
  "calm act s \<longleftrightarrow> fst (act s) \<noteq> Panic"

lemma calm_return [simp]: "calm (act_return r) s \<longleftrightarrow> r \<noteq> Panic"
  by (simp add: calm_def)

lemma calm_then: "calm m s \<Longrightarrow> (\<And>x s'. m s = (Ok x, s') \<Longrightarrow> calm (f x) s') \<Longrightarrow> calm (act_then m f) s"
  by (auto simp: calm_def act_then_def split: prod.splits result.splits)

lemma calm_budget: "calm (checkpoint env) b" "calm (scan_row env) b" "calm (reserve_index_candidates env n) b"
  by (auto simp: calm_def checkpoint_def scan_row_def reserve_index_candidates_def charge_bytes_def act_then_def Let_def
      split: prod.splits result.splits if_splits option.splits)

lemma calm_with_budget: "(\<And>b. calm act b) \<Longrightarrow> calm (with_budget act) b"
  by (cases b) (auto simp: calm_def with_budget_def split: prod.splits, metis fst_conv)

lemma ranges_len_no_panic:
  "ranges_ok rs \<Longrightarrow> ranges_len ix rs \<noteq> Panic"
  by (auto simp: ranges_len_def and_then_eq_Panic index_range_len_def bt_range_def ranges_ok_def intro!: collect_results_not_Panic)

lemma pick_index_no_panic:
  "\<forall>(c, rs) \<in> set cols. ranges_ok rs \<and> bt_get idx c \<noteq> None \<Longrightarrow> calm (pick_index env idx cols best) b"
proof (induction cols arbitrary: best b)
  case (Cons cr cols)
  obtain c rs where "cr = (c, rs)" by (cases cr)
  with Cons show ?case
    by (auto intro!: calm_then calm_with_budget calm_budget simp: ranges_len_no_panic split: option.split)
qed simp

lemma range_candidates_no_panic: "calm (range_candidates env idx p) b"
proof -
  let ?m = "foldl (merge_conjunct idx) [] (collect_ranges p)"
  have m: "\<forall>(c, rs) \<in> set ?m. ranges_ok rs \<and> bt_get idx c \<noteq> None"
    using good_ranges_merged [of idx p] by (auto simp: good_ranges_def)
  have "append_ranges ix rs [] \<noteq> Panic" if "pick_index env idx ?m None b = (Ok (Some (ix, rs, n)), b1)" for ix rs n b1
  proof -
    from pick_index_member [OF that] m have "ranges_ok rs" by auto
    then show ?thesis by (simp add: append_ranges_Ok ranges_ok_def)
  qed
  with pick_index_no_panic [OF m] show ?thesis
    unfolding range_candidates_def
    by (auto intro!: calm_then calm_with_budget calm_budget split: option.split)
qed

definition indexed_addr :: "indexes \<Rightarrow> record_addr \<Rightarrow> bool" where
  "indexed_addr idx a \<longleftrightarrow> (\<exists>c ix k. bt_get idx c = Some ix \<and> (k, a) \<in> set (index_pairs ix))"

lemma index_candidates_facts:
  assumes "indexes_inv idx"
  shows "fst (index_candidates env idx p b) \<noteq> Panic \<and>
    (\<forall>addrs b'. index_candidates env idx p b = (Ok (Some addrs), b') \<longrightarrow>
       distinct addrs \<and>
       (\<forall>columns row a. row_matches p columns row = Ok True \<longrightarrow> row_indexed idx columns row a \<longrightarrow> a \<in> set addrs) \<and>
       (\<forall>a \<in> set addrs. indexed_addr idx a))"
proof -
  have rng: "distinct addrs \<and>
      (\<forall>columns row a. row_matches p columns row = Ok True \<longrightarrow> row_indexed idx columns row a \<longrightarrow> a \<in> set addrs) \<and>
      (\<forall>a \<in> set addrs. indexed_addr idx a)"
    if r: "range_candidates env idx p b = (Ok (Some addrs), b')" for addrs b'
  proof -
    from range_candidates_Some [OF r] obtain c ix rs where
      c: "bt_get idx c = Some ix" "good_ranges p c rs" "addrs = selected ix rs" by blast
    with assms show ?thesis
      by (fastforce simp: indexes_inv_def good_ranges_def row_matches_True row_indexed_def set_selected indexed_addr_def intro: distinct_selected)
  qed
  show ?thesis
  proof (cases "\<exists>c v ix. p = Compare c OpEq v \<and> bt_get idx c = Some ix")
    case True
    then obtain c v ix where p: "p = Compare c OpEq v" "bt_get idx c = Some ix" by blast
    have inv: "index_inv ix" "distinct (map snd (index_pairs ix))" using assms p(2) by (auto simp: indexes_inv_def)
    have eq: "index_candidates env idx p b = act_then (index_equality_candidates env ix v) (\<lambda>addrs. act_return (Ok (Some addrs))) b"
      by (simp add: index_candidates_def p)
    have "calm (index_equality_candidates env ix v) b"
      unfolding index_equality_candidates_def Let_def by (auto intro!: calm_then calm_with_budget calm_budget)
    then have "fst (index_candidates env idx p b) \<noteq> Panic"
      unfolding eq calm_def [symmetric] by (intro calm_then) simp_all
    moreover have "distinct addrs \<and>
        (\<forall>columns row a. row_matches p columns row = Ok True \<longrightarrow> row_indexed idx columns row a \<longrightarrow> a \<in> set addrs) \<and>
        (\<forall>a \<in> set addrs. indexed_addr idx a)"
      if "index_candidates env idx p b = (Ok (Some addrs), b')" for addrs b'
    proof -
      have cand: "index_equality_candidates env ix v b = (Ok addrs, b')"
        using that unfolding eq by (auto simp: act_then_eq_Ok)
      note e = equality_candidates_Ok [OF cand inv]
      then have "distinct addrs \<and>
          (\<forall>columns row a. row_matches p columns row = Ok True \<longrightarrow> row_indexed idx columns row a \<longrightarrow> a \<in> set addrs)"
        using p by (fastforce simp: row_matches_True and_then_eq_Ok row_indexed_def split: if_splits)
      with e(3) p(2) show ?thesis unfolding indexed_addr_def by metis
    qed
    ultimately show ?thesis by blast
  next
    case False
    then have "index_candidates env idx p b = range_candidates env idx p b"
      by (auto simp: index_candidates_def split: predicate.split compare_op.split option.split)
    then show ?thesis using rng range_candidates_no_panic [of env idx p b] by (auto simp: calm_def)
  qed
qed

text \<open>
  C17: Answering a query from an index loses no row and repeats none. For indexes that hold every row
  version under its cells, the chosen candidate list contains the address of every row that satisfies the
  predicate, whichever index is picked, whatever mix of integers and decimals is stored and compared, and no address twice;
  and selecting candidates never panics.
\<close>

theorem index_candidates_complete:
  assumes "indexes_inv idx"
  shows "fst (index_candidates env idx p b) \<noteq> Panic \<and>
    (\<forall>addrs b'. index_candidates env idx p b = (Ok (Some addrs), b') \<longrightarrow>
       distinct addrs \<and>
       (\<forall>columns row a. row_matches p columns row = Ok True \<longrightarrow> row_indexed idx columns row a \<longrightarrow> a \<in> set addrs))"
  using index_candidates_facts [OF assms] by blast

definition sample_index :: secondary_index where
  "sample_index = \<lparr>si_map = [(VInt 1, [10]), (VInt 2, [11]), (VDecimal 1000000, [12])], si_entries = 3\<rparr>"

theorem index_candidates_complete_witness:
  "\<exists>addrs. index_candidates (\<lambda>_. \<lparr>ob_cancelled = False, ob_now = 0\<rparr>) [([97], sample_index)] (Compare [97] OpEq (VInt 1)) None =
     (Ok (Some addrs), None) \<and> 12 \<in> set addrs \<and> distinct addrs"
proof -
  let ?env = "\<lambda>_. \<lparr>ob_cancelled = False, ob_now = 0\<rparr>" and ?p = "Compare [97] OpEq (VInt 1)"
  have one: "promote_int 1 = 1000000" by (simp add: promote_int_def saturate_i128_def DECIMAL_DEN_def)
  have inv: "indexes_inv [([97], sample_index)]"
    by (auto simp: indexes_inv_def index_inv_def sample_index_def bt_inv_def index_pairs_def less_val_def split: if_splits)
  have run: "index_candidates ?env [([97], sample_index)] ?p None = (Ok (Some [10, 12]), None)"
    by (simp add: index_candidates_def index_equality_candidates_def index_lookup_def sample_index_def equivalent_key_def one
        checked_add_def usize_max_def with_budget_def less_val_def)
  have "row_matches ?p [[97]] [VDecimal 1000000] = Ok True" "row_indexed [([97], sample_index)] [[97]] [VDecimal 1000000] 12"
    using numeric_comparison_order_eq [of "VDecimal 1000000" "VInt 1"]
    by (auto simp: row_matches_def cell_def projection_col_pos_def column_matches_def positions_def elem_at_def elem_get_def
        eval_compare_def one row_indexed_def index_pairs_def sample_index_def split: if_splits)
  with index_candidates_complete [OF inv, of ?env ?p None] run show ?thesis by blast
qed

section \<open>Pushing a filter to the driving table\<close>

definition strip_qualifier :: "bytes \<Rightarrow> col_name \<Rightarrow> col_name option" where
  "strip_qualifier qualifier name =
     (if prefix (qualifier @ [46]) name then Some (drop (length qualifier + 1) name) else None)"

fun source_predicate :: "predicate \<Rightarrow> bytes \<Rightarrow> predicate option" where
  "source_predicate (Compare name op v) q = map_option (\<lambda>c. Compare c op v) (strip_qualifier q name)"
| "source_predicate (InList name vs negated) q = map_option (\<lambda>c. InList c vs negated) (strip_qualifier q name)"
| "source_predicate (Between name low high negated) q = map_option (\<lambda>c. Between c low high negated) (strip_qualifier q name)"
| "source_predicate (IsNull name negated) q = map_option (\<lambda>c. IsNull c negated) (strip_qualifier q name)"
| "source_predicate (And a b) q =
     (case (source_predicate a q, source_predicate b q) of
        (Some a', Some b') \<Rightarrow> Some (And a' b')
      | (Some a', None) \<Rightarrow> Some a'
      | (None, Some b') \<Rightarrow> Some b'
      | (None, None) \<Rightarrow> None)"
| "source_predicate (Or a b) q =
     (case (source_predicate a q, source_predicate b q) of
        (Some a', Some b') \<Rightarrow> Some (Or a' b')
      | _ \<Rightarrow> None)"

lemma strip_qualifier_Some: "strip_qualifier q name = Some c \<longleftrightarrow> name = q @ 46 # c"
  by (auto simp: strip_qualifier_def prefix_def)

lemma positions_append:
  "positions P (xs @ ys) = positions P xs @ map (\<lambda>i. length xs + i) (positions P ys)"
proof -
  have "map (\<lambda>i. i + length xs) [0..<length ys] = [length xs..<length ys + length xs]" by (rule map_add_upt)
  then have "[0..<length (xs @ ys)] = [0..<length xs] @ map (\<lambda>i. length xs + i) [0..<length ys]"
    using upt_add_eq_append [of 0 "length xs" "length ys"] by (simp add: add.commute)
  moreover have "filter (\<lambda>i. P ((xs @ ys) ! i)) [0..<length xs] = filter (\<lambda>i. P (xs ! i)) [0..<length xs]"
    by (rule filter_cong) (auto simp: nth_append)
  ultimately show ?thesis by (simp add: positions_def filter_map comp_def)
qed

lemma positions_map: "inj f \<Longrightarrow> positions (\<lambda>c. c = f x) (map f xs) = positions (\<lambda>c. c = x) xs"
  unfolding positions_def by (rule filter_cong) (auto simp: inj_eq)

lemma positions_none: "x \<notin> set xs \<Longrightarrow> positions (\<lambda>c. c = x) xs = []"
  by (auto simp: positions_def filter_empty_conv)

text \<open>The columns of the joined relation: those of the driving table under its qualifier, then others.\<close>

definition joined_columns :: "bytes \<Rightarrow> col_name list \<Rightarrow> col_name list \<Rightarrow> col_name list" where
  "joined_columns q base others = map (\<lambda>c. q @ 46 # c) base @ others"

lemma cell_source:
  assumes "\<forall>c. q @ 46 # c \<notin> set others" "length row = length base"
    and "cell (joined_columns q base others) (q @ 46 # c) (row @ rest) = Ok x"
  shows "cell base c row = Ok x"
proof -
  have "column_matches (joined_columns q base others) (q @ 46 # c) = positions (\<lambda>n. n = c) base"
    using assms(1) by (simp add: column_matches_def joined_columns_def positions_append positions_none
        positions_map [of "\<lambda>c. q @ 46 # c"] inj_def Let_def)
  then obtain i where i: "positions (\<lambda>n. n = c) base = [i]" "elem_at (row @ rest) i = Ok x"
    using assms(3) by (auto simp: cell_def projection_col_pos_def and_then_eq_Ok split: list.splits)
  then have "i \<in> set (positions (\<lambda>n. n = c) base)" by simp
  then have "i < length row" using assms(2) by (auto simp: positions_def)
  with i show ?thesis
    by (simp add: cell_def projection_col_pos_def column_matches_def nth_append Let_def)
qed

lemma source_predicate_result:
  assumes "\<forall>c. q @ 46 # c \<notin> set others" "length row = length base"
  shows "source_predicate p q = Some p' \<Longrightarrow> check_result p (joined_columns q base others) (row @ rest) = Ok r \<Longrightarrow>
    \<exists>r'. check_result p' base row = Ok r' \<and> (r = Some True \<longrightarrow> r' = Some True)"
proof (induction p arbitrary: p' r)
  case (And a b)
  then obtain ra rb where "check_result a (joined_columns q base others) (row @ rest) = Ok ra"
      "check_result b (joined_columns q base others) (row @ rest) = Ok rb" "r = and3 ra rb"
    by (auto simp: and_then_eq_Ok)
  with And.IH And.prems(1) show ?case
    by (cases "source_predicate a q"; cases "source_predicate b q") (fastforce simp: and3_def split: if_splits)+
next
  case (Or a b)
  then obtain ra rb where "check_result a (joined_columns q base others) (row @ rest) = Ok ra"
      "check_result b (joined_columns q base others) (row @ rest) = Ok rb" "r = or3 ra rb"
    by (auto simp: and_then_eq_Ok)
  with Or.IH Or.prems(1) show ?case
    by (cases "source_predicate a q"; cases "source_predicate b q") (fastforce simp: or3_def split: if_splits)+
qed (auto simp: strip_qualifier_Some and_then_eq_Ok dest!: cell_source [OF assms])

text \<open>
  C22: Pushing a filter below a join drops no result row. Whenever a joined row satisfies the whole filter,
  its part from the driving table satisfies the part of the filter that was pushed down.
\<close>

theorem source_predicate_sound:
  assumes "source_predicate p q = Some p'" "\<forall>c. q @ 46 # c \<notin> set others" "length row = length base"
    and "row_matches p (joined_columns q base others) (row @ rest) = Ok True"
  shows "row_matches p' base row = Ok True"
  using source_predicate_result [OF assms(2,3,1), of rest "Some True"] assms(4) by (simp add: row_matches_True)

theorem source_predicate_sound_witness:
  "row_matches (IsNull [97] False) [[97]] [VNull] = Ok True"
proof -
  let ?p = "And (IsNull [116, 46, 97] False) (IsNull [98] True)"
  have "strip_qualifier [116] [98] = None" by (simp add: strip_qualifier_def)
  then have src: "source_predicate ?p [116] = Some (IsNull [97] False)" by (simp add: strip_qualifier_def)
  have "row_matches ?p (joined_columns [116] [[97]] [[117, 46, 98]]) ([VNull] @ [VInt 4]) = Ok True"
    by (simp add: row_matches_def joined_columns_def cell_def projection_col_pos_def column_matches_def positions_def
        suffix_def elem_at_def elem_get_def and3_def)
  from source_predicate_sound [OF src _ _ this] show ?thesis by simp
qed

end
