(* ===== verification/Aggregates.thy ===== *)
theory Aggregates
  imports Predicates
begin

text \<open>
  Aggregate functions: the two-pass evaluation over the rows of a group in \<^verbatim>\<open>src/db.rs\<close>
  (\<^verbatim>\<open>compute_one_aggregate\<close>) and the one-pass accumulators of \<^verbatim>\<open>src/db/aggregate.rs\<close>, which must agree.
\<close>

section \<open>Exact arithmetic\<close>

definition checked_i128 :: "int \<Rightarrow> i128 option" where
  "checked_i128 n = (if - (2 ^ 127) \<le> n \<and> n < 2 ^ 127 then Some (word_of_int n) else None)"

definition combine_mantissa :: "i128 \<Rightarrow> i128 \<Rightarrow> i128 result" where
  "combine_mantissa int_sum dec_sum =
     ok_or (Option.bind (checked_i128 (sint int_sum * DECIMAL_DEN)) (\<lambda>s. checked_i128 (sint s + sint dec_sum)))
       (Schema ''numeric aggregate overflowed'')"

definition round_div_half_away :: "i128 \<Rightarrow> int \<Rightarrow> i128 result" where
  "round_div_half_away num den =
     (let negative = ((sint num < 0) \<noteq> (den < 0));
          n = \<bar>sint num\<bar>;
          d = \<bar>den\<bar>
      in if d = 0 then Panic
         else
           let q = n div d; r = n mod d;
               q' = (if r * 2 \<ge> d then q + 1 else q)
           in Ok (if negative then (if q' = 2 ^ 127 then word_of_int (- (2 ^ 127)) else - word_of_int q')
                  else word_of_int q'))"

section \<open>Aggregation over the rows of a group\<close>

fun sum_numeric_loop ::
  "row list \<Rightarrow> nat \<Rightarrow> string \<Rightarrow> i128 \<times> i128 \<times> bool \<times> int \<Rightarrow> (i128 \<times> i128 \<times> bool \<times> int) result" where
  "sum_numeric_loop [] ix label acc = Ok acc"
| "sum_numeric_loop (r # rows) ix label (int_sum, dec_sum, any_decimal, count) =
     and_then (elem_at r ix) (\<lambda>v.
       case v of
         VInt i \<Rightarrow>
           and_then (ok_or (checked_i128 (sint int_sum + sint i)) (Schema (label @ '' overflowed''))) (\<lambda>s.
             sum_numeric_loop rows ix label (s, dec_sum, any_decimal, count + 1))
       | VDecimal m \<Rightarrow>
           and_then (ok_or (checked_i128 (sint dec_sum + sint m)) (Schema (label @ '' overflowed''))) (\<lambda>s.
             sum_numeric_loop rows ix label (int_sum, s, True, count + 1))
       | VNull \<Rightarrow> sum_numeric_loop rows ix label (int_sum, dec_sum, any_decimal, count)
       | _ \<Rightarrow> Err (Schema (label @ '' requires numeric values, found {other:?}'')))"

definition sum_numeric_column :: "row list \<Rightarrow> nat \<Rightarrow> string \<Rightarrow> (i128 \<times> i128 \<times> bool \<times> int) result" where
  "sum_numeric_column rows ix label = sum_numeric_loop rows ix label (0, 0, False, 0)"

definition i64_result :: "i128 \<Rightarrow> val result" where
  "i64_result s =
     (if - (2 ^ 63) \<le> sint s \<and> sint s < 2 ^ 63 then Ok (VInt (ucast s)) else Err (Schema ''SUM overflowed i64''))"

definition takes_over :: "agg_func \<Rightarrow> val \<Rightarrow> val \<Rightarrow> bool" where
  "takes_over f v cur = (if f = Min then numeric_cmp v cur = Less else numeric_cmp v cur = Greater)"

fun extreme_loop :: "agg_func \<Rightarrow> row list \<Rightarrow> nat \<Rightarrow> val option \<Rightarrow> val option result" where
  "extreme_loop f [] ix acc = Ok acc"
| "extreme_loop f (r # rows) ix acc =
     and_then (elem_at r ix) (\<lambda>v.
       if v = VNull then extreme_loop f rows ix acc
       else extreme_loop f rows ix
              (Some (case acc of None \<Rightarrow> v | Some cur \<Rightarrow> if takes_over f v cur then v else cur)))"

fun count_loop :: "row list \<Rightarrow> nat \<Rightarrow> nat result" where
  "count_loop [] ix = Ok 0"
| "count_loop (r # rows) ix =
     and_then (elem_at r ix) (\<lambda>v. and_then (count_loop rows ix) (\<lambda>n. Ok (if v = VNull then n else Suc n)))"

definition expect_col :: "nat option \<Rightarrow> nat result" where
  "expect_col c = (case c of Some ix \<Rightarrow> Ok ix | None \<Rightarrow> Panic)"

definition aggregate_rows :: "agg_func \<Rightarrow> nat option \<Rightarrow> row list \<Rightarrow> val result" where
  "aggregate_rows f col_ix rows =
     (case f of
        Count \<Rightarrow>
          (case col_ix of
             None \<Rightarrow> Ok (VInt (of_nat (length rows)))
           | Some ix \<Rightarrow> and_then (count_loop rows ix) (\<lambda>n. Ok (VInt (of_nat n))))
      | Sum \<Rightarrow>
          and_then (expect_col col_ix) (\<lambda>ix.
          and_then (sum_numeric_column rows ix ''SUM'') (\<lambda>(int_sum, dec_sum, any_decimal, count).
            if count = 0 then Ok VNull
            else if any_decimal then and_then (combine_mantissa int_sum dec_sum) (\<lambda>m. Ok (VDecimal m))
            else i64_result int_sum))
      | Avg \<Rightarrow>
          and_then (expect_col col_ix) (\<lambda>ix.
          and_then (sum_numeric_column rows ix ''AVG'') (\<lambda>(int_sum, dec_sum, _, count).
            if count = 0 then Ok VNull
            else and_then (combine_mantissa int_sum dec_sum) (\<lambda>m.
                 and_then (round_div_half_away m count) (\<lambda>v. Ok (VDecimal v)))))
      | _ \<Rightarrow>
          and_then (expect_col col_ix) (\<lambda>ix.
          and_then (extreme_loop f rows ix None) (\<lambda>acc. Ok (case acc of Some v \<Rightarrow> v | None \<Rightarrow> VNull))))"

definition compute_one_aggregate :: "aggregate \<Rightarrow> col_name list \<Rightarrow> row list \<Rightarrow> val result" where
  "compute_one_aggregate agg columns rows =
     and_then (case ag_column agg of None \<Rightarrow> Ok None | Some c \<Rightarrow> and_then (projection_col_pos columns c) (\<lambda>ix. Ok (Some ix)))
       (\<lambda>col_ix. aggregate_rows (ag_func agg) col_ix rows)"

section \<open>Streaming accumulators\<close>

record accumulator =
  ac_count :: int
  ac_integers :: i128
  ac_decimals :: i128
  ac_any_decimal :: bool
  ac_extreme :: "val option"

definition acc_default :: accumulator where
  "acc_default = \<lparr>ac_count = 0, ac_integers = 0, ac_decimals = 0, ac_any_decimal = False, ac_extreme = None\<rparr>"

definition acc_add_number :: "string \<Rightarrow> val \<Rightarrow> accumulator \<Rightarrow> accumulator result" where
  "acc_add_number label v a =
     (case v of
        VInt n \<Rightarrow>
          and_then (ok_or (checked_i128 (sint (ac_integers a) + sint n)) (Schema (label @ '' overflowed''))) (\<lambda>s.
            Ok (a\<lparr>ac_integers := s, ac_count := ac_count a + 1\<rparr>))
      | VDecimal n \<Rightarrow>
          and_then (ok_or (checked_i128 (sint (ac_decimals a) + sint n)) (Schema (label @ '' overflowed''))) (\<lambda>s.
            Ok (a\<lparr>ac_decimals := s, ac_any_decimal := True, ac_count := ac_count a + 1\<rparr>))
      | _ \<Rightarrow> Err (Schema (label @ '' requires numeric values, found {other:?}'')))"

definition acc_add :: "agg_func \<Rightarrow> val option \<Rightarrow> accumulator \<Rightarrow> accumulator result" where
  "acc_add f v a =
     (if v = Some VNull then Ok a
      else if f = Count then Ok (a\<lparr>ac_count := ac_count a + 1\<rparr>)
      else
        (case v of
           None \<Rightarrow> Panic
         | Some x \<Rightarrow>
             if f = Min \<or> f = Max then
               (if (case ac_extreme a of None \<Rightarrow> True | Some old \<Rightarrow> takes_over f x old)
                then Ok (a\<lparr>ac_extreme := Some x\<rparr>) else Ok a)
             else acc_add_number (if f = Sum then ''SUM'' else ''AVG'') x a))"

definition acc_finish :: "agg_func \<Rightarrow> accumulator \<Rightarrow> val result" where
  "acc_finish f a =
     (case f of
        Count \<Rightarrow> Ok (VInt (of_int (ac_count a)))
      | Min \<Rightarrow> Ok (case ac_extreme a of Some v \<Rightarrow> v | None \<Rightarrow> VNull)
      | Max \<Rightarrow> Ok (case ac_extreme a of Some v \<Rightarrow> v | None \<Rightarrow> VNull)
      | Avg \<Rightarrow>
          if ac_count a = 0 then Ok VNull
          else and_then (combine_mantissa (ac_integers a) (ac_decimals a)) (\<lambda>m.
               and_then (round_div_half_away m (ac_count a)) (\<lambda>v. Ok (VDecimal v)))
      | Sum \<Rightarrow>
          if ac_count a = 0 then Ok VNull
          else if ac_any_decimal a then and_then (combine_mantissa (ac_integers a) (ac_decimals a)) (\<lambda>m. Ok (VDecimal m))
          else i64_result (ac_integers a))"

text \<open>Feeding the cells of a column to one accumulator, row by row.\<close>

fun acc_run :: "agg_func \<Rightarrow> nat option \<Rightarrow> row list \<Rightarrow> accumulator \<Rightarrow> accumulator result" where
  "acc_run f col_ix [] a = Ok a"
| "acc_run f col_ix (r # rows) a =
     and_then (case col_ix of None \<Rightarrow> Ok None | Some ix \<Rightarrow> and_then (elem_at r ix) (\<lambda>v. Ok (Some v))) (\<lambda>v.
     and_then (acc_add f v a) (acc_run f col_ix rows))"

section \<open>The two evaluations agree\<close>

lemma count_loop_acc:
  "and_then (acc_run Count (Some ix) rows a) (acc_finish Count) =
   and_then (count_loop rows ix) (\<lambda>n. Ok (VInt (of_int (ac_count a + int n))))"
proof (induction rows arbitrary: a)
  case (Cons r rows)
  show ?case
  proof (cases "elem_at r ix")
    case (Ok v)
    then show ?thesis
      by (cases "v = VNull"; cases "count_loop rows ix") (simp_all add: acc_add_def Cons)
  qed simp_all
qed (simp add: acc_finish_def)

lemma count_star_acc: "acc_run Count None rows a = Ok (a\<lparr>ac_count := ac_count a + int (length rows)\<rparr>)"
  by (induction rows arbitrary: a) (simp_all add: acc_add_def)

lemma extreme_loop_acc:
  "f = Min \<or> f = Max \<Longrightarrow>
   and_then (acc_run f (Some ix) rows a) (acc_finish f) =
   and_then (extreme_loop f rows ix (ac_extreme a)) (\<lambda>acc. Ok (case acc of Some v \<Rightarrow> v | None \<Rightarrow> VNull))"
proof (induction rows arbitrary: a)
  case (Cons r rows)
  show ?case
  proof (cases "elem_at r ix")
    case (Ok v)
    have "a\<lparr>ac_extreme := Some e\<rparr> = a" if "ac_extreme a = Some e" for e using that by simp
    then show ?thesis
      using Ok Cons by (cases "v = VNull"; cases "ac_extreme a") (auto simp: acc_add_def)
  qed simp_all
qed (auto simp: acc_finish_def)

lemma sum_loop_acc:
  assumes "f = Sum \<and> label = ''SUM'' \<or> f = Avg \<and> label = ''AVG''"
  shows "and_then (acc_run f (Some ix) rows a) (acc_finish f) =
    and_then (sum_numeric_loop rows ix label (ac_integers a, ac_decimals a, ac_any_decimal a, ac_count a))
      (\<lambda>(i, d, any, n). acc_finish f (a\<lparr>ac_integers := i, ac_decimals := d, ac_any_decimal := any, ac_count := n\<rparr>))"
proof (induction rows arbitrary: a)
  case (Cons r rows)
  show ?case
  proof (cases "elem_at r ix")
    case (Ok v)
    show ?thesis
    proof (cases v)
      case (VInt i)
      with Ok assms Cons show ?thesis
        by (cases "checked_i128 (sint (ac_integers a) + sint i)") (auto simp: acc_add_def acc_add_number_def)
    next
      case (VDecimal m)
      with Ok assms Cons show ?thesis
        by (cases "checked_i128 (sint (ac_decimals a) + sint m)") (auto simp: acc_add_def acc_add_number_def)
    qed (use Ok assms Cons in \<open>auto simp: acc_add_def acc_add_number_def\<close>)
  qed simp_all
qed simp

lemma acc_run_finish:
  assumes "f = Count \<or> col_ix = Some ix"
  shows "and_then (acc_run f col_ix rows acc_default) (acc_finish f) = aggregate_rows f col_ix rows"
proof (cases col_ix)
  case None
  with assms show ?thesis by (simp add: aggregate_rows_def count_star_acc acc_finish_def acc_default_def)
next
  case (Some ix)
  show ?thesis
  proof (cases f)
    case Count
    with Some show ?thesis by (simp add: aggregate_rows_def count_loop_acc acc_default_def)
  next
    case Sum
    with Some sum_loop_acc [of Sum "''SUM''" ix rows acc_default] show ?thesis
      by (cases "sum_numeric_column rows ix ''SUM''")
        (auto simp: aggregate_rows_def expect_col_def sum_numeric_column_def acc_default_def acc_finish_def split: prod.splits)
  next
    case Avg
    with Some sum_loop_acc [of Avg "''AVG''" ix rows acc_default] show ?thesis
      by (cases "sum_numeric_column rows ix ''AVG''")
        (auto simp: aggregate_rows_def expect_col_def sum_numeric_column_def acc_default_def acc_finish_def split: prod.splits)
  qed (use Some in \<open>simp_all add: aggregate_rows_def expect_col_def extreme_loop_acc acc_default_def\<close>)
qed

text \<open>
  Streaming aggregation computes what evaluation over the whole group computes, for every aggregate
  function and every column, errors included: the same value, the same overflow or type error, and a panic only where
  the other panics too.
\<close>

theorem streaming_aggregate_equivalent:
  assumes "f = Count \<or> col_ix = Some ix"
  shows "and_then (acc_run f col_ix rows acc_default) (acc_finish f) = aggregate_rows f col_ix rows"
  using assms by (rule acc_run_finish)

theorem streaming_aggregate_equivalent_witness:
  "and_then (acc_run Sum (Some 0) [[VInt 2], [VNull], [VDecimal 1500000]] acc_default) (acc_finish Sum) = Ok (VDecimal 3500000)"
proof -
  have "aggregate_rows Sum (Some 0) [[VInt 2], [VNull], [VDecimal 1500000]] = Ok (VDecimal 3500000)"
    by (simp add: aggregate_rows_def expect_col_def sum_numeric_column_def checked_i128_def elem_at_def elem_get_def
        combine_mantissa_def DECIMAL_DEN_def)
  with streaming_aggregate_equivalent [of Sum "Some 0" 0 "[[VInt 2], [VNull], [VDecimal 1500000]]"] show ?thesis by simp
qed

section \<open>The arithmetic is exact\<close>

lemma round_half_div:
  fixes n d :: int
  assumes "0 < d"
  shows "(2 * n + d) div (2 * d) = n div d + (if n mod d * 2 \<ge> d then 1 else 0)"
proof -
  have "2 * n = 2 * (n div d * d + n mod d)" by simp
  then have eq: "2 * n + d = n div d * (2 * d) + (2 * (n mod d) + d)" by (simp only: algebra_simps)
  have "(2 * n + d) div (2 * d) = n div d + (2 * (n mod d) + d) div (2 * d)"
    by (subst eq, rule div_mult_self3) (use assms in simp)
  moreover have "(2 * (n mod d) + d) div (2 * d) = (if n mod d * 2 \<ge> d then 1 else 0)"
  proof -
    have r: "0 \<le> n mod d" "n mod d < d" using assms by simp_all
    show ?thesis
    proof (cases "n mod d * 2 \<ge> d")
      case True
      have "(2 * (n mod d) + d) div (2 * d) = 1"
        by (rule int_div_pos_eq [of _ _ _ "2 * (n mod d) - d"]) (use r True in linarith)+
      with True show ?thesis by simp
    qed (use r in \<open>auto intro!: div_pos_pos_trivial\<close>)
  qed
  ultimately show ?thesis by simp
qed

lemma round_div_exact:
  assumes "0 < den"
  shows "\<exists>v. round_div_half_away num den = Ok v \<and> sint v = sgn (sint num) * ((2 * \<bar>sint num\<bar> + den) div (2 * den))"
proof -
  define n q where "n = \<bar>sint num\<bar>" and "q = (2 * n + den) div (2 * den)"
  have q: "q = n div den + (if n mod den * 2 \<ge> den then 1 else 0)" unfolding q_def by (rule round_half_div [OF assms])
  have n: "0 \<le> n" "n \<le> 2 ^ 127" "0 \<le> sint num \<Longrightarrow> n < 2 ^ 127" using sint_i128_range [of num] by (auto simp: n_def)
  have "0 \<le> n div den" using n(1) assms by (simp add: pos_imp_zdiv_nonneg_iff)
  then have "0 \<le> q" unfolding q by simp
  have "q \<le> n"
  proof (cases "den = 1")
    case False
    then have "2 \<le> den" using assms by simp
    then have "n div den \<le> n div 2" using n(1) by (intro zdiv_mono2) auto
    moreover have "n mod den = n" if "n < den" using n(1) that by simp
    ultimately show ?thesis unfolding q using n(1) \<open>2 \<le> den\<close> by (cases "n < den") auto
  qed (use q in simp)
  have "(if den \<le> n mod den * 2 then n div den + 1 else n div den) = q" by (simp add: q)
  then have rd: "round_div_half_away num den =
      Ok (if sint num < 0 then (if q = 2 ^ 127 then word_of_int (- (2 ^ 127)) else - word_of_int q) else word_of_int q)"
    unfolding round_div_half_away_def Let_def n_def [symmetric] abs_of_pos [OF assms] using assms by simp
  show ?thesis
  proof (cases "sint num < 0")
    case True
    have "sint (if q = 2 ^ 127 then word_of_int (- (2 ^ 127)) else - word_of_int q :: i128) = - q"
      using \<open>q \<le> n\<close> n(2) \<open>0 \<le> q\<close> sint_i128_of_int [of "- q"] by (auto simp: sint_i128_of_int)
    with True show ?thesis unfolding rd n_def [symmetric] q_def [symmetric] by simp
  next
    case False
    then have "sint (word_of_int q :: i128) = q" using \<open>q \<le> n\<close> n(3) \<open>0 \<le> q\<close> by (intro sint_i128_of_int) auto
    moreover have "q = sgn (sint num) * q" using False \<open>q \<le> n\<close> \<open>0 \<le> q\<close> by (cases "sint num = 0") (auto simp: n_def)
    ultimately show ?thesis using False unfolding rd n_def [symmetric] q_def [symmetric] by simp
  qed
qed

text \<open>The value of a number in units of the last decimal place.\<close>

fun mantissa :: "val \<Rightarrow> int" where
  "mantissa (VInt i) = sint i * DECIMAL_DEN"
| "mantissa (VDecimal m) = sint m"
| "mantissa _ = 0"

definition column_total :: "nat \<Rightarrow> row list \<Rightarrow> int" where
  "column_total ix rows = (\<Sum>r \<leftarrow> rows. mantissa (r ! ix))"

definition column_count :: "nat \<Rightarrow> row list \<Rightarrow> int" where
  "column_count ix rows = int (length (filter (\<lambda>r. r ! ix \<noteq> VNull) rows))"

lemma checked_i128_Some: "checked_i128 n = Some w \<Longrightarrow> sint w = n"
  by (auto simp: checked_i128_def sint_i128_of_int split: if_splits)

lemma elem_at_Ok: "elem_at xs i = Ok x \<Longrightarrow> i < length xs \<and> x = xs ! i"
  by (auto simp: elem_at_def elem_get_def split: if_splits)

lemma sum_numeric_loop_exact:
  assumes "sum_numeric_loop rows ix label (i0, d0, any0, n0) = Ok (i, d, any, n)"
  shows "sint i * DECIMAL_DEN + sint d = sint i0 * DECIMAL_DEN + sint d0 + column_total ix rows \<and>
    n = n0 + column_count ix rows \<and> (\<not> any \<longrightarrow> \<not> any0 \<and> sint d = sint d0)"
  using assms
proof (induction rows arbitrary: i0 d0 any0 n0)
  case (Cons r rows)
  from Cons.prems obtain v where v: "elem_at r ix = Ok v" by (auto simp: and_then_eq_Ok)
  note r = elem_at_Ok [OF v]
  show ?case
  proof (cases v)
    case (VInt k)
    with r have m: "mantissa (r ! ix) = sint k * DECIMAL_DEN" "r ! ix \<noteq> VNull" by (metis mantissa.simps val.distinct)+
    from VInt Cons.prems v obtain w where w: "checked_i128 (sint i0 + sint k) = Some w"
        "sum_numeric_loop rows ix label (w, d0, any0, n0 + 1) = Ok (i, d, any, n)"
      by (auto simp: and_then_eq_Ok)
    from Cons.IH [OF w(2)] checked_i128_Some [OF w(1)] m show ?thesis
      by (auto simp: column_total_def column_count_def algebra_simps)
  next
    case (VDecimal k)
    with r have m: "mantissa (r ! ix) = sint k" "r ! ix \<noteq> VNull" by (metis mantissa.simps val.distinct)+
    from VDecimal Cons.prems v obtain w where w: "checked_i128 (sint d0 + sint k) = Some w"
        "sum_numeric_loop rows ix label (i0, w, True, n0 + 1) = Ok (i, d, any, n)"
      by (auto simp: and_then_eq_Ok)
    from Cons.IH [OF w(2)] checked_i128_Some [OF w(1)] m show ?thesis
      by (auto simp: column_total_def column_count_def)
  next
    case VNull
    with Cons.prems v have "sum_numeric_loop rows ix label (i0, d0, any0, n0) = Ok (i, d, any, n)" by simp
    from Cons.IH [OF this] r VNull show ?thesis by (auto simp: column_total_def column_count_def)
  qed (use Cons.prems v in auto)
qed (simp add: column_total_def column_count_def)

lemma combine_mantissa_exact: "combine_mantissa i d = Ok m \<Longrightarrow> sint m = sint i * DECIMAL_DEN + sint d"
  by (auto simp: combine_mantissa_def bind_eq_Some_conv dest!: checked_i128_Some)

lemma sint_ucast_i64:
  assumes "- (2 ^ 63) \<le> sint (w :: i128)" "sint w < 2 ^ 63"
  shows "sint (ucast w :: i64) = sint w"
proof -
  have eq: "(ucast w :: i64) = word_of_int (sint w)"
    by (rule bit_word_eqI) (simp add: bit_simps)
  have "sint (ucast w :: i64) = signed_take_bit (LENGTH(64) - 1) (sint w)"
    unfolding eq by (rule sint_sbintrunc')
  then show ?thesis using assms by (simp add: signed_take_bit_int_eq_self)
qed

text \<open>
  C19: \<^verbatim>\<open>SUM\<close> and \<^verbatim>\<open>AVG\<close> are exact. When a sum returns a number, it is the true sum of the column over integers and
  decimals alike, with no rounding and no wrap-around; an average is that sum divided by the number of non-null cells, rounded to
  the last decimal place with halves away from zero. Both are \<^verbatim>\<open>NULL\<close> exactly when every cell is.
\<close>

theorem sum_avg_exact:
  "(\<forall>v. aggregate_rows Sum (Some ix) rows = Ok v \<longrightarrow>
      (if column_count ix rows = 0 then v = VNull else v \<noteq> VNull \<and> mantissa v = column_total ix rows)) \<and>
   (\<forall>v. aggregate_rows Avg (Some ix) rows = Ok v \<longrightarrow>
      (if column_count ix rows = 0 then v = VNull
       else v \<noteq> VNull \<and>
         mantissa v = sgn (column_total ix rows) *
           ((2 * \<bar>column_total ix rows\<bar> + column_count ix rows) div (2 * column_count ix rows))))"
proof -
  have sum: "if column_count ix rows = 0 then v = VNull else v \<noteq> VNull \<and> mantissa v = column_total ix rows"
    if "aggregate_rows Sum (Some ix) rows = Ok v" for v
  proof -
    from that obtain i d any n where l: "sum_numeric_loop rows ix ''SUM'' (0, 0, False, 0) = Ok (i, d, any, n)"
        and v: "(if n = 0 then Ok VNull else if any then and_then (combine_mantissa i d) (\<lambda>m. Ok (VDecimal m)) else i64_result i) = Ok v"
      by (auto simp: aggregate_rows_def expect_col_def sum_numeric_column_def and_then_eq_Ok)
    from sum_numeric_loop_exact [OF l] v show ?thesis
      by (auto simp: and_then_eq_Ok i64_result_def sint_ucast_i64 dest: combine_mantissa_exact split: if_splits)
  qed
  have avg: "if column_count ix rows = 0 then v = VNull
       else v \<noteq> VNull \<and> mantissa v = sgn (column_total ix rows) *
         ((2 * \<bar>column_total ix rows\<bar> + column_count ix rows) div (2 * column_count ix rows))"
    if "aggregate_rows Avg (Some ix) rows = Ok v" for v
  proof -
    from that obtain i d any n where l: "sum_numeric_loop rows ix ''AVG'' (0, 0, False, 0) = Ok (i, d, any, n)"
        and v: "(if n = 0 then Ok VNull else and_then (combine_mantissa i d) (\<lambda>m. and_then (round_div_half_away m n) (\<lambda>v. Ok (VDecimal v)))) = Ok v"
      by (auto simp: aggregate_rows_def expect_col_def sum_numeric_column_def and_then_eq_Ok)
    note ex = sum_numeric_loop_exact [OF l]
    show ?thesis
    proof (cases "n = 0")
      case False
      then have "0 < n" using ex by (simp add: column_count_def)
      from v False obtain m w where m: "combine_mantissa i d = Ok m" "round_div_half_away m n = Ok w" "v = VDecimal w"
        by (auto simp: and_then_eq_Ok)
      from round_div_exact [OF \<open>0 < n\<close>, of m] m combine_mantissa_exact [OF m(1)] ex False show ?thesis by auto
    qed (use v ex in auto)
  qed
  from sum avg show ?thesis by blast
qed

theorem sum_avg_exact_witness:
  "aggregate_rows Avg (Some 0) [[VInt 1], [VInt 2], [VNull]] = Ok (VDecimal 1500000) \<and>
   mantissa (VDecimal 1500000) = (2 * 3000000 + 2) div (2 * 2)"
proof -
  let ?rows = "[[VInt 1], [VInt 2], [VNull]]"
  have "aggregate_rows Avg (Some 0) ?rows = Ok (VDecimal 1500000)"
    by (simp add: aggregate_rows_def expect_col_def sum_numeric_column_def checked_i128_def elem_at_def elem_get_def
        combine_mantissa_def DECIMAL_DEN_def round_div_half_away_def)
  moreover have "column_count 0 ?rows = 2" "column_total 0 ?rows = 3000000"
    by (simp_all add: column_count_def column_total_def DECIMAL_DEN_def)
  ultimately show ?thesis using sum_avg_exact [of 0 ?rows] by auto
qed

end
