(* ===== verification/Projection.thy ===== *)
theory Projection
  imports Aggregates Btree_Map "HOL-Library.Multiset"
begin

text \<open>
  What happens to matching rows before they are returned (\<^verbatim>\<open>src/db.rs\<close>): scalar expressions, \<^verbatim>\<open>ORDER BY\<close>,
  \<^verbatim>\<open>DISTINCT\<close>, \<^verbatim>\<open>LIMIT\<close> and \<^verbatim>\<open>OFFSET\<close>, and grouping with \<^verbatim>\<open>HAVING\<close>. The Unicode tables behind \<^verbatim>\<open>to_lowercase\<close>,
  \<^verbatim>\<open>to_uppercase\<close> and \<^verbatim>\<open>trim\<close> are arguments (\<open>text_fns\<close>), and so is the partition step
  \<^verbatim>\<open>select_nth_unstable_by\<close>, whose order among equal elements is not specified.
\<close>

section \<open>Scalar expressions\<close>

record text_fns =
  tf_lower :: "bytes \<Rightarrow> bytes"
  tf_upper :: "bytes \<Rightarrow> bytes"
  tf_trim :: "bytes \<Rightarrow> bytes"

definition scalar_func_name :: "scalar_func \<Rightarrow> bytes" where
  "scalar_func_name f =
     (case f of
        Lower \<Rightarrow> ascii ''lower''
      | Upper \<Rightarrow> ascii ''upper''
      | Trim \<Rightarrow> ascii ''trim''
      | Length \<Rightarrow> ascii ''length''
      | Abs \<Rightarrow> ascii ''abs''
      | Coalesce \<Rightarrow> ascii ''coalesce''
      | NullIf \<Rightarrow> ascii ''nullif'')"

fun join_comma :: "bytes list \<Rightarrow> bytes" where
  "join_comma [] = []"
| "join_comma [x] = x"
| "join_comma (x # y # xs) = x @ [44] @ join_comma (y # xs)"

fun scalar_label :: "scalar_expr \<Rightarrow> bytes" where
  "scalar_label (ScalarColumn c) = c"
| "scalar_label (ScalarLiteral v) = val_display v"
| "scalar_label (ScalarFunction f args) = scalar_func_name f @ [40] @ join_comma (map scalar_label args) @ [41]"
| "scalar_label (ScalarCase _ _) = ascii ''case''"

definition text_function :: "text_fns \<Rightarrow> scalar_func \<Rightarrow> bytes \<Rightarrow> bytes" where
  "text_function tf f s = (if f = Lower then tf_lower tf s else if f = Upper then tf_upper tf s else tf_trim tf s)"

definition eval_scalar_function :: "text_fns \<Rightarrow> scalar_func \<Rightarrow> val list \<Rightarrow> val result" where
  "eval_scalar_function tf f vs =
     (if f = Lower \<or> f = Upper \<or> f = Trim then
        and_then (elem_at vs 0) (\<lambda>v.
          case v of
            VNull \<Rightarrow> Ok VNull
          | VText s \<Rightarrow> Ok (VText (text_function tf f s))
          | _ \<Rightarrow> Err (Schema ''text function expects text, found {}''))
      else if f = Length then
        and_then (elem_at vs 0) (\<lambda>v.
          case v of
            VNull \<Rightarrow> Ok VNull
          | VText s \<Rightarrow> Ok (VInt (of_nat (length (utf8_chars s))))
          | VBlob b \<Rightarrow> Ok (VInt (of_nat (length b)))
          | _ \<Rightarrow> Err (Schema ''LENGTH expects text or blob, found {}''))
      else if f = Abs then
        and_then (elem_at vs 0) (\<lambda>v.
          case v of
            VNull \<Rightarrow> Ok VNull
          | VInt i \<Rightarrow> (if sint i = - (2 ^ 63) then Err (Schema ''ABS overflowed i64'') else Ok (VInt (word_of_int \<bar>sint i\<bar>)))
          | VDecimal m \<Rightarrow>
              (if sint m = - (2 ^ 127) then Err (Schema ''ABS overflowed decimal'') else Ok (VDecimal (word_of_int \<bar>sint m\<bar>)))
          | _ \<Rightarrow> Err (Schema ''ABS expects a numeric value, found {}''))
      else if f = Coalesce then Panic
      else
        and_then (elem_at vs 0) (\<lambda>a.
        and_then (elem_at vs 1) (\<lambda>b. Ok (if values_equal a b then VNull else a))))"

fun first_non_null :: "('e \<Rightarrow> val result) \<Rightarrow> 'e list \<Rightarrow> val result" where
  "first_non_null ev [] = Ok VNull"
| "first_non_null ev (e # es) = and_then (ev e) (\<lambda>v. if v \<noteq> VNull then Ok v else first_non_null ev es)"

fun first_true ::
  "(predicate \<Rightarrow> bool result) \<Rightarrow> ('e \<Rightarrow> val result) \<Rightarrow> (predicate \<times> 'e) list \<Rightarrow> 'e option \<Rightarrow> val result" where
  "first_true matches ev [] els = (case els of None \<Rightarrow> Ok VNull | Some e \<Rightarrow> ev e)"
| "first_true matches ev ((p, e) # bs) els =
     and_then (matches p) (\<lambda>b. if b then ev e else first_true matches ev bs els)"

lemma first_non_null_cong [fundef_cong]:
  "xs = ys \<Longrightarrow> (\<And>x. x \<in> set ys \<Longrightarrow> f x = g x) \<Longrightarrow> first_non_null f xs = first_non_null g ys"
  by (induction ys arbitrary: xs) (auto intro!: and_then_cong)

lemma first_true_cong [fundef_cong]:
  "m = m' \<Longrightarrow> bs = bs' \<Longrightarrow> o1 = o2 \<Longrightarrow> (\<And>p x. (p, x) \<in> set bs' \<Longrightarrow> f x = g x) \<Longrightarrow> (\<And>x. o2 = Some x \<Longrightarrow> f x = g x) \<Longrightarrow>
   first_true m f bs o1 = first_true m' g bs' o2"
  by (induction bs' arbitrary: bs) (auto intro!: and_then_cong split: option.splits, blast+)

fun eval_scalar :: "text_fns \<Rightarrow> scalar_expr \<Rightarrow> col_name list \<Rightarrow> row \<Rightarrow> val result" where
  "eval_scalar tf (ScalarColumn c) columns row = cell columns c row"
| "eval_scalar tf (ScalarLiteral v) columns row = Ok v"
| "eval_scalar tf (ScalarCase branches els) columns row =
     first_true (\<lambda>p. row_matches p columns row) (\<lambda>e. eval_scalar tf e columns row) branches els"
| "eval_scalar tf (ScalarFunction f args) columns row =
     (if f = Coalesce then first_non_null (\<lambda>e. eval_scalar tf e columns row) args
      else and_then (collect_results (\<lambda>e. eval_scalar tf e columns row) args) (eval_scalar_function tf f))"

section \<open>Ordering\<close>

definition order_keys :: "col_name list \<Rightarrow> order_by list \<Rightarrow> (nat \<times> bool) list result" where
  "order_keys columns order =
     collect_results (\<lambda>ob. and_then (projection_col_pos columns (ob_column ob)) (\<lambda>ix. Ok (ix, ob_descending ob))) order"

fun reverse_ordering :: "ordering \<Rightarrow> ordering" where
  "reverse_ordering Less = Greater"
| "reverse_ordering Equal = Equal"
| "reverse_ordering Greater = Less"

fun cmp_by_keys :: "row \<Rightarrow> row \<Rightarrow> (nat \<times> bool) list \<Rightarrow> ordering result" where
  "cmp_by_keys a b [] = Ok Equal"
| "cmp_by_keys a b ((ix, descending) # keys) =
     and_then (elem_at a ix) (\<lambda>x.
     and_then (elem_at b ix) (\<lambda>y.
       let o1 = cmp_values x y; o2 = (if descending then reverse_ordering o1 else o1) in
       if o2 \<noteq> Equal then Ok o2 else cmp_by_keys a b keys))"

text \<open>The stable \<^verbatim>\<open>slice::sort_by\<close>, with a comparison that may panic.\<close>

fun insert_by :: "('a \<Rightarrow> 'a \<Rightarrow> ordering result) \<Rightarrow> 'a \<Rightarrow> 'a list \<Rightarrow> 'a list result" where
  "insert_by cm x [] = Ok [x]"
| "insert_by cm x (y # ys) =
     and_then (cm x y) (\<lambda>o1.
       if o1 = Greater then and_then (insert_by cm x ys) (\<lambda>zs. Ok (y # zs)) else Ok (x # y # ys))"

fun sort_by :: "('a \<Rightarrow> 'a \<Rightarrow> ordering result) \<Rightarrow> 'a list \<Rightarrow> 'a list result" where
  "sort_by cm [] = Ok []"
| "sort_by cm (x # xs) = and_then (sort_by cm xs) (insert_by cm x)"

definition sort_rows :: "row list \<Rightarrow> col_name list \<Rightarrow> order_by list \<Rightarrow> row list result" where
  "sort_rows rows columns order =
     (if order = [] then Ok rows
      else and_then (order_keys columns order) (\<lambda>keys. sort_by (\<lambda>a b. cmp_by_keys a b keys) rows))"

type_synonym nth_selector = "(nat \<Rightarrow> nat \<Rightarrow> ordering result) \<Rightarrow> nat \<Rightarrow> nat list \<Rightarrow> nat list"

definition take_top_n ::
  "nth_selector \<Rightarrow> row list \<Rightarrow> col_name list \<Rightarrow> order_by list \<Rightarrow> nat \<Rightarrow> row list result" where
  "take_top_n select_nth rows columns order k =
     (if order = [] then Ok (take k rows)
      else if k \<ge> length rows then sort_rows rows columns order
      else
        and_then (order_keys columns order) (\<lambda>keys.
          let cm = (\<lambda>a b. cmp_by_keys (rows ! a) (rows ! b) keys);
              idx = take k (select_nth cm k [0..<length rows])
          in and_then (sort_by cm idx) (\<lambda>sorted_idx. Ok (map (\<lambda>i. rows ! i) sorted_idx))))"

fun dedup_rows :: "row list \<Rightarrow> row set \<Rightarrow> row list" where
  "dedup_rows [] seen = []"
| "dedup_rows (r # rows) seen = (if r \<in> seen then dedup_rows rows seen else r # dedup_rows rows (insert r seen))"

section \<open>Plain selects\<close>

record query_rows =
  qr_columns :: "col_name list"
  qr_rows :: "row list"

definition is_aggregate :: "select_item \<Rightarrow> bool" where
  "is_aggregate it = (case it_expr it of SelectAggregate _ \<Rightarrow> True | _ \<Rightarrow> False)"

definition item_label :: "select_item \<Rightarrow> col_name" where
  "item_label it =
     (case it_alias it of
        Some a \<Rightarrow> a
      | None \<Rightarrow> (case it_expr it of SelectColumn c \<Rightarrow> c | SelectAggregate a \<Rightarrow> agg_label a | SelectScalar e \<Rightarrow> scalar_label e))"

definition item_value :: "text_fns \<Rightarrow> col_name list \<Rightarrow> row \<Rightarrow> select_item \<Rightarrow> val result" where
  "item_value tf columns row it =
     (case it_expr it of
        SelectColumn c \<Rightarrow> cell columns c row
      | SelectScalar e \<Rightarrow> eval_scalar tf e columns row
      | SelectAggregate _ \<Rightarrow> Panic)"

definition project_rows :: "text_fns \<Rightarrow> col_name list \<Rightarrow> row list \<Rightarrow> projection \<Rightarrow> query_rows result" where
  "project_rows tf columns rows proj =
     (case proj of
        ProjectAll \<Rightarrow> Ok \<lparr>qr_columns = columns, qr_rows = rows\<rparr>
      | ProjectColumns cols \<Rightarrow>
          and_then (collect_results (projection_col_pos columns) cols) (\<lambda>idxs.
          and_then (collect_results (\<lambda>r. collect_results (elem_at r) idxs) rows) (\<lambda>out.
            Ok \<lparr>qr_columns = cols, qr_rows = out\<rparr>))
      | ProjectItems items \<Rightarrow>
          (if \<exists>it \<in> set items. is_aggregate it
           then Err (Query ''aggregate projection requires the grouped execution path'')
           else
             and_then (collect_results (\<lambda>r. collect_results (item_value tf columns r) items) rows) (\<lambda>out.
               Ok \<lparr>qr_columns = map item_label items, qr_rows = out\<rparr>)))"

text \<open>The tail both kinds of query share: \<^verbatim>\<open>DISTINCT\<close>, \<^verbatim>\<open>OFFSET\<close>, \<^verbatim>\<open>LIMIT\<close>.\<close>

definition finish_rows :: "bool \<Rightarrow> nat option \<Rightarrow> nat \<Rightarrow> row list \<Rightarrow> row list" where
  "finish_rows dist limit offset rows =
     (let r1 = (if dist then dedup_rows rows {} else rows);
          r2 = (if offset > 0 then drop offset r1 else r1)
      in case limit of Some n \<Rightarrow> take n r2 | None \<Rightarrow> r2)"

definition project_select ::
  "text_fns \<Rightarrow> nth_selector \<Rightarrow> col_name list \<Rightarrow> row list \<Rightarrow> projection \<Rightarrow> order_by list \<Rightarrow> bool \<Rightarrow> nat option \<Rightarrow> nat \<Rightarrow> query_rows result"
where
  "project_select tf select_nth columns rows proj order dist limit offset =
     and_then
       (case limit of
          Some n \<Rightarrow>
            (if \<not> dist \<and> order \<noteq> [] then take_top_n select_nth rows columns order (saturating_add n offset)
             else sort_rows rows columns order)
        | None \<Rightarrow> sort_rows rows columns order) (\<lambda>sorted_rows.
     and_then (project_rows tf columns sorted_rows proj) (\<lambda>out.
       Ok (out\<lparr>qr_rows := finish_rows dist limit offset (qr_rows out)\<rparr>)))"

definition projection_has_aggregate :: "projection \<Rightarrow> bool" where
  "projection_has_aggregate proj =
     (case proj of ProjectItems items \<Rightarrow> \<exists>it \<in> set items. is_aggregate it | _ \<Rightarrow> False)"

definition count_star_only :: "projection \<Rightarrow> col_name option option" where
  "count_star_only proj =
     (case proj of
        ProjectItems [it] \<Rightarrow>
          (case it_expr it of
             SelectAggregate a \<Rightarrow> if ag_func a = Count \<and> ag_column a = None then Some (it_alias it) else None
           | _ \<Rightarrow> None)
      | _ \<Rightarrow> None)"

definition projection_to_items :: "projection \<Rightarrow> select_item list result" where
  "projection_to_items proj =
     (case proj of
        ProjectItems items \<Rightarrow> Ok items
      | ProjectColumns cols \<Rightarrow> Ok (map (\<lambda>c. \<lparr>it_expr = SelectColumn c, it_alias = None\<rparr>) cols)
      | ProjectAll \<Rightarrow> Err (Query ''SELECT * cannot be combined with GROUP BY or aggregates''))"

section \<open>Sorting\<close>

text \<open>A comparison that succeeds and is a total preorder on a carrier.\<close>

locale comparison =
  fixes cm :: "'a \<Rightarrow> 'a \<Rightarrow> ordering result" and S :: "'a set" and le :: "'a \<Rightarrow> 'a \<Rightarrow> bool"
  assumes compares: "x \<in> S \<Longrightarrow> y \<in> S \<Longrightarrow> \<exists>c. cm x y = Ok c \<and> (c = Greater \<longleftrightarrow> \<not> le x y)"
    and total: "x \<in> S \<Longrightarrow> y \<in> S \<Longrightarrow> le x y \<or> le y x"
    and trans: "x \<in> S \<Longrightarrow> y \<in> S \<Longrightarrow> z \<in> S \<Longrightarrow> le x y \<Longrightarrow> le y z \<Longrightarrow> le x z"
begin

lemma insert_by_Ok:
  "x \<in> S \<Longrightarrow> set ys \<subseteq> S \<Longrightarrow> sorted_wrt le ys \<Longrightarrow>
   \<exists>zs. insert_by cm x ys = Ok zs \<and> mset zs = add_mset x (mset ys) \<and> sorted_wrt le zs"
proof (induction ys)
  case (Cons y ys)
  then obtain zs where zs: "insert_by cm x ys = Ok zs" "mset zs = add_mset x (mset ys)" "sorted_wrt le zs" by auto
  have "y \<in> S" using Cons.prems by simp
  from compares [OF Cons.prems(1) this] obtain c where c: "cm x y = Ok c" "c = Greater \<longleftrightarrow> \<not> le x y" by blast
  show ?case
  proof (cases "c = Greater")
    case True
    then have "le y x" using c(2) total [OF Cons.prems(1) \<open>y \<in> S\<close>] by blast
    moreover have "set zs = insert x (set ys)" using zs(2) by (metis set_mset_add_mset_insert set_mset_mset)
    ultimately show ?thesis using True c zs Cons.prems(3) by auto
  next
    case False
    then have "le x y" using c(2) by blast
    moreover have "\<forall>z \<in> set ys. le x z"
      using Cons.prems \<open>le x y\<close> \<open>y \<in> S\<close> trans [OF Cons.prems(1) \<open>y \<in> S\<close>] by auto
    ultimately show ?thesis using False c(1) Cons.prems(3) by auto
  qed
qed simp

lemma sort_by_Ok:
  "set xs \<subseteq> S \<Longrightarrow> \<exists>ys. sort_by cm xs = Ok ys \<and> mset ys = mset xs \<and> sorted_wrt le ys"
proof (induction xs)
  case (Cons x xs)
  then obtain ys where ys: "sort_by cm xs = Ok ys" "mset ys = mset xs" "sorted_wrt le ys" by auto
  have "set ys \<subseteq> S" using ys(2) Cons.prems by (metis list.set_intros(2) mset_eq_setD subset_code(1))
  with insert_by_Ok [OF _ this ys(3), of x] Cons.prems ys show ?case by auto
qed simp

end

lemma sort_by_map: "sort_by cm (map f xs) = and_then (sort_by (\<lambda>a b. cm (f a) (f b)) xs) (\<lambda>ys. Ok (map f ys))"
proof (induction xs)
  case (Cons x xs)
  have "insert_by cm (f x) (map f ys) = and_then (insert_by (\<lambda>a b. cm (f a) (f b)) x ys) (\<lambda>zs. Ok (map f zs))" for ys
    by (induction ys) (auto simp: and_then_assoc intro!: and_then_cong)
  with Cons show ?case by (simp add: and_then_assoc)
qed simp

text \<open>The order of rows under resolved sort keys.\<close>

definition wide :: "(nat \<times> bool) list \<Rightarrow> row \<Rightarrow> bool" where
  "wide keys r \<longleftrightarrow> (\<forall>(ix, d) \<in> set keys. ix < length r)"

fun row_le :: "(nat \<times> bool) list \<Rightarrow> row \<Rightarrow> row \<Rightarrow> bool" where
  "row_le [] a b = True"
| "row_le ((ix, d) # keys) a b =
     (if a ! ix = b ! ix then row_le keys a b else if d then b ! ix < a ! ix else a ! ix < b ! ix)"

lemma cmp_by_keys_row_le:
  "wide keys a \<Longrightarrow> wide keys b \<Longrightarrow> \<exists>c. cmp_by_keys a b keys = Ok c \<and> (c = Greater \<longleftrightarrow> \<not> row_le keys a b)"
proof (induction keys)
  case (Cons k keys)
  obtain ix d where k: "k = (ix, d)" by (cases k)
  then have *: "elem_at a ix = Ok (a ! ix)" "elem_at b ix = Ok (b ! ix)" "wide keys a" "wide keys b"
    using Cons.prems by (auto simp: wide_def)
  show ?case
    using Cons.IH [OF *(3,4)] * k
    by (cases "a ! ix" "b ! ix" rule: linorder_cases) (auto simp: cmp_values_def cmp_def Let_def)
qed simp

interpretation row_order: comparison "\<lambda>a b. cmp_by_keys a b keys" "{r. wide keys r}" "row_le keys" for keys
proof
  fix x y z
  assume "x \<in> {r. wide keys r}" "y \<in> {r. wide keys r}"
  then show "\<exists>c. cmp_by_keys x y keys = Ok c \<and> (c = Greater) = (\<not> row_le keys x y)" using cmp_by_keys_row_le by simp
  show "row_le keys x y \<or> row_le keys y x" by (induction keys) auto
  show "row_le keys x y \<Longrightarrow> row_le keys y z \<Longrightarrow> row_le keys x z" by (induction keys) (auto split: if_splits)
qed

text \<open>What \<^verbatim>\<open>select_nth_unstable_by\<close> documents for a comparison that is a total preorder: a permutation whose
  first \<open>k\<close> elements are not greater than the others.\<close>

definition selector_ok :: "nth_selector \<Rightarrow> bool" where
  "selector_ok select_nth \<longleftrightarrow>
     (\<forall>cm le k xs. comparison cm (set xs) le \<longrightarrow> k < length xs \<longrightarrow>
        mset (select_nth cm k xs) = mset xs \<and>
        (\<forall>a \<in> set (take k (select_nth cm k xs)). \<forall>b \<in> set (drop k (select_nth cm k xs)). cm a b \<noteq> Ok Greater))"

lemma projection_col_pos_bound: "projection_col_pos columns c = Ok i \<Longrightarrow> i < length columns"
proof -
  assume "projection_col_pos columns c = Ok i"
  then have "i \<in> set (column_matches columns c)" by (auto simp: projection_col_pos_def split: list.splits)
  then show ?thesis by (auto simp: column_matches_def positions_def Let_def split: if_splits)
qed

lemma order_keys_wide:
  assumes "order_keys columns order = Ok keys" "length r = length columns"
  shows "wide keys r"
proof -
  have "\<exists>ob :: order_by. and_then (projection_col_pos columns (ob_column ob)) (\<lambda>ix. Ok (ix, ob_descending ob)) = Ok k" if "k \<in> set keys" for k
  proof -
    from that obtain i where i: "i < length keys" "keys ! i = k" by (auto simp: in_set_conv_nth)
    with assms(1) show ?thesis
      by (intro exI [of _ "order ! i"]) (simp add: order_keys_def collect_results_Ok list_all2_conv_all_nth)
  qed
  then show ?thesis using assms(2) by (fastforce simp: wide_def and_then_eq_Ok dest: projection_col_pos_bound)
qed

text \<open>
  C20: \<^verbatim>\<open>ORDER BY ... LIMIT k\<close> returns the first \<open>k\<close> rows. Selecting by partition gives the same kind of result as
  sorting everything: the rows come from the input, are in order, are as many as asked for and available, and no row that was left out comes
  before one that was returned.
\<close>

theorem top_n_correct:
  assumes "selector_ok select_nth" "order_keys columns order = Ok keys" "order \<noteq> []"
    and "\<forall>r \<in> set rows. length r = length columns"
  shows "\<exists>out rest. take_top_n select_nth rows columns order k = Ok out \<and>
    mset rows = mset out + mset rest \<and> length out = min k (length rows) \<and>
    sorted_wrt (row_le keys) out \<and> (\<forall>a \<in> set out. \<forall>b \<in> set rest. row_le keys a b)"
proof -
  let ?cm = "\<lambda>a b. cmp_by_keys a b keys"
  have wide: "set rows \<subseteq> {r. wide keys r}" using order_keys_wide [OF assms(2)] assms(4) by auto
  show ?thesis
  proof (cases "k \<ge> length rows")
    case True
    from row_order.sort_by_Ok [OF wide] obtain out where out: "sort_by ?cm rows = Ok out" "mset out = mset rows" "sorted_wrt (row_le keys) out"
      by blast
    then have "length out = length rows" by (metis size_mset)
    with out True assms(2,3) show ?thesis by (auto simp: take_top_n_def sort_rows_def intro!: exI [of _ "[]"])
  next
    case False
    define cm where "cm = (\<lambda>a b. ?cm (rows ! a) (rows ! b))"
    define sel where "sel = select_nth cm k [0..<length rows]"
    have "comparison cm (set [0..<length rows]) (\<lambda>a b. row_le keys (rows ! a) (rows ! b))"
    proof
      fix x y z assume x: "x \<in> set [0..<length rows]" and y: "y \<in> set [0..<length rows]"
      then have xy: "rows ! x \<in> {r. wide keys r}" "rows ! y \<in> {r. wide keys r}"
        using wide by (auto dest: nth_mem)
      from row_order.compares [OF xy]
      show "\<exists>c. cm x y = Ok c \<and> (c = Greater) = (\<not> row_le keys (rows ! x) (rows ! y))" by (simp add: cm_def)
      from row_order.total [OF xy] show "row_le keys (rows ! x) (rows ! y) \<or> row_le keys (rows ! y) (rows ! x)" .
      assume "z \<in> set [0..<length rows]"
      then have "rows ! z \<in> {r. wide keys r}" using wide by (auto dest: nth_mem)
      from row_order.trans [OF xy this] show "row_le keys (rows ! x) (rows ! y) \<Longrightarrow> row_le keys (rows ! y) (rows ! z) \<Longrightarrow>
        row_le keys (rows ! x) (rows ! z)" .
    qed
    moreover have "k < length [0..<length rows]" using False by simp
    ultimately have sel: "mset sel = mset [0..<length rows]" "\<forall>a \<in> set (take k sel). \<forall>b \<in> set (drop k sel). cm a b \<noteq> Ok Greater"
      using assms(1) unfolding selector_ok_def sel_def by metis+
    have set_sel: "set sel = {0..<length rows}" "length sel = length rows"
      using sel(1) mset_eq_setD mset_eq_length by fastforce+
    let ?top = "map (\<lambda>i. rows ! i) (take k sel)" and ?rest = "map (\<lambda>i. rows ! i) (drop k sel)"
    have "mset (map (\<lambda>i. rows ! i) sel) = mset (map (\<lambda>i. rows ! i) [0..<length rows])" using sel(1) by (simp add: mset_map)
    then have all: "mset rows = mset ?top + mset ?rest"
      by (metis append_take_drop_id map_append map_nth mset_append)
    have sub: "set ?top \<subseteq> set rows" "set ?rest \<subseteq> set rows" using all by (metis Un_iff set_mset_mset set_mset_union subsetI)+
    obtain out where out: "sort_by ?cm ?top = Ok out" "mset out = mset ?top" "sorted_wrt (row_le keys) out"
      using row_order.sort_by_Ok [of ?top keys] wide sub(1) by blast
    have run: "take_top_n select_nth rows columns order k = Ok out"
      using False assms(2,3) out(1) by (simp add: take_top_n_def sort_by_map cm_def [symmetric] sel_def [symmetric])
    have "row_le keys (rows ! a) (rows ! b)" if "a \<in> set (take k sel)" "b \<in> set (drop k sel)" for a b
    proof -
      have "rows ! a \<in> set rows" "rows ! b \<in> set rows" using that sub by auto
      with cmp_by_keys_row_le [of keys "rows ! a" "rows ! b"] wide sel(2) that show ?thesis by (auto simp: cm_def)
    qed
    moreover have "set out = set ?top" using out(2) by (metis set_mset_mset)
    ultimately have "\<forall>a \<in> set out. \<forall>b \<in> set ?rest. row_le keys a b" by auto
    moreover have "length out = k" using out(2) False set_sel(2) by (metis length_map length_take min.absorb2 not_le_imp_less less_imp_le size_mset)
    ultimately show ?thesis using run all out(2,3) False by (intro exI [of _ out] exI [of _ ?rest]) auto
  qed
qed

definition full_sort_selector :: nth_selector where
  "full_sort_selector cm k xs = (case sort_by cm xs of Ok ys \<Rightarrow> ys | _ \<Rightarrow> xs)"

lemma full_sort_selector_ok: "selector_ok full_sort_selector"
  unfolding selector_ok_def
proof (intro allI impI)
  fix cm :: "nat \<Rightarrow> nat \<Rightarrow> ordering result" and le :: "nat \<Rightarrow> nat \<Rightarrow> bool" and k :: nat and xs :: "nat list"
  assume c: "comparison cm (set xs) le"
  from comparison.sort_by_Ok [OF c subset_refl] obtain ys where
    ys: "sort_by cm xs = Ok ys" "mset ys = mset xs" "sorted_wrt le ys" by blast
  have "cm a b \<noteq> Ok Greater" if "a \<in> set (take k ys)" "b \<in> set (drop k ys)" for a b
  proof -
    have "le a b" using ys(3) that sorted_wrt_append [of le "take k ys" "drop k ys"] by auto
    moreover have "a \<in> set xs" "b \<in> set xs" using that ys(2) by (metis in_set_dropD in_set_takeD mset_eq_setD)+
    ultimately show ?thesis using comparison.compares [OF c, of a b] by auto
  qed
  with ys show "mset (full_sort_selector cm k xs) = mset xs \<and>
      (\<forall>a \<in> set (take k (full_sort_selector cm k xs)). \<forall>b \<in> set (drop k (full_sort_selector cm k xs)). cm a b \<noteq> Ok Greater)"
    by (simp add: full_sort_selector_def)
qed

theorem top_n_correct_witness:
  "\<exists>out rest. take_top_n full_sort_selector [[VInt 3], [VInt 1], [VInt 2]] [[97]] [\<lparr>ob_column = [97], ob_descending = True\<rparr>] 2 = Ok out \<and>
     mset [[VInt 3], [VInt 1], [VInt 2]] = mset out + mset rest \<and> length out = 2 \<and>
     (\<forall>a \<in> set out. \<forall>b \<in> set rest. row_le [(0, True)] a b)"
proof -
  have "order_keys [[97]] [\<lparr>ob_column = [97], ob_descending = True\<rparr>] = Ok [(0, True)]"
    by (simp add: order_keys_def projection_col_pos_def column_matches_def positions_def)
  moreover have "\<forall>r \<in> set [[VInt 3], [VInt 1], [VInt 2]]. length r = length [[97 :: u8]]" by simp
  moreover have "min 2 (length [[VInt 3], [VInt 1], [VInt 2]]) = 2" by simp
  ultimately show ?thesis
    using top_n_correct [OF full_sort_selector_ok, of "[[97]]" "[\<lparr>ob_column = [97], ob_descending = True\<rparr>]" "[(0, True)]"
        "[[VInt 3], [VInt 1], [VInt 2]]" 2] by (metis list.distinct(1))
qed

end
