(* ===== verification/Grouping.thy ===== *)
theory Grouping
  imports Projection
begin

text \<open>
  Grouped queries: \<^verbatim>\<open>project_grouped\<close> of \<^verbatim>\<open>src/db.rs\<close> partitions the matching rows and evaluates each select item
  per group; \<^verbatim>\<open>select_streaming_aggregate\<close> of \<^verbatim>\<open>src/db/aggregate.rs\<close> keeps one accumulator per group and item and never holds the
  rows. The streaming path is modelled over the sequence of visible rows of the scan, for a query without
  a resource budget.
\<close>

section \<open>General path\<close>

fun eval_having :: "having_pred \<Rightarrow> col_name list \<Rightarrow> row \<Rightarrow> col_name list \<Rightarrow> row list \<Rightarrow> bool result" where
  "eval_having (HavingAnd a b) out_columns out_row columns group_rows =
     and_then (eval_having a out_columns out_row columns group_rows) (\<lambda>x.
       if x then eval_having b out_columns out_row columns group_rows else Ok False)"
| "eval_having (HavingOr a b) out_columns out_row columns group_rows =
     and_then (eval_having a out_columns out_row columns group_rows) (\<lambda>x.
       if x then Ok True else eval_having b out_columns out_row columns group_rows)"
| "eval_having (HavingCompare t op v) out_columns out_row columns group_rows =
     and_then
       (case t of
          HavingColumn name \<Rightarrow> cell out_columns name out_row
        | HavingAggregate agg \<Rightarrow> compute_one_aggregate agg columns group_rows) (\<lambda>lhs.
       Ok (eval_compare lhs op v))"

definition check_item :: "col_name list \<Rightarrow> nat list \<Rightarrow> select_item \<Rightarrow> unit result" where
  "check_item columns gb_idx it =
     (case it_expr it of
        SelectColumn c \<Rightarrow>
          and_then (projection_col_pos columns c) (\<lambda>ix.
            if ix \<in> set gb_idx then Ok ()
            else Err (Schema ''column `{c}` must appear in GROUP BY or inside an aggregate''))
      | SelectScalar _ \<Rightarrow> Err (Query ''scalar expressions cannot yet be mixed with GROUP BY or aggregates'')
      | SelectAggregate _ \<Rightarrow> Ok ())"

definition group_key :: "nat list \<Rightarrow> row \<Rightarrow> val list result" where
  "group_key gb_idx row = collect_results (elem_at row) gb_idx"

definition add_to_group :: "val list \<Rightarrow> row \<Rightarrow> (val list \<times> row list) list \<Rightarrow> (val list \<times> row list) list" where
  "add_to_group key row groups = bt_insert key ((case bt_get groups key of Some rs \<Rightarrow> rs | None \<Rightarrow> []) @ [row]) groups"

fun partition_rows :: "nat list \<Rightarrow> row list \<Rightarrow> (val list \<times> row list) list \<Rightarrow> (val list \<times> row list) list result" where
  "partition_rows gb_idx [] groups = Ok groups"
| "partition_rows gb_idx (r # rows) groups =
     and_then (group_key gb_idx r) (\<lambda>key. partition_rows gb_idx rows (add_to_group key r groups))"

fun index_of :: "'a \<Rightarrow> 'a list \<Rightarrow> nat option" where
  "index_of x [] = None"
| "index_of x (y # ys) = (if y = x then Some 0 else map_option Suc (index_of x ys))"

definition group_item :: "col_name list \<Rightarrow> nat list \<Rightarrow> val list \<Rightarrow> row list \<Rightarrow> select_item \<Rightarrow> val result" where
  "group_item columns gb_idx key group_rows it =
     (case it_expr it of
        SelectColumn c \<Rightarrow>
          and_then (projection_col_pos columns c) (\<lambda>ix.
            case index_of ix gb_idx of Some gi \<Rightarrow> elem_at key gi | None \<Rightarrow> Panic)
      | SelectAggregate a \<Rightarrow> compute_one_aggregate a columns group_rows
      | SelectScalar _ \<Rightarrow> Panic)"

definition group_row ::
  "col_name list \<Rightarrow> nat list \<Rightarrow> select_item list \<Rightarrow> having_pred option \<Rightarrow> val list \<times> row list \<Rightarrow> (bool \<times> row) result" where
  "group_row columns gb_idx items having = (\<lambda>(key, group_rows).
     and_then (collect_results (group_item columns gb_idx key group_rows) items) (\<lambda>out.
     and_then (case having of None \<Rightarrow> Ok True | Some h \<Rightarrow> eval_having h (map item_label items) out columns group_rows) (\<lambda>keep.
       Ok (keep, out))))"

definition finish_grouped ::
  "select_item list \<Rightarrow> order_by list \<Rightarrow> bool \<Rightarrow> nat option \<Rightarrow> nat \<Rightarrow> row list \<Rightarrow> query_rows result" where
  "finish_grouped items order dist limit offset out_rows =
     and_then (sort_rows out_rows (map item_label items) order) (\<lambda>sorted_rows.
       Ok \<lparr>qr_columns = map item_label items, qr_rows = finish_rows dist limit offset sorted_rows\<rparr>)"

definition project_grouped ::
  "col_name list \<Rightarrow> row list \<Rightarrow> select_item list \<Rightarrow> col_name list \<Rightarrow> having_pred option \<Rightarrow> order_by list \<Rightarrow> bool \<Rightarrow> nat option \<Rightarrow> nat \<Rightarrow> query_rows result"
where
  "project_grouped columns rows items group_by having order dist limit offset =
     and_then (collect_results (projection_col_pos columns) group_by) (\<lambda>gb_idx.
     and_then (collect_results (check_item columns gb_idx) items) (\<lambda>_.
     and_then (if group_by = [] then Ok [([], rows)] else partition_rows gb_idx rows []) (\<lambda>groups.
     and_then (collect_results (group_row columns gb_idx items having) groups) (\<lambda>outs.
       finish_grouped items order dist limit offset (map snd (filter fst outs))))))"

section \<open>Streaming path\<close>

definition item_index :: "col_name list \<Rightarrow> select_item \<Rightarrow> nat option result" where
  "item_index columns it =
     (case it_expr it of
        SelectColumn c \<Rightarrow> and_then (projection_col_pos columns c) (\<lambda>ix. Ok (Some ix))
      | SelectAggregate a \<Rightarrow>
          (case ag_column a of None \<Rightarrow> Ok None | Some c \<Rightarrow> and_then (projection_col_pos columns c) (\<lambda>ix. Ok (Some ix)))
      | SelectScalar _ \<Rightarrow> Panic)"

definition item_add :: "row \<Rightarrow> select_item \<times> nat option \<Rightarrow> accumulator \<Rightarrow> accumulator result" where
  "item_add row = (\<lambda>(it, ix) a.
     case it_expr it of
       SelectAggregate agg \<Rightarrow>
         and_then (case ix of None \<Rightarrow> Ok None | Some i \<Rightarrow> and_then (elem_at row i) (\<lambda>v. Ok (Some v))) (\<lambda>v.
           acc_add (ag_func agg) v a)
     | _ \<Rightarrow> Ok a)"

fun add_row :: "row \<Rightarrow> (select_item \<times> nat option) list \<Rightarrow> accumulator list \<Rightarrow> accumulator list result" where
  "add_row row [] states = Ok []"
| "add_row row (it # its) [] = Panic"
| "add_row row (it # its) (a # states) =
     and_then (item_add row it a) (\<lambda>a'. and_then (add_row row its states) (\<lambda>states'. Ok (a' # states')))"

fun stream_rows ::
  "nat list \<Rightarrow> (select_item \<times> nat option) list \<Rightarrow> row list \<Rightarrow> (val list \<times> accumulator list) list \<Rightarrow> (val list \<times> accumulator list) list result"
where
  "stream_rows gb_idx its [] groups = Ok groups"
| "stream_rows gb_idx its (r # rows) groups =
     and_then (group_key gb_idx r) (\<lambda>key.
     and_then (add_row r its (case bt_get groups key of Some st \<Rightarrow> st | None \<Rightarrow> replicate (length its) acc_default)) (\<lambda>st'.
       stream_rows gb_idx its rows (bt_insert key st' groups)))"

definition stream_item :: "nat list \<Rightarrow> val list \<Rightarrow> (select_item \<times> nat option) \<times> accumulator \<Rightarrow> val result" where
  "stream_item gb_idx key = (\<lambda>((it, ix), a).
     case it_expr it of
       SelectColumn _ \<Rightarrow> (case Option.bind ix (\<lambda>i. index_of i gb_idx) of Some gi \<Rightarrow> elem_at key gi | None \<Rightarrow> Panic)
     | SelectAggregate agg \<Rightarrow> acc_finish (ag_func agg) a
     | SelectScalar _ \<Rightarrow> Panic)"

definition select_streaming_aggregate ::
  "col_name list \<Rightarrow> row list \<Rightarrow> select_item list \<Rightarrow> col_name list \<Rightarrow> order_by list \<Rightarrow> bool \<Rightarrow> nat option \<Rightarrow> nat \<Rightarrow> query_rows result"
where
  "select_streaming_aggregate columns rows items group_by order dist limit offset =
     and_then (project_grouped columns [] items group_by None order dist limit offset) (\<lambda>_.
     and_then (collect_results (projection_col_pos columns) group_by) (\<lambda>gb_idx.
     and_then (collect_results (item_index columns) items) (\<lambda>indexes.
     and_then (stream_rows gb_idx (zip items indexes) rows
                 (if group_by = [] then [([], replicate (length items) acc_default)] else [])) (\<lambda>groups.
     and_then (collect_results (\<lambda>(key, st). collect_results (stream_item gb_idx key) (zip (zip items indexes) st)) groups)
       (finish_grouped items order dist limit offset)))))"

section \<open>The two paths agree\<close>

lemma collect_results_mem: "collect_results f xs = Ok ys \<Longrightarrow> x \<in> set xs \<Longrightarrow> \<exists>y. f x = Ok y"
  by (induction xs arbitrary: ys) (auto simp: and_then_eq_Ok)

text \<open>Updating two maps alike keeps their entries related.\<close>

lemma bt_get_related:
  "list_all2 (rel_prod (=) R) G S \<Longrightarrow> rel_option R (bt_get G k) (bt_get S k)"
  by (induction rule: list_all2_induct) (auto split: prod.splits)

lemma bt_insert_related:
  "list_all2 (rel_prod (=) R) G S \<Longrightarrow> R v w \<Longrightarrow> list_all2 (rel_prod (=) R) (bt_insert k v G) (bt_insert k w S)"
  by (induction rule: list_all2_induct) (auto split: prod.splits)

lemma bt_get_in_set: "bt_get m k = Some v \<Longrightarrow> (k, v) \<in> set m"
  by (induction m) (auto split: if_splits)

lemma bt_get_bt_insert: "bt_get (bt_insert k v m) k = Some v"
  by (induction m) auto

lemma bt_get_bt_insert_other: "k' \<noteq> k \<Longrightarrow> bt_get m k' = Some w \<Longrightarrow> bt_get (bt_insert k v m) k' = Some w"
  by (induction m) (auto split: if_splits)

text \<open>Feeding all rows of a group to the accumulator of one item.\<close>

fun item_run :: "select_item \<times> nat option \<Rightarrow> row list \<Rightarrow> accumulator \<Rightarrow> accumulator result" where
  "item_run it [] a = Ok a"
| "item_run it (r # rows) a = and_then (item_add r it a) (item_run it rows)"

lemma item_run_append: "item_run it (xs @ ys) a = and_then (item_run it xs a) (item_run it ys)"
  by (induction xs arbitrary: a) (auto simp: and_then_assoc intro!: and_then_cong)

lemma item_run_aggregate:
  "it_expr it = SelectAggregate agg \<Longrightarrow> item_run (it, ix) rows a = acc_run (ag_func agg) ix rows a"
  by (induction rows arbitrary: a) (auto simp: item_add_def and_then_assoc intro!: and_then_cong split: option.split)

lemma item_run_column: "it_expr it = SelectColumn c \<Longrightarrow> item_run (it, ix) rows a = Ok a"
  by (induction rows) (auto simp: item_add_def)

text \<open>The accumulators of a group are those of its rows, fed in order.\<close>

definition group_states :: "(select_item \<times> nat option) list \<Rightarrow> row list \<Rightarrow> accumulator list \<Rightarrow> bool" where
  "group_states its rows st \<longleftrightarrow> list_all2 (\<lambda>it a. item_run it rows acc_default = Ok a) its st"

abbreviation group_rel ::
  "(select_item \<times> nat option) list \<Rightarrow> (val list \<times> row list) list \<Rightarrow> (val list \<times> accumulator list) list \<Rightarrow> bool" where
  "group_rel its \<equiv> list_all2 (rel_prod (=) (group_states its))"

lemma group_states_default: "group_states its [] (replicate (length its) acc_default)"
  by (simp add: group_states_def list_all2_conv_all_nth)

lemma add_row_states:
  assumes "group_states its rows st"
  shows "add_row r its st = Ok st' \<longleftrightarrow> group_states its (rows @ [r]) st'"
  using assms unfolding group_states_def
proof (induction arbitrary: st' rule: list_all2_induct)
  case (Cons it its a st)
  have "item_run it (rows @ [r]) acc_default = item_add r it a"
    using Cons.hyps(1) by (cases "item_add r it a") (simp_all add: item_run_append)
  with Cons.IH show ?case by (auto simp: and_then_eq_Ok list_all2_Cons1)
qed auto

lemma states_of_group:
  assumes "group_rel its G S"
  shows "group_states its (case bt_get G k of Some rs \<Rightarrow> rs | None \<Rightarrow> [])
    (case bt_get S k of Some st \<Rightarrow> st | None \<Rightarrow> replicate (length its) acc_default)"
  using bt_get_related [OF assms, of k] by (auto simp: option_rel_Some1 option_rel_Some2 group_states_default split: option.split)

text \<open>A group only grows.\<close>

lemma partition_rows_prefix:
  "partition_rows gb rows G = Ok G' \<Longrightarrow> bt_get G k = Some rs \<Longrightarrow> \<exists>ys. bt_get G' k = Some (rs @ ys)"
proof (induction rows arbitrary: G rs)
  case (Cons r rows)
  then obtain key where key: "group_key gb r = Ok key" "partition_rows gb rows (add_to_group key r G) = Ok G'"
    by (auto simp: and_then_eq_Ok)
  have "\<exists>zs. bt_get (add_to_group key r G) k = Some (rs @ zs)"
    using Cons.prems(2) by (cases "k = key") (auto simp: add_to_group_def bt_get_bt_insert bt_get_bt_insert_other)
  with Cons.IH [OF key(2)] show ?case by force
qed simp

lemma stream_rows_sound:
  "group_rel its G S \<Longrightarrow> stream_rows gb its rows S = Ok S' \<Longrightarrow>
   \<exists>G'. partition_rows gb rows G = Ok G' \<and> group_rel its G' S'"
proof (induction rows arbitrary: G S)
  case (Cons r rows)
  then obtain key st where key: "group_key gb r = Ok key"
    and st: "add_row r its (case bt_get S key of Some st \<Rightarrow> st | None \<Rightarrow> replicate (length its) acc_default) = Ok st"
    and rest: "stream_rows gb its rows (bt_insert key st S) = Ok S'"
    by (auto simp: and_then_eq_Ok)
  from st have "group_states its ((case bt_get G key of Some rs \<Rightarrow> rs | None \<Rightarrow> []) @ [r]) st"
    using add_row_states [OF states_of_group [OF Cons.prems(1)]] by blast
  from Cons.IH [OF bt_insert_related [OF Cons.prems(1) this] rest] key show ?case
    by (auto simp: add_to_group_def)
qed simp

lemma stream_rows_complete:
  assumes "group_rel its G S" "partition_rows gb rows G = Ok G'"
    and "\<forall>(k, rs) \<in> set G'. \<forall>it \<in> set its. \<exists>a. item_run it rs acc_default = Ok a"
  shows "\<exists>S'. stream_rows gb its rows S = Ok S'"
  using assms(1,2)
proof (induction rows arbitrary: G S)
  case (Cons r rows)
  then obtain key where key: "group_key gb r = Ok key" "partition_rows gb rows (add_to_group key r G) = Ok G'"
    by (auto simp: and_then_eq_Ok)
  define rs where "rs = (case bt_get G key of Some rs \<Rightarrow> rs | None \<Rightarrow> []) @ [r]"
  obtain ys where "bt_get G' key = Some (rs @ ys)"
    using partition_rows_prefix [OF key(2), of key rs] by (auto simp: add_to_group_def rs_def bt_get_bt_insert)
  then have "\<exists>a. item_run it rs acc_default = Ok a" if "it \<in> set its" for it
    using assms(3) that by (fastforce simp: item_run_append and_then_eq_Ok dest: bt_get_in_set)
  then obtain f where f: "\<And>it. it \<in> set its \<Longrightarrow> item_run it rs acc_default = Ok (f it)" by metis
  then have st: "group_states its rs (map f its)" by (simp add: group_states_def list_all2_conv_all_nth)
  then have "add_row r its (case bt_get S key of Some st \<Rightarrow> st | None \<Rightarrow> replicate (length its) acc_default) = Ok (map f its)"
    using add_row_states [OF states_of_group [OF Cons.prems(1)]] by (simp add: rs_def)
  moreover have "group_rel its (add_to_group key r G) (bt_insert key (map f its) S)"
    using bt_insert_related [OF Cons.prems(1) st, of key] by (simp add: add_to_group_def rs_def)
  ultimately show ?case using Cons.IH [OF _ key(2)] key(1) by simp
qed simp

text \<open>What the parser guarantees of a select list: every aggregate but \<^verbatim>\<open>COUNT(*)\<close> names a column.\<close>

definition parsed_item :: "select_item \<Rightarrow> bool" where
  "parsed_item it \<longleftrightarrow> (\<forall>agg. it_expr it = SelectAggregate agg \<and> ag_column agg = None \<longrightarrow> ag_func agg = Count)"

text \<open>What it does not check: that the column of an aggregate exists.\<close>

definition resolved_item :: "col_name list \<Rightarrow> select_item \<Rightarrow> bool" where
  "resolved_item columns it \<longleftrightarrow>
     (\<forall>agg. it_expr it = SelectAggregate agg \<longrightarrow>
        (case ag_column agg of None \<Rightarrow> ag_func agg = Count | Some c \<Rightarrow> \<exists>ix. projection_col_pos columns c = Ok ix))"

lemma resolved_aggregate:
  assumes "resolved_item columns it" "it_expr it = SelectAggregate agg" "item_index columns it = Ok ix"
  shows "compute_one_aggregate agg columns rs = and_then (item_run (it, ix) rs acc_default) (acc_finish (ag_func agg))"
proof -
  have "compute_one_aggregate agg columns rs = aggregate_rows (ag_func agg) ix rs \<and> (ag_func agg = Count \<or> (\<exists>i. ix = Some i))"
    using assms by (cases "ag_column agg") (auto simp: resolved_item_def item_index_def compute_one_aggregate_def)
  then show ?thesis using acc_run_finish [of "ag_func agg" ix "the ix" rs] assms(2) by (auto simp: item_run_aggregate)
qed

lemma group_item_stream:
  assumes "resolved_item columns it" "item_index columns it = Ok ix" "item_run (it, ix) rs acc_default = Ok a"
  shows "group_item columns gb key rs it = stream_item gb key ((it, ix), a)"
proof (cases "it_expr it")
  case (SelectColumn c)
  with assms(2) show ?thesis by (auto simp: group_item_def stream_item_def item_index_def and_then_eq_Ok)
next
  case (SelectAggregate agg)
  with resolved_aggregate [OF assms(1) SelectAggregate assms(2), of rs] assms(3) show ?thesis
    by (simp add: group_item_def stream_item_def)
qed (simp add: group_item_def stream_item_def)

lemma group_item_runs:
  assumes "resolved_item columns it" "item_index columns it = Ok ix" "group_item columns gb key rs it = Ok v"
  shows "\<exists>a. item_run (it, ix) rs acc_default = Ok a"
proof (cases "it_expr it")
  case (SelectAggregate agg)
  with resolved_aggregate [OF assms(1) SelectAggregate assms(2), of rs] assms(3) show ?thesis
    by (auto simp: group_item_def and_then_eq_Ok)
qed (use assms in \<open>simp_all add: item_run_column group_item_def\<close>)

lemma group_cells_stream:
  assumes "\<forall>it \<in> set items. resolved_item columns it" "collect_results (item_index columns) items = Ok indexes"
    and "group_states (zip items indexes) rs st"
  shows "collect_results (group_item columns gb key rs) items = collect_results (stream_item gb key) (zip (zip items indexes) st)"
  using assms
proof (induction items arbitrary: indexes st)
  case (Cons it items)
  then obtain ix ixs where ix: "item_index columns it = Ok ix" "collect_results (item_index columns) items = Ok ixs" "indexes = ix # ixs"
    by (auto simp: and_then_eq_Ok)
  with Cons.prems(3) obtain a as where a: "item_run (it, ix) rs acc_default = Ok a" "group_states (zip items ixs) rs as" "st = a # as"
    by (auto simp: group_states_def list_all2_Cons1)
  from group_item_stream [of columns it ix rs a gb key] Cons.IH [OF _ ix(2) a(2)] Cons.prems(1) ix a show ?case by simp
qed simp

lemma group_rows_stream:
  assumes "\<forall>it \<in> set items. resolved_item columns it" "collect_results (item_index columns) items = Ok indexes"
    and "group_rel (zip items indexes) G S"
  shows "collect_results (group_row columns gb items None) G =
    and_then (collect_results (\<lambda>(key, st). collect_results (stream_item gb key) (zip (zip items indexes) st)) S)
      (\<lambda>outs. Ok (map (Pair True) outs))"
  using assms(3)
proof (induction rule: list_all2_induct)
  case (Cons g G s S)
  then obtain key rs st where g: "g = (key, rs)" "s = (key, st)" "group_states (zip items indexes) rs st" by (cases g; cases s) auto
  then show ?case
    using Cons.IH group_cells_stream [OF assms(1,2) g(3), of gb key]
    by (simp add: group_row_def and_then_assoc)
qed simp

text \<open>Without grouping columns there is one group, also for no rows.\<close>

definition start_groups :: "col_name list \<Rightarrow> 'a \<Rightarrow> (val list \<times> 'a) list" where
  "start_groups group_by x = (if group_by = [] then [([], x)] else [])"

lemma partition_no_keys: "partition_rows [] rows [([], xs)] = Ok [([], xs @ rows)]"
  by (induction rows arbitrary: xs) (simp_all add: group_key_def add_to_group_def)

lemma groups_partition:
  assumes "collect_results (projection_col_pos columns) group_by = Ok gb"
  shows "(if group_by = [] then Ok [([], rows)] else partition_rows gb rows []) = partition_rows gb rows (start_groups group_by [])"
  using assms partition_no_keys [of rows "[]"] by (auto simp: start_groups_def)

text \<open>Neither path panics on rows of the table's width.\<close>

lemma group_key_calm:
  assumes "collect_results (projection_col_pos columns) group_by = Ok gb" "length r = length columns"
  shows "\<exists>key. group_key gb r = Ok key \<and> length key = length gb"
proof -
  have "i < length r" if "i \<in> set gb" for i
    using that assms projection_col_pos_bound [of columns] by (fastforce simp: collect_results_Ok list_all2_conv_all_nth in_set_conv_nth)
  then have "group_key gb r = Ok (map (\<lambda>i. r ! i) gb)" unfolding group_key_def by (intro collect_results_map) simp
  then show ?thesis by simp
qed

lemma acc_add_calm: "f = Count \<or> v \<noteq> None \<Longrightarrow> acc_add f v a \<noteq> Panic"
  by (auto simp: acc_add_def acc_add_number_def and_then_eq_Panic split: option.splits val.splits if_splits)

lemma item_add_calm:
  assumes "resolved_item columns it" "item_index columns it = Ok ix" "length r = length columns"
  shows "item_add r (it, ix) a \<noteq> Panic"
proof (cases "it_expr it")
  case (SelectAggregate agg)
  with assms have "ix = None \<and> ag_func agg = Count \<or> (\<exists>i. ix = Some i \<and> i < length r)"
    by (cases "ag_column agg") (auto simp: resolved_item_def item_index_def dest: projection_col_pos_bound)
  with SelectAggregate acc_add_calm [of "ag_func agg"] show ?thesis by (auto simp: item_add_def)
qed (simp_all add: item_add_def)

lemma item_run_calm:
  assumes "resolved_item columns it" "item_index columns it = Ok ix" "\<forall>r \<in> set rows. length r = length columns"
  shows "item_run (it, ix) rows a \<noteq> Panic"
  using assms(3) item_add_calm [OF assms(1,2)] by (induction rows arbitrary: a) (auto simp: and_then_eq_Panic)

lemma acc_finish_calm: "acc_finish f a \<noteq> Panic"
  by (auto simp: acc_finish_def and_then_eq_Panic combine_mantissa_def round_div_half_away_def i64_result_def Let_def split: agg_func.splits)

lemma index_of_Some: "x \<in> set xs \<Longrightarrow> \<exists>i. index_of x xs = Some i \<and> i < length xs"
  by (induction xs) auto

lemma resolved_parsed: "resolved_item columns it \<Longrightarrow> parsed_item it"
  by (auto simp: resolved_item_def parsed_item_def)

lemma projection_col_pos_calm: "projection_col_pos columns c \<noteq> Panic"
  by (auto simp: projection_col_pos_def split: list.splits)

text \<open>An aggregate over a column the table does not have is an error on both paths.\<close>

lemma unresolved_item:
  assumes "parsed_item it" "\<not> resolved_item columns it"
  shows "\<exists>e. item_index columns it = Err e" "\<exists>e. group_item columns gb key rs it = Err e"
proof -
  from assms(2) obtain agg where agg: "it_expr it = SelectAggregate agg"
    "\<not> (case ag_column agg of None \<Rightarrow> ag_func agg = Count | Some c \<Rightarrow> \<exists>ix. projection_col_pos columns c = Ok ix)"
    unfolding resolved_item_def by blast
  then obtain c where c: "ag_column agg = Some c" "\<And>ix. projection_col_pos columns c \<noteq> Ok ix"
    using assms(1) by (cases "ag_column agg") (auto simp: parsed_item_def)
  then obtain e where "projection_col_pos columns c = Err e" using projection_col_pos_calm [of columns c] by (cases "projection_col_pos columns c") auto
  with agg(1) c(1) show "\<exists>e. item_index columns it = Err e" "\<exists>e. group_item columns gb key rs it = Err e"
    by (simp_all add: item_index_def group_item_def compute_one_aggregate_def)
qed

lemma group_item_calm:
  assumes "parsed_item it" "check_item columns gb it = Ok ()" "length key = length gb"
    and "\<forall>r \<in> set rs. length r = length columns"
  shows "group_item columns gb key rs it \<noteq> Panic"
proof (cases "resolved_item columns it")
  case True
  show ?thesis
  proof (cases "it_expr it")
    case (SelectColumn c)
    with assms(2,3) show ?thesis
      by (auto simp: check_item_def group_item_def and_then_eq_Ok split: if_splits dest: index_of_Some)
  next
    case (SelectAggregate agg)
    with True obtain ix where ix: "item_index columns it = Ok ix"
      by (cases "ag_column agg") (auto simp: resolved_item_def item_index_def)
    from item_run_calm [OF True ix assms(4)] acc_finish_calm resolved_aggregate [OF True SelectAggregate ix, of rs] SelectAggregate
    show ?thesis by (auto simp: group_item_def and_then_eq_Panic)
  qed (use assms(2) in \<open>simp add: check_item_def\<close>)
next
  case False
  then show ?thesis using unresolved_item(2) [OF assms(1), of columns gb key rs] by auto
qed

definition wide_groups :: "nat \<Rightarrow> nat list \<Rightarrow> (val list \<times> row list) list \<Rightarrow> bool" where
  "wide_groups w gb G \<longleftrightarrow> (\<forall>(key, rs) \<in> set G. length key = length gb \<and> (\<forall>r \<in> set rs. length r = w))"

lemma set_bt_insert: "set (bt_insert k v m) \<subseteq> insert (k, v) (set m)"
  by (induction m) (auto split: if_splits)

lemma wide_add_to_group:
  assumes "wide_groups w gb G" "length key = length gb" "length r = w"
  shows "wide_groups w gb (add_to_group key r G)"
proof -
  have "\<forall>r' \<in> set (case bt_get G key of Some rs \<Rightarrow> rs | None \<Rightarrow> []). length r' = w"
    using assms(1) bt_get_in_set [of G key] by (cases "bt_get G key") (auto simp: wide_groups_def)
  then have new: "case (key, (case bt_get G key of Some rs \<Rightarrow> rs | None \<Rightarrow> []) @ [r]) of (k, rs) \<Rightarrow>
      length k = length gb \<and> (\<forall>r' \<in> set rs. length r' = w)" using assms(2,3) by auto
  show ?thesis unfolding add_to_group_def wide_groups_def
  proof
    fix p
    assume "p \<in> set (bt_insert key ((case bt_get G key of Some rs \<Rightarrow> rs | None \<Rightarrow> []) @ [r]) G)"
    then have "p = (key, (case bt_get G key of Some rs \<Rightarrow> rs | None \<Rightarrow> []) @ [r]) \<or> p \<in> set G"
      by (metis insert_iff set_bt_insert subsetD)
    with new assms(1) show "case p of (k, rs) \<Rightarrow> length k = length gb \<and> (\<forall>r' \<in> set rs. length r' = w)"
      unfolding wide_groups_def by blast
  qed
qed

lemma partition_rows_wide:
  assumes "collect_results (projection_col_pos columns) group_by = Ok gb" "\<forall>r \<in> set rows. length r = length columns"
    and "wide_groups (length columns) gb G"
  shows "\<exists>G'. partition_rows gb rows G = Ok G' \<and> wide_groups (length columns) gb G'"
  using assms(2,3)
proof (induction rows arbitrary: G)
  case (Cons r rows)
  from group_key_calm [OF assms(1)] Cons.prems(1) obtain key where key: "group_key gb r = Ok key" "length key = length gb" by auto
  have "wide_groups (length columns) gb (add_to_group key r G)"
    using Cons.prems key(2) by (intro wide_add_to_group) auto
  with Cons.IH Cons.prems(1) key(1) show ?case by simp
qed simp

lemma wide_start: "collect_results (projection_col_pos columns) group_by = Ok gb \<Longrightarrow> wide_groups w gb (start_groups group_by [])"
  by (auto simp: wide_groups_def start_groups_def)

lemma sort_rows_calm:
  assumes "\<forall>r \<in> set rows. length r = length columns"
  shows "sort_rows rows columns order \<noteq> Panic \<and> ((order = [] \<or> (\<exists>keys. order_keys columns order = Ok keys)) \<longleftrightarrow> is_ok (sort_rows rows columns order))"
proof (cases "order = []")
  case False
  have keys: "order_keys columns order \<noteq> Panic" unfolding order_keys_def
    by (intro collect_results_not_Panic) (auto simp: and_then_eq_Panic projection_col_pos_def split: list.splits)
  show ?thesis
  proof (cases "order_keys columns order")
    case (Ok keys)
    have "set rows \<subseteq> {r. wide keys r}" using order_keys_wide [OF Ok] assms by auto
    from row_order.sort_by_Ok [OF this] False Ok show ?thesis by (auto simp: sort_rows_def)
  qed (use False keys in \<open>simp_all add: sort_rows_def\<close>)
qed (simp add: sort_rows_def)

lemma finish_grouped_calm:
  assumes "\<forall>r \<in> set rows. length r = length items"
  shows "finish_grouped items order dist limit offset rows \<noteq> Panic \<and>
    (is_ok (finish_grouped items order dist limit offset rows) \<longleftrightarrow>
     order = [] \<or> (\<exists>keys. order_keys (map item_label items) order = Ok keys))"
proof -
  have "sort_rows rows (map item_label items) order \<noteq> Panic \<and>
      ((order = [] \<or> (\<exists>keys. order_keys (map item_label items) order = Ok keys)) \<longleftrightarrow> is_ok (sort_rows rows (map item_label items) order))"
    using assms by (intro sort_rows_calm) simp
  then show ?thesis by (cases "sort_rows rows (map item_label items) order") (auto simp: finish_grouped_def)
qed

lemma group_rows_calm:
  assumes "\<forall>it \<in> set items. parsed_item it" "collect_results (check_item columns gb) items = Ok us"
    and "wide_groups (length columns) gb G"
  shows "collect_results (group_row columns gb items None) G \<noteq> Panic"
proof (rule collect_results_not_Panic)
  fix g
  assume "g \<in> set G"
  then obtain key rs where g: "g = (key, rs)" "length key = length gb" "\<forall>r \<in> set rs. length r = length columns"
    using assms(3) by (cases g) (auto simp: wide_groups_def)
  have "check_item columns gb it = Ok ()" if "it \<in> set items" for it
    using collect_results_mem [OF assms(2) that] by auto
  then have "collect_results (group_item columns gb key rs) items \<noteq> Panic"
    using assms(1) g by (intro collect_results_not_Panic group_item_calm) auto
  then show "group_row columns gb items None g \<noteq> Panic" using g by (auto simp: group_row_def and_then_eq_Panic)
qed

lemma group_rows_length:
  assumes "collect_results (group_row columns gb items having) G = Ok outs"
  shows "\<forall>r \<in> set (map snd (filter fst outs)). length r = length items"
proof -
  have "length (snd p) = length items" if p: "p \<in> set outs" for p
  proof -
    from p obtain i where i: "i < length outs" "outs ! i = p" by (auto simp: in_set_conv_nth)
    with assms have "group_row columns gb items having (G ! i) = Ok p" by (simp add: collect_results_Ok list_all2_conv_all_nth)
    then show ?thesis by (cases "G ! i") (auto simp: group_row_def and_then_eq_Ok collect_results_Ok dest: list_all2_lengthD)
  qed
  then show ?thesis by auto
qed

text \<open>The general path, once the names in the query resolve.\<close>

lemma project_grouped_resolved:
  assumes "\<forall>r \<in> set rows. length r = length columns" "collect_results (projection_col_pos columns) group_by = Ok gb"
    and "collect_results (check_item columns gb) items = Ok us"
  obtains G where "partition_rows gb rows (start_groups group_by []) = Ok G" "wide_groups (length columns) gb G"
    "project_grouped columns rows items group_by None order dist limit offset =
      and_then (collect_results (group_row columns gb items None) G) (\<lambda>outs.
        finish_grouped items order dist limit offset (map snd (filter fst outs)))"
  using partition_rows_wide [OF assms(2,1) wide_start [OF assms(2)]] groups_partition [OF assms(2), of rows] assms(2,3)
  by (auto simp: project_grouped_def)

lemma project_grouped_names:
  assumes "is_ok (project_grouped columns rows items group_by None order dist limit offset) \<or>
      project_grouped columns rows items group_by None order dist limit offset = Panic"
  obtains gb us where "collect_results (projection_col_pos columns) group_by = Ok gb"
    "collect_results (check_item columns gb) items = Ok us"
proof -
  have "check_item columns gb it \<noteq> Panic" for gb it
    using projection_col_pos_calm by (auto simp: check_item_def and_then_eq_Panic split: select_expr.splits)
  then have "collect_results (check_item columns gb) items \<noteq> Panic" for gb by (intro collect_results_not_Panic)
  moreover have "collect_results (projection_col_pos columns) group_by \<noteq> Panic"
    by (intro collect_results_not_Panic projection_col_pos_calm)
  ultimately show ?thesis
    using assms that by (cases "project_grouped columns rows items group_by None order dist limit offset")
      (auto simp: project_grouped_def and_then_eq_Panic and_then_eq_Ok)
qed

lemma project_grouped_calm:
  assumes "\<forall>r \<in> set rows. length r = length columns" "\<forall>it \<in> set items. parsed_item it"
  shows "project_grouped columns rows items group_by None order dist limit offset \<noteq> Panic"
proof
  assume panic: "project_grouped columns rows items group_by None order dist limit offset = Panic"
  then obtain gb us where names: "collect_results (projection_col_pos columns) group_by = Ok gb"
    "collect_results (check_item columns gb) items = Ok us" by (rule project_grouped_names [OF disjI2])
  from project_grouped_resolved [OF assms(1) names] obtain G where G: "wide_groups (length columns) gb G"
    "project_grouped columns rows items group_by None order dist limit offset =
      and_then (collect_results (group_row columns gb items None) G) (\<lambda>outs.
        finish_grouped items order dist limit offset (map snd (filter fst outs)))" .
  with panic group_rows_calm [OF assms(2) names(2) G(1)] finish_grouped_calm [OF group_rows_length]
  show False by (auto simp: and_then_eq_Panic)
qed

text \<open>The dry run on no rows succeeds whenever the query does on the real rows.\<close>

lemma dry_run_ok:
  assumes "collect_results (projection_col_pos columns) group_by = Ok gb" "collect_results (check_item columns gb) items = Ok us"
    and "\<forall>it \<in> set items. resolved_item columns it"
    and "order = [] \<or> (\<exists>keys. order_keys (map item_label items) order = Ok keys)"
  shows "is_ok (project_grouped columns [] items group_by None order dist limit offset)"
proof -
  from project_grouped_resolved [of "[]", OF _ assms(1,2)] obtain G where G: "partition_rows gb [] (start_groups group_by []) = Ok G"
    "wide_groups (length columns) gb G"
    "project_grouped columns [] items group_by None order dist limit offset =
      and_then (collect_results (group_row columns gb items None) G) (\<lambda>outs.
        finish_grouped items order dist limit offset (map snd (filter fst outs)))"
    by (metis empty_iff list.set(1))
  have "is_ok (collect_results (group_row columns gb items None) G)"
  proof (cases "group_by = []")
    case True
    then have gb: "gb = []" using assms(1) by simp
    have cell: "\<exists>v. group_item columns gb [] [] it = Ok v" if it: "it \<in> set items" for it
    proof -
      have ck: "check_item columns gb it = Ok ()"
        using collect_results_mem [OF assms(2) it] by auto
      then obtain agg where agg: "it_expr it = SelectAggregate agg"
        using gb by (cases "it_expr it") (auto simp: check_item_def and_then_eq_Ok)
      have "resolved_item columns it" using assms(3) it by blast
      with agg obtain ix where ix: "item_index columns it = Ok ix"
        by (cases "ag_column agg") (auto simp: resolved_item_def item_index_def)
      have "acc_finish f acc_default \<noteq> Err e" for f e
        by (auto simp: acc_finish_def acc_default_def split: agg_func.splits)
      then show ?thesis
        using resolved_aggregate [OF _ agg ix, of "[]"] assms(3) it agg acc_finish_calm [of "ag_func agg" acc_default]
        by (cases "acc_finish (ag_func agg) acc_default") (auto simp: group_item_def)
    qed
    then obtain f where "\<And>it. it \<in> set items \<Longrightarrow> group_item columns gb [] [] it = Ok (f it)" by metis
    then have "collect_results (group_item columns gb [] []) items = Ok (map f items)" by (rule collect_results_map)
    moreover have "G = [([], [])]" using G(1) True by (simp add: start_groups_def)
    ultimately show ?thesis by (simp add: group_row_def)
  qed (use G(1) in \<open>simp add: start_groups_def\<close>)
  then obtain outs where outs: "collect_results (group_row columns gb items None) G = Ok outs"
    by (cases "collect_results (group_row columns gb items None) G") auto
  with G(3) finish_grouped_calm [OF group_rows_length [OF outs]] assms(4) show ?thesis by simp
qed

lemma indexes_resolve:
  assumes "collect_results (check_item columns gb) items = Ok us" "\<forall>it \<in> set items. resolved_item columns it"
  obtains indexes where "collect_results (item_index columns) items = Ok indexes"
proof -
  have "\<exists>ix. item_index columns it = Ok ix" if it: "it \<in> set items" for it
  proof -
    have "check_item columns gb it = Ok ()"
      using collect_results_mem [OF assms(1) it] by auto
    with assms(2) it show ?thesis
      by (auto simp: check_item_def item_index_def resolved_item_def and_then_eq_Ok split: select_expr.splits option.splits)
  qed
  then obtain f where "\<And>it. it \<in> set items \<Longrightarrow> item_index columns it = Ok (f it)" by metis
  from collect_results_map [of items "item_index columns" f, OF this] that show ?thesis by blast
qed

lemma stream_rows_calm:
  assumes "collect_results (projection_col_pos columns) group_by = Ok gb" "\<forall>r \<in> set rows. length r = length columns"
    and "\<forall>it \<in> set items. resolved_item columns it" "collect_results (item_index columns) items = Ok indexes"
    and "group_rel (zip items indexes) G S"
  shows "stream_rows gb (zip items indexes) rows S \<noteq> Panic"
  using assms(2,5)
proof (induction rows arbitrary: G S)
  case (Cons r rows)
  have width: "length r = length columns" using Cons.prems(1) by simp
  from group_key_calm [OF assms(1) width] obtain key where key: "group_key gb r = Ok key" by blast
  define st where "st = (case bt_get S key of Some st \<Rightarrow> st | None \<Rightarrow> replicate (length (zip items indexes)) acc_default)"
  note gs = states_of_group [OF Cons.prems(2), of key, folded st_def]
  have run: "resolved_item columns (fst p) \<and> item_index columns (fst p) = Ok (snd p)" if "p \<in> set (zip items indexes)" for p
    using that assms(3,4) set_zip_leftD [of "fst p" "snd p" items indexes]
    by (auto simp: collect_results_Ok list_all2_conv_all_nth in_set_zip)
  have "list_all2 P its st' \<Longrightarrow> (\<And>p. p \<in> set its \<Longrightarrow> resolved_item columns (fst p) \<and> item_index columns (fst p) = Ok (snd p)) \<Longrightarrow>
      add_row r its st' \<noteq> Panic" for P its st'
  proof (induction rule: list_all2_induct)
    case (Cons p its a st')
    then have "item_add r p a \<noteq> Panic" using item_add_calm [of columns "fst p" "snd p" r a] width by simp
    with Cons show ?case by (auto simp: and_then_eq_Panic)
  qed simp
  with gs run have calm: "add_row r (zip items indexes) st \<noteq> Panic" unfolding group_states_def by blast
  show ?case
  proof (cases "add_row r (zip items indexes) st")
    case (Ok st')
    then have "group_rel (zip items indexes) (add_to_group key r G) (bt_insert key st' S)"
      using bt_insert_related [OF Cons.prems(2)] add_row_states [OF gs] by (simp add: add_to_group_def)
    with Cons.IH Cons.prems(1) Ok key show ?thesis by (simp add: st_def)
  qed (use calm key in \<open>simp_all add: st_def\<close>)
qed simp

lemma start_groups_rel:
  "length indexes = length items \<Longrightarrow>
   group_rel (zip items indexes) (start_groups group_by []) (start_groups group_by (replicate (length items) acc_default))"
  using group_states_default [of "zip items indexes"] by (simp add: start_groups_def)

lemma map_snd_tagged: "map snd (map (Pair True) xs) = xs"
  by (simp add: comp_def)

lemma guarded_run:
  assumes "s = and_then d (\<lambda>_. and_then r k)" "\<And>x. r = Ok x \<Longrightarrow> k x = g" "d \<noteq> Panic" "r \<noteq> Panic" "g \<noteq> Panic"
    and "is_ok g \<Longrightarrow> is_ok r \<and> is_ok d"
  shows "s \<noteq> Panic \<and> g \<noteq> Panic \<and> (\<forall>out. s = Ok out \<longleftrightarrow> g = Ok out)"
  using assms by (cases d; cases r; cases g) auto

lemma streaming_resolved:
  assumes "\<forall>r \<in> set rows. length r = length columns" "\<forall>it \<in> set items. resolved_item columns it"
  shows "select_streaming_aggregate columns rows items group_by order dist limit offset \<noteq> Panic \<and>
    project_grouped columns rows items group_by None order dist limit offset \<noteq> Panic \<and>
    (\<forall>out. select_streaming_aggregate columns rows items group_by order dist limit offset = Ok out \<longleftrightarrow>
       project_grouped columns rows items group_by None order dist limit offset = Ok out)"
proof -
  let ?stream = "select_streaming_aggregate columns rows items group_by order dist limit offset"
  let ?general = "project_grouped columns rows items group_by None order dist limit offset"
  let ?dry = "project_grouped columns [] items group_by None order dist limit offset"
  have calm: "?general \<noteq> Panic" "?dry \<noteq> Panic" by (rule project_grouped_calm; use assms resolved_parsed in auto)+
  show ?thesis
  proof (cases "is_ok ?dry \<or> is_ok ?general")
    case False
    with calm obtain e e' where "?dry = Err e" "?general = Err e'" by (cases ?dry; cases ?general) auto
    then show ?thesis by (simp add: select_streaming_aggregate_def)
  next
    case True
    then obtain gb us where names: "collect_results (projection_col_pos columns) group_by = Ok gb"
      "collect_results (check_item columns gb) items = Ok us" using project_grouped_names by metis
    from indexes_resolve [OF names(2) assms(2)] obtain indexes where ix: "collect_results (item_index columns) items = Ok indexes" .
    then have len: "length indexes = length items" by (simp add: collect_results_Ok list_all2_lengthD)
    from project_grouped_resolved [OF assms(1) names] obtain G where G: "partition_rows gb rows (start_groups group_by []) = Ok G"
      "wide_groups (length columns) gb G"
      "?general = and_then (collect_results (group_row columns gb items None) G) (\<lambda>outs.
        finish_grouped items order dist limit offset (map snd (filter fst outs)))" .
    let ?run = "stream_rows gb (zip items indexes) rows (start_groups group_by (replicate (length items) acc_default))"
    note rel = start_groups_rel [OF len, of group_by]
    have stream: "?stream = and_then ?dry (\<lambda>_. and_then ?run (\<lambda>groups.
        and_then (collect_results (\<lambda>(key, st). collect_results (stream_item gb key) (zip (zip items indexes) st)) groups)
          (finish_grouped items order dist limit offset)))"
      using names(1) ix by (simp add: select_streaming_aggregate_def start_groups_def)
    have after: "and_then (collect_results (\<lambda>(key, st). collect_results (stream_item gb key) (zip (zip items indexes) st)) S)
        (finish_grouped items order dist limit offset) = ?general" if "?run = Ok S" for S
      using stream_rows_sound [OF rel that] G group_rows_stream [OF assms(2) ix, of G S gb]
      by (auto simp: and_then_assoc map_snd_tagged simp del: map_map filter_map)
    have run_calm: "?run \<noteq> Panic" by (rule stream_rows_calm [OF names(1) assms ix rel])
    have "is_ok ?run \<and> is_ok ?dry" if ok: "is_ok ?general"
    proof -
      from ok G(3) obtain outs where outs: "collect_results (group_row columns gb items None) G = Ok outs"
        by (cases "collect_results (group_row columns gb items None) G") auto
      have "\<exists>a. item_run it rs acc_default = Ok a" if "(key, rs) \<in> set G" "it \<in> set (zip items indexes)" for key rs it
      proof -
        have "is_ok (collect_results (group_item columns gb key rs) items)"
          using collect_results_mem [OF outs that(1)] by (auto simp: group_row_def and_then_eq_Ok)
        then have "\<exists>v. group_item columns gb key rs (fst it) = Ok v"
          using set_zip_leftD [of "fst it" "snd it" items indexes] that(2)
          by (cases "collect_results (group_item columns gb key rs) items") (auto dest: collect_results_mem)
        moreover have "resolved_item columns (fst it) \<and> item_index columns (fst it) = Ok (snd it)"
          using that(2) assms(2) ix set_zip_leftD [of "fst it" "snd it" items indexes]
          by (auto simp: collect_results_Ok list_all2_conv_all_nth in_set_zip)
        ultimately show ?thesis using group_item_runs [of columns "fst it" "snd it" gb key rs] by auto
      qed
      with stream_rows_complete [OF rel G(1)] have "is_ok ?run" by fastforce
      moreover have "is_ok (finish_grouped items order dist limit offset (map snd (filter fst outs)))" using ok G(3) outs by simp
      then have "order = [] \<or> (\<exists>keys. order_keys (map item_label items) order = Ok keys)"
        using finish_grouped_calm [OF group_rows_length [OF outs], of order dist limit offset] by simp
      then have "is_ok ?dry" by (rule dry_run_ok [OF names assms(2)])
      ultimately show ?thesis by simp
    qed
    from guarded_run [OF stream after calm(2) run_calm calm(1) this] show ?thesis .
  qed
qed

text \<open>When an aggregate names no column of the table, the streaming path is always an error, and so is the general path as soon as there is a group.\<close>

lemma partition_nonempty:
  assumes "partition_rows gb rows G = Ok G'" "rows \<noteq> [] \<or> G \<noteq> []"
  shows "G' \<noteq> []"
  using assms
proof (induction rows arbitrary: G)
  case (Cons r rows)
  then obtain key where "partition_rows gb rows (add_to_group key r G) = Ok G'" by (auto simp: and_then_eq_Ok)
  moreover have "add_to_group key r G \<noteq> []" by (cases G) (auto simp: add_to_group_def split: if_splits)
  ultimately show ?case using Cons.IH by blast
qed simp

lemma streaming_unresolved:
  assumes "\<forall>it \<in> set items. parsed_item it" "it \<in> set items" "\<not> resolved_item columns it"
  shows "\<exists>e. select_streaming_aggregate columns rows items group_by order dist limit offset = Err e"
proof -
  let ?dry = "project_grouped columns [] items group_by None order dist limit offset"
  have calm: "?dry \<noteq> Panic" using project_grouped_calm [of "[]"] assms(1) by simp
  show ?thesis
  proof (cases "is_ok ?dry")
    case True
    then obtain gb us where names: "collect_results (projection_col_pos columns) group_by = Ok gb"
      "collect_results (check_item columns gb) items = Ok us" using project_grouped_names by metis
    have "item_index columns x \<noteq> Panic" if "x \<in> set items" for x
      using collect_results_mem [OF names(2) that] projection_col_pos_calm [of columns]
      by (auto simp: item_index_def check_item_def and_then_eq_Panic split: select_expr.splits option.splits)
    then have np: "collect_results (item_index columns) items \<noteq> Panic" by (rule collect_results_not_Panic)
    obtain e where "item_index columns it = Err e" using unresolved_item(1) assms by blast
    then have "collect_results (item_index columns) items \<noteq> Ok ixs" for ixs using collect_results_mem [of "item_index columns" items ixs it] assms(2) by auto
    with np obtain e' where "collect_results (item_index columns) items = Err e'" by (cases "collect_results (item_index columns) items") auto
    then show ?thesis using True names(1) by (cases ?dry) (simp_all add: select_streaming_aggregate_def)
  qed (use calm in \<open>cases ?dry; simp add: select_streaming_aggregate_def\<close>)
qed

lemma grouped_unresolved:
  assumes "\<forall>r \<in> set rows. length r = length columns" "\<forall>it \<in> set items. parsed_item it" "it \<in> set items" "\<not> resolved_item columns it"
    and "rows \<noteq> [] \<or> group_by = []"
  shows "\<exists>e. project_grouped columns rows items group_by None order dist limit offset = Err e"
proof -
  let ?general = "project_grouped columns rows items group_by None order dist limit offset"
  have "\<not> is_ok ?general"
  proof
    assume ok: "is_ok ?general"
    then obtain gb us where names: "collect_results (projection_col_pos columns) group_by = Ok gb"
      "collect_results (check_item columns gb) items = Ok us" using project_grouped_names by metis
    from project_grouped_resolved [OF assms(1) names] obtain G where G: "partition_rows gb rows (start_groups group_by []) = Ok G"
      "?general = and_then (collect_results (group_row columns gb items None) G) (\<lambda>outs.
        finish_grouped items order dist limit offset (map snd (filter fst outs)))" .
    have "G \<noteq> []" using partition_nonempty [OF G(1)] assms(5) by (auto simp: start_groups_def)
    then obtain key rs where g: "(key, rs) \<in> set G" by (cases G) auto
    from ok G(2) obtain outs where "collect_results (group_row columns gb items None) G = Ok outs"
      by (cases "collect_results (group_row columns gb items None) G") auto
    from collect_results_mem [OF this g] obtain cells where "collect_results (group_item columns gb key rs) items = Ok cells"
      by (auto simp: group_row_def and_then_eq_Ok)
    from collect_results_mem [OF this assms(3)] show False using unresolved_item(2) [of it columns gb key rs] assms by auto
  qed
  then show ?thesis using project_grouped_calm [OF assms(1,2), of group_by order dist limit offset] by (cases ?general) auto
qed

text \<open>
  C15: Streaming aggregation returns the table that grouping all rows would. For every select list the parser can build (each aggregate but
  \<^verbatim>\<open>COUNT(*)\<close> names a column, which need not exist) and every list of rows of the table's width, neither path panics; the streaming path
  succeeds exactly when the general path does, with the same columns, the same rows and the same order, except in one case: when there are grouping
  columns, no rows, and an aggregate over a column the table does not have, streaming reports the column while the general path may return an empty
  result.
\<close>

theorem streaming_group_by_equivalent:
  assumes "\<forall>r \<in> set rows. length r = length columns" "\<forall>it \<in> set items. parsed_item it"
  shows "select_streaming_aggregate columns rows items group_by order dist limit offset \<noteq> Panic \<and>
    project_grouped columns rows items group_by None order dist limit offset \<noteq> Panic \<and>
    (if rows \<noteq> [] \<or> group_by = [] \<or> (\<forall>it \<in> set items. resolved_item columns it)
     then \<forall>out. select_streaming_aggregate columns rows items group_by order dist limit offset = Ok out \<longleftrightarrow>
       project_grouped columns rows items group_by None order dist limit offset = Ok out
     else \<exists>e. select_streaming_aggregate columns rows items group_by order dist limit offset = Err e)"
proof (cases "\<forall>it \<in> set items. resolved_item columns it")
  case True
  then show ?thesis using streaming_resolved [OF assms(1) True, of group_by order dist limit offset] by simp
next
  case False
  then obtain it where it: "it \<in> set items" "\<not> resolved_item columns it" by blast
  from streaming_unresolved [OF assms(2) it] obtain e where e: "select_streaming_aggregate columns rows items group_by order dist limit offset = Err e" by blast
  show ?thesis
    using e False project_grouped_calm [OF assms] grouped_unresolved [OF assms it, of group_by order dist limit offset] by auto
qed

theorem streaming_group_by_equivalent_witness:
  "project_grouped [[97], [98]] [[VInt 1, VInt 5], [VInt 2, VNull], [VInt 1, VInt 7]]
     [\<lparr>it_expr = SelectColumn [97], it_alias = None\<rparr>, \<lparr>it_expr = SelectAggregate \<lparr>ag_func = Sum, ag_column = Some [98]\<rparr>, it_alias = Some [115]\<rparr>]
     [[97]] None [] False None 0 =
   Ok \<lparr>qr_columns = [[97], [115]], qr_rows = [[VInt 1, VInt 12], [VInt 2, VNull]]\<rparr>"
proof -
  let ?columns = "[[97], [98]] :: col_name list"
  let ?rows = "[[VInt 1, VInt 5], [VInt 2, VNull], [VInt 1, VInt 7]]"
  let ?items = "[\<lparr>it_expr = SelectColumn [97], it_alias = None\<rparr>, \<lparr>it_expr = SelectAggregate \<lparr>ag_func = Sum, ag_column = Some [98]\<rparr>, it_alias = Some [115]\<rparr>]"
  let ?out = "\<lparr>qr_columns = [[97], [115]], qr_rows = [[VInt 1, VInt 12], [VInt 2, VNull]]\<rparr>"
  have pos: "projection_col_pos ?columns [97] = Ok 0" "projection_col_pos ?columns [98] = Ok 1"
    by (simp_all add: projection_col_pos_def column_matches_def positions_def)
  have "select_streaming_aggregate ?columns ?rows ?items [[97]] [] False None 0 = Ok ?out"
    by (simp add: select_streaming_aggregate_def project_grouped_def pos check_item_def item_index_def group_key_def
        elem_at_def elem_get_def stream_item_def finish_grouped_def sort_rows_def finish_rows_def item_label_def item_add_def
        acc_add_def acc_add_number_def acc_default_def acc_finish_def checked_i128_def i64_result_def less_val_def)
  moreover have "\<forall>it \<in> set ?items. resolved_item ?columns it" using pos by (simp add: resolved_item_def)
  moreover have "\<forall>it \<in> set ?items. parsed_item it" by (simp add: parsed_item_def)
  ultimately show ?thesis using streaming_group_by_equivalent [of ?rows ?columns ?items "[[97]]" "[]" False None 0] by simp
qed

text \<open>The case in which the two paths differ: \<^verbatim>\<open>SELECT SUM(b) ... GROUP BY a\<close> on an empty table that has no column \<^verbatim>\<open>b\<close>.\<close>

lemma missing_aggregate_column_diverges:
  "\<exists>e. select_streaming_aggregate [[97]] [] [\<lparr>it_expr = SelectAggregate \<lparr>ag_func = Sum, ag_column = Some [98]\<rparr>, it_alias = Some [115]\<rparr>] [[97]] [] False None 0 = Err e"
  "project_grouped [[97]] [] [\<lparr>it_expr = SelectAggregate \<lparr>ag_func = Sum, ag_column = Some [98]\<rparr>, it_alias = Some [115]\<rparr>] [[97]] None [] False None 0 =
     Ok \<lparr>qr_columns = [[115]], qr_rows = []\<rparr>"
  by (simp_all add: select_streaming_aggregate_def project_grouped_def projection_col_pos_def column_matches_def positions_def check_item_def item_index_def
      finish_grouped_def sort_rows_def finish_rows_def item_label_def suffix_def)

end
