(* ===== verification/Page_Cache.thy ===== *)
theory Page_Cache
  imports Vle Row_Page "HOL-Library.AList"
begin

text \<open>
  The buffer pool of \<^verbatim>\<open>src/storage/cache.rs\<close>: a bounded, least-recently-used, write-back cache of pages
  over a backend of \<open>Vle\<close>. The resident \<^verbatim>\<open>HashMap\<close> is an association list with distinct keys; its
  iteration order only matters for the choice of a victim and the ticks of resident entries are
  distinct, so the victim does not depend on it. Closures passed to the cache are functions on the
  page bytes.

  The lemmas relate the cache to the pages a caller sees (\<open>cache_view\<close>): the resident copy of a page,
  or the backend's copy after its checksum is verified. Loading, evicting and flushing change no
  visible page beyond its four checksum bytes.
\<close>

section \<open>State\<close>

definition DEFAULT_CACHE_PAGES :: nat where "DEFAULT_CACHE_PAGES = 4096"

record entry =
  en_page :: page
  en_dirty :: bool
  en_last_used :: nat

record 'j page_cache =
  pc_backend :: "'j backend_state"
  pc_capacity :: nat
  pc_entries :: "(page_id \<times> entry) list"
  pc_clock :: nat

text \<open>The parameters of the code that is called: BLAKE3 and the journal's \<^verbatim>\<open>before_write\<close>.\<close>

type_synonym hash_fn = "bytes \<Rightarrow> bytes"
type_synonym 'j write_hook = "u64 \<Rightarrow> ('j \<times> file_system, unit) action"

section \<open>Operations\<close>

definition cache_new :: "'j backend_state \<Rightarrow> nat \<Rightarrow> 'j page_cache" where
  "cache_new backend capacity =
     \<lparr>pc_backend = backend, pc_capacity = max capacity 1, pc_entries = [], pc_clock = 0\<rparr>"

definition resident :: "'j page_cache \<Rightarrow> nat" where
  "resident c = length (pc_entries c)"

fun on_backend :: "'j page_cache \<Rightarrow> 'a result \<times> 'j backend_state \<Rightarrow> 'a result \<times> 'j page_cache" where
  "on_backend c (r, b) = (r, c\<lparr>pc_backend := b\<rparr>)"

definition cache_alloc_page :: "('j page_cache, u64) action" where
  "cache_alloc_page c = on_backend c (backend_alloc_page (pc_backend c))"

text \<open>\<^verbatim>\<open>self.clock += 1\<close> panics at \<^verbatim>\<open>u64::MAX\<close>.\<close>

definition tick :: "('j page_cache, nat) action" where
  "tick c = (if pc_clock c < usize_max then (Ok (pc_clock c + 1), c\<lparr>pc_clock := pc_clock c + 1\<rparr>) else (Panic, c))"

text \<open>\<^verbatim>\<open>min_by_key\<close> returns the first of several minima.\<close>

fun victim :: "(page_id \<times> entry) list \<Rightarrow> page_id option" where
  "victim [] = None"
| "victim ((i, e) # es) =
     (if \<forall>(j, f) \<in> set es. en_last_used e \<le> en_last_used f then Some i else victim es)"

definition write_back :: "'j write_hook \<Rightarrow> u64 \<Rightarrow> page \<Rightarrow> ('j page_cache, unit) action" where
  "write_back bw page_id page c = on_backend c (backend_write_page bw page_id page (pc_backend c))"

lemma write_back_keeps:
  "write_back bw i p c = (r, c') \<Longrightarrow> pc_entries c' = pc_entries c \<and> pc_capacity c' = pc_capacity c \<and> pc_clock c' = pc_clock c"
  by (cases "backend_write_page bw i p (pc_backend c)") (auto simp: write_back_def)

lemma length_delete_less: "map_of xs k = Some v \<Longrightarrow> length (AList.delete k xs) < length xs"
proof (induction xs)
  case (Cons x xs)
  then show ?case using length_delete_le [of k xs] by (cases x) (auto simp: less_Suc_eq_le)
qed simp

text \<open>\<open>evict_if_needed\<close> removes the victim from the pool before it writes it back.\<close>

function evict_if_needed :: "hash_fn \<Rightarrow> 'j write_hook \<Rightarrow> ('j page_cache, unit) action" where
  "evict_if_needed blake3 bw c =
     (if pc_capacity c \<le> length (pc_entries c) then
        (case victim (pc_entries c) of
           None \<Rightarrow> (Ok (), c)
         | Some i \<Rightarrow>
             (case map_of (pc_entries c) i of
                None \<Rightarrow> (Panic, c)
              | Some e \<Rightarrow>
                  (let c' = c\<lparr>pc_entries := AList.delete i (pc_entries c)\<rparr>
                   in if en_dirty e
                      then act_then (write_back bw i (stamp_page_checksum blake3 (en_page e)))
                             (\<lambda>_. evict_if_needed blake3 bw) c'
                      else evict_if_needed blake3 bw c')))
      else (Ok (), c))"
  by pat_completeness auto
termination
  by (relation "measure (\<lambda>(blake3, bw, c). length (pc_entries c))")
    (auto simp: length_delete_less dest: write_back_keeps)

declare evict_if_needed.simps [simp del]

definition set_capacity :: "hash_fn \<Rightarrow> 'j write_hook \<Rightarrow> nat \<Rightarrow> ('j page_cache, unit) action" where
  "set_capacity blake3 bw capacity c = evict_if_needed blake3 bw (c\<lparr>pc_capacity := max capacity 1\<rparr>)"

definition insert_entry :: "u64 \<Rightarrow> page \<Rightarrow> bool \<Rightarrow> nat \<Rightarrow> ('j page_cache, unit) action" where
  "insert_entry page_id page dirty last_used c =
     (Ok (), c\<lparr>pc_entries := AList.update page_id \<lparr>en_page = page, en_dirty = dirty, en_last_used = last_used\<rparr> (pc_entries c)\<rparr>)"

definition ensure_loaded :: "hash_fn \<Rightarrow> 'j write_hook \<Rightarrow> u64 \<Rightarrow> ('j page_cache, unit) action" where
  "ensure_loaded blake3 bw page_id c =
     (if map_of (pc_entries c) page_id \<noteq> None then (Ok (), c)
      else
        act_then (act_return (backend_read_page (pc_backend c) page_id)) (\<lambda>page.
        act_then (act_return (verify_page_checksum blake3 page)) (\<lambda>_.
        act_then (evict_if_needed blake3 bw) (\<lambda>_.
        act_then tick (\<lambda>last_used.
        insert_entry page_id page False last_used)))) c)"

text \<open>\<^verbatim>\<open>get_mut(&id).expect("just loaded")\<close> with the new tick.\<close>

definition touch :: "u64 \<Rightarrow> ('j page_cache, entry) action" where
  "touch page_id = act_then tick (\<lambda>last_used c.
     (case map_of (pc_entries c) page_id of
        None \<Rightarrow> (Panic, c)
      | Some e \<Rightarrow> (let e' = e\<lparr>en_last_used := last_used\<rparr>
                    in (Ok e', c\<lparr>pc_entries := AList.update page_id e' (pc_entries c)\<rparr>))))"

definition with_page :: "hash_fn \<Rightarrow> 'j write_hook \<Rightarrow> u64 \<Rightarrow> (page \<Rightarrow> 'r result) \<Rightarrow> ('j page_cache, 'r) action" where
  "with_page blake3 bw page_id f =
     act_then (ensure_loaded blake3 bw page_id) (\<lambda>_.
     act_then (touch page_id) (\<lambda>e. act_return (f (en_page e))))"

definition cache_write :: "hash_fn \<Rightarrow> 'j write_hook \<Rightarrow> u64 \<Rightarrow> page \<Rightarrow> ('j page_cache, unit) action" where
  "cache_write blake3 bw page_id page c =
     (let clean = (case map_of (pc_entries c) page_id of Some e \<Rightarrow> (if en_dirty e then None else Some e) | None \<Rightarrow> None);
          page' = (if clean = None then page else stamp_page_checksum blake3 page)
      in if (\<exists>e. clean = Some e \<and> en_page e = page') then (Ok (), c)
         else
           act_then (if map_of (pc_entries c) page_id = None then evict_if_needed blake3 bw else act_return (Ok ())) (\<lambda>_.
           act_then tick (\<lambda>last_used.
           insert_entry page_id page' True last_used)) c)"

text \<open>
  \<^verbatim>\<open>with_page_mut\<close> works on an owned copy that replaces the resident page when the closure succeeds;
  \<^verbatim>\<open>with_page_bytes_mut\<close> works on the resident bytes themselves. A closure returns its outcome and the
  bytes it leaves.
\<close>

definition with_page_mut ::
  "hash_fn \<Rightarrow> 'j write_hook \<Rightarrow> u64 \<Rightarrow> (row_page \<Rightarrow> 'r result \<times> row_page) \<Rightarrow> ('j page_cache, 'r) action" where
  "with_page_mut blake3 bw page_id f =
     act_then (ensure_loaded blake3 bw page_id) (\<lambda>_.
     act_then (touch page_id) (\<lambda>e.
     act_then (act_return (row_page_from_bytes (en_page e))) (\<lambda>page c.
       (case f page of
          (Ok out, page') \<Rightarrow>
            (Ok out, c\<lparr>pc_entries := AList.update page_id (e\<lparr>en_page := page', en_dirty := True\<rparr>) (pc_entries c)\<rparr>)
        | (Err err, _) \<Rightarrow> (Err err, c)
        | (Panic, _) \<Rightarrow> (Panic, c)))))"

definition with_page_bytes_mut ::
  "hash_fn \<Rightarrow> 'j write_hook \<Rightarrow> u64 \<Rightarrow> (page \<Rightarrow> 'r result \<times> page) \<Rightarrow> ('j page_cache, 'r) action" where
  "with_page_bytes_mut blake3 bw page_id f =
     act_then (ensure_loaded blake3 bw page_id) (\<lambda>_.
     act_then (touch page_id) (\<lambda>e c.
       (case f (en_page e) of
          (Ok out, page') \<Rightarrow>
            (Ok out, c\<lparr>pc_entries := AList.update page_id (e\<lparr>en_page := page', en_dirty := True\<rparr>) (pc_entries c)\<rparr>)
        | (Err err, page') \<Rightarrow> (Err err, c\<lparr>pc_entries := AList.update page_id (e\<lparr>en_page := page'\<rparr>) (pc_entries c)\<rparr>)
        | (Panic, page') \<Rightarrow> (Panic, c\<lparr>pc_entries := AList.update page_id (e\<lparr>en_page := page'\<rparr>) (pc_entries c)\<rparr>))))"

definition cache_sync :: "('j page_cache, unit) action" where
  "cache_sync c = on_backend c (backend_sync_data (pc_backend c))"

section \<open>Flushing\<close>

definition dirty_ids :: "'j page_cache \<Rightarrow> u64 list" where
  "dirty_ids c = sort (map fst (filter (\<lambda>(i, e). en_dirty e) (pc_entries c)))"

text \<open>The longest run of consecutive ids at the front, and what follows it.\<close>

fun split_run :: "u64 list \<Rightarrow> u64 list \<times> u64 list" where
  "split_run [] = ([], [])"
| "split_run [i] = ([i], [])"
| "split_run (i # j # ids) =
     (if j = i + 1 then (let (run, rest) = split_run (j # ids) in (i # run, rest)) else ([i], j # ids))"

lemma split_run_append: "split_run ids = (run, rest) \<Longrightarrow> ids = run @ rest \<and> (ids \<noteq> [] \<longrightarrow> run \<noteq> [])"
  by (induction ids arbitrary: run rest rule: split_run.induct) (auto split: if_splits prod.splits)

lemma split_run_shorter: "ids \<noteq> [] \<Longrightarrow> length (snd (split_run ids)) < length ids"
proof -
  assume "ids \<noteq> []"
  obtain run rest where r: "split_run ids = (run, rest)" by (cases "split_run ids")
  from split_run_append [OF this] \<open>ids \<noteq> []\<close> have "length ids = length run + length rest" "run \<noteq> []"
    by (metis length_append, blast)
  with r show ?thesis by simp
qed

definition write_run :: "'j write_hook \<Rightarrow> u64 list \<Rightarrow> ('j page_cache, unit) action" where
  "write_run bw run c =
     (case collect_results (\<lambda>i. case map_of (pc_entries c) i of Some e \<Rightarrow> Ok (en_page e) | None \<Rightarrow> Panic) run of
        Ok pages \<Rightarrow> on_backend c (backend_write_pages_from bw (hd run) pages (pc_backend c))
      | Err e \<Rightarrow> (Err e, c)
      | Panic \<Rightarrow> (Panic, c))"

function write_runs :: "'j write_hook \<Rightarrow> u64 list \<Rightarrow> ('j page_cache, unit) action" where
  "write_runs bw ids c =
     (if ids = [] then (Ok (), c)
      else act_then (write_run bw (fst (split_run ids))) (\<lambda>_. write_runs bw (snd (split_run ids))) c)"
  by pat_completeness auto
termination
  by (relation "measure (\<lambda>(bw, ids, c). length ids)") (simp_all add: split_run_shorter)

declare write_runs.simps [simp del]

definition map_entries :: "u64 list \<Rightarrow> (entry \<Rightarrow> entry) \<Rightarrow> 'j page_cache \<Rightarrow> 'j page_cache" where
  "map_entries ids f c = c\<lparr>pc_entries := map (\<lambda>(i, e). (i, if i \<in> set ids then f e else e)) (pc_entries c)\<rparr>"

definition flush :: "hash_fn \<Rightarrow> 'j write_hook \<Rightarrow> ('j page_cache, unit) action" where
  "flush blake3 bw c =
     (if \<not> is_writable (fst (pc_backend c)) then (Ok (), c)
      else
        let ids = dirty_ids c
        in act_then (write_runs bw ids) (\<lambda>_ c'. (Ok (), map_entries ids (\<lambda>e. e\<lparr>en_dirty := False\<rparr>) c'))
             (map_entries ids (\<lambda>e. e\<lparr>en_page := stamp_page_checksum blake3 (en_page e)\<rparr>) c))"

section \<open>What a caller sees\<close>

definition cache_view :: "hash_fn \<Rightarrow> 'j page_cache \<Rightarrow> u64 \<Rightarrow> page result" where
  "cache_view blake3 c i =
     (case map_of (pc_entries c) i of
        Some e \<Rightarrow> Ok (en_page e)
      | None \<Rightarrow> and_then (backend_read_page (pc_backend c) i) (\<lambda>p.
                 and_then (verify_page_checksum blake3 p) (\<lambda>_. Ok p)))"

text \<open>Every visible page stays visible with the same content outside the checksum field.\<close>

definition view_kept :: "hash_fn \<Rightarrow> 'j page_cache \<Rightarrow> 'j page_cache \<Rightarrow> bool" where
  "view_kept blake3 c c' \<longleftrightarrow>
     (\<forall>i p. cache_view blake3 c i = Ok p \<longrightarrow> (\<exists>q. cache_view blake3 c' i = Ok q \<and> same_page p q))"

definition entry_ok :: "hash_fn \<Rightarrow> 'j backend_state \<Rightarrow> u64 \<Rightarrow> entry \<Rightarrow> bool" where
  "entry_ok blake3 b i e \<longleftrightarrow> length (en_page e) = PAGE_SIZE \<and>
     (if en_dirty e then i < store_page_count b
      else backend_read_page b i = Ok (en_page e) \<and> verify_page_checksum blake3 (en_page e) = Ok ())"

definition ticks_distinct :: "(page_id \<times> entry) list \<Rightarrow> bool" where
  "ticks_distinct es \<longleftrightarrow> (\<forall>i j e f. map_of es i = Some e \<longrightarrow> map_of es j = Some f \<longrightarrow>
     en_last_used e = en_last_used f \<longrightarrow> i = j)"

definition cache_core :: "hash_fn \<Rightarrow> 'j page_cache \<Rightarrow> bool" where
  "cache_core blake3 c \<longleftrightarrow> plain_store (pc_backend c) \<and> 1 \<le> pc_capacity c \<and> distinct (map fst (pc_entries c)) \<and>
     ticks_distinct (pc_entries c) \<and>
     (\<forall>i e. map_of (pc_entries c) i = Some e \<longrightarrow> entry_ok blake3 (pc_backend c) i e \<and> en_last_used e \<le> pc_clock c)"

definition cache_inv :: "hash_fn \<Rightarrow> 'j page_cache \<Rightarrow> bool" where
  "cache_inv blake3 c \<longleftrightarrow> cache_core blake3 c \<and> resident c \<le> pc_capacity c"

text \<open>What an eviction does: only pages leave the pool, and none is lost.\<close>

definition evicted :: "hash_fn \<Rightarrow> 'j page_cache \<Rightarrow> 'j page_cache \<Rightarrow> bool" where
  "evicted blake3 c c' \<longleftrightarrow> cache_core blake3 c' \<and>
     store_page_count (pc_backend c') = store_page_count (pc_backend c) \<and> pc_capacity c' = pc_capacity c \<and> pc_clock c' = pc_clock c \<and>
     view_kept blake3 c c' \<and> (\<forall>i e. map_of (pc_entries c') i = Some e \<longrightarrow> map_of (pc_entries c) i = Some e) \<and>
     (\<forall>j q. map_of (pc_entries c) j = None \<longrightarrow> backend_read_page (pc_backend c) j = Ok q \<longrightarrow>
        backend_read_page (pc_backend c') j = Ok q)"

lemma view_kept_refl [simp]: "view_kept blake3 c c"
  unfolding view_kept_def using same_page_refl by blast

lemma view_kept_trans: "view_kept blake3 c d \<Longrightarrow> view_kept blake3 d e \<Longrightarrow> view_kept blake3 c e"
  unfolding view_kept_def by (meson same_page_trans)

lemma evicted_refl: "cache_core blake3 c \<Longrightarrow> evicted blake3 c c"
  by (simp add: evicted_def)

lemma evicted_core: "evicted blake3 c d \<Longrightarrow> cache_core blake3 d"
  by (simp add: evicted_def)

lemma evicted_trans: "evicted blake3 c d \<Longrightarrow> evicted blake3 d e \<Longrightarrow> evicted blake3 c e"
  unfolding evicted_def by (metis view_kept_trans not_None_eq)

lemma entry_ok_write:
  assumes "plain_store b" "backend_write_page bw i p b = (Ok (), b')" "length p = PAGE_SIZE"
    "entry_ok blake3 b j e" "j \<noteq> i"
  shows "entry_ok blake3 b' j e"
  using assms store.write_inv [OF assms(1,3,2)] store.write_other [OF assms(1,3,2)]
  by (auto simp: entry_ok_def split: if_splits)

lemma ticks_distinct_delete: "ticks_distinct es \<Longrightarrow> ticks_distinct (AList.delete k es)"
  by (auto simp: ticks_distinct_def delete_conv' split: if_splits)

lemma ticks_distinct_update:
  assumes "ticks_distinct es" "\<forall>i e. map_of es i = Some e \<longrightarrow> en_last_used e \<le> n" "n < en_last_used v"
  shows "ticks_distinct (AList.update k v es)"
proof -
  have "en_last_used e \<noteq> en_last_used v" if "map_of es i = Some e" for i e
    using assms(2,3) that by fastforce
  then show ?thesis
    using assms(1) unfolding ticks_distinct_def update_conv'
    by (metis fun_upd_apply option.inject)
qed

section \<open>The victim\<close>

lemma victim_least:
  assumes "es \<noteq> []"
  shows "\<exists>i e. victim es = Some i \<and> (i, e) \<in> set es \<and> (\<forall>(j, f) \<in> set es. en_last_used e \<le> en_last_used f)"
  using assms
proof (induction es)
  case (Cons x es)
  obtain i e where x: "x = (i, e)" by (cases x)
  show ?case
  proof (cases "\<forall>(j, f) \<in> set es. en_last_used e \<le> en_last_used f")
    case True
    then show ?thesis by (auto simp: x intro!: exI [of _ e])
  next
    case False
    then obtain j f where f: "(j, f) \<in> set es" "en_last_used f < en_last_used e" by force
    then have "es \<noteq> []" by auto
    with Cons.IH obtain k g where g: "victim es = Some k" "(k, g) \<in> set es"
      "\<forall>(j, f) \<in> set es. en_last_used g \<le> en_last_used f" by blast
    with f have "en_last_used g \<le> en_last_used e" by force
    with g False show ?thesis by (auto simp: x intro!: exI [of _ g])
  qed
qed simp

text \<open>With distinct ticks the victim is the same in every iteration order of the map.\<close>

lemma victim_order_independent:
  assumes "distinct (map fst es)" "ticks_distinct es" "set es' = set es" "distinct (map fst es')"
  shows "victim es' = victim es"
proof (cases "es = []")
  case True
  with assms(3) show ?thesis by simp
next
  case False
  then have "es' \<noteq> []" using assms(3) by auto
  from victim_least [OF False] obtain i e where i: "victim es = Some i" "(i, e) \<in> set es"
    "\<forall>(j, f) \<in> set es. en_last_used e \<le> en_last_used f" by blast
  from victim_least [OF \<open>es' \<noteq> []\<close>] obtain j f where j: "victim es' = Some j" "(j, f) \<in> set es"
    "\<forall>(k, g) \<in> set es. en_last_used f \<le> en_last_used g" using assms(3) by auto
  from i j have "en_last_used e = en_last_used f" by force
  moreover have "map_of es i = Some e" "map_of es j = Some f" using i j assms(1) by simp_all
  ultimately show ?thesis using assms(2) i(1) j(1) unfolding ticks_distinct_def by metis
qed

section \<open>Eviction\<close>

lemma map_of_delete_same: "map_of (AList.delete k xs) k = None"
  by (simp add: delete_conv')

lemma map_of_delete_if: "map_of (AList.delete k xs) i = (if i = k then None else map_of xs i)"
  by (simp add: delete_conv')

text \<open>One eviction: the victim leaves the pool, and a dirty one reaches the backend stamped.\<close>

lemma evict_clean:
  assumes "cache_core blake3 c" "map_of (pc_entries c) i = Some e" "\<not> en_dirty e"
  defines "c' \<equiv> c\<lparr>pc_entries := AList.delete i (pc_entries c)\<rparr>"
  shows "evicted blake3 c c'"
proof -
  have "cache_core blake3 c'"
    using assms(1) unfolding cache_core_def c'_def
    by (simp add: distinct_delete ticks_distinct_delete map_of_delete_if)
  have "entry_ok blake3 (pc_backend c) i e" using assms(1,2) by (simp add: cache_core_def)
  with assms(2,3) have "cache_view blake3 c' i = cache_view blake3 c i"
    by (simp add: cache_view_def c'_def map_of_delete_same entry_ok_def)
  moreover have "cache_view blake3 c' j = cache_view blake3 c j" if "j \<noteq> i" for j
    using that by (simp add: cache_view_def c'_def split: option.split)
  ultimately have "view_kept blake3 c c'" unfolding view_kept_def by (metis same_page_refl)
  with \<open>cache_core blake3 c'\<close> show ?thesis by (auto simp: evicted_def c'_def map_of_delete_if split: if_splits)
qed

lemma evict_dirty:
  assumes "cache_core blake3 c" "map_of (pc_entries c) i = Some e" "en_dirty e"
    "write_back bw i (stamp_page_checksum blake3 (en_page e)) (c\<lparr>pc_entries := AList.delete i (pc_entries c)\<rparr>) = (Ok (), c')"
  shows "evicted blake3 c c'"
proof -
  let ?p = "stamp_page_checksum blake3 (en_page e)" and ?b = "pc_backend c"
  obtain b' where w: "backend_write_page bw i ?p ?b = (Ok (), b')"
    and c': "c' = c\<lparr>pc_entries := AList.delete i (pc_entries c), pc_backend := b'\<rparr>"
    using assms(4) by (cases "backend_write_page bw i ?p ?b") (auto simp: write_back_def)
  have core: "plain_store ?b" "entry_ok blake3 ?b i e"
    using assms(1,2) by (auto simp: cache_core_def)
  then have e: "length (en_page e) = PAGE_SIZE" "i < store_page_count ?b" using assms(3) by (auto simp: entry_ok_def)
  then have p: "length ?p = PAGE_SIZE" by simp
  have "plain_store b'" using store.write_inv [OF core(1) p w] by simp
  moreover have "entry_ok blake3 b' j f" if "map_of (AList.delete i (pc_entries c)) j = Some f" for j f
    using entry_ok_write [OF core(1) w p] that assms(1)
    by (auto simp: cache_core_def map_of_delete_if split: if_splits)
  ultimately have core': "cache_core blake3 c'"
    using assms(1) by (auto simp: cache_core_def c' distinct_delete ticks_distinct_delete map_of_delete_if split: if_splits)
  have "cache_view blake3 c' i = Ok ?p" "cache_view blake3 c i = Ok (en_page e)"
    using store.write_read [OF core(1) e(2) p w] e(1) assms(2)
    by (simp_all add: cache_view_def c' map_of_delete_same)
  moreover have "cache_view blake3 c' j = Ok q" if "j \<noteq> i" "cache_view blake3 c j = Ok q" for j q
    using that store.write_other [OF core(1) p w]
    by (auto simp: cache_view_def c' and_then_eq_Ok split: option.splits)
  ultimately have "view_kept blake3 c c'"
    unfolding view_kept_def using same_page_stamp [OF e(1)] same_page_refl same_page_sym by (metis result.inject(1))
  moreover have "j \<noteq> i" if "map_of (pc_entries c) j = None" for j using that assms(2) by auto
  ultimately show ?thesis
    using core' store.write_other [OF core(1) p w] store.write_inv [OF core(1) p w] by (auto simp: evicted_def c' map_of_delete_if split: if_splits)
qed

lemma victim_entry:
  assumes "cache_core blake3 c" "pc_capacity c \<le> length (pc_entries c)"
  obtains i e where "victim (pc_entries c) = Some i" "map_of (pc_entries c) i = Some e"
proof -
  from assms have "pc_entries c \<noteq> []" by (auto simp: cache_core_def)
  from victim_least [OF this] assms(1) that show thesis by (force simp: cache_core_def)
qed

text \<open>
  Eviction makes room and never panics. When it succeeds no page is lost, and pages that are not
  resident read from the backend as before.
\<close>

lemma evict_not_Panic:
  assumes "cache_core blake3 c"
  shows "evict_if_needed blake3 bw c \<noteq> (Panic, c')"
  using assms
proof (induction blake3 bw c rule: evict_if_needed.induct)
  case (1 blake3 bw c)
  show ?case
  proof (cases "pc_capacity c \<le> length (pc_entries c)")
    case True
    obtain i e where v: "victim (pc_entries c) = Some i" "map_of (pc_entries c) i = Some e"
      by (rule victim_entry [OF "1.prems" True])
    note rec = "1.IH" [OF True v refl]
    show ?thesis
    proof (cases "en_dirty e")
      case dirty: True
      let ?w = "write_back bw i (stamp_page_checksum blake3 (en_page e))" and ?c = "c\<lparr>pc_entries := AList.delete i (pc_entries c)\<rparr>"
      have "?w ?c \<noteq> (Panic, d)" for d
        using "1.prems" store.write_no_panic [of "pc_backend c" bw i]
        by (cases "backend_write_page bw i (stamp_page_checksum blake3 (en_page e)) (pc_backend c)")
          (auto simp: write_back_def cache_core_def)
      then show ?thesis
        using True v dirty rec(1) [OF dirty] evict_dirty [OF "1.prems" v(2) dirty]
        by (auto simp: evict_if_needed.simps [of blake3 bw c] Let_def act_then_def evicted_def split: prod.splits result.splits)
    next
      case clean: False
      with True v rec(2) [OF clean] evict_clean [OF "1.prems" v(2) clean] show ?thesis
        by (simp add: evict_if_needed.simps [of blake3 bw c] evicted_def)
    qed
  qed (simp add: evict_if_needed.simps [of blake3 bw c])
qed

lemma evict_Ok:
  assumes "cache_core blake3 c" "evict_if_needed blake3 bw c = (Ok (), c')"
  shows "evicted blake3 c c' \<and> resident c' < pc_capacity c'"
  using assms
proof (induction blake3 bw c rule: evict_if_needed.induct)
  case (1 blake3 bw c)
  show ?case
  proof (cases "pc_capacity c \<le> length (pc_entries c)")
    case True
    obtain i e where v: "victim (pc_entries c) = Some i" "map_of (pc_entries c) i = Some e"
      by (rule victim_entry [OF "1.prems"(1) True])
    note rec = "1.IH" [OF True v refl]
    let ?c = "c\<lparr>pc_entries := AList.delete i (pc_entries c)\<rparr>"
    show ?thesis
    proof (cases "en_dirty e")
      case dirty: True
      from "1.prems"(2) True v dirty obtain d
        where d: "write_back bw i (stamp_page_checksum blake3 (en_page e)) ?c = (Ok (), d)"
          and ev: "evict_if_needed blake3 bw d = (Ok (), c')"
        by (auto simp: evict_if_needed.simps [of blake3 bw c] Let_def act_then_eq_Ok)
      have step: "evicted blake3 c d" by (rule evict_dirty [OF "1.prems"(1) v(2) dirty d])
      from rec(1) [OF dirty d evicted_core [OF step] ev] show ?thesis using evicted_trans [OF step] by blast
    next
      case clean: False
      have step: "evicted blake3 c ?c" by (rule evict_clean [OF "1.prems"(1) v(2) clean])
      from "1.prems"(2) True v clean have ev: "evict_if_needed blake3 bw ?c = (Ok (), c')"
        by (simp add: evict_if_needed.simps [of blake3 bw c])
      from rec(2) [OF clean evicted_core [OF step] ev] show ?thesis using evicted_trans [OF step] by blast
    qed
  next
    case False
    with "1.prems" show ?thesis by (auto simp: evict_if_needed.simps [of blake3 bw c] resident_def evicted_refl)
  qed
qed

section \<open>Loading, reading and writing\<close>

lemma tick_Ok: "tick c = (Ok n, c') \<longleftrightarrow> pc_clock c < usize_max \<and> n = Suc (pc_clock c) \<and> c' = c\<lparr>pc_clock := Suc (pc_clock c)\<rparr>"
  by (auto simp: tick_def)

lemma cache_core_put:
  assumes "cache_core blake3 c" "entry_ok blake3 (pc_backend c) i e" "en_last_used e = Suc (pc_clock c)"
  shows "cache_core blake3 (c\<lparr>pc_clock := Suc (pc_clock c), pc_entries := AList.update i e (pc_entries c)\<rparr>)"
  using assms ticks_distinct_update [of "pc_entries c" "pc_clock c" e i]
  by (auto simp: cache_core_def distinct_update update_conv' le_SucI split: if_splits)

lemma view_put:
  "cache_view blake3 (c\<lparr>pc_clock := n, pc_entries := AList.update i e (pc_entries c)\<rparr>) j =
    (if j = i then Ok (en_page e) else cache_view blake3 c j)"
  by (simp add: cache_view_def update_conv' split: option.split)

lemma length_update: "length (AList.update k v xs) = (if map_of xs k = None then Suc (length xs) else length xs)"
  by (induction xs) auto

lemma ensure_loaded_Ok:
  assumes "cache_inv blake3 c" "ensure_loaded blake3 bw i c = (Ok (), c')"
  shows "cache_inv blake3 c' \<and> view_kept blake3 c c' \<and> cache_view blake3 c i = cache_view blake3 c' i \<and>
    (\<exists>e. map_of (pc_entries c') i = Some e)"
proof (cases "map_of (pc_entries c) i")
  case (Some e)
  with assms show ?thesis by (simp add: ensure_loaded_def)
next
  case None
  from assms(2) None obtain p d where p: "backend_read_page (pc_backend c) i = Ok p"
      "verify_page_checksum blake3 p = Ok ()"
    and ev: "evict_if_needed blake3 bw c = (Ok (), d)" and clk: "pc_clock d < usize_max"
    and c': "c' = d\<lparr>pc_clock := Suc (pc_clock d), pc_entries := AList.update i
        \<lparr>en_page = p, en_dirty = False, en_last_used = Suc (pc_clock d)\<rparr> (pc_entries d)\<rparr>"
    by (auto simp: ensure_loaded_def act_then_eq_Ok tick_Ok insert_entry_def)
  have core: "cache_core blake3 c" using assms(1) by (simp add: cache_inv_def)
  have d: "evicted blake3 c d" "resident d < pc_capacity d" using evict_Ok [OF core ev] by auto
  have rd: "backend_read_page (pc_backend d) i = Ok p" "map_of (pc_entries d) i = None"
    using d(1) None p by (auto simp: evicted_def) (metis not_None_eq option.distinct(1))
  have "plain_store (pc_backend c)" using core by (simp add: cache_core_def)
  then have "length p = PAGE_SIZE" using p store.read_length by blast
  with rd p have "cache_core blake3 c'"
    unfolding c' by (intro cache_core_put [OF evicted_core [OF d(1)]]) (simp_all add: entry_ok_def)
  moreover have v: "cache_view blake3 c i = Ok p" "cache_view blake3 c' i = Ok p" "cache_view blake3 d i = Ok p"
    using None p rd by (simp_all add: cache_view_def c' update_conv')
  moreover have "view_kept blake3 d c'"
    using v(3) unfolding view_kept_def c' view_put by (auto intro: same_page_refl)
  ultimately show ?thesis
    using d view_kept_trans [of blake3 c d c'] rd(2)
    by (auto simp: cache_inv_def evicted_def resident_def c' length_update update_conv')
qed

lemma touch_Ok:
  assumes "cache_inv blake3 c" "touch i c = (Ok e, c')"
  shows "cache_inv blake3 c' \<and> map_of (pc_entries c') i = Some e \<and> cache_view blake3 c i = Ok (en_page e) \<and>
    view_kept blake3 c c'"
proof -
  from assms(2) obtain f where f: "map_of (pc_entries c) i = Some f" "e = f\<lparr>en_last_used := Suc (pc_clock c)\<rparr>"
    and c': "c' = c\<lparr>pc_clock := Suc (pc_clock c), pc_entries := AList.update i e (pc_entries c)\<rparr>"
    by (auto simp: touch_def act_then_eq_Ok tick_Ok Let_def split: option.splits)
  have "cache_core blake3 c'"
    unfolding c' using assms(1) f by (intro cache_core_put) (auto simp: cache_inv_def cache_core_def entry_ok_def)
  moreover have "cache_view blake3 c i = Ok (en_page e)" using f by (simp add: cache_view_def)
  moreover from this have "view_kept blake3 c c'"
    unfolding view_kept_def c' view_put by (auto intro: same_page_refl)
  ultimately show ?thesis
    using assms(1) f by (simp add: cache_inv_def resident_def c' length_update update_conv')
qed

lemma ensure_loaded_count:
  assumes "cache_inv blake3 c" "ensure_loaded blake3 bw i c = (Ok (), c')"
  shows "store_page_count (pc_backend c') = store_page_count (pc_backend c)"
proof (cases "map_of (pc_entries c) i")
  case None
  from assms(2) None obtain d where ev: "evict_if_needed blake3 bw c = (Ok (), d)" "pc_backend c' = pc_backend d"
    by (auto simp: ensure_loaded_def act_then_eq_Ok tick_Ok insert_entry_def)
  have "cache_core blake3 c" using assms(1) by (simp add: cache_inv_def)
  from evict_Ok [OF this ev(1)] ev(2) show ?thesis by (simp add: evicted_def)
qed (use assms in \<open>simp add: ensure_loaded_def\<close>)

lemma touch_count: "touch i c = (Ok e, c') \<Longrightarrow> pc_backend c' = pc_backend c"
  by (auto simp: touch_def act_then_eq_Ok tick_Ok Let_def split: option.splits)

text \<open>
  C32: The buffer pool is transparent to readers. In a pool whose invariant holds, a successful
  \<^verbatim>\<open>with_page\<close> hands the closure exactly the page the caller should see (the resident copy, or the
  backend's verified copy), keeps the invariant, so that at most \<^verbatim>\<open>capacity\<close> pages are resident and
  clean pages agree with the backend, and loses no page, whatever it had to evict.
\<close>

theorem with_page_transparent:
  assumes "cache_inv blake3 c" "with_page blake3 bw i f c = (Ok x, c')"
  shows "\<exists>p. cache_view blake3 c i = Ok p \<and> f p = Ok x \<and> cache_inv blake3 c' \<and> view_kept blake3 c c' \<and>
    resident c' \<le> pc_capacity c'"
proof -
  from assms(2) obtain d e where d: "ensure_loaded blake3 bw i c = (Ok (), d)" "touch i d = (Ok e, c')"
    and x: "f (en_page e) = Ok x"
    by (auto simp: with_page_def act_then_eq_Ok)
  note l = ensure_loaded_Ok [OF assms(1) d(1)]
  note t = touch_Ok [OF _ d(2), of blake3]
  from l t x view_kept_trans show ?thesis by (metis cache_inv_def)
qed

lemma cache_new_inv: "plain_store b \<Longrightarrow> cache_inv blake3 (cache_new b n)"
  by (simp add: cache_inv_def cache_core_def cache_new_def resident_def ticks_distinct_def)

theorem with_page_transparent_witness:
  "\<exists>c' :: unit page_cache. with_page (\<lambda>b. b) (\<lambda>_. act_return (Ok ())) 0 (\<lambda>p. Ok (length p))
     (cache_new (Mem [replicate PAGE_SIZE 0], \<lparr>fs_files = \<lambda>_. None, fs_denied = \<lambda>_. False\<rparr>) 1) = (Ok PAGE_SIZE, c') \<and>
     cache_inv (\<lambda>b. b) c'"
proof -
  let ?b = "(Mem [replicate PAGE_SIZE 0], \<lparr>fs_files = \<lambda>_. None, fs_denied = \<lambda>_. False\<rparr>) :: unit backend_state"
  let ?c = "cache_new ?b 1" and ?w = "\<lambda>_. act_return (Ok ()) :: (unit \<times> file_system, unit) action"
  have "stored_checksum (replicate PAGE_SIZE 0) = 0"
    by (simp add: stored_checksum_def size_defs) (simp add: numeral_eq_Suc)
  then have run: "fst (with_page (\<lambda>b. b) ?w 0 (\<lambda>p. Ok (length p)) ?c) = Ok PAGE_SIZE"
    by (simp add: with_page_def ensure_loaded_def act_then_def cache_new_def mem_read_page_def elem_get_def
        verify_page_checksum_def evict_if_needed.simps tick_def usize_max_def insert_entry_def touch_def Let_def)
  have "cache_inv (\<lambda>b. b) ?c" by (rule cache_new_inv) (simp add: usize_max_def)
  from with_page_transparent [OF this, of ?w 0 "\<lambda>p. Ok (length p)" PAGE_SIZE] run show ?thesis
    by (metis prod.collapse)
qed

lemma clean_page_view:
  assumes "cache_inv blake3 c" "map_of (pc_entries c) i = Some e" "\<not> en_dirty e"
  shows "backend_read_page (pc_backend c) i = Ok (en_page e)"
  using assms by (auto simp: cache_inv_def cache_core_def entry_ok_def)

lemma cache_write_facts:
  assumes "cache_inv blake3 c" "length p = PAGE_SIZE" "i < store_page_count (pc_backend c)"
    "cache_write blake3 bw i p c = (Ok (), c')"
  shows "cache_inv blake3 c' \<and> store_page_count (pc_backend c') = store_page_count (pc_backend c) \<and> resident c' \<le> pc_capacity c' \<and>
    (\<exists>q. cache_view blake3 c' i = Ok q \<and> same_page p q) \<and>
    (\<forall>j q. j \<noteq> i \<longrightarrow> cache_view blake3 c j = Ok q \<longrightarrow> (\<exists>q'. cache_view blake3 c' j = Ok q' \<and> same_page q q'))"
proof (cases "\<exists>e. map_of (pc_entries c) i = Some e \<and> \<not> en_dirty e \<and> en_page e = stamp_page_checksum blake3 p")
  case True
  then obtain e where e: "map_of (pc_entries c) i = Some e" "\<not> en_dirty e" "en_page e = stamp_page_checksum blake3 p"
    by blast
  with assms(4) have "c' = c" by (simp add: cache_write_def Let_def)
  moreover have "cache_view blake3 c i = Ok (stamp_page_checksum blake3 p)" using e by (simp add: cache_view_def)
  ultimately show ?thesis
    using assms(1) same_page_sym [OF same_page_stamp [OF assms(2)]] same_page_refl by (auto simp: cache_inv_def)
next
  case False
  have core: "cache_core blake3 c" using assms(1) by (simp add: cache_inv_def)
  obtain q d where q: "q = p \<or> q = stamp_page_checksum blake3 p"
    and d: "evicted blake3 c d" "map_of (pc_entries c) i = None \<longrightarrow> resident d < pc_capacity d"
      "map_of (pc_entries c) i \<noteq> None \<longrightarrow> d = c"
    and c': "c' = d\<lparr>pc_clock := Suc (pc_clock d), pc_entries := AList.update i
        \<lparr>en_page = q, en_dirty = True, en_last_used = Suc (pc_clock d)\<rparr> (pc_entries d)\<rparr>"
  proof (cases "map_of (pc_entries c) i")
    case None
    with assms(4) obtain d where ev: "evict_if_needed blake3 bw c = (Ok (), d)"
      and c': "c' = d\<lparr>pc_clock := Suc (pc_clock d), pc_entries := AList.update i
        \<lparr>en_page = p, en_dirty = True, en_last_used = Suc (pc_clock d)\<rparr> (pc_entries d)\<rparr>"
      by (auto simp: cache_write_def act_then_eq_Ok tick_Ok insert_entry_def)
    with evict_Ok [OF core ev] None that [of p d] show thesis by simp
  next
    case (Some e)
    with assms(4) False that [of "if en_dirty e then p else stamp_page_checksum blake3 p" c] evicted_refl [OF core]
    show thesis
      by (auto simp: cache_write_def act_then_eq_Ok tick_Ok insert_entry_def Let_def split: if_splits)
  qed
  have sp: "same_page p q" "length q = PAGE_SIZE"
    using q assms(2) same_page_sym [OF same_page_stamp [OF assms(2)]] by auto
  have "i < store_page_count (pc_backend d)"
    using d(1) assms(3) by (simp add: evicted_def)
  then have "cache_core blake3 c'"
    unfolding c' using sp by (intro cache_core_put [OF evicted_core [OF d(1)]]) (simp_all add: entry_ok_def)
  moreover have "resident c' \<le> pc_capacity c'"
  proof (cases "map_of (pc_entries c) i = None")
    case True
    with d(2) show ?thesis by (simp add: c' resident_def length_update)
  next
    case False
    with d(3) assms(1) show ?thesis by (auto simp: c' resident_def length_update cache_inv_def)
  qed
  moreover have "cache_view blake3 c' i = Ok q" unfolding c' view_put by simp
  moreover have "cache_view blake3 c' j = cache_view blake3 d j" if "j \<noteq> i" for j
    using that unfolding c' view_put by simp
  moreover have "view_kept blake3 c d" "store_page_count (pc_backend d) = store_page_count (pc_backend c)"
    using d(1) by (simp_all add: evicted_def)
  ultimately show ?thesis
    using sp(1) unfolding cache_inv_def view_kept_def by (simp add: c')
qed

text \<open>
  A write through the pool is the page the caller sees next. In a pool whose invariant holds,
  a successful \<^verbatim>\<open>write\<close> of a full page below the page count keeps the invariant and the bound on
  resident pages, makes the page visible (up to its checksum field), and loses no other page.
\<close>

theorem cache_write_visible:
  assumes "cache_inv blake3 c" "length p = PAGE_SIZE" "i < store_page_count (pc_backend c)"
    "cache_write blake3 bw i p c = (Ok (), c')"
  shows "cache_inv blake3 c' \<and> resident c' \<le> pc_capacity c' \<and>
    (\<exists>q. cache_view blake3 c' i = Ok q \<and> same_page p q) \<and>
    (\<forall>j q. j \<noteq> i \<longrightarrow> cache_view blake3 c j = Ok q \<longrightarrow> (\<exists>q'. cache_view blake3 c' j = Ok q' \<and> same_page q q'))"
  using cache_write_facts [OF assms] by blast

theorem cache_write_visible_witness:
  "\<exists>c' :: unit page_cache. cache_write (\<lambda>b. b) (\<lambda>_. act_return (Ok ())) 0 (replicate PAGE_SIZE 5)
     (cache_new (Mem [replicate PAGE_SIZE 0], \<lparr>fs_files = \<lambda>_. None, fs_denied = \<lambda>_. False\<rparr>) 1) = (Ok (), c') \<and>
     cache_inv (\<lambda>b. b) c' \<and> (\<exists>q. cache_view (\<lambda>b. b) c' 0 = Ok q \<and> same_page (replicate PAGE_SIZE 5) q)"
proof -
  let ?b = "(Mem [replicate PAGE_SIZE 0], \<lparr>fs_files = \<lambda>_. None, fs_denied = \<lambda>_. False\<rparr>) :: unit backend_state"
  let ?c = "cache_new ?b 1" and ?w = "\<lambda>_. act_return (Ok ()) :: (unit \<times> file_system, unit) action"
  have run: "fst (cache_write (\<lambda>b. b) ?w 0 (replicate PAGE_SIZE 5) ?c) = Ok ()"
    by (simp add: cache_write_def act_then_def cache_new_def evict_if_needed.simps tick_def usize_max_def insert_entry_def)
  have "cache_inv (\<lambda>b. b) ?c" by (rule cache_new_inv) (simp add: usize_max_def)
  moreover have "0 < store_page_count (pc_backend ?c)"
    by (simp add: cache_new_def store_page_count_def mem_page_count_def)
  ultimately show ?thesis
    using cache_write_visible [of "\<lambda>b. b" ?c "replicate PAGE_SIZE 5" 0 ?w] run length_replicate by (metis prod.collapse)
qed

text \<open>Replacing the bytes of a resident page, as the read-modify-write operations do.\<close>

lemma replace_entry:
  assumes "cache_inv blake3 c" "map_of (pc_entries c) i = Some e" "length p = PAGE_SIZE" "i < store_page_count (pc_backend c)"
  defines "c' \<equiv> c\<lparr>pc_entries := AList.update i (e\<lparr>en_page := p, en_dirty := True\<rparr>) (pc_entries c)\<rparr>"
  shows "cache_inv blake3 c' \<and> cache_view blake3 c' i = Ok p \<and> (\<forall>j. j \<noteq> i \<longrightarrow> cache_view blake3 c' j = cache_view blake3 c j)"
proof -
  have "ticks_distinct (AList.update i (e\<lparr>en_page := p, en_dirty := True\<rparr>) (pc_entries c))"
    using assms(1,2) unfolding cache_inv_def cache_core_def ticks_distinct_def
    by (auto simp: update_conv' split: if_splits)
  with assms show ?thesis
    by (auto simp: cache_inv_def cache_core_def cache_view_def c'_def update_conv' distinct_update resident_def
        length_update entry_ok_def split: option.splits if_splits)
qed

lemma view_bound:
  assumes "cache_inv blake3 c" "cache_view blake3 c i = Ok p"
  shows "i < store_page_count (pc_backend c) \<and> length p = PAGE_SIZE"
proof -
  have plain: "plain_store (pc_backend c)" using assms(1) by (simp add: cache_inv_def cache_core_def)
  show ?thesis
  proof (cases "map_of (pc_entries c) i")
    case None
    with assms(2) have "backend_read_page (pc_backend c) i = Ok p"
      by (auto simp: cache_view_def and_then_eq_Ok)
    then show ?thesis using store.read_bound [OF plain] store.read_length [OF plain] by blast
  next
    case (Some e)
    then have "entry_ok blake3 (pc_backend c) i e" "p = en_page e"
      using assms by (auto simp: cache_inv_def cache_core_def cache_view_def)
    then show ?thesis using store.read_bound [OF plain] by (auto simp: entry_ok_def split: if_splits)
  qed
qed

lemma page_bytes_mut_facts:
  assumes "cache_inv blake3 c" "with_page_bytes_mut blake3 bw i f c = (Ok x, c')"
    "\<And>p. length p = PAGE_SIZE \<Longrightarrow> length (snd (f p)) = PAGE_SIZE"
  shows "\<exists>p. cache_view blake3 c i = Ok p \<and> f p = (Ok x, snd (f p)) \<and> cache_view blake3 c' i = Ok (snd (f p)) \<and>
    cache_inv blake3 c' \<and> store_page_count (pc_backend c') = store_page_count (pc_backend c) \<and>
    (\<forall>j q. j \<noteq> i \<longrightarrow> cache_view blake3 c j = Ok q \<longrightarrow> (\<exists>q'. cache_view blake3 c' j = Ok q' \<and> same_page q q'))"
proof -
  from assms(2) obtain u d t e where d0: "ensure_loaded blake3 bw i c = (Ok u, d)" "touch i d = (Ok e, t)"
    and run: "(case f (en_page e) of
          (Ok out, page') \<Rightarrow>
            (Ok out, t\<lparr>pc_entries := AList.update i (e\<lparr>en_page := page', en_dirty := True\<rparr>) (pc_entries t)\<rparr>)
        | (Err err, page') \<Rightarrow> (Err err, t\<lparr>pc_entries := AList.update i (e\<lparr>en_page := page'\<rparr>) (pc_entries t)\<rparr>)
        | (Panic, page') \<Rightarrow> (Panic, t\<lparr>pc_entries := AList.update i (e\<lparr>en_page := page'\<rparr>) (pc_entries t)\<rparr>)) = (Ok x, c')"
    unfolding with_page_bytes_mut_def act_then_eq_Ok by blast
  then have d: "ensure_loaded blake3 bw i c = (Ok (), d)" "touch i d = (Ok e, t)" by simp_all
  from run have f: "f (en_page e) = (Ok x, snd (f (en_page e)))"
    and c': "c' = t\<lparr>pc_entries := AList.update i (e\<lparr>en_page := snd (f (en_page e)), en_dirty := True\<rparr>) (pc_entries t)\<rparr>"
    by (cases "f (en_page e)"; cases "fst (f (en_page e))"; simp)+
  have l: "cache_inv blake3 d" "view_kept blake3 c d" "cache_view blake3 c i = cache_view blake3 d i"
    using ensure_loaded_Ok [OF assms(1) d(1)] by auto
  have t: "cache_inv blake3 t" "map_of (pc_entries t) i = Some e" "cache_view blake3 d i = Ok (en_page e)"
    "view_kept blake3 d t"
    using touch_Ok [OF l(1) d(2)] by auto
  from t have "cache_view blake3 t i = Ok (en_page e)" by (simp add: cache_view_def)
  from view_bound [OF t(1) this] assms(3) have
    "length (snd (f (en_page e))) = PAGE_SIZE" "i < store_page_count (pc_backend t)" by auto
  from replace_entry [OF t(1,2) this] have r: "cache_inv blake3 c'" "cache_view blake3 c' i = Ok (snd (f (en_page e)))"
    "\<forall>j. j \<noteq> i \<longrightarrow> cache_view blake3 c' j = cache_view blake3 t j" unfolding c' by auto
  have "view_kept blake3 c t" by (rule view_kept_trans [OF l(2) t(4)])
  moreover have "store_page_count (pc_backend c') = store_page_count (pc_backend c)"
    using ensure_loaded_count [OF assms(1) d(1)] touch_count [OF d(2)] by (simp add: c')
  ultimately show ?thesis using r l(3) t(3) f unfolding view_kept_def by metis
qed

text \<open>
  Read-modify-write on raw page bytes. In a pool whose invariant holds, a successful
  \<^verbatim>\<open>with_page_bytes_mut\<close> ran its closure (which leaves full pages) on the page the caller sees, returns
  the closure's result, and makes the bytes the closure left the page the caller sees; the invariant
  is kept and no other page is lost.
\<close>

theorem page_bytes_mut_visible:
  assumes "cache_inv blake3 c" "with_page_bytes_mut blake3 bw i f c = (Ok x, c')"
    "\<And>p. length p = PAGE_SIZE \<Longrightarrow> length (snd (f p)) = PAGE_SIZE"
  shows "\<exists>p. cache_view blake3 c i = Ok p \<and> f p = (Ok x, snd (f p)) \<and> cache_view blake3 c' i = Ok (snd (f p)) \<and>
    cache_inv blake3 c' \<and>
    (\<forall>j q. j \<noteq> i \<longrightarrow> cache_view blake3 c j = Ok q \<longrightarrow> (\<exists>q'. cache_view blake3 c' j = Ok q' \<and> same_page q q'))"
  using page_bytes_mut_facts [OF assms] by blast

theorem page_bytes_mut_visible_witness:
  "\<exists>c' :: unit page_cache. with_page_bytes_mut (\<lambda>b. b) (\<lambda>_. act_return (Ok ())) 0 (\<lambda>p. (Ok (), p[9 := 1]))
     (cache_new (Mem [replicate PAGE_SIZE 0], \<lparr>fs_files = \<lambda>_. None, fs_denied = \<lambda>_. False\<rparr>) 1) = (Ok (), c') \<and>
     cache_inv (\<lambda>b. b) c'"
proof -
  let ?b = "(Mem [replicate PAGE_SIZE 0], \<lparr>fs_files = \<lambda>_. None, fs_denied = \<lambda>_. False\<rparr>) :: unit backend_state"
  let ?c = "cache_new ?b 1" and ?w = "\<lambda>_. act_return (Ok ()) :: (unit \<times> file_system, unit) action"
  let ?f = "\<lambda>p :: page. (Ok (), p[9 := 1])"
  have "stored_checksum (replicate PAGE_SIZE 0) = 0"
    by (simp add: stored_checksum_def size_defs) (simp add: numeral_eq_Suc)
  then have run: "fst (with_page_bytes_mut (\<lambda>b. b) ?w 0 ?f ?c) = Ok ()"
    by (simp add: with_page_bytes_mut_def ensure_loaded_def act_then_def cache_new_def mem_read_page_def elem_get_def
        verify_page_checksum_def evict_if_needed.simps tick_def usize_max_def insert_entry_def touch_def Let_def)
  have "cache_inv (\<lambda>b. b) ?c" by (rule cache_new_inv) (simp add: usize_max_def)
  moreover have "length (snd (?f p)) = PAGE_SIZE" if "length p = PAGE_SIZE" for p using that by simp
  moreover have "with_page_bytes_mut (\<lambda>b. b) ?w 0 ?f ?c = (Ok (), snd (with_page_bytes_mut (\<lambda>b. b) ?w 0 ?f ?c))"
    using run by (metis prod.collapse)
  ultimately show ?thesis
    using page_bytes_mut_visible [of "\<lambda>b. b" ?c ?w 0 ?f "()"] by blast
qed

text \<open>Working on an owned row page is working on the bytes, with the bytes untouched on an error.\<close>

definition owned :: "(row_page \<Rightarrow> 'r result \<times> row_page) \<Rightarrow> page \<Rightarrow> 'r result \<times> page" where
  "owned f p =
     (case row_page_from_bytes p of
        Ok page \<Rightarrow> (case f page of (Ok out, page') \<Rightarrow> (Ok out, page') | (Err e, _) \<Rightarrow> (Err e, p) | (Panic, _) \<Rightarrow> (Panic, p))
      | Err e \<Rightarrow> (Err e, p)
      | Panic \<Rightarrow> (Panic, p))"

lemma touch_entry: "touch i c = (Ok e, c') \<Longrightarrow> map_of (pc_entries c') i = Some e"
  by (auto simp: touch_def act_then_eq_Ok tick_Ok Let_def update_conv' split: option.splits)

lemma with_page_mut_owned: "with_page_mut blake3 bw i f c = with_page_bytes_mut blake3 bw i (owned f) c"
proof -
  have "act_then (act_return (row_page_from_bytes (en_page e))) (\<lambda>page t.
       (case f page of
          (Ok out, page') \<Rightarrow>
            (Ok out, t\<lparr>pc_entries := AList.update i (e\<lparr>en_page := page', en_dirty := True\<rparr>) (pc_entries t)\<rparr>)
        | (Err err, _) \<Rightarrow> (Err err, t)
        | (Panic, _) \<Rightarrow> (Panic, t))) t =
      (case owned f (en_page e) of
          (Ok out, page') \<Rightarrow>
            (Ok out, t\<lparr>pc_entries := AList.update i (e\<lparr>en_page := page', en_dirty := True\<rparr>) (pc_entries t)\<rparr>)
        | (Err err, page') \<Rightarrow> (Err err, t\<lparr>pc_entries := AList.update i (e\<lparr>en_page := page'\<rparr>) (pc_entries t)\<rparr>)
        | (Panic, page') \<Rightarrow> (Panic, t\<lparr>pc_entries := AList.update i (e\<lparr>en_page := page'\<rparr>) (pc_entries t)\<rparr>))"
    if "touch i d = (Ok e, t)" for e t d
  proof -
    have "AList.update i e (pc_entries t) = pc_entries t"
      by (rule update_triv) (rule touch_entry [OF that])
    moreover have "e\<lparr>en_page := en_page e\<rparr> = e" by simp
    ultimately show ?thesis
      by (auto simp: act_then_def owned_def split: prod.splits result.splits)
  qed
  then show ?thesis
    unfolding with_page_mut_def with_page_bytes_mut_def by (intro act_then_cong) simp_all
qed

section \<open>Flushing\<close>

lemma write_list_append:
  "write_list w (xs @ ys) s = act_then (write_list w xs) (\<lambda>_. write_list w ys) s"
  by (induction xs arbitrary: s) (auto simp: act_then_def split: prod.splits result.splits)

lemma upt_run: "[a..<a + Suc n] = a # [Suc a..<Suc a + n]"
  by (simp add: upt_conv_Cons del: upt_Suc)

lemma mem_write_pages_from_list:
  assumes "start + length ps \<le> Suc usize_max"
  shows "on_mem fs (mem_write_pages_from start ps m) =
    write_list (backend_write_page bw) (zip (map of_nat [start..<start + length ps]) ps) (Mem m, fs)"
  using assms
proof (induction ps arbitrary: start m)
  case (Cons p ps)
  have "[start..<start + length (p # ps)] = start # [Suc start..<Suc start + length ps]"
    using upt_run [of start "length ps"] by (simp del: upt_Suc)
  with Cons.IH [of "Suc start"] Cons.prems show ?case
    by (auto simp: mem_write_page_def act_then_def)
qed simp

lemma dev_write_each_list:
  assumes "start + length ps \<le> Suc usize_max"
  shows "on_dev (dev_write_each bw start ps (d, fs)) =
    write_list (backend_write_page bw) (zip (map of_nat [start..<start + length ps]) ps) (Dev d, fs)"
  using assms
proof (induction ps arbitrary: start d fs)
  case (Cons p ps)
  have "[start..<start + length (p # ps)] = start # [Suc start..<Suc start + length ps]"
    using upt_run [of start "length ps"] by (simp del: upt_Suc)
  with Cons.IH [of "Suc start"] Cons.prems show ?case
    by (cases "dev_write_page bw (of_nat start) p (d, fs)") (auto simp: act_then_def split: result.splits)
qed simp

lemma backend_write_pages_from_list:
  assumes "plain_store (b, fs)" "is_writable b" "\<forall>p \<in> set ps. length p = PAGE_SIZE"
    "unat start + length ps + PAGES_PER_CHUNK \<le> usize_max"
  shows "backend_write_pages_from bw start ps (b, fs) =
    write_list (backend_write_page bw) (zip (map of_nat [unat start..<unat start + length ps]) ps) (b, fs)"
proof (cases b)
  case (Dev d)
  with assms dev_write_bulk_each [of ps "unat start + length ps" "unat start" "(d, fs)" bw] show ?thesis
    by (simp add: dev_write_pages_from_def dev_write_each_list)
qed (use assms in \<open>simp_all add: mem_write_pages_from_list\<close>)

lemma split_run_consecutive:
  assumes "split_run ids = (run, rest)" "ids \<noteq> []"
  shows "run = map (\<lambda>k. hd ids + of_nat k) [0..<length run]"
  using assms
proof (induction ids arbitrary: run rest rule: split_run.induct)
  case (3 i j ids)
  show ?case
  proof (cases "j = i + 1")
    case True
    with "3.prems" obtain run' where run': "split_run (j # ids) = (run', rest)" "run = i # run'"
      by (auto split: prod.splits)
    with "3.IH" [OF True run'(1)] True have "run' = map (\<lambda>k. i + of_nat (Suc k)) [0..<length run']"
      by (simp add: add.assoc)
    moreover have "map (\<lambda>k. i + of_nat k) [0..<length run] = i # map (\<lambda>k. i + of_nat (Suc k)) [0..<length run']"
      using run' by (simp add: upt_conv_Cons map_Suc_upt [symmetric] o_def del: upt_Suc)
    ultimately show ?thesis using run' by simp
  qed (use "3.prems" in auto)
qed simp_all

lemma run_ids:
  assumes "split_run ids = (run, rest)" "ids \<noteq> []" "unat (hd ids) + length run \<le> usize_max"
  shows "map of_nat [unat (hd ids)..<unat (hd ids) + length run] = run"
proof -
  have "map of_nat [unat (hd ids)..<unat (hd ids) + length run] = map (\<lambda>k. hd ids + of_nat k) [0..<length run]"
    by (rule nth_equalityI) simp_all
  then show ?thesis using split_run_consecutive [OF assms(1,2)] by simp
qed

text \<open>The page a flush writes for an id.\<close>

definition entry_page :: "(page_id \<times> entry) list \<Rightarrow> u64 \<Rightarrow> page" where
  "entry_page es i = (case map_of es i of Some e \<Rightarrow> en_page e | None \<Rightarrow> [])"

lemma entry_page_Some: "map_of es i = Some e \<Longrightarrow> entry_page es i = en_page e"
  by (simp add: entry_page_def)

lemma write_run_list:
  assumes "plain_store (pc_backend c)" "is_writable (fst (pc_backend c))" "split_run ids = (run, rest)" "ids \<noteq> []"
    "\<forall>i \<in> set run. \<exists>e. map_of (pc_entries c) i = Some e \<and> length (en_page e) = PAGE_SIZE"
    "unat (hd ids) + length run + PAGES_PER_CHUNK \<le> usize_max"
  shows "write_run bw run c =
    on_backend c (write_list (backend_write_page bw) (map (\<lambda>i. (i, entry_page (pc_entries c) i)) run) (pc_backend c))"
proof -
  let ?ps = "map (entry_page (pc_entries c)) run"
  have "collect_results (\<lambda>i. case map_of (pc_entries c) i of Some e \<Rightarrow> Ok (en_page e) | None \<Rightarrow> Panic) run = Ok ?ps"
    by (rule collect_results_map) (use assms(5) in \<open>auto simp: entry_page_def\<close>)
  moreover have "hd run = hd ids"
    using split_run_append [OF assms(3)] assms(4) by (metis hd_append2)
  moreover have "backend_write_pages_from bw (hd ids) ?ps (pc_backend c) =
      write_list (backend_write_page bw) (zip run ?ps) (pc_backend c)"
    using backend_write_pages_from_list [of "fst (pc_backend c)" "snd (pc_backend c)" ?ps "hd ids" bw]
      run_ids [OF assms(3,4)] assms by (force simp: entry_page_def)
  ultimately show ?thesis by (simp add: write_run_def zip_map2 zip_same_conv_map o_def)
qed

lemma backend_write_page_writable:
  "backend_write_page bw i p s = (r, s') \<Longrightarrow> is_writable (fst s') = is_writable (fst s)"
proof (cases s)
  case (Pair b fs)
  assume "backend_write_page bw i p s = (r, s')"
  then show ?thesis
    by (cases b) (auto simp: Pair mem_write_page_def elim: on_dev.elims split: if_splits)
qed

lemma write_list_writable:
  "write_list (backend_write_page bw) xs s = (r, s') \<Longrightarrow> is_writable (fst s') = is_writable (fst s)"
proof (induction xs arbitrary: s)
  case (Cons x xs)
  obtain i p where "x = (i, p)" by (cases x)
  with Cons.prems have "act_then (backend_write_page bw i p) (\<lambda>_. write_list (backend_write_page bw) xs) s = (r, s')"
    by simp
  then show ?case by (cases rule: act_then_cases) (auto dest: Cons.IH backend_write_page_writable)
qed simp

text \<open>Increasing ids below a bound are no more than the bound allows.\<close>

lemma run_bound:
  assumes "sorted (ids :: u64 list)" "distinct ids" "\<forall>i \<in> set ids. i < n" "set run \<subseteq> set ids" "distinct run" "ids \<noteq> []"
  shows "unat (hd ids) + length run \<le> unat n"
proof -
  have "unat ` set run \<subseteq> {unat (hd ids)..<unat n}"
  proof
    fix x assume "x \<in> unat ` set run"
    then obtain i where i: "i \<in> set ids" "x = unat i" using assms(4) by blast
    then have "hd ids \<le> i" using assms(1,6) by (cases ids) auto
    with i assms(3) show "x \<in> {unat (hd ids)..<unat n}" by (simp add: word_le_nat_alt word_less_nat_alt)
  qed
  then have "card (unat ` set run) \<le> unat n - unat (hd ids)"
    using card_mono [of "{unat (hd ids)..<unat n}"] by fastforce
  moreover have "inj_on unat (set run)" by (rule inj_onI) (rule unsigned_word_eqI)
  then have "card (unat ` set run) = length run"
    using assms(5) by (simp add: card_image distinct_card)
  moreover have "unat (hd ids) \<le> unat n"
    using assms(3,6) by (simp add: word_less_nat_alt less_imp_le)
  ultimately show ?thesis by linarith
qed

lemma write_runs_list:
  assumes "plain_store (pc_backend c)" "is_writable (fst (pc_backend c))" "sorted ids" "distinct ids"
    "\<forall>i \<in> set ids. i < store_page_count (pc_backend c) \<and> (\<exists>e. map_of (pc_entries c) i = Some e \<and> length (en_page e) = PAGE_SIZE)"
    "unat (store_page_count (pc_backend c)) + PAGES_PER_CHUNK \<le> usize_max"
  shows "write_runs bw ids c =
    on_backend c (write_list (backend_write_page bw) (map (\<lambda>i. (i, entry_page (pc_entries c) i)) ids) (pc_backend c))"
  using assms
proof (induction bw ids c rule: write_runs.induct)
  case (1 bw ids c)
  show ?case
  proof (cases "ids = []")
    case True
    then show ?thesis by (simp add: write_runs.simps [of bw "[]"])
  next
    case False
    obtain run rest where r: "split_run ids = (run, rest)" by (cases "split_run ids")
    have app: "ids = run @ rest" using split_run_append [OF r] by simp
    let ?l = "\<lambda>xs. map (\<lambda>i. (i, entry_page (pc_entries c) i)) xs" and ?w = "write_list (backend_write_page bw)"
    have "unat (hd ids) + length run \<le> unat (store_page_count (pc_backend c))"
      by (rule run_bound) (use "1.prems" False app in auto)
    with "1.prems" have run: "write_run bw run c = on_backend c (?w (?l run) (pc_backend c))"
      by (intro write_run_list [OF "1.prems"(1,2) r False]) (auto simp: app)
    have rest: "write_runs bw rest (c\<lparr>pc_backend := b\<rparr>) = on_backend (c\<lparr>pc_backend := b\<rparr>) (?w (?l rest) b)"
      if b: "?w (?l run) (pc_backend c) = (Ok (), b)" for b
    proof -
      have "distinct (map fst (?l run))" using "1.prems"(4) by (simp add: app o_def)
      moreover have "\<forall>(i, p) \<in> set (?l run). i < store_page_count (pc_backend c) \<and> length p = PAGE_SIZE"
        using "1.prems"(5) by (auto simp: app) (metis UnI1 entry_page_Some)
      ultimately have "plain_store b \<and> store_page_count b = store_page_count (pc_backend c)"
        using store.write_list_Ok [OF "1.prems"(1) b] by blast
      with "1.IH" [of "()" "c\<lparr>pc_backend := b\<rparr>"] run b r False "1.prems" write_list_writable [OF b] show ?thesis
        by (simp add: app sorted_append)
    qed
    obtain x b where xb: "?w (?l run) (pc_backend c) = (x, b)" by (cases "?w (?l run) (pc_backend c)")
    have ids: "?w (?l ids) (pc_backend c) = act_then (?w (?l run)) (\<lambda>_. ?w (?l rest)) (pc_backend c)"
      by (simp add: app write_list_append)
    have runs: "write_runs bw ids c = act_then (write_run bw run) (\<lambda>_. write_runs bw rest) c"
      using False r by (simp add: write_runs.simps [of bw ids])
    show ?thesis
    proof (cases x)
      case (Ok u)
      with rest [of b] xb show ?thesis
        by (cases "?w (?l rest) b") (simp add: runs ids run act_then_def)
    qed (use xb in \<open>simp_all add: runs ids run act_then_def\<close>)
  qed
qed

lemma map_of_map_key: "map_of (map (\<lambda>(i, e). (i, g i e)) es) i = map_option (g i) (map_of es i)"
  by (induction es) auto

lemma entries_map_entries:
  "map_of (pc_entries (map_entries ids f c)) i = map_option (\<lambda>e. if i \<in> set ids then f e else e) (map_of (pc_entries c) i)"
  by (simp add: map_entries_def map_of_map_key)

lemma map_entries_simps [simp]:
  "pc_backend (map_entries ids f c) = pc_backend c" "pc_capacity (map_entries ids f c) = pc_capacity c"
  "pc_clock (map_entries ids f c) = pc_clock c" "resident (map_entries ids f c) = resident c"
  "map fst (pc_entries (map_entries ids f c)) = map fst (pc_entries c)"
  by (simp_all add: map_entries_def resident_def o_def case_prod_unfold)

lemma dirty_ids_iff:
  assumes "distinct (map fst (pc_entries c))"
  shows "i \<in> set (dirty_ids c) \<longleftrightarrow> (\<exists>e. map_of (pc_entries c) i = Some e \<and> en_dirty e)"
  using assms by (force simp: dirty_ids_def)

lemma dirty_ids_sorted:
  assumes "distinct (map fst (pc_entries c))"
  shows "sorted (dirty_ids c)" "distinct (dirty_ids c)"
  using assms by (simp_all add: dirty_ids_def distinct_map_filter)

text \<open>
  C33: A flush makes every visible page durable. In a pool over a writable store whose invariant
  holds, and whose page count is below the last chunk of the 64-bit range, a successful \<^verbatim>\<open>flush\<close> keeps
  the invariant and every visible page, leaves no dirty page, and leaves the backend alone holding
  each page that was visible before (up to the checksum field), verified by its checksum.
\<close>

theorem flush_durable:
  assumes "cache_inv blake3 c" "is_writable (fst (pc_backend c))"
    "unat (store_page_count (pc_backend c)) + PAGES_PER_CHUNK \<le> usize_max" "flush blake3 bw c = (Ok (), c')"
  shows "cache_inv blake3 c' \<and> view_kept blake3 c c' \<and> dirty_ids c' = [] \<and>
    (\<forall>i p. cache_view blake3 c i = Ok p \<longrightarrow>
      (\<exists>q. backend_read_page (pc_backend c') i = Ok q \<and> same_page p q \<and> verify_page_checksum blake3 q = Ok ()))"
proof -
  let ?ids = "dirty_ids c"
  define c1 where "c1 = map_entries ?ids (\<lambda>e. e\<lparr>en_page := stamp_page_checksum blake3 (en_page e)\<rparr>) c"
  have core: "plain_store (pc_backend c)" "distinct (map fst (pc_entries c))" "ticks_distinct (pc_entries c)"
    and ok: "\<And>i e. map_of (pc_entries c) i = Some e \<Longrightarrow> entry_ok blake3 (pc_backend c) i e \<and> en_last_used e \<le> pc_clock c"
    using assms(1) by (auto simp: cache_inv_def cache_core_def)
  note ids = dirty_ids_iff [OF core(2)] and srt = dirty_ids_sorted [OF core(2)]
  let ?page = "entry_page (pc_entries c1)"
  have page: "?page i = stamp_page_checksum blake3 (en_page e)" "length (?page i) = PAGE_SIZE"
      "i < store_page_count (pc_backend c)"
    if "map_of (pc_entries c) i = Some e" "en_dirty e" for i e
    using that ok [OF that(1)] ids by (auto simp: entry_page_def c1_def entries_map_entries entry_ok_def)
  have runs: "write_runs bw ?ids c1 =
      on_backend c1 (write_list (backend_write_page bw) (map (\<lambda>i. (i, ?page i)) ?ids) (pc_backend c1))"
  proof (rule write_runs_list)
    show "\<forall>i \<in> set ?ids. i < store_page_count (pc_backend c1) \<and>
        (\<exists>e. map_of (pc_entries c1) i = Some e \<and> length (en_page e) = PAGE_SIZE)"
    proof
      fix i assume i: "i \<in> set ?ids"
      then obtain e where e: "map_of (pc_entries c) i = Some e" "en_dirty e" using ids by blast
      then have "map_of (pc_entries c1) i = Some (e\<lparr>en_page := stamp_page_checksum blake3 (en_page e)\<rparr>)"
        using i by (simp add: c1_def entries_map_entries)
      with page [OF e] show "i < store_page_count (pc_backend c1) \<and>
          (\<exists>e. map_of (pc_entries c1) i = Some e \<and> length (en_page e) = PAGE_SIZE)"
        by (simp add: c1_def)
    qed
  qed (use core(1) assms(2,3) srt in \<open>simp_all add: c1_def\<close>)
  have "act_then (write_runs bw ?ids) (\<lambda>_ d. (Ok (), map_entries ?ids (\<lambda>e. e\<lparr>en_dirty := False\<rparr>) d)) c1 = (Ok (), c')"
    using assms(2,4) by (simp add: flush_def Let_def c1_def)
  then obtain b where b: "write_list (backend_write_page bw) (map (\<lambda>i. (i, ?page i)) ?ids) (pc_backend c) = (Ok (), b)"
    and c': "c' = map_entries ?ids (\<lambda>e. e\<lparr>en_dirty := False\<rparr>) (c1\<lparr>pc_backend := b\<rparr>)"
    unfolding act_then_eq_Ok runs
    by (cases "write_list (backend_write_page bw) (map (\<lambda>i. (i, ?page i)) ?ids) (pc_backend c1)") (auto simp: c1_def)
  have w: "plain_store b \<and> store_page_count b = store_page_count (pc_backend c) \<and>
      (\<forall>(i, p) \<in> set (map (\<lambda>i. (i, ?page i)) ?ids). backend_read_page b i = Ok p) \<and>
      (\<forall>j q. j \<notin> fst ` set (map (\<lambda>i. (i, ?page i)) ?ids) \<longrightarrow> backend_read_page (pc_backend c) j = Ok q \<longrightarrow>
        backend_read_page b j = Ok q)"
    by (rule store.write_list_Ok [OF core(1) b]) (use srt(2) page ids in \<open>auto simp: o_def\<close>)
  have entry: "map_of (pc_entries c') i = map_option (\<lambda>e. if en_dirty e
      then e\<lparr>en_page := stamp_page_checksum blake3 (en_page e), en_dirty := False\<rparr> else e) (map_of (pc_entries c) i)" for i
    using ids [of i] by (cases "map_of (pc_entries c) i") (auto simp: c' entries_map_entries c1_def)
  have bk: "pc_backend c' = b" by (simp add: c')
  have rd: "backend_read_page b i = Ok (if en_dirty e then stamp_page_checksum blake3 (en_page e) else en_page e)"
    if e: "map_of (pc_entries c) i = Some e" for i e
  proof (cases "en_dirty e")
    case True
    with w ids e page(1) [OF e True] show ?thesis by auto
  next
    case False
    with e ok [OF e] ids [of i] w show ?thesis by (auto simp: entry_ok_def)
  qed
  have len: "length (en_page e) = PAGE_SIZE" if "map_of (pc_entries c) i = Some e" for i e
    using ok [OF that] by (simp add: entry_ok_def)
  have clean: "entry_ok blake3 b i e' \<and> \<not> en_dirty e' \<and> en_last_used e' \<le> pc_clock c" if "map_of (pc_entries c') i = Some e'" for i e'
  proof -
    from that entry [of i] obtain e where e: "map_of (pc_entries c) i = Some e"
      "e' = (if en_dirty e then e\<lparr>en_page := stamp_page_checksum blake3 (en_page e), en_dirty := False\<rparr> else e)" by auto
    with rd [OF e(1)] ok [OF e(1)] len [OF e(1)] show ?thesis by (cases "en_dirty e") (auto simp: entry_ok_def)
  qed
  have "ticks_distinct (pc_entries c')"
    using core(3) unfolding ticks_distinct_def entry
    by (auto split: if_splits)
  moreover have "pc_capacity c' = pc_capacity c" "pc_clock c' = pc_clock c" "resident c' = resident c"
    "map fst (pc_entries c') = map fst (pc_entries c)"
    by (simp_all add: c' c1_def resident_def map_entries_def o_def case_prod_unfold)
  ultimately have inv: "cache_inv blake3 c'"
    using assms(1) clean w core(2) unfolding cache_inv_def cache_core_def bk by simp
  have dur: "\<exists>q. backend_read_page b i = Ok q \<and> same_page p q \<and> verify_page_checksum blake3 q = Ok () \<and> cache_view blake3 c' i = Ok q"
    if "cache_view blake3 c i = Ok p" for i p
  proof (cases "map_of (pc_entries c) i")
    case None
    with that ids [of i] w entry [of i] show ?thesis by (auto simp: cache_view_def and_then_eq_Ok bk)
  next
    case (Some e)
    with that rd [OF Some] ok [OF Some] len [OF Some] entry [of i] show ?thesis
      by (auto simp: cache_view_def entry_ok_def same_page_sym [OF same_page_stamp])
  qed
  have "distinct (map fst (pc_entries c'))" using inv by (simp add: cache_inv_def cache_core_def)
  from dirty_ids_iff [OF this] clean have "i \<notin> set (dirty_ids c')" for i by blast
  then have "dirty_ids c' = []" by (metis list.set_intros(1) neq_Nil_conv)
  with inv dur show ?thesis unfolding view_kept_def bk by blast
qed

theorem flush_durable_witness:
  "\<exists>c' :: unit page_cache. flush (\<lambda>b. b) (\<lambda>_. act_return (Ok ()))
     ((cache_new (Mem [replicate PAGE_SIZE 0], \<lparr>fs_files = \<lambda>_. None, fs_denied = \<lambda>_. False\<rparr>) 1)
       \<lparr>pc_entries := [(0, \<lparr>en_page = replicate PAGE_SIZE 5, en_dirty = True, en_last_used = 0\<rparr>)]\<rparr>) = (Ok (), c') \<and>
     (\<exists>q. backend_read_page (pc_backend c') 0 = Ok q \<and> same_page (replicate PAGE_SIZE 5) q)"
proof -
  let ?b = "(Mem [replicate PAGE_SIZE 0], \<lparr>fs_files = \<lambda>_. None, fs_denied = \<lambda>_. False\<rparr>) :: unit backend_state"
  let ?e = "\<lparr>en_page = replicate PAGE_SIZE 5, en_dirty = True, en_last_used = 0\<rparr>"
  let ?c = "(cache_new ?b 1)\<lparr>pc_entries := [(0, ?e)]\<rparr>" and ?w = "\<lambda>_. act_return (Ok ()) :: (unit \<times> file_system, unit) action"
  have "dirty_ids ?c = [0]" by (simp add: dirty_ids_def)
  then have run: "fst (flush (\<lambda>b. b) ?w ?c) = Ok ()"
    by (simp add: flush_def cache_new_def Let_def act_then_def write_runs.simps write_run_def map_entries_def
        mem_write_page_def usize_max_def)
  have inv: "cache_inv (\<lambda>b. b) ?c"
    by (simp add: cache_inv_def cache_core_def cache_new_def resident_def ticks_distinct_def entry_ok_def
        store_page_count_def mem_page_count_def usize_max_def)
  have bounds: "is_writable (fst (pc_backend ?c))" "unat (store_page_count (pc_backend ?c)) + PAGES_PER_CHUNK \<le> usize_max"
    by (simp_all add: cache_new_def store_page_count_def mem_page_count_def PAGES_PER_CHUNK_def size_defs usize_max_def)
  have eq: "flush (\<lambda>b. b) ?w ?c = (Ok (), snd (flush (\<lambda>b. b) ?w ?c))" using run by (metis prod.collapse)
  have "cache_view (\<lambda>b. b) ?c 0 = Ok (replicate PAGE_SIZE 5)" by (simp add: cache_view_def)
  with flush_durable [OF inv bounds eq] eq show ?thesis by blast
qed

section \<open>Changing the capacity\<close>

text \<open>
  Shrinking the pool. In a pool whose invariant holds, \<^verbatim>\<open>set_capacity\<close> never panics, and when it
  succeeds the pool has the new capacity (at least one page), fewer resident pages than that,
  the invariant, and no page is lost.
\<close>

theorem set_capacity_bound:
  assumes "cache_inv blake3 c" "set_capacity blake3 bw n c = (r, c')"
  shows "r \<noteq> Panic \<and> (r = Ok () \<longrightarrow>
    cache_inv blake3 c' \<and> pc_capacity c' = max n 1 \<and> resident c' < max n 1 \<and> view_kept blake3 c c')"
proof -
  let ?c = "c\<lparr>pc_capacity := max n 1\<rparr>"
  have core: "cache_core blake3 ?c" using assms(1) by (simp add: cache_inv_def cache_core_def)
  have ev: "evict_if_needed blake3 bw ?c = (r, c')" using assms(2) by (simp add: set_capacity_def)
  have "cache_view blake3 ?c i = cache_view blake3 c i" for i
    by (simp add: cache_view_def split: option.split)
  then have same: "view_kept blake3 ?c c' \<longleftrightarrow> view_kept blake3 c c'" by (simp add: view_kept_def)
  show ?thesis
  proof (cases "r = Ok ()")
    case True
    with ev have ev': "evict_if_needed blake3 bw ?c = (Ok (), c')" by simp
    from evict_Ok [OF core ev'] same True show ?thesis by (auto simp: cache_inv_def evicted_def)
  next
    case False
    with evict_not_Panic [OF core] ev show ?thesis by auto
  qed
qed

theorem set_capacity_bound_witness:
  "let c = cache_new (Mem [replicate PAGE_SIZE 0], \<lparr>fs_files = \<lambda>_. None, fs_denied = \<lambda>_. False\<rparr>) 4 :: unit page_cache;
       (r, c') = set_capacity (\<lambda>b. b) (\<lambda>_. act_return (Ok ())) 0 c
   in r = Ok () \<and> cache_inv (\<lambda>b. b) c' \<and> pc_capacity c' = 1"
proof -
  let ?b = "(Mem [replicate PAGE_SIZE 0], \<lparr>fs_files = \<lambda>_. None, fs_denied = \<lambda>_. False\<rparr>) :: unit backend_state"
  let ?c = "cache_new ?b 4" and ?w = "\<lambda>_. act_return (Ok ()) :: (unit \<times> file_system, unit) action"
  have inv: "cache_inv (\<lambda>b. b) ?c" by (rule cache_new_inv) (simp add: usize_max_def)
  have run: "set_capacity (\<lambda>b. b) ?w 0 ?c = (Ok (), ?c\<lparr>pc_capacity := 1\<rparr>)"
    by (simp add: set_capacity_def evict_if_needed.simps cache_new_def)
  from set_capacity_bound [OF inv run] run show ?thesis by simp
qed

section \<open>A failed write-back\<close>

text \<open>
  C34: Eviction removes a dirty victim from the pool before writing it back, so when the backend
  refuses the write the error is returned but the page's unwritten content is gone: the page is no
  longer resident and the backend reads as before.
\<close>

theorem evict_failure_drops_page:
  assumes "cache_core blake3 c" "pc_capacity c \<le> resident c" "victim (pc_entries c) = Some i"
    "map_of (pc_entries c) i = Some e" "en_dirty e"
    "backend_write_page bw i (stamp_page_checksum blake3 (en_page e)) (pc_backend c) = (Err err, b')"
  shows "\<exists>c'. evict_if_needed blake3 bw c = (Err err, c') \<and> map_of (pc_entries c') i = None \<and>
    (\<forall>j. backend_read_page (pc_backend c') j = backend_read_page (pc_backend c) j)"
proof -
  have "plain_store (pc_backend c)" using assms(1) by (simp add: cache_core_def)
  from store.write_failed [OF this assms(6)] assms show ?thesis
    by (simp add: evict_if_needed.simps [of blake3 bw c] write_back_def resident_def Let_def map_of_delete_same)
qed

theorem evict_failure_drops_page_witness:
  "\<exists>c'. evict_if_needed (\<lambda>b. b) (\<lambda>_. act_return (Ok ()))
     \<lparr>pc_backend = (Dev ((dev_open [] 1)\<lparr>ds_journal := None :: unit option\<rparr>), \<lparr>fs_files = \<lambda>_. None, fs_denied = \<lambda>_. True\<rparr>),
      pc_capacity = 1, pc_entries = [(0, \<lparr>en_page = replicate PAGE_SIZE 5, en_dirty = True, en_last_used = 0\<rparr>)],
      pc_clock = 0\<rparr> = (Err (Io ''PermissionDenied''), c') \<and> map_of (pc_entries c') 0 = None"
proof -
  let ?b = "(Dev ((dev_open [] 1)\<lparr>ds_journal := None :: unit option\<rparr>), \<lparr>fs_files = \<lambda>_. None, fs_denied = \<lambda>_. True\<rparr>)"
  let ?e = "\<lparr>en_page = replicate PAGE_SIZE 5, en_dirty = True, en_last_used = 0\<rparr>"
  let ?c = "\<lparr>pc_backend = ?b, pc_capacity = 1, pc_entries = [(0, ?e)], pc_clock = 0\<rparr>"
  let ?w = "\<lambda>_. act_return (Ok ()) :: (unit \<times> file_system, unit) action"
  let ?r = "backend_write_page ?w 0 (stamp_page_checksum (\<lambda>b. b) (en_page ?e)) (pc_backend ?c)"
  have "cache_core (\<lambda>b. b) ?c"
    by (simp add: cache_core_def ticks_distinct_def entry_ok_def store_page_count_def dev_open_def)
  moreover have "?r = (Err (Io ''PermissionDenied''), snd ?r)"
    by (simp add: dev_open_def dev_write_page_plain with_chunk_write_def Let_def)
  ultimately show ?thesis
    using evict_failure_drops_page [of "\<lambda>b. b" ?c 0 ?e ?w "Io ''PermissionDenied''" "snd ?r"]
    by (simp add: resident_def) blast
qed

end
