(* ===== verification/Columnar_Page.thy ===== *)
theory Columnar_Page
  imports Core_Types Value Compress
begin

text \<open>
  The columnar page of \<^verbatim>\<open>src/storage/page.rs\<close> (\<^verbatim>\<open>ColumnarPage\<close>, \<^verbatim>\<open>encode_column\<close>, \<^verbatim>\<open>decode_column\<close>, the raw
  and dictionary serializations and the local readers): rows are transposed, each column is written
  with the codec that suits it, and reading transposes back. The round trip holds for every set of
  rows the encoder accepts, whichever codec each column takes, and decoding never panics.
\<close>

section \<open>Local readers\<close>

text \<open>
  \<^verbatim>\<open>take\<close>: an end that overflows \<^verbatim>\<open>usize\<close> is also past the end of the buffer, and both are the same
  error.
\<close>

definition col_take :: "nat \<Rightarrow> bytes reader" where
  "col_take len = get_exact ''columnar: unexpected end of buffer'' len"

definition col_read_u16 :: "u16 reader" where
  "col_read_u16 = get_le ''columnar: unexpected end of buffer'' 2"

definition col_read_u32 :: "u32 reader" where
  "col_read_u32 = get_le ''columnar: unexpected end of buffer'' 4"

definition col_read_i64 :: "i64 reader" where
  "col_read_i64 = get_le ''columnar: unexpected end of buffer'' 8"

text \<open>A \<^verbatim>\<open>u32\<close> length followed by that many bytes, as strings and blobs are stored.\<close>

definition sized :: "bytes \<Rightarrow> bytes" where
  "sized bs = to_le 4 (of_nat (length bs) :: u32) @ bs"

definition col_read_sized :: "bytes reader" where
  "col_read_sized buf pos =
     and_then (col_read_u32 buf pos) (\<lambda>(len, pos). col_take (unat len) buf pos)"

section \<open>Raw columns\<close>

fun encode_raw_value :: "val \<Rightarrow> bytes" where
  "encode_raw_value VNull = [0]"
| "encode_raw_value (VInt i) = 1 # to_le 8 i"
| "encode_raw_value (VText s) = 2 # sized s"
| "encode_raw_value (VBlob b) = 3 # sized b"
| "encode_raw_value (VDecimal m) = 4 # encode_packed_i128 m"

definition encode_raw_column :: "val list \<Rightarrow> bytes" where
  "encode_raw_column values =
     to_le 4 (of_nat (length values) :: u32) @ concat (map encode_raw_value values)"

definition decode_raw_value :: "val reader" where
  "decode_raw_value payload pos =
     and_then (get_byte ''columnar raw: truncated tag'' payload pos) (\<lambda>(tag, pos).
       if tag = 0 then Ok (VNull, pos)
       else if tag = 1 then map_reader VInt col_read_i64 payload pos
       else if tag = 2 then
         and_then (col_read_sized payload pos) (\<lambda>(bs, pos).
         and_then (ok_or (from_utf8 bs) (Corruption ''columnar raw: bad utf-8'')) (\<lambda>s. Ok (VText s, pos)))
       else if tag = 3 then map_reader VBlob col_read_sized payload pos
       else if tag = 4 then map_reader VDecimal decode_packed_i128 payload pos
       else Err (Corruption ''columnar raw: bad value tag 0x{other:02X}''))"

definition decode_raw_column :: "bytes \<Rightarrow> val list result" where
  "decode_raw_column payload =
     and_then (col_read_u32 payload 0) (\<lambda>(count, pos).
     and_then (read_many decode_raw_value (unat count) payload pos) (\<lambda>(out, pos).
       if pos \<noteq> length payload then Err (Corruption ''columnar raw: trailing bytes'') else Ok out))"

section \<open>Dictionary columns\<close>

definition serialize_dict :: "dictionary_column \<Rightarrow> bytes" where
  "serialize_dict d =
     to_le 2 (of_nat (length (dc_symbols d)) :: u16) @ concat (map sized (dc_symbols d)) @
     [dc_bits d] @ to_le 4 (of_nat (dc_count d) :: u32) @
     to_le 4 (of_nat (length (dc_codes d)) :: u32) @ dc_codes d"

definition read_symbol :: "bytes reader" where
  "read_symbol payload pos =
     and_then (col_read_sized payload pos) (\<lambda>(bs, pos).
     and_then (ok_or (from_utf8 bs) (Corruption ''dictionary: bad utf-8 symbol'')) (\<lambda>s. Ok (s, pos)))"

definition deserialize_dict :: "bytes \<Rightarrow> dictionary_column result" where
  "deserialize_dict payload =
     and_then (col_read_u16 payload 0) (\<lambda>(symbol_count, pos).
       if unat symbol_count > MAX_DICTIONARY_SYMBOLS then
         Err (Corruption ''dictionary: {symbol_count} symbols exceeds the codec limit'')
       else
         and_then (read_many read_symbol (unat symbol_count) payload pos) (\<lambda>(symbols, pos).
         and_then (get_byte ''dictionary: missing bit width'' payload pos) (\<lambda>(bits, pos).
         and_then (col_read_u32 payload pos) (\<lambda>(count, pos).
         and_then (col_read_u32 payload pos) (\<lambda>(codes_len, pos).
         and_then (col_take (unat codes_len) payload pos) (\<lambda>(codes, pos).
           if pos \<noteq> length payload then Err (Corruption ''dictionary: trailing bytes after code stream'')
           else Ok \<lparr>dc_symbols = symbols, dc_bits = bits, dc_count = unat count, dc_codes = codes\<rparr>))))))"

section \<open>Columns\<close>

definition COL_ENC_DELTA_Z :: u8 where "COL_ENC_DELTA_Z = 1"
definition COL_ENC_DICTIONARY :: u8 where "COL_ENC_DICTIONARY = 2"
definition COL_ENC_RAW :: u8 where "COL_ENC_RAW = 3"
definition COL_ENC_PACKED_DECIMAL :: u8 where "COL_ENC_PACKED_DECIMAL = 4"
definition COLD_LAYOUT_VERSION :: u8 where "COLD_LAYOUT_VERSION = 1"

lemmas col_enc_defs = COL_ENC_DELTA_Z_def COL_ENC_DICTIONARY_def COL_ENC_RAW_def COL_ENC_PACKED_DECIMAL_def

fun is_int :: "val \<Rightarrow> bool" where "is_int (VInt _) = True" | "is_int _ = False"
fun is_text :: "val \<Rightarrow> bool" where "is_text (VText _) = True" | "is_text _ = False"
fun is_decimal :: "val \<Rightarrow> bool" where "is_decimal (VDecimal _) = True" | "is_decimal _ = False"

text \<open>\<^verbatim>\<open>v.as_int().unwrap()\<close>, \<^verbatim>\<open>v.as_text().unwrap()\<close> and the \<^verbatim>\<open>let .. else { unreachable!() }\<close>.\<close>

fun int_of :: "val \<Rightarrow> i64 result" where "int_of (VInt i) = Ok i" | "int_of _ = Panic"
fun text_of :: "val \<Rightarrow> bytes result" where "text_of (VText s) = Ok s" | "text_of _ = Panic"
fun decimal_of :: "val \<Rightarrow> i128 result" where "decimal_of (VDecimal m) = Ok m" | "decimal_of _ = Panic"

definition encode_column :: "val list \<Rightarrow> (u8 \<times> bytes) result" where
  "encode_column values =
     (if values \<noteq> [] \<and> list_all is_int values then
        and_then (collect_results int_of values) (\<lambda>ints. Ok (COL_ENC_DELTA_Z, delta_z_encode ints))
      else
        and_then
          (if values \<noteq> [] \<and> list_all is_text values then
             and_then (collect_results text_of values) (\<lambda>texts. Ok (dictionary_build texts))
           else Ok None) (\<lambda>dict.
        case dict of
          Some d \<Rightarrow> Ok (COL_ENC_DICTIONARY, serialize_dict d)
        | None \<Rightarrow>
            if values \<noteq> [] \<and> list_all is_decimal values then
              and_then (collect_results decimal_of values) (\<lambda>ms.
                Ok (COL_ENC_PACKED_DECIMAL, concat (map encode_packed_i128 ms)))
            else Ok (COL_ENC_RAW, encode_raw_column values)))"

definition decode_packed_column :: "bytes \<Rightarrow> nat \<Rightarrow> i128 list result" where
  "decode_packed_column payload row_count =
     and_then (read_many decode_packed_i128 row_count payload 0) (\<lambda>(ms, pos).
       if pos \<noteq> length payload then Err (Corruption ''packed decimal column has trailing bytes'')
       else Ok ms)"

definition decode_column :: "u8 \<Rightarrow> bytes \<Rightarrow> nat \<Rightarrow> val list result" where
  "decode_column tag payload row_count =
     and_then
       (if tag = COL_ENC_DELTA_Z then and_then (delta_z_decode payload) (\<lambda>xs. Ok (map VInt xs))
        else if tag = COL_ENC_DICTIONARY then
          and_then (deserialize_dict payload) (\<lambda>d.
          and_then (dictionary_decode d) (\<lambda>xs. Ok (map VText xs)))
        else if tag = COL_ENC_RAW then decode_raw_column payload
        else if tag = COL_ENC_PACKED_DECIMAL then
          and_then (decode_packed_column payload row_count) (\<lambda>ms. Ok (map VDecimal ms))
        else Err (Corruption ''columnar: unknown column encoding 0x{other:02X}''))
       (\<lambda>column.
         if length column \<noteq> row_count then Err (Corruption ''columnar: column length {} != row count {row_count}'')
         else Ok column)"

section \<open>Transposition\<close>

definition column_block :: "row list \<Rightarrow> nat \<Rightarrow> bytes result" where
  "column_block rows c =
     and_then (collect_results (\<lambda>r. elem_at r c) rows) (\<lambda>column.
     and_then (encode_column column) (\<lambda>(tag, payload).
       if length payload \<ge> 2 ^ 32 then Err (PageFull (length payload) PAGE_SIZE)
       else Ok (tag # sized payload)))"

definition row_arity :: "row list \<Rightarrow> nat" where
  "row_arity rows = (case rows of [] \<Rightarrow> 0 | r # _ \<Rightarrow> length r)"

definition columnar_from_rows :: "page_id \<Rightarrow> row list \<Rightarrow> bytes result" where
  "columnar_from_rows page_id rows =
     (let arity = row_arity rows in
      if list_ex (\<lambda>r. length r \<noteq> arity) rows then
        Err (Schema ''columnar transposition requires uniform row arity'')
      else if length rows > 65535 then Err (Schema ''too many rows for one columnar page'')
      else if arity > 65535 then Err (Schema ''too many columns for one columnar page'')
      else
        and_then (collect_results (column_block rows) [0..<arity]) (\<lambda>blocks.
          Ok (columnar_header_encode \<lparr>ch_page_id = page_id, ch_row_count = of_nat (length rows)\<rparr> @
              to_le 2 (of_nat arity :: u16) @ concat blocks)))"

text \<open>One column: its tag, its length, its payload. The two readers differ in one message.\<close>

definition read_column :: "string \<Rightarrow> nat \<Rightarrow> val list reader" where
  "read_column msg row_count buf pos =
     and_then (get_byte ''columnar: truncated column tag'' buf pos) (\<lambda>(tag, pos).
     and_then (col_read_u32 buf pos) (\<lambda>(len, pos).
     and_then (get_exact msg (unat len) buf pos) (\<lambda>(payload, pos).
     and_then (decode_column tag payload row_count) (\<lambda>column. Ok (column, pos)))))"

text \<open>\<^verbatim>\<open>for (r, value) in column { rows[r].push(value) }\<close>\<close>

definition push_column :: "row list \<Rightarrow> val list \<Rightarrow> row list result" where
  "push_column rows column =
     (if length column > length rows then Panic
      else Ok (map (\<lambda>(r, v). r @ [v]) (zip rows column) @ drop (length column) rows))"

fun push_columns :: "row list \<Rightarrow> val list list \<Rightarrow> row list result" where
  "push_columns rows [] = Ok rows"
| "push_columns rows (c # cs) = and_then (push_column rows c) (\<lambda>rows'. push_columns rows' cs)"

definition columnar_to_rows :: "bytes \<Rightarrow> (columnar_page_header \<times> row list) result" where
  "columnar_to_rows bs =
     and_then (columnar_header_decode bs) (\<lambda>header.
       if (case elem_get bs 23 of Some b \<Rightarrow> b | None \<Rightarrow> 0) \<noteq> 0 then
         Err (Corruption ''columnar: maintenance page requires the cold-page decoder'')
       else
         and_then (col_read_u16 bs PAGE_HEADER_SIZE) (\<lambda>(arity, pos).
         let row_count = unat (ch_row_count header) in
         and_then (read_many (read_column ''columnar: truncated column payload'' row_count) (unat arity) bs pos)
           (\<lambda>(columns, pos).
         and_then (slice_at bs pos (length bs)) (\<lambda>tail.
           if list_ex (\<lambda>b. b \<noteq> 0) tail then Err (Corruption ''columnar: nonzero bytes after column payloads'')
           else
             and_then (push_columns (replicate row_count []) columns) (\<lambda>rows. Ok (header, rows))))))"

definition pad_to_page :: "bytes \<Rightarrow> bytes result" where
  "pad_to_page bs =
     (if length bs > PAGE_SIZE then Err (PageFull (length bs) PAGE_SIZE)
      else Ok (overwrite (replicate PAGE_SIZE 0) 0 bs))"

section \<open>Readers\<close>

interpretation col_u16: strict_codec col_read_u16 "to_le 2" "\<lambda>_. True"
  unfolding col_read_u16_def by (rule get_le_strict) simp

interpretation col_u32: strict_codec col_read_u32 "to_le 4" "\<lambda>_. True"
  unfolding col_read_u32_def by (rule get_le_strict) simp

interpretation col_i64: strict_codec col_read_i64 "to_le 8" "\<lambda>_. True"
  unfolding col_read_i64_def by (rule get_le_strict) simp

interpretation col_sized: codec col_read_sized sized "\<lambda>bs. length bs < 2 ^ 32"
  using length_prefixed_codec [where 'a = 32 and n = 4]
  by (simp add: col_read_sized_def [abs_def] sized_def [abs_def] col_read_u32_def col_take_def)

lemma col_readers_safe [safe_intros]:
  "safe_reader col_read_u16" "safe_reader col_read_u32" "safe_reader col_read_i64"
  "safe_reader col_read_sized" "safe_reader (col_take n)" "safe_reader decode_packed_i128"
  unfolding col_take_def
  by (intro col_u16.safe_reader_axioms col_u32.safe_reader_axioms col_i64.safe_reader_axioms
      col_sized.safe_reader_axioms packed_i128.safe_reader_axioms safe_intros)+

lemma length_sized [simp]: "length (sized bs) = 4 + length bs"
  by (simp add: sized_def)

section \<open>Raw columns\<close>

definition raw_ok :: "val \<Rightarrow> bool" where
  "raw_ok v \<longleftrightarrow> value_ok v \<and> length (encode_raw_value v) < 2 ^ 32"

lemmas read_raw = read_after_tag [OF col_i64.codec_axioms] read_after_tag [OF col_sized.codec_axioms]
  read_after_tag [OF packed_i128.codec_axioms]

interpretation raw_value: codec decode_raw_value encode_raw_value raw_ok
proof (rule codec_intro)
  show "safe_reader decode_raw_value"
    unfolding decode_raw_value_def [abs_def] by (intro safe_intros) simp
  fix v pre post
  assume "raw_ok v"
  then show "decode_raw_value (pre @ encode_raw_value v @ post) (length pre) =
      Ok (v, length pre + length (encode_raw_value v))"
    by (cases v) (auto simp: decode_raw_value_def get_tag read_raw map_reader_def raw_ok_def)
qed

lemma decode_encode_raw:
  assumes "list_all value_ok vs" "length vs < 2 ^ 32" "length (encode_raw_column vs) < 2 ^ 32"
  shows "decode_raw_column (encode_raw_column vs) = Ok vs"
proof -
  define n where "n = (of_nat (length vs) :: u32)"
  let ?body = "concat (map encode_raw_value vs)"
  have n: "unat n = length vs" using assms(2) by (simp add: n_def unat_of_nat)
  have buf: "encode_raw_column vs = to_le 4 n @ ?body" by (simp add: encode_raw_column_def n_def)
  have ok: "list_all raw_ok vs"
    using assms(1,3) length_le_concat [of _ vs encode_raw_value] by (fastforce simp: list_all_iff raw_ok_def buf)
  have 1: "col_read_u32 (to_le 4 n @ ?body) 0 = Ok (n, 4)"
    using col_u32.dec_at(1) [of 0 "to_le 4 n @ ?body" n ?body] by simp
  have 2: "read_many decode_raw_value (length vs) (to_le 4 n @ ?body) 4 = Ok (vs, 4 + length ?body)"
    by (rule raw_value.many_dec_at(1) [OF _ _ ok]) simp_all
  show ?thesis
    unfolding buf decode_raw_column_def by (simp add: 1 n 2)
qed

section \<open>Dictionary serialization\<close>

definition symbol_ok :: "bytes \<Rightarrow> bool" where
  "symbol_ok s \<longleftrightarrow> utf8_valid s \<and> length s < 2 ^ 32"

interpretation symbol: codec read_symbol sized symbol_ok
proof (rule codec_intro)
  show "safe_reader read_symbol"
    unfolding read_symbol_def [abs_def] by (intro safe_intros) simp
  fix s pre post
  assume "symbol_ok s"
  then show "read_symbol (pre @ sized s @ post) (length pre) = Ok (s, length pre + length (sized s))"
    using col_sized.dec_enc [of s pre post] by (simp add: read_symbol_def symbol_ok_def)
qed

lemma deserialize_serialize:
  assumes "length (dc_symbols d) \<le> 256" "list_all utf8_valid (dc_symbols d)" "dc_count d < 2 ^ 32"
    "length (serialize_dict d) < 2 ^ 32"
  shows "deserialize_dict (serialize_dict d) = Ok d"
proof -
  define n where "n = (of_nat (length (dc_symbols d)) :: u16)"
  define c where "c = (of_nat (dc_count d) :: u32)"
  define k where "k = (of_nat (length (dc_codes d)) :: u32)"
  let ?syms = "concat (map sized (dc_symbols d))"
  define buf where "buf = to_le 2 n @ ?syms @ [dc_bits d] @ to_le 4 c @ to_le 4 k @ dc_codes d"
  have buf: "serialize_dict d = buf" by (simp add: serialize_dict_def buf_def n_def c_def k_def)
  have syms: "list_all symbol_ok (dc_symbols d)"
    using assms(2,4) length_le_concat [of _ "dc_symbols d" sized]
    by (fastforce simp: list_all_iff symbol_ok_def buf buf_def)
  have n: "unat n = length (dc_symbols d)" using assms(1) by (simp add: n_def unat_of_nat)
  have c: "unat c = dc_count d" using assms(3) by (simp add: c_def unat_of_nat)
  have k: "unat k = length (dc_codes d)"
    using assms(4) by (simp add: k_def unat_of_nat buf buf_def)
  have d0: "drop 0 buf = to_le 2 n @ ?syms @ [dc_bits d] @ to_le 4 c @ to_le 4 k @ dc_codes d"
    by (simp add: buf_def)
  have s1: "col_read_u16 buf 0 = Ok (n, 2)"
    and d1: "drop 2 buf = ?syms @ [dc_bits d] @ to_le 4 c @ to_le 4 k @ dc_codes d" and l1: "2 \<le> length buf"
    using col_u16.dec_at [OF d0] by (simp_all add: numeral_2_eq_2)
  define p where "p = 2 + length ?syms"
  have s2: "read_many read_symbol (length (dc_symbols d)) buf 2 = Ok (dc_symbols d, p)"
    and d2: "drop p buf = dc_bits d # to_le 4 c @ to_le 4 k @ dc_codes d" and l2: "p \<le> length buf"
    using symbol.many_dec_at [OF d1 l1 syms refl] by (simp_all add: p_def)
  note s3 = get_byte_at(1) [OF d2 l2, of "''dictionary: missing bit width''"] get_byte_at(2,3) [OF d2 l2]
  have s4: "col_read_u32 buf (p + 1) = Ok (c, p + 5)" and d4: "drop (p + 5) buf = to_le 4 k @ dc_codes d"
    and l4: "p + 5 \<le> length buf"
    using col_u32.dec_at [OF s3(2,3)] by (simp_all add: ac_simps)
  have s5: "col_read_u32 buf (p + 5) = Ok (k, p + 9)" and d5: "drop (p + 9) buf = dc_codes d @ []"
    and l5: "p + 9 \<le> length buf"
    using col_u32.dec_at [OF d4 l4] by (simp_all add: ac_simps)
  note s6 = get_exact_at(1) [OF d5 l5 refl, of "''columnar: unexpected end of buffer''"]
  have "length buf = p + 9 + length (dc_codes d)" by (simp add: buf_def p_def)
  with assms(1) show ?thesis
    unfolding buf deserialize_dict_def
    by (simp add: s1 n MAX_DICTIONARY_SYMBOLS_def s2 s3(1) [simplified] s4 [simplified] s5 [simplified] s6 [simplified] k c
        col_take_def)
qed

section \<open>Columns\<close>

lemma collect_int: "collect_results int_of (map VInt xs) = Ok xs"
  by (induction xs) auto

lemma collect_text: "collect_results text_of (map VText xs) = Ok xs"
  by (induction xs) auto

lemma collect_decimal: "collect_results decimal_of (map VDecimal xs) = Ok xs"
  by (induction xs) auto

lemma all_int: "list_all is_int vs \<Longrightarrow> \<exists>xs. vs = map VInt xs"
  by (induction vs) (auto elim!: is_int.elims simp: Cons_eq_map_conv)

lemma all_text: "list_all is_text vs \<Longrightarrow> \<exists>xs. vs = map VText xs"
  by (induction vs) (auto elim!: is_text.elims simp: Cons_eq_map_conv)

lemma all_decimal: "list_all is_decimal vs \<Longrightarrow> \<exists>xs. vs = map VDecimal xs"
  by (induction vs) (auto elim!: is_decimal.elims simp: Cons_eq_map_conv)

lemma dictionary_build_bounds:
  assumes "dictionary_build xs = Some d" "length xs \<le> 65535"
  shows "length (dc_symbols d) \<le> 256" "set (dc_symbols d) = set xs" "dc_count d = length xs"
    "dictionary_decode d = Ok xs"
proof -
  have "length xs * 8 \<le> usize_max" using assms(2) by (simp add: usize_max_def)
  from dictionary_decode_build [OF assms(1) this]
  show d: "set (dc_symbols d) = set xs" "dictionary_decode d = Ok xs" by auto
  from assms(1) obtain codes where "dictionary_loop [] xs = Some (dc_symbols d, codes)" and
    "dc_count d = length xs"
    by (auto simp: dictionary_build_def Let_def split: option.splits)
  then show "length (dc_symbols d) \<le> 256" "dc_count d = length xs"
    using dictionary_loop_codes [of "[]" xs] by auto
qed

text \<open>How \<^verbatim>\<open>encode_column\<close> chooses.\<close>

lemma encode_column_cases:
  obtains (ints) xs where "vs = map VInt xs" "encode_column vs = Ok (COL_ENC_DELTA_Z, delta_z_encode xs)"
  | (texts) xs d where "vs = map VText xs" "dictionary_build xs = Some d"
      "encode_column vs = Ok (COL_ENC_DICTIONARY, serialize_dict d)"
  | (decimals) ms where "vs = map VDecimal ms"
      "encode_column vs = Ok (COL_ENC_PACKED_DECIMAL, concat (map encode_packed_i128 ms))"
  | (raw) "encode_column vs = Ok (COL_ENC_RAW, encode_raw_column vs)"
proof -
  consider xs where "vs \<noteq> []" "vs = map VInt xs" | xs where "vs \<noteq> []" "vs = map VText xs"
    | xs where "vs \<noteq> []" "vs = map VDecimal xs"
    | "vs = [] \<or> \<not> list_all is_int vs \<and> \<not> list_all is_text vs \<and> \<not> list_all is_decimal vs"
    using all_int all_text all_decimal by blast
  then show thesis
  proof cases
    case (1 xs)
    then have "list_all is_int vs" by (simp add: list_all_iff)
    with 1 show ?thesis by (intro ints [of xs]) (simp_all add: encode_column_def collect_int)
  next
    case (2 xs)
    then have t: "list_all is_text vs" "\<not> list_all is_int vs" "\<not> list_all is_decimal vs"
      by (auto simp: list_all_iff)
    show ?thesis
    proof (cases "dictionary_build xs")
      case None
      with 2 t show ?thesis by (intro raw) (auto simp: encode_column_def collect_text)
    next
      case (Some d)
      with 2 t show ?thesis by (intro texts [of xs d]) (auto simp: encode_column_def collect_text)
    qed
  next
    case (3 xs)
    then have "list_all is_decimal vs" "\<not> list_all is_int vs" "\<not> list_all is_text vs"
      by (auto simp: list_all_iff)
    with 3 show ?thesis by (intro decimals [of xs]) (auto simp: encode_column_def collect_decimal)
  next
    case 4
    then show ?thesis by (intro raw) (auto simp: encode_column_def)
  qed
qed

lemma decode_packed_column_encode:
  "decode_packed_column (concat (map encode_packed_i128 ms)) (length ms) = Ok ms"
  using packed_i128.many_dec_at(1) [of 0 "concat (map encode_packed_i128 ms)" ms "[]" "length ms"]
  by (simp add: decode_packed_column_def list_all_iff)

lemma decode_encode_column:
  assumes "encode_column vs = Ok (tag, payload)" "list_all value_ok vs" "length vs \<le> 65535"
    "length payload < 2 ^ 32"
  shows "decode_column tag payload (length vs) = Ok vs"
proof (cases vs rule: encode_column_cases)
  case (ints xs)
  have "delta_z_decode (delta_z_encode xs) = Ok xs"
    using assms(3) ints(1) by (intro delta_z_decode_encode) (simp add: usize_max_def)
  with ints assms(1) show ?thesis by (auto simp: decode_column_def)
next
  case (texts xs d)
  have len: "length xs \<le> 65535" using assms(3) texts by simp
  note d = dictionary_build_bounds [OF texts(2) len]
  have "list_all utf8_valid (dc_symbols d)"
    using assms(2) texts(1) d(2) by (auto simp: list_all_iff)
  then have "deserialize_dict payload = Ok d"
    using deserialize_serialize [of d] d len assms(1,4) texts(3) by simp
  with texts assms(1) d(4) show ?thesis by (auto simp: decode_column_def col_enc_defs)
next
  case (decimals ms)
  with assms(1) decode_packed_column_encode [of ms] show ?thesis
    by (auto simp: decode_column_def col_enc_defs)
next
  case raw
  with assms decode_encode_raw [of vs] show ?thesis
    by (auto simp: decode_column_def col_enc_defs)
qed

lemma encode_column_total: "\<exists>tag payload. encode_column vs = Ok (tag, payload)"
  by (cases vs rule: encode_column_cases) auto

section \<open>Decoding never panics\<close>

lemma safe_from_0: "safe_reader rd \<Longrightarrow> rd buf 0 \<noteq> Panic"
  by (simp add: safe_reader.no_panic)

lemma decode_raw_column_no_panic: "decode_raw_column payload \<noteq> Panic"
proof -
  have "safe_reader (\<lambda>payload pos. and_then (col_read_u32 payload pos) (\<lambda>(count, pos).
     and_then (read_many decode_raw_value (unat count) payload pos) (\<lambda>(out, pos).
       if pos \<noteq> length payload then Err (Corruption ''columnar raw: trailing bytes'') else Ok (out, pos))))"
    by (intro safe_intros raw_value.safe_reader_axioms)
  from safe_from_0 [OF this, of payload] show ?thesis
    by (auto simp: decode_raw_column_def and_then_eq_Panic split: if_splits)
qed

lemma deserialize_dict_no_panic: "deserialize_dict payload \<noteq> Panic"
proof -
  have "safe_reader (\<lambda>payload pos. and_then (col_read_u16 payload pos) (\<lambda>(symbol_count, pos).
       if unat symbol_count > MAX_DICTIONARY_SYMBOLS then Err e
       else
         and_then (read_many read_symbol (unat symbol_count) payload pos) (\<lambda>(symbols, pos).
         and_then (get_byte ''dictionary: missing bit width'' payload pos) (\<lambda>(bits, pos).
         and_then (col_read_u32 payload pos) (\<lambda>(count, pos).
         and_then (col_read_u32 payload pos) (\<lambda>(codes_len, pos).
         and_then (col_take (unat codes_len) payload pos) (\<lambda>(codes, pos). Ok ((), pos))))))))" for e
    by (intro safe_intros symbol.safe_reader_axioms)
  from safe_from_0 [OF this, of payload] show ?thesis
    by (force simp: deserialize_dict_def and_then_eq_Panic split: if_splits)
qed

lemma decode_column_no_panic: "decode_column tag payload n \<noteq> Panic"
proof -
  have "safe_reader (read_many decode_packed_i128 n)" by (intro safe_intros)
  then have "decode_packed_column payload n \<noteq> Panic"
    using safe_from_0 by (auto simp: decode_packed_column_def and_then_eq_Panic)
  then show ?thesis
    using delta_z_no_panic deserialize_dict_no_panic dictionary_decode_no_panic decode_raw_column_no_panic
    by (auto simp: decode_column_def and_then_eq_Panic)
qed

lemma read_column_safe [safe_intros]: "safe_reader (read_column msg n)"
  unfolding read_column_def [abs_def] by (intro safe_intros decode_column_no_panic)

section \<open>Round trip\<close>

definition enc_col :: "val list \<Rightarrow> bytes" where
  "enc_col vs = (case encode_column vs of Ok (tag, payload) \<Rightarrow> tag # sized payload | _ \<Rightarrow> [])"

definition col_ok :: "nat \<Rightarrow> val list \<Rightarrow> bool" where
  "col_ok n vs \<longleftrightarrow> length vs = n \<and> n \<le> 65535 \<and> list_all value_ok vs \<and>
     (\<exists>tag payload. encode_column vs = Ok (tag, payload) \<and> length payload < 2 ^ 32)"

interpretation column: codec "read_column msg n" enc_col "col_ok n" for msg n
proof (rule codec_intro)
  show "safe_reader (read_column msg n)" by (intro safe_intros)
  fix vs pre post
  assume "col_ok n vs"
  then obtain tag payload where vs: "encode_column vs = Ok (tag, payload)" "length payload < 2 ^ 32"
    "length vs = n" "n \<le> 65535" "list_all value_ok vs"
    by (auto simp: col_ok_def)
  define k where "k = (of_nat (length payload) :: u32)"
  have k: "unat k = length payload" using vs(2) by (simp add: k_def unat_of_nat)
  define buf where "buf = pre @ (tag # to_le 4 k @ payload) @ post"
  have enc: "enc_col vs = tag # to_le 4 k @ payload" by (simp add: enc_col_def vs(1) sized_def k_def)
  have d0: "drop (length pre) buf = tag # to_le 4 k @ payload @ post" "length pre \<le> length buf"
    by (simp_all add: buf_def)
  note s1 = get_byte_at(1) [OF d0, of "''columnar: truncated column tag''"] get_byte_at(2,3) [OF d0]
  note s2 = col_u32.dec_at [OF s1(2,3), simplified]
  note s3 = get_exact_at(1) [OF s2(2,3) k, of msg]
  have dec: "decode_column tag payload n = Ok vs" using decode_encode_column vs by blast
  have "read_column msg n buf (length pre) = Ok (vs, length pre + length (enc_col vs))"
    using s1(1) s2(1) s3 by (simp add: read_column_def dec k enc ac_simps)
  then show "read_column msg n (pre @ enc_col vs @ post) (length pre) = Ok (vs, length pre + length (enc_col vs))"
    by (simp add: buf_def enc)
qed

definition columns_of :: "row list \<Rightarrow> nat \<Rightarrow> val list list" where
  "columns_of rows arity = map (\<lambda>c. map (\<lambda>r. r ! c) rows) [0..<arity]"

lemma column_blocks:
  assumes "collect_results (column_block rows) [0..<arity] = Ok blocks" "\<forall>r \<in> set rows. length r = arity"
    "list_all (list_all value_ok) rows" "length rows \<le> 65535"
  shows "concat blocks = concat (map enc_col (columns_of rows arity)) \<and>
    list_all (col_ok (length rows)) (columns_of rows arity)"
proof -
  have col: "collect_results (\<lambda>r. elem_at r c) rows = Ok (map (\<lambda>r. r ! c) rows)" if "c < arity" for c
    using that assms(2) by (intro collect_results_map) simp
  have "b = enc_col (map (\<lambda>r. r ! c) rows) \<and> col_ok (length rows) (map (\<lambda>r. r ! c) rows)"
    if "c < arity" "column_block rows c = Ok b" for c b
  proof -
    obtain tag payload where e: "encode_column (map (\<lambda>r. r ! c) rows) = Ok (tag, payload)"
      using encode_column_total by blast
    have "list_all value_ok (map (\<lambda>r. r ! c) rows)"
      using assms(2,3) that(1) by (auto simp: list_all_iff)
    with that(2) assms(4) show ?thesis
      by (auto simp: column_block_def col [OF that(1)] e enc_col_def col_ok_def split: if_splits)
  qed
  then have "list_all2 (\<lambda>c b. b = enc_col (map (\<lambda>r. r ! c) rows) \<and> col_ok (length rows) (map (\<lambda>r. r ! c) rows))
      [0..<arity] blocks"
    using assms(1) by (auto simp: collect_results_Ok elim!: list.rel_mono_strong)
  moreover have "concat bs = concat (map enc_col (map (\<lambda>c. map (\<lambda>r. r ! c) rows) cs)) \<and>
      list_all (col_ok (length rows)) (map (\<lambda>c. map (\<lambda>r. r ! c) rows) cs)"
    if "list_all2 (\<lambda>c b. b = enc_col (map (\<lambda>r. r ! c) rows) \<and> col_ok (length rows) (map (\<lambda>r. r ! c) rows)) cs bs"
    for cs bs
    using that by (induction rule: list_all2_induct) auto
  ultimately show ?thesis by (auto simp: columns_of_def)
qed

lemma push_columns_transpose:
  assumes "\<forall>c \<in> set cs. length c = length rows"
  shows "push_columns rows cs = Ok (map (\<lambda>i. rows ! i @ map (\<lambda>c. c ! i) cs) [0..<length rows])"
  using assms
proof (induction cs arbitrary: rows)
  case Nil
  then show ?case by (simp add: map_nth)
next
  case (Cons c cs)
  let ?rows = "map (\<lambda>(r, v). r @ [v]) (zip rows c)"
  have "push_columns ?rows cs = Ok (map (\<lambda>i. ?rows ! i @ map (\<lambda>c. c ! i) cs) [0..<length ?rows])"
    using Cons by simp
  with Cons.prems show ?case by (simp add: push_column_def)
qed

lemma transpose_columns:
  assumes "\<forall>r \<in> set rows. length r = arity"
  shows "push_columns (replicate (length rows) []) (columns_of rows arity) = Ok rows"
proof -
  have "map (\<lambda>i. replicate (length rows) [] ! i @ map (\<lambda>c. c ! i) (columns_of rows arity)) [0..<length rows] = rows"
    using assms by (intro nth_equalityI) (auto simp: columns_of_def intro!: nth_equalityI)
  moreover have "\<forall>c \<in> set (columns_of rows arity). length c = length rows"
    by (auto simp: columns_of_def)
  ultimately show ?thesis
    by (subst push_columns_transpose) simp_all
qed

text \<open>
  C39: A columnar page gives its rows back. Whatever rows \<^verbatim>\<open>from_rows\<close> accepts (text being valid
  UTF-8), and however the codecs of the columns are chosen, \<^verbatim>\<open>to_rows\<close> on the page, followed by any
  number of zero bytes of padding, returns the page id, the row count and the same rows in order.
\<close>

theorem columnar_roundtrip:
  assumes "columnar_from_rows pid rows = Ok bs" "list_all (list_all value_ok) rows"
  shows "columnar_to_rows (bs @ replicate n 0) =
    Ok (\<lparr>ch_page_id = pid, ch_row_count = of_nat (length rows)\<rparr>, rows)"
proof -
  let ?arity = "row_arity rows" and ?h = "\<lparr>ch_page_id = pid, ch_row_count = of_nat (length rows)\<rparr>"
  from assms(1) obtain blocks where
    arity: "\<forall>r \<in> set rows. length r = ?arity" and small: "length rows \<le> 65535" "?arity \<le> 65535"
    and blocks: "collect_results (column_block rows) [0..<?arity] = Ok blocks"
    and bs: "bs = columnar_header_encode ?h @ to_le 2 (of_nat ?arity :: u16) @ concat blocks"
    by (auto simp: columnar_from_rows_def Let_def and_then_eq_Ok list_ex_iff split: if_splits)
  let ?cols = "columns_of rows ?arity"
  note cb = column_blocks [OF blocks arity assms(2) small(1)]
  define a where "a = (of_nat ?arity :: u16)"
  define buf where "buf = bs @ replicate n 0"
  have a: "unat a = length ?cols" using small(2) by (simp add: a_def unat_of_nat columns_of_def)
  have rc: "unat (ch_row_count ?h) = length rows" using small(1) by (simp add: unat_of_nat)
  have hdr: "columnar_header_decode buf = Ok ?h" by (simp add: buf_def bs)
  have b23: "elem_get buf 23 = Some 0"
    by (simp add: buf_def bs elem_get_def layout nth_append)
  have d0: "drop PAGE_HEADER_SIZE buf = to_le 2 a @ concat (map enc_col ?cols) @ replicate n 0"
    "PAGE_HEADER_SIZE \<le> length buf"
    using cb by (simp_all add: buf_def bs a_def)
  note s1 = col_u16.dec_at [OF d0 TrueI]
  let ?p = "PAGE_HEADER_SIZE + length (to_le 2 a)"
  let ?q = "?p + length (concat (map enc_col ?cols))"
  have s2: "read_many (read_column msg (length rows)) (unat a) buf ?p = Ok (?cols, ?q)"
    "drop ?q buf = replicate n 0" "?q \<le> length buf" for msg
    using column.many_dec_at [OF s1(2,3) cb [THEN conjunct2] a] by blast+
  have s3: "slice_at buf ?q (length buf) = Ok (replicate n 0)"
    unfolding slice_at_end [OF s2(3)] s2(2) ..
  have s4: "push_columns (replicate (length rows) []) ?cols = Ok rows"
    using transpose_columns arity by blast
  show ?thesis
    unfolding buf_def [symmetric] columnar_to_rows_def hdr s1(1) and_then.simps b23 Let_def prod.case rc s2(1) s3
    by (simp add: s4 list_ex_iff)
qed

theorem columnar_roundtrip_witness:
  "\<exists>bs. columnar_from_rows 9 [[VInt 5, VText [97]], [VInt 7, VNull]] = Ok bs \<and>
    columnar_to_rows (bs @ replicate 3 0) =
      Ok (\<lparr>ch_page_id = 9, ch_row_count = 2\<rparr>, [[VInt 5, VText [97]], [VInt 7, VNull]])"
proof -
  let ?rows = "[[VInt 5, VText [97]], [VInt 7, VNull]]"
  have "is_ok (columnar_from_rows 9 ?rows)"
    by (simp add: columnar_from_rows_def row_arity_def upt_rec column_block_def encode_column_def
        encode_raw_column_def sized_def delta_z_encode_def write_uvarint_def leb128_write.simps
        zigzag_encode_def Let_def)
  then obtain bs where "columnar_from_rows 9 ?rows = Ok bs"
    by (cases "columnar_from_rows 9 ?rows") auto
  then show ?thesis using columnar_roundtrip [of 9 ?rows bs 3] by simp
qed

lemma decode_column_length: "decode_column tag payload n = Ok vs \<Longrightarrow> length vs = n"
  by (auto simp: decode_column_def and_then_eq_Ok split: if_splits)

lemma read_columns_length:
  "read_many (read_column msg n) k buf pos = Ok (cols, pos') \<Longrightarrow> \<forall>c \<in> set cols. length c = n"
proof (induction k arbitrary: pos cols)
  case (Suc k)
  from Suc.prems obtain c p cs where c: "read_column msg n buf pos = Ok (c, p)"
    and cs: "read_many (read_column msg n) k buf p = Ok (cs, pos')" "cols = c # cs"
    by (auto simp: and_then_eq_Ok)
  from c have "length c = n"
    by (auto simp: read_column_def and_then_eq_Ok dest: decode_column_length)
  with Suc.IH [OF cs(1)] cs(2) show ?case by auto
qed simp

lemma push_columns_no_panic:
  "\<forall>c \<in> set cs. length c = n \<Longrightarrow> push_columns (replicate n []) cs \<noteq> Panic"
  using push_columns_transpose [of cs "replicate n []"] by simp

text \<open>
  Decoding a columnar page from untrusted bytes never panics: \<^verbatim>\<open>to_rows\<close> returns rows or an error
  for every byte string.
\<close>

theorem columnar_decode_total: "columnar_to_rows bs \<noteq> Panic"
proof (cases "columnar_header_decode bs")
  case (Ok h)
  then have len: "PAGE_HEADER_SIZE \<le> length bs"
    by (auto simp: columnar_header_decode_cases split: if_splits)
  let ?n = "unat (ch_row_count h)" and ?rd = "read_column ''columnar: truncated column payload''"
  have cols: "safe_reader (read_many (?rd ?n) k)" for k
    by (intro safe_intros)
  show ?thesis
  proof (cases "col_read_u16 bs PAGE_HEADER_SIZE")
    case (Ok ap)
    then obtain a p where a: "col_read_u16 bs PAGE_HEADER_SIZE = Ok (a, p)" by (cases ap) auto
    then have p: "p \<le> length bs" using col_u16.in_bounds [OF len] by blast
    show ?thesis
    proof (cases "read_many (?rd ?n) (unat a) bs p")
      case (Ok cq)
      then obtain cs q where c: "read_many (?rd ?n) (unat a) bs p = Ok (cs, q)" by (cases cq) auto
      then have "q \<le> length bs" using safe_reader.in_bounds [OF cols p] by blast
      moreover have "push_columns (replicate ?n []) cs \<noteq> Panic"
        using push_columns_no_panic [OF read_columns_length [OF c]] .
      ultimately show ?thesis
        using a c \<open>columnar_header_decode bs = Ok h\<close>
        by (simp add: columnar_to_rows_def and_then_eq_Panic slice_at_end)
    qed (use a \<open>columnar_header_decode bs = Ok h\<close> safe_reader.no_panic [OF cols p] in
        \<open>auto simp: columnar_to_rows_def\<close>)
  qed (use \<open>columnar_header_decode bs = Ok h\<close> col_u16.no_panic [OF len] in
      \<open>auto simp: columnar_to_rows_def\<close>)
qed (auto simp: columnar_to_rows_def)

end
