(* ===== verification/Cold_Page.thy ===== *)
theory Cold_Page
  imports Row_Page Columnar_Page
begin

text \<open>
  The maintenance page of \<^verbatim>\<open>src/storage/page.rs\<close> (\<^verbatim>\<open>ColdPage\<close>): a row page transposed in place inside
  its table's chain. Slots keep their numbers and the MVCC envelopes stay a fixed-width block, so a
  version can still be tombstoned. The abstract view is the chain link, the size of the source page
  and the list of (envelope, row) records. Every reader is shown to return that view whatever the
  four checksum bytes of the header hold.
\<close>

type_synonym versioned_row = "record_envelope \<times> row"

section \<open>Encoding\<close>

definition cold_header :: "page_id \<Rightarrow> page_id option \<Rightarrow> u32 \<Rightarrow> u16 \<Rightarrow> bytes" where
  "cold_header page_id next original_used_bytes row_count =
     (let header = columnar_header_encode \<lparr>ch_page_id = page_id, ch_row_count = row_count\<rparr>;
          header = overwrite header 11 (to_le 8 (case next of Some p \<Rightarrow> p | None \<Rightarrow> NO_PAGE));
          header = overwrite header 19 (to_le 4 original_used_bytes);
          header = header[23 := COLD_LAYOUT_VERSION]
      in header)"

definition cold_validate :: "bytes \<Rightarrow> columnar_page_header result" where
  "cold_validate bs =
     and_then (columnar_header_decode bs) (\<lambda>header.
       if elem_get bs 23 \<noteq> Some COLD_LAYOUT_VERSION then
         Err (Corruption ''columnar: unsupported maintenance-page layout'')
       else
         and_then (slice_at bs 19 23) (\<lambda>raw.
         let original = unat (from_le raw :: u32) in
         if \<not> (PAGE_HEADER_SIZE \<le> original \<and> original \<le> PAGE_SIZE) then
           Err (Corruption ''columnar: original page size is out of bounds'')
         else
           and_then (ok_or (slice_get bs PAGE_HEADER_SIZE (PAGE_HEADER_SIZE + 2))
               (Corruption ''columnar: missing row arity'')) (\<lambda>raw.
           let arity = unat (from_le raw :: u16) in
           if ch_row_count header = 0 \<and> arity \<noteq> 0 then
             Err (Corruption ''columnar: empty cold page has nonzero row arity'')
           else
             and_then (ok_or
                 (Option.bind (checked_add SLOT_SIZE ENVELOPE_LEN) (\<lambda>size.
                  Option.bind (checked_add size 2) (\<lambda>size. checked_add size arity)))
                 (Corruption ''columnar: source row size overflowed'')) (\<lambda>per_row.
             and_then (ok_or
                 (Option.bind (checked_mul (unat (ch_row_count header)) per_row) (\<lambda>size.
                    checked_add size PAGE_HEADER_SIZE))
                 (Corruption ''columnar: source page size overflowed'')) (\<lambda>minimum_original.
               if minimum_original > original then
                 Err (Corruption ''columnar: row shape cannot fit the recorded source page'')
               else Ok header)))))"

definition cold_from_records ::
  "page_id \<Rightarrow> page_id option \<Rightarrow> u32 \<Rightarrow> versioned_row list \<Rightarrow> (bytes \<times> nat) result" where
  "cold_from_records page_id next original_used_bytes records =
     (let rows = map snd records; arity = row_arity rows in
      if list_ex (\<lambda>r. length r \<noteq> arity) rows then
        Err (Schema ''cold-page transposition requires uniform row arity'')
      else if length records > 65535 then Err (Schema ''too many rows for one cold page'')
      else if arity > 65535 then Err (Schema ''too many columns for one cold page'')
      else if unat original_used_bytes > PAGE_SIZE then
        Err (Schema ''cold-page source size exceeds one physical page'')
      else
        and_then (collect_results (column_block rows) [0..<arity]) (\<lambda>blocks.
          let encoded =
            cold_header page_id next original_used_bytes (of_nat (length records)) @
            to_le 2 (of_nat arity :: u16) @ concat (map (envelope_encode \<circ> fst) records) @ concat blocks
          in and_then (pad_to_page encoded) (\<lambda>page.
             and_then (cold_validate page) (\<lambda>_. Ok (page, length encoded)))))"

section \<open>Reading\<close>

definition read_envelope :: "record_envelope reader" where
  "read_envelope buf pos =
     and_then (col_take ENVELOPE_LEN buf pos) (\<lambda>(raw, pos).
     and_then (envelope_decode raw) (\<lambda>e. Ok (e, pos)))"

definition cold_decode :: "bytes \<Rightarrow> (record_envelope list \<times> row list \<times> nat) result" where
  "cold_decode bs =
     and_then (cold_validate bs) (\<lambda>header.
     let row_count = unat (ch_row_count header) in
     and_then (col_read_u16 bs PAGE_HEADER_SIZE) (\<lambda>(arity, pos).
     and_then (read_many read_envelope row_count bs pos) (\<lambda>(envelopes, pos).
     and_then (read_many (read_column ''columnar: unexpected end of buffer'' row_count) (unat arity) bs pos)
       (\<lambda>(columns, pos).
     and_then (push_columns (replicate row_count []) columns) (\<lambda>rows.
       Ok (envelopes, rows, pos))))))"

definition cold_next_page :: "bytes \<Rightarrow> page_id option result" where
  "cold_next_page bs =
     and_then (cold_validate bs) (\<lambda>_.
     and_then (slice_at bs 11 19) (\<lambda>raw.
       let next = from_le raw in Ok (if next \<noteq> NO_PAGE then Some next else None)))"

definition cold_original_used_bytes :: "bytes \<Rightarrow> u32 result" where
  "cold_original_used_bytes bs =
     and_then (cold_validate bs) (\<lambda>_. and_then (slice_at bs 19 23) (\<lambda>raw. Ok (from_le raw)))"

definition cold_encoded_len :: "bytes \<Rightarrow> nat result" where
  "cold_encoded_len bs = and_then (cold_decode bs) (\<lambda>(_, _, end_pos). Ok end_pos)"

definition cold_records :: "bytes \<Rightarrow> versioned_row list result" where
  "cold_records bs = and_then (cold_decode bs) (\<lambda>(envelopes, rows, _). Ok (zip envelopes rows))"

definition cold_record :: "bytes \<Rightarrow> u16 \<Rightarrow> versioned_row result" where
  "cold_record bs slot =
     and_then (cold_records bs) (\<lambda>records.
     and_then (columnar_header_decode bs) (\<lambda>header.
       ok_or (elem_get records (unat slot)) (OutOfBounds (unat slot) (unat (ch_row_count header)))))"

definition cold_envelopes :: "bytes \<Rightarrow> (record_envelope list \<times> page_id option) result" where
  "cold_envelopes bs =
     and_then (cold_validate bs) (\<lambda>header.
     and_then (col_read_u16 bs PAGE_HEADER_SIZE) (\<lambda>(_, pos).
     and_then (read_many read_envelope (unat (ch_row_count header)) bs pos) (\<lambda>(envelopes, _).
     and_then (cold_next_page bs) (\<lambda>next. Ok (envelopes, next)))))"

definition cold_patch_envelope_deleted :: "u16 \<Rightarrow> u64 \<Rightarrow> bytes \<Rightarrow> bytes result" where
  "cold_patch_envelope_deleted slot deleted bs =
     and_then (cold_validate bs) (\<lambda>header.
       if slot \<ge> ch_row_count header then Err (OutOfBounds (unat slot) (unat (ch_row_count header)))
       else copy_into bs (PAGE_HEADER_SIZE + 2 + unat slot * ENVELOPE_LEN + 8) (to_le 8 deleted))"

section \<open>The abstract page\<close>

definition cold_shape_ok :: "u32 \<Rightarrow> versioned_row list \<Rightarrow> nat \<Rightarrow> bool" where
  "cold_shape_ok used recs arity \<longleftrightarrow>
     (\<forall>r \<in> set recs. length (snd r) = arity) \<and> arity \<le> 65535 \<and> length recs \<le> 65535 \<and>
     (recs = [] \<longrightarrow> arity = 0) \<and>
     PAGE_HEADER_SIZE + length recs * (SLOT_SIZE + ENVELOPE_LEN + 2 + arity) \<le> unat used \<and> unat used \<le> PAGE_SIZE"

definition cold_rep :: "bytes \<Rightarrow> page_id option \<Rightarrow> u32 \<Rightarrow> versioned_row list \<Rightarrow> nat \<Rightarrow> bool" where
  "cold_rep page next used recs len \<longleftrightarrow>
     (\<exists>pid ck arity pad.
        page = take 24 (cold_header pid next used (of_nat (length recs))) @ ck @
          to_le 2 (of_nat arity :: u16) @ concat (map (envelope_encode \<circ> fst) recs) @
          concat (map enc_col (columns_of (map snd recs) arity)) @ replicate pad 0 \<and>
        length ck = 4 \<and> length page = PAGE_SIZE \<and> len = PAGE_SIZE - pad \<and> pad \<le> PAGE_SIZE \<and>
        list_all (col_ok (length recs)) (columns_of (map snd recs) arity) \<and>
        cold_shape_ok used recs arity \<and> next \<noteq> Some NO_PAGE)"

lemma cold_header_layout [layout]:
  "cold_header pid next used n =
     (to_le 8 pid @ [2] @ to_le 2 n @ to_le 8 (case next of Some p \<Rightarrow> p | None \<Rightarrow> NO_PAGE) @ to_le 4 used @ [1]) @
     replicate 4 0"
  by (simp add: cold_header_def Let_def layout overwrite_def COLD_LAYOUT_VERSION_def list_update_append
      eval_nat_numeral)

lemma length_cold_header [simp]: "length (cold_header pid next used n) = 28"
  unfolding cold_header_layout by simp

lemma cold_header_split: "cold_header pid next used n = take 24 (cold_header pid next used n) @ replicate 4 0"
  unfolding cold_header_layout by simp

lemma cold_header_views:
  assumes "page = take 24 (cold_header pid next used n) @ ck @ rest" "length ck = 4"
  shows "columnar_header_decode page = Ok \<lparr>ch_page_id = pid, ch_row_count = n\<rparr>"
    "elem_get page 23 = Some COLD_LAYOUT_VERSION" "slice_at page 19 23 = Ok (to_le 4 used)"
    "slice_at page 11 19 = Ok (to_le 8 (case next of Some p \<Rightarrow> p | None \<Rightarrow> NO_PAGE))"
    "drop 28 page = rest" "28 \<le> length page"
  using assms
  by (auto simp: layout columnar_header_decode_cases size_defs elem_get_def nth_append slice_at_def slice_get_def
      COLD_LAYOUT_VERSION_def)

interpretation envelope: codec read_envelope envelope_encode "\<lambda>_. True"
proof (rule codec_intro)
  show "safe_reader read_envelope"
    unfolding read_envelope_def [abs_def] by (intro safe_intros envelope_decode_not_Panic)
  fix e pre post
  show "read_envelope (pre @ envelope_encode e @ post) (length pre) = Ok (e, length pre + length (envelope_encode e))"
    using get_exact_at(1) [of "length pre" "pre @ envelope_encode e @ post" "envelope_encode e" post ENVELOPE_LEN]
      envelope_decode_encode [of e "[]"]
    by (simp add: read_envelope_def col_take_def del: envelope_decode_encode)
qed

lemma cold_shape_arith:
  assumes "cold_shape_ok used recs arity"
  shows "Option.bind (checked_add SLOT_SIZE ENVELOPE_LEN) (\<lambda>size.
      Option.bind (checked_add size 2) (\<lambda>size. checked_add size arity)) = Some (30 + arity)"
    "Option.bind (checked_mul (length recs) (30 + arity)) (\<lambda>size. checked_add size PAGE_HEADER_SIZE) =
      Some (length recs * (30 + arity) + PAGE_HEADER_SIZE)"
    "length recs * (30 + arity) + PAGE_HEADER_SIZE \<le> unat used"
  using assms by (auto simp: cold_shape_ok_def checked_add_def checked_mul_def size_defs SLOT_SIZE_def usize_max_def)

lemma cold_repE:
  assumes "cold_rep page next used recs len"
  obtains arity pad h where "cold_validate page = Ok h" "unat (ch_row_count h) = length recs"
    "columnar_header_decode page = Ok h" "ch_row_count h = of_nat (length recs)"
    "slice_at page 19 23 = Ok (to_le 4 used)"
    "slice_at page 11 19 = Ok (to_le 8 (case next of Some p \<Rightarrow> p | None \<Rightarrow> NO_PAGE))"
    "drop 28 page = to_le 2 (of_nat arity :: u16) @ concat (map envelope_encode (map fst recs)) @
      concat (map enc_col (columns_of (map snd recs) arity)) @ replicate pad 0"
    "28 \<le> length page" "length page = PAGE_SIZE" "len = PAGE_SIZE - pad" "pad \<le> PAGE_SIZE"
    "list_all (col_ok (length recs)) (columns_of (map snd recs) arity)" "cold_shape_ok used recs arity"
    "next \<noteq> Some NO_PAGE"
proof -
  from assms obtain pid ck arity pad where
    page: "page = take 24 (cold_header pid next used (of_nat (length recs))) @ ck @
      to_le 2 (of_nat arity :: u16) @ concat (map (envelope_encode \<circ> fst) recs) @
      concat (map enc_col (columns_of (map snd recs) arity)) @ replicate pad 0"
    and rest: "length ck = 4" "length page = PAGE_SIZE" "len = PAGE_SIZE - pad" "pad \<le> PAGE_SIZE"
      "list_all (col_ok (length recs)) (columns_of (map snd recs) arity)" "cold_shape_ok used recs arity"
      "next \<noteq> Some NO_PAGE"
    unfolding cold_rep_def by blast
  note v = cold_header_views [OF page rest(1)]
  let ?h = "\<lparr>ch_page_id = pid, ch_row_count = of_nat (length recs) :: u16\<rparr>"
  have sh: "length recs \<le> 65535" "arity \<le> 65535" "recs = [] \<Longrightarrow> arity = 0"
    "28 \<le> unat used" "unat used \<le> 4096"
    using rest(6) by (auto simp: cold_shape_ok_def size_defs)
  have n: "unat (ch_row_count ?h) = length recs" using sh by (simp add: unat_of_nat)
  have n0: "ch_row_count ?h = 0 \<Longrightarrow> recs = []" using n by auto
  have a: "unat (of_nat arity :: u16) = arity" using sh by (simp add: unat_of_nat)
  have raw: "slice_get page 28 30 = Some (to_le 2 (of_nat arity :: u16))"
    using v(5,6) rest(2) by (simp add: slice_get_def size_defs)
  have "cold_validate page = Ok ?h"
    unfolding cold_validate_def v(1) and_then.simps v(2,3)
    using sh n0 cold_shape_arith [OF rest(6)] n
    by (auto simp: size_defs raw a Let_def)
  with v n rest show thesis
    by (intro that [of ?h arity pad]) (simp_all add: comp_def)
qed

lemma cold_decode_rep:
  assumes "cold_rep page next used recs len"
  shows "cold_decode page = Ok (map fst recs, map snd recs, len)"
  using assms
proof (rule cold_repE)
  fix arity pad h
  assume h: "cold_validate page = Ok h" "unat (ch_row_count h) = length recs"
    and d0: "drop 28 page = to_le 2 (of_nat arity :: u16) @ concat (map envelope_encode (map fst recs)) @
      concat (map enc_col (columns_of (map snd recs) arity)) @ replicate pad 0" "28 \<le> length page"
    and len: "length page = PAGE_SIZE" "len = PAGE_SIZE - pad" "pad \<le> PAGE_SIZE"
    and cols: "list_all (col_ok (length recs)) (columns_of (map snd recs) arity)"
    and sh: "cold_shape_ok used recs arity"
  let ?cols = "columns_of (map snd recs) arity" and ?a = "of_nat arity :: u16"
  have a: "unat ?a = length ?cols"
    using sh by (simp add: cold_shape_ok_def unat_of_nat columns_of_def)
  note s1 = col_u16.dec_at [OF d0 TrueI]
  have s2: "read_many read_envelope (length recs) page (28 + length (to_le 2 ?a)) =
      Ok (map fst recs, 28 + length (to_le 2 ?a) + length (concat (map envelope_encode (map fst recs))))"
    using envelope.many_dec_at(1) [OF s1(2,3), of "length recs"] by (simp add: list_all_iff)
  let ?p = "28 + length (to_le 2 ?a) + length (concat (map envelope_encode (map fst recs)))"
  let ?q = "?p + length (concat (map enc_col ?cols))"
  have d2: "drop ?p page = concat (map enc_col ?cols) @ replicate pad 0" "?p \<le> length page"
    using envelope.many_dec_at(2,3) [OF s1(2,3), of "length recs"] by (simp_all add: list_all_iff)
  have s3: "read_many (read_column msg (length recs)) (unat ?a) page ?p = Ok (?cols, ?q)"
    "drop ?q page = replicate pad 0" "?q \<le> length page" for msg
    using column.many_dec_at [OF d2 cols a] by blast+
  have "length page - ?q = pad" using arg_cong [OF s3(2), of length] by (simp only: length_drop length_replicate)
  then have q: "?q = len" using s3(3) len by linarith
  have s4: "push_columns (replicate (length recs) []) ?cols = Ok (map snd recs)"
    using transpose_columns [of "map snd recs" arity] sh by (auto simp: cold_shape_ok_def)
  show ?thesis
    unfolding cold_decode_def h(1) and_then.simps Let_def h(2) size_defs s1(1) prod.case s2 s3(1) s4 q ..
qed

lemma pad_to_page_Ok: "pad_to_page bs = Ok page \<longleftrightarrow> length bs \<le> PAGE_SIZE \<and> page = bs @ replicate (PAGE_SIZE - length bs) 0"
  by (auto simp: pad_to_page_def overwrite_def)

lemma cold_validate_used:
  assumes "cold_validate page = Ok h" "slice_at page 19 23 = Ok (to_le 4 (used :: u32))"
    "slice_get page 28 30 = Some (to_le 2 (a :: u16))"
  shows "unat used \<le> PAGE_SIZE" "ch_row_count h = 0 \<Longrightarrow> a = 0"
    "PAGE_HEADER_SIZE + unat (ch_row_count h) * (SLOT_SIZE + ENVELOPE_LEN + 2 + unat a) \<le> unat used"
  using assms
  by (auto simp: cold_validate_def and_then_eq_Ok Let_def size_defs checked_add_def checked_mul_def SLOT_SIZE_def
      unat_eq_zero split: if_splits)

lemma cold_from_records_rep:
  assumes enc: "cold_from_records pid next used recs = Ok (page, len)"
    and ok: "list_all (list_all value_ok) (map snd recs)" and link: "next \<noteq> Some NO_PAGE"
    and ck: "length ck = 4"
  shows "cold_rep (overwrite page 24 ck) next used recs len"
proof -
  let ?rows = "map snd recs" and ?n = "of_nat (length recs) :: u16"
  let ?arity = "row_arity ?rows"
  let ?H = "take 24 (cold_header pid next used ?n)"
  let ?T = "\<lambda>blocks. to_le 2 (of_nat ?arity :: u16) @ concat (map (envelope_encode \<circ> fst) recs) @ concat blocks"
  from enc obtain blocks h where
    arity: "\<forall>r \<in> set ?rows. length r = ?arity" and small: "length recs \<le> 65535" "?arity \<le> 65535"
    and blocks: "collect_results (column_block ?rows) [0..<?arity] = Ok blocks"
    and len: "len = length (cold_header pid next used ?n @ ?T blocks)" "len \<le> PAGE_SIZE"
    and page: "page = (cold_header pid next used ?n @ ?T blocks) @ replicate (PAGE_SIZE - len) 0"
    and val: "cold_validate page = Ok h"
    by (auto simp: cold_from_records_def Let_def and_then_eq_Ok pad_to_page_Ok list_ex_iff split: if_splits)
  have H: "cold_header pid next used ?n = ?H @ replicate 4 0" "length ?H = 24"
    by (rule cold_header_split) simp
  have page': "page = ?H @ replicate 4 0 @ ?T blocks @ replicate (PAGE_SIZE - len) 0"
    unfolding page by (subst H(1)) (simp only: append_assoc)
  note v = cold_header_views [OF page' length_replicate]
  have pl: "length page = PAGE_SIZE" using page len by simp
  have a: "unat (of_nat ?arity :: u16) = ?arity" "unat ?n = length recs"
    using small by (simp_all add: unat_of_nat)
  have raw: "slice_get page 28 30 = Some (to_le 2 (of_nat ?arity :: u16))"
    using v(5) pl by (simp add: slice_get_def size_defs)
  have h: "ch_row_count h = ?n" using val v(1) by (auto simp: cold_validate_def and_then_eq_Ok Let_def split: if_splits)
  note used = cold_validate_used [OF val v(3) raw]
  have shape: "cold_shape_ok used recs ?arity"
    using used a small arity by (auto simp: cold_shape_ok_def h row_arity_def)
  have cb: "concat blocks = concat (map enc_col (columns_of ?rows ?arity))"
    "list_all (col_ok (length recs)) (columns_of ?rows ?arity)"
    using column_blocks [OF blocks arity ok] small by simp_all
  have "overwrite page 24 ck = ?H @ ck @ ?T blocks @ replicate (PAGE_SIZE - len) 0"
    unfolding page' by (rule overwrite_mid) (simp_all add: ck H(2))
  with cb shape link ck len pl H(2) show ?thesis
    unfolding cold_rep_def
    by (intro exI [of _ pid] exI [of _ ck] exI [of _ ?arity] exI [of _ "PAGE_SIZE - len"]) (simp add: size_defs)
qed

text \<open>
  C26: Freezing a row page loses nothing. When \<^verbatim>\<open>ColdPage::from_records\<close> accepts a list of versioned
  rows (text being valid UTF-8), the page is a full page from which \<^verbatim>\<open>records\<close> returns that list, slot
  by slot, and the chain link, the source size and the encoded length are the ones given; all this
  whatever checksum is later stamped into header bytes 24 to 27.
\<close>

theorem cold_page_roundtrip:
  assumes "cold_from_records pid next used recs = Ok (page, len)"
    "list_all (list_all value_ok) (map snd recs)" "next \<noteq> Some NO_PAGE" "length ck = 4"
  defines "stamped \<equiv> overwrite page PAGE_CHECKSUM_OFFSET ck"
  shows "length stamped = PAGE_SIZE \<and> cold_records stamped = Ok recs \<and> cold_next_page stamped = Ok next \<and>
    cold_original_used_bytes stamped = Ok used \<and> cold_encoded_len stamped = Ok len \<and>
    cold_envelopes stamped = Ok (map fst recs, next) \<and>
    (\<forall>slot. cold_record stamped slot =
      (if unat slot < length recs then Ok (recs ! unat slot) else Err (OutOfBounds (unat slot) (length recs))))"
proof -
  have rep: "cold_rep stamped next used recs len"
    using cold_from_records_rep [OF assms(1-4)] by (simp add: stamped_def size_defs)
  note dec = cold_decode_rep [OF rep]
  have recs: "cold_records stamped = Ok recs" by (simp add: cold_records_def dec zip_map_fst_snd)
  show ?thesis
    using rep
  proof (rule cold_repE)
    fix arity pad h
    assume h: "cold_validate stamped = Ok h" "unat (ch_row_count h) = length recs"
      "columnar_header_decode stamped = Ok h"
      and v: "slice_at stamped 19 23 = Ok (to_le 4 used)"
      "slice_at stamped 11 19 = Ok (to_le 8 (case next of Some p \<Rightarrow> p | None \<Rightarrow> NO_PAGE))"
      and d0: "drop 28 stamped = to_le 2 (of_nat arity :: u16) @ concat (map envelope_encode (map fst recs)) @
        concat (map enc_col (columns_of (map snd recs) arity)) @ replicate pad 0" "28 \<le> length stamped"
      and len: "length stamped = PAGE_SIZE" and nn: "next \<noteq> Some NO_PAGE"
    note s1 = col_u16.dec_at [OF d0 TrueI]
    note s2 = envelope.many_dec_at(1) [OF s1(2,3), of "length recs"]
    have link: "cold_next_page stamped = Ok next"
      using nn by (cases "next") (auto simp: cold_next_page_def h(1) v(2) Let_def simp del: slice_at_in slice_at_Ok)
    have "cold_envelopes stamped = Ok (map fst recs, next)"
      using s2 link unfolding cold_envelopes_def h(1) size_defs and_then.simps s1(1) prod.case h(2)
      by (simp add: list_all_iff)
    moreover have "cold_original_used_bytes stamped = Ok used"
      by (simp add: cold_original_used_bytes_def h(1) v(1) del: slice_at_in slice_at_Ok)
    moreover have "cold_encoded_len stamped = Ok len" by (simp add: cold_encoded_len_def dec)
    ultimately show ?thesis
      using recs link len h by (auto simp: cold_record_def elem_get_def)
  qed
qed

definition sample_recs :: "versioned_row list" where
  "sample_recs = [(envelope_new 3 0, [VInt 5]), (envelope_new 4 0, [VInt 7])]"

lemma sample_cold_page:
  "\<exists>page len. cold_from_records 9 (Some 2) 200 sample_recs = Ok (page, len)"
proof -
  let ?rows = "map snd sample_recs" and ?n = "of_nat (length sample_recs) :: u16"
  obtain blocks where b: "collect_results (column_block ?rows) [0..<1] = Ok blocks" "length (concat blocks) < 100"
    by (simp add: sample_recs_def column_block_def encode_column_def sized_def delta_z_encode_def
        write_uvarint_def leb128_write.simps zigzag_encode_def Let_def)
  define rest where "rest = to_le 2 (1 :: u16) @ concat (map (envelope_encode \<circ> fst) sample_recs) @ concat blocks"
  define enc where "enc = cold_header 9 (Some 2) 200 ?n @ rest"
  have len: "length enc \<le> PAGE_SIZE" using b(2) by (simp add: enc_def rest_def sample_recs_def size_defs)
  let ?page = "enc @ replicate (PAGE_SIZE - length enc) 0"
  have page: "?page = take 24 (cold_header 9 (Some 2) 200 ?n) @ replicate 4 0 @ rest @ replicate (PAGE_SIZE - length enc) 0"
    unfolding enc_def by (subst (1) cold_header_split) (simp only: append_assoc)
  note v = cold_header_views [OF page length_replicate]
  have raw: "slice_get ?page 28 30 = Some (to_le 2 (1 :: u16))"
    using v(5) len by (simp add: slice_get_def size_defs rest_def)
  have "cold_validate ?page = Ok \<lparr>ch_page_id = 9, ch_row_count = ?n\<rparr>"
    unfolding cold_validate_def v(1) and_then.simps v(2,3)
    by (simp add: raw [unfolded size_defs] size_defs Let_def checked_add_def checked_mul_def usize_max_def SLOT_SIZE_def sample_recs_def)
  then show ?thesis
    using b len pad_to_page_Ok [of enc ?page]
    by (simp add: cold_from_records_def row_arity_def sample_recs_def enc_def rest_def Let_def size_defs comp_def)
qed

theorem cold_page_roundtrip_witness:
  "\<exists>page len. cold_from_records 9 (Some 2) 200 sample_recs = Ok (page, len) \<and>
    cold_records (overwrite page PAGE_CHECKSUM_OFFSET [1, 2, 3, 4]) = Ok sample_recs"
proof -
  obtain page len where p: "cold_from_records 9 (Some 2) 200 sample_recs = Ok (page, len)"
    using sample_cold_page by blast
  have "list_all (list_all value_ok) (map snd sample_recs)" by (simp add: sample_recs_def)
  from cold_page_roundtrip [OF p this, of "[1, 2, 3, 4]"] p show ?thesis by (auto simp: NO_PAGE_def)
qed

lemma cold_shape_rows:
  assumes "map snd recs' = map snd recs"
  shows "cold_shape_ok used recs' arity \<longleftrightarrow> cold_shape_ok used recs arity"
proof -
  have "length recs' = length recs" using assms by (metis length_map)
  moreover have "(\<forall>r \<in> set rs. length (snd r) = arity) \<longleftrightarrow> (\<forall>x \<in> set (map snd rs). length x = arity)"
    for rs :: "versioned_row list"
    by simp
  ultimately show ?thesis
    unfolding cold_shape_ok_def using assms by (metis length_0_conv)
qed

lemma cold_patch_rep:
  fixes tx :: u64
  assumes "cold_rep page next used recs len" "unat slot < length recs"
  defines "recs' \<equiv> recs[unat slot := (mark_deleted (fst (recs ! unat slot)) tx, snd (recs ! unat slot))]"
  shows "\<exists>page'. cold_patch_envelope_deleted slot tx page = Ok page' \<and> cold_rep page' next used recs' len"
proof -
  let ?i = "unat slot"
  obtain e row where r: "recs ! ?i = (e, row)" by (cases "recs ! ?i")
  let ?pre = "take ?i recs" and ?post = "drop (Suc ?i) recs"
  have recs: "recs = ?pre @ (e, row) # ?post" using id_take_nth_drop [OF assms(2)] r by simp
  have recs': "recs' = ?pre @ (mark_deleted e tx, row) # ?post"
    using assms(2) r by (simp add: recs'_def upd_conv_take_nth_drop)
  have snds: "map snd recs' = map snd recs"
    using list_update_id [of "map snd recs" ?i] assms(2) r by (simp add: recs'_def map_update)
  from assms(1) obtain pid ck arity pad where
    page: "page = take 24 (cold_header pid next used (of_nat (length recs))) @ ck @
      to_le 2 (of_nat arity :: u16) @ concat (map (envelope_encode \<circ> fst) recs) @
      concat (map enc_col (columns_of (map snd recs) arity)) @ replicate pad 0"
    and rest: "length ck = 4" "length page = PAGE_SIZE" "len = PAGE_SIZE - pad" "pad \<le> PAGE_SIZE"
      "list_all (col_ok (length recs)) (columns_of (map snd recs) arity)" "cold_shape_ok used recs arity"
      "next \<noteq> Some NO_PAGE"
    unfolding cold_rep_def by blast
  let ?H = "take 24 (cold_header pid next used (of_nat (length recs))) @ ck @ to_le 2 (of_nat arity :: u16)"
  let ?E = "\<lambda>rs. concat (map (envelope_encode \<circ> fst) rs)"
  let ?C = "concat (map enc_col (columns_of (map snd recs) arity)) @ replicate pad 0"
  have E: "?E recs = ?E ?pre @ (to_le 8 (tx_inserted e) @ to_le 8 (tx_deleted e) @ to_le 8 (prev_version e)) @ ?E ?post"
    by (subst (1) recs) (simp add: layout)
  have E': "?E recs' = ?E ?pre @ (to_le 8 (tx_inserted e) @ to_le 8 tx @ to_le 8 (prev_version e)) @ ?E ?post"
    by (simp add: recs' layout mark_deleted_def)
  have lE: "length (?E ?pre) = ?i * 24"
    using assms(2) by (simp add: length_concat comp_def sum_list_triv size_defs min_def)
  have "copy_into page (28 + 2 + ?i * 24 + 8) (to_le 8 tx) =
      Ok ((?H @ ?E ?pre @ to_le 8 (tx_inserted e)) @ to_le 8 tx @ to_le 8 (prev_version e) @ ?E ?post @ ?C)"
    unfolding page E
    using copy_into_mid [of "to_le 8 tx" "to_le 8 (tx_deleted e)" "28 + 2 + ?i * 24 + 8"
        "?H @ ?E ?pre @ to_le 8 (tx_inserted e)" "to_le 8 (prev_version e) @ ?E ?post @ ?C"] rest(1) lE
    by simp
  moreover have "cold_validate page = Ok h \<Longrightarrow> unat (ch_row_count h) = length recs" for h
    using assms(1) by (elim cold_repE) auto
  moreover obtain h where "cold_validate page = Ok h" using assms(1) by (elim cold_repE)
  moreover have len': "length recs' = length recs" by (simp add: recs'_def)
  ultimately have "cold_patch_envelope_deleted slot tx page = Ok (?H @ ?E recs' @ ?C)"
    using assms(2) by (simp add: cold_patch_envelope_deleted_def word_le_nat_alt size_defs E')
  moreover have "cold_rep (?H @ ?E recs' @ ?C) next used recs' len"
    unfolding cold_rep_def
  proof (intro exI conjI)
    show "length (?H @ ?E recs' @ ?C) = PAGE_SIZE"
      using rest(2) unfolding page by (simp only: length_append E E' length_to_le)
    show "cold_shape_ok used recs' arity"
      using rest(6) snds len' assms(2) cold_shape_rows [of recs' recs used arity] by blast
  qed (use rest snds in \<open>simp_all add: recs'_def\<close>)
  ultimately show ?thesis by blast
qed

text \<open>
  A frozen record can still be deleted. Tombstoning slot \<open>i\<close> of a cold page marks exactly the
  \<open>i\<close>-th envelope deleted; rows, other envelopes, chain link and sizes are unchanged. A slot past the
  last is \<^verbatim>\<open>OutOfBounds\<close>.
\<close>

theorem cold_page_tombstone:
  fixes tx :: u64
  assumes "cold_rep page next used recs len"
  shows "if unat slot < length recs
    then \<exists>page'. cold_patch_envelope_deleted slot tx page = Ok page' \<and>
      (let recs' = recs[unat slot := (mark_deleted (fst (recs ! unat slot)) tx, snd (recs ! unat slot))]
       in cold_rep page' next used recs' len \<and> cold_records page' = Ok recs')
    else cold_patch_envelope_deleted slot tx page = Err (OutOfBounds (unat slot) (length recs))"
proof (cases "unat slot < length recs")
  case True
  then show ?thesis
    using cold_patch_rep [OF assms True, of tx]
    by (fastforce simp: Let_def cold_records_def zip_map_fst_snd dest: cold_decode_rep)
next
  case False
  then show ?thesis
    using assms by (elim cold_repE) (simp add: cold_patch_envelope_deleted_def word_le_nat_alt)
qed

theorem cold_page_tombstone_witness:
  "\<exists>page len page'. cold_rep page (Some 2) 200 sample_recs len \<and>
    cold_patch_envelope_deleted 1 8 page = Ok page' \<and>
    cold_records page' = Ok [(envelope_new 3 0, [VInt 5]), (mark_deleted (envelope_new 4 0) 8, [VInt 7])]"
proof -
  obtain page len where p: "cold_from_records 9 (Some 2) 200 sample_recs = Ok (page, len)"
    using sample_cold_page by blast
  have "list_all (list_all value_ok) (map snd sample_recs)" by (simp add: sample_recs_def)
  from cold_from_records_rep [OF p this, of "[0, 0, 0, 0]"]
  have rep: "cold_rep (overwrite page 24 [0, 0, 0, 0]) (Some 2) 200 sample_recs len"
    by (simp add: NO_PAGE_def)
  with cold_page_tombstone [OF rep, of 1 8] show ?thesis
    by (auto simp: sample_recs_def Let_def)
qed

section \<open>Untrusted pages\<close>

lemma cold_validate_no_panic: "cold_validate bs \<noteq> Panic"
  by (cases "columnar_header_decode bs")
    (auto simp: cold_validate_def and_then_eq_Panic Let_def columnar_header_decode_cases size_defs
      split: if_splits)

lemma cold_validate_header:
  "cold_validate bs = Ok h \<Longrightarrow> columnar_header_decode bs = Ok h \<and> PAGE_HEADER_SIZE \<le> length bs"
  by (auto simp: cold_validate_def and_then_eq_Ok Let_def columnar_header_decode_cases split: if_splits)

lemma cold_decode_no_panic: "cold_decode bs \<noteq> Panic"
proof (cases "cold_validate bs")
  case (Ok h)
  let ?n = "unat (ch_row_count h)" and ?rd = "read_column ''columnar: unexpected end of buffer''"
  have safe: "safe_reader (\<lambda>bs pos. and_then (col_read_u16 bs pos) (\<lambda>(arity, pos).
     and_then (read_many read_envelope ?n bs pos) (\<lambda>(envelopes, pos).
       read_many (?rd ?n) (unat arity) bs pos)))"
    by (intro safe_intros envelope.safe_reader_axioms)
  have "push_columns (replicate ?n []) columns \<noteq> Panic"
    if "read_many (?rd ?n) k bs p = Ok (columns, q)" for k p q columns
    using push_columns_no_panic [OF read_columns_length [OF that]] .
  with Ok safe_reader.no_panic [OF safe, of PAGE_HEADER_SIZE bs] cold_validate_header [OF Ok] show ?thesis
    by (auto simp: cold_decode_def and_then_eq_Panic Let_def)
qed (use cold_validate_no_panic [of bs] in \<open>auto simp: cold_decode_def\<close>)

text \<open>
  A cold page from an untrusted file cannot make the page code panic: validating, decoding,
  reading one record or all envelopes, following the chain link and, on a full page, patching
  return a value or an error for every byte string.
\<close>

theorem cold_page_untrusted:
  "cold_validate bs \<noteq> Panic \<and> cold_records bs \<noteq> Panic \<and> cold_record bs slot \<noteq> Panic \<and>
    cold_next_page bs \<noteq> Panic \<and> cold_original_used_bytes bs \<noteq> Panic \<and> cold_encoded_len bs \<noteq> Panic \<and>
    cold_envelopes bs \<noteq> Panic \<and> (length bs = PAGE_SIZE \<longrightarrow> cold_patch_envelope_deleted slot tx bs \<noteq> Panic)"
proof -
  have recs: "cold_records bs \<noteq> Panic" "cold_encoded_len bs \<noteq> Panic"
    using cold_decode_no_panic by (auto simp: cold_records_def cold_encoded_len_def and_then_eq_Panic)
  have nxt: "cold_next_page bs \<noteq> Panic" "cold_original_used_bytes bs \<noteq> Panic"
    using cold_validate_no_panic [of bs] cold_validate_header [of bs]
    by (auto simp: cold_next_page_def cold_original_used_bytes_def and_then_eq_Panic slice_at_Panic Let_def size_defs)
  have safe: "safe_reader (\<lambda>bs pos. and_then (col_read_u16 bs pos) (\<lambda>(arity, pos). read_many read_envelope n bs pos))"
    for n
    by (intro safe_intros envelope.safe_reader_axioms)
  have "cold_envelopes bs \<noteq> Panic"
    using cold_validate_no_panic [of bs] cold_validate_header [of bs]
      safe_reader.no_panic [OF safe, of PAGE_HEADER_SIZE bs] nxt
    by (auto simp: cold_envelopes_def and_then_eq_Panic)
  moreover have "cold_patch_envelope_deleted slot tx bs \<noteq> Panic" if len: "length bs = PAGE_SIZE"
  proof (cases "cold_validate bs")
    case (Ok h)
    obtain used a where "slice_at bs 19 23 = Ok used" "slice_get bs 28 30 = Some a" "length used = 4" "length a = 2"
      using len by (simp add: slice_get_def size_defs)
    then have "slice_at bs 19 23 = Ok (to_le 4 (from_le used :: u32))" "slice_get bs 28 30 = Some (to_le 2 (from_le a :: u16))"
      by simp_all
    note b = cold_validate_used [OF Ok this]
    have "28 + unat (ch_row_count h) * 30 \<le> 4096"
      using b(1,3) by (simp add: size_defs SLOT_SIZE_def algebra_simps)
    then show ?thesis
      using len by (auto simp: cold_patch_envelope_deleted_def Ok copy_into_def size_defs word_le_nat_alt)
  qed (use cold_validate_no_panic [of bs] in \<open>auto simp: cold_patch_envelope_deleted_def\<close>)
  ultimately show ?thesis
    using recs nxt cold_validate_no_panic [of bs] by (auto simp: cold_record_def and_then_eq_Panic)
qed

theorem cold_page_untrusted_witness:
  "length (replicate PAGE_SIZE (7 :: u8)) = PAGE_SIZE \<and>
    cold_patch_envelope_deleted 3 1 (replicate PAGE_SIZE 7) \<noteq> Panic"
  using cold_page_untrusted [of "replicate PAGE_SIZE 7" 3 1] by simp

end
