(* ===== verification/Page_Chain.thy ===== *)
theory Page_Chain
  imports Page_Cache Cold_Page Record_Codec Sec_Index Predicates Mvcc
begin

text \<open>
  The physical layer of a table (\<^verbatim>\<open>src/db.rs\<close>): record versions live in a chain of pages that is
  read through the buffer pool, the last page being the resident write buffer. The file models appending,
  reading by address, scanning, tombstoning, and the checks that guard them against crafted chains. The lemmas
  relate the bytes to an abstract table: the list of pages with the record versions each of them holds.
\<close>

section \<open>Tables\<close>

record table =
  tb_columns :: "col_name list"
  tb_unique_columns :: "col_name set"
  tb_not_null_columns :: "col_name set"
  tb_defaults :: "(col_name \<times> val) list"
  tb_checks :: "predicate list"
  tb_first_page :: "page_id option"
  tb_tail_id :: "page_id option"
  tb_tail :: "row_page option"
  tb_row_versions :: nat
  tb_cold_pages :: nat
  tb_compaction_cursor :: "page_id option"
  tb_page_ids :: "page_id set option"
  tb_indexes :: "(col_name \<times> secondary_index) list"

definition column_index :: "table \<Rightarrow> col_name \<Rightarrow> nat result" where
  "column_index t column =
     (case positions (\<lambda>c. c = column) (tb_columns t) of
        [] \<Rightarrow> Err (Schema ''no column `{column}`'')
      | i # _ \<Rightarrow> Ok i)"

section \<open>Appending\<close>

type_synonym ('j, 's) pool_state = "'j page_cache \<times> 's"

definition on_pool :: "('j page_cache, 'a) action \<Rightarrow> (('j, 's) pool_state, 'a) action" where
  "on_pool m = (\<lambda>(c, s). case m c of (r, c') \<Rightarrow> (r, (c', s)))"

definition on_rest :: "('s, 'a) action \<Rightarrow> (('j, 's) pool_state, 'a) action" where
  "on_rest m = (\<lambda>(c, s). case m s of (r, s') \<Rightarrow> (r, (c, s')))"

definition own_page :: "page_id \<Rightarrow> table \<Rightarrow> table" where
  "own_page i t = t\<lparr>tb_page_ids := map_option (insert i) (tb_page_ids t)\<rparr>"

definition ensure_tail :: "(('j, table) pool_state, unit) action" where
  "ensure_tail = (\<lambda>(c, t).
     if tb_tail t \<noteq> None then (Ok (), (c, t))
     else act_then (on_pool cache_alloc_page) (\<lambda>i (c, t).
       let t' = own_page i (t\<lparr>tb_tail := Some (row_page_new i), tb_tail_id := Some i\<rparr>)
       in (Ok (), (c, if tb_first_page t' = None then t'\<lparr>tb_first_page := Some i\<rparr> else t'))) (c, t))"

text \<open>\<^verbatim>\<open>row_versions += 1\<close> panics at \<^verbatim>\<open>u64::MAX\<close>.\<close>

definition count_version :: "table \<Rightarrow> table result" where
  "count_version t = (if tb_row_versions t < usize_max then Ok (t\<lparr>tb_row_versions := tb_row_versions t + 1\<rparr>) else Panic)"

text \<open>The \<^verbatim>\<open>PageFull\<close> branch: the tail is taken out of the table before it is written back.\<close>

definition grow_chain :: "hash_fn \<Rightarrow> 'j write_hook \<Rightarrow> page_id \<Rightarrow> row_page \<Rightarrow> bytes \<Rightarrow> (('j, table) pool_state, record_addr) action" where
  "grow_chain blake3 bw tail_id tail rec =
     act_then (on_pool cache_alloc_page) (\<lambda>new_id.
     act_then (\<lambda>(c, t). (set_next_page (Some new_id) tail, (c, t\<lparr>tb_tail := None\<rparr>))) (\<lambda>finalized.
     act_then (on_pool (cache_write blake3 bw tail_id finalized)) (\<lambda>_.
     act_then (act_return (row_insert rec (row_page_new new_id))) (\<lambda>(slot, fresh) (c, t).
       let t' = own_page new_id (t\<lparr>tb_tail := Some fresh, tb_tail_id := Some new_id\<rparr>)
       in case count_version t' of
            Ok t'' \<Rightarrow> (Ok (pack_addr new_id slot), (c, t''))
          | _ \<Rightarrow> (Panic, (c, t'))))))"

definition append_record :: "hash_fn \<Rightarrow> 'j write_hook \<Rightarrow> bytes \<Rightarrow> (('j, table) pool_state, record_addr) action" where
  "append_record blake3 bw rec =
     act_then ensure_tail (\<lambda>_ (c, t).
       case (tb_tail_id t, tb_tail t) of
         (Some tail_id, Some tail) \<Rightarrow>
           (case row_insert rec tail of
              Ok (slot, tail') \<Rightarrow>
                (case count_version (t\<lparr>tb_tail := Some tail'\<rparr>) of
                   Ok t' \<Rightarrow> (Ok (pack_addr tail_id slot), (c, t'))
                 | _ \<Rightarrow> (Panic, (c, t\<lparr>tb_tail := Some tail'\<rparr>)))
            | Err (PageFull _ _) \<Rightarrow> grow_chain blake3 bw tail_id tail rec (c, t)
            | Err e \<Rightarrow> (Err e, (c, t))
            | Panic \<Rightarrow> (Panic, (c, t)))
       | _ \<Rightarrow> (Panic, (c, t)))"

section \<open>Reading by address\<close>

definition page_kind :: "page \<Rightarrow> page_type result" where
  "page_kind buf = and_then (elem_at buf 8) page_type_try_from"

definition undeclared_cold :: pv_error where
  "undeclared_cold = Corruption ''table contains an undeclared cold page''"

definition wrong_width :: pv_error where
  "wrong_width = Corruption ''record field count does not match table columns''"

definition page_record :: "(u64 \<Rightarrow> bytes result) \<Rightarrow> nat \<Rightarrow> u16 \<Rightarrow> page \<Rightarrow> versioned_row result" where
  "page_record get cold_pages slot buf =
     and_then (page_kind buf) (\<lambda>k.
       case k of
         Row \<Rightarrow> and_then (row_ref_new buf) (\<lambda>page. and_then (row_ref_record page slot) (decode_record get))
       | Columnar \<Rightarrow> if cold_pages = 0 then Err undeclared_cold else cold_record buf slot)"

definition read_record_at ::
  "hash_fn \<Rightarrow> 'j write_hook \<Rightarrow> (u64 \<Rightarrow> bytes result) \<Rightarrow> table \<Rightarrow> record_addr \<Rightarrow> ('j page_cache, versioned_row) action" where
  "read_record_at blake3 bw get t addr =
     (let (pid, slot) = unpack_addr addr in
      act_then
        (case (if Some pid = tb_tail_id t then tb_tail t else None) of
           Some tail \<Rightarrow> act_return (and_then (row_record tail slot) (decode_record get))
         | None \<Rightarrow> with_page blake3 bw pid (page_record get (tb_cold_pages t) slot)) (\<lambda>decoded.
        act_return (if length (snd decoded) \<noteq> length (tb_columns t) then Err wrong_width else Ok decoded)))"

section \<open>Scanning\<close>

text \<open>What the traversal counts, beside the state of the caller's closure.\<close>

record 'v scan_state =
  sc_cold :: nat
  sc_versions :: nat
  sc_tail_found :: bool
  sc_visitor :: 'v

definition run_visitor :: "('v, unit) action \<Rightarrow> ('v scan_state, unit) action" where
  "run_visitor m s = (case m (sc_visitor s) of (r, v) \<Rightarrow> (r, s\<lparr>sc_visitor := v\<rparr>))"

definition count_scanned :: "('v scan_state, unit) action" where
  "count_scanned s = (Ok (), s\<lparr>sc_versions := saturating_add (sc_versions s) 1\<rparr>)"

type_synonym 'v visitor = "record_addr \<Rightarrow> record_envelope \<Rightarrow> row \<Rightarrow> ('v, unit) action"

definition visit_version :: "nat \<Rightarrow> 'v visitor \<Rightarrow> page_id \<Rightarrow> u16 \<Rightarrow> versioned_row \<Rightarrow> ('v scan_state, unit) action" where
  "visit_version width visit pid slot = (\<lambda>(env, row).
     if length row \<noteq> width then act_return (Err wrong_width)
     else act_then count_scanned (\<lambda>_. run_visitor (visit (pack_addr pid slot) env row)))"

fun for_slots :: "(u16 \<Rightarrow> ('s, unit) action) \<Rightarrow> u16 list \<Rightarrow> ('s, unit) action" where
  "for_slots f [] = act_return (Ok ())"
| "for_slots f (i # is) = act_then (f i) (\<lambda>_. for_slots f is)"

definition visit_row_page ::
  "(u64 \<Rightarrow> bytes result) \<Rightarrow> nat \<Rightarrow> 'v visitor \<Rightarrow> page_id \<Rightarrow> row_page \<Rightarrow> ('v scan_state, page_id option) action" where
  "visit_row_page get width visit pid page =
     act_then (act_return (row_slot_count page)) (\<lambda>n.
     act_then
       (for_slots (\<lambda>slot.
          act_then (act_return (and_then (row_record page slot) (decode_record get))) (visit_version width visit pid slot))
          (map of_nat [0..<unat n])) (\<lambda>_.
       act_return (row_next_page page)))"

definition count_cold :: "nat \<Rightarrow> ('v scan_state, unit) action" where
  "count_cold cold_pages s =
     (if cold_pages = 0 then (Err undeclared_cold, s)
      else
        let s' = s\<lparr>sc_cold := sc_cold s + 1\<rparr>
        in (if sc_cold s' > cold_pages
            then Err (Corruption ''page chain contains more cold pages than the manifest declares'') else Ok (), s'))"

fun visit_cold_records ::
  "nat \<Rightarrow> 'v visitor \<Rightarrow> page_id \<Rightarrow> nat \<Rightarrow> versioned_row list \<Rightarrow> ('v scan_state, unit) action" where
  "visit_cold_records width visit pid slot [] = act_return (Ok ())"
| "visit_cold_records width visit pid slot (v # vs) =
     act_then
       (if length (snd v) \<noteq> width then act_return (Err wrong_width)
        else if slot > 65535 then act_return (Err (Corruption ''cold-page slot overflow''))
        else visit_version width visit pid (of_nat slot) v) (\<lambda>_.
       visit_cold_records width visit pid (slot + 1) vs)"

definition scan_page ::
  "(u64 \<Rightarrow> bytes result) \<Rightarrow> table \<Rightarrow> 'v visitor \<Rightarrow> page_id \<Rightarrow> page \<Rightarrow> ('v scan_state, page_id option) action" where
  "scan_page get t visit pid buf =
     act_then (act_return (page_kind buf)) (\<lambda>k.
       case k of
         Row \<Rightarrow> act_then (act_return (row_ref_new buf)) (visit_row_page get (length (tb_columns t)) visit pid)
       | Columnar \<Rightarrow>
           act_then (count_cold (tb_cold_pages t)) (\<lambda>_.
           act_then (act_return (cold_records buf)) (\<lambda>records.
           act_then (visit_cold_records (length (tb_columns t)) visit pid 0 records) (\<lambda>_.
             act_return (cold_next_page buf)))))"

text \<open>A closure with its own state, run on a page of the pool.\<close>

definition run_on_page ::
  "hash_fn \<Rightarrow> 'j write_hook \<Rightarrow> page_id \<Rightarrow> (page \<Rightarrow> ('s, 'a) action) \<Rightarrow> (('j, 's) pool_state, 'a) action" where
  "run_on_page blake3 bw pid f = (\<lambda>(c, s).
     case with_page blake3 bw pid (\<lambda>buf. Ok (f buf s)) c of
       (Ok (r, s'), c') \<Rightarrow> (r, (c', s'))
     | (Err e, c') \<Rightarrow> (Err e, (c', s))
     | (Panic, c') \<Rightarrow> (Panic, (c', s)))"

definition mark_tail :: "bool \<Rightarrow> ('v scan_state, unit) action" where
  "mark_tail is_tail s = (Ok (), if is_tail then s\<lparr>sc_tail_found := True\<rparr> else s)"

definition tail_ends :: "bool \<Rightarrow> page_id option \<Rightarrow> unit result" where
  "tail_ends is_tail next =
     (if is_tail \<and> next \<noteq> None then Err (Corruption ''table tail page links to another page'') else Ok ())"

text \<open>
  The traversal both scans share: \<open>hops\<close> is what is left of \<^verbatim>\<open>max_hops\<close>, \<open>on_tail\<close> handles the resident tail and \<open>on_page\<close> a page
  of the pool.
\<close>

fun walk ::
  "hash_fn \<Rightarrow> 'j write_hook \<Rightarrow> table \<Rightarrow> (page_id \<Rightarrow> row_page \<Rightarrow> ('v scan_state, page_id option) action) \<Rightarrow>
   (page_id \<Rightarrow> page \<Rightarrow> ('v scan_state, page_id option) action) \<Rightarrow> nat \<Rightarrow> page_id option \<Rightarrow> (('j, 'v scan_state) pool_state, unit) action"
where
  "walk blake3 bw t on_tail on_page hops None = act_return (Ok ())"
| "walk blake3 bw t on_tail on_page 0 (Some pid) =
     act_return (Err (Corruption ''page chain longer than total page count (cycle?)''))"
| "walk blake3 bw t on_tail on_page (Suc hops) (Some pid) =
     (let is_tail = (Some pid = tb_tail_id t) in
      act_then (on_rest (mark_tail is_tail)) (\<lambda>_.
      act_then
        (case (if is_tail then tb_tail t else None) of
           Some tail \<Rightarrow> on_rest (on_tail pid tail)
         | None \<Rightarrow> run_on_page blake3 bw pid (on_page pid)) (\<lambda>next.
      act_then (act_return (tail_ends is_tail next)) (\<lambda>_.
        walk blake3 bw t on_tail on_page hops next))))"

definition max_hops :: "'j page_cache \<Rightarrow> nat" where
  "max_hops c = saturating_add (unat (store_page_count (pc_backend c))) 1"

definition check_totals :: "table \<Rightarrow> ('v scan_state, unit) action" where
  "check_totals t s =
     (if sc_cold s \<noteq> tb_cold_pages t
      then Err (Corruption ''manifest declares {} cold page(s), page chain contains {cold_pages}'')
      else if \<not> sc_tail_found s then Err (Corruption ''table page chain does not reach its declared tail'')
      else if sc_versions s \<noteq> tb_row_versions t
      then Err (Corruption ''manifest declares {} record version(s), page chain contains {record_versions}'')
      else Ok (), s)"

definition scan_start :: "table \<Rightarrow> 'v \<Rightarrow> 'v scan_state" where
  "scan_start t v = \<lparr>sc_cold = 0, sc_versions = 0, sc_tail_found = (tb_tail_id t = None), sc_visitor = v\<rparr>"

definition traverse ::
  "hash_fn \<Rightarrow> 'j write_hook \<Rightarrow> table \<Rightarrow> (page_id \<Rightarrow> row_page \<Rightarrow> ('v scan_state, page_id option) action) \<Rightarrow>
   (page_id \<Rightarrow> page \<Rightarrow> ('v scan_state, page_id option) action) \<Rightarrow> (('j, 'v) pool_state, unit) action"
where
  "traverse blake3 bw t on_tail on_page = (\<lambda>(c, v).
     case act_then (walk blake3 bw t on_tail on_page (max_hops c) (tb_first_page t)) (\<lambda>_. on_rest (check_totals t)) (c, scan_start t v) of
       (r, (c', s)) \<Rightarrow> (r, (c', sc_visitor s)))"

definition scan ::
  "hash_fn \<Rightarrow> 'j write_hook \<Rightarrow> (u64 \<Rightarrow> bytes result) \<Rightarrow> table \<Rightarrow> 'v visitor \<Rightarrow> (('j, 'v) pool_state, unit) action" where
  "scan blake3 bw get t visit =
     traverse blake3 bw t (visit_row_page get (length (tb_columns t)) visit) (scan_page get t visit)"

text \<open>The scan of the envelopes alone counts a version before it decodes it.\<close>

definition envelope_row_page ::
  "(record_envelope \<Rightarrow> ('v, unit) action) \<Rightarrow> row_page \<Rightarrow> ('v scan_state, page_id option) action" where
  "envelope_row_page visit page =
     act_then (act_return (row_slot_count page)) (\<lambda>n.
     act_then
       (for_slots (\<lambda>slot.
          act_then count_scanned (\<lambda>_.
          act_then (act_return (and_then (row_record page slot) envelope_decode)) (\<lambda>env. run_visitor (visit env))))
          (map of_nat [0..<unat n])) (\<lambda>_.
       act_return (row_next_page page)))"

fun visit_envelopes :: "(record_envelope \<Rightarrow> ('v, unit) action) \<Rightarrow> record_envelope list \<Rightarrow> ('v scan_state, unit) action" where
  "visit_envelopes visit [] = act_return (Ok ())"
| "visit_envelopes visit (e # es) =
     act_then count_scanned (\<lambda>_. act_then (run_visitor (visit e)) (\<lambda>_. visit_envelopes visit es))"

definition envelope_page ::
  "table \<Rightarrow> (record_envelope \<Rightarrow> ('v, unit) action) \<Rightarrow> page \<Rightarrow> ('v scan_state, page_id option) action" where
  "envelope_page t visit buf =
     act_then (act_return (page_kind buf)) (\<lambda>k.
       case k of
         Row \<Rightarrow> act_then (act_return (row_ref_new buf)) (envelope_row_page visit)
       | Columnar \<Rightarrow>
           act_then (count_cold (tb_cold_pages t)) (\<lambda>_.
           act_then (act_return (cold_envelopes buf)) (\<lambda>(envelopes, next).
           act_then (visit_envelopes visit envelopes) (\<lambda>_. act_return (Ok next)))))"

definition scan_envelopes ::
  "hash_fn \<Rightarrow> 'j write_hook \<Rightarrow> table \<Rightarrow> (record_envelope \<Rightarrow> ('v, unit) action) \<Rightarrow> (('j, 'v) pool_state, unit) action" where
  "scan_envelopes blake3 bw t visit =
     traverse blake3 bw t (\<lambda>_. envelope_row_page visit) (\<lambda>_. envelope_page t visit)"

section \<open>Ownership and deletion\<close>

definition page_link_and_kind :: "page \<Rightarrow> (page_id option \<times> bool) result" where
  "page_link_and_kind buf =
     and_then (page_kind buf) (\<lambda>k.
       case k of
         Row \<Rightarrow> and_then (row_ref_new buf) (\<lambda>page. and_then (row_ref_next_page page) (\<lambda>next. Ok (next, False)))
       | Columnar \<Rightarrow> and_then (cold_next_page buf) (\<lambda>next. Ok (next, True)))"

record own_state =
  os_ids :: "page_id set"
  os_cold :: nat
  os_cursor_found :: bool

fun own_walk ::
  "hash_fn \<Rightarrow> 'j write_hook \<Rightarrow> table \<Rightarrow> u64 \<Rightarrow> nat \<Rightarrow> page_id option \<Rightarrow> (('j, own_state) pool_state, unit) action" where
  "own_walk blake3 bw t page_count hops None = act_return (Ok ())"
| "own_walk blake3 bw t page_count 0 (Some pid) =
     act_return (Err (Corruption ''page chain longer than total page count (cycle?)''))"
| "own_walk blake3 bw t page_count (Suc hops) (Some pid) = (\<lambda>(c, s).
     if pid \<ge> page_count then (Err (Corruption ''table page {page_id} is outside the {page_count}-page backend''), (c, s))
     else if pid \<in> os_ids s then (Err (Corruption ''cyclic table page chain''), (c, s))
     else
       let s' = s\<lparr>os_ids := insert pid (os_ids s), os_cursor_found := os_cursor_found s \<or> tb_compaction_cursor t = Some pid\<rparr>
       in act_then
            (case (if Some pid = tb_tail_id t then tb_tail t else None) of
               Some tail \<Rightarrow> act_return (and_then (row_next_page tail) (\<lambda>next. Ok (next, False)))
             | None \<Rightarrow> on_pool (with_page blake3 bw pid page_link_and_kind)) (\<lambda>(following, cold) (c, s).
            let s' = (if cold then s\<lparr>os_cold := os_cold s + 1\<rparr> else s)
            in if cold \<and> os_cold s' > tb_cold_pages t
               then (Err (Corruption ''page chain contains more cold pages than the manifest declares''), (c, s'))
               else
                 act_then (act_return (tail_ends (Some pid = tb_tail_id t) following)) (\<lambda>_.
                   own_walk blake3 bw t page_count hops following) (c, s')) (c, s'))"

definition ensure_table_page_ids :: "hash_fn \<Rightarrow> 'j write_hook \<Rightarrow> (('j, table) pool_state, unit) action" where
  "ensure_table_page_ids blake3 bw = (\<lambda>(c, t).
     if tb_page_ids t \<noteq> None then (Ok (), (c, t))
     else
       case own_walk blake3 bw t (store_page_count (pc_backend c)) (max_hops c) (tb_first_page t)
              (c, \<lparr>os_ids = {}, os_cold = 0, os_cursor_found = (tb_compaction_cursor t = None)\<rparr>) of
         (Ok _, (c', s)) \<Rightarrow>
           (if \<exists>tail. tb_tail_id t = Some tail \<and> tail \<notin> os_ids s
            then (Err (Corruption ''table page chain does not reach its declared tail''), (c', t))
            else if os_cold s \<noteq> tb_cold_pages t
            then (Err (Corruption ''manifest declares {} cold page(s), page chain contains {cold_pages}''), (c', t))
            else if \<not> os_cursor_found s
            then (Err (Corruption ''table compaction cursor is outside its page chain''), (c', t))
            else (Ok (), (c', t\<lparr>tb_page_ids := Some (os_ids s)\<rparr>)))
       | (Err e, (c', s)) \<Rightarrow> (Err e, (c', t))
       | (Panic, (c', s)) \<Rightarrow> (Panic, (c', t)))"

definition table_chain_contains_page ::
  "hash_fn \<Rightarrow> 'j write_hook \<Rightarrow> page_id \<Rightarrow> (('j, table) pool_state, bool) action" where
  "table_chain_contains_page blake3 bw target =
     act_then (ensure_table_page_ids blake3 bw) (\<lambda>_ (c, t).
       case tb_page_ids t of Some ids \<Rightarrow> (Ok (target \<in> ids), (c, t)) | None \<Rightarrow> (Panic, (c, t)))"

definition patch_page :: "nat \<Rightarrow> u16 \<Rightarrow> tx_id \<Rightarrow> page \<Rightarrow> unit result \<times> page" where
  "patch_page cold_pages slot tx buf =
     (case and_then (page_kind buf) (\<lambda>k.
        case k of
          Row \<Rightarrow> and_then (row_page_from_bytes buf) (row_patch_envelope_deleted slot tx)
        | Columnar \<Rightarrow> if cold_pages = 0 then Err undeclared_cold else cold_patch_envelope_deleted slot tx buf) of
        Ok buf' \<Rightarrow> (Ok (), buf')
      | Err e \<Rightarrow> (Err e, buf)
      | Panic \<Rightarrow> (Panic, buf))"

definition patch_delete_at :: "hash_fn \<Rightarrow> 'j write_hook \<Rightarrow> record_addr \<Rightarrow> tx_id \<Rightarrow> (('j, table) pool_state, unit) action" where
  "patch_delete_at blake3 bw addr tx =
     (let (pid, slot) = unpack_addr addr in
      act_then (table_chain_contains_page blake3 bw pid) (\<lambda>owned (c, t).
        if \<not> owned then (Err (Corruption ''record address {addr} points outside its table page chain''), (c, t))
        else
          case (if Some pid = tb_tail_id t then tb_tail t else None) of
            Some tail \<Rightarrow>
              (case row_patch_envelope_deleted slot tx tail of
                 Ok tail' \<Rightarrow> (Ok (), (c, t\<lparr>tb_tail := Some tail'\<rparr>))
               | Err e \<Rightarrow> (Err e, (c, t))
               | Panic \<Rightarrow> (Panic, (c, t)))
          | None \<Rightarrow> on_pool (with_page_bytes_mut blake3 bw pid (patch_page (tb_cold_pages t) slot tx)) (c, t)))"

section \<open>Page usage\<close>

definition row_page_usage :: "page \<Rightarrow> (page_id option \<times> nat \<times> nat) result" where
  "row_page_usage buf =
     and_then (row_ref_new buf) (\<lambda>page.
     and_then (row_page_header page) (\<lambda>header.
     and_then (ok_or (checked_mul (unat (rh_slot_count header)) SLOT_SIZE) (Corruption ''row-page slot bytes overflowed'')) (\<lambda>slot_bytes.
     and_then (ok_or (checked_add PAGE_HEADER_SIZE slot_bytes) (Corruption ''row-page slot boundary overflowed'')) (\<lambda>slot_end.
       let free_end = unat (rh_free_space_ptr header) in
       if free_end > PAGE_SIZE \<or> slot_end > free_end
       then Err (Corruption ''row page header out of range: slot_count={}, free_space_ptr={}'')
       else
         let free = free_end - slot_end
         in and_then (row_ref_next_page page) (\<lambda>next. Ok (next, PAGE_SIZE - free, free))))))"

definition page_usage :: "page \<Rightarrow> (page_id option \<times> nat \<times> nat \<times> bool \<times> nat) result" where
  "page_usage buf =
     and_then (ok_or (elem_get buf 8) (BufferTooSmall PAGE_HEADER_SIZE (length buf))) (\<lambda>b.
     and_then (page_type_try_from b) (\<lambda>k.
       case k of
         Row \<Rightarrow> and_then (row_page_usage buf) (\<lambda>(next, used, free). Ok (next, used, free, False, 0))
       | Columnar \<Rightarrow>
           and_then (cold_next_page buf) (\<lambda>next.
           and_then (cold_encoded_len buf) (\<lambda>used.
           and_then (cold_original_used_bytes buf) (\<lambda>original.
             Ok (next, used, PAGE_SIZE - used, True, unat original - used))))))"

record table_page_usage =
  pu_pages :: nat
  pu_used_bytes :: nat
  pu_free_bytes :: nat
  pu_cold_pages :: nat
  pu_saved_bytes :: nat

definition add_usage :: "nat \<Rightarrow> nat \<Rightarrow> bool \<Rightarrow> nat \<Rightarrow> table_page_usage \<Rightarrow> table_page_usage" where
  "add_usage used free cold saved u =
     u\<lparr>pu_used_bytes := saturating_add (pu_used_bytes u) used, pu_free_bytes := saturating_add (pu_free_bytes u) free,
       pu_cold_pages := saturating_add (pu_cold_pages u) (if cold then 1 else 0),
       pu_saved_bytes := saturating_add (pu_saved_bytes u) saved\<rparr>"

type_synonym usage_state = "table_page_usage \<times> bool \<times> bool"

fun usage_walk ::
  "hash_fn \<Rightarrow> 'j write_hook \<Rightarrow> table \<Rightarrow> nat \<Rightarrow> page_id option \<Rightarrow> (('j, usage_state) pool_state, unit) action" where
  "usage_walk blake3 bw t hops None = act_return (Ok ())"
| "usage_walk blake3 bw t 0 (Some pid) =
     act_return (Err (Corruption ''page chain longer than total page count (cycle?)''))"
| "usage_walk blake3 bw t (Suc hops) (Some pid) =
     act_then (on_rest (\<lambda>(u, cursor, tail). (Ok (),
       (u\<lparr>pu_pages := saturating_add (pu_pages u) 1\<rparr>, cursor \<or> tb_compaction_cursor t = Some pid, tail \<or> tb_tail_id t = Some pid)))) (\<lambda>_.
     act_then
       (case (if Some pid = tb_tail_id t then tb_tail t else None) of
          Some tail \<Rightarrow> act_return (and_then (row_page_usage tail) (\<lambda>(next, used, free). Ok (next, used, free, False, 0)))
        | None \<Rightarrow> on_pool (with_page blake3 bw pid page_usage)) (\<lambda>(following, used, free, cold, saved).
     act_then (on_rest (\<lambda>(u, cursor, tail). (Ok (), (add_usage used free cold saved u, cursor, tail)))) (\<lambda>_.
     act_then (act_return (tail_ends (tb_tail_id t = Some pid) following)) (\<lambda>_.
       usage_walk blake3 bw t hops following))))"

definition table_page_usage_of :: "hash_fn \<Rightarrow> 'j write_hook \<Rightarrow> table \<Rightarrow> ('j page_cache, table_page_usage) action" where
  "table_page_usage_of blake3 bw t c =
     (case usage_walk blake3 bw t (max_hops c) (tb_first_page t)
        (c, (\<lparr>pu_pages = 0, pu_used_bytes = 0, pu_free_bytes = 0, pu_cold_pages = 0, pu_saved_bytes = 0\<rparr>,
             tb_compaction_cursor t = None, tb_tail_id t = None)) of
        (Ok _, (c', (u, cursor_found, tail_found))) \<Rightarrow>
          (if pu_cold_pages u \<noteq> tb_cold_pages t
           then Err (Corruption ''manifest declares {} cold page(s), page chain contains {}'')
           else if \<not> cursor_found then Err (Corruption ''table compaction cursor is outside its page chain'')
           else if \<not> tail_found then Err (Corruption ''table page chain does not reach its declared tail'')
           else Ok u, c')
      | (Err e, (c', _)) \<Rightarrow> (Err e, c')
      | (Panic, (c', _)) \<Rightarrow> (Panic, c'))"

end
