(* ===== verification/Version_Store.thy ===== *)
theory Version_Store
  imports Page_Chain
begin

text \<open>
  A table as a store of record versions. The abstract table is the list of its pages with the versions each
  holds; appending adds one version under a fresh address, tombstoning marks one version, a scan visits all of
  them in order and a read by address finds one. The theories above this one prove that of the code.
\<close>

section \<open>A pool that cannot fail\<close>

text \<open>
  Reading through the pool fails only when an eviction has to write and the write fails, or when the tick counter
  overflows. \<open>ready n\<close>: the next \<open>n\<close> reads do neither, because the backend is in memory or no resident page is dirty.
\<close>

definition in_memory :: "'j page_cache \<Rightarrow> bool" where
  "in_memory c \<longleftrightarrow> (case fst (pc_backend c) of Mem _ \<Rightarrow> True | _ \<Rightarrow> False)"

definition all_clean :: "'j page_cache \<Rightarrow> bool" where
  "all_clean c \<longleftrightarrow> (\<forall>(i, e) \<in> set (pc_entries c). \<not> en_dirty e)"

definition ready :: "hash_fn \<Rightarrow> nat \<Rightarrow> 'j page_cache \<Rightarrow> bool" where
  "ready blake3 n c \<longleftrightarrow> cache_inv blake3 c \<and> pc_clock c + 2 * n \<le> usize_max \<and> (in_memory c \<or> all_clean c)"

lemma ready_mono: "ready blake3 n c \<Longrightarrow> m \<le> n \<Longrightarrow> ready blake3 m c"
  by (simp add: ready_def)

lemma set_delete_subset: "set (AList.delete k xs) \<subseteq> set xs"
  by (auto simp: AList.delete_eq)

lemma write_back_memory:
  assumes "cache_core blake3 c" "in_memory c" "map_of (pc_entries c) i = Some e" "en_dirty e"
  shows "\<exists>d. write_back bw i p (c\<lparr>pc_entries := es\<rparr>) = (Ok (), d) \<and> in_memory d"
proof -
  obtain m fs where m: "pc_backend c = (Mem m, fs)" using assms(2) by (cases "pc_backend c") (auto simp: in_memory_def split: backend.splits)
  have "Page_Cache.entry_ok blake3 (pc_backend c) i e" "plain_store (pc_backend c)" using assms(1,3) by (auto simp: cache_core_def)
  then have "unat i < length m" using m assms(4) mem_count_less [of m i] by (simp add: Page_Cache.entry_ok_def store_page_count_def)
  then show ?thesis by (simp add: write_back_def m mem_write_page_def in_memory_def)
qed

lemma evict_total:
  assumes "cache_core blake3 c" "in_memory c \<or> all_clean c"
  shows "\<exists>d. evict_if_needed blake3 bw c = (Ok (), d) \<and> (in_memory d \<or> all_clean d)"
  using assms
proof (induction blake3 bw c rule: evict_if_needed.induct)
  case (1 blake3 bw c)
  show ?case
  proof (cases "pc_capacity c \<le> length (pc_entries c)")
    case True
    obtain i e where v: "victim (pc_entries c) = Some i" "map_of (pc_entries c) i = Some e"
      by (rule victim_entry [OF "1.prems"(1) True])
    note rec = "1.IH" [OF True v refl]
    let ?c = "c\<lparr>pc_entries := AList.delete i (pc_entries c)\<rparr>"
    show ?thesis
    proof (cases "en_dirty e")
      case dirty: True
      then have "in_memory c" using "1.prems"(2) map_of_SomeD [OF v(2)] by (auto simp: all_clean_def)
      from write_back_memory [OF "1.prems"(1) this v(2) dirty] obtain d where
        d: "write_back bw i (stamp_page_checksum blake3 (en_page e)) ?c = (Ok (), d)" "in_memory d" by blast
      from rec(1) [OF dirty d(1) evicted_core [OF evict_dirty [OF "1.prems"(1) v(2) dirty d(1)]]] d v dirty True show ?thesis
        by (simp add: evict_if_needed.simps [of blake3 bw c])
    next
      case clean: False
      have "in_memory ?c \<or> all_clean ?c"
        using "1.prems"(2) set_delete_subset [of i "pc_entries c"] by (auto simp: in_memory_def all_clean_def)
      from rec(2) [OF clean evicted_core [OF evict_clean [OF "1.prems"(1) v(2) clean]] this] v clean True show ?thesis
        by (simp add: evict_if_needed.simps [of blake3 bw c])
    qed
  next
    case False
    with "1.prems" show ?thesis by (simp add: evict_if_needed.simps [of blake3 bw c])
  qed
qed

lemma set_update_subset: "set (AList.update k v xs) \<subseteq> insert (k, v) (set xs)"
  by (induction xs) auto

lemma put_entry_quiet:
  assumes "in_memory c \<or> all_clean c" "in_memory c \<or> \<not> en_dirty e"
  shows "in_memory (c\<lparr>pc_clock := k, pc_entries := AList.update i e (pc_entries c)\<rparr>) \<or>
    all_clean (c\<lparr>pc_clock := k, pc_entries := AList.update i e (pc_entries c)\<rparr>)"
proof (cases "in_memory c")
  case False
  then have "\<not> en_dirty (snd x)" if "x \<in> set (AList.update i e (pc_entries c))" for x
    using assms that set_update_subset [of i e "pc_entries c"] by (cases x) (fastforce simp: all_clean_def)
  then show ?thesis by (auto simp: all_clean_def)
qed (simp add: in_memory_def)

lemma ensure_loaded_ready:
  assumes "cache_inv blake3 c" "pc_clock c < usize_max" "in_memory c \<or> all_clean c" "cache_view blake3 c i = Ok p"
  shows "\<exists>d. ensure_loaded blake3 bw i c = (Ok (), d) \<and> pc_clock d \<le> pc_clock c + 1 \<and> (in_memory d \<or> all_clean d) \<and>
    store_page_count (pc_backend d) = store_page_count (pc_backend c)"
proof (cases "map_of (pc_entries c) i")
  case None
  with assms(4) have p: "backend_read_page (pc_backend c) i = Ok p" "verify_page_checksum blake3 p = Ok ()"
    by (auto simp: cache_view_def and_then_eq_Ok)
  have core: "cache_core blake3 c" using assms(1) by (simp add: cache_inv_def)
  obtain d where d: "evict_if_needed blake3 bw c = (Ok (), d)" "in_memory d \<or> all_clean d"
    using evict_total [OF core assms(3)] by blast
  have "evicted blake3 c d" using evict_Ok [OF core d(1)] by simp
  then have "pc_clock d = pc_clock c" "store_page_count (pc_backend d) = store_page_count (pc_backend c)" by (simp_all add: evicted_def)
  with None p d assms(2) put_entry_quiet [OF d(2), of "\<lparr>en_page = p, en_dirty = False, en_last_used = Suc (pc_clock c)\<rparr>"] show ?thesis
    by (simp add: ensure_loaded_def act_then_def insert_entry_def tick_def)
qed (use assms in \<open>simp add: ensure_loaded_def\<close>)

lemma with_page_ready:
  assumes "ready blake3 (Suc n) c" "cache_view blake3 c i = Ok p"
  shows "\<exists>c'. with_page blake3 bw i f c = (f p, c') \<and> ready blake3 n c' \<and> view_kept blake3 c c' \<and>
    store_page_count (pc_backend c') = store_page_count (pc_backend c)"
proof -
  have c: "cache_inv blake3 c" "pc_clock c + 2 + 2 * n \<le> usize_max" "in_memory c \<or> all_clean c" using assms(1) by (auto simp: ready_def)
  obtain d where d: "ensure_loaded blake3 bw i c = (Ok (), d)" "pc_clock d \<le> pc_clock c + 1" "in_memory d \<or> all_clean d"
      "store_page_count (pc_backend d) = store_page_count (pc_backend c)"
    using ensure_loaded_ready [OF c(1) _ c(3) assms(2), of bw] c(2) by auto
  have l: "cache_inv blake3 d" "view_kept blake3 c d" "cache_view blake3 c i = cache_view blake3 d i"
    "\<exists>e. map_of (pc_entries d) i = Some e" using ensure_loaded_Ok [OF c(1) d(1)] by auto
  then obtain e where e: "map_of (pc_entries d) i = Some e" by blast
  let ?e = "e\<lparr>en_last_used := Suc (pc_clock d)\<rparr>"
  let ?c = "d\<lparr>pc_clock := Suc (pc_clock d), pc_entries := AList.update i ?e (pc_entries d)\<rparr>"
  have t: "touch i d = (Ok ?e, ?c)" using e d(2) c(2) by (simp add: touch_def act_then_def tick_def Let_def)
  have "en_page e = p" using l(3) assms(2) e by (simp add: cache_view_def)
  then have "with_page blake3 bw i f c = (f p, ?c)" using d(1) t by (simp add: with_page_def)
  moreover have "cache_inv blake3 ?c \<and> view_kept blake3 d ?c" using touch_Ok [OF l(1) t] by blast
  moreover have "in_memory ?c \<or> all_clean ?c"
    using d(3) map_of_SomeD [OF e] by (intro put_entry_quiet) (auto simp: all_clean_def)
  ultimately show ?thesis using c(2) d(2,4) view_kept_trans [OF l(2)] by (auto simp: ready_def)
qed

section \<open>Pages\<close>

text \<open>What a page holds does not depend on its checksum field.\<close>

lemma row_rep_same_page:
  assumes "row_rep p h rs" "same_page p q"
  shows "row_rep q h rs"
  using assms(1)
proof (rule row_repE)
  fix hdr gap
  assume p: "p = hdr @ slot_entries PAGE_SIZE rs @ gap @ concat (rev rs)" "length hdr = 28" "row_header_decode hdr = Ok h"
    "28 + 4 * length rs + length gap + total rs = 4096" "unat (rh_slot_count h) = length rs"
    "unat (rh_free_space_ptr h) = 28 + 4 * length rs + length gap"
  have q: "length q = length p" "take 24 q = take 24 p" "drop 28 q = drop 28 p"
    using assms(2) by (auto simp: same_page_def size_defs)
  have "q = take 28 q @ slot_entries PAGE_SIZE rs @ gap @ concat (rev rs)"
    using append_take_drop_id [of 28 q] q(3) p(1,2) by simp
  moreover have len: "length (take 28 q) = 28" using q(1) p by simp
  moreover have "row_header_decode (take 28 q) = Ok h"
  proof -
    have "take n (drop k (take 28 q)) = take n (drop k hdr)" if "n + k \<le> 24" for n k
    proof -
      have "take n (drop k (take 28 q)) = take n (drop k (take 24 q))" using that by (simp add: drop_take min_def)
      also have "\<dots> = take n (drop k (take 24 hdr))" using q(2) p(1,2) by simp
      finally show ?thesis using that by (simp add: drop_take min_def)
    qed
    from this [of 8 0] this [of 2 9] this [of 2 11] this [of 8 13] this [of 1 8] have
      f: "take 8 (take 28 q) = take 8 hdr" "take 2 (drop 9 (take 28 q)) = take 2 (drop 9 hdr)"
        "take 2 (drop 11 (take 28 q)) = take 2 (drop 11 hdr)" "take 8 (drop 13 (take 28 q)) = take 8 (drop 13 hdr)"
        "take 1 (drop 8 (take 28 q)) = take 1 (drop 8 hdr)" by simp_all
    have "take 28 q ! 8 = hdr ! 8" using f(5) len p(2) by (simp add: take_Suc hd_drop_conv_nth numeral_eq_Suc)
    with p(2,3) len f show ?thesis by (simp only: row_header_decode_cases)
  qed
  ultimately show ?thesis using p by (intro row_repI) auto
qed

lemma cold_rep_same_page:
  assumes "cold_rep p next used vs len" "same_page p q"
  shows "cold_rep q next used vs len"
proof -
  from assms(1) obtain pid ck arity pad where p: "p = take 24 (cold_header pid next used (of_nat (length vs))) @ ck @
      to_le 2 (of_nat arity :: u16) @ concat (map (envelope_encode \<circ> fst) vs) @
      concat (map enc_col (columns_of (map snd vs) arity)) @ replicate pad 0" (is "p = ?h @ ck @ ?rest")
    and ck: "length ck = 4" "length p = PAGE_SIZE" "len = PAGE_SIZE - pad" "pad \<le> PAGE_SIZE"
    and rest: "list_all (col_ok (length vs)) (columns_of (map snd vs) arity)" "cold_shape_ok used vs arity" "next \<noteq> Some NO_PAGE"
    unfolding cold_rep_def by blast
  have h: "length ?h = 24" by simp
  have q: "length q = length p" "take 24 q = ?h" "drop 28 q = ?rest"
    using assms(2) h ck(1) unfolding p by (simp_all add: same_page_def size_defs)
  have "q = ?h @ take 4 (drop 24 q) @ ?rest"
    using append_take_drop_id [of 24 q] append_take_drop_id [of 4 "drop 24 q"] q by simp
  moreover have "length (take 4 (drop 24 q)) = 4" using q(1) ck(2) by (simp add: size_defs)
  ultimately show ?thesis using ck rest q(1) unfolding cold_rep_def by (intro exI [of _ pid] exI [of _ "take 4 (drop 24 q)"] exI [of _ arity] exI [of _ pad]) simp
qed

text \<open>A page holds versions: a row page as encoded records, a cold page in columns.\<close>

definition page_holds :: "(u64 \<Rightarrow> bytes result) \<Rightarrow> nat \<Rightarrow> bool \<Rightarrow> page \<Rightarrow> page_id option \<Rightarrow> versioned_row list \<Rightarrow> bool" where
  "page_holds get width cold p next vs \<longleftrightarrow>
     (if cold then \<exists>used len. cold_rep p next used vs len
      else \<exists>h rs. row_rep p h rs \<and> next = (if rh_next_page h = NO_PAGE then None else Some (rh_next_page h)) \<and>
        list_all2 (\<lambda>r v. decode_record get r = Ok v) rs vs) \<and>
     (\<forall>v \<in> set vs. length (snd v) = width)"

lemma page_holds_same_page: "page_holds get width cold p next vs \<Longrightarrow> same_page p q \<Longrightarrow> page_holds get width cold q next vs"
  unfolding page_holds_def by (auto dest: row_rep_same_page cold_rep_same_page split: if_splits)

lemma row_rep_kind: "row_rep p h rs \<Longrightarrow> page_kind p = Ok Row \<and> row_ref_new p = Ok p"
  by (elim row_repE)
    (auto simp: page_kind_def row_ref_new_def row_page_header_def row_header_decode_cases page_type_try_from_def split: result.splits if_splits)

lemma cold_rep_kind: "cold_rep p next used vs len \<Longrightarrow> page_kind p = Ok Columnar"
  by (elim cold_repE) (auto simp: page_kind_def columnar_header_decode_cases page_type_try_from_def size_defs split: if_splits)

lemma cold_rep_next: "cold_rep p next used vs len \<Longrightarrow> cold_next_page p = Ok next"
  by (elim cold_repE) (auto simp: cold_next_page_def Let_def split: option.splits)

lemma row_rep_next:
  "row_rep p h rs \<Longrightarrow> row_next_page p = Ok (if rh_next_page h = NO_PAGE then None else Some (rh_next_page h))"
  by (elim row_repE) (simp add: row_next_page_def)

lemma row_rep_slots: "row_rep p h rs \<Longrightarrow> \<exists>n. row_slot_count p = Ok n \<and> unat n = length rs \<and> length rs < 65536"
  by (elim row_repE) (auto simp: row_slot_count_def)

lemma cold_rep_length: "cold_rep p next used vs len \<Longrightarrow> length vs < 65536"
  by (elim cold_repE) (auto simp: cold_shape_ok_def)

lemma page_holds_length: "page_holds get width cold p next vs \<Longrightarrow> length vs < 65536"
  unfolding page_holds_def
  by (cases cold) (auto dest: cold_rep_length, metis list_all2_lengthD row_rep_slots)

lemma page_holds_width: "page_holds get width cold p next vs \<Longrightarrow> v \<in> set vs \<Longrightarrow> length (snd v) = width"
  by (simp add: page_holds_def)

text \<open>Reading one slot.\<close>

lemma page_record_holds:
  assumes "page_holds get width cold p next vs" "cold \<Longrightarrow> cold_pages \<noteq> 0" "unat slot < length vs"
  shows "page_record get cold_pages slot p = Ok (vs ! unat slot)"
proof (cases cold)
  case True
  then obtain used len where c: "cold_rep p next used vs len" using assms(1) by (auto simp: page_holds_def)
  then have "cold_records p = Ok vs" by (simp add: cold_records_def cold_decode_rep zip_map_fst_snd)
  then show ?thesis
    using True assms(2,3) cold_rep_kind [OF c] c
    by (elim cold_repE) (simp add: page_record_def cold_record_def elem_get_def)
next
  case False
  then obtain h rs where r: "row_rep p h rs" "list_all2 (\<lambda>r v. decode_record get r = Ok v) rs vs" using assms(1) by (auto simp: page_holds_def)
  then have "row_record p slot = Ok (rs ! unat slot)" "decode_record get (rs ! unat slot) = Ok (vs ! unat slot)"
    using assms(3) by (auto simp: row_record_rep list_all2_conv_all_nth)
  with row_rep_kind [OF r(1)] show ?thesis by (simp add: page_record_def row_ref_record_def)
qed

section \<open>Visiting\<close>

text \<open>The versions of a page under their addresses, and what a visitor makes of them.\<close>

definition page_versions :: "page_id \<Rightarrow> versioned_row list \<Rightarrow> (record_addr \<times> versioned_row) list" where
  "page_versions pid vs = map (\<lambda>i. (pack_addr pid (of_nat i), vs ! i)) [0..<length vs]"

fun visit_all :: "'v visitor \<Rightarrow> (record_addr \<times> versioned_row) list \<Rightarrow> ('v, unit) action" where
  "visit_all visit [] = act_return (Ok ())"
| "visit_all visit ((a, (e, r)) # vs) = act_then (visit a e r) (\<lambda>_. visit_all visit vs)"

lemma visit_all_append: "visit_all visit (xs @ ys) = act_then (visit_all visit xs) (\<lambda>_. visit_all visit ys)"
proof
  show "visit_all visit (xs @ ys) v = act_then (visit_all visit xs) (\<lambda>_. visit_all visit ys) v" for v
  proof (induction xs arbitrary: v)
    case (Cons x xs)
    obtain a e r where "x = (a, (e, r))" by (cases x) auto
    then show ?case using Cons by (auto simp: act_then_def split: prod.splits result.splits)
  qed simp
qed

text \<open>A traversal step ran the visitor and, if it succeeded, counted what it visited.\<close>

definition steps_to ::
  "(unit result \<times> 'v) \<Rightarrow> 'a \<Rightarrow> nat \<Rightarrow> nat \<Rightarrow> bool \<Rightarrow> 'v scan_state \<Rightarrow> ('a result \<times> 'v scan_state) \<Rightarrow> bool" where
  "steps_to out x n cold tail s res \<longleftrightarrow>
     (case out of
        (Ok _, v) \<Rightarrow> res = (Ok x, s\<lparr>sc_cold := sc_cold s + cold, sc_versions := sc_versions s + n,
                         sc_tail_found := sc_tail_found s \<or> tail, sc_visitor := v\<rparr>)
      | (Err e, v) \<Rightarrow> \<exists>s'. res = (Err e, s') \<and> sc_visitor s' = v
      | (Panic, v) \<Rightarrow> \<exists>s'. res = (Panic, s') \<and> sc_visitor s' = v)"

lemma steps_to_simps:
  "steps_to (Ok u, v) x n cold tail s res \<longleftrightarrow> res = (Ok x, s\<lparr>sc_cold := sc_cold s + cold, sc_versions := sc_versions s + n,
     sc_tail_found := sc_tail_found s \<or> tail, sc_visitor := v\<rparr>)"
  "steps_to (Err e, v) x n cold tail s res \<longleftrightarrow> (\<exists>s'. res = (Err e, s') \<and> sc_visitor s' = v)"
  "steps_to (Panic, v) x n cold tail s res \<longleftrightarrow> (\<exists>s'. res = (Panic, s') \<and> sc_visitor s' = v)"
  by (simp_all add: steps_to_def)

fun run_list :: "nat \<Rightarrow> 'v visitor \<Rightarrow> page_id \<Rightarrow> (u16 \<times> versioned_row) list \<Rightarrow> ('v scan_state, unit) action" where
  "run_list width visit pid [] = act_return (Ok ())"
| "run_list width visit pid ((i, v) # xs) = act_then (visit_version width visit pid i v) (\<lambda>_. run_list width visit pid xs)"

lemma run_list_steps:
  assumes "\<forall>(i, v) \<in> set xs. length (snd v) = width" "sc_versions s + length xs \<le> usize_max"
  shows "steps_to (visit_all visit (map (\<lambda>(i, v). (pack_addr pid i, v)) xs) (sc_visitor s)) () (length xs) 0 False s
    (run_list width visit pid xs s)"
  using assms
proof (induction xs arbitrary: s)
  case (Cons x xs)
  obtain i e r where x: "x = (i, (e, r))" by (cases x) auto
  let ?a = "pack_addr pid i"
  show ?case
  proof (cases "visit ?a e r (sc_visitor s)")
    case (Pair res v)
    let ?s = "s\<lparr>sc_versions := sc_versions s + 1, sc_visitor := v\<rparr>"
    have step: "visit_version width visit pid i (e, r) s = (res, ?s)"
      using Cons.prems x Pair
      by (simp add: visit_version_def count_scanned_def act_then_def run_visitor_def saturating_add_def)
    show ?thesis
    proof (cases res)
      case (Ok u)
      have "steps_to (visit_all visit (map (\<lambda>(i, v). (pack_addr pid i, v)) xs) (sc_visitor ?s)) () (length xs) 0 False ?s
          (run_list width visit pid xs ?s)"
        using Cons.prems by (intro Cons.IH) auto
      with step Ok Pair x show ?thesis by (auto simp: steps_to_def act_then_def split: prod.splits result.splits)
    qed (use step Pair x in \<open>simp_all add: steps_to_def\<close>)
  qed
qed (simp add: steps_to_def)

lemma for_slots_run_list:
  "(\<And>i s. i \<in> set is \<Longrightarrow> f i s = visit_version width visit pid i (g i) s) \<Longrightarrow>
   for_slots f is s = run_list width visit pid (map (\<lambda>i. (i, g i)) is) s"
  by (induction "is" arbitrary: s) (auto intro!: act_then_cong)

lemma cold_run_list:
  "\<forall>v \<in> set vs. length (snd v) = width \<Longrightarrow> k + length vs \<le> 65536 \<Longrightarrow>
   visit_cold_records width visit pid k vs s = run_list width visit pid (map (\<lambda>i. (of_nat i, vs ! (i - k))) [k..<k + length vs]) s"
proof (induction vs arbitrary: k s)
  case (Cons v vs)
  have eq: "map (\<lambda>i. (of_nat i, (v # vs) ! (i - k))) [k..<k + length (v # vs)] =
      (of_nat k, v) # map (\<lambda>i. (of_nat i, vs ! (i - Suc k))) [Suc k..<Suc k + length vs]"
    by (auto simp: upt_conv_Cons nth_Cons' simp del: upt_Suc)
  from Cons.prems have "visit_cold_records width visit pid (Suc k) vs s' =
      run_list width visit pid (map (\<lambda>i. (of_nat i, vs ! (i - Suc k))) [Suc k..<Suc k + length vs]) s'" for s'
    by (intro Cons.IH) auto
  with Cons.prems show ?case unfolding eq by (auto intro!: act_then_cong)
qed simp

lemma page_versions_run:
  "page_versions pid vs = map (\<lambda>(i, v). (pack_addr pid i, v)) (map (\<lambda>i. (of_nat i, vs ! i)) [0..<length vs])"
  by (simp add: page_versions_def)

lemma row_page_steps:
  assumes "row_rep p h rs" "list_all2 (\<lambda>r v. decode_record get r = Ok v) rs vs" "\<forall>v \<in> set vs. length (snd v) = width"
    and "sc_versions s + length vs \<le> usize_max"
  shows "steps_to (visit_all visit (page_versions pid vs) (sc_visitor s))
    (if rh_next_page h = NO_PAGE then None else Some (rh_next_page h)) (length vs) 0 False s (visit_row_page get width visit pid p s)"
proof -
  obtain n where n: "row_slot_count p = Ok n" "unat n = length vs" "length vs < 65536"
    using row_rep_slots [OF assms(1)] list_all2_lengthD [OF assms(2)] by auto
  let ?f = "\<lambda>slot. act_then (act_return (and_then (row_record p slot) (decode_record get))) (visit_version width visit pid slot)"
  have "?f i s' = visit_version width visit pid i (vs ! unat i) s'" if i: "i \<in> set (map of_nat [0..<unat n])" for i s'
  proof -
    from i n have "unat i < length vs" by (auto simp: unat_of_nat_u16)
    with assms(1,2) show ?thesis by (auto simp: row_record_rep list_all2_conv_all_nth act_then_def)
  qed
  then have "for_slots ?f (map of_nat [0..<unat n]) s = run_list width visit pid (map (\<lambda>i. (i, vs ! unat i)) (map of_nat [0..<unat n])) s"
    by (rule for_slots_run_list)
  also have "map (\<lambda>i. (i, vs ! unat i)) (map of_nat [0..<unat n]) = map (\<lambda>i. (of_nat i :: u16, vs ! i)) [0..<length vs]"
    using n by (auto simp: unat_of_nat_u16)
  finally have run: "for_slots ?f (map of_nat [0..<unat n]) s = run_list width visit pid (map (\<lambda>i. (of_nat i, vs ! i)) [0..<length vs]) s" .
  have "steps_to (visit_all visit (page_versions pid vs) (sc_visitor s)) () (length vs) 0 False s
      (run_list width visit pid (map (\<lambda>i. (of_nat i, vs ! i)) [0..<length vs]) s)"
    using run_list_steps [of "map (\<lambda>i. (of_nat i, vs ! i)) [0..<length vs]" width s visit pid] assms(3,4)
    by (auto simp: page_versions_run simp del: map_map)
  then show ?thesis
    using n(1) row_rep_next [OF assms(1)] run
    by (auto simp: visit_row_page_def steps_to_def act_then_def split: prod.splits result.splits)
qed

lemma scan_page_steps:
  assumes "page_holds get (length (tb_columns t)) cold p next vs" "cold \<Longrightarrow> sc_cold s < tb_cold_pages t"
    and "sc_versions s + length vs \<le> usize_max"
  shows "steps_to (visit_all visit (page_versions pid vs) (sc_visitor s)) next (length vs) (if cold then 1 else 0) False s
    (scan_page get t visit pid p s)"
proof (cases cold)
  case True
  then obtain used len where c: "cold_rep p next used vs len" and w: "\<forall>v \<in> set vs. length (snd v) = length (tb_columns t)"
    using assms(1) by (auto simp: page_holds_def)
  let ?s = "s\<lparr>sc_cold := sc_cold s + 1\<rparr>"
  have "visit_cold_records (length (tb_columns t)) visit pid 0 vs ?s =
      run_list (length (tb_columns t)) visit pid (map (\<lambda>i. (of_nat i, vs ! i)) [0..<length vs]) ?s"
    using cold_run_list [OF w, of 0 visit pid ?s] cold_rep_length [OF c] by simp
  moreover have "steps_to (visit_all visit (page_versions pid vs) (sc_visitor ?s)) () (length vs) 0 False ?s
      (run_list (length (tb_columns t)) visit pid (map (\<lambda>i. (of_nat i, vs ! i)) [0..<length vs]) ?s)"
    using run_list_steps [of "map (\<lambda>i. (of_nat i, vs ! i)) [0..<length vs]" "length (tb_columns t)" ?s visit pid] w assms(3)
    by (auto simp: page_versions_run simp del: map_map)
  moreover have "cold_records p = Ok vs" using c by (simp add: cold_records_def cold_decode_rep zip_map_fst_snd)
  moreover have "count_cold (tb_cold_pages t) s = (Ok (), ?s)" using True assms(2) by (simp add: count_cold_def)
  ultimately show ?thesis
    using True cold_rep_kind [OF c] cold_rep_next [OF c]
    by (auto simp: scan_page_def steps_to_def act_then_def split: prod.splits result.splits)
next
  case False
  then obtain h rs where r: "row_rep p h rs" "next = (if rh_next_page h = NO_PAGE then None else Some (rh_next_page h))"
    "list_all2 (\<lambda>r v. decode_record get r = Ok v) rs vs" "\<forall>v \<in> set vs. length (snd v) = length (tb_columns t)"
    using assms(1) by (auto simp: page_holds_def)
  from row_page_steps [OF r(1,3,4) assms(3), of visit pid] row_rep_kind [OF r(1)] False r(2) show ?thesis
    by (simp add: scan_page_def)
qed

section \<open>Chains\<close>

type_synonym chain = "(page_id \<times> bool \<times> versioned_row list) list"

definition resident_page :: "table \<Rightarrow> page_id \<Rightarrow> row_page option" where
  "resident_page t pid = (if Some pid = tb_tail_id t then tb_tail t else None)"

definition table_page :: "hash_fn \<Rightarrow> 'j page_cache \<Rightarrow> table \<Rightarrow> page_id \<Rightarrow> page result" where
  "table_page blake3 c t pid = (case resident_page t pid of Some p \<Rightarrow> Ok p | None \<Rightarrow> cache_view blake3 c pid)"

fun chain_seg :: "hash_fn \<Rightarrow> (u64 \<Rightarrow> bytes result) \<Rightarrow> 'j page_cache \<Rightarrow> table \<Rightarrow> page_id option \<Rightarrow> chain \<Rightarrow> page_id option \<Rightarrow> bool" where
  "chain_seg blake3 get c t start [] stop \<longleftrightarrow> start = stop"
| "chain_seg blake3 get c t start ((pid, cold, vs) # ch) stop \<longleftrightarrow> start = Some pid \<and>
     (resident_page t pid \<noteq> None \<longrightarrow> \<not> cold) \<and>
     (\<exists>p next. table_page blake3 c t pid = Ok p \<and> page_holds get (length (tb_columns t)) cold p next vs \<and>
        chain_seg blake3 get c t next ch stop)"

abbreviation chain_from :: "hash_fn \<Rightarrow> (u64 \<Rightarrow> bytes result) \<Rightarrow> 'j page_cache \<Rightarrow> table \<Rightarrow> page_id option \<Rightarrow> chain \<Rightarrow> bool" where
  "chain_from blake3 get c t start ch \<equiv> chain_seg blake3 get c t start ch None"

lemma chain_seg_append:
  "chain_seg blake3 get c t start (xs @ ys) stop \<longleftrightarrow> (\<exists>mid. chain_seg blake3 get c t start xs mid \<and> chain_seg blake3 get c t mid ys stop)"
  by (induction xs arbitrary: start) (auto, blast+)

definition chain_versions :: "chain \<Rightarrow> (record_addr \<times> versioned_row) list" where
  "chain_versions ch = concat (map (\<lambda>(pid, cold, vs). page_versions pid vs) ch)"

definition chain_cold :: "chain \<Rightarrow> nat" where
  "chain_cold ch = length (filter (\<lambda>(pid, cold, vs). cold) ch)"

lemma chain_simps [simp]:
  "chain_versions [] = []" "chain_versions ((pid, cold, vs) # ch) = page_versions pid vs @ chain_versions ch"
  "chain_cold [] = 0" "chain_cold ((pid, cold, vs) # ch) = (if cold then 1 else 0) + chain_cold ch"
  "chain_versions (xs @ ys) = chain_versions xs @ chain_versions ys" "chain_cold (xs @ ys) = chain_cold xs + chain_cold ys"
  by (simp_all add: chain_versions_def chain_cold_def)

lemma length_page_versions [simp]: "length (page_versions pid vs) = length vs"
  by (simp add: page_versions_def)

lemma chain_seg_transfer:
  assumes "chain_seg blake3 get c t start ch stop" "tb_columns t' = tb_columns t"
    and "\<And>pid p. pid \<in> fst ` set ch \<Longrightarrow> table_page blake3 c t pid = Ok p \<Longrightarrow> \<exists>q. table_page blake3 c' t' pid = Ok q \<and> same_page p q"
    and "\<And>pid. pid \<in> fst ` set ch \<Longrightarrow> resident_page t' pid \<noteq> None \<Longrightarrow> resident_page t pid \<noteq> None"
  shows "chain_seg blake3 get c' t' start ch stop"
  using assms(1,3,4)
proof (induction ch arbitrary: start)
  case (Cons x ch)
  obtain pid cold vs where x: "x = (pid, cold, vs)" by (cases x) auto
  with Cons.prems(1) obtain p "next" where p: "table_page blake3 c t pid = Ok p" "page_holds get (length (tb_columns t)) cold p next vs"
    "chain_seg blake3 get c t next ch stop" "start = Some pid" "resident_page t pid \<noteq> None \<longrightarrow> \<not> cold" by auto
  obtain q where q: "table_page blake3 c' t' pid = Ok q" "same_page p q"
    using Cons.prems(2) [OF _ p(1)] x by auto
  have "chain_seg blake3 get c' t' next ch stop" using p(3) Cons.prems(2,3) by (intro Cons.IH) auto
  moreover have "resident_page t' pid \<noteq> None \<longrightarrow> \<not> cold" using Cons.prems(3) [of pid] x p(5) by auto
  ultimately show ?case using page_holds_same_page [OF p(2) q(2)] q(1) p(4) x assms(2) by auto
qed simp

lemma chain_from_kept:
  assumes "chain_from blake3 get c t start ch" "view_kept blake3 c c'"
  shows "chain_from blake3 get c' t start ch"
proof (rule chain_seg_transfer [OF assms(1)])
  fix pid p
  assume "table_page blake3 c t pid = Ok p"
  then show "\<exists>q. table_page blake3 c' t pid = Ok q \<and> same_page p q"
    using assms(2) by (cases "resident_page t pid") (auto simp: table_page_def view_kept_def)
qed simp_all

text \<open>The tail is the last page and no other.\<close>

definition tail_last :: "table \<Rightarrow> chain \<Rightarrow> bool" where
  "tail_last t ch \<longleftrightarrow> (\<forall>x \<in> set (butlast ch). tb_tail_id t \<noteq> Some (fst x)) \<and> (ch \<noteq> [] \<longrightarrow> tb_tail_id t = Some (fst (last ch)))"

lemma tail_last_Cons:
  "tail_last t (x # ch) \<longleftrightarrow> (if ch = [] then tb_tail_id t = Some (fst x) else tb_tail_id t \<noteq> Some (fst x) \<and> tail_last t ch)"
  by (auto simp: tail_last_def)

lemma page_step:
  assumes "table_page blake3 c t pid = Ok p" "page_holds get (length (tb_columns t)) cold p next vs" "resident_page t pid \<noteq> None \<longrightarrow> \<not> cold"
    and "ready blake3 (Suc n) c" "cold \<Longrightarrow> sc_cold s < tb_cold_pages t" "sc_versions s + length vs \<le> usize_max"
  shows "\<exists>c' r s'. (case resident_page t pid of
        Some tail \<Rightarrow> on_rest (visit_row_page get (length (tb_columns t)) visit pid tail)
      | None \<Rightarrow> run_on_page blake3 bw pid (scan_page get t visit pid)) (c, s) = (r, (c', s')) \<and>
    steps_to (visit_all visit (page_versions pid vs) (sc_visitor s)) next (length vs) (if cold then 1 else 0) False s (r, s') \<and>
    ready blake3 n c' \<and> view_kept blake3 c c'"
proof (cases "resident_page t pid")
  case None
  with assms(1) have v: "cache_view blake3 c pid = Ok p" by (simp add: table_page_def)
  obtain r s' where out: "scan_page get t visit pid p s = (r, s')" by (cases "scan_page get t visit pid p s")
  from with_page_ready [OF assms(4) v, of bw "\<lambda>buf. Ok (scan_page get t visit pid buf s)"] obtain c' where
    c': "with_page blake3 bw pid (\<lambda>buf. Ok (scan_page get t visit pid buf s)) c = (Ok (r, s'), c')"
      "ready blake3 n c'" "view_kept blake3 c c'" using out by auto
  with None out scan_page_steps [OF assms(2,5,6), of visit pid] show ?thesis by (auto simp: run_on_page_def)
next
  case (Some tail)
  with assms(1,3) have t: "tail = p" "\<not> cold" by (auto simp: table_page_def)
  with assms(2) obtain h rs where r: "row_rep p h rs" "next = (if rh_next_page h = NO_PAGE then None else Some (rh_next_page h))"
    "list_all2 (\<lambda>r v. decode_record get r = Ok v) rs vs" "\<forall>v \<in> set vs. length (snd v) = length (tb_columns t)"
    by (auto simp: page_holds_def)
  obtain res s' where out: "visit_row_page get (length (tb_columns t)) visit pid p s = (res, s')"
    by (cases "visit_row_page get (length (tb_columns t)) visit pid p s")
  from row_page_steps [OF r(1,3,4) assms(6), of visit pid] out Some t r(2) ready_mono [OF assms(4), of n] show ?thesis
    by (auto simp: on_rest_def)
qed

lemma walk_steps:
  assumes "chain_from blake3 get c t start ch" "tail_last t ch" "length ch \<le> hops" "ready blake3 (length ch) c"
    and "sc_cold s + chain_cold ch \<le> tb_cold_pages t" "sc_versions s + length (chain_versions ch) \<le> usize_max"
  shows "\<exists>c' r s'. walk blake3 bw t (visit_row_page get (length (tb_columns t)) visit) (scan_page get t visit) hops start (c, s) = (r, (c', s')) \<and>
    steps_to (visit_all visit (chain_versions ch) (sc_visitor s)) () (length (chain_versions ch)) (chain_cold ch) (ch \<noteq> []) s (r, s') \<and>
    cache_inv blake3 c' \<and> view_kept blake3 c c'"
  using assms
proof (induction ch arbitrary: start hops c s)
  case Nil
  then show ?case by (auto simp: steps_to_def ready_def)
next
  case (Cons x ch)
  obtain pid cold vs where x: "x = (pid, cold, vs)" by (cases x) auto
  obtain k where hops: "hops = Suc k" "length ch \<le> k" using Cons.prems(3) by (cases hops) auto
  from Cons.prems(1) x obtain p "next" where p: "start = Some pid" "resident_page t pid \<noteq> None \<longrightarrow> \<not> cold"
    "table_page blake3 c t pid = Ok p" "page_holds get (length (tb_columns t)) cold p next vs" "chain_from blake3 get c t next ch" by auto
  define is_tail where "is_tail = (Some pid = tb_tail_id t)"
  have tail: "is_tail \<longleftrightarrow> ch = []" "ch \<noteq> [] \<Longrightarrow> tail_last t ch"
    using Cons.prems(2) x by (auto simp: is_tail_def tail_last_Cons split: if_splits)
  define s0 where "s0 = (if is_tail then s\<lparr>sc_tail_found := True\<rparr> else s)"
  have s0: "sc_cold s0 = sc_cold s" "sc_versions s0 = sc_versions s" "sc_visitor s0 = sc_visitor s"
    "sc_tail_found s0 \<longleftrightarrow> sc_tail_found s \<or> is_tail" by (simp_all add: s0_def)
  have "ready blake3 (Suc (length ch)) c" "cold \<Longrightarrow> sc_cold s0 < tb_cold_pages t" "sc_versions s0 + length vs \<le> usize_max"
    using Cons.prems(4,5,6) x s0 by auto
  from page_step [OF p(3,4,2) this, of bw visit] obtain d r1 s1 where
    page: "(case resident_page t pid of
        Some tail \<Rightarrow> on_rest (visit_row_page get (length (tb_columns t)) visit pid tail)
      | None \<Rightarrow> run_on_page blake3 bw pid (scan_page get t visit pid)) (c, s0) = (r1, (d, s1))"
      "steps_to (visit_all visit (page_versions pid vs) (sc_visitor s0)) next (length vs) (if cold then 1 else 0) False s0 (r1, s1)"
      "ready blake3 (length ch) d" "view_kept blake3 c d" by blast
  have walk: "walk blake3 bw t (visit_row_page get (length (tb_columns t)) visit) (scan_page get t visit) hops start (c, s) =
      act_then (\<lambda>_. (r1, (d, s1))) (\<lambda>next. act_then (act_return (tail_ends is_tail next)) (\<lambda>_.
        walk blake3 bw t (visit_row_page get (length (tb_columns t)) visit) (scan_page get t visit) k next)) (c, s0)"
  proof -
    have "on_rest (mark_tail is_tail) (c, s) = (Ok (), (c, s0))" by (simp add: on_rest_def mark_tail_def s0_def)
    moreover have "(if is_tail then tb_tail t else None) = resident_page t pid" by (simp add: resident_page_def is_tail_def)
    ultimately show ?thesis
      using page(1) unfolding hops p(1) walk.simps Let_def is_tail_def [symmetric] by (simp add: act_then_def)
  qed
  show ?case
  proof (cases "visit_all visit (page_versions pid vs) (sc_visitor s0)")
    case (Pair res v)
    show ?thesis
    proof (cases res)
      case (Ok u)
      let ?s1 = "s0\<lparr>sc_cold := sc_cold s0 + (if cold then 1 else 0), sc_versions := sc_versions s0 + length vs, sc_visitor := v\<rparr>"
      have s1: "r1 = Ok next" "s1 = ?s1" using page(2) Pair Ok by (simp_all add: steps_to_simps)
      have "tail_ends is_tail next = Ok ()" using tail(1) p(5) by (auto simp: tail_ends_def)
      then have walk': "walk blake3 bw t (visit_row_page get (length (tb_columns t)) visit) (scan_page get t visit) hops start (c, s) =
          walk blake3 bw t (visit_row_page get (length (tb_columns t)) visit) (scan_page get t visit) k next (d, ?s1)"
        unfolding walk s1 by (simp add: act_then_def)
      have "tail_last t ch" using tail by (cases "ch = []") (auto simp: tail_last_def)
      moreover have "sc_cold ?s1 + chain_cold ch \<le> tb_cold_pages t" "sc_versions ?s1 + length (chain_versions ch) \<le> usize_max"
        using Cons.prems(5,6) x s0 by auto
      ultimately obtain c' r s' where
        ih: "walk blake3 bw t (visit_row_page get (length (tb_columns t)) visit) (scan_page get t visit) k next (d, ?s1) = (r, (c', s'))"
          "steps_to (visit_all visit (chain_versions ch) (sc_visitor ?s1)) () (length (chain_versions ch)) (chain_cold ch) (ch \<noteq> []) ?s1 (r, s')"
          "cache_inv blake3 c'" "view_kept blake3 d c'"
        using Cons.IH [OF chain_from_kept [OF p(5) page(4)] _ hops(2) page(3)] by blast
      have "visit_all visit (chain_versions (x # ch)) (sc_visitor s) = visit_all visit (chain_versions ch) v"
        using Pair Ok x s0 by (simp add: visit_all_append)
      with ih(2) tail(1) x s0 have "steps_to (visit_all visit (chain_versions (x # ch)) (sc_visitor s)) () (length (chain_versions (x # ch)))
          (chain_cold (x # ch)) (x # ch \<noteq> []) s (r, s')"
        by (auto simp: steps_to_def add.assoc add.commute split: prod.splits result.splits if_splits)
      with walk' ih view_kept_trans [OF page(4)] show ?thesis by auto
    qed (use page Pair walk x s0 ready_def in \<open>fastforce simp: steps_to_def visit_all_append act_then_def\<close>)+
  qed
qed

section \<open>Tables\<close>

definition table_rep :: "hash_fn \<Rightarrow> (u64 \<Rightarrow> bytes result) \<Rightarrow> 'j page_cache \<Rightarrow> table \<Rightarrow> chain \<Rightarrow> bool" where
  "table_rep blake3 get c t ch \<longleftrightarrow>
     cache_inv blake3 c \<and> chain_from blake3 get c t (tb_first_page t) ch \<and> tail_last t ch \<and>
     (ch = [] \<longrightarrow> tb_tail_id t = None \<and> tb_tail t = None) \<and> distinct (map fst ch) \<and>
     (\<forall>pid \<in> fst ` set ch. pid < store_page_count (pc_backend c) \<and> pid < 2 ^ 48) \<and>
     tb_cold_pages t = chain_cold ch \<and> tb_row_versions t = length (chain_versions ch) \<and> tb_row_versions t \<le> usize_max \<and>
     (\<forall>ids. tb_page_ids t = Some ids \<longrightarrow> ids = fst ` set ch) \<and>
     (\<forall>k. tb_compaction_cursor t = Some k \<longrightarrow> k \<in> fst ` set ch)"

lemma table_repD:
  assumes "table_rep blake3 get c t ch"
  shows "cache_inv blake3 c" "chain_from blake3 get c t (tb_first_page t) ch" "tail_last t ch" "distinct (map fst ch)"
    "tb_cold_pages t = chain_cold ch" "tb_row_versions t = length (chain_versions ch)" "tb_row_versions t \<le> usize_max"
    "ch = [] \<Longrightarrow> tb_tail_id t = None" "\<And>pid. pid \<in> fst ` set ch \<Longrightarrow> pid < store_page_count (pc_backend c) \<and> pid < 2 ^ 48"
    "\<And>ids. tb_page_ids t = Some ids \<Longrightarrow> ids = fst ` set ch" "\<And>k. tb_compaction_cursor t = Some k \<Longrightarrow> k \<in> fst ` set ch"
  using assms unfolding table_rep_def by blast+

lemma chain_fits:
  assumes "table_rep blake3 get c t ch"
  shows "length ch \<le> max_hops c"
proof -
  have "inj_on unat (fst ` set ch)" by (rule inj_onI) (erule unsigned_word_eqI)
  then have "length ch = card (unat ` fst ` set ch)"
    using distinct_card [OF table_repD(4) [OF assms]] by (simp add: card_image)
  also have "\<dots> \<le> card {..<unat (store_page_count (pc_backend c))}"
    using table_repD(9) [OF assms] by (intro card_mono) (auto simp: word_less_nat_alt)
  finally have "length ch \<le> unat (store_page_count (pc_backend c))" by simp
  moreover have "unat (store_page_count (pc_backend c)) \<le> usize_max"
    using unsigned_less [of "store_page_count (pc_backend c)", where 'a = nat] by (simp add: usize_max_def)
  ultimately show ?thesis by (simp add: max_hops_def saturating_add_def)
qed

lemma table_rep_kept:
  assumes "table_rep blake3 get c t ch" "cache_inv blake3 c'" "view_kept blake3 c c'"
    "store_page_count (pc_backend c') = store_page_count (pc_backend c)"
  shows "table_rep blake3 get c' t ch"
  using assms chain_from_kept [OF _ assms(3)] unfolding table_rep_def by simp

text \<open>Addresses are unique within a table.\<close>

lemma addr_unpack:
  assumes "pid < 2 ^ 48" "i < 65536"
  shows "unpack_addr (pack_addr pid (of_nat i)) = (pid, of_nat i) \<and> unat (of_nat i :: u16) = i"
  using assms unpack_pack_addr by (simp add: unat_of_nat_u16)

lemma in_page_versions: "(a, v) \<in> set (page_versions pid vs) \<longleftrightarrow> (\<exists>i < length vs. a = pack_addr pid (of_nat i) \<and> v = vs ! i)"
  by (auto simp: page_versions_def)

lemma in_chain_versions:
  "(a, v) \<in> set (chain_versions ch) \<longleftrightarrow> (\<exists>pid cold vs i. (pid, cold, vs) \<in> set ch \<and> i < length vs \<and> a = pack_addr pid (of_nat i) \<and> v = vs ! i)"
  unfolding chain_versions_def by (auto simp: in_page_versions) blast

lemma chain_from_mem:
  "chain_from blake3 get c t start ch \<Longrightarrow> (pid, cold, vs) \<in> set ch \<Longrightarrow>
   \<exists>p next. table_page blake3 c t pid = Ok p \<and> page_holds get (length (tb_columns t)) cold p next vs \<and> (resident_page t pid \<noteq> None \<longrightarrow> \<not> cold)"
  by (induction ch arbitrary: start) (auto, blast+)

lemma chain_cold_mem: "(pid, True, vs) \<in> set ch \<Longrightarrow> chain_cold ch \<noteq> 0"
  by (auto simp: chain_cold_def filter_empty_conv)

lemma version_at:
  assumes "table_rep blake3 get c t ch" "(a, v) \<in> set (chain_versions ch)"
  obtains pid cold vs i p "next" where "(pid, cold, vs) \<in> set ch" "unpack_addr a = (pid, of_nat i)" "unat (of_nat i :: u16) = i"
    "i < length vs" "v = vs ! i" "table_page blake3 c t pid = Ok p" "page_holds get (length (tb_columns t)) cold p next vs"
    "resident_page t pid \<noteq> None \<longrightarrow> \<not> cold" "a = pack_addr pid (of_nat i)"
proof -
  from assms(2) obtain pid cold vs i where m: "(pid, cold, vs) \<in> set ch" "i < length vs" "a = pack_addr pid (of_nat i)" "v = vs ! i"
    by (auto simp: in_chain_versions)
  from chain_from_mem [OF table_repD(2) [OF assms(1)] m(1)] obtain p "next" where p: "table_page blake3 c t pid = Ok p"
    "page_holds get (length (tb_columns t)) cold p next vs" "resident_page t pid \<noteq> None \<longrightarrow> \<not> cold" by blast
  have "pid < 2 ^ 48" using table_repD(9) [OF assms(1)] m(1) by force
  then have u: "unpack_addr a = (pid, of_nat i)" "unat (of_nat i :: u16) = i"
    using addr_unpack [of pid i] page_holds_length [OF p(2)] m by simp_all
  show thesis by (rule that [OF m(1) u m(2,4) p m(3)])
qed

lemma chain_versions_distinct:
  assumes "distinct (map fst ch)" "\<forall>(pid, cold, vs) \<in> set ch. pid < 2 ^ 48 \<and> length vs < 65536"
  shows "distinct (map fst (chain_versions ch))"
  using assms
proof (induction ch)
  case (Cons x ch)
  obtain pid cold vs where x: "x = (pid, cold, vs)" by (cases x) auto
  have "inj_on (\<lambda>i. pack_addr pid (of_nat i)) {..<length vs}"
    by (rule inj_onI) (use Cons.prems x addr_unpack [of pid] in \<open>auto, metis less_trans prod.inject\<close>)
  then have "distinct (map fst (page_versions pid vs))"
    by (simp add: page_versions_def comp_def distinct_map atLeast0LessThan)
  moreover have "fst ` set (page_versions pid vs) \<inter> fst ` set (chain_versions ch) = {}"
  proof -
    have False if a: "(a, v) \<in> set (page_versions pid vs)" "(a, w) \<in> set (chain_versions ch)" for a v w
    proof -
      from a(1) x Cons.prems have "fst (unpack_addr a) = pid" using addr_unpack [of pid] by (auto simp: in_page_versions)
      moreover from a(2) obtain pid' cold' vs' i where "(pid', cold', vs') \<in> set ch" "i < length vs'" "a = pack_addr pid' (of_nat i)"
        by (auto simp: in_chain_versions)
      moreover from this Cons.prems(2) have "fst (unpack_addr a) = pid'" using addr_unpack [of pid' i] by fastforce
      ultimately show False using Cons.prems(1) x by force
    qed
    then show ?thesis by force
  qed
  ultimately show ?case using Cons x by auto
qed simp

lemma table_versions_distinct:
  assumes "table_rep blake3 get c t ch"
  shows "distinct (map fst (chain_versions ch))"
proof (rule chain_versions_distinct)
  show "\<forall>(pid, cold, vs) \<in> set ch. pid < 2 ^ 48 \<and> length vs < 65536"
    using table_repD(9) [OF assms] chain_from_mem [OF table_repD(2) [OF assms]] page_holds_length by fastforce
qed (rule table_repD(4) [OF assms])

lemma scan_visits:
  assumes "table_rep blake3 get c t ch" "ready blake3 (length ch) c"
  shows "\<exists>c'. scan blake3 bw get t visit (c, v) =
      (case visit_all visit (chain_versions ch) v of (r, v') \<Rightarrow> (r, (c', v'))) \<and>
    cache_inv blake3 c' \<and> view_kept blake3 c c'"
proof -
  note t = table_repD [OF assms(1)]
  let ?w = "walk blake3 bw t (visit_row_page get (length (tb_columns t)) visit) (scan_page get t visit) (max_hops c) (tb_first_page t)"
  have "sc_cold (scan_start t v) + chain_cold ch \<le> tb_cold_pages t"
    "sc_versions (scan_start t v) + length (chain_versions ch) \<le> usize_max" using t(5,6,7) by (simp_all add: scan_start_def)
  note ws = walk_steps [OF t(2,3) chain_fits [OF assms(1)] assms(2) this, of bw visit]
  have "sc_visitor (scan_start t v) = v" by (simp add: scan_start_def)
  with ws obtain c' r s' where
    w: "?w (c, scan_start t v) = (r, (c', s'))" "cache_inv blake3 c'" "view_kept blake3 c c'"
      "steps_to (visit_all visit (chain_versions ch) v) () (length (chain_versions ch)) (chain_cold ch) (ch \<noteq> []) (scan_start t v) (r, s')"
    by metis
  have "scan blake3 bw get t visit (c, v) = (case visit_all visit (chain_versions ch) v of (r, v') \<Rightarrow> (r, (c', v')))"
  proof (cases "visit_all visit (chain_versions ch) v")
    case (Pair out v')
    have "sc_tail_found (scan_start t v) \<or> ch \<noteq> []" using t(8) by (auto simp: scan_start_def)
    with w Pair t(5,6) show ?thesis
      by (cases out) (auto simp: scan_def traverse_def steps_to_def on_rest_def check_totals_def scan_start_def)
  qed
  with w(2,3) show ?thesis by blast
qed

end
