(* ===== verification/Table_Store.thy ===== *)
theory Table_Store
  imports Version_Store
begin

text \<open>
  Allocating pages and appending a version, on the abstract chain.
\<close>

section \<open>Allocating pages\<close>

lemma backend_alloc_Ok:
  assumes "plain_store b" "backend_alloc_page b = (Ok i, b')" "store_page_count b < 2 ^ 48"
  shows "plain_store b' \<and> i = store_page_count b \<and> store_page_count b' = i + 1 \<and> i < i + 1 \<and>
    (\<forall>j p. backend_read_page b j = Ok p \<longrightarrow> backend_read_page b' j = Ok p)"
proof -
  obtain s fs where b: "b = (s, fs)" by (cases b)
  have less: "x < x + 1" if "x < 2 ^ 48" for x :: u64
  proof -
    have "unat x < 2 ^ 48" using that by (simp add: word_less_nat_alt)
    then have "unat (x + 1) = unat x + 1" by (simp add: unat_word_ariths)
    then show ?thesis by (simp add: word_less_nat_alt)
  qed
  show ?thesis
  proof (cases s)
    case (Dev d)
    then have i: "i = ds_page_count d" "b' = (Dev (d\<lparr>ds_page_count := ds_page_count d + 1\<rparr>), fs)"
      using assms(2) b by (auto simp: dev_alloc_page_def split: if_splits)
    have lt: "ds_page_count d < ds_page_count d + 1" using less assms(3) b Dev by (simp add: store_page_count_def)
    have "dev_read_page (d\<lparr>ds_page_count := ds_page_count d + 1\<rparr>, fs) j = Ok p" if "dev_read_page (d, fs) j = Ok p" for j p
      using that lt by (auto simp: dev_read_page_def split: if_splits)
    with i lt b Dev assms(1) show ?thesis by (simp add: store_page_count_def)
  next
    case (Mem m)
    then have i: "i = of_nat (length m)" "b' = (Mem (m @ [replicate PAGE_SIZE 0]), fs)"
      using assms(2) b by (auto simp: mem_alloc_page_def)
    have len: "length m \<le> usize_max" using assms(1) b Mem by simp
    then have "unat (of_nat (length m) :: u64) = length m" by (simp add: unat_of_nat usize_max_def)
    with assms(3) b Mem have "length m < 2 ^ 48" by (simp add: store_page_count_def mem_page_count_def word_less_nat_alt)
    moreover have "i < i + 1" using less assms(3) i(1) b Mem by (simp add: store_page_count_def mem_page_count_def)
    ultimately show ?thesis
      using i b Mem assms(1) by (auto simp: store_page_count_def mem_page_count_def mem_read_page_def elem_get_def nth_append usize_max_def split: if_splits)
  qed (use assms(2) b in auto)
qed

lemma cache_alloc_Ok:
  assumes "cache_inv blake3 c" "cache_alloc_page c = (Ok i, c')" "store_page_count (pc_backend c) < 2 ^ 48"
  shows "cache_inv blake3 c'" "i = store_page_count (pc_backend c)" "store_page_count (pc_backend c') = i + 1" "i < i + 1"
    "view_kept blake3 c c'" "pc_clock c' = pc_clock c" "in_memory c \<Longrightarrow> in_memory c'"
proof -
  obtain b' where b': "backend_alloc_page (pc_backend c) = (Ok i, b')" "c' = c\<lparr>pc_backend := b'\<rparr>"
    using assms(2) by (cases "backend_alloc_page (pc_backend c)") (auto simp: cache_alloc_page_def)
  have core: "plain_store (pc_backend c)" using assms(1) by (simp add: cache_inv_def cache_core_def)
  note a = backend_alloc_Ok [OF core b'(1) assms(3)]
  show "i = store_page_count (pc_backend c)" "store_page_count (pc_backend c') = i + 1" "i < i + 1" "pc_clock c' = pc_clock c"
    using a b'(2) by auto
  have "Page_Cache.entry_ok blake3 b' j e" if "Page_Cache.entry_ok blake3 (pc_backend c) j e" for j e
    using that a by (auto simp: Page_Cache.entry_ok_def)
  with assms(1) a show "cache_inv blake3 c'" by (simp add: cache_inv_def cache_core_def resident_def b'(2))
  have "cache_view blake3 c' j = Ok p" if "cache_view blake3 c j = Ok p" for j p
    using that a by (auto simp: cache_view_def b'(2) and_then_eq_Ok split: option.splits)
  then show "view_kept blake3 c c'" unfolding view_kept_def by (auto intro: same_page_refl)
  show "in_memory c \<Longrightarrow> in_memory c'"
    using b' by (cases "pc_backend c") (auto simp: in_memory_def mem_alloc_page_def split: backend.splits)
qed

lemma cache_alloc_memory: "in_memory c \<Longrightarrow> \<exists>i c'. cache_alloc_page c = (Ok i, c')"
  by (cases "pc_backend c") (auto simp: in_memory_def cache_alloc_page_def mem_alloc_page_def split: backend.splits)

section \<open>Appending\<close>

lemma set_next_page_rep:
  assumes "row_rep p h rs"
  shows "\<exists>q. set_next_page (Some i) p = Ok q \<and> row_rep q (h\<lparr>rh_next_page := i\<rparr>) rs"
  using assms
proof (rule row_repE)
  fix hdr gap
  assume p: "p = hdr @ slot_entries PAGE_SIZE rs @ gap @ concat (rev rs)" "length hdr = 28" "row_page_header p = Ok h"
    "28 + 4 * length rs + length gap + total rs = 4096" "unat (rh_slot_count h) = length rs"
    "unat (rh_free_space_ptr h) = 28 + 4 * length rs + length gap"
  let ?h = "row_header_encode (h\<lparr>rh_next_page := i\<rparr>)"
  have len: "length ?h = 28" by (simp add: size_defs)
  then have "set_next_page (Some i) p = Ok (?h @ slot_entries PAGE_SIZE rs @ gap @ concat (rev rs))"
    using p(1,2,3) by (simp add: set_next_page_def set_header_def copy_into_def overwrite_def)
  moreover have "row_rep (?h @ slot_entries PAGE_SIZE rs @ gap @ concat (rev rs)) (h\<lparr>rh_next_page := i\<rparr>) rs"
    using p len row_header_decode_encode [of "h\<lparr>rh_next_page := i\<rparr>" "[]"] by (intro row_repI) auto
  ultimately show ?thesis by blast
qed

lemma page_versions_snoc:
  "page_versions pid (vs @ [v]) = page_versions pid vs @ [(pack_addr pid (of_nat (length vs)), v)]"
  by (simp add: page_versions_def nth_append)

text \<open>The resident tail, taken apart.\<close>

lemma tail_page:
  assumes "table_rep blake3 get c t ch" "tb_tail t = Some tail"
  obtains pre tid vs h rs where "ch = pre @ [(tid, False, vs)]" "tb_tail_id t = Some tid" "row_rep tail h rs" "rh_next_page h = NO_PAGE"
    "list_all2 (\<lambda>r v. decode_record get r = Ok v) rs vs" "\<forall>v \<in> set vs. length (snd v) = length (tb_columns t)"
    "chain_seg blake3 get c t (tb_first_page t) pre (Some tid)" "tid \<notin> fst ` set pre"
proof -
  note t = table_repD [OF assms(1)]
  have "ch \<noteq> []" using assms unfolding table_rep_def by auto
  then obtain pre tid cold vs where ch: "ch = pre @ [(tid, cold, vs)]" by (metis rev_exhaust prod_cases3)
  then have tid: "tb_tail_id t = Some tid" using t(3) by (simp add: tail_last_def)
  then have res: "resident_page t tid = Some tail" using assms(2) by (simp add: resident_page_def)
  from t(2) ch obtain mid where mid: "chain_seg blake3 get c t (tb_first_page t) pre mid" "chain_from blake3 get c t mid [(tid, cold, vs)]"
    by (auto simp: chain_seg_append)
  from mid(2) res have m: "mid = Some tid" "\<not> cold" "page_holds get (length (tb_columns t)) cold tail None vs" by (auto simp: table_page_def)
  then obtain h rs where "row_rep tail h rs" "rh_next_page h = NO_PAGE" "list_all2 (\<lambda>r v. decode_record get r = Ok v) rs vs"
    "\<forall>v \<in> set vs. length (snd v) = length (tb_columns t)" by (auto simp: page_holds_def split: if_splits)
  moreover have "tid \<notin> fst ` set pre" using t(4) ch by auto
  ultimately show thesis using that [of pre tid vs h rs] ch tid mid(1) m(1,2) by simp
qed

lemma tail_of_chain: "tail_last t (pre @ [(tid, cold, vs)]) \<longleftrightarrow> tb_tail_id t = Some tid \<and> tid \<notin> fst ` set pre"
  by (force simp: tail_last_def)

text \<open>A chain whose pages before the tail are untouched.\<close>

lemma chain_before_tail:
  assumes "chain_seg blake3 get c t start pre stop" "tb_columns t' = tb_columns t" "view_kept blake3 c c'"
    and "\<forall>pid \<in> fst ` set pre. tb_tail_id t \<noteq> Some pid \<and> tb_tail_id t' \<noteq> Some pid"
  shows "chain_seg blake3 get c' t' start pre stop"
  by (rule chain_seg_transfer [OF assms(1,2)])
    (use assms(3,4) in \<open>auto simp: table_page_def resident_page_def view_kept_def split: if_splits\<close>)

lemma page_holds_append:
  assumes "row_rep p' h' (rs @ [rec])" "rh_next_page h' = NO_PAGE" "list_all2 (\<lambda>r v. decode_record get r = Ok v) rs vs"
    "\<forall>v \<in> set vs. length (snd v) = width" "decode_record get rec = Ok v" "length (snd v) = width"
  shows "page_holds get width False p' None (vs @ [v])"
  unfolding page_holds_def using assms by (auto intro!: exI [of _ h'] exI [of _ "rs @ [rec]"] list_all2_appendI)

text \<open>The tail of a table that can be written is resident.\<close>

definition writable :: "table \<Rightarrow> chain \<Rightarrow> bool" where
  "writable t ch \<longleftrightarrow> (tb_tail t = None \<longrightarrow> ch = [])"

definition record_for :: "(u64 \<Rightarrow> bytes result) \<Rightarrow> table \<Rightarrow> bytes \<Rightarrow> versioned_row \<Rightarrow> bool" where
  "record_for get t rec v \<longleftrightarrow>
     decode_record get rec = Ok v \<and> length (snd v) = length (tb_columns t) \<and> length rec \<le> MAX_RECORD \<and> tb_row_versions t < usize_max"

text \<open>What an operation on one table leaves alone: the pages of other tables, and the table's schema and indexes.\<close>

definition kept_outside :: "hash_fn \<Rightarrow> page_id set \<Rightarrow> 'j page_cache \<Rightarrow> 'j page_cache \<Rightarrow> bool" where
  "kept_outside blake3 A c c' \<longleftrightarrow>
     store_page_count (pc_backend c) \<le> store_page_count (pc_backend c') \<and>
     (\<forall>j q. j \<notin> A \<longrightarrow> cache_view blake3 c j = Ok q \<longrightarrow> (\<exists>q'. cache_view blake3 c' j = Ok q' \<and> same_page q q'))"

definition same_schema :: "table \<Rightarrow> table \<Rightarrow> bool" where
  "same_schema t t' \<longleftrightarrow> tb_columns t' = tb_columns t \<and> tb_unique_columns t' = tb_unique_columns t \<and>
     tb_not_null_columns t' = tb_not_null_columns t \<and> tb_defaults t' = tb_defaults t \<and> tb_checks t' = tb_checks t \<and>
     tb_indexes t' = tb_indexes t"

lemma kept_outside_trans:
  "kept_outside blake3 A c d \<Longrightarrow> kept_outside blake3 A d e \<Longrightarrow> kept_outside blake3 A c e"
  unfolding kept_outside_def by (meson order_trans same_page_trans)

lemma view_kept_outside:
  "view_kept blake3 c d \<Longrightarrow> store_page_count (pc_backend c) \<le> store_page_count (pc_backend d) \<Longrightarrow> kept_outside blake3 A c d"
  by (simp add: view_kept_def kept_outside_def)

lemma same_schema_refl [simp]: "same_schema t t"
  by (simp add: same_schema_def)

lemma same_schema_trans: "same_schema t u \<Longrightarrow> same_schema u v \<Longrightarrow> same_schema t v"
  by (simp add: same_schema_def)

definition grown :: "hash_fn \<Rightarrow> (u64 \<Rightarrow> bytes result) \<Rightarrow> ('j, table) pool_state \<Rightarrow> chain \<Rightarrow> record_addr \<Rightarrow> versioned_row \<Rightarrow> ('j, table) pool_state \<Rightarrow> bool" where
  "grown blake3 get s ch a v s' \<longleftrightarrow>
     (\<exists>ch'. table_rep blake3 get (fst s') (snd s') ch' \<and> chain_versions ch' = chain_versions ch @ [(a, v)] \<and> writable (snd s') ch' \<and>
        fst ` set ch' \<subseteq> insert (store_page_count (pc_backend (fst s))) (fst ` set ch)) \<and>
     same_schema (snd s) (snd s') \<and> kept_outside blake3 (fst ` set ch) (fst s) (fst s') \<and>
     unat (store_page_count (pc_backend (fst s'))) \<le> Suc (unat (store_page_count (pc_backend (fst s))))"

lemma unat_Suc_le: "unat (x + 1 :: u64) \<le> Suc (unat x)"
  by (simp add: unat_word_ariths)

lemma append_into_tail:
  assumes rep: "table_rep blake3 get c t ch" and tail: "tb_tail t = Some tail"
    and rec: "record_for get t rec v"
    and ins: "row_insert rec tail = Ok (slot, tail')"
  defines "t' \<equiv> t\<lparr>tb_tail := Some tail', tb_row_versions := tb_row_versions t + 1\<rparr>"
  shows "\<exists>tid. append_record blake3 bw rec (c, t) = (Ok (pack_addr tid slot), (c, t')) \<and> grown blake3 get (c, t) ch (pack_addr tid slot) v (c, t')"
proof -
  have rec: "decode_record get rec = Ok v" "length (snd v) = length (tb_columns t)" and room: "tb_row_versions t < usize_max"
    using rec by (simp_all add: record_for_def)
  from tail_page [OF rep tail] obtain pre tid vs h rs where p: "ch = pre @ [(tid, False, vs)]" "tb_tail_id t = Some tid"
    "row_rep tail h rs" "rh_next_page h = NO_PAGE" "list_all2 (\<lambda>r v. decode_record get r = Ok v) rs vs"
    "\<forall>v \<in> set vs. length (snd v) = length (tb_columns t)" "chain_seg blake3 get c t (tb_first_page t) pre (Some tid)" "tid \<notin> fst ` set pre" .
  have len: "length rs = length vs" using p(5) by (rule list_all2_lengthD)
  have fits: "record_fits rs rec" using ins row_insert_full [OF p(3), of rec] by fastforce
  from row_insert_fits [OF p(3) fits] ins have slot: "slot = of_nat (length vs)"
    and tail': "row_rep tail' (h\<lparr>rh_slot_count := rh_slot_count h + 1, rh_free_space_ptr := of_nat (PAGE_SIZE - total (rs @ [rec]))\<rparr>) (rs @ [rec])"
    by (auto simp: len)
  let ?ch = "pre @ [(tid, False, vs @ [v])]"
  have "page_holds get (length (tb_columns t)) False tail' None (vs @ [v])"
    by (rule page_holds_append [OF tail' _ p(5,6) rec]) (simp add: p(4))
  then have "chain_from blake3 get c t' (Some tid) [(tid, False, vs @ [v])]"
    using p(2) by (auto simp: t'_def table_page_def resident_page_def)
  moreover have "chain_seg blake3 get c t' (tb_first_page t) pre (Some tid)"
    by (rule chain_before_tail [OF p(7)]) (use p(2,8) in \<open>auto simp: t'_def\<close>)
  ultimately have "chain_from blake3 get c t' (tb_first_page t') ?ch" by (auto simp: chain_seg_append t'_def)
  moreover have "tail_last t' ?ch" using p(2,8) by (simp add: tail_of_chain t'_def)
  ultimately have "table_rep blake3 get c t' ?ch"
    using rep room unfolding table_rep_def p(1) by (auto simp: t'_def)
  moreover have "chain_versions ?ch = chain_versions ch @ [(pack_addr tid slot, v)]" by (simp add: p(1) page_versions_snoc slot)
  ultimately have "grown blake3 get (c, t) ch (pack_addr tid slot) v (c, t')" unfolding grown_def by (auto simp: t'_def writable_def same_schema_def p(1) intro!: view_kept_outside exI [of _ ?ch])
  moreover have "append_record blake3 bw rec (c, t) = (Ok (pack_addr tid slot), (c, t'))"
    using tail p(2) ins room by (simp add: append_record_def ensure_tail_def act_then_def count_version_def t'_def)
  ultimately show ?thesis by blast
qed

lemma fresh_page_insert:
  assumes "length rec \<le> MAX_RECORD" "decode_record get rec = Ok v" "length (snd v) = width"
  shows "\<exists>page. row_insert rec (row_page_new i) = Ok (0, page) \<and> page_holds get width False page None [v]"
proof -
  have fits: "record_fits [] rec" using assms(1) by (simp add: record_fits_def MAX_RECORD_def size_defs SLOT_SIZE_def)
  from row_insert_fits [OF row_rep_new fits] obtain page where page: "row_insert rec (row_page_new i) = Ok (0, page)"
    "row_rep page ((row_header_new i)\<lparr>rh_slot_count := rh_slot_count (row_header_new i) + 1, rh_free_space_ptr := of_nat (PAGE_SIZE - total ([] @ [rec]))\<rparr>) ([] @ [rec])"
    by auto
  from page_holds_append [OF page(2), of get "[]" width v] assms(2,3) have "page_holds get width False page None [v]"
    by (simp add: row_header_new_def)
  with page(1) show ?thesis by blast
qed

lemma append_first_page:
  assumes rep: "table_rep blake3 get c t []" and alloc: "cache_alloc_page c = (Ok i, c')" and small: "store_page_count (pc_backend c) < 2 ^ 48"
    and rec: "record_for get t rec v"
  shows "\<exists>t'. append_record blake3 bw rec (c, t) = (Ok (pack_addr i 0), (c', t')) \<and> grown blake3 get (c, t) [] (pack_addr i 0) v (c', t')"
proof -
  note rec = rec [unfolded record_for_def]
  note a = cache_alloc_Ok [OF table_repD(1) [OF rep] alloc small]
  have t: "tb_first_page t = None" "tb_tail_id t = None" "tb_tail t = None" "tb_row_versions t = 0" "tb_cold_pages t = 0"
    "\<And>ids. tb_page_ids t = Some ids \<Longrightarrow> ids = {}" "tb_compaction_cursor t = None"
    using rep unfolding table_rep_def by auto
  obtain page where page: "row_insert rec (row_page_new i) = Ok (0, page)" "page_holds get (length (tb_columns t)) False page None [v]"
    using fresh_page_insert rec by blast
  let ?t = "(own_page i (t\<lparr>tb_tail := Some page, tb_tail_id := Some i\<rparr>))\<lparr>tb_first_page := Some i, tb_row_versions := 1\<rparr>"
  have "append_record blake3 bw rec (c, t) = (Ok (pack_addr i 0), (c', ?t))"
    using alloc t page(1)
    by (simp add: append_record_def ensure_tail_def act_then_def on_pool_def own_page_def count_version_def usize_max_def Let_def)
  moreover have "table_rep blake3 get c' ?t [(i, False, [v])]"
    using a small t page(2) unfolding table_rep_def
    by (auto simp: table_page_def resident_page_def own_page_def tail_last_def usize_max_def)
  then have "grown blake3 get (c, t) [] (pack_addr i 0) v (c', ?t)"
    unfolding grown_def writable_def using a(2,3,4,5)
    by (auto simp: own_page_def page_versions_def same_schema_def unat_Suc_le intro!: exI [of _ "[(i, False, [v])]"] view_kept_outside)
  ultimately show ?thesis by blast
qed

lemma append_grow:
  assumes rep: "table_rep blake3 get c t ch" and tail: "tb_tail t = Some tail" "tb_tail_id t = Some tid"
    and alloc: "cache_alloc_page c = (Ok i, c1)" and small: "store_page_count (pc_backend c) < 2 ^ 48"
    and rec: "record_for get t rec v" and full: "row_insert rec tail = Err (PageFull needed available)"
    and fin: "set_next_page (Some i) tail = Ok finalized" and wr: "cache_write blake3 bw tid finalized c1 = (Ok (), c2)"
  shows "\<exists>t'. append_record blake3 bw rec (c, t) = (Ok (pack_addr i 0), (c2, t')) \<and> grown blake3 get (c, t) ch (pack_addr i 0) v (c2, t')"
proof -
  note rec = rec [unfolded record_for_def]
  note a = cache_alloc_Ok [OF table_repD(1) [OF rep] alloc small]
  from tail_page [OF rep tail(1)] obtain pre tid' vs h rs where p: "ch = pre @ [(tid', False, vs)]" "tb_tail_id t = Some tid'"
    "row_rep tail h rs" "rh_next_page h = NO_PAGE" "list_all2 (\<lambda>r v. decode_record get r = Ok v) rs vs"
    "\<forall>v \<in> set vs. length (snd v) = length (tb_columns t)" "chain_seg blake3 get c t (tb_first_page t) pre (Some tid')" "tid' \<notin> fst ` set pre" .
  have tid: "tid' = tid" using p(2) tail(2) by simp
  have old: "pid < i" if "pid \<in> fst ` set ch" for pid using table_repD(9) [OF rep that] a(2) by simp
  from set_next_page_rep [OF p(3), of i] fin have fin': "row_rep finalized (h\<lparr>rh_next_page := i\<rparr>) rs" by auto
  have "length finalized = PAGE_SIZE" using fin' by (auto simp: row_rep_def)
  moreover have "tid < store_page_count (pc_backend c1)" using old [of tid] p(1) tid a(3,4) by force
  ultimately have w: "cache_inv blake3 c2" "store_page_count (pc_backend c2) = store_page_count (pc_backend c1)" "\<exists>q. cache_view blake3 c2 tid = Ok q \<and> same_page finalized q"
    "\<And>j q. j \<noteq> tid \<Longrightarrow> cache_view blake3 c1 j = Ok q \<Longrightarrow> \<exists>q'. cache_view blake3 c2 j = Ok q' \<and> same_page q q'"
    using cache_write_facts [OF a(1) _ _ wr] by blast+
  then obtain q where q: "cache_view blake3 c2 tid = Ok q" "same_page finalized q" by blast
  obtain page where page: "row_insert rec (row_page_new i) = Ok (0, page)" "page_holds get (length (tb_columns t)) False page None [v]"
    using fresh_page_insert rec by blast
  have i48: "i < 2 ^ 48" using small a(2) by simp
  then have i: "i \<noteq> NO_PAGE" by (auto simp: NO_PAGE_def)
  have new: "i \<notin> fst ` set ch" using old by blast
  then have ne: "i \<noteq> tid" using p(1) tid by auto
  note i = ne new i i48
  let ?t = "(own_page i (t\<lparr>tb_tail := Some page, tb_tail_id := Some i\<rparr>))\<lparr>tb_row_versions := tb_row_versions t + 1\<rparr>"
  let ?ch = "ch @ [(i, False, [v])]"
  have run: "append_record blake3 bw rec (c, t) = (Ok (pack_addr i 0), (c2, ?t))"
    using alloc fin wr page(1) rec tail full
    by (simp add: append_record_def ensure_tail_def grow_chain_def act_then_def on_pool_def own_page_def count_version_def Let_def)
  have "page_holds get (length (tb_columns t)) False q (Some i) vs"
    by (rule page_holds_same_page [OF _ q(2)]) (use fin' p(5,6) i(3) in \<open>auto simp: page_holds_def intro!: exI [of _ "h\<lparr>rh_next_page := i\<rparr>"]\<close>)
  then have "chain_seg blake3 get c2 ?t (Some tid) [(tid, False, vs)] (Some i)"
    using q(1) i(1) by (auto simp: table_page_def resident_page_def own_page_def)
  moreover have "chain_seg blake3 get c2 ?t (tb_first_page t) pre (Some tid)"
  proof (rule chain_seg_transfer [OF p(7) [unfolded tid]])
    fix pid r
    assume pid: "pid \<in> fst ` set pre" and r: "table_page blake3 c t pid = Ok r"
    then have ne: "pid \<noteq> tid" "pid \<noteq> i" using p(1,8) tid i(2) by auto
    then have "cache_view blake3 c pid = Ok r" using r p(2) tid by (simp add: table_page_def resident_page_def)
    then obtain r1 where "cache_view blake3 c1 pid = Ok r1" "same_page r r1" using a(5) by (auto simp: view_kept_def)
    with w(4) [OF ne(1)] ne(2) show "\<exists>r'. table_page blake3 c2 ?t pid = Ok r' \<and> same_page r r'"
      using same_page_trans by (fastforce simp: table_page_def resident_page_def own_page_def)
  next
    show "resident_page ?t pid \<noteq> None \<Longrightarrow> resident_page t pid \<noteq> None" if "pid \<in> fst ` set pre" for pid
      using that i(2) p(1) by (auto simp: resident_page_def own_page_def split: if_splits)
  qed (simp add: own_page_def)
  moreover have "chain_from blake3 get c2 ?t (Some i) [(i, False, [v])]"
    using page(2) by (auto simp: table_page_def resident_page_def own_page_def)
  ultimately have "chain_from blake3 get c2 ?t (tb_first_page t) ?ch" unfolding p(1) tid chain_seg_append by blast
  moreover have "tail_last ?t ?ch" using i(2) by (simp add: tail_of_chain own_page_def)
  moreover have "\<forall>pid \<in> fst ` set ?ch. pid < store_page_count (pc_backend c2) \<and> pid < 2 ^ 48"
    using old table_repD(9) [OF rep] a(3,4) w(2) i(4) by (auto intro: less_trans)
  ultimately have "table_rep blake3 get c2 ?t ?ch"
    using rep rec i(2) w(1) unfolding table_rep_def by (auto simp: own_page_def page_versions_def)
  moreover have "kept_outside blake3 (fst ` set ch) c c2"
  proof (rule kept_outside_trans)
    show "kept_outside blake3 (fst ` set ch) c c1" using a(2,3,4,5) by (intro view_kept_outside) auto
    show "kept_outside blake3 (fst ` set ch) c1 c2" using w(2,4) p(1) tid by (auto simp: kept_outside_def)
  qed
  ultimately have "grown blake3 get (c, t) ch (pack_addr i 0) v (c2, ?t)"
    unfolding grown_def writable_def by (auto simp: own_page_def page_versions_def same_schema_def a(2,3) w(2) unat_Suc_le intro!: exI [of _ ?ch])
  with run show ?thesis by blast
qed

text \<open>In memory the pool cannot fail either, short of a tick overflow.\<close>

lemma cache_write_memory:
  assumes "cache_inv blake3 c" "in_memory c" "pc_clock c < usize_max"
  shows "\<exists>c'. cache_write blake3 bw i p c = (Ok (), c')"
proof (cases "map_of (pc_entries c) i")
  case None
  have core: "cache_core blake3 c" using assms(1) by (simp add: cache_inv_def)
  obtain d where d: "evict_if_needed blake3 bw c = (Ok (), d)" using evict_total [OF core] assms(2) by blast
  then have "pc_clock d = pc_clock c" using evict_Ok [OF core d] by (simp add: evicted_def)
  with d None assms(3) show ?thesis by (simp add: cache_write_def act_then_def tick_def insert_entry_def)
next
  case (Some e)
  with assms(3) show ?thesis
    by (cases "en_dirty e") (simp_all add: cache_write_def act_then_def tick_def insert_entry_def Let_def)
qed

lemma on_pool_Ok: "on_pool m (c, s) = (Ok x, s') \<longleftrightarrow> (\<exists>c'. m c = (Ok x, c') \<and> s' = (c', s))"
  by (auto simp: on_pool_def split: prod.splits)

lemma grow_chain_Ok:
  assumes "grow_chain blake3 bw tid tail rec (c, t) = (Ok a, s')"
  obtains i c1 finalized c2 where "cache_alloc_page c = (Ok i, c1)" "set_next_page (Some i) tail = Ok finalized"
    "cache_write blake3 bw tid finalized c1 = (Ok (), c2)"
  using assms by (auto simp: grow_chain_def act_then_eq_Ok on_pool_Ok)

text \<open>Where an append goes: to a first page, into the tail, or to a page linked behind it.\<close>

lemma append_record_Ok:
  assumes rep: "table_rep blake3 get c t ch" "writable t ch" and small: "store_page_count (pc_backend c) < 2 ^ 48"
    and rec: "record_for get t rec v" and run: "append_record blake3 bw rec (c, t) = (Ok a, (c', t'))"
  shows "grown blake3 get (c, t) ch a v (c', t')"
proof (cases "tb_tail t")
  case None
  with rep(2) have ch: "ch = []" by (simp add: writable_def)
  from run None obtain i c1 where alloc: "cache_alloc_page c = (Ok i, c1)"
    by (auto simp: append_record_def ensure_tail_def act_then_eq_Ok on_pool_Ok)
  from append_first_page [OF rep(1) [unfolded ch] alloc small rec, of bw] run ch show ?thesis by auto
next
  case (Some tail)
  from tail_page [OF rep(1) Some] obtain tid h rs where p: "tb_tail_id t = Some tid" "row_rep tail h rs" by metis
  show ?thesis
  proof (cases "record_fits rs rec")
    case True
    then obtain slot tail' where "row_insert rec tail = Ok (slot, tail')" using row_insert_fits [OF p(2)] by blast
    from append_into_tail [OF rep(1) Some rec this, of bw] run show ?thesis by auto
  next
    case False
    then obtain needed available where full: "row_insert rec tail = Err (PageFull needed available)"
      using row_insert_full [OF p(2)] by blast
    with run Some p have "grow_chain blake3 bw tid tail rec (c, t) = (Ok a, (c', t'))"
      by (simp add: append_record_def ensure_tail_def act_then_def)
    then obtain i c1 finalized c2 where g: "cache_alloc_page c = (Ok i, c1)" "set_next_page (Some i) tail = Ok finalized"
      "cache_write blake3 bw tid finalized c1 = (Ok (), c2)" by (rule grow_chain_Ok)
    from append_grow [OF rep(1) Some p(1) g(1) small rec full g(2,3)] run show ?thesis by auto
  qed
qed

lemma append_record_memory:
  assumes rep: "table_rep blake3 get c t ch" "writable t ch" and small: "store_page_count (pc_backend c) < 2 ^ 48"
    and rec: "record_for get t rec v" and mem: "in_memory c" "pc_clock c < usize_max"
  shows "\<exists>a s'. append_record blake3 bw rec (c, t) = (Ok a, s')"
proof -
  obtain i c1 where alloc: "cache_alloc_page c = (Ok i, c1)" using cache_alloc_memory [OF mem(1)] by blast
  note a = cache_alloc_Ok [OF table_repD(1) [OF rep(1)] alloc small]
  show ?thesis
  proof (cases "tb_tail t")
    case None
    with rep(2) have ch: "ch = []" by (simp add: writable_def)
    from append_first_page [OF rep(1) [unfolded ch] alloc small rec, of bw] show ?thesis by blast
  next
    case (Some tail)
    from tail_page [OF rep(1) Some] obtain tid h rs where p: "tb_tail_id t = Some tid" "row_rep tail h rs" by metis
    show ?thesis
    proof (cases "record_fits rs rec")
      case True
      then obtain slot tail' where "row_insert rec tail = Ok (slot, tail')" using row_insert_fits [OF p(2)] by blast
      from append_into_tail [OF rep(1) Some rec this, of bw] show ?thesis by blast
    next
      case False
      then obtain needed available where full: "row_insert rec tail = Err (PageFull needed available)"
        using row_insert_full [OF p(2)] by blast
      obtain finalized where fin: "set_next_page (Some i) tail = Ok finalized" using set_next_page_rep [OF p(2)] by blast
      obtain c2 where "cache_write blake3 bw tid finalized c1 = (Ok (), c2)"
        using cache_write_memory [OF a(1) a(7) [OF mem(1)], of bw tid finalized] a(6) mem(2) by auto
      from append_grow [OF rep(1) Some p(1) alloc small rec full fin this] show ?thesis by blast
    qed
  qed
qed

end
