(* ===== verification/Table_Delete.thy ===== *)
theory Table_Delete
  imports Table_Store
begin

text \<open>
  Reading a version by its address, finding the pages a table owns, and tombstoning a version, on the abstract chain.
\<close>

section \<open>What the pool keeps\<close>

lemma with_page_Ok:
  assumes "cache_inv blake3 c" "with_page blake3 bw i f c = (Ok x, c')"
  obtains p where "cache_view blake3 c i = Ok p" "f p = Ok x" "cache_inv blake3 c'" "view_kept blake3 c c'"
    "store_page_count (pc_backend c') = store_page_count (pc_backend c)"
proof -
  from assms(2) obtain d e where d: "ensure_loaded blake3 bw i c = (Ok (), d)" "touch i d = (Ok e, c')"
    and x: "f (en_page e) = Ok x"
    by (auto simp: with_page_def act_then_eq_Ok)
  note l = ensure_loaded_Ok [OF assms(1) d(1)] and t = touch_Ok [OF _ d(2), of blake3]
  from l t x ensure_loaded_count [OF assms(1) d(1)] touch_count [OF d(2)] view_kept_trans that show thesis by metis
qed

section \<open>Reading by address\<close>

lemma read_record_ready:
  assumes "table_rep blake3 get c t ch" "(a, v) \<in> set (chain_versions ch)" "ready blake3 1 c"
  shows "\<exists>c'. read_record_at blake3 bw get t a c = (Ok v, c') \<and> table_rep blake3 get c' t ch"
proof -
  from version_at [OF assms(1,2)] obtain pid cold vs i p "next" where
    m: "(pid, cold, vs) \<in> set ch" "unpack_addr a = (pid, of_nat i)" "unat (of_nat i :: u16) = i"
    "i < length vs" "v = vs ! i" "table_page blake3 c t pid = Ok p" "page_holds get (length (tb_columns t)) cold p next vs"
    "resident_page t pid \<noteq> None \<longrightarrow> \<not> cold" by metis
  have cold: "cold \<Longrightarrow> tb_cold_pages t \<noteq> 0" using m(1) chain_cold_mem table_repD(5) [OF assms(1)] by auto
  have w: "length (snd v) = length (tb_columns t)" using page_holds_width [OF m(7)] m(4,5) by simp
  have rd: "page_record get (tb_cold_pages t) (of_nat i) p = Ok v"
    using page_record_holds [OF m(7) cold, of "of_nat i"] m(3,4,5) by simp
  show ?thesis
  proof (cases "resident_page t pid")
    case None
    with m(6) have "cache_view blake3 c pid = Ok p" by (simp add: table_page_def)
    from with_page_ready [of blake3 0, OF _ this, of bw "page_record get (tb_cold_pages t) (of_nat i)"] assms(3) rd obtain c' where
      c': "with_page blake3 bw pid (page_record get (tb_cold_pages t) (of_nat i)) c = (Ok v, c')" "ready blake3 0 c'"
        "view_kept blake3 c c'" "store_page_count (pc_backend c') = store_page_count (pc_backend c)" by auto
    with table_rep_kept [OF assms(1) _ c'(3,4)] None m(2) w show ?thesis
      by (auto simp: read_record_at_def resident_page_def act_then_def ready_def split: if_splits)
  next
    case (Some tail)
    with m(6,8) have t: "tail = p" "\<not> cold" by (auto simp: table_page_def)
    with m(7) obtain h rs where "row_rep p h rs" by (auto simp: page_holds_def)
    from row_rep_kind [OF this] rd have "and_then (row_record p (of_nat i)) (decode_record get) = Ok v"
      by (simp add: page_record_def row_ref_record_def)
    with Some t m(2) w assms(1) show ?thesis
      by (auto simp: read_record_at_def resident_page_def act_then_def split: if_splits)
  qed
qed

section \<open>Owned pages\<close>

lemma page_link_holds:
  "page_holds get width cold p next vs \<Longrightarrow> page_link_and_kind p = Ok (next, cold)"
  by (cases cold)
    (auto simp: page_holds_def page_link_and_kind_def row_ref_next_page_def cold_rep_kind cold_rep_next row_rep_kind row_rep_next)

lemma own_step:
  assumes "table_page blake3 c t pid = Ok p" "page_holds get (length (tb_columns t)) cold p next vs" "resident_page t pid \<noteq> None \<longrightarrow> \<not> cold"
    and "cache_inv blake3 c"
    and "(case resident_page t pid of
        Some tail \<Rightarrow> act_return (and_then (row_next_page tail) (\<lambda>next. Ok (next, False)))
      | None \<Rightarrow> on_pool (with_page blake3 bw pid page_link_and_kind)) (c, s) = (Ok x, (c', s'))"
  shows "x = (next, cold) \<and> s' = s \<and> cache_inv blake3 c' \<and> view_kept blake3 c c' \<and>
    store_page_count (pc_backend c') = store_page_count (pc_backend c)"
proof (cases "resident_page t pid")
  case None
  with assms(5) have w: "with_page blake3 bw pid page_link_and_kind c = (Ok x, c')" "s' = s" by (auto simp: on_pool_Ok)
  from with_page_Ok [OF assms(4) w(1)] assms(1) None page_link_holds [OF assms(2)] w(2) show ?thesis
    by (auto simp: table_page_def)
next
  case (Some tail)
  with assms(1,3) have t: "tail = p" "\<not> cold" by (auto simp: table_page_def)
  with assms(2) obtain h rs where "row_rep p h rs" "next = (if rh_next_page h = NO_PAGE then None else Some (rh_next_page h))"
    by (auto simp: page_holds_def)
  with row_rep_next [OF this(1)] Some t assms(4,5) show ?thesis by (auto split: if_splits)
qed

lemma own_walk_Ok:
  assumes "chain_from blake3 get c t start ch" "cache_inv blake3 c"
    and "own_walk blake3 bw t n hops start (c, s) = (Ok (), (c', s'))"
  shows "os_ids s' = os_ids s \<union> fst ` set ch \<and> cache_inv blake3 c' \<and> view_kept blake3 c c' \<and>
    store_page_count (pc_backend c') = store_page_count (pc_backend c)"
  using assms
proof (induction ch arbitrary: start c s hops)
  case Nil
  then show ?case by simp
next
  case (Cons x ch)
  obtain pid cold vs where x: "x = (pid, cold, vs)" by (cases x) auto
  with Cons.prems(1) obtain p "next" where p: "table_page blake3 c t pid = Ok p" "page_holds get (length (tb_columns t)) cold p next vs"
    "chain_from blake3 get c t next ch" "start = Some pid" "resident_page t pid \<noteq> None \<longrightarrow> \<not> cold" by auto
  obtain hops' where h: "hops = Suc hops'" using Cons.prems(3) p(4) by (cases hops) auto
  let ?s = "s\<lparr>os_ids := insert pid (os_ids s), os_cursor_found := os_cursor_found s \<or> tb_compaction_cursor t = Some pid\<rparr>"
  from Cons.prems(3) obtain y c1 s1 where y: "(case resident_page t pid of
        Some tail \<Rightarrow> act_return (and_then (row_next_page tail) (\<lambda>next. Ok (next, False)))
      | None \<Rightarrow> on_pool (with_page blake3 bw pid page_link_and_kind)) (c, ?s) = (Ok y, (c1, s1))"
    and rest: "(\<lambda>(following, cold) (c, s).
            let s' = (if cold then s\<lparr>os_cold := os_cold s + 1\<rparr> else s)
            in if cold \<and> os_cold s' > tb_cold_pages t
               then (Err (Corruption ''page chain contains more cold pages than the manifest declares''), (c, s'))
               else
                 act_then (act_return (tail_ends (Some pid = tb_tail_id t) following)) (\<lambda>_.
                   own_walk blake3 bw t n hops' following) (c, s')) y (c1, s1) = (Ok (), (c', s'))"
    by (auto simp: h p(4) resident_page_def act_then_eq_Ok Let_def split: if_splits)
  note o = own_step [OF p(1,2,5) Cons.prems(2) y]
  let ?s1 = "if cold then ?s\<lparr>os_cold := os_cold ?s + 1\<rparr> else ?s"
  have "own_walk blake3 bw t n hops' next (c1, ?s1) = (Ok (), (c', s'))"
    using rest o by (auto simp: Let_def act_then_eq_Ok split: if_splits)
  from Cons.IH [OF _ _ this] chain_from_kept [OF p(3)] o have "os_ids s' = os_ids ?s1 \<union> fst ` set ch \<and> cache_inv blake3 c' \<and>
    view_kept blake3 c1 c' \<and> store_page_count (pc_backend c') = store_page_count (pc_backend c1)" by blast
  with o x view_kept_trans show ?case by auto
qed

lemma ensure_ids_Ok:
  assumes rep: "table_rep blake3 get c t ch" and run: "ensure_table_page_ids blake3 bw (c, t) = (Ok (), (c', t'))"
  shows "table_rep blake3 get c' t' ch \<and> tb_page_ids t' = Some (fst ` set ch) \<and> same_schema t t' \<and> tb_tail t' = tb_tail t \<and>
    kept_outside blake3 A c c' \<and> store_page_count (pc_backend c') = store_page_count (pc_backend c)"
proof (cases "tb_page_ids t")
  case None
  let ?s = "\<lparr>os_ids = {}, os_cold = 0, os_cursor_found = (tb_compaction_cursor t = None)\<rparr>"
  obtain r c1 s where w: "own_walk blake3 bw t (store_page_count (pc_backend c)) (max_hops c) (tb_first_page t) (c, ?s) = (r, (c1, s))"
    by (metis prod_cases3)
  with run None have t': "r = Ok () \<and> c1 = c' \<and> t' = t\<lparr>tb_page_ids := Some (os_ids s)\<rparr>"
    by (cases r) (simp_all add: ensure_table_page_ids_def split: if_splits)
  then have w: "own_walk blake3 bw t (store_page_count (pc_backend c)) (max_hops c) (tb_first_page t) (c, ?s) = (Ok (), (c', s))"
    and t': "t' = t\<lparr>tb_page_ids := Some (os_ids s)\<rparr>" using w by simp_all
  have o: "os_ids s = fst ` set ch" "cache_inv blake3 c'" "view_kept blake3 c c'" "store_page_count (pc_backend c') = store_page_count (pc_backend c)"
    using own_walk_Ok [OF table_repD(2,1) [OF rep] w] by simp_all
  note rep' = table_rep_kept [OF rep o(2,3,4)]
  have "chain_from blake3 get c' t' (tb_first_page t) ch"
    by (rule chain_seg_transfer [OF table_repD(2) [OF rep']]) (auto simp: t' table_page_def resident_page_def intro: same_page_refl split: if_splits)
  with rep' o(1) view_kept_outside [OF o(3)] o(4) show ?thesis unfolding table_rep_def t' by (simp add: tail_last_def same_schema_def)
next
  case (Some ids)
  with run rep table_repD(10) [OF rep Some] show ?thesis by (simp add: ensure_table_page_ids_def view_kept_outside)
qed

section \<open>Tombstones\<close>

definition tombstoned :: "tx_id \<Rightarrow> versioned_row \<Rightarrow> versioned_row" where
  "tombstoned tx v = (mark_deleted (fst v) tx, snd v)"

definition mark_version :: "record_addr \<Rightarrow> tx_id \<Rightarrow> (record_addr \<times> versioned_row) list \<Rightarrow> (record_addr \<times> versioned_row) list" where
  "mark_version a tx = map (\<lambda>(b, v). (b, if b = a then tombstoned tx v else v))"

lemma decode_patched:
  assumes "decode_record get r = Ok v"
  shows "ENVELOPE_LEN \<le> length r \<and> decode_record get (patch_deleted tx r) = Ok (tombstoned tx v)"
proof -
  from assms obtain e body row where d: "envelope_decode r = Ok e" "slice_at r ENVELOPE_LEN (length r) = Ok body"
    "decode_row get body = Ok row" "v = (e, row)" by (auto simp: decode_record_def and_then_eq_Ok)
  then have len: "ENVELOPE_LEN \<le> length r" by (auto simp: envelope_decode_def split: if_splits)
  note p = patch_deleted_envelope [OF len d(1), of tx]
  have "slice_at (patch_deleted tx r) ENVELOPE_LEN (length (patch_deleted tx r)) = Ok body"
    using d(2) len p(2,3) by (auto simp: slice_at_def slice_get_def)
  then have "decode_record get (patch_deleted tx r) = Ok (tombstoned tx v)"
    unfolding decode_record_def by (simp add: p(1) d(3,4) tombstoned_def del: slice_at_Ok)
  with len show ?thesis by blast
qed

lemma row_page_patched:
  assumes "row_rep p h rs" "list_all2 (\<lambda>r v. decode_record get r = Ok v) rs vs" "unat slot < length vs"
  shows "\<exists>p' rs'. row_patch_envelope_deleted slot tx p = Ok p' \<and> row_rep p' h rs' \<and>
    list_all2 (\<lambda>r v. decode_record get r = Ok v) rs' (vs[unat slot := tombstoned tx (vs ! unat slot)])"
proof -
  have i: "unat slot < length rs" "decode_record get (rs ! unat slot) = Ok (vs ! unat slot)"
    using assms(2,3) by (auto simp: list_all2_conv_all_nth)
  note d = decode_patched [OF i(2), of tx]
  from row_patch_rep [OF assms(1) i(1), of tx] d obtain p' where "row_patch_envelope_deleted slot tx p = Ok p'"
    "row_rep p' h (rs[unat slot := patch_deleted tx (rs ! unat slot)])" by blast
  moreover have "list_all2 (\<lambda>r v. decode_record get r = Ok v) (rs[unat slot := patch_deleted tx (rs ! unat slot)])
      (vs[unat slot := tombstoned tx (vs ! unat slot)])"
    by (rule list_all2_update_cong [OF assms(2)]) (use d in simp)
  ultimately show ?thesis by blast
qed

lemma row_rep_from_bytes: "row_rep p h rs \<Longrightarrow> row_page_from_bytes p = Ok p"
  by (elim row_repE) (auto simp: row_page_from_bytes_def row_page_header_def size_defs SLOT_SIZE_def Let_def split: result.splits)

lemma width_tombstoned:
  "\<forall>v \<in> set vs. length (snd v) = width \<Longrightarrow> i < length vs \<Longrightarrow> \<forall>v \<in> set (vs[i := tombstoned tx (vs ! i)]). length (snd v) = width"
  by (simp add: all_set_conv_all_nth nth_list_update tombstoned_def)

lemma patch_page_holds:
  assumes "page_holds get width cold p next vs" "cold \<Longrightarrow> cold_pages \<noteq> 0" "unat slot < length vs"
  shows "\<exists>p'. patch_page cold_pages slot tx p = (Ok (), p') \<and>
    page_holds get width cold p' next (vs[unat slot := tombstoned tx (vs ! unat slot)])"
proof (cases cold)
  case True
  with assms(1) obtain used len where c: "cold_rep p next used vs len" "\<forall>v \<in> set vs. length (snd v) = width" by (auto simp: page_holds_def)
  from cold_patch_rep [OF c(1) assms(3), of tx] obtain p' where "cold_patch_envelope_deleted slot tx p = Ok p'"
    "cold_rep p' next used (vs[unat slot := tombstoned tx (vs ! unat slot)]) len" by (auto simp: tombstoned_def)
  with cold_rep_kind [OF c(1)] True assms(2) width_tombstoned [OF c(2) assms(3)] show ?thesis
    unfolding page_holds_def by (auto simp: patch_page_def)
next
  case False
  with assms(1) obtain h rs where r: "row_rep p h rs" "next = (if rh_next_page h = NO_PAGE then None else Some (rh_next_page h))"
    "list_all2 (\<lambda>r v. decode_record get r = Ok v) rs vs" "\<forall>v \<in> set vs. length (snd v) = width" by (auto simp: page_holds_def)
  from row_page_patched [OF r(1,3) assms(3), of tx] obtain p' rs' where p': "row_patch_envelope_deleted slot tx p = Ok p'" "row_rep p' h rs'"
    "list_all2 (\<lambda>r v. decode_record get r = Ok v) rs' (vs[unat slot := tombstoned tx (vs ! unat slot)])" by blast
  with row_rep_kind [OF r(1)] row_rep_from_bytes [OF r(1)] False r(2) width_tombstoned [OF r(4) assms(3)] show ?thesis
    unfolding page_holds_def by (auto simp: patch_page_def)
qed

text \<open>Replacing the versions of one page.\<close>

lemma chain_replace:
  assumes rep: "table_rep blake3 get c t (pre @ (pid, cold, vs) # post)" "table_page blake3 c t pid = Ok p"
    "page_holds get (length (tb_columns t)) cold p next vs" "resident_page t pid \<noteq> None \<longrightarrow> \<not> cold"
    and c': "cache_inv blake3 c'" "store_page_count (pc_backend c') = store_page_count (pc_backend c)"
    and t': "t' = t\<lparr>tb_tail := tb_tail t'\<rparr>" "tb_tail t' = None \<longleftrightarrow> tb_tail t = None"
    and new: "table_page blake3 c' t' pid = Ok p'" "page_holds get (length (tb_columns t)) cold p' next vs'" "length vs' = length vs"
    and others: "\<And>j q. j \<noteq> pid \<Longrightarrow> table_page blake3 c t j = Ok q \<Longrightarrow> \<exists>q'. table_page blake3 c' t' j = Ok q' \<and> same_page q q'"
  shows "table_rep blake3 get c' t' (pre @ (pid, cold, vs') # post)"
proof -
  note t = table_repD [OF rep(1)]
  have eqs: "tb_columns t' = tb_columns t" "tb_tail_id t' = tb_tail_id t" "tb_first_page t' = tb_first_page t"
    "tb_cold_pages t' = tb_cold_pages t" "tb_row_versions t' = tb_row_versions t" "tb_page_ids t' = tb_page_ids t"
    "tb_compaction_cursor t' = tb_compaction_cursor t" by (subst t'(1), simp)+
  have res: "resident_page t' j \<noteq> None \<longleftrightarrow> resident_page t j \<noteq> None" for j using t'(2) by (auto simp: resident_page_def eqs)
  have ne: "pid \<notin> fst ` set pre" "pid \<notin> fst ` set post" using t(4) by auto
  have move: "chain_seg blake3 get c' t' start ys stop" if "chain_seg blake3 get c t start ys stop" "pid \<notin> fst ` set ys" for start ys stop
    by (rule chain_seg_transfer [OF that(1) eqs(1)]; use others that(2) res in metis)
  from t(2) obtain mid where mid: "chain_seg blake3 get c t (tb_first_page t) pre mid" "chain_from blake3 get c t mid ((pid, cold, vs) # post)"
    by (auto simp: chain_seg_append)
  from mid(2) obtain next' where n: "mid = Some pid" "page_holds get (length (tb_columns t)) cold p next' vs" "chain_from blake3 get c t next' post"
    using rep(2) by auto
  have "next' = next" using page_link_holds [OF n(2)] page_link_holds [OF rep(3)] by simp
  with new eqs(1) rep(4) res n move [OF n(3) ne(2)] have "chain_from blake3 get c' t' mid ((pid, cold, vs') # post)" by auto
  with move [OF mid(1) ne(1)] have "chain_from blake3 get c' t' (tb_first_page t') (pre @ (pid, cold, vs') # post)"
    by (auto simp: chain_seg_append eqs)
  moreover have "fst ` set (pre @ (pid, cold, vs') # post) = fst ` set (pre @ (pid, cold, vs) # post)" by simp
  moreover have "tail_last t' (pre @ (pid, cold, vs') # post)" using t(3) by (cases "post = []"; simp add: tail_last_def eqs butlast_append; metis)
  ultimately show ?thesis using rep(1) c' new(3) unfolding table_rep_def eqs by simp
qed

lemma page_mark:
  assumes "pid < 2 ^ 48" "length vs < 65536" "i < length vs"
  shows "page_versions pid (vs[i := tombstoned tx (vs ! i)]) = mark_version (pack_addr pid (of_nat i)) tx (page_versions pid vs)"
proof (rule nth_equalityI)
  fix k
  assume "k < length (page_versions pid (vs[i := tombstoned tx (vs ! i)]))"
  then have k: "k < length vs" by simp
  have "pack_addr pid (of_nat k) = pack_addr pid (of_nat i) \<longleftrightarrow> k = i"
    using addr_unpack [OF assms(1), of k] addr_unpack [OF assms(1), of i] k assms by (metis less_trans prod.inject)
  with k assms(3) show "page_versions pid (vs[i := tombstoned tx (vs ! i)]) ! k = mark_version (pack_addr pid (of_nat i)) tx (page_versions pid vs) ! k"
    by (auto simp: page_versions_def mark_version_def nth_list_update)
qed (simp add: mark_version_def)

lemma mark_version_other: "a \<notin> fst ` set xs \<Longrightarrow> mark_version a tx xs = xs"
  by (force simp: mark_version_def intro: map_idI)

lemma mark_version_append [simp]: "mark_version a tx (xs @ ys) = mark_version a tx xs @ mark_version a tx ys"
  by (simp add: mark_version_def)

lemma patch_lengths:
  "row_patch_envelope_deleted slot tx p = Ok q \<Longrightarrow> length q = length p"
  "cold_patch_envelope_deleted slot tx p = Ok q \<Longrightarrow> length q = length p"
  by (auto simp: row_patch_envelope_deleted_def cold_patch_envelope_deleted_def copy_into_def and_then_eq_Ok slice_get_def
      split: if_splits option.splits)

lemma row_page_from_bytes_same: "row_page_from_bytes p = Ok q \<Longrightarrow> q = p"
  by (auto simp: row_page_from_bytes_def and_then_eq_Ok Let_def split: if_splits)

lemma length_patch_page: "length (snd (patch_page cold_pages slot tx p)) = length p"
proof (cases "page_kind p")
  case (Ok k)
  then show ?thesis
    by (cases k) (auto simp: patch_page_def and_then_eq_Ok dest!: patch_lengths row_page_from_bytes_same split: result.splits)
qed (simp_all add: patch_page_def)

lemma mark_in_chain:
  assumes "table_rep blake3 get c t (pre @ (pid, cold, vs) # post)" "length vs < 65536" "i < length vs"
  shows "chain_versions (pre @ (pid, cold, vs[i := tombstoned tx (vs ! i)]) # post) =
    mark_version (pack_addr pid (of_nat i)) tx (chain_versions (pre @ (pid, cold, vs) # post))"
proof -
  have pid: "pid < 2 ^ 48" using table_repD(9) [OF assms(1)] by simp
  let ?a = "pack_addr pid (of_nat i)"
  have "?a \<in> fst ` set (page_versions pid vs)" using assms(3) by (force simp: page_versions_def)
  then have "?a \<notin> fst ` set (chain_versions pre)" "?a \<notin> fst ` set (chain_versions post)"
    using table_versions_distinct [OF assms(1)] by auto
  then show ?thesis by (simp add: page_mark [OF pid assms(2,3)] mark_version_other)
qed

definition deleted :: "hash_fn \<Rightarrow> (u64 \<Rightarrow> bytes result) \<Rightarrow> ('j, table) pool_state \<Rightarrow> chain \<Rightarrow> record_addr \<Rightarrow> tx_id \<Rightarrow> ('j, table) pool_state \<Rightarrow> bool" where
  "deleted blake3 get s ch a tx s' \<longleftrightarrow>
     (\<exists>ch'. table_rep blake3 get (fst s') (snd s') ch' \<and> chain_versions ch' = mark_version a tx (chain_versions ch) \<and>
        (writable (snd s) ch \<longrightarrow> writable (snd s') ch') \<and> fst ` set ch' = fst ` set ch) \<and>
     same_schema (snd s) (snd s') \<and> kept_outside blake3 (fst ` set ch) (fst s) (fst s') \<and>
     store_page_count (pc_backend (fst s')) = store_page_count (pc_backend (fst s))"

lemma patch_delete_Ok:
  assumes rep: "table_rep blake3 get c t ch" "(a, v) \<in> set (chain_versions ch)"
    and run: "patch_delete_at blake3 bw a tx (c, t) = (Ok (), (c', t'))"
  shows "deleted blake3 get (c, t) ch a tx (c', t')"
proof -
  obtain pid slot where a: "unpack_addr a = (pid, slot)" by (cases "unpack_addr a")
  from run a obtain u c1 t1 where ids: "ensure_table_page_ids blake3 bw (c, t) = (Ok u, (c1, t1))"
    by (auto simp: patch_delete_at_def table_chain_contains_page_def act_then_eq_Ok)
  then have "ensure_table_page_ids blake3 bw (c, t) = (Ok (), (c1, t1))" by simp
  from ensure_ids_Ok [OF rep(1) this] have rep1: "table_rep blake3 get c1 t1 ch" and ids1: "tb_page_ids t1 = Some (fst ` set ch)"
    and same: "same_schema t t1" "tb_tail t1 = tb_tail t" "kept_outside blake3 (fst ` set ch) c c1" "store_page_count (pc_backend c1) = store_page_count (pc_backend c)" by blast+
  from version_at [OF rep1 rep(2)] obtain cold vs i p "next" where
    m: "(pid, cold, vs) \<in> set ch" "slot = of_nat i" "unat (of_nat i :: u16) = i" "i < length vs" "table_page blake3 c1 t1 pid = Ok p"
      "page_holds get (length (tb_columns t1)) cold p next vs" "resident_page t1 pid \<noteq> None \<longrightarrow> \<not> cold"
      "a = pack_addr pid (of_nat i)"
    using a by (metis prod.inject)
  from m(1) obtain pre post where ch: "ch = pre @ (pid, cold, vs) # post" by (meson split_list)
  have lt: "length vs < 65536" by (rule page_holds_length [OF m(6)])
  have pid: "pid < 2 ^ 48" using table_repD(9) [OF rep1] m(1) by force
  have in_ids: "pid \<in> fst ` set ch" using m(1) by force
  have run': "(case resident_page t1 pid of
      Some tail \<Rightarrow>
        (case row_patch_envelope_deleted slot tx tail of
           Ok tail' \<Rightarrow> (Ok (), (c1, t1\<lparr>tb_tail := Some tail'\<rparr>))
         | Err e \<Rightarrow> (Err e, (c1, t1))
         | Panic \<Rightarrow> (Panic, (c1, t1)))
    | None \<Rightarrow> on_pool (with_page_bytes_mut blake3 bw pid (patch_page (tb_cold_pages t1) slot tx)) (c1, t1)) = (Ok (), (c', t'))"
    using run a ids ids1 in_ids
    by (simp add: patch_delete_at_def table_chain_contains_page_def act_then_def resident_page_def)
  let ?vs = "vs[i := tombstoned tx (vs ! i)]"
  have "table_rep blake3 get c' t' (pre @ (pid, cold, ?vs) # post) \<and> same_schema t1 t' \<and> (tb_tail t' = None \<longleftrightarrow> tb_tail t1 = None) \<and>
    kept_outside blake3 (fst ` set ch) c1 c' \<and> store_page_count (pc_backend c') = store_page_count (pc_backend c1)"
  proof (cases "resident_page t1 pid")
    case None
    have cold: "cold \<Longrightarrow> tb_cold_pages t1 \<noteq> 0" using m(1) chain_cold_mem table_repD(5) [OF rep1] by auto
    from None m(5) have view: "cache_view blake3 c1 pid = Ok p" by (simp add: table_page_def)
    from patch_page_holds [OF m(6) cold, of slot tx] m(2,3,4) obtain p' where
      p': "patch_page (tb_cold_pages t1) slot tx p = (Ok (), p')" "page_holds get (length (tb_columns t1)) cold p' next ?vs" by auto
    from run' None have w: "with_page_bytes_mut blake3 bw pid (patch_page (tb_cold_pages t1) slot tx) c1 = (Ok (), c')" "t' = t1"
      by (auto simp: on_pool_Ok)
    have f: "cache_view blake3 c' pid = Ok p'" "cache_inv blake3 c'" "store_page_count (pc_backend c') = store_page_count (pc_backend c1)"
      "\<And>j q. j \<noteq> pid \<Longrightarrow> cache_view blake3 c1 j = Ok q \<Longrightarrow> \<exists>q'. cache_view blake3 c' j = Ok q' \<and> same_page q q'"
      using page_bytes_mut_facts [OF table_repD(1) [OF rep1] w(1)] view p'(1) by (auto simp: length_patch_page)
    have "\<exists>q'. table_page blake3 c' t1 j = Ok q' \<and> same_page q q'" if "j \<noteq> pid" "table_page blake3 c1 t1 j = Ok q" for j q
      using that f(4) [OF that(1)] by (cases "resident_page t1 j") (auto simp: table_page_def intro: same_page_refl)
    from chain_replace [OF rep1 [unfolded ch] m(5,6,7) f(2,3) _ _ _ p'(2) _ this] f None w(2) in_ids show ?thesis
      by (auto simp: table_page_def kept_outside_def)
  next
    case (Some tail)
    with m(5,7) have t: "tail = p" "\<not> cold" "Some pid = tb_tail_id t1" "tb_tail t1 = Some p" by (auto simp: table_page_def resident_page_def split: if_splits)
    with m(6) obtain h rs where r: "row_rep p h rs" "next = (if rh_next_page h = NO_PAGE then None else Some (rh_next_page h))"
      "list_all2 (\<lambda>r v. decode_record get r = Ok v) rs vs" "\<forall>v \<in> set vs. length (snd v) = length (tb_columns t1)"
      by (auto simp: page_holds_def)
    from row_page_patched [OF r(1,3), of slot tx] m(2,3,4) obtain p' rs' where
      p': "row_patch_envelope_deleted slot tx p = Ok p'" "row_rep p' h rs'"
        "list_all2 (\<lambda>r v. decode_record get r = Ok v) rs' ?vs" by auto
    with r(2) width_tombstoned [OF r(4) m(4)] t(2) have hold: "page_holds get (length (tb_columns t1)) cold p' next ?vs"
      by (auto simp: page_holds_def)
    have t': "c' = c1" "t' = t1\<lparr>tb_tail := Some p'\<rparr>" using run' Some t(1) p'(1) by auto
    have "\<exists>q'. table_page blake3 c1 t' j = Ok q' \<and> same_page q q'" if "j \<noteq> pid" "table_page blake3 c1 t1 j = Ok q" for j q
      using that t(3) [symmetric] t'(2) by (auto simp: table_page_def resident_page_def intro: same_page_refl split: if_splits)
    from chain_replace [OF rep1 [unfolded ch] m(5,6,7) table_repD(1) [OF rep1] refl _ _ _ hold _ this] t(3,4) t' show ?thesis
      by (simp add: table_page_def resident_page_def same_schema_def view_kept_outside)
  qed
  then show ?thesis
    using mark_in_chain [OF rep1 [unfolded ch] lt m(4), of tx] same same_schema_trans [OF same(1)] kept_outside_trans [OF same(3)]
    unfolding deleted_def writable_def ch m(8) by (auto intro!: exI [of _ "pre @ (pid, cold, ?vs) # post"])
qed

section \<open>Deletion cannot fail on a ready pool\<close>

lemma own_walk_ready:
  assumes "chain_from blake3 get c t start ch" "ready blake3 (length ch + n) c" "length ch \<le> hops" "distinct (map fst ch)"
    and "\<forall>pid \<in> fst ` set ch. pid < count \<and> pid \<notin> os_ids s" "os_cold s + chain_cold ch \<le> tb_cold_pages t" "tail_last t ch"
  shows "\<exists>c' s'. own_walk blake3 bw t count hops start (c, s) = (Ok (), (c', s')) \<and> ready blake3 n c' \<and>
    os_cold s' = os_cold s + chain_cold ch \<and>
    (os_cursor_found s' \<longleftrightarrow> os_cursor_found s \<or> (\<exists>pid \<in> fst ` set ch. tb_compaction_cursor t = Some pid))"
  using assms
proof (induction ch arbitrary: start c s hops)
  case Nil
  then show ?case by auto
next
  case (Cons x ch)
  obtain pid cold vs where x: "x = (pid, cold, vs)" by (cases x) auto
  with Cons.prems(1) obtain p "next" where p: "table_page blake3 c t pid = Ok p" "page_holds get (length (tb_columns t)) cold p next vs"
    "chain_from blake3 get c t next ch" "start = Some pid" "resident_page t pid \<noteq> None \<longrightarrow> \<not> cold" by auto
  obtain hops' where h: "hops = Suc hops'" "length ch \<le> hops'" using Cons.prems(3) by (cases hops) auto
  let ?s = "s\<lparr>os_ids := insert pid (os_ids s), os_cursor_found := os_cursor_found s \<or> tb_compaction_cursor t = Some pid\<rparr>"
  let ?s1 = "if cold then ?s\<lparr>os_cold := os_cold ?s + 1\<rparr> else ?s"
  have r: "ready blake3 (Suc (length ch + n)) c" using Cons.prems(2) by simp
  obtain c1 where c1: "(case resident_page t pid of
        Some tail \<Rightarrow> act_return (and_then (row_next_page tail) (\<lambda>next. Ok (next, False)))
      | None \<Rightarrow> on_pool (with_page blake3 bw pid page_link_and_kind)) (c, ?s) = (Ok (next, cold), (c1, ?s))"
      "ready blake3 (length ch + n) c1" "view_kept blake3 c c1"
  proof (cases "resident_page t pid")
    case None
    with p(1) have "cache_view blake3 c pid = Ok p" by (simp add: table_page_def)
    from with_page_ready [OF r this, of bw page_link_and_kind] page_link_holds [OF p(2)] None that show thesis
      by (auto simp: on_pool_def)
  next
    case (Some tail)
    with p(1,5) have t: "tail = p" "\<not> cold" by (auto simp: table_page_def)
    with p(2) obtain hd rs where "row_rep p hd rs" "next = (if rh_next_page hd = NO_PAGE then None else Some (rh_next_page hd))"
      by (auto simp: page_holds_def)
    with row_rep_next [OF this(1)] Some t ready_mono [OF r, of "length ch + n"] that [of c] show thesis by simp
  qed
  have last: "tail_last t ch" "Some pid = tb_tail_id t \<longrightarrow> ch = []"
    using Cons.prems(7) x by (auto simp: tail_last_Cons tail_last_def [of t "[]"] split: if_splits)
  have nx: "next = None" if "ch = []" using that p(3) by simp
  from Cons.IH [OF chain_from_kept [OF p(3) c1(3)] c1(2) h(2), of ?s1] Cons.prems(4,5,6) x last(1) obtain c' s' where
    w: "own_walk blake3 bw t count hops' next (c1, ?s1) = (Ok (), (c', s'))" "ready blake3 n c'"
      "os_cold s' = os_cold ?s1 + chain_cold ch"
      "os_cursor_found s' \<longleftrightarrow> os_cursor_found ?s1 \<or> (\<exists>pid \<in> fst ` set ch. tb_compaction_cursor t = Some pid)"
    by (auto split: if_splits)
  have "own_walk blake3 bw t count hops start (c, s) = (Ok (), (c', s'))"
    using c1(1) w(1) Cons.prems(5,6) x last(2) nx
    by (auto simp: h(1) p(4) act_then_def resident_page_def Let_def tail_ends_def)
  with w(2,3,4) x show ?case by auto
qed

lemma ensure_ids_ready:
  assumes rep: "table_rep blake3 get c t ch" and pool: "ready blake3 (length ch + n) c"
  shows "\<exists>c' t'. ensure_table_page_ids blake3 bw (c, t) = (Ok (), (c', t')) \<and> ready blake3 n c'"
proof (cases "tb_page_ids t")
  case None
  note t = table_repD [OF rep]
  let ?s = "\<lparr>os_ids = {}, os_cold = 0, os_cursor_found = (tb_compaction_cursor t = None)\<rparr>"
  have pre: "\<forall>pid \<in> fst ` set ch. pid < store_page_count (pc_backend c) \<and> pid \<notin> os_ids ?s"
    "os_cold ?s + chain_cold ch \<le> tb_cold_pages t" using t(9) t(5) by auto
  from own_walk_ready [OF t(2) pool chain_fits [OF rep] t(4) pre t(3), of bw] obtain c' s' where
    w: "own_walk blake3 bw t (store_page_count (pc_backend c)) (max_hops c) (tb_first_page t) (c, ?s) = (Ok (), (c', s'))" "ready blake3 n c'"
      "os_cold s' = chain_cold ch" "os_cursor_found s'"
    using t(11) by (cases "tb_compaction_cursor t") auto
  have "os_ids s' = fst ` set ch" using own_walk_Ok [OF t(2,1) w(1)] by simp
  moreover have "tail \<in> fst ` set ch" if "tb_tail_id t = Some tail" for tail
    using that t(3,8) by (cases "ch = []") (auto simp: tail_last_def)
  ultimately show ?thesis using w None t(5) by (auto simp: ensure_table_page_ids_def)
next
  case (Some ids)
  with ready_mono [OF pool, of n] show ?thesis by (simp add: ensure_table_page_ids_def)
qed

lemma with_page_bytes_mut_ready:
  assumes "ready blake3 1 c" "cache_view blake3 c i = Ok p" "f p = (Ok x, p')"
  shows "\<exists>c'. with_page_bytes_mut blake3 bw i f c = (Ok x, c')"
proof -
  have c: "cache_inv blake3 c" "pc_clock c + 2 \<le> usize_max" "in_memory c \<or> all_clean c" using assms(1) by (auto simp: ready_def)
  obtain d where d: "ensure_loaded blake3 bw i c = (Ok (), d)" "pc_clock d \<le> pc_clock c + 1"
    using ensure_loaded_ready [OF c(1) _ c(3) assms(2), of bw] c(2) by auto
  have l: "cache_view blake3 c i = cache_view blake3 d i" "\<exists>e. map_of (pc_entries d) i = Some e" using ensure_loaded_Ok [OF c(1) d(1)] by auto
  then obtain e where e: "map_of (pc_entries d) i = Some e" by blast
  then have "en_page e = p" using l(1) assms(2) by (simp add: cache_view_def)
  with e d assms(3) c(2) show ?thesis by (simp add: with_page_bytes_mut_def touch_def act_then_def tick_def Let_def)
qed

lemma patch_delete_ready:
  assumes rep: "table_rep blake3 get c t ch" "(a, v) \<in> set (chain_versions ch)" and pool: "ready blake3 (length ch + 1) c"
  shows "\<exists>s'. patch_delete_at blake3 bw a tx (c, t) = (Ok (), s')"
proof -
  from ensure_ids_ready [OF rep(1) pool, of bw] obtain c1 t1 where
    ids: "ensure_table_page_ids blake3 bw (c, t) = (Ok (), (c1, t1))" "ready blake3 1 c1" by blast
  from ensure_ids_Ok [OF rep(1) ids(1)] have rep1: "table_rep blake3 get c1 t1 ch" and ids1: "tb_page_ids t1 = Some (fst ` set ch)" by blast+
  from version_at [OF rep1 rep(2)] obtain pid cold vs i p "next" where
    m: "(pid, cold, vs) \<in> set ch" "unpack_addr a = (pid, of_nat i)" "unat (of_nat i :: u16) = i" "i < length vs" "table_page blake3 c1 t1 pid = Ok p"
      "page_holds get (length (tb_columns t1)) cold p next vs" "resident_page t1 pid \<noteq> None \<longrightarrow> \<not> cold" by metis
  have in_ids: "pid \<in> fst ` set ch" using m(1) by force
  have cold: "cold \<Longrightarrow> tb_cold_pages t1 \<noteq> 0" using m(1) chain_cold_mem table_repD(5) [OF rep1] by auto
  from patch_page_holds [OF m(6) cold, of "of_nat i" tx] m(3,4) obtain p' where
    p': "patch_page (tb_cold_pages t1) (of_nat i) tx p = (Ok (), p')" by auto
  show ?thesis
  proof (cases "resident_page t1 pid")
    case None
    with m(5) have "cache_view blake3 c1 pid = Ok p" by (simp add: table_page_def)
    from with_page_bytes_mut_ready [OF ids(2) this, of "patch_page (tb_cold_pages t1) (of_nat i) tx" "()" p' bw] p' None m(2) ids(1) ids1 in_ids show ?thesis
      by (auto simp: patch_delete_at_def table_chain_contains_page_def act_then_def resident_page_def on_pool_def split: if_splits)
  next
    case (Some tail)
    with m(5,7) have t: "tail = p" "\<not> cold" "Some pid = tb_tail_id t1" "tb_tail t1 = Some p" by (auto simp: table_page_def resident_page_def split: if_splits)
    with m(6) obtain h rs where r: "row_rep p h rs" "list_all2 (\<lambda>r v. decode_record get r = Ok v) rs vs" by (auto simp: page_holds_def)
    from row_page_patched [OF r, of "of_nat i" tx] m(3,4) obtain p'' where "row_patch_envelope_deleted (of_nat i) tx p = Ok p''" by auto
    with t m(2) ids(1) ids1 in_ids show ?thesis
      by (simp add: patch_delete_at_def table_chain_contains_page_def act_then_def)
  qed
qed

end
