(* ===== verification/Table_Reads.thy ===== *)
theory Table_Reads
  imports Table_Delete
begin

text \<open>
  What a successful scan or read returned, on any pool: a read that loads and evicts pages may fail, but when it returns, it returned what
  the table holds. Also the frame facts: growing the blob store and working on other tables' pages keep a table as it is.
\<close>

section \<open>Scans\<close>

lemma run_on_page_Ok:
  assumes "cache_inv blake3 c" "run_on_page blake3 bw pid f (c, s) = (Ok x, (c', s'))"
  obtains p where "cache_view blake3 c pid = Ok p" "f p s = (Ok x, s')" "cache_inv blake3 c'" "view_kept blake3 c c'"
    "store_page_count (pc_backend c') = store_page_count (pc_backend c)"
proof -
  obtain y d where y: "with_page blake3 bw pid (\<lambda>buf. Ok (f buf s)) c = (y, d)" by (cases "with_page blake3 bw pid (\<lambda>buf. Ok (f buf s)) c")
  with assms(2) have w: "y = Ok (Ok x, s')" "d = c'" by (auto simp: run_on_page_def split: result.splits prod.splits)
  with y have "with_page blake3 bw pid (\<lambda>buf. Ok (f buf s)) c = (Ok (Ok x, s'), c')" by simp
  from with_page_Ok [OF assms(1) this] that show thesis by blast
qed

lemma page_step_Ok:
  assumes "table_page blake3 c t pid = Ok p" "page_holds get (length (tb_columns t)) cold p next vs" "resident_page t pid \<noteq> None \<longrightarrow> \<not> cold"
    and "cache_inv blake3 c" "cold \<Longrightarrow> sc_cold s < tb_cold_pages t" "sc_versions s + length vs \<le> usize_max"
    and "(case resident_page t pid of
        Some tail \<Rightarrow> on_rest (visit_row_page get (length (tb_columns t)) visit pid tail)
      | None \<Rightarrow> run_on_page blake3 bw pid (scan_page get t visit pid)) (c, s) = (Ok x, (c', s'))"
  shows "steps_to (visit_all visit (page_versions pid vs) (sc_visitor s)) next (length vs) (if cold then 1 else 0) False s (Ok x, s') \<and>
    cache_inv blake3 c' \<and> view_kept blake3 c c' \<and> store_page_count (pc_backend c') = store_page_count (pc_backend c)"
proof (cases "resident_page t pid")
  case None
  with assms(7) have run: "run_on_page blake3 bw pid (scan_page get t visit pid) (c, s) = (Ok x, (c', s'))" by simp
  from run_on_page_Ok [OF assms(4) run] obtain q where q: "cache_view blake3 c pid = Ok q" "scan_page get t visit pid q s = (Ok x, s')"
    "cache_inv blake3 c'" "view_kept blake3 c c'" "store_page_count (pc_backend c') = store_page_count (pc_backend c)" by blast
  with None assms(1) have "q = p" by (simp add: table_page_def)
  with scan_page_steps [OF assms(2,5,6), of visit pid] q show ?thesis by auto
next
  case (Some tail)
  with assms(1,3) have t: "tail = p" "\<not> cold" by (auto simp: table_page_def)
  with assms(2) obtain h rs where r: "row_rep p h rs" "next = (if rh_next_page h = NO_PAGE then None else Some (rh_next_page h))"
    "list_all2 (\<lambda>r v. decode_record get r = Ok v) rs vs" "\<forall>v \<in> set vs. length (snd v) = length (tb_columns t)"
    by (auto simp: page_holds_def)
  from assms(7) Some t have "visit_row_page get (length (tb_columns t)) visit pid p s = (Ok x, s')" "c' = c"
    by (auto simp: on_rest_def split: prod.splits)
  with row_page_steps [OF r(1,3,4) assms(6), of visit pid] r(2) t(2) assms(4) show ?thesis by auto
qed

lemma steps_to_Ok:
  "steps_to out y n cold tail s (Ok x, s') \<Longrightarrow> \<exists>u v. out = (Ok u, v) \<and> x = y \<and>
     s' = s\<lparr>sc_cold := sc_cold s + cold, sc_versions := sc_versions s + n, sc_tail_found := sc_tail_found s \<or> tail, sc_visitor := v\<rparr>"
  by (auto simp: steps_to_def split: prod.splits result.splits)

lemma walk_Ok:
  assumes "chain_from blake3 get c t start ch" "cache_inv blake3 c"
    and "sc_cold s + chain_cold ch \<le> tb_cold_pages t" "sc_versions s + length (chain_versions ch) \<le> usize_max"
    and "walk blake3 bw t (visit_row_page get (length (tb_columns t)) visit) (scan_page get t visit) hops start (c, s) = (Ok (), (c', s'))"
  shows "visit_all visit (chain_versions ch) (sc_visitor s) = (Ok (), sc_visitor s') \<and> cache_inv blake3 c' \<and> view_kept blake3 c c' \<and>
    store_page_count (pc_backend c') = store_page_count (pc_backend c)"
  using assms
proof (induction ch arbitrary: start c s hops)
  case (Cons x ch)
  obtain pid cold vs where x: "x = (pid, cold, vs)" by (cases x) auto
  with Cons.prems(1) obtain p "next" where p: "table_page blake3 c t pid = Ok p" "page_holds get (length (tb_columns t)) cold p next vs"
    "chain_from blake3 get c t next ch" "start = Some pid" "resident_page t pid \<noteq> None \<longrightarrow> \<not> cold" by auto
  obtain k where h: "hops = Suc k" using Cons.prems(5) p(4) by (cases hops) auto
  define s0 where "s0 = (if Some pid = tb_tail_id t then s\<lparr>sc_tail_found := True\<rparr> else s)"
  have s0: "sc_cold s0 = sc_cold s" "sc_versions s0 = sc_versions s" "sc_visitor s0 = sc_visitor s" by (simp_all add: s0_def)
  have "on_rest (mark_tail (Some pid = tb_tail_id t)) (c, s) = (Ok (), (c, s0))" by (simp add: on_rest_def mark_tail_def s0_def)
  with Cons.prems(5) obtain y d s1 where y: "(case resident_page t pid of
        Some tail \<Rightarrow> on_rest (visit_row_page get (length (tb_columns t)) visit pid tail)
      | None \<Rightarrow> run_on_page blake3 bw pid (scan_page get t visit pid)) (c, s0) = (Ok y, (d, s1))"
    and rest: "walk blake3 bw t (visit_row_page get (length (tb_columns t)) visit) (scan_page get t visit) k y (d, s1) = (Ok (), (c', s'))"
    unfolding h p(4) walk.simps Let_def resident_page_def by (auto simp: act_then_eq_Ok)
  have "cold \<Longrightarrow> sc_cold s0 < tb_cold_pages t" "sc_versions s0 + length vs \<le> usize_max" using Cons.prems(3,4) x s0 by auto
  from page_step_Ok [OF p(1,2,5) Cons.prems(2) this y] have
    st: "steps_to (visit_all visit (page_versions pid vs) (sc_visitor s0)) next (length vs) (if cold then 1 else 0) False s0 (Ok y, s1)"
    and d: "cache_inv blake3 d" "view_kept blake3 c d" "store_page_count (pc_backend d) = store_page_count (pc_backend c)" by blast+
  from steps_to_Ok [OF st] obtain u v where v: "visit_all visit (page_versions pid vs) (sc_visitor s0) = (Ok u, v)" "y = next"
    "s1 = s0\<lparr>sc_cold := sc_cold s0 + (if cold then 1 else 0), sc_versions := sc_versions s0 + length vs, sc_visitor := v\<rparr>" by auto
  have "sc_cold s1 + chain_cold ch \<le> tb_cold_pages t" "sc_versions s1 + length (chain_versions ch) \<le> usize_max"
    using Cons.prems(3,4) x s0 v(3) by auto
  from Cons.IH [OF chain_from_kept [OF p(3) d(2)] d(1) this rest [unfolded v(2)]] v(1,3) s0 x d view_kept_trans [OF d(2)] show ?case
    by (auto simp: visit_all_append)
qed simp

text \<open>What a read does to the pool: pages may be loaded and evicted, what they hold stays.\<close>

definition untouched :: "hash_fn \<Rightarrow> 'j page_cache \<Rightarrow> 'j page_cache \<Rightarrow> bool" where
  "untouched blake3 c c' \<longleftrightarrow> view_kept blake3 c c' \<and> store_page_count (pc_backend c') = store_page_count (pc_backend c)"

lemma untouched_refl [simp]: "untouched blake3 c c"
  by (simp add: untouched_def)

lemma untouched_trans: "untouched blake3 c d \<Longrightarrow> untouched blake3 d e \<Longrightarrow> untouched blake3 c e"
  using view_kept_trans by (auto simp: untouched_def)

lemma untouched_outside: "untouched blake3 c d \<Longrightarrow> kept_outside blake3 A c d"
  by (simp add: untouched_def view_kept_outside)

lemma scan_Ok:
  assumes rep: "table_rep blake3 get c t ch" and run: "scan blake3 bw get t visit (c, v) = (Ok (), (c', v'))"
  shows "visit_all visit (chain_versions ch) v = (Ok (), v') \<and> table_rep blake3 get c' t ch \<and> untouched blake3 c c'"
proof -
  note t = table_repD [OF rep]
  from run obtain u d s where w: "walk blake3 bw t (visit_row_page get (length (tb_columns t)) visit) (scan_page get t visit) (max_hops c) (tb_first_page t)
      (c, scan_start t v) = (Ok u, (d, s))" and out: "on_rest (check_totals t) (d, s) = (Ok (), (c', s\<lparr>sc_visitor := v'\<rparr>))"
    by (auto simp: scan_def traverse_def act_then_eq_Ok on_rest_def check_totals_def split: prod.splits if_splits)
  have fin: "c' = d" "sc_visitor s = v'" using out by (auto simp: on_rest_def check_totals_def split: if_splits) (metis scan_state.ext_inject scan_state.surjective scan_state.update_convs(4))
  have "sc_cold (scan_start t v) + chain_cold ch \<le> tb_cold_pages t"
    "sc_versions (scan_start t v) + length (chain_versions ch) \<le> usize_max" using t(5,6,7) by (simp_all add: scan_start_def)
  from walk_Ok [OF t(2,1) this] w fin have o: "visit_all visit (chain_versions ch) v = (Ok (), v')" "cache_inv blake3 c'"
    "view_kept blake3 c c'" "store_page_count (pc_backend c') = store_page_count (pc_backend c)" by (auto simp: scan_start_def)
  with table_rep_kept [OF rep o(2,3,4)] o show ?thesis by (simp add: untouched_def)
qed

section \<open>Reads by address\<close>

lemma read_record_Ok:
  assumes rep: "table_rep blake3 get c t ch" "(a, w) \<in> set (chain_versions ch)"
    and run: "read_record_at blake3 bw get t a c = (Ok v, c')"
  shows "v = w \<and> table_rep blake3 get c' t ch \<and> untouched blake3 c c'"
proof -
  from version_at [OF rep] obtain pid cold vs i p "next" where
    m: "(pid, cold, vs) \<in> set ch" "unpack_addr a = (pid, of_nat i)" "unat (of_nat i :: u16) = i"
    "i < length vs" "w = vs ! i" "table_page blake3 c t pid = Ok p" "page_holds get (length (tb_columns t)) cold p next vs"
    "resident_page t pid \<noteq> None \<longrightarrow> \<not> cold" by metis
  have cold: "cold \<Longrightarrow> tb_cold_pages t \<noteq> 0" using m(1) chain_cold_mem table_repD(5) [OF rep(1)] by auto
  have rd: "page_record get (tb_cold_pages t) (of_nat i) p = Ok w"
    using page_record_holds [OF m(7) cold, of "of_nat i"] m(3,4,5) by simp
  show ?thesis
  proof (cases "resident_page t pid")
    case None
    from run None m(2) have "with_page blake3 bw pid (page_record get (tb_cold_pages t) (of_nat i)) c = (Ok v, c')"
      by (auto simp: read_record_at_def resident_page_def act_then_eq_Ok split: if_splits)
    from with_page_Ok [OF table_repD(1) [OF rep(1)] this] None m(6) rd have
      k: "v = w" "cache_inv blake3 c'" "view_kept blake3 c c'" "store_page_count (pc_backend c') = store_page_count (pc_backend c)"
      by (auto simp: table_page_def)
    with table_rep_kept [OF rep(1) k(2,3,4)] k show ?thesis by (simp add: untouched_def)
  next
    case (Some tail)
    with m(6,8) have t: "tail = p" "\<not> cold" by (auto simp: table_page_def)
    with m(7) obtain h rs where "row_rep p h rs" by (auto simp: page_holds_def)
    from row_rep_kind [OF this] rd have "and_then (row_record p (of_nat i)) (decode_record get) = Ok w"
      by (simp add: page_record_def row_ref_record_def)
    with run Some t m(2) rep(1) show ?thesis
      by (auto simp: read_record_at_def resident_page_def act_then_eq_Ok split: if_splits)
  qed
qed

section \<open>Frames\<close>

lemma table_rep_frame:
  assumes "table_rep blake3 get c t ch" "cache_inv blake3 c'" "kept_outside blake3 A c c'" "A \<inter> fst ` set ch = {}"
  shows "table_rep blake3 get c' t ch"
proof -
  have "chain_from blake3 get c' t (tb_first_page t) ch"
  proof (rule chain_seg_transfer [OF table_repD(2) [OF assms(1)]])
    fix pid p
    assume "pid \<in> fst ` set ch" "table_page blake3 c t pid = Ok p"
    then show "\<exists>q. table_page blake3 c' t pid = Ok q \<and> same_page p q"
      using assms(3,4) by (cases "resident_page t pid") (auto simp: table_page_def kept_outside_def intro: same_page_refl)
  qed simp_all
  with assms show ?thesis unfolding table_rep_def kept_outside_def by fastforce
qed

lemma decode_record_extends: "decode_record get r = Ok v \<Longrightarrow> get_extends get get' \<Longrightarrow> decode_record get' r = Ok v"
  by (auto simp: decode_record_def and_then_eq_Ok dest: decode_row_extends)

lemma page_holds_extends:
  assumes "page_holds get width cold p next vs" "get_extends get get'"
  shows "page_holds get' width cold p next vs"
proof -
  have "list_all2 (\<lambda>r v. decode_record get' r = Ok v) rs vs" if "list_all2 (\<lambda>r v. decode_record get r = Ok v) rs vs" for rs
    using that by (rule list_all2_mono) (rule decode_record_extends [OF _ assms(2)])
  with assms(1) show ?thesis unfolding page_holds_def by metis
qed

lemma table_rep_extends:
  assumes "table_rep blake3 get c t ch" "get_extends get get'"
  shows "table_rep blake3 get' c t ch"
proof -
  have "chain_seg blake3 get c t start xs stop \<Longrightarrow> chain_seg blake3 get' c t start xs stop" for start xs stop
  proof (induction xs arbitrary: start)
    case (Cons x xs)
    obtain pid cold vs where x: "x = (pid, cold, vs)" by (cases x) auto
    from Cons.prems x obtain p "next" where "start = Some pid" "resident_page t pid \<noteq> None \<longrightarrow> \<not> cold" "table_page blake3 c t pid = Ok p"
      "page_holds get (length (tb_columns t)) cold p next vs" "chain_seg blake3 get c t next xs stop" by auto
    then show ?case unfolding x chain_seg.simps using Cons.IH page_holds_extends [OF _ assms(2)] by metis
  qed simp
  from this [OF table_repD(2) [OF assms(1)]] assms(1) show ?thesis unfolding table_rep_def by simp
qed

end
