(* ===== verification/Row_Lookup.thy ===== *)
theory Row_Lookup
  imports Table_Reads Index_Plan "HOL-Library.Multiset"
begin

text \<open>
  Finding rows (\<^verbatim>\<open>src/db.rs\<close>): the read paths of the engine over one table. A lookup takes its candidates from an index or scans the
  chain, and charges the query budget for what it looks at and what it keeps. Whatever path is taken, the rows found are the visible rows
  that satisfy the predicate.
\<close>

section \<open>Charging for rows\<close>

text \<open>The sizes of \<^verbatim>\<open>Row\<close> and \<^verbatim>\<open>Value\<close> in memory are the compiler's.\<close>

record layout =
  ly_row :: nat
  ly_value :: nat

fun value_bytes :: "layout \<Rightarrow> val \<Rightarrow> nat" where
  "value_bytes ly (VText s) = saturating_add (ly_value ly) (length s)"
| "value_bytes ly (VBlob b) = saturating_add (ly_value ly) (length b)"
| "value_bytes ly _ = ly_value ly"

definition materialize :: "layout \<Rightarrow> row \<Rightarrow> (query_budget, unit) action" where
  "materialize ly row =
     charge_bytes ''materialized more than {} bytes'' (foldl (\<lambda>total v. saturating_add total (value_bytes ly v)) (ly_row ly) row)"

definition materialize_value :: "query_env \<Rightarrow> layout \<Rightarrow> val \<Rightarrow> (query_budget, unit) action" where
  "materialize_value env ly v =
     act_then (checkpoint env) (\<lambda>_. charge_bytes ''{context} materialized more than {} bytes'' (value_bytes ly v))"

definition check_rows :: "query_env \<Rightarrow> row list \<Rightarrow> (query_budget, unit) action" where
  "check_rows env rows =
     act_then (checkpoint env) (\<lambda>_ b.
       if length rows > ql_max_result_rows (qb_limits b)
       then (Err (ResourceLimit ''result has more than {} rows; add or lower LIMIT''), b) else (Ok (), b))"

section \<open>Looking up rows\<close>

type_synonym 'h found = "query_budget option \<times> 'h list"

definition on_budget :: "(query_budget, unit) action \<Rightarrow> ('h found, unit) action" where
  "on_budget act = (\<lambda>(b, hits). case with_budget act b of (r, b') \<Rightarrow> (r, (b', hits)))"

definition row_passes :: "snapshot \<Rightarrow> predicate option \<Rightarrow> col_name list \<Rightarrow> record_envelope \<Rightarrow> row \<Rightarrow> bool result" where
  "row_passes snap flt columns e row =
     (if sees snap e then (case flt of None \<Rightarrow> Ok True | Some pred \<Rightarrow> row_matches pred columns row) else Ok False)"

definition keep_row ::
  "layout \<Rightarrow> snapshot \<Rightarrow> predicate option \<Rightarrow> col_name list \<Rightarrow> (record_addr \<Rightarrow> row \<Rightarrow> 'h) \<Rightarrow> 'h found visitor" where
  "keep_row ly snap flt columns emit addr e row =
     act_then (act_return (row_passes snap flt columns e row)) (\<lambda>ok.
       if ok then act_then (on_budget (materialize ly row)) (\<lambda>_ (b, hits). (Ok (), (b, hits @ [emit addr row])))
       else act_return (Ok ()))"

definition visit_row ::
  "query_env \<Rightarrow> layout \<Rightarrow> snapshot \<Rightarrow> predicate option \<Rightarrow> col_name list \<Rightarrow> (record_addr \<Rightarrow> row \<Rightarrow> 'h) \<Rightarrow> 'h found visitor" where
  "visit_row env ly snap flt columns emit addr e row =
     act_then (on_budget (scan_row env)) (\<lambda>_. keep_row ly snap flt columns emit addr e row)"

record 'j reader_env =
  re_env :: query_env
  re_layout :: layout
  re_blake3 :: hash_fn
  re_hook :: "'j write_hook"

definition scan_rows ::
  "'j reader_env \<Rightarrow> (u64 \<Rightarrow> bytes result) \<Rightarrow> table \<Rightarrow> snapshot \<Rightarrow> predicate option \<Rightarrow> (record_addr \<Rightarrow> row \<Rightarrow> 'h) \<Rightarrow>
   (('j, 'h found) pool_state, unit) action" where
  "scan_rows R get t snap flt emit =
     scan (re_blake3 R) (re_hook R) get t (visit_row (re_env R) (re_layout R) snap flt (tb_columns t) emit)"

fun read_candidates ::
  "'j reader_env \<Rightarrow> (u64 \<Rightarrow> bytes result) \<Rightarrow> table \<Rightarrow> snapshot \<Rightarrow> predicate option \<Rightarrow> (record_addr \<Rightarrow> row \<Rightarrow> 'h) \<Rightarrow> record_addr list \<Rightarrow>
   (('j, 'h found) pool_state, unit) action" where
  "read_candidates R get t snap flt emit [] = act_return (Ok ())"
| "read_candidates R get t snap flt emit (a # addrs) =
     act_then (on_rest (on_budget (scan_row (re_env R)))) (\<lambda>_.
     act_then (on_pool (read_record_at (re_blake3 R) (re_hook R) get t a)) (\<lambda>(e, row).
     act_then (on_rest (keep_row (re_layout R) snap flt (tb_columns t) emit a e row)) (\<lambda>_.
       read_candidates R get t snap flt emit addrs)))"

text \<open>The body that \<^verbatim>\<open>collect_matching\<close> and \<^verbatim>\<open>select_filtered_bounded\<close> share.\<close>

definition find_rows ::
  "'j reader_env \<Rightarrow> (u64 \<Rightarrow> bytes result) \<Rightarrow> table \<Rightarrow> snapshot \<Rightarrow> predicate option \<Rightarrow> (record_addr \<Rightarrow> row \<Rightarrow> 'h) \<Rightarrow>
   (('j, 'h found) pool_state, unit) action" where
  "find_rows R get t snap flt emit =
     (case flt of
        None \<Rightarrow> scan_rows R get t snap flt emit
      | Some pred \<Rightarrow>
          act_then (act_return (check_predicate_columns (tb_columns t) pred)) (\<lambda>_.
          act_then (\<lambda>(c, (b, hits)). case index_candidates (re_env R) (tb_indexes t) pred b of (r, b') \<Rightarrow> (r, (c, (b', hits)))) (\<lambda>cands.
            case cands of
              Some addrs \<Rightarrow> read_candidates R get t snap flt emit addrs
            | None \<Rightarrow> scan_rows R get t snap flt emit)))"

definition lookup ::
  "'j reader_env \<Rightarrow> (u64 \<Rightarrow> bytes result) \<Rightarrow> table \<Rightarrow> snapshot \<Rightarrow> predicate option \<Rightarrow> (record_addr \<Rightarrow> row \<Rightarrow> 'h) \<Rightarrow>
   (('j, query_budget option) pool_state, 'h list) action" where
  "lookup R get t snap flt emit = (\<lambda>(c, b).
     case find_rows R get t snap flt emit (c, (b, [])) of
       (Ok _, (c', (b', hits))) \<Rightarrow> (Ok hits, (c', b'))
     | (Err e, (c', (b', _))) \<Rightarrow> (Err e, (c', b'))
     | (Panic, (c', (b', _))) \<Rightarrow> (Panic, (c', b')))"

definition collect_matching ::
  "'j reader_env \<Rightarrow> (u64 \<Rightarrow> bytes result) \<Rightarrow> table \<Rightarrow> predicate \<Rightarrow> snapshot \<Rightarrow>
   (('j, query_budget option) pool_state, (record_addr \<times> row) list) action" where
  "collect_matching R get t pred snap = lookup R get t snap (Some pred) Pair"

definition select_filtered ::
  "'j reader_env \<Rightarrow> (u64 \<Rightarrow> bytes result) \<Rightarrow> table \<Rightarrow> predicate option \<Rightarrow> snapshot \<Rightarrow>
   (('j, query_budget option) pool_state, row list) action" where
  "select_filtered R get t flt snap = lookup R get t snap flt (\<lambda>_ row. row)"

text \<open>Reading in the order of an index, up to a limit.\<close>

fun read_ordered ::
  "'j reader_env \<Rightarrow> (u64 \<Rightarrow> bytes result) \<Rightarrow> table \<Rightarrow> snapshot \<Rightarrow> nat option \<Rightarrow> record_addr list \<Rightarrow> (('j, row found) pool_state, unit) action" where
  "read_ordered R get t snap limit [] = act_return (Ok ())"
| "read_ordered R get t snap limit (a # addrs) =
     act_then (on_rest (on_budget (scan_row (re_env R)))) (\<lambda>_.
     act_then (on_pool (read_record_at (re_blake3 R) (re_hook R) get t a)) (\<lambda>(e, row).
       if sees snap e
       then act_then (on_rest (on_budget (materialize (re_layout R) row))) (\<lambda>_ (c, (b, rows)).
         let rows' = rows @ [row] in
         if (case limit of Some n \<Rightarrow> length rows' \<ge> n | None \<Rightarrow> False) then (Ok (), (c, (b, rows')))
         else read_ordered R get t snap limit addrs (c, (b, rows')))
       else read_ordered R get t snap limit addrs))"

definition select_ordered_by_index ::
  "'j reader_env \<Rightarrow> (u64 \<Rightarrow> bytes result) \<Rightarrow> table \<Rightarrow> col_name \<Rightarrow> bool \<Rightarrow> snapshot \<Rightarrow> nat option \<Rightarrow>
   (('j, row found) pool_state, unit) action" where
  "select_ordered_by_index R get t column descending snap limit =
     (case bt_get (tb_indexes t) column of
        None \<Rightarrow> act_return Panic
      | Some ix \<Rightarrow> read_ordered R get t snap limit (ordered_addrs ix descending))"

definition count_envelope :: "query_env \<Rightarrow> snapshot \<Rightarrow> record_envelope \<Rightarrow> (query_budget option \<times> nat, unit) action" where
  "count_envelope env snap e =
     act_then (\<lambda>(b, n). case with_budget (scan_row env) b of (r, b') \<Rightarrow> (r, (b', n))) (\<lambda>_ (b, n).
       if sees snap e then (if n < usize_max then (Ok (), (b, n + 1)) else (Panic, (b, n))) else (Ok (), (b, n)))"

definition count_visible ::
  "'j reader_env \<Rightarrow> table \<Rightarrow> snapshot \<Rightarrow> (('j, query_budget option \<times> nat) pool_state, unit) action" where
  "count_visible R t snap = scan_envelopes (re_blake3 R) (re_hook R) t (count_envelope (re_env R) snap)"

section \<open>What a lookup finds\<close>

definition passing :: "snapshot \<Rightarrow> predicate option \<Rightarrow> col_name list \<Rightarrow> record_addr \<times> versioned_row \<Rightarrow> bool" where
  "passing snap flt columns = (\<lambda>(a, v). row_passes snap flt columns (fst v) (snd v) = Ok True)"

definition emitted :: "(record_addr \<Rightarrow> row \<Rightarrow> 'h) \<Rightarrow> record_addr \<times> versioned_row \<Rightarrow> 'h" where
  "emitted emit = (\<lambda>(a, v). emit a (snd v))"

definition table_indexed :: "table \<Rightarrow> (record_addr \<times> versioned_row) list \<Rightarrow> bool" where
  "table_indexed t vs \<longleftrightarrow> indexes_inv (tb_indexes t) \<and>
     (\<forall>(a, v) \<in> set vs. row_indexed (tb_indexes t) (tb_columns t) (snd v) a) \<and> (\<forall>a. indexed_addr (tb_indexes t) a \<longrightarrow> a \<in> fst ` set vs)"

lemma on_rest_Ok: "on_rest m (c, s) = (Ok x, s') \<longleftrightarrow> (\<exists>s1. m s = (Ok x, s1) \<and> s' = (c, s1))"
  by (auto simp: on_rest_def split: prod.splits)

lemma on_budget_Ok: "on_budget act (b, hits) = (Ok u, (b', hits')) \<Longrightarrow> hits' = hits"
  by (auto simp: on_budget_def split: prod.splits)

lemma keep_row_Ok:
  assumes "keep_row ly snap flt columns emit a e row (b, hits) = (Ok u, (b', hits'))"
  shows "hits' = hits @ map (emitted emit) (filter (passing snap flt columns) [(a, (e, row))])"
  using assms by (auto simp: keep_row_def act_then_eq_Ok passing_def emitted_def dest!: on_budget_Ok split: if_splits)

lemma visit_rows_Ok:
  assumes "visit_all (visit_row env ly snap flt columns emit) vs (b, hits) = (Ok (), (b', hits'))"
  shows "hits' = hits @ map (emitted emit) (filter (passing snap flt columns) vs)"
  using assms
proof (induction vs arbitrary: b hits)
  case (Cons x vs)
  obtain a e row where x: "x = (a, (e, row))" by (cases x) auto
  from Cons.prems x obtain u b0 h0 w b1 h1 where s: "on_budget (scan_row env) (b, hits) = (Ok u, (b0, h0))"
    "keep_row ly snap flt columns emit a e row (b0, h0) = (Ok w, (b1, h1))"
    "visit_all (visit_row env ly snap flt columns emit) vs (b1, h1) = (Ok (), (b', hits'))"
    by (auto simp: visit_row_def [of env ly snap flt columns emit a e row] act_then_eq_Ok)
  from on_budget_Ok [OF s(1)] keep_row_Ok [OF s(2)] Cons.IH [OF s(3)] x show ?case by simp
qed simp

lemma read_candidates_Ok:
  assumes "table_rep blake3 get c t ch" "vs = chain_versions ch" "set addrs \<subseteq> fst ` set vs"
    and "re_blake3 R = blake3"
    and "read_candidates R get t snap flt emit addrs (c, (b, hits)) = (Ok (), (c', (b', hits')))"
  shows "hits' = hits @ map (emitted emit) (filter (passing snap flt (tb_columns t)) (map (\<lambda>a. (a, the (map_of vs a))) addrs)) \<and>
    table_rep blake3 get c' t ch \<and> untouched blake3 c c'"
  using assms(1,3,5)
proof (induction addrs arbitrary: c b hits)
  case Nil
  then show ?case by simp
next
  case (Cons a addrs)
  from Cons.prems(3) assms(4) obtain u b0 h0 e row c1 w b1 h1 where
    s: "on_budget (scan_row (re_env R)) (b, hits) = (Ok u, (b0, h0))" "read_record_at blake3 (re_hook R) get t a c = (Ok (e, row), c1)"
      "keep_row (re_layout R) snap flt (tb_columns t) emit a e row (b0, h0) = (Ok w, (b1, h1))"
      "read_candidates R get t snap flt emit addrs (c1, (b1, h1)) = (Ok (), (c', (b', hits')))"
    by (auto simp: act_then_eq_Ok on_pool_Ok on_rest_Ok)
  from Cons.prems(2) obtain v where v: "(a, v) \<in> set vs" by auto
  then have m: "map_of vs a = Some v" using table_versions_distinct [OF Cons.prems(1)] assms(2) by simp
  from read_record_Ok [OF Cons.prems(1) v [unfolded assms(2)] s(2)] have
    r: "(e, row) = v" "table_rep blake3 get c1 t ch" "untouched blake3 c c1" by blast+
  from Cons.IH [OF r(2) _ s(4)] Cons.prems(2) have
    ih: "hits' = h1 @ map (emitted emit) (filter (passing snap flt (tb_columns t)) (map (\<lambda>a. (a, the (map_of vs a))) addrs))"
      "table_rep blake3 get c' t ch" "untouched blake3 c1 c'" by auto
  from keep_row_Ok [OF s(3)] on_budget_Ok [OF s(1)] ih(1) m r(1) have
    "hits' = hits @ map (emitted emit) (filter (passing snap flt (tb_columns t)) (map (\<lambda>a. (a, the (map_of vs a))) (a # addrs)))" by auto
  with ih(2) untouched_trans [OF r(3) ih(3)] show ?case by blast
qed

lemma passing_matches: "passing snap (Some pred) columns (a, v) \<longleftrightarrow> sees snap (fst v) \<and> row_matches pred columns (snd v) = Ok True"
  by (auto simp: passing_def row_passes_def)

lemma candidate_versions:
  assumes "distinct (map fst vs)" "distinct addrs" "set addrs \<subseteq> fst ` set vs" "\<And>a v. (a, v) \<in> set vs \<Longrightarrow> P (a, v) \<Longrightarrow> a \<in> set addrs"
  shows "mset (filter P (map (\<lambda>a. (a, the (map_of vs a))) addrs)) = mset (filter P vs)"
proof -
  have "distinct (map (\<lambda>a. (a, the (map_of vs a))) addrs)" using assms(2) by (simp add: distinct_map inj_on_def)
  moreover have "distinct vs" using assms(1) by (simp add: distinct_map)
  moreover have "set (filter P (map (\<lambda>a. (a, the (map_of vs a))) addrs)) = set (filter P vs)"
  proof -
    have "(a, the (map_of vs a)) \<in> set vs" if "a \<in> set addrs" for a
    proof -
      from that assms(3) obtain v where "(a, v) \<in> set vs" by auto
      with assms(1) show ?thesis by simp
    qed
    moreover have "the (map_of vs a) = v" if "(a, v) \<in> set vs" for a v using that assms(1) by simp
    ultimately have "x \<in> set (filter P (map (\<lambda>a. (a, the (map_of vs a))) addrs)) \<longleftrightarrow> x \<in> set (filter P vs)" for x
      using assms(4) by (cases x) auto
    then show ?thesis by blast
  qed
  ultimately show ?thesis by (subst set_eq_iff_mset_eq_distinct [symmetric]) simp_all
qed

lemma find_rows_Ok:
  assumes rep: "table_rep blake3 get c t ch" "table_indexed t (chain_versions ch)" "re_blake3 R = blake3"
    and run: "find_rows R get t snap flt emit (c, (b, hits)) = (Ok (), (c', (b', hits')))"
  shows "(\<exists>sel. mset sel = mset (filter (passing snap flt (tb_columns t)) (chain_versions ch)) \<and> hits' = hits @ map (emitted emit) sel) \<and>
    table_rep blake3 get c' t ch \<and> untouched blake3 c c'"
proof -
  have scan: ?thesis if "scan_rows R get t snap flt emit (c, (b0, hits)) = (Ok (), (c', (b', hits')))" for b0
  proof -
    have "scan blake3 (re_hook R) get t (visit_row (re_env R) (re_layout R) snap flt (tb_columns t) emit) (c, (b0, hits)) = (Ok (), (c', (b', hits')))"
      using that rep(3) by (simp add: scan_rows_def)
    from scan_Ok [OF rep(1) this] have
      "visit_all (visit_row (re_env R) (re_layout R) snap flt (tb_columns t) emit) (chain_versions ch) (b0, hits) = (Ok (), (b', hits'))"
      "table_rep blake3 get c' t ch" "untouched blake3 c c'" by blast+
    with visit_rows_Ok show ?thesis by blast
  qed
  show ?thesis
  proof (cases flt)
    case None
    with run scan show ?thesis by (simp add: find_rows_def)
  next
    case (Some pred)
    with run obtain cands b0 where i: "index_candidates (re_env R) (tb_indexes t) pred b = (Ok cands, b0)"
      and rest: "(case cands of Some addrs \<Rightarrow> read_candidates R get t snap flt emit addrs | None \<Rightarrow> scan_rows R get t snap flt emit) (c, (b0, hits)) =
        (Ok (), (c', (b', hits')))"
      by (auto simp: find_rows_def act_then_eq_Ok split: prod.splits)
    show ?thesis
    proof (cases cands)
      case (Some addrs)
      let ?vs = "chain_versions ch"
      have inv: "indexes_inv (tb_indexes t)" using rep(2) by (simp add: table_indexed_def)
      from index_candidates_facts [OF inv, of "re_env R" pred b] i Some have
        f: "distinct addrs" "\<And>columns row a. row_matches pred columns row = Ok True \<Longrightarrow> row_indexed (tb_indexes t) columns row a \<Longrightarrow> a \<in> set addrs"
          "\<And>a. a \<in> set addrs \<Longrightarrow> indexed_addr (tb_indexes t) a" by blast+
      have sub: "set addrs \<subseteq> fst ` set ?vs" using f(3) rep(2) by (auto simp: table_indexed_def)
      from rest Some have rd: "read_candidates R get t snap flt emit addrs (c, (b0, hits)) = (Ok (), (c', (b', hits')))" by simp
      have "a \<in> set addrs" if "(a, v) \<in> set ?vs" "passing snap flt (tb_columns t) (a, v)" for a v
        using that f(2) rep(2) unfolding \<open>flt = Some pred\<close> passing_matches by (fastforce simp: table_indexed_def)
      note m = candidate_versions [OF table_versions_distinct [OF rep(1)] f(1) sub this]
      from read_candidates_Ok [OF rep(1) refl sub rep(3) rd] show ?thesis
        by (intro conjI exI [of _ "filter (passing snap flt (tb_columns t)) (map (\<lambda>a. (a, the (map_of ?vs a))) addrs)"] m) auto
    qed (use rest scan in simp)
  qed
qed

lemma lookup_Ok:
  assumes "table_rep blake3 get c t ch" "table_indexed t (chain_versions ch)" "re_blake3 R = blake3"
    and "lookup R get t snap flt emit (c, b) = (Ok hits, (c', b'))"
  shows "(\<exists>sel. mset sel = mset (filter (passing snap flt (tb_columns t)) (chain_versions ch)) \<and> hits = map (emitted emit) sel) \<and>
    table_rep blake3 get c' t ch \<and> untouched blake3 c c'"
proof -
  obtain r d b0 hs where r: "find_rows R get t snap flt emit (c, (b, [])) = (r, (d, (b0, hs)))" by (metis prod_cases4)
  with assms(4) have "r = Ok () \<and> d = c' \<and> b0 = b' \<and> hs = hits" by (cases r) (simp_all add: lookup_def)
  with r have "find_rows R get t snap flt emit (c, (b, [])) = (Ok (), (c', (b', hits)))" by simp
  from find_rows_Ok [OF assms(1,2,3) this] show ?thesis by simp
qed

end
