(* ===== verification/Table_Laws.thy ===== *)
theory Table_Laws
  imports Table_Reads
begin

text \<open>
  The contract of the table layer: a scan, a read by address, an append and a deletion, each stated on the bytes of the pages against the
  list of record versions the table holds. The interface \<open>version_store\<close> collects the laws of the two operations that change a
  table; that writers do not disturb older snapshots is proved from those laws alone and holds for the model through its interpretation.
\<close>

section \<open>A concrete table\<close>

definition sample_pool :: "unit page_cache" where
  "sample_pool = cache_new (Mem [], \<lparr>fs_files = \<lambda>_. None, fs_denied = \<lambda>_. False\<rparr>) 4"

definition sample_table :: table where
  "sample_table = \<lparr>tb_columns = [[97]], tb_unique_columns = {}, tb_not_null_columns = {}, tb_defaults = [], tb_checks = [],
     tb_first_page = None, tb_tail_id = None, tb_tail = None, tb_row_versions = 0, tb_cold_pages = 0, tb_compaction_cursor = None,
     tb_page_ids = None, tb_indexes = []\<rparr>"

definition sample_record :: bytes where
  "sample_record = envelope_encode (envelope_new 1 0) @ [1, 0, 0]"

definition no_blobs :: "u64 \<Rightarrow> bytes result" where
  "no_blobs _ = Err (Corruption ''no blobs'')"

lemma sample_decodes: "decode_record no_blobs sample_record = Ok (envelope_new 1 0, [VNull])"
  by (simp add: sample_record_def decode_record_def decode_row_def decode_field_def read_u16_def get_le_def TAG_NULL_def slice_get_def elem_get_def map_reader_def get_exact_def numeral_eq_Suc from_le_def get_byte_def)

lemma length_sample: "length sample_record = 27"
  by (simp add: sample_record_def length_headers size_defs)

lemma sample_pool_ok:
  "cache_inv blake3 sample_pool" "in_memory sample_pool" "pc_clock sample_pool = 0" "store_page_count (pc_backend sample_pool) = 0"
proof -
  show "cache_inv blake3 sample_pool" unfolding sample_pool_def by (rule cache_new_inv) (simp add: usize_max_def)
qed (simp_all add: sample_pool_def cache_new_def in_memory_def store_page_count_def mem_page_count_def)

lemma sample_table_ok:
  "table_rep blake3 no_blobs sample_pool sample_table []" "writable sample_table []"
  "record_for no_blobs sample_table sample_record (envelope_new 1 0, [VNull])"
  using sample_pool_ok(1)
  by (simp_all add: table_rep_def sample_table_def tail_last_def writable_def record_for_def sample_decodes usize_max_def
      length_sample MAX_RECORD_def size_defs SLOT_SIZE_def)

text \<open>The table after one append.\<close>

lemma sample_appended:
  obtains c t ch a where "append_record blake3 bw sample_record (sample_pool, sample_table) = (Ok a, (c, t))"
    "table_rep blake3 no_blobs c t ch" "chain_versions ch = [(a, (envelope_new 1 0, [VNull]))]" "ready blake3 (length ch + 1) c"
    "tb_columns t = [[97]]" "tb_indexes t = []"
proof -
  obtain i c where alloc: "cache_alloc_page sample_pool = (Ok i, c)" using cache_alloc_memory [OF sample_pool_ok(2)] by blast
  have small: "store_page_count (pc_backend sample_pool) < 2 ^ 48" by (simp add: sample_pool_ok)
  note a = cache_alloc_Ok [OF sample_pool_ok(1) alloc small]
  from append_first_page [OF sample_table_ok(1) alloc small sample_table_ok(3), of blake3 bw] obtain t ch where
    t: "append_record blake3 bw sample_record (sample_pool, sample_table) = (Ok (pack_addr i 0), (c, t))"
      "table_rep blake3 no_blobs c t ch" "chain_versions ch = [(pack_addr i 0, (envelope_new 1 0, [VNull]))]"
      "tb_columns t = [[97]]" "tb_indexes t = []"
    by (auto simp: grown_def same_schema_def sample_table_def)
  have "max_hops c = 2" using a(2,3) by (simp add: max_hops_def sample_pool_ok saturating_add_def usize_max_def)
  with chain_fits [OF t(2)] a(1,6,7) have "ready blake3 (length ch + 1) c"
    by (simp add: ready_def sample_pool_ok usize_max_def)
  with t that show thesis by blast
qed

section \<open>The laws\<close>

text \<open>
  C7: A scan sees the table. On any pool, a \<^verbatim>\<open>scan\<close> that succeeds has applied the caller's closure to every record version of the table, once
  each and in chain order, with its address, and has changed no page, whatever pages were loaded and evicted on the way. On a pool that can serve the
  chain without a write that may fail (the backend is in memory, or no resident page is dirty, with ticks left) it has exactly the outcome of
  applying the closure to the versions: the first error of the closure ends it, and nothing else does.
\<close>

theorem scan_exact:
  assumes "table_rep blake3 get c t ch"
  shows "(\<forall>c' v'. scan blake3 bw get t visit (c, v) = (Ok (), (c', v')) \<longrightarrow>
      visit_all visit (chain_versions ch) v = (Ok (), v') \<and> table_rep blake3 get c' t ch \<and> view_kept blake3 c c') \<and>
    (ready blake3 (length ch) c \<longrightarrow> (\<exists>c'. scan blake3 bw get t visit (c, v) =
      (case visit_all visit (chain_versions ch) v of (r, v') \<Rightarrow> (r, (c', v'))) \<and>
      cache_inv blake3 c' \<and> view_kept blake3 c c'))"
  using scan_Ok [OF assms, of bw visit v] scan_visits [OF assms, of bw visit v] unfolding untouched_def by blast

theorem scan_exact_witness:
  "\<exists>a c t c' :: unit page_cache. append_record sample_digest (\<lambda>_. act_return (Ok ())) sample_record (sample_pool, sample_table) = (Ok a, (c, t)) \<and>
     scan sample_digest (\<lambda>_. act_return (Ok ())) no_blobs t (\<lambda>addr _ row rows. (Ok (), rows @ [(addr, row)])) (c, []) = (Ok (), (c', [(a, [VNull])]))"
proof -
  let ?w = "\<lambda>_. act_return (Ok ()) :: (unit \<times> file_system, unit) action"
  let ?f = "\<lambda>addr _ row rows. (Ok (), rows @ [(addr, row)])"
  obtain c t ch a where s: "append_record sample_digest ?w sample_record (sample_pool, sample_table) = (Ok a, (c, t))"
    "table_rep sample_digest no_blobs c t ch" "chain_versions ch = [(a, (envelope_new 1 0, [VNull]))]" "ready sample_digest (length ch + 1) c"
    by (rule sample_appended)
  from scan_exact [OF s(2), of ?w ?f "[]"] ready_mono [OF s(4), of "length ch"] s(1,3) show ?thesis by fastforce
qed

text \<open>
  C6: An append adds one version. For a record that fits a page and has the table's width, a successful
  \<^verbatim>\<open>append_record\<close> leaves a table whose versions are the old ones with the new one at the end,
  under an address no version had before; in memory, with a page identifier and a tick left, the append cannot fail. This
  covers the first page, room in the tail, and a full tail that is linked to a fresh page and written back through the pool.
\<close>

theorem append_record_refines:
  assumes "table_rep blake3 get c t ch" "writable t ch" "store_page_count (pc_backend c) < 2 ^ 48" "record_for get t rec v"
  shows "(\<forall>a c' t'. append_record blake3 bw rec (c, t) = (Ok a, (c', t')) \<longrightarrow>
      (\<exists>ch'. table_rep blake3 get c' t' ch' \<and> writable t' ch' \<and> chain_versions ch' = chain_versions ch @ [(a, v)] \<and>
        a \<notin> fst ` set (chain_versions ch))) \<and>
    (in_memory c \<and> pc_clock c < usize_max \<longrightarrow> (\<exists>a s'. append_record blake3 bw rec (c, t) = (Ok a, s')))"
proof (intro conjI allI impI)
  fix a c' t'
  assume "append_record blake3 bw rec (c, t) = (Ok a, (c', t'))"
  from append_record_Ok [OF assms this] obtain ch' where ch': "table_rep blake3 get c' t' ch'"
    "chain_versions ch' = chain_versions ch @ [(a, v)]" "writable t' ch'" by (auto simp: grown_def)
  with table_versions_distinct [OF ch'(1)] show "\<exists>ch'. table_rep blake3 get c' t' ch' \<and> writable t' ch' \<and>
    chain_versions ch' = chain_versions ch @ [(a, v)] \<and> a \<notin> fst ` set (chain_versions ch)" by auto
qed (use append_record_memory [OF assms] in blast)

theorem append_record_refines_witness:
  "\<exists>a c' t' ch'. append_record sample_digest (\<lambda>_. act_return (Ok ())) sample_record (sample_pool, sample_table) = (Ok a, (c', t')) \<and>
     table_rep sample_digest no_blobs c' t' ch' \<and> chain_versions ch' = [(a, (envelope_new 1 0, [VNull]))]"
proof -
  let ?w = "\<lambda>_. act_return (Ok ()) :: (unit \<times> file_system, unit) action"
  have "store_page_count (pc_backend sample_pool) < 2 ^ 48" "pc_clock sample_pool < usize_max" by (simp_all add: sample_pool_ok usize_max_def)
  with append_record_refines [OF sample_table_ok(1,2) _ sample_table_ok(3), of sample_digest ?w] sample_pool_ok(2) show ?thesis
    by (metis append_Nil chain_simps(1) surj_pair)
qed

text \<open>
  C9: A version is read back by its address. For every version of the table and on any pool, a \<^verbatim>\<open>read_record_at\<close> that succeeds returns exactly that
  version and changes no page; on a pool that can serve one more page without a write that may fail (in memory, or no resident page dirty, with
  ticks left) it succeeds.
\<close>

theorem read_record_exact:
  assumes "table_rep blake3 get c t ch" "(a, v) \<in> set (chain_versions ch)"
  shows "(\<forall>w c'. read_record_at blake3 bw get t a c = (Ok w, c') \<longrightarrow> w = v \<and> table_rep blake3 get c' t ch \<and> view_kept blake3 c c') \<and>
    (ready blake3 1 c \<longrightarrow> (\<exists>c'. read_record_at blake3 bw get t a c = (Ok v, c')))"
  using read_record_Ok [OF assms, of bw] read_record_ready [OF assms, of bw] unfolding untouched_def by blast

theorem read_record_exact_witness:
  "\<exists>a c t c' :: unit page_cache. append_record sample_digest (\<lambda>_. act_return (Ok ())) sample_record (sample_pool, sample_table) = (Ok a, (c, t)) \<and>
     read_record_at sample_digest (\<lambda>_. act_return (Ok ())) no_blobs t a c = (Ok (envelope_new 1 0, [VNull]), c')"
proof -
  let ?w = "\<lambda>_. act_return (Ok ()) :: (unit \<times> file_system, unit) action"
  obtain c t ch a where s: "append_record sample_digest ?w sample_record (sample_pool, sample_table) = (Ok a, (c, t))"
    "table_rep sample_digest no_blobs c t ch" "chain_versions ch = [(a, (envelope_new 1 0, [VNull]))]" "ready sample_digest (length ch + 1) c"
    by (rule sample_appended)
  from read_record_exact [OF s(2), of a "(envelope_new 1 0, [VNull])" ?w] ready_mono [OF s(4), of 1] s(1,3) show ?thesis by (metis le_add2 list.set_intros(1))
qed

text \<open>
  C8: Deleting a version marks that version and nothing else. For the address of a version of the table, a successful
  \<^verbatim>\<open>patch_delete_at\<close> leaves the same versions under the same addresses, with the transaction stamped into the one addressed (on a row
  page, in the resident tail, or in a compressed cold page) and its row unchanged; pages of other tables keep their contents,
  and with a pool that can serve the chain the operation succeeds.
\<close>

theorem delete_marks_one:
  assumes "table_rep blake3 get c t ch" "(a, v) \<in> set (chain_versions ch)"
  shows "(\<forall>c' t'. patch_delete_at blake3 bw a tx (c, t) = (Ok (), (c', t')) \<longrightarrow>
      (\<exists>ch'. table_rep blake3 get c' t' ch' \<and> chain_versions ch' = mark_version a tx (chain_versions ch)) \<and>
      kept_outside blake3 (fst ` set ch) c c') \<and>
    (ready blake3 (length ch + 1) c \<longrightarrow> (\<exists>s'. patch_delete_at blake3 bw a tx (c, t) = (Ok (), s')))"
  using patch_delete_Ok [OF assms] patch_delete_ready [OF assms] by (fastforce simp: deleted_def)

theorem delete_marks_one_witness:
  "\<exists>a c t c' t' ch'. append_record sample_digest (\<lambda>_. act_return (Ok ())) sample_record (sample_pool, sample_table) = (Ok a, (c, t)) \<and>
     patch_delete_at sample_digest (\<lambda>_. act_return (Ok ())) a 2 (c, t) = (Ok (), (c', t')) \<and>
     table_rep sample_digest no_blobs c' t' ch' \<and> chain_versions ch' = [(a, (mark_deleted (envelope_new 1 0) 2, [VNull]))]"
proof -
  let ?w = "\<lambda>_. act_return (Ok ()) :: (unit \<times> file_system, unit) action"
  obtain c t ch a where s: "append_record sample_digest ?w sample_record (sample_pool, sample_table) = (Ok a, (c, t))"
    "table_rep sample_digest no_blobs c t ch" "chain_versions ch = [(a, (envelope_new 1 0, [VNull]))]" "ready sample_digest (length ch + 1) c"
    by (rule sample_appended)
  have m: "mark_version a 2 (chain_versions ch) = [(a, (mark_deleted (envelope_new 1 0) 2, [VNull]))]"
    by (simp add: s(3) mark_version_def tombstoned_def)
  from delete_marks_one [OF s(2), of a "(envelope_new 1 0, [VNull])" ?w 2] s(3,4) obtain c' t' ch' where
    "patch_delete_at sample_digest ?w a 2 (c, t) = (Ok (), (c', t'))" "table_rep sample_digest no_blobs c' t' ch'"
    "chain_versions ch' = mark_version a 2 (chain_versions ch)" by (metis list.set_intros(1) surj_pair)
  with s(1) m show ?thesis by metis
qed

section \<open>Stores of record versions\<close>

text \<open>The versions are a function of the pages.\<close>

lemma page_holds_unique:
  assumes "page_holds get width cold p next vs" "page_holds get width' cold' p next' vs'"
  shows "next' = next \<and> cold' = cold \<and> vs' = vs"
proof -
  have k: "next' = next" "cold' = cold" using page_link_holds [OF assms(1)] page_link_holds [OF assms(2)] by simp_all
  have "vs ! i = vs' ! i" if "i < length vs" "i < length vs'" for i
  proof -
    have i: "unat (of_nat i :: u16) = i" using that(1) page_holds_length [OF assms(1)] by (simp add: unat_of_nat_u16)
    show ?thesis
      using page_record_holds [OF assms(1), of 1 "of_nat i"] page_record_holds [OF assms(2), of 1 "of_nat i"] that i by simp
  qed
  moreover have "length vs = length vs'"
  proof (cases cold)
    case True
    then obtain used len used' len' where c: "cold_rep p next used vs len" "cold_rep p next' used' vs' len'"
      using assms k by (auto simp: page_holds_def)
    then show ?thesis using cold_decode_rep [OF c(1)] cold_decode_rep [OF c(2)] by (metis (no_types) prod.inject result.inject(1) length_map)
  next
    case False
    then obtain h rs h' rs' where r: "row_rep p h rs" "list_all2 (\<lambda>r v. decode_record get r = Ok v) rs vs"
      "row_rep p h' rs'" "list_all2 (\<lambda>r v. decode_record get r = Ok v) rs' vs'" using assms k by (auto simp: page_holds_def)
    then show ?thesis using row_rep_slots [OF r(1)] row_rep_slots [OF r(3)] by (auto dest!: list_all2_lengthD)
  qed
  ultimately show ?thesis using k by (metis nth_equalityI)
qed

lemma chain_unique: "chain_from blake3 get c t start ch \<Longrightarrow> chain_from blake3 get c t start ch' \<Longrightarrow> ch' = ch"
proof (induction ch arbitrary: start ch')
  case Nil
  then show ?case by (cases ch') auto
next
  case (Cons x ch)
  obtain pid cold vs where x: "x = (pid, cold, vs)" by (cases x) auto
  with Cons.prems(1) obtain p "next" where p: "start = Some pid" "table_page blake3 c t pid = Ok p"
    "page_holds get (length (tb_columns t)) cold p next vs" "chain_from blake3 get c t next ch" by auto
  with Cons.prems(2) obtain cold' vs' next' rest where y: "ch' = (pid, cold', vs') # rest"
    "page_holds get (length (tb_columns t)) cold' p next' vs'" "chain_from blake3 get c t next' rest" by (cases ch') auto
  with page_holds_unique [OF p(3) y(2)] Cons.IH [OF p(4), of rest] x show ?case by simp
qed

lemma table_rep_unique: "table_rep blake3 get c t ch \<Longrightarrow> table_rep blake3 get c t ch' \<Longrightarrow> ch' = ch"
  using chain_unique table_repD(2) by blast

text \<open>The interface of a store that only grows and marks.\<close>

type_synonym versions = "(record_addr \<times> versioned_row) list"

definition visible_versions :: "tx_id \<Rightarrow> versions \<Rightarrow> (record_addr \<times> row) list" where
  "visible_versions now vs = map (\<lambda>(a, v). (a, snd v)) (filter (\<lambda>(a, v). is_visible (fst v) now) vs)"

lemma visible_append: "visible_versions now (vs @ ws) = visible_versions now vs @ visible_versions now ws"
  by (simp add: visible_versions_def)

lemma visible_new: "now < tx_inserted (fst v) \<Longrightarrow> visible_versions now [(a, v)] = []"
  by (auto simp: visible_versions_def is_visible_window)

lemma visible_mark:
  assumes "distinct (map fst vs)" "(a, v) \<in> set vs" "is_active (fst v)" "now < tx"
  shows "visible_versions now (mark_version a tx vs) = visible_versions now vs"
proof -
  have one: "w = v" if "(a, w) \<in> set vs" for w using that assms(1,2) by (metis eq_key_imp_eq_value)
  have "is_visible (mark_deleted (fst v) tx) now \<longleftrightarrow> is_visible (fst v) now"
    using assms(3,4) by (auto simp: is_visible_window mark_deleted_def is_active_def TX_NULL_def)
  then have "(case x of (b, w) \<Rightarrow> is_visible (fst (if b = a then tombstoned tx w else w)) now) = (case x of (b, w) \<Rightarrow> is_visible (fst w) now)"
    if "x \<in> set vs" for x using that one by (auto simp: tombstoned_def)
  then show ?thesis
    unfolding visible_versions_def mark_version_def filter_map comp_def map_map
    by (intro map_cong filter_cong) (auto simp: case_prod_unfold tombstoned_def)
qed

inductive store_write ::
  "('s \<Rightarrow> versions \<Rightarrow> bool) \<Rightarrow> ('s \<Rightarrow> bytes \<Rightarrow> versioned_row \<Rightarrow> bool) \<Rightarrow> (bytes \<Rightarrow> ('s, record_addr) action) \<Rightarrow>
   (record_addr \<Rightarrow> tx_id \<Rightarrow> ('s, unit) action) \<Rightarrow> tx_id \<Rightarrow> 's \<Rightarrow> 's \<Rightarrow> bool"
  for holds admits add mark tx where
  insert: "admits s rec v \<Longrightarrow> tx_inserted (fst v) = tx \<Longrightarrow> add rec s = (Ok a, s') \<Longrightarrow> store_write holds admits add mark tx s s'"
| tombstone: "holds s vs \<Longrightarrow> (a, v) \<in> set vs \<Longrightarrow> is_active (fst v) \<Longrightarrow> mark a tx s = (Ok (), s') \<Longrightarrow> store_write holds admits add mark tx s s'"

inductive_cases store_writeE: "store_write holds admits add mark tx s s'"

definition write_after where
  "write_after holds admits add mark now s s' \<longleftrightarrow> (\<exists>tx. now < tx \<and> store_write holds admits add mark tx s s')"

locale version_store =
  fixes holds :: "'s \<Rightarrow> versions \<Rightarrow> bool"
    and admits :: "'s \<Rightarrow> bytes \<Rightarrow> versioned_row \<Rightarrow> bool"
    and add :: "bytes \<Rightarrow> ('s, record_addr) action"
    and mark :: "record_addr \<Rightarrow> tx_id \<Rightarrow> ('s, unit) action"
  assumes rep_distinct: "holds s vs \<Longrightarrow> distinct (map fst vs)"
    and rep_unique: "holds s vs \<Longrightarrow> holds s ws \<Longrightarrow> ws = vs"
    and append_law: "holds s vs \<Longrightarrow> admits s rec v \<Longrightarrow> add rec s = (Ok a, s') \<Longrightarrow> holds s' (vs @ [(a, v)])"
    and delete_law: "holds s vs \<Longrightarrow> (a, v) \<in> set vs \<Longrightarrow> mark a tx s = (Ok (), s') \<Longrightarrow> holds s' (mark_version a tx vs)"
begin

lemma write_isolated:
  assumes "holds s vs" "store_write holds admits add mark tx s s'" "now < tx"
  shows "\<exists>ws. holds s' ws \<and> visible_versions now ws = visible_versions now vs"
  using assms(2)
proof (rule store_writeE)
  fix rec v a
  assume "admits s rec v" "tx_inserted (fst v) = tx" "add rec s = (Ok a, s')"
  with append_law [OF assms(1)] assms(3) show ?thesis by (metis visible_append visible_new append_Nil2)
next
  fix ws a v
  assume "holds s ws" "(a, v) \<in> set ws" "is_active (fst v)" "mark a tx s = (Ok (), s')"
  with rep_unique [OF assms(1)] rep_distinct [OF assms(1)] delete_law [OF assms(1)] visible_mark assms(3) show ?thesis by metis
qed

lemma writes_isolated:
  assumes "(write_after holds admits add mark now)\<^sup>*\<^sup>* s s'" "holds s vs"
  shows "\<exists>ws. holds s' ws \<and> visible_versions now ws = visible_versions now vs"
  using assms by (induction rule: rtranclp_induct) (auto simp: write_after_def dest: write_isolated, metis write_isolated)

lemma insert_visible:
  assumes "holds s vs" "admits s rec v" "add rec s = (Ok a, s')" "is_active (fst v)" "tx_inserted (fst v) \<le> now"
  shows "\<exists>ws. holds s' ws \<and> visible_versions now ws = visible_versions now vs @ [(a, snd v)]"
  using append_law [OF assms(1,2,3)] assms(4,5)
  by (auto simp: visible_append visible_versions_def [of now "[(a, v)]"] is_visible_window is_active_def TX_NULL_def)

end

text \<open>The table layer is such a store.\<close>

definition table_holds :: "hash_fn \<Rightarrow> (u64 \<Rightarrow> bytes result) \<Rightarrow> ('j, table) pool_state \<Rightarrow> versions \<Rightarrow> bool" where
  "table_holds blake3 get = (\<lambda>(c, t) vs. \<exists>ch. table_rep blake3 get c t ch \<and> writable t ch \<and> vs = chain_versions ch)"

definition table_admits :: "(u64 \<Rightarrow> bytes result) \<Rightarrow> ('j, table) pool_state \<Rightarrow> bytes \<Rightarrow> versioned_row \<Rightarrow> bool" where
  "table_admits get = (\<lambda>(c, t) rec v. record_for get t rec v \<and> store_page_count (pc_backend c) < 2 ^ 48)"

interpretation table_store: version_store "table_holds blake3 get" "table_admits get" "append_record blake3 bw" "patch_delete_at blake3 bw"
  for blake3 get bw
proof
  show "distinct (map fst vs)" if "table_holds blake3 get s vs" for s vs
    using that by (auto simp: table_holds_def dest: table_versions_distinct)
  show "ws = vs" if "table_holds blake3 get s vs" "table_holds blake3 get s ws" for s vs ws
    using that by (auto simp: table_holds_def dest: table_rep_unique)
  show "table_holds blake3 get s' (vs @ [(a, v)])"
    if "table_holds blake3 get s vs" "table_admits get s rec v" "append_record blake3 bw rec s = (Ok a, s')" for s vs rec v a s'
  proof -
    obtain c t c' t' where s: "s = (c, t)" "s' = (c', t')" by (cases s; cases s')
    with that(1) obtain ch where ch: "table_rep blake3 get c t ch" "writable t ch" "vs = chain_versions ch" by (auto simp: table_holds_def)
    with that s have "grown blake3 get (c, t) ch a v (c', t')" by (intro append_record_Ok) (auto simp: table_admits_def)
    with s ch show ?thesis by (auto simp: table_holds_def grown_def)
  qed
  show "table_holds blake3 get s' (mark_version a tx vs)"
    if "table_holds blake3 get s vs" "(a, v) \<in> set vs" "patch_delete_at blake3 bw a tx s = (Ok (), s')" for s vs a v tx s'
  proof -
    obtain c t c' t' where s: "s = (c, t)" "s' = (c', t')" by (cases s; cases s')
    with that(1) obtain ch where ch: "table_rep blake3 get c t ch" "writable t ch" "vs = chain_versions ch" by (auto simp: table_holds_def)
    with that s have "deleted blake3 get (c, t) ch a tx (c', t')" by (intro patch_delete_Ok) auto
    with s ch show ?thesis by (auto simp: table_holds_def deleted_def)
  qed
qed

text \<open>
  C5: Writers do not disturb readers. Whatever sequence of appends and deletions later transactions run on the table's pages,
  a snapshot pinned before them sees the same rows under the same addresses in the same order; and the pages still form a
  well-formed table.
\<close>

theorem table_snapshot_isolation:
  assumes "(write_after (table_holds blake3 get) (table_admits get) (append_record blake3 bw) (patch_delete_at blake3 bw) now)\<^sup>*\<^sup>* s s'"
    and "table_holds blake3 get s vs"
  shows "\<exists>ws. table_holds blake3 get s' ws \<and> visible_versions now ws = visible_versions now vs"
  by (rule table_store.writes_isolated [OF assms])

theorem table_snapshot_isolation_witness:
  "\<exists>a s'. append_record sample_digest (\<lambda>_. act_return (Ok ())) sample_record (sample_pool, sample_table) = (Ok a, s') \<and>
     (\<exists>ws. table_holds sample_digest no_blobs s' ws \<and> visible_versions 0 ws = [])"
proof -
  let ?w = "\<lambda>_. act_return (Ok ()) :: (unit \<times> file_system, unit) action" and ?s = "(sample_pool, sample_table)"
  let ?v = "(envelope_new 1 0, [VNull]) :: versioned_row"
  have h: "table_holds sample_digest no_blobs ?s []" using sample_table_ok(1,2) by (auto simp: table_holds_def intro!: exI [of _ "[]"])
  have adm: "table_admits no_blobs ?s sample_record ?v" using sample_table_ok(3) sample_pool_ok(4) by (simp add: table_admits_def)
  obtain c t ch a where run: "append_record sample_digest ?w sample_record ?s = (Ok a, (c, t))" by (rule sample_appended) blast
  have "store_write (table_holds sample_digest no_blobs) (table_admits no_blobs) (append_record sample_digest ?w) (patch_delete_at sample_digest ?w) 1 ?s (c, t)"
    using store_write.insert [where s = ?s and rec = sample_record and v = ?v and admits = "table_admits no_blobs"
        and add = "append_record sample_digest ?w"] adm run by (simp add: envelope_new_def)
  then have "(write_after (table_holds sample_digest no_blobs) (table_admits no_blobs) (append_record sample_digest ?w) (patch_delete_at sample_digest ?w) 0)\<^sup>*\<^sup>* ?s (c, t)"
    by (intro r_into_rtranclp) (auto simp: write_after_def intro!: exI [of _ 1])
  from table_snapshot_isolation [OF this h] run show ?thesis by (auto simp: visible_versions_def)
qed

end
