(* ===== verification/Envelope_Scan.thy ===== *)
theory Envelope_Scan
  imports Row_Lookup Table_Laws
begin

text \<open>
  Counting without decoding rows: the scan that reads the record envelopes only sees, on a well-formed table, exactly what the full scan
  sees, so the fast path of a bare \<^verbatim>\<open>COUNT(*)\<close> counts the visible rows.
\<close>

definition ignoring_row :: "(record_envelope \<Rightarrow> ('v, unit) action) \<Rightarrow> 'v visitor" where
  "ignoring_row visit = (\<lambda>_ e _. visit e)"

lemma cold_envelopes_rep:
  assumes "cold_rep page next used recs len"
  shows "cold_envelopes page = Ok (map fst recs, next)"
  using assms
proof (rule cold_repE)
  fix arity pad h
  assume h: "cold_validate page = Ok h" "unat (ch_row_count h) = length recs"
    and d0: "drop 28 page = to_le 2 (of_nat arity :: u16) @ concat (map envelope_encode (map fst recs)) @
      concat (map enc_col (columns_of (map snd recs) arity)) @ replicate pad 0" "28 \<le> length page"
  note s1 = col_u16.dec_at [OF d0 TrueI]
  note s2 = envelope.many_dec_at(1) [OF s1(2,3), of "length recs"]
  show ?thesis
    using s2 cold_rep_next [OF assms] unfolding cold_envelopes_def h(1) size_defs and_then.simps s1(1) prod.case h(2)
    by (simp add: list_all_iff)
qed

lemma envelope_version:
  assumes "length (snd v) = width"
  shows "act_then count_scanned (\<lambda>_. run_visitor (visit (fst v))) s = visit_version width (ignoring_row visit) pid slot v s"
  using assms by (simp add: visit_version_def ignoring_row_def case_prod_unfold)

lemma envelope_row_page_eq:
  assumes "row_rep p h rs" "list_all2 (\<lambda>r v. decode_record get r = Ok v) rs vs" "\<forall>v \<in> set vs. length (snd v) = width"
  shows "envelope_row_page visit p s = visit_row_page get width (ignoring_row visit) pid p s"
proof -
  obtain n where n: "row_slot_count p = Ok n" "unat n = length vs" "length vs < 65536"
    using row_rep_slots [OF assms(1)] list_all2_lengthD [OF assms(2)] by auto
  let ?f = "\<lambda>slot. act_then count_scanned (\<lambda>_. act_then (act_return (and_then (row_record p slot) envelope_decode)) (\<lambda>env. run_visitor (visit env)))"
  let ?g = "\<lambda>slot. act_then (act_return (and_then (row_record p slot) (decode_record get))) (visit_version width (ignoring_row visit) pid slot)"
  have "?f i s' = ?g i s'" if i: "i \<in> set (map of_nat [0..<unat n])" for i s'
  proof -
    from i n have lt: "unat i < length vs" by (auto simp: unat_of_nat_u16)
    then have r: "row_record p i = Ok (rs ! unat i)" "decode_record get (rs ! unat i) = Ok (vs ! unat i)"
      using assms(1,2) by (auto simp: row_record_rep list_all2_conv_all_nth)
    then have "envelope_decode (rs ! unat i) = Ok (fst (vs ! unat i))"
      by (auto simp: decode_record_def and_then_eq_Ok) (metis fst_conv)
    moreover have "length (snd (vs ! unat i)) = width" using assms(3) lt by simp
    ultimately show ?thesis using r envelope_version [of "vs ! unat i" width visit s' pid i] by (simp add: act_then_def count_scanned_def)
  qed
  then have "for_slots ?f xs s' = for_slots ?g xs s'" if "set xs \<subseteq> set (map of_nat [0..<unat n])" for xs s'
    using that by (induction xs arbitrary: s') (auto intro!: act_then_cong)
  then show ?thesis by (simp add: envelope_row_page_def visit_row_page_def n(1) act_then_def)
qed

lemma visit_envelopes_eq:
  assumes "\<forall>v \<in> set vs. length (snd v) = width" "k + length vs \<le> 65536"
  shows "visit_envelopes visit (map fst vs) s = visit_cold_records width (ignoring_row visit) pid k vs s"
  using assms
proof (induction vs arbitrary: k s)
  case (Cons v vs)
  have step: "act_then count_scanned (\<lambda>_. run_visitor (visit (fst v))) s = visit_version width (ignoring_row visit) pid (of_nat k) v s"
    using Cons.prems by (intro envelope_version) simp
  have "visit_envelopes visit (map fst (v # vs)) s = act_then (act_then count_scanned (\<lambda>_. run_visitor (visit (fst v)))) (\<lambda>_. visit_envelopes visit (map fst vs)) s"
    by (simp add: act_then_def count_scanned_def split: prod.splits)
  also have "\<dots> = act_then (visit_version width (ignoring_row visit) pid (of_nat k) v) (\<lambda>_. visit_cold_records width (ignoring_row visit) pid (k + 1) vs) s"
    by (rule act_then_cong) (use step Cons in auto)
  finally show ?case using Cons.prems by simp
qed simp

lemma envelope_page_eq:
  assumes "page_holds get (length (tb_columns t)) cold p next vs"
  shows "envelope_page t visit p s = scan_page get t (ignoring_row visit) pid p s"
proof (cases cold)
  case True
  then obtain used len where c: "cold_rep p next used vs len" and w: "\<forall>v \<in> set vs. length (snd v) = length (tb_columns t)"
    using assms by (auto simp: page_holds_def)
  have "cold_records p = Ok vs" using c by (simp add: cold_records_def cold_decode_rep zip_map_fst_snd)
  moreover have "visit_envelopes visit (map fst vs) s' = visit_cold_records (length (tb_columns t)) (ignoring_row visit) pid 0 vs s'" for s'
    using w cold_rep_length [OF c] by (intro visit_envelopes_eq) auto
  ultimately show ?thesis
    using cold_rep_kind [OF c] cold_rep_next [OF c] cold_envelopes_rep [OF c]
    by (auto simp: envelope_page_def scan_page_def intro!: act_then_cong)
next
  case False
  then obtain h rs where "row_rep p h rs" "list_all2 (\<lambda>r v. decode_record get r = Ok v) rs vs" "\<forall>v \<in> set vs. length (snd v) = length (tb_columns t)"
    using assms by (auto simp: page_holds_def)
  with envelope_row_page_eq row_rep_kind [OF this(1)] show ?thesis by (simp add: envelope_page_def scan_page_def)
qed

lemma with_page_cong:
  assumes "cache_inv blake3 c" "\<And>p. cache_view blake3 c i = Ok p \<Longrightarrow> f p = g p"
  shows "with_page blake3 bw i f c = with_page blake3 bw i g c"
  unfolding with_page_def
proof (rule act_then_cong [OF refl refl])
  fix u d
  assume d: "ensure_loaded blake3 bw i c = (Ok u, d)"
  show "act_then (touch i) (\<lambda>e. act_return (f (en_page e))) d = act_then (touch i) (\<lambda>e. act_return (g (en_page e))) d"
  proof (rule act_then_cong [OF refl refl])
    fix e t
    assume "touch i d = (Ok e, t)"
    with d have "cache_view blake3 c i = Ok (en_page e)" using ensure_loaded_Ok [OF assms(1)] touch_Ok [of blake3 d] by force
    then show "act_return (f (en_page e)) t = act_return (g (en_page e)) t" using assms(2) by simp
  qed
qed

lemma walk_envelopes:
  assumes "chain_from blake3 get c t start ch" "cache_inv blake3 c"
    and "sc_cold s + chain_cold ch \<le> tb_cold_pages t" "sc_versions s + length (chain_versions ch) \<le> usize_max"
  shows "walk blake3 bw t (\<lambda>_. envelope_row_page visit) (\<lambda>_. envelope_page t visit) hops start (c, s) =
    walk blake3 bw t (visit_row_page get (length (tb_columns t)) (ignoring_row visit)) (scan_page get t (ignoring_row visit)) hops start (c, s)"
  using assms
proof (induction ch arbitrary: start c s hops)
  case Nil
  then show ?case by simp
next
  case (Cons x ch)
  let ?v = "ignoring_row visit"
  obtain pid cold vs where x: "x = (pid, cold, vs)" by (cases x) auto
  with Cons.prems(1) obtain p "next" where p: "table_page blake3 c t pid = Ok p" "page_holds get (length (tb_columns t)) cold p next vs"
    "chain_from blake3 get c t next ch" "start = Some pid" "resident_page t pid \<noteq> None \<longrightarrow> \<not> cold" by auto
  show ?case
  proof (cases hops)
    case 0
    then show ?thesis by (simp add: p(4))
  next
    case (Suc k)
    define s0 where "s0 = (if Some pid = tb_tail_id t then s\<lparr>sc_tail_found := True\<rparr> else s)"
    have s0: "sc_cold s0 = sc_cold s" "sc_versions s0 = sc_versions s" by (simp_all add: s0_def)
    have mark: "on_rest (mark_tail (Some pid = tb_tail_id t)) (c, s) = (Ok (), (c, s0))" by (simp add: on_rest_def mark_tail_def s0_def)
    let ?full = "case resident_page t pid of
        Some tail \<Rightarrow> on_rest (visit_row_page get (length (tb_columns t)) ?v pid tail)
      | None \<Rightarrow> run_on_page blake3 bw pid (scan_page get t ?v pid)"
    let ?env = "case resident_page t pid of
        Some tail \<Rightarrow> on_rest (envelope_row_page visit tail)
      | None \<Rightarrow> run_on_page blake3 bw pid (envelope_page t visit)"
    have page: "?env (c, s0) = ?full (c, s0)"
    proof (cases "resident_page t pid")
      case None
      with p(1) have "with_page blake3 bw pid (\<lambda>buf. Ok (envelope_page t visit buf s0)) c = with_page blake3 bw pid (\<lambda>buf. Ok (scan_page get t ?v pid buf s0)) c"
        using envelope_page_eq [OF p(2)] Cons.prems(2) by (intro with_page_cong) (auto simp: table_page_def)
      with None show ?thesis by (simp add: run_on_page_def)
    next
      case (Some tail)
      with p(1,5) have t: "tail = p" "\<not> cold" by (auto simp: table_page_def)
      with p(2) obtain h rs where "row_rep p h rs" "list_all2 (\<lambda>r v. decode_record get r = Ok v) rs vs" "\<forall>v \<in> set vs. length (snd v) = length (tb_columns t)"
        by (auto simp: page_holds_def)
      from envelope_row_page_eq [OF this, of visit s0 pid] Some t show ?thesis by (simp add: on_rest_def)
    qed
    have lim: "cold \<Longrightarrow> sc_cold s0 < tb_cold_pages t" "sc_versions s0 + length vs \<le> usize_max" using Cons.prems(3,4) x s0 by auto
    have rest: "walk blake3 bw t (\<lambda>_. envelope_row_page visit) (\<lambda>_. envelope_page t visit) k y (d, s1) =
        walk blake3 bw t (visit_row_page get (length (tb_columns t)) ?v) (scan_page get t ?v) k y (d, s1)"
      if "?full (c, s0) = (Ok y, (d, s1))" for y d s1
    proof -
      note st = page_step_Ok [OF p(1,2,5) Cons.prems(2) lim that]
      from steps_to_Ok st have "y = next" "sc_cold s1 = sc_cold s0 + (if cold then 1 else 0)" "sc_versions s1 = sc_versions s0 + length vs" by fastforce+
      with st Cons.prems(3,4) x s0 show ?thesis by (intro Cons.IH) (auto intro: chain_from_kept [OF p(3)])
    qed
    show ?thesis
      unfolding Suc p(4) walk.simps Let_def resident_page_def [symmetric]
    proof (rule act_then_cong [OF refl refl])
      fix u z
      assume "on_rest (mark_tail (Some pid = tb_tail_id t)) (c, s) = (Ok u, z)"
      then have z: "z = (c, s0)" using mark by simp
      show "act_then ?env (\<lambda>next. act_then (act_return (tail_ends (Some pid = tb_tail_id t) next)) (\<lambda>_.
            walk blake3 bw t (\<lambda>_. envelope_row_page visit) (\<lambda>_. envelope_page t visit) k next)) z =
          act_then ?full (\<lambda>next. act_then (act_return (tail_ends (Some pid = tb_tail_id t) next)) (\<lambda>_.
            walk blake3 bw t (visit_row_page get (length (tb_columns t)) ?v) (scan_page get t ?v) k next)) z"
        unfolding z using page rest by (intro act_then_cong) auto
    qed
  qed
qed

lemma scan_envelopes_eq:
  assumes "table_rep blake3 get c t ch"
  shows "scan_envelopes blake3 bw t visit (c, v) = scan blake3 bw get t (ignoring_row visit) (c, v)"
proof -
  note t = table_repD [OF assms]
  have "sc_cold (scan_start t v) + chain_cold ch \<le> tb_cold_pages t"
    "sc_versions (scan_start t v) + length (chain_versions ch) \<le> usize_max" using t(5,6,7) by (simp_all add: scan_start_def)
  from walk_envelopes [OF t(2,1) this] show ?thesis
    unfolding scan_envelopes_def scan_def traverse_def by (simp add: act_then_def)
qed

section \<open>Counting\<close>

lemma count_visit:
  assumes "visit_all (ignoring_row (count_envelope env snap)) vs (b, n) = (Ok (), (b', m))"
  shows "m = n + length (filter (\<lambda>(a, v). sees snap (fst v)) vs)"
  using assms
proof (induction vs arbitrary: b n)
  case (Cons x vs)
  obtain a e row where x: "x = (a, (e, row))" by (cases x) auto
  from Cons.prems x obtain u b1 n1 where s: "count_envelope env snap e (b, n) = (Ok u, (b1, n1))"
    "visit_all (ignoring_row (count_envelope env snap)) vs (b1, n1) = (Ok (), (b', m))"
    by (auto simp: ignoring_row_def [of "count_envelope env snap"] act_then_eq_Ok)
  from s(1) have "n1 = n + (if sees snap e then 1 else 0)"
    by (auto simp: count_envelope_def act_then_eq_Ok split: prod.splits if_splits)
  with Cons.IH [OF s(2)] x show ?case by simp
qed simp

text \<open>
  C11: The envelope-only count is the number of visible rows. On a well-formed table \<^verbatim>\<open>scan_envelopes\<close> is, for every closure, the full scan with the
  rows ignored: same outcome, same pool, same errors; so when \<^verbatim>\<open>count_visible\<close> returns a number, it is the number of record
  versions the snapshot sees.
\<close>

theorem count_visible_exact:
  assumes "table_rep blake3 get c t ch"
  shows "scan_envelopes blake3 bw t visit (c, v) = scan blake3 bw get t (ignoring_row visit) (c, v) \<and>
    (\<forall>R b n c' b'. re_blake3 R = blake3 \<longrightarrow> count_visible R t snap (c, (b, 0)) = (Ok (), (c', (b', n))) \<longrightarrow>
      n = length (filter (\<lambda>(a, v). sees snap (fst v)) (chain_versions ch)))"
proof (intro conjI allI impI)
  show "scan_envelopes blake3 bw t visit (c, v) = scan blake3 bw get t (ignoring_row visit) (c, v)" by (rule scan_envelopes_eq [OF assms])
  fix R b n c' b'
  assume R: "re_blake3 R = blake3" and run: "count_visible R t snap (c, (b, 0)) = (Ok (), (c', (b', n)))"
  then have "scan blake3 (re_hook R) get t (ignoring_row (count_envelope (re_env R) snap)) (c, (b, 0)) = (Ok (), (c', (b', n)))"
    by (simp add: count_visible_def scan_envelopes_eq [OF assms])
  from count_visit scan_Ok [OF assms this] show "n = length (filter (\<lambda>(a, v). sees snap (fst v)) (chain_versions ch))" by fastforce
qed

theorem count_visible_exact_witness:
  "\<exists>a c t. append_record sample_digest (\<lambda>_. act_return (Ok ())) sample_record (sample_pool, sample_table) = (Ok a, (c, t)) \<and>
     scan_envelopes sample_digest (\<lambda>_. act_return (Ok ())) t (\<lambda>e n. (Ok (), n + tx_inserted e)) (c, 0) =
       scan sample_digest (\<lambda>_. act_return (Ok ())) no_blobs t (ignoring_row (\<lambda>e n. (Ok (), n + tx_inserted e))) (c, 0)"
proof -
  let ?w = "\<lambda>_. act_return (Ok ()) :: (unit \<times> file_system, unit) action"
  obtain c t ch a where s: "append_record sample_digest ?w sample_record (sample_pool, sample_table) = (Ok a, (c, t))"
    "table_rep sample_digest no_blobs c t ch" by (rule sample_appended) blast
  from conjunct1 [OF count_visible_exact [OF s(2), of ?w "\<lambda>e n. (Ok (), n + tx_inserted e)" 0]] s(1) show ?thesis by blast
qed

text \<open>
  C10: A lookup returns exactly the matching rows. On a table whose indexes hold its versions, when \<^verbatim>\<open>collect_matching\<close> returns, the addresses and
  rows it found are those of the versions the snapshot sees and the predicate accepts, each once, whether they were found through an equality
  lookup, a range of some index or a scan, and whatever budget was charged; the table is unchanged.
\<close>

theorem collect_matching_exact:
  assumes "table_rep blake3 get c t ch" "table_indexed t (chain_versions ch)" "re_blake3 R = blake3"
    and "collect_matching R get t pred snap (c, b) = (Ok hits, (c', b'))"
  shows "mset hits = {#(a, snd v). (a, v) \<in># mset (filter (\<lambda>(a, v). sees snap (fst v) \<and> row_matches pred (tb_columns t) (snd v) = Ok True) (chain_versions ch))#} \<and>
    distinct (map fst hits) \<and> table_rep blake3 get c' t ch"
proof -
  from lookup_Ok [OF assms(1,2,3) assms(4) [unfolded collect_matching_def]] obtain sel where
    sel: "mset sel = mset (filter (passing snap (Some pred) (tb_columns t)) (chain_versions ch))" "hits = map (emitted Pair) sel"
      "table_rep blake3 get c' t ch" by blast
  have "distinct (map fst (filter (passing snap (Some pred) (tb_columns t)) (chain_versions ch)))"
    using table_versions_distinct [OF assms(1)] by (rule distinct_map_filter)
  then have "distinct (map fst sel)" using arg_cong [OF sel(1), of "image_mset fst"] by (metis mset_map mset_eq_imp_distinct_iff)
  moreover have "map fst hits = map fst sel" by (simp add: sel(2) emitted_def case_prod_unfold)
  ultimately have d: "distinct (map fst hits)" by simp
  have "passing snap (Some pred) (tb_columns t) = (\<lambda>(a, v). sees snap (fst v) \<and> row_matches pred (tb_columns t) (snd v) = Ok True)"
    by (auto simp: fun_eq_iff passing_matches)
  then have "mset hits = {#(a, snd v). (a, v) \<in># mset (filter (\<lambda>(a, v). sees snap (fst v) \<and> row_matches pred (tb_columns t) (snd v) = Ok True) (chain_versions ch))#}"
    using sel(1) by (simp add: sel(2) emitted_def)
  with d sel(3) show ?thesis by blast
qed

definition sample_reader :: "unit reader_env" where
  "sample_reader = \<lparr>re_env = \<lambda>_. \<lparr>ob_cancelled = False, ob_now = 0\<rparr>, re_layout = \<lparr>ly_row = 24, ly_value = 32\<rparr>,
     re_blake3 = sample_digest, re_hook = \<lambda>_. act_return (Ok ())\<rparr>"

theorem collect_matching_exact_witness:
  "\<exists>a c t hits c' b'. append_record sample_digest (\<lambda>_. act_return (Ok ())) sample_record (sample_pool, sample_table) = (Ok a, (c, t)) \<and>
     collect_matching sample_reader no_blobs t (IsNull [97] False) (as_of 1) (c, None) = (Ok hits, (c', b')) \<and> hits = [(a, [VNull])]"
proof -
  let ?w = "\<lambda>_. act_return (Ok ()) :: (unit \<times> file_system, unit) action" and ?p = "IsNull [97] False" and ?b = "None :: query_budget option"
  let ?v = "(envelope_new 1 0, [VNull]) :: versioned_row"
  obtain c t ch a where s: "append_record sample_digest ?w sample_record (sample_pool, sample_table) = (Ok a, (c, t))"
    "table_rep sample_digest no_blobs c t ch" "chain_versions ch = [(a, ?v)]" "ready sample_digest (length ch + 1) c" "tb_columns t = [[97]]" "tb_indexes t = []"
    by (rule sample_appended)
  have ix: "table_indexed t (chain_versions ch)"
    by (simp add: table_indexed_def s(3,6) indexes_inv_def row_indexed_def indexed_addr_def)
  have cand: "index_candidates (re_env sample_reader) [] ?p ?b = (Ok None, ?b)"
    by (simp add: index_candidates_def range_candidates_def)
  have pass: "row_matches ?p [[97]] [VNull] = Ok True"
    by (simp add: row_matches_def cell_def projection_col_pos_def column_matches_def positions_def elem_at_def elem_get_def)
  have vis: "sees (as_of 1) (envelope_new 1 0)" by (simp add: sees_def as_of_def is_visible_window envelope_new_def TX_NULL_def)
  have visit: "visit_all (visit_row (re_env sample_reader) (re_layout sample_reader) (as_of 1) (Some ?p) (tb_columns t) Pair) (chain_versions ch) (?b, []) =
      (Ok (), (?b, [(a, [VNull])]))"
    by (simp add: s(3,5) visit_row_def keep_row_def row_passes_def vis pass on_budget_def with_budget_def act_then_def)
  from scan_visits [OF s(2) ready_mono [OF s(4)], of ?w "visit_row (re_env sample_reader) (re_layout sample_reader) (as_of 1) (Some ?p) (tb_columns t) Pair" "(?b, [])"]
  obtain c' where "scan_rows sample_reader no_blobs t (as_of 1) (Some ?p) Pair (c, (?b, [])) = (Ok (), (c', (?b, [(a, [VNull])])))"
    unfolding visit by (auto simp: scan_rows_def sample_reader_def)
  moreover have "check_predicate_columns (tb_columns t) ?p = Ok ()"
    by (simp add: s(5) projection_col_pos_def column_matches_def positions_def)
  ultimately have run: "collect_matching sample_reader no_blobs t ?p (as_of 1) (c, ?b) = (Ok [(a, [VNull])], (c', ?b))"
    using cand by (simp add: collect_matching_def lookup_def find_rows_def s(6) act_then_def)
  have "re_blake3 sample_reader = sample_digest" by (simp add: sample_reader_def)
  from collect_matching_exact [OF s(2) ix this run] s(1) run show ?thesis by blast
qed

end
