(* ===== verification/Sql_Lexer.thy ===== *)
theory Sql_Lexer
  imports Query_Ast Like_Match
begin

text \<open>
  The tokenizer of \<^verbatim>\<open>src/engine/query.rs\<close>. It reads the characters of the statement (\<^verbatim>\<open>str::chars\<close>), so a statement is the list
  of its Unicode scalar values, and the strings it puts into tokens are lists of them as well. The Unicode tables behind
  \<^verbatim>\<open>char::is_whitespace\<close>, \<^verbatim>\<open>is_alphanumeric\<close> and \<^verbatim>\<open>is_control\<close> are a parameter; \<open>ascii_classes\<close> states what they say about ASCII. An
  error carries the message, without the line and the caret \<^verbatim>\<open>point_at\<close> draws around it.
\<close>

type_synonym chars = "u32 list"

record char_class =
  cc_whitespace :: "u32 \<Rightarrow> bool"
  cc_alphanumeric :: "u32 \<Rightarrow> bool"
  cc_control :: "u32 \<Rightarrow> bool"

definition is_digit :: "u32 \<Rightarrow> bool" where
  "is_digit c \<longleftrightarrow> 48 \<le> c \<and> c \<le> 57"

definition is_letter :: "u32 \<Rightarrow> bool" where
  "is_letter c \<longleftrightarrow> 65 \<le> c \<and> c \<le> 90 \<or> 97 \<le> c \<and> c \<le> 122"

definition ascii_classes :: "char_class \<Rightarrow> bool" where
  "ascii_classes C \<longleftrightarrow> (\<forall>c < 128.
     (cc_whitespace C c \<longleftrightarrow> 9 \<le> c \<and> c \<le> 13 \<or> c = 32) \<and>
     (cc_alphanumeric C c \<longleftrightarrow> is_digit c \<or> is_letter c) \<and>
     (cc_control C c \<longleftrightarrow> c < 32 \<or> c = 127))"

section \<open>Tokens\<close>

datatype tok =
    TWord chars
  | TIdent chars
  | TStr chars
  | TInt i64
  | TDec i128
  | TLParen | TRParen | TComma | TEq | TNe | TLt | TLe | TGt | TGe | TStar | TDot | TSemicolon

definition MAX_SQL_PAREN_DEPTH :: nat where "MAX_SQL_PAREN_DEPTH = 64"

section \<open>Numbers\<close>

definition digits_value :: "chars \<Rightarrow> nat" where
  "digits_value s = foldl (\<lambda>n d. 10 * n + unat (d - 48)) 0 s"

text \<open>\<^verbatim>\<open>str::parse::<u128>\<close> and \<^verbatim>\<open>str::parse::<i64>\<close> on a string of digits.\<close>

definition parse_u128 :: "chars \<Rightarrow> nat option" where
  "parse_u128 s = (if s \<noteq> [] \<and> digits_value s < 2 ^ 128 then Some (digits_value s) else None)"

definition parse_i64 :: "bool \<Rightarrow> chars \<Rightarrow> i64 option" where
  "parse_i64 negative s =
     (let v = (if negative then - int (digits_value s) else int (digits_value s))
      in if s \<noteq> [] \<and> - (2 ^ 63) \<le> v \<and> v < 2 ^ 63 then Some (word_of_int v) else None)"

definition decimal_mantissa :: "chars \<Rightarrow> chars \<Rightarrow> bool \<Rightarrow> i128 option" where
  "decimal_mantissa int_part frac negative =
     (case parse_u128 int_part of
        None \<Rightarrow> None
      | Some int_val \<Rightarrow>
          (let f = take DECIMAL_SCALE frac @ replicate (DECIMAL_SCALE - length frac) 48 in
           case parse_u128 f of
             None \<Rightarrow> None
           | Some frac_val \<Rightarrow>
               (let mag = int_val * nat DECIMAL_DEN + frac_val in
                if int_val * nat DECIMAL_DEN \<ge> 2 ^ 128 \<or> mag \<ge> 2 ^ 128 then None
                else if negative then
                  (if mag = 2 ^ 127 then Some (word_of_int (- (2 ^ 127)))
                   else if mag < 2 ^ 127 then Some (- of_nat mag) else None)
                else if mag < 2 ^ 127 then Some (of_nat mag) else None)))"

section \<open>Strings and quoted identifiers\<close>

fun read_string :: "chars \<Rightarrow> chars \<Rightarrow> (chars \<times> chars) option" where
  "read_string s [] = None"
| "read_string s (c # cs) =
     (if c = 39
      then
        (case cs of
           c' # cs' \<Rightarrow> if c' = 39 then read_string (s @ [39]) cs' else Some (s, cs)
         | [] \<Rightarrow> Some (s, cs))
      else read_string (s @ [c]) cs)"

fun read_ident :: "char_class \<Rightarrow> u32 \<Rightarrow> chars \<Rightarrow> chars \<Rightarrow> (chars \<times> chars) result" where
  "read_ident C closing s [] = Err (Query ''unterminated quoted identifier'')"
| "read_ident C closing s (c # cs) =
     (if c = closing
      then
        (case cs of
           c' # cs' \<Rightarrow> if c' = closing then read_ident C closing (s @ [closing]) cs' else Ok (s, cs)
         | [] \<Rightarrow> Ok (s, cs))
      else if cc_control C c then Err (Query ''quoted identifiers cannot contain control characters'')
      else read_ident C closing (s @ [c]) cs)"

section \<open>One token\<close>

definition read_digits :: "bool \<Rightarrow> chars \<Rightarrow> (tok \<times> chars) result" where
  "read_digits negative digits =
     (let int_part = takeWhile is_digit digits; rest = dropWhile is_digit digits
      in if int_part = [] then Err (Query ''expected digits'')
         else if rest \<noteq> [] \<and> hd rest = 46 then
           (let frac = takeWhile is_digit (tl rest) in
            if frac = [] then Err (Query ''expected digits after `.`'')
            else and_then (ok_or (decimal_mantissa int_part frac negative) (Query ''decimal literal out of range'')) (\<lambda>m.
              Ok (TDec m, dropWhile is_digit (tl rest))))
         else and_then (ok_or (parse_i64 negative int_part) (Query ''invalid integer `{s}`'')) (\<lambda>v. Ok (TInt v, rest)))"

definition read_number :: "u32 \<Rightarrow> chars \<Rightarrow> (tok \<times> chars) result" where
  "read_number c cs = (if c = 45 then read_digits True cs else read_digits False (c # cs))"

text \<open>
  One turn of the loop: the token read, if any, the nesting depth and the characters left. Code points: 34 is the double quote,
  39 the single one, 96 the backquote, 91 and 93 are the square brackets, 40 and 41 the round ones.
\<close>

definition is_word_char :: "char_class \<Rightarrow> u32 \<Rightarrow> bool" where
  "is_word_char C c \<longleftrightarrow> cc_alphanumeric C c \<or> c = 95"

fun lex_punct :: "nat \<Rightarrow> u32 \<Rightarrow> chars \<Rightarrow> (tok \<times> nat \<times> chars) result option" where
  "lex_punct depth c cs =
     (if c = 40 then
        Some (if depth + 1 > MAX_SQL_PAREN_DEPTH then Err (Query ''SQL expression nesting exceeds the {MAX_SQL_PAREN_DEPTH}-level limit'')
              else Ok (TLParen, depth + 1, cs))
      else if c = 41 then Some (Ok (TRParen, depth - 1, cs))
      else if c = 44 then Some (Ok (TComma, depth, cs))
      else if c = 46 then Some (Ok (TDot, depth, cs))
      else if c = 61 then Some (Ok (TEq, depth, cs))
      else if c = 60 then
        Some (case cs of
           c' # cs' \<Rightarrow> if c' = 61 then Ok (TLe, depth, cs') else if c' = 62 then Ok (TNe, depth, cs') else Ok (TLt, depth, cs)
         | [] \<Rightarrow> Ok (TLt, depth, cs))
      else if c = 62 then
        Some (case cs of
           c' # cs' \<Rightarrow> if c' = 61 then Ok (TGe, depth, cs') else Ok (TGt, depth, cs)
         | [] \<Rightarrow> Ok (TGt, depth, cs))
      else if c = 33 then
        Some (case cs of
           c' # cs' \<Rightarrow> if c' = 61 then Ok (TNe, depth, cs') else Err (Query ''expected `=` after `!`'')
         | [] \<Rightarrow> Err (Query ''expected `=` after `!`''))
      else if c = 42 then Some (Ok (TStar, depth, cs))
      else if c = 59 then Some (Ok (TSemicolon, depth, cs))
      else None)"

definition lex_step :: "char_class \<Rightarrow> nat \<Rightarrow> u32 \<Rightarrow> chars \<Rightarrow> (tok option \<times> nat \<times> chars) result" where
  "lex_step C depth c cs =
     (if cc_whitespace C c then Ok (None, depth, cs)
      else
        case lex_punct depth c cs of
          Some r \<Rightarrow> and_then r (\<lambda>(t, depth', rest). Ok (Some t, depth', rest))
        | None \<Rightarrow>
            if c = 39 then
              and_then (ok_or (read_string [] cs) (Query ''unterminated string literal'')) (\<lambda>(s, rest). Ok (Some (TStr s), depth, rest))
            else if c = 34 \<or> c = 96 \<or> c = 91 then
              and_then (read_ident C (if c = 91 then 93 else c) [] cs) (\<lambda>(identifier, rest).
                if identifier = [] then Err (Query ''quoted identifiers cannot be empty'') else Ok (Some (TIdent identifier), depth, rest))
            else if c = 45 \<or> is_digit c then
              and_then (read_number c cs) (\<lambda>(t, rest). Ok (Some t, depth, rest))
            else if is_word_char C c then
              Ok (Some (TWord (takeWhile (is_word_char C) (c # cs))), depth, dropWhile (is_word_char C) (c # cs))
            else Err (Query ''unexpected character `{other}`''))"

declare lex_punct.simps [simp del]

lemma lex_step_cases:
  assumes "lex_step C depth c cs = Ok (t, depth', rest)"
  obtains (space) "cc_whitespace C c" "t = None" "depth' = depth" "rest = cs"
  | (punct) tk where "\<not> cc_whitespace C c" "lex_punct depth c cs = Some (Ok (tk, depth', rest))" "t = Some tk"
  | (string) s where "\<not> cc_whitespace C c" "lex_punct depth c cs = None" "c = 39" "read_string [] cs = Some (s, rest)" "t = Some (TStr s)" "depth' = depth"
  | (ident) s where "\<not> cc_whitespace C c" "lex_punct depth c cs = None" "c = 34 \<or> c = 96 \<or> c = 91"
      "read_ident C (if c = 91 then 93 else c) [] cs = Ok (s, rest)" "s \<noteq> []" "t = Some (TIdent s)" "depth' = depth"
  | (number) tk where "\<not> cc_whitespace C c" "lex_punct depth c cs = None" "c = 45 \<or> is_digit c" "c \<notin> {39, 34, 96, 91}"
      "read_number c cs = Ok (tk, rest)" "t = Some tk" "depth' = depth"
  | (word) "\<not> cc_whitespace C c" "lex_punct depth c cs = None" "is_word_char C c" "c \<notin> {39, 34, 96, 91, 45}" "\<not> is_digit c"
      "t = Some (TWord (takeWhile (is_word_char C) (c # cs)))" "rest = dropWhile (is_word_char C) (c # cs)" "depth' = depth"
proof (cases "cc_whitespace C c")
  case True
  with assms space show ?thesis by (simp add: lex_step_def)
next
  case nospace: False
  show ?thesis
  proof (cases "lex_punct depth c cs")
    case (Some r)
    with assms nospace punct show ?thesis by (auto simp: lex_step_def and_then_eq_Ok)
  next
    case None
    consider "c = 39" | "c = 34 \<or> c = 96 \<or> c = 91" "c \<noteq> 39" | "c \<notin> {39, 34, 96, 91}" "c = 45 \<or> is_digit c" | "c \<notin> {39, 34, 96, 91, 45}" "\<not> is_digit c" by auto
    then show ?thesis
    proof cases
      case 1
      with assms nospace None string show ?thesis by (auto simp: lex_step_def and_then_eq_Ok ok_or_eq_Ok)
    next
      case 2
      with assms nospace None ident show ?thesis by (auto simp: lex_step_def and_then_eq_Ok split: if_split_asm)
    next
      case 3
      with assms nospace None number show ?thesis by (auto simp: lex_step_def and_then_eq_Ok)
    next
      case 4
      with assms nospace None word show ?thesis by (auto simp: lex_step_def split: if_split_asm)
    qed
  qed
qed

lemma read_string_shorter: "read_string s cs = Some (t, rest) \<Longrightarrow> length rest < length cs"
  by (induction s cs rule: read_string.induct) (fastforce split: if_splits list.splits)+

lemma read_ident_shorter: "read_ident C closing s cs = Ok (t, rest) \<Longrightarrow> length rest < length cs"
  by (induction C closing s cs rule: read_ident.induct) (fastforce split: if_splits list.splits)+

lemma read_digits_shorter:
  assumes "read_digits negative digits = Ok (t, rest)"
  shows "length rest < length digits"
proof -
  define d where "d = dropWhile is_digit digits"
  have split: "length (takeWhile is_digit digits) + length d = length digits"
    unfolding d_def length_append [symmetric] by simp
  have "0 < length (takeWhile is_digit digits)" using assms by (auto simp: read_digits_def)
  with split have less: "length d < length digits" by linarith
  have "rest = d \<or> rest = dropWhile is_digit (tl d)"
    using assms unfolding read_digits_def Let_def d_def by (simp add: and_then_eq_Ok split: if_split_asm) blast+
  then show ?thesis using less length_dropWhile_le [of is_digit "tl d"] by auto
qed

lemma read_number_shorter:
  assumes "read_number c cs = Ok (t, rest)"
  shows "length rest \<le> length cs"
  using assms by (auto simp: read_number_def dest: read_digits_shorter split: if_split_asm)

lemma lex_punct_shorter:
  assumes "lex_punct depth c cs = Some (Ok (t, depth', rest))"
  shows "length rest \<le> length cs"
  using assms unfolding lex_punct.simps
  by (simp split: if_split_asm list.split_asm) auto

lemma lex_step_shorter:
  assumes "lex_step C depth c cs = Ok (t, depth', rest)"
  shows "length rest \<le> length cs"
  using assms
proof (cases rule: lex_step_cases)
  case word
  then show ?thesis using length_dropWhile_le [of "is_word_char C" cs] by simp
qed (auto dest: lex_punct_shorter read_string_shorter read_ident_shorter read_number_shorter)

section \<open>The tokenizer\<close>

function tokenize_from :: "char_class \<Rightarrow> nat \<Rightarrow> nat \<Rightarrow> chars \<Rightarrow> (tok \<times> nat) list result" where
  "tokenize_from C depth pos [] = Ok []"
| "tokenize_from C depth pos (c # cs) =
     and_then (lex_step C depth c cs) (\<lambda>(t, depth', rest).
     and_then (tokenize_from C depth' (pos + (length (c # cs) - length rest)) rest) (\<lambda>toks.
       Ok (case t of None \<Rightarrow> toks | Some t \<Rightarrow> (t, pos) # toks)))"
  by pat_completeness auto

termination
  by (relation "measure (\<lambda>(C, depth, pos, cs). length cs)") (auto dest: lex_step_shorter)

definition tokenize :: "char_class \<Rightarrow> chars \<Rightarrow> (tok \<times> nat) list result" where
  "tokenize C sql = tokenize_from C 0 0 sql"

section \<open>Parameters\<close>

fun sql_quote_closing :: "u32 \<Rightarrow> u32 option" where
  "sql_quote_closing c = (if c = 39 \<or> c = 34 \<or> c = 96 then Some c else if c = 91 then Some 93 else None)"

definition to_chars :: "bytes \<Rightarrow> chars" where
  "to_chars bs = map ucast bs"

fun value_to_sql_literal :: "val \<Rightarrow> chars result" where
  "value_to_sql_literal VNull = Ok (to_chars (ascii ''NULL''))"
| "value_to_sql_literal (VInt i) = Ok (to_chars (val_display (VInt i)))"
| "value_to_sql_literal (VDecimal m) = Ok (to_chars (val_display (VDecimal m)))"
| "value_to_sql_literal (VText s) = Ok ([39] @ concat (map (\<lambda>c. if c = 39 then [39, 39] else [c]) (utf8_chars s)) @ [39])"
| "value_to_sql_literal (VBlob b) = Err (Schema ''blob parameters are not supported in SQL parameter binding'')"

text \<open>The loop of \<^verbatim>\<open>bind_params\<close>: what it appends to \<^verbatim>\<open>out\<close>, and the number of parameters it has used.\<close>

fun bind_loop :: "val list \<Rightarrow> u32 option \<Rightarrow> nat \<Rightarrow> chars \<Rightarrow> (chars \<times> nat) result" where
  "bind_loop params quoted next [] = Ok ([], next)"
| "bind_loop params quoted next (c # cs) =
     (case quoted of
        Some closing \<Rightarrow>
          (if c = closing
           then
             (case cs of
                c' # cs' \<Rightarrow>
                  if c' = closing
                  then and_then (bind_loop params quoted next cs') (\<lambda>(out, n). Ok (c # closing # out, n))
                  else and_then (bind_loop params None next cs) (\<lambda>(out, n). Ok (c # out, n))
              | [] \<Rightarrow> Ok ([c], next))
           else and_then (bind_loop params quoted next cs) (\<lambda>(out, n). Ok (c # out, n)))
      | None \<Rightarrow>
          (case sql_quote_closing c of
             Some closing \<Rightarrow> and_then (bind_loop params (Some closing) next cs) (\<lambda>(out, n). Ok (c # out, n))
           | None \<Rightarrow>
               if c = 63
               then
                 and_then (ok_or (elem_get params next) (Schema ''parameter ? number {} has no bound value ({} provided)'')) (\<lambda>v.
                 and_then (value_to_sql_literal v) (\<lambda>literal.
                 and_then (bind_loop params None (next + 1) cs) (\<lambda>(out, n). Ok (literal @ out, n))))
               else and_then (bind_loop params None next cs) (\<lambda>(out, n). Ok (c # out, n))))"

definition bind_params :: "chars \<Rightarrow> val list \<Rightarrow> chars result" where
  "bind_params sql params =
     and_then (bind_loop params None 0 sql) (\<lambda>(out, next).
       if next \<noteq> length params then Err (Schema ''{} parameters provided but the statement has {} placeholder(s)'') else Ok out)"

fun count_loop :: "u32 option \<Rightarrow> chars \<Rightarrow> nat" where
  "count_loop quoted [] = 0"
| "count_loop quoted (c # cs) =
     (case quoted of
        Some closing \<Rightarrow>
          (if c = closing
           then (case cs of c' # cs' \<Rightarrow> if c' = closing then count_loop quoted cs' else count_loop None cs | [] \<Rightarrow> 0)
           else count_loop quoted cs)
      | None \<Rightarrow>
          (case sql_quote_closing c of
             Some closing \<Rightarrow> count_loop (Some closing) cs
           | None \<Rightarrow> if c = 63 then Suc (count_loop None cs) else count_loop None cs))"

definition parameter_count :: "chars \<Rightarrow> nat" where
  "parameter_count sql = count_loop None sql"

end
