(* ===== verification/Utf8.thy ===== *)
theory Utf8
  imports Like_Match
begin

unbundle bit_operations_syntax

text \<open>
  Building a \<^verbatim>\<open>String\<close> from characters (\<^verbatim>\<open>String::push\<close>): the UTF-8 bytes of a scalar value. On valid UTF-8 it undoes \<^verbatim>\<open>str::chars\<close>.
\<close>

definition utf8_char :: "u32 \<Rightarrow> bytes" where
  "utf8_char c =
     (let n = unat c in
      if n < 0x80 then [of_nat n]
      else if n < 0x800 then [of_nat (0xC0 + n div 64), of_nat (0x80 + n mod 64)]
      else if n < 0x10000 then [of_nat (0xE0 + n div 4096), of_nat (0x80 + n div 64 mod 64), of_nat (0x80 + n mod 64)]
      else [of_nat (0xF0 + n div 262144), of_nat (0x80 + n div 4096 mod 64), of_nat (0x80 + n div 64 mod 64), of_nat (0x80 + n mod 64)])"

definition utf8_encode :: "u32 list \<Rightarrow> bytes" where
  "utf8_encode cs = concat (map utf8_char cs)"

lemma utf8_encode_simps [simp]: "utf8_encode [] = []" "utf8_encode (c # cs) = utf8_char c @ utf8_encode cs"
  by (simp_all add: utf8_encode_def)

section \<open>Decoding arithmetically\<close>

lemma unat_ucast_byte: "unat (ucast (b :: u8) :: u32) = unat b"
proof -
  have "unat b < 2 ^ 8" using unsigned_less [of b, where 'a = nat] by simp
  then have "unat b < 2 ^ 32" by simp
  then show ?thesis by (simp add: unsigned_ucast_eq take_bit_nat_eq_self)
qed

lemma unat_payload_bits: "unat (payload k b) = unat b mod 2 ^ k"
  by (simp add: payload_def unsigned_take_bit_eq unat_ucast_byte) (simp add: take_bit_eq_mod)

lemma unat_or_low:
  assumes "unat y < 2 ^ k" "unat x * 2 ^ k < 2 ^ 32"
  shows "unat (push_bit k x OR y :: u32) = unat x * 2 ^ k + unat y"
proof -
  have "\<not> bit (unat y) n" if "k \<le> n" for n
    using bit_take_bit_iff [of k "unat y" n] take_bit_nat_eq_self [OF assms(1)] that by simp
  then have "push_bit k (unat x) AND unat y = 0" by (auto simp: bit_eq_iff bit_and_iff bit_push_bit_iff)
  moreover have "unat (push_bit k x) = unat x * 2 ^ k"
    unfolding unsigned_push_bit_eq using assms(2) by (simp add: take_bit_nat_eq_self push_bit_eq_mult)
  ultimately show ?thesis
    by (simp add: unsigned_or_eq disjunctive_add_eq_or [symmetric] push_bit_eq_mult)
qed

lemma byte_bound: "unat (b :: u8) < 256"
  using unsigned_less [of b, where 'a = nat] by simp

lemma byte_of_nat: "unat (b :: u8) = numeral k + q \<Longrightarrow> numeral k + of_nat q = b"
  by (metis of_nat_add of_nat_numeral ucast_id unat_eq_nat_uint word_unat_eq_iff of_nat_unat)

lemma cont_nat: "cont_byte c \<Longrightarrow> \<exists>r < 64. unat c = 128 + r \<and> unat (payload 6 c) = r"
proof -
  assume "cont_byte c"
  then have "128 \<le> unat c" "unat c \<le> 191" by (simp_all add: word_le_nat_alt cont_byte_def)
  then show ?thesis unfolding unat_payload_bits by (intro exI [of _ "unat c - 128"]) (simp add: mod_if)
qed

lemma lead_nat:
  assumes "m \<le> unat b" "unat b < m + 2 ^ k" "m mod 2 ^ k = 0"
  shows "\<exists>q < 2 ^ k. unat b = m + q \<and> unat (payload k b) = q"
proof -
  have "(m + q) mod 2 ^ k = q" if "q < 2 ^ k" for q
    using that assms(3) by (metis mod_add_eq mod_less add_0)
  from this [of "unat b - m"] assms(1,2) show ?thesis unfolding unat_payload_bits by (intro exI [of _ "unat b - m"]) auto
qed

lemma base_64: "(r :: nat) < 64 \<Longrightarrow> (q * 64 + r) div 64 = q \<and> (q * 64 + r) mod 64 = r"
  by simp

lemma utf8_two:
  assumes "0xC2 \<le> b" "b \<le> 0xDF" "cont_byte c1"
  shows "utf8_char (push_bit 6 (payload 5 b) OR payload 6 c1) = [b, c1]"
proof -
  have n: "194 \<le> unat b" "unat b \<le> 223" using assms by (simp_all add: word_le_nat_alt)
  obtain q where q: "q < 32" "unat b = 192 + q" "unat (payload 5 b) = q" using lead_nat [of 192 b 5] n by auto
  obtain r where r: "r < 64" "unat c1 = 128 + r" "unat (payload 6 c1) = r" using cont_nat assms(3) by blast
  have "unat (push_bit 6 (payload 5 b) OR payload 6 c1) = q * 64 + r"
    using q r unat_or_low [of "payload 6 c1" 6 "payload 5 b"] by simp
  moreover have "2 \<le> q" using n q(2) by simp
  ultimately show ?thesis using q r by (simp add: utf8_char_def Let_def byte_of_nat)
qed

lemma utf8_three:
  assumes "0xE0 \<le> b" "b \<le> 0xEF" "cont_byte c1" "b = 0xE0 \<longrightarrow> 0xA0 \<le> c1" "cont_byte c2"
  shows "utf8_char (push_bit 12 (payload 4 b) OR push_bit 6 (payload 6 c1) OR payload 6 c2) = [b, c1, c2]"
proof -
  have n: "224 \<le> unat b" "unat b \<le> 239" using assms by (simp_all add: word_le_nat_alt)
  obtain q where q: "q < 16" "unat b = 224 + q" "unat (payload 4 b) = q" using lead_nat [of 224 b 4] n by auto
  obtain r where r: "r < 64" "unat c1 = 128 + r" "unat (payload 6 c1) = r" using cont_nat assms(3) by blast
  obtain s where s: "s < 64" "unat c2 = 128 + s" "unat (payload 6 c2) = s" using cont_nat assms(5) by blast
  have low: "unat (push_bit 6 (payload 6 c1) OR payload 6 c2) = r * 64 + s"
    using r s unat_or_low [of "payload 6 c2" 6 "payload 6 c1"] by simp
  have u: "unat (push_bit 12 (payload 4 b) OR push_bit 6 (payload 6 c1) OR payload 6 c2) = q * 4096 + r * 64 + s"
    using q r s low unat_or_low [of "push_bit 6 (payload 6 c1) OR payload 6 c2" 12 "payload 4 b"] by simp
  have "32 \<le> r" if "q = 0"
  proof -
    have "b = 0xE0" using that q(2) by (simp add: word_unat_eq_iff)
    with assms(4) r(2) show ?thesis by (simp add: word_le_nat_alt)
  qed
  then have "2048 \<le> q * 4096 + r * 64" using r(1) by (cases "q = 0") auto
  moreover have "(q * 4096 + r * 64 + s) div 4096 = q" "(q * 4096 + r * 64 + s) div 64 mod 64 = r" "(q * 4096 + r * 64 + s) mod 64 = s"
  proof -
    let ?n = "(q * 64 + r) * 64 + s"
    have "?n div 64 = q * 64 + r" "?n mod 64 = s" "(q * 64 + r) div 64 = q" "(q * 64 + r) mod 64 = r" using base_64 r(1) s(1) by blast+
    moreover have "?n div 4096 = ?n div 64 div 64" by (simp only: div_mult2_eq [symmetric]) simp
    moreover have "q * 4096 + r * 64 + s = ?n" by simp
    ultimately show "(q * 4096 + r * 64 + s) div 4096 = q" "(q * 4096 + r * 64 + s) div 64 mod 64 = r" "(q * 4096 + r * 64 + s) mod 64 = s"
      by (simp_all only:)
  qed
  ultimately show ?thesis using q r s by (simp add: utf8_char_def Let_def u byte_of_nat)
qed

lemma utf8_four:
  assumes "0xF0 \<le> b" "b \<le> 0xF4" "cont_byte c1" "b = 0xF0 \<longrightarrow> 0x90 \<le> c1" "cont_byte c2" "cont_byte c3"
  shows "utf8_char (push_bit 18 (payload 3 b) OR push_bit 12 (payload 6 c1) OR push_bit 6 (payload 6 c2) OR payload 6 c3) = [b, c1, c2, c3]"
proof -
  have n: "240 \<le> unat b" "unat b \<le> 244" using assms by (simp_all add: word_le_nat_alt)
  obtain q where q: "q < 8" "unat b = 240 + q" "unat (payload 3 b) = q" using lead_nat [of 240 b 3] n by auto
  obtain r where r: "r < 64" "unat c1 = 128 + r" "unat (payload 6 c1) = r" using cont_nat assms(3) by blast
  obtain s where s: "s < 64" "unat c2 = 128 + s" "unat (payload 6 c2) = s" using cont_nat assms(5) by blast
  obtain t where t: "t < 64" "unat c3 = 128 + t" "unat (payload 6 c3) = t" using cont_nat assms(6) by blast
  have low: "unat (push_bit 6 (payload 6 c2) OR payload 6 c3) = s * 64 + t"
    using s t unat_or_low [of "payload 6 c3" 6 "payload 6 c2"] by simp
  have mid: "unat (push_bit 12 (payload 6 c1) OR push_bit 6 (payload 6 c2) OR payload 6 c3) = r * 4096 + s * 64 + t"
    using r s t low unat_or_low [of "push_bit 6 (payload 6 c2) OR payload 6 c3" 12 "payload 6 c1"] by simp
  have u: "unat (push_bit 18 (payload 3 b) OR push_bit 12 (payload 6 c1) OR push_bit 6 (payload 6 c2) OR payload 6 c3) = q * 262144 + r * 4096 + s * 64 + t"
    using q r s t mid unat_or_low [of "push_bit 12 (payload 6 c1) OR push_bit 6 (payload 6 c2) OR payload 6 c3" 18 "payload 3 b"] by simp
  have "16 \<le> r" if "q = 0"
  proof -
    have "b = 0xF0" using that q(2) by (simp add: word_unat_eq_iff)
    with assms(4) r(2) show ?thesis by (simp add: word_le_nat_alt)
  qed
  then have "65536 \<le> q * 262144 + r * 4096" using r(1) by (cases "q = 0") auto
  moreover have "(q * 262144 + r * 4096 + s * 64 + t) div 262144 = q" "(q * 262144 + r * 4096 + s * 64 + t) div 4096 mod 64 = r"
    "(q * 262144 + r * 4096 + s * 64 + t) div 64 mod 64 = s" "(q * 262144 + r * 4096 + s * 64 + t) mod 64 = t"
  proof -
    let ?n = "((q * 64 + r) * 64 + s) * 64 + t"
    have "?n div 64 = (q * 64 + r) * 64 + s" "?n mod 64 = t" "((q * 64 + r) * 64 + s) div 64 = q * 64 + r" "((q * 64 + r) * 64 + s) mod 64 = s"
      "(q * 64 + r) div 64 = q" "(q * 64 + r) mod 64 = r" using base_64 r(1) s(1) t(1) by blast+
    moreover have "?n div 4096 = ?n div 64 div 64" "?n div 262144 = ?n div 64 div 64 div 64" by (simp_all only: div_mult2_eq [symmetric]) simp_all
    moreover have "q * 262144 + r * 4096 + s * 64 + t = ?n" by simp
    ultimately show "(q * 262144 + r * 4096 + s * 64 + t) div 262144 = q" "(q * 262144 + r * 4096 + s * 64 + t) div 4096 mod 64 = r"
      "(q * 262144 + r * 4096 + s * 64 + t) div 64 mod 64 = s" "(q * 262144 + r * 4096 + s * 64 + t) mod 64 = t"
      by (simp_all only:)
  qed
  ultimately show ?thesis using q r s t by (simp add: utf8_char_def Let_def u byte_of_nat)
qed

lemma utf8_encode_chars: "utf8_valid s \<Longrightarrow> utf8_encode (utf8_chars s) = s"
proof (induction s rule: utf8_valid.induct)
  case (2 b bs)
  consider (1) "b < 0x80" | (2) "0xC2 \<le> b \<and> b \<le> 0xDF" "\<not> b < 0x80" | (3) "0xE0 \<le> b \<and> b \<le> 0xEF" "\<not> b < 0x80" "\<not> b < 0xE0"
    | (4) "0xF0 \<le> b \<and> b \<le> 0xF4" "\<not> b < 0x80" "\<not> b < 0xE0" "\<not> b < 0xF0"
    using "2.prems" by (auto split: if_splits) (auto simp: word_less_nat_alt word_le_nat_alt)
  then show ?case
  proof cases
    case 1
    then have "utf8_char (ucast b) = [b]" by (simp add: utf8_char_def Let_def unat_ucast_byte word_less_nat_alt)
    with 1 2 show ?thesis by simp
  next
    case c: 2
    then have "b < 0xE0" by (auto simp: word_less_nat_alt word_le_nat_alt)
    with c 2 utf8_two [of b] show ?thesis by (cases bs) auto
  next
    case 3
    then have "b < 0xF0" "\<not> (0xC2 \<le> b \<and> b \<le> 0xDF)" by (auto simp: word_less_nat_alt word_le_nat_alt)
    note b = this 3
    with "2.prems" obtain c1 c2 rest where bs: "bs = c1 # c2 # rest" "cont_byte c2" "utf8_valid rest"
      "if b = 0xE0 then 0xA0 \<le> c1 \<and> c1 \<le> 0xBF else if b = 0xED then 0x80 \<le> c1 \<and> c1 \<le> 0x9F else cont_byte c1"
      by (auto split: list.splits)
    then have "cont_byte c1" "b = 0xE0 \<longrightarrow> 0xA0 \<le> c1" by (auto simp: cont_byte_def word_le_nat_alt split: if_splits)
    with utf8_three [of b c1 c2] b bs have "utf8_char (push_bit 12 (payload 4 b) OR push_bit 6 (payload 6 c1) OR payload 6 c2) = [b, c1, c2]" by blast
    moreover have "utf8_encode (utf8_chars rest) = rest" using "2.IH"(3) b bs by (auto split: if_splits)
    ultimately show ?thesis using b bs(1) by simp
  next
    case 4
    then have "\<not> (0xC2 \<le> b \<and> b \<le> 0xDF)" "\<not> (0xE0 \<le> b \<and> b \<le> 0xEF)" by (auto simp: word_less_nat_alt word_le_nat_alt)
    note b = this 4
    with "2.prems" obtain c1 c2 c3 rest where bs: "bs = c1 # c2 # c3 # rest" "cont_byte c2" "cont_byte c3" "utf8_valid rest"
      "if b = 0xF0 then 0x90 \<le> c1 \<and> c1 \<le> 0xBF else if b = 0xF4 then 0x80 \<le> c1 \<and> c1 \<le> 0x8F else cont_byte c1"
      by (auto split: list.splits)
    then have "cont_byte c1" "b = 0xF0 \<longrightarrow> 0x90 \<le> c1" by (auto simp: cont_byte_def word_le_nat_alt split: if_splits)
    with utf8_four [of b c1 c2 c3] b bs have "utf8_char (push_bit 18 (payload 3 b) OR push_bit 12 (payload 6 c1) OR push_bit 6 (payload 6 c2) OR payload 6 c3) = [b, c1, c2, c3]" by blast
    moreover have "utf8_encode (utf8_chars rest) = rest" using "2.IH"(4) b bs by (auto split: if_splits)
    ultimately show ?thesis using b bs(1) by simp
  qed
qed simp

end
