(* ===== verification/Sql_Parser.thy ===== *)
theory Sql_Parser
  imports Sql_Lexer Utf8 Predicates
begin

text \<open>
  The recursive-descent parser of \<^verbatim>\<open>src/engine/query.rs\<close>. The cursor is the list of tokens not yet consumed and the count of predicate nodes;
  the positions only serve the messages. Identifiers and texts of the syntax tree are UTF-8 bytes. A loop of the source runs with one unit of
  fuel per remaining token (\<open>fuelled\<close>): each turn consumes a token, and running out would show as a panic, which \<open>Sql_Parse_Laws\<close> excludes.
\<close>

section \<open>Statements\<close>

record table_ref =
  tr_name :: col_name
  tr_alias :: "col_name option"

definition qualifier :: "table_ref \<Rightarrow> col_name" where
  "qualifier r = (case tr_alias r of Some a \<Rightarrow> a | None \<Rightarrow> tr_name r)"

record join_clause =
  jc_table :: table_ref
  jc_first_column :: col_name
  jc_second_column :: col_name
  jc_left_join :: bool

record column_definition =
  cd_name :: col_name
  cd_default :: "val option"
  cd_unique :: bool
  cd_not_null :: bool

datatype retrieval_metric = Cosine | SquaredEuclidean

datatype retrieval_kind =
    FullText "col_name list"
  | Vector col_name retrieval_metric nat

record retrieval_definition =
  rd_name :: col_name
  rd_table :: col_name
  rd_id_column :: col_name
  rd_index :: retrieval_kind

record select_body =
  sb_projection :: projection
  sb_distinct :: bool
  sb_before :: "u64 option"
  sb_filter :: "predicate option"
  sb_group_by :: "col_name list"
  sb_having :: "having_pred option"
  sb_order :: "order_by list"
  sb_limit :: "nat option"
  sb_offset :: nat

datatype statement =
    Explain statement
  | Begin
  | Commit
  | Rollback
  | CreateTable col_name "col_name list" "col_name list" "col_name list"
  | CreateTableIfNotExists col_name "col_name list" "col_name list" "col_name list"
  | CreateTableSchema col_name "column_definition list" "predicate list" bool
  | Insert col_name "val list"
  | InsertMany col_name "val list list"
  | InsertSchema col_name "col_name list option" "insert_value list list"
  | CreateRetrievalIndex retrieval_definition bool
  | DropRetrievalIndex col_name bool
  | CreateIndex col_name col_name bool
  | Select col_name select_body
  | SelectJoin table_ref "join_clause list" select_body
  | Update col_name col_name val predicate
  | UpdateDefault col_name col_name predicate
  | Delete col_name predicate
  | DropTable col_name
  | DropTableIfExists col_name

section \<open>The cursor\<close>

record cursor =
  cur_toks :: "tok list"
  cur_nodes :: nat

type_synonym 'a parser = "(cursor, 'a) action"

definition MAX_PREDICATE_NODES :: nat where "MAX_PREDICATE_NODES = 256"
definition MAX_SCALAR_DEPTH :: nat where "MAX_SCALAR_DEPTH = 64"

definition ascii_lower :: "u32 \<Rightarrow> u32" where
  "ascii_lower c = (if 65 \<le> c \<and> c \<le> 90 then c + 32 else c)"

text \<open>\<^verbatim>\<open>eq_ignore_ascii_case\<close> with a keyword written in lower case.\<close>

definition is_kw :: "chars \<Rightarrow> string \<Rightarrow> bool" where
  "is_kw w kw \<longleftrightarrow> map ascii_lower w = to_chars (ascii kw)"

definition fail :: "string \<Rightarrow> 'a parser" where
  "fail msg = act_return (Err (Query msg))"

definition next_tok :: "tok parser" where
  "next_tok cur =
     (case cur_toks cur of
        [] \<Rightarrow> (Err (Query ''unexpected end of statement''), cur)
      | t # ts \<Rightarrow> (Ok t, cur\<lparr>cur_toks := ts\<rparr>))"

definition peek :: "cursor \<Rightarrow> tok option" where
  "peek cur = (case cur_toks cur of [] \<Rightarrow> None | t # _ \<Rightarrow> Some t)"

definition peek2 :: "cursor \<Rightarrow> tok option" where
  "peek2 cur = (case cur_toks cur of _ # t # _ \<Rightarrow> Some t | _ \<Rightarrow> None)"

definition tok_kw :: "tok option \<Rightarrow> string \<Rightarrow> bool" where
  "tok_kw t kw \<longleftrightarrow> (case t of Some (TWord w) \<Rightarrow> is_kw w kw | _ \<Rightarrow> False)"

definition peek_kw :: "string \<Rightarrow> cursor \<Rightarrow> bool" where
  "peek_kw kw cur = tok_kw (peek cur) kw"

text \<open>The pattern \<^verbatim>\<open>if peek_kw(cur, kw) { cur.next()?; \<dots> } else { \<dots> }\<close>, and the same for a token.\<close>

definition when_kw :: "string \<Rightarrow> 'a parser \<Rightarrow> 'a parser \<Rightarrow> 'a parser" where
  "when_kw kw m m' cur = (if peek_kw kw cur then act_then next_tok (\<lambda>_. m) cur else m' cur)"

definition when_tok :: "tok \<Rightarrow> 'a parser \<Rightarrow> 'a parser \<Rightarrow> 'a parser" where
  "when_tok t m m' cur = (if peek cur = Some t then act_then next_tok (\<lambda>_. m) cur else m' cur)"

definition keyword :: "string \<Rightarrow> unit parser" where
  "keyword kw = act_then next_tok (\<lambda>t. if tok_kw (Some t) kw then act_return (Ok ()) else fail ''expected `{kw}`, found {other:?}'')"

definition ident :: "col_name parser" where
  "ident = act_then next_tok (\<lambda>t.
     case t of
       TWord w \<Rightarrow> act_return (Ok (utf8_encode w))
     | TIdent w \<Rightarrow> act_return (Ok (utf8_encode w))
     | _ \<Rightarrow> fail ''expected identifier, found {other:?}'')"

definition ident_is_quoted :: "cursor \<Rightarrow> bool" where
  "ident_is_quoted cur = (case peek cur of Some (TIdent _) \<Rightarrow> True | _ \<Rightarrow> False)"

definition column_ref :: "col_name parser" where
  "column_ref = act_then ident (\<lambda>name. when_tok TDot (act_then ident (\<lambda>n. act_return (Ok (name @ [46] @ n)))) (act_return (Ok name)))"

definition expect :: "tok \<Rightarrow> unit parser" where
  "expect t = act_then next_tok (\<lambda>got. if got = t then act_return (Ok ()) else fail ''expected {tok:?}, found {got:?}'')"

definition value_tok :: "val parser" where
  "value_tok = act_then next_tok (\<lambda>t.
     case t of
       TInt i \<Rightarrow> act_return (Ok (VInt i))
     | TDec m \<Rightarrow> act_return (Ok (VDecimal m))
     | TStr s \<Rightarrow> act_return (Ok (VText (utf8_encode s)))
     | TWord w \<Rightarrow> if is_kw w ''null'' then act_return (Ok VNull) else fail ''expected a value, found {other:?}''
     | _ \<Rightarrow> fail ''expected a value, found {other:?}'')"

definition predicate_node :: "unit parser" where
  "predicate_node cur =
     (let cur' = cur\<lparr>cur_nodes := saturating_add (cur_nodes cur) 1\<rparr> in
      if cur_nodes cur' > MAX_PREDICATE_NODES then (Err (Query ''predicate complexity exceeds the {MAX_PREDICATE_NODES}-node limit''), cur')
      else (Ok (), cur'))"

definition finish :: "unit parser" where
  "finish cur =
     (case peek cur of
        None \<Rightarrow> (Ok (), cur)
      | Some (TWord _) \<Rightarrow> (Err (Query ''unsupported or misplaced SQL construct `{}`''), cur)
      | Some _ \<Rightarrow> (Err (Query ''unexpected token {token:?} after the statement''), cur))"

section \<open>Loops\<close>

definition fuelled :: "(nat \<Rightarrow> 'a parser) \<Rightarrow> 'a parser" where
  "fuelled f cur = f (Suc (length (cur_toks cur))) cur"

text \<open>\<^verbatim>\<open>loop { item; match next { Comma => continue, RParen => break, other => error } }\<close>.\<close>

fun items_rparen :: "nat \<Rightarrow> ('a list \<Rightarrow> 'a parser) \<Rightarrow> 'a list \<Rightarrow> 'a list parser" where
  "items_rparen 0 item acc = act_return Panic"
| "items_rparen (Suc n) item acc =
     act_then (item acc) (\<lambda>x.
     act_then next_tok (\<lambda>t.
       case t of
         TComma \<Rightarrow> items_rparen n item (acc @ [x])
       | TRParen \<Rightarrow> act_return (Ok (acc @ [x]))
       | _ \<Rightarrow> fail ''expected `,` or `)`, found {other:?}''))"

text \<open>\<^verbatim>\<open>while peek == Comma { next; item }\<close>.\<close>

fun more_items :: "nat \<Rightarrow> 'a parser \<Rightarrow> 'a list \<Rightarrow> 'a list parser" where
  "more_items 0 item acc = act_return Panic"
| "more_items (Suc n) item acc = when_tok TComma (act_then item (\<lambda>x. more_items n item (acc @ [x]))) (act_return (Ok acc))"

definition comma_list :: "'a parser \<Rightarrow> 'a list parser" where
  "comma_list item = act_then item (\<lambda>x. fuelled (\<lambda>n. more_items n item [x]))"

fun operator_loop :: "nat \<Rightarrow> string \<Rightarrow> ('a \<Rightarrow> 'a \<Rightarrow> 'a) \<Rightarrow> 'a parser \<Rightarrow> 'a \<Rightarrow> 'a parser" where
  "operator_loop 0 kw mk operand left = act_return Panic"
| "operator_loop (Suc n) kw mk operand left =
     when_kw kw
       (act_then predicate_node (\<lambda>_. act_then operand (\<lambda>right. operator_loop n kw mk operand (mk left right))))
       (act_return (Ok left))"

definition operators :: "string \<Rightarrow> ('a \<Rightarrow> 'a \<Rightarrow> 'a) \<Rightarrow> 'a parser \<Rightarrow> 'a parser" where
  "operators kw mk operand = act_then operand (\<lambda>left. fuelled (\<lambda>n. operator_loop n kw mk operand left))"

section \<open>Predicates\<close>

definition parse_in :: "col_name \<Rightarrow> bool \<Rightarrow> predicate parser" where
  "parse_in column negated =
     act_then (expect TLParen) (\<lambda>_.
     act_then (fuelled (\<lambda>n. items_rparen n (\<lambda>_. value_tok) [])) (\<lambda>vs. act_return (Ok (InList column vs negated))))"

definition parse_between :: "col_name \<Rightarrow> bool \<Rightarrow> predicate parser" where
  "parse_between column negated =
     act_then value_tok (\<lambda>low. act_then (keyword ''and'') (\<lambda>_. act_then value_tok (\<lambda>high. act_return (Ok (Between column low high negated)))))"

definition comparison_op :: "bool \<Rightarrow> compare_op parser" where
  "comparison_op like_allowed = act_then next_tok (\<lambda>t.
     case t of
       TEq \<Rightarrow> act_return (Ok OpEq)
     | TNe \<Rightarrow> act_return (Ok OpNe)
     | TLt \<Rightarrow> act_return (Ok OpLt)
     | TLe \<Rightarrow> act_return (Ok OpLe)
     | TGt \<Rightarrow> act_return (Ok OpGt)
     | TGe \<Rightarrow> act_return (Ok OpGe)
     | TWord w \<Rightarrow> if like_allowed \<and> is_kw w ''like'' then act_return (Ok OpLike) else fail ''expected a comparison operator, found {other:?}''
     | _ \<Rightarrow> fail ''expected a comparison operator, found {other:?}'')"

definition parse_condition :: "predicate parser" where
  "parse_condition =
     act_then predicate_node (\<lambda>_.
     act_then column_ref (\<lambda>column.
       when_kw ''in'' (parse_in column False) (
       when_kw ''between'' (parse_between column False) (
       when_kw ''is''
         (when_kw ''not''
           (act_then (keyword ''null'') (\<lambda>_. act_return (Ok (IsNull column True))))
           (act_then (keyword ''null'') (\<lambda>_. act_return (Ok (IsNull column False))))) (
       when_kw ''not''
         (when_kw ''in'' (parse_in column True) (
          when_kw ''between'' (parse_between column True) (
          when_kw ''like''
            (act_then value_tok (\<lambda>v. act_return (Ok (Compare column OpNotLike v))))
            (fail ''expected IN, BETWEEN, or LIKE after NOT'')))) (
       act_then (comparison_op True) (\<lambda>op. act_then value_tok (\<lambda>v. act_return (Ok (Compare column op v))))))))))"

definition parse_comparison :: "predicate parser \<Rightarrow> predicate parser" where
  "parse_comparison whole =
     when_tok TLParen (act_then whole (\<lambda>inner. act_then (expect TRParen) (\<lambda>_. act_return (Ok inner)))) parse_condition"

definition parse_and :: "predicate parser \<Rightarrow> predicate parser" where
  "parse_and whole = operators ''and'' And (parse_comparison whole)"

fun predicate_within :: "nat \<Rightarrow> predicate parser" where
  "predicate_within 0 = act_return Panic"
| "predicate_within (Suc n) = operators ''or'' Or (parse_and (predicate_within n))"

definition parse_predicate :: "predicate parser" where
  "parse_predicate = fuelled predicate_within"

section \<open>Aggregates and \<^verbatim>\<open>HAVING\<close>\<close>

definition agg_func_of :: "chars \<Rightarrow> agg_func option" where
  "agg_func_of w =
     (if is_kw w ''count'' then Some Count else if is_kw w ''sum'' then Some Sum else if is_kw w ''min'' then Some Min
      else if is_kw w ''max'' then Some Max else if is_kw w ''avg'' then Some Avg else None)"

definition is_aggregate :: "cursor \<Rightarrow> bool" where
  "is_aggregate cur \<longleftrightarrow> (case peek cur of Some (TWord w) \<Rightarrow> agg_func_of w \<noteq> None | _ \<Rightarrow> False) \<and> peek2 cur = Some TLParen"

definition parse_aggregate :: "aggregate parser" where
  "parse_aggregate =
     act_then next_tok (\<lambda>t.
     act_then (case t of
         TWord w \<Rightarrow> act_return (ok_or (agg_func_of w) (Query ''unknown aggregate `{word}`''))
       | TIdent w \<Rightarrow> act_return (ok_or (agg_func_of w) (Query ''unknown aggregate `{word}`''))
       | _ \<Rightarrow> fail ''expected identifier, found {other:?}'') (\<lambda>func.
     act_then (expect TLParen) (\<lambda>_.
     act_then (when_tok TStar (act_return (Ok None)) (act_then column_ref (\<lambda>c. act_return (Ok (Some c))))) (\<lambda>column.
     act_then (expect TRParen) (\<lambda>_.
       if column = None \<and> func \<noteq> Count then fail ''only COUNT(*) may use `*`; SUM/MIN/MAX need a column''
       else act_return (Ok \<lparr>ag_func = func, ag_column = column\<rparr>))))))"

definition parse_having_condition :: "having_pred parser" where
  "parse_having_condition =
     act_then predicate_node (\<lambda>_.
     act_then (\<lambda>cur.
       if is_aggregate cur then act_then parse_aggregate (\<lambda>a. act_return (Ok (HavingAggregate a))) cur
       else act_then column_ref (\<lambda>c. act_return (Ok (HavingColumn c))) cur) (\<lambda>term.
     act_then (comparison_op False) (\<lambda>op.
     act_then value_tok (\<lambda>v. act_return (Ok (HavingCompare term op v))))))"

definition parse_having_compare :: "having_pred parser \<Rightarrow> having_pred parser" where
  "parse_having_compare whole =
     when_tok TLParen (act_then whole (\<lambda>inner. act_then (expect TRParen) (\<lambda>_. act_return (Ok inner)))) parse_having_condition"

definition parse_having_and :: "having_pred parser \<Rightarrow> having_pred parser" where
  "parse_having_and whole = operators ''and'' HavingAnd (parse_having_compare whole)"

fun having_within :: "nat \<Rightarrow> having_pred parser" where
  "having_within 0 = act_return Panic"
| "having_within (Suc n) = operators ''or'' HavingOr (parse_having_and (having_within n))"

definition parse_having :: "having_pred parser" where
  "parse_having = fuelled having_within"

section \<open>Scalar expressions and the select list\<close>

definition scalar_func_of :: "bytes \<Rightarrow> scalar_func option" where
  "scalar_func_of name =
     (let w = utf8_chars name in
      if is_kw w ''lower'' then Some Lower else if is_kw w ''upper'' then Some Upper else if is_kw w ''trim'' then Some Trim
      else if is_kw w ''length'' then Some Length else if is_kw w ''abs'' then Some Abs else if is_kw w ''coalesce'' then Some Coalesce
      else if is_kw w ''nullif'' then Some NullIf else None)"

definition valid_arity :: "scalar_func \<Rightarrow> nat \<Rightarrow> bool" where
  "valid_arity f n = (case f of Coalesce \<Rightarrow> n \<noteq> 0 | NullIf \<Rightarrow> n = 2 | _ \<Rightarrow> n = 1)"

fun case_branches :: "nat \<Rightarrow> scalar_expr parser \<Rightarrow> (predicate \<times> scalar_expr) list \<Rightarrow> (predicate \<times> scalar_expr) list parser" where
  "case_branches 0 scalar acc = act_return Panic"
| "case_branches (Suc n) scalar acc =
     when_kw ''when''
       (act_then parse_predicate (\<lambda>p. act_then (keyword ''then'') (\<lambda>_. act_then scalar (\<lambda>v. case_branches n scalar (acc @ [(p, v)])))))
       (act_return (Ok acc))"

definition parse_case :: "scalar_expr parser \<Rightarrow> scalar_expr parser" where
  "parse_case scalar =
     act_then (keyword ''case'') (\<lambda>_.
     act_then (fuelled (\<lambda>n. case_branches n scalar [])) (\<lambda>branches.
       if branches = [] then fail ''CASE requires at least one WHEN branch''
       else
         act_then (when_kw ''else'' (act_then scalar (\<lambda>e. act_return (Ok (Some e)))) (act_return (Ok None))) (\<lambda>else_expr.
         act_then (keyword ''end'') (\<lambda>_. act_return (Ok (ScalarCase branches else_expr))))))"

definition is_literal :: "tok option \<Rightarrow> bool" where
  "is_literal t = (case t of Some (TInt _) \<Rightarrow> True | Some (TDec _) \<Rightarrow> True | Some (TStr _) \<Rightarrow> True | _ \<Rightarrow> False)"

definition parse_call :: "scalar_expr parser \<Rightarrow> scalar_expr parser" where
  "parse_call scalar =
     act_then column_ref (\<lambda>name.
       when_tok TLParen
         (case scalar_func_of name of
            None \<Rightarrow> fail ''unsupported scalar function `{name}`''
          | Some f \<Rightarrow>
              act_then (\<lambda>cur. if peek cur = Some TRParen then (Ok [], cur) else comma_list scalar cur) (\<lambda>arguments.
              act_then (expect TRParen) (\<lambda>_.
                if valid_arity f (length arguments) then act_return (Ok (ScalarFunction f arguments)) else fail ''{name} expects {expected}'')))
         (act_return (Ok (ScalarColumn name))))"

text \<open>The argument is the nesting that is still allowed: \<^verbatim>\<open>MAX_SCALAR_DEPTH + 1 - depth\<close>.\<close>

fun parse_scalar_expr_at_depth :: "nat \<Rightarrow> scalar_expr parser" where
  "parse_scalar_expr_at_depth 0 = fail ''scalar expression nesting exceeds the {MAX_SCALAR_DEPTH}-level limit''"
| "parse_scalar_expr_at_depth (Suc left) =
     (\<lambda>cur.
        if peek_kw ''case'' cur then parse_case (parse_scalar_expr_at_depth left) cur
        else if is_literal (peek cur) \<or> peek_kw ''null'' cur then act_then value_tok (\<lambda>v. act_return (Ok (ScalarLiteral v))) cur
        else parse_call (parse_scalar_expr_at_depth left) cur)"

definition parse_scalar_expr :: "scalar_expr parser" where
  "parse_scalar_expr = parse_scalar_expr_at_depth (MAX_SCALAR_DEPTH + 1)"

definition is_scalar_expression_start :: "cursor \<Rightarrow> bool" where
  "is_scalar_expression_start cur =
     (is_literal (peek cur) \<or> peek_kw ''null'' cur \<or> peek_kw ''case'' cur \<or>
      (case peek cur of Some (TWord _) \<Rightarrow> peek2 cur = Some TLParen | _ \<Rightarrow> False))"

definition reserved_words :: "string list" where
  "reserved_words =
     [''begin'', ''commit'', ''rollback'', ''transaction'', ''create'', ''table'', ''index'', ''insert'', ''into'', ''update'', ''set'',
      ''delete'', ''drop'', ''if'', ''exists'', ''key'', ''primary'', ''unique'', ''foreign'', ''not'', ''null'', ''is'', ''in'', ''between'',
      ''like'', ''asc'', ''desc'', ''from'', ''where'', ''group'', ''having'', ''order'', ''before'', ''limit'', ''offset'', ''by'', ''as'',
      ''and'', ''or'', ''select'', ''distinct'', ''join'', ''inner'', ''left'', ''right'', ''full'', ''cross'', ''natural'', ''outer'', ''on'',
      ''case'', ''when'', ''then'', ''else'', ''end'', ''default'', ''values'', ''check'', ''constraint'', ''references'', ''union'',
      ''intersect'', ''except'', ''returning'', ''with'', ''recursive'', ''using'', ''window'', ''over'', ''fetch'', ''for'', ''qualify'']"

definition is_reserved_word :: "chars \<Rightarrow> bool" where
  "is_reserved_word w = list_ex (is_kw w) reserved_words"

definition alias_name :: "string \<Rightarrow> col_name parser" where
  "alias_name msg cur =
     (let quoted = ident_is_quoted cur in
      act_then ident (\<lambda>name. if \<not> quoted \<and> is_reserved_word (utf8_chars name) then fail msg else act_return (Ok name)) cur)"

definition parse_select_item :: "select_item parser" where
  "parse_select_item =
     act_then (\<lambda>cur.
       if is_aggregate cur then act_then parse_aggregate (\<lambda>a. act_return (Ok (SelectAggregate a))) cur
       else if is_scalar_expression_start cur then act_then parse_scalar_expr (\<lambda>e. act_return (Ok (SelectScalar e))) cur
       else act_then column_ref (\<lambda>c. act_return (Ok (SelectColumn c))) cur) (\<lambda>expr.
     act_then (when_kw ''as''
         (act_then (alias_name ''expected an alias name after AS, found keyword `{name}`'') (\<lambda>name. act_return (Ok (Some name))))
         (act_return (Ok None))) (\<lambda>alias.
       act_return (Ok \<lparr>it_expr = expr, it_alias = alias\<rparr>)))"

fun plain_column :: "select_item \<Rightarrow> col_name result" where
  "plain_column i = (case it_expr i of SelectColumn c \<Rightarrow> Ok c | _ \<Rightarrow> Panic)"

definition is_plain :: "select_item \<Rightarrow> bool" where
  "is_plain i \<longleftrightarrow> (case it_expr i of SelectColumn _ \<Rightarrow> True | _ \<Rightarrow> False) \<and> it_alias i = None"

definition parse_projection :: "projection parser" where
  "parse_projection =
     when_tok TStar (act_return (Ok ProjectAll))
       (act_then (comma_list parse_select_item) (\<lambda>items.
          if list_all is_plain items then act_return (and_then (collect_results plain_column items) (\<lambda>cols. Ok (ProjectColumns cols)))
          else act_return (Ok (ProjectItems items))))"

section \<open>\<^verbatim>\<open>SELECT\<close>\<close>

definition parse_order_key :: "order_by parser" where
  "parse_order_key =
     act_then column_ref (\<lambda>column.
       when_kw ''desc'' (act_return (Ok \<lparr>ob_column = column, ob_descending = True\<rparr>)) (
       when_kw ''asc'' (act_return (Ok \<lparr>ob_column = column, ob_descending = False\<rparr>))
         (act_return (Ok \<lparr>ob_column = column, ob_descending = False\<rparr>))))"

text \<open>On the 64-bit targets every non-negative \<^verbatim>\<open>i64\<close> is a \<^verbatim>\<open>usize\<close>.\<close>

definition non_negative :: "string \<Rightarrow> u64 parser" where
  "non_negative msg = act_then next_tok (\<lambda>t.
     case t of
       TInt i \<Rightarrow> if 0 \<le> sint i then act_return (Ok i) else fail msg
     | _ \<Rightarrow> fail msg)"

definition parse_row_count :: "string \<Rightarrow> nat option parser" where
  "parse_row_count kw =
     when_kw kw (act_then (non_negative ''{} expects a non-negative integer, found {other:?}'') (\<lambda>n. act_return (Ok (Some (unat n)))))
       (act_return (Ok None))"

definition parse_table_ref :: "table_ref parser" where
  "parse_table_ref =
     act_then ident (\<lambda>name.
       when_kw ''as''
         (act_then (alias_name ''expected a table alias after AS, found keyword `{alias}`'') (\<lambda>alias.
            act_return (Ok \<lparr>tr_name = name, tr_alias = Some alias\<rparr>)))
         (\<lambda>cur.
            case (case peek cur of
                Some (TWord w) \<Rightarrow> if is_reserved_word w then None else Some (utf8_encode w)
              | Some (TIdent w) \<Rightarrow> Some (utf8_encode w)
              | _ \<Rightarrow> None) of
              Some alias \<Rightarrow> act_then next_tok (\<lambda>_. act_return (Ok \<lparr>tr_name = name, tr_alias = Some alias\<rparr>)) cur
            | None \<Rightarrow> (Ok \<lparr>tr_name = name, tr_alias = None\<rparr>, cur)))"

definition parse_join :: "bool \<Rightarrow> col_name list \<Rightarrow> join_clause parser" where
  "parse_join left_join qualifiers =
     act_then (keyword ''join'') (\<lambda>_.
     act_then parse_table_ref (\<lambda>r.
       if qualifier r \<in> set qualifiers then fail ''duplicate table qualifier `{qualifier}`''
       else
         act_then (keyword ''on'') (\<lambda>_.
         act_then column_ref (\<lambda>first.
         act_then (expect TEq) (\<lambda>_.
         act_then column_ref (\<lambda>second.
           act_return (Ok \<lparr>jc_table = r, jc_first_column = first, jc_second_column = second, jc_left_join = left_join\<rparr>)))))))"

fun join_loop :: "nat \<Rightarrow> col_name list \<Rightarrow> join_clause list \<Rightarrow> join_clause list parser" where
  "join_loop 0 qualifiers joins = act_return Panic"
| "join_loop (Suc n) qualifiers joins = (\<lambda>cur.
     if peek_kw ''join'' cur \<or> peek_kw ''inner'' cur \<or> peek_kw ''left'' cur
     then
       act_then
         (when_kw ''left'' (when_kw ''outer'' (parse_join True qualifiers) (parse_join True qualifiers))
           (when_kw ''inner'' (parse_join False qualifiers) (parse_join False qualifiers))) (\<lambda>j.
         join_loop n (qualifiers @ [qualifier (jc_table j)]) (joins @ [j])) cur
     else (Ok joins, cur))"

definition optional :: "string \<Rightarrow> 'a parser \<Rightarrow> 'a option parser" where
  "optional kw m = when_kw kw (act_then m (\<lambda>x. act_return (Ok (Some x)))) (act_return (Ok None))"

definition reject_join_types :: "unit parser" where
  "reject_join_types cur =
     (if peek_kw ''right'' cur \<or> peek_kw ''full'' cur \<or> peek_kw ''cross'' cur \<or> peek_kw ''natural'' cur
      then act_then ident (\<lambda>_. fail ''unsupported join type `{}`'') cur else (Ok (), cur))"

definition starts_distinct :: "cursor \<Rightarrow> bool" where
  "starts_distinct cur \<longleftrightarrow> peek_kw ''distinct'' cur \<and> peek2 cur \<noteq> Some TComma \<and> \<not> tok_kw (peek2 cur) ''from''"

definition parse_select :: "statement parser" where
  "parse_select cur =
     (let distinct = starts_distinct cur in
      act_then (if distinct then act_then next_tok (\<lambda>_. act_return (Ok ())) else act_return (Ok ())) (\<lambda>_.
      act_then parse_projection (\<lambda>projection.
      act_then (keyword ''from'') (\<lambda>_.
      act_then parse_table_ref (\<lambda>source.
      act_then (fuelled (\<lambda>n. join_loop n [qualifier source] [])) (\<lambda>joins.
      act_then reject_join_types (\<lambda>_.
      act_then (optional ''where'' parse_predicate) (\<lambda>filter.
      act_then (when_kw ''group'' (act_then (keyword ''by'') (\<lambda>_. comma_list column_ref)) (act_return (Ok []))) (\<lambda>group_by.
      act_then (optional ''having'' parse_having) (\<lambda>having.
      act_then (optional ''before'' (non_negative ''BEFORE expects a non-negative integer, found {other:?}'')) (\<lambda>before.
      act_then (when_kw ''order'' (act_then (keyword ''by'') (\<lambda>_. comma_list parse_order_key)) (act_return (Ok []))) (\<lambda>order.
      act_then (parse_row_count ''limit'') (\<lambda>limit.
      act_then (parse_row_count ''offset'') (\<lambda>offset.
        let body = \<lparr>sb_projection = projection, sb_distinct = distinct, sb_before = before, sb_filter = filter, sb_group_by = group_by,
              sb_having = having, sb_order = order, sb_limit = limit, sb_offset = (case offset of Some n \<Rightarrow> n | None \<Rightarrow> 0)\<rparr>
        in act_return (Ok (if tr_alias source \<noteq> None \<or> joins \<noteq> [] then SelectJoin source joins body else Select (tr_name source) body))))))))))))))) cur)"

section \<open>\<^verbatim>\<open>CREATE\<close>\<close>

definition is_column_constraint :: "chars \<Rightarrow> bool" where
  "is_column_constraint w = list_ex (is_kw w) [''primary'', ''unique'', ''not'', ''default'', ''check'']"

definition type_size :: "unit parser" where
  "type_size =
     act_then next_tok (\<lambda>t.
     act_then (case t of
         TInt i \<Rightarrow> if 0 < sint i then act_return (Ok ()) else fail ''type size expects a positive integer, found {other:?}''
       | _ \<Rightarrow> fail ''type size expects a positive integer, found {other:?}'') (\<lambda>_.
     act_then (when_tok TComma (act_then (non_negative ''type scale expects a non-negative integer, found {other:?}'') (\<lambda>_. act_return (Ok ()))) (act_return (Ok ()))) (\<lambda>_.
       expect TRParen)))"

definition consume_declared_type :: "bool parser" where
  "consume_declared_type cur =
     (case peek cur of
        Some (TWord w) \<Rightarrow>
          if is_column_constraint w then (Ok False, cur)
          else
            act_then next_tok (\<lambda>_.
            act_then
              (if is_kw w ''double'' then when_kw ''precision'' (act_return (Ok ())) (act_return (Ok ()))
               else if is_kw w ''character'' then when_kw ''varying'' (act_return (Ok ())) (act_return (Ok ()))
               else if is_kw w ''national''
                 then when_kw ''character'' (when_kw ''varying'' (act_return (Ok ())) (act_return (Ok ()))) (act_return (Ok ()))
               else act_return (Ok ())) (\<lambda>_.
            act_then (when_tok TLParen type_size (act_return (Ok ()))) (\<lambda>_. act_return (Ok True)))) cur
      | _ \<Rightarrow> (Ok False, cur))"

definition parse_check_constraint :: "predicate parser" where
  "parse_check_constraint =
     act_then (keyword ''check'') (\<lambda>_. act_then (expect TLParen) (\<lambda>_. act_then parse_predicate (\<lambda>p. act_then (expect TRParen) (\<lambda>_. act_return (Ok p)))))"

definition default_value :: "val parser" where
  "default_value cur =
     (if is_literal (peek cur) \<or> peek_kw ''null'' cur then value_tok cur
      else fail ''DEFAULT supports only NULL, integer, decimal, and text literals'' cur)"

definition parse_default_literal :: "val parser" where
  "parse_default_literal =
     when_tok TLParen (act_then default_value (\<lambda>v. act_then (expect TRParen) (\<lambda>_. act_return (Ok v)))) default_value"

record create_state =
  cs_definitions :: "column_definition list"
  cs_checks :: "predicate list"
  cs_rich :: bool

primrec column_constraints :: "nat \<Rightarrow> bool \<Rightarrow> bool \<Rightarrow> column_definition \<Rightarrow> create_state \<Rightarrow> (column_definition \<times> create_state) parser" where
  "column_constraints 0 saw_pk saw_default d cs = act_return Panic"
| "column_constraints (Suc n) saw_pk saw_default d cs =
     when_kw ''primary''
       (act_then (keyword ''key'') (\<lambda>_.
          if saw_pk then fail ''duplicate PRIMARY KEY constraint''
          else column_constraints n True saw_default (d\<lparr>cd_unique := True, cd_not_null := True\<rparr>) cs)) (
     when_kw ''unique'' (column_constraints n saw_pk saw_default (d\<lparr>cd_unique := True\<rparr>) cs) (
     when_kw ''not''
       (act_then (keyword ''null'') (\<lambda>_. column_constraints n saw_pk saw_default (d\<lparr>cd_not_null := True\<rparr>) cs)) (
     when_kw ''default''
       (if saw_default then fail ''duplicate DEFAULT constraint''
        else act_then parse_default_literal (\<lambda>v. column_constraints n saw_pk True (d\<lparr>cd_default := Some v\<rparr>) (cs\<lparr>cs_rich := True\<rparr>))) (\<lambda>cur.
     if peek_kw ''check'' cur
     then act_then parse_check_constraint (\<lambda>p.
       column_constraints n saw_pk saw_default d (cs\<lparr>cs_checks := cs_checks cs @ [p], cs_rich := True\<rparr>)) cur
     else (Ok (d, cs), cur)))))"

definition parse_column :: "create_state \<Rightarrow> create_state parser" where
  "parse_column cs =
     act_then ident (\<lambda>column.
       if column \<in> cd_name ` set (cs_definitions cs) then fail ''duplicate column declaration `{column}`''
       else
         act_then consume_declared_type (\<lambda>typed.
         act_then (fuelled (\<lambda>n. column_constraints n False False
             \<lparr>cd_name = column, cd_default = None, cd_unique = False, cd_not_null = False\<rparr> (cs\<lparr>cs_rich := cs_rich cs \<or> typed\<rparr>))) (\<lambda>(d, cs).
           act_return (Ok (cs\<lparr>cs_definitions := cs_definitions cs @ [d]\<rparr>)))))"

definition parse_table_item :: "create_state \<Rightarrow> create_state parser" where
  "parse_table_item cs cur =
     (if list_ex (\<lambda>kw. peek_kw kw cur) [''foreign'', ''constraint'', ''unique'', ''primary'']
      then act_then ident (\<lambda>_. fail ''unsupported table constraint `{}`'') cur
      else if peek_kw ''check'' cur
      then act_then parse_check_constraint (\<lambda>p. act_return (Ok (cs\<lparr>cs_checks := cs_checks cs @ [p], cs_rich := True\<rparr>))) cur
      else parse_column cs cur)"

primrec table_items :: "nat \<Rightarrow> create_state \<Rightarrow> create_state parser" where
  "table_items 0 cs = act_return Panic"
| "table_items (Suc n) cs =
     act_then (parse_table_item cs) (\<lambda>cs cur.
       case peek cur of
         Some (TWord _) \<Rightarrow> (Err (Query ''unsupported column constraint or type modifier `{unsupported}`''), cur)
       | _ \<Rightarrow>
           act_then next_tok (\<lambda>t.
             case t of
               TComma \<Rightarrow> table_items n cs
             | TRParen \<Rightarrow> act_return (Ok cs)
             | _ \<Rightarrow> fail ''expected `,` or `)`, found {other:?}'') cur)"

definition exists_clause :: "bool \<Rightarrow> bool parser" where
  "exists_clause negated =
     when_kw ''if''
       (act_then (if negated then keyword ''not'' else act_return (Ok ())) (\<lambda>_. act_then (keyword ''exists'') (\<lambda>_. act_return (Ok True))))
       (act_return (Ok False))"

definition created_table :: "col_name \<Rightarrow> bool \<Rightarrow> create_state \<Rightarrow> statement" where
  "created_table name if_not_exists cs =
     (let ds = cs_definitions cs;
          columns = map cd_name ds;
          uniq = map cd_name (filter cd_unique ds);
          not_null = map cd_name (filter cd_not_null ds)
      in if cs_rich cs then CreateTableSchema name ds (cs_checks cs) if_not_exists
         else if if_not_exists then CreateTableIfNotExists name columns uniq not_null
         else CreateTable name columns uniq not_null)"

definition parse_create_table :: "statement parser" where
  "parse_create_table =
     act_then (exists_clause True) (\<lambda>if_not_exists.
     act_then ident (\<lambda>name.
     act_then (expect TLParen) (\<lambda>_.
     act_then (fuelled (\<lambda>n. table_items n \<lparr>cs_definitions = [], cs_checks = [], cs_rich = False\<rparr>)) (\<lambda>cs.
       act_return (Ok (created_table name if_not_exists cs))))))"

definition parse_index_on :: "bool \<Rightarrow> statement parser" where
  "parse_index_on uniq =
     act_then (keyword ''on'') (\<lambda>_.
     act_then ident (\<lambda>table.
     act_then (expect TLParen) (\<lambda>_.
     act_then ident (\<lambda>column.
     act_then (expect TRParen) (\<lambda>_. act_return (Ok (CreateIndex table column uniq)))))))"

section \<open>Retrieval indexes\<close>

definition valid_identifier :: "char_class \<Rightarrow> bytes \<Rightarrow> bool" where
  "valid_identifier C name \<longleftrightarrow> name \<noteq> [] \<and> length name \<le> 256 \<and> \<not> list_ex (cc_control C) (utf8_chars name)"

definition validate_retrieval :: "char_class \<Rightarrow> retrieval_definition \<Rightarrow> unit result" where
  "validate_retrieval C d =
     (if \<not> valid_identifier C (rd_name d) \<or> \<not> valid_identifier C (rd_table d) \<or> \<not> valid_identifier C (rd_id_column d)
      then Err (Schema ''persistent retrieval identifiers must contain 1-256 non-control UTF-8 bytes'')
      else
        case rd_index d of
          FullText columns \<Rightarrow>
            if columns = [] \<or> length columns > 16 \<or> card (set columns) \<noteq> length columns \<or> \<not> list_all (valid_identifier C) columns
            then Err (Schema ''full-text indexes require 1-16 distinct text columns'') else Ok ()
        | Vector column _ dimensions \<Rightarrow>
            if \<not> valid_identifier C column \<or> dimensions = 0 \<or> dimensions > 4096
            then Err (Schema ''vector indexes require a column and dimensions in 1-4096'') else Ok ())"

definition retrieval_column :: "col_name list \<Rightarrow> col_name parser" where
  "retrieval_column acc = (if length acc \<ge> 16 then fail ''at most 16 retrieval columns'' else ident)"

definition retrieval_option :: "(string \<times> val) list \<Rightarrow> (string \<times> val) parser" where
  "retrieval_option acc =
     act_then ident (\<lambda>name.
       case find (is_kw (utf8_chars name)) [''id_column'', ''metric'', ''dimensions''] of
         None \<Rightarrow> fail ''unknown retrieval option `{key}`''
       | Some key \<Rightarrow>
           act_then (expect TEq) (\<lambda>_.
           act_then value_tok (\<lambda>v.
             if key \<in> fst ` set acc then fail ''duplicate retrieval option `{key}`'' else act_return (Ok (key, v)))))"

definition vector_index :: "col_name list \<Rightarrow> (string \<times> val) list \<Rightarrow> retrieval_kind result" where
  "vector_index columns options =
     (case columns of
        [column] \<Rightarrow>
          and_then
            (case map_of options ''metric'' of
               Some (VText m) \<Rightarrow>
                 if m = ascii ''cosine'' then Ok Cosine else if m = ascii ''squared_euclidean'' then Ok SquaredEuclidean
                 else Err (Query ''metric must be cosine or squared_euclidean'')
             | _ \<Rightarrow> Err (Query ''metric must be cosine or squared_euclidean'')) (\<lambda>metric.
          and_then
            (case map_of options ''dimensions'' of
               Some (VInt n) \<Rightarrow> if 1 \<le> sint n \<and> sint n \<le> 4096 then Ok (unat n) else Err (Query ''dimensions must be an integer in 1-4096'')
             | _ \<Rightarrow> Err (Query ''dimensions must be an integer in 1-4096'')) (\<lambda>dimensions.
            Ok (Vector column metric dimensions)))
      | _ \<Rightarrow> Err (Query ''VECTOR requires exactly one column''))"

definition retrieval_index :: "bool \<Rightarrow> col_name list \<Rightarrow> (string \<times> val) list \<Rightarrow> (col_name \<times> retrieval_kind) result" where
  "retrieval_index fulltext columns options =
     (case map_of options ''id_column'' of
        Some (VText id_column) \<Rightarrow>
          and_then
            (if fulltext
             then (if filter (\<lambda>(k, _). k \<noteq> ''id_column'') options \<noteq> [] then Err (Query ''FULLTEXT only accepts id_column'') else Ok (FullText columns))
             else vector_index columns options) (\<lambda>index. Ok (id_column, index))
      | _ \<Rightarrow> Err (Query ''id_column must be an explicit string option''))"

definition retrieval_kind_name :: "bool parser" where
  "retrieval_kind_name =
     act_then ident (\<lambda>kind.
       if is_kw (utf8_chars kind) ''fulltext'' then act_return (Ok True)
       else if is_kw (utf8_chars kind) ''vector'' then act_return (Ok False)
       else fail ''expected FULLTEXT or VECTOR index kind'')"

definition parse_retrieval_index :: "char_class \<Rightarrow> statement parser" where
  "parse_retrieval_index C =
     act_then (exists_clause True) (\<lambda>if_not_exists.
     act_then ident (\<lambda>name.
     act_then (keyword ''on'') (\<lambda>_.
     act_then ident (\<lambda>table.
     act_then (keyword ''using'') (\<lambda>_.
     act_then retrieval_kind_name (\<lambda>fulltext.
     act_then (expect TLParen) (\<lambda>_.
     act_then (fuelled (\<lambda>n. items_rparen n retrieval_column [])) (\<lambda>columns.
     act_then (keyword ''with'') (\<lambda>_.
     act_then (expect TLParen) (\<lambda>_.
     act_then (fuelled (\<lambda>n. items_rparen n retrieval_option [])) (\<lambda>options.
     act_then (act_return (retrieval_index fulltext columns options)) (\<lambda>(id_column, index).
       let d = \<lparr>rd_name = name, rd_table = table, rd_id_column = id_column, rd_index = index\<rparr>
       in act_then (act_return (map_err (validate_retrieval C d) (Query ''{error}''))) (\<lambda>_.
         act_return (Ok (CreateRetrievalIndex d if_not_exists)))))))))))))))"

definition parse_create :: "char_class \<Rightarrow> statement parser" where
  "parse_create C =
     when_kw ''table'' parse_create_table (
     when_kw ''index'' (\<lambda>cur. if \<not> peek_kw ''on'' cur then parse_retrieval_index C cur else parse_index_on False cur) (
     when_kw ''unique'' (act_then (keyword ''index'') (\<lambda>_. parse_index_on True)) (
     act_then next_tok (\<lambda>_. fail ''expected TABLE or INDEX after CREATE, found {other:?}''))))"

section \<open>\<^verbatim>\<open>INSERT\<close>, \<^verbatim>\<open>UPDATE\<close>, \<^verbatim>\<open>DELETE\<close>, \<^verbatim>\<open>DROP\<close>\<close>

definition target_column :: "col_name list \<Rightarrow> col_name parser" where
  "target_column acc = act_then ident (\<lambda>c. if c \<in> set acc then fail ''duplicate INSERT target column `{column}`'' else act_return (Ok c))"

definition insert_item :: "insert_value parser" where
  "insert_item = when_kw ''default'' (act_return (Ok Default)) (act_then value_tok (\<lambda>v. act_return (Ok (Literal v))))"

definition insert_row_values :: "insert_value list parser" where
  "insert_row_values = act_then (expect TLParen) (\<lambda>_. fuelled (\<lambda>n. items_rparen n (\<lambda>_. insert_item) []))"

fun literal_of :: "insert_value \<Rightarrow> val result" where
  "literal_of (Literal v) = Ok v"
| "literal_of Default = Panic"

definition inserted_rows :: "col_name \<Rightarrow> col_name list option \<Rightarrow> insert_value list list \<Rightarrow> statement result" where
  "inserted_rows table targets rows =
     (if targets \<noteq> None \<or> list_ex (\<lambda>row. Default \<in> set row) rows then Ok (InsertSchema table targets rows)
      else
        case rows of
          [row] \<Rightarrow> and_then (collect_results literal_of row) (\<lambda>vs. Ok (Insert table vs))
        | _ \<Rightarrow> and_then (collect_results (collect_results literal_of) rows) (\<lambda>vss. Ok (InsertMany table vss)))"

definition parse_insert :: "statement parser" where
  "parse_insert =
     act_then (keyword ''into'') (\<lambda>_.
     act_then ident (\<lambda>table.
     act_then (when_tok TLParen
         (act_then (fuelled (\<lambda>n. items_rparen n target_column [])) (\<lambda>cs. act_return (Ok (Some cs)))) (act_return (Ok None))) (\<lambda>targets.
       when_kw ''default''
         (act_then (keyword ''values'') (\<lambda>_.
            if targets \<noteq> None then fail ''DEFAULT VALUES cannot include a target-column list''
            else act_return (Ok (InsertSchema table (Some []) [[]]))))
         (act_then (keyword ''values'') (\<lambda>_.
          act_then (comma_list insert_row_values) (\<lambda>rows. act_return (inserted_rows table targets rows)))))))"

definition parse_update :: "statement parser" where
  "parse_update =
     act_then ident (\<lambda>table.
     act_then (keyword ''set'') (\<lambda>_.
     act_then ident (\<lambda>column.
     act_then (expect TEq) (\<lambda>_.
     act_then (when_kw ''default'' (act_return (Ok None)) (act_then value_tok (\<lambda>v. act_return (Ok (Some v))))) (\<lambda>set_value.
     act_then (keyword ''where'') (\<lambda>_.
     act_then parse_predicate (\<lambda>flt.
       act_return (Ok (case set_value of Some v \<Rightarrow> Update table column v flt | None \<Rightarrow> UpdateDefault table column flt)))))))))"

definition parse_drop :: "statement parser" where
  "parse_drop =
     when_kw ''index''
       (act_then (exists_clause False) (\<lambda>if_exists. act_then ident (\<lambda>name. act_return (Ok (DropRetrievalIndex name if_exists)))))
       (act_then (keyword ''table'') (\<lambda>_.
        act_then (exists_clause False) (\<lambda>if_exists.
        act_then ident (\<lambda>table. act_return (Ok (if if_exists then DropTableIfExists table else DropTable table))))))"

definition parse_delete :: "statement parser" where
  "parse_delete =
     act_then (keyword ''from'') (\<lambda>_.
     act_then ident (\<lambda>table.
     act_then (keyword ''where'') (\<lambda>_.
     act_then parse_predicate (\<lambda>flt. act_return (Ok (Delete table flt))))))"

section \<open>The parser\<close>

definition consume_optional_transaction :: "unit parser" where
  "consume_optional_transaction = when_kw ''transaction'' (act_return (Ok ())) (act_return (Ok ()))"

definition parse_explain :: "statement parser" where
  "parse_explain = when_kw ''select'' (act_then parse_select (\<lambda>s. act_return (Ok (Explain s)))) (act_then next_tok (\<lambda>_. fail ''EXPLAIN requires SELECT, found {other:?}''))"

definition parse_statement :: "char_class \<Rightarrow> statement parser" where
  "parse_statement C =
     when_kw ''explain'' parse_explain (
     when_kw ''begin'' (act_then consume_optional_transaction (\<lambda>_. act_return (Ok Begin))) (
     when_kw ''commit'' (act_then consume_optional_transaction (\<lambda>_. act_return (Ok Commit))) (
     when_kw ''rollback'' (act_then consume_optional_transaction (\<lambda>_. act_return (Ok Rollback))) (
     when_kw ''create'' (parse_create C) (
     when_kw ''insert'' parse_insert (
     when_kw ''select'' parse_select (
     when_kw ''update'' parse_update (
     when_kw ''delete'' parse_delete (
     when_kw ''drop'' parse_drop (
     act_then next_tok (\<lambda>t. case t of TWord _ \<Rightarrow> fail ''unsupported statement `{}`'' | _ \<Rightarrow> fail ''unsupported statement token {other:?}'')))))))))))"

fun skip_semicolons :: "nat \<Rightarrow> unit parser" where
  "skip_semicolons 0 = act_return Panic"
| "skip_semicolons (Suc n) = when_tok TSemicolon (skip_semicolons n) (act_return (Ok ()))"

definition parse :: "char_class \<Rightarrow> chars \<Rightarrow> statement result" where
  "parse C sql =
     and_then (tokenize C sql) (\<lambda>toks.
       fst (act_then (parse_statement C) (\<lambda>stmt.
         act_then (fuelled skip_semicolons) (\<lambda>_.
         act_then finish (\<lambda>_. act_return (Ok stmt)))) \<lparr>cur_toks = map fst toks, cur_nodes = 0\<rparr>))"

end
