(* ===== verification/Sql_Bind.thy ===== *)
theory Sql_Bind
  imports Sql_Lexer
begin

text \<open>
  Binding parameters is safe: substituting literals into the text and then tokenizing gives the tokens of the statement with each
  placeholder replaced by one literal token, whatever the values contain. The statement is compared with a template lexer that knows the
  placeholder; it rejects a placeholder that touches a word, a number or a string, where the two would run together.
\<close>

section \<open>Characters of literals\<close>

lemma to_chars_append [simp]: "to_chars (xs @ ys) = to_chars xs @ to_chars ys" "to_chars (x # xs) = ucast x # to_chars xs" "to_chars [] = []"
  by (simp_all add: to_chars_def)

lemma digit_char: "n < 10 \<Longrightarrow> is_digit (ucast (of_nat (48 + n) :: u8)) \<and> unat (ucast (of_nat (48 + n) :: u8) - 48 :: u32) = n"
proof -
  assume "n < 10"
  then have "n \<in> {0, 1, 2, 3, 4, 5, 6, 7, 8, 9}" by auto
  then show ?thesis by (auto simp: is_digit_def)
qed

lemma digits_value_snoc: "digits_value (s @ [d]) = 10 * digits_value s + unat (d - 48)"
  by (simp add: digits_value_def)

lemma show_nat_digits:
  "list_all is_digit (to_chars (show_nat n)) \<and> digits_value (to_chars (show_nat n)) = n \<and> show_nat n \<noteq> []"
proof (induction n rule: less_induct)
  case (less n)
  show ?case
  proof (cases "n < 10")
    case True
    with digit_char [OF True] show ?thesis by (simp add: show_nat.simps [of n] digits_value_def)
  next
    case False
    then have "n div 10 < n" "n mod 10 < 10" by simp_all
    with less.IH [of "n div 10"] digit_char [of "n mod 10"] False show ?thesis
      by (simp add: show_nat.simps [of n] digits_value_snoc)
  qed
qed

lemma digits_value_zeros: "digits_value (replicate k 48 @ s) = digits_value s"
  by (induction k) (simp_all add: digits_value_def)

lemma takeWhile_all: "list_all P s \<Longrightarrow> rest = [] \<or> \<not> P (hd rest) \<Longrightarrow> takeWhile P (s @ rest) = s \<and> dropWhile P (s @ rest) = rest"
  by (cases rest; induction s) auto

section \<open>Literal tokens\<close>

fun literal_token :: "val \<Rightarrow> tok" where
  "literal_token VNull = TWord (to_chars (ascii ''NULL''))"
| "literal_token (VInt i) = TInt i"
| "literal_token (VDecimal m) = TDec m"
| "literal_token (VText s) = TStr (utf8_chars s)"
| "literal_token (VBlob b) = TStr []"

text \<open>What may follow a placeholder, and the characters a literal can start with.\<close>

definition ends_literal :: "char_class \<Rightarrow> chars \<Rightarrow> bool" where
  "ends_literal C rest \<longleftrightarrow> rest = [] \<or> \<not> is_word_char C (hd rest) \<and> hd rest \<notin> {46, 39, 63}"

lemma digit_word_char: "ascii_classes C \<Longrightarrow> is_digit c \<Longrightarrow> is_word_char C c"
proof -
  assume C: "ascii_classes C" "is_digit c"
  then have "c < 128" by (auto simp: is_digit_def word_less_nat_alt word_le_nat_alt)
  with C show ?thesis by (simp add: ascii_classes_def is_word_char_def)
qed

lemma ascii_class:
  assumes "ascii_classes C" "c < 128"
  shows "cc_whitespace C c \<longleftrightarrow> 9 \<le> c \<and> c \<le> 13 \<or> c = 32" "cc_alphanumeric C c \<longleftrightarrow> is_digit c \<or> is_letter c"
  using assms by (simp_all add: ascii_classes_def)

lemma digit_less: "is_digit c \<Longrightarrow> c < 128"
  by (auto simp: is_digit_def word_less_nat_alt word_le_nat_alt)

lemma digit_step:
  assumes "ascii_classes C" "is_digit c"
  shows "\<not> cc_whitespace C c" "lex_punct depth c cs = None" "c \<notin> {39, 34, 96, 91, 45}"
proof -
  have "48 \<le> c" "c \<le> 57" using assms(2) by (simp_all add: is_digit_def)
  then show "\<not> cc_whitespace C c" using ascii_class(1) [OF assms(1) digit_less [OF assms(2)]] by (auto simp: word_le_nat_alt)
  show "lex_punct depth c cs = None" "c \<notin> {39, 34, 96, 91, 45}"
    using \<open>48 \<le> c\<close> \<open>c \<le> 57\<close> by (auto simp: lex_punct.simps)
qed

lemma read_string_escape:
  assumes "rest = [] \<or> hd rest \<noteq> 39"
  shows "read_string acc (concat (map (\<lambda>c. if c = 39 then [39, 39] else [c]) s) @ [39] @ rest) = Some (acc @ s, rest)"
proof (induction s arbitrary: acc)
  case Nil
  with assms show ?case by (cases rest) auto
qed auto

lemma parse_i64_show: "parse_i64 (sint i < 0) (to_chars (show_nat (nat \<bar>sint i\<bar>))) = Some i"
proof -
  have "- (2 ^ 63) \<le> sint i" "sint i < 2 ^ 63" using sint_range_size [of i] by (simp_all add: word_size)
  moreover have "to_chars (show_nat n) \<noteq> []" for n using show_nat_digits [of n] by (simp add: to_chars_def)
  ultimately show ?thesis using show_nat_digits [of "nat \<bar>sint i\<bar>"] by (auto simp: parse_i64_def Let_def)
qed

lemma decimal_mantissa_show:
  fixes m :: i128
  defines "mag \<equiv> nat \<bar>sint m\<bar>"
  shows "decimal_mantissa (to_chars (show_nat (mag div nat DECIMAL_DEN)))
      (to_chars (zero_pad DECIMAL_SCALE (show_nat (mag mod nat DECIMAL_DEN)))) (sint m < 0) = Some m"
proof -
  have r: "- (2 ^ 127) \<le> sint m" "sint m < 2 ^ 127" using sint_range_size [of m] by (simp_all add: word_size)
  then have mag: "mag \<le> 2 ^ 127" by (simp add: mag_def)
  have ne: "to_chars (show_nat n) \<noteq> []" for n using show_nat_digits [of n] by (simp add: to_chars_def)
  let ?q = "mag div 1000000" and ?r = "mag mod 1000000"
  have len: "length (show_nat ?r) \<le> 6" by (rule length_show_nat) simp_all
  let ?f = "to_chars (zero_pad 6 (show_nat ?r))"
  have f: "length ?f = 6" using len by (simp add: to_chars_def zero_pad_def)
  have fv: "digits_value ?f = ?r"
    using show_nat_digits [of ?r] digits_value_zeros [of _ "to_chars (show_nat ?r)"] by (simp add: zero_pad_def to_chars_def)
  have "?q < 2 ^ 128" "?r < 2 ^ 128" "?q * 1000000 < 2 ^ 128" "?q * 1000000 + ?r = mag" using mag by (auto intro: le_less_trans [OF div_le_dividend])
  note big = this
  have p: "parse_u128 (to_chars (show_nat ?q)) = Some ?q" "parse_u128 ?f = Some ?r"
    using show_nat_digits [of ?q] ne big fv f by (auto simp: parse_u128_def)
  have lt: "mag < 2 ^ 128" using mag by simp
  have neg: "mag = nat (- sint m)" if "sint m < 0" using that by (simp add: mag_def)
  have "- of_nat mag = m" if "sint m < 0"
    using that neg by (simp add: of_nat_nat)
  moreover have "of_nat mag = m" if "\<not> sint m < 0" using that by (simp add: mag_def of_nat_nat)
  moreover have "mag < 2 ^ 127" if "\<not> sint m < 0" using that r by (simp add: mag_def nat_less_iff)
  moreover have "word_of_int (- (2 ^ 127)) = m" if "sint m < 0" "mag = 2 ^ 127"
  proof -
    have "sint m = - (2 ^ 127)" using that neg by simp
    moreover have "word_of_int (sint m) = m" by simp
    ultimately show ?thesis by (simp only:)
  qed
  ultimately show ?thesis
    using mag big lt f by (auto simp: decimal_mantissa_def DECIMAL_DEN_def DECIMAL_SCALE_def p Let_def)
qed

lemma lex_digits:
  assumes C: "ascii_classes C" and s: "list_all is_digit s" "s \<noteq> []" and run: "read_digits False (s @ rest) = Ok (t, rest')"
  shows "\<exists>c cs. s = c # cs \<and> lex_step C depth c (cs @ rest) = Ok (Some t, depth, rest')"
proof -
  from s obtain c cs where c: "s = c # cs" "is_digit c" by (cases s) auto
  with digit_step [OF C c(2)] run show ?thesis by (auto simp: lex_step_def read_number_def)
qed

lemma lex_minus:
  assumes C: "ascii_classes C" and run: "read_digits True cs = Ok (t, rest)"
  shows "lex_step C depth 45 cs = Ok (Some t, depth, rest)"
proof -
  have "\<not> cc_whitespace C 45" using ascii_class(1) [OF C, of 45] by simp
  then show ?thesis using run by (simp add: lex_step_def read_number_def lex_punct.simps)
qed

lemma lex_signed:
  assumes C: "ascii_classes C" and s: "list_all is_digit s" "s \<noteq> []" and run: "read_digits negative (s @ rest) = Ok (t, rest')"
  shows "\<exists>c cs. (if negative then [45] else []) @ s = c # cs \<and> lex_step C depth c (cs @ rest) = Ok (Some t, depth, rest')"
  using lex_digits [OF C s] lex_minus [OF C, of "s @ rest" t rest'] run by (cases negative) auto

lemma lex_literal:
  assumes C: "ascii_classes C" and v: "value_to_sql_literal v = Ok lit" and rest: "ends_literal C rest"
  shows "\<exists>c cs. lit = c # cs \<and> lex_step C depth c (cs @ rest) = Ok (Some (literal_token v), depth, rest)"
proof (cases v)
  case VNull
  have N: "is_word_char C 78" "is_word_char C 85" "is_word_char C 76" "\<not> cc_whitespace C 78"
    using ascii_class [OF C, of 78] ascii_class [OF C, of 85] ascii_class [OF C, of 76] by (simp_all add: is_word_char_def is_letter_def)
  have tail: "takeWhile (is_word_char C) rest = []" "dropWhile (is_word_char C) rest = rest"
    using rest by (cases rest; simp add: ends_literal_def)+
  have "lit = [78, 85, 76, 76]" using v VNull by (simp add: ascii_def)
  with N tail VNull show ?thesis by (simp add: lex_step_def lex_punct.simps is_digit_def ascii_def)
next
  case (VInt i)
  let ?s = "to_chars (show_nat (nat \<bar>sint i\<bar>))"
  have s: "list_all is_digit ?s" "?s \<noteq> []" using show_nat_digits [of "nat \<bar>sint i\<bar>"] by (simp_all add: to_chars_def)
  have nd: "rest = [] \<or> \<not> is_digit (hd rest) \<and> hd rest \<noteq> 46" using rest digit_word_char [OF C] by (auto simp: ends_literal_def)
  then have w: "takeWhile is_digit (?s @ rest) = ?s" "dropWhile is_digit (?s @ rest) = rest" using takeWhile_all [OF s(1)] by auto
  have "read_digits (sint i < 0) (?s @ rest) = Ok (TInt i, rest)"
    using s nd parse_i64_show [of i] by (auto simp: read_digits_def w)
  from lex_signed [OF C s this] VInt v show ?thesis by (auto simp: to_chars_def)
next
  case (VDecimal m)
  let ?q = "to_chars (show_nat (nat \<bar>sint m\<bar> div nat DECIMAL_DEN))"
  let ?f = "to_chars (zero_pad DECIMAL_SCALE (show_nat (nat \<bar>sint m\<bar> mod nat DECIMAL_DEN)))"
  have zeros: "list_all is_digit (replicate k 48)" for k by (induction k) (simp_all add: is_digit_def)
  have s: "list_all is_digit ?q" "?q \<noteq> []" "list_all is_digit ?f" "?f \<noteq> []"
    using show_nat_digits [of "nat \<bar>sint m\<bar> div nat DECIMAL_DEN"] show_nat_digits [of "nat \<bar>sint m\<bar> mod nat DECIMAL_DEN"] zeros
    by (simp_all add: to_chars_def zero_pad_def)
  have dot: "\<not> is_digit 46" by (simp add: is_digit_def)
  have nd: "rest = [] \<or> \<not> is_digit (hd rest)" using rest digit_word_char [OF C] by (auto simp: ends_literal_def)
  have w: "takeWhile is_digit (?q @ 46 # ?f @ rest) = ?q" "dropWhile is_digit (?q @ 46 # ?f @ rest) = 46 # ?f @ rest"
    "takeWhile is_digit (?f @ rest) = ?f" "dropWhile is_digit (?f @ rest) = rest"
    using takeWhile_all [OF s(1), of "46 # ?f @ rest"] takeWhile_all [OF s(3) nd] dot by simp_all
  have run: "read_digits (sint m < 0) (?q @ (46 # ?f @ rest)) = Ok (TDec m, rest)"
    using s decimal_mantissa_show [of m] by (simp add: read_digits_def w)
  obtain c cs where c: "(if sint m < 0 then [45] else []) @ ?q = c # cs" "lex_step C depth c (cs @ 46 # ?f @ rest) = Ok (Some (TDec m), depth, rest)"
    using lex_signed [OF C s(1,2) run] by blast
  have "lit = ((if sint m < 0 then [45] else []) @ ?q) @ 46 # ?f" using v VDecimal by (auto simp: Let_def to_chars_def)
  then have "lit = c # (cs @ 46 # ?f)" unfolding c(1) by simp
  with c(2) VDecimal show ?thesis by simp
next
  case (VText s)
  have "\<not> cc_whitespace C 39" using ascii_class(1) [OF C, of 39] by simp
  moreover have "rest = [] \<or> hd rest \<noteq> 39" using rest by (auto simp: ends_literal_def)
  moreover define e where "e = concat (map (\<lambda>c. if c = 39 then [39, 39] else [c]) (utf8_chars s)) @ [39]"
  ultimately have "lex_step C depth 39 (e @ rest) = Ok (Some (TStr (utf8_chars s)), depth, rest)"
    using read_string_escape [of rest "[]" "utf8_chars s"] by (simp add: lex_step_def lex_punct.simps)
  moreover have "lit = 39 # e" using v VText by (simp add: e_def)
  ultimately show ?thesis using VText by simp
next
  case (VBlob b)
  with v show ?thesis by simp
qed

section \<open>Templates\<close>

datatype item = Token tok | Hole

text \<open>A token that cannot run together with a literal that follows it at once.\<close>

fun separates :: "tok option \<Rightarrow> bool" where
  "separates (Some (TWord _)) = False"
| "separates (Some (TInt _)) = False"
| "separates (Some (TDec _)) = False"
| "separates (Some (TStr _)) = False"
| "separates _ = True"

function template :: "char_class \<Rightarrow> nat \<Rightarrow> chars \<Rightarrow> item list option" where
  "template C depth [] = Some []"
| "template C depth (c # cs) =
     (if c = 63 then (if ends_literal C cs then map_option (Cons Hole) (template C depth cs) else None)
      else
        case lex_step C depth c cs of
          Ok (t, depth', rest) \<Rightarrow>
            if rest \<noteq> [] \<and> hd rest = 63 \<and> \<not> separates t then None
            else map_option (\<lambda>items. case t of None \<Rightarrow> items | Some t \<Rightarrow> Token t # items) (template C depth' rest)
        | _ \<Rightarrow> None)"
  by pat_completeness auto

termination
  by (relation "measure (\<lambda>(C, depth, cs). length cs)") (auto dest: lex_step_shorter)

fun fill :: "item list \<Rightarrow> val list \<Rightarrow> tok list" where
  "fill [] params = []"
| "fill (Token t # items) params = t # fill items params"
| "fill (Hole # items) params = (case params of p # ps \<Rightarrow> literal_token p # fill items ps | [] \<Rightarrow> [])"

section \<open>Tokens end where they did\<close>

text \<open>
  The text after a token may be replaced: what the token needs to know is whether it goes on, and a literal in the place of a placeholder
  never continues a token that separates.
\<close>

definition replaces :: "char_class \<Rightarrow> tok option \<Rightarrow> chars \<Rightarrow> chars \<Rightarrow> bool" where
  "replaces C t rest rest' \<longleftrightarrow>
     (if rest = [] then rest' = [] else rest' \<noteq> [] \<and> (hd rest' = hd rest \<or> separates t \<and> (is_word_char C (hd rest') \<or> hd rest' \<in> {39, 45})))"

lemma read_string_replace:
  assumes "read_string acc cs = Some (s, rest)" "replaces C (Some (TStr s)) rest rest'"
  shows "\<exists>p. cs = p @ rest \<and> read_string acc (p @ rest') = Some (s, rest') \<and>
    (\<forall>params n. bind_loop params (Some 39) n (p @ rest) = and_then (bind_loop params None n rest) (\<lambda>(out, m). Ok (p @ out, m)))"
  using assms
proof (induction acc cs rule: read_string.induct)
  case (2 acc c cs)
  show ?case
  proof (cases "c = 39")
    case False
    with 2 obtain p where p: "cs = p @ rest" "read_string (acc @ [c]) (p @ rest') = Some (s, rest')"
      "\<And>params n. bind_loop params (Some 39) n (p @ rest) = and_then (bind_loop params None n rest) (\<lambda>(out, m). Ok (p @ out, m))" by auto
    show ?thesis
      by (rule exI [of _ "c # p"]) (use False p in \<open>auto simp: and_then_assoc case_prod_unfold\<close>)
  next
    case c: True
    consider (quote) cs' where "cs = 39 # cs'" | (close) "cs = [] \<or> hd cs \<noteq> 39" by (cases cs) auto
    then show ?thesis
    proof cases
      case quote
      with 2(1) [OF c quote] "2.prems" c obtain p where p: "cs' = p @ rest" "read_string (acc @ [39]) (p @ rest') = Some (s, rest')"
        "\<And>params n. bind_loop params (Some 39) n (p @ rest) = and_then (bind_loop params None n rest) (\<lambda>(out, m). Ok (p @ out, m))" by auto
      show ?thesis
        by (rule exI [of _ "39 # 39 # p"]) (use c quote p in \<open>auto simp: and_then_assoc case_prod_unfold\<close>)
    next
      case close
      with "2.prems"(1) c have r: "rest = cs" "s = acc" by (auto split: list.splits if_splits)
      have "rest' = [] \<or> hd rest' \<noteq> 39" using "2.prems"(2) close r by (auto simp: replaces_def split: if_splits)
      then have "read_string acc (39 # rest') = Some (s, rest')" using r by (cases rest') auto
      moreover have "bind_loop params (Some 39) n (39 # cs) = and_then (bind_loop params None n cs) (\<lambda>(out, m). Ok ([39] @ out, m))" for params n
        using close by (cases cs) auto
      ultimately show ?thesis using c r by (intro exI [of _ "[39]"]) auto
    qed
  qed
qed simp

lemma read_ident_replace:
  assumes "read_ident C closing acc cs = Ok (s, rest)" "replaces C (Some (TIdent s)) rest rest'" "\<not> is_word_char C closing" "closing \<notin> {39, 45}"
  shows "\<exists>p. cs = p @ rest \<and> read_ident C closing acc (p @ rest') = Ok (s, rest') \<and>
    (\<forall>params n. bind_loop params (Some closing) n (p @ rest) = and_then (bind_loop params None n rest) (\<lambda>(out, m). Ok (p @ out, m)))"
  using assms
proof (induction C closing acc cs rule: read_ident.induct)
  case (2 C closing acc c cs)
  show ?case
  proof (cases "c = closing")
    case False
    with 2 obtain p where p: "cs = p @ rest" "read_ident C closing (acc @ [c]) (p @ rest') = Ok (s, rest')"
      "\<And>params n. bind_loop params (Some closing) n (p @ rest) = and_then (bind_loop params None n rest) (\<lambda>(out, m). Ok (p @ out, m))"
      by (auto split: if_splits)
    show ?thesis
      by (rule exI [of _ "c # p"]) (use False p "2.prems"(1) in \<open>auto simp: and_then_assoc case_prod_unfold\<close>)
  next
    case c: True
    consider (quote) cs' where "cs = closing # cs'" | (close) "cs = [] \<or> hd cs \<noteq> closing" by (cases cs) auto
    then show ?thesis
    proof cases
      case quote
      with 2(1) [OF c quote] "2.prems" c obtain p where p: "cs' = p @ rest" "read_ident C closing (acc @ [closing]) (p @ rest') = Ok (s, rest')"
        "\<And>params n. bind_loop params (Some closing) n (p @ rest) = and_then (bind_loop params None n rest) (\<lambda>(out, m). Ok (p @ out, m))" by auto
      show ?thesis
        by (rule exI [of _ "closing # closing # p"]) (use c quote p in \<open>auto simp: and_then_assoc case_prod_unfold\<close>)
    next
      case close
      with "2.prems"(1) c have r: "rest = cs" "s = acc" by (auto split: list.splits if_splits)
      have "rest' = [] \<or> hd rest' \<noteq> closing" using "2.prems"(2,3,4) close r by (auto simp: replaces_def split: if_splits)
      then have "read_ident C closing acc (closing # rest') = Ok (s, rest')" using r by (cases rest') auto
      moreover have "bind_loop params (Some closing) n (closing # cs) = and_then (bind_loop params None n cs) (\<lambda>(out, m). Ok ([closing] @ out, m))" for params n
        using close by (cases cs) auto
      ultimately show ?thesis using c r by (intro exI [of _ "[closing]"]) auto
    qed
  qed
qed simp

lemma bind_plain:
  assumes "\<forall>c \<in> set p. sql_quote_closing c = None \<and> c \<noteq> 63"
  shows "bind_loop params None n (p @ rest) = and_then (bind_loop params None n rest) (\<lambda>(out, m). Ok (p @ out, m))"
  using assms
proof (induction p)
  case Nil
  then show ?case by (cases "bind_loop params None n rest") auto
next
  case (Cons c p)
  then show ?case by (auto simp: and_then_assoc case_prod_unfold simp del: sql_quote_closing.simps)
qed

lemma plain_word:
  assumes "ascii_classes C" "is_word_char C c"
  shows "sql_quote_closing c = None \<and> c \<noteq> 63"
proof -
  have "\<not> is_word_char C k" if "k \<in> {39, 34, 96, 91, 63}" for k
    using ascii_class(2) [OF assms(1), of k] that by (auto simp: is_word_char_def is_digit_def is_letter_def)
  with assms(2) show ?thesis by (auto split: if_splits)
qed

lemma plain_digits:
  assumes "\<forall>c \<in> set p. is_digit c \<or> c = 45 \<or> c = 46"
  shows "\<forall>c \<in> set p. sql_quote_closing c = None \<and> c \<noteq> 63"
proof
  fix c
  assume "c \<in> set p"
  with assms have "is_digit c \<or> c = 45 \<or> c = 46" by blast
  then show "sql_quote_closing c = None \<and> c \<noteq> 63" by (auto simp: is_digit_def)
qed

text \<open>Two texts that look the same to a token that ends before them.\<close>

definition same_front :: "chars \<Rightarrow> chars \<Rightarrow> bool" where
  "same_front rest rest' \<longleftrightarrow> (rest = [] \<longleftrightarrow> rest' = []) \<and> (rest \<noteq> [] \<longrightarrow> hd rest' = hd rest)"

lemma while_replace:
  assumes "same_front (dropWhile P s) rest'"
  shows "takeWhile P (takeWhile P s @ rest') = takeWhile P s \<and> dropWhile P (takeWhile P s @ rest') = rest'"
proof -
  have "list_all P (takeWhile P s)" by (auto simp: list_all_iff dest: set_takeWhileD)
  moreover have "rest' = [] \<or> \<not> P (hd rest')"
    using assms hd_dropWhile [of P s] unfolding same_front_def by metis
  ultimately show ?thesis by (rule takeWhile_all)
qed

lemma read_digits_replace:
  assumes run: "read_digits negative ds = Ok (t, rest)" and front: "same_front rest rest'"
  shows "\<exists>p. ds = p @ rest \<and> read_digits negative (p @ rest') = Ok (t, rest') \<and> (\<forall>c \<in> set p. is_digit c \<or> c = 46)"
proof -
  let ?i = "takeWhile is_digit ds" and ?d = "dropWhile is_digit ds"
  have i: "?i \<noteq> []" "\<forall>c \<in> set ?i. is_digit c" using run by (auto simp: read_digits_def dest: set_takeWhileD)
  show ?thesis
  proof (cases "?d \<noteq> [] \<and> hd ?d = 46")
    case False
    with run obtain v where v: "parse_i64 negative ?i = Some v" "t = TInt v" "rest = ?d"
      unfolding read_digits_def Let_def by (auto simp: and_then_eq_Ok split: if_splits)
    have w: "takeWhile is_digit (?i @ rest') = ?i" "dropWhile is_digit (?i @ rest') = rest'" using while_replace front v(3) by auto
    have "read_digits negative (?i @ rest') = Ok (t, rest')"
      using False front v i unfolding read_digits_def Let_def w same_front_def by auto
    with v(3) i(2) show ?thesis by (intro exI [of _ ?i]) auto
  next
    case True
    let ?f = "takeWhile is_digit (tl ?d)"
    from True run obtain m where m: "?f \<noteq> []" "decimal_mantissa ?i ?f negative = Some m" "t = TDec m" "rest = dropWhile is_digit (tl ?d)"
      unfolding read_digits_def Let_def by (auto simp: and_then_eq_Ok split: if_splits)
    have ds: "ds = ?i @ 46 # ?f @ rest"
      using True m(4) takeWhile_dropWhile_id [of is_digit ds] takeWhile_dropWhile_id [of is_digit "tl ?d"] by (metis hd_Cons_tl)
    have w1: "takeWhile is_digit (?f @ rest') = ?f" "dropWhile is_digit (?f @ rest') = rest'" using while_replace front m(4) by auto
    have "\<not> is_digit 46" by (simp add: is_digit_def)
    then have w2: "takeWhile is_digit (?i @ 46 # ?f @ rest') = ?i" "dropWhile is_digit (?i @ 46 # ?f @ rest') = 46 # ?f @ rest'"
      using takeWhile_all [of is_digit ?i "46 # ?f @ rest'"] i(2) by (auto simp: list_all_iff)
    have "read_digits negative (?i @ 46 # ?f @ rest') = Ok (t, rest')"
      using i m(1,2,3) unfolding read_digits_def w2 by (simp add: w1)
    then have run': "read_digits negative ((?i @ 46 # ?f) @ rest') = Ok (t, rest')" by simp
    have "ds = (?i @ 46 # ?f) @ rest" using ds by simp
    moreover have "\<forall>c \<in> set (?i @ 46 # ?f). is_digit c \<or> c = 46" using i(2) by (auto dest: set_takeWhileD)
    ultimately show ?thesis using run' by blast
  qed
qed

lemma replaces_same: "replaces C t rest rest' \<Longrightarrow> \<not> separates t \<Longrightarrow> same_front rest rest'"
  by (auto simp: replaces_def same_front_def split: if_splits)

lemma read_digits_token: "read_digits negative ds = Ok (t, rest) \<Longrightarrow> \<not> separates (Some t)"
  by (auto simp: read_digits_def and_then_eq_Ok Let_def split: if_splits)

definition front_is :: "chars \<Rightarrow> u32 \<Rightarrow> bool" where
  "front_is cs c \<longleftrightarrow> cs \<noteq> [] \<and> hd cs = c"

lemma lex_operators:
  "lex_punct depth 60 cs = Some (Ok (if front_is cs 61 then (TLe, depth, tl cs) else if front_is cs 62 then (TNe, depth, tl cs) else (TLt, depth, cs)))"
  "lex_punct depth 62 cs = Some (Ok (if front_is cs 61 then (TGe, depth, tl cs) else (TGt, depth, cs)))"
  "lex_punct depth 33 cs = Some (if front_is cs 61 then Ok (TNe, depth, tl cs) else Err (Query ''expected `=` after `!`''))"
  by (cases cs; simp add: lex_punct.simps front_is_def)+

lemma lex_single: "c \<notin> {60, 62, 33} \<Longrightarrow> lex_punct depth c cs = Some (Ok (t, depth', rest)) \<Longrightarrow>
  rest = cs \<and> lex_punct depth c cs' = Some (Ok (t, depth', cs'))"
  unfolding lex_punct.simps by (simp split: if_split_asm)

lemma lex_punct_replace:
  assumes C: "ascii_classes C" and run: "lex_punct depth c cs = Some (Ok (t, depth', rest))" and rep: "replaces C (Some t) rest rest'"
  shows "\<exists>p. cs = p @ rest \<and> lex_punct depth c (p @ rest') = Some (Ok (t, depth', rest')) \<and>
    (\<forall>x \<in> set (c # p). sql_quote_closing x = None \<and> x \<noteq> 63)"
proof -
  have w: "\<not> is_word_char C 61" "\<not> is_word_char C 62"
    using ascii_class(2) [OF C, of 61] ascii_class(2) [OF C, of 62] by (simp_all add: is_word_char_def is_digit_def is_letter_def)
  have c: "sql_quote_closing c = None" "c \<noteq> 63" using run by (auto simp: lex_punct.simps split: if_splits)
  have front: "front_is rest' k \<Longrightarrow> front_is rest k" if "k \<in> {61, 62}" for k
    using rep that w by (auto simp: replaces_def front_is_def split: if_splits)
  have "(\<exists>k. cs = k # rest \<and> k \<in> {61, 62}) \<or> rest = cs \<and> c \<in> {60, 62} \<and> \<not> front_is cs 61 \<and> (c = 60 \<longrightarrow> \<not> front_is cs 62)"
    if "c = 60 \<or> c = 62 \<or> c = 33"
    using that run by (elim disjE; cases cs) (auto simp: lex_operators front_is_def split: if_splits)
  then consider (two) k where "cs = k # rest" "k \<in> {61, 62}" "c \<in> {60, 62, 33}"
    | (alone) "rest = cs" "c \<in> {60, 62}" "\<not> front_is cs 61" "c = 60 \<longrightarrow> \<not> front_is cs 62" | (single) "c \<notin> {60, 62, 33}"
    by blast
  then show ?thesis
  proof cases
    case two
    then have "lex_punct depth c ([k] @ rest') = Some (Ok (t, depth', rest'))" using run by (auto simp: lex_operators front_is_def)
    with two c show ?thesis by (intro exI [of _ "[k]"]) auto
  next
    case alone
    then have "lex_punct depth c rest' = Some (Ok (t, depth', rest'))" using run front by (auto simp: lex_operators)
    with alone c show ?thesis by (intro exI [of _ "[]"]) auto
  next
    case single
    from lex_single [OF single run] c show ?thesis by (intro exI [of _ "[]"]) auto
  qed
qed

lemma lex_replace:
  assumes C: "ascii_classes C" and run: "lex_step C depth c cs = Ok (t, depth', rest)" and rep: "replaces C t rest rest'" and c: "c \<noteq> 63"
  shows "\<exists>p. cs = p @ rest \<and> lex_step C depth c (p @ rest') = Ok (t, depth', rest') \<and>
    (\<forall>params n. bind_loop params None n (c # p @ rest) = and_then (bind_loop params None n rest) (\<lambda>(out, m). Ok (c # p @ out, m)))"
  using run
proof (cases rule: lex_step_cases)
  case space
  have "\<not> cc_whitespace C k" if "k \<in> {39, 34, 96, 91}" for k using ascii_class(1) [OF C, of k] that by auto
  with space(1) have "sql_quote_closing c = None" by (auto split: if_splits)
  with bind_plain [of "[c]"] c space show ?thesis by (intro exI [of _ "[]"]) (simp add: lex_step_def)
next
  case (punct tk)
  with lex_punct_replace [OF C punct(2)] rep obtain p where p: "cs = p @ rest" "lex_punct depth c (p @ rest') = Some (Ok (tk, depth', rest'))"
    "\<forall>x \<in> set (c # p). sql_quote_closing x = None \<and> x \<noteq> 63" by auto
  with bind_plain [OF p(3)] punct show ?thesis by (intro exI [of _ p]) (simp add: lex_step_def)
next
  case (string s)
  from read_string_replace [OF string(4)] rep string(5) obtain p where p: "cs = p @ rest" "read_string [] (p @ rest') = Some (s, rest')"
    "\<And>params n. bind_loop params (Some 39) n (p @ rest) = and_then (bind_loop params None n rest) (\<lambda>(out, m). Ok (p @ out, m))" by blast
  have "lex_step C depth c (p @ rest') = Ok (t, depth', rest')" using string p(2) by (simp add: lex_step_def lex_punct.simps)
  with p string(3) show ?thesis by (intro exI [of _ p]) (simp add: and_then_assoc case_prod_unfold)
next
  case (ident s)
  define closing where "closing = (if c = 91 then 93 else c)"
  have "\<not> is_word_char C k" if "k \<in> {34, 96, 93}" for k
    using ascii_class(2) [OF C, of k] that by (auto simp: is_word_char_def is_digit_def is_letter_def)
  note nw = this
  from ident(3) consider "c = 34" | "c = 96" | "c = 91" by blast
  then have cl: "\<not> is_word_char C closing" "closing \<notin> {39, 45}" "sql_quote_closing c = Some closing"
    by (cases; use nw in \<open>simp add: closing_def\<close>)+
  from read_ident_replace [OF ident(4) [folded closing_def] rep [unfolded ident(6)] cl(1,2)] obtain p where
    p: "cs = p @ rest" "read_ident C closing [] (p @ rest') = Ok (s, rest')"
      "\<And>params n. bind_loop params (Some closing) n (p @ rest) = and_then (bind_loop params None n rest) (\<lambda>(out, m). Ok (p @ out, m))" by blast
  have "lex_step C depth c (p @ rest') = Ok (t, depth', rest')"
    using ident p(2) [unfolded closing_def] by (auto simp: lex_step_def lex_punct.simps)
  with p cl(3) show ?thesis by (intro exI [of _ p]) (simp add: and_then_assoc case_prod_unfold del: sql_quote_closing.simps)
next
  case (number tk)
  show ?thesis
  proof (cases "c = 45")
    case True
    with number(5) have run: "read_digits True cs = Ok (tk, rest)" by (simp add: read_number_def)
    have "same_front rest rest'" using replaces_same [OF rep] read_digits_token [OF run] number(6) by simp
    from read_digits_replace [OF run this] obtain p where p: "cs = p @ rest" "read_digits True (p @ rest') = Ok (tk, rest')" "\<forall>c \<in> set p. is_digit c \<or> c = 46" by blast
    have "\<forall>x \<in> set (c # p). sql_quote_closing x = None \<and> x \<noteq> 63" using p(3) True by (intro plain_digits) auto
    from bind_plain [OF this] p number True show ?thesis
      by (intro exI [of _ p]) (simp add: lex_step_def lex_punct.simps read_number_def)
  next
    case False
    with number(5) have run: "read_digits False (c # cs) = Ok (tk, rest)" by (simp add: read_number_def)
    have "same_front rest rest'" using replaces_same [OF rep] read_digits_token [OF run] number(6) by simp
    from read_digits_replace [OF run this] obtain q where q: "c # cs = q @ rest" "read_digits False (q @ rest') = Ok (tk, rest')" "\<forall>c \<in> set q. is_digit c \<or> c = 46" by blast
    have "length rest < length (c # cs)" by (rule read_digits_shorter [OF run])
    with q(1) obtain p where p: "q = c # p" "cs = p @ rest" by (cases q) auto
    have "\<forall>x \<in> set (c # p). sql_quote_closing x = None \<and> x \<noteq> 63" using q(3) p(1) by (intro plain_digits) auto
    moreover have "lex_punct depth c (p @ rest') = None" using digit_step(2) [OF C] number(3) False by blast
    ultimately show ?thesis using bind_plain [of "c # p"] p q(2) number False
      by (intro exI [of _ p]) (simp add: lex_step_def read_number_def)
  qed
next
  case word
  let ?w = "is_word_char C"
  define p where "p = takeWhile ?w cs"
  have cs: "cs = p @ rest" "rest = dropWhile ?w cs" using word(3,7) by (simp_all add: p_def)
  have "same_front rest rest'" using replaces_same [OF rep] word(6) by simp
  then have r: "takeWhile ?w (p @ rest') = p" "dropWhile ?w (p @ rest') = rest'" using while_replace cs(2) p_def by auto
  have "\<forall>x \<in> set (c # p). ?w x" using word(3) by (auto simp: p_def dest: set_takeWhileD)
  then have plain: "\<forall>x \<in> set (c # p). sql_quote_closing x = None \<and> x \<noteq> 63" using plain_word [OF C] by blast
  have "lex_punct depth c (p @ rest') = None" using word(2) by (auto simp: lex_punct.simps split: if_splits)
  moreover have "t = Some (TWord (c # p))" using word(3,6) by (simp add: p_def)
  ultimately have "lex_step C depth c (p @ rest') = Ok (t, depth', rest')" using word(1,3,4,5,8) r by (simp add: lex_step_def)
  moreover have "bind_loop params None n (c # p @ rest) = and_then (bind_loop params None n rest) (\<lambda>(out, m). Ok (c # p @ out, m))" for params n
    using bind_plain [OF plain] by simp
  ultimately show ?thesis using cs(1) by blast
qed

section \<open>Binding is safe\<close>

text \<open>What binding does to the front of a text: nothing, unless the text starts with a placeholder.\<close>

definition bound_front :: "char_class \<Rightarrow> chars \<Rightarrow> chars \<Rightarrow> bool" where
  "bound_front C cs out \<longleftrightarrow> (cs = [] \<longleftrightarrow> out = []) \<and>
     (cs \<noteq> [] \<longrightarrow> (if hd cs = 63 then is_word_char C (hd out) \<or> hd out \<in> {39, 45} else hd out = hd cs))"

lemma literal_front:
  assumes "ascii_classes C" "value_to_sql_literal v = Ok lit"
  shows "lit \<noteq> [] \<and> (is_word_char C (hd lit) \<or> hd lit \<in> {39, 45})"
proof -
  have d: "show_nat n \<noteq> [] \<and> is_word_char C (ucast (hd (show_nat n)))" for n
    using show_nat_digits [of n] digit_word_char [OF assms(1)] by (cases "show_nat n") auto
  have "is_word_char C 78" using ascii_class(2) [OF assms(1), of 78] by (simp add: is_word_char_def is_letter_def)
  with assms(2) d show ?thesis by (cases v) (auto simp: ascii_def Let_def to_chars_def hd_append hd_map)
qed

lemma bound_front_loop:
  assumes "ascii_classes C" "bind_loop params None n cs = Ok (out, m)"
  shows "bound_front C cs out"
proof (cases cs)
  case Nil
  with assms show ?thesis by (simp add: bound_front_def)
next
  case (Cons c cs')
  show ?thesis
  proof (cases "c = 63")
    case True
    with assms(2) Cons obtain v lit out' where "value_to_sql_literal v = Ok lit" "out = lit @ out'" by (auto simp: and_then_eq_Ok)
    with literal_front [OF assms(1) this(1)] True Cons show ?thesis by (simp add: bound_front_def)
  next
    case False
    with assms(2) Cons show ?thesis by (auto simp: bound_front_def and_then_eq_Ok split: if_splits)
  qed
qed

lemma bound_tokens:
  assumes "ascii_classes C" "template C depth cs = Some items" "bind_loop params None n cs = Ok (out, m)"
  shows "\<exists>ts. tokenize_from C depth pos out = Ok ts \<and> map fst ts = fill items (drop n params)"
  using assms
proof (induction C depth cs arbitrary: items n out pos rule: template.induct)
  case (2 C depth c cs)
  note C = "2.prems"(1)
  show ?case
  proof (cases "c = 63")
    case True
    with "2.prems"(2) obtain items' where i: "ends_literal C cs" "template C depth cs = Some items'" "items = Hole # items'"
      by (auto split: if_splits)
    from "2.prems"(3) True obtain v lit out' where o: "elem_get params n = Some v" "value_to_sql_literal v = Ok lit"
      "bind_loop params None (n + 1) cs = Ok (out', m)" "out = lit @ out'" by (auto simp: and_then_eq_Ok)
    have "ends_literal C out'" using i(1) bound_front_loop [OF C o(3)] by (auto simp: ends_literal_def bound_front_def split: if_splits)
    from lex_literal [OF C o(2) this] obtain x xs where x: "lit = x # xs" "lex_step C depth x (xs @ out') = Ok (Some (literal_token v), depth, out')" by blast
    from "2.IH"(1) [OF True i(1) C i(2) o(3)] obtain ts where
      ts: "tokenize_from C depth (pos + (length (x # xs @ out') - length out')) out' = Ok ts" "map fst ts = fill items' (drop (n + 1) params)" by blast
    have "drop n params = v # drop (n + 1) params" using o(1) by (auto simp: elem_get_def Cons_nth_drop_Suc split: if_splits)
    with ts x i(3) o(4) show ?thesis by simp
  next
    case False
    with "2.prems"(2) obtain t depth' rest items' where s: "lex_step C depth c cs = Ok (t, depth', rest)"
      "\<not> (rest \<noteq> [] \<and> hd rest = 63 \<and> \<not> separates t)" "template C depth' rest = Some items'"
      "items = (case t of None \<Rightarrow> items' | Some t \<Rightarrow> Token t # items')"
      by (auto split: result.splits if_splits)
    have "replaces C t rest rest" by (simp add: replaces_def)
    from lex_replace [OF C s(1) this False] obtain p where p: "cs = p @ rest"
      "bind_loop params None n (c # cs) = and_then (bind_loop params None n rest) (\<lambda>(out, m). Ok (c # p @ out, m))" by blast
    have "and_then (bind_loop params None n rest) (\<lambda>(out, m). Ok (c # p @ out, m)) = Ok (out, m)" using "2.prems"(3) p(2) by (simp only:)
    then obtain out' where out: "bind_loop params None n rest = Ok (out', m)" "out = c # p @ out'" by (auto simp: and_then_eq_Ok)
    have "replaces C t rest out'" using s(2) bound_front_loop [OF C out(1)] by (auto simp: bound_front_def replaces_def split: if_splits)
    from lex_replace [OF C s(1) this False] p(1) have step: "lex_step C depth c (p @ out') = Ok (t, depth', out')" by auto
    from "2.IH"(2) [OF False s(1) refl refl s(2) C s(3) out(1)] obtain ts where
      "tokenize_from C depth' (pos + (length (c # p @ out') - length out')) out' = Ok ts" "map fst ts = fill items' (drop n params)" by blast
    then show ?thesis unfolding out(2) using step s(4) by (cases t) auto
  qed
qed simp

text \<open>
  C13: Parameters cannot change the structure of a statement. Substituting the literals into the text and tokenizing the result gives the
  tokens of the statement with each placeholder replaced by exactly one token that holds the bound value, whatever quotes, semicolons or
  keywords a text parameter contains; no other token changes. The placeholders must not touch a word, a number or a string.
\<close>

theorem bind_injection_safe:
  assumes "ascii_classes C" "template C 0 sql = Some items" "bind_params sql params = Ok out"
  shows "\<exists>ts. tokenize C out = Ok ts \<and> map fst ts = fill items params"
proof -
  from assms(3) obtain m where "bind_loop params None 0 sql = Ok (out, m)" by (auto simp: bind_params_def and_then_eq_Ok split: if_splits)
  from bound_tokens [OF assms(1,2) this, of 0] show ?thesis by (simp add: tokenize_def)
qed

definition ascii_only :: char_class where
  "ascii_only = \<lparr>cc_whitespace = (\<lambda>c. 9 \<le> c \<and> c \<le> 13 \<or> c = 32), cc_alphanumeric = (\<lambda>c. is_digit c \<or> is_letter c),
     cc_control = (\<lambda>c. c < 32 \<or> c = 127)\<rparr>"

lemma ascii_only_classes: "ascii_classes ascii_only"
  by (simp add: ascii_classes_def ascii_only_def)

theorem bind_injection_safe_witness:
  "bind_params (to_chars (ascii ''a=?;'')) [VText (ascii ''x'' @ [39] @ ascii '' OR a='')] = Ok (to_chars (ascii ''a='' @ [39] @ ascii ''x'' @ [39, 39] @ ascii '' OR a='' @ [39] @ ascii '';'')) \<and>
   (\<exists>ts. tokenize ascii_only (to_chars (ascii ''a='' @ [39] @ ascii ''x'' @ [39, 39] @ ascii '' OR a='' @ [39] @ ascii '';'')) = Ok ts \<and>
     map fst ts = [TWord [97], TEq, TStr (to_chars (ascii ''x'' @ [39] @ ascii '' OR a='')), TSemicolon])"
proof -
  have t: "template ascii_only 0 (to_chars (ascii ''a=?;'')) = Some [Token (TWord [97]), Token TEq, Hole, Token TSemicolon]"
    by code_simp
  have b: "bind_params (to_chars (ascii ''a=?;'')) [VText (ascii ''x'' @ [39] @ ascii '' OR a='')] =
      Ok (to_chars (ascii ''a='' @ [39] @ ascii ''x'' @ [39, 39] @ ascii '' OR a='' @ [39] @ ascii '';''))"
    by code_simp
  have f: "fill [Token (TWord [97]), Token TEq, Hole, Token TSemicolon] [VText (ascii ''x'' @ [39] @ ascii '' OR a='')] =
      [TWord [97], TEq, TStr (to_chars (ascii ''x'' @ [39] @ ascii '' OR a='')), TSemicolon]"
    by code_simp
  from bind_injection_safe [OF ascii_only_classes t b] show ?thesis unfolding f using b by simp
qed

section \<open>When binding succeeds\<close>

fun bindable :: "val \<Rightarrow> bool" where
  "bindable (VBlob _) = False"
| "bindable _ = True"

lemma literal_bindable: "(\<exists>lit. value_to_sql_literal v = Ok lit) \<longleftrightarrow> bindable v"
  by (cases v) auto

lemma used_params: "n < length params \<Longrightarrow> take (Suc k) (drop n params) = params ! n # take k (drop (Suc n) params)"
  by (simp add: Cons_nth_drop_Suc [symmetric])

lemma bind_loop_step:
  "bind_loop params (Some q) n (c # cs) =
     (if c \<noteq> q then and_then (bind_loop params (Some q) n cs) (\<lambda>(out, m). Ok (c # out, m))
      else if front_is cs q then and_then (bind_loop params (Some q) n (tl cs)) (\<lambda>(out, m). Ok (q # q # out, m))
      else and_then (bind_loop params None n cs) (\<lambda>(out, m). Ok (q # out, m)))"
  "count_loop (Some q) (c # cs) =
     (if c \<noteq> q then count_loop (Some q) cs else if front_is cs q then count_loop (Some q) (tl cs) else count_loop None cs)"
  "sql_quote_closing c = Some q \<Longrightarrow> bind_loop params None n (c # cs) = and_then (bind_loop params (Some q) n cs) (\<lambda>(out, m). Ok (c # out, m))"
  "sql_quote_closing c = Some q \<Longrightarrow> count_loop None (c # cs) = count_loop (Some q) cs"
  "sql_quote_closing c = None \<Longrightarrow> c \<noteq> 63 \<Longrightarrow> bind_loop params None n (c # cs) = and_then (bind_loop params None n cs) (\<lambda>(out, m). Ok (c # out, m))"
  "sql_quote_closing c = None \<Longrightarrow> c \<noteq> 63 \<Longrightarrow> count_loop None (c # cs) = count_loop None cs"
  by (cases cs; simp add: front_is_def)+

definition uses_params :: "val list \<Rightarrow> nat \<Rightarrow> nat \<Rightarrow> (chars \<times> nat) result \<Rightarrow> bool" where
  "uses_params params n k r \<longleftrightarrow>
     (case r of
        Ok (out, m) \<Rightarrow> m = n + k \<and> m \<le> length params \<and> list_all bindable (take k (drop n params))
      | Err e \<Rightarrow> n + k > length params \<or> \<not> list_all bindable (drop n params)
      | Panic \<Rightarrow> False)"

lemma uses_params_prefix: "uses_params params n k r \<Longrightarrow> uses_params params n k (and_then r (\<lambda>(out, m). Ok (p @ out, m)))"
  by (auto simp: uses_params_def split: result.splits)

lemmas uses_params_step = uses_params_prefix [of _ _ _ _ "[c]", simplified] uses_params_prefix [of _ _ _ _ "[c, c]", simplified] for c

lemma uses_params_hole:
  assumes "uses_params params (n + 1) k r" "n < length params" "value_to_sql_literal (params ! n) = Ok lit"
  shows "uses_params params n (Suc k) (and_then r (\<lambda>(out, m). Ok (lit @ out, m)))"
proof -
  have "drop n params = params ! n # drop (n + 1) params" using assms(2) by (simp add: Cons_nth_drop_Suc)
  moreover have "bindable (params ! n)" using literal_bindable assms(3) by blast
  ultimately show ?thesis using assms(1) by (auto simp: uses_params_def split: result.splits)
qed

lemma bind_loop_exact:
  assumes "n \<le> length params"
  shows "uses_params params n (count_loop quoted cs) (bind_loop params quoted n cs)"
  using assms
proof (induction "length cs" arbitrary: quoted n cs rule: less_induct)
  case less
  show ?case
  proof (cases cs)
    case Nil
    with less.prems show ?thesis by (simp add: uses_params_def)
  next
    case (Cons c cs')
    then have IH: "n' \<le> length params \<Longrightarrow> length cs'' \<le> length cs' \<Longrightarrow> uses_params params n' (count_loop q cs'') (bind_loop params q n' cs'')" for n' q cs''
      using less.hyps by simp
    show ?thesis
    proof (cases quoted)
      case (Some q)
      with Cons less.prems show ?thesis
        by (auto simp: bind_loop_step(1,2) simp del: bind_loop.simps count_loop.simps intro!: uses_params_step IH)
    next
      case None
      consider (quote) q where "sql_quote_closing c = Some q" | (plain) "sql_quote_closing c = None" "c \<noteq> 63" | (hole) "c = 63"
        by (cases "sql_quote_closing c") blast+
      then show ?thesis
      proof cases
        case (quote q)
        with Cons None less.prems show ?thesis
          by (simp add: bind_loop_step(3,4) uses_params_step IH del: bind_loop.simps count_loop.simps sql_quote_closing.simps)
      next
        case plain
        with Cons None less.prems show ?thesis
          by (simp add: bind_loop_step(5,6) uses_params_step IH del: bind_loop.simps count_loop.simps sql_quote_closing.simps)
      next
        case hole
        show ?thesis
        proof (cases "n < length params")
          case False
          with hole Cons None show ?thesis by (simp add: elem_get_def uses_params_def)
        next
          case n: True
          have e: "elem_get params n = Some (params ! n)" using n by (simp add: elem_get_def)
          have d: "drop n params = params ! n # drop (n + 1) params" using n by (simp add: Cons_nth_drop_Suc)
          show ?thesis
          proof (cases "value_to_sql_literal (params ! n)")
            case (Ok lit)
            with uses_params_hole [OF IH [of "n + 1" cs' None] n] hole Cons None n e show ?thesis by simp
          next
            case (Err x)
            then have "\<not> bindable (params ! n)" using literal_bindable by (metis result.distinct(1))
            with Err hole Cons None e d show ?thesis by (simp add: uses_params_def)
          next
            case Panic
            then show ?thesis by (cases "params ! n") auto
          qed
        qed
      qed
    qed
  qed
qed

text \<open>
  Binding succeeds exactly when the number of parameters is the number of placeholders that \<^verbatim>\<open>parameter_count\<close> reports and no parameter is a
  blob; otherwise it is an error, never a panic.
\<close>

theorem bind_params_exact:
  "((\<exists>out. bind_params sql params = Ok out) \<longleftrightarrow> length params = parameter_count sql \<and> list_all bindable params) \<and> bind_params sql params \<noteq> Panic"
  using bind_loop_exact [of 0 params None sql]
  by (auto simp: uses_params_def bind_params_def parameter_count_def split: result.splits if_splits)

end
