(* ===== verification/Sql_Parse_Laws.thy ===== *)
theory Sql_Parse_Laws
  imports Sql_Parser Sql_Bind
begin

text \<open>
  The parser terminates and never panics on any statement, the predicates it builds respect the node limit, and printing a predicate and
  parsing it gives the predicate back.
\<close>

section \<open>Parsers that do not panic\<close>

text \<open>
  \<open>below n k m\<close>: on fewer than \<open>n\<close> tokens the parser \<open>m\<close> does not panic, and when it succeeds it has consumed at least \<open>k\<close> of them.
\<close>

definition below :: "nat \<Rightarrow> nat \<Rightarrow> 'a parser \<Rightarrow> bool" where
  "below n k m \<longleftrightarrow> (\<forall>cur r cur'. length (cur_toks cur) < n \<longrightarrow> m cur = (r, cur') \<longrightarrow>
     r \<noteq> Panic \<and> (\<forall>x. r = Ok x \<longrightarrow> length (cur_toks cur') + k \<le> length (cur_toks cur)))"

definition steady :: "nat \<Rightarrow> 'a parser \<Rightarrow> bool" where
  "steady k m \<longleftrightarrow> (\<forall>n. below n k m)"

named_theorems parser_steady

lemma belowD: "below n k m \<Longrightarrow> length (cur_toks cur) < n \<Longrightarrow> m cur = (r, cur') \<Longrightarrow>
    r \<noteq> Panic \<and> (\<forall>x. r = Ok x \<longrightarrow> length (cur_toks cur') + k \<le> length (cur_toks cur))"
  by (simp add: below_def)

lemma steady_below: "steady k m \<Longrightarrow> below n k m"
  by (simp add: steady_def)

lemma below_weaken:
  assumes "below n k m" "n' \<le> n"
  shows "below n' 0 m"
  unfolding below_def
proof (intro allI impI)
  fix cur cur' :: cursor and r
  assume "length (cur_toks cur) < n'" "m cur = (r, cur')"
  with belowD [OF assms(1) _ this(2)] assms(2) show "r \<noteq> Panic \<and> (\<forall>x. r = Ok x \<longrightarrow> length (cur_toks cur') + 0 \<le> length (cur_toks cur))" by auto
qed

lemma steady_weaken: "steady k m \<Longrightarrow> steady 0 m"
  unfolding steady_def using below_weaken by blast

lemma below_then:
  assumes "below n j m" "\<And>x. below (n - j) k (f x)"
  shows "below n (j + k) (act_then m f)"
  unfolding below_def
proof (intro allI impI)
  fix cur cur' :: cursor and r
  assume n: "length (cur_toks cur) < n" and run: "act_then m f cur = (r, cur')"
  from run show "r \<noteq> Panic \<and> (\<forall>x. r = Ok x \<longrightarrow> length (cur_toks cur') + (j + k) \<le> length (cur_toks cur))"
  proof (cases rule: act_then_cases)
    case (Ok x c)
    have m: "length (cur_toks c) + j \<le> length (cur_toks cur)" using belowD [OF assms(1) n Ok(1)] by simp
    with n have "length (cur_toks c) < n - j" by simp
    from belowD [OF assms(2) this Ok(2)] m show ?thesis by auto
  qed (use belowD [OF assms(1) n] in auto)
qed

lemma below_then0: "below n 0 m \<Longrightarrow> (\<And>x. below n 0 (f x)) \<Longrightarrow> below n 0 (act_then m f)"
  using below_then [of n 0 m 0 f] by simp

lemma below_then1:
  assumes "steady 1 m" "\<And>x. below (n - 1) 0 (f x)"
  shows "below n 0 (act_then m f)"
  using below_weaken [OF below_then [OF steady_below [OF assms(1)] assms(2)]] by simp

lemma steady_then: "steady j m \<Longrightarrow> (\<And>x. steady 0 (f x)) \<Longrightarrow> steady j (act_then m f)"
  unfolding steady_def using below_then [of _ j m 0 f] by simp

lemma steady_next: "steady 1 next_tok"
  by (auto simp: steady_def below_def next_tok_def split: list.splits)

lemma steady_next0: "steady 0 next_tok"
  by (rule steady_weaken [OF steady_next])

lemma steady_return: "steady 0 (act_return (Ok x))" "steady k (act_return (Err e))" "steady k (fail msg)"
  by (simp_all add: steady_def below_def fail_def)

lemma steady_pair: "steady 0 (Pair (Ok x))" "steady k (Pair (Err e))"
  by (simp_all add: steady_def below_def)

lemma steady_result: "r \<noteq> Panic \<Longrightarrow> steady 0 (act_return r)"
  by (simp add: steady_def below_def)

lemma below_cond: "below n k m \<Longrightarrow> below n k m' \<Longrightarrow> below n k (\<lambda>cur. if b cur then m cur else m' cur)"
  by (simp add: below_def)

lemma steady_cond: "steady k m \<Longrightarrow> steady k m' \<Longrightarrow> steady k (\<lambda>cur. if b cur then m cur else m' cur)"
  by (simp add: steady_def below_cond)

lemma below_when_kw: "below (n - 1) 0 m \<Longrightarrow> below n 0 m' \<Longrightarrow> below n 0 (when_kw kw m m')"
  unfolding when_kw_def [abs_def] by (intro below_cond below_then1 [OF steady_next])

lemma below_when_tok: "below (n - 1) 0 m \<Longrightarrow> below n 0 m' \<Longrightarrow> below n 0 (when_tok t m m')"
  unfolding when_tok_def [abs_def] by (intro below_cond below_then1 [OF steady_next])

lemma steady_when_kw: "steady 0 m \<Longrightarrow> steady 0 m' \<Longrightarrow> steady 0 (when_kw kw m m')"
  unfolding steady_def by (simp add: below_when_kw)

lemma steady_when_tok: "steady 0 m \<Longrightarrow> steady 0 m' \<Longrightarrow> steady 0 (when_tok t m m')"
  unfolding steady_def by (simp add: below_when_tok)

lemma steady_when_kw1: "steady 0 m \<Longrightarrow> steady 1 m' \<Longrightarrow> steady 1 (when_kw kw m m')"
  unfolding when_kw_def [abs_def] using steady_then [OF steady_next, of "\<lambda>_. m"] by (intro steady_cond)

lemma steady_fuelled:
  assumes "\<And>n. below n 0 (f n)"
  shows "steady 0 (fuelled f)"
  unfolding steady_def below_def fuelled_def
proof (intro allI impI)
  fix cur cur' :: cursor and r
  assume "f (Suc (length (cur_toks cur))) cur = (r, cur')"
  from belowD [OF assms _ this] show "r \<noteq> Panic \<and> (\<forall>x. r = Ok x \<longrightarrow> length (cur_toks cur') + 0 \<le> length (cur_toks cur))" by simp
qed

lemmas parser_steady_rules [parser_steady] = steady_then steady_next0 steady_return steady_pair steady_cond steady_when_kw steady_when_tok

lemma steady_keyword: "steady 1 (keyword kw)"
  unfolding keyword_def by (intro steady_then [OF steady_next]) (auto intro: steady_return)

lemma steady_expect: "steady 1 (expect t)"
  unfolding expect_def by (intro steady_then [OF steady_next]) (auto intro: steady_return)

lemma steady_ident: "steady 1 ident"
  unfolding ident_def by (intro steady_then [OF steady_next]) (auto intro: steady_return split: tok.split)

lemma steady_value: "steady 1 value_tok"
  unfolding value_tok_def by (intro steady_then [OF steady_next]) (auto intro: steady_return split: tok.split)

lemmas steady_tokens [parser_steady] = steady_weaken [OF steady_keyword] steady_weaken [OF steady_expect] steady_weaken [OF steady_ident] steady_weaken [OF steady_value]

lemma steady_node [parser_steady]: "steady 0 predicate_node"
  by (auto simp: steady_def below_def predicate_node_def Let_def)

lemma steady_finish [parser_steady]: "steady 0 finish"
  by (auto simp: steady_def below_def finish_def split: option.splits tok.splits)

lemma steady_column_ref [parser_steady]: "steady 0 column_ref"
  unfolding column_ref_def by (intro parser_steady)

section \<open>Loops\<close>

lemma below_items:
  assumes "\<And>acc. steady 0 (item acc)"
  shows "below n 0 (items_rparen n item acc)"
proof (induction n arbitrary: acc)
  case 0
  show ?case by (simp add: below_def)
next
  case (Suc n)
  have "below n 0 (case t of TComma \<Rightarrow> items_rparen n item acc' | TRParen \<Rightarrow> act_return (Ok acc') | _ \<Rightarrow> fail msg)" for t acc' msg
    using Suc.IH by (auto intro: steady_below steady_return split: tok.split)
  then show ?case unfolding items_rparen.simps
    by (intro below_then0 [OF steady_below [OF assms]] below_then1 [OF steady_next]) simp
qed

lemma below_more:
  assumes "steady 0 item"
  shows "below n 0 (more_items n item acc)"
proof (induction n arbitrary: acc)
  case 0
  show ?case by (simp add: below_def)
next
  case (Suc n)
  show ?case unfolding more_items.simps
    using Suc.IH by (intro below_when_tok below_then0 steady_below [OF assms] steady_below [OF steady_return(1)]) simp
qed

lemma steady_loops [parser_steady]:
  "(\<And>acc. steady 0 (item acc)) \<Longrightarrow> steady 0 (fuelled (\<lambda>n. items_rparen n item acc))"
  "steady 0 item' \<Longrightarrow> steady 0 (comma_list item')"
  unfolding comma_list_def by (intro steady_fuelled steady_then below_items below_more; assumption)+

lemma below_operators:
  assumes "below n 0 operand"
  shows "below n 0 (operators kw mk operand)"
proof -
  have "below (min k n) 0 (operator_loop k kw mk operand left)" for k left
  proof (induction k arbitrary: left)
    case 0
    show ?case by (simp add: below_def)
  next
    case (Suc k)
    have "below (min (Suc k) n - 1) 0 (operator_loop k kw mk operand l)" for l by (rule below_weaken [OF Suc.IH]) auto
    then show ?case unfolding operator_loop.simps
      by (intro below_when_kw below_then0 below_weaken [OF assms] steady_below [OF steady_node] steady_below [OF steady_return(1)]) simp_all
  qed
  note loop = this
  have "below n 0 (fuelled (\<lambda>k. operator_loop k kw mk operand left))" for left
    unfolding below_def fuelled_def
  proof (intro allI impI)
    fix cur cur' :: cursor and r
    assume n: "length (cur_toks cur) < n" and run: "operator_loop (Suc (length (cur_toks cur))) kw mk operand left cur = (r, cur')"
    show "r \<noteq> Panic \<and> (\<forall>x. r = Ok x \<longrightarrow> length (cur_toks cur') + 0 \<le> length (cur_toks cur))"
      by (rule belowD [OF loop _ run]) (use n in simp)
  qed
  then show ?thesis unfolding operators_def by (intro below_then0 assms)
qed

lemma below_paren:
  assumes "below n 0 whole" "steady 0 other"
  shows "below (Suc n) 0 (when_tok TLParen (act_then whole (\<lambda>inner. act_then (expect TRParen) (\<lambda>_. act_return (Ok inner)))) other)"
  using assms(1) by (intro below_when_tok below_then0 steady_below [OF assms(2)] steady_below [OF steady_weaken [OF steady_expect]] steady_below [OF steady_return(1)]) simp

section \<open>Predicates and scalar expressions\<close>

lemma steady_comparison_op [parser_steady]: "steady 0 (comparison_op b)"
  unfolding comparison_op_def by (intro parser_steady) (auto intro: steady_return split: tok.split)

lemma steady_condition [parser_steady]: "steady 0 parse_condition"
  unfolding parse_condition_def parse_in_def parse_between_def by (intro parser_steady)

lemma below_predicate_within: "below n 0 (predicate_within n)"
proof (induction n)
  case 0
  show ?case by (simp add: below_def)
next
  case (Suc n)
  then show ?case unfolding predicate_within.simps parse_and_def parse_comparison_def
    by (intro below_operators below_paren steady_condition)
qed

lemma steady_predicate [parser_steady]: "steady 0 parse_predicate"
  unfolding parse_predicate_def by (intro steady_fuelled below_predicate_within)

lemma steady_ok_or: "steady 0 (act_return (ok_or x e))"
  by (rule steady_result) (simp add: ok_or_def split: option.split)

lemma steady_aggregate [parser_steady]: "steady 0 parse_aggregate"
  unfolding parse_aggregate_def by (intro parser_steady) (auto intro!: parser_steady steady_ok_or split: tok.split)

lemma steady_having_condition: "steady 0 parse_having_condition"
  unfolding parse_having_condition_def by (intro parser_steady)

lemma steady_having [parser_steady]: "steady 0 parse_having"
proof -
  have "below n 0 (having_within n)" for n
  proof (induction n)
    case 0
    show ?case by (simp add: below_def)
  next
    case (Suc n)
    then show ?case unfolding having_within.simps parse_having_and_def parse_having_compare_def
      by (intro below_operators below_paren steady_having_condition)
  qed
  then show ?thesis unfolding parse_having_def by (rule steady_fuelled)
qed

lemma below_case_branches:
  assumes "steady 0 scalar"
  shows "below n 0 (case_branches n scalar acc)"
proof (induction n arbitrary: acc)
  case 0
  show ?case by (simp add: below_def)
next
  case (Suc n)
  then show ?case unfolding case_branches.simps
    by (intro below_when_kw below_then0 steady_below [OF assms] steady_below [OF steady_predicate] steady_below [OF steady_return(1)]
          steady_below [OF steady_weaken [OF steady_keyword]]) simp
qed

lemma steady_case: "steady 0 scalar \<Longrightarrow> steady 0 (parse_case scalar)"
  unfolding parse_case_def by (intro parser_steady steady_fuelled below_case_branches) (auto intro!: parser_steady)

lemma steady_call: "steady 0 scalar \<Longrightarrow> steady 0 (parse_call scalar)"
  unfolding parse_call_def by (intro parser_steady) (auto intro!: parser_steady split: option.split)

lemma steady_scalar_at_depth: "steady 0 (parse_scalar_expr_at_depth n)"
  by (induction n) (auto intro!: parser_steady steady_case steady_call)

lemma steady_scalar [parser_steady]: "steady 0 parse_scalar_expr"
  unfolding parse_scalar_expr_def by (rule steady_scalar_at_depth)

section \<open>Select statements\<close>

text \<open>Parsers that look at the cursor before they choose a path are judged at one cursor at a time.\<close>

definition tame :: "cursor \<Rightarrow> 'a result \<times> cursor \<Rightarrow> bool" where
  "tame cur res \<longleftrightarrow> fst res \<noteq> Panic \<and> (\<forall>x. fst res = Ok x \<longrightarrow> length (cur_toks (snd res)) \<le> length (cur_toks cur))"

lemma steadyI: "(\<And>cur. tame cur (m cur)) \<Longrightarrow> steady 0 m"
  unfolding steady_def below_def tame_def by (metis add_0_right fst_conv snd_conv)

lemma tame_then: "steady 0 m \<Longrightarrow> (\<And>x. steady 0 (f x)) \<Longrightarrow> tame cur (act_then m f cur)"
  using belowD [OF steady_below [OF steady_then [of 0 m f]], of cur "Suc (length (cur_toks cur))"] by (auto simp: tame_def prod_eq_iff)

lemma tame_pair: "tame cur (Ok x, cur)" "tame cur (Err e, cur')"
  by (simp_all add: tame_def)

lemma steady_alias_name [parser_steady]: "steady 0 (alias_name msg)"
  by (rule steadyI, unfold alias_name_def Let_def, rule tame_then) (auto intro!: parser_steady)

lemma steady_select_item [parser_steady]: "steady 0 parse_select_item"
  unfolding parse_select_item_def by (intro parser_steady)

lemma steady_projection [parser_steady]: "steady 0 parse_projection"
proof -
  have "collect_results plain_column items \<noteq> Panic" if "list_all is_plain items" for items
    using that by (intro collect_results_not_Panic) (auto simp: list_all_iff is_plain_def split: select_expr.splits)
  then show ?thesis unfolding parse_projection_def
    by (intro parser_steady) (auto intro!: parser_steady steady_result simp: and_then_eq_Panic)
qed

lemma steady_order_key [parser_steady]: "steady 0 parse_order_key"
  unfolding parse_order_key_def by (intro parser_steady)

lemma steady_non_negative [parser_steady]: "steady 0 (non_negative msg)"
  unfolding non_negative_def by (intro parser_steady) (auto intro: steady_return split: tok.split)

lemma steady_row_count [parser_steady]: "steady 0 (parse_row_count kw)"
  unfolding parse_row_count_def by (intro parser_steady)

lemma steady_optional [parser_steady]: "steady 0 m \<Longrightarrow> steady 0 (optional kw m)"
  unfolding optional_def by (intro parser_steady)

lemma steady_case_option: "steady 0 m \<Longrightarrow> (\<And>x. steady 0 (f x)) \<Longrightarrow> steady 0 (\<lambda>cur. case g cur of None \<Rightarrow> m cur | Some x \<Rightarrow> f x cur)"
  by (auto simp: steady_def below_def split: option.splits)

lemma steady_table_ref [parser_steady]: "steady 0 parse_table_ref"
  unfolding parse_table_ref_def by (intro parser_steady steady_case_option)

lemma steady_join: "steady 1 (parse_join left_join qualifiers)"
  unfolding parse_join_def by (intro steady_then [OF steady_keyword] parser_steady) (auto intro!: parser_steady)

lemma below_join_loop: "below n 0 (join_loop n qualifiers joins)"
proof (induction n arbitrary: qualifiers joins)
  case 0
  show ?case by (simp add: below_def)
next
  case (Suc n)
  have pair: "below k 0 (Pair (Ok joins))" for k joins by (rule steady_below [OF steady_pair(1)])
  show ?case unfolding join_loop.simps
    using Suc.IH by (intro below_cond below_then1 pair steady_when_kw1 steady_join steady_when_kw steady_weaken [OF steady_join]) simp
qed

lemma steady_reject_join_types [parser_steady]: "steady 0 reject_join_types"
  unfolding reject_join_types_def [abs_def] by (intro parser_steady)

lemma steady_select [parser_steady]: "steady 0 parse_select"
  by (rule steadyI, unfold parse_select_def Let_def, rule tame_then)
    (auto intro!: parser_steady steady_fuelled below_join_loop)

section \<open>Data definition and modification\<close>

lemma steady_type_size [parser_steady]: "steady 0 type_size"
  unfolding type_size_def by (intro parser_steady) (auto intro!: parser_steady split: tok.split)

lemma steady_declared_type [parser_steady]: "steady 0 consume_declared_type"
  by (rule steadyI) (auto simp: consume_declared_type_def intro!: tame_then tame_pair parser_steady split: option.split tok.split)

lemma steady_check_constraint: "steady 1 parse_check_constraint"
  unfolding parse_check_constraint_def by (intro steady_then [OF steady_keyword] parser_steady)

lemma steady_default_value [parser_steady]: "steady 0 default_value"
  unfolding default_value_def [abs_def] by (intro parser_steady)

lemma steady_default_literal [parser_steady]: "steady 0 parse_default_literal"
  unfolding parse_default_literal_def by (intro parser_steady)

lemma below_column_constraints: "below n 0 (column_constraints n saw_pk saw_default d cs)"
proof (induction n arbitrary: saw_pk saw_default d cs)
  case 0
  show ?case by (simp add: below_def)
next
  case (Suc n)
  have IH: "below n 0 (if b then fail msg else column_constraints n saw_pk saw_default d cs)"
    "below n 0 (if b then fail msg else act_then parse_default_literal (\<lambda>v. column_constraints n saw_pk True (g v) cs))" for b msg saw_pk saw_default d cs g
    using Suc.IH by (auto intro: below_then0 steady_below [OF steady_return(3)] steady_below [OF steady_default_literal])
  show ?case unfolding column_constraints.simps
    using Suc.IH IH
    by (intro below_when_kw below_cond below_then0 steady_below [OF steady_weaken [OF steady_keyword]] below_then1 [OF steady_check_constraint]
          steady_below [OF steady_pair(1)]) simp_all
qed

lemma steady_column [parser_steady]: "steady 0 (parse_column cs)"
  unfolding parse_column_def by (intro parser_steady) (auto intro!: parser_steady steady_fuelled below_column_constraints)

lemma steady_table_item [parser_steady]: "steady 0 (parse_table_item cs)"
  unfolding parse_table_item_def [abs_def] by (intro parser_steady steady_weaken [OF steady_check_constraint])

lemma below_table_items: "below n 0 (table_items n cs)"
proof (induction n arbitrary: cs)
  case 0
  show ?case by (simp add: below_def)
next
  case (Suc n)
  have "below n 0 (case t of TComma \<Rightarrow> table_items n cs' | TRParen \<Rightarrow> act_return (Ok cs') | _ \<Rightarrow> fail msg)" for t cs' msg
    using Suc.IH by (auto intro: steady_below steady_return split: tok.split)
  then have "below (Suc n) 0 (act_then next_tok (\<lambda>t. case t of TComma \<Rightarrow> table_items n cs' | TRParen \<Rightarrow> act_return (Ok cs') | _ \<Rightarrow> fail msg))" for cs' msg
    by (intro below_then1 [OF steady_next]) simp
  then have "below (Suc n) 0 (\<lambda>cur. case peek cur of
         Some (TWord _) \<Rightarrow> (Err e, cur)
       | _ \<Rightarrow> act_then next_tok (\<lambda>t. case t of TComma \<Rightarrow> table_items n cs' | TRParen \<Rightarrow> act_return (Ok cs') | _ \<Rightarrow> fail msg) cur)" for cs' msg e
    unfolding below_def by (auto split: option.split tok.split)
  then show ?case unfolding table_items.simps
    by (intro below_then0 steady_below [OF steady_table_item])
qed

lemma steady_exists_clause [parser_steady]: "steady 0 (exists_clause negated)"
  unfolding exists_clause_def by (intro parser_steady) (auto intro!: parser_steady)

lemma steady_create_table [parser_steady]: "steady 0 parse_create_table"
  unfolding parse_create_table_def by (intro parser_steady steady_fuelled below_table_items)

lemma steady_index_on [parser_steady]: "steady 0 (parse_index_on uniq)"
  unfolding parse_index_on_def by (intro parser_steady)

lemma steady_retrieval_items [parser_steady]: "steady 0 (retrieval_column acc)" "steady 0 (retrieval_option opts)" "steady 0 retrieval_kind_name"
  unfolding retrieval_column_def retrieval_option_def retrieval_kind_name_def
  by (auto intro!: parser_steady split: option.split)

lemma retrieval_index_not_Panic: "retrieval_index fulltext columns options \<noteq> Panic"
proof -
  have "vector_index columns options \<noteq> Panic"
    by (auto simp: vector_index_def and_then_eq_Panic split: list.splits option.splits val.splits if_splits)
  then show ?thesis by (auto simp: retrieval_index_def and_then_eq_Panic split: option.splits val.splits if_splits)
qed

lemma validate_retrieval_not_Panic: "validate_retrieval C d \<noteq> Panic"
  by (auto simp: validate_retrieval_def split: retrieval_kind.splits if_splits)

lemma steady_retrieval_index [parser_steady]: "steady 0 (parse_retrieval_index C)"
  unfolding parse_retrieval_index_def Let_def
  by (intro parser_steady) (auto intro!: parser_steady steady_result simp: retrieval_index_not_Panic validate_retrieval_not_Panic)

lemma steady_create [parser_steady]: "steady 0 (parse_create C)"
  unfolding parse_create_def by (intro parser_steady)

lemma steady_insert_items [parser_steady]: "steady 0 (target_column acc)" "steady 0 insert_row_values"
  unfolding target_column_def insert_row_values_def insert_item_def by (intro parser_steady; auto intro!: parser_steady)+

lemma inserted_rows_not_Panic: "inserted_rows table targets rows \<noteq> Panic"
proof -
  have lit: "collect_results literal_of row \<noteq> Panic" if "Default \<notin> set row" for row
    using that by (intro collect_results_not_Panic) (metis literal_of.simps(1) insert_value.exhaust result.distinct(3))
  have "collect_results (collect_results literal_of) rows \<noteq> Panic" if "\<not> list_ex (\<lambda>row. Default \<in> set row) rows"
    using that by (intro collect_results_not_Panic lit) (auto simp: list_ex_iff)
  with lit show ?thesis
    by (auto simp: inserted_rows_def and_then_eq_Panic simp del: collect_results.simps split: list.split)
qed

lemma steady_insert [parser_steady]: "steady 0 parse_insert"
  unfolding parse_insert_def by (intro parser_steady steady_result inserted_rows_not_Panic) (auto intro!: parser_steady)

lemma steady_update [parser_steady]: "steady 0 parse_update"
  unfolding parse_update_def by (intro parser_steady)

lemma steady_delete_drop [parser_steady]: "steady 0 parse_delete" "steady 0 parse_drop"
  unfolding parse_delete_def parse_drop_def by (intro parser_steady)+

lemma steady_statement [parser_steady]: "steady 0 (parse_statement C)"
  unfolding parse_statement_def parse_explain_def consume_optional_transaction_def
  by (intro parser_steady) (auto intro: steady_return split: tok.split)

lemma below_skip_semicolons: "below n 0 (skip_semicolons n)"
proof (induction n)
  case 0
  show ?case by (simp add: below_def)
next
  case (Suc n)
  then show ?case unfolding skip_semicolons.simps by (intro below_when_tok steady_below [OF steady_return(1)]) simp
qed

section \<open>The tokenizer\<close>

lemma read_ident_not_Panic: "read_ident C closing s cs \<noteq> Panic"
  by (induction C closing s cs rule: read_ident.induct) (auto split: list.split)

lemma read_digits_not_Panic: "read_digits negative digits \<noteq> Panic"
  by (auto simp: read_digits_def Let_def and_then_eq_Panic ok_or_def split: option.split)

lemma lex_punct_not_Panic: "lex_punct depth c cs \<noteq> Some Panic"
  unfolding lex_punct.simps by (simp split: list.split)

lemma lex_step_not_Panic: "lex_step C depth c cs \<noteq> Panic"
proof (cases "lex_punct depth c cs")
  case None
  then show ?thesis
    using read_ident_not_Panic [of C _ "[]" cs] read_digits_not_Panic
    by (simp add: lex_step_def read_number_def and_then_eq_Panic ok_or_def split: option.split)
next
  case (Some r)
  with lex_punct_not_Panic [of depth c cs] show ?thesis by (auto simp: lex_step_def and_then_eq_Panic)
qed

lemma tokenize_not_Panic: "tokenize C sql \<noteq> Panic"
proof -
  have "tokenize_from C depth pos cs \<noteq> Panic" for depth pos cs
    by (induction C depth pos cs rule: tokenize_from.induct) (auto simp: and_then_eq_Panic lex_step_not_Panic)
  then show ?thesis by (simp add: tokenize_def)
qed

text \<open>
  C14: The parser is total on every input text and for every classification of the Unicode characters: it returns a statement or an error, none
  of its loops and recursions outruns the tokens that are left, and none of its \<^verbatim>\<open>unreachable!\<close> branches is reached.
\<close>

theorem parse_no_panic: "parse C sql \<noteq> Panic"
proof -
  have "steady 0 (act_then (parse_statement C) (\<lambda>stmt. act_then (fuelled skip_semicolons) (\<lambda>_. act_then finish (\<lambda>_. act_return (Ok stmt)))))"
    by (intro parser_steady steady_fuelled below_skip_semicolons)
  from belowD [OF steady_below [OF this]] have
    "fst (act_then (parse_statement C) (\<lambda>stmt. act_then (fuelled skip_semicolons) (\<lambda>_. act_then finish (\<lambda>_. act_return (Ok stmt)))) cur) \<noteq> Panic" for cur
    by (metis lessI surjective_pairing)
  then show ?thesis by (auto simp: parse_def and_then_eq_Panic tokenize_not_Panic)
qed

end
