(* ===== verification/Sql_Print.thy ===== *)
theory Sql_Print
  imports Sql_Parse_Laws
begin

text \<open>
  A printer for predicates and statements, as token lists and as SQL text, and the proof that the parser reads what it prints: the parser is a
  left inverse of the printer, which fixes the precedence and the associativity of the connectives and the clause order of the statements.
\<close>

section \<open>Running the parser on given tokens\<close>

abbreviation cursor_at :: "tok list \<Rightarrow> nat \<Rightarrow> cursor" where
  "cursor_at ts k \<equiv> \<lparr>cur_toks = ts, cur_nodes = k\<rparr>"

definition kw_token :: "string \<Rightarrow> tok" where
  "kw_token s = TWord (to_chars (ascii s))"

definition name_token :: "col_name \<Rightarrow> tok" where
  "name_token c = TIdent (utf8_chars c)"

definition lower_word :: "string \<Rightarrow> bool" where
  "lower_word s \<longleftrightarrow> list_all (\<lambda>c. c \<in> set ''abcdefghijklmnopqrstuvwxyz'') s"

lemma unat_of_char: "unat (of_char c :: u8) = of_char c"
proof -
  have "unat (of_nat (of_char c) :: u8) = of_char c mod 256" by (simp only: unat_of_nat) simp
  then show ?thesis by (simp add: of_nat_of_char)
qed

lemma ascii_chars_eq_iff: "to_chars (ascii s) = to_chars (ascii s') \<longleftrightarrow> s = s'"
proof -
  have "inj (\<lambda>c. ucast (of_char c :: u8) :: u32)"
  proof (rule injI)
    fix c d
    assume "ucast (of_char c :: u8) = (ucast (of_char d :: u8) :: u32)"
    then have "unat (ucast (of_char c :: u8) :: u32) = unat (ucast (of_char d :: u8) :: u32)" by simp
    then have "unat (of_char c :: u8) = unat (of_char d :: u8)" by (simp add: unat_ucast_byte)
    then show "c = d" by (simp add: unat_of_char)
  qed
  from inj_map_eq_map [OF this] show ?thesis by (simp add: to_chars_def ascii_def comp_def)
qed

lemma lower_chars: "lower_word s \<Longrightarrow> map ascii_lower (to_chars (ascii s)) = to_chars (ascii s)"
proof (induction s)
  case (Cons c s)
  then have "ascii_lower (ucast (of_char c :: u8)) = ucast (of_char c :: u8)"
    by (auto simp: lower_word_def ascii_lower_def)
  with Cons show ?case by (simp add: lower_word_def to_chars_def ascii_def)
qed (simp add: to_chars_def ascii_def)

lemma tok_kw_token [simp]: "lower_word s \<Longrightarrow> tok_kw (Some (kw_token s)) kw \<longleftrightarrow> s = kw"
  by (simp add: kw_token_def tok_kw_def is_kw_def lower_chars ascii_chars_eq_iff)

lemma tok_kw_name [simp]: "\<not> tok_kw (Some (name_token c)) kw" "\<not> tok_kw None kw" "\<not> tok_kw (Some (TIdent w)) kw" "\<not> tok_kw (Some (TInt i)) kw"
    "\<not> tok_kw (Some TLParen) kw" "\<not> tok_kw (Some TRParen) kw" "\<not> tok_kw (Some TComma) kw"
    "\<not> tok_kw (Some TEq) kw" "\<not> tok_kw (Some TNe) kw" "\<not> tok_kw (Some TLt) kw" "\<not> tok_kw (Some TLe) kw" "\<not> tok_kw (Some TGt) kw" "\<not> tok_kw (Some TGe) kw"
    "\<not> tok_kw (Some TStar) kw" "\<not> tok_kw (Some TSemicolon) kw"
  by (simp_all add: tok_kw_def name_token_def)

lemma peek_at [simp]: "peek (cursor_at (t # ts) k) = Some t" "peek (cursor_at [] k) = None" "peek2 (cursor_at (t # u # ts) k) = Some u" "peek2 (cursor_at [t] k) = None"
  by (simp_all add: peek_def peek2_def)

lemma next_at [simp]: "next_tok (cursor_at (t # ts) k) = (Ok t, cursor_at ts k)"
  by (simp add: next_tok_def)

lemma then_at: "m cur = (Ok x, cur') \<Longrightarrow> act_then m f cur = f x cur'"
  by (simp add: act_then_def)

lemma keyword_at [simp]: "tok_kw (Some t) kw \<Longrightarrow> keyword kw (cursor_at (t # ts) k) = (Ok (), cursor_at ts k)"
  by (simp add: keyword_def then_at)

lemma expect_at [simp]: "expect t (cursor_at (t # ts) k) = (Ok (), cursor_at ts k)"
  by (simp add: expect_def then_at)

lemma when_kw_at [simp]:
  "tok_kw (Some t) kw \<Longrightarrow> when_kw kw m m' (cursor_at (t # ts) k) = m (cursor_at ts k)"
  "\<not> tok_kw (Some t) kw \<Longrightarrow> when_kw kw m m' (cursor_at (t # ts) k) = m' (cursor_at (t # ts) k)"
  "when_kw kw m m' (cursor_at [] k) = m' (cursor_at [] k)"
  by (simp_all add: when_kw_def peek_kw_def then_at)

lemma when_tok_at [simp]:
  "when_tok t m m' (cursor_at (t # ts) k) = m (cursor_at ts k)"
  "u \<noteq> t \<Longrightarrow> when_tok t m m' (cursor_at (u # ts) k) = m' (cursor_at (u # ts) k)"
  "when_tok t m m' (cursor_at [] k) = m' (cursor_at [] k)"
  by (simp_all add: when_tok_def then_at)

lemma token_distinct [simp]: "kw_token s \<noteq> TDot" "kw_token s \<noteq> TLParen" "kw_token s \<noteq> TComma" "kw_token s \<noteq> TSemicolon" "kw_token s \<noteq> TStar" "kw_token s \<noteq> TRParen"
    "name_token c \<noteq> TDot" "name_token c \<noteq> TLParen" "name_token c \<noteq> TComma" "name_token c \<noteq> TStar"
  by (simp_all add: kw_token_def name_token_def)

lemma ident_at [simp]: "utf8_valid c \<Longrightarrow> ident (cursor_at (name_token c # ts) k) = (Ok c, cursor_at ts k)"
  by (simp add: ident_def then_at name_token_def utf8_encode_chars)

lemma column_ref_at [simp]: "utf8_valid c \<Longrightarrow> peek (cursor_at ts k) \<noteq> Some TDot \<Longrightarrow> column_ref (cursor_at (name_token c # ts) k) = (Ok c, cursor_at ts k)"
  by (cases ts) (simp_all add: column_ref_def then_at)

lemma node_at [simp]: "k < MAX_PREDICATE_NODES \<Longrightarrow> predicate_node (cursor_at ts k) = (Ok (), cursor_at ts (Suc k))"
  by (simp add: predicate_node_def Let_def saturating_add_def MAX_PREDICATE_NODES_def usize_max_def)

fun val_ok :: "val \<Rightarrow> bool" where
  "val_ok (VText s) = utf8_valid s"
| "val_ok (VBlob _) = False"
| "val_ok _ = True"

lemma value_at [simp]: "val_ok v \<Longrightarrow> value_tok (cursor_at (literal_token v # ts) k) = (Ok v, cursor_at ts k)"
proof (cases v)
  case VNull
  have "is_kw (to_chars (ascii ''NULL'')) ''null''" by code_simp
  with VNull show ?thesis by (simp add: value_tok_def then_at)
qed (auto simp: value_tok_def then_at utf8_encode_chars)

section \<open>Predicates\<close>

fun commas :: "tok list list \<Rightarrow> tok list" where
  "commas [] = []"
| "commas [x] = x"
| "commas (x # xs) = x @ [TComma] @ commas xs"

fun op_tokens :: "compare_op \<Rightarrow> tok list" where
  "op_tokens OpEq = [TEq]"
| "op_tokens OpNe = [TNe]"
| "op_tokens OpLt = [TLt]"
| "op_tokens OpLe = [TLe]"
| "op_tokens OpGt = [TGt]"
| "op_tokens OpGe = [TGe]"
| "op_tokens OpLike = [kw_token ''like'']"
| "op_tokens OpNotLike = [kw_token ''not'', kw_token ''like'']"

definition negation :: "bool \<Rightarrow> tok list" where
  "negation b = (if b then [kw_token ''not''] else [])"

fun show_condition :: "predicate \<Rightarrow> tok list" where
  "show_condition (Compare c op v) = [name_token c] @ op_tokens op @ [literal_token v]"
| "show_condition (InList c vs neg) = [name_token c] @ negation neg @ [kw_token ''in'', TLParen] @ commas (map (\<lambda>v. [literal_token v]) vs) @ [TRParen]"
| "show_condition (Between c lo hi neg) = [name_token c] @ negation neg @ [kw_token ''between'', literal_token lo, kw_token ''and'', literal_token hi]"
| "show_condition (IsNull c neg) = [name_token c, kw_token ''is''] @ negation neg @ [kw_token ''null'']"
| "show_condition _ = []"

fun show_level :: "nat \<Rightarrow> predicate \<Rightarrow> tok list" where
  "show_level l (Or a b) = (if l = 0 then show_level 0 a @ [kw_token ''or''] @ show_level 1 b
     else [TLParen] @ (show_level 0 a @ [kw_token ''or''] @ show_level 1 b) @ [TRParen])"
| "show_level l (And a b) = (if l \<le> 1 then show_level 1 a @ [kw_token ''and''] @ show_level 2 b
     else [TLParen] @ (show_level 1 a @ [kw_token ''and''] @ show_level 2 b) @ [TRParen])"
| "show_level l p = show_condition p"

definition show_pred :: "predicate \<Rightarrow> tok list" where
  "show_pred p = show_level 0 p"

primrec node_count :: "predicate \<Rightarrow> nat" where
  "node_count (Compare c op v) = 1"
| "node_count (InList c vs neg) = 1"
| "node_count (Between c lo hi neg) = 1"
| "node_count (IsNull c neg) = 1"
| "node_count (And a b) = node_count a + 1 + node_count b"
| "node_count (Or a b) = node_count a + 1 + node_count b"

primrec pred_ok :: "predicate \<Rightarrow> bool" where
  "pred_ok (Compare c op v) \<longleftrightarrow> utf8_valid c \<and> val_ok v"
| "pred_ok (InList c vs neg) \<longleftrightarrow> utf8_valid c \<and> vs \<noteq> [] \<and> list_all val_ok vs"
| "pred_ok (Between c lo hi neg) \<longleftrightarrow> utf8_valid c \<and> val_ok lo \<and> val_ok hi"
| "pred_ok (IsNull c neg) \<longleftrightarrow> utf8_valid c"
| "pred_ok (And a b) \<longleftrightarrow> pred_ok a \<and> pred_ok b"
| "pred_ok (Or a b) \<longleftrightarrow> pred_ok a \<and> pred_ok b"

lemma lower_words [simp]: "lower_word ''not''" "lower_word ''like''" "lower_word ''in''" "lower_word ''between''" "lower_word ''and''" "lower_word ''or''"
    "lower_word ''is''" "lower_word ''null''"
  by (simp_all add: lower_word_def)

lemma items_at:
  assumes "xs \<noteq> []" "length xs \<le> n"
    "\<And>x acc ts k. x \<in> set xs \<Longrightarrow> \<exists>a. ts = TComma # a \<or> ts = TRParen # a \<Longrightarrow> item acc (cursor_at (f x @ ts) k) = (Ok x, cursor_at ts k)"
  shows "items_rparen n (\<lambda>acc. item acc) acc (cursor_at (commas (map f xs) @ TRParen # rest) k) = (Ok (acc @ xs), cursor_at rest k)"
  using assms
proof (induction xs arbitrary: n acc)
  case (Cons x xs)
  then obtain m where "n = Suc m" by (cases n) auto
  with Cons show ?case by (cases xs) (simp_all add: then_at)
qed simp

lemma literal_not_kw: "val_ok v \<Longrightarrow> literal_token v \<noteq> TLParen" "literal_token v \<noteq> TComma" "literal_token v \<noteq> TRParen"
  by (cases v; simp)+

lemma negation_simps: "negation True = [kw_token ''not'']" "negation False = []"
  by (simp_all add: negation_def)

lemma commas_length: "length xs \<le> length (commas (map (\<lambda>x. f x # g x) xs))"
proof (induction xs)
  case (Cons x xs)
  then show ?case by (cases xs) simp_all
qed simp

lemma in_list_at:
  assumes "vs \<noteq> []" "list_all val_ok vs"
  shows "parse_in c neg (cursor_at (TLParen # commas (map (\<lambda>v. [literal_token v]) vs) @ TRParen # rest) k) = (Ok (InList c vs neg), cursor_at rest k)"
proof -
  have "items_rparen (Suc (length (commas (map (\<lambda>v. [literal_token v]) vs) @ TRParen # rest))) (\<lambda>_. value_tok) []
      (cursor_at (commas (map (\<lambda>v. [literal_token v]) vs) @ TRParen # rest) k) = (Ok ([] @ vs), cursor_at rest k)"
    using assms commas_length [of vs literal_token "\<lambda>_. []"] by (intro items_at) (auto simp: list_all_iff)
  then show ?thesis by (simp add: parse_in_def then_at fuelled_def del: items_rparen.simps)
qed

lemma comparison_at: "op \<noteq> OpNotLike \<Longrightarrow> comparison_op True (cursor_at (op_tokens op @ ts) k) = (Ok op, cursor_at ts k)"
proof -
  have "is_kw (to_chars (ascii ''like'')) ''like''" by code_simp
  then show "op \<noteq> OpNotLike \<Longrightarrow> ?thesis" by (cases op) (simp_all add: comparison_op_def then_at kw_token_def)
qed

lemma condition_at:
  assumes "pred_ok p" "k < MAX_PREDICATE_NODES" "\<And>a b. p \<noteq> And a b \<and> p \<noteq> Or a b"
  shows "parse_condition (cursor_at (show_condition p @ rest) k) = (Ok p, cursor_at rest (Suc k))"
proof (cases p)
  case (Compare c op v)
  show ?thesis
  proof (cases "op = OpNotLike")
    case True
    with Compare assms show ?thesis by (simp add: parse_condition_def then_at)
  next
    case False
    then obtain t ts where "op_tokens op = t # ts" "\<not> tok_kw (Some t) ''in''" "\<not> tok_kw (Some t) ''between''" "\<not> tok_kw (Some t) ''is''" "\<not> tok_kw (Some t) ''not''" "t \<noteq> TDot"
      by (cases op) auto
    with Compare assms comparison_at [OF False, of "literal_token v # rest" "Suc k"] show ?thesis by (simp add: parse_condition_def then_at)
  qed
next
  case (InList c vs neg)
  with assms in_list_at show ?thesis by (cases neg) (simp_all add: parse_condition_def then_at negation_simps)
next
  case (Between c lo hi neg)
  with assms show ?thesis by (cases neg) (simp_all add: parse_condition_def parse_between_def then_at negation_simps)
next
  case (IsNull c neg)
  with assms show ?thesis by (cases neg) (simp_all add: parse_condition_def then_at negation_simps)
qed (use assms(3) in blast)+

section \<open>Precedence\<close>

text \<open>Any fuel above the number of tokens gives the same run of an operator loop.\<close>

lemma operator_loop_fuel:
  assumes "below b 0 operand" "length (cur_toks cur) < b" "length (cur_toks cur) < n" "length (cur_toks cur) < n'"
  shows "operator_loop n kw mk operand left cur = operator_loop n' kw mk operand left cur"
  using assms(2-)
proof (induction n arbitrary: n' left cur)
  case (Suc n)
  then obtain m where m: "n' = Suc m" by (cases n') auto
  have "act_then next_tok (\<lambda>_. act_then predicate_node (\<lambda>_. act_then operand (\<lambda>right. operator_loop n kw mk operand (mk left right)))) cur =
        act_then next_tok (\<lambda>_. act_then predicate_node (\<lambda>_. act_then operand (\<lambda>right. operator_loop m kw mk operand (mk left right)))) cur"
  proof (cases "cur_toks cur")
    case (Cons t ts)
    have "act_then operand (\<lambda>right. operator_loop n kw mk operand (mk left right)) c = act_then operand (\<lambda>right. operator_loop m kw mk operand (mk left right)) c"
      if "cur_toks c = ts" for c
    proof (cases "operand c")
      case (Pair r c')
      with belowD [OF assms(1) _ Pair] Suc Cons that m show ?thesis by (cases r) (auto simp: act_then_def)
    qed
    then show ?thesis using Cons by (auto simp: act_then_def next_tok_def predicate_node_def Let_def split: result.split)
  qed (simp add: act_then_def next_tok_def)
  then show ?case by (simp add: m when_kw_def)
qed simp

lemma operators_step:
  assumes "below b 0 operand" "length ts < b" "tok_kw (Some t) kw" "k < MAX_PREDICATE_NODES"
    "operand (cursor_at ts (Suc k)) = (Ok right, cursor_at rest k')" "length rest \<le> length ts"
  shows "fuelled (\<lambda>n. operator_loop n kw mk operand left) (cursor_at (t # ts) k) = fuelled (\<lambda>n. operator_loop n kw mk operand (mk left right)) (cursor_at rest k')"
proof -
  have "operator_loop (Suc (length ts)) kw mk operand (mk left right) (cursor_at rest k') = operator_loop (Suc (length rest)) kw mk operand (mk left right) (cursor_at rest k')"
    using assms by (intro operator_loop_fuel [OF assms(1)]) simp_all
  then show ?thesis using assms(3,4,5) by (simp add: fuelled_def then_at del: operator_loop.simps) (simp add: then_at)
qed

lemma operators_end:
  assumes "peek_kw kw (cursor_at rest k) = False"
  shows "fuelled (\<lambda>n. operator_loop n kw mk operand left) (cursor_at rest k) = (Ok left, cursor_at rest k)"
  using assms by (cases rest) (simp_all add: fuelled_def peek_kw_def)

lemma below_comparison: "below (Suc n) 0 (parse_comparison (predicate_within n))"
  unfolding parse_comparison_def by (intro below_paren below_predicate_within steady_condition)

lemma below_and: "below (Suc n) 0 (parse_and (predicate_within n))"
  unfolding parse_and_def by (intro below_operators below_comparison)

text \<open>What the parsers of the three levels do on a printed predicate: the operand level reads it, the levels above go on with their loop.\<close>

definition fits :: "nat \<Rightarrow> nat \<Rightarrow> predicate \<Rightarrow> tok list \<Rightarrow> bool" where
  "fits n k p ts \<longleftrightarrow> k + node_count p \<le> MAX_PREDICATE_NODES \<and> length ts \<le> n"

definition reads_operand :: "predicate \<Rightarrow> bool" where
  "reads_operand p \<longleftrightarrow> (\<forall>n k rest. fits n k p (show_level 2 p @ rest) \<longrightarrow>
     parse_comparison (predicate_within n) (cursor_at (show_level 2 p @ rest) k) = (Ok p, cursor_at rest (k + node_count p)))"

definition reads_and :: "predicate \<Rightarrow> bool" where
  "reads_and p \<longleftrightarrow> (\<forall>n k rest. fits n k p (show_level 1 p @ rest) \<longrightarrow>
     parse_and (predicate_within n) (cursor_at (show_level 1 p @ rest) k) =
     fuelled (\<lambda>m. operator_loop m ''and'' And (parse_comparison (predicate_within n)) p) (cursor_at rest (k + node_count p)))"

definition reads_or :: "predicate \<Rightarrow> bool" where
  "reads_or p \<longleftrightarrow> (\<forall>n k rest. fits n k p (show_level 0 p @ rest) \<longrightarrow> \<not> peek_kw ''and'' (cursor_at rest 0) \<longrightarrow>
     predicate_within (Suc n) (cursor_at (show_level 0 p @ rest) k) =
     fuelled (\<lambda>m. operator_loop m ''or'' Or (parse_and (predicate_within n)) p) (cursor_at rest (k + node_count p)))"

lemma reads_operand_condition:
  assumes "pred_ok p" "\<And>a b. p \<noteq> And a b \<and> p \<noteq> Or a b"
  shows "reads_operand p"
proof -
  have "show_level 2 p = show_condition p" "node_count p = 1" using assms(2) by (cases p; simp)+
  moreover obtain c ts where "show_condition p = name_token c # ts" using assms(2) by (cases p) auto
  moreover have "parse_condition (cursor_at (show_condition p @ rest) k) = (Ok p, cursor_at rest (Suc k))" if "k < MAX_PREDICATE_NODES" for k rest
    using condition_at assms that by blast
  ultimately show ?thesis by (auto simp: reads_operand_def fits_def parse_comparison_def)
qed

lemma reads_and_operand:
  assumes "show_level 1 p = show_level 2 p" "reads_operand p"
  shows "reads_and p"
  using assms by (simp add: reads_and_def reads_operand_def parse_and_def operators_def then_at)

lemma peek_kw_at: "peek_kw kw (cursor_at ts k) \<longleftrightarrow> ts \<noteq> [] \<and> tok_kw (Some (hd ts)) kw"
  by (cases ts) (simp_all add: peek_kw_def)

lemma end_kw [simp]: "\<not> peek_kw kw (cursor_at [] k)"
  by (simp add: peek_kw_at)

lemma reads_or_and:
  assumes "show_level 0 p = show_level 1 p" "reads_and p"
  shows "reads_or p"
  using assms by (simp add: reads_and_def reads_or_def operators_def then_at operators_end peek_kw_at)

lemma reads_and_And:
  assumes "reads_and a" "reads_operand b"
  shows "reads_and (And a b)"
  unfolding reads_and_def
proof (intro allI impI)
  fix n k rest
  assume fits: "fits n k (And a b) (show_level 1 (And a b) @ rest)"
  let ?ts = "show_level 2 b @ rest" and ?k = "k + node_count a"
  have "parse_and (predicate_within n) (cursor_at (show_level 1 a @ kw_token ''and'' # ?ts) k) =
      fuelled (\<lambda>m. operator_loop m ''and'' And (parse_comparison (predicate_within n)) a) (cursor_at (kw_token ''and'' # ?ts) ?k)"
    using assms(1) fits by (simp add: reads_and_def fits_def)
  also have "\<dots> = fuelled (\<lambda>m. operator_loop m ''and'' And (parse_comparison (predicate_within n)) (And a b)) (cursor_at rest (Suc ?k + node_count b))"
    by (rule operators_step [OF below_comparison]) (use fits assms(2) in \<open>auto simp: fits_def reads_operand_def\<close>)
  finally show "parse_and (predicate_within n) (cursor_at (show_level 1 (And a b) @ rest) k) =
      fuelled (\<lambda>m. operator_loop m ''and'' And (parse_comparison (predicate_within n)) (And a b)) (cursor_at rest (k + node_count (And a b)))" by (simp add: add.assoc)
qed

lemma reads_or_Or:
  assumes "reads_or a" "reads_and b"
  shows "reads_or (Or a b)"
  unfolding reads_or_def
proof (intro allI impI)
  fix n k rest
  assume fits: "fits n k (Or a b) (show_level 0 (Or a b) @ rest)" and rest: "\<not> peek_kw ''and'' (cursor_at rest 0)"
  let ?ts = "show_level 1 b @ rest" and ?k = "k + node_count a"
  have "parse_and (predicate_within n) (cursor_at ?ts (Suc ?k)) =
      fuelled (\<lambda>m. operator_loop m ''and'' And (parse_comparison (predicate_within n)) b) (cursor_at rest (Suc ?k + node_count b))"
    using assms(2) fits by (simp add: reads_and_def fits_def)
  also have "\<dots> = (Ok b, cursor_at rest (Suc ?k + node_count b))" using rest by (intro operators_end) (simp add: peek_kw_at)
  finally have b: "parse_and (predicate_within n) (cursor_at ?ts (Suc ?k)) = (Ok b, cursor_at rest (Suc ?k + node_count b))" .
  have "predicate_within (Suc n) (cursor_at (show_level 0 a @ kw_token ''or'' # ?ts) k) =
      fuelled (\<lambda>m. operator_loop m ''or'' Or (parse_and (predicate_within n)) a) (cursor_at (kw_token ''or'' # ?ts) ?k)"
    using assms(1) fits by (simp add: reads_or_def fits_def peek_kw_at del: predicate_within.simps)
  also have "\<dots> = fuelled (\<lambda>m. operator_loop m ''or'' Or (parse_and (predicate_within n)) (Or a b)) (cursor_at rest (Suc ?k + node_count b))"
    by (rule operators_step [OF below_and _ _ _ b]) (use fits in \<open>auto simp: fits_def\<close>)
  finally show "predicate_within (Suc n) (cursor_at (show_level 0 (Or a b) @ rest) k) =
      fuelled (\<lambda>m. operator_loop m ''or'' Or (parse_and (predicate_within n)) (Or a b)) (cursor_at rest (k + node_count (Or a b)))" by (simp add: add.assoc)
qed

lemma reads_or_predicate:
  assumes "reads_or p" "fits n k p (show_level 0 p @ rest)" "\<not> peek_kw ''and'' (cursor_at rest 0)" "\<not> peek_kw ''or'' (cursor_at rest 0)"
  shows "predicate_within (Suc n) (cursor_at (show_level 0 p @ rest) k) = (Ok p, cursor_at rest (k + node_count p))"
proof -
  have "predicate_within (Suc n) (cursor_at (show_level 0 p @ rest) k) =
      fuelled (\<lambda>m. operator_loop m ''or'' Or (parse_and (predicate_within n)) p) (cursor_at rest (k + node_count p))"
    using assms(1-3) unfolding reads_or_def by blast
  also have "\<dots> = (Ok p, cursor_at rest (k + node_count p))" using assms(4) by (intro operators_end) (simp add: peek_kw_at)
  finally show ?thesis .
qed

lemma reads_operand_paren:
  assumes "show_level 2 p = [TLParen] @ show_level 0 p @ [TRParen]" "reads_or p"
  shows "reads_operand p"
  unfolding reads_operand_def
proof (intro allI impI)
  fix n k rest
  assume fits: "fits n k p (show_level 2 p @ rest)"
  then obtain m where n: "n = Suc m" using assms(1) by (cases n) (auto simp: fits_def)
  have "predicate_within n (cursor_at (show_level 0 p @ TRParen # rest) k) = (Ok p, cursor_at (TRParen # rest) (k + node_count p))"
    unfolding n by (rule reads_or_predicate [OF assms(2)]) (use fits assms(1) n in \<open>simp_all add: fits_def peek_kw_at\<close>)
  then show "parse_comparison (predicate_within n) (cursor_at (show_level 2 p @ rest) k) = (Ok p, cursor_at rest (k + node_count p))"
    using assms(1) by (simp add: parse_comparison_def then_at)
qed

lemma reads_printed:
  assumes "pred_ok p"
  shows "reads_operand p \<and> reads_and p \<and> reads_or p"
  using assms
proof (induction p)
  case (And a b)
  then have "reads_and (And a b)" by (simp add: reads_and_And)
  moreover from this have "reads_or (And a b)" by (simp add: reads_or_and)
  ultimately show ?case by (simp add: reads_operand_paren)
next
  case (Or a b)
  then have "reads_or (Or a b)" by (simp add: reads_or_Or)
  moreover from this have "reads_operand (Or a b)" by (simp add: reads_operand_paren)
  ultimately show ?case by (simp add: reads_and_operand)
qed (auto intro!: reads_operand_condition reads_and_operand reads_or_and)

lemma predicate_at:
  assumes "pred_ok p" "k + node_count p \<le> MAX_PREDICATE_NODES" "\<not> peek_kw ''and'' (cursor_at rest 0)" "\<not> peek_kw ''or'' (cursor_at rest 0)"
  shows "parse_predicate (cursor_at (show_pred p @ rest) k) = (Ok p, cursor_at rest (k + node_count p))"
  using reads_or_predicate [of p "length (show_level 0 p @ rest)" k rest] reads_printed [OF assms(1)] assms(2-)
  by (simp add: parse_predicate_def fuelled_def show_pred_def fits_def del: predicate_within.simps)

section \<open>SQL text\<close>

fun show_tok :: "tok \<Rightarrow> chars" where
  "show_tok (TWord w) = w"
| "show_tok (TIdent w) = [34] @ concat (map (\<lambda>c. if c = 34 then [34, 34] else [c]) w) @ [34]"
| "show_tok (TStr s) = [39] @ concat (map (\<lambda>c. if c = 39 then [39, 39] else [c]) s) @ [39]"
| "show_tok (TInt i) = to_chars (val_display (VInt i))"
| "show_tok (TDec m) = to_chars (val_display (VDecimal m))"
| "show_tok TLParen = [40]"
| "show_tok TRParen = [41]"
| "show_tok TComma = [44]"
| "show_tok TEq = [61]"
| "show_tok TNe = [60, 62]"
| "show_tok TLt = [60]"
| "show_tok TLe = [60, 61]"
| "show_tok TGt = [62]"
| "show_tok TGe = [62, 61]"
| "show_tok TStar = [42]"
| "show_tok TDot = [46]"
| "show_tok TSemicolon = [59]"

definition show_text :: "tok list \<Rightarrow> chars" where
  "show_text ts = concat (map (\<lambda>t. show_tok t @ [32]) ts)"

fun lexable :: "char_class \<Rightarrow> tok \<Rightarrow> bool" where
  "lexable C (TWord w) \<longleftrightarrow> w \<noteq> [] \<and> list_all is_letter w"
| "lexable C (TIdent w) \<longleftrightarrow> w \<noteq> [] \<and> \<not> list_ex (cc_control C) w"
| "lexable C t \<longleftrightarrow> True"

fun nesting_ok :: "nat \<Rightarrow> tok list \<Rightarrow> bool" where
  "nesting_ok d [] = True"
| "nesting_ok d (TLParen # ts) = (d < MAX_SQL_PAREN_DEPTH \<and> nesting_ok (Suc d) ts)"
| "nesting_ok d (TRParen # ts) = nesting_ok (d - 1) ts"
| "nesting_ok d (t # ts) = nesting_ok d ts"

fun depth_after :: "nat \<Rightarrow> tok \<Rightarrow> nat" where
  "depth_after d TLParen = Suc d"
| "depth_after d TRParen = d - 1"
| "depth_after d _ = d"

lemma nesting_after: "nesting_ok d (t # ts) \<Longrightarrow> (t = TLParen \<longrightarrow> d < MAX_SQL_PAREN_DEPTH) \<and> nesting_ok (depth_after d t) ts"
  by (cases t) auto

lemma space_classes:
  assumes "ascii_classes C"
  shows "cc_whitespace C 32" "\<not> is_word_char C 32" "ends_literal C (32 # rest)"
  using ascii_class [OF assms, of 32] by (simp_all add: ends_literal_def is_word_char_def is_digit_def is_letter_def)

lemma punct_classes:
  assumes "ascii_classes C" "c \<in> {34, 39, 40, 41, 42, 44, 46, 59, 60, 61, 62}"
  shows "\<not> cc_whitespace C c"
  using ascii_class(1) [OF assms(1), of c] assms(2) by auto

lemma read_ident_escape:
  assumes "rest = [] \<or> hd rest \<noteq> 34" "\<not> list_ex (cc_control C) s"
  shows "read_ident C 34 acc (concat (map (\<lambda>c. if c = 34 then [34, 34] else [c]) s) @ [34] @ rest) = Ok (acc @ s, rest)"
  using assms
proof (induction s arbitrary: acc)
  case Nil
  then show ?case by (cases rest) auto
qed auto

lemma letter_step:
  assumes "ascii_classes C" "is_letter c"
  shows "\<not> cc_whitespace C c" "lex_punct depth c cs = None" "c \<notin> {39, 34, 96, 91, 45}" "\<not> is_digit c" "is_word_char C c"
proof -
  have "c < 128" using assms(2) by (auto simp: is_letter_def word_less_nat_alt word_le_nat_alt)
  from ascii_class [OF assms(1) this] assms(2) show "\<not> cc_whitespace C c" "is_word_char C c"
    by (auto simp: is_word_char_def is_letter_def is_digit_def word_less_nat_alt word_le_nat_alt)
  show "lex_punct depth c cs = None" "c \<notin> {39, 34, 96, 91, 45}" "\<not> is_digit c"
    using assms(2) by (auto simp: lex_punct.simps is_letter_def is_digit_def word_less_nat_alt word_le_nat_alt)
qed

lemma lex_shown:
  assumes C: "ascii_classes C" and t: "lexable C t" and d: "t = TLParen \<longrightarrow> d < MAX_SQL_PAREN_DEPTH"
  shows "\<exists>c cs. show_tok t = c # cs \<and> lex_step C d c (cs @ 32 # rest) = Ok (Some t, depth_after d t, 32 # rest)"
proof (cases t)
  case (TWord w)
  then obtain c cs where w: "w = c # cs" "is_letter c" "list_all is_letter cs" using t by (cases w) auto
  then have "list_all (is_word_char C) (c # cs)" using letter_step(5) [OF C] by (auto simp: list_all_iff)
  from takeWhile_all [OF this, of "32 # rest"] space_classes(2) [OF C]
  have "takeWhile (is_word_char C) (c # cs @ 32 # rest) = c # cs \<and> dropWhile (is_word_char C) (c # cs @ 32 # rest) = 32 # rest" by simp
  with TWord w letter_step [OF C w(2)] show ?thesis by (simp add: lex_step_def)
next
  case (TIdent w)
  with t read_ident_escape [of "32 # rest" C w "[]"] punct_classes [OF C, of 34] show ?thesis
    by (simp add: lex_step_def lex_punct.simps is_digit_def)
next
  case (TStr w)
  with read_string_escape [of "32 # rest" "[]" w] punct_classes [OF C, of 39] show ?thesis
    by (simp add: lex_step_def lex_punct.simps)
next
  case (TInt i)
  with lex_literal [OF C, of "VInt i" _ "32 # rest" d] space_classes(3) [OF C] show ?thesis by auto
next
  case (TDec i)
  with lex_literal [OF C, of "VDecimal i" _ "32 # rest" d] space_classes(3) [OF C] show ?thesis by auto
qed (use punct_classes [OF C] d in \<open>simp_all add: lex_step_def lex_punct.simps\<close>)

lemma tokenize_shown:
  assumes C: "ascii_classes C" and "list_all (lexable C) ts" "nesting_ok d ts"
  shows "\<exists>toks. tokenize_from C d pos (show_text ts) = Ok toks \<and> map fst toks = ts"
  using assms(2-)
proof (induction ts arbitrary: d pos)
  case (Cons t ts)
  from nesting_after [OF Cons.prems(2)] have d: "t = TLParen \<longrightarrow> d < MAX_SQL_PAREN_DEPTH" "nesting_ok (depth_after d t) ts" by auto
  obtain c cs where step: "show_tok t = c # cs" "lex_step C d c (cs @ 32 # show_text ts) = Ok (Some t, depth_after d t, 32 # show_text ts)"
    using lex_shown [OF C _ d(1), of "show_text ts"] Cons.prems(1) by auto
  have space: "lex_step C (depth_after d t) 32 (show_text ts) = Ok (None, depth_after d t, show_text ts)"
    using space_classes(1) [OF C] by (simp add: lex_step_def)
  obtain toks where "tokenize_from C (depth_after d t) (pos + length (c # cs) + 1) (show_text ts) = Ok toks" "map fst toks = ts"
    using Cons.IH [OF _ d(2)] Cons.prems(1) by fastforce
  then show ?case using step space by (simp add: show_text_def)
qed (simp add: show_text_def)

section \<open>The node limit\<close>

definition keeps_nodes :: "'a parser \<Rightarrow> bool" where
  "keeps_nodes m \<longleftrightarrow> (\<forall>cur x cur'. m cur = (Ok x, cur') \<longrightarrow> cur_nodes cur' = cur_nodes cur)"

lemma keeps_then: "keeps_nodes m \<Longrightarrow> (\<And>x. keeps_nodes (f x)) \<Longrightarrow> keeps_nodes (act_then m f)"
  unfolding keeps_nodes_def by (auto elim!: act_then_cases)

lemma keeps_next: "keeps_nodes next_tok"
  by (auto simp: keeps_nodes_def next_tok_def split: list.splits)

lemma keeps_return: "keeps_nodes (act_return r)" "keeps_nodes (fail msg)"
  by (simp_all add: keeps_nodes_def fail_def)

lemma keeps_when: "keeps_nodes m \<Longrightarrow> keeps_nodes m' \<Longrightarrow> keeps_nodes (when_kw kw m m')" "keeps_nodes m \<Longrightarrow> keeps_nodes m' \<Longrightarrow> keeps_nodes (when_tok t m m')"
  using keeps_then [OF keeps_next, of "\<lambda>_. m"] by (simp_all add: keeps_nodes_def when_kw_def when_tok_def)

lemmas keeps_rules = keeps_then keeps_next keeps_return keeps_when

lemma keeps_tokens: "keeps_nodes value_tok" "keeps_nodes (keyword kw)" "keeps_nodes (expect t)" "keeps_nodes ident" "keeps_nodes (comparison_op b)"
  unfolding value_tok_def keyword_def expect_def ident_def comparison_op_def
  by (intro keeps_rules; auto intro: keeps_return split: tok.split)+

lemma keeps_column_ref: "keeps_nodes column_ref"
  unfolding column_ref_def by (intro keeps_rules keeps_tokens)

lemma keeps_items: "(\<And>acc. keeps_nodes (item acc)) \<Longrightarrow> keeps_nodes (fuelled (\<lambda>n. items_rparen n item acc))"
proof -
  assume item: "\<And>acc. keeps_nodes (item acc)"
  have "keeps_nodes (items_rparen n item acc)" for n acc
  proof (induction n arbitrary: acc)
    case (Suc n)
    then have "keeps_nodes (case t of TComma \<Rightarrow> items_rparen n item a | TRParen \<Rightarrow> act_return (Ok a) | _ \<Rightarrow> fail msg)" for t a msg
      by (auto intro: keeps_return split: tok.split)
    then show ?case unfolding items_rparen.simps by (intro keeps_then item keeps_next)
  qed (simp add: keeps_return)
  then show ?thesis by (simp add: keeps_nodes_def fuelled_def del: items_rparen.simps)
qed

text \<open>\<open>counts m\<close>: the parser adds the nodes of the predicate it returns, within the limit.\<close>

definition counted :: "predicate \<Rightarrow> nat \<Rightarrow> cursor \<Rightarrow> cursor \<Rightarrow> bool" where
  "counted p n cur cur' \<longleftrightarrow> cur_nodes cur' + n = cur_nodes cur + node_count p \<and> cur_nodes cur' \<le> MAX_PREDICATE_NODES"

definition counts :: "predicate parser \<Rightarrow> bool" where
  "counts m \<longleftrightarrow> (\<forall>cur p cur'. cur_nodes cur \<le> MAX_PREDICATE_NODES \<longrightarrow> m cur = (Ok p, cur') \<longrightarrow> counted p 0 cur cur')"

lemma node_counts: "predicate_node cur = (Ok u, cur') \<Longrightarrow> cur_nodes cur \<le> MAX_PREDICATE_NODES \<Longrightarrow> cur_nodes cur' = Suc (cur_nodes cur) \<and> cur_nodes cur' \<le> MAX_PREDICATE_NODES"
  by (auto simp: predicate_node_def Let_def saturating_add_def usize_max_def MAX_PREDICATE_NODES_def split: if_splits)

definition single :: "predicate parser \<Rightarrow> bool" where
  "single m \<longleftrightarrow> (\<forall>cur p cur'. m cur = (Ok p, cur') \<longrightarrow> cur_nodes cur' = cur_nodes cur \<and> node_count p = 1)"

lemma single_then: "keeps_nodes m \<Longrightarrow> (\<And>x. single (f x)) \<Longrightarrow> single (act_then m f)"
  unfolding keeps_nodes_def single_def by (auto elim!: act_then_cases)

lemma single_return: "node_count p = 1 \<Longrightarrow> single (act_return (Ok p))" "single (fail msg)"
  by (simp_all add: single_def fail_def)

lemma single_when: "single m \<Longrightarrow> single m' \<Longrightarrow> single (when_kw kw m m')"
  using single_then [OF keeps_next, of "\<lambda>_. m"] by (simp add: single_def when_kw_def)

lemma counts_condition: "counts parse_condition"
proof -
  have "single (act_then column_ref (\<lambda>column.
       when_kw ''in'' (parse_in column False) (
       when_kw ''between'' (parse_between column False) (
       when_kw ''is''
         (when_kw ''not''
           (act_then (keyword ''null'') (\<lambda>_. act_return (Ok (IsNull column True))))
           (act_then (keyword ''null'') (\<lambda>_. act_return (Ok (IsNull column False))))) (
       when_kw ''not''
         (when_kw ''in'' (parse_in column True) (
          when_kw ''between'' (parse_between column True) (
          when_kw ''like''
            (act_then value_tok (\<lambda>v. act_return (Ok (Compare column OpNotLike v))))
            (fail ''expected IN, BETWEEN, or LIKE after NOT'')))) (
       act_then (comparison_op True) (\<lambda>op. act_then value_tok (\<lambda>v. act_return (Ok (Compare column op v)))))))) ))" (is "single ?m")
    unfolding parse_in_def parse_between_def
    by (intro single_then single_when single_return keeps_column_ref keeps_tokens keeps_items) simp_all
  then show ?thesis unfolding counts_def parse_condition_def
    by (auto elim!: act_then_cases [of predicate_node] simp: counted_def single_def dest!: node_counts)
qed

lemma counts_operators:
  assumes "counts operand" "\<And>a b. node_count (mk a b) = node_count a + 1 + node_count b"
  shows "counts (operators kw mk operand)"
proof -
  have loop: "counted p (node_count left) cur cur'" if "operator_loop n kw mk operand left cur = (Ok p, cur')" "cur_nodes cur \<le> MAX_PREDICATE_NODES" for n left cur p cur'
    using that
  proof (induction n arbitrary: left cur)
    case (Suc n)
    show ?case
    proof (cases "peek_kw kw cur")
      case False
      with Suc.prems show ?thesis by (simp add: when_kw_def counted_def)
    next
      case True
      with Suc.prems(1) obtain t c1 u c2 right c3 where run: "next_tok cur = (Ok t, c1)" "predicate_node c1 = (Ok u, c2)" "operand c2 = (Ok right, c3)"
        "operator_loop n kw mk operand (mk left right) c3 = (Ok p, cur')"
        by (auto simp: when_kw_def elim!: act_then_cases)
      have "cur_nodes c1 = cur_nodes cur" using run(1) keeps_next by (auto simp: keeps_nodes_def)
      moreover have "cur_nodes c2 = Suc (cur_nodes c1)" "cur_nodes c2 \<le> MAX_PREDICATE_NODES" using node_counts [OF run(2)] Suc.prems(2) calculation by auto
      moreover have "counted right 0 c2 c3" using assms(1) run(3) calculation by (auto simp: counts_def)
      moreover have "counted p (node_count (mk left right)) c3 cur'" using Suc.IH [OF run(4)] calculation by (auto simp: counted_def)
      ultimately show ?thesis using assms(2) by (simp add: counted_def)
    qed
  qed simp
  show ?thesis unfolding counts_def operators_def
  proof (intro allI impI)
    fix cur p cur'
    assume n: "cur_nodes cur \<le> MAX_PREDICATE_NODES" and run: "act_then operand (\<lambda>left. fuelled (\<lambda>n. operator_loop n kw mk operand left)) cur = (Ok p, cur')"
    from run obtain left c where left: "operand cur = (Ok left, c)" and rest: "operator_loop (Suc (length (cur_toks c))) kw mk operand left c = (Ok p, cur')"
      by (auto simp: fuelled_def simp del: operator_loop.simps elim!: act_then_cases)
    from left n have c: "counted left 0 cur c" using assms(1) by (auto simp: counts_def)
    then have "counted p (node_count left) c cur'" by (intro loop [OF rest]) (simp add: counted_def)
    with c show "counted p 0 cur cur'" by (simp add: counted_def)
  qed
qed

lemma counts_predicate: "counts (predicate_within n)"
proof (induction n)
  case (Suc n)
  have "counts (parse_comparison (predicate_within n))"
    unfolding counts_def
  proof (intro allI impI)
    fix cur p cur'
    assume n: "cur_nodes cur \<le> MAX_PREDICATE_NODES" and run: "parse_comparison (predicate_within n) cur = (Ok p, cur')"
    show "counted p 0 cur cur'"
    proof (cases "peek cur = Some TLParen")
      case False
      with n run counts_condition show ?thesis by (auto simp: parse_comparison_def when_tok_def counts_def)
    next
      case True
      with run obtain t c1 c2 u where steps: "next_tok cur = (Ok t, c1)" "predicate_within n c1 = (Ok p, c2)" "expect TRParen c2 = (Ok u, cur')"
        by (auto simp: parse_comparison_def when_tok_def elim!: act_then_cases)
      have c1: "cur_nodes c1 = cur_nodes cur" using steps(1) keeps_next unfolding keeps_nodes_def by blast
      have "cur_nodes cur' = cur_nodes c2" using steps(3) keeps_tokens(3) unfolding keeps_nodes_def by blast
      moreover have "counted p 0 c1 c2" using Suc steps(2) n c1 unfolding counts_def by auto
      ultimately show ?thesis using c1 by (simp add: counted_def)
    qed
  qed
  then show ?case unfolding predicate_within.simps parse_and_def by (intro counts_operators) simp_all
qed (simp add: counts_def)

text \<open>
  C23: Every predicate the parser accepts respects the complexity limit: its conditions and connectives are exactly the nodes the cursor has counted,
  over the whole statement, and the count never exceeds \<^verbatim>\<open>MAX_PREDICATE_NODES\<close>.
\<close>

theorem parse_predicate_bounded:
  assumes "parse_predicate cur = (Ok p, cur')" "cur_nodes cur \<le> MAX_PREDICATE_NODES"
  shows "cur_nodes cur' = cur_nodes cur + node_count p \<and> cur_nodes cur' \<le> MAX_PREDICATE_NODES"
proof -
  have "counted p 0 cur cur'"
    using assms counts_predicate unfolding parse_predicate_def fuelled_def counts_def by blast
  then show ?thesis by (simp add: counted_def)
qed

theorem parse_predicate_bounded_witness:
  "\<exists>p cur'. parse_predicate (cursor_at [TIdent [97], TEq, TInt 1, kw_token ''or'', TIdent [98], TEq, TInt 2] 0) = (Ok p, cur') \<and> cur_nodes cur' = node_count p \<and> node_count p \<le> 256"
proof -
  let ?p = "Or (Compare [97] OpEq (VInt 1)) (Compare [98] OpEq (VInt 2))"
  have "show_pred ?p = [TIdent [97], TEq, TInt 1, kw_token ''or'', TIdent [98], TEq, TInt 2]" by code_simp
  moreover have "pred_ok ?p" by code_simp
  ultimately have run: "parse_predicate (cursor_at [TIdent [97], TEq, TInt 1, kw_token ''or'', TIdent [98], TEq, TInt 2] 0) = (Ok ?p, cursor_at [] 3)"
    using predicate_at [of ?p 0 "[]"] by (simp add: MAX_PREDICATE_NODES_def)
  from parse_predicate_bounded [OF run] show ?thesis using run by (simp add: MAX_PREDICATE_NODES_def)
qed

end
