(* ===== verification/Sql_Items.thy ===== *)
theory Sql_Items
  imports Sql_Print
begin

text \<open>
  Printing and reading back of the select list: columns, aggregates, literals, scalar functions, \<^verbatim>\<open>CASE\<close> and aliases. The conditions of \<^verbatim>\<open>CASE\<close>
  branches count against the node limit of the statement, so every run is stated with the number of nodes it adds.
\<close>

section \<open>Lists\<close>

lemma sum_list_member: "x \<in> set xs \<Longrightarrow> f x \<le> (sum_list (map f xs) :: nat)"
  by (induction xs) auto

lemma commas_Cons: "commas (f x # map f xs) @ rest = f x @ (if xs = [] then rest else TComma # commas (map f xs) @ rest)"
  by (cases xs) auto

lemma commas_count: "length xs \<le> Suc (length (commas (map f xs)))"
proof (induction xs)
  case (Cons x xs)
  then show ?case by (cases xs) auto
qed simp

text \<open>A list of items separated by commas is read back when every item is; \<open>g\<close> gives the nodes an item adds and \<open>M\<close> the limit.\<close>

lemma commas_counted:
  assumes "xs \<noteq> []"
    "\<And>x ts k. x \<in> set xs \<Longrightarrow> ts = rest \<or> (\<exists>a. ts = TComma # a) \<Longrightarrow> k + g x \<le> M \<Longrightarrow> item (cursor_at (f x @ ts) k) = (Ok x, cursor_at ts (k + g x))"
    "rest = [] \<or> hd rest \<noteq> TComma" "k + sum_list (map g xs) \<le> M"
  shows "comma_list item (cursor_at (commas (map f xs) @ rest) k) = (Ok xs, cursor_at rest (k + sum_list (map g xs)))"
proof -
  let ?more = "\<lambda>ys. if ys = [] then rest else TComma # commas (map f ys) @ rest"
  have more: "more_items n item acc (cursor_at (?more ys) k) = (Ok (acc @ ys), cursor_at rest (k + sum_list (map g ys)))"
    if "set ys \<subseteq> set xs" "length ys < n" "k + sum_list (map g ys) \<le> M" for ys n acc k
    using that
  proof (induction ys arbitrary: n acc k)
    case Nil
    then show ?case using assms(3) by (cases n; cases rest) auto
  next
    case (Cons y ys)
    then obtain m where m: "n = Suc m" by (cases n) auto
    have "item (cursor_at (f y @ ?more ys) k) = (Ok y, cursor_at (?more ys) (k + g y))"
      using Cons.prems by (intro assms(2)) auto
    moreover have "more_items m item (acc @ [y]) (cursor_at (?more ys) (k + g y)) = (Ok ((acc @ [y]) @ ys), cursor_at rest (k + g y + sum_list (map g ys)))"
      using Cons.prems m by (intro Cons.IH) auto
    ultimately show ?case using m commas_Cons [of f y ys rest] by (simp add: then_at add.assoc)
  qed
  obtain x ys where xs: "xs = x # ys" using assms(1) by (cases xs) auto
  have "length ys \<le> length (?more ys)" using commas_count [of ys f] by simp
  moreover have "item (cursor_at (f x @ ?more ys) k) = (Ok x, cursor_at (?more ys) (k + g x))" using assms(4) by (intro assms(2)) (auto simp: xs)
  moreover have "more_items (Suc (length (?more ys))) item [x] (cursor_at (?more ys) (k + g x)) = (Ok ([x] @ ys), cursor_at rest (k + g x + sum_list (map g ys)))"
    using assms(4) calculation(1) by (intro more) (auto simp: xs)
  ultimately show ?thesis unfolding xs list.map commas_Cons by (simp add: comma_list_def then_at fuelled_def add.assoc del: more_items.simps)
qed

lemma commas_at:
  assumes "xs \<noteq> []"
    "\<And>x ts k. x \<in> set xs \<Longrightarrow> ts = rest \<or> (\<exists>a. ts = TComma # a) \<Longrightarrow> item (cursor_at (f x @ ts) k) = (Ok x, cursor_at ts k)"
    "rest = [] \<or> hd rest \<noteq> TComma"
  shows "comma_list item (cursor_at (commas (map f xs) @ rest) k) = (Ok xs, cursor_at rest k)"
  using commas_counted [OF assms(1), of rest "\<lambda>_. 0" k item f k] assms(2,3) by (simp add: sum_list_0)

section \<open>Scalar expressions\<close>

definition func_word :: "scalar_func \<Rightarrow> string" where
  "func_word f = (case f of Lower \<Rightarrow> ''lower'' | Upper \<Rightarrow> ''upper'' | Trim \<Rightarrow> ''trim'' | Length \<Rightarrow> ''length'' | Abs \<Rightarrow> ''abs'' | Coalesce \<Rightarrow> ''coalesce'' | NullIf \<Rightarrow> ''nullif'')"

fun show_scalar :: "scalar_expr \<Rightarrow> tok list" where
  "show_scalar (ScalarColumn c) = [name_token c]"
| "show_scalar (ScalarLiteral v) = [literal_token v]"
| "show_scalar (ScalarFunction f args) = [kw_token (func_word f), TLParen] @ commas (map show_scalar args) @ [TRParen]"
| "show_scalar (ScalarCase branches otherwise) =
     kw_token ''case'' # concat (map (\<lambda>(p, e). kw_token ''when'' # show_pred p @ kw_token ''then'' # show_scalar e) branches) @
     (case otherwise of None \<Rightarrow> [] | Some e \<Rightarrow> kw_token ''else'' # show_scalar e) @ [kw_token ''end'']"

fun scalar_nodes :: "scalar_expr \<Rightarrow> nat" where
  "scalar_nodes (ScalarFunction f args) = sum_list (map scalar_nodes args)"
| "scalar_nodes (ScalarCase branches otherwise) =
     sum_list (map (\<lambda>(p, e). node_count p + scalar_nodes e) branches) + (case otherwise of None \<Rightarrow> 0 | Some e \<Rightarrow> scalar_nodes e)"
| "scalar_nodes _ = 0"

text \<open>\<open>scalar_within d e\<close>: the expression is well formed and nested at most \<open>d\<close> levels deep.\<close>

fun scalar_within :: "nat \<Rightarrow> scalar_expr \<Rightarrow> bool" where
  "scalar_within 0 e = False"
| "scalar_within (Suc d) (ScalarColumn c) = utf8_valid c"
| "scalar_within (Suc d) (ScalarLiteral v) = val_ok v"
| "scalar_within (Suc d) (ScalarFunction f args) = (valid_arity f (length args) \<and> list_all (scalar_within d) args)"
| "scalar_within (Suc d) (ScalarCase branches otherwise) =
     (branches \<noteq> [] \<and> list_all (\<lambda>(p, e). pred_ok p \<and> scalar_within d e) branches \<and> (case otherwise of None \<Rightarrow> True | Some e \<Rightarrow> scalar_within d e))"

lemma scalar_words [simp]: "lower_word ''case''" "lower_word ''when''" "lower_word ''then''" "lower_word ''else''" "lower_word ''end''" "lower_word (func_word f)"
    "func_word f \<noteq> ''case''" "func_word f \<noteq> ''null''" "func_word f \<noteq> ''distinct''" "func_word f \<noteq> ''from''"
  by (simp_all add: lower_word_def func_word_def split: scalar_func.splits)

lemma func_word_known: "scalar_func_of (utf8_encode (to_chars (ascii (func_word f)))) = Some f"
proof -
  have "list_all (\<lambda>f. scalar_func_of (utf8_encode (to_chars (ascii (func_word f)))) = Some f) [Lower, Upper, Trim, Length, Abs, Coalesce, NullIf]" by code_simp
  then show ?thesis by (cases f) simp_all
qed

text \<open>What may follow an expression.\<close>

definition ends_expr :: "tok list \<Rightarrow> bool" where
  "ends_expr ts \<longleftrightarrow> ts = [] \<or> hd ts \<notin> {TDot, TLParen}"

lemma ends_expr_simps [simp]: "ends_expr []" "ends_expr (TComma # ts)" "ends_expr (TRParen # ts)" "ends_expr (kw_token s # ts)"
  by (simp_all add: ends_expr_def)

lemma column_ends: "utf8_valid c \<Longrightarrow> ends_expr rest \<Longrightarrow> column_ref (cursor_at (name_token c # rest) k) = (Ok c, cursor_at rest k)"
  by (cases rest) (auto simp: ends_expr_def)

lemma literal_head: "val_ok v \<Longrightarrow> \<not> tok_kw (Some (literal_token v)) ''case'' \<and> (is_literal (Some (literal_token v)) \<or> tok_kw (Some (literal_token v)) ''null'')"
proof -
  have "\<not> is_kw (to_chars (ascii ''NULL'')) ''case''" "is_kw (to_chars (ascii ''NULL'')) ''null''" by code_simp+
  then show "val_ok v \<Longrightarrow> ?thesis" by (cases v) (simp_all add: tok_kw_def is_literal_def)
qed

lemma scalar_head:
  assumes "scalar_within d e"
  obtains t ts where "show_scalar e = t # ts" "t \<noteq> TRParen" "t \<noteq> TComma" "t \<noteq> TStar" "\<not> tok_kw (Some t) ''from''" "\<not> tok_kw (Some t) ''distinct''"
proof -
  have "\<not> is_kw (to_chars (ascii ''NULL'')) ''from''" "\<not> is_kw (to_chars (ascii ''NULL'')) ''distinct''" by code_simp+
  then have "\<not> tok_kw (Some (literal_token v)) ''from''" "\<not> tok_kw (Some (literal_token v)) ''distinct''" "literal_token v \<noteq> TStar" for v
    by (cases v; simp add: tok_kw_def)+
  then show ?thesis using assms that literal_not_kw by (cases e) (auto simp: name_token_def)
qed

definition branch_nodes :: "predicate \<times> scalar_expr \<Rightarrow> nat" where
  "branch_nodes b = node_count (fst b) + scalar_nodes (snd b)"

definition show_branch :: "predicate \<times> scalar_expr \<Rightarrow> tok list" where
  "show_branch b = kw_token ''when'' # show_pred (fst b) @ kw_token ''then'' # show_scalar (snd b)"

lemma show_case:
  "show_scalar (ScalarCase branches otherwise) =
     kw_token ''case'' # concat (map show_branch branches) @ (case otherwise of None \<Rightarrow> [] | Some e \<Rightarrow> kw_token ''else'' # show_scalar e) @ [kw_token ''end'']"
  "scalar_nodes (ScalarCase branches otherwise) = sum_list (map branch_nodes branches) + (case otherwise of None \<Rightarrow> 0 | Some e \<Rightarrow> scalar_nodes e)"
proof -
  have "(\<lambda>(p, e). kw_token ''when'' # show_pred p @ kw_token ''then'' # show_scalar e) = show_branch" "(\<lambda>(p, e). node_count p + scalar_nodes e) = branch_nodes"
    by (auto simp: show_branch_def branch_nodes_def)
  then show "show_scalar (ScalarCase branches otherwise) =
     kw_token ''case'' # concat (map show_branch branches) @ (case otherwise of None \<Rightarrow> [] | Some e \<Rightarrow> kw_token ''else'' # show_scalar e) @ [kw_token ''end'']"
    "scalar_nodes (ScalarCase branches otherwise) = sum_list (map branch_nodes branches) + (case otherwise of None \<Rightarrow> 0 | Some e \<Rightarrow> scalar_nodes e)"
    by simp_all
qed

lemma branches_at:
  assumes "\<And>p e ts k. (p, e) \<in> set bs \<Longrightarrow> ends_expr ts \<Longrightarrow> k + scalar_nodes e \<le> MAX_PREDICATE_NODES \<Longrightarrow>
      pred_ok p \<and> scalar (cursor_at (show_scalar e @ ts) k) = (Ok e, cursor_at ts (k + scalar_nodes e))"
    "length bs < n" "ends_expr rest" "\<not> peek_kw ''when'' (cursor_at rest 0)" "k + sum_list (map branch_nodes bs) \<le> MAX_PREDICATE_NODES"
  shows "case_branches n scalar acc (cursor_at (concat (map show_branch bs) @ rest) k) = (Ok (acc @ bs), cursor_at rest (k + sum_list (map branch_nodes bs)))"
  using assms
proof (induction bs arbitrary: n acc k)
  case Nil
  then show ?case by (cases n; cases rest) (auto simp: peek_kw_def)
next
  case (Cons b bs)
  obtain p e where b: "b = (p, e)" by (cases b)
  obtain m where m: "n = Suc m" using Cons.prems(2) by (cases n) auto
  let ?tail = "concat (map show_branch bs) @ rest" and ?k = "k + node_count p"
  have tail: "ends_expr ?tail" using Cons.prems(3) by (cases bs) (auto simp: show_branch_def)
  have total: "?k + scalar_nodes e + sum_list (map branch_nodes bs) \<le> MAX_PREDICATE_NODES" using Cons.prems(5) by (simp add: b branch_nodes_def [of "(p, e)"])
  have "pred_ok p" "scalar (cursor_at (show_scalar e @ ?tail) ?k) = (Ok e, cursor_at ?tail (?k + scalar_nodes e))"
    using Cons.prems(1) [of p e ?tail ?k] tail total by (auto simp: b)
  moreover from this have "parse_predicate (cursor_at (show_pred p @ kw_token ''then'' # show_scalar e @ ?tail) k) = (Ok p, cursor_at (kw_token ''then'' # show_scalar e @ ?tail) ?k)"
    using total by (intro predicate_at) (auto simp: peek_kw_at)
  moreover have "case_branches m scalar (acc @ [b]) (cursor_at ?tail (?k + scalar_nodes e)) = (Ok ((acc @ [b]) @ bs), cursor_at rest (?k + scalar_nodes e + sum_list (map branch_nodes bs)))"
    using Cons.prems m total by (intro Cons.IH) auto
  ultimately show ?case by (simp add: m b show_branch_def [of "(p, e)"] branch_nodes_def [of "(p, e)"] then_at add.assoc)
qed

lemma call_at:
  assumes "valid_arity f (length args)" "\<And>e ts k. e \<in> set args \<Longrightarrow> ends_expr ts \<Longrightarrow> k + scalar_nodes e \<le> MAX_PREDICATE_NODES \<Longrightarrow>
      scalar_within d e \<and> scalar (cursor_at (show_scalar e @ ts) k) = (Ok e, cursor_at ts (k + scalar_nodes e))"
    "k + scalar_nodes (ScalarFunction f args) \<le> MAX_PREDICATE_NODES"
  shows "parse_call scalar (cursor_at (show_scalar (ScalarFunction f args) @ rest) k) = (Ok (ScalarFunction f args), cursor_at rest (k + scalar_nodes (ScalarFunction f args)))"
proof -
  have args: "args \<noteq> []" using assms(1) by (auto simp: valid_arity_def split: scalar_func.splits)
  let ?n = "sum_list (map scalar_nodes args)" and ?ts = "commas (map show_scalar args) @ TRParen # rest"
  have list: "comma_list scalar (cursor_at ?ts k) = (Ok args, cursor_at (TRParen # rest) (k + ?n))"
    using assms(2,3) args by (intro commas_counted [where M = MAX_PREDICATE_NODES]) auto
  obtain e es where es: "args = e # es" using args by (cases args) auto
  have "scalar_within d e" using assms(2) [of e "[]" 0] assms(2) [of e "[]" k] assms(3) es by auto
  then obtain t ts where "show_scalar e = t # ts" "t \<noteq> TRParen" by (rule scalar_head)
  then have head: "peek (cursor_at ?ts k) \<noteq> Some TRParen" unfolding es list.map commas_Cons by simp
  have name: "column_ref (cursor_at (kw_token (func_word f) # TLParen # ?ts) k) = (Ok (utf8_encode (to_chars (ascii (func_word f)))), cursor_at (TLParen # ?ts) k)"
    by (simp add: column_ref_def ident_def then_at kw_token_def)
  show ?thesis using assms(1) head by (simp add: parse_call_def then_at name func_word_known list)
qed

lemma case_at:
  assumes "branches \<noteq> []" "\<And>p e ts k. (p, e) \<in> set branches \<Longrightarrow> ends_expr ts \<Longrightarrow> k + scalar_nodes e \<le> MAX_PREDICATE_NODES \<Longrightarrow>
      pred_ok p \<and> scalar (cursor_at (show_scalar e @ ts) k) = (Ok e, cursor_at ts (k + scalar_nodes e))"
    "\<And>e ts k. otherwise = Some e \<Longrightarrow> ends_expr ts \<Longrightarrow> k + scalar_nodes e \<le> MAX_PREDICATE_NODES \<Longrightarrow> scalar (cursor_at (show_scalar e @ ts) k) = (Ok e, cursor_at ts (k + scalar_nodes e))"
    "k + scalar_nodes (ScalarCase branches otherwise) \<le> MAX_PREDICATE_NODES"
  shows "parse_case scalar (cursor_at (show_scalar (ScalarCase branches otherwise) @ rest) k) = (Ok (ScalarCase branches otherwise), cursor_at rest (k + scalar_nodes (ScalarCase branches otherwise)))"
proof -
  let ?else = "(case otherwise of None \<Rightarrow> [] | Some e \<Rightarrow> kw_token ''else'' # show_scalar e) @ kw_token ''end'' # rest"
  let ?n = "sum_list (map branch_nodes branches)"
  have len: "length branches < Suc (length (concat (map show_branch branches) @ ?else))"
    by (induction branches) (auto simp: show_branch_def)
  have else_head: "ends_expr ?else" "\<not> peek_kw ''when'' (cursor_at ?else 0)" by (cases otherwise; simp add: peek_kw_at)+
  have "case_branches (Suc (length (concat (map show_branch branches) @ ?else))) scalar [] (cursor_at (concat (map show_branch branches) @ ?else) k) =
      (Ok ([] @ branches), cursor_at ?else (k + ?n))"
    using assms(2,4) unfolding show_case by (intro branches_at [OF _ len else_head]) auto
  moreover have "(when_kw ''else'' (act_then scalar (\<lambda>e. act_return (Ok (Some e)))) (act_return (Ok None))) (cursor_at ?else (k + ?n)) =
      (Ok otherwise, cursor_at (kw_token ''end'' # rest) (k + scalar_nodes (ScalarCase branches otherwise)))"
    using assms(3,4) unfolding show_case by (cases otherwise) (simp_all add: then_at add.assoc)
  ultimately show ?thesis using assms(1) unfolding show_case(1) by (simp add: parse_case_def then_at fuelled_def del: case_branches.simps scalar_nodes.simps)
qed

lemma scalar_at:
  assumes "scalar_within d e" "ends_expr rest" "k + scalar_nodes e \<le> MAX_PREDICATE_NODES"
  shows "parse_scalar_expr_at_depth d (cursor_at (show_scalar e @ rest) k) = (Ok e, cursor_at rest (k + scalar_nodes e))"
  using assms
proof (induction d e arbitrary: rest k rule: scalar_within.induct)
  case (2 d c)
  then have "\<not> is_literal (Some (name_token c))" by (simp add: is_literal_def name_token_def)
  moreover have "when_tok TLParen m m' (cursor_at rest k) = m' (cursor_at rest k)" for m m' :: "scalar_expr parser" using 2 by (cases rest) (auto simp: ends_expr_def)
  ultimately show ?case using 2 by (simp add: peek_kw_def parse_call_def column_ends then_at)
next
  case (3 d v)
  with literal_head [of v] show ?case by (simp add: peek_kw_def then_at)
next
  case (4 d f args)
  have "\<not> is_literal (Some (kw_token (func_word f)))" by (simp add: is_literal_def kw_token_def)
  moreover have "parse_call (parse_scalar_expr_at_depth d) (cursor_at (show_scalar (ScalarFunction f args) @ rest) k) =
      (Ok (ScalarFunction f args), cursor_at rest (k + scalar_nodes (ScalarFunction f args)))"
    using 4 by (intro call_at [where d = d]) (auto simp: list_all_iff)
  ultimately show ?case by (simp add: peek_kw_def)
next
  case (5 d branches otherwise)
  have "parse_case (parse_scalar_expr_at_depth d) (cursor_at (show_scalar (ScalarCase branches otherwise) @ rest) k) =
      (Ok (ScalarCase branches otherwise), cursor_at rest (k + scalar_nodes (ScalarCase branches otherwise)))"
    using 5 by (intro case_at) (auto simp: list_all_iff)
  then show ?case by (simp add: peek_kw_def)
qed simp

section \<open>The select list\<close>

definition agg_word :: "agg_func \<Rightarrow> string" where
  "agg_word f = (case f of Count \<Rightarrow> ''count'' | Sum \<Rightarrow> ''sum'' | Min \<Rightarrow> ''min'' | Max \<Rightarrow> ''max'' | Avg \<Rightarrow> ''avg'')"

definition show_aggregate :: "aggregate \<Rightarrow> tok list" where
  "show_aggregate a = [kw_token (agg_word (ag_func a)), TLParen, (case ag_column a of None \<Rightarrow> TStar | Some c \<Rightarrow> name_token c), TRParen]"

fun show_expr :: "select_expr \<Rightarrow> tok list" where
  "show_expr (SelectColumn c) = [name_token c]"
| "show_expr (SelectAggregate a) = show_aggregate a"
| "show_expr (SelectScalar e) = show_scalar e"

definition show_item :: "select_item \<Rightarrow> tok list" where
  "show_item i = show_expr (it_expr i) @ (case it_alias i of None \<Rightarrow> [] | Some n \<Rightarrow> [kw_token ''as'', name_token n])"

definition aggregate_ok :: "aggregate \<Rightarrow> bool" where
  "aggregate_ok a = (case ag_column a of None \<Rightarrow> ag_func a = Count | Some c \<Rightarrow> utf8_valid c)"

fun expr_ok :: "select_expr \<Rightarrow> bool" where
  "expr_ok (SelectColumn c) = utf8_valid c"
| "expr_ok (SelectAggregate a) = aggregate_ok a"
| "expr_ok (SelectScalar e) = (scalar_within (MAX_SCALAR_DEPTH + 1) e \<and> (case e of ScalarColumn _ \<Rightarrow> False | _ \<Rightarrow> True))"

fun expr_nodes :: "select_expr \<Rightarrow> nat" where
  "expr_nodes (SelectScalar e) = scalar_nodes e"
| "expr_nodes _ = 0"

definition item_ok :: "select_item \<Rightarrow> bool" where
  "item_ok i \<longleftrightarrow> expr_ok (it_expr i) \<and> (case it_alias i of None \<Rightarrow> True | Some n \<Rightarrow> utf8_valid n)"

lemma agg_words [simp]: "lower_word (agg_word f)" "lower_word ''as''" "lower_word ''from''" "agg_word f \<noteq> ''from''" "agg_word f \<noteq> ''distinct''"
  by (simp_all add: lower_word_def agg_word_def split: agg_func.splits)

lemma agg_words_known: "agg_func_of (to_chars (ascii (agg_word f))) = Some f" "agg_func_of (to_chars (ascii (func_word g))) = None"
  "agg_func_of (to_chars (ascii ''NULL'')) = None" "agg_func_of (to_chars (ascii ''case'')) = None"
proof -
  have "list_all (\<lambda>f. agg_func_of (to_chars (ascii (agg_word f))) = Some f) [Count, Sum, Min, Max, Avg]" by code_simp
  then show "agg_func_of (to_chars (ascii (agg_word f))) = Some f" by (cases f) simp_all
  have "list_all (\<lambda>f. agg_func_of (to_chars (ascii (func_word f))) = None) [Lower, Upper, Trim, Length, Abs, Coalesce, NullIf]" by code_simp
  then show "agg_func_of (to_chars (ascii (func_word g))) = None" by (cases g) simp_all
qed code_simp+

lemma aggregate_at:
  assumes "aggregate_ok a"
  shows "is_aggregate (cursor_at (show_aggregate a @ ts) k)" "parse_aggregate (cursor_at (show_aggregate a @ ts) k) = (Ok a, cursor_at ts k)"
proof -
  show "is_aggregate (cursor_at (show_aggregate a @ ts) k)" by (simp add: is_aggregate_def show_aggregate_def kw_token_def agg_words_known(1))
  show "parse_aggregate (cursor_at (show_aggregate a @ ts) k) = (Ok a, cursor_at ts k)"
    using assms by (cases a; cases "ag_column a") (auto simp: parse_aggregate_def show_aggregate_def kw_token_def agg_words_known(1) then_at aggregate_ok_def)
qed

lemma scalar_start:
  assumes "scalar_within d e" "case e of ScalarColumn _ \<Rightarrow> False | _ \<Rightarrow> True"
  shows "\<not> is_aggregate (cursor_at (show_scalar e @ ts) k)" "is_scalar_expression_start (cursor_at (show_scalar e @ ts) k)"
proof -
  show "\<not> is_aggregate (cursor_at (show_scalar e @ ts) k)"
  proof (cases e)
    case (ScalarLiteral v)
    then show ?thesis by (cases v) (auto simp: is_aggregate_def agg_words_known(3))
  qed (use assms in \<open>auto simp: is_aggregate_def kw_token_def agg_words_known(2,4)\<close>)
  show "is_scalar_expression_start (cursor_at (show_scalar e @ ts) k)"
  proof (cases e)
    case (ScalarLiteral v)
    moreover have "val_ok v" using assms(1) ScalarLiteral by (cases d) auto
    ultimately show ?thesis using literal_head [of v] by (auto simp: is_scalar_expression_start_def peek_kw_def)
  next
    case (ScalarFunction f args)
    then show ?thesis by (simp add: is_scalar_expression_start_def kw_token_def)
  qed (use assms in \<open>auto simp: is_scalar_expression_start_def peek_kw_def\<close>)
qed

lemma expr_at:
  assumes "expr_ok x" "ends_expr ts" "k + expr_nodes x \<le> MAX_PREDICATE_NODES"
  shows "(\<lambda>cur. if is_aggregate cur then act_then parse_aggregate (\<lambda>a. act_return (Ok (SelectAggregate a))) cur
       else if is_scalar_expression_start cur then act_then parse_scalar_expr (\<lambda>e. act_return (Ok (SelectScalar e))) cur
       else act_then column_ref (\<lambda>c. act_return (Ok (SelectColumn c))) cur) (cursor_at (show_expr x @ ts) k) = (Ok x, cursor_at ts (k + expr_nodes x))"
proof (cases x)
  case (SelectColumn c)
  have "\<not> is_aggregate (cursor_at (name_token c # ts) k)" "\<not> is_scalar_expression_start (cursor_at (name_token c # ts) k)"
    by (simp_all add: is_aggregate_def is_scalar_expression_start_def name_token_def is_literal_def peek_kw_def tok_kw_def)
  with SelectColumn assms show ?thesis by (simp add: column_ends then_at)
next
  case (SelectAggregate a)
  with assms aggregate_at [of a ts k] show ?thesis by (simp add: then_at)
next
  case (SelectScalar e)
  with assms scalar_start [of "MAX_SCALAR_DEPTH + 1" e ts k] scalar_at [of "MAX_SCALAR_DEPTH + 1" e ts k] show ?thesis
    by (simp add: then_at parse_scalar_expr_def del: parse_scalar_expr_at_depth.simps)
qed

lemma item_at:
  assumes "item_ok i" "ts = kw_token ''from'' # rest \<or> (\<exists>a. ts = TComma # a)" "k + expr_nodes (it_expr i) \<le> MAX_PREDICATE_NODES"
  shows "parse_select_item (cursor_at (show_item i @ ts) k) = (Ok i, cursor_at ts (k + expr_nodes (it_expr i)))"
proof -
  let ?tail = "(case it_alias i of None \<Rightarrow> [] | Some n \<Rightarrow> [kw_token ''as'', name_token n]) @ ts" and ?k = "k + expr_nodes (it_expr i)"
  have "ends_expr ?tail" using assms(2) by (cases "it_alias i") auto
  moreover have "when_kw ''as'' (act_then (alias_name msg) (\<lambda>name. act_return (Ok (Some name)))) (act_return (Ok None)) (cursor_at ?tail ?k) = (Ok (it_alias i), cursor_at ts ?k)" for msg
  proof (cases "it_alias i")
    case None
    with assms(2) show ?thesis by auto
  next
    case (Some n)
    have "ident_is_quoted (cursor_at (name_token n # ts) ?k)" by (simp add: ident_is_quoted_def name_token_def)
    with Some assms(1) show ?thesis by (simp add: item_ok_def alias_name_def then_at)
  qed
  ultimately show ?thesis using assms expr_at [of "it_expr i" ?tail k] by (simp add: parse_select_item_def show_item_def item_ok_def then_at)
qed

lemma item_head:
  assumes "item_ok i"
  obtains t ts where "show_item i = t # ts" "t \<noteq> TComma" "t \<noteq> TStar" "\<not> tok_kw (Some t) ''from''" "\<not> tok_kw (Some t) ''distinct''"
proof (cases "it_expr i")
  case (SelectScalar e)
  then have "scalar_within (MAX_SCALAR_DEPTH + 1) e" using assms by (simp add: item_ok_def)
  then obtain t ts where "show_scalar e = t # ts" "t \<noteq> TComma" "t \<noteq> TStar" "\<not> tok_kw (Some t) ''from''" "\<not> tok_kw (Some t) ''distinct''" by (rule scalar_head)
  with SelectScalar that show ?thesis by (simp add: show_item_def)
qed (use that in \<open>auto simp: show_item_def show_aggregate_def\<close>)

definition items_of :: "projection \<Rightarrow> select_item list" where
  "items_of pr = (case pr of ProjectAll \<Rightarrow> [] | ProjectColumns cs \<Rightarrow> map (\<lambda>c. \<lparr>it_expr = SelectColumn c, it_alias = None\<rparr>) cs | ProjectItems is \<Rightarrow> is)"

definition show_projection :: "projection \<Rightarrow> tok list" where
  "show_projection pr = (if pr = ProjectAll then [TStar] else commas (map show_item (items_of pr)))"

definition projection_nodes :: "projection \<Rightarrow> nat" where
  "projection_nodes pr = sum_list (map (\<lambda>i. expr_nodes (it_expr i)) (items_of pr))"

text \<open>A select list of plain columns is a \<^verbatim>\<open>ProjectColumns\<close>, any other list of items a \<^verbatim>\<open>ProjectItems\<close>.\<close>

definition projection_ok :: "projection \<Rightarrow> bool" where
  "projection_ok pr \<longleftrightarrow> list_all item_ok (items_of pr) \<and> (pr \<noteq> ProjectAll \<longrightarrow> items_of pr \<noteq> []) \<and> (case pr of ProjectItems is \<Rightarrow> \<not> list_all is_plain is | _ \<Rightarrow> True)"

lemma projection_head:
  assumes "projection_ok pr"
  obtains t ts where "show_projection pr = t # ts" "t \<noteq> TComma" "\<not> tok_kw (Some t) ''from''" "\<not> tok_kw (Some t) ''distinct''" "t = TStar \<longleftrightarrow> pr = ProjectAll"
proof (cases "pr = ProjectAll")
  case False
  then obtain i rest where parts: "items_of pr = i # rest" "item_ok i" using assms by (cases "items_of pr") (auto simp: projection_ok_def)
  from parts(2) obtain t ts where "show_item i = t # ts" "t \<noteq> TComma" "t \<noteq> TStar" "\<not> tok_kw (Some t) ''from''" "\<not> tok_kw (Some t) ''distinct''" by (rule item_head)
  with False parts commas_Cons [of show_item i rest "[]"] that show ?thesis by (simp add: show_projection_def)
qed (simp add: that show_projection_def)

lemma projection_at:
  assumes "projection_ok pr" "k + projection_nodes pr \<le> MAX_PREDICATE_NODES"
  shows "parse_projection (cursor_at (show_projection pr @ kw_token ''from'' # rest) k) = (Ok pr, cursor_at (kw_token ''from'' # rest) (k + projection_nodes pr))"
proof (cases "pr = ProjectAll")
  case True
  then show ?thesis by (simp add: show_projection_def parse_projection_def projection_nodes_def items_of_def)
next
  case False
  let ?rest = "kw_token ''from'' # rest"
  have items: "comma_list parse_select_item (cursor_at (show_projection pr @ ?rest) k) = (Ok (items_of pr), cursor_at ?rest (k + projection_nodes pr))"
    using assms False unfolding show_projection_def projection_nodes_def
    by (simp, intro commas_counted [where M = MAX_PREDICATE_NODES]) (auto simp: projection_ok_def list_all_iff item_at)
  obtain t ts where head: "show_projection pr = t # ts" "t \<noteq> TStar" using False projection_head [OF assms(1)] by metis
  have "and_then (collect_results plain_column (items_of pr)) (\<lambda>cols. Ok (ProjectColumns cols)) = Ok pr" if "list_all is_plain (items_of pr)"
  proof (cases pr)
    case (ProjectColumns cs)
    moreover have "collect_results plain_column (items_of pr) = Ok cs" unfolding ProjectColumns items_of_def by (induction cs) auto
    ultimately show ?thesis by simp
  qed (use assms False that in \<open>simp_all add: projection_ok_def items_of_def\<close>)
  moreover have "ProjectItems (items_of pr) = pr" if "\<not> list_all is_plain (items_of pr)"
    using that False by (cases pr) (auto simp: items_of_def list_all_iff is_plain_def)
  ultimately show ?thesis using head items by (simp add: parse_projection_def then_at)
qed

end
