(* ===== verification/Sql_Roundtrip.thy ===== *)
theory Sql_Roundtrip
  imports Sql_Items
begin

text \<open>
  Printing and reading back of whole statements. The printed fragment leaves out \<^verbatim>\<open>HAVING\<close>, joins and table aliases, \<^verbatim>\<open>CREATE TABLE\<close> and
  \<^verbatim>\<open>CREATE INDEX \<dots> USING\<close>; everything else the parser accepts has a printed form.
\<close>

section \<open>Statements\<close>

definition clause :: "string list \<Rightarrow> tok list \<Rightarrow> tok list" where
  "clause kws ts = map kw_token kws @ ts"

definition show_key :: "order_by \<Rightarrow> tok list" where
  "show_key key = [name_token (ob_column key), kw_token (if ob_descending key then ''desc'' else ''asc'')]"

definition show_offset :: "select_body \<Rightarrow> tok list" where
  "show_offset b = (if sb_offset b = 0 then [] else clause [''offset''] [TInt (of_nat (sb_offset b))])"

definition show_limit :: "select_body \<Rightarrow> tok list" where
  "show_limit b = (case sb_limit b of None \<Rightarrow> [] | Some n \<Rightarrow> clause [''limit''] [TInt (of_nat n)]) @ show_offset b"

definition show_order :: "select_body \<Rightarrow> tok list" where
  "show_order b = (if sb_order b = [] then [] else clause [''order'', ''by''] (commas (map show_key (sb_order b)))) @ show_limit b"

definition show_before :: "select_body \<Rightarrow> tok list" where
  "show_before b = (case sb_before b of None \<Rightarrow> [] | Some t \<Rightarrow> clause [''before''] [TInt t]) @ show_order b"

definition show_group :: "select_body \<Rightarrow> tok list" where
  "show_group b = (if sb_group_by b = [] then [] else clause [''group'', ''by''] (commas (map (\<lambda>c. [name_token c]) (sb_group_by b)))) @ show_before b"

definition show_where :: "select_body \<Rightarrow> tok list" where
  "show_where b = (case sb_filter b of None \<Rightarrow> [] | Some p \<Rightarrow> clause [''where''] (show_pred p)) @ show_group b"

fun show_value :: "insert_value \<Rightarrow> tok" where
  "show_value (Literal v) = literal_token v"
| "show_value Default = kw_token ''default''"

definition show_row :: "insert_value list \<Rightarrow> tok list" where
  "show_row vs = [TLParen] @ commas (map (\<lambda>v. [show_value v]) vs) @ [TRParen]"

definition show_targets :: "col_name list option \<Rightarrow> tok list" where
  "show_targets targets = (case targets of None \<Rightarrow> [] | Some cs \<Rightarrow> [TLParen] @ commas (map (\<lambda>c. [name_token c]) cs) @ [TRParen])"

definition show_insert :: "col_name \<Rightarrow> col_name list option \<Rightarrow> insert_value list list \<Rightarrow> tok list" where
  "show_insert t targets rows = clause [''insert'', ''into''] ([name_token t] @ show_targets targets @ clause [''values''] (commas (map show_row rows)))"

fun show_statement :: "statement \<Rightarrow> tok list" where
  "show_statement Begin = [kw_token ''begin'']"
| "show_statement Commit = [kw_token ''commit'']"
| "show_statement Rollback = [kw_token ''rollback'']"
| "show_statement (CreateIndex t c u) =
     clause ([''create''] @ (if u then [''unique''] else []) @ [''index'', ''on'']) [name_token t, TLParen, name_token c, TRParen]"
| "show_statement (Insert t vs) = show_insert t None [map Literal vs]"
| "show_statement (InsertMany t rows) = show_insert t None (map (map Literal) rows)"
| "show_statement (InsertSchema t targets rows) =
     (if targets = Some [] then clause [''insert'', ''into''] ([name_token t] @ clause [''default'', ''values''] []) else show_insert t targets rows)"
| "show_statement (Update t c v p) =
     clause [''update''] ([name_token t] @ clause [''set''] ([name_token c, TEq, literal_token v] @ clause [''where''] (show_pred p)))"
| "show_statement (UpdateDefault t c p) =
     clause [''update''] ([name_token t] @ clause [''set''] ([name_token c, TEq] @ clause [''default'', ''where''] (show_pred p)))"
| "show_statement (Delete t p) = clause [''delete'', ''from''] ([name_token t] @ clause [''where''] (show_pred p))"
| "show_statement (DropTable t) = clause [''drop'', ''table''] [name_token t]"
| "show_statement (DropTableIfExists t) = clause [''drop'', ''table'', ''if'', ''exists''] [name_token t]"
| "show_statement (DropRetrievalIndex i e) = clause ([''drop'', ''index''] @ (if e then [''if'', ''exists''] else [])) [name_token i]"
| "show_statement (Select t b) =
     clause ([''select''] @ (if sb_distinct b then [''distinct''] else [])) (show_projection (sb_projection b) @ clause [''from''] ([name_token t] @ show_where b))"
| "show_statement (Explain s) = kw_token ''explain'' # show_statement s"
| "show_statement _ = []"

definition printable_row :: "insert_value list \<Rightarrow> bool" where
  "printable_row vs \<longleftrightarrow> vs \<noteq> [] \<and> list_all (\<lambda>v. case v of Literal x \<Rightarrow> val_ok x | Default \<Rightarrow> True) vs"

text \<open>
  The parser makes an \<^verbatim>\<open>InsertSchema\<close> when there are target columns or a \<^verbatim>\<open>DEFAULT\<close>; \<^verbatim>\<open>DEFAULT VALUES\<close> is the one row without values and without columns.
\<close>

definition targets_ok :: "col_name list option \<Rightarrow> insert_value list list \<Rightarrow> bool" where
  "targets_ok targets rows \<longleftrightarrow>
     targets = Some [] \<and> rows = [[]] \<or>
     targets \<noteq> Some [] \<and> rows \<noteq> [] \<and> list_all printable_row rows \<and>
     (case targets of None \<Rightarrow> list_ex (\<lambda>row. Default \<in> set row) rows | Some cs \<Rightarrow> distinct cs \<and> list_all utf8_valid cs)"

definition where_ok :: "predicate \<Rightarrow> bool" where
  "where_ok p \<longleftrightarrow> pred_ok p \<and> node_count p \<le> MAX_PREDICATE_NODES"

definition body_ok :: "select_body \<Rightarrow> bool" where
  "body_ok b \<longleftrightarrow>
     projection_ok (sb_projection b) \<and> projection_nodes (sb_projection b) \<le> MAX_PREDICATE_NODES \<and>
     (case sb_before b of None \<Rightarrow> True | Some t \<Rightarrow> 0 \<le> sint t) \<and>
     (case sb_filter b of None \<Rightarrow> True | Some p \<Rightarrow> pred_ok p \<and> projection_nodes (sb_projection b) + node_count p \<le> MAX_PREDICATE_NODES) \<and>
     list_all utf8_valid (sb_group_by b) \<and> sb_having b = None \<and> list_all (\<lambda>key. utf8_valid (ob_column key)) (sb_order b) \<and>
     (case sb_limit b of None \<Rightarrow> True | Some n \<Rightarrow> n < 2 ^ 63) \<and> sb_offset b < 2 ^ 63"

fun statement_ok :: "statement \<Rightarrow> bool" where
  "statement_ok Begin = True"
| "statement_ok Commit = True"
| "statement_ok Rollback = True"
| "statement_ok (CreateIndex t c u) \<longleftrightarrow> utf8_valid t \<and> utf8_valid c"
| "statement_ok (Insert t vs) \<longleftrightarrow> utf8_valid t \<and> printable_row (map Literal vs)"
| "statement_ok (InsertMany t rows) \<longleftrightarrow> utf8_valid t \<and> 2 \<le> length rows \<and> list_all printable_row (map (map Literal) rows)"
| "statement_ok (InsertSchema t targets rows) \<longleftrightarrow> utf8_valid t \<and> targets_ok targets rows"
| "statement_ok (Update t c v p) \<longleftrightarrow> utf8_valid t \<and> utf8_valid c \<and> val_ok v \<and> where_ok p"
| "statement_ok (UpdateDefault t c p) \<longleftrightarrow> utf8_valid t \<and> utf8_valid c \<and> where_ok p"
| "statement_ok (Delete t p) \<longleftrightarrow> utf8_valid t \<and> where_ok p"
| "statement_ok (DropTable t) \<longleftrightarrow> utf8_valid t"
| "statement_ok (DropTableIfExists t) \<longleftrightarrow> utf8_valid t"
| "statement_ok (DropRetrievalIndex i e) \<longleftrightarrow> utf8_valid i"
| "statement_ok (Select t b) \<longleftrightarrow> utf8_valid t \<and> body_ok b"
| "statement_ok (Explain s) \<longleftrightarrow> (case s of Select t b \<Rightarrow> utf8_valid t \<and> body_ok b | _ \<Rightarrow> False)"
| "statement_ok _ = False"

section \<open>Reading statements back\<close>

lemma statement_words [simp]: "lower_word ''begin''" "lower_word ''commit''" "lower_word ''rollback''" "lower_word ''create''" "lower_word ''unique''" "lower_word ''index''"
    "lower_word ''on''" "lower_word ''insert''" "lower_word ''into''" "lower_word ''values''" "lower_word ''update''" "lower_word ''set''" "lower_word ''where''"
    "lower_word ''default''" "lower_word ''delete''" "lower_word ''drop''" "lower_word ''table''" "lower_word ''if''" "lower_word ''exists''"
    "lower_word ''select''" "lower_word ''distinct''" "lower_word ''explain''" "lower_word ''desc''" "lower_word ''asc''" "lower_word ''offset''" "lower_word ''limit''"
    "lower_word ''order''" "lower_word ''by''" "lower_word ''before''" "lower_word ''group''"
  by (simp_all add: lower_word_def)

lemma literal_not_default [simp]: "\<not> tok_kw (Some (literal_token v)) ''default''"
proof -
  have "\<not> is_kw (to_chars (ascii ''NULL'')) ''default''" by code_simp
  then show ?thesis by (cases v) (simp_all add: tok_kw_def)
qed

lemma row_at:
  assumes "printable_row vs"
  shows "insert_row_values (cursor_at (show_row vs @ rest) k) = (Ok vs, cursor_at rest k)"
proof -
  let ?ts = "commas (map (\<lambda>v. [show_value v]) vs)"
  have "insert_item (cursor_at (show_value v # ts) k) = (Ok v, cursor_at ts k)" if "case v of Literal x \<Rightarrow> val_ok x | Default \<Rightarrow> True" for v ts k
    using that by (cases v) (simp_all add: insert_item_def then_at)
  then have "items_rparen (Suc (length (?ts @ TRParen # rest))) (\<lambda>_. insert_item) [] (cursor_at (?ts @ TRParen # rest) k) = (Ok ([] @ vs), cursor_at rest k)"
    using assms commas_length [of vs show_value "\<lambda>_. []"] by (intro items_at) (auto simp: printable_row_def list_all_iff)
  then show ?thesis by (simp add: insert_row_values_def show_row_def then_at fuelled_def del: items_rparen.simps)
qed

lemma target_columns_at:
  assumes "cs \<noteq> []" "length cs \<le> n" "list_all utf8_valid cs" "distinct (acc @ cs)"
  shows "items_rparen n target_column acc (cursor_at (commas (map (\<lambda>c. [name_token c]) cs) @ TRParen # rest) k) = (Ok (acc @ cs), cursor_at rest k)"
  using assms
proof (induction cs arbitrary: n acc)
  case (Cons c cs)
  then obtain m where m: "n = Suc m" by (cases n) auto
  have "target_column acc (cursor_at (name_token c # ts) k) = (Ok c, cursor_at ts k)" for ts
    using Cons.prems by (simp add: target_column_def then_at)
  then show ?case using Cons.IH [of m "acc @ [c]"] Cons.prems m by (cases cs) (simp_all add: then_at)
qed simp

lemma targets_at:
  assumes "case targets of None \<Rightarrow> True | Some cs \<Rightarrow> cs \<noteq> [] \<and> distinct cs \<and> list_all utf8_valid cs"
  shows "when_tok TLParen (act_then (fuelled (\<lambda>n. items_rparen n target_column [])) (\<lambda>cs. act_return (Ok (Some cs)))) (act_return (Ok None))
    (cursor_at (show_targets targets @ kw_token kw # rest) k) = (Ok targets, cursor_at (kw_token kw # rest) k)"
proof (cases targets)
  case (Some cs)
  with assms target_columns_at [of cs "Suc (length (commas (map (\<lambda>c. [name_token c]) cs) @ TRParen # kw_token kw # rest))" "[]" "kw_token kw # rest" k]
    commas_length [of cs name_token "\<lambda>_. []"]
  show ?thesis by (simp add: show_targets_def then_at fuelled_def del: items_rparen.simps)
qed (simp add: show_targets_def)

lemma inserted_literals:
  "inserted_rows t None [map Literal vs] = Ok (Insert t vs)"
  "2 \<le> length rows \<Longrightarrow> inserted_rows t None (map (map Literal) rows) = Ok (InsertMany t rows)"
proof -
  have one: "collect_results literal_of (map Literal vs) = Ok vs" for vs by (induction vs) auto
  then have many: "collect_results (collect_results literal_of) (map (map Literal) rows) = Ok rows" by (induction rows) auto
  show "inserted_rows t None [map Literal vs] = Ok (Insert t vs)" using one by (auto simp: inserted_rows_def)
  show "inserted_rows t None (map (map Literal) rows) = Ok (InsertMany t rows)" if len: "2 \<le> length rows"
  proof -
    obtain x y zs where "rows = x # y # zs" using len by (cases rows; cases "tl rows") auto
    with many show ?thesis by (auto simp: inserted_rows_def list_ex_iff simp del: collect_results.simps)
  qed
qed

text \<open>The clauses of a select statement: what is left of the statement starts with one of the keywords that may follow.\<close>

definition starts :: "string list \<Rightarrow> tok list \<Rightarrow> bool" where
  "starts kws ts \<longleftrightarrow> ts = [] \<or> (\<exists>kw \<in> set kws. lower_word kw \<and> hd ts = kw_token kw)"

lemma starts_clause:
  "starts [''offset''] (show_offset b)"
  "starts [''limit'', ''offset''] (show_limit b)"
  "starts [''order'', ''limit'', ''offset''] (show_order b)"
  "starts [''before'', ''order'', ''limit'', ''offset''] (show_before b)"
  "starts [''group'', ''before'', ''order'', ''limit'', ''offset''] (show_group b)"
  "starts [''where'', ''group'', ''before'', ''order'', ''limit'', ''offset''] (show_where b)"
  by (auto simp: starts_def show_offset_def show_limit_def show_order_def show_before_def show_group_def show_where_def clause_def split: option.splits if_splits)

lemma starts_kw: "starts kws ts \<Longrightarrow> kw \<notin> set kws \<Longrightarrow> \<not> peek_kw kw (cursor_at ts k)"
  by (auto simp: starts_def peek_kw_at)

lemma starts_when: "starts kws ts \<Longrightarrow> kw \<notin> set kws \<Longrightarrow> when_kw kw m m' (cursor_at ts k) = m' (cursor_at ts k)"
  by (simp add: when_kw_def starts_kw)

lemma starts_tok: "starts kws ts \<Longrightarrow> \<forall>w. t \<noteq> TWord w \<Longrightarrow> ts = [] \<or> hd ts \<noteq> t"
  by (auto simp: starts_def kw_token_def)

lemma row_count_at:
  assumes "n < 2 ^ 63" "lower_word kw"
  shows "parse_row_count kw (cursor_at (kw_token kw # TInt (of_nat n) # rest) k) = (Ok (Some n), cursor_at rest k)"
proof -
  have "sint (word_of_int (int n) :: u64) = int n" using assms by (simp add: sint_sbintrunc' signed_take_bit_int_eq_self del: of_int_of_nat_eq)
  moreover have "unat (of_nat n :: u64) = n" using assms by (simp add: unat_of_nat)
  ultimately show ?thesis using assms(2) by (simp add: parse_row_count_def non_negative_def then_at)
qed

lemma offset_at:
  assumes "sb_offset b < 2 ^ 63"
  shows "parse_row_count ''offset'' (cursor_at (show_offset b) k) = (Ok (if sb_offset b = 0 then None else Some (sb_offset b)), cursor_at [] k)"
  using row_count_at [OF assms, of "''offset''" "[]"] by (simp add: show_offset_def clause_def) (simp add: parse_row_count_def)

lemma limit_at:
  assumes "case sb_limit b of None \<Rightarrow> True | Some n \<Rightarrow> n < 2 ^ 63"
  shows "parse_row_count ''limit'' (cursor_at (show_limit b) k) = (Ok (sb_limit b), cursor_at (show_offset b) k)"
proof (cases "sb_limit b")
  case None
  then show ?thesis using starts_clause(1) [of b] by (simp add: show_limit_def parse_row_count_def starts_when)
next
  case (Some n)
  then show ?thesis using row_count_at [of n "''limit''" "show_offset b"] assms by (simp add: show_limit_def clause_def)
qed

lemma order_key_at: "utf8_valid (ob_column key) \<Longrightarrow> parse_order_key (cursor_at (show_key key @ ts) k) = (Ok key, cursor_at ts k)"
  by (cases key) (auto simp: parse_order_key_def show_key_def then_at)

lemma order_at:
  assumes "list_all (\<lambda>key. utf8_valid (ob_column key)) (sb_order b)"
  shows "when_kw ''order'' (act_then (keyword ''by'') (\<lambda>_. comma_list parse_order_key)) (act_return (Ok [])) (cursor_at (show_order b) k) = (Ok (sb_order b), cursor_at (show_limit b) k)"
proof (cases "sb_order b = []")
  case True
  then show ?thesis using starts_clause(2) [of b] by (simp add: show_order_def starts_when)
next
  case False
  have "comma_list parse_order_key (cursor_at (commas (map show_key (sb_order b)) @ show_limit b) k) = (Ok (sb_order b), cursor_at (show_limit b) k)"
    using assms False starts_tok [OF starts_clause(2)] by (intro commas_at) (auto simp: order_key_at list_all_iff)
  then show ?thesis using False by (simp add: show_order_def clause_def then_at)
qed

lemma before_at:
  assumes "case sb_before b of None \<Rightarrow> True | Some t \<Rightarrow> 0 \<le> sint t"
  shows "optional ''before'' (non_negative msg) (cursor_at (show_before b) k) = (Ok (sb_before b), cursor_at (show_order b) k)"
proof (cases "sb_before b")
  case None
  then show ?thesis using starts_clause(3) [of b] by (simp add: show_before_def optional_def starts_when)
next
  case (Some t)
  with assms show ?thesis by (simp add: show_before_def clause_def optional_def non_negative_def then_at)
qed

lemma column_list_at:
  assumes "cs \<noteq> []" "list_all utf8_valid cs" "starts kws rest"
  shows "comma_list column_ref (cursor_at (commas (map (\<lambda>c. [name_token c]) cs) @ rest) k) = (Ok cs, cursor_at rest k)"
proof -
  have "peek (cursor_at rest k) \<noteq> Some TDot" for k using starts_tok [OF assms(3), of TDot] by (cases rest) auto
  then show ?thesis using assms starts_tok [OF assms(3), of TComma] by (intro commas_at) (auto simp: list_all_iff)
qed

lemma group_at:
  assumes "list_all utf8_valid (sb_group_by b)"
  shows "when_kw ''group'' (act_then (keyword ''by'') (\<lambda>_. comma_list column_ref)) (act_return (Ok [])) (cursor_at (show_group b) k) = (Ok (sb_group_by b), cursor_at (show_before b) k)"
proof (cases "sb_group_by b = []")
  case True
  then show ?thesis using starts_clause(4) [of b] by (simp add: show_group_def starts_when)
next
  case False
  with column_list_at [OF False assms starts_clause(4)] show ?thesis by (simp add: show_group_def clause_def then_at)
qed

lemma where_at:
  assumes "case sb_filter b of None \<Rightarrow> True | Some p \<Rightarrow> pred_ok p \<and> k + node_count p \<le> MAX_PREDICATE_NODES"
  shows "\<exists>k'. optional ''where'' parse_predicate (cursor_at (show_where b) k) = (Ok (sb_filter b), cursor_at (show_group b) k')"
proof (cases "sb_filter b")
  case None
  then show ?thesis using starts_clause(5) [of b] by (simp add: show_where_def optional_def starts_when)
next
  case (Some p)
  have "parse_predicate (cursor_at (show_pred p @ show_group b) k) = (Ok p, cursor_at (show_group b) (k + node_count p))"
    using assms Some starts_kw [OF starts_clause(5)] by (intro predicate_at) auto
  with Some show ?thesis by (simp add: show_where_def clause_def optional_def then_at)
qed

lemma table_ref_at:
  assumes "utf8_valid t"
  shows "parse_table_ref (cursor_at (name_token t # show_where b) k) = (Ok \<lparr>tr_name = t, tr_alias = None\<rparr>, cursor_at (show_where b) k)"
proof -
  have reserved: "is_reserved_word (to_chars (ascii kw))" if "lower_word kw" "kw \<in> set reserved_words" for kw
    using that by (auto simp: is_reserved_word_def list_ex_iff is_kw_def lower_chars)
  have "''where'' \<in> set reserved_words" "''group'' \<in> set reserved_words" "''before'' \<in> set reserved_words" "''order'' \<in> set reserved_words"
    "''limit'' \<in> set reserved_words" "''offset'' \<in> set reserved_words"
    by (simp_all add: reserved_words_def)
  then have sub: "set [''where'', ''group'', ''before'', ''order'', ''limit'', ''offset''] \<subseteq> set reserved_words"
    by (simp only: list.set insert_subset empty_subsetI simp_thms)
  have "(case peek (cursor_at (show_where b) k) of Some (TWord w) \<Rightarrow> if is_reserved_word w then None else Some (utf8_encode w) | Some (TIdent w) \<Rightarrow> Some (utf8_encode w) | _ \<Rightarrow> None) = None"
  proof (cases "show_where b")
    case (Cons u ts)
    then obtain kw where "kw \<in> set [''where'', ''group'', ''before'', ''order'', ''limit'', ''offset'']" "lower_word kw" "u = kw_token kw"
      using starts_clause(6) [of b] unfolding starts_def by (metis list.discI list.sel(1))
    with reserved sub have "is_reserved_word (to_chars (ascii kw))" by blast
    with Cons \<open>u = kw_token kw\<close> show ?thesis by (simp add: kw_token_def)
  qed simp
  then show ?thesis using assms by (simp add: parse_table_ref_def then_at starts_when [OF starts_clause(6)])
qed

lemma joins_at: "fuelled (\<lambda>n. join_loop n qs []) (cursor_at (show_where b) k) = (Ok [], cursor_at (show_where b) k)"
  "reject_join_types (cursor_at (show_where b) k) = (Ok (), cursor_at (show_where b) k)"
  using starts_kw [OF starts_clause(6)] by (simp_all add: fuelled_def reject_join_types_def)

lemma having_at: "optional ''having'' parse_having (cursor_at (show_before b) k) = (Ok None, cursor_at (show_before b) k)"
  using starts_clause(4) [of b] by (simp add: optional_def starts_when)

lemma distinct_at:
  assumes "projection_ok (sb_projection b)"
  shows "starts_distinct (cursor_at (map kw_token (if sb_distinct b then [''distinct''] else []) @ show_projection (sb_projection b) @ rest) k) = sb_distinct b"
proof -
  obtain t ts where "show_projection (sb_projection b) = t # ts" "t \<noteq> TComma" "\<not> tok_kw (Some t) ''from''" "\<not> tok_kw (Some t) ''distinct''"
    using assms by (rule projection_head)
  then show ?thesis by (auto simp: starts_distinct_def peek_kw_def)
qed

lemma select_at:
  assumes "utf8_valid t" "body_ok b"
  shows "\<exists>k. parse_select (cursor_at (map kw_token (if sb_distinct b then [''distinct''] else []) @ show_projection (sb_projection b) @ clause [''from''] ([name_token t] @ show_where b)) 0) =
    (Ok (Select t b), cursor_at [] k)"
proof -
  let ?pr = "show_projection (sb_projection b) @ kw_token ''from'' # name_token t # show_where b" and ?n = "projection_nodes (sb_projection b)"
  have ok: "projection_ok (sb_projection b)" "0 + ?n \<le> MAX_PREDICATE_NODES" using assms(2) by (simp_all add: body_ok_def)
  obtain k where w: "optional ''where'' parse_predicate (cursor_at (show_where b) ?n) = (Ok (sb_filter b), cursor_at (show_group b) k)"
    using where_at [where b = b and k = ?n] assms(2) by (auto simp: body_ok_def)
  have skip: "(if sb_distinct b then act_then next_tok (\<lambda>_. act_return (Ok ())) else act_return (Ok ()))
      (cursor_at (map kw_token (if sb_distinct b then [''distinct''] else []) @ ?pr) 0) = (Ok (), cursor_at ?pr 0)"
    by (simp add: then_at)
  have "parse_select (cursor_at (map kw_token (if sb_distinct b then [''distinct''] else []) @ ?pr) 0) =
      (Ok (Select t \<lparr>sb_projection = sb_projection b, sb_distinct = sb_distinct b, sb_before = sb_before b, sb_filter = sb_filter b, sb_group_by = sb_group_by b,
              sb_having = None, sb_order = sb_order b, sb_limit = sb_limit b, sb_offset = sb_offset b\<rparr>), cursor_at [] k)"
    using assms unfolding parse_select_def Let_def distinct_at [OF ok(1)]
    by (simp add: body_ok_def then_at skip projection_at [OF ok, simplified] table_ref_at joins_at w group_at having_at before_at order_at limit_at offset_at)
  moreover have "\<lparr>sb_projection = sb_projection b, sb_distinct = sb_distinct b, sb_before = sb_before b, sb_filter = sb_filter b, sb_group_by = sb_group_by b,
              sb_having = None, sb_order = sb_order b, sb_limit = sb_limit b, sb_offset = sb_offset b\<rparr> = b"
    using assms(2) by (simp add: body_ok_def)
  ultimately show ?thesis by (auto simp: clause_def)
qed

lemma where_end: "where_ok p \<Longrightarrow> parse_predicate (cursor_at (show_pred p) 0) = (Ok p, cursor_at [] (node_count p))"
  using predicate_at [of p 0 "[]"] by (simp add: where_ok_def)

lemma rows_at:
  assumes "rows \<noteq> []" "list_all printable_row rows"
  shows "comma_list insert_row_values (cursor_at (commas (map show_row rows)) k) = (Ok rows, cursor_at [] k)"
  using commas_at [of rows "[]" insert_row_values show_row k] assms by (auto simp: list_all_iff row_at)

lemma insert_at:
  assumes "utf8_valid t" "rows \<noteq> []" "list_all printable_row rows" "inserted_rows t targets rows = Ok s"
    "case targets of None \<Rightarrow> True | Some cs \<Rightarrow> cs \<noteq> [] \<and> distinct cs \<and> list_all utf8_valid cs"
  shows "parse_statement C (cursor_at (show_insert t targets rows) k) = (Ok s, cursor_at [] k)"
  using assms by (simp add: parse_statement_def parse_insert_def show_insert_def clause_def then_at targets_at rows_at)

lemma exists_clause_at: "exists_clause False (cursor_at (name_token t # ts) k) = (Ok False, cursor_at (name_token t # ts) k)"
  by (simp add: exists_clause_def)

lemma statement_at:
  assumes "statement_ok s"
  shows "\<exists>k. parse_statement C (cursor_at (show_statement s) 0) = (Ok s, cursor_at [] k)"
proof (cases s)
  case (Explain q)
  then obtain t b where "q = Select t b" "utf8_valid t" "body_ok b" using assms by (auto split: statement.splits)
  with Explain select_at [of t b] show ?thesis by (auto simp: parse_statement_def parse_explain_def clause_def then_at)
next
  case (Select t b)
  with assms select_at [of t b] show ?thesis by (auto simp: parse_statement_def clause_def)
next
  case (DropTable t)
  with assms show ?thesis by (simp add: parse_statement_def parse_drop_def clause_def then_at then_at [of "exists_clause False", OF exists_clause_at])
next
  case (Insert t vs)
  with assms insert_at [of t "[map Literal vs]" None s C 0] inserted_literals(1) show ?thesis by auto
next
  case (InsertMany t rows)
  moreover have "rows \<noteq> []" using assms InsertMany by auto
  ultimately show ?thesis using assms insert_at [of t "map (map Literal) rows" None s C 0] inserted_literals(2) [of rows t] by auto
next
  case (InsertSchema t targets rows)
  show ?thesis
  proof (cases "targets = Some []")
    case True
    with assms InsertSchema show ?thesis by (simp add: targets_ok_def parse_statement_def parse_insert_def clause_def then_at)
  next
    case False
    with assms InsertSchema insert_at [of t rows targets s C 0] show ?thesis by (cases targets) (auto simp: targets_ok_def inserted_rows_def)
  qed
qed (use assms in \<open>auto simp: parse_statement_def parse_create_def parse_index_on_def parse_drop_def parse_delete_def parse_update_def
      exists_clause_def consume_optional_transaction_def clause_def then_at where_end peek_kw_at\<close>)

text \<open>
  C12: Parsing undoes printing. The printed fragment is: transactions, \<^verbatim>\<open>CREATE INDEX \<dots> ON\<close>, \<^verbatim>\<open>INSERT\<close> of one and of several rows with or without target columns and
  with \<^verbatim>\<open>DEFAULT\<close> and \<^verbatim>\<open>DEFAULT VALUES\<close>, \<^verbatim>\<open>UPDATE\<close>, \<^verbatim>\<open>DELETE\<close>, \<^verbatim>\<open>DROP\<close>, \<^verbatim>\<open>SELECT\<close> from one table without alias whose select list has columns, aggregates,
  literals, scalar functions, \<^verbatim>\<open>CASE\<close> and aliases, with every clause but \<^verbatim>\<open>HAVING\<close>, and \<^verbatim>\<open>EXPLAIN\<close> of it. For every such statement whose names and texts are valid
  UTF-8, whose names have no control characters, whose predicates keep to the node limit and whose parentheses and expressions keep to the nesting limits, the
  SQL text of the statement is tokenized and parsed back to exactly that statement, with \<^verbatim>\<open>OR\<close> below \<^verbatim>\<open>AND\<close> below parentheses and both connectives associating to the left.
\<close>

theorem parse_print:
  assumes "ascii_classes C" "statement_ok s" "list_all (lexable C) (show_statement s)" "nesting_ok 0 (show_statement s)"
  shows "parse C (show_text (show_statement s)) = Ok s"
proof -
  obtain toks where "tokenize C (show_text (show_statement s)) = Ok toks" "map fst toks = show_statement s"
    using tokenize_shown [OF assms(1,3,4), of 0] by (auto simp: tokenize_def)
  moreover obtain k where "parse_statement C (cursor_at (show_statement s) 0) = (Ok s, cursor_at [] k)"
    using statement_at [OF assms(2)] by blast
  moreover have "fuelled skip_semicolons (cursor_at [] k) = (Ok (), cursor_at [] k)" by (simp add: fuelled_def)
  moreover have "finish (cursor_at [] k) = (Ok (), cursor_at [] k)" by (simp add: finish_def)
  ultimately show ?thesis by (simp add: parse_def then_at)
qed

definition printed_body :: select_body where
  "printed_body =
       \<lparr>sb_projection = ProjectItems
          [\<lparr>it_expr = SelectColumn (ascii ''g''), it_alias = None\<rparr>,
           \<lparr>it_expr = SelectAggregate \<lparr>ag_func = Min, ag_column = Some (ascii ''a'')\<rparr>, it_alias = Some (ascii ''m'')\<rparr>,
           \<lparr>it_expr = SelectScalar (ScalarCase [(IsNull (ascii ''b'') False, ScalarFunction Coalesce [ScalarColumn (ascii ''c''), ScalarLiteral (VInt 0)])] (Some (ScalarLiteral VNull))),
            it_alias = None\<rparr>],
        sb_distinct = False, sb_before = None,
        sb_filter = Some (And (Or (Compare (ascii ''a'') OpEq (VInt 1)) (Compare (ascii ''b'') OpLike (VText (ascii ''x'')))) (IsNull (ascii ''c'') True)),
        sb_group_by = [ascii ''g''], sb_having = None, sb_order = [], sb_limit = Some 3, sb_offset = 0\<rparr>"

theorem parse_print_witness:
  "parse ascii_only (to_chars (ascii ''select \"g\" , min ( \"a\" ) as \"m\" , case when \"b\" is null then coalesce ( \"c\" , 0 ) else NULL end from \"t\" where ( \"a\" = 1 or \"b\" like '' @
     [39] @ ascii ''x'' @ [39] @ ascii '' ) and \"c\" is not null group by \"g\" limit 3 '')) = Ok (Select (ascii ''t'') printed_body)"
proof -
  let ?s = "Select (ascii ''t'') printed_body"
  have "utf8_valid (ascii ''t'')" "list_all utf8_valid (sb_group_by printed_body)" "projection_ok (sb_projection printed_body)" "pred_ok (the (sb_filter printed_body))"
    "projection_nodes (sb_projection printed_body) + node_count (the (sb_filter printed_body)) \<le> MAX_PREDICATE_NODES" by code_simp+
  then have "statement_ok ?s" by (simp add: body_ok_def printed_body_def)
  moreover have "list_all (lexable ascii_only) (show_statement ?s)" "nesting_ok 0 (show_statement ?s)" by code_simp+
  ultimately have "parse ascii_only (show_text (show_statement ?s)) = Ok ?s" using parse_print [OF ascii_only_classes] by blast
  moreover have "show_text (show_statement ?s) =
      to_chars (ascii ''select \"g\" , min ( \"a\" ) as \"m\" , case when \"b\" is null then coalesce ( \"c\" , 0 ) else NULL end from \"t\" where ( \"a\" = 1 or \"b\" like '' @
        [39] @ ascii ''x'' @ [39] @ ascii '' ) and \"c\" is not null group by \"g\" limit 3 '')"
    by code_simp
  ultimately show ?thesis by simp
qed

end
