(* ===== verification/Statements.thy ===== *)
theory Statements
  imports Row_Lookup
begin

text \<open>
  The statements that change a database (\<^verbatim>\<open>src/db.rs\<close>): \<^verbatim>\<open>CREATE TABLE\<close>, \<^verbatim>\<open>INSERT\<close>, \<^verbatim>\<open>DELETE\<close> and \<^verbatim>\<open>UPDATE\<close> over the
  table layer, with their validation, the transaction boundary around compound mutations and the flush at their end. Publishing the
  manifest, saving the retrieval indexes and the three steps of a transaction reach files through code that is not modelled; they are fields
  of the engine environment. The tables have no retrieval indexes.
\<close>

section \<open>The database\<close>

record 'j database =
  db_cache :: "'j page_cache"
  db_cas :: "cas_store \<times> file_system"
  db_txm :: tx_manager
  db_tables :: "(col_name \<times> table) list"
  db_logged :: bool
  db_in_transaction :: bool
  db_autocommit :: bool
  db_durable :: bool
  db_synced :: bool

record 'j engine =
  eg_reader :: "'j reader_env"
  eg_persist :: "('j database, unit) action"
  eg_publish :: "('j database, unit) action"
  eg_begin :: "('j database, unit) action"
  eg_commit :: "('j database, unit) action"
  eg_rollback :: "('j database, unit) action"

abbreviation eg_blake3 :: "'j engine \<Rightarrow> hash_fn" where "eg_blake3 E \<equiv> re_blake3 (eg_reader E)"
abbreviation eg_hook :: "'j engine \<Rightarrow> 'j write_hook" where "eg_hook E \<equiv> re_hook (eg_reader E)"
abbreviation db_get :: "'j database \<Rightarrow> u64 \<Rightarrow> bytes result" where "db_get db \<equiv> cas_get (fst (db_cas db))"

definition on_cache :: "('j page_cache, 'a) action \<Rightarrow> ('j database, 'a) action" where
  "on_cache m db = (case m (db_cache db) of (r, c) \<Rightarrow> (r, db\<lparr>db_cache := c\<rparr>))"

definition on_cas :: "(cas_store \<times> file_system, 'a) action \<Rightarrow> ('j database, 'a) action" where
  "on_cas m db = (case m (db_cas db) of (r, s) \<Rightarrow> (r, db\<lparr>db_cas := s\<rparr>))"

text \<open>\<^verbatim>\<open>tables.get_mut(name).expect(\<dots>)\<close> with the page cache borrowed.\<close>

definition on_table :: "col_name \<Rightarrow> (('j, table) pool_state, 'a) action \<Rightarrow> ('j database, 'a) action" where
  "on_table name m db =
     (case bt_get (db_tables db) name of
        None \<Rightarrow> (Panic, db)
      | Some t \<Rightarrow> (case m (db_cache db, t) of (r, (c, t')) \<Rightarrow> (r, db\<lparr>db_cache := c, db_tables := bt_insert name t' (db_tables db)\<rparr>)))"

definition find_table :: "col_name \<Rightarrow> ('j database, table) action" where
  "find_table name db = (ok_or (bt_get (db_tables db) name) (TableNotFound ''{name}''), db)"

definition begin_tx :: "('j database, tx_id) action" where
  "begin_tx db =
     (case begin_write (db_txm db) of
        Ok (tx, m) \<Rightarrow> (Ok tx, db\<lparr>db_txm := m\<rparr>)
      | Err e \<Rightarrow> (Err e, db)
      | Panic \<Rightarrow> (Panic, db))"

section \<open>Flushing and transactions\<close>

definition ensure_writable :: "('j database, unit) action" where
  "ensure_writable db =
     (if db_logged db \<and> \<not> db_in_transaction db
      then (Err (Transaction ''low-level mutations on a logged workspace require an explicit transaction; SQL queries are atomic automatically''), db)
      else if is_writable (fst (pc_backend (db_cache db))) then (Ok (), db\<lparr>db_synced := False\<rparr>)
      else (Err ReadOnly, db))"

fun write_tails :: "hash_fn \<Rightarrow> 'j write_hook \<Rightarrow> table list \<Rightarrow> ('j page_cache, unit) action" where
  "write_tails blake3 bw [] = act_return (Ok ())"
| "write_tails blake3 bw (t # ts) =
     act_then
       (case (tb_tail_id t, tb_tail t) of
          (Some i, Some tail) \<Rightarrow> cache_write blake3 bw i tail
        | _ \<Rightarrow> act_return (Ok ())) (\<lambda>_.
       write_tails blake3 bw ts)"

definition flush_db :: "'j engine \<Rightarrow> ('j database, unit) action" where
  "flush_db E db =
     (if \<not> is_writable (fst (pc_backend (db_cache db))) then (Ok (), db)
      else
        act_then (eg_persist E) (\<lambda>_ db.
        act_then (on_cache (write_tails (eg_blake3 E) (eg_hook E) (map snd (db_tables db)))) (\<lambda>_.
        act_then (on_cache (Page_Cache.flush (eg_blake3 E) (eg_hook E))) (\<lambda>_.
        act_then (if db_durable db then on_cache cache_sync else act_return (Ok ())) (\<lambda>_.
          eg_publish E))) db) db)"

definition maybe_flush :: "'j engine \<Rightarrow> ('j database, unit) action" where
  "maybe_flush E db = (if db_autocommit db then flush_db E db else (Ok (), db))"

definition roll_back :: "'j engine \<Rightarrow> pv_error \<Rightarrow> string \<Rightarrow> ('j database, 'a) action" where
  "roll_back E error unknown db =
     (case eg_rollback E db of
        (Ok _, db') \<Rightarrow> (Err error, db')
      | (Err _, db') \<Rightarrow> (Err (TransactionOutcomeUnknown unknown), db')
      | (Panic, db') \<Rightarrow> (Panic, db'))"

definition transaction :: "'j engine \<Rightarrow> ('j database, 'a) action \<Rightarrow> ('j database, 'a) action" where
  "transaction E operation =
     act_then (eg_begin E) (\<lambda>_ db.
       case operation db of
         (Ok value, db) \<Rightarrow>
           (if \<not> db_in_transaction db then (Err (Transaction ''transaction callback changed the transaction state''), db)
            else
              case eg_commit E db of
                (Ok _, db) \<Rightarrow> (Ok value, db)
              | (Err commit_error, db) \<Rightarrow>
                  (if \<not> db_in_transaction db then (Err commit_error, db)
                   else roll_back E commit_error ''commit failed ({commit_error}); rollback also failed ({rollback_error})'' db)
              | (Panic, db) \<Rightarrow> (Panic, db))
       | (Err error, db) \<Rightarrow>
           (if db_in_transaction db
            then roll_back E error ''operation failed ({error}); rollback also failed ({rollback_error})'' db
            else (Err error, db))
       | (Panic, db) \<Rightarrow> (Panic, db))"

definition atomic_mutation :: "'j engine \<Rightarrow> ('j database, 'a) action \<Rightarrow> ('j database, 'a) action" where
  "atomic_mutation E operation db =
     (if \<not> db_in_transaction db then transaction E operation db
      else
        case operation db of
          (Ok value, db) \<Rightarrow> (Ok value, db)
        | (Err error, db) \<Rightarrow>
            (if db_in_transaction db
             then roll_back E error ''statement failed ({error}); transaction rollback also failed ({rollback_error})'' db
             else (Err error, db))
        | (Panic, db) \<Rightarrow> (Panic, db))"

section \<open>Creating and dropping tables\<close>

definition new_table ::
  "col_name list \<Rightarrow> col_name list \<Rightarrow> col_name list \<Rightarrow> (col_name \<times> val) list \<Rightarrow> predicate list \<Rightarrow> table" where
  "new_table columns unique_columns not_null_columns defaults checks =
     \<lparr>tb_columns = columns, tb_unique_columns = set unique_columns, tb_not_null_columns = set not_null_columns,
      tb_defaults = defaults, tb_checks = checks, tb_first_page = None, tb_tail_id = None, tb_tail = None,
      tb_row_versions = 0, tb_cold_pages = 0, tb_compaction_cursor = None, tb_page_ids = None,
      tb_indexes = fold (\<lambda>c. bt_insert c index_new) unique_columns []\<rparr>"

definition create_table_internal ::
  "'j engine \<Rightarrow> col_name \<Rightarrow> col_name list \<Rightarrow> col_name list \<Rightarrow> col_name list \<Rightarrow> (col_name \<times> val) list \<Rightarrow> predicate list \<Rightarrow>
   ('j database, unit) action" where
  "create_table_internal E name columns unique_columns not_null_columns defaults checks =
     act_then ensure_writable (\<lambda>_ db.
       if bt_get (db_tables db) name \<noteq> None then (Err (Schema ''table `{name}` already exists''), db)
       else
         act_then (act_return (validate_schema_metadata columns unique_columns not_null_columns defaults checks False)) (\<lambda>_ db.
           maybe_flush E (db\<lparr>db_tables := bt_insert name (new_table columns unique_columns not_null_columns defaults checks) (db_tables db)\<rparr>)) db)"

definition drop_table_base :: "'j engine \<Rightarrow> col_name \<Rightarrow> ('j database, unit) action" where
  "drop_table_base E name =
     act_then ensure_writable (\<lambda>_ db.
       if bt_get (db_tables db) name = None then (Err (TableNotFound ''{name}''), db)
       else maybe_flush E (db\<lparr>db_tables := filter (\<lambda>(n, _). n \<noteq> name) (db_tables db)\<rparr>))"

section \<open>Inserting\<close>

definition default_for :: "table \<Rightarrow> col_name \<Rightarrow> val" where
  "default_for t column = (case bt_get (tb_defaults t) column of Some v \<Rightarrow> v | None \<Rightarrow> VNull)"

fun value_for :: "table \<Rightarrow> col_name \<Rightarrow> insert_value \<Rightarrow> val" where
  "value_for t column (Literal v) = v"
| "value_for t column Default = default_for t column"

fun assign_targets :: "table \<Rightarrow> (col_name \<times> insert_value) list \<Rightarrow> col_name set \<Rightarrow> row \<Rightarrow> row result" where
  "assign_targets t [] seen values = Ok values"
| "assign_targets t ((target, v) # rest) seen values =
     (if target \<in> seen then Err (Schema ''duplicate INSERT target column `{target}`'')
      else
        and_then (column_index t target) (\<lambda>i.
          if i < length values then assign_targets t rest (insert target seen) (values[i := value_for t target v]) else Panic))"

definition normalize_insert_values :: "table \<Rightarrow> col_name list option \<Rightarrow> insert_value list \<Rightarrow> row result" where
  "normalize_insert_values t targets row =
     (case targets of
        None \<Rightarrow>
          (if length row \<noteq> length (tb_columns t) then Err (Schema ''table `{table_name}` expects {} columns, got {}'')
           else Ok (map (\<lambda>(c, v). value_for t c v) (zip (tb_columns t) row)))
      | Some targets \<Rightarrow>
          (if length row \<noteq> length targets then Err (Schema ''INSERT target list has {} columns but row has {} values'')
           else assign_targets t (zip targets row) {} (map (default_for t) (tb_columns t))))"

fun check_not_null :: "table \<Rightarrow> row \<Rightarrow> col_name list \<Rightarrow> unit result" where
  "check_not_null t values [] = Ok ()"
| "check_not_null t values (c # cs) =
     and_then (col_pos (tb_columns t) c) (\<lambda>i.
     and_then (elem_at values i) (\<lambda>v.
       if v = VNull then Err (Schema ''column `{column}` may not be NULL'') else check_not_null t values cs))"

fun run_checks :: "col_name list \<Rightarrow> row \<Rightarrow> predicate list \<Rightarrow> unit result" where
  "run_checks columns values [] = Ok ()"
| "run_checks columns values (check # checks) =
     and_then (check_result check columns values) (\<lambda>r.
       if r = Some False then Err (Schema ''CHECK constraint {} failed on table `{table_name}`'') else run_checks columns values checks)"

definition validate_row_constraints :: "table \<Rightarrow> row \<Rightarrow> unit result" where
  "validate_row_constraints t values =
     (if length values \<noteq> length (tb_columns t) then Err (Schema ''table `{table_name}` expects {} columns, got {}'')
      else
        and_then (validate_record_shape values) (\<lambda>_.
        and_then (check_not_null t values (sorted_list_of_set (tb_not_null_columns t))) (\<lambda>_.
          run_checks (tb_columns t) values (tb_checks t))))"

text \<open>The state of validation: the database, the budget, and the keys the statement's other rows have claimed.\<close>

type_synonym pending = "(col_name \<times> val set) list option"
type_synonym 'j validation = "'j database \<times> query_budget option \<times> pending"

definition run_read :: "(('j, query_budget option) pool_state, 'a) action \<Rightarrow> ('j validation, 'a) action" where
  "run_read m = (\<lambda>(db, b, p). case m (db_cache db, b) of (r, (c, b')) \<Rightarrow> (r, (db\<lparr>db_cache := c\<rparr>, b', p)))"

definition claim_key :: "query_env \<Rightarrow> col_name \<Rightarrow> val \<Rightarrow> ('j validation, unit) action" where
  "claim_key env column v = (\<lambda>(db, b, p).
     case p of
       None \<Rightarrow> (Ok (), (db, b, p))
     | Some claimed \<Rightarrow>
         (case with_budget (scan_row env) b of
            (Ok _, b') \<Rightarrow>
              (let keys = (case bt_get claimed column of Some ks \<Rightarrow> ks | None \<Rightarrow> {});
                   claimed' = bt_insert column (insert (join_key v) keys) claimed
               in if join_key v \<in> keys then (Err (Schema ''duplicate value for unique column `{column}`''), (db, b', Some claimed'))
                  else (Ok (), (db, b', Some claimed')))
          | (Err e, b') \<Rightarrow> (Err e, (db, b', p))
          | (Panic, b') \<Rightarrow> (Panic, (db, b', p))))"

definition db_select ::
  "'j engine \<Rightarrow> table \<Rightarrow> predicate option \<Rightarrow> ('j validation, row list) action" where
  "db_select E t flt = (\<lambda>(db, b, p).
     run_read (select_filtered (eg_reader E) (db_get db) t flt (as_of (current (db_txm db)))) (db, b, p))"

fun check_unique :: "'j engine \<Rightarrow> table \<Rightarrow> row \<Rightarrow> col_name list \<Rightarrow> ('j validation, unit) action" where
  "check_unique E t values [] = act_return (Ok ())"
| "check_unique E t values (column # cs) =
     act_then (act_return (and_then (col_pos (tb_columns t) column) (elem_at values))) (\<lambda>v.
     act_then
       (if v = VNull then act_return (Ok ())
        else
          act_then (claim_key (re_env (eg_reader E)) column v) (\<lambda>_.
          act_then (db_select E t (Some (pred_eq column v))) (\<lambda>rows.
            act_return (if rows \<noteq> [] then Err (Schema ''duplicate value for unique column `{column}`'') else Ok ())))) (\<lambda>_.
       check_unique E t values cs))"

definition validate_insert_values :: "'j engine \<Rightarrow> col_name \<Rightarrow> row \<Rightarrow> ('j validation, unit) action" where
  "validate_insert_values E name values = (\<lambda>(db, b, p).
     case bt_get (db_tables db) name of
       None \<Rightarrow> (Err (TableNotFound ''{name}''), (db, b, p))
     | Some t \<Rightarrow>
         act_then (act_return (validate_row_constraints t values)) (\<lambda>_.
           check_unique E t values (sorted_list_of_set (tb_unique_columns t))) (db, b, p))"

fun index_columns :: "(nat \<times> col_name) list \<Rightarrow> row \<Rightarrow> record_addr \<Rightarrow> indexes \<Rightarrow> indexes result" where
  "index_columns [] values addr idx = Ok idx"
| "index_columns ((i, c) # cs) values addr idx =
     (case bt_get idx c of
        None \<Rightarrow> index_columns cs values addr idx
      | Some ix \<Rightarrow> and_then (elem_at values i) (\<lambda>v. index_columns cs values addr (bt_insert c (index_insert v addr ix) idx)))"

definition index_row :: "row \<Rightarrow> record_addr \<Rightarrow> (('j, table) pool_state, unit) action" where
  "index_row values addr = (\<lambda>(c, t).
     case index_columns (enumerate 0 (tb_columns t)) values addr (tb_indexes t) of
       Ok idx \<Rightarrow> (Ok (), (c, t\<lparr>tb_indexes := idx\<rparr>))
     | Err e \<Rightarrow> (Err e, (c, t))
     | Panic \<Rightarrow> (Panic, (c, t)))"

definition insert_validated_base :: "'j engine \<Rightarrow> col_name \<Rightarrow> row \<Rightarrow> ('j database, unit) action" where
  "insert_validated_base E name values =
     act_then ensure_writable (\<lambda>_.
     act_then (act_return (validate_record_shape values)) (\<lambda>_.
     act_then begin_tx (\<lambda>tx.
     act_then (on_cas (encode_record (cas_put (eg_blake3 E)) (envelope_new tx 0) values)) (\<lambda>rec.
     act_then (act_return (if length rec > MAX_RECORD then Err (Schema ''record of {} bytes exceeds page capacity ({MAX_RECORD})'') else Ok ())) (\<lambda>_.
     act_then (on_table name (append_record (eg_blake3 E) (eg_hook E) rec)) (\<lambda>addr.
     act_then (on_table name (index_row values addr)) (\<lambda>_.
       maybe_flush E)))))))"

definition insert_row :: "'j engine \<Rightarrow> col_name \<Rightarrow> row \<Rightarrow> ('j database, unit) action" where
  "insert_row E name values =
     act_then ensure_writable (\<lambda>_.
     act_then (\<lambda>db. case validate_insert_values E name values (db, None, None) of (r, (db', _)) \<Rightarrow> (r, db')) (\<lambda>_.
       insert_validated_base E name values))"

section \<open>Deleting and updating\<close>

fun delete_each :: "hash_fn \<Rightarrow> 'j write_hook \<Rightarrow> tx_id \<Rightarrow> record_addr list \<Rightarrow> (('j, table) pool_state, unit) action" where
  "delete_each blake3 bw tx [] = act_return (Ok ())"
| "delete_each blake3 bw tx (a # addrs) = act_then (patch_delete_at blake3 bw a tx) (\<lambda>_. delete_each blake3 bw tx addrs)"

definition apply_deletes_base :: "'j engine \<Rightarrow> col_name \<Rightarrow> (record_addr \<times> row) list \<Rightarrow> ('j database, nat) action" where
  "apply_deletes_base E name hits =
     act_then begin_tx (\<lambda>tx.
     act_then (on_table name (delete_each (eg_blake3 E) (eg_hook E) tx (map fst hits))) (\<lambda>_.
     act_then (maybe_flush E) (\<lambda>_. act_return (Ok (length hits)))))"

definition find_matches ::
  "'j engine \<Rightarrow> col_name \<Rightarrow> predicate \<Rightarrow> ('j validation, (record_addr \<times> row) list) action" where
  "find_matches E name pred = (\<lambda>(db, b, p).
     case bt_get (db_tables db) name of
       None \<Rightarrow> (Err (TableNotFound ''{name}''), (db, b, p))
     | Some t \<Rightarrow> run_read (collect_matching (eg_reader E) (db_get db) t pred (snapshot_now (db_txm db))) (db, b, p))"

definition run_checkpoint :: "query_env \<Rightarrow> ('j validation, unit) action" where
  "run_checkpoint env = (\<lambda>(db, b, p). case with_budget (checkpoint env) b of (r, b') \<Rightarrow> (r, (db, b', p)))"

definition on_db :: "('j database, 'a) action \<Rightarrow> ('j validation, 'a) action" where
  "on_db m = (\<lambda>(db, bp). case m db of (r, db') \<Rightarrow> (r, (db', bp)))"

definition delete_where :: "'j engine \<Rightarrow> col_name \<Rightarrow> predicate \<Rightarrow> ('j validation, nat) action" where
  "delete_where E name pred =
     act_then (on_db ensure_writable) (\<lambda>_.
     act_then (find_matches E name pred) (\<lambda>hits.
     act_then (run_checkpoint (re_env (eg_reader E))) (\<lambda>_.
       on_db (if length hits > 1 then atomic_mutation E (apply_deletes_base E name hits) else apply_deletes_base E name hits))))"

fun insert_each :: "'j engine \<Rightarrow> col_name \<Rightarrow> row list \<Rightarrow> ('j database, unit) action" where
  "insert_each E name [] = act_return (Ok ())"
| "insert_each E name (row # rows) = act_then (insert_validated_base E name row) (\<lambda>_. insert_each E name rows)"

text \<open>The body of the update's transaction: tombstone every match, then append every replacement.\<close>

definition apply_updates :: "'j engine \<Rightarrow> col_name \<Rightarrow> nat \<Rightarrow> val \<Rightarrow> (record_addr \<times> row) list \<Rightarrow> ('j database, nat) action" where
  "apply_updates E name set_ix set_value hits =
     act_then begin_tx (\<lambda>tx.
     act_then (on_table name (delete_each (eg_blake3 E) (eg_hook E) tx (map fst hits))) (\<lambda>_.
     act_then (insert_each E name (map (\<lambda>(_, row). row[set_ix := set_value]) hits)) (\<lambda>_.
     act_then (maybe_flush E) (\<lambda>_. act_return (Ok (length hits))))))"

fun validate_replacements :: "'j engine \<Rightarrow> table \<Rightarrow> nat \<Rightarrow> val \<Rightarrow> row list \<Rightarrow> ('j validation, unit) action" where
  "validate_replacements E t set_ix v [] = act_return (Ok ())"
| "validate_replacements E t set_ix v (row # rows) =
     act_then (act_return (if set_ix < length row then Ok () else Panic)) (\<lambda>_.
     act_then (\<lambda>(db, b, p). case with_budget (materialize (re_layout (eg_reader E)) (row[set_ix := v])) b of (r, b') \<Rightarrow> (r, (db, b', p))) (\<lambda>_.
     act_then (act_return (validate_row_constraints t (row[set_ix := v]))) (\<lambda>_.
       validate_replacements E t set_ix v rows)))"

definition check_unique_update ::
  "'j engine \<Rightarrow> table \<Rightarrow> col_name \<Rightarrow> nat \<Rightarrow> val \<Rightarrow> (record_addr \<times> row) list \<Rightarrow> ('j validation, unit) action" where
  "check_unique_update E t column set_ix v hits =
     (if column \<in> tb_unique_columns t \<and> v \<noteq> VNull
      then
        act_then (act_return (if \<forall>(_, row) \<in> set hits. set_ix < length row then Ok () else Panic)) (\<lambda>_.
        act_then (db_select E t (Some (pred_eq column v))) (\<lambda>rows.
          let already_matching = length (filter (\<lambda>(_, row). values_equal (row ! set_ix) v) hits) in
          act_return (if length hits > 1 \<or> length rows > already_matching
            then Err (Schema ''duplicate value for unique column `{set_column}`'') else Ok ())))
      else act_return (Ok ()))"

definition update_where :: "'j engine \<Rightarrow> col_name \<Rightarrow> col_name \<Rightarrow> val \<Rightarrow> predicate \<Rightarrow> ('j validation, nat) action" where
  "update_where E name set_column set_value pred =
     act_then (on_db ensure_writable) (\<lambda>_.
     act_then (on_db (find_table name)) (\<lambda>t.
     act_then (act_return (column_index t set_column)) (\<lambda>set_ix.
     act_then (find_matches E name pred) (\<lambda>hits.
       if hits = [] then act_return (Ok 0)
       else
         act_then (act_return (if set_column \<in> tb_not_null_columns t \<and> set_value = VNull
           then Err (Schema ''column `{set_column}` may not be NULL'') else Ok ())) (\<lambda>_.
         act_then (check_unique_update E t set_column set_ix set_value hits) (\<lambda>_.
         act_then (validate_replacements E t set_ix set_value (map snd hits)) (\<lambda>_.
         act_then (run_checkpoint (re_env (eg_reader E))) (\<lambda>_.
           on_db (atomic_mutation E (apply_updates E name set_ix set_value hits))))))))))"

end
