(* ===== verification/Db_Invariant.thy ===== *)
theory Db_Invariant
  imports Statements Envelope_Scan
begin

text \<open>
  The invariant of a database: every table's pages, indexes and envelopes fit together, stored rows can be encoded again, and no two tables share a
  page. Reading keeps it, appending a row to one table keeps it for all, and so does tombstoning rows; this is the basis of \<open>Statement_Laws\<close>.
\<close>

section \<open>Index maintenance\<close>

lemma mset_index_insert:
  assumes "index_inv ix"
  shows "mset (index_pairs (index_insert v a ix)) = add_mset (v, a) (mset (index_pairs ix))"
proof -
  have "mset (concat (map (\<lambda>(k, addrs). map (Pair k) addrs) (bt_insert v ((case bt_get m v of Some as \<Rightarrow> as | None \<Rightarrow> []) @ [a]) m))) =
      add_mset (v, a) (mset (concat (map (\<lambda>(k, addrs). map (Pair k) addrs) m)))" if "bt_inv m" for m
    using that
  proof (induction m)
    case (Cons x m)
    have "bt_inv m" using Cons.prems by (simp add: bt_inv_def)
    with Cons show ?case by (cases x) auto
  qed simp
  with assms show ?thesis by (simp add: index_pairs_def index_insert_def entry_extend_def index_inv_def)
qed

lemma index_insert_facts:
  assumes "index_inv ix" "distinct (map snd (index_pairs ix))" "a \<notin> snd ` set (index_pairs ix)"
  shows "index_inv (index_insert v a ix)" "distinct (map snd (index_pairs (index_insert v a ix)))"
    "set (index_pairs (index_insert v a ix)) = insert (v, a) (set (index_pairs ix))"
proof -
  note m = mset_index_insert [OF assms(1), of v a]
  show "index_inv (index_insert v a ix)" by (rule index_insert_inv [OF assms(1)])
  show "set (index_pairs (index_insert v a ix)) = insert (v, a) (set (index_pairs ix))"
    using arg_cong [OF m, of set_mset] by simp
  have "mset (map snd (index_pairs (index_insert v a ix))) = mset (a # map snd (index_pairs ix))"
    using arg_cong [OF m, of "image_mset snd"] by simp
  then show "distinct (map snd (index_pairs (index_insert v a ix)))"
    using mset_eq_imp_distinct_iff assms(2,3) by fastforce
qed

lemmas bt_get_insert = btree.get_put

lemma index_columns_Ok:
  assumes "index_columns cs vals a idx = Ok idx'" "bt_inv idx" "distinct (map snd cs)"
  shows "bt_inv idx' \<and> (\<forall>c. bt_get idx' c = (case bt_get idx c of
      None \<Rightarrow> None
    | Some ix \<Rightarrow> (case map_of (map prod.swap cs) c of None \<Rightarrow> Some ix | Some i \<Rightarrow> Some (index_insert (vals ! i) a ix))))"
  using assms
proof (induction cs vals a idx rule: index_columns.induct)
  case (2 i c cs vals a idx)
  show ?case
  proof (cases "bt_get idx c")
    case None
    with 2 show ?thesis by (auto split: option.splits)
  next
    case (Some ix)
    with "2.prems"(1) have run: "index_columns cs vals a (bt_insert c (index_insert (vals ! i) a ix) idx) = Ok idx'" "i < length vals"
      by (auto simp: elem_at_def elem_get_def split: if_splits)
    have el: "elem_at vals i = Ok (vals ! i)" using run(2) by (simp add: elem_at_def elem_get_def)
    have notin: "map_of (map prod.swap cs) c = None"
      using "2.prems"(3) by (force simp: map_of_eq_None_iff)
    from "2.IH"(2) [OF Some el run(1)] "2.prems"(2,3) have ih: "bt_inv idx'" "\<And>c'. bt_get idx' c' = (case bt_get (bt_insert c (index_insert (vals ! i) a ix) idx) c' of
      None \<Rightarrow> None
    | Some ix \<Rightarrow> (case map_of (map prod.swap cs) c' of None \<Rightarrow> Some ix | Some i \<Rightarrow> Some (index_insert (vals ! i) a ix)))"
      by (auto intro: bt_insert_inv)
    show ?thesis using ih Some notin "2.prems"(2) by (auto simp: bt_get_insert split: option.split)
  qed
qed (auto split: option.split)

definition schema_ok :: "table \<Rightarrow> bool" where
  "schema_ok t \<longleftrightarrow> distinct (tb_columns t) \<and> bt_inv (tb_indexes t) \<and> (\<forall>c. bt_get (tb_indexes t) c \<noteq> None \<longrightarrow> c \<in> set (tb_columns t)) \<and>
     tb_unique_columns t \<subseteq> set (tb_columns t) \<and> tb_not_null_columns t \<subseteq> set (tb_columns t)"

lemma column_number:
  assumes "distinct columns" "i < length columns"
  shows "map_of (map prod.swap (enumerate 0 columns)) (columns ! i) = Some i"
proof -
  have "map snd (enumerate 0 columns) = columns" by simp
  then have "distinct (map fst (map prod.swap (enumerate 0 columns)))" using assms(1) by (simp add: comp_def)
  moreover have "(columns ! i, i) \<in> set (map prod.swap (enumerate 0 columns))"
    using assms(2) by (force simp: in_set_enumerate_eq)
  ultimately show ?thesis by simp
qed

lemma index_row_Ok:
  assumes run: "index_row vals a (c, t) = (Ok (), (c', t'))" and t: "table_indexed t vs" "schema_ok t"
    and row: "length vals = length (tb_columns t)" "a \<notin> fst ` set vs"
  shows "c' = c \<and> t' = t\<lparr>tb_indexes := tb_indexes t'\<rparr> \<and> table_indexed t' (vs @ [(a, (e, vals))]) \<and> schema_ok t'"
proof -
  let ?cols = "tb_columns t"
  from run obtain idx' where idx: "index_columns (enumerate 0 ?cols) vals a (tb_indexes t) = Ok idx'" and t': "c' = c" "t' = t\<lparr>tb_indexes := idx'\<rparr>"
    by (auto simp: index_row_def split: result.splits)
  have d: "distinct ?cols" "bt_inv (tb_indexes t)" using t(2) by (simp_all add: schema_ok_def)
  have "distinct (map snd (enumerate 0 ?cols))" using d(1) by simp
  note f = index_columns_Ok [OF idx d(2) this]
  have get: "\<exists>i ix. i < length ?cols \<and> ?cols ! i = c \<and> bt_get (tb_indexes t) c = Some ix \<and> ix' = index_insert (vals ! i) a ix"
    if "bt_get idx' c = Some ix'" for c ix'
  proof -
    from that f obtain ix where ix: "bt_get (tb_indexes t) c = Some ix" by (auto split: option.splits)
    with t(2) have "c \<in> set ?cols" by (auto simp: schema_ok_def)
    then obtain i where "i < length ?cols" "?cols ! i = c" by (auto simp: in_set_conv_nth)
    with column_number [OF d(1), of i] f ix that show ?thesis by auto
  qed
  have fresh: "a \<notin> snd ` set (index_pairs ix)" if "bt_get (tb_indexes t) c = Some ix" for c ix
    using that t(1) row(2) by (force simp: table_indexed_def indexed_addr_def)
  have inv: "index_inv ix" "distinct (map snd (index_pairs ix))" if "bt_get (tb_indexes t) c = Some ix" for c ix
    using that t(1) by (auto simp: table_indexed_def indexes_inv_def)
  have idxs: "indexes_inv idx'"
    unfolding indexes_inv_def using get inv fresh index_insert_facts by metis
  have rows: "row_indexed idx' ?cols (snd w) b" if "(b, w) \<in> set (vs @ [(a, (e, vals))])" for b w
    unfolding row_indexed_def
  proof (intro allI impI)
    fix c ix'
    assume "bt_get idx' c = Some ix'"
    then obtain i ix where i: "i < length ?cols" "?cols ! i = c" "bt_get (tb_indexes t) c = Some ix" "ix' = index_insert (vals ! i) a ix"
      using get by blast
    note pairs = index_insert_facts(3) [OF inv [OF i(3)] fresh [OF i(3)], of "vals ! i"]
    show "\<exists>x. cell ?cols c (snd w) = Ok x \<and> (x, b) \<in> set (index_pairs ix')"
    proof (cases "(b, w) \<in> set vs")
      case True
      with t(1) i(3) have "\<exists>x. cell ?cols c (snd w) = Ok x \<and> (x, b) \<in> set (index_pairs ix)"
        by (fastforce simp: table_indexed_def row_indexed_def)
      with pairs i(4) show ?thesis by auto
    next
      case False
      with that have w: "b = a" "snd w = vals" by auto
      have "c \<in> set ?cols" using i(1,2) by auto
      from cell_in [OF d(1) this row(1)] i(1,2) d(1) have "cell ?cols c vals = Ok (vals ! i)" by (auto simp: nth_eq_iff_index_eq)
      with w pairs i(4) show ?thesis by simp
    qed
  qed
  have addrs: "b \<in> fst ` set (vs @ [(a, (e, vals))])" if "indexed_addr idx' b" for b
  proof -
    from that obtain c ix' k where k: "bt_get idx' c = Some ix'" "(k, b) \<in> set (index_pairs ix')" by (auto simp: indexed_addr_def)
    from get [OF k(1)] obtain i ix where i: "bt_get (tb_indexes t) c = Some ix" "ix' = index_insert (vals ! i) a ix" by blast
    with k(2) index_insert_facts(3) [OF inv [OF i(1)] fresh [OF i(1)]] have "b = a \<or> (k, b) \<in> set (index_pairs ix)" by auto
    with i(1) t(1) show ?thesis by (fastforce simp: table_indexed_def indexed_addr_def)
  qed
  have "\<forall>(b, w) \<in> set (vs @ [(a, (e, vals))]). row_indexed idx' ?cols (snd w) b" using rows by blast
  with idxs addrs have "table_indexed t' (vs @ [(a, (e, vals))])" unfolding table_indexed_def t' by simp
  moreover have "schema_ok t'" using t(2) f get unfolding schema_ok_def t' by (auto split: option.splits)
  ultimately show ?thesis by (simp add: t')
qed

section \<open>The invariant\<close>

abbreviation pages :: "chain \<Rightarrow> page_id set" where
  "pages ch \<equiv> fst ` set ch"

definition stored_ok :: "bytes set \<Rightarrow> row \<Rightarrow> bool" where
  "stored_ok U row \<longleftrightarrow> row_ok row \<and> \<Union> (payload ` set row) \<subseteq> U"

definition table_ok :: "hash_fn \<Rightarrow> bytes set \<Rightarrow> (u64 \<Rightarrow> bytes result) \<Rightarrow> 'j page_cache \<Rightarrow> tx_id \<Rightarrow> table \<Rightarrow> chain \<Rightarrow> bool" where
  "table_ok blake3 U get c now t ch \<longleftrightarrow> table_rep blake3 get c t ch \<and> writable t ch \<and> table_indexed t (chain_versions ch) \<and> schema_ok t \<and>
     (\<forall>(a, v) \<in> set (chain_versions ch). envelope_inv now (fst v) \<and> stored_ok U (snd v))"

definition db_rep :: "hash_fn \<Rightarrow> bytes set \<Rightarrow> 'j database \<Rightarrow> (col_name \<Rightarrow> chain) \<Rightarrow> bool" where
  "db_rep blake3 U db chs \<longleftrightarrow>
     cas_state_inv blake3 U (db_cas db) \<and> cache_inv blake3 (db_cache db) \<and> bt_inv (db_tables db) \<and>
     (\<forall>n t. bt_get (db_tables db) n = Some t \<longrightarrow> table_ok blake3 U (db_get db) (db_cache db) (clock (db_txm db)) t (chs n)) \<and>
     (\<forall>n m. bt_get (db_tables db) n \<noteq> None \<longrightarrow> bt_get (db_tables db) m \<noteq> None \<longrightarrow> n \<noteq> m \<longrightarrow> pages (chs n) \<inter> pages (chs m) = {})"

lemma table_ok_frame:
  assumes "table_ok blake3 U get c now t ch" "cache_inv blake3 c'" "kept_outside blake3 A c c'" "A \<inter> pages ch = {}"
    and "get_extends get get'" "now \<le> now'"
  shows "table_ok blake3 U get' c' now' t ch"
  using table_rep_extends [OF table_rep_frame [OF _ assms(2,3,4)] assms(5)] assms(1,6)
  unfolding table_ok_def by (auto intro: envelope_inv_mono)

lemma disjoint_insert: "C \<subseteq> insert k A \<Longrightarrow> A \<inter> B = {} \<Longrightarrow> k \<notin> B \<Longrightarrow> C \<inter> B = {}"
  by blast

text \<open>An operation on one table leaves the others as they are.\<close>

lemma db_rep_step:
  assumes rep: "db_rep blake3 U db chs" and t: "bt_get (db_tables db) name \<noteq> None"
    and new: "table_ok blake3 U (db_get db') (db_cache db') (clock (db_txm db')) t' ch'"
    and tables: "db_tables db' = bt_insert name t' (db_tables db)"
    and cas: "cas_state_inv blake3 U (db_cas db')" "get_extends (db_get db) (db_get db')"
    and pool: "kept_outside blake3 (pages (chs name)) (db_cache db) (db_cache db')"
    and fresh: "pages ch' \<subseteq> insert (store_page_count (pc_backend (db_cache db))) (pages (chs name))"
    and clock: "clock (db_txm db) \<le> clock (db_txm db')"
  shows "db_rep blake3 U db' (chs(name := ch'))"
proof -
  have inv: "bt_inv (db_tables db)" using rep by (simp add: db_rep_def)
  have get: "bt_get (db_tables db') n = (if n = name then Some t' else bt_get (db_tables db) n)" for n
    using inv by (simp add: tables bt_get_insert)
  have c': "cache_inv blake3 (db_cache db')" using new by (simp add: table_ok_def table_rep_def)
  have others: "pages (chs name) \<inter> pages (chs n) = {}" "table_ok blake3 U (db_get db) (db_cache db) (clock (db_txm db)) u (chs n)"
    if "n \<noteq> name" "bt_get (db_tables db) n = Some u" for n u using rep t that by (auto simp: db_rep_def)
  have notin: "store_page_count (pc_backend (db_cache db)) \<notin> pages (chs n)" if "n \<noteq> name" "bt_get (db_tables db) n = Some u" for n u
  proof -
    have "table_rep blake3 (db_get db) (db_cache db) u (chs n)" using others(2) [OF that] by (simp add: table_ok_def)
    from table_repD(9) [OF this] show ?thesis by blast
  qed
  have disj: "pages ch' \<inter> pages (chs n) = {}" if "n \<noteq> name" "bt_get (db_tables db) n \<noteq> None" for n
  proof -
    from that(2) obtain u where u: "bt_get (db_tables db) n = Some u" by blast
    show ?thesis by (rule disjoint_insert [OF fresh others(1) [OF that(1) u] notin [OF that(1) u]])
  qed
  have kept: "table_ok blake3 U (db_get db') (db_cache db') (clock (db_txm db')) u (chs n)" if "n \<noteq> name" "bt_get (db_tables db) n = Some u" for n u
    by (rule table_ok_frame [OF others(2) [OF that] c' pool others(1) [OF that] cas(2) clock])
  have "pages ((chs(name := ch')) n) \<inter> pages ((chs(name := ch')) m) = {}"
    if "bt_get (db_tables db') n \<noteq> None" "bt_get (db_tables db') m \<noteq> None" "n \<noteq> m" for n m
  proof -
    consider "n = name" | "m = name" | "n \<noteq> name" "m \<noteq> name" by blast
    then show ?thesis
    proof cases
      case 3
      with that rep show ?thesis unfolding db_rep_def get by auto
    qed (use that disj [of n] disj [of m] in \<open>auto simp: get\<close>)
  qed
  moreover have "table_ok blake3 U (db_get db') (db_cache db') (clock (db_txm db')) u ((chs(name := ch')) n)" if "bt_get (db_tables db') n = Some u" for n u
    using that new kept by (cases "n = name") (auto simp: get)
  moreover have "bt_inv (db_tables db')" unfolding tables by (rule bt_insert_inv [OF inv])
  ultimately show ?thesis using cas(1) c' unfolding db_rep_def by blast
qed

section \<open>Inserting\<close>

lemma on_table_Ok:
  "on_table name m db = (Ok x, db') \<longleftrightarrow> (\<exists>t c t'. bt_get (db_tables db) name = Some t \<and> m (db_cache db, t) = (Ok x, (c, t')) \<and>
     db' = db\<lparr>db_cache := c, db_tables := bt_insert name t' (db_tables db)\<rparr>)"
  by (auto simp: on_table_def split: option.splits prod.splits)

lemma begin_tx_Ok:
  "begin_tx db = (Ok tx, db') \<longleftrightarrow> clock (db_txm db) \<noteq> - 1 \<and> tx = clock (db_txm db) + 1 \<and> db' = db\<lparr>db_txm := (db_txm db)\<lparr>clock := tx\<rparr>\<rparr>"
  by (auto simp: begin_tx_def begin_write_def Let_def split: if_splits)

lemma on_cas_Ok: "on_cas m db = (Ok x, db') \<longleftrightarrow> (\<exists>s. m (db_cas db) = (Ok x, s) \<and> db' = db\<lparr>db_cas := s\<rparr>)"
  by (auto simp: on_cas_def split: prod.splits)

lemma ensure_writable_Ok: "ensure_writable db = (Ok u, db') \<Longrightarrow> db' = db\<lparr>db_synced := False\<rparr>"
  by (auto simp: ensure_writable_def split: if_splits)

lemma bt_insert_twice: "bt_inv m \<Longrightarrow> bt_insert k w (bt_insert k v m) = bt_insert k w m"
  by (induction m) (auto simp: bt_inv_def)

lemma insert_base_steps:
  assumes "insert_validated_base E name vals db = (Ok (), db')" "\<not> db_autocommit db" "bt_inv (db_tables db)"
  shows "\<exists>tx rec s a t c1 t1 c2 t2. clock (db_txm db) \<noteq> - 1 \<and> tx = clock (db_txm db) + 1 \<and>
    encode_record (cas_put (eg_blake3 E)) (envelope_new tx 0) vals (db_cas db) = (Ok rec, s) \<and> length rec \<le> MAX_RECORD \<and>
    bt_get (db_tables db) name = Some t \<and> append_record (eg_blake3 E) (eg_hook E) rec (db_cache db, t) = (Ok a, (c1, t1)) \<and>
    index_row vals a (c1, t1) = (Ok (), (c2, t2)) \<and>
    db' = db\<lparr>db_synced := False, db_txm := (db_txm db)\<lparr>clock := tx\<rparr>, db_cas := s, db_cache := c2, db_tables := bt_insert name t2 (db_tables db)\<rparr>"
proof -
  define db0 where "db0 = db\<lparr>db_synced := False\<rparr>"
  from assms(1) have r0: "act_then begin_tx (\<lambda>tx. act_then (on_cas (encode_record (cas_put (eg_blake3 E)) (envelope_new tx 0) vals)) (\<lambda>rec.
     act_then (act_return (if length rec > MAX_RECORD then Err (Schema ''record of {} bytes exceeds page capacity ({MAX_RECORD})'') else Ok ())) (\<lambda>_.
     act_then (on_table name (append_record (eg_blake3 E) (eg_hook E) rec)) (\<lambda>addr.
     act_then (on_table name (index_row vals addr)) (\<lambda>_. maybe_flush E))))) db0 = (Ok (), db')"
    unfolding insert_validated_base_def act_then_eq_Ok [of ensure_writable] act_then_eq_Ok [of "act_return (validate_record_shape vals)"]
    by (auto dest!: ensure_writable_Ok simp: db0_def)
  from r0 obtain tx db1 rec db2 where b: "begin_tx db0 = (Ok tx, db1)" and e: "on_cas (encode_record (cas_put (eg_blake3 E)) (envelope_new tx 0) vals) db1 = (Ok rec, db2)"
    and len: "length rec \<le> MAX_RECORD" and r1: "act_then (on_table name (append_record (eg_blake3 E) (eg_hook E) rec)) (\<lambda>addr.
     act_then (on_table name (index_row vals addr)) (\<lambda>_. maybe_flush E)) db2 = (Ok (), db')"
    unfolding act_then_eq_Ok [of begin_tx] act_then_eq_Ok [of "on_cas _"] act_then_eq_Ok [of "act_return _"] by (auto split: if_splits)
  from r1 obtain a db3 db4 where app: "on_table name (append_record (eg_blake3 E) (eg_hook E) rec) db2 = (Ok a, db3)"
    and ix: "on_table name (index_row vals a) db3 = (Ok (), db4)" and fl: "maybe_flush E db4 = (Ok (), db')"
    unfolding act_then_eq_Ok by auto
  from b have d1: "clock (db_txm db) \<noteq> - 1" "tx = clock (db_txm db) + 1" "db1 = db0\<lparr>db_txm := (db_txm db0)\<lparr>clock := tx\<rparr>\<rparr>"
    by (simp_all add: begin_tx_Ok db0_def)
  from e obtain s where d2: "encode_record (cas_put (eg_blake3 E)) (envelope_new tx 0) vals (db_cas db) = (Ok rec, s)" "db2 = db1\<lparr>db_cas := s\<rparr>"
    by (auto simp: on_cas_Ok d1(3) db0_def)
  from app obtain t c1 t1 where d3: "bt_get (db_tables db) name = Some t" "append_record (eg_blake3 E) (eg_hook E) rec (db_cache db, t) = (Ok a, (c1, t1))"
    "db3 = db2\<lparr>db_cache := c1, db_tables := bt_insert name t1 (db_tables db)\<rparr>"
    by (auto simp: on_table_Ok d2(2) d1(3) db0_def)
  from ix obtain c2 t2 where d4: "index_row vals a (c1, t1) = (Ok (), (c2, t2))"
    "db4 = db3\<lparr>db_cache := c2, db_tables := bt_insert name t2 (bt_insert name t1 (db_tables db))\<rparr>"
    by (auto simp: on_table_Ok d3(3) bt_get_insert [OF assms(3)])
  have "db' = db4" using fl assms(2) by (auto simp: maybe_flush_def d4(2) d3(3) d2(2) d1(3) db0_def)
  then have "db' = db\<lparr>db_synced := False, db_txm := (db_txm db)\<lparr>clock := tx\<rparr>, db_cas := s, db_cache := c2, db_tables := bt_insert name t2 (db_tables db)\<rparr>"
    by (simp add: d4(2) d3(3) d2(2) d1(3) db0_def bt_insert_twice [OF assms(3)])
  with d1(1,2) d2(1) len d3(1,2) d4(1) show ?thesis by blast
qed

text \<open>The rows a snapshot sees, in address order.\<close>

definition rows_at :: "(record_addr \<times> versioned_row) list \<Rightarrow> tx_id \<Rightarrow> (record_addr \<times> row) list" where
  "rows_at vs tx = map (\<lambda>(a, v). (a, snd v)) (filter (\<lambda>(a, v). sees (as_of tx) (fst v)) vs)"

abbreviation visible_rows :: "chain \<Rightarrow> tx_id \<Rightarrow> (record_addr \<times> row) list" where
  "visible_rows ch \<equiv> rows_at (chain_versions ch)"

lemma sees_later:
  assumes "envelope_inv now e" "now \<le> tx"
  shows "sees (as_of tx) e = sees (as_of now) e"
  using assms by (auto simp: envelope_inv_def sees_def as_of_def is_visible_window TX_NULL_def)

lemma sees_new: "0 < tx \<Longrightarrow> sees (as_of s) (envelope_new tx 0) \<longleftrightarrow> tx \<le> s"
  by (auto simp: sees_def as_of_def is_visible_window envelope_new_def TX_NULL_def)

lemma envelope_inv_new: "0 < tx \<Longrightarrow> envelope_inv tx (envelope_new tx 0)"
  by (simp add: envelope_inv_def envelope_new_def TX_NULL_def)

text \<open>The state after an insertion: the database, the pages of the table it went to, and its address.\<close>

definition inserted :: "hash_fn \<Rightarrow> bytes set \<Rightarrow> col_name \<Rightarrow> row \<Rightarrow> 'j database \<Rightarrow> (col_name \<Rightarrow> chain) \<Rightarrow> 'j database \<Rightarrow> chain \<Rightarrow> record_addr \<Rightarrow> bool" where
  "inserted blake3 U name vals db chs db' ch' a \<longleftrightarrow>
     db_rep blake3 U db' (chs(name := ch')) \<and> clock (db_txm db) < clock (db_txm db') \<and>
     chain_versions ch' = chain_versions (chs name) @ [(a, (envelope_new (clock (db_txm db')) 0, vals))]"

lemma record_encoded:
  assumes "cas_state_inv blake3 U s" "\<Union> (payload ` set vals) \<subseteq> U" "row_ok vals" "encode_record (cas_put blake3) e vals s = (Ok out, s')"
  shows "cas_state_inv blake3 U s' \<and> get_extends (cas_get (fst s)) (cas_get (fst s')) \<and> decode_record (cas_get (fst s')) out = Ok (e, vals)"
proof -
  from assms(4) obtain body where "encode_row (cas_put blake3) vals s = (Ok body, s')" by (auto simp: encode_record_def act_then_eq_Ok)
  from cas.decode_encode_row [OF assms(1-3) this] cas.decode_encode_record [OF assms get_extends_refl, of "[]"] show ?thesis by simp
qed

lemma table_rep_indexes: "table_rep blake3 get c (t\<lparr>tb_indexes := idx\<rparr>) ch = table_rep blake3 get c t ch"
proof -
  have "chain_from blake3 get c (t\<lparr>tb_indexes := idx\<rparr>) p ch = chain_from blake3 get c t p ch" for p
  proof (induction ch arbitrary: p)
    case (Cons x ch)
    then show ?case by (cases x) (simp add: table_page_def resident_page_def)
  qed simp
  then show ?thesis by (simp add: table_rep_def tail_last_def)
qed

lemma insert_base_Ok:
  assumes rep: "db_rep (eg_blake3 E) U db chs" and ac: "\<not> db_autocommit db"
    and t: "bt_get (db_tables db) name = Some t" "length vals = length (tb_columns t)" "tb_row_versions t < usize_max"
    and vals: "stored_ok U vals" and room: "store_page_count (pc_backend (db_cache db)) < 2 ^ 48"
    and run: "insert_validated_base E name vals db = (Ok (), db')"
  shows "\<exists>ch' a t'. inserted (eg_blake3 E) U name vals db chs db' ch' a \<and> bt_get (db_tables db') name = Some t' \<and>
    same_schema t (t'\<lparr>tb_indexes := tb_indexes t\<rparr>) \<and> tb_row_versions t' = tb_row_versions t + 1 \<and>
    (\<forall>n. n \<noteq> name \<longrightarrow> bt_get (db_tables db') n = bt_get (db_tables db) n) \<and> db_autocommit db' = db_autocommit db \<and> db_in_transaction db' = db_in_transaction db \<and>
    unat (store_page_count (pc_backend (db_cache db'))) \<le> Suc (unat (store_page_count (pc_backend (db_cache db))))"
proof -
  let ?b = "eg_blake3 E" and ?g = "db_get db"
  have db: "cas_state_inv ?b U (db_cas db)" "bt_inv (db_tables db)" "table_ok ?b U ?g (db_cache db) (clock (db_txm db)) t (chs name)"
    using rep t(1) by (auto simp: db_rep_def)
  from insert_base_steps [OF run ac db(2)] t(1) obtain tx rec s a c1 t1 c2 t2 where
    tx: "clock (db_txm db) \<noteq> - 1" "tx = clock (db_txm db) + 1"
    and enc: "encode_record (cas_put ?b) (envelope_new tx 0) vals (db_cas db) = (Ok rec, s)" "length rec \<le> MAX_RECORD"
    and app: "append_record ?b (eg_hook E) rec (db_cache db, t) = (Ok a, (c1, t1))"
    and ix: "index_row vals a (c1, t1) = (Ok (), (c2, t2))"
    and db': "db' = db\<lparr>db_synced := False, db_txm := (db_txm db)\<lparr>clock := tx\<rparr>, db_cas := s, db_cache := c2, db_tables := bt_insert name t2 (db_tables db)\<rparr>"
    by auto
  have now: "clock (db_txm db) < tx" "0 < tx"
    using begin_write_increases [of "db_txm db" tx "(db_txm db)\<lparr>clock := tx\<rparr>"] tx by (auto simp: begin_write_Ok word_gt_0)
  note rc = record_encoded [OF db(1) vals [unfolded stored_ok_def, THEN conjunct2] vals [unfolded stored_ok_def, THEN conjunct1] enc(1)]
  let ?v = "(envelope_new tx 0, vals)" and ?g' = "cas_get (fst s)"
  have rep1: "table_rep ?b ?g' (db_cache db) t (chs name)" "writable t (chs name)"
    using db(3) rc table_rep_extends unfolding table_ok_def by blast+
  have "record_for ?g' t rec ?v" using rc enc(2) t(2,3) by (simp add: record_for_def)
  note g = append_record_Ok [OF rep1 room this app]
  from g obtain ch' where ch': "table_rep ?b ?g' c1 t1 ch'" "chain_versions ch' = chain_versions (chs name) @ [(a, ?v)]" "writable t1 ch'"
    "pages ch' \<subseteq> insert (store_page_count (pc_backend (db_cache db))) (pages (chs name))"
    unfolding grown_def by auto
  from g have same: "same_schema t t1" and kept: "kept_outside ?b (pages (chs name)) (db_cache db) c1"
    and count: "unat (store_page_count (pc_backend c1)) \<le> Suc (unat (store_page_count (pc_backend (db_cache db))))"
    unfolding grown_def by auto
  have fresh: "a \<notin> fst ` set (chain_versions (chs name))" using table_versions_distinct [OF ch'(1)] ch'(2) by auto
  have cols: "tb_columns t1 = tb_columns t" "tb_indexes t1 = tb_indexes t" using same by (simp_all add: same_schema_def)
  have ti: "table_indexed t1 (chain_versions (chs name))" "schema_ok t1"
    using db(3) same by (auto simp: table_ok_def table_indexed_def schema_ok_def same_schema_def)
  note r = index_row_Ok [OF ix ti _ fresh, of "envelope_new tx 0"]
  from r t(2) cols have c2: "c2 = c1" and t2: "t2 = t1\<lparr>tb_indexes := tb_indexes t2\<rparr>" "table_indexed t2 (chain_versions ch')" "schema_ok t2"
    unfolding ch'(2) by simp_all
  have env: "\<forall>(b, w) \<in> set (chain_versions ch'). envelope_inv tx (fst w) \<and> stored_ok U (snd w)"
    using db(3) envelope_inv_mono [OF _ less_imp_le [OF now(1)]] envelope_inv_new [OF now(2)] vals
    unfolding ch'(2) table_ok_def by auto
  have rep2: "table_rep ?b ?g' c2 t2 ch'" "writable t2 ch'"
    using ch'(1,3) unfolding c2 by (subst t2(1), simp add: table_rep_indexes, subst t2(1), simp add: writable_def)
  have "table_ok ?b U (db_get db') (db_cache db') (clock (db_txm db')) t2 ch'"
    using rep2 t2(2,3) env by (simp add: table_ok_def db')
  then have "db_rep ?b U db' (chs(name := ch'))"
    using rc kept ch'(4) now(1) c2 t(1) by (intro db_rep_step [OF rep]) (simp_all add: db')
  then have ins: "inserted ?b U name vals db chs db' ch' a" using now(1) ch'(2) by (simp add: inserted_def db')
  have "tb_row_versions t2 = tb_row_versions t + 1"
    using table_repD(6) [OF rep2(1)] table_repD(6) [OF rep1(1)] ch'(2) by simp
  moreover have "same_schema t (t2\<lparr>tb_indexes := tb_indexes t\<rparr>)"
    using same by (subst t2(1)) (simp add: same_schema_def)
  ultimately show ?thesis using ins count c2 db(2) by (intro exI [of _ ch'] exI [of _ a] exI [of _ t2]) (simp add: db' bt_get_insert)
qed

section \<open>Reading and waiting\<close>

lemma db_rep_later:
  assumes rep: "db_rep blake3 U db chs" and "cache_inv blake3 (db_cache db')" "kept_outside blake3 {} (db_cache db) (db_cache db')"
    and "db_tables db' = db_tables db" "db_cas db' = db_cas db" "clock (db_txm db) \<le> clock (db_txm db')"
  shows "db_rep blake3 U db' chs"
  using rep table_ok_frame [OF _ assms(2,3) _ get_extends_refl assms(6)] assms(2,4,5) unfolding db_rep_def by auto

section \<open>Deleting\<close>

definition mark_all :: "record_addr set \<Rightarrow> tx_id \<Rightarrow> (record_addr \<times> versioned_row) list \<Rightarrow> (record_addr \<times> versioned_row) list" where
  "mark_all A tx = map (\<lambda>(b, v). (b, if b \<in> A then tombstoned tx v else v))"

lemma mark_all_step: "mark_all A tx (mark_version a tx vs) = mark_all (insert a A) tx vs"
  by (auto simp: mark_all_def mark_version_def tombstoned_def mark_deleted_def)

lemma mark_all_empty [simp]: "mark_all {} tx vs = vs"
  by (simp add: mark_all_def case_prod_unfold)

lemma mark_all_addrs [simp]: "map fst (mark_all A tx vs) = map fst vs"
  by (simp add: mark_all_def case_prod_unfold comp_def)

definition deletes :: "hash_fn \<Rightarrow> (u64 \<Rightarrow> bytes result) \<Rightarrow> ('j, table) pool_state \<Rightarrow> chain \<Rightarrow> record_addr set \<Rightarrow> tx_id \<Rightarrow> ('j, table) pool_state \<Rightarrow> chain \<Rightarrow> bool" where
  "deletes blake3 get s ch A tx s' ch' \<longleftrightarrow>
     table_rep blake3 get (fst s') (snd s') ch' \<and> chain_versions ch' = mark_all A tx (chain_versions ch) \<and>
     (writable (snd s) ch \<longrightarrow> writable (snd s') ch') \<and> pages ch' = pages ch \<and>
     same_schema (snd s) (snd s') \<and> kept_outside blake3 (pages ch) (fst s) (fst s') \<and>
     store_page_count (pc_backend (fst s')) = store_page_count (pc_backend (fst s))"

lemma delete_each_Ok:
  assumes "table_rep blake3 get c t ch" "set addrs \<subseteq> fst ` set (chain_versions ch)"
    and "delete_each blake3 bw tx addrs (c, t) = (Ok (), (c', t'))"
  shows "\<exists>ch'. deletes blake3 get (c, t) ch (set addrs) tx (c', t') ch'"
  using assms
proof (induction addrs arbitrary: c t ch)
  case Nil
  then have "deletes blake3 get (c, t) ch {} tx (c', t') ch" by (simp add: deletes_def view_kept_outside)
  then show ?case by auto
next
  case (Cons a addrs)
  from Cons.prems(3) obtain u c1 t1 where step: "patch_delete_at blake3 bw a tx (c, t) = (Ok u, (c1, t1))"
    and rest: "delete_each blake3 bw tx addrs (c1, t1) = (Ok (), (c', t'))" by (auto simp: act_then_eq_Ok)
  from Cons.prems(2) obtain v where "(a, v) \<in> set (chain_versions ch)" by auto
  from patch_delete_Ok [OF Cons.prems(1) this, of bw tx c1 t1] step obtain ch1 where
    d: "table_rep blake3 get c1 t1 ch1" "chain_versions ch1 = mark_version a tx (chain_versions ch)" "writable t ch \<longrightarrow> writable t1 ch1"
      "pages ch1 = pages ch" "same_schema t t1" "kept_outside blake3 (pages ch) c c1" "store_page_count (pc_backend c1) = store_page_count (pc_backend c)"
    unfolding deleted_def by auto
  have "fst ` set (mark_version a tx (chain_versions ch)) = fst ` set (chain_versions ch)" by (force simp: mark_version_def)
  then have "set addrs \<subseteq> fst ` set (chain_versions ch1)" using Cons.prems(2) d(2) by auto
  from Cons.IH [OF d(1) this rest] obtain ch' where "deletes blake3 get (c1, t1) ch1 (set addrs) tx (c', t') ch'" by blast
  then have "deletes blake3 get (c, t) ch (set (a # addrs)) tx (c', t') ch'"
    using d same_schema_trans [OF d(5)] kept_outside_trans [OF d(6)] by (auto simp: deletes_def mark_all_step)
  then show ?case by blast
qed

text \<open>The rows a statement may delete: versions that are still active, inserted before its transaction.\<close>

definition deletable :: "tx_id \<Rightarrow> record_addr set \<Rightarrow> chain \<Rightarrow> bool" where
  "deletable tx A ch \<longleftrightarrow> A \<subseteq> fst ` set (chain_versions ch) \<and>
     (\<forall>(a, v) \<in> set (chain_versions ch). a \<in> A \<longrightarrow> tx_inserted (fst v) < tx \<and> tx_deleted (fst v) = 0)"

lemma deletes_Ok:
  assumes rep: "db_rep (eg_blake3 E) U db chs" and t: "bt_get (db_tables db) name = Some t"
    and can: "deletable tx (set addrs) (chs name)" "clock (db_txm db) = tx"
    and run: "on_table name (delete_each (eg_blake3 E) (eg_hook E) tx addrs) db = (Ok (), db')"
  shows "\<exists>ch' c t'. db_rep (eg_blake3 E) U db' (chs(name := ch')) \<and> chain_versions ch' = mark_all (set addrs) tx (chain_versions (chs name)) \<and>
    same_schema t t' \<and> tb_row_versions t' = tb_row_versions t \<and> store_page_count (pc_backend c) = store_page_count (pc_backend (db_cache db)) \<and>
    db' = db\<lparr>db_cache := c, db_tables := bt_insert name t' (db_tables db)\<rparr>"
proof -
  let ?b = "eg_blake3 E" and ?g = "db_get db"
  have db: "cas_state_inv ?b U (db_cas db)" "table_ok ?b U ?g (db_cache db) tx t (chs name)"
    using rep t can(2) by (auto simp: db_rep_def)
  from run t obtain c t' where del: "delete_each ?b (eg_hook E) tx addrs (db_cache db, t) = (Ok (), (c, t'))"
    and db': "db' = db\<lparr>db_cache := c, db_tables := bt_insert name t' (db_tables db)\<rparr>" by (auto simp: on_table_Ok)
  have "table_rep ?b ?g (db_cache db) t (chs name)" "set addrs \<subseteq> fst ` set (chain_versions (chs name))"
    using db(2) can(1) by (simp_all add: table_ok_def deletable_def)
  from delete_each_Ok [OF this del] obtain ch' where d: "table_rep ?b ?g c t' ch'" "chain_versions ch' = mark_all (set addrs) tx (chain_versions (chs name))"
    "writable t (chs name) \<longrightarrow> writable t' ch'" "pages ch' = pages (chs name)" "same_schema t t'" "kept_outside ?b (pages (chs name)) (db_cache db) c"
    "store_page_count (pc_backend c) = store_page_count (pc_backend (db_cache db))" unfolding deletes_def by auto
  have vs: "\<exists>w. (a, w) \<in> set (chain_versions (chs name)) \<and> v = (if a \<in> set addrs then tombstoned tx w else w)" if "(a, v) \<in> set (chain_versions ch')" for a v
    using that unfolding d(2) mark_all_def by (clarsimp simp del: if_split) blast
  have "table_indexed t' (chain_versions ch')"
  proof -
    have "fst ` set (chain_versions ch') = fst ` set (chain_versions (chs name))" using arg_cong [OF d(2), of "\<lambda>vs. set (map fst vs)"] by simp
    moreover have "row_indexed (tb_indexes t) (tb_columns t) (snd v) a" if "(a, v) \<in> set (chain_versions ch')" for a v
      using vs [OF that] db(2) by (fastforce simp: table_ok_def table_indexed_def tombstoned_def)
    ultimately show ?thesis using db(2) d(5) by (auto simp: table_ok_def table_indexed_def same_schema_def)
  qed
  moreover have "envelope_inv tx (fst v) \<and> stored_ok U (snd v)" if "(a, v) \<in> set (chain_versions ch')" for a v
    using vs [OF that] db(2) can(1) by (fastforce simp: table_ok_def tombstoned_def envelope_inv_def mark_deleted_def deletable_def)
  moreover have "schema_ok t'" using db(2) d(5) by (auto simp: table_ok_def schema_ok_def same_schema_def)
  ultimately have ok: "table_ok ?b U ?g c tx t' ch'" using d(1,3) db(2) by (auto simp: table_ok_def)
  have "db_rep ?b U db' (chs(name := ch'))"
    by (rule db_rep_step [OF rep, where name = name and t' = t' and ch' = ch']) (use t ok db(1) d can(2) get_extends_refl in \<open>auto simp: db'\<close>)
  moreover have "tb_row_versions t' = tb_row_versions t"
    using table_repD(6) [OF d(1)] db(2) table_repD(6) [of ?b ?g "db_cache db" t "chs name"] arg_cong [OF d(2), of "\<lambda>vs. length (map fst vs)"]
    by (simp add: table_ok_def)
  ultimately show ?thesis using d(2,5,7) db' by blast
qed

section \<open>What snapshots see\<close>

lemma rows_at_append: "rows_at (vs @ ws) tx = rows_at vs tx @ rows_at ws tx"
  by (simp add: rows_at_def)

lemma rows_at_later:
  assumes "\<forall>(a, v) \<in> set vs. envelope_inv now (fst v)" "now \<le> tx"
  shows "rows_at vs tx = rows_at vs now"
proof -
  have "filter (\<lambda>(a, v). sees (as_of tx) (fst v)) vs = filter (\<lambda>(a, v). sees (as_of now) (fst v)) vs"
    by (intro filter_cong refl) (use assms sees_later [OF _ assms(2)] in blast)
  then show ?thesis by (simp add: rows_at_def)
qed

lemma rows_at_new: "0 < tx \<Longrightarrow> rows_at [(a, (envelope_new tx 0, row))] s = (if tx \<le> s then [(a, row)] else [])"
  by (simp add: rows_at_def sees_new)

lemma sees_tombstoned:
  assumes "tx_inserted e < tx" "tx_deleted e = 0" "0 < tx"
  shows "sees (as_of s) (mark_deleted e tx) \<longleftrightarrow> sees (as_of s) e \<and> s < tx"
  using assms by (auto simp: sees_def as_of_def is_visible_window mark_deleted_def TX_NULL_def)

lemma rows_at_mark:
  assumes "\<forall>(a, v) \<in> set vs. a \<in> A \<longrightarrow> tx_inserted (fst v) < tx \<and> tx_deleted (fst v) = 0" "0 < tx"
  shows "rows_at (mark_all A tx vs) s = (if tx \<le> s then filter (\<lambda>(a, _). a \<notin> A) (rows_at vs s) else rows_at vs s)"
  using assms(1)
proof (induction vs)
  case (Cons x vs)
  obtain a e row where x: "x = (a, (e, row))" by (cases x) auto
  have "rows_at (mark_all A tx (x # vs)) s = rows_at [(a, (if a \<in> A then tombstoned tx (e, row) else (e, row)))] s @ rows_at (mark_all A tx vs) s"
    by (simp add: mark_all_def x rows_at_append [symmetric])
  moreover have "rows_at (x # vs) s = rows_at [x] s @ rows_at vs s" by (simp add: rows_at_append [symmetric])
  ultimately show ?case using Cons sees_tombstoned [of e tx s] assms(2) x by (auto simp: rows_at_def tombstoned_def)
qed (simp add: rows_at_def mark_all_def)

end
