(* ===== verification/Statement_Runs.thy ===== *)
theory Statement_Runs
  imports Db_Invariant
begin

text \<open>
  Statements that cannot fail: on a database in memory an insertion of a validated row succeeds. Also a concrete database, one table with one
  page, on which statements can be run; a table whose chain is its resident tail is read without touching the pool.
\<close>

section \<open>Insertion succeeds in memory\<close>

lemma index_columns_total:
  assumes "\<forall>(i, c) \<in> set cs. i < length vals"
  shows "\<exists>idx'. index_columns cs vals a idx = Ok idx'"
  using assms by (induction cs vals a idx rule: index_columns.induct) (auto simp: elem_at_def elem_get_def split: option.splits)

lemma index_row_total:
  assumes "length vals = length (tb_columns t)"
  shows "\<exists>t'. index_row vals a (c, t) = (Ok (), (c, t'))"
proof -
  have "\<forall>(i, c) \<in> set (enumerate 0 (tb_columns t)). i < length vals" using assms by (auto simp: in_set_enumerate_eq)
  then obtain idx where "index_columns (enumerate 0 (tb_columns t)) vals a (tb_indexes t) = Ok idx" using index_columns_total by blast
  then show ?thesis by (simp add: index_row_def)
qed

lemma encode_record_memory:
  assumes "cas_dev_root (fst s) = None" "length (cas_entries (fst s)) + length vals \<le> isize_max" "validate_record_shape vals = Ok ()"
  shows "\<exists>rec s'. encode_record (cas_put blake3) e vals s = (Ok rec, s') \<and> length rec \<le> MAX_RECORD"
proof -
  obtain s0 fs where s: "s = (s0, fs)" by (cases s)
  from encode_values_memory [of s0 vals blake3 fs] assms(1,2) s obtain out s' where enc: "encode_values (cas_put blake3) vals s = (Ok out, s')" by auto
  have n: "length vals \<le> 65535" using assms(3) by (auto simp: validate_record_shape_def split: if_splits)
  have "ENVELOPE_LEN + 2 + sum_list (map encoded_field_len vals) \<le> MAX_RECORD"
    using assms(3) n by (auto simp: validate_record_shape_def saturating_fold Let_def MAX_RECORD_def size_defs SLOT_SIZE_def usize_max_def min_def split: if_splits)
  moreover have "length out = sum_list (map encoded_field_len vals)" by (rule encode_values_length [OF enc])
  ultimately show ?thesis using enc n by (simp add: encode_record_def encode_row_def act_then_def length_headers size_defs)
qed

definition roomy :: "'j database \<Rightarrow> row \<Rightarrow> bool" where
  "roomy db vals \<longleftrightarrow> in_memory (db_cache db) \<and> pc_clock (db_cache db) < usize_max \<and> store_page_count (pc_backend (db_cache db)) < 2 ^ 48 \<and>
     cas_dev_root (fst (db_cas db)) = None \<and> length (cas_entries (fst (db_cas db))) + length vals \<le> isize_max \<and>
     clock (db_txm db) \<noteq> - 1 \<and> (db_logged db \<longrightarrow> db_in_transaction db)"

lemma insert_base_succeeds:
  assumes rep: "db_rep (eg_blake3 E) U db chs" "\<not> db_autocommit db" and room: "roomy db vals"
    and t: "bt_get (db_tables db) name = Some t" "tb_row_versions t < usize_max" "length vals = length (tb_columns t)"
    and vals: "stored_ok U vals" "validate_record_shape vals = Ok ()"
  shows "\<exists>db'. insert_validated_base E name vals db = (Ok (), db')"
proof -
  let ?b = "eg_blake3 E" and ?tx = "clock (db_txm db) + 1" and ?db0 = "db\<lparr>db_synced := False\<rparr>"
  note room = room [unfolded roomy_def]
  have w: "ensure_writable db = (Ok (), ?db0)" using room by (auto simp: ensure_writable_def in_memory_def split: backend.splits)
  have tx: "begin_tx ?db0 = (Ok ?tx, ?db0\<lparr>db_txm := (db_txm db)\<lparr>clock := ?tx\<rparr>\<rparr>)" using room by (simp add: begin_tx_Ok)
  obtain rec s where enc: "encode_record (cas_put ?b) (envelope_new ?tx 0) vals (db_cas db) = (Ok rec, s)" "length rec \<le> MAX_RECORD"
    using encode_record_memory [OF _ _ vals(2), of "db_cas db" ?b "envelope_new ?tx 0"] room by auto
  have db: "cas_state_inv ?b U (db_cas db)" "table_ok ?b U (db_get db) (db_cache db) (clock (db_txm db)) t (chs name)" "bt_inv (db_tables db)"
    using rep(1) t(1) by (auto simp: db_rep_def)
  note rc = record_encoded [OF db(1) vals(1) [unfolded stored_ok_def, THEN conjunct2] vals(1) [unfolded stored_ok_def, THEN conjunct1] enc(1)]
  have trep: "table_rep ?b (cas_get (fst s)) (db_cache db) t (chs name)" "writable t (chs name)"
    using db(2) rc table_rep_extends unfolding table_ok_def by blast+
  have "record_for (cas_get (fst s)) t rec (envelope_new ?tx 0, vals)" using rc enc(2) t(2,3) by (simp add: record_for_def)
  from append_record_memory [OF trep _ this] room obtain a c1 t1 where
    app: "append_record ?b (eg_hook E) rec (db_cache db, t) = (Ok a, (c1, t1))" by (metis surj_pair)
  have "tb_columns t1 = tb_columns t"
    using append_record_Ok [OF trep _ \<open>record_for _ t rec _\<close> app] room by (simp add: grown_def same_schema_def)
  with index_row_total [of vals t1 a c1] t(3) obtain t2 where ix: "index_row vals a (c1, t1) = (Ok (), (c1, t2))" by auto
  show ?thesis
    using w tx enc app ix t(1) vals(2) rep(2) bt_get_insert [OF db(3)]
    by (simp add: insert_validated_base_def act_then_def on_cas_def on_table_def maybe_flush_def not_less)
qed

section \<open>A table on one page\<close>

definition one_page :: "table \<Rightarrow> bool" where
  "one_page t \<longleftrightarrow> tb_first_page t = tb_tail_id t \<and> tb_tail_id t \<noteq> None \<and> tb_tail t \<noteq> None"

lemma walk_one_page:
  assumes "one_page t" "walk blake3 bw t on_tail on_page hops (tb_first_page t) (c, s) = (r, (c', s'))"
  shows "c' = c"
proof -
  from assms(1) obtain i tail where t: "tb_first_page t = Some i" "tb_tail_id t = Some i" "tb_tail t = Some tail" by (auto simp: one_page_def)
  show ?thesis
  proof (cases hops)
    case (Suc n)
    obtain r1 s1 where one: "on_tail i tail (s\<lparr>sc_tail_found := True\<rparr>) = (r1, s1)" by (metis surj_pair)
    show ?thesis using assms(2) t Suc one
      by (cases r1) (auto simp: on_rest_def mark_tail_def act_then_def tail_ends_def Let_def split: if_splits option.splits)
  qed (use assms(2) t in simp)
qed

lemma scan_one_page:
  assumes "one_page t" "scan blake3 bw get t visit (c, v) = (r, (c', v'))"
  shows "c' = c"
proof -
  obtain r1 c1 s1 where w: "walk blake3 bw t (visit_row_page get (length (tb_columns t)) visit) (scan_page get t visit) (max_hops c) (tb_first_page t) (c, scan_start t v) =
    (r1, (c1, s1))" by (metis surj_pair)
  with walk_one_page [OF assms(1) w] assms(2) show ?thesis
    by (cases r1) (auto simp: scan_def traverse_def act_then_def on_rest_def split: prod.splits)
qed

lemma own_walk_one_page:
  assumes "one_page t" "own_walk blake3 bw t n hops (tb_first_page t) (c, s) = (r, (c', s'))"
  shows "c' = c"
proof -
  from assms(1) obtain i tail where t: "tb_first_page t = Some i" "tb_tail_id t = Some i" "tb_tail t = Some tail" by (auto simp: one_page_def)
  show ?thesis
  proof (cases hops)
    case (Suc n)
    show ?thesis using assms(2) t Suc
      by (cases "row_next_page tail") (auto simp: act_then_def tail_ends_def Let_def split: if_splits option.splits)
  qed (use assms(2) t in simp)
qed

lemma patch_one_page:
  assumes "one_page t" "tb_tail_id t = Some (fst (unpack_addr a))" "patch_delete_at blake3 bw a tx (c, t) = (Ok (), (c', t'))"
  shows "c' = c"
proof -
  obtain i slot where a: "unpack_addr a = (i, slot)" by (cases "unpack_addr a")
  obtain r1 c1 t1 where e: "ensure_table_page_ids blake3 bw (c, t) = (r1, (c1, t1))" by (metis surj_pair)
  then have "c1 = c \<and> tb_tail_id t1 = tb_tail_id t \<and> tb_tail t1 = tb_tail t"
    using own_walk_one_page [OF assms(1)] by (auto simp: ensure_table_page_ids_def split: if_splits prod.splits result.splits)
  then show ?thesis using assms e a
    by (cases r1) (auto simp: patch_delete_at_def table_chain_contains_page_def act_then_def one_page_def split: option.splits if_splits result.splits)
qed

section \<open>A concrete database\<close>

definition sample_engine :: "unit engine" where
  "sample_engine = \<lparr>eg_reader = sample_reader, eg_persist = act_return (Ok ()), eg_publish = act_return (Ok ()), eg_begin = act_return (Ok ()),
     eg_commit = act_return (Ok ()), eg_rollback = act_return (Ok ())\<rparr>"

definition database_of :: "unit page_cache \<Rightarrow> table \<Rightarrow> tx_id \<Rightarrow> unit database" where
  "database_of c t now = \<lparr>db_cache = c, db_cas = (new_memory, \<lparr>fs_files = \<lambda>_. None, fs_denied = \<lambda>_. False\<rparr>), db_txm = \<lparr>clock = now\<rparr>,
     db_tables = [([116], t)], db_logged = False, db_in_transaction = True, db_autocommit = False, db_durable = False, db_synced = False\<rparr>"

lemma blobless: "get_extends no_blobs get"
  by (simp add: get_extends_def no_blobs_def)

lemma database_of_rep:
  assumes "table_ok sample_digest {} (cas_get new_memory) c now t ch"
  shows "db_rep sample_digest {} (database_of c t now) (\<lambda>_. ch)"
proof -
  have "cas_state_inv sample_digest {} (new_memory, fs)" for fs by (simp add: cas_state_inv_def collision_free_def)
  moreover have "cache_inv sample_digest c" using assms by (simp add: table_ok_def table_rep_def)
  ultimately show ?thesis using assms by (auto simp: db_rep_def database_of_def bt_inv_def split: if_splits)
qed

lemma sample_engine_simps: "eg_reader sample_engine = sample_reader" "re_blake3 sample_reader = sample_digest" "re_hook sample_reader = (\<lambda>_. act_return (Ok ()))"
  by (simp_all add: sample_engine_def sample_reader_def)

lemma sample_empty: "db_rep sample_digest {} (database_of sample_pool sample_table 0) (\<lambda>_. [])"
proof -
  have "table_rep sample_digest (cas_get new_memory) sample_pool sample_table []" by (rule table_rep_extends [OF sample_table_ok(1) blobless])
  then have "table_ok sample_digest {} (cas_get new_memory) sample_pool 0 sample_table []"
    using sample_table_ok(2) by (auto simp: table_ok_def table_indexed_def schema_ok_def sample_table_def indexes_inv_def indexed_addr_def bt_inv_def)
  then show ?thesis by (rule database_of_rep)
qed

text \<open>The database after its first insertion.\<close>

definition filled :: "unit page_cache \<Rightarrow> table \<Rightarrow> record_addr \<Rightarrow> chain \<Rightarrow> bool" where
  "filled c t a ch \<longleftrightarrow> (\<forall>now \<ge> 1. db_rep sample_digest {} (database_of c t now) (\<lambda>_. ch)) \<and> chain_versions ch = [(a, (envelope_new 1 0, [VNull]))] \<and> length ch = 1 \<and>
     one_page t \<and> tb_tail_id t = Some (fst (unpack_addr a)) \<and> same_schema sample_table t \<and> in_memory c \<and> pc_clock c = 0 \<and>
     store_page_count (pc_backend c) = 1 \<and> tb_row_versions t = 1"

lemma filledD:
  assumes "filled c t a ch"
  shows "\<And>now. 1 \<le> now \<Longrightarrow> db_rep sample_digest {} (database_of c t now) (\<lambda>_. ch)" "chain_versions ch = [(a, (envelope_new 1 0, [VNull]))]" "length ch = 1"
    "one_page t" "tb_tail_id t = Some (fst (unpack_addr a))" "same_schema sample_table t" "in_memory c" "pc_clock c = 0"
    "store_page_count (pc_backend c) = 1" "tb_row_versions t = 1"
  using assms by (simp_all add: filled_def)

lemma sample_filled: "\<exists>c t a ch. filled c t a ch"
proof -
  let ?v = "(envelope_new 1 0, [VNull]) :: versioned_row" and ?w = "\<lambda>_. act_return (Ok ()) :: (unit \<times> file_system, unit) action"
  obtain i c where alloc: "cache_alloc_page sample_pool = (Ok i, c)" using cache_alloc_memory [OF sample_pool_ok(2)] by blast
  have small: "store_page_count (pc_backend sample_pool) < 2 ^ 48" by (simp add: sample_pool_ok)
  note a = cache_alloc_Ok [OF sample_pool_ok(1) alloc small]
  have i: "i = 0" using a(2) by (simp add: sample_pool_ok)
  from append_first_page [OF sample_table_ok(1) alloc small sample_table_ok(3), of sample_digest ?w] obtain t ch where
    t: "table_rep sample_digest no_blobs c t ch" "chain_versions ch = [(pack_addr 0 0, ?v)]" "writable t ch" "pages ch \<subseteq> {0}" "same_schema sample_table t"
    by (auto simp: grown_def sample_pool_ok i)
  have "ch \<noteq> []" using t(2) by auto
  then obtain x cs where x: "ch = x # cs" by (cases ch) auto
  have "fst y = 0" if "y \<in> set ch" for y using t(4) that by blast
  then have cs: "cs = []" using x table_repD(4) [OF t(1)] by (cases cs) auto
  have one: "one_page t" "tb_tail_id t = Some 0"
    using table_repD(2,3) [OF t(1)] t(3,4) x cs by (cases x; auto simp: one_page_def writable_def tail_last_def)+
  have "unpack_addr (pack_addr 0 0) = (0, 0)" by (simp add: unpack_pack_addr)
  then have tail: "tb_tail_id t = Some (fst (unpack_addr (pack_addr 0 0)))" using one by simp
  have rep: "table_rep sample_digest (cas_get new_memory) c t ch" by (rule table_rep_extends [OF t(1) blobless])
  have "table_ok sample_digest {} (cas_get new_memory) c now t ch" if "1 \<le> now" for now
    using rep t(2,3,5) envelope_inv_mono [OF envelope_inv_new [of 1] that]
    by (auto simp: table_ok_def table_indexed_def schema_ok_def same_schema_def sample_table_def indexes_inv_def indexed_addr_def row_indexed_def bt_inv_def stored_ok_def row_ok_def)
  then have db: "db_rep sample_digest {} (database_of c t now) (\<lambda>_. ch)" if "1 \<le> now" for now using that database_of_rep by blast
  have "in_memory c" "pc_clock c = 0" "store_page_count (pc_backend c) = 1" "length ch = 1" "tb_row_versions t = 1"
    using a(3,6) a(7) [OF sample_pool_ok(2)] i x cs table_repD(6) [OF rep] t(2) by (simp_all add: sample_pool_ok)
  then show ?thesis using db t(2,5) one(1) tail unfolding filled_def by blast
qed

abbreviation sample_pred :: predicate where
  "sample_pred \<equiv> IsNull [97] False"

text \<open>A search on it, and the deletion and the update of what it finds.\<close>

lemma sample_finds:
  assumes rep: "db_rep sample_digest {} (database_of c t 1) (\<lambda>_. ch)" and ch: "chain_versions ch = [(a, (envelope_new 1 0, [VNull]))]" "length ch = 1"
    and t: "one_page t" "same_schema sample_table t" and pool: "in_memory c" "pc_clock c = 0"
  shows "find_matches sample_engine [116] sample_pred (database_of c t 1, None, None) = (Ok [(a, [VNull])], (database_of c t 1, None, None))"
proof -
  let ?w = "\<lambda>_. act_return (Ok ()) :: (unit \<times> file_system, unit) action" and ?b = "None :: query_budget option" and ?g = "cas_get new_memory"
  let ?visit = "visit_row (re_env sample_reader) (re_layout sample_reader) (as_of 1) (Some sample_pred) (tb_columns t) Pair"
  have trep: "table_rep sample_digest ?g c t ch" using rep by (auto simp: db_rep_def database_of_def table_ok_def)
  have s: "tb_columns t = [[97]]" "tb_indexes t = []" using t(2) by (simp_all add: same_schema_def sample_table_def)
  have ready: "ready sample_digest (length ch) c" using pool ch(2) table_repD(1) [OF trep] by (simp add: ready_def usize_max_def)
  have vis: "sees (as_of 1) (envelope_new 1 0)" by (simp add: sees_new)
  have pass: "row_matches sample_pred [[97]] [VNull] = Ok True"
    by (simp add: row_matches_def cell_def projection_col_pos_def column_matches_def positions_def elem_at_def elem_get_def)
  have visit: "visit_all ?visit (chain_versions ch) (?b, []) = (Ok (), (?b, [(a, [VNull])]))"
    by (simp add: ch(1) s visit_row_def keep_row_def row_passes_def vis pass on_budget_def with_budget_def act_then_def)
  from scan_visits [OF trep ready, of ?w ?visit "(?b, [])"] obtain c' where run: "scan sample_digest ?w ?g t ?visit (c, (?b, [])) = (Ok (), (c', (?b, [(a, [VNull])])))"
    unfolding visit by auto
  note run = run [unfolded scan_one_page [OF t(1) run]]
  have "index_candidates (re_env sample_reader) [] sample_pred ?b = (Ok None, ?b)" by (simp add: index_candidates_def range_candidates_def)
  moreover have "check_predicate_columns (tb_columns t) sample_pred = Ok ()" by (simp add: s projection_col_pos_def column_matches_def positions_def)
  ultimately have "collect_matching sample_reader ?g t sample_pred (as_of 1) (c, ?b) = (Ok [(a, [VNull])], (c, ?b))"
    using run by (simp add: collect_matching_def lookup_def find_rows_def scan_rows_def s(2) act_then_def) (simp add: sample_reader_def)
  then show ?thesis by (simp add: find_matches_def database_of_def run_read_def sample_engine_simps snapshot_now_def as_of_def)
qed

lemma sample_tombstones:
  assumes rep: "db_rep sample_digest {} (database_of c t 2) (\<lambda>_. ch)" and ch: "chain_versions ch = [(a, (envelope_new 1 0, [VNull]))]" "length ch = 1"
    and t: "one_page t" "tb_tail_id t = Some (fst (unpack_addr a))" and pool: "in_memory c" "pc_clock c = 0"
  obtains t' where "delete_each sample_digest (\<lambda>_. act_return (Ok ())) 2 [a] (c, t) = (Ok (), (c, t'))"
proof -
  let ?w = "\<lambda>_. act_return (Ok ()) :: (unit \<times> file_system, unit) action"
  have trep: "table_rep sample_digest (cas_get new_memory) c t ch" using rep by (auto simp: db_rep_def database_of_def table_ok_def)
  have "ready sample_digest (length ch + 1) c" using pool ch(2) table_repD(1) [OF trep] by (simp add: ready_def usize_max_def)
  from patch_delete_ready [OF trep _ this, of a "(envelope_new 1 0, [VNull])" ?w 2] ch(1) obtain c' t' where
    run: "patch_delete_at sample_digest ?w a 2 (c, t) = (Ok (), (c', t'))" by auto
  with patch_one_page [OF t run] that show thesis by (simp add: act_then_def)
qed

text \<open>What the two statements share: they may write, they find the row, and its tombstone is set in the resident page.\<close>

lemma sample_steps:
  assumes filled: "filled c t a ch"
  obtains t' where "ensure_writable (database_of c t 1) = (Ok (), database_of c t 1)" "begin_tx (database_of c t 1) = (Ok 2, database_of c t 2)"
    "find_matches sample_engine [116] sample_pred (database_of c t 1, None, None) = (Ok [(a, [VNull])], (database_of c t 1, None, None))"
    "on_table [116] (delete_each sample_digest (\<lambda>_. act_return (Ok ())) 2 [a]) (database_of c t 2) = (Ok (), database_of c t' 2)"
proof -
  note rep = filledD(1) [OF filled] and ch = filledD(2,3) [OF filled] and t = filledD(4,5,6) [OF filled] and pool = filledD(7,8) [OF filled]
  have w: "ensure_writable (database_of c t 1) = (Ok (), database_of c t 1)"
    using pool(1) by (auto simp: ensure_writable_def in_memory_def database_of_def split: backend.splits)
  have tx: "begin_tx (database_of c t 1) = (Ok 2, database_of c t 2)" by (simp add: begin_tx_Ok database_of_def)
  have "db_rep sample_digest {} (database_of c t 1) (\<lambda>_. ch)" "db_rep sample_digest {} (database_of c t 2) (\<lambda>_. ch)" by (simp_all add: rep)
  note find = sample_finds [OF this(1) ch t(1,3) pool]
  obtain t' where del: "delete_each sample_digest (\<lambda>_. act_return (Ok ())) 2 [a] (c, t) = (Ok (), (c, t'))"
    by (rule sample_tombstones [OF \<open>db_rep _ _ (database_of c t 2) _\<close> ch t(1,2) pool])
  have "on_table [116] (delete_each sample_digest (\<lambda>_. act_return (Ok ())) 2 [a]) (database_of c t 2) = (Ok (), database_of c t' 2)"
    using del by (simp add: on_table_def database_of_def del: delete_each.simps)
  with that w tx find show thesis by blast
qed

lemma sample_delete:
  assumes "filled c t a ch"
  shows "\<exists>s. delete_where sample_engine [116] sample_pred (database_of c t 1, None, None) = (Ok 1, s)"
proof -
  from sample_steps [OF assms] obtain t' where
    s: "ensure_writable (database_of c t 1) = (Ok (), database_of c t 1)" "begin_tx (database_of c t 1) = (Ok 2, database_of c t 2)"
      "find_matches sample_engine [116] sample_pred (database_of c t 1, None, None) = (Ok [(a, [VNull])], (database_of c t 1, None, None))"
      "on_table [116] (delete_each sample_digest (\<lambda>_. act_return (Ok ())) 2 [a]) (database_of c t 2) = (Ok (), database_of c t' 2)" .
  have "maybe_flush sample_engine (database_of c t' 2) = (Ok (), database_of c t' 2)" by (simp add: maybe_flush_def database_of_def)
  with s(2,4) have "apply_deletes_base sample_engine [116] [(a, [VNull])] (database_of c t 1) = (Ok 1, database_of c t' 2)"
    by (simp add: apply_deletes_base_def act_then_def sample_engine_simps del: delete_each.simps)
  with s(1,3) show ?thesis by (simp add: delete_where_def act_then_def on_db_def run_checkpoint_def with_budget_def)
qed

lemma sample_update:
  assumes filled: "filled c t a ch"
  shows "\<exists>s. update_where sample_engine [116] [97] (VInt 5) sample_pred (database_of c t 1, None, None) = (Ok 1, s)"
proof -
  note rep = filledD(1) [OF filled] and ch = filledD(2,3) [OF filled] and t = filledD(4,5,6) [OF filled] and pool = filledD(7,8) [OF filled]
  note small = filledD(9,10) [OF filled]
  from sample_steps [OF filled] obtain t' where
    s: "ensure_writable (database_of c t 1) = (Ok (), database_of c t 1)" "begin_tx (database_of c t 1) = (Ok 2, database_of c t 2)"
      "find_matches sample_engine [116] sample_pred (database_of c t 1, None, None) = (Ok [(a, [VNull])], (database_of c t 1, None, None))"
      "on_table [116] (delete_each sample_digest (\<lambda>_. act_return (Ok ())) 2 [a]) (database_of c t 2) = (Ok (), database_of c t' 2)" .
  have rep2: "db_rep (eg_blake3 sample_engine) {} (database_of c t 2) (\<lambda>_. ch)" using rep [of 2] by (simp add: sample_engine_simps)
  have get: "bt_get (db_tables (database_of c u n)) [116] = Some u" for u n by (simp add: database_of_def)
  have del: "deletable 2 (set [a]) ch" "clock (db_txm (database_of c t 2)) = 2" by (simp_all add: deletable_def ch(1) envelope_new_def TX_NULL_def database_of_def)
  have run: "on_table [116] (delete_each (eg_blake3 sample_engine) (eg_hook sample_engine) 2 [a]) (database_of c t 2) = (Ok (), database_of c t' 2)"
    using s(4) by (simp only: sample_engine_simps)
  from deletes_Ok [OF rep2 get del run] get [of t' 2] obtain ch' where
    d: "db_rep (eg_blake3 sample_engine) {} (database_of c t' 2) ((\<lambda>_. ch)([116] := ch'))" "same_schema t t'" "tb_row_versions t' = 1"
    using small(2) by (auto simp: database_of_def)
  have shape: "validate_record_shape [VInt 5] = Ok ()" by (simp add: validate_record_shape_def saturating_add_def usize_max_def MAX_RECORD_def size_defs SLOT_SIZE_def)
  have st: "tb_columns t = [[97]]" "tb_unique_columns t = {}" "tb_not_null_columns t = {}" "tb_checks t = []" "tb_columns t' = [[97]]"
    using t(3) d(2) by (simp_all add: same_schema_def sample_table_def)
  have room: "roomy (database_of c t' 2) [VInt 5]" "\<not> db_autocommit (database_of c t' 2)" "tb_row_versions t' < usize_max"
    using pool small d(3) by (simp_all add: roomy_def database_of_def usize_max_def new_memory_def isize_max_def)
  have vals: "stored_ok {} [VInt 5]" "length [VInt 5] = length (tb_columns t')" using st by (simp_all add: stored_ok_def row_ok_def)
  from insert_base_succeeds [OF d(1) room(2,1) get room(3) vals(2,1) shape] obtain db3 where
    ins: "insert_validated_base sample_engine [116] [VInt 5] (database_of c t' 2) = (Ok (), db3)" by blast
  have "bt_inv (db_tables (database_of c t' 2))" by (simp add: database_of_def bt_inv_def)
  from insert_base_steps [OF ins room(2) this] have "maybe_flush sample_engine db3 = (Ok (), db3)" by (auto simp: maybe_flush_def database_of_def)
  with ins s(2) run have "apply_updates sample_engine [116] 0 (VInt 5) [(a, [VNull])] (database_of c t 1) = (Ok 1, db3)"
    by (simp add: apply_updates_def act_then_def del: delete_each.simps)
  then have atomic: "atomic_mutation sample_engine (apply_updates sample_engine [116] 0 (VInt 5) [(a, [VNull])]) (database_of c t 1) = (Ok 1, db3)"
    by (simp add: atomic_mutation_def) (simp add: database_of_def)
  have col: "column_index t [97] = Ok 0" by (simp add: column_index_def st positions_def)
  have row: "validate_row_constraints t [VInt 5] = Ok ()" using shape by (simp add: validate_row_constraints_def st)
  show ?thesis using s(1,3) col row atomic get [of t 1] st
    by (simp add: update_where_def act_then_def on_db_def find_table_def ok_or_def check_unique_update_def run_checkpoint_def with_budget_def)
qed

end
