(* ===== verification/Statement_Laws.thy ===== *)
theory Statement_Laws
  imports Statement_Runs
begin

text \<open>
  What the statements do to a database whose invariant holds: the visible rows change exactly as SQL says, for the table a statement names and for no
  other, older snapshots see what they saw, and \<^verbatim>\<open>NOT NULL\<close>, \<^verbatim>\<open>CHECK\<close> and \<^verbatim>\<open>UNIQUE\<close> constraints stay satisfied. Stated for
  statements that run inside a transaction, where the flush is deferred.
\<close>

section \<open>Constraints\<close>

definition unique_key :: "table \<Rightarrow> col_name \<Rightarrow> row \<Rightarrow> val option" where
  "unique_key t column row =
     (case cell (tb_columns t) column row of Ok v \<Rightarrow> if v = VNull then None else Some (join_key v) | _ \<Rightarrow> None)"

definition constraints_ok :: "table \<Rightarrow> row list \<Rightarrow> bool" where
  "constraints_ok t rows \<longleftrightarrow> (\<forall>row \<in> set rows. validate_row_constraints t row = Ok ()) \<and>
     (\<forall>column \<in> tb_unique_columns t. distinct (List.map_filter (unique_key t column) rows))"

lemma map_filter_append: "List.map_filter f (xs @ ys) = List.map_filter f xs @ List.map_filter f ys"
  by (simp add: map_filter_def)

lemma map_filter_perm: "mset xs = mset ys \<Longrightarrow> mset (List.map_filter f xs) = mset (List.map_filter f ys)"
proof -
  have "mset (List.map_filter f zs) = image_mset (the \<circ> f) (filter_mset (\<lambda>x. f x \<noteq> None) (mset zs))" for zs by (simp add: map_filter_def)
  then show "mset xs = mset ys \<Longrightarrow> ?thesis" by (simp only:)
qed

lemma map_filter_map: "(\<And>x. x \<in> set xs \<Longrightarrow> f (g x) = h x) \<Longrightarrow> List.map_filter f (map g xs) = List.map_filter h xs"
  by (induction xs) (simp_all add: map_filter_simps split: option.split)

lemma map_filter_const: "List.map_filter (\<lambda>_. None) xs = []" "List.map_filter (\<lambda>_. Some k) xs = replicate (length xs) k"
  by (induction xs) (simp_all add: map_filter_simps)

lemma constraints_perm: "mset rows = mset rows' \<Longrightarrow> constraints_ok t rows \<longleftrightarrow> constraints_ok t rows'"
proof -
  assume m: "mset rows = mset rows'"
  have "distinct (List.map_filter f rows) \<longleftrightarrow> distinct (List.map_filter f rows')" for f :: "row \<Rightarrow> val option"
    by (rule mset_eq_imp_distinct_iff [OF map_filter_perm [OF m]])
  then show ?thesis using mset_eq_setD [OF m] by (simp add: constraints_ok_def)
qed

lemma constraints_filter: "constraints_ok t (map snd rows) \<Longrightarrow> constraints_ok t (map snd (filter P rows))"
proof -
  have "distinct (List.map_filter f (map snd (filter P rows)))" if "distinct (List.map_filter f (map snd rows))" for f :: "row \<Rightarrow> val option"
    using that by (induction rows) (auto simp: map_filter_def, force)
  then show "constraints_ok t (map snd rows) \<Longrightarrow> ?thesis" by (auto simp: constraints_ok_def)
qed

lemma constraints_snoc:
  assumes "constraints_ok t rows" "validate_row_constraints t row = Ok ()"
    and "\<And>column r. column \<in> tb_unique_columns t \<Longrightarrow> r \<in> set rows \<Longrightarrow> unique_key t column row \<noteq> None \<Longrightarrow> unique_key t column r \<noteq> unique_key t column row"
  shows "constraints_ok t (rows @ [row])"
proof -
  have "distinct (List.map_filter (unique_key t column) (rows @ [row]))" if "column \<in> tb_unique_columns t" for column
  proof (cases "unique_key t column row")
    case None
    then show ?thesis using assms(1) that by (simp add: constraints_ok_def map_filter_def)
  next
    case (Some k)
    then have "k \<notin> set (List.map_filter (unique_key t column) rows)" using assms(3) [OF that] by (auto simp: map_filter_def)
    with Some show ?thesis using assms(1) that by (simp add: constraints_ok_def map_filter_def)
  qed
  then show ?thesis using assms(1,2) by (auto simp: constraints_ok_def)
qed

lemma row_constraints_width: "validate_row_constraints t row = Ok () \<Longrightarrow> length row = length (tb_columns t)"
  by (auto simp: validate_row_constraints_def split: if_splits)

lemma col_pos_cell:
  assumes "distinct columns" "col_pos columns c = Ok i" "length row = length columns"
  shows "cell columns c row = Ok (row ! i) \<and> i < length columns"
proof -
  from assms(2) obtain c' where "List.find (\<lambda>(i, c'). c' = c) (enumerate 0 columns) = Some (i, c')"
    by (auto simp: col_pos_def ok_or_eq_Ok)
  then have i: "columns ! i = c" "i < length columns" by (auto simp: find_Some_iff nth_enumerate_eq)
  with cell_in [OF assms(1) _ assms(3), of c] assms(1) show ?thesis by (metis nth_eq_iff_index_eq nth_mem)
qed

lemma pred_eq_matches:
  assumes "distinct (tb_columns t)" "c \<in> set (tb_columns t)" "length row = length (tb_columns t)" "v \<noteq> VNull"
  shows "row_matches (pred_eq c v) (tb_columns t) row = Ok True \<longleftrightarrow> unique_key t c row = Some (join_key v)"
  using cell_in [OF assms(1,2,3)] assms(4)
  by (auto simp: row_matches_def pred_eq_def unique_key_def eval_compare_def numeric_comparison_order_eq)

lemma db_table_rep: "db_rep blake3 U db chs \<Longrightarrow> bt_get (db_tables db) name = Some t \<Longrightarrow> table_rep blake3 (db_get db) (db_cache db) t (chs name)"
  by (auto simp: db_rep_def table_ok_def)

section \<open>Reads\<close>

definition reads_only :: "hash_fn \<Rightarrow> 'j database \<Rightarrow> 'j database \<Rightarrow> bool" where
  "reads_only blake3 db db' \<longleftrightarrow> (\<exists>c. db' = db\<lparr>db_cache := c\<rparr> \<and> cache_inv blake3 c \<and> untouched blake3 (db_cache db) c)"

lemma reads_only_refl: "cache_inv blake3 (db_cache db) \<Longrightarrow> reads_only blake3 db db"
  unfolding reads_only_def by (intro exI [of _ "db_cache db"]) simp

lemma reads_only_trans: "reads_only blake3 db db1 \<Longrightarrow> reads_only blake3 db1 db2 \<Longrightarrow> reads_only blake3 db db2"
  unfolding reads_only_def by (clarsimp, metis untouched_trans)

lemma reads_only_rep: "db_rep blake3 U db chs \<Longrightarrow> reads_only blake3 db db' \<Longrightarrow> db_rep blake3 U db' chs"
  unfolding reads_only_def by (auto intro!: db_rep_later [of blake3 U db] untouched_outside)

definition matches :: "predicate option \<Rightarrow> table \<Rightarrow> record_addr \<times> row \<Rightarrow> bool" where
  "matches flt t = (\<lambda>(a, row). case flt of None \<Rightarrow> True | Some pred \<Rightarrow> row_matches pred (tb_columns t) row = Ok True)"

lemma passing_rows:
  "map (\<lambda>(a, v). (a, snd v)) (filter (passing (as_of now) flt (tb_columns t)) vs) = filter (matches flt t) (rows_at vs now)"
proof (induction vs)
  case (Cons x vs)
  obtain a v where "x = (a, v)" by (cases x)
  with Cons show ?case by (cases flt) (auto simp: rows_at_def passing_def matches_def row_passes_def)
qed (simp add: rows_at_def)

lemma lookup_rows:
  assumes rep: "db_rep (eg_blake3 E) U db chs" and t: "bt_get (db_tables db) name = Some t"
    and run: "run_read (lookup (eg_reader E) (db_get db) t (as_of (clock (db_txm db))) flt emit) (db, b, p) = (Ok hits, (db', b', p'))"
  shows "(\<exists>sel. mset sel = mset (filter (matches flt t) (visible_rows (chs name) (clock (db_txm db)))) \<and> hits = map (\<lambda>(a, row). emit a row) sel) \<and>
    reads_only (eg_blake3 E) db db' \<and> p' = p"
proof -
  let ?now = "as_of (clock (db_txm db))"
  from run obtain c where l: "lookup (eg_reader E) (db_get db) t ?now flt emit (db_cache db, b) = (Ok hits, (c, b'))"
    and db': "db' = db\<lparr>db_cache := c\<rparr>" "p' = p" by (auto simp: run_read_def split: prod.splits)
  have "table_rep (eg_blake3 E) (db_get db) (db_cache db) t (chs name)" "table_indexed t (chain_versions (chs name))"
    using rep t by (auto simp: db_rep_def table_ok_def)
  from lookup_Ok [OF this refl l] obtain sel where
    sel: "mset sel = mset (filter (passing ?now flt (tb_columns t)) (chain_versions (chs name)))" "hits = map (emitted emit) sel"
      "table_rep (eg_blake3 E) (db_get db) c t (chs name)" "untouched (eg_blake3 E) (db_cache db) c" by blast
  let ?sel = "map (\<lambda>(a, v). (a, snd v)) sel"
  have "mset ?sel = mset (map (\<lambda>(a, v). (a, snd v)) (filter (passing ?now flt (tb_columns t)) (chain_versions (chs name))))"
    using sel(1) by simp
  then have "mset ?sel = mset (filter (matches flt t) (visible_rows (chs name) (clock (db_txm db))))" by (simp only: passing_rows)
  moreover have "hits = map (\<lambda>(a, row). emit a row) ?sel" using sel(2) by (simp add: emitted_def case_prod_unfold)
  ultimately show ?thesis using db' sel(3,4) table_repD(1) unfolding reads_only_def by blast
qed

lemma db_select_rows:
  assumes "db_rep (eg_blake3 E) U db chs" "bt_get (db_tables db) name = Some t" "db_select E t flt (db, b, p) = (Ok rows, (db', b', p'))"
  shows "mset rows = mset (map snd (filter (matches flt t) (visible_rows (chs name) (clock (db_txm db))))) \<and> reads_only (eg_blake3 E) db db' \<and> p' = p"
  using lookup_rows [OF assms(1,2), of flt "\<lambda>_ row. row" b p rows db' b' p'] assms(3)
  by (auto simp: db_select_def select_filtered_def current_def case_prod_unfold)

lemma find_matches_rows:
  assumes "db_rep (eg_blake3 E) U db chs" "bt_get (db_tables db) name = Some t" "find_matches E name pred (db, b, p) = (Ok hits, (db', b', p'))"
  shows "mset hits = mset (filter (matches (Some pred) t) (visible_rows (chs name) (clock (db_txm db)))) \<and> reads_only (eg_blake3 E) db db' \<and> p' = p"
  using lookup_rows [OF assms(1,2), of "Some pred" Pair b p hits db' b' p'] assms(2,3)
  by (auto simp: find_matches_def collect_matching_def snapshot_now_def as_of_def)

lemma visible_width:
  assumes "db_rep blake3 U db chs" "bt_get (db_tables db) name = Some t" "(a, row) \<in> set (visible_rows (chs name) tx)"
  shows "length row = length (tb_columns t)"
proof -
  from assms(3) obtain v where v: "(a, v) \<in> set (chain_versions (chs name))" "row = snd v" by (auto simp: rows_at_def)
  from db_table_rep [OF assms(1,2)] v(1) obtain p vs i cold "next" where
    "page_holds (db_get db) (length (tb_columns t)) cold p next vs" "i < length vs" "v = vs ! i" by (rule version_at)
  with v(2) page_holds_width nth_mem show ?thesis by blast
qed

section \<open>Inserting\<close>

definition no_duplicate :: "table \<Rightarrow> row \<Rightarrow> (record_addr \<times> row) list \<Rightarrow> col_name \<Rightarrow> bool" where
  "no_duplicate t vals rows column \<longleftrightarrow> (\<forall>(a, r) \<in> set rows. unique_key t column vals \<noteq> None \<longrightarrow> unique_key t column r \<noteq> unique_key t column vals)"

lemma claim_key_db: "claim_key env column v (db, b, p) = (Ok u, (db', b', p')) \<Longrightarrow> db' = db"
  by (auto simp: claim_key_def Let_def split: option.splits prod.splits result.splits if_splits)

lemma check_one_unique:
  assumes rep: "db_rep (eg_blake3 E) U db chs" "bt_get (db_tables db) name = Some t" and vals: "length vals = length (tb_columns t)"
    and v: "and_then (col_pos (tb_columns t) column) (elem_at vals) = Ok v" "v \<noteq> VNull"
    and run: "db_select E t (Some (pred_eq column v)) (db, b, p) = (Ok [], (db', b', p'))"
  shows "no_duplicate t vals (visible_rows (chs name) (clock (db_txm db))) column"
proof -
  have d: "distinct (tb_columns t)" using rep by (auto simp: db_rep_def table_ok_def schema_ok_def)
  from v(1) obtain i where i: "col_pos (tb_columns t) column = Ok i" "elem_at vals i = Ok v" by (auto simp: and_then_eq_Ok)
  from col_pos_cell [OF d i(1) vals] have c: "cell (tb_columns t) column vals = Ok (vals ! i)" "i < length (tb_columns t)" by auto
  then have key: "unique_key t column vals = Some (join_key v)" using i(2) v(2) vals by (simp add: unique_key_def elem_at_def elem_get_def)
  have "column \<in> set (tb_columns t)"
    using i(1) by (auto simp: col_pos_def ok_or_eq_Ok find_Some_iff nth_enumerate_eq)
  moreover have "filter (matches (Some (pred_eq column v)) t) (visible_rows (chs name) (clock (db_txm db))) = []"
    using db_select_rows [OF rep run] by (auto simp: filter_empty_conv)
  ultimately show ?thesis
    using pred_eq_matches [OF d _ visible_width [OF rep] v(2)] key by (fastforce simp: no_duplicate_def filter_empty_conv matches_def)
qed

lemma check_unique_Ok:
  assumes "db_rep (eg_blake3 E) U db chs" "bt_get (db_tables db) name = Some t" "length vals = length (tb_columns t)"
    and "check_unique E t vals cs (db, b, p) = (Ok (), (db', b', p'))"
  shows "reads_only (eg_blake3 E) db db' \<and> (\<forall>column \<in> set cs. no_duplicate t vals (visible_rows (chs name) (clock (db_txm db))) column)"
  using assms
proof (induction cs arbitrary: db b p)
  case Nil
  then show ?case by (auto intro!: reads_only_refl simp: db_rep_def)
next
  case (Cons column cs)
  from Cons.prems(4) obtain v where v: "and_then (col_pos (tb_columns t) column) (elem_at vals) = Ok v"
    and run: "act_then (if v = VNull then act_return (Ok ()) else act_then (claim_key (re_env (eg_reader E)) column v) (\<lambda>_.
          act_then (db_select E t (Some (pred_eq column v))) (\<lambda>rows.
            act_return (if rows \<noteq> [] then Err (Schema ''duplicate value for unique column `{column}`'') else Ok ())))) (\<lambda>_.
       check_unique E t vals cs) (db, b, p) = (Ok (), (db', b', p'))"
    by (auto simp: act_then_eq_Ok)
  show ?case
  proof (cases "v = VNull")
    case True
    with run have "check_unique E t vals cs (db, b, p) = (Ok (), (db', b', p'))" by (simp add: act_then_eq_Ok)
    note ih = Cons.IH [OF Cons.prems(1,2,3) this]
    have d: "distinct (tb_columns t)" using Cons.prems(1,2) by (auto simp: db_rep_def table_ok_def schema_ok_def)
    from v obtain i where i: "col_pos (tb_columns t) column = Ok i" "elem_at vals i = Ok v" by (auto simp: and_then_eq_Ok)
    from col_pos_cell [OF d i(1) Cons.prems(3)] i(2) True Cons.prems(3) have "unique_key t column vals = None"
      by (simp add: unique_key_def elem_at_def elem_get_def)
    with ih show ?thesis by (auto simp: no_duplicate_def)
  next
    case False
    with run obtain u db1 b1 p1 rows db2 b2 p2 where claim: "claim_key (re_env (eg_reader E)) column v (db, b, p) = (Ok u, (db1, b1, p1))"
      and sel: "db_select E t (Some (pred_eq column v)) (db1, b1, p1) = (Ok rows, (db2, b2, p2))" "rows = []"
      and rest: "check_unique E t vals cs (db2, b2, p2) = (Ok (), (db', b', p'))"
      by (auto simp: act_then_eq_Ok split: if_splits)
    have db1: "db1 = db" using claim_key_db [OF claim] .
    note one = check_one_unique [OF Cons.prems(1-3) v False sel(1) [unfolded sel(2) db1]]
    have rd: "reads_only (eg_blake3 E) db db2" using db_select_rows [OF Cons.prems(1,2) sel(1) [unfolded db1]] by blast
    then have same: "db_tables db2 = db_tables db" "db_txm db2 = db_txm db" by (auto simp: reads_only_def)
    note ih = Cons.IH [OF reads_only_rep [OF Cons.prems(1) rd] _ Cons.prems(3) rest]
    from ih Cons.prems(2) same one reads_only_trans [OF rd] show ?thesis by auto
  qed
qed

lemma validate_insert_Ok:
  assumes rep: "db_rep (eg_blake3 E) U db chs" "bt_get (db_tables db) name = Some t"
    and run: "validate_insert_values E name vals (db, b, p) = (Ok (), (db', b', p'))"
  shows "reads_only (eg_blake3 E) db db' \<and> validate_row_constraints t vals = Ok () \<and>
    (\<forall>column \<in> tb_unique_columns t. no_duplicate t vals (visible_rows (chs name) (clock (db_txm db))) column)"
proof -
  from run rep(2) have c: "validate_row_constraints t vals = Ok ()"
    and u: "check_unique E t vals (sorted_list_of_set (tb_unique_columns t)) (db, b, p) = (Ok (), (db', b', p'))"
    by (auto simp: validate_insert_values_def act_then_eq_Ok)
  have "tb_unique_columns t \<subseteq> set (tb_columns t)" using rep by (auto simp: db_rep_def table_ok_def schema_ok_def)
  then have "finite (tb_unique_columns t)" using finite_subset by blast
  with check_unique_Ok [OF rep row_constraints_width [OF c] u] c show ?thesis by simp
qed

lemma same_schema_constraints:
  assumes "tb_columns t' = tb_columns t" "tb_unique_columns t' = tb_unique_columns t" "tb_not_null_columns t' = tb_not_null_columns t" "tb_checks t' = tb_checks t"
  shows "constraints_ok t' rows = constraints_ok t rows"
proof -
  have "check_not_null t' vals cs = check_not_null t vals cs" for vals cs
    by (induction cs) (simp_all add: assms cong: if_cong)
  then have "validate_row_constraints t' = validate_row_constraints t" by (simp add: fun_eq_iff validate_row_constraints_def assms)
  moreover have "unique_key t' = unique_key t" by (simp add: fun_eq_iff unique_key_def assms)
  ultimately show ?thesis by (simp add: constraints_ok_def assms)
qed

text \<open>What a statement leaves of a database: the invariant, the other tables, and what older snapshots see.\<close>

definition table_changed :: "hash_fn \<Rightarrow> bytes set \<Rightarrow> col_name \<Rightarrow> 'j database \<Rightarrow> (col_name \<Rightarrow> chain) \<Rightarrow> 'j database \<Rightarrow> chain \<Rightarrow> bool" where
  "table_changed blake3 U name db chs db' ch' \<longleftrightarrow>
     db_rep blake3 U db' (chs(name := ch')) \<and> clock (db_txm db) < clock (db_txm db') \<and>
     (\<forall>s \<le> clock (db_txm db). visible_rows ch' s = visible_rows (chs name) s) \<and>
     (\<forall>n. n \<noteq> name \<longrightarrow> bt_get (db_tables db') n = bt_get (db_tables db) n)"

lemma table_envelopes:
  assumes "db_rep blake3 U db chs" "bt_get (db_tables db) name = Some t"
  shows "\<forall>(a, v) \<in> set (chain_versions (chs name)). envelope_inv (clock (db_txm db)) (fst v)"
  using assms by (fastforce simp: db_rep_def table_ok_def)

lemma rows_after_insert:
  assumes "\<forall>(a, v) \<in> set vs. envelope_inv now (fst v)" "now < tx"
  shows "rows_at (vs @ [(a, (envelope_new tx 0, row))]) tx = rows_at vs now @ [(a, row)]"
    "s \<le> now \<Longrightarrow> rows_at (vs @ [(a, (envelope_new tx 0, row))]) s = rows_at vs s"
proof -
  have tx: "0 < tx" using assms(2) word_gt_0_no le_less_trans [of 0 now tx] by simp
  show "rows_at (vs @ [(a, (envelope_new tx 0, row))]) tx = rows_at vs now @ [(a, row)]"
    using rows_at_later [OF assms(1), of tx] assms(2) by (simp add: rows_at_append rows_at_new [OF tx])
  show "rows_at (vs @ [(a, (envelope_new tx 0, row))]) s = rows_at vs s" if "s \<le> now"
    using that assms(2) by (simp add: rows_at_append rows_at_new [OF tx])
qed

lemma insert_row_runs:
  assumes rep: "db_rep (eg_blake3 E) U db chs" "\<not> db_autocommit db" and room: "roomy db vals"
    and t: "bt_get (db_tables db) name = Some t" "tb_row_versions t < usize_max" "tb_unique_columns t = {}"
    and vals: "stored_ok U vals" "validate_row_constraints t vals = Ok ()"
  shows "\<exists>db'. insert_row E name vals db = (Ok (), db')"
proof -
  let ?db0 = "db\<lparr>db_synced := False\<rparr>"
  have w: "ensure_writable db = (Ok (), ?db0)" using room by (auto simp: roomy_def ensure_writable_def in_memory_def split: backend.splits)
  have v: "validate_insert_values E name vals (?db0, None, None) = (Ok (), (?db0, None, None))"
    using t(1,3) vals(2) by (simp add: validate_insert_values_def act_then_def)
  have "db_rep (eg_blake3 E) U ?db0 chs" "roomy ?db0 vals" using rep(1) room by (simp_all add: db_rep_def roomy_def)
  moreover have "validate_record_shape vals = Ok ()" using vals(2) by (auto simp: validate_row_constraints_def and_then_eq_Ok split: if_splits)
  ultimately obtain db' where "insert_validated_base E name vals ?db0 = (Ok (), db')"
    using insert_base_succeeds [of E U ?db0 chs vals name t] rep(2) t row_constraints_width [OF vals(2)] vals(1) by auto
  with w v show ?thesis by (simp add: insert_row_def act_then_def)
qed

lemma sample_empty_engine: "db_rep (eg_blake3 sample_engine) {} (database_of sample_pool sample_table 0) (\<lambda>_. [])"
  using sample_empty by (simp add: sample_engine_simps)

lemma sample_row_ok:
  "roomy (database_of sample_pool sample_table 0) [VNull]" "stored_ok {} [VNull]" "validate_row_constraints sample_table [VNull] = Ok ()"
  "tb_unique_columns sample_table = {}" "tb_row_versions sample_table < usize_max"
  by (simp_all add: roomy_def database_of_def sample_pool_ok usize_max_def isize_max_def new_memory_def stored_ok_def row_ok_def sample_table_def
      validate_row_constraints_def validate_record_shape_def saturating_add_def MAX_RECORD_def size_defs SLOT_SIZE_def)

text \<open>
  C1: An \<^verbatim>\<open>INSERT\<close> inside a transaction that reports success appends exactly its row to the visible rows of its table, under a fresh address, keeps the
  invariant of the database (pages, indexes, envelopes, disjoint tables) and every other table, leaves every older snapshot as it was, and keeps
  \<^verbatim>\<open>NOT NULL\<close>, \<^verbatim>\<open>CHECK\<close> and \<^verbatim>\<open>UNIQUE\<close> constraints satisfied, where uniqueness is up to the numeric equality of integers and decimals.
\<close>

theorem insert_row_exact:
  assumes rep: "db_rep (eg_blake3 E) U db chs" and ac: "\<not> db_autocommit db"
    and t: "bt_get (db_tables db) name = Some t" "tb_row_versions t < usize_max"
    and room: "store_page_count (pc_backend (db_cache db)) < 2 ^ 48" and vals: "stored_ok U vals"
    and run: "insert_row E name vals db = (Ok (), db')"
  shows "\<exists>ch' a t'. table_changed (eg_blake3 E) U name db chs db' ch' \<and> bt_get (db_tables db') name = Some t' \<and>
    visible_rows ch' (clock (db_txm db')) = visible_rows (chs name) (clock (db_txm db)) @ [(a, vals)] \<and>
    (constraints_ok t (map snd (visible_rows (chs name) (clock (db_txm db)))) \<longrightarrow> constraints_ok t' (map snd (visible_rows ch' (clock (db_txm db')))))"
proof -
  let ?b = "eg_blake3 E" and ?db0 = "db\<lparr>db_synced := False\<rparr>" and ?now = "clock (db_txm db)"
  obtain r db1 b' p' where r: "validate_insert_values E name vals (?db0, None, None) = (r, (db1, b', p'))" by (metis prod_cases3 surj_pair)
  with run have v: "validate_insert_values E name vals (?db0, None, None) = (Ok (), (db1, b', p'))"
    and ins: "insert_validated_base E name vals db1 = (Ok (), db')"
    by (auto simp: insert_row_def act_then_eq_Ok dest!: ensure_writable_Ok)
  have rep0: "db_rep ?b U ?db0 chs" using rep by (simp add: db_rep_def)
  from validate_insert_Ok [OF rep0 _ v, of t] t have
    val: "reads_only ?b ?db0 db1" "validate_row_constraints t vals = Ok ()" "\<forall>column \<in> tb_unique_columns t. no_duplicate t vals (visible_rows (chs name) ?now) column"
    by auto
  then obtain c where db1: "db1 = ?db0\<lparr>db_cache := c\<rparr>" "untouched ?b (db_cache db) c" by (auto simp: reads_only_def)
  have rep1: "db_rep ?b U db1 chs" by (rule reads_only_rep [OF rep0 val(1)])
  have "store_page_count (pc_backend (db_cache db1)) < 2 ^ 48" using room db1 by (simp add: untouched_def)
  from insert_base_Ok [OF rep1 _ _ row_constraints_width [OF val(2)] t(2) vals this ins] ac t(1) db1 obtain ch' a t' where
    i: "inserted ?b U name vals db1 chs db' ch' a" "bt_get (db_tables db') name = Some t'" "same_schema t (t'\<lparr>tb_indexes := tb_indexes t\<rparr>)"
      "\<And>n. n \<noteq> name \<Longrightarrow> bt_get (db_tables db') n = bt_get (db_tables db) n" by auto
  have vs: "chain_versions ch' = chain_versions (chs name) @ [(a, (envelope_new (clock (db_txm db')) 0, vals))]" "?now < clock (db_txm db')"
    "db_rep ?b U db' (chs(name := ch'))" using i(1) db1 by (auto simp: inserted_def)
  note rows = rows_after_insert [OF table_envelopes [OF rep t(1)] vs(2)]
  have "constraints_ok t' rs = constraints_ok t rs" for rs using i(3) by (intro same_schema_constraints) (auto simp: same_schema_def)
  moreover have "constraints_ok t (map snd (visible_rows (chs name) ?now) @ [vals])" if "constraints_ok t (map snd (visible_rows (chs name) ?now))"
    by (rule constraints_snoc [OF that val(2)]) (use val(3) in \<open>force simp: no_duplicate_def\<close>)
  ultimately show ?thesis using rows vs i(2,4)
    by (intro exI [of _ ch'] exI [of _ a] exI [of _ t']) (auto simp: table_changed_def)
qed

text \<open>
  C4: Outside validation an \<^verbatim>\<open>INSERT\<close> has nothing to fail on in memory: into a table without unique columns a row that satisfies the row constraints is
  inserted, provided only that the counters and stores have room for it (the transaction clock, the version count, the LRU clock, 48-bit page
  numbers, the blob table).
\<close>

theorem insert_row_succeeds:
  assumes rep: "db_rep (eg_blake3 E) U db chs" "\<not> db_autocommit db" and room: "roomy db vals"
    and t: "bt_get (db_tables db) name = Some t" "tb_row_versions t < usize_max" "tb_unique_columns t = {}"
    and vals: "stored_ok U vals" "validate_row_constraints t vals = Ok ()"
  shows "\<exists>db'. insert_row E name vals db = (Ok (), db')"
  by (rule insert_row_runs [OF assms])

theorem insert_row_succeeds_witness: "\<exists>db'. insert_row sample_engine [116] [VNull] (database_of sample_pool sample_table 0) = (Ok (), db')"
  using insert_row_succeeds [of sample_engine, OF sample_empty_engine, of "[VNull]" "[116]" sample_table] sample_row_ok
  by (simp add: database_of_def)

theorem insert_row_exact_witness:
  "\<exists>db' ch' a. insert_row sample_engine [116] [VNull] (database_of sample_pool sample_table 0) = (Ok (), db') \<and>
     table_changed sample_digest {} [116] (database_of sample_pool sample_table 0) (\<lambda>_. []) db' ch' \<and> visible_rows ch' (clock (db_txm db')) = [(a, [VNull])]"
proof -
  let ?db = "database_of sample_pool sample_table 0"
  have s: "\<not> db_autocommit ?db" "bt_get (db_tables ?db) [116] = Some sample_table" "store_page_count (pc_backend (db_cache ?db)) < 2 ^ 48" "stored_ok {} [VNull]"
    "tb_row_versions sample_table < usize_max" using sample_row_ok by (simp_all add: database_of_def sample_pool_ok)
  from insert_row_runs [OF sample_empty_engine s(1) _ s(2) _ _ s(4)] sample_row_ok obtain db' where
    run: "insert_row sample_engine [116] [VNull] ?db = (Ok (), db')" by blast
  from insert_row_exact [OF sample_empty_engine s(1,2,5,3,4) run] run show ?thesis by (auto simp: rows_at_def sample_engine_simps)
qed

section \<open>Deleting\<close>

lemma on_db_Ok: "on_db m (db, bp) = (Ok x, s) \<longleftrightarrow> (\<exists>db'. m db = (Ok x, db') \<and> s = (db', bp))"
  by (auto simp: on_db_def split: prod.splits)

lemma run_checkpoint_Ok: "run_checkpoint env (db, b, p) = (Ok u, s) \<Longrightarrow> \<exists>b'. s = (db, b', p)"
  by (auto simp: run_checkpoint_def split: prod.splits)

lemma atomic_in_transaction:
  assumes "atomic_mutation E op db = (Ok x, db')" "db_in_transaction db"
  shows "op db = (Ok x, db')"
proof -
  obtain r db1 where r: "op db = (r, db1)" by (cases "op db")
  with assms show ?thesis by (cases r) (auto simp: atomic_mutation_def roll_back_def split: prod.splits result.splits if_splits)
qed

lemma next_tx:
  assumes "begin_tx db = (Ok tx, db')"
  shows "db' = db\<lparr>db_txm := (db_txm db)\<lparr>clock := tx\<rparr>\<rparr> \<and> clock (db_txm db) < tx \<and> 0 < tx"
proof -
  from assms have tx: "clock (db_txm db) \<noteq> - 1" "tx = clock (db_txm db) + 1" "db' = db\<lparr>db_txm := (db_txm db)\<lparr>clock := tx\<rparr>\<rparr>"
    by (simp_all add: begin_tx_Ok)
  have "clock (db_txm db) < tx" using begin_write_increases [of "db_txm db" tx "(db_txm db)\<lparr>clock := tx\<rparr>"] tx by (auto simp: begin_write_Ok)
  with tx(3) show ?thesis using le_less_trans [of 0 "clock (db_txm db)" tx] by simp
qed

lemma db_rep_tx:
  assumes "db_rep blake3 U db chs" "begin_tx db = (Ok tx, db')"
  shows "db_rep blake3 U db' chs"
proof -
  have "cache_inv blake3 (db_cache db)" using assms(1) by (simp add: db_rep_def)
  then show ?thesis by (intro db_rep_later [OF assms(1)]) (use next_tx [OF assms(2)] in \<open>auto simp: view_kept_outside\<close>)
qed

lemma matches_deletable:
  assumes rep: "db_rep blake3 U db chs" "bt_get (db_tables db) name = Some t" and "set hits \<subseteq> set (visible_rows (chs name) (clock (db_txm db)))" "clock (db_txm db) < tx"
  shows "deletable tx (set (map fst hits)) (chs name)"
proof -
  let ?vs = "chain_versions (chs name)" and ?now = "clock (db_txm db)"
  have d: "distinct (map fst ?vs)" by (rule table_versions_distinct [OF db_table_rep [OF rep]])
  have inv: "\<forall>(a, v) \<in> set ?vs. envelope_inv ?now (fst v)" by (rule table_envelopes [OF rep])
  have "tx_inserted (fst v) < tx \<and> tx_deleted (fst v) = 0" if "(a, v) \<in> set ?vs" "a \<in> set (map fst hits)" for a v
  proof -
    from that(2) assms(3) obtain w where "(a, w) \<in> set ?vs" "sees (as_of ?now) (fst w)" by (auto simp: rows_at_def)
    with that(1) d have "sees (as_of ?now) (fst v)" by (metis eq_key_imp_eq_value)
    moreover have "envelope_inv ?now (fst v)" using inv that(1) by auto
    ultimately show ?thesis using assms(4) by (auto simp: sees_def as_of_def is_visible_window envelope_inv_def TX_NULL_def)
  qed
  moreover have "set (map fst hits) \<subseteq> fst ` set ?vs" using assms(3) by (force simp: rows_at_def)
  ultimately show ?thesis unfolding deletable_def by blast
qed

text \<open>The versions the matches are, and the rows that remain.\<close>

lemma remaining_rows:
  assumes "mset hits = mset (filter P rows)" "distinct (map fst rows)"
  shows "filter (\<lambda>(a, _). a \<notin> set (map fst hits)) rows = filter (\<lambda>x. \<not> P x) rows"
proof (intro filter_cong refl)
  fix x
  assume x: "x \<in> set rows"
  have hits: "set hits = set (filter P rows)" using assms(1) by (metis set_mset_mset)
  have "fst x \<in> fst ` set hits \<longleftrightarrow> P x"
    using x assms(2) by (auto simp: hits distinct_map inj_on_def)
  then show "(case x of (a, _) \<Rightarrow> a \<notin> set (map fst hits)) = (\<not> P x)" by (cases x) auto
qed

lemma visible_distinct:
  assumes "db_rep blake3 U db chs" "bt_get (db_tables db) name = Some t"
  shows "distinct (map fst (visible_rows (chs name) tx))"
proof -
  have "distinct (map fst (chain_versions (chs name)))" by (rule table_versions_distinct [OF db_table_rep [OF assms]])
  then have "distinct (map fst (filter (\<lambda>(a, v). sees (as_of tx) (fst v)) (chain_versions (chs name))))" by (rule distinct_map_filter)
  moreover have "map fst (visible_rows (chs name) tx) = map fst (filter (\<lambda>(a, v). sees (as_of tx) (fst v)) (chain_versions (chs name)))"
    by (simp add: rows_at_def case_prod_unfold)
  ultimately show ?thesis by simp
qed

lemma tombstone_hits:
  assumes rep: "db_rep (eg_blake3 E) U db chs" "bt_get (db_tables db) name = Some t" "begin_tx db = (Ok tx, db1)"
    and hits: "mset hits = mset (filter P (visible_rows (chs name) (clock (db_txm db))))"
    and run: "on_table name (delete_each (eg_blake3 E) (eg_hook E) tx (map fst hits)) db1 = (Ok (), db')"
  shows "\<exists>ch' t'. table_changed (eg_blake3 E) U name db chs db' ch' \<and> bt_get (db_tables db') name = Some t' \<and> same_schema t t' \<and>
    visible_rows ch' (clock (db_txm db')) = filter (\<lambda>x. \<not> P x) (visible_rows (chs name) (clock (db_txm db))) \<and>
    tb_row_versions t' = tb_row_versions t \<and> store_page_count (pc_backend (db_cache db')) = store_page_count (pc_backend (db_cache db)) \<and>
    db_autocommit db' = db_autocommit db \<and> db_in_transaction db' = db_in_transaction db"
proof -
  let ?now = "clock (db_txm db)" and ?vs = "chain_versions (chs name)"
  note tx = next_tx [OF rep(3)]
  have sub: "set hits \<subseteq> set (visible_rows (chs name) ?now)" using arg_cong [OF hits, of set_mset] by auto
  note can = matches_deletable [OF rep(1,2) sub conjunct1 [OF conjunct2 [OF tx]]]
  have rep1: "db_rep (eg_blake3 E) U db1 chs" by (rule db_rep_tx [OF rep(1,3)])
  have "bt_get (db_tables db1) name = Some t" "clock (db_txm db1) = tx" using tx rep(2) by simp_all
  from deletes_Ok [OF rep1 this(1) can this(2) run] obtain ch' c t' where
    d: "db_rep (eg_blake3 E) U db' (chs(name := ch'))" "chain_versions ch' = mark_all (set (map fst hits)) tx ?vs" "same_schema t t'"
      "tb_row_versions t' = tb_row_versions t" "store_page_count (pc_backend c) = store_page_count (pc_backend (db_cache db1))"
      "db' = db1\<lparr>db_cache := c, db_tables := bt_insert name t' (db_tables db1)\<rparr>" by blast
  have "\<forall>(a, v) \<in> set ?vs. a \<in> set (map fst hits) \<longrightarrow> tx_inserted (fst v) < tx \<and> tx_deleted (fst v) = 0"
    using can by (auto simp: deletable_def)
  note marked = rows_at_mark [OF this, of _]
  have inv: "bt_inv (db_tables db)" using rep(1) by (simp add: db_rep_def)
  have "visible_rows ch' tx = filter (\<lambda>x. \<not> P x) (visible_rows (chs name) ?now)"
    using marked [of tx] rows_at_later [OF table_envelopes [OF rep(1,2)] less_imp_le [OF conjunct1 [OF conjunct2 [OF tx]]]] tx remaining_rows [OF hits visible_distinct [OF rep(1,2)]]
    by (simp add: d(2))
  moreover have "visible_rows ch' s = visible_rows (chs name) s" if "s \<le> ?now" for s
  proof -
    have "\<not> tx \<le> s" using that tx by (meson leD le_less_trans)
    then show ?thesis using marked [of s] tx by (simp add: d(2))
  qed
  moreover have "clock (db_txm db') = tx" using d(6) tx by simp
  ultimately show ?thesis using d tx inv
    by (intro exI [of _ ch'] exI [of _ t']) (auto simp: table_changed_def bt_get_insert)
qed

text \<open>
  C3: A \<^verbatim>\<open>DELETE\<close> inside a transaction that reports success with \<open>n\<close> removed exactly the visible rows its predicate accepts, of which there were \<open>n\<close>, and
  kept the others in order; the database invariant, the other tables, the older snapshots and all constraints are kept.
\<close>

theorem delete_where_exact:
  assumes rep: "db_rep (eg_blake3 E) U db chs" and mode: "\<not> db_autocommit db" "db_in_transaction db"
    and t: "bt_get (db_tables db) name = Some t" and run: "delete_where E name pred (db, b, p) = (Ok n, (db', b', p'))"
  shows "\<exists>ch' t'. table_changed (eg_blake3 E) U name db chs db' ch' \<and> bt_get (db_tables db') name = Some t' \<and>
    n = length (filter (matches (Some pred) t) (visible_rows (chs name) (clock (db_txm db)))) \<and>
    visible_rows ch' (clock (db_txm db')) = filter (\<lambda>x. \<not> matches (Some pred) t x) (visible_rows (chs name) (clock (db_txm db))) \<and>
    (constraints_ok t (map snd (visible_rows (chs name) (clock (db_txm db)))) \<longrightarrow> constraints_ok t' (map snd (visible_rows ch' (clock (db_txm db')))))"
proof -
  let ?b = "eg_blake3 E" and ?db0 = "db\<lparr>db_synced := False\<rparr>" and ?now = "clock (db_txm db)"
  have rep0: "db_rep ?b U ?db0 chs" using rep by (simp add: db_rep_def)
  from run obtain hits db1 b1 p1 where f: "find_matches E name pred (?db0, b, p) = (Ok hits, (db1, b1, p1))"
    and rest: "(if length hits > 1 then atomic_mutation E (apply_deletes_base E name hits) else apply_deletes_base E name hits) db1 = (Ok n, db')"
    unfolding delete_where_def act_then_eq_Ok on_db_Ok by (auto simp: on_db_Ok dest!: ensure_writable_Ok run_checkpoint_Ok)
  from find_matches_rows [OF rep0 _ f, of t] t have hits: "mset hits = mset (filter (matches (Some pred) t) (visible_rows (chs name) ?now))"
    and rd: "reads_only ?b ?db0 db1" by auto
  from rd obtain c where db1: "db1 = ?db0\<lparr>db_cache := c\<rparr>" by (auto simp: reads_only_def)
  have rep1: "db_rep ?b U db1 chs" by (rule reads_only_rep [OF rep0 rd])
  have "apply_deletes_base E name hits db1 = (Ok n, db')"
    using rest mode(2) atomic_in_transaction [of E "apply_deletes_base E name hits" db1 n db'] by (auto simp: db1 split: if_splits)
  then obtain tx db2 v db3 where bt: "begin_tx db1 = (Ok tx, db2)" and del: "on_table name (delete_each ?b (eg_hook E) tx (map fst hits)) db2 = (Ok (), db3)"
    and fl: "maybe_flush E db3 = (Ok v, db')" and n: "n = length hits" by (auto simp: apply_deletes_base_def act_then_eq_Ok)
  have "bt_get (db_tables db1) name = Some t" "clock (db_txm db1) = ?now" "db_tables db1 = db_tables db" "db_autocommit db1 = db_autocommit db" using t by (simp_all add: db1)
  from tombstone_hits [OF rep1 this(1) bt hits [folded this(2)] del] this obtain ch' t' where
    d: "table_changed ?b U name db1 chs db3 ch'" "bt_get (db_tables db3) name = Some t'" "same_schema t t'"
      "visible_rows ch' (clock (db_txm db3)) = filter (\<lambda>x. \<not> matches (Some pred) t x) (visible_rows (chs name) ?now)" "\<not> db_autocommit db3"
    using mode(1) by auto
  have db': "db' = db3" using fl d(5) by (simp add: maybe_flush_def)
  have "constraints_ok t' rs = constraints_ok t rs" for rs using d(3) by (intro same_schema_constraints) (auto simp: same_schema_def)
  moreover have "n = length (filter (matches (Some pred) t) (visible_rows (chs name) ?now))" using n mset_eq_length [OF hits] by simp
  moreover have "table_changed ?b U name db chs db' ch'" using d(1) by (simp add: table_changed_def db1 db')
  ultimately show ?thesis using d(2,4) constraints_filter unfolding db' by (intro exI [of _ ch'] exI [of _ t']) auto
qed

lemma filled_visible: "filled c t a ch \<Longrightarrow> visible_rows ch 1 = [(a, [VNull])]"
  by (simp add: filled_def rows_at_def sees_new)

lemma sample_matches: "same_schema sample_table t \<Longrightarrow> matches (Some sample_pred) t (a, [VNull])"
  by (simp add: matches_def row_matches_def cell_def projection_col_pos_def column_matches_def positions_def elem_at_def elem_get_def same_schema_def sample_table_def)

theorem delete_where_exact_witness:
  "\<exists>c t ch db' ch' s. length (visible_rows ch 1) = 1 \<and> delete_where sample_engine [116] sample_pred (database_of c t 1, None, None) = (Ok 1, (db', s)) \<and>
     table_changed sample_digest {} [116] (database_of c t 1) (\<lambda>_. ch) db' ch' \<and> visible_rows ch' (clock (db_txm db')) = []"
proof -
  obtain c t a ch where f: "filled c t a ch" using sample_filled by blast
  from sample_delete [OF f] obtain db' b p where
    run: "delete_where sample_engine [116] sample_pred (database_of c t 1, None, None) = (Ok 1, (db', b, p))" by (metis surj_pair)
  have "db_rep (eg_blake3 sample_engine) {} (database_of c t 1) (\<lambda>_. ch)" "\<not> db_autocommit (database_of c t 1)" "db_in_transaction (database_of c t 1)"
    "bt_get (db_tables (database_of c t 1)) [116] = Some t" "clock (db_txm (database_of c t 1)) = 1"
    using filledD(1) [OF f, of 1] by (simp_all add: sample_engine_simps) (simp_all add: database_of_def)
  note d = this delete_where_exact [OF this(1-4) run]
  have v: "visible_rows ch 1 = [(a, [VNull])]" by (rule filled_visible [OF f])
  from d(5,6) v sample_matches [OF filledD(6) [OF f]] obtain ch' where
    "table_changed sample_digest {} [116] (database_of c t 1) (\<lambda>_. ch) db' ch'" "visible_rows ch' (clock (db_txm db')) = []" by (auto simp: sample_engine_simps)
  with run v show ?thesis by (intro exI [of _ c] exI [of _ t] exI [of _ ch] exI [of _ db'] exI [of _ ch'] exI [of _ "(b, p)"]) simp
qed

section \<open>Updating\<close>

definition appends :: "tx_id \<Rightarrow> tx_id \<Rightarrow> row list \<Rightarrow> (record_addr \<times> versioned_row) list \<Rightarrow> bool" where
  "appends from to rows news \<longleftrightarrow> map (\<lambda>(a, v). snd v) news = rows \<and> (\<forall>(a, v) \<in> set news. \<exists>tx. fst v = envelope_new tx 0 \<and> from < tx \<and> tx \<le> to)"

lemma rows_appended:
  assumes "appends from to rows news"
  shows "map snd (rows_at news to) = rows" "s \<le> from \<Longrightarrow> rows_at news s = []"
proof -
  have pos: "0 < tx" if "from < tx" for tx using that le_less_trans [of 0 "from" tx] by simp
  have "\<forall>(a, v) \<in> set news. sees (as_of to) (fst v)" using assms pos by (fastforce simp: appends_def sees_new)
  then have "filter (\<lambda>(a, v). sees (as_of to) (fst v)) news = news" by (simp add: filter_id_conv)
  then show "map snd (rows_at news to) = rows" using assms by (simp add: rows_at_def appends_def case_prod_unfold comp_def)
  show "rows_at news s = []" if "s \<le> from"
    using assms pos that by (fastforce simp: rows_at_def filter_empty_conv appends_def sees_new)
qed

lemma insert_each_Ok:
  assumes "db_rep (eg_blake3 E) U db chs" "\<not> db_autocommit db" "bt_get (db_tables db) name = Some t"
    and "\<forall>row \<in> set rows. length row = length (tb_columns t) \<and> stored_ok U row" "tb_row_versions t + length rows \<le> usize_max"
    and "unat (store_page_count (pc_backend (db_cache db))) + length rows \<le> 2 ^ 48"
    and "insert_each E name rows db = (Ok (), db')"
  shows "\<exists>ch' news t'. db_rep (eg_blake3 E) U db' (chs(name := ch')) \<and> chain_versions ch' = chain_versions (chs name) @ news \<and>
    appends (clock (db_txm db)) (clock (db_txm db')) rows news \<and> clock (db_txm db) \<le> clock (db_txm db') \<and>
    bt_get (db_tables db') name = Some t' \<and> same_schema t (t'\<lparr>tb_indexes := tb_indexes t\<rparr>) \<and>
    (\<forall>n. n \<noteq> name \<longrightarrow> bt_get (db_tables db') n = bt_get (db_tables db) n) \<and> db_autocommit db' = db_autocommit db"
  using assms
proof (induction rows arbitrary: db t chs)
  case Nil
  then show ?case by (intro exI [of _ "chs name"] exI [of _ "[]"] exI [of _ t]) (auto simp: appends_def)
next
  case (Cons row rows)
  from Cons.prems(7) obtain db1 where step: "insert_validated_base E name row db = (Ok (), db1)" and rest: "insert_each E name rows db1 = (Ok (), db')"
    by (auto simp: act_then_eq_Ok)
  have "store_page_count (pc_backend (db_cache db)) < 2 ^ 48" using Cons.prems(6) by (simp add: word_less_nat_alt)
  from insert_base_Ok [OF Cons.prems(1,2,3) _ _ _ this step] Cons.prems(4,5) obtain ch1 a t1 where
    i: "inserted (eg_blake3 E) U name row db chs db1 ch1 a" "bt_get (db_tables db1) name = Some t1" "same_schema t (t1\<lparr>tb_indexes := tb_indexes t\<rparr>)"
      "tb_row_versions t1 = tb_row_versions t + 1" "\<forall>n. n \<noteq> name \<longrightarrow> bt_get (db_tables db1) n = bt_get (db_tables db) n" "db_autocommit db1 = db_autocommit db"
      "unat (store_page_count (pc_backend (db_cache db1))) \<le> Suc (unat (store_page_count (pc_backend (db_cache db))))" by auto
  have cols: "tb_columns t1 = tb_columns t" using i(3) by (simp add: same_schema_def)
  from i(1) have rep1: "db_rep (eg_blake3 E) U db1 (chs(name := ch1))" "clock (db_txm db) < clock (db_txm db1)"
    "chain_versions ch1 = chain_versions (chs name) @ [(a, (envelope_new (clock (db_txm db1)) 0, row))]" by (auto simp: inserted_def)
  have pre: "\<not> db_autocommit db1" "\<forall>row \<in> set rows. length row = length (tb_columns t1) \<and> stored_ok U row" "tb_row_versions t1 + length rows \<le> usize_max"
    "unat (store_page_count (pc_backend (db_cache db1))) + length rows \<le> 2 ^ 48" using Cons.prems(2,4,5,6) i cols by auto
  from Cons.IH [OF rep1(1) pre(1) i(2) pre(2,3,4) rest, unfolded fun_upd_upd fun_upd_same] obtain ch' news t' where
    r: "db_rep (eg_blake3 E) U db' (chs(name := ch'))" "chain_versions ch' = chain_versions ch1 @ news"
      "appends (clock (db_txm db1)) (clock (db_txm db')) rows news" "clock (db_txm db1) \<le> clock (db_txm db')"
      "bt_get (db_tables db') name = Some t'" "same_schema t1 (t'\<lparr>tb_indexes := tb_indexes t1\<rparr>)"
      "\<forall>n. n \<noteq> name \<longrightarrow> bt_get (db_tables db') n = bt_get (db_tables db1) n" "db_autocommit db' = db_autocommit db1" by blast
  let ?news = "(a, (envelope_new (clock (db_txm db1)) 0, row)) # news"
  have "appends (clock (db_txm db)) (clock (db_txm db')) (row # rows) ?news"
    using r(3,4) rep1(2) unfolding appends_def by (auto dest: less_trans [OF rep1(2)] split: prod.splits) fastforce
  then show ?case using r rep1(2,3) i(3,5,6) less_imp_le [OF less_le_trans [OF rep1(2) r(4)]]
    by (intro exI [of _ ch'] exI [of _ ?news] exI [of _ t']) (auto simp: same_schema_def simp del: fun_upd_apply)
qed

lemma column_index_at: "column_index t c = Ok i \<Longrightarrow> i < length (tb_columns t) \<and> tb_columns t ! i = c"
proof -
  assume "column_index t c = Ok i"
  then have "i \<in> set (positions (\<lambda>c'. c' = c) (tb_columns t))" by (auto simp: column_index_def split: list.splits)
  then show ?thesis by (auto simp: positions_def)
qed

lemma replaced_key:
  assumes "distinct (tb_columns t)" "i < length (tb_columns t)" "length row = length (tb_columns t)" "c \<in> set (tb_columns t)"
  shows "unique_key t c (row[i := v]) = (if c = tb_columns t ! i then (if v = VNull then None else Some (join_key v)) else unique_key t c row)"
proof -
  obtain j where j: "j < length (tb_columns t)" "tb_columns t ! j = c" "cell (tb_columns t) c row = Ok (row ! j)"
    using cell_in [OF assms(1,4,3)] by blast
  have "length (row[i := v]) = length (tb_columns t)" using assms(3) by simp
  from cell_in [OF assms(1,4) this] obtain k where k: "k < length (tb_columns t)" "tb_columns t ! k = c" "cell (tb_columns t) c (row[i := v]) = Ok (row[i := v] ! k)"
    by blast
  have "k = j" using j k assms(1) nth_eq_iff_index_eq by blast
  then show ?thesis using j k assms by (auto simp: unique_key_def nth_list_update nth_eq_iff_index_eq)
qed

text \<open>Replacing the matches of a statement: uniqueness survives what \<^verbatim>\<open>check_unique_update\<close> has checked.\<close>

definition update_unique :: "table \<Rightarrow> nat \<Rightarrow> val \<Rightarrow> (record_addr \<times> row) list \<Rightarrow> (record_addr \<times> row) list \<Rightarrow> bool" where
  "update_unique t i v hits rest \<longleftrightarrow> (tb_columns t ! i \<in> tb_unique_columns t \<and> v \<noteq> VNull \<longrightarrow>
     length hits \<le> 1 \<and> (\<forall>(a, r) \<in> set rest. unique_key t (tb_columns t ! i) r \<noteq> Some (join_key v)))"

lemma updated_unique:
  assumes t: "distinct (tb_columns t)" "tb_unique_columns t \<subseteq> set (tb_columns t)" "i < length (tb_columns t)"
    and width: "\<forall>(a, r) \<in> set rows. length r = length (tb_columns t)"
    and hits: "mset hits = mset (filter P rows)" and upd: "update_unique t i v hits (filter (\<lambda>x. \<not> P x) rows)"
    and c: "c \<in> tb_unique_columns t" and old: "distinct (List.map_filter (unique_key t c) (map snd rows))"
  shows "distinct (List.map_filter (unique_key t c) (map snd (filter (\<lambda>x. \<not> P x) rows) @ map (\<lambda>(a, r). r[i := v]) hits))"
proof -
  let ?k = "unique_key t c" and ?rest = "map snd (filter (\<lambda>x. \<not> P x) rows)"
  have split: "mset (map snd rows) = mset (?rest @ map snd hits)"
  proof -
    have "mset rows = mset (filter (\<lambda>x. \<not> P x) rows) + mset hits" using hits multiset_partition [of "mset rows" "\<lambda>x. \<not> P x"] by simp
    from arg_cong [OF this, of "image_mset snd"] show ?thesis by simp
  qed
  have "mset (List.map_filter ?k (map snd rows)) = mset (List.map_filter ?k (?rest @ map snd hits))" by (rule map_filter_perm [OF split])
  with old have old': "distinct (List.map_filter ?k ?rest @ List.map_filter ?k (map snd hits))"
    using mset_eq_imp_distinct_iff by (fastforce simp: map_filter_append)
  have w: "length r = length (tb_columns t)" if "(a, r) \<in> set hits" for a r
    using that width arg_cong [OF hits, of set_mset] by auto
  have key: "?k (r[i := v]) = (if c = tb_columns t ! i then (if v = VNull then None else Some (join_key v)) else ?k r)" if "(a, r) \<in> set hits" for a r
    using replaced_key [OF t(1,3) w [OF that]] c t(2) by blast
  show ?thesis
  proof (cases "c = tb_columns t ! i")
    case False
    have "List.map_filter ?k (map (\<lambda>(a, r). r[i := v]) hits) = List.map_filter (\<lambda>(a, r). ?k r) hits"
      using key False by (intro map_filter_map) auto
    also have "\<dots> = List.map_filter ?k (map snd hits)" by (rule map_filter_map [symmetric]) auto
    finally have "List.map_filter ?k (map (\<lambda>(a, r). r[i := v]) hits) = List.map_filter ?k (map snd hits)" .
    with old' show ?thesis by (simp add: map_filter_append)
  next
    case True
    show ?thesis
    proof (cases "v = VNull")
      case True
      have "List.map_filter ?k (map (\<lambda>(a, r). r[i := v]) hits) = List.map_filter (\<lambda>_. None) hits"
        using key \<open>c = tb_columns t ! i\<close> True by (intro map_filter_map) auto
      then have "List.map_filter ?k (map (\<lambda>(a, r). r[i := v]) hits) = []" by (simp add: map_filter_const)
      with old' show ?thesis by (simp add: map_filter_append)
    next
      case False
      with upd True c have one: "length hits \<le> 1" "\<And>a r. (a, r) \<in> set (filter (\<lambda>x. \<not> P x) rows) \<Longrightarrow> ?k r \<noteq> Some (join_key v)"
        by (auto simp: update_unique_def)
      have "join_key v \<notin> set (List.map_filter ?k ?rest)" using one(2) by (fastforce simp: map_filter_def)
      moreover have "List.map_filter ?k (map (\<lambda>(a, r). r[i := v]) hits) = List.map_filter (\<lambda>_. Some (join_key v)) hits"
        using key True False by (intro map_filter_map) auto
      ultimately show ?thesis using old' one(1) by (auto simp: map_filter_append map_filter_const le_Suc_eq)
    qed
  qed
qed

lemma validate_replacements_Ok:
  assumes "validate_replacements E t i v rows (db, b, p) = (Ok (), (db', b', p'))"
  shows "db' = db \<and> (\<forall>row \<in> set rows. validate_row_constraints t (row[i := v]) = Ok ())"
  using assms
proof (induction rows arbitrary: b)
  case (Cons row rows)
  from Cons.prems obtain b1 where "validate_row_constraints t (row[i := v]) = Ok ()" "validate_replacements E t i v rows (db, b1, p) = (Ok (), (db', b', p'))"
    by (auto simp: act_then_eq_Ok split: prod.splits if_splits)
  with Cons.IH show ?case by auto
qed simp

lemma check_unique_update_Ok:
  assumes rep: "db_rep (eg_blake3 E) U db chs" "bt_get (db_tables db) name = Some t" and i: "i < length (tb_columns t)" "tb_columns t ! i = column"
    and hits: "mset hits = mset (filter P (visible_rows (chs name) (clock (db_txm db))))"
    and run: "check_unique_update E t column i v hits (db, b, p) = (Ok (), (db', b', p'))"
  shows "reads_only (eg_blake3 E) db db' \<and> update_unique t i v hits (filter (\<lambda>x. \<not> P x) (visible_rows (chs name) (clock (db_txm db))))"
proof (cases "column \<in> tb_unique_columns t \<and> v \<noteq> VNull")
  case False
  then show ?thesis using run rep(1) reads_only_refl by (auto simp: check_unique_update_def update_unique_def i(2) db_rep_def)
next
  case True
  let ?vis = "visible_rows (chs name) (clock (db_txm db))" and ?eq = "\<lambda>(a :: record_addr, r). unique_key t column r = Some (join_key v)"
  from run True obtain rows b1 p1 where sel: "db_select E t (Some (pred_eq column v)) (db, b, p) = (Ok rows, (db', b1, p1))"
    and few: "length hits \<le> 1" "length rows \<le> length (filter (\<lambda>(_, row). values_equal (row ! i) v) hits)"
    by (auto simp: check_unique_update_def act_then_eq_Ok Let_def split: if_splits)
  have t: "distinct (tb_columns t)" "column \<in> set (tb_columns t)" using rep i by (auto simp: db_rep_def table_ok_def schema_ok_def)
  note s = db_select_rows [OF rep sel]
  have w: "length r = length (tb_columns t)" if "(a, r) \<in> set ?vis" for a r using visible_width [OF rep that] .
  have eq: "filter (matches (Some (pred_eq column v)) t) ?vis = filter ?eq ?vis"
    using pred_eq_matches [OF t w] True by (intro filter_cong) (auto simp: matches_def)
  have hit: "filter (\<lambda>(_, row). values_equal (row ! i) v) hits = filter ?eq hits"
  proof (intro filter_cong refl)
    fix x
    assume "x \<in> set hits"
    moreover have "set hits \<subseteq> set ?vis" using arg_cong [OF hits, of set_mset] by auto
    ultimately have "x \<in> set ?vis" by (rule rev_subsetD)
    then obtain a r where x: "x = (a, r)" "(a, r) \<in> set ?vis" by (metis surj_pair)
    from cell_in [OF t w [OF x(2)]] i t(1) have "cell (tb_columns t) column r = Ok (r ! i)" by (auto simp: nth_eq_iff_index_eq)
    moreover have "join_key VNull \<noteq> join_key v" using True by (cases v) auto
    ultimately show "(case x of (_, row) \<Rightarrow> values_equal (row ! i) v) = ?eq x"
      using x(1) by (auto simp: unique_key_def numeric_comparison_order_eq)
  qed
  have part: "length (filter ?eq ?vis) = length (filter ?eq hits) + length (filter ?eq (filter (\<lambda>x. \<not> P x) ?vis))"
  proof -
    have "mset ?vis = mset hits + mset (filter (\<lambda>x. \<not> P x) ?vis)" using hits multiset_partition [of "mset ?vis" P] by simp
    from arg_cong [OF this, of "\<lambda>m. size (filter_mset ?eq m)"] show ?thesis by (simp flip: mset_filter)
  qed
  have "length rows = length (filter ?eq ?vis)" using conjunct1 [OF s, THEN mset_eq_length] eq by simp
  then have "filter ?eq (filter (\<lambda>x. \<not> P x) ?vis) = []" using few(2) part hit by simp
  then have "\<forall>(a, r) \<in> set (filter (\<lambda>x. \<not> P x) ?vis). unique_key t column r \<noteq> Some (join_key v)" by (auto simp: filter_empty_conv)
  then show ?thesis using s few(1) i(2) by (auto simp: update_unique_def)
qed

lemma update_stored:
  assumes "stored_ok U row" "stored_ok U [v]"
  shows "stored_ok U (row[i := v])"
proof -
  have "x = v \<or> x \<in> set row" if "x \<in> set (row[i := v])" for x using that set_update_subset_insert [of row i v] by blast
  then have all: "\<forall>x \<in> set (row[i := v]). P x" if "\<forall>x \<in> set row. P x" "P v" for P :: "val \<Rightarrow> bool" using that by blast
  have "\<forall>x \<in> set (row[i := v]). value_ok x \<and> Record_Codec.payload x \<subseteq> U" by (rule all) (use assms in \<open>auto simp: stored_ok_def row_ok_def list_all_iff\<close>)
  then show ?thesis unfolding stored_ok_def row_ok_def list_all_iff by blast
qed

lemma visible_stored:
  assumes "db_rep blake3 U db chs" "bt_get (db_tables db) name = Some t" "(a, row) \<in> set (visible_rows (chs name) tx)"
  shows "stored_ok U row"
  using assms by (fastforce simp: db_rep_def table_ok_def rows_at_def)

lemma apply_updates_Ok:
  assumes rep: "db_rep (eg_blake3 E) U db chs" "\<not> db_autocommit db" and t: "bt_get (db_tables db) name = Some t"
    and hits: "mset hits = mset (filter P (visible_rows (chs name) (clock (db_txm db))))"
    and size: "tb_row_versions t + length hits \<le> usize_max" "unat (store_page_count (pc_backend (db_cache db))) + length hits \<le> 2 ^ 48"
    and v: "stored_ok U [v]" and run: "apply_updates E name i v hits db = (Ok n, db')"
  shows "\<exists>ch' t'. table_changed (eg_blake3 E) U name db chs db' ch' \<and> bt_get (db_tables db') name = Some t' \<and> same_schema t (t'\<lparr>tb_indexes := tb_indexes t\<rparr>) \<and>
    n = length hits \<and> map snd (visible_rows ch' (clock (db_txm db'))) =
      map snd (filter (\<lambda>x. \<not> P x) (visible_rows (chs name) (clock (db_txm db)))) @ map (\<lambda>(a, row). row[i := v]) hits"
proof -
  let ?b = "eg_blake3 E" and ?vis = "visible_rows (chs name) (clock (db_txm db))" and ?new = "map (\<lambda>(a, row). row[i := v]) hits"
  from run obtain tx db1 db2 db3 u where bt: "begin_tx db = (Ok tx, db1)" and del: "on_table name (delete_each ?b (eg_hook E) tx (map fst hits)) db1 = (Ok (), db2)"
    and ins: "insert_each E name ?new db2 = (Ok (), db3)" and fl: "maybe_flush E db3 = (Ok u, db')" and len: "n = length hits"
    by (auto simp: apply_updates_def act_then_eq_Ok)
  from tombstone_hits [OF rep(1) t bt hits del] rep(2) obtain ch1 t1 where
    d: "table_changed ?b U name db chs db2 ch1" "bt_get (db_tables db2) name = Some t1" "same_schema t t1"
      "visible_rows ch1 (clock (db_txm db2)) = filter (\<lambda>x. \<not> P x) ?vis" "tb_row_versions t1 = tb_row_versions t"
      "store_page_count (pc_backend (db_cache db2)) = store_page_count (pc_backend (db_cache db))" "\<not> db_autocommit db2" by auto
  have d1: "db_rep ?b U db2 (chs(name := ch1))" "clock (db_txm db) < clock (db_txm db2)" using d(1) by (auto simp: table_changed_def)
  have sub: "set hits \<subseteq> set ?vis" using arg_cong [OF hits, of set_mset] by auto
  then have new: "\<forall>row \<in> set ?new. length row = length (tb_columns t1) \<and> stored_ok U row"
    using visible_width [OF rep(1) t] visible_stored [OF rep(1) t] update_stored [OF _ v] d(3) by (force simp: same_schema_def)
  have size1: "tb_row_versions t1 + length ?new \<le> usize_max" "unat (store_page_count (pc_backend (db_cache db2))) + length ?new \<le> 2 ^ 48"
    using size d(5,6) by simp_all
  from insert_each_Ok [OF d1(1) d(7,2) new size1 ins, unfolded fun_upd_upd fun_upd_same] obtain ch' news t' where
    r: "db_rep ?b U db3 (chs(name := ch'))" "chain_versions ch' = chain_versions ch1 @ news" "appends (clock (db_txm db2)) (clock (db_txm db3)) ?new news"
      "clock (db_txm db2) \<le> clock (db_txm db3)" "bt_get (db_tables db3) name = Some t'" "same_schema t1 (t'\<lparr>tb_indexes := tb_indexes t1\<rparr>)"
      "\<forall>n. n \<noteq> name \<longrightarrow> bt_get (db_tables db3) n = bt_get (db_tables db2) n" "db_autocommit db3 = db_autocommit db2" by blast
  have db': "db' = db3" using fl d(7) r(8) by (simp add: maybe_flush_def)
  have env: "\<forall>(a, w) \<in> set (chain_versions ch1). envelope_inv (clock (db_txm db2)) (fst w)" using table_envelopes [OF d1(1) d(2)] by simp
  have "visible_rows ch' (clock (db_txm db')) = filter (\<lambda>x. \<not> P x) ?vis @ rows_at news (clock (db_txm db'))"
    using rows_at_later [OF env r(4)] d(4) by (simp add: r(2) rows_at_append db')
  moreover have "visible_rows ch' s = visible_rows (chs name) s" if "s \<le> clock (db_txm db)" for s
    using that d(1) rows_appended(2) [OF r(3), of s] less_imp_le [OF le_less_trans [OF that d1(2)]] by (simp add: r(2) rows_at_append table_changed_def)
  ultimately show ?thesis using r d len rows_appended(1) [OF r(3)] less_le_trans [OF d1(2) r(4)]
    by (intro exI [of _ ch'] exI [of _ t']) (auto simp: table_changed_def db' same_schema_def simp del: fun_upd_apply)
qed

lemma updated_constraints:
  assumes rep: "db_rep blake3 U db chs" "bt_get (db_tables db) name = Some t" and i: "i < length (tb_columns t)"
    and hits: "mset hits = mset (filter P (visible_rows (chs name) tx))" "update_unique t i v hits (filter (\<lambda>x. \<not> P x) (visible_rows (chs name) tx))"
    and ok: "\<forall>row \<in> snd ` set hits. validate_row_constraints t (row[i := v]) = Ok ()" and old: "constraints_ok t (map snd (visible_rows (chs name) tx))"
  shows "constraints_ok t (map snd (filter (\<lambda>x. \<not> P x) (visible_rows (chs name) tx)) @ map (\<lambda>(a, row). row[i := v]) hits)"
proof -
  have t: "distinct (tb_columns t)" "tb_unique_columns t \<subseteq> set (tb_columns t)" using rep by (auto simp: db_rep_def table_ok_def schema_ok_def)
  have w: "\<forall>(a, r) \<in> set (visible_rows (chs name) tx). length r = length (tb_columns t)" using visible_width [OF rep] by blast
  show ?thesis using updated_unique [OF t i w hits] old ok constraints_filter [OF old, of "\<lambda>x. \<not> P x"] by (auto simp: constraints_ok_def)
qed

text \<open>
  C2: An \<^verbatim>\<open>UPDATE\<close> inside a transaction that reports success with \<open>n\<close> replaced exactly the visible rows its predicate accepts, of which there were \<open>n\<close>, by
  rows that differ in the assigned column only; the other rows stay in order, and the replacements follow them. The database invariant, the other
  tables and the older snapshots are kept, and so are all constraints: in particular no update makes a unique column ambiguous.
\<close>

theorem update_where_exact:
  assumes rep: "db_rep (eg_blake3 E) U db chs" and mode: "\<not> db_autocommit db" "db_in_transaction db"
    and t: "bt_get (db_tables db) name = Some t" "tb_row_versions t + n \<le> usize_max"
    and room: "unat (store_page_count (pc_backend (db_cache db))) + n \<le> 2 ^ 48" and v: "stored_ok U [v]"
    and run: "update_where E name column v pred (db, b, p) = (Ok n, (db', b', p'))" and n: "n \<noteq> 0"
  shows "\<exists>ch' t' i hits. table_changed (eg_blake3 E) U name db chs db' ch' \<and> bt_get (db_tables db') name = Some t' \<and>
    i < length (tb_columns t) \<and> tb_columns t ! i = column \<and> n = length hits \<and>
    mset hits = mset (filter (matches (Some pred) t) (visible_rows (chs name) (clock (db_txm db)))) \<and>
    map snd (visible_rows ch' (clock (db_txm db'))) =
      map snd (filter (\<lambda>x. \<not> matches (Some pred) t x) (visible_rows (chs name) (clock (db_txm db)))) @ map (\<lambda>(a, row). row[i := v]) hits \<and>
    (constraints_ok t (map snd (visible_rows (chs name) (clock (db_txm db)))) \<longrightarrow> constraints_ok t' (map snd (visible_rows ch' (clock (db_txm db')))))"
proof -
  let ?b = "eg_blake3 E" and ?db0 = "db\<lparr>db_synced := False\<rparr>" and ?now = "clock (db_txm db)" and ?vis = "visible_rows (chs name) (clock (db_txm db))"
  let ?P = "matches (Some pred) t"
  have rep0: "db_rep ?b U ?db0 chs" using rep by (simp add: db_rep_def)
  from run t(1) n obtain i hits db1 b1 p1 db2 b2 p2 db3 b3 p3 where ix: "column_index t column = Ok i"
    and f: "find_matches E name pred (?db0, b, p) = (Ok hits, (db1, b1, p1))"
    and cu: "check_unique_update E t column i v hits (db1, b1, p1) = (Ok (), (db2, b2, p2))"
    and vr: "validate_replacements E t i v (map snd hits) (db2, b2, p2) = (Ok (), (db3, b3, p3))"
    and rest: "atomic_mutation E (apply_updates E name i v hits) db3 = (Ok n, db')"
    unfolding update_where_def act_then_eq_Ok on_db_Ok
    by (auto simp: on_db_Ok find_table_def act_then_eq_Ok dest!: ensure_writable_Ok run_checkpoint_Ok split: if_splits)
  note i = column_index_at [OF ix]
  from find_matches_rows [OF rep0 _ f, of t] t(1) have hits: "mset hits = mset (filter ?P ?vis)" and rd1: "reads_only ?b ?db0 db1" by auto
  have rep1: "db_rep ?b U db1 chs" by (rule reads_only_rep [OF rep0 rd1])
  from rd1 have s1: "bt_get (db_tables db1) name = Some t" "clock (db_txm db1) = ?now" using t(1) by (auto simp: reads_only_def)
  from check_unique_update_Ok [OF rep1 s1(1) _ _ hits [folded s1(2)] cu] i s1(2) have
    rd2: "reads_only ?b db1 db2" and uq: "update_unique t i v hits (filter (\<lambda>x. \<not> ?P x) ?vis)" by auto
  from validate_replacements_Ok [OF vr] have db3: "db3 = db2" and ok: "\<forall>row \<in> snd ` set hits. validate_row_constraints t (row[i := v]) = Ok ()" by auto
  have rd: "reads_only ?b ?db0 db3" using reads_only_trans [OF rd1 rd2] db3 by simp
  then obtain c where s3: "db3 = ?db0\<lparr>db_cache := c\<rparr>" "untouched ?b (db_cache db) c" by (auto simp: reads_only_def)
  have rep3: "db_rep ?b U db3 chs" by (rule reads_only_rep [OF rep0 rd])
  have up: "apply_updates E name i v hits db3 = (Ok n, db')" using atomic_in_transaction [OF rest] mode(2) s3 by simp
  moreover have "bt_get (db_tables db3) name = Some t" "mset hits = mset (filter ?P (visible_rows (chs name) (clock (db_txm db3))))" "\<not> db_autocommit db3"
    using t(1) s3 hits mode(1) by simp_all
  moreover have "length hits = n" using up by (auto simp: apply_updates_def act_then_eq_Ok)
  ultimately obtain ch' t' where
    u: "table_changed ?b U name db3 chs db' ch'" "bt_get (db_tables db') name = Some t'" "same_schema t (t'\<lparr>tb_indexes := tb_indexes t\<rparr>)" "n = length hits"
      "map snd (visible_rows ch' (clock (db_txm db'))) = map snd (filter (\<lambda>x. \<not> ?P x) ?vis) @ map (\<lambda>(a, row). row[i := v]) hits"
    using apply_updates_Ok [OF rep3, of name t hits ?P v i n db'] t(2) room v s3 by (auto simp: untouched_def)
  have "constraints_ok t' rs = constraints_ok t rs" for rs using u(3) by (intro same_schema_constraints) (auto simp: same_schema_def)
  moreover have "table_changed ?b U name db chs db' ch'" using u(1) s3 by (simp add: table_changed_def)
  moreover have "constraints_ok t (map snd (filter (\<lambda>x. \<not> ?P x) ?vis) @ map (\<lambda>(a, row). row[i := v]) hits)" if "constraints_ok t (map snd ?vis)"
    by (rule updated_constraints [OF rep t(1) conjunct1 [OF i] hits uq ok that])
  ultimately show ?thesis using u i hits by (intro exI [of _ ch'] exI [of _ t'] exI [of _ i] exI [of _ hits]) auto
qed

theorem update_where_exact_witness:
  "\<exists>c t ch db' ch' s. map snd (visible_rows ch 1) = [[VNull]] \<and> update_where sample_engine [116] [97] (VInt 5) sample_pred (database_of c t 1, None, None) = (Ok 1, (db', s)) \<and>
     table_changed sample_digest {} [116] (database_of c t 1) (\<lambda>_. ch) db' ch' \<and> map snd (visible_rows ch' (clock (db_txm db'))) = [[VInt 5]]"
proof -
  obtain c t a ch where f: "filled c t a ch" using sample_filled by blast
  from sample_update [OF f] obtain db' b p where
    run: "update_where sample_engine [116] [97] (VInt 5) sample_pred (database_of c t 1, None, None) = (Ok 1, (db', b, p))" by (metis surj_pair)
  let ?db = "database_of c t 1"
  have h: "db_rep (eg_blake3 sample_engine) {} ?db (\<lambda>_. ch)" "\<not> db_autocommit ?db" "db_in_transaction ?db" "bt_get (db_tables ?db) [116] = Some t"
    "tb_row_versions t + 1 \<le> usize_max" "unat (store_page_count (pc_backend (db_cache ?db))) + 1 \<le> 2 ^ 48" "stored_ok {} [VInt 5]"
    using filledD(1) [OF f, of 1] filledD(9,10) [OF f] by (simp_all add: sample_engine_simps usize_max_def stored_ok_def row_ok_def) (simp_all add: database_of_def)
  have v: "visible_rows ch (clock (db_txm ?db)) = [(a, [VNull])]" using filled_visible [OF f] by (simp add: database_of_def)
  from update_where_exact [OF h run] obtain ch' i hits where
    u: "table_changed (eg_blake3 sample_engine) {} [116] ?db (\<lambda>_. ch) db' ch'" "i < length (tb_columns t)" "mset hits = {#(a, [VNull])#}"
      "map snd (visible_rows ch' (clock (db_txm db'))) = map (\<lambda>(a, row). row[i := VInt 5]) hits"
    unfolding v using sample_matches [OF filledD(6) [OF f]] by auto
  have "hits = [(a, [VNull])]" "i = 0" using u(2,3) filledD(6) [OF f] by (auto simp: same_schema_def sample_table_def mset_single_iff)
  with u(1,4) run filled_visible [OF f] show ?thesis
    by (intro exI [of _ c] exI [of _ t] exI [of _ ch] exI [of _ db'] exI [of _ ch'] exI [of _ "(b, p)"]) (simp add: sample_engine_simps)
qed

end
