(* ===== verification/Spec2Isabelle.thy ===== *)
theory Spec2Isabelle
  imports Mvcc Compress Sec_Index Vle Interp_Exec Index_Plan Grouping Envelope_Scan Sql_Roundtrip Statement_Laws
begin

text \<open>
  PicoVolt is an embedded SQL database written in Rust: one workspace directory, or one read-only image baked from it, is opened in the process
  of its client. A statement travels as follows. \<^verbatim>\<open>src/engine/query.rs\<close> tokenizes and parses it; \<^verbatim>\<open>src/db.rs\<close> validates it, finds the rows it is about
  (through a secondary index of \<^verbatim>\<open>src/storage/index.rs\<close> or by scanning the page chain of the table), filters, joins, groups and projects them, or
  appends and tombstones record versions under a transaction id of \<^verbatim>\<open>src/engine/mvcc.rs\<close>; rows become bytes in \<^verbatim>\<open>src/storage/record.rs\<close>, with large
  payloads in the blob store of \<^verbatim>\<open>src/storage/cas.rs\<close>; records lie in the pages of \<^verbatim>\<open>src/storage/page.rs\<close>, which reach a page store of
  \<^verbatim>\<open>src/storage/vle.rs\<close> through the buffer pool of \<^verbatim>\<open>src/storage/cache.rs\<close>. User functions are WebAssembly modules run by \<^verbatim>\<open>src/engine/interp.rs\<close>.

  \<^bold>\<open>How the code is modelled.\<close> A function that may fail returns a \<open>result\<close>: \<open>Ok\<close>, \<open>Err\<close> with the variant of \<^verbatim>\<open>PvError\<close> the code returns (its message is
  the format template), or \<open>Panic\<close> where Rust would panic (an index out of range, a failed \<^verbatim>\<open>expect\<close>, an overflow in checked arithmetic, \<^verbatim>\<open>unreachable!\<close>).
  A method with \<^verbatim>\<open>&mut self\<close> is an \<open>action\<close>: a function from the state to the result and the new state, and \<open>act_then\<close> is the \<^verbatim>\<open>?\<close> operator; state
  written before a failure stays written. Machine integers are words of their width; \<^verbatim>\<open>usize\<close> quantities that count things in memory are natural
  numbers bounded by \<open>usize_max\<close>. A \<^verbatim>\<open>BTreeMap\<close> is the sorted list of its entries. Loops are recursive functions that terminate, or carry the bound
  the code itself carries.

  \<^bold>\<open>Theories and what they show\<close>, from the bottom up:

  \<^item> \<open>Pv_Prelude\<close> (\<^verbatim>\<open>core/errors.rs\<close>), \<open>File_System\<close>, \<open>Btree_Map\<close>: results, actions, little-endian integers, byte readers, the files the storage layer
    touches, ordered maps. The locales \<open>safe_reader\<close>, \<open>codec\<close> and \<open>strict_codec\<close> state what a decoder owes its encoder and prove that composed
    decoders keep it; every decoder of the storage layer is an interpretation. \<open>ordered_map\<close> does the same for maps.
  \<^item> \<open>Core_Types\<close>, \<open>Value\<close>, \<open>Mvcc\<close> (\<^verbatim>\<open>core/types.rs\<close>, \<^verbatim>\<open>core/value.rs\<close>, \<^verbatim>\<open>engine/mvcc.rs\<close>): layouts, addresses, the total order of values, the clock
    and the window of snapshots in which a record version is visible.
  \<^item> \<open>Leb128\<close>, \<open>Compress\<close>, \<open>Record_Codec\<close>, \<open>Cas\<close> (\<^verbatim>\<open>storage/compress.rs\<close>, \<^verbatim>\<open>storage/record.rs\<close>, \<^verbatim>\<open>storage/cas.rs\<close>): round trips of the codecs, decoders
    that accept exactly what the encoder writes, and the blob store as a refinement of a deduplicating list (\<open>blob_store\<close>, which the record codec
    uses as its interface).
  \<^item> \<open>Row_Page\<close>, \<open>Columnar_Page\<close>, \<open>Cold_Page\<close>, \<open>Sec_Index\<close> (\<^verbatim>\<open>storage/page.rs\<close>, \<^verbatim>\<open>storage/index.rs\<close>): slotted pages as lists of records, column transposition
    and back, behaviour on untrusted bytes, and the index as a multimap.
  \<^item> \<open>Vle\<close>, \<open>Page_Cache\<close> (\<^verbatim>\<open>storage/vle.rs\<close>, \<^verbatim>\<open>storage/cache.rs\<close>): page stores behind the interface \<open>page_store\<close>, checksums, baking and opening an image, and the
    write-back cache as a transparent layer over any page store, with the flush that makes it durable.
  \<^item> \<open>Page_Chain\<close>, \<open>Version_Store\<close>, \<open>Table_Store\<close>, \<open>Table_Delete\<close>, \<open>Table_Reads\<close>, \<open>Table_Laws\<close> (\<^verbatim>\<open>db.rs\<close>, the page chain of a table): \<open>Page_Chain\<close> holds the code; the others
    relate it to the abstract table, the list of its pages with the record versions each holds. \<open>table_rep\<close> is the representation invariant. A scan
    and a read by address that succeed return that list and its members on any pool, and do succeed when the pool cannot fail (\<open>ready\<close> below); an append
    and a tombstone change it as they should; and \<open>version_store\<close> derives snapshot isolation from those laws.
  \<^item> \<open>Query_Ast\<close>, \<open>Like_Match\<close>, \<open>Predicates\<close>, \<open>Index_Plan\<close>, \<open>Aggregates\<close>, \<open>Projection\<close>, \<open>Grouping\<close> (\<^verbatim>\<open>db.rs\<close>, \<^verbatim>\<open>db/aggregate.rs\<close>, the syntax of \<^verbatim>\<open>engine/query.rs\<close>): predicates in
    three-valued logic, index selection that loses no row, exact sums and means, partial sorting, and the streaming \<^verbatim>\<open>GROUP BY\<close> against its reference (which
    it meets but for one case: an aggregate over a missing column when there are no rows).
  \<^item> \<open>Row_Lookup\<close>, \<open>Envelope_Scan\<close> (\<^verbatim>\<open>db.rs\<close>): lookups through an index or a scan with budgets; both return exactly the visible matching rows.
  \<^item> \<open>Statements\<close>, \<open>Db_Invariant\<close>, \<open>Statement_Runs\<close>, \<open>Statement_Laws\<close> (\<^verbatim>\<open>db.rs\<close>): the statements that change a database. \<open>db_rep\<close> is the invariant of the whole database
    (every table well formed, indexes complete, envelopes not from the future, stored rows encodable, no page shared by two tables). \<^verbatim>\<open>INSERT\<close>,
    \<^verbatim>\<open>UPDATE\<close> and \<^verbatim>\<open>DELETE\<close> keep it and change the visible rows exactly as they should, constraints included; in memory an \<^verbatim>\<open>INSERT\<close> succeeds.
  \<^item> \<open>Utf8\<close>, \<open>Sql_Lexer\<close>, \<open>Sql_Bind\<close>, \<open>Sql_Parser\<close>, \<open>Sql_Parse_Laws\<close>, \<open>Sql_Print\<close>, \<open>Sql_Items\<close>, \<open>Sql_Roundtrip\<close> (\<^verbatim>\<open>engine/query.rs\<close>): tokenizer, parameter binding and
    parser. Binding cannot inject; the parser never panics, respects its limits, and inverts a printer for predicates, select lists and statements. The
    printer has no form for \<^verbatim>\<open>HAVING\<close>, joins, table aliases, \<^verbatim>\<open>CREATE TABLE\<close> and retrieval indexes.
  \<^item> \<open>Interp_Decode\<close>, \<open>Interp_Exec\<close> (\<^verbatim>\<open>engine/interp.rs\<close>): the decoder and the stack machine. No module and no input makes them panic, divisions and
    slice conversions included; a decoded body has the block targets of its nesting; and a run agrees, step by step, with a machine without limits
    (\<open>mstep\<close>) until the instruction budget or the call depth stops it.

  \<^bold>\<open>Bounds and fuel.\<close> The interpreter runs on the code's own instruction budget \<^verbatim>\<open>MAX_INSTRUCTIONS\<close> and call depth, so its recursion is on values the program
  has. A walk over a page chain takes at most \<^verbatim>\<open>max_hops\<close> steps, the count the code computes from the size of the store; that a well-formed chain is
  shorter is proved. The parser's recursion takes the number of remaining tokens plus one as fuel: the lemmas of \<open>Sql_Parse_Laws\<close> show that every
  recursive call leaves fewer tokens, so the fuel is never used up; the limits on nesting (64 parentheses, scalar depth 65) and on predicate nodes (256) are
  the code's. \<open>ready n\<close> says of a buffer pool that \<open>n\<close> more pages can be served: the backend is in memory or nothing is dirty, and the LRU clock
  does not overflow.

  \<^bold>\<open>Parameters.\<close> Code that is not in the repository is an argument: BLAKE3 (\<open>hash_fn\<close>; collision freedom on the blobs at hand is a hypothesis where it
  is needed), the journal hook that runs before a page is written, the reader of a remote image, the clock and the cancellation flag of a query budget,
  Unicode character classes and case mapping, the in-memory size of rows (\<open>ly_row\<close>, \<open>ly_value\<close>), the pivot choice of \<^verbatim>\<open>select_nth_unstable_by\<close>, and in \<open>engine\<close>
  the steps of a transaction and of publishing a manifest.

  \<^bold>\<open>Not modelled.\<close> The undo journal and the commit log (\<^verbatim>\<open>journal.rs\<close>) beyond the hook: their correctness is the order in which directories and files
  reach the disk across a crash, on top of \<^verbatim>\<open>serde_json\<close> documents. Opening a workspace, its manifest, imports and migrations (\<^verbatim>\<open>serde_json\<close> again);
  compaction, statistics and joins of \<^verbatim>\<open>db.rs\<close>; retrieval indexes (\<^verbatim>\<open>retrieval.rs\<close>, \<^verbatim>\<open>persistent.rs\<close>: floating-point scores); threads and OS locks
  (\<^verbatim>\<open>concurrent.rs\<close>); the \<^verbatim>\<open>wasmi\<close> engine (\<^verbatim>\<open>engine/wasm.rs\<close>); the foreign-function interface, language bindings, command-line tools and the server, which only
  convert arguments and print. The streaming aggregation is modelled for a query without a budget; the parser's error positions are not modelled.
\<close>

end
